(* ===== verification/Prelude.thy ===== *)
theory Prelude
  imports Main "HOL-Library.Word" "HOL-Library.Multiset"
begin

text \<open>
  Shared vocabulary of the development: the machine integer types of
  \<^verbatim>\<open>src/src/include/c.h\<close>, the error values that stand for
  \<^verbatim>\<open>ereport(ERROR/FATAL/PANIC, ...)\<close>, the alignment macro, and the
  generic facts on lists, words and error results that the component theories use.
  Two fact collections carry the component proofs: \<open>array_simps\<close> for the
  length and element of an updated array, \<open>result_simps\<close> for sequenced
  fallible operations.
\<close>

unbundle bit_operations_syntax

named_theorems array_simps \<open>length and element facts of array operations\<close>
named_theorems result_simps \<open>facts on sequenced fallible operations\<close>

subsection \<open>Machine integers\<close>

type_synonym uint8 = "8 word"
type_synonym uint16 = "16 word"
type_synonym uint32 = "32 word"
type_synonym uint64 = "64 word"
type_synonym Oid = "32 word"

text \<open>The greatest values of the signed types \<^verbatim>\<open>int\<close> and \<^verbatim>\<open>long\<close>.\<close>

definition INT_MAX :: int where "INT_MAX = 2 ^ 31 - 1"
definition LONG_MAX :: int where "LONG_MAX = 2 ^ 63 - 1"

subsection \<open>Errors raised by ereport and elog\<close>

text \<open>
  A call of \<^verbatim>\<open>ereport\<close> at level ERROR or above does not return: it is the
  left value of a result, with its level and its SQLSTATE class. Calls below ERROR
  (WARNING, DEBUG) return and do not change state, so they have no value here.
\<close>

datatype elevel = ERROR | FATAL | PANIC

datatype errcode =
    ERRCODE_DATA_EXCEPTION
  | ERRCODE_UNEXPECTED_NULL_VALUE
  | ERRCODE_INVALID_PARAMETER_VALUE
  | ERRCODE_INVALID_TEXT_REPRESENTATION
  | ERRCODE_DATA_CORRUPTED
  | ERRCODE_DATATYPE_MISMATCH
  | ERRCODE_INVALID_ROW_COUNT_IN_RESULT_OFFSET_CLAUSE
  | ERRCODE_PROGRAM_LIMIT_EXCEEDED
  | ERRCODE_FEATURE_NOT_SUPPORTED
  | ERRCODE_INTERNAL_ERROR
  | ERRCODE_OUT_OF_MEMORY
  | ERRCODE_DIVISION_BY_ZERO
  | ERRCODE_NUMERIC_VALUE_OUT_OF_RANGE
  | ERRCODE_INVALID_ATTRIBUTE
  | ERRCODE_INVALID_OPERATION
  | ERRCODE_CHECK_VIOLATION

datatype pg_error = Ereport elevel errcode

type_synonym 'a result = "pg_error + 'a"

text \<open>
  Sequencing of fallible operations, and a fold that stops at the first error: a loop
  whose body may raise.
\<close>

definition bindE :: "'e + 'a \<Rightarrow> ('a \<Rightarrow> 'e + 'b) \<Rightarrow> 'e + 'b" where
  "bindE m f = (case m of Inl e \<Rightarrow> Inl e | Inr a \<Rightarrow> f a)"

lemma bindE_Inl [simp, result_simps]: "bindE (Inl e) f = Inl e"
  by (simp add: bindE_def)

lemma bindE_Inr [simp, result_simps]: "bindE (Inr a) f = f a"
  by (simp add: bindE_def)

lemma bindE_eq_Inr [result_simps]:
  "bindE m f = Inr b \<longleftrightarrow> (\<exists>a. m = Inr a \<and> f a = Inr b)"
  by (cases m) auto

lemma bindE_eq_Inl [result_simps]:
  "bindE m f = Inl e \<longleftrightarrow> m = Inl e \<or> (\<exists>a. m = Inr a \<and> f a = Inl e)"
  by (cases m) auto

subsection \<open>Alignment\<close>

text \<open>
  \<^verbatim>\<open>MAXALIGN(LEN)\<close> of c.h with \<^verbatim>\<open>MAXIMUM_ALIGNOF\<close> 8: the least
  multiple of 8 that is not below LEN.
\<close>

definition MAXALIGN :: "nat \<Rightarrow> nat" where
  "MAXALIGN len = (len + 7) div 8 * 8"

lemma MAXALIGN_ge: "len \<le> MAXALIGN len"
  by (simp add: MAXALIGN_def)

lemma MAXALIGN_less: "MAXALIGN len < len + 8"
  by (simp add: MAXALIGN_def)

lemma MAXALIGN_dvd: "8 dvd MAXALIGN len"
  by (simp add: MAXALIGN_def)

lemma MAXALIGN_id_iff: "MAXALIGN len = len \<longleftrightarrow> 8 dvd len"
proof
  assume "MAXALIGN len = len"
  then show "8 dvd len" using MAXALIGN_dvd [of len] by simp
next
  assume "8 dvd len"
  then show "MAXALIGN len = len" by (auto simp: MAXALIGN_def dvd_def)
qed

lemma MAXALIGN_idem [simp]: "MAXALIGN (MAXALIGN len) = MAXALIGN len"
  by (simp add: MAXALIGN_id_iff MAXALIGN_dvd)

lemma MAXALIGN_pos: "0 < len \<Longrightarrow> 0 < MAXALIGN len"
  using MAXALIGN_ge [of len] by linarith

lemma MAXALIGN_mono_mult: "8 dvd m \<Longrightarrow> len \<le> m \<Longrightarrow> MAXALIGN len \<le> m"
  by (auto simp: MAXALIGN_def dvd_def)

subsection \<open>Words\<close>

lemma word_neq_zero_iff_bit:
  fixes w :: "'a::len word"
  shows "w \<noteq> 0 \<longleftrightarrow> (\<exists>i < LENGTH('a). bit w i)"
  by (auto simp: bit_eq_iff dest: bit_imp_le_length)

lemma shifted_one_bit:
  fixes i :: nat
  assumes "i < LENGTH('a)"
  shows "bit (push_bit i (1 :: 'a::len word)) j \<longleftrightarrow> j = i"
  using assms by (auto simp: bit_simps)

lemma unat_drop_byte_less:
  fixes w :: "'a::len word"
  assumes "w \<noteq> 0"
  shows "unat (drop_bit 8 w) < unat w"
proof -
  have "unat (drop_bit 8 w) = drop_bit 8 (unat w)"
    by (rule unat_drop_bit_eq)
  also have "\<dots> = unat w div 256"
    by (simp add: drop_bit_eq_div)
  finally have "unat (drop_bit 8 w) = unat w div 256" .
  moreover have "0 < unat w" using assms by (simp add: unat_gt_0)
  ultimately show ?thesis by simp
qed

end
