(* ===== verification/HashFunc.thy ===== *)
theory HashFunc
  imports Prelude
begin

text \<open>
  The hash functions of \<^verbatim>\<open>src/src/gausskernel/storage/access/hash/hashfunc.cpp\<close>
  (Jenkins lookup3: \<open>rot\<close>, \<open>mix\<close>, \<open>final\<close>, \<open>hash_any\<close>,
  \<open>hash_uint32\<close>) and the key hash functions of
  \<^verbatim>\<open>src/src/common/backend/utils/hash/hashfn.cpp\<close> built on them.
  A key is the list of its bytes. The byte order of the machine (the \<open>#ifdef\<close> on
  \<^verbatim>\<open>WORDS_BIGENDIAN\<close>) and whether the key's address is word-aligned are
  arguments, so that all four code paths of \<open>hash_any\<close> are modelled and shown to
  agree.
\<close>

subsection \<open>Mixing\<close>

datatype byte_order = WORDS_BIGENDIAN | WORDS_LITTLEENDIAN

type_synonym abc = "uint32 \<times> uint32 \<times> uint32"

definition rot :: "uint32 \<Rightarrow> nat \<Rightarrow> uint32" where
  "rot x k = push_bit k x OR drop_bit (32 - k) x"

fun mix :: "abc \<Rightarrow> abc" where
  "mix (a, b, c) =
    (let a = a - c; a = a XOR rot c 4; c = c + b;
         b = b - a; b = b XOR rot a 6; a = a + c;
         c = c - b; c = c XOR rot b 8; b = b + a;
         a = a - c; a = a XOR rot c 16; c = c + b;
         b = b - a; b = b XOR rot a 19; a = a + c;
         c = c - b; c = c XOR rot b 4; b = b + a
     in (a, b, c))"

fun final :: "abc \<Rightarrow> abc" where
  "final (a, b, c) =
    (let c = c XOR b; c = c - rot b 14;
         a = a XOR c; a = a - rot c 11;
         b = b XOR a; b = b - rot a 25;
         c = c XOR b; c = c - rot b 16;
         a = a XOR c; a = a - rot c 4;
         b = b XOR a; b = b - rot a 14;
         c = c XOR b; c = c - rot b 24
     in (a, b, c))"

subsection \<open>hash_any\<close>

text \<open>
  \<open>byte_at k i s\<close> is \<^verbatim>\<open>((uint32)k[i] << s)\<close>; \<open>fetch_word\<close> is the
  word-wide read \<^verbatim>\<open>ka[i]\<close> through a \<^verbatim>\<open>uint32*\<close> pointer, whose
  value depends on the byte order of the machine.
\<close>

definition byte_at :: "uint8 list \<Rightarrow> nat \<Rightarrow> nat \<Rightarrow> uint32" where
  "byte_at k i s = push_bit s (ucast (k ! i))"

definition fetch_word :: "byte_order \<Rightarrow> uint8 list \<Rightarrow> nat \<Rightarrow> uint32" where
  "fetch_word e k i = (case e of
     WORDS_LITTLEENDIAN \<Rightarrow>
       byte_at k (4 * i) 0 OR byte_at k (4 * i + 1) 8 OR
       byte_at k (4 * i + 2) 16 OR byte_at k (4 * i + 3) 24
   | WORDS_BIGENDIAN \<Rightarrow>
       byte_at k (4 * i) 24 OR byte_at k (4 * i + 1) 16 OR
       byte_at k (4 * i + 2) 8 OR byte_at k (4 * i + 3) 0)"

text \<open>The loops over twelve-byte blocks: word fetches when aligned, byte sums otherwise.\<close>

function hash_any_aligned_loop :: "byte_order \<Rightarrow> uint8 list \<Rightarrow> abc \<Rightarrow> uint8 list \<times> abc" where
  "hash_any_aligned_loop e k (a, b, c) =
     (if 12 \<le> length k
      then hash_any_aligned_loop e (drop 12 k)
             (mix (a + fetch_word e k 0, b + fetch_word e k 1, c + fetch_word e k 2))
      else (k, a, b, c))"
  by pat_completeness auto
termination
  by (relation "measure (\<lambda>(e, k, s). length k)") auto

definition sum_word :: "byte_order \<Rightarrow> uint8 list \<Rightarrow> nat \<Rightarrow> uint32" where
  "sum_word e k i = (case e of
     WORDS_BIGENDIAN \<Rightarrow>
       byte_at k (i + 3) 0 + byte_at k (i + 2) 8 + byte_at k (i + 1) 16 + byte_at k i 24
   | WORDS_LITTLEENDIAN \<Rightarrow>
       byte_at k i 0 + byte_at k (i + 1) 8 + byte_at k (i + 2) 16 + byte_at k (i + 3) 24)"

function hash_any_unaligned_loop :: "byte_order \<Rightarrow> uint8 list \<Rightarrow> abc \<Rightarrow> uint8 list \<times> abc" where
  "hash_any_unaligned_loop e k (a, b, c) =
     (if 12 \<le> length k
      then hash_any_unaligned_loop e (drop 12 k)
             (mix (a + sum_word e k 0, b + sum_word e k 4, c + sum_word e k 8))
      else (k, a, b, c))"
  by pat_completeness auto
termination
  by (relation "measure (\<lambda>(e, k, s). length k)") auto

text \<open>
  The four \<^verbatim>\<open>switch (len)\<close> statements on the last 11 bytes. A case label falls
  through to the smaller ones, so a statement under label \<open>n\<close> runs when
  \<open>n \<le> len\<close>; the aligned paths leave the switch after the labels 8 and 4.
\<close>

definition add_if :: "bool \<Rightarrow> uint32 \<Rightarrow> uint32 \<Rightarrow> uint32" where
  "add_if p x y = (if p then x + y else x)"

fun hash_tail_aligned_be :: "uint8 list \<Rightarrow> abc \<Rightarrow> abc" where
  "hash_tail_aligned_be k (a, b, c) =
    (let len = length k;
         c = add_if (11 \<le> len) c (byte_at k 10 8);
         c = add_if (10 \<le> len) c (byte_at k 9 16);
         c = add_if (9 \<le> len) c (byte_at k 8 24)
     in if 8 \<le> len then (a + fetch_word WORDS_BIGENDIAN k 0, b + fetch_word WORDS_BIGENDIAN k 1, c)
        else
          let b = add_if (7 \<le> len) b (byte_at k 6 8);
              b = add_if (6 \<le> len) b (byte_at k 5 16);
              b = add_if (5 \<le> len) b (byte_at k 4 24)
          in if 4 \<le> len then (a + fetch_word WORDS_BIGENDIAN k 0, b, c)
             else
               let a = add_if (3 \<le> len) a (byte_at k 2 8);
                   a = add_if (2 \<le> len) a (byte_at k 1 16);
                   a = add_if (1 \<le> len) a (byte_at k 0 24)
               in (a, b, c))"

fun hash_tail_aligned_le :: "uint8 list \<Rightarrow> abc \<Rightarrow> abc" where
  "hash_tail_aligned_le k (a, b, c) =
    (let len = length k;
         c = add_if (11 \<le> len) c (byte_at k 10 24);
         c = add_if (10 \<le> len) c (byte_at k 9 16);
         c = add_if (9 \<le> len) c (byte_at k 8 8)
     in if 8 \<le> len
        then (a + fetch_word WORDS_LITTLEENDIAN k 0, b + fetch_word WORDS_LITTLEENDIAN k 1, c)
        else
          let b = add_if (7 \<le> len) b (byte_at k 6 16);
              b = add_if (6 \<le> len) b (byte_at k 5 8);
              b = add_if (5 \<le> len) b (byte_at k 4 0)
          in if 4 \<le> len then (a + fetch_word WORDS_LITTLEENDIAN k 0, b, c)
             else
               let a = add_if (3 \<le> len) a (byte_at k 2 16);
                   a = add_if (2 \<le> len) a (byte_at k 1 8);
                   a = add_if (1 \<le> len) a (byte_at k 0 0)
               in (a, b, c))"

fun hash_tail_unaligned_be :: "uint8 list \<Rightarrow> abc \<Rightarrow> abc" where
  "hash_tail_unaligned_be k (a, b, c) =
    (let len = length k;
         c = add_if (11 \<le> len) c (byte_at k 10 8);
         c = add_if (10 \<le> len) c (byte_at k 9 16);
         c = add_if (9 \<le> len) c (byte_at k 8 24);
         b = add_if (8 \<le> len) b (byte_at k 7 0);
         b = add_if (7 \<le> len) b (byte_at k 6 8);
         b = add_if (6 \<le> len) b (byte_at k 5 16);
         b = add_if (5 \<le> len) b (byte_at k 4 24);
         a = add_if (4 \<le> len) a (byte_at k 3 0);
         a = add_if (3 \<le> len) a (byte_at k 2 8);
         a = add_if (2 \<le> len) a (byte_at k 1 16);
         a = add_if (1 \<le> len) a (byte_at k 0 24)
     in (a, b, c))"

fun hash_tail_unaligned_le :: "uint8 list \<Rightarrow> abc \<Rightarrow> abc" where
  "hash_tail_unaligned_le k (a, b, c) =
    (let len = length k;
         c = add_if (11 \<le> len) c (byte_at k 10 24);
         c = add_if (10 \<le> len) c (byte_at k 9 16);
         c = add_if (9 \<le> len) c (byte_at k 8 8);
         b = add_if (8 \<le> len) b (byte_at k 7 24);
         b = add_if (7 \<le> len) b (byte_at k 6 16);
         b = add_if (6 \<le> len) b (byte_at k 5 8);
         b = add_if (5 \<le> len) b (byte_at k 4 0);
         a = add_if (4 \<le> len) a (byte_at k 3 24);
         a = add_if (3 \<le> len) a (byte_at k 2 16);
         a = add_if (2 \<le> len) a (byte_at k 1 8);
         a = add_if (1 \<le> len) a (byte_at k 0 0)
     in (a, b, c))"

definition hash_any :: "byte_order \<Rightarrow> bool \<Rightarrow> uint8 list \<Rightarrow> uint32" where
  "hash_any e aligned k =
    (let len = of_nat (length k);
         a = 0x9e3779b9 + len + 3923095;
         s = (if aligned then
                (let (k, s) = hash_any_aligned_loop e k (a, a, a)
                 in case e of WORDS_BIGENDIAN \<Rightarrow> hash_tail_aligned_be k s
                            | WORDS_LITTLEENDIAN \<Rightarrow> hash_tail_aligned_le k s)
              else
                (let (k, s) = hash_any_unaligned_loop e k (a, a, a)
                 in case e of WORDS_BIGENDIAN \<Rightarrow> hash_tail_unaligned_be k s
                            | WORDS_LITTLEENDIAN \<Rightarrow> hash_tail_unaligned_le k s));
         (a, b, c) = final s
     in c)"

definition hash_uint32 :: "uint32 \<Rightarrow> uint32" where
  "hash_uint32 k =
    (let a = 0x9e3779b9 + 4 + 3923095;
         (a, b, c) = final (a + k, a, a)
     in c)"

text \<open>How a \<^verbatim>\<open>uint32\<close> lies in memory: its bytes in the machine's order.\<close>

definition word_bytes :: "byte_order \<Rightarrow> uint32 \<Rightarrow> uint8 list" where
  "word_bytes e w = (case e of
     WORDS_LITTLEENDIAN \<Rightarrow>
       [ucast w, ucast (drop_bit 8 w), ucast (drop_bit 16 w), ucast (drop_bit 24 w)]
   | WORDS_BIGENDIAN \<Rightarrow>
       [ucast (drop_bit 24 w), ucast (drop_bit 16 w), ucast (drop_bit 8 w), ucast w])"

subsection \<open>Hash functions for hash table keys\<close>

text \<open>
  \<open>string_hash\<close> hashes the bytes before the terminating zero, at most
  \<open>keysize - 1\<close> of them; the subtraction is on the unsigned type \<open>Size\<close>.
\<close>

definition string_hash :: "byte_order \<Rightarrow> bool \<Rightarrow> uint8 list \<Rightarrow> nat \<Rightarrow> uint32" where
  "string_hash e aligned key keysize =
    (let s_len = length (takeWhile (\<lambda>ch. ch \<noteq> 0) key);
         s_len = min s_len (unat (of_nat keysize - 1 :: uint64))
     in hash_any e aligned (take s_len key))"

definition tag_hash :: "byte_order \<Rightarrow> bool \<Rightarrow> uint8 list \<Rightarrow> nat \<Rightarrow> uint32" where
  "tag_hash e aligned key keysize = hash_any e aligned (take keysize key)"

definition oid_hash :: "Oid \<Rightarrow> uint32" where
  "oid_hash key = hash_uint32 key"

definition uint32_hash :: "uint32 \<Rightarrow> uint32" where
  "uint32_hash key = hash_uint32 key"

subsection \<open>Word fetches and byte sums\<close>

declare hash_any_aligned_loop.simps [simp del] hash_any_unaligned_loop.simps [simp del]
declare mix.simps [simp del] final.simps [simp del]

lemma bit_byte_at: "bit (byte_at k i s) n \<longleftrightarrow> s \<le> n \<and> n < 32 \<and> n - s < 8 \<and> bit (k ! i) (n - s)"
  by (auto simp: byte_at_def bit_simps dest: bit_imp_le_length)

lemma byte_at_disjoint:
  "s + 8 \<le> t \<or> t + 8 \<le> s \<Longrightarrow> byte_at k i s AND byte_at l j t = 0"
  by (rule bit_eqI) (auto simp: bit_byte_at bit_simps)

lemma disjoint_sum4:
  fixes w x y z :: uint32
  assumes "w AND x = 0" "w AND y = 0" "w AND z = 0" "x AND y = 0" "x AND z = 0" "y AND z = 0"
  shows "w + x + y + z = w OR x OR y OR z"
proof -
  have "w + x = w OR x" using assms(1) by (rule disjunctive_add_eq_or)
  moreover have "(w OR x) AND y = 0" using assms(2,4) by (simp add: bit.conj_disj_distrib2)
  then have "(w OR x) + y = (w OR x) OR y" by (rule disjunctive_add_eq_or)
  moreover have "((w OR x) OR y) AND z = 0" using assms(3,5,6) by (simp add: bit.conj_disj_distrib2)
  then have "((w OR x) OR y) + z = ((w OR x) OR y) OR z" by (rule disjunctive_add_eq_or)
  ultimately show ?thesis by (simp add: or.assoc)
qed

lemma sum_word_eq_fetch_word: "sum_word e k (4 * i) = fetch_word e k i"
  by (cases e) (simp_all add: sum_word_def fetch_word_def disjoint_sum4 byte_at_disjoint or.commute or.left_commute)

lemma hash_any_loops_agree:
  "hash_any_unaligned_loop e k s = hash_any_aligned_loop e k s"
proof (induction e k s rule: hash_any_aligned_loop.induct)
  case (1 e k a b c)
  then show ?case
    using sum_word_eq_fetch_word [of e k 0] sum_word_eq_fetch_word [of e k 1]
      sum_word_eq_fetch_word [of e k 2]
    by (simp add: hash_any_aligned_loop.simps [of e k a b c]
          hash_any_unaligned_loop.simps [of e k a b c])
qed


lemma add_word_bytes:
  "byte_at k 3 24 + (byte_at k 2 16 + (byte_at k (Suc 0) 8 + byte_at k 0 0))
     = fetch_word WORDS_LITTLEENDIAN k 0"
  "byte_at k 7 24 + (byte_at k 6 16 + (byte_at k 5 8 + byte_at k 4 0))
     = fetch_word WORDS_LITTLEENDIAN k (Suc 0)"
  "byte_at k 3 0 + (byte_at k 2 8 + (byte_at k (Suc 0) 16 + byte_at k 0 24))
     = fetch_word WORDS_BIGENDIAN k 0"
  "byte_at k 7 0 + (byte_at k 6 8 + (byte_at k 5 16 + byte_at k 4 24))
     = fetch_word WORDS_BIGENDIAN k (Suc 0)"
  using sum_word_eq_fetch_word [of _ k 0, symmetric] sum_word_eq_fetch_word [of _ k 1, symmetric]
  by (simp_all add: sum_word_def ac_simps numeral_2_eq_2)

lemma hash_tails_agree_le: "hash_tail_unaligned_le k s = hash_tail_aligned_le k s"
  by (cases s) (auto simp: Let_def add_if_def add_word_bytes add.assoc)

lemma hash_tails_agree_be: "hash_tail_unaligned_be k s = hash_tail_aligned_be k s"
  by (cases s) (auto simp: Let_def add_if_def add_word_bytes add.assoc)

lemma hash_any_alignment: "hash_any e al k = hash_any e al' k"
  unfolding hash_any_def hash_any_loops_agree hash_tails_agree_le hash_tails_agree_be
  by (cases al; cases al') simp_all

lemma byte_index_cases:
  fixes n :: nat
  assumes "n < 32"
  obtains (b0) "n < 8" | (b1) m where "n = 8 + m" "m < 8" | (b2) m where "n = 16 + m" "m < 8"
    | (b3) m where "n = 24 + m" "m < 8"
proof -
  consider "n < 8" | "8 \<le> n" "n < 16" | "16 \<le> n" "n < 24" | "24 \<le> n" by linarith
  then show thesis
  proof cases
    case 1 then show ?thesis by (rule b0)
  next
    case 2 then show ?thesis using b1 [of "n - 8"] by simp
  next
    case 3 then show ?thesis using b2 [of "n - 16"] by simp
  next
    case 4 then show ?thesis using b3 [of "n - 24"] assms by simp
  qed
qed

lemma length_word_bytes [simp, array_simps]: "length (word_bytes e w) = 4"
  by (simp add: word_bytes_def split: byte_order.split)

lemma fetch_word_word_bytes: "fetch_word e (word_bytes e w) 0 = w"
proof (rule bit_word_eqI)
  fix n assume "n < LENGTH(32)"
  then have "n < 32" by simp
  then show "bit (fetch_word e (word_bytes e w) 0) n = bit w n"
    by (cases rule: byte_index_cases; cases e)
      (simp_all add: fetch_word_def word_bytes_def bit_byte_at bit_simps)
qed

subsection \<open>The mixing function is reversible\<close>

text \<open>
  \<open>mix\<close> is six rounds of one shape on rotated registers; a round is undone by
  running its three statements backwards.
\<close>

fun mix_round :: "nat \<Rightarrow> abc \<Rightarrow> abc" where
  "mix_round k (x, y, z) = ((x - z) XOR rot z k, y, z + y)"

fun unmix_round :: "nat \<Rightarrow> abc \<Rightarrow> abc" where
  "unmix_round k (x, y, z) = ((x XOR rot (z - y) k) + (z - y), y, z - y)"

fun rotate_regs :: "abc \<Rightarrow> abc" where
  "rotate_regs (x, y, z) = (y, z, x)"

fun unrotate_regs :: "abc \<Rightarrow> abc" where
  "unrotate_regs (x, y, z) = (z, x, y)"

lemma unmix_round_mix_round: "unmix_round k (mix_round k s) = s"
  by (cases s) (simp add: xor.assoc)

lemma mix_round_unmix_round: "mix_round k (unmix_round k s) = s"
  by (cases s) (simp add: xor.assoc)

lemma rotate_regs_inverse: "unrotate_regs (rotate_regs s) = s" "rotate_regs (unrotate_regs s) = s"
  by (cases s, simp)+

definition mix_step :: "nat \<Rightarrow> abc \<Rightarrow> abc" where
  "mix_step k s = rotate_regs (mix_round k s)"

definition unmix_step :: "nat \<Rightarrow> abc \<Rightarrow> abc" where
  "unmix_step k s = unmix_round k (unrotate_regs s)"

lemma mix_step_inverse [simp]: "unmix_step k (mix_step k s) = s" "mix_step k (unmix_step k s) = s"
  by (simp_all add: mix_step_def unmix_step_def rotate_regs_inverse unmix_round_mix_round
        mix_round_unmix_round)

lemma mix_as_steps:
  "mix s = mix_step 4 (mix_step 19 (mix_step 16 (mix_step 8 (mix_step 6 (mix_step 4 s)))))"
  by (cases s) (simp only: mix.simps Let_def mix_step_def mix_round.simps rotate_regs.simps)

lemma mix_bij: "bij mix"
proof (rule bij_betw_byWitness [where f' = "\<lambda>s.
    unmix_step 4 (unmix_step 6 (unmix_step 8 (unmix_step 16 (unmix_step 19 (unmix_step 4 s)))))"])
qed (simp_all add: mix_as_steps)

subsection \<open>Properties\<close>

text \<open>
  C38. The value of \<open>hash_any\<close> does not depend on the alignment of the key: the
  word-fetching path and the byte-wise path agree on every key, on both byte orders.
\<close>

theorem hash_any_alignment_independent:
  "hash_any e True k = hash_any e False k"
  by (rule hash_any_alignment)

text \<open>
  \<open>hash_uint32 w\<close> has the same result as \<open>hash_any\<close> on the four bytes of
  \<open>w\<close> in memory, on both byte orders and on either alignment.
\<close>

lemma hash_uint32_eq_hash_any:
  "hash_uint32 w = hash_any e al (word_bytes e w)"
proof -
  have "hash_any e True (word_bytes e w) = hash_uint32 w"
    using fetch_word_word_bytes [of e w]
    by (cases e) (simp_all add: hash_any_def hash_uint32_def hash_any_aligned_loop.simps
        add_if_def Let_def)
  then show ?thesis using hash_any_alignment [of e al _ True] by simp
qed

text \<open>
  \<open>mix\<close> is reversible: it is a bijection on the three 32-bit registers, so no
  information is lost between twelve-byte blocks.
\<close>

lemma mix_reversible: "bij mix"
  by (rule mix_bij)

end
