(* ===== verification/IntSet.thy ===== *)
theory IntSet
  imports Prelude
begin

text \<open>
  The interface that planner and executor code uses of a set of small integers: test,
  add and remove a member, and walk over the members with
  \<^verbatim>\<open>x = -1; while ((x = next_member(set, x)) >= 0) ...\<close>, the pattern given in the
  comment above \<open>bms_next_member\<close>. The laws are the locale assumptions; what a client may
  rely on is proved from them alone. Theory Bitmapset interprets both locales.
\<close>

text \<open>A sequence of insertions, stopping at the first error.\<close>

fun add_list :: "('s \<Rightarrow> int \<Rightarrow> 's result) \<Rightarrow> 's \<Rightarrow> int list \<Rightarrow> 's result" where
  "add_list add s [] = Inr s"
| "add_list add s (x # xs) = bindE (add s x) (\<lambda>t. add_list add t xs)"

text \<open>
  The walk: the members collected until \<open>next\<close> gives a negative number. \<open>None\<close> is a
  walk that has not ended within the fuel, or that raised an error.
\<close>

fun iterate_members :: "nat \<Rightarrow> (int \<Rightarrow> int result option) \<Rightarrow> int \<Rightarrow> nat list option" where
  "iterate_members 0 next p = None"
| "iterate_members (Suc fuel) next p =
    (case next p of
       Some (Inr x) \<Rightarrow> if 0 \<le> x then map_option ((#) (nat x)) (iterate_members fuel next x) else Some []
     | _ \<Rightarrow> None)"

locale int_set =
  fixes members :: "'s \<Rightarrow> nat set"
    and is_member :: "int \<Rightarrow> 's \<Rightarrow> bool result"
    and add_member :: "'s \<Rightarrow> int \<Rightarrow> 's result"
    and del_member :: "'s \<Rightarrow> int \<Rightarrow> 's result"
    and neg_error :: pg_error
  assumes finite_members: "finite (members s)"
    and is_member_spec: "is_member x s = (if x < 0 then Inl neg_error else Inr (nat x \<in> members s))"
    and add_member_neg: "x < 0 \<Longrightarrow> add_member s x = Inl neg_error"
    and add_member_spec: "0 \<le> x \<Longrightarrow> \<exists>t. add_member s x = Inr t \<and> members t = insert (nat x) (members s)"
    and del_member_neg: "x < 0 \<Longrightarrow> del_member s x = Inl neg_error"
    and del_member_spec: "0 \<le> x \<Longrightarrow> \<exists>t. del_member s x = Inr t \<and> members t = members s - {nat x}"
begin

lemma add_list_members:
  "\<forall>x \<in> set xs. 0 \<le> x \<Longrightarrow>
   \<exists>t. add_list add_member s xs = Inr t \<and> members t = members s \<union> nat ` set xs"
proof (induction xs arbitrary: s)
  case (Cons x xs)
  then obtain t where t: "add_member s x = Inr t" "members t = insert (nat x) (members s)"
    using add_member_spec [of x s] by auto
  with Cons obtain u where "add_list add_member t xs = Inr u" "members u = members t \<union> nat ` set xs"
    by fastforce
  with t show ?case by auto
qed simp

lemma add_list_error:
  "x \<in> set xs \<Longrightarrow> x < 0 \<Longrightarrow> add_list add_member s xs = Inl neg_error"
proof (induction xs arbitrary: s)
  case (Cons y ys)
  show ?case
  proof (cases "y < 0")
    case True
    then show ?thesis by (simp add: add_member_neg)
  next
    case False
    then obtain t where "add_member s y = Inr t" using add_member_spec [of y s] by auto
    then show ?thesis using Cons False by auto
  qed
qed simp

lemma member_after_updates:
  assumes "0 \<le> x" "0 \<le> y" "add_member s x = Inr t" "del_member t y = Inr u"
  shows "is_member z u = (if z < 0 then Inl neg_error else Inr (z \<noteq> y \<and> (z = x \<or> nat z \<in> members s)))"
proof -
  have "members t = insert (nat x) (members s)" using add_member_spec [OF assms(1), of s] assms(3) by auto
  moreover have "members u = members t - {nat y}" using del_member_spec [OF assms(2), of t] assms(4) by auto
  ultimately show ?thesis using assms(1,2) by (auto simp: is_member_spec)
qed

end

locale int_set_iter = int_set +
  fixes next_member :: "'s \<Rightarrow> int \<Rightarrow> int result option"
  assumes next_member_spec: "-1 \<le> p \<Longrightarrow>
    next_member s p = Some (Inr (if {x \<in> members s. p < int x} = {} then -2
      else int (Min {x \<in> members s. p < int x})))"
begin

lemma iterate_from:
  assumes "-1 \<le> p" and "card {x \<in> members s. p < int x} < fuel"
  shows "iterate_members fuel (next_member s) p = Some (sorted_list_of_set {x \<in> members s. p < int x})"
  using assms
proof (induction fuel arbitrary: p)
  case (Suc fuel)
  let ?S = "{x \<in> members s. p < int x}"
  have fin: "finite ?S" using finite_members by simp
  show ?case
  proof (cases "?S = {}")
    case True
    have "next_member s p = Some (Inr (-2))"
      using next_member_spec [OF Suc.prems(1), of s] by (simp only: True simp_thms if_True)
    then show ?thesis by (simp only: True sorted_list_of_set_empty) simp
  next
    case False
    let ?m = "Min ?S"
    have m: "?m \<in> ?S" by (rule Min_in [OF fin False])
    have least: "\<And>x. x \<in> ?S \<Longrightarrow> ?m \<le> x" by (rule Min_le [OF fin])
    have rest: "{x \<in> members s. int ?m < int x} = ?S - {?m}"
    proof (intro equalityI subsetI)
      fix x assume "x \<in> {x \<in> members s. int ?m < int x}"
      then show "x \<in> ?S - {?m}" using m by auto
    next
      fix x assume "x \<in> ?S - {?m}"
      then show "x \<in> {x \<in> members s. int ?m < int x}" using least [of x] by (auto simp: le_less)
    qed
    have "card (?S - {?m}) < fuel" using Suc.prems(2) card_Suc_Diff1 [OF fin m] by linarith
    then have "iterate_members fuel (next_member s) (int ?m) = Some (sorted_list_of_set (?S - {?m}))"
      using Suc.IH [of "int ?m"] unfolding rest by simp
    moreover have "sorted_list_of_set ?S = ?m # sorted_list_of_set (?S - {?m})"
      using sorted_list_of_set_nonempty [OF fin False] .
    moreover have "next_member s p = Some (Inr (int ?m))"
      using next_member_spec [OF Suc.prems(1), of s] by (simp only: False if_False)
    ultimately show ?thesis by (simp del: Collect_empty_eq)
  qed
qed simp

lemma iterate_all:
  assumes "card (members s) < fuel"
  shows "iterate_members fuel (next_member s) (-1) = Some (sorted_list_of_set (members s))"
proof -
  have "{x \<in> members s. -1 < int x} = members s" by auto
  then show ?thesis using iterate_from [of "-1" s fuel] assms by simp
qed

end

end
