(* ===== verification/Bitmapset.thy ===== *)
theory Bitmapset
  imports HashFunc IntSet
begin

text \<open>
  The bitmap set package of \<^verbatim>\<open>src/src/common/backend/nodes/bitmapset.cpp\<close>
  (types in \<^verbatim>\<open>src/src/include/nodes/bitmapset.h\<close>). A set is an array of
  32-bit words; a \<^verbatim>\<open>Bitmapset*\<close> is an optional set, with \<open>None\<close> the
  NULL pointer. The field \<open>nwords\<close> of the struct is the length of its array.
  Every function returns its result and, where it modifies its argument, the modified
  set; which allocations are freed is not modelled. The byte-scanning loops of
  \<open>bms_singleton_member\<close>, \<open>bms_first_member\<close> and \<open>bms_next_member\<close> would not
  end on a zero word; they are partial functions, and the lemmas show that they return.
\<close>

subsection \<open>Data\<close>

type_synonym bitmapword = uint32

abbreviation BITS_PER_BITMAPWORD :: nat where
  "BITS_PER_BITMAPWORD \<equiv> 32"

record Bitmapset =
  words :: "bitmapword list"

type_synonym bms = "Bitmapset option"

definition nwords :: "Bitmapset \<Rightarrow> nat" where
  "nwords a = length (words a)"

datatype BMS_Comparison = BMS_EQUAL | BMS_SUBSET1 | BMS_SUBSET2 | BMS_DIFFERENT

datatype BMS_Membership = BMS_EMPTY_SET | BMS_SINGLETON | BMS_MULTIPLE

definition WORDNUM :: "int \<Rightarrow> nat" where
  "WORDNUM x = nat x div BITS_PER_BITMAPWORD"

definition BITNUM :: "int \<Rightarrow> nat" where
  "BITNUM x = nat x mod BITS_PER_BITMAPWORD"

definition RIGHTMOST_ONE :: "bitmapword \<Rightarrow> bitmapword" where
  "RIGHTMOST_ONE x = x AND - x"

definition HAS_MULTIPLE_ONES :: "bitmapword \<Rightarrow> bool" where
  "HAS_MULTIPLE_ONES x \<longleftrightarrow> RIGHTMOST_ONE x \<noteq> x"

definition rightmost_one_pos :: "nat list" where
  "rightmost_one_pos =
    [
     0, 0, 1, 0, 2, 0, 1, 0, 3, 0, 1, 0, 2, 0, 1, 0, 4, 0, 1, 0, 2, 0, 1, 0, 3, 0, 1, 0, 2, 0, 1, 0,
     5, 0, 1, 0, 2, 0, 1, 0, 3, 0, 1, 0, 2, 0, 1, 0, 4, 0, 1, 0, 2, 0, 1, 0, 3, 0, 1, 0, 2, 0, 1, 0,
     6, 0, 1, 0, 2, 0, 1, 0, 3, 0, 1, 0, 2, 0, 1, 0, 4, 0, 1, 0, 2, 0, 1, 0, 3, 0, 1, 0, 2, 0, 1, 0,
     5, 0, 1, 0, 2, 0, 1, 0, 3, 0, 1, 0, 2, 0, 1, 0, 4, 0, 1, 0, 2, 0, 1, 0, 3, 0, 1, 0, 2, 0, 1, 0,
     7, 0, 1, 0, 2, 0, 1, 0, 3, 0, 1, 0, 2, 0, 1, 0, 4, 0, 1, 0, 2, 0, 1, 0, 3, 0, 1, 0, 2, 0, 1, 0,
     5, 0, 1, 0, 2, 0, 1, 0, 3, 0, 1, 0, 2, 0, 1, 0, 4, 0, 1, 0, 2, 0, 1, 0, 3, 0, 1, 0, 2, 0, 1, 0,
     6, 0, 1, 0, 2, 0, 1, 0, 3, 0, 1, 0, 2, 0, 1, 0, 4, 0, 1, 0, 2, 0, 1, 0, 3, 0, 1, 0, 2, 0, 1, 0,
     5, 0, 1, 0, 2, 0, 1, 0, 3, 0, 1, 0, 2, 0, 1, 0, 4, 0, 1, 0, 2, 0, 1, 0, 3, 0, 1, 0, 2, 0, 1, 0]"

definition number_of_ones :: "nat list" where
  "number_of_ones =
    [
     0, 1, 1, 2, 1, 2, 2, 3, 1, 2, 2, 3, 2, 3, 3, 4, 1, 2, 2, 3, 2, 3, 3, 4, 2, 3, 3, 4, 3, 4, 4, 5,
     1, 2, 2, 3, 2, 3, 3, 4, 2, 3, 3, 4, 3, 4, 4, 5, 2, 3, 3, 4, 3, 4, 4, 5, 3, 4, 4, 5, 4, 5, 5, 6,
     1, 2, 2, 3, 2, 3, 3, 4, 2, 3, 3, 4, 3, 4, 4, 5, 2, 3, 3, 4, 3, 4, 4, 5, 3, 4, 4, 5, 4, 5, 5, 6,
     2, 3, 3, 4, 3, 4, 4, 5, 3, 4, 4, 5, 4, 5, 5, 6, 3, 4, 4, 5, 4, 5, 5, 6, 4, 5, 5, 6, 5, 6, 6, 7,
     1, 2, 2, 3, 2, 3, 3, 4, 2, 3, 3, 4, 3, 4, 4, 5, 2, 3, 3, 4, 3, 4, 4, 5, 3, 4, 4, 5, 4, 5, 5, 6,
     2, 3, 3, 4, 3, 4, 4, 5, 3, 4, 4, 5, 4, 5, 5, 6, 3, 4, 4, 5, 4, 5, 5, 6, 4, 5, 5, 6, 5, 6, 6, 7,
     2, 3, 3, 4, 3, 4, 4, 5, 3, 4, 4, 5, 4, 5, 5, 6, 3, 4, 4, 5, 4, 5, 5, 6, 4, 5, 5, 6, 5, 6, 6, 7,
     3, 4, 4, 5, 4, 5, 5, 6, 4, 5, 5, 6, 5, 6, 6, 7, 4, 5, 5, 6, 5, 6, 6, 7, 5, 6, 6, 7, 6, 7, 7, 8]"

text \<open>The error for a negative member, raised by five of the functions.\<close>

definition negative_member :: pg_error where
  "negative_member = Ereport ERROR ERRCODE_DATA_EXCEPTION"

subsection \<open>Copy, equality, construction\<close>

definition bms_copy :: "bms \<Rightarrow> bms" where
  "bms_copy a = (case a of None \<Rightarrow> None | Some s \<Rightarrow> Some \<lparr>words = words s\<rparr>)"

text \<open>The scan for a nonzero word of \<open>bms_is_empty\<close> and of the \<open>extra words\<close> loops.\<close>

fun words_all_zero :: "bitmapword list \<Rightarrow> bool" where
  "words_all_zero [] = True"
| "words_all_zero (w # ws) = (if w \<noteq> 0 then False else words_all_zero ws)"

definition bms_is_empty :: "bms \<Rightarrow> bool" where
  "bms_is_empty a = (case a of None \<Rightarrow> True | Some s \<Rightarrow> words_all_zero (words s))"

fun bms_equal_loop :: "bitmapword list \<Rightarrow> bitmapword list \<Rightarrow> bool" where
  "bms_equal_loop (x # shorter) (y # longer) = (if x \<noteq> y then False else bms_equal_loop shorter longer)"
| "bms_equal_loop shorter longer = words_all_zero longer"

definition bms_equal :: "bms \<Rightarrow> bms \<Rightarrow> bool" where
  "bms_equal a b = (case (a, b) of
     (None, None) \<Rightarrow> True
   | (None, Some _) \<Rightarrow> bms_is_empty b
   | (Some _, None) \<Rightarrow> bms_is_empty a
   | (Some x, Some y) \<Rightarrow>
       (let (shorter, longer) = (if nwords x \<le> nwords y then (x, y) else (y, x))
        in bms_equal_loop (words shorter) (words longer)))"

definition bms_make_singleton :: "int \<Rightarrow> bms result" where
  "bms_make_singleton x =
    (if x < 0 then Inl negative_member
     else Inr (Some \<lparr>words = (replicate (WORDNUM x + 1) 0)[WORDNUM x := push_bit (BITNUM x) 1]\<rparr>))"

subsection \<open>Operations that leave their inputs untouched\<close>

text \<open>
  The loops \<^verbatim>\<open>result->words[i] op= other->words[i]\<close> for \<open>i\<close> up to the length of the
  shorter array; the words of \<open>result\<close> beyond it are kept.
\<close>

fun words_combine :: "(bitmapword \<Rightarrow> bitmapword \<Rightarrow> bitmapword) \<Rightarrow> bitmapword list \<Rightarrow> bitmapword list \<Rightarrow> bitmapword list" where
  "words_combine f (r # rs) (w # ws) = f r w # words_combine f rs ws"
| "words_combine f rs ws = rs"

definition bms_union :: "bms \<Rightarrow> bms \<Rightarrow> bms" where
  "bms_union a b = (case a of None \<Rightarrow> bms_copy b | Some x \<Rightarrow>
     (case b of None \<Rightarrow> bms_copy a | Some y \<Rightarrow>
       (let (result, other) = (if nwords x \<le> nwords y then (y, x) else (x, y))
        in Some \<lparr>words = words_combine (OR) (words result) (words other)\<rparr>)))"

definition bms_intersect :: "bms \<Rightarrow> bms \<Rightarrow> bms" where
  "bms_intersect a b = (case (a, b) of
     (Some x, Some y) \<Rightarrow>
       (let (result, other) = (if nwords x \<le> nwords y then (x, y) else (y, x))
        in Some \<lparr>words = words_combine (AND) (words result) (words other)\<rparr>)
   | _ \<Rightarrow> None)"

definition bms_difference :: "bms \<Rightarrow> bms \<Rightarrow> bms" where
  "bms_difference a b = (case a of None \<Rightarrow> None | Some x \<Rightarrow>
     (case b of None \<Rightarrow> bms_copy a | Some y \<Rightarrow>
       Some \<lparr>words = words_combine (\<lambda>r w. r AND NOT w) (words x) (words y)\<rparr>))"

fun bms_is_subset_loop :: "bitmapword list \<Rightarrow> bitmapword list \<Rightarrow> bool" where
  "bms_is_subset_loop (x # as) (y # bs) = (if x AND NOT y \<noteq> 0 then False else bms_is_subset_loop as bs)"
| "bms_is_subset_loop as [] = words_all_zero as"
| "bms_is_subset_loop [] bs = True"

definition bms_is_subset :: "bms \<Rightarrow> bms \<Rightarrow> bool" where
  "bms_is_subset a b = (case a of None \<Rightarrow> True | Some x \<Rightarrow>
     (case b of None \<Rightarrow> bms_is_empty a | Some y \<Rightarrow> bms_is_subset_loop (words x) (words y)))"

fun bms_subset_compare_loop :: "BMS_Comparison \<Rightarrow> bitmapword list \<Rightarrow> bitmapword list \<Rightarrow> BMS_Comparison" where
  "bms_subset_compare_loop result (aword # as) (bword # bs) =
    (if aword AND NOT bword \<noteq> 0 \<and> result = BMS_SUBSET1 then BMS_DIFFERENT
     else
       (let result = (if aword AND NOT bword \<noteq> 0 then BMS_SUBSET2 else result)
        in if bword AND NOT aword \<noteq> 0 \<and> result = BMS_SUBSET2 then BMS_DIFFERENT
           else
             (let result = (if bword AND NOT aword \<noteq> 0 then BMS_SUBSET1 else result)
              in bms_subset_compare_loop result as bs)))"
| "bms_subset_compare_loop result (aword # as) [] =
    (if aword \<noteq> 0
     then (if result = BMS_SUBSET1 then BMS_DIFFERENT else bms_subset_compare_loop BMS_SUBSET2 as [])
     else bms_subset_compare_loop result as [])"
| "bms_subset_compare_loop result [] (bword # bs) =
    (if bword \<noteq> 0
     then (if result = BMS_SUBSET2 then BMS_DIFFERENT else bms_subset_compare_loop BMS_SUBSET1 [] bs)
     else bms_subset_compare_loop result [] bs)"
| "bms_subset_compare_loop result [] [] = result"

definition bms_subset_compare :: "bms \<Rightarrow> bms \<Rightarrow> BMS_Comparison" where
  "bms_subset_compare a b = (case a of
     None \<Rightarrow> (case b of None \<Rightarrow> BMS_EQUAL
              | Some _ \<Rightarrow> if bms_is_empty b then BMS_EQUAL else BMS_SUBSET1)
   | Some x \<Rightarrow> (case b of None \<Rightarrow> if bms_is_empty a then BMS_EQUAL else BMS_SUBSET2
                | Some y \<Rightarrow> bms_subset_compare_loop BMS_EQUAL (words x) (words y)))"

definition bms_is_member :: "int \<Rightarrow> bms \<Rightarrow> bool result" where
  "bms_is_member x a =
    (if x < 0 then Inl negative_member
     else (case a of None \<Rightarrow> Inr False | Some s \<Rightarrow>
       if WORDNUM x \<ge> nwords s then Inr False
       else Inr (words s ! WORDNUM x AND push_bit (BITNUM x) 1 \<noteq> 0)))"

fun bms_overlap_loop :: "bitmapword list \<Rightarrow> bitmapword list \<Rightarrow> bool" where
  "bms_overlap_loop (x # as) (y # bs) = (if x AND y \<noteq> 0 then True else bms_overlap_loop as bs)"
| "bms_overlap_loop as bs = False"

definition bms_overlap :: "bms \<Rightarrow> bms \<Rightarrow> bool" where
  "bms_overlap a b = (case (a, b) of
     (Some x, Some y) \<Rightarrow> bms_overlap_loop (words x) (words y)
   | _ \<Rightarrow> False)"

fun bms_nonempty_difference_loop :: "bitmapword list \<Rightarrow> bitmapword list \<Rightarrow> bool" where
  "bms_nonempty_difference_loop (x # as) (y # bs) =
     (if x AND NOT y \<noteq> 0 then True else bms_nonempty_difference_loop as bs)"
| "bms_nonempty_difference_loop (x # as) [] =
     (if x \<noteq> 0 then True else bms_nonempty_difference_loop as [])"
| "bms_nonempty_difference_loop [] bs = False"

definition bms_nonempty_difference :: "bms \<Rightarrow> bms \<Rightarrow> bool" where
  "bms_nonempty_difference a b = (case a of None \<Rightarrow> False | Some x \<Rightarrow>
     (case b of None \<Rightarrow> \<not> bms_is_empty a
      | Some y \<Rightarrow> bms_nonempty_difference_loop (words x) (words y)))"

subsection \<open>Members\<close>

text \<open>
  The loop \<^verbatim>\<open>while ((w & 255) == 0) { w >>= 8; result += 8; }\<close> and the table lookup that
  follows it; \<open>None\<close> is a loop that does not end.
\<close>

partial_function (option) scan_rightmost_one :: "bitmapword \<Rightarrow> int \<Rightarrow> int option" where
  "scan_rightmost_one w result =
    (if w AND 255 = 0 then scan_rightmost_one (drop_bit 8 w) (result + 8)
     else Some (result + int (rightmost_one_pos ! unat (w AND 255))))"

fun bms_singleton_member_loop :: "nat \<Rightarrow> int \<Rightarrow> bitmapword list \<Rightarrow> int result option" where
  "bms_singleton_member_loop wordnum result [] =
    Some (if result < 0 then Inl (Ereport ERROR ERRCODE_UNEXPECTED_NULL_VALUE) else Inr result)"
| "bms_singleton_member_loop wordnum result (w # ws) =
    (if w \<noteq> 0 then
       (if result \<ge> 0 \<or> HAS_MULTIPLE_ONES w then Some (Inl (Ereport ERROR ERRCODE_DATA_EXCEPTION))
        else (case scan_rightmost_one w (int (wordnum * BITS_PER_BITMAPWORD)) of
                None \<Rightarrow> None
              | Some r \<Rightarrow> bms_singleton_member_loop (wordnum + 1) r ws))
     else bms_singleton_member_loop (wordnum + 1) result ws)"

definition bms_singleton_member :: "bms \<Rightarrow> int result option" where
  "bms_singleton_member a = (case a of
     None \<Rightarrow> Some (Inl (Ereport ERROR ERRCODE_UNEXPECTED_NULL_VALUE))
   | Some s \<Rightarrow> bms_singleton_member_loop 0 (-1) (words s))"

function count_ones :: "bitmapword \<Rightarrow> nat \<Rightarrow> nat" where
  "count_ones w result =
    (if w \<noteq> 0 then count_ones (drop_bit 8 w) (result + number_of_ones ! unat (w AND 255)) else result)"
  by pat_completeness auto
termination
  by (relation "measure (\<lambda>(w, r). unat w)") (simp_all add: unat_drop_byte_less)

fun bms_num_members_loop :: "nat \<Rightarrow> bitmapword list \<Rightarrow> nat" where
  "bms_num_members_loop result [] = result"
| "bms_num_members_loop result (w # ws) = bms_num_members_loop (count_ones w result) ws"

definition bms_num_members :: "bms \<Rightarrow> nat" where
  "bms_num_members a = (case a of None \<Rightarrow> 0 | Some s \<Rightarrow> bms_num_members_loop 0 (words s))"

fun bms_membership_loop :: "BMS_Membership \<Rightarrow> bitmapword list \<Rightarrow> BMS_Membership" where
  "bms_membership_loop result [] = result"
| "bms_membership_loop result (w # ws) =
    (if w \<noteq> 0 then
       (if result \<noteq> BMS_EMPTY_SET \<or> HAS_MULTIPLE_ONES w then BMS_MULTIPLE
        else bms_membership_loop BMS_SINGLETON ws)
     else bms_membership_loop result ws)"

definition bms_membership :: "bms \<Rightarrow> BMS_Membership" where
  "bms_membership a = (case a of None \<Rightarrow> BMS_EMPTY_SET
     | Some s \<Rightarrow> bms_membership_loop BMS_EMPTY_SET (words s))"

subsection \<open>Operations that recycle their inputs\<close>

definition bms_add_member :: "bms \<Rightarrow> int \<Rightarrow> bms result" where
  "bms_add_member a x =
    (if x < 0 then Inl negative_member
     else (case a of None \<Rightarrow> bms_make_singleton x | Some s \<Rightarrow>
       if WORDNUM x \<ge> nwords s
       then bindE (bms_make_singleton x) (\<lambda>r. Inr (case r of None \<Rightarrow> None
              | Some result \<Rightarrow> Some \<lparr>words = words_combine (OR) (words result) (words s)\<rparr>))
       else Inr (Some (s\<lparr>words := (words s)[WORDNUM x := words s ! WORDNUM x OR push_bit (BITNUM x) 1]\<rparr>))))"

definition bms_del_member :: "bms \<Rightarrow> int \<Rightarrow> bms result" where
  "bms_del_member a x =
    (if x < 0 then Inl negative_member
     else (case a of None \<Rightarrow> Inr None | Some s \<Rightarrow>
       if WORDNUM x < nwords s
       then Inr (Some (s\<lparr>words := (words s)[WORDNUM x := words s ! WORDNUM x AND NOT (push_bit (BITNUM x) 1)]\<rparr>))
       else Inr (Some s)))"

definition bms_add_members :: "bms \<Rightarrow> bms \<Rightarrow> bms" where
  "bms_add_members a b = (case a of None \<Rightarrow> bms_copy b | Some x \<Rightarrow>
     (case b of None \<Rightarrow> a | Some y \<Rightarrow>
       (let (result, other) = (if nwords x < nwords y then (y, x) else (x, y))
        in Some \<lparr>words = words_combine (OR) (words result) (words other)\<rparr>)))"

fun bms_int_members_loop :: "bitmapword list \<Rightarrow> bitmapword list \<Rightarrow> bitmapword list" where
  "bms_int_members_loop (x # as) (y # bs) = (x AND y) # bms_int_members_loop as bs"
| "bms_int_members_loop (x # as) [] = 0 # bms_int_members_loop as []"
| "bms_int_members_loop [] bs = []"

definition bms_int_members :: "bms \<Rightarrow> bms \<Rightarrow> bms" where
  "bms_int_members a b = (case (a, b) of
     (Some x, Some y) \<Rightarrow> Some (x\<lparr>words := bms_int_members_loop (words x) (words y)\<rparr>)
   | _ \<Rightarrow> None)"

definition bms_del_members :: "bms \<Rightarrow> bms \<Rightarrow> bms" where
  "bms_del_members a b = (case a of None \<Rightarrow> None | Some x \<Rightarrow>
     (case b of None \<Rightarrow> a | Some y \<Rightarrow>
       Some (x\<lparr>words := words_combine (\<lambda>r w. r AND NOT w) (words x) (words y)\<rparr>)))"

definition bms_join :: "bms \<Rightarrow> bms \<Rightarrow> bms" where
  "bms_join a b = (case a of None \<Rightarrow> b | Some x \<Rightarrow>
     (case b of None \<Rightarrow> a | Some y \<Rightarrow>
       (let (result, other) = (if nwords x < nwords y then (y, x) else (x, y))
        in Some (result\<lparr>words := words_combine (OR) (words result) (words other)\<rparr>))))"

text \<open>
  \<open>bms_first_member\<close> returns the member found (\<open>-1\<close> for none) and the set without it.
\<close>

fun bms_first_member_loop :: "nat \<Rightarrow> bitmapword list \<Rightarrow> (int \<times> bitmapword list) option" where
  "bms_first_member_loop wordnum [] = Some (-1, [])"
| "bms_first_member_loop wordnum (w # ws) =
    (if w \<noteq> 0 then
       (let r = RIGHTMOST_ONE w
        in (case scan_rightmost_one r (int (wordnum * BITS_PER_BITMAPWORD)) of
              None \<Rightarrow> None
            | Some result \<Rightarrow> Some (result, (w AND NOT r) # ws)))
     else map_option (\<lambda>(result, ws'). (result, w # ws')) (bms_first_member_loop (wordnum + 1) ws))"

definition bms_first_member :: "bms \<Rightarrow> (int \<times> bms) option" where
  "bms_first_member a = (case a of None \<Rightarrow> Some (-1, None) | Some s \<Rightarrow>
     map_option (\<lambda>(result, ws). (result, Some (s\<lparr>words := ws\<rparr>))) (bms_first_member_loop 0 (words s)))"

fun bms_next_member_loop :: "nat \<Rightarrow> bitmapword \<Rightarrow> bitmapword list \<Rightarrow> int option" where
  "bms_next_member_loop wordnum msk [] = Some (-2)"
| "bms_next_member_loop wordnum msk (w # ws) =
    (if w AND msk \<noteq> 0 then scan_rightmost_one (w AND msk) (int (wordnum * BITS_PER_BITMAPWORD))
     else bms_next_member_loop (wordnum + 1) (NOT 0) ws)"

definition bms_next_member :: "bms \<Rightarrow> int \<Rightarrow> int result option" where
  "bms_next_member a prevbit =
    (if prevbit < -1 then Some (Inl (Ereport ERROR ERRCODE_INVALID_PARAMETER_VALUE))
     else (case a of None \<Rightarrow> Some (Inr (-2)) | Some s \<Rightarrow>
       (let prevbit = prevbit + 1; msk = push_bit (BITNUM prevbit) (NOT 0)
        in map_option Inr (bms_next_member_loop (WORDNUM prevbit) msk (drop (WORDNUM prevbit) (words s))))))"

text \<open>
  \<open>bms_hash_value\<close> hashes the bytes of the words up to the last nonzero one; the
  array of a Bitmapset lies at a word-aligned address or not, as \<open>aligned\<close> says.
\<close>

definition strip_zero_words :: "bitmapword list \<Rightarrow> bitmapword list" where
  "strip_zero_words ws = rev (dropWhile (\<lambda>w. w = 0) (rev ws))"

definition bms_hash_value :: "byte_order \<Rightarrow> bool \<Rightarrow> bms \<Rightarrow> uint32" where
  "bms_hash_value e aligned a = (case a of None \<Rightarrow> 0 | Some s \<Rightarrow>
     (let kept = strip_zero_words (words s)
      in if kept = [] then 0 else hash_any e aligned (concat (map (word_bytes e) kept))))"

text \<open>\<open>bitmap_hash\<close> and \<open>bitmap_match\<close> of hashfn.cpp, for hash tables keyed by sets.\<close>

definition bitmap_hash :: "byte_order \<Rightarrow> bool \<Rightarrow> bms \<Rightarrow> uint32" where
  "bitmap_hash e aligned key = bms_hash_value e aligned key"

definition bitmap_match :: "bms \<Rightarrow> bms \<Rightarrow> int" where
  "bitmap_match key1 key2 = (if \<not> bms_equal key1 key2 then 1 else 0)"

subsection \<open>The set of members\<close>

text \<open>
  \<open>wbit ws x\<close>: bit \<open>x\<close> of an array of words. \<open>bms_set\<close> is the set of numbers
  that a Bitmapset represents; every operation is specified by it.
\<close>

definition wbit :: "bitmapword list \<Rightarrow> nat \<Rightarrow> bool" where
  "wbit ws x \<longleftrightarrow> x div 32 < length ws \<and> bit (ws ! (x div 32)) (x mod 32)"

definition bms_set :: "bms \<Rightarrow> nat set" where
  "bms_set a = (case a of None \<Rightarrow> {} | Some s \<Rightarrow> {x. wbit (words s) x})"

lemma bms_set_simps [simp]: "bms_set None = {}" "bms_set (Some s) = {x. wbit (words s) x}"
  by (simp_all add: bms_set_def)

lemma wbit_Nil [simp]: "\<not> wbit [] x"
  by (simp add: wbit_def)

lemma wbit_Cons: "wbit (w # ws) x \<longleftrightarrow> (if x < 32 then bit w x else wbit ws (x - 32))"
proof (cases "x < 32")
  case True
  then show ?thesis by (simp add: wbit_def)
next
  case False
  then obtain y where "x = y + 32" by (metis le_add_diff_inverse2 linorder_not_less)
  moreover have "(y + 32) div 32 = Suc (y div 32)" by simp
  ultimately show ?thesis by (simp only: wbit_def) simp
qed

lemma wbit_bound: "wbit ws x \<Longrightarrow> x < 32 * length ws"
  by (auto simp: wbit_def)

lemma finite_bms_set [simp]: "finite (bms_set a)"
proof (cases a)
  case (Some s)
  have "{x. wbit (words s) x} \<subseteq> {..< 32 * length (words s)}" by (auto dest: wbit_bound)
  then show ?thesis using Some finite_subset by auto
qed simp

text \<open>A statement about all bits of two arrays, word by word.\<close>

lemma all_wbit_Cons:
  "(\<forall>x. P (wbit (w # ws) x) (wbit (v # vs) x)) \<longleftrightarrow>
   (\<forall>i < 32. P (bit w i) (bit v i)) \<and> (\<forall>x. P (wbit ws x) (wbit vs x))" (is "?l = ?r")
proof
  assume l: ?l
  show ?r
  proof (intro conjI allI impI)
    fix i :: nat assume "i < 32" with l [THEN spec, of i] show "P (bit w i) (bit v i)" by (simp add: wbit_Cons)
  next
    fix x from l [THEN spec, of "x + 32"] show "P (wbit ws x) (wbit vs x)" by (simp add: wbit_Cons)
  qed
next
  assume ?r then show ?l by (simp add: wbit_Cons)
qed

lemma all_wbit_Cons1:
  "(\<forall>x. P (wbit (w # ws) x)) \<longleftrightarrow> (\<forall>i < 32. P (bit w i)) \<and> (\<forall>x. P (wbit ws x))"
  using all_wbit_Cons [of "\<lambda>p q. P p" w ws w ws] .

lemma word_eq_zero_iff: "(w :: bitmapword) = 0 \<longleftrightarrow> (\<forall>i < 32. \<not> bit w i)"
  using word_neq_zero_iff_bit [of w] by auto

lemma words_all_zero_iff: "words_all_zero ws \<longleftrightarrow> (\<forall>x. \<not> wbit ws x)"
  by (induction ws) (simp_all add: all_wbit_Cons1 word_eq_zero_iff)

lemma andnot_eq_zero_iff: "(x :: bitmapword) AND NOT y = 0 \<longleftrightarrow> (\<forall>i < 32. bit x i \<longrightarrow> bit y i)"
  by (auto simp: word_eq_zero_iff bit_simps)

lemma and_eq_zero_iff: "(x :: bitmapword) AND y = 0 \<longleftrightarrow> (\<forall>i < 32. \<not> (bit x i \<and> bit y i))"
  by (auto simp: word_eq_zero_iff bit_simps)

lemma word_eq_iff_bits: "(x :: bitmapword) = y \<longleftrightarrow> (\<forall>i < 32. bit x i = bit y i)"
  by (auto intro: bit_word_eqI)

lemma bms_is_empty_iff: "bms_is_empty a \<longleftrightarrow> bms_set a = {}"
  by (auto simp: bms_is_empty_def words_all_zero_iff split: option.split)

subsection \<open>Word loops\<close>

lemma bms_equal_loop_iff:
  "length xs \<le> length ys \<Longrightarrow> bms_equal_loop xs ys \<longleftrightarrow> (\<forall>x. wbit xs x = wbit ys x)"
  by (induction xs ys rule: bms_equal_loop.induct)
    (simp_all add: all_wbit_Cons word_eq_iff_bits words_all_zero_iff)

lemma bms_is_subset_loop_iff:
  "bms_is_subset_loop xs ys \<longleftrightarrow> (\<forall>x. wbit xs x \<longrightarrow> wbit ys x)"
  by (induction xs ys rule: bms_is_subset_loop.induct)
    (simp_all add: all_wbit_Cons andnot_eq_zero_iff words_all_zero_iff)

lemma bms_overlap_loop_iff:
  "bms_overlap_loop xs ys \<longleftrightarrow> \<not> (\<forall>x. \<not> (wbit xs x \<and> wbit ys x))"
proof (induction xs ys rule: bms_overlap_loop.induct)
  case (1 x as y bs)
  then show ?case
    unfolding all_wbit_Cons [of "\<lambda>p q. \<not> (p \<and> q)"] by (auto simp: and_eq_zero_iff)
qed simp_all

lemma bms_nonempty_difference_loop_iff:
  "bms_nonempty_difference_loop xs ys \<longleftrightarrow> \<not> (\<forall>x. wbit xs x \<longrightarrow> wbit ys x)"
proof (induction xs ys rule: bms_nonempty_difference_loop.induct)
  case (1 x as y bs)
  then show ?case
    unfolding all_wbit_Cons [of "\<lambda>p q. p \<longrightarrow> q"] by (auto simp: andnot_eq_zero_iff)
next
  case (2 x as)
  then show ?case
    using all_wbit_Cons1 [of Not x as] by (auto simp: word_eq_zero_iff)
qed simp_all

lemma length_words_combine [simp, array_simps]: "length (words_combine f rs ws) = length rs"
  by (induction f rs ws rule: words_combine.induct) simp_all

lemma nth_words_combine [array_simps]:
  "i < length rs \<Longrightarrow>
   words_combine f rs ws ! i = (if i < length ws then f (rs ! i) (ws ! i) else rs ! i)"
  by (induction f rs ws arbitrary: i rule: words_combine.induct) (auto simp: nth_Cons')

lemma wbit_words_or:
  "length ws \<le> length rs \<Longrightarrow> wbit (words_combine (OR) rs ws) x \<longleftrightarrow> wbit rs x \<or> wbit ws x"
  by (auto simp: wbit_def array_simps bit_simps split: if_splits)

lemma wbit_words_and:
  "length rs \<le> length ws \<Longrightarrow> wbit (words_combine (AND) rs ws) x \<longleftrightarrow> wbit rs x \<and> wbit ws x"
  by (auto simp: wbit_def array_simps bit_simps)

lemma wbit_words_andnot:
  "wbit (words_combine (\<lambda>r w. r AND NOT w) rs ws) x \<longleftrightarrow> wbit rs x \<and> \<not> wbit ws x"
  by (auto simp: wbit_def array_simps bit_simps split: if_splits)

lemma wbit_int_members:
  "wbit (bms_int_members_loop xs ys) x \<longleftrightarrow> wbit xs x \<and> wbit ys x"
  by (induction xs ys arbitrary: x rule: bms_int_members_loop.induct)
    (auto simp: wbit_Cons bit_simps)

lemmas wbit_combine = wbit_words_or wbit_words_and wbit_words_andnot wbit_int_members

text \<open>
  The comparison loop: what has been seen so far rules out one direction of inclusion,
  and the rest of the words decides the other.
\<close>

lemma bms_subset_compare_loop_spec:
  "r \<noteq> BMS_DIFFERENT \<Longrightarrow>
   bms_subset_compare_loop r xs ys =
     (let le = r \<noteq> BMS_SUBSET2 \<and> (\<forall>x. wbit xs x \<longrightarrow> wbit ys x);
          ge = r \<noteq> BMS_SUBSET1 \<and> (\<forall>x. wbit ys x \<longrightarrow> wbit xs x)
      in if le \<and> ge then BMS_EQUAL else if le then BMS_SUBSET1 else if ge then BMS_SUBSET2
         else BMS_DIFFERENT)"
proof (induction r xs ys rule: bms_subset_compare_loop.induct)
  case (1 r a as b bs)
  have "(\<forall>x. wbit (a # as) x \<longrightarrow> wbit (b # bs) x) \<longleftrightarrow> a AND NOT b = 0 \<and> (\<forall>x. wbit as x \<longrightarrow> wbit bs x)"
    and "(\<forall>x. wbit (b # bs) x \<longrightarrow> wbit (a # as) x) \<longleftrightarrow> b AND NOT a = 0 \<and> (\<forall>x. wbit bs x \<longrightarrow> wbit as x)"
    by (simp_all add: all_wbit_Cons andnot_eq_zero_iff)
  with 1 show ?case
    by (cases r; cases "a AND NOT b = 0"; cases "b AND NOT a = 0") (simp_all add: Let_def)
next
  case (2 r a as)
  then show ?case by (cases r) (auto simp: all_wbit_Cons1 word_eq_zero_iff Let_def)
next
  case (3 r b bs)
  then show ?case by (cases r) (auto simp: all_wbit_Cons1 word_eq_zero_iff Let_def)
next
  case (4 r)
  then show ?case by (cases r) simp_all
qed

subsection \<open>The rightmost one\<close>

definition low_bit :: "bitmapword \<Rightarrow> nat" where
  "low_bit w = (LEAST i. bit w i)"

lemma bit_low_bit: "w \<noteq> 0 \<Longrightarrow> bit w (low_bit w)"
  unfolding low_bit_def by (rule LeastI_ex) (auto simp: word_neq_zero_iff_bit)

lemma low_bit_le: "bit w i \<Longrightarrow> low_bit w \<le> i"
  unfolding low_bit_def by (rule Least_le)

lemma low_bit_less: "w \<noteq> 0 \<Longrightarrow> low_bit w < 32"
  using bit_low_bit [of w] bit_imp_le_length by fastforce

lemma low_bit_eqI: "bit w i \<Longrightarrow> (\<And>j. j < i \<Longrightarrow> \<not> bit w j) \<Longrightarrow> low_bit w = i"
  unfolding low_bit_def by (rule Least_equality) (auto simp: not_less [symmetric])

text \<open>
  The two 256-entry tables are the eighth members of families that double in size; the
  defining property of a family is proved by induction, so no table entry is trusted.
\<close>

fun ones_table :: "nat \<Rightarrow> nat list" where
  "ones_table 0 = [0]"
| "ones_table (Suc n) = ones_table n @ map Suc (ones_table n)"

fun rightmost_table :: "nat \<Rightarrow> nat list" where
  "rightmost_table 0 = [0]"
| "rightmost_table (Suc n) = rightmost_table n @ n # tl (rightmost_table n)"

lemma number_of_ones_table: "number_of_ones = ones_table 8"
  by (simp add: number_of_ones_def eval_nat_numeral)

lemma rightmost_one_pos_table: "rightmost_one_pos = rightmost_table 8"
  by (simp add: rightmost_one_pos_def eval_nat_numeral)

lemma bit_exp_add:
  assumes "c < 2 ^ n"
  shows "bit (2 ^ n + c :: nat) i \<longleftrightarrow> i = n \<or> bit c i"
proof -
  have c: "take_bit n c = c" using assms by (simp add: take_bit_nat_eq_self)
  then have nb: "\<not> bit c n" by (metis bit_take_bit_iff less_irrefl)
  have "2 ^ n AND c = 0" by (rule bit_eqI) (use nb in \<open>auto simp: bit_simps\<close>)
  then have "2 ^ n + c = 2 ^ n OR c" by (rule disjunctive_add_eq_or)
  then show ?thesis by (auto simp: bit_simps)
qed

lemma finite_bits_nat [simp]: "finite {i. bit (b :: nat) i}"
proof (rule finite_subset)
  show "{i. bit b i} \<subseteq> {..b}"
  proof
    fix i assume "i \<in> {i. bit b i}"
    then have "odd (b div 2 ^ i)" by (simp add: bit_iff_odd)
    then have "b div 2 ^ i \<noteq> 0" by (intro notI) simp
    then have "2 ^ i \<le> b" by (metis div_less not_le)
    moreover have "i < (2 :: nat) ^ i" by (rule less_exp)
    ultimately show "i \<in> {..b}" unfolding atMost_iff by linarith
  qed
qed simp

lemma ones_table_spec:
  "length (ones_table n) = 2 ^ n \<and> (\<forall>b < 2 ^ n. ones_table n ! b = card {i. bit b i})"
proof (induction n)
  case (Suc n)
  have "ones_table (Suc n) ! b = card {i. bit b i}" if b: "b < 2 ^ Suc n" for b
  proof (cases "b < 2 ^ n")
    case True
    with Suc show ?thesis by (simp add: nth_append)
  next
    case False
    then obtain c where c: "b = 2 ^ n + c" "c < 2 ^ n"
      using b by (metis le_add_diff_inverse linorder_not_less mult_2 nat_add_left_cancel_less power_Suc)
    have "{i. bit b i} = insert n {i. bit c i}" using c by (auto simp: bit_exp_add)
    moreover have "n \<notin> {i. bit c i}"
      using c(2) by (metis bit_take_bit_iff less_irrefl mem_Collect_eq take_bit_nat_eq_self)
    ultimately show ?thesis using Suc c by (simp add: nth_append)
  qed
  with Suc show ?case by simp
qed simp

lemma rightmost_table_spec:
  "length (rightmost_table n) = 2 ^ n \<and>
   (\<forall>b < 2 ^ n. 0 < b \<longrightarrow> bit b (rightmost_table n ! b) \<and> (\<forall>j < rightmost_table n ! b. \<not> bit b j))"
proof (induction n)
  case (Suc n)
  let ?t = "rightmost_table n"
  have len: "length ?t = 2 ^ n" using Suc by blast
  have "bit b (rightmost_table (Suc n) ! b) \<and> (\<forall>j < rightmost_table (Suc n) ! b. \<not> bit b j)"
    if b: "b < 2 ^ Suc n" "0 < b" for b
  proof (cases "b < 2 ^ n")
    case True
    with Suc b show ?thesis by (simp add: nth_append)
  next
    case False
    then obtain c where c: "b = 2 ^ n + c" "c < 2 ^ n"
      using b by (metis le_add_diff_inverse linorder_not_less mult_2 nat_add_left_cancel_less power_Suc)
    show ?thesis
    proof (cases "c = 0")
      case True
      with c len show ?thesis by (simp add: nth_append bit_simps)
    next
      case False
      then have "rightmost_table (Suc n) ! b = ?t ! c"
        using c len by (simp add: nth_append nth_tl nth_Cons')
      moreover have "bit c (?t ! c) \<and> (\<forall>j < ?t ! c. \<not> bit c j)" using Suc c False by blast
      moreover have "?t ! c < n"
        using calculation(2) c(2) by (metis bit_take_bit_iff take_bit_nat_eq_self)
      ultimately show ?thesis using c by (auto simp: bit_exp_add)
    qed
  qed
  moreover have "length (rightmost_table (Suc n)) = 2 ^ Suc n" using len by simp
  ultimately show ?case by blast
qed simp

subsection \<open>Scanning a word\<close>

lemma byte_bits: "bit (unat (w AND 255 :: bitmapword)) i \<longleftrightarrow> i < 8 \<and> bit w i"
proof -
  have m: "(255 :: bitmapword) = mask 8" by (simp add: mask_eq_exp_minus_1)
  have "w AND 255 = take_bit 8 w" unfolding m by (simp only: take_bit_eq_mask)
  then show ?thesis by (auto simp: bit_unsigned_iff bit_simps dest: bit_imp_le_length)
qed

lemma byte_less: "unat (w AND 255 :: bitmapword) < 256"
proof -
  have "w AND 255 \<le> (255 :: bitmapword)" by (rule word_and_le1)
  then have "unat (w AND 255) \<le> unat (255 :: bitmapword)" by (simp only: word_le_nat_alt)
  then show ?thesis by simp
qed

lemma byte_zero_iff: "w AND 255 = (0 :: bitmapword) \<longleftrightarrow> (\<forall>i < 8. \<not> bit w i)"
proof -
  have "w AND 255 = 0 \<longleftrightarrow> (\<forall>i. \<not> bit (unat (w AND 255)) i)"
    by (metis bit_0_eq bit_eqI bot_apply bot_bool_def unat_eq_zero)
  then show ?thesis by (simp add: byte_bits)
qed

lemma low_bit_byte:
  assumes "w AND 255 \<noteq> (0 :: bitmapword)"
  shows "rightmost_one_pos ! unat (w AND 255) = low_bit w"
proof -
  let ?b = "unat (w AND 255)"
  have "0 < ?b" using assms by (simp add: unat_gt_0)
  then have "bit ?b (rightmost_one_pos ! ?b)" "\<forall>j < rightmost_one_pos ! ?b. \<not> bit ?b j"
    using rightmost_table_spec [of 8] byte_less [of w] by (simp_all add: rightmost_one_pos_table)
  then show ?thesis by (intro low_bit_eqI [symmetric]) (auto simp: byte_bits)
qed

lemma low_bit_drop_byte:
  assumes "w \<noteq> 0" and "w AND 255 = (0 :: bitmapword)"
  shows "drop_bit 8 w \<noteq> 0" and "low_bit w = low_bit (drop_bit 8 w) + 8"
proof -
  have ge: "8 \<le> low_bit w"
    using assms bit_low_bit [of w] byte_zero_iff [of w] by (meson not_less)
  then have b: "bit (drop_bit 8 w) (low_bit w - 8)"
    using bit_low_bit [OF assms(1)] by (simp add: bit_simps)
  then show "drop_bit 8 w \<noteq> 0" by auto
  have "low_bit (drop_bit 8 w) = low_bit w - 8"
  proof (rule low_bit_eqI [OF b])
    fix j assume "j < low_bit w - 8"
    then have "8 + j < low_bit w" by simp
    then show "\<not> bit (drop_bit 8 w) j" using low_bit_le [of w "8 + j"] by (auto simp: bit_simps)
  qed
  then show "low_bit w = low_bit (drop_bit 8 w) + 8" using ge by simp
qed

lemma scan_rightmost_one_returns:
  "w \<noteq> 0 \<Longrightarrow> scan_rightmost_one w r = Some (r + int (low_bit w))"
proof (induction "unat w" arbitrary: w r rule: less_induct)
  case less
  show ?case
  proof (cases "w AND 255 = 0")
    case True
    then show ?thesis
      using less low_bit_drop_byte [OF less.prems True] unat_drop_byte_less [OF less.prems]
      by (simp add: scan_rightmost_one.simps [of w])
  next
    case False
    then show ?thesis by (simp add: scan_rightmost_one.simps [of w] low_bit_byte)
  qed
qed

lemma bits_split_byte:
  "{i. bit (w :: bitmapword) i} = {i. bit (unat (w AND 255)) i} \<union> (\<lambda>i. i + 8) ` {i. bit (drop_bit 8 w) i}"
proof (intro set_eqI)
  fix i show "i \<in> {i. bit w i} \<longleftrightarrow>
      i \<in> {i. bit (unat (w AND 255)) i} \<union> (\<lambda>i. i + 8) ` {i. bit (drop_bit 8 w) i}"
    by (cases "i < 8") (auto simp: byte_bits bit_drop_bit_eq add.commute image_iff intro!: exI [of _ "i - 8"])
qed

lemma finite_bits_word [simp]: "finite {i. bit (w :: bitmapword) i}"
  by (rule finite_subset [of _ "{..<32}"]) (auto dest: bit_imp_le_length)

declare count_ones.simps [simp del]

lemma count_ones_card: "count_ones w r = r + card {i. bit w i}"
proof (induction w r rule: count_ones.induct)
  case (1 w r)
  show ?case
  proof (cases "w = 0")
    case True
    then show ?thesis by (simp add: count_ones.simps [of 0])
  next
    case False
    have "card {i. bit w i} = card {i. bit (unat (w AND 255)) i} + card {i. bit (drop_bit 8 w) i}"
      by (subst bits_split_byte, subst card_Un_disjoint)
        (auto simp: byte_bits card_image finite_imageI)
    moreover have "number_of_ones ! unat (w AND 255) = card {i. bit (unat (w AND 255)) i}"
      using ones_table_spec [of 8] byte_less [of w] by (simp add: number_of_ones_table)
    ultimately show ?thesis using 1 False by (simp add: count_ones.simps [of w])
  qed
qed

subsection \<open>Isolating the rightmost one\<close>

lemma odd_and_minus: "odd u \<Longrightarrow> u AND - u = (1 :: bitmapword)"
proof -
  assume "odd u"
  then have "even (NOT u)" by simp
  then have "NOT u + 1 = NOT u OR 1" by (simp add: or_one_eq)
  then have "- u = NOT u OR 1" by (simp add: minus_eq_not_plus_1)
  then have "u AND - u = u AND 1" by (simp add: bit.conj_disj_distrib)
  also have "\<dots> = 1" using \<open>odd u\<close> by (simp add: and_one_eq odd_iff_mod_2_eq_one)
  finally show ?thesis .
qed

lemma RIGHTMOST_ONE_eq:
  assumes "w \<noteq> 0"
  shows "RIGHTMOST_ONE w = push_bit (low_bit w) 1"
proof -
  define i u where "i = low_bit w" and "u = drop_bit i w"
  have w: "w = push_bit i u"
    by (rule bit_word_eqI) (use low_bit_le [of w] in \<open>auto simp: i_def u_def bit_simps not_le\<close>)
  have "odd u" using bit_low_bit [OF assms] by (simp add: u_def i_def bit_iff_odd drop_bit_eq_div)
  have "- w = push_bit i (- u)" by (subst w) (simp add: push_bit_eq_mult)
  then have "w AND - w = push_bit i (u AND - u)" by (subst (1) w) (simp add: push_bit_and)
  then show ?thesis using odd_and_minus [OF \<open>odd u\<close>] by (simp add: RIGHTMOST_ONE_def i_def)
qed

lemma bit_RIGHTMOST_ONE: "w \<noteq> 0 \<Longrightarrow> bit (RIGHTMOST_ONE w) j \<longleftrightarrow> j = low_bit w"
  using low_bit_less [of w] by (auto simp: RIGHTMOST_ONE_eq bit_simps)

lemma RIGHTMOST_ONE_nonzero:
  assumes "w \<noteq> 0"
  shows "RIGHTMOST_ONE w \<noteq> 0" and "low_bit (RIGHTMOST_ONE w) = low_bit w"
proof -
  have b: "bit (RIGHTMOST_ONE w) (low_bit w)" using assms by (simp add: bit_RIGHTMOST_ONE)
  then show "RIGHTMOST_ONE w \<noteq> 0" by auto
  show "low_bit (RIGHTMOST_ONE w) = low_bit w"
    by (rule low_bit_eqI [OF b]) (simp add: bit_RIGHTMOST_ONE [OF assms])
qed

lemma HAS_MULTIPLE_ONES_iff:
  assumes "w \<noteq> 0"
  shows "HAS_MULTIPLE_ONES w \<longleftrightarrow> {i. bit w i} \<noteq> {low_bit w}"
proof -
  have "RIGHTMOST_ONE w = w \<longleftrightarrow> (\<forall>i. bit (RIGHTMOST_ONE w) i = bit w i)"
    by (auto intro: bit_word_eqI)
  then show ?thesis by (auto simp: HAS_MULTIPLE_ONES_def bit_RIGHTMOST_ONE [OF assms])
qed

subsection \<open>The set of an array, word by word\<close>

abbreviation wset :: "bitmapword list \<Rightarrow> nat set" where
  "wset ws \<equiv> {x. wbit ws x}"

lemma wset_Cons: "wset (w # ws) = {i. bit w i} \<union> (\<lambda>x. x + 32) ` wset ws"
proof (intro set_eqI)
  fix x
  show "x \<in> wset (w # ws) \<longleftrightarrow> x \<in> {i. bit w i} \<union> (\<lambda>x. x + 32) ` wset ws"
    by (cases "x < 32") (auto simp: wbit_Cons image_iff intro!: exI [of _ "x - 32"] dest: bit_imp_le_length)
qed

lemma wset_Cons_zero: "wset (0 # ws) = (\<lambda>x. x + 32) ` wset ws"
  by (simp add: wset_Cons)

lemma finite_wset [simp]: "finite (wset ws)"
  using finite_bms_set [of "Some \<lparr>words = ws\<rparr>"] by simp

lemma card_wset_Cons: "card (wset (w # ws)) = card {i. bit w i} + card (wset ws)"
  by (subst wset_Cons, subst card_Un_disjoint)
    (auto simp: card_image finite_imageI dest: bit_imp_le_length)

lemma ex_bit_iff [simp]:
  "(\<exists>i. bit (w :: bitmapword) i) \<longleftrightarrow> w \<noteq> 0" "Ex (bit (w :: bitmapword)) \<longleftrightarrow> w \<noteq> 0"
  "(\<forall>i. \<not> bit (w :: bitmapword) i) \<longleftrightarrow> w = 0"
  using word_neq_zero_iff_bit [of w] by auto

lemma bits_empty_iff: "{i. bit (w :: bitmapword) i} = {} \<longleftrightarrow> w = 0"
  by simp

lemma card_bits_multiple:
  assumes "w \<noteq> 0" and "HAS_MULTIPLE_ONES w"
  shows "2 \<le> card {i. bit (w :: bitmapword) i}"
proof -
  obtain i where "bit w i" "i \<noteq> low_bit w"
    using assms bit_low_bit [of w] by (auto simp: HAS_MULTIPLE_ONES_iff)
  then have "{low_bit w, i} \<subseteq> {i. bit w i}" using bit_low_bit [OF assms(1)] by auto
  then have "card {low_bit w, i} \<le> card {i. bit w i}" by (intro card_mono) auto
  then show ?thesis using \<open>i \<noteq> low_bit w\<close> by simp
qed

lemma bits_single:
  assumes "w \<noteq> 0" and "\<not> HAS_MULTIPLE_ONES w"
  shows "{i. bit (w :: bitmapword) i} = {low_bit w}"
  using assms by (simp add: HAS_MULTIPLE_ONES_iff)

subsection \<open>Counting and finding members\<close>

lemma bms_num_members_loop_card: "bms_num_members_loop r ws = r + card (wset ws)"
  by (induction ws arbitrary: r) (simp_all add: card_wset_Cons count_ones_card)

lemma bms_membership_loop_spec:
  "bms_membership_loop BMS_EMPTY_SET ws =
     (if card (wset ws) = 0 then BMS_EMPTY_SET else if card (wset ws) = 1 then BMS_SINGLETON else BMS_MULTIPLE)"
  "bms_membership_loop BMS_SINGLETON ws = (if card (wset ws) = 0 then BMS_SINGLETON else BMS_MULTIPLE)"
proof (induction ws)
  case (Cons w ws)
  { case 1
    show ?case
    proof (cases "w = 0")
      case False
      then show ?thesis using Cons.IH card_bits_multiple [of w] bits_single [of w]
        by (cases "HAS_MULTIPLE_ONES w") (simp_all add: card_wset_Cons)
    qed (use Cons.IH in \<open>simp add: card_wset_Cons\<close>)
  next
    case 2
    show ?case using Cons.IH bits_empty_iff [of w]
      by (cases "w = 0") (simp_all add: card_wset_Cons card_eq_0_iff)
  }
qed simp_all

lemma bms_singleton_member_loop_found:
  "0 \<le> r \<Longrightarrow> bms_singleton_member_loop n r ws =
     Some (if wset ws = {} then Inr r else Inl (Ereport ERROR ERRCODE_DATA_EXCEPTION))"
  by (induction ws arbitrary: n) (auto simp: wset_Cons bits_empty_iff)

lemma Min_wset_zero: "wset ws \<noteq> {} \<Longrightarrow> Min (wset (0 # ws)) = Min (wset ws) + 32"
  unfolding wset_Cons_zero by (intro mono_Min_commute [symmetric]) (auto simp: mono_def)

lemma Min_wset_nonzero: "w \<noteq> 0 \<Longrightarrow> Min (wset (w # ws)) = low_bit w"
proof (rule Min_eqI)
  assume "w \<noteq> 0"
  then show "low_bit w \<in> wset (w # ws)" by (simp add: wset_Cons bit_low_bit)
  show "low_bit w \<le> y" if "y \<in> wset (w # ws)" for y
    using that low_bit_le [of w] low_bit_less [OF \<open>w \<noteq> 0\<close>] by (auto simp: wbit_Cons split: if_splits)
qed simp

lemma wset_zero_empty: "wset (0 # ws) = {} \<longleftrightarrow> wset ws = {}"
  unfolding wset_Cons_zero by simp

lemma wset_nonzero: "w \<noteq> 0 \<Longrightarrow> wset (w # ws) \<noteq> {}"
  unfolding wset_Cons by simp

lemma bms_singleton_member_loop_spec:
  "bms_singleton_member_loop n (-1) ws =
     Some (if wset ws = {} then Inl (Ereport ERROR ERRCODE_UNEXPECTED_NULL_VALUE)
           else if card (wset ws) = 1 then Inr (int (32 * n + Min (wset ws)))
           else Inl (Ereport ERROR ERRCODE_DATA_EXCEPTION))"
proof (induction ws arbitrary: n)
  case (Cons w ws)
  show ?case
  proof (cases "w = 0")
    case True
    then show ?thesis using Cons.IH [of "Suc n"]
      by (simp add: wset_zero_empty Min_wset_zero card_wset_Cons del: Collect_empty_eq)
  next
    case False
    show ?thesis
    proof (cases "HAS_MULTIPLE_ONES w")
      case True
      then show ?thesis using False card_bits_multiple [of w]
        by (simp add: wset_nonzero card_wset_Cons del: Collect_empty_eq)
    next
      case m: False
      then show ?thesis using False bits_single [OF False m]
        by (simp add: wset_nonzero Min_wset_nonzero scan_rightmost_one_returns
            bms_singleton_member_loop_found card_wset_Cons card_eq_0_iff mult.commute
            del: Collect_empty_eq)
    qed
  qed
qed simp

lemma bms_first_member_loop_empty:
  "wset ws = {} \<Longrightarrow> bms_first_member_loop n ws = Some (-1, ws)"
proof (induction ws arbitrary: n)
  case (Cons w ws)
  then have "w = 0" using wset_nonzero [of w ws] by blast
  then show ?case using Cons wset_zero_empty [of ws] by simp
qed simp

lemma bms_first_member_loop_nonempty:
  "wset ws \<noteq> {} \<Longrightarrow>
   \<exists>ws'. bms_first_member_loop n ws = Some (int (32 * n + Min (wset ws)), ws') \<and>
     wset ws' = wset ws - {Min (wset ws)}"
proof (induction ws arbitrary: n)
  case (Cons w ws)
  show ?case
  proof (cases "w = 0")
    case True
    then have ne: "wset ws \<noteq> {}" using Cons.prems wset_zero_empty [of ws] by blast
    then obtain ws' where ws': "bms_first_member_loop (Suc n) ws = Some (int (32 * Suc n + Min (wset ws)), ws')"
      "wset ws' = wset ws - {Min (wset ws)}"
      using Cons.IH [of "Suc n"] by blast
    have "wset (0 # ws') = wset (0 # ws) - {Min (wset ws) + 32}"
      unfolding wset_Cons_zero ws'(2) by auto
    then show ?thesis using ws'(1) True Min_wset_zero [OF ne] by simp
  next
    case False
    have "wset ((w AND NOT (RIGHTMOST_ONE w)) # ws) = wset (w # ws) - {low_bit w}"
      using low_bit_less [OF False]
      by (auto simp: wbit_Cons bit_simps bit_RIGHTMOST_ONE [OF False] split: if_splits)
    then show ?thesis using False RIGHTMOST_ONE_nonzero [OF False]
      by (simp add: Let_def scan_rightmost_one_returns mult.commute Min_wset_nonzero)
  qed
qed simp

lemma bms_next_member_loop_full:
  "bms_next_member_loop n (NOT 0) ws = Some (if wset ws = {} then -2 else int (32 * n + Min (wset ws)))"
proof (induction ws arbitrary: n)
  case (Cons w ws)
  then show ?case using Cons.IH [of "Suc n"]
    by (cases "w = 0")
      (simp_all add: wset_zero_empty Min_wset_zero wset_nonzero Min_wset_nonzero
        scan_rightmost_one_returns mult.commute del: Collect_empty_eq)
qed simp

text \<open>
  The first word of the walk is masked; the bits below \<open>k\<close> are ignored there.
\<close>

lemma bms_next_member_loop_masked:
  assumes "k < 32"
  shows "bms_next_member_loop n (push_bit k (NOT 0)) ws =
    Some (if {x \<in> wset ws. k \<le> x} = {} then -2 else int (32 * n + Min {x \<in> wset ws. k \<le> x}))"
proof (cases ws)
  case (Cons w vs)
  have "{x \<in> wset (w # vs). k \<le> x} = wset ((w AND push_bit k (NOT 0)) # vs)"
    using assms by (auto simp: wbit_Cons bit_simps split: if_splits)
  moreover have "bms_next_member_loop n (push_bit k (NOT 0)) (w # vs) =
      bms_next_member_loop n (NOT 0) ((w AND push_bit k (NOT 0)) # vs)"
    by simp
  ultimately show ?thesis unfolding Cons by (simp only: bms_next_member_loop_full)
qed simp

lemma wbit_drop: "wbit (drop n ws) y \<longleftrightarrow> wbit ws (y + 32 * n)"
proof -
  have "(y + 32 * n) div 32 = n + y div 32" "(y + 32 * n) mod 32 = y mod 32" by simp_all
  then show ?thesis by (auto simp: wbit_def simp del: div_mult_self2 mod_mult_self2)
qed

lemma wset_from:
  "{x \<in> wset ws. q \<le> x} = (\<lambda>y. y + 32 * (q div 32)) ` {y \<in> wset (drop (q div 32) ws). q mod 32 \<le> y}"
  (is "?l = ?f ` ?r")
proof (intro equalityI subsetI)
  fix x assume x: "x \<in> ?l"
  have "q mod 32 + 32 * (q div 32) = q" by simp
  moreover have "q \<le> x" using x by simp
  ultimately have "32 * (q div 32) \<le> x" "q mod 32 \<le> x - 32 * (q div 32)" by linarith+
  then show "x \<in> ?f ` ?r"
    using x by (intro image_eqI [of _ _ "x - 32 * (q div 32)"]) (auto simp: wbit_drop)
next
  fix x assume "x \<in> ?f ` ?r"
  then obtain y where y: "x = y + 32 * (q div 32)" "wbit ws x" "q mod 32 \<le> y" by (auto simp: wbit_drop)
  have "q = q mod 32 + 32 * (q div 32)" by simp
  then have "q \<le> x" using y by linarith
  then show "x \<in> ?l" using y by simp
qed

lemma bms_next_member_spec:
  assumes "-1 \<le> p"
  shows "bms_next_member a p = Some (Inr (if {x \<in> bms_set a. p < int x} = {} then -2
    else int (Min {x \<in> bms_set a. p < int x})))"
proof (cases a)
  case None
  then show ?thesis using assms by (simp add: bms_next_member_def)
next
  case (Some s)
  define q where "q = nat (p + 1)"
  let ?r = "{y \<in> wset (drop (q div 32) (words s)). q mod 32 \<le> y}"
  have "p < int x \<longleftrightarrow> q \<le> x" for x using assms by (auto simp: q_def)
  then have S: "{x \<in> bms_set a. p < int x} = (\<lambda>y. y + 32 * (q div 32)) ` ?r"
    using Some wset_from [of "words s" q] by simp
  have min: "?r \<noteq> {} \<Longrightarrow> Min ((\<lambda>y. y + 32 * (q div 32)) ` ?r) = Min ?r + 32 * (q div 32)"
    by (intro mono_Min_commute [symmetric]) (auto simp: mono_def)
  have "bms_next_member a p =
      map_option Inr (bms_next_member_loop (q div 32) (push_bit (q mod 32) (NOT 0)) (drop (q div 32) (words s)))"
    using assms Some by (simp add: bms_next_member_def WORDNUM_def BITNUM_def q_def Let_def)
  also have "\<dots> = Some (Inr (if ?r = {} then -2 else int (32 * (q div 32) + Min ?r)))"
    by (subst bms_next_member_loop_masked) simp_all
  finally show ?thesis unfolding S using min by (cases "?r = {}") (simp_all only: image_is_empty if_True if_False simp_thms add.commute)
qed

subsection \<open>Equality and hashing\<close>

lemma words_all_zero_replicate: "words_all_zero ws \<longleftrightarrow> ws = replicate (length ws) 0"
  by (induction ws) auto

lemma bms_equal_loop_pad:
  "bms_equal_loop xs ys \<Longrightarrow> length xs \<le> length ys \<Longrightarrow> \<exists>n. ys = xs @ replicate n 0"
proof (induction xs arbitrary: ys)
  case Nil
  then have "words_all_zero ys" by (cases ys) simp_all
  then show ?case using words_all_zero_replicate [of ys] by auto
next
  case (Cons x xs)
  then show ?case by (cases ys) (auto split: if_splits)
qed

lemma dropWhile_zero_replicate: "dropWhile (\<lambda>w. w = 0) (replicate n 0 @ zs) = dropWhile (\<lambda>w. w = 0) zs"
  by (induction n) simp_all

lemma strip_zero_words_pad: "strip_zero_words (xs @ replicate n 0) = strip_zero_words xs"
  by (simp add: strip_zero_words_def dropWhile_zero_replicate)

lemma bms_equal_iff: "bms_equal a b \<longleftrightarrow> bms_set a = bms_set b"
proof (cases a; cases b)
  fix x y assume "a = Some x" "b = Some y"
  then show ?thesis
    by (cases "nwords x \<le> nwords y")
      (simp_all add: bms_equal_def nwords_def bms_equal_loop_iff set_eq_iff eq_commute)
qed (simp_all add: bms_equal_def bms_is_empty_iff eq_commute [of "{}"] del: Collect_empty_eq empty_Collect_eq)

subsection \<open>Set algebra\<close>

lemma bms_set_copy: "bms_set (bms_copy a) = bms_set a"
  by (simp add: bms_copy_def split: option.split)

lemma bms_set_union: "bms_set (bms_union a b) = bms_set a \<union> bms_set b"
  by (cases a; cases b) (auto simp: bms_union_def bms_copy_def nwords_def wbit_combine)

lemma bms_set_intersect: "bms_set (bms_intersect a b) = bms_set a \<inter> bms_set b"
  by (cases a; cases b) (auto simp: bms_intersect_def nwords_def wbit_combine)

lemma bms_set_difference: "bms_set (bms_difference a b) = bms_set a - bms_set b"
  by (cases a; cases b) (auto simp: bms_difference_def bms_copy_def wbit_combine)

lemma bms_set_add_members: "bms_set (bms_add_members a b) = bms_set a \<union> bms_set b"
  by (cases a; cases b) (auto simp: bms_add_members_def bms_copy_def nwords_def wbit_combine)

lemma bms_set_int_members: "bms_set (bms_int_members a b) = bms_set a \<inter> bms_set b"
  by (cases a; cases b) (auto simp: bms_int_members_def wbit_combine)

lemma bms_set_del_members: "bms_set (bms_del_members a b) = bms_set a - bms_set b"
  by (cases a; cases b) (auto simp: bms_del_members_def wbit_combine)

lemma bms_set_join: "bms_set (bms_join a b) = bms_set a \<union> bms_set b"
  by (cases a; cases b) (auto simp: bms_join_def nwords_def wbit_combine)

lemma bms_is_subset_iff: "bms_is_subset a b \<longleftrightarrow> bms_set a \<subseteq> bms_set b"
  by (cases a; cases b) (auto simp: bms_is_subset_def bms_is_empty_iff bms_is_subset_loop_iff)

lemma bms_overlap_iff: "bms_overlap a b \<longleftrightarrow> bms_set a \<inter> bms_set b \<noteq> {}"
  by (cases a; cases b) (auto simp: bms_overlap_def bms_overlap_loop_iff)

lemma bms_nonempty_difference_iff: "bms_nonempty_difference a b \<longleftrightarrow> bms_set a - bms_set b \<noteq> {}"
  by (cases a; cases b)
    (auto simp: bms_nonempty_difference_def bms_is_empty_iff bms_nonempty_difference_loop_iff)

lemma push_bit_one_and: "n < 32 \<Longrightarrow> (w :: bitmapword) AND push_bit n 1 = 0 \<longleftrightarrow> \<not> bit w n"
  by (auto simp: word_eq_zero_iff bit_simps)

lemma bms_is_member_spec:
  "bms_is_member x a = (if x < 0 then Inl negative_member else Inr (nat x \<in> bms_set a))"
  by (cases a) (auto simp: bms_is_member_def nwords_def WORDNUM_def BITNUM_def wbit_def push_bit_one_and
      simp del: push_bit_of_1)

lemma wbit_update:
  assumes "k < length ws" and "\<And>i. i < 32 \<Longrightarrow> bit v i = (if i = m then b else bit (ws ! k) i)" and "m < 32"
  shows "wbit (ws[k := v]) y \<longleftrightarrow> (if y = 32 * k + m then b else wbit ws y)"
proof -
  have "y = 32 * k + m \<longleftrightarrow> y div 32 = k \<and> y mod 32 = m" using assms(3) by auto
  then show ?thesis using assms(1,2) by (auto simp: wbit_def nth_list_update)
qed

lemma wbit_replicate_zero [simp]: "\<not> wbit (replicate n 0) x"
  by (simp add: wbit_def)

lemma num_split: "32 * (n div 32) + n mod 32 = (n :: nat)"
  by simp

lemma bms_make_singleton_spec:
  "0 \<le> x \<Longrightarrow> \<exists>s. bms_make_singleton x = Inr (Some s) \<and> wset (words s) = {nat x} \<and> nwords s = WORDNUM x + 1"
  unfolding bms_make_singleton_def nwords_def
  by (simp only: not_less [symmetric] if_False, intro exI conjI, rule refl)
    (auto simp: WORDNUM_def BITNUM_def bit_simps wbit_update [where b = True and m = "nat x mod 32"] num_split
       simp del: replicate_Suc mult_div_mod_eq)

lemma bms_add_member_spec:
  assumes "0 \<le> x"
  shows "\<exists>t. bms_add_member a x = Inr t \<and> bms_set t = insert (nat x) (bms_set a)"
proof (cases a)
  case None
  then show ?thesis using assms bms_make_singleton_spec [OF assms] by (auto simp: bms_add_member_def)
next
  case (Some s)
  show ?thesis
  proof (cases "WORDNUM x \<ge> nwords s")
    case True
    obtain r where r: "bms_make_singleton x = Inr (Some r)" "wset (words r) = {nat x}" "nwords r = WORDNUM x + 1"
      using bms_make_singleton_spec [OF assms] by blast
    then have "wbit (words_combine (OR) (words r) (words s)) y \<longleftrightarrow> y = nat x \<or> wbit (words s) y" for y
      using True by (auto simp: nwords_def wbit_words_or)
    then show ?thesis using r(1) assms Some True by (auto simp: bms_add_member_def)
  next
    case False
    have "wbit ((words s)[WORDNUM x := words s ! WORDNUM x OR push_bit (BITNUM x) 1]) y \<longleftrightarrow>
        (if y = 32 * WORDNUM x + BITNUM x then True else wbit (words s) y)" for y
      using False by (intro wbit_update) (auto simp: nwords_def bit_simps BITNUM_def)
    then show ?thesis using False Some assms
      by (auto simp: bms_add_member_def) (auto simp: WORDNUM_def BITNUM_def)
  qed
qed

lemma bms_del_member_spec:
  assumes "0 \<le> x"
  shows "\<exists>t. bms_del_member a x = Inr t \<and> bms_set t = bms_set a - {nat x}"
proof (cases a)
  case (Some s)
  show ?thesis
  proof (cases "WORDNUM x < nwords s")
    case True
    have "wbit ((words s)[WORDNUM x := words s ! WORDNUM x AND NOT (push_bit (BITNUM x) 1)]) y \<longleftrightarrow>
        (if y = 32 * WORDNUM x + BITNUM x then False else wbit (words s) y)" for y
      using True by (intro wbit_update) (auto simp: nwords_def bit_simps BITNUM_def)
    then show ?thesis using True Some assms
      by (auto simp: bms_del_member_def) (auto simp: WORDNUM_def BITNUM_def)
  next
    case False
    then have "\<not> wbit (words s) (nat x)" by (simp add: wbit_def WORDNUM_def nwords_def)
    then show ?thesis using False Some assms by (auto simp: bms_del_member_def)
  qed
qed (use assms in \<open>simp add: bms_del_member_def\<close>)

interpretation bms: int_set_iter bms_set bms_is_member bms_add_member bms_del_member negative_member bms_next_member
proof unfold_locales
  fix s :: bms and x :: int
  show "finite (bms_set s)" by simp
  show "bms_is_member x s = (if x < 0 then Inl negative_member else Inr (nat x \<in> bms_set s))"
    by (rule bms_is_member_spec)
  show "x < 0 \<Longrightarrow> bms_add_member s x = Inl negative_member" by (simp add: bms_add_member_def)
  show "x < 0 \<Longrightarrow> bms_del_member s x = Inl negative_member" by (simp add: bms_del_member_def)
  show "0 \<le> x \<Longrightarrow> \<exists>t. bms_add_member s x = Inr t \<and> bms_set t = insert (nat x) (bms_set s)"
    by (rule bms_add_member_spec)
  show "0 \<le> x \<Longrightarrow> \<exists>t. bms_del_member s x = Inr t \<and> bms_set t = bms_set s - {nat x}"
    by (rule bms_del_member_spec)
  show "-1 \<le> x \<Longrightarrow> bms_next_member s x = Some (Inr (if {y \<in> bms_set s. x < int y} = {} then -2
      else int (Min {y \<in> bms_set s. x < int y})))"
    by (rule bms_next_member_spec)
qed

subsection \<open>Properties\<close>

text \<open>
  C34. Set algebra: union, intersection, difference, their recycling variants and join compute
  the corresponding sets, whatever the lengths of the two word arrays, and the tests
  \<open>bms_equal\<close>, \<open>bms_is_subset\<close>, \<open>bms_overlap\<close> and \<open>bms_nonempty_difference\<close>
  decide the corresponding relations.
\<close>

theorem bms_set_algebra:
  "bms_set (bms_union a b) = bms_set a \<union> bms_set b \<and>
   bms_set (bms_add_members a b) = bms_set a \<union> bms_set b \<and>
   bms_set (bms_join a b) = bms_set a \<union> bms_set b \<and>
   bms_set (bms_intersect a b) = bms_set a \<inter> bms_set b \<and>
   bms_set (bms_int_members a b) = bms_set a \<inter> bms_set b \<and>
   bms_set (bms_difference a b) = bms_set a - bms_set b \<and>
   bms_set (bms_del_members a b) = bms_set a - bms_set b \<and>
   (bms_equal a b = (bms_set a = bms_set b)) \<and>
   (bms_is_subset a b = (bms_set a \<subseteq> bms_set b)) \<and>
   (bms_overlap a b = (bms_set a \<inter> bms_set b \<noteq> {})) \<and>
   (bms_nonempty_difference a b = (bms_set a - bms_set b \<noteq> {}))"
  by (intro conjI bms_set_union bms_set_add_members bms_set_join bms_set_intersect bms_set_int_members
      bms_set_difference bms_set_del_members bms_equal_iff bms_is_subset_iff bms_overlap_iff
      bms_nonempty_difference_iff)

text \<open>
  \<open>bms_subset_compare\<close> decides equality and both inclusions in one pass.
\<close>

lemma bms_subset_compare_correct:
  "bms_subset_compare a b =
    (if bms_set a = bms_set b then BMS_EQUAL
     else if bms_set a \<subseteq> bms_set b then BMS_SUBSET1
     else if bms_set b \<subseteq> bms_set a then BMS_SUBSET2
     else BMS_DIFFERENT)"
proof (cases a; cases b)
  fix x y assume [simp]: "a = Some x" "b = Some y"
  show ?thesis
    by (simp add: bms_subset_compare_def bms_subset_compare_loop_spec Let_def subset_iff)
      (auto simp: set_eq_iff)
qed (auto simp: bms_subset_compare_def bms_is_empty_iff)

lemma bms_counts:
  "bms_num_members a = card (bms_set a)"
  "bms_membership a =
    (if card (bms_set a) = 0 then BMS_EMPTY_SET else if card (bms_set a) = 1 then BMS_SINGLETON else BMS_MULTIPLE)"
  "bms_singleton_member a =
    Some (if card (bms_set a) = 0 then Inl (Ereport ERROR ERRCODE_UNEXPECTED_NULL_VALUE)
          else if card (bms_set a) = 1 then Inr (int (the_elem (bms_set a)))
          else Inl (Ereport ERROR ERRCODE_DATA_EXCEPTION))"
proof -
  have single: "card S = 1 \<Longrightarrow> Min S = the_elem S" for S :: "nat set"
    by (auto simp: card_1_singleton_iff)
  show "bms_num_members a = card (bms_set a)"
    by (simp add: bms_num_members_def bms_num_members_loop_card split: option.split)
  show "bms_membership a =
      (if card (bms_set a) = 0 then BMS_EMPTY_SET else if card (bms_set a) = 1 then BMS_SINGLETON else BMS_MULTIPLE)"
    by (cases a) (simp_all add: bms_membership_def bms_membership_loop_spec)
  show "bms_singleton_member a =
    Some (if card (bms_set a) = 0 then Inl (Ereport ERROR ERRCODE_UNEXPECTED_NULL_VALUE)
          else if card (bms_set a) = 1 then Inr (int (the_elem (bms_set a)))
          else Inl (Ereport ERROR ERRCODE_DATA_EXCEPTION))"
    by (cases a) (simp_all add: bms_singleton_member_def bms_singleton_member_loop_spec card_eq_0_iff single
        del: Collect_empty_eq)
qed

text \<open>
  Counting: \<open>bms_num_members\<close> is the cardinality, \<open>bms_membership\<close> classifies it,
  and \<open>bms_singleton_member\<close> always returns: the one member, or the error of an
  empty or of a larger set.
\<close>

lemma bms_counting:
  "bms_num_members a = card (bms_set a) \<and>
   bms_membership a =
    (if card (bms_set a) = 0 then BMS_EMPTY_SET else if card (bms_set a) = 1 then BMS_SINGLETON else BMS_MULTIPLE) \<and>
   bms_singleton_member a =
    Some (if card (bms_set a) = 0 then Inl (Ereport ERROR ERRCODE_UNEXPECTED_NULL_VALUE)
          else if card (bms_set a) = 1 then Inr (int (the_elem (bms_set a)))
          else Inl (Ereport ERROR ERRCODE_DATA_EXCEPTION))"
  by (intro conjI bms_counts)

text \<open>
  \<open>bms_first_member\<close> always returns: it gives \<open>-1\<close> and leaves the set
  unchanged exactly when the set is empty, and otherwise gives the least member and removes it
  and nothing else.
\<close>

lemma bms_first_member_correct:
  "\<exists>x b. bms_first_member a = Some (x, b) \<and>
     (if bms_set a = {} then x = -1 \<and> b = a
      else x = int (Min (bms_set a)) \<and> bms_set b = bms_set a - {Min (bms_set a)})"
proof (cases a)
  case (Some s)
  show ?thesis
  proof (cases "wset (words s) = {}")
    case True
    then show ?thesis using Some bms_first_member_loop_empty [OF True, of 0] by (simp add: bms_first_member_def)
  next
    case False
    then show ?thesis using Some bms_first_member_loop_nonempty [OF False, of 0]
      by (auto simp: bms_first_member_def simp del: Collect_empty_eq)
  qed
qed (simp add: bms_first_member_def)

text \<open>
  Members added one after another and then walked over: the documented loop over
  \<open>bms_next_member\<close> from \<open>-1\<close> ends, and it visits every member of the set once, in
  ascending order.
\<close>

lemma bms_walk_after_adds:
  assumes "\<forall>x \<in> set xs. 0 \<le> x" and "card (nat ` set xs) < fuel"
  shows "\<exists>a. add_list bms_add_member None xs = Inr a \<and>
    iterate_members fuel (bms_next_member a) (-1) = Some (sorted_list_of_set (nat ` set xs))"
  using bms.add_list_members [OF assms(1), of None] bms.iterate_all [of _ fuel] assms(2) by auto

text \<open>
  Two keys that \<open>bitmap_match\<close> calls equal hash to the same value, although they may
  be padded with zero words to different lengths; a NULL set and a set with no members hash alike.
\<close>

lemma bitmap_match_imp_same_hash:
  assumes "bitmap_match a b = 0"
  shows "bitmap_hash e al a = bitmap_hash e al b"
proof -
  have eq: "bms_equal a b" using assms by (simp add: bitmap_match_def split: if_splits)
  have empty: "strip_zero_words (words s) = []" if "wset (words s) = {}" for s :: Bitmapset
    using that words_all_zero_iff [of "words s"] words_all_zero_replicate [of "words s"]
      strip_zero_words_pad [of "[]" "length (words s)"] by (simp add: strip_zero_words_def)
  have same: "strip_zero_words (words x) = strip_zero_words (words y)" if "a = Some x" "b = Some y" for x y
  proof (cases "nwords x \<le> nwords y")
    case True
    then show ?thesis using eq that bms_equal_loop_pad [of "words x" "words y"]
      by (auto simp: bms_equal_def nwords_def strip_zero_words_pad)
  next
    case False
    then show ?thesis using eq that bms_equal_loop_pad [of "words y" "words x"]
      by (auto simp: bms_equal_def nwords_def strip_zero_words_pad)
  qed
  show ?thesis
  proof (cases a; cases b)
    fix x y assume "a = Some x" "b = Some y"
    then show ?thesis using same [of x y] by (simp add: bitmap_hash_def bms_hash_value_def)
  qed (use eq empty in \<open>simp_all add: bms_equal_iff bitmap_hash_def bms_hash_value_def\<close>)
qed

end
