(* ===== verification/Comparator.thy ===== *)
theory Comparator
  imports Prelude
begin

text \<open>
  The contract of a C comparison callback (\<^verbatim>\<open>int (*cmp)(const void*, const void*)\<close>), on which
  the sort routines of \<^verbatim>\<open>src/common/port\<close> and the binary heap of \<^verbatim>\<open>src/common/backend/lib\<close>
  rely: the sign of the result is antisymmetric, and "not greater" is transitive. Elements may compare
  equal without being equal.
\<close>

locale comparator =
  fixes cmp :: "'d \<Rightarrow> 'd \<Rightarrow> int"
  assumes cmp_flip: "cmp a b < 0 \<longleftrightarrow> 0 < cmp b a"
    and cmp_trans: "cmp a b \<le> 0 \<Longrightarrow> cmp b c \<le> 0 \<Longrightarrow> cmp a c \<le> 0"
begin

lemma cmp_refl: "cmp a a = 0"
  using cmp_flip [of a a] by linarith

lemma cmp_total: "\<not> cmp a b < 0 \<Longrightarrow> cmp b a \<le> 0"
  using cmp_flip [of a b] by linarith

lemma cmp_zero_flip: "cmp a b = 0 \<longleftrightarrow> cmp b a = 0"
  using cmp_flip [of a b] cmp_flip [of b a] by linarith

lemma cmp_ge_flip: "0 \<le> cmp a b \<longleftrightarrow> cmp b a \<le> 0"
  using cmp_flip [of a b] by linarith

lemma cmp_transp: "transp (\<lambda>a b. cmp a b \<le> 0)"
  by (rule transpI) (rule cmp_trans)

end

text \<open>A comparator seen through a key function is a comparator again.\<close>

lemma comparator_key: "comparator cmp \<Longrightarrow> comparator (\<lambda>a b. cmp (f a) (f b))"
  unfolding comparator_def by blast

lemma comparator_int_diff: "comparator (\<lambda>a b. a - b :: int)"
  by unfold_locales auto

end
