(* ===== verification/BinaryHeap.thy ===== *)
theory BinaryHeap
  imports Comparator "HOL-Library.Signed_Division"
begin

text \<open>
  The binary heap of \<^verbatim>\<open>src/src/common/backend/lib/binaryheap.cpp\<close>
  (struct and contract of the comparator in \<^verbatim>\<open>src/src/include/lib/binaryheap.h\<close>).
  The array \<open>bh_nodes\<close> is kept at its allocated length \<open>bh_space\<close>, of which
  the first \<open>bh_size\<close> slots are in use. A call whose \<^verbatim>\<open>Assert\<close> fails has the
  value \<open>None\<close>. The operations are total functions: the two sift loops come with
  termination proofs. The locale \<open>priority_queue\<close> states what clients rely on.
\<close>

subsection \<open>Data\<close>

record ('d, 'arg) binaryheap =
  bh_size :: nat
  bh_space :: nat
  bh_has_heap_property :: bool
  bh_compare :: "'d \<Rightarrow> 'd \<Rightarrow> 'arg \<Rightarrow> int"
  bh_arg :: 'arg
  bh_nodes :: "'d list"

text \<open>\<open>mem\<close> is what the freshly allocated, uninitialised array happens to hold.\<close>

definition binaryheap_allocate ::
  "(nat \<Rightarrow> 'd) \<Rightarrow> nat \<Rightarrow> ('d \<Rightarrow> 'd \<Rightarrow> 'arg \<Rightarrow> int) \<Rightarrow> 'arg \<Rightarrow> ('d, 'arg) binaryheap" where
  "binaryheap_allocate mem capacity compare arg =
    \<lparr>bh_size = 0, bh_space = capacity, bh_has_heap_property = True, bh_compare = compare, bh_arg = arg,
     bh_nodes = map mem [0 ..< capacity]\<rparr>"

definition binaryheap_reset :: "('d, 'arg) binaryheap \<Rightarrow> ('d, 'arg) binaryheap" where
  "binaryheap_reset heap = heap\<lparr>bh_size := 0, bh_has_heap_property := True\<rparr>"

definition binaryheap_empty :: "('d, 'arg) binaryheap \<Rightarrow> bool" where
  "binaryheap_empty heap \<longleftrightarrow> bh_size heap = 0"

definition left_offset :: "nat \<Rightarrow> nat" where
  "left_offset i = 2 * i + 1"

definition right_offset :: "nat \<Rightarrow> nat" where
  "right_offset i = 2 * i + 2"

text \<open>C division truncates: the parent of slot 0 is slot 0, that of \<open>-1\<close> is \<open>-1\<close>.\<close>

definition parent_offset :: "int \<Rightarrow> int" where
  "parent_offset i = (i - 1) sdiv 2"

subsection \<open>Sifting\<close>

definition swap_nodes :: "('d, 'arg) binaryheap \<Rightarrow> nat \<Rightarrow> nat \<Rightarrow> ('d, 'arg) binaryheap" where
  "swap_nodes heap a b =
    (let swap = bh_nodes heap ! a
     in heap\<lparr>bh_nodes := (bh_nodes heap)[a := bh_nodes heap ! b, b := swap]\<rparr>)"

definition node_compare :: "('d, 'arg) binaryheap \<Rightarrow> nat \<Rightarrow> nat \<Rightarrow> int" where
  "node_compare heap a b = bh_compare heap (bh_nodes heap ! a) (bh_nodes heap ! b) (bh_arg heap)"

lemma parent_offset_nat:
  "0 < i \<Longrightarrow> parent_offset (int i) = int ((i - 1) div 2)"
  by (simp add: parent_offset_def signed_divide_int_def sgn_if of_nat_diff zdiv_int)

function sift_up :: "('d, 'arg) binaryheap \<Rightarrow> nat \<Rightarrow> ('d, 'arg) binaryheap" where
  "sift_up heap node_off =
    (if node_off \<noteq> 0 then
       (let parent_off = nat (parent_offset (int node_off));
            cmp = node_compare heap node_off parent_off
        in if cmp \<le> 0 then heap
           else sift_up (swap_nodes heap node_off parent_off) parent_off)
     else heap)"
  by pat_completeness auto
termination
  by (relation "measure snd") (auto simp: parent_offset_nat)

text \<open>The child to swap with, or 0 for none: one round of the loop of \<open>sift_down\<close>.\<close>

definition sift_swap_off :: "('d, 'arg) binaryheap \<Rightarrow> nat \<Rightarrow> nat" where
  "sift_swap_off heap node_off =
    (let left_off = left_offset node_off;
         right_off = right_offset node_off;
         swap_off = (if left_off < bh_size heap \<and> node_compare heap node_off left_off < 0 then left_off else 0)
     in if right_off < bh_size heap \<and> node_compare heap node_off right_off < 0
        then (if swap_off = 0 \<or> node_compare heap left_off right_off < 0 then right_off else swap_off)
        else swap_off)"

lemma sift_swap_off_bounds:
  "0 < sift_swap_off heap p \<Longrightarrow> p < sift_swap_off heap p \<and> sift_swap_off heap p < bh_size heap"
  by (auto simp: sift_swap_off_def left_offset_def right_offset_def Let_def split: if_splits)

lemma swap_nodes_fields [simp]:
  "bh_size (swap_nodes heap a b) = bh_size heap" "bh_space (swap_nodes heap a b) = bh_space heap"
  "bh_compare (swap_nodes heap a b) = bh_compare heap" "bh_arg (swap_nodes heap a b) = bh_arg heap"
  "bh_has_heap_property (swap_nodes heap a b) = bh_has_heap_property heap"
  "length (bh_nodes (swap_nodes heap a b)) = length (bh_nodes heap)"
  by (simp_all add: swap_nodes_def Let_def)

function sift_down :: "('d, 'arg) binaryheap \<Rightarrow> nat \<Rightarrow> ('d, 'arg) binaryheap" where
  "sift_down heap node_off =
    (let swap_off = sift_swap_off heap node_off
     in if swap_off = 0 then heap
        else sift_down (swap_nodes heap swap_off node_off) swap_off)"
  by pat_completeness auto
termination
  by (relation "measure (\<lambda>(heap, p). bh_size heap - p)")
    (auto dest!: sift_swap_off_bounds intro: diff_less_mono2)

declare sift_up.simps [simp del] sift_down.simps [simp del]

subsection \<open>Operations\<close>

definition out_of_slots :: pg_error where
  "out_of_slots = Ereport ERROR ERRCODE_INTERNAL_ERROR"

definition binaryheap_add_unordered :: "('d, 'arg) binaryheap \<Rightarrow> 'd \<Rightarrow> ('d, 'arg) binaryheap result" where
  "binaryheap_add_unordered heap d =
    (if bh_size heap \<ge> bh_space heap then Inl out_of_slots
     else Inr (heap\<lparr>bh_has_heap_property := False, bh_nodes := (bh_nodes heap)[bh_size heap := d],
                    bh_size := bh_size heap + 1\<rparr>))"

text \<open>The loop counts \<open>i\<close> down to 0; \<open>build_loop heap n\<close> is it from \<open>i = n - 1\<close>.\<close>

fun build_loop :: "('d, 'arg) binaryheap \<Rightarrow> nat \<Rightarrow> ('d, 'arg) binaryheap" where
  "build_loop heap 0 = heap"
| "build_loop heap (Suc i) = build_loop (sift_down heap i) i"

definition binaryheap_build :: "('d, 'arg) binaryheap \<Rightarrow> ('d, 'arg) binaryheap" where
  "binaryheap_build heap =
    (build_loop heap (nat (parent_offset (int (bh_size heap) - 1) + 1)))\<lparr>bh_has_heap_property := True\<rparr>"

definition binaryheap_add :: "('d, 'arg) binaryheap \<Rightarrow> 'd \<Rightarrow> ('d, 'arg) binaryheap result" where
  "binaryheap_add heap d =
    (if bh_size heap \<ge> bh_space heap then Inl out_of_slots
     else
       (let heap = heap\<lparr>bh_nodes := (bh_nodes heap)[bh_size heap := d], bh_size := bh_size heap + 1\<rparr>
        in Inr (sift_up heap (bh_size heap - 1))))"

definition binaryheap_first :: "('d, 'arg) binaryheap \<Rightarrow> 'd option" where
  "binaryheap_first heap =
    (if \<not> binaryheap_empty heap \<and> bh_has_heap_property heap then Some (bh_nodes heap ! 0) else None)"

definition binaryheap_remove_first :: "('d, 'arg) binaryheap \<Rightarrow> ('d \<times> ('d, 'arg) binaryheap) option" where
  "binaryheap_remove_first heap =
    (if \<not> (\<not> binaryheap_empty heap \<and> bh_has_heap_property heap) then None
     else if bh_size heap = 1 then
       (let heap = heap\<lparr>bh_size := bh_size heap - 1\<rparr> in Some (bh_nodes heap ! 0, heap))
     else
       (let heap = swap_nodes heap 0 (bh_size heap - 1);
            heap = heap\<lparr>bh_size := bh_size heap - 1\<rparr>;
            heap = sift_down heap 0
        in Some (bh_nodes heap ! bh_size heap, heap)))"

definition binaryheap_replace_first :: "('d, 'arg) binaryheap \<Rightarrow> 'd \<Rightarrow> ('d, 'arg) binaryheap option" where
  "binaryheap_replace_first heap d =
    (if \<not> (\<not> binaryheap_empty heap \<and> bh_has_heap_property heap) then None
     else
       (let heap = heap\<lparr>bh_nodes := (bh_nodes heap)[0 := d]\<rparr>
        in Some (if bh_size heap > 1 then sift_down heap 0 else heap)))"

subsection \<open>The heap property\<close>

text \<open>
  \<open>heap_cmp\<close> is the comparator of a heap with its extra argument; \<open>heap_from\<close> is the
  heap condition for the first \<open>n\<close> slots, for every slot whose parent is at \<open>k\<close> or later;
  \<open>heap_hole\<close> is the same except below slot \<open>p\<close>, whose children are only known to be in order
  with the parent of \<open>p\<close>: the loop invariant of \<open>sift_down\<close>. \<open>heap_above\<close> is
  the invariant of \<open>sift_up\<close>: only slot \<open>p\<close> may be out of order with its parent.
\<close>

definition heap_cmp :: "('d, 'arg) binaryheap \<Rightarrow> 'd \<Rightarrow> 'd \<Rightarrow> int" where
  "heap_cmp heap a b = bh_compare heap a b (bh_arg heap)"

abbreviation par :: "nat \<Rightarrow> nat" where
  "par i \<equiv> (i - 1) div 2"

definition heap_from :: "('d \<Rightarrow> 'd \<Rightarrow> int) \<Rightarrow> 'd list \<Rightarrow> nat \<Rightarrow> nat \<Rightarrow> bool" where
  "heap_from cmp xs n k \<longleftrightarrow> (\<forall>i < n. 0 < i \<longrightarrow> k \<le> par i \<longrightarrow> cmp (xs ! i) (xs ! par i) \<le> 0)"

definition heap_hole :: "('d \<Rightarrow> 'd \<Rightarrow> int) \<Rightarrow> 'd list \<Rightarrow> nat \<Rightarrow> nat \<Rightarrow> nat \<Rightarrow> bool" where
  "heap_hole cmp xs n k p \<longleftrightarrow>
    (\<forall>i < n. 0 < i \<longrightarrow> k \<le> par i \<longrightarrow> par i \<noteq> p \<longrightarrow> cmp (xs ! i) (xs ! par i) \<le> 0) \<and>
    (\<forall>i < n. 0 < i \<longrightarrow> par i = p \<longrightarrow> 0 < p \<longrightarrow> k \<le> par p \<longrightarrow> cmp (xs ! i) (xs ! par p) \<le> 0)"

definition heap_above :: "('d \<Rightarrow> 'd \<Rightarrow> int) \<Rightarrow> 'd list \<Rightarrow> nat \<Rightarrow> nat \<Rightarrow> bool" where
  "heap_above cmp xs n p \<longleftrightarrow>
    (\<forall>i < n. 0 < i \<longrightarrow> i \<noteq> p \<longrightarrow> cmp (xs ! i) (xs ! par i) \<le> 0) \<and>
    (\<forall>i < n. 0 < i \<longrightarrow> par i = p \<longrightarrow> 0 < p \<longrightarrow> cmp (xs ! i) (xs ! par p) \<le> 0)"

lemma par_eq_iff: "0 < i \<Longrightarrow> par i = p \<longleftrightarrow> i = left_offset p \<or> i = right_offset p"
  by (auto simp: left_offset_def right_offset_def)

lemma par_less: "0 < i \<Longrightarrow> par i < i"
  by simp

text \<open>What every sifting step keeps: the fields, and the elements of the used part.\<close>

definition same_content :: "('d, 'arg) binaryheap \<Rightarrow> ('d, 'arg) binaryheap \<Rightarrow> bool" where
  "same_content h h' \<longleftrightarrow>
    bh_size h' = bh_size h \<and> bh_space h' = bh_space h \<and> heap_cmp h' = heap_cmp h \<and>
    bh_compare h' = bh_compare h \<and> bh_arg h' = bh_arg h \<and>
    bh_has_heap_property h' = bh_has_heap_property h \<and>
    length (bh_nodes h') = length (bh_nodes h) \<and>
    mset (take (bh_size h) (bh_nodes h')) = mset (take (bh_size h) (bh_nodes h)) \<and>
    drop (bh_size h) (bh_nodes h') = drop (bh_size h) (bh_nodes h)"

lemma same_content_refl [simp]: "same_content h h"
  by (simp add: same_content_def)

lemma same_content_trans: "same_content h h' \<Longrightarrow> same_content h' h'' \<Longrightarrow> same_content h h''"
  by (auto simp: same_content_def)

lemma same_content_swap:
  assumes "a < bh_size h" "b < bh_size h" "bh_size h \<le> length (bh_nodes h)"
  shows "same_content h (swap_nodes h a b)"
proof -
  have "mset (take (bh_size h) (bh_nodes (swap_nodes h a b))) = mset (take (bh_size h) (bh_nodes h))"
    using assms mset_swap [of b "take (bh_size h) (bh_nodes h)" a]
    by (simp add: swap_nodes_def Let_def take_update_swap)
  then show ?thesis
    using assms by (auto simp: same_content_def swap_nodes_def Let_def heap_cmp_def fun_eq_iff)
qed

lemma same_content_sift_down:
  "p < bh_size h \<Longrightarrow> bh_size h \<le> length (bh_nodes h) \<Longrightarrow> same_content h (sift_down h p)"
proof (induction h p rule: sift_down.induct)
  case (1 h p)
  let ?s = "sift_swap_off h p"
  show ?case
  proof (cases "?s = 0")
    case True
    then show ?thesis by (simp add: sift_down.simps [of h p])
  next
    case False
    then have b: "p < ?s" "?s < bh_size h" using sift_swap_off_bounds [of h p] by simp_all
    then have "same_content (swap_nodes h ?s p) (sift_down (swap_nodes h ?s p) ?s)" using 1 False by simp
    moreover have "same_content h (swap_nodes h ?s p)" using 1 b by (simp add: same_content_swap)
    ultimately show ?thesis using False same_content_trans by (simp add: sift_down.simps [of h p] Let_def) blast
  qed
qed

lemma same_content_sift_up:
  "p < bh_size h \<Longrightarrow> bh_size h \<le> length (bh_nodes h) \<Longrightarrow> same_content h (sift_up h p)"
proof (induction h p rule: sift_up.induct)
  case (1 h p)
  show ?case
  proof (cases "p = 0 \<or> node_compare h p (par p) \<le> 0")
    case True
    then show ?thesis by (auto simp: sift_up.simps [of h p] parent_offset_nat)
  next
    case False
    then have par: "nat (parent_offset (int p)) = par p" "par p < p" by (auto simp: parent_offset_nat)
    then have "same_content (swap_nodes h p (par p)) (sift_up (swap_nodes h p (par p)) (par p))"
      using 1 False by (simp add: Let_def)
    moreover have "same_content h (swap_nodes h p (par p))" using 1 par by (simp add: same_content_swap)
    ultimately show ?thesis using False par same_content_trans
      by (simp add: sift_up.simps [of h p] Let_def) blast
  qed
qed

subsection \<open>Correctness of the sift loops under the comparator's contract\<close>

context comparator
begin

lemma swap_child_spec:
  assumes "heap_cmp h = cmp" and "sift_swap_off h p = s" and "0 < s"
  shows "par s = p" and "cmp (bh_nodes h ! p) (bh_nodes h ! s) \<le> 0"
    and "\<And>i. i < bh_size h \<Longrightarrow> 0 < i \<Longrightarrow> par i = p \<Longrightarrow> cmp (bh_nodes h ! i) (bh_nodes h ! s) \<le> 0"
proof -
  let ?l = "left_offset p" and ?r = "right_offset p" and ?c = "\<lambda>a b. cmp (bh_nodes h ! a) (bh_nodes h ! b)"
  have nc: "node_compare h a b = ?c a b" for a b
    using assms(1) by (auto simp: node_compare_def heap_cmp_def fun_eq_iff)
  have s: "s = ?l \<or> s = ?r" and lt: "?c p s < 0"
    using assms(2,3) by (auto simp: sift_swap_off_def nc Let_def split: if_splits)
  then show "par s = p" using assms(3) par_eq_iff by blast
  show "?c p s \<le> 0" using lt by simp
  fix i assume i: "i < bh_size h" "0 < i" "par i = p"
  then have "i = ?l \<or> i = ?r" using par_eq_iff by blast
  moreover have "?l \<noteq> 0" "?r \<noteq> 0" by (simp_all add: left_offset_def right_offset_def)
  ultimately show "?c i s \<le> 0"
    using assms(2,3) i(1) cmp_refl cmp_total lt
    by (auto simp: sift_swap_off_def nc Let_def split: if_splits intro: cmp_trans [of _ "bh_nodes h ! p"])
qed

lemma heap_hole_closed:
  assumes "heap_cmp h = cmp" and "sift_swap_off h p = 0" and "heap_hole cmp (bh_nodes h) (bh_size h) k p"
  shows "heap_from cmp (bh_nodes h) (bh_size h) k"
proof -
  have nc: "node_compare h a b = cmp (bh_nodes h ! a) (bh_nodes h ! b)" for a b
    using assms(1) by (auto simp: node_compare_def heap_cmp_def fun_eq_iff)
  have "cmp (bh_nodes h ! i) (bh_nodes h ! p) \<le> 0" if "i < bh_size h" "0 < i" "par i = p" for i
  proof -
    have "\<not> node_compare h p i < 0"
      using assms(2) that par_eq_iff [of i p]
      by (auto simp: sift_swap_off_def Let_def left_offset_def right_offset_def split: if_splits)
    then show ?thesis using cmp_total nc by simp
  qed
  then show ?thesis using assms(3) unfolding heap_from_def heap_hole_def by blast
qed

lemma heap_hole_step:
  assumes "heap_cmp h = cmp" and "sift_swap_off h p = s" and "0 < s" and "bh_size h \<le> length (bh_nodes h)"
    and hole: "heap_hole cmp (bh_nodes h) (bh_size h) k p" and "k \<le> p"
  shows "heap_hole cmp (bh_nodes (swap_nodes h s p)) (bh_size h) k s"
proof -
  let ?xs = "bh_nodes h" and ?ys = "bh_nodes (swap_nodes h s p)"
  have b: "p < s" "s < bh_size h" using sift_swap_off_bounds [of h p] assms(2,3) by auto
  note spec = swap_child_spec [OF assms(1-3)]
  have ys: "?ys ! i = (if i = p then ?xs ! s else if i = s then ?xs ! p else ?xs ! i)" if "i < bh_size h" for i
    using that assms(4) b by (auto simp: swap_nodes_def Let_def nth_list_update)
  have "cmp (?ys ! i) (?ys ! par i) \<le> 0"
    if i: "i < bh_size h" "0 < i" "k \<le> par i" "par i \<noteq> s" for i
  proof -
    have pi: "par i < bh_size h" using i(1) by linarith
    consider "i = p" | "par i = p" | "i \<noteq> p" "par i \<noteq> p" by blast
    then show ?thesis
    proof cases
      case 1
      then have "cmp (?xs ! s) (?xs ! par i) \<le> 0"
        using hole b spec(1) i unfolding heap_hole_def by (metis not_less0 neq0_conv)
      then show ?thesis using 1 i(4) ys [OF i(1)] ys [OF pi] by (metis par_less i(2) less_irrefl)
    next
      case 2
      then show ?thesis using spec(2) spec(3) [OF i(1,2) 2] i ys [OF i(1)] ys [OF pi] b
        by (auto split: if_splits)
    next
      case 3
      then have "i \<noteq> s" using spec(1) by blast
      then show ?thesis using 3 hole i ys [OF i(1)] ys [OF pi] unfolding heap_hole_def by auto
    qed
  qed
  moreover have "cmp (?ys ! i) (?ys ! par s) \<le> 0" if i: "i < bh_size h" "0 < i" "par i = s" for i
  proof -
    have "i \<noteq> p" "i \<noteq> s" using i b by auto
    moreover have "cmp (?xs ! i) (?xs ! s) \<le> 0" using hole i b assms(6) unfolding heap_hole_def by auto
    ultimately show ?thesis using i ys [of i] ys [of p] spec(1) b by auto
  qed
  ultimately show ?thesis unfolding heap_hole_def by blast
qed

lemma sift_down_heap:
  assumes "heap_cmp h = cmp" "bh_size h \<le> length (bh_nodes h)" "p < bh_size h"
    and "heap_hole cmp (bh_nodes h) (bh_size h) k p" "k \<le> p"
  shows "heap_from cmp (bh_nodes (sift_down h p)) (bh_size h) k"
  using assms
proof (induction h p rule: sift_down.induct)
  case (1 h p)
  let ?s = "sift_swap_off h p"
  show ?case
  proof (cases "?s = 0")
    case True
    then show ?thesis using 1 heap_hole_closed by (simp add: sift_down.simps [of h p])
  next
    case False
    then have b: "p < ?s" "?s < bh_size h" using sift_swap_off_bounds [of h p] by simp_all
    have "heap_hole cmp (bh_nodes (swap_nodes h ?s p)) (bh_size h) k ?s"
      using 1 False heap_hole_step [of h p ?s k] by simp
    moreover have "heap_cmp (swap_nodes h ?s p) = cmp"
      using 1(2) by (simp add: heap_cmp_def fun_eq_iff)
    ultimately show ?thesis using 1 False b by (simp add: sift_down.simps [of h p] Let_def)
  qed
qed

lemma heap_above_step:
  assumes "heap_cmp h = cmp" and "0 < p" and "p < bh_size h" and "bh_size h \<le> length (bh_nodes h)"
    and above: "heap_above cmp (bh_nodes h) (bh_size h) p"
    and gt: "\<not> node_compare h p (par p) \<le> 0"
  shows "heap_above cmp (bh_nodes (swap_nodes h p (par p))) (bh_size h) (par p)"
proof -
  let ?xs = "bh_nodes h" and ?ys = "bh_nodes (swap_nodes h p (par p))" and ?q = "par p"
  have q: "?q < p" using assms(2) by simp
  have up: "cmp (?xs ! ?q) (?xs ! p) \<le> 0"
    using gt assms(1) cmp_total by (auto simp: node_compare_def heap_cmp_def fun_eq_iff)
  have ys: "?ys ! i = (if i = p then ?xs ! ?q else if i = ?q then ?xs ! p else ?xs ! i)" if "i < bh_size h" for i
    using that assms(3,4) q by (auto simp: swap_nodes_def Let_def nth_list_update)
  have edge: "cmp (?xs ! i) (?xs ! par i) \<le> 0" if "i < bh_size h" "0 < i" "i \<noteq> p" for i
    using above that unfolding heap_above_def by blast
  have "cmp (?ys ! i) (?ys ! par i) \<le> 0" if i: "i < bh_size h" "0 < i" "i \<noteq> ?q" for i
  proof -
    have pi: "par i < bh_size h" "par i < i" using i(1,2) by linarith+
    consider "i = p" | "i \<noteq> p" "par i = ?q" | "par i = p" | "i \<noteq> p" "par i \<noteq> ?q" "par i \<noteq> p" by blast
    then show ?thesis
    proof cases
      case 1
      then show ?thesis using up ys [OF i(1)] ys [OF pi(1)] q by auto
    next
      case 2
      then show ?thesis using cmp_trans [OF edge [OF i(1,2) 2(1)], of "?xs ! p"] up i q ys [OF i(1)] ys [OF pi(1)]
        by auto
    next
      case 3
      then have "cmp (?xs ! i) (?xs ! ?q) \<le> 0" using above i assms(2) unfolding heap_above_def by blast
      then show ?thesis using 3 pi i ys [OF i(1)] ys [OF pi(1)] by auto
    next
      case 4
      then show ?thesis using edge [OF i(1,2)] i ys [OF i(1)] ys [OF pi(1)] by auto
    qed
  qed
  moreover have "cmp (?ys ! i) (?ys ! par ?q) \<le> 0" if i: "i < bh_size h" "0 < i" "par i = ?q" "0 < ?q" for i
  proof -
    have top: "cmp (?xs ! ?q) (?xs ! par ?q) \<le> 0" using edge [of ?q] i(4) q assms(3) by linarith
    have "par ?q < ?q" using i(4) by simp
    then have y: "?ys ! par ?q = ?xs ! par ?q" using ys [of "par ?q"] q assms(3) by auto
    have "i \<noteq> ?q" using par_less [OF i(2)] i(3) by linarith
    then show ?thesis
      using top cmp_trans [OF edge [OF i(1,2)], of "?xs ! par ?q"]
      unfolding ys [OF i(1)] y i(3) by (cases "i = p") simp_all
  qed
  ultimately show ?thesis unfolding heap_above_def by blast
qed

lemma sift_up_heap:
  assumes "heap_cmp h = cmp" "bh_size h \<le> length (bh_nodes h)" "p < bh_size h"
    and "heap_above cmp (bh_nodes h) (bh_size h) p"
  shows "heap_from cmp (bh_nodes (sift_up h p)) (bh_size h) 0"
  using assms
proof (induction h p rule: sift_up.induct)
  case (1 h p)
  have nc: "node_compare h a b = cmp (bh_nodes h ! a) (bh_nodes h ! b)" for a b
    using 1(2) by (auto simp: node_compare_def heap_cmp_def fun_eq_iff)
  show ?case
  proof (cases "p = 0 \<or> node_compare h p (par p) \<le> 0")
    case True
    then have "sift_up h p = h" by (auto simp: sift_up.simps [of h p] parent_offset_nat)
    moreover have "heap_from cmp (bh_nodes h) (bh_size h) 0"
      using True 1(5) nc unfolding heap_from_def heap_above_def by (metis less_irrefl)
    ultimately show ?thesis by simp
  next
    case False
    then have par: "nat (parent_offset (int p)) = par p" "par p < p" by (auto simp: parent_offset_nat)
    have "heap_above cmp (bh_nodes (swap_nodes h p (par p))) (bh_size h) (par p)"
      using 1 False heap_above_step [of h p] by simp
    moreover have "heap_cmp (swap_nodes h p (par p)) = cmp"
      using 1(2) by (simp add: heap_cmp_def fun_eq_iff)
    ultimately show ?thesis using 1 False par by (simp add: sift_up.simps [of h p] Let_def)
  qed
qed

lemma heap_root_max:
  assumes "heap_from cmp xs n 0" and "i < n"
  shows "cmp (xs ! i) (xs ! 0) \<le> 0"
  using assms(2)
proof (induction i rule: less_induct)
  case (less i)
  show ?case
  proof (cases "i = 0")
    case False
    then have "cmp (xs ! par i) (xs ! 0) \<le> 0" using less par_less [of i] by simp
    moreover have "cmp (xs ! i) (xs ! par i) \<le> 0" using assms(1) less.prems False by (simp add: heap_from_def)
    ultimately show ?thesis using cmp_trans by blast
  qed (simp add: cmp_refl)
qed

lemma build_loop_heap:
  assumes "heap_cmp h = cmp" "bh_size h \<le> length (bh_nodes h)" "k \<le> bh_size h"
    and "heap_from cmp (bh_nodes h) (bh_size h) k"
  shows "same_content h (build_loop h k) \<and> heap_from cmp (bh_nodes (build_loop h k)) (bh_size h) 0"
  using assms
proof (induction k arbitrary: h)
  case (Suc k)
  have "heap_hole cmp (bh_nodes h) (bh_size h) k k"
    using Suc.prems(4) unfolding heap_hole_def heap_from_def by (auto simp: le_eq_less_or_eq Suc_le_eq)
  then have "heap_from cmp (bh_nodes (sift_down h k)) (bh_size h) k"
    using Suc.prems by (intro sift_down_heap) simp_all
  moreover have same: "same_content h (sift_down h k)" using Suc.prems by (simp add: same_content_sift_down)
  ultimately have "same_content (sift_down h k) (build_loop (sift_down h k) k) \<and>
      heap_from cmp (bh_nodes (build_loop (sift_down h k) k)) (bh_size h) 0"
    using Suc.IH [of "sift_down h k"] Suc.prems by (simp add: same_content_def)
  then show ?case using same same_content_trans by auto
qed simp

end

subsection \<open>Well-formed heaps and the specifications of the operations\<close>

definition heap_elems :: "('d, 'arg) binaryheap \<Rightarrow> 'd multiset" where
  "heap_elems h = mset (take (bh_size h) (bh_nodes h))"

definition heap_wf :: "('d, 'arg) binaryheap \<Rightarrow> bool" where
  "heap_wf h \<longleftrightarrow> bh_size h \<le> bh_space h \<and> length (bh_nodes h) = bh_space h"

definition heap_ok :: "('d, 'arg) binaryheap \<Rightarrow> bool" where
  "heap_ok h \<longleftrightarrow> comparator (heap_cmp h) \<and> heap_wf h \<and> bh_has_heap_property h \<and>
     heap_from (heap_cmp h) (bh_nodes h) (bh_size h) 0"

text \<open>The parameters of a heap, set at allocation and never changed.\<close>

definition same_params :: "('d, 'arg) binaryheap \<Rightarrow> ('d, 'arg) binaryheap \<Rightarrow> bool" where
  "same_params h h' \<longleftrightarrow> bh_space h' = bh_space h \<and> heap_cmp h' = heap_cmp h \<and>
    bh_compare h' = bh_compare h \<and> bh_arg h' = bh_arg h"

lemma size_heap_elems: "heap_wf h \<Longrightarrow> size (heap_elems h) = bh_size h"
  by (simp add: heap_wf_def heap_elems_def)

lemma heap_cmp_update [simp]:
  "heap_cmp (h\<lparr>bh_size := n\<rparr>) = heap_cmp h" "heap_cmp (h\<lparr>bh_nodes := xs\<rparr>) = heap_cmp h"
  "heap_cmp (h\<lparr>bh_has_heap_property := b\<rparr>) = heap_cmp h"
  by (simp_all add: heap_cmp_def fun_eq_iff)

lemma mset_take_Suc_update:
  "n < length xs \<Longrightarrow> mset (take (Suc n) (xs[n := d])) = add_mset d (mset (take n xs))"
  by (simp add: take_Suc_conv_app_nth)

lemma heap_allocate_ok:
  "comparator (\<lambda>a b. compare a b arg) \<Longrightarrow> heap_ok (binaryheap_allocate mem capacity compare arg)"
  by (simp add: heap_ok_def heap_wf_def binaryheap_allocate_def heap_cmp_def [abs_def] heap_from_def)

lemma heap_add_spec:
  assumes ok: "heap_ok h" and room: "bh_size h < bh_space h"
  shows "\<exists>h'. binaryheap_add h d = Inr h' \<and> heap_ok h' \<and> heap_elems h' = add_mset d (heap_elems h) \<and>
    same_params h h'"
proof -
  define g where "g = h\<lparr>bh_nodes := (bh_nodes h)[bh_size h := d], bh_size := bh_size h + 1\<rparr>"
  have wf: "bh_size h < length (bh_nodes h)" using ok room by (simp add: heap_ok_def heap_wf_def)
  have g: "heap_cmp g = heap_cmp h" "bh_size g = Suc (bh_size h)" "bh_space g = bh_space h"
    "length (bh_nodes g) = length (bh_nodes h)" "bh_has_heap_property g = bh_has_heap_property h"
    "bh_compare g = bh_compare h" "bh_arg g = bh_arg h"
    by (simp_all add: g_def heap_cmp_def fun_eq_iff)
  have ho: "comparator (heap_cmp g)" using ok g by (simp add: heap_ok_def)
  have "heap_above (heap_cmp g) (bh_nodes g) (bh_size g) (bh_size h)"
    using ok unfolding heap_above_def heap_ok_def heap_from_def g(1,2)
    by (auto simp: g_def nth_list_update less_Suc_eq)
  then have "heap_from (heap_cmp g) (bh_nodes (sift_up g (bh_size h))) (bh_size g) 0"
    using ho wf g by (intro comparator.sift_up_heap) simp_all
  moreover have same: "same_content g (sift_up g (bh_size h))"
    using wf g by (intro same_content_sift_up) simp_all
  moreover have "heap_elems g = add_mset d (heap_elems h)"
    using wf by (simp add: g_def heap_elems_def mset_take_Suc_update)
  ultimately have "heap_ok (sift_up g (bh_size h)) \<and> heap_elems (sift_up g (bh_size h)) = add_mset d (heap_elems h) \<and>
      same_params h (sift_up g (bh_size h))"
    using ok ho room g by (simp add: heap_ok_def heap_wf_def heap_elems_def same_content_def same_params_def)
  then show ?thesis using room by (simp add: binaryheap_add_def g_def Let_def)
qed

lemma heap_top_spec:
  assumes ok: "heap_ok h" and ne: "0 < bh_size h"
  shows "binaryheap_first h = Some (bh_nodes h ! 0) \<and> bh_nodes h ! 0 \<in># heap_elems h \<and>
    (\<forall>y \<in># heap_elems h. heap_cmp h y (bh_nodes h ! 0) \<le> 0)"
proof -
  have "heap_cmp h (bh_nodes h ! i) (bh_nodes h ! 0) \<le> 0" if "i < bh_size h" for i
    using ok that by (auto simp: heap_ok_def intro: comparator.heap_root_max)
  moreover have "bh_nodes h ! 0 \<in> set (take (bh_size h) (bh_nodes h))"
    using ok ne by (auto simp: in_set_conv_nth heap_ok_def heap_wf_def intro!: exI [of _ 0])
  ultimately show ?thesis
    using ok ne by (auto simp: binaryheap_first_def binaryheap_empty_def heap_elems_def in_set_conv_nth heap_ok_def)
qed

text \<open>The root replaced: every other slot keeps its place in the order.\<close>

lemma heap_hole_root:
  "heap_from cmp xs n 0 \<Longrightarrow> \<forall>i < n. 0 < i \<longrightarrow> ys ! i = xs ! i \<Longrightarrow> heap_hole cmp ys n 0 0"
  unfolding heap_hole_def heap_from_def by (auto dest: div_less_dividend)

lemma heap_remove_spec:
  assumes ok: "heap_ok h" and ne: "0 < bh_size h"
  shows "\<exists>h'. binaryheap_remove_first h = Some (bh_nodes h ! 0, h') \<and> heap_ok h' \<and>
    heap_elems h' = heap_elems h - {#bh_nodes h ! 0#} \<and> same_params h h'"
proof -
  let ?n = "bh_size h - 1" and ?x = "bh_nodes h ! 0"
  have wf: "bh_size h \<le> length (bh_nodes h)" using ok by (simp add: heap_ok_def heap_wf_def)
  show ?thesis
  proof (cases "bh_size h = 1")
    case True
    then have "heap_elems h = {#?x#}" using wf by (cases "bh_nodes h") (auto simp: heap_elems_def)
    then show ?thesis using True ok
      by (auto simp: binaryheap_remove_first_def binaryheap_empty_def heap_ok_def heap_wf_def heap_from_def
          heap_elems_def same_params_def Let_def)
  next
    case False
    then have n: "0 < ?n" "?n < bh_size h" using ne by simp_all
    define g where "g = (swap_nodes h 0 ?n)\<lparr>bh_size := ?n\<rparr>"
    have g: "heap_cmp g = heap_cmp h" "bh_size g = ?n" "bh_space g = bh_space h"
      "length (bh_nodes g) = length (bh_nodes h)" "bh_has_heap_property g = bh_has_heap_property h"
      "bh_compare g = bh_compare h" "bh_arg g = bh_arg h"
      by (simp_all add: g_def heap_cmp_def fun_eq_iff)
    have nodes: "bh_nodes g = (bh_nodes h)[0 := bh_nodes h ! ?n, ?n := ?x]"
      by (simp add: g_def swap_nodes_def Let_def)
    have "mset (take (bh_size h) (bh_nodes g)) = heap_elems h"
      using same_content_swap [of 0 h ?n] ne n wf by (simp add: same_content_def heap_elems_def g_def)
    moreover have "take (bh_size h) (bh_nodes g) = take ?n (bh_nodes g) @ [bh_nodes g ! ?n]"
      using n wf g(4) take_Suc_conv_app_nth [of ?n "bh_nodes g"] by simp
    ultimately have el: "heap_elems h = add_mset ?x (heap_elems g)"
      using n wf nodes by (simp add: heap_elems_def g(2))
    have hole: "heap_hole (heap_cmp h) (bh_nodes g) ?n 0 0"
    proof (rule heap_hole_root)
      show "heap_from (heap_cmp h) (bh_nodes h) ?n 0" using ok n by (simp add: heap_ok_def heap_from_def)
      show "\<forall>i < ?n. 0 < i \<longrightarrow> bh_nodes g ! i = bh_nodes h ! i" by (simp add: nodes)
    qed
    then have "heap_from (heap_cmp h) (bh_nodes (sift_down g 0)) ?n 0"
      using comparator.sift_down_heap [of "heap_cmp h" g 0 0] g ok n wf by (simp add: heap_ok_def)
    moreover have same: "same_content g (sift_down g 0)" using g n wf by (simp add: same_content_sift_down)
    moreover have "bh_nodes (sift_down g 0) ! ?n = bh_nodes g ! ?n"
    proof -
      have "drop ?n (bh_nodes (sift_down g 0)) = drop ?n (bh_nodes g)"
        "length (bh_nodes (sift_down g 0)) = length (bh_nodes g)"
        using same by (simp_all add: same_content_def g(2))
      then show ?thesis using n wf g(4) by (metis hd_drop_conv_nth less_le_trans)
    qed
    moreover have "bh_nodes g ! ?n = ?x" using n wf by (simp add: nodes)
    moreover have "binaryheap_remove_first h = Some (bh_nodes (sift_down g 0) ! bh_size (sift_down g 0), sift_down g 0)"
      using ok False ne by (simp add: binaryheap_remove_first_def binaryheap_empty_def heap_ok_def Let_def g_def)
    ultimately show ?thesis using ok el g n wf
      by (auto simp: heap_ok_def heap_wf_def heap_elems_def same_content_def same_params_def)
  qed
qed

lemma heap_sift_root:
  assumes "comparator (heap_cmp g)" "heap_wf g" "bh_has_heap_property g" "0 < bh_size g"
    and "heap_hole (heap_cmp g) (bh_nodes g) (bh_size g) 0 0"
  shows "heap_ok (sift_down g 0)" and "heap_elems (sift_down g 0) = heap_elems g"
proof -
  have "heap_from (heap_cmp g) (bh_nodes (sift_down g 0)) (bh_size g) 0"
    using assms by (intro comparator.sift_down_heap) (simp_all add: heap_wf_def)
  moreover have "same_content g (sift_down g 0)" using assms by (simp add: same_content_sift_down heap_wf_def)
  ultimately show "heap_ok (sift_down g 0)" "heap_elems (sift_down g 0) = heap_elems g"
    using assms by (simp_all add: heap_ok_def heap_wf_def heap_elems_def same_content_def)
qed

text \<open>
  \<open>binaryheap_replace_first\<close> needs the heap condition only below the root, so it also
  repairs a heap whose root element has changed its rank in place.
\<close>

lemma heap_replace_spec:
  assumes "comparator (heap_cmp h)" "heap_wf h" "bh_has_heap_property h" "0 < bh_size h"
    and "heap_hole (heap_cmp h) (bh_nodes h) (bh_size h) 0 0"
  shows "\<exists>h'. binaryheap_replace_first h d = Some h' \<and> heap_ok h' \<and>
    heap_elems h' = add_mset d (heap_elems h - {#bh_nodes h ! 0#}) \<and> same_params h h' \<and> bh_arg h' = bh_arg h"
proof -
  define g where "g = h\<lparr>bh_nodes := (bh_nodes h)[0 := d]\<rparr>"
  have cg: "heap_cmp g = heap_cmp h" by (simp add: g_def)
  have wf: "heap_wf g" "bh_has_heap_property g" "0 < bh_size g" "comparator (heap_cmp g)"
    using assms by (simp_all add: g_def heap_wf_def heap_cmp_def)
  have "heap_hole (heap_cmp g) (bh_nodes g) (bh_size g) 0 0"
    using assms(5) unfolding cg by (auto simp: heap_hole_def g_def nth_list_update dest: div_less_dividend)
  note root = heap_sift_root [OF wf(4,1,2,3) this]
  have el: "heap_elems g = add_mset d (heap_elems h - {#bh_nodes h ! 0#})"
    using assms(2,4) by (cases "bh_nodes h"; cases "bh_size h") (auto simp: g_def heap_elems_def heap_wf_def)
  show ?thesis
  proof (cases "bh_size g > 1")
    case True
    have "same_content g (sift_down g 0)" using wf by (simp add: same_content_sift_down heap_wf_def)
    then have "same_params h (sift_down g 0) \<and> bh_arg (sift_down g 0) = bh_arg h"
      by (simp add: same_params_def same_content_def cg) (simp add: g_def)
    then show ?thesis using True assms root el
      by (simp add: binaryheap_replace_first_def binaryheap_empty_def g_def)
  next
    case False
    then have "heap_ok g" using wf by (auto simp: heap_ok_def heap_from_def)
    then show ?thesis using False assms el cg
      by (simp add: binaryheap_replace_first_def binaryheap_empty_def g_def same_params_def)
  qed
qed

lemma heap_build_spec:
  assumes "comparator (heap_cmp h)" and "heap_wf h"
  shows "heap_ok (binaryheap_build h) \<and> heap_elems (binaryheap_build h) = heap_elems h \<and>
    same_params h (binaryheap_build h) \<and> bh_arg (binaryheap_build h) = bh_arg h"
proof -
  let ?k = "nat (parent_offset (int (bh_size h) - 1) + 1)"
  have k: "?k = (if bh_size h = 0 then 0 else if bh_size h = 1 then 1 else par (bh_size h - 1) + 1)"
    using parent_offset_nat [of "bh_size h - 1"]
    by (auto simp: parent_offset_def signed_divide_int_def sgn_if of_nat_diff)
  have "par i < ?k" if "i < bh_size h" "0 < i" for i
  proof -
    have "par i \<le> par (bh_size h - 1)" using that by (intro div_le_mono) linarith
    then show ?thesis using that unfolding k by (cases "bh_size h = 1") simp_all
  qed
  then have "heap_from (heap_cmp h) (bh_nodes h) (bh_size h) ?k"
    unfolding heap_from_def by (meson not_le)
  moreover have "?k \<le> bh_size h" unfolding k using par_less [of "bh_size h - 1"] by auto
  ultimately have "same_content h (build_loop h ?k) \<and>
      heap_from (heap_cmp h) (bh_nodes (build_loop h ?k)) (bh_size h) 0"
    using assms comparator.build_loop_heap [of "heap_cmp h" h ?k] by (simp add: heap_wf_def)
  then show ?thesis using assms
    by (simp add: binaryheap_build_def heap_ok_def heap_wf_def heap_elems_def same_content_def same_params_def)
qed

lemma heap_add_unordered_spec:
  assumes "heap_wf h" and "bh_size h < bh_space h"
  shows "\<exists>h'. binaryheap_add_unordered h d = Inr h' \<and> heap_wf h' \<and> heap_elems h' = add_mset d (heap_elems h) \<and>
    same_params h h' \<and> bh_arg h' = bh_arg h \<and> bh_size h' = Suc (bh_size h) \<and>
    take (bh_size h') (bh_nodes h') = take (bh_size h) (bh_nodes h) @ [d]"
  using assms
  by (simp add: binaryheap_add_unordered_def heap_wf_def heap_elems_def same_params_def take_Suc_conv_app_nth
      heap_cmp_def fun_eq_iff)

subsection \<open>The priority queue interface\<close>

text \<open>Taking \<open>n\<close> elements off the front; \<open>None\<close> when a removal fails.\<close>

fun drain :: "nat \<Rightarrow> ('h \<Rightarrow> ('d \<times> 'h) option) \<Rightarrow> 'h \<Rightarrow> 'd list option" where
  "drain 0 remove h = Some []"
| "drain (Suc n) remove h = (case remove h of None \<Rightarrow> None
     | Some (x, h') \<Rightarrow> map_option ((#) x) (drain n remove h'))"

text \<open>A sequence of insertions, stopping at the first error.\<close>

fun add_all :: "('h \<Rightarrow> 'd \<Rightarrow> 'h result) \<Rightarrow> 'h \<Rightarrow> 'd list \<Rightarrow> 'h result" where
  "add_all add h [] = Inr h"
| "add_all add h (d # ds) = bindE (add h d) (\<lambda>h. add_all add h ds)"

lemma heap_add_all_unordered_spec:
  assumes "heap_wf h" "bh_size h + length ds \<le> bh_space h"
  shows "\<exists>h'. add_all binaryheap_add_unordered h ds = Inr h' \<and> heap_wf h' \<and>
    heap_elems h' = heap_elems h + mset ds \<and> same_params h h'"
  using assms
proof (induction ds arbitrary: h)
  case (Cons d ds)
  then obtain h1 where "binaryheap_add_unordered h d = Inr h1" "heap_wf h1"
    "heap_elems h1 = add_mset d (heap_elems h)" "same_params h h1" "bh_size h1 = Suc (bh_size h)"
    using heap_add_unordered_spec [of h d] by auto
  with Cons show ?case using Cons.IH [of h1] by (auto simp: same_params_def)
qed (simp add: same_params_def)

locale priority_queue =
  fixes ok :: "'h \<Rightarrow> bool"
    and elems :: "'h \<Rightarrow> 'd multiset"
    and space :: "'h \<Rightarrow> nat"
    and compare :: "'h \<Rightarrow> 'd \<Rightarrow> 'd \<Rightarrow> int"
    and add :: "'h \<Rightarrow> 'd \<Rightarrow> 'h result"
    and remove :: "'h \<Rightarrow> ('d \<times> 'h) option"
    and full_error :: pg_error
  assumes add_room: "ok h \<Longrightarrow> size (elems h) < space h \<Longrightarrow>
      \<exists>h'. add h d = Inr h' \<and> ok h' \<and> elems h' = add_mset d (elems h) \<and> space h' = space h \<and> compare h' = compare h"
    and add_full: "ok h \<Longrightarrow> space h \<le> size (elems h) \<Longrightarrow> add h d = Inl full_error"
    and remove_top: "ok h \<Longrightarrow> elems h \<noteq> {#} \<Longrightarrow>
      \<exists>x h'. remove h = Some (x, h') \<and> x \<in># elems h \<and> (\<forall>y \<in># elems h. compare h y x \<le> 0) \<and>
        ok h' \<and> elems h' = elems h - {#x#} \<and> space h' = space h \<and> compare h' = compare h"
begin

lemma drain_sorted:
  "ok h \<Longrightarrow> size (elems h) = n \<Longrightarrow>
   \<exists>xs. drain n remove h = Some xs \<and> mset xs = elems h \<and> sorted_wrt (\<lambda>x y. compare h y x \<le> 0) xs"
proof (induction n arbitrary: h)
  case (Suc n)
  then have "elems h \<noteq> {#}" by auto
  then obtain x h' where r: "remove h = Some (x, h')" "x \<in># elems h" "\<forall>y \<in># elems h. compare h y x \<le> 0"
    "ok h'" "elems h' = elems h - {#x#}" "compare h' = compare h"
    using remove_top Suc.prems(1) by blast
  moreover have "size (elems h') = n" using r(2,5) Suc.prems(2) by (simp add: size_Diff_singleton)
  ultimately obtain xs where "drain n remove h' = Some xs" "mset xs = elems h'"
    "sorted_wrt (\<lambda>x y. compare h y x \<le> 0) xs"
    using Suc.IH [of h'] by auto
  moreover have "\<forall>y \<in> set xs. compare h y x \<le> 0"
    using calculation(2) r(3,5) by (metis in_diffD set_mset_mset)
  ultimately show ?case using r by auto
qed simp

lemma add_all_elems:
  "ok h \<Longrightarrow> size (elems h) + length ds \<le> space h \<Longrightarrow>
   \<exists>h'. add_all add h ds = Inr h' \<and> ok h' \<and> elems h' = elems h + mset ds \<and> compare h' = compare h"
proof (induction ds arbitrary: h)
  case (Cons d ds)
  then obtain h1 where "add h d = Inr h1" "ok h1" "elems h1 = add_mset d (elems h)" "space h1 = space h"
    "compare h1 = compare h"
    using add_room [of h d] by auto
  with Cons show ?case using Cons.IH [of h1] by auto
qed simp

lemma add_all_full:
  "ok h \<Longrightarrow> size (elems h) \<le> space h \<Longrightarrow> space h < size (elems h) + length ds \<Longrightarrow> add_all add h ds = Inl full_error"
proof (induction ds arbitrary: h)
  case (Cons d ds)
  show ?case
  proof (cases "size (elems h) < space h")
    case True
    then obtain h1 where "add h d = Inr h1" "ok h1" "elems h1 = add_mset d (elems h)" "space h1 = space h"
      using add_room [of h d] Cons.prems(1) by blast
    with Cons True show ?thesis by simp
  next
    case False
    then show ?thesis using add_full Cons.prems(1) by simp
  qed
qed simp

lemma insert_then_drain:
  assumes "ok h" "elems h = {#}" "length ds \<le> space h"
  shows "\<exists>h' xs. add_all add h ds = Inr h' \<and> drain (length ds) remove h' = Some xs \<and> mset xs = mset ds \<and>
    sorted_wrt (\<lambda>x y. compare h y x \<le> 0) xs"
proof -
  obtain h' where "add_all add h ds = Inr h'" "ok h'" "elems h' = mset ds" "compare h' = compare h"
    using add_all_elems [of h ds] assms by auto
  then show ?thesis using drain_sorted [of h' "length ds"] by auto
qed

end

interpretation heap_pq: priority_queue heap_ok heap_elems bh_space heap_cmp binaryheap_add binaryheap_remove_first out_of_slots
proof unfold_locales
  fix h :: "('d, 'arg) binaryheap" and d
  assume ok: "heap_ok h"
  then have size: "size (heap_elems h) = bh_size h" by (simp add: size_heap_elems heap_ok_def)
  show "\<exists>h'. binaryheap_add h d = Inr h' \<and> heap_ok h' \<and> heap_elems h' = add_mset d (heap_elems h) \<and>
      bh_space h' = bh_space h \<and> heap_cmp h' = heap_cmp h" if "size (heap_elems h) < bh_space h"
    using heap_add_spec [OF ok, of d] that by (auto simp: size same_params_def)
  show "binaryheap_add h d = Inl out_of_slots" if "bh_space h \<le> size (heap_elems h)"
    using that by (simp add: size binaryheap_add_def)
  show "\<exists>x h'. binaryheap_remove_first h = Some (x, h') \<and> x \<in># heap_elems h \<and>
      (\<forall>y \<in># heap_elems h. heap_cmp h y x \<le> 0) \<and> heap_ok h' \<and> heap_elems h' = heap_elems h - {#x#} \<and>
      bh_space h' = bh_space h \<and> heap_cmp h' = heap_cmp h" if "heap_elems h \<noteq> {#}"
  proof -
    have "0 < bh_size h" using that size by (metis gr0I size_eq_0_iff_empty)
    then show ?thesis using heap_remove_spec [OF ok] heap_top_spec [OF ok] by (auto simp: same_params_def)
  qed
qed

subsection \<open>Properties\<close>

text \<open>
  \<open>binaryheap_add\<close> on a valid heap: with room left it returns a valid heap that holds
  exactly one more element, the new one, and keeps the heap's parameters; on a full heap it raises the
  error and nothing else.
\<close>

lemma binaryheap_add_correct:
  assumes "heap_ok h"
  shows "if bh_size h < bh_space h
    then \<exists>h'. binaryheap_add h d = Inr h' \<and> heap_ok h' \<and> heap_elems h' = add_mset d (heap_elems h) \<and>
           same_params h h'
    else binaryheap_add h d = Inl (Ereport ERROR ERRCODE_INTERNAL_ERROR)"
  using heap_add_spec [OF assms, of d] by (simp add: binaryheap_add_def out_of_slots_def)

text \<open>
  \<open>binaryheap_remove_first\<close> on a valid non-empty heap removes and returns the element
  that \<open>binaryheap_first\<close> shows, which no element of the heap exceeds, and leaves a valid heap
  with all the other elements.
\<close>

lemma binaryheap_remove_first_correct:
  assumes "heap_ok h" and "\<not> binaryheap_empty h"
  shows "\<exists>x h'. binaryheap_first h = Some x \<and> binaryheap_remove_first h = Some (x, h') \<and> heap_ok h' \<and>
    x \<in># heap_elems h \<and> (\<forall>y \<in># heap_elems h. heap_cmp h y x \<le> 0) \<and>
    heap_elems h' = heap_elems h - {#x#} \<and> same_params h h'"
  using heap_remove_spec [OF assms(1)] heap_top_spec [OF assms(1)] assms(2)
  by (auto simp: binaryheap_empty_def)

text \<open>
  C14. Elements added in any order, without keeping the heap property, then
  \<open>binaryheap_build\<close>, then removed one by one: every call succeeds, and the elements come out
  in descending order of the comparator, each exactly as often as it was added.
\<close>

theorem binaryheap_build_then_drain:
  assumes "comparator (\<lambda>a b. compare a b arg)" and "length ds \<le> capacity"
  shows "\<exists>h xs. add_all binaryheap_add_unordered (binaryheap_allocate mem capacity compare arg) ds = Inr h \<and>
    drain (length ds) binaryheap_remove_first (binaryheap_build h) = Some xs \<and>
    mset xs = mset ds \<and> sorted_wrt (\<lambda>x y. compare y x arg \<le> 0) xs"
proof -
  let ?h0 = "binaryheap_allocate mem capacity compare arg"
  have h0: "heap_wf ?h0" "bh_size ?h0 = 0" "bh_space ?h0 = capacity" "heap_elems ?h0 = {#}"
    "heap_cmp ?h0 = (\<lambda>a b. compare a b arg)"
    by (simp_all add: binaryheap_allocate_def heap_wf_def heap_elems_def heap_cmp_def [abs_def])
  obtain h where h: "add_all binaryheap_add_unordered ?h0 ds = Inr h" "heap_wf h" "heap_elems h = mset ds"
    "heap_cmp h = (\<lambda>a b. compare a b arg)"
    using heap_add_all_unordered_spec [OF h0(1), of ds] h0 assms(2) by (auto simp: same_params_def)
  then have b: "heap_ok (binaryheap_build h)" "heap_elems (binaryheap_build h) = mset ds"
    "heap_cmp (binaryheap_build h) = (\<lambda>a b. compare a b arg)"
    using heap_build_spec [of h] assms(1) by (simp_all add: same_params_def)
  then show ?thesis using h(1) heap_pq.drain_sorted [OF b(1), of "length ds"] by auto
qed

theorem binaryheap_build_then_drain_witness:
  "\<exists>h xs. add_all binaryheap_add_unordered (binaryheap_allocate (\<lambda>i. 0) 4 (\<lambda>a b _. a - b) ()) [3, 9, 5 :: int] = Inr h \<and>
    drain 3 binaryheap_remove_first (binaryheap_build h) = Some xs \<and> mset xs = {#3, 9, 5#} \<and> sorted_wrt (\<ge>) xs"
proof -
  have "comparator (\<lambda>a b. a - b :: int)" by unfold_locales auto
  from binaryheap_build_then_drain [where compare = "\<lambda>a b _. a - b" and arg = "()", OF this,
      of "[3, 9, 5]" 4 "\<lambda>i. 0"]
  show ?thesis by (simp add: eval_nat_numeral del: drain.simps add_all.simps)
qed

end
