(* ===== verification/QSort.thy ===== *)
theory QSort
  imports Comparator "HOL-Library.Multiset"
begin

text \<open>
  The quicksort of \<^verbatim>\<open>src/src/common/port/qsort.cpp\<close> (\<open>pg_qsort\<close>, to which \<^verbatim>\<open>port.h\<close>
  defines \<^verbatim>\<open>qsort\<close>) and its variant with a pass-through argument of \<^verbatim>\<open>qsort_arg.cpp\<close>.
  The array is a list; a pointer into it is the index of its element, so that stepping by the element
  size is stepping by one. The three ways the code has of swapping two elements (a long, an
  array of longs, an array of chars) have the same effect and are one definition. The code counts elements
  in a \<^verbatim>\<open>size_t\<close> but keeps the distances \<open>d\<close> and \<open>r\<close>, which are in bytes, in an \<^verbatim>\<open>int\<close>: from a distance that
  does not fit there on, it works with addresses inside or outside the array that are not those of the
  elements. The model has no array of elements for that and is \<open>None\<close>.
\<close>

subsection \<open>The code\<close>

text \<open>Whether the distance of \<open>k\<close> elements of \<open>es\<close> bytes fits into an \<^verbatim>\<open>int\<close>.\<close>

definition fits_int :: "nat \<Rightarrow> nat \<Rightarrow> bool" where
  "fits_int es k \<longleftrightarrow> int (k * es) \<le> INT_MAX"

definition swap_elems :: "'a list \<Rightarrow> nat \<Rightarrow> nat \<Rightarrow> 'a list" where
  "swap_elems xs i j = xs[i := xs ! j, j := xs ! i]"

text \<open>\<open>swapfunc\<close> on blocks of \<open>n\<close> elements, one after the other (\<^verbatim>\<open>swapcode\<close>).\<close>

fun vecswap :: "'a list \<Rightarrow> nat \<Rightarrow> nat \<Rightarrow> nat \<Rightarrow> 'a list" where
  "vecswap xs i j 0 = xs"
| "vecswap xs i j (Suc n) = vecswap (swap_elems xs i j) (Suc i) (Suc j) n"

definition med3 :: "('a \<Rightarrow> 'a \<Rightarrow> int) \<Rightarrow> 'a list \<Rightarrow> nat \<Rightarrow> nat \<Rightarrow> nat \<Rightarrow> nat" where
  "med3 cmp xs a b c =
    (if cmp (xs ! a) (xs ! b) < 0
     then (if cmp (xs ! b) (xs ! c) < 0 then b else if cmp (xs ! a) (xs ! c) < 0 then c else a)
     else (if cmp (xs ! b) (xs ! c) > 0 then b else if cmp (xs ! a) (xs ! c) < 0 then a else c))"

text \<open>The insertion sort for fewer than seven elements.\<close>

fun insert_down :: "('a \<Rightarrow> 'a \<Rightarrow> int) \<Rightarrow> 'a list \<Rightarrow> nat \<Rightarrow> 'a list" where
  "insert_down cmp xs 0 = xs"
| "insert_down cmp xs (Suc pl) =
    (if cmp (xs ! pl) (xs ! Suc pl) > 0 then insert_down cmp (swap_elems xs (Suc pl) pl) pl else xs)"

function insertion_loop :: "('a \<Rightarrow> 'a \<Rightarrow> int) \<Rightarrow> 'a list \<Rightarrow> nat \<Rightarrow> 'a list" where
  "insertion_loop cmp xs pm =
    (if pm < length xs then insertion_loop cmp (insert_down cmp xs pm) (Suc pm) else xs)"
  by auto

lemma length_swap_elems [simp]: "length (swap_elems xs i j) = length xs"
  by (simp add: swap_elems_def)

lemma length_insert_down [simp]: "length (insert_down cmp xs pl) = length xs"
  by (induction cmp xs pl rule: insert_down.induct) simp_all

termination insertion_loop
  by (relation "measure (\<lambda>(_, xs, pm). length xs - pm)") auto

declare insertion_loop.simps [simp del]

text \<open>The check for input that is already sorted.\<close>

function presorted :: "('a \<Rightarrow> 'a \<Rightarrow> int) \<Rightarrow> 'a list \<Rightarrow> nat \<Rightarrow> bool" where
  "presorted cmp xs pm =
    (if pm < length xs then (if cmp (xs ! (pm - 1)) (xs ! pm) > 0 then False else presorted cmp xs (Suc pm)) else True)"
  by auto

termination presorted
  by (relation "measure (\<lambda>(_, xs, pm). length xs - pm)") auto

declare presorted.simps [simp del]

text \<open>The choice of the pivot: the middle element, the median of three, or the pseudo-median of nine.\<close>

definition pivot_index :: "nat \<Rightarrow> ('a \<Rightarrow> 'a \<Rightarrow> int) \<Rightarrow> 'a list \<Rightarrow> nat option" where
  "pivot_index es cmp xs =
    (let n = length xs; pm = n div 2
     in if n > 7 then
          (let pl = 0; pn = n - 1
           in if n > 40 then
                (let d = n div 8
                 in if fits_int es (2 * d) then
                      (let pl = med3 cmp xs pl (pl + d) (pl + 2 * d);
                           pm = med3 cmp xs (pm - d) pm (pm + d);
                           pn = med3 cmp xs (pn - 2 * d) (pn - d) pn
                       in Some (med3 cmp xs pl pm pn))
                    else None)
              else Some (med3 cmp xs pl pm pn))
        else Some pm)"

text \<open>
  The partition: elements equal to the pivot are collected at both ends, \<open>pa\<close> and \<open>pd\<close> bound
  these parts, and \<open>pb\<close> and \<open>pc\<close> close in on each other.
\<close>

function scan_up :: "('a \<Rightarrow> 'a \<Rightarrow> int) \<Rightarrow> 'a list \<Rightarrow> nat \<Rightarrow> nat \<Rightarrow> nat \<Rightarrow> 'a list \<times> nat \<times> nat" where
  "scan_up cmp xs pa pb pc =
    (if pb \<le> pc \<and> cmp (xs ! pb) (xs ! 0) \<le> 0
     then (if cmp (xs ! pb) (xs ! 0) = 0 then scan_up cmp (swap_elems xs pa pb) (Suc pa) (Suc pb) pc
           else scan_up cmp xs pa (Suc pb) pc)
     else (xs, pa, pb))"
  by auto

termination scan_up
  by (relation "measure (\<lambda>(_, _, _, pb, pc). Suc pc - pb)") auto

declare scan_up.simps [simp del]

text \<open>
  The pointer \<open>pb\<close> starts behind the pivot, so it is never 0; the first conjunct only says so to the
  termination proof.
\<close>

function scan_down :: "('a \<Rightarrow> 'a \<Rightarrow> int) \<Rightarrow> 'a list \<Rightarrow> nat \<Rightarrow> nat \<Rightarrow> nat \<Rightarrow> 'a list \<times> nat \<times> nat" where
  "scan_down cmp xs pb pc pd =
    (if 0 < pb \<and> pb \<le> pc \<and> cmp (xs ! pc) (xs ! 0) \<ge> 0
     then (if cmp (xs ! pc) (xs ! 0) = 0 then scan_down cmp (swap_elems xs pc pd) pb (pc - 1) (pd - 1)
           else scan_down cmp xs pb (pc - 1) pd)
     else (xs, pc, pd))"
  by auto

termination scan_down
  by (relation "measure (\<lambda>(_, _, pb, pc, _). pc)") auto

declare scan_down.simps [simp del]

function partition_loop ::
  "('a \<Rightarrow> 'a \<Rightarrow> int) \<Rightarrow> 'a list \<Rightarrow> nat \<Rightarrow> nat \<Rightarrow> nat \<Rightarrow> nat \<Rightarrow> 'a list \<times> nat \<times> nat \<times> nat \<times> nat" where
  "partition_loop cmp xs pa pb pc pd =
    (case scan_up cmp xs pa pb pc of (xs, pa, pb) \<Rightarrow>
     (case scan_down cmp xs pb pc pd of (xs, pc, pd) \<Rightarrow>
       if pb > pc then (xs, pa, pb, pc, pd)
       else partition_loop cmp (swap_elems xs pb pc) pa (Suc pb) (pc - 1) pd))"
  by auto

lemma scan_up_bounds:
  "scan_up cmp xs pa pb pc = (xs', pa', pb') \<Longrightarrow>
    length xs' = length xs \<and> pb \<le> pb' \<and> pa \<le> pa' \<and> (pa \<le> pb \<longrightarrow> pa' \<le> pb') \<and> pb' \<le> max pb (Suc pc)"
proof (induction cmp xs pa pb pc rule: scan_up.induct)
  case (1 cmp xs pa pb pc)
  from 1(3) show ?case
    using 1(1,2) by (auto simp: scan_up.simps [of cmp xs pa pb pc] split: if_splits)
qed

lemma scan_down_bounds:
  "scan_down cmp xs pb pc pd = (xs', pc', pd') \<Longrightarrow>
    length xs' = length xs \<and> pc' \<le> pc \<and> pd' \<le> pd \<and> (pc \<le> pd \<longrightarrow> pb \<le> Suc pd \<longrightarrow> pc' \<le> pd' \<and> pb \<le> Suc pd')"
proof (induction cmp xs pb pc pd rule: scan_down.induct)
  case (1 cmp xs pb pc pd)
  from 1(3) show ?case
    using 1(1,2) by (auto simp: scan_down.simps [of cmp xs pb pc pd] split: if_splits)
qed

termination partition_loop
proof (relation "measure (\<lambda>(_, _, _, pb, pc, _). Suc pc - pb)", goal_cases)
  case 2
  then show ?case
    by (auto dest!: scan_up_bounds [OF sym] scan_down_bounds [OF sym])
qed auto

declare partition_loop.simps [simp del]

lemma partition_loop_bounds:
  "partition_loop cmp xs pa pb pc pd = (xs', pa', pb', pc', pd') \<Longrightarrow> pa \<le> pb \<Longrightarrow> pb \<le> Suc pd \<Longrightarrow> pc \<le> pd \<Longrightarrow>
    length xs' = length xs \<and> pa \<le> pa' \<and> pa' \<le> pb' \<and> pb' \<le> Suc pd' \<and> pc' \<le> pd' \<and> pd' \<le> pd"
proof (induction cmp xs pa pb pc pd rule: partition_loop.induct)
  case (1 cmp xs pa pb pc pd)
  obtain xs1 pa1 pb1 where u: "scan_up cmp xs pa pb pc = (xs1, pa1, pb1)" using prod_cases3 by blast
  obtain xs2 pc2 pd2 where d: "scan_down cmp xs1 pb1 pc pd = (xs2, pc2, pd2)" using prod_cases3 by blast
  note b = scan_up_bounds [OF u] scan_down_bounds [OF d]
  show ?case
  proof (cases "pb1 > pc2")
    case True
    then show ?thesis using 1(2-) u d b by (auto simp: partition_loop.simps [of cmp xs])
  next
    case False
    then have "partition_loop cmp (swap_elems xs2 pb1 pc2) pa1 (Suc pb1) (pc2 - 1) pd2 = (xs', pa', pb', pc', pd')"
      using 1(2) u d by (simp add: partition_loop.simps [of cmp xs])
    note IH = 1(1) [OF u [symmetric] refl d [symmetric] refl False this]
    have "pb1 \<le> Suc pd" "pa1 \<le> pb1" using b(1) 1(3-) by auto
    then have "pc2 \<le> pd2" using b(2) 1(5) by blast
    then have "Suc pb1 \<le> Suc pd2" "pc2 - 1 \<le> pd2" using False by auto
    with IH \<open>pa1 \<le> pb1\<close> show ?thesis using b by auto
  qed
qed

lemma length_vecswap [simp]: "length (vecswap xs i j n) = length xs"
  by (induction xs i j n rule: vecswap.induct) simp_all

text \<open>
  One pass over at least seven elements: the pivot is moved to the front, the array is partitioned, and the
  elements equal to the pivot are swapped back from both ends to the middle.
\<close>

definition split_parts :: "nat \<Rightarrow> ('a \<Rightarrow> 'a \<Rightarrow> int) \<Rightarrow> 'a list \<Rightarrow> ('a list \<times> 'a list \<times> 'a list) option" where
  "split_parts es cmp xs =
    (let n = length xs
     in (case pivot_index es cmp xs of None \<Rightarrow> None
         | Some pm \<Rightarrow>
             (case partition_loop cmp (swap_elems xs 0 pm) 1 1 (n - 1) (n - 1) of (ys, pa, pb, pc, pd) \<Rightarrow>
                (let r1 = min pa (pb - pa);
                     ys1 = vecswap ys 0 (pb - r1) r1;
                     r2 = min (pd - pc) (n - pd - 1);
                     ys2 = vecswap ys1 pb (n - r2) r2;
                     l = pb - pa;
                     g = pd - pc
                 in if fits_int es r1 \<and> fits_int es r2 \<and> fits_int es l \<and> fits_int es g
                    then Some (take l ys2, take (n - g - l) (drop l ys2), drop (n - g) ys2) else None))))"

lemma split_parts_smaller:
  assumes "split_parts es cmp xs = Some (lo, mid, hi)" and "0 < length xs"
  shows "length lo < length xs \<and> length hi < length xs"
proof -
  obtain pm where pm: "pivot_index es cmp xs = Some pm"
    using assms(1) by (cases "pivot_index es cmp xs") (simp_all add: split_parts_def Let_def)
  obtain ys pa pb pc pd where
    p: "partition_loop cmp (swap_elems xs 0 pm) 1 1 (length xs - 1) (length xs - 1) = (ys, pa, pb, pc, pd)"
    using prod_cases5 by blast
  have "1 \<le> pa \<and> pb \<le> Suc pd \<and> pd \<le> length xs - 1 \<and> length ys = length xs"
    using partition_loop_bounds [OF p] by simp
  then have "pb - pa < length xs" "pd - pc < length xs" "length ys = length xs" using assms(2) by linarith+
  then show ?thesis using assms(1) p pm by (auto simp: split_parts_def Let_def split: if_splits)
qed

text \<open>
  The recursive calls sort the elements before and after those equal to the pivot (the second call is a
  jump back to the start in the code). Elements of no bytes are not sorted.
\<close>

function pg_qsort :: "nat \<Rightarrow> ('a \<Rightarrow> 'a \<Rightarrow> int) \<Rightarrow> 'a list \<Rightarrow> 'a list option" where
  "pg_qsort es cmp xs =
    (if es = 0 then Some xs
     else if length xs < 7 then Some (insertion_loop cmp xs 1)
     else if presorted cmp xs 1 then Some xs
     else (case split_parts es cmp xs of None \<Rightarrow> None
       | Some (lo, mid, hi) \<Rightarrow>
           (case (if length lo > 1 then pg_qsort es cmp lo else Some lo) of None \<Rightarrow> None
            | Some lo' \<Rightarrow> map_option (\<lambda>hi'. lo' @ mid @ hi') (if length hi > 1 then pg_qsort es cmp hi else Some hi))))"
  by auto

termination pg_qsort
proof (relation "measure (\<lambda>(_, _, xs). length xs)", goal_cases)
  case (2 es cmp xs r lo s mid hi)
  then show ?case using split_parts_smaller [of es cmp xs lo mid hi] by (cases xs) auto
next
  case (3 es cmp xs r lo s mid hi)
  then show ?case using split_parts_smaller [of es cmp xs lo mid hi] by (cases xs) auto
qed auto

declare pg_qsort.simps [simp del]

text \<open>
  The variant of \<^verbatim>\<open>qsort_arg.cpp\<close>: the same code, in which every comparison also receives the argument.
\<close>

definition qsort_arg :: "nat \<Rightarrow> ('a \<Rightarrow> 'a \<Rightarrow> 'arg \<Rightarrow> int) \<Rightarrow> 'arg \<Rightarrow> 'a list \<Rightarrow> 'a list option" where
  "qsort_arg es cmp arg xs = pg_qsort es (\<lambda>a b. cmp a b arg) xs"

subsection \<open>Nothing is lost: every step permutes the array\<close>

lemma mset_swap_elems [simp]: "i < length xs \<Longrightarrow> j < length xs \<Longrightarrow> mset (swap_elems xs i j) = mset xs"
  by (simp add: swap_elems_def mset_swap)

lemma mset_vecswap: "i + n \<le> length xs \<Longrightarrow> j + n \<le> length xs \<Longrightarrow> mset (vecswap xs i j n) = mset xs"
  by (induction xs i j n rule: vecswap.induct) simp_all

lemma mset_insert_down: "pl < length xs \<Longrightarrow> mset (insert_down cmp xs pl) = mset xs"
  by (induction cmp xs pl rule: insert_down.induct) simp_all

lemma mset_insertion_loop: "mset (insertion_loop cmp xs pm) = mset xs"
  by (induction cmp xs pm rule: insertion_loop.induct)
    (subst insertion_loop.simps, simp add: mset_insert_down)

lemma mset_scan_up:
  "scan_up cmp xs pa pb pc = (xs', pa', pb') \<Longrightarrow> pa \<le> pb \<Longrightarrow> pc < length xs \<Longrightarrow> mset xs' = mset xs"
proof (induction cmp xs pa pb pc rule: scan_up.induct)
  case (1 cmp xs pa pb pc)
  from 1(3-) show ?case
    using 1(1,2) by (auto simp: scan_up.simps [of cmp xs pa pb pc] split: if_splits)
qed

lemma mset_scan_down:
  "scan_down cmp xs pb pc pd = (xs', pc', pd') \<Longrightarrow> pc \<le> pd \<Longrightarrow> pd < length xs \<Longrightarrow> mset xs' = mset xs"
proof (induction cmp xs pb pc pd rule: scan_down.induct)
  case (1 cmp xs pb pc pd)
  from 1(3-) show ?case
    using 1(1,2) by (auto simp: scan_down.simps [of cmp xs pb pc pd] split: if_splits)
qed

subsection \<open>The partition\<close>

lemma swap_elems_nth:
  "i < length xs \<Longrightarrow> j < length xs \<Longrightarrow> k < length xs \<Longrightarrow>
    swap_elems xs i j ! k = (if k = i then xs ! j else if k = j then xs ! i else xs ! k)"
  by (auto simp: swap_elems_def nth_list_update)

lemma swap_elems_nth_0: "0 < i \<Longrightarrow> 0 < j \<Longrightarrow> swap_elems xs i j ! 0 = xs ! 0"
  by (simp add: swap_elems_def)

lemma vecswap_nth:
  "i + n \<le> j \<Longrightarrow> j + n \<le> length xs \<Longrightarrow> k < length xs \<Longrightarrow>
    vecswap xs i j n ! k =
      (if i \<le> k \<and> k < i + n then xs ! (j + (k - i)) else if j \<le> k \<and> k < j + n then xs ! (i + (k - j)) else xs ! k)"
proof (induction xs i j n rule: vecswap.induct)
  case (2 xs i j n)
  then have "vecswap (swap_elems xs i j) (Suc i) (Suc j) n ! k =
      (if Suc i \<le> k \<and> k < Suc i + n then swap_elems xs i j ! (Suc j + (k - Suc i))
       else if Suc j \<le> k \<and> k < Suc j + n then swap_elems xs i j ! (Suc i + (k - Suc j)) else swap_elems xs i j ! k)"
    by simp
  moreover have "Suc j + (k - Suc i) = j + (k - i)" if "Suc i \<le> k" using that by simp
  moreover have "Suc i + (k - Suc j) = i + (k - j)" if "Suc j \<le> k" using that by simp
  ultimately show ?case using 2(2-) by (auto simp: swap_elems_nth)
qed auto

text \<open>
  The state of the partition around the pivot \<open>v\<close>: equal elements up to \<open>pa\<close>, smaller ones up to
  \<open>pb\<close>, unseen ones up to \<open>pc\<close>, larger ones up to \<open>pd\<close>, equal ones up to the end.
\<close>

definition part_inv :: "('a \<Rightarrow> 'a \<Rightarrow> int) \<Rightarrow> 'a \<Rightarrow> 'a list \<Rightarrow> nat \<Rightarrow> nat \<Rightarrow> nat \<Rightarrow> nat \<Rightarrow> bool" where
  "part_inv cmp v xs pa pb pc pd \<longleftrightarrow>
    0 < pa \<and> pa \<le> pb \<and> pb \<le> Suc pc \<and> pc \<le> pd \<and> pd < length xs \<and> xs ! 0 = v \<and>
    (\<forall>i < pa. cmp (xs ! i) v = 0) \<and> (\<forall>i. pa \<le> i \<longrightarrow> i < pb \<longrightarrow> cmp (xs ! i) v < 0) \<and>
    (\<forall>i. pc < i \<longrightarrow> i \<le> pd \<longrightarrow> cmp (xs ! i) v > 0) \<and> (\<forall>i. pd < i \<longrightarrow> i < length xs \<longrightarrow> cmp (xs ! i) v = 0)"

lemma part_inv_up_equal:
  assumes "part_inv cmp v xs pa pb pc pd" and "pb \<le> pc" and "cmp (xs ! pb) v = 0"
  shows "part_inv cmp v (swap_elems xs pa pb) (Suc pa) (Suc pb) pc pd"
  using assms by (auto simp: part_inv_def swap_elems_nth_0 swap_elems_nth less_Suc_eq)

lemma part_inv_up_less:
  assumes "part_inv cmp v xs pa pb pc pd" and "pb \<le> pc" and "cmp (xs ! pb) v < 0"
  shows "part_inv cmp v xs pa (Suc pb) pc pd"
  using assms by (auto simp: part_inv_def less_Suc_eq)

lemma part_inv_down_equal:
  assumes "part_inv cmp v xs pa pb pc pd" and "pb \<le> pc" and "cmp (xs ! pc) v = 0"
  shows "part_inv cmp v (swap_elems xs pc pd) pa pb (pc - 1) (pd - 1)"
  using assms by (auto simp: part_inv_def swap_elems_nth_0 swap_elems_nth)

lemma part_inv_down_greater:
  assumes "part_inv cmp v xs pa pb pc pd" and "pb \<le> pc" and "cmp (xs ! pc) v > 0"
  shows "part_inv cmp v xs pa pb (pc - 1) pd"
proof -
  have "i = pc \<or> pc < i" if "pc - 1 < i" for i using that by linarith
  then show ?thesis using assms by (auto simp: part_inv_def)
qed

lemma part_inv_swap:
  assumes "part_inv cmp v xs pa pb pc pd" and "pb < pc" and "cmp (xs ! pb) v > 0" and "cmp (xs ! pc) v < 0"
  shows "part_inv cmp v (swap_elems xs pb pc) pa (Suc pb) (pc - 1) pd"
proof -
  have "i = pc \<or> pc < i" if "pc - 1 < i" for i using that by linarith
  then show ?thesis using assms by (auto simp: part_inv_def swap_elems_nth_0 swap_elems_nth less_Suc_eq)
qed

lemma scan_up_inv:
  "scan_up cmp xs pa pb pc = (xs', pa', pb') \<Longrightarrow> part_inv cmp v xs pa pb pc pd \<Longrightarrow>
    part_inv cmp v xs' pa' pb' pc pd \<and> (pb' \<le> pc \<longrightarrow> cmp (xs' ! pb') v > 0)"
proof (induction cmp xs pa pb pc rule: scan_up.induct)
  case (1 cmp xs pa pb pc)
  have v: "xs ! 0 = v" using 1(4) by (simp add: part_inv_def)
  consider "pb \<le> pc" "cmp (xs ! pb) v = 0" | "pb \<le> pc" "cmp (xs ! pb) v < 0" | "\<not> (pb \<le> pc \<and> cmp (xs ! pb) v \<le> 0)"
    by linarith
  then show ?case
  proof cases
    case 1
    then show ?thesis using "1.IH"(1) "1.prems" v part_inv_up_equal [OF "1.prems"(2) 1]
      by (simp add: scan_up.simps [of cmp xs pa pb pc])
  next
    case 2
    then show ?thesis using "1.IH"(2) "1.prems" v part_inv_up_less [OF "1.prems"(2) 2]
      by (simp add: scan_up.simps [of cmp xs pa pb pc])
  next
    case 3
    then show ?thesis using "1.prems" v by (auto simp: scan_up.simps [of cmp xs pa pb pc])
  qed
qed

lemma scan_down_inv:
  "scan_down cmp xs pb pc pd = (xs', pc', pd') \<Longrightarrow> part_inv cmp v xs pa pb pc pd \<Longrightarrow>
    part_inv cmp v xs' pa pb pc' pd' \<and> (pb \<le> pc' \<longrightarrow> cmp (xs' ! pc') v < 0 \<and> xs' ! pb = xs ! pb)"
proof (induction cmp xs pb pc pd rule: scan_down.induct)
  case (1 cmp xs pb pc pd)
  have v: "xs ! 0 = v" "0 < pb" using 1(4) by (simp_all add: part_inv_def)
  consider "pb \<le> pc" "cmp (xs ! pc) v = 0" | "pb \<le> pc" "cmp (xs ! pc) v > 0" | "\<not> (pb \<le> pc \<and> cmp (xs ! pc) v \<ge> 0)"
    by linarith
  then show ?case
  proof cases
    case 1
    have "scan_down cmp (swap_elems xs pc pd) pb (pc - 1) (pd - 1) = (xs', pc', pd')"
      using "1.prems"(1) v 1 by (simp add: scan_down.simps [of cmp xs pb pc pd])
    note r = "1.IH"(1) [OF _ _ this part_inv_down_equal [OF "1.prems"(2) 1]] scan_down_bounds [OF this]
    moreover have "swap_elems xs pc pd ! pb = xs ! pb" if "pb \<le> pc'"
      using that r(2) "1.prems"(2) v 1 by (auto simp: part_inv_def swap_elems_nth_0 swap_elems_nth)
    ultimately show ?thesis using v 1 by auto
  next
    case 2
    then show ?thesis using "1.IH"(2) "1.prems" v part_inv_down_greater [OF "1.prems"(2) 2]
      by (simp add: scan_down.simps [of cmp xs pb pc pd])
  next
    case 3
    then show ?thesis using "1.prems" v by (auto simp: scan_down.simps [of cmp xs pb pc pd])
  qed
qed

lemma partition_loop_inv:
  "partition_loop cmp xs pa pb pc pd = (xs', pa', pb', pc', pd') \<Longrightarrow> part_inv cmp v xs pa pb pc pd \<Longrightarrow>
    part_inv cmp v xs' pa' pb' pc' pd' \<and> pb' = Suc pc' \<and> mset xs' = mset xs"
proof (induction cmp xs pa pb pc pd rule: partition_loop.induct)
  case (1 cmp xs pa pb pc pd)
  obtain xs1 pa1 pb1 where u: "scan_up cmp xs pa pb pc = (xs1, pa1, pb1)" using prod_cases3 by blast
  obtain xs2 pc2 pd2 where d: "scan_down cmp xs1 pb1 pc pd = (xs2, pc2, pd2)" using prod_cases3 by blast
  note iu = scan_up_inv [OF u 1(3)]
  note id = scan_down_inv [OF d iu [THEN conjunct1]]
  have m: "mset xs2 = mset xs"
    using mset_scan_up [OF u] mset_scan_down [OF d] 1(3) iu by (simp add: part_inv_def)
  show ?case
  proof (cases "pb1 > pc2")
    case True
    then show ?thesis using 1(2) u d id m by (auto simp: partition_loop.simps [of cmp xs pa] part_inv_def)
  next
    case False
    then have run: "partition_loop cmp (swap_elems xs2 pb1 pc2) pa1 (Suc pb1) (pc2 - 1) pd2 = (xs', pa', pb', pc', pd')"
      using 1(2) u d by (simp add: partition_loop.simps [of cmp xs pa])
    have "pb1 \<le> pc" using False scan_down_bounds [OF d] by linarith
    then have c: "cmp (xs2 ! pb1) v > 0" "cmp (xs2 ! pc2) v < 0" using iu id False by auto
    then have "pb1 \<noteq> pc2" by auto
    then have "pb1 < pc2" using False by linarith
    with 1(1) [OF u [symmetric] refl d [symmetric] refl False run part_inv_swap [OF id [THEN conjunct1] this c]]
    show ?thesis using m id by (simp add: part_inv_def)
  qed
qed

subsection \<open>Sortedness\<close>

lemma presorted_iff:
  "presorted cmp xs pm = (\<forall>i. pm \<le> i \<longrightarrow> i < length xs \<longrightarrow> cmp (xs ! (i - 1)) (xs ! i) \<le> 0)"
proof (induction cmp xs pm rule: presorted.induct)
  case (1 cmp xs pm)
  show ?case
  proof (cases "pm < length xs \<and> cmp (xs ! (pm - 1)) (xs ! pm) \<le> 0")
    case True
    then have "presorted cmp xs pm = presorted cmp xs (Suc pm)" by (simp add: presorted.simps [of cmp xs pm])
    also have "\<dots> = (\<forall>i. Suc pm \<le> i \<longrightarrow> i < length xs \<longrightarrow> cmp (xs ! (i - 1)) (xs ! i) \<le> 0)" using 1 True by simp
    also have "\<dots> = (\<forall>i. pm \<le> i \<longrightarrow> i < length xs \<longrightarrow> cmp (xs ! (i - 1)) (xs ! i) \<le> 0)"
      using True by (metis Suc_leD Suc_leI le_neq_implies_less)
    finally show ?thesis .
  next
    case False
    then show ?thesis by (auto simp: presorted.simps [of cmp xs pm])
  qed
qed

context comparator
begin

lemma sorted_from_adjacent:
  "(\<And>i. Suc i < length xs \<Longrightarrow> cmp (xs ! i) (xs ! Suc i) \<le> 0) \<Longrightarrow> sorted_wrt (\<lambda>a b. cmp a b \<le> 0) xs"
  using sorted_wrt_iff_nth_Suc_transp [OF cmp_transp, of xs] by simp

lemma presorted_sorted: "presorted cmp xs 1 \<Longrightarrow> sorted_wrt (\<lambda>a b. cmp a b \<le> 0) xs"
  by (rule sorted_from_adjacent) (force simp: presorted_iff)

text \<open>
  While an element sinks to its place, the elements before and after it are in order, and its two
  neighbours are too.
\<close>

lemma insert_down_adjacent:
  assumes "pl < length xs" and "pl \<le> m" and "m < length xs"
    and "\<And>i. Suc i \<le> m \<Longrightarrow> Suc i \<noteq> pl \<Longrightarrow> cmp (xs ! i) (xs ! Suc i) \<le> 0"
    and "0 < pl \<Longrightarrow> pl < m \<Longrightarrow> cmp (xs ! (pl - 1)) (xs ! Suc pl) \<le> 0"
    and "Suc i \<le> m"
  shows "cmp (insert_down cmp xs pl ! i) (insert_down cmp xs pl ! Suc i) \<le> 0"
  using assms
proof (induction pl arbitrary: xs)
  case (Suc pl)
  show ?case
  proof (cases "cmp (xs ! pl) (xs ! Suc pl) > 0")
    case True
    let ?ys = "swap_elems xs (Suc pl) pl"
    have ys: "?ys ! j = (if j = Suc pl then xs ! pl else if j = pl then xs ! Suc pl else xs ! j)" if "j \<le> m" for j
      using that Suc.prems by (simp add: swap_elems_nth)
    have le: "cmp (xs ! Suc pl) (xs ! pl) \<le> 0" using True cmp_flip [of "xs ! Suc pl" "xs ! pl"] by linarith
    have "cmp (?ys ! j) (?ys ! Suc j) \<le> 0" if "Suc j \<le> m" "Suc j \<noteq> pl" for j
      using that ys Suc.prems(4) [of j] Suc.prems(5) le by auto
    moreover have "cmp (?ys ! (pl - 1)) (?ys ! Suc pl) \<le> 0" if "0 < pl" "pl < m"
      using that ys Suc.prems(4) [of "pl - 1"] Suc.prems(2) by auto
    ultimately show ?thesis using Suc.IH [of ?ys] Suc.prems True by simp
  next
    case False
    then show ?thesis using Suc.prems by (cases "Suc i = Suc pl") auto
  qed
qed simp

lemma insertion_loop_adjacent:
  "(\<And>i. Suc i < pm \<Longrightarrow> cmp (xs ! i) (xs ! Suc i) \<le> 0) \<Longrightarrow> Suc i < length xs \<Longrightarrow>
    cmp (insertion_loop cmp xs pm ! i) (insertion_loop cmp xs pm ! Suc i) \<le> 0"
proof (induction "length xs - pm" arbitrary: xs pm)
  case 0
  then show ?case by (simp add: insertion_loop.simps [of cmp xs pm])
next
  case (Suc k)
  have "cmp (insert_down cmp xs pm ! j) (insert_down cmp xs pm ! Suc j) \<le> 0" if "Suc j < Suc pm" for j
    using that Suc.hyps(2) Suc.prems(1) by (intro insert_down_adjacent [of pm xs pm]) auto
  moreover have "pm < length xs" using Suc.hyps(2) by linarith
  ultimately show ?case
    using Suc.hyps(1) [of "insert_down cmp xs pm" "Suc pm"] Suc.hyps(2) Suc.prems(2)
    by (simp add: insertion_loop.simps [of cmp xs pm])
qed

lemma length_insertion_loop: "length (insertion_loop cmp xs pm) = length xs"
  by (metis mset_insertion_loop size_mset)

lemma insertion_loop_sorted: "sorted_wrt (\<lambda>a b. cmp a b \<le> 0) (insertion_loop cmp xs 1)"
  by (rule sorted_from_adjacent) (simp add: insertion_loop_adjacent length_insertion_loop)

end

lemma med3_cases: "med3 cmp xs a b c = a \<or> med3 cmp xs a b c = b \<or> med3 cmp xs a b c = c"
  by (simp add: med3_def)

lemma med3_less: "a < n \<Longrightarrow> b < n \<Longrightarrow> c < n \<Longrightarrow> med3 cmp xs a b c < n"
  using med3_cases [of cmp xs a b c] by auto

lemma pivot_index_less: "pivot_index es cmp xs = Some pm \<Longrightarrow> 0 < length xs \<Longrightarrow> pm < length xs"
proof -
  assume run: "pivot_index es cmp xs = Some pm" and pos: "0 < length xs"
  define n where "n = length xs"
  define d h where "d = n div 8" and "h = n div 2"
  have "8 * d \<le> n" "2 * h \<le> n" by (simp_all add: d_def h_def)
  moreover have "0 < n" using pos by (simp add: n_def)
  ultimately have "h < n" "d < n" "2 * d < n" "h - d < n" "h + d < n" by linarith+
  then show ?thesis using run pos
    unfolding d_def h_def n_def [symmetric] by (auto simp: pivot_index_def Let_def simp flip: n_def split: if_splits intro!: med3_less)
qed

lemma fits_int_mono: "fits_int es n \<Longrightarrow> k \<le> n \<Longrightarrow> fits_int es k"
  unfolding fits_int_def by (meson mult_le_mono1 of_nat_mono order_trans)

lemma pivot_index_fits: "fits_int es (length xs) \<Longrightarrow> \<exists>pm. pivot_index es cmp xs = Some pm"
  using fits_int_mono [of es "length xs" "2 * (length xs div 8)"] by (simp add: pivot_index_def Let_def)

text \<open>All distances fit when the array does.\<close>

lemma split_parts_fits:
  assumes "fits_int es (length xs)" and "0 < length xs"
  obtains lo mid hi where "split_parts es cmp xs = Some (lo, mid, hi)"
proof -
  obtain pm where pm: "pivot_index es cmp xs = Some pm" using pivot_index_fits [OF assms(1)] by blast
  obtain ys pa pb pc pd where
    p: "partition_loop cmp (swap_elems xs 0 pm) 1 1 (length xs - 1) (length xs - 1) = (ys, pa, pb, pc, pd)"
    using prod_cases5 by blast
  have "pb \<le> Suc pd \<and> pd \<le> length xs - 1" using partition_loop_bounds [OF p] by simp
  then have b: "pb \<le> length xs" "pd \<le> length xs" using assms(2) by linarith+
  have "fits_int es (min pa (pb - pa))" "fits_int es (min (pd - pc) (length xs - pd - 1))" "fits_int es (pb - pa)" "fits_int es (pd - pc)"
    using b by (auto intro!: fits_int_mono [OF assms(1)])
  then show thesis using that pm p by (simp add: split_parts_def Let_def)
qed

lemma mset_split3: "l + g \<le> length ys \<Longrightarrow>
    mset (take l ys) + mset (take (length ys - g - l) (drop l ys)) + mset (drop (length ys - g) ys) = mset ys"
proof -
  assume "l + g \<le> length ys"
  then have "drop (length ys - g) ys = drop (length ys - g - l) (drop l ys)" by simp
  then show ?thesis by (metis append_take_drop_id mset_append union_assoc)
qed

text \<open>The two block swaps after the partition, for elements equal to (E), below (L) and above (G) the pivot.\<close>

lemma swap_back_left:
  assumes E: "\<And>k. k < pa \<Longrightarrow> E (ys ! k)" and L: "\<And>k. pa \<le> k \<Longrightarrow> k < pb \<Longrightarrow> L (ys ! k)"
    and "pa \<le> pb" and "pb \<le> length ys" and r: "r = min pa (pb - pa)" and zs: "zs = vecswap ys 0 (pb - r) r"
  shows "k < pb - pa \<Longrightarrow> L (zs ! k)" and "pb - pa \<le> k \<Longrightarrow> k < pb \<Longrightarrow> E (zs ! k)"
    and "pb \<le> k \<Longrightarrow> k < length ys \<Longrightarrow> zs ! k = ys ! k"
proof -
  have step: "zs ! k = (if k < r then ys ! (pb - r + k) else if pb - r \<le> k \<and> k < pb then ys ! (k - (pb - r)) else ys ! k)"
    if "k < length ys" for k
    unfolding zs using that assms(3,4) r by (subst vecswap_nth) (auto simp: min_def)
  show "L (zs ! k)" if "k < pb - pa"
    using that assms(3,4) step [of k] L [of "pb - r + k"] L [of k] by (auto simp: r min_def split: if_splits)
  show "E (zs ! k)" if "pb - pa \<le> k" "k < pb"
    using that assms(3,4) step [of k] E [of "k - (pb - r)"] E [of k] by (auto simp: r min_def split: if_splits)
  show "zs ! k = ys ! k" if "pb \<le> k" "k < length ys"
    using that step [of k] by (auto simp: r)
qed

lemma swap_back_right:
  assumes G: "\<And>k. pb \<le> k \<Longrightarrow> k \<le> pd \<Longrightarrow> G (ys ! k)" and E: "\<And>k. pd < k \<Longrightarrow> k < n \<Longrightarrow> E (ys ! k)"
    and n: "n = length ys" and "pd < n" and g: "pb + g = Suc pd" and r: "r = min g (n - pd - 1)" and zs: "zs = vecswap ys pb (n - r) r"
  shows "k < pb \<Longrightarrow> zs ! k = ys ! k" and "pb \<le> k \<Longrightarrow> k < n - g \<Longrightarrow> E (zs ! k)" and "n - g \<le> k \<Longrightarrow> k < n \<Longrightarrow> G (zs ! k)"
proof -
  have rg: "r \<le> g" "r = g \<or> r = n - pd - 1" "r \<le> n - pd - 1" using r by (auto simp: min_def)
  then have rg': "r = g \<or> n - g = pb + r" "pd < n - r" "pb + r \<le> n - r" "n - r + r = n" using g \<open>pd < n\<close> by linarith+
  have step: "zs ! k = (if pb \<le> k \<and> k < pb + r then ys ! (n - r + (k - pb))
      else if n - r \<le> k \<and> k < n then ys ! (pb + (k - (n - r))) else ys ! k)" if "k < n" for k
    unfolding zs using that rg' n by (subst vecswap_nth) auto
  show "zs ! k = ys ! k" if "k < pb" using that step [of k] rg' by simp
  show "E (zs ! k)" if k: "pb \<le> k" "k < n - g"
  proof (cases "k < pb + r")
    case True
    have j: "n - r + (k - pb) < n" "pd < n - r + (k - pb)" using True k rg' by linarith+
    then show ?thesis using step [of k] True k E by simp
  next
    case False
    then have "r = g" "pd < k" using rg rg' g k by linarith+
    then show ?thesis using step [of k] False k E by simp
  qed
  show "G (zs ! k)" if k: "n - g \<le> k" "k < n"
  proof (cases "k < n - r")
    case True
    then have "pb + r \<le> k" "k \<le> pd" using rg rg' g k by linarith+
    then show ?thesis using step [of k] True k G by simp
  next
    case False
    have j: "pb + (k - (n - r)) \<le> pd" "\<not> k < pb + r" using False k rg rg' g by linarith+
    then show ?thesis using step [of k] False k G by simp
  qed
qed

lemma split_parts_spec:
  assumes "split_parts es cmp xs = Some (lo, mid, hi)" and "0 < length xs" and refl: "\<And>a. cmp a a = 0"
  obtains v where "\<forall>x \<in> set lo. cmp x v < 0" and "\<forall>x \<in> set mid. cmp x v = 0" and "\<forall>x \<in> set hi. cmp x v > 0"
    and "mset lo + mset mid + mset hi = mset xs"
proof -
  obtain pm where pm: "pivot_index es cmp xs = Some pm"
    using assms(1) by (cases "pivot_index es cmp xs") (simp_all add: split_parts_def Let_def)
  define n where "n = length xs"
  define zs where "zs = swap_elems xs 0 pm"
  have zs: "mset zs = mset xs" "length zs = n" "0 < n"
    using assms(2) pivot_index_less [OF pm] by (simp_all add: zs_def n_def)
  obtain ys pa pb pc pd where p: "partition_loop cmp zs 1 1 (n - 1) (n - 1) = (ys, pa, pb, pc, pd)"
    using prod_cases5 by blast
  have "part_inv cmp (zs ! 0) zs 1 1 (n - 1) (n - 1)"
    using zs refl by (auto simp: part_inv_def)
  from partition_loop_inv [OF p this]
  have inv: "part_inv cmp (zs ! 0) ys pa pb pc pd" and pb: "pb = Suc pc" and m: "mset ys = mset zs" by auto
  have n: "length ys = n" using m zs by (metis size_mset)
  define v where "v = zs ! 0"
  define l g r1 r2 where "l = pb - pa" and "g = pd - pc" and "r1 = min pa (pb - pa)" and "r2 = min g (n - pd - 1)"
  define ys1 where "ys1 = vecswap ys 0 (pb - r1) r1"
  define ys2 where "ys2 = vecswap ys1 pb (n - r2) r2"
  have b: "0 < pa" "pa \<le> pb" "pc \<le> pd" "pd < n" using inv n by (auto simp: part_inv_def)
  have b': "l + g \<le> n" "r1 \<le> pb" "r2 \<le> n" "pb + r2 \<le> n" "pb \<le> length ys" "pb + g = Suc pd"
    using b n pb by (simp_all add: l_def g_def r1_def r2_def)
  have len: "length ys1 = n" "length ys2 = n" by (simp_all add: ys1_def ys2_def n)
  note left = swap_back_left [where ys = ys and pa = pa and pb = pb and zs = ys1 and
      E = "\<lambda>x. cmp x v = 0" and L = "\<lambda>x. cmp x v < 0", OF _ _ b(2) b'(5) r1_def ys1_def]
  have left': "k < l \<Longrightarrow> cmp (ys1 ! k) v < 0" "l \<le> k \<Longrightarrow> k < pb \<Longrightarrow> cmp (ys1 ! k) v = 0"
    "pb \<le> k \<Longrightarrow> k < n \<Longrightarrow> ys1 ! k = ys ! k" for k
    using left inv n by (simp_all add: part_inv_def v_def l_def)
  note right = swap_back_right [where ys = ys1 and pb = pb and pd = pd and zs = ys2 and
      E = "\<lambda>x. cmp x v = 0" and G = "\<lambda>x. cmp x v > 0", OF _ _ len(1) [symmetric] b(4) b'(6) r2_def ys2_def]
  have right': "k < pb \<Longrightarrow> ys2 ! k = ys1 ! k" "pb \<le> k \<Longrightarrow> k < n - g \<Longrightarrow> cmp (ys2 ! k) v = 0"
    "n - g \<le> k \<Longrightarrow> k < n \<Longrightarrow> cmp (ys2 ! k) v > 0" for k
    using right left'(3) inv n pb b by (simp_all add: part_inv_def v_def)
  have parts: "lo = take l ys2" "mid = take (n - g - l) (drop l ys2)" "hi = drop (n - g) ys2"
    using assms(1) p pm
    by (simp_all add: split_parts_def Let_def n_def [symmetric] zs_def [symmetric] ys2_def ys1_def r1_def r2_def l_def g_def split: if_splits)
  have "mset ys2 = mset ys"
    using b' n len by (simp add: ys2_def ys1_def mset_vecswap)
  then have sum: "mset lo + mset mid + mset hi = mset xs"
    using mset_split3 [of l g ys2] b' len m zs parts by simp
  have lt: "cmp (ys2 ! k) v < 0" if "k < l" for k
    using that left'(1) [of k] right'(1) [of k] b by (simp add: l_def)
  have eq: "cmp (ys2 ! k) v = 0" if "l \<le> k" "k < n - g" for k
    using that left'(2) [of k] right'(1,2) [of k] by (cases "k < pb") simp_all
  have "\<forall>x \<in> set lo. cmp x v < 0" "\<forall>x \<in> set mid. cmp x v = 0" "\<forall>x \<in> set hi. cmp x v > 0"
    using lt eq right'(3) b' len by (auto simp: parts in_set_conv_nth)
  then show thesis using that sum by blast
qed

text \<open>What the array must contain for a valid result: the same elements, in order.\<close>

definition sorts :: "('a \<Rightarrow> 'a \<Rightarrow> int) \<Rightarrow> 'a list \<Rightarrow> 'a list \<Rightarrow> bool" where
  "sorts cmp xs ys \<longleftrightarrow> mset ys = mset xs \<and> sorted_wrt (\<lambda>a b. cmp a b \<le> 0) ys"

context comparator
begin

lemma sorts_join:
  assumes "sorts cmp lo lo'" and "sorts cmp hi hi'" and "mset lo + mset mid + mset hi = mset xs"
    and lo: "\<forall>x \<in> set lo. cmp x v < 0" and mid: "\<forall>x \<in> set mid. cmp x v = 0" and hi: "\<forall>x \<in> set hi. cmp x v > 0"
  shows "sorts cmp xs (lo' @ mid @ hi')"
proof -
  have sets: "set lo' = set lo" "set hi' = set hi" using assms(1,2) by (auto simp: sorts_def dest: mset_eq_setD)
  have "cmp x v \<le> 0" if "x \<in> set lo \<union> set mid" for x using that lo mid by force
  moreover have "cmp v x \<le> 0" if "x \<in> set mid \<union> set hi" for x
    using that mid hi cmp_ge_flip [of x v] by force
  ultimately have "cmp x y \<le> 0" if "x \<in> set lo \<union> set mid" "y \<in> set mid \<union> set hi" for x y
    using that cmp_trans by blast
  moreover from this have "sorted_wrt (\<lambda>a b. cmp a b \<le> 0) mid"
    by (intro sorted_from_adjacent) simp
  ultimately show ?thesis
    using assms(1-3) sets by (auto simp: sorts_def sorted_wrt_append ac_simps)
qed

lemma sorts_short: "length xs \<le> 1 \<Longrightarrow> sorts cmp xs xs"
  by (cases xs) (auto simp: sorts_def)

lemma qsort_sorts: "pg_qsort es cmp xs = Some ys \<Longrightarrow> 0 < es \<Longrightarrow> sorts cmp xs ys"
proof (induction "length xs" arbitrary: xs ys rule: less_induct)
  case less
  note run = less.prems(1) [unfolded pg_qsort.simps [of es cmp xs]] and es = less.prems(2)
  consider "length xs < 7" | "\<not> length xs < 7" "presorted cmp xs 1" | "\<not> length xs < 7" "\<not> presorted cmp xs 1"
    by blast
  then show ?case
  proof cases
    case 1
    then show ?thesis using run es by (auto simp: sorts_def insertion_loop_sorted [simplified] mset_insertion_loop)
  next
    case 2
    then show ?thesis using run es presorted_sorted by (simp add: sorts_def)
  next
    case 3
    have pos: "0 < length xs" using 3 by linarith
    obtain lo mid hi where p: "split_parts es cmp xs = Some (lo, mid, hi)"
      using run es 3 by (auto split: option.splits)
    let ?s = "\<lambda>ys. if length ys > 1 then pg_qsort es cmp ys else Some ys"
    obtain lo' hi' where r: "?s lo = Some lo'" "?s hi = Some hi'" "ys = lo' @ mid @ hi'"
      using run es 3 p by (simp split: option.splits if_splits)
    obtain v where v: "\<forall>x \<in> set lo. cmp x v < 0" "\<forall>x \<in> set mid. cmp x v = 0" "\<forall>x \<in> set hi. cmp x v > 0"
      "mset lo + mset mid + mset hi = mset xs"
      using split_parts_spec [OF p pos cmp_refl] by blast
    have "sorts cmp lo lo'" "sorts cmp hi hi'"
      using r less.hyps [of lo lo'] less.hyps [of hi hi'] es split_parts_smaller [OF p pos] sorts_short
      by (auto split: if_splits)
    then show ?thesis using sorts_join v r(3) by blast
  qed
qed

end

lemma pg_qsort_returns: "fits_int es (length xs) \<Longrightarrow> \<exists>ys. pg_qsort es cmp xs = Some ys"
proof (induction "length xs" arbitrary: xs rule: less_induct)
  case less
  show ?case
  proof (cases "length xs < 7 \<or> presorted cmp xs 1")
    case True
    then show ?thesis by (auto simp: pg_qsort.simps [of es cmp xs])
  next
    case False
    then have pos: "0 < length xs" by auto
    obtain lo mid hi where p: "split_parts es cmp xs = Some (lo, mid, hi)" by (rule split_parts_fits [OF less.prems pos])
    note small = split_parts_smaller [OF p pos]
    have "fits_int es (length lo)" "fits_int es (length hi)" using small by (auto intro: fits_int_mono [OF less.prems])
    then obtain lo' hi' where "pg_qsort es cmp lo = Some lo'" "pg_qsort es cmp hi = Some hi'"
      using less.hyps small by blast
    then show ?thesis using p by (simp add: pg_qsort.simps [of es cmp xs])
  qed
qed

subsection \<open>Properties\<close>

text \<open>
  C11. \<open>pg_qsort\<close>, with its insertion sort for short arrays, its check for sorted input, its pivot choice and its
  three-way partition, sorts every array of less than 2 GB (number of elements times element size at most \<^verbatim>\<open>INT_MAX\<close>) under
  every consistent comparator: it ends without a byte distance that exceeds an \<^verbatim>\<open>int\<close>, and the result has the same
  elements, each as often as before, in ascending order. A larger array is sorted too if no byte distance that comes up exceeds
  an \<^verbatim>\<open>int\<close>.
\<close>

theorem pg_qsort_correct:
  assumes "comparator cmp" and "0 < es"
  shows "(int (length xs * es) \<le> INT_MAX \<longrightarrow> pg_qsort es cmp xs \<noteq> None) \<and>
    (\<forall>ys. pg_qsort es cmp xs = Some ys \<longrightarrow> mset ys = mset xs \<and> sorted_wrt (\<lambda>a b. cmp a b \<le> 0) ys)"
  using comparator.qsort_sorts [OF assms(1) _ assms(2), of xs] pg_qsort_returns [of es xs cmp]
  by (auto simp: sorts_def fits_int_def)

theorem pg_qsort_correct_witness:
  "\<exists>ys. pg_qsort 8 (\<lambda>a b. a - b) [3, 1, 4, 1, 5, 9, 2, 6, 5 :: int] = Some ys \<and>
     mset ys = {#3, 1, 4, 1, 5, 9, 2, 6, 5#} \<and> sorted_wrt (\<lambda>a b. a - b \<le> 0) ys"
  using pg_qsort_correct [OF comparator_int_diff, of 8 "[3, 1, 4, 1, 5, 9, 2, 6, 5]"] by (auto simp: INT_MAX_def)

lemma qsort_arg_correct:
  assumes "comparator (\<lambda>a b. cmp a b arg)" and "0 < es" and "int (length xs * es) \<le> INT_MAX"
  obtains ys where "qsort_arg es cmp arg xs = Some ys" and "mset ys = mset xs" and "sorted_wrt (\<lambda>a b. cmp a b arg \<le> 0) ys"
  using comparator.qsort_sorts [OF assms(1) _ assms(2), of xs] pg_qsort_returns [of es xs "\<lambda>a b. cmp a b arg"] assms(3)
  by (auto simp: sorts_def qsort_arg_def fits_int_def)

end
