(* ===== verification/FsmPage.thy ===== *)
theory FsmPage
  imports Prelude
begin

text \<open>
  One page of the free space map: \<^verbatim>\<open>src/src/gausskernel/storage/freespace/fsmpage.cpp\<close>,
  with the struct of \<^verbatim>\<open>src/src/include/storage/fsm_internals.h\<close>. A page holds a binary
  tree in an array of bytes; the leaves are the slots, and every inner node is the maximum of its
  children. The sizes are those of the default build: a block of 8192 bytes, a page header of 24
  bytes and a four-byte \<open>fp_next_slot\<close>. The array has fewer leaves than a full binary tree
  of its depth, so some inner nodes have one child or none.
\<close>

subsection \<open>Data\<close>

definition NodesPerPage :: nat where
  "NodesPerPage = 8192 - MAXALIGN 24 - 4"

definition NonLeafNodesPerPage :: nat where
  "NonLeafNodesPerPage = 8192 div 2 - 1"

definition LeafNodesPerPage :: nat where
  "LeafNodesPerPage = NodesPerPage - NonLeafNodesPerPage"

definition SlotsPerFSMPage :: nat where
  "SlotsPerFSMPage = LeafNodesPerPage"

lemma fsm_sizes: "NodesPerPage = 8164" "NonLeafNodesPerPage = 4095" "LeafNodesPerPage = 4069" "SlotsPerFSMPage = 4069"
  by (simp_all add: NodesPerPage_def NonLeafNodesPerPage_def LeafNodesPerPage_def SlotsPerFSMPage_def MAXALIGN_def)

record FSMPageData =
  fp_next_slot :: int
  fp_nodes :: "uint8 list"

definition leftchild :: "nat \<Rightarrow> nat" where
  "leftchild x = 2 * x + 1"

definition parentof :: "nat \<Rightarrow> nat" where
  "parentof x = (x - 1) div 2"

definition rightneighbor :: "nat \<Rightarrow> nat" where
  "rightneighbor x =
    (let x = x + 1
     in if (x + 1) AND x = 0 then parentof x else x)"

subsection \<open>Rebuilding the inner nodes\<close>

text \<open>The value that the children of an inner node give it.\<close>

definition rebuilt_value :: "uint8 list \<Rightarrow> nat \<Rightarrow> uint8" where
  "rebuilt_value nodes nodeno =
    (let lchild = leftchild nodeno; rchild = lchild + 1;
         newvalue = (if lchild < NodesPerPage then nodes ! lchild else 0)
     in if rchild < NodesPerPage then max newvalue (nodes ! rchild) else newvalue)"

text \<open>The loop from node \<open>n - 1\<close> down to the root.\<close>

fun rebuild_loop :: "nat \<Rightarrow> bool \<Rightarrow> uint8 list \<Rightarrow> bool \<times> uint8 list" where
  "rebuild_loop 0 changed nodes = (changed, nodes)"
| "rebuild_loop (Suc nodeno) changed nodes =
    (let newvalue = rebuilt_value nodes nodeno
     in if nodes ! nodeno \<noteq> newvalue
        then rebuild_loop nodeno True (nodes[nodeno := newvalue])
        else rebuild_loop nodeno changed nodes)"

definition fsm_rebuild_page :: "FSMPageData \<Rightarrow> bool \<times> FSMPageData" where
  "fsm_rebuild_page page =
    (let (changed, nodes) = rebuild_loop NonLeafNodesPerPage False (fp_nodes page)
     in (changed, page\<lparr>fp_nodes := nodes\<rparr>))"

subsection \<open>Reading and setting a slot\<close>

definition fsm_get_avail :: "FSMPageData \<Rightarrow> nat \<Rightarrow> uint8" where
  "fsm_get_avail page slot = fp_nodes page ! (NonLeafNodesPerPage + slot)"

definition fsm_get_max_avail :: "FSMPageData \<Rightarrow> uint8" where
  "fsm_get_max_avail page = fp_nodes page ! 0"

text \<open>The do-while loop that propagates a new value up from \<open>nodeno\<close>.\<close>

function propagate_loop :: "nat \<Rightarrow> uint8 list \<Rightarrow> uint8 list" where
  "propagate_loop nodeno nodes =
    (let nodeno = parentof nodeno; lchild = leftchild nodeno; rchild = lchild + 1;
         newvalue = nodes ! lchild;
         newvalue = (if rchild < NodesPerPage then max newvalue (nodes ! rchild) else newvalue);
         oldvalue = nodes ! nodeno
     in if oldvalue = newvalue then nodes
        else
          (let nodes = nodes[nodeno := newvalue]
           in if nodeno > 0 then propagate_loop nodeno nodes else nodes))"
  by pat_completeness auto
termination
  by (relation "measure fst") (auto simp: parentof_def)

declare propagate_loop.simps [simp del]

definition fsm_set_avail :: "FSMPageData \<Rightarrow> nat \<Rightarrow> uint8 \<Rightarrow> bool \<times> FSMPageData" where
  "fsm_set_avail page slot value =
    (let nodeno = NonLeafNodesPerPage + slot;
         oldvalue = fp_nodes page ! nodeno
     in if oldvalue = value \<and> value \<le> fp_nodes page ! 0 then (False, page)
        else
          (let page = page\<lparr>fp_nodes := propagate_loop nodeno ((fp_nodes page)[nodeno := value])\<rparr>;
               page = (if value > fp_nodes page ! 0 then snd (fsm_rebuild_page page) else page)
           in (True, page)))"

subsection \<open>Searching\<close>

text \<open>Climbing from the target until a node has enough space, or to the root.\<close>

lemma parentof_rightneighbor_less: "0 < x \<Longrightarrow> parentof (rightneighbor x) < x"
  by (auto simp: parentof_def rightneighbor_def Let_def)

function search_up :: "uint8 list \<Rightarrow> uint8 \<Rightarrow> nat \<Rightarrow> nat" where
  "search_up nodes minvalue nodeno =
    (if nodeno > 0 then
       (if nodes ! nodeno \<ge> minvalue then nodeno
        else search_up nodes minvalue (parentof (rightneighbor nodeno)))
     else nodeno)"
  by pat_completeness auto
termination
  by (relation "measure (\<lambda>(nodes, m, x). x)") (auto intro: parentof_rightneighbor_less)

text \<open>Descending to a leaf; \<open>None\<close> when neither child keeps the promise of its parent.\<close>

function search_down :: "uint8 list \<Rightarrow> uint8 \<Rightarrow> nat \<Rightarrow> nat option" where
  "search_down nodes minvalue nodeno =
    (if nodeno < NonLeafNodesPerPage then
       (let childnodeno = leftchild nodeno
        in if childnodeno < NodesPerPage \<and> nodes ! childnodeno \<ge> minvalue
           then search_down nodes minvalue childnodeno
           else
             (let childnodeno = childnodeno + 1
              in if childnodeno < NodesPerPage \<and> nodes ! childnodeno \<ge> minvalue
                 then search_down nodes minvalue childnodeno
                 else None))
     else Some nodeno)"
  by pat_completeness auto
termination
  by (relation "measure (\<lambda>(nodes, m, x). NonLeafNodesPerPage - x)") (auto simp: leftchild_def)

declare search_up.simps [simp del] search_down.simps [simp del]

definition search_target :: "FSMPageData \<Rightarrow> nat" where
  "search_target page =
    (let target = fp_next_slot page;
         target = (if target < 0 \<or> target \<ge> int LeafNodesPerPage then 0 else target)
     in nat target + NonLeafNodesPerPage)"

text \<open>
  The search with its restart after a repair. When the exclusive lock is not held yet, the lock
  is released and taken again before the repair, and other backends may change the page in
  between: \<open>env\<close> is what they do to it. \<open>None\<close> is a search that restarts for ever.
\<close>

partial_function (option) fsm_search_avail ::
  "(FSMPageData \<Rightarrow> FSMPageData) \<Rightarrow> FSMPageData \<Rightarrow> uint8 \<Rightarrow> bool \<Rightarrow> bool \<Rightarrow> (int \<times> FSMPageData) option" where
  "fsm_search_avail env page minvalue advancenext exclusive_lock_held =
    (if fp_nodes page ! 0 < minvalue then Some (-1, page)
     else
       (case search_down (fp_nodes page) minvalue (search_up (fp_nodes page) minvalue (search_target page)) of
          None \<Rightarrow>
            (let page = (if \<not> exclusive_lock_held then env page else page)
             in fsm_search_avail env (snd (fsm_rebuild_page page)) minvalue advancenext True)
        | Some nodeno \<Rightarrow>
            (let slot = int (nodeno - NonLeafNodesPerPage)
             in Some (slot, page\<lparr>fp_next_slot := slot + (if advancenext then 1 else 0)\<rparr>))))"

subsection \<open>Truncation\<close>

fun clear_loop :: "bool \<Rightarrow> uint8 list \<Rightarrow> bool \<times> uint8 list" where
  "clear_loop changed [] = (changed, [])"
| "clear_loop changed (x # xs) =
    (let (changed, ys) = clear_loop (if x \<noteq> 0 then True else changed) xs in (changed, 0 # ys))"

definition fsm_truncate_avail :: "FSMPageData \<Rightarrow> nat \<Rightarrow> bool \<times> FSMPageData" where
  "fsm_truncate_avail page nslots =
    (let first = NonLeafNodesPerPage + nslots;
         (changed, tail) = clear_loop False (drop first (fp_nodes page));
         page = page\<lparr>fp_nodes := take first (fp_nodes page) @ tail\<rparr>
     in if changed then (True, snd (fsm_rebuild_page page)) else (False, page))"

subsection \<open>The tree invariant\<close>

definition fsm_wf :: "FSMPageData \<Rightarrow> bool" where
  "fsm_wf page \<longleftrightarrow> length (fp_nodes page) = NodesPerPage"

definition tree_ok :: "uint8 list \<Rightarrow> bool" where
  "tree_ok nodes \<longleftrightarrow> (\<forall>x < NonLeafNodesPerPage. nodes ! x = rebuilt_value nodes x)"

definition fsm_ok :: "FSMPageData \<Rightarrow> bool" where
  "fsm_ok page \<longleftrightarrow> fsm_wf page \<and> tree_ok (fp_nodes page)"

lemma rebuilt_value_update:
  "k \<noteq> leftchild x \<Longrightarrow> k \<noteq> leftchild x + 1 \<Longrightarrow> rebuilt_value (nodes[k := v]) x = rebuilt_value nodes x"
  by (simp add: rebuilt_value_def Let_def)

lemma rebuilt_value_update_below: "k \<le> x \<Longrightarrow> rebuilt_value (nodes[k := v]) x = rebuilt_value nodes x"
  by (rule rebuilt_value_update) (auto simp: leftchild_def)

text \<open>The loop keeps the nodes from \<open>n\<close> on and puts those below in order.\<close>

lemma rebuild_loop_spec:
  assumes "\<forall>x. n \<le> x \<longrightarrow> x < NonLeafNodesPerPage \<longrightarrow> nodes ! x = rebuilt_value nodes x"
    and "n \<le> NonLeafNodesPerPage" "length nodes = NodesPerPage" "rebuild_loop n c nodes = (c', nodes')"
  shows "tree_ok nodes' \<and> length nodes' = NodesPerPage \<and> (\<forall>i \<ge> n. nodes' ! i = nodes ! i) \<and>
    (c' \<longleftrightarrow> c \<or> nodes' \<noteq> nodes)"
  using assms
proof (induction n arbitrary: c nodes)
  case 0
  then show ?case by (simp add: tree_ok_def)
next
  case (Suc n)
  let ?v = "rebuilt_value nodes n"
  have n: "n < length nodes" using Suc.prems by (simp add: fsm_sizes)
  show ?case
  proof (cases "nodes ! n = ?v")
    case True
    then have "\<forall>x. n \<le> x \<longrightarrow> x < NonLeafNodesPerPage \<longrightarrow> nodes ! x = rebuilt_value nodes x"
      using Suc.prems(1) by (metis Suc_leI le_neq_implies_less)
    with Suc True show ?thesis by (auto simp: Let_def)
  next
    case False
    let ?ns = "nodes[n := ?v]"
    have "\<forall>x. n \<le> x \<longrightarrow> x < NonLeafNodesPerPage \<longrightarrow> ?ns ! x = rebuilt_value ?ns x"
      using Suc.prems(1) n by (auto simp: rebuilt_value_update_below nth_list_update Suc_le_eq)
    with Suc.IH [of ?ns True] Suc.prems False
    have "tree_ok nodes' \<and> length nodes' = NodesPerPage \<and> (\<forall>i \<ge> n. nodes' ! i = ?ns ! i) \<and> c'"
      by (simp add: Let_def)
    moreover have "nodes' \<noteq> nodes" using calculation False n by (metis le_refl nth_list_update_eq)
    ultimately show ?thesis by auto
  qed
qed

lemma fsm_rebuild_page_spec:
  assumes "fsm_wf page"
  shows "fsm_ok (snd (fsm_rebuild_page page))"
    and "\<And>i. NonLeafNodesPerPage \<le> i \<Longrightarrow> fp_nodes (snd (fsm_rebuild_page page)) ! i = fp_nodes page ! i"
    and "fp_next_slot (snd (fsm_rebuild_page page)) = fp_next_slot page"
    and "fst (fsm_rebuild_page page) \<longleftrightarrow> snd (fsm_rebuild_page page) \<noteq> page"
proof -
  obtain c ns where r: "rebuild_loop NonLeafNodesPerPage False (fp_nodes page) = (c, ns)" by fastforce
  have s: "tree_ok ns \<and> length ns = NodesPerPage \<and> (\<forall>i \<ge> NonLeafNodesPerPage. ns ! i = fp_nodes page ! i) \<and>
    (c \<longleftrightarrow> False \<or> ns \<noteq> fp_nodes page)"
    by (rule rebuild_loop_spec [OF _ _ _ r]) (use assms in \<open>auto simp: fsm_wf_def\<close>)
  show "fsm_ok (snd (fsm_rebuild_page page))"
    and "\<And>i. NonLeafNodesPerPage \<le> i \<Longrightarrow> fp_nodes (snd (fsm_rebuild_page page)) ! i = fp_nodes page ! i"
    and "fp_next_slot (snd (fsm_rebuild_page page)) = fp_next_slot page"
    using s by (simp_all add: fsm_rebuild_page_def r fsm_ok_def fsm_wf_def)
  show "fst (fsm_rebuild_page page) \<longleftrightarrow> snd (fsm_rebuild_page page) \<noteq> page"
  proof -
    have "page\<lparr>fp_nodes := ns\<rparr> = page \<longleftrightarrow> ns = fp_nodes page" by (cases page) auto
    then show ?thesis using s by (simp add: fsm_rebuild_page_def r)
  qed
qed

lemma child_of_parent: "0 < p \<Longrightarrow> p = leftchild (parentof p) \<or> p = leftchild (parentof p) + 1"
  by (auto simp: leftchild_def parentof_def)

lemma propagate_loop_spec:
  assumes "0 < p" "p < NodesPerPage" "length nodes = NodesPerPage"
  shows "length (propagate_loop p nodes) = NodesPerPage \<and>
    (\<forall>i \<ge> NonLeafNodesPerPage. propagate_loop p nodes ! i = nodes ! i) \<and>
    ((\<forall>x < NonLeafNodesPerPage. x \<noteq> parentof p \<longrightarrow> nodes ! x = rebuilt_value nodes x) \<longrightarrow>
      tree_ok (propagate_loop p nodes))"
  using assms
proof (induction p nodes rule: propagate_loop.induct)
  case (1 p nodes)
  let ?q = "parentof p" and ?v = "rebuilt_value nodes (parentof p)"
  let ?ns = "nodes[?q := ?v]"
  have q: "?q < NonLeafNodesPerPage" "?q < p" "leftchild ?q < NodesPerPage"
    using 1(2,3) child_of_parent [of p] by (auto simp: parentof_def fsm_sizes)
  have v: "?v = (if leftchild ?q + 1 < NodesPerPage then max (nodes ! leftchild ?q) (nodes ! (leftchild ?q + 1))
      else nodes ! leftchild ?q)"
    using q(3) by (simp add: rebuilt_value_def Let_def)
  have eq: "propagate_loop p nodes =
      (if nodes ! ?q = ?v then nodes else if 0 < ?q then propagate_loop ?q ?ns else ?ns)"
    unfolding propagate_loop.simps [of p nodes] v Let_def by auto
  have ns: "length ?ns = NodesPerPage" "\<forall>i \<ge> NonLeafNodesPerPage. ?ns ! i = nodes ! i"
    using 1(4) q(1) by auto
  have okq: "\<forall>x < NonLeafNodesPerPage. x \<noteq> parentof ?q \<or> ?q = 0 \<longrightarrow> ?ns ! x = rebuilt_value ?ns x"
    if ok: "\<forall>x < NonLeafNodesPerPage. x \<noteq> ?q \<longrightarrow> nodes ! x = rebuilt_value nodes x"
  proof (intro allI impI)
    fix x assume x: "x < NonLeafNodesPerPage" "x \<noteq> parentof ?q \<or> ?q = 0"
    show "?ns ! x = rebuilt_value ?ns x"
    proof (cases "x = ?q")
      case True
      then show ?thesis using rebuilt_value_update_below [of ?q ?q nodes ?v] 1(4) q by (simp add: fsm_sizes)
    next
      case False
      have "rebuilt_value ?ns x = rebuilt_value nodes x"
        using x(2) by (intro rebuilt_value_update) (auto simp: leftchild_def parentof_def)
      then show ?thesis using ok x False by simp
    qed
  qed
  show ?case
  proof (cases "nodes ! ?q = ?v")
    case True
    then have "(\<forall>x < NonLeafNodesPerPage. x \<noteq> ?q \<longrightarrow> nodes ! x = rebuilt_value nodes x) \<longrightarrow> tree_ok nodes"
      unfolding tree_ok_def by metis
    then show ?thesis using True 1(4) by (simp add: eq)
  next
    case False
    show ?thesis
    proof (cases "0 < ?q")
      case True
      have "length (propagate_loop ?q ?ns) = NodesPerPage \<and>
        (\<forall>i \<ge> NonLeafNodesPerPage. propagate_loop ?q ?ns ! i = ?ns ! i) \<and>
        ((\<forall>x < NonLeafNodesPerPage. x \<noteq> parentof ?q \<longrightarrow> ?ns ! x = rebuilt_value ?ns x) \<longrightarrow>
          tree_ok (propagate_loop ?q ?ns))"
        using 1(1) False True q 1(3,4) v by (simp add: Let_def)
      then show ?thesis using False True ns okq by (simp add: eq)
    next
      case root: False
      then show ?thesis using False ns okq by (simp add: eq tree_ok_def)
    qed
  qed
qed

subsection \<open>Nodes and the leaves below them\<close>

text \<open>
  \<open>at_height k x\<close>: node \<open>x\<close> lies \<open>k\<close> levels above the leaf level. Its leaves, the
  missing ones included, are the indices from \<open>first_leaf k x\<close> up to \<open>first_leaf k (x + 1)\<close>.
\<close>

definition first_leaf :: "nat \<Rightarrow> nat \<Rightarrow> nat" where
  "first_leaf k x = 2 ^ k * (x + 1) - 1"

definition at_height :: "nat \<Rightarrow> nat \<Rightarrow> bool" where
  "at_height k x \<longleftrightarrow> 2 ^ 12 \<le> 2 ^ k * (x + 1) \<and> 2 ^ k * (x + 1) < 2 ^ 13"

lemma first_leaf_0 [simp]: "first_leaf 0 x = x"
  by (simp add: first_leaf_def)

lemma first_leaf_Suc: "first_leaf (Suc k) x = first_leaf k (leftchild x)"
  by (simp add: first_leaf_def leftchild_def algebra_simps)

lemma at_height_Suc: "at_height (Suc k) x \<longleftrightarrow> at_height k (leftchild x)"
  by (simp add: at_height_def leftchild_def algebra_simps)

lemma at_height_0: "at_height 0 x \<longleftrightarrow> 4095 \<le> x \<and> x < 8191"
  by (auto simp: at_height_def)

lemma at_height_right:
  assumes "at_height k (leftchild x)"
  shows "at_height k (leftchild x + 1)"
proof -
  have "k \<le> 12"
  proof (rule ccontr)
    assume "\<not> k \<le> 12"
    then have "(2 :: nat) ^ 13 \<le> 2 ^ k" by (intro power_increasing) auto
    then show False using assms unfolding at_height_def leftchild_def by (simp add: algebra_simps)
  qed
  then obtain m where "12 = k + m" using le_Suc_ex by blast
  then have "(2 :: nat) ^ 13 = 2 ^ k * (2 * 2 ^ m)" by (simp add: power_add [symmetric])
  then have top: "at_height k y \<longleftrightarrow> 2 ^ 12 \<le> 2 ^ k * (y + 1) \<and> y + 1 < 2 * 2 ^ m" for y
    unfolding at_height_def by (simp only: mult_less_cancel1) simp
  then have "2 * x + 2 < 2 * 2 ^ m" using assms unfolding leftchild_def by simp
  then have "2 * x + 3 < 2 * 2 ^ m" by presburger
  moreover have "2 ^ k * (leftchild x + 1) \<le> 2 ^ k * (leftchild x + 1 + 1)" by (intro mult_le_mono) simp_all
  ultimately show ?thesis using assms top by (simp add: leftchild_def)
qed

lemma at_height_pos_inner: "at_height (Suc k) x \<Longrightarrow> x < 4095"
proof -
  assume "at_height (Suc k) x"
  then have "2 ^ k * (x + 1) < 4096" by (simp add: at_height_def)
  moreover have "1 * (x + 1) \<le> 2 ^ k * (x + 1)" by (intro mult_le_mono) simp_all
  ultimately have "x + 1 < 4096" unfolding mult_1 by (rule le_less_trans [rotated])
  then show ?thesis by simp
qed

lemma first_leaf_mono: "x \<le> y \<Longrightarrow> first_leaf k x \<le> first_leaf k y"
  unfolding first_leaf_def by (intro diff_le_mono mult_le_mono) simp_all

lemma ex_range_split:
  fixes a b c :: nat
  assumes "a \<le> b" "b \<le> c"
  shows "(\<exists>i. a \<le> i \<and> i < b \<and> P i) \<or> (\<exists>i. b \<le> i \<and> i < c \<and> P i) \<longleftrightarrow> (\<exists>i. a \<le> i \<and> i < c \<and> P i)"
  using assms by (meson not_less order_trans less_le_trans)

text \<open>In a tree in order, a node promises exactly what one of its leaves can give.\<close>

lemma tree_node_iff:
  assumes "tree_ok nodes" "0 < m"
  shows "at_height k x \<Longrightarrow> x < NodesPerPage \<Longrightarrow>
    m \<le> nodes ! x \<longleftrightarrow> (\<exists>i. first_leaf k x \<le> i \<and> i < first_leaf k (x + 1) \<and> i < NodesPerPage \<and> m \<le> nodes ! i)"
proof (induction k arbitrary: x)
  case 0
  then show ?case by (auto simp: le_less_Suc_eq)
next
  case (Suc k)
  let ?l = "leftchild x"
  let ?below = "\<lambda>x. \<exists>i. first_leaf k x \<le> i \<and> i < first_leaf k (x + 1) \<and> i < NodesPerPage \<and> m \<le> nodes ! i"
  have h: "at_height k ?l" "at_height k (?l + 1)" using Suc.prems at_height_Suc at_height_right by auto
  have child: "(c < NodesPerPage \<and> m \<le> nodes ! c) \<longleftrightarrow> ?below c" if c: "at_height k c" for c
  proof (cases "c < NodesPerPage")
    case True
    then show ?thesis using Suc.IH [OF c True] by blast
  next
    case False
    then have "k = 0" using c at_height_pos_inner by (cases k) (fastforce simp: fsm_sizes)+
    with False show ?thesis by (auto simp: le_less_Suc_eq)
  qed
  have "x < NonLeafNodesPerPage" using at_height_pos_inner Suc.prems(1) by (simp add: fsm_sizes)
  then have "m \<le> nodes ! x \<longleftrightarrow> m \<le> rebuilt_value nodes x" using assms(1) by (simp add: tree_ok_def)
  also have "\<dots> \<longleftrightarrow> ?below ?l \<or> ?below (?l + 1)"
    unfolding child [OF h(1), symmetric] child [OF h(2), symmetric]
    using assms(2) by (auto simp: rebuilt_value_def Let_def le_max_iff_disj not_le)
  also have "\<dots> \<longleftrightarrow> (\<exists>i. first_leaf k ?l \<le> i \<and> i < first_leaf k (?l + 2) \<and> i < NodesPerPage \<and> m \<le> nodes ! i)"
    using ex_range_split [OF first_leaf_mono [of ?l "?l + 1" k] first_leaf_mono [of "?l + 1" "?l + 2" k]] by simp
  finally show ?case by (simp add: first_leaf_Suc leftchild_def)
qed

lemma at_height_root: "at_height 12 0" "first_leaf 12 0 = 4095" "first_leaf 12 1 = 8191"
  by (simp_all add: at_height_def first_leaf_def)

lemma root_iff:
  assumes "tree_ok nodes" "0 < m"
  shows "m \<le> nodes ! 0 \<longleftrightarrow> (\<exists>i. NonLeafNodesPerPage \<le> i \<and> i < NodesPerPage \<and> m \<le> nodes ! i)"
  using tree_node_iff [OF assms at_height_root(1)] at_height_root by (auto simp: fsm_sizes)

text \<open>The descent finds the leftmost leaf that is good enough.\<close>

lemma search_down_first:
  assumes "tree_ok nodes" "0 < m"
  shows "at_height k x \<Longrightarrow> x < NodesPerPage \<Longrightarrow> m \<le> nodes ! x \<Longrightarrow>
    \<exists>i. search_down nodes m x = Some i \<and> first_leaf k x \<le> i \<and> i < first_leaf k (x + 1) \<and> i < NodesPerPage \<and>
      m \<le> nodes ! i \<and> (\<forall>j. first_leaf k x \<le> j \<longrightarrow> j < i \<longrightarrow> nodes ! j < m)"
proof (induction k arbitrary: x)
  case 0
  then show ?case by (simp add: search_down.simps [of nodes m x] fsm_sizes at_height_0)
next
  case (Suc k)
  let ?l = "leftchild x"
  have x: "x < NonLeafNodesPerPage" using at_height_pos_inner Suc.prems(1) by (simp add: fsm_sizes)
  have h: "at_height k ?l" "at_height k (?l + 1)" using Suc.prems at_height_Suc at_height_right by auto
  have ends: "first_leaf (Suc k) x = first_leaf k ?l" "first_leaf (Suc k) (x + 1) = first_leaf k (?l + 2)"
    "first_leaf k ?l \<le> first_leaf k (?l + 1)" "first_leaf k (?l + 1) \<le> first_leaf k (?l + 2)"
    by (simp_all add: first_leaf_Suc first_leaf_mono) (simp add: leftchild_def)
  show ?case
  proof (cases "?l < NodesPerPage \<and> m \<le> nodes ! ?l")
    case True
    then have "search_down nodes m x = search_down nodes m ?l"
      using x by (simp add: search_down.simps [of nodes m x] Let_def)
    moreover obtain i where i: "search_down nodes m ?l = Some i" "first_leaf k ?l \<le> i" "i < first_leaf k (?l + 1)"
      "i < NodesPerPage" "m \<le> nodes ! i" "\<forall>j. first_leaf k ?l \<le> j \<longrightarrow> j < i \<longrightarrow> nodes ! j < m"
      using Suc.IH [OF h(1)] True by blast
    ultimately show ?thesis unfolding ends(1,2) using less_le_trans [OF i(3) ends(4)] by metis
  next
    case False
    have "m \<le> rebuilt_value nodes x" using assms(1) x Suc.prems(3) by (simp add: tree_ok_def)
    then have r: "?l + 1 < NodesPerPage" "m \<le> nodes ! (?l + 1)"
      using False leD [of m 0] assms(2)
      by (simp_all add: rebuilt_value_def Let_def le_max_iff_disj split: if_splits)
    then have l: "\<not> m \<le> nodes ! ?l" "?l < NodesPerPage" using False by auto
    have left: "nodes ! j < m" if "first_leaf k ?l \<le> j" "j < first_leaf k (?l + 1)" "j < NodesPerPage" for j
      using that l tree_node_iff [OF assms h(1) l(2)] by (meson not_le)
    have down: "search_down nodes m x = search_down nodes m (?l + 1)"
      using x False r by (simp add: search_down.simps [of nodes m x] Let_def)
    obtain i where i: "search_down nodes m (?l + 1) = Some i" "first_leaf k (?l + 1) \<le> i"
      "i < first_leaf k (?l + 2)" "i < NodesPerPage" "m \<le> nodes ! i"
      and right: "\<And>j. first_leaf k (?l + 1) \<le> j \<Longrightarrow> j < i \<Longrightarrow> nodes ! j < m"
      using Suc.IH [OF h(2) r] by auto
    have "nodes ! j < m" if "first_leaf k ?l \<le> j" "j < i" for j
      using that left [of j] right [of j] i(4) by (cases "j < first_leaf k (?l + 1)") simp_all
    then show ?thesis
      unfolding down ends(1,2) using i(1,3-5) order_trans [OF ends(3) i(2)] by blast
  qed
qed

subsection \<open>The climb\<close>

lemma succ_and_eq_zero_iff:
  "2 ^ d \<le> y \<Longrightarrow> y < 2 ^ Suc d \<Longrightarrow> (y + 1) AND y = (0 :: nat) \<longleftrightarrow> y + 1 = 2 ^ Suc d"
proof (induction d arbitrary: y)
  case 0
  then have "y = 1" by simp
  then show ?case by simp
next
  case (Suc d)
  define z where "z = y div 2"
  have z: "2 ^ d \<le> z" "z < 2 ^ Suc d" using Suc.prems by (auto simp: z_def)
  show ?case
  proof (cases "even y")
    case True
    then have y: "y = 2 * z" by (simp add: z_def)
    have "(2 * z + 1) AND 2 * z = 2 * z"
    proof (rule bit_eqI)
      fix n show "bit ((2 * z + 1) AND 2 * z) n = bit (2 * z) n"
        unfolding bit_and_iff by (cases n) (simp_all add: bit_0 bit_Suc)
    qed
    moreover have "2 * z + 1 \<noteq> 2 ^ Suc (Suc d)" by (metis even_mult_iff even_numeral even_plus_one_iff power_Suc)
    ultimately show ?thesis using z y by simp
  next
    case False
    then have y: "y = 2 * z + 1" by (simp add: z_def)
    have "2 * (z + 1) AND (2 * z + 1) = 2 * ((z + 1) AND z)"
    proof (rule bit_eqI)
      fix n show "bit (2 * (z + 1) AND (2 * z + 1)) n = bit (2 * ((z + 1) AND z)) n"
        unfolding bit_and_iff by (cases n) (simp_all add: bit_0 bit_Suc bit_and_iff)
    qed
    then have "(y + 1) AND y = 0 \<longleftrightarrow> (z + 1) AND z = 0" by (simp add: y)
    moreover have "z + 1 = 2 ^ Suc d \<longleftrightarrow> y + 1 = 2 ^ Suc (Suc d)" by (simp add: y) presburger
    ultimately show ?thesis using Suc.IH [OF z] by simp
  qed
qed

text \<open>
  \<open>rightneighbor\<close> is the next node of the level, and the first node of the level after the
  last one.
\<close>

lemma at_height_iff:
  assumes "k + m = 12"
  shows "at_height k x \<longleftrightarrow> 2 ^ m \<le> x + 1 \<and> x + 1 < 2 * 2 ^ m"
proof -
  have e: "(2 :: nat) ^ 12 = 2 ^ k * 2 ^ m" "(2 :: nat) ^ 13 = 2 ^ k * (2 * 2 ^ m)"
    using assms by (simp_all add: power_add [symmetric])
  show ?thesis unfolding at_height_def e by (simp only: mult_le_cancel1 mult_less_cancel1) simp
qed

lemma at_height_level:
  assumes "at_height k x" "k \<le> 12"
  shows "2 ^ (12 - k) \<le> x + 1" "x + 1 < 2 ^ Suc (12 - k)"
  using assms at_height_iff [of k "12 - k" x] by simp_all

lemma rightneighbor_eq:
  assumes "at_height k x" "k \<le> 12"
  shows "rightneighbor x = (if x + 2 = 2 ^ Suc (12 - k) then 2 ^ (12 - k) - 1 else x + 1)"
  using succ_and_eq_zero_iff [OF at_height_level [OF assms]]
  by (simp add: rightneighbor_def Let_def parentof_def) (auto simp: algebra_simps)

text \<open>
  One step up: the new node's leaves begin right after those of the old one or with them, or, when
  the old node was the last of its level, at the first leaf of the page.
\<close>

lemma climb_step:
  assumes h: "at_height k x" "k < 12" "0 < x"
  shows "at_height (Suc k) (parentof (rightneighbor x))"
    and "first_leaf (Suc k) (parentof (rightneighbor x)) = first_leaf k x \<or>
         even x \<and> first_leaf (Suc k) (parentof (rightneighbor x)) = first_leaf k (x + 1) \<or>
         first_leaf (Suc k) (parentof (rightneighbor x)) = 4095 \<and> first_leaf k (x + 1) = 8191"
proof -
  let ?n = "12 - k"
  obtain n where n: "?n = Suc n" "k + Suc n = 12" using h(2) by (metis Suc_diff_Suc le_add_diff_inverse less_imp_le minus_nat.diff_0 zero_less_diff gr0_conv_Suc)
  have e: "(2 :: nat) ^ 12 = 2 ^ Suc k * 2 ^ n" "(2 :: nat) ^ 13 = 2 ^ Suc k * (2 * 2 ^ n)"
    using n(2) by (simp_all add: power_add [symmetric])
  have lev: "2 * 2 ^ n \<le> x + 1" "x + 1 < 4 * 2 ^ n" using at_height_level [OF h(1)] h(2) n(1) by simp_all
  have r: "rightneighbor x = (if x + 2 = 4 * 2 ^ n then 2 * 2 ^ n - 1 else x + 1)"
    using rightneighbor_eq [OF h(1)] h(2) n(1) by simp
  have up: "at_height (Suc k) y \<longleftrightarrow> 2 ^ n \<le> y + 1 \<and> y + 1 < 2 * 2 ^ n" for y
    using at_height_iff [of "Suc k" n] n(2) by simp
  let ?p = "parentof (rightneighbor x)"
  consider "x + 2 = 4 * 2 ^ n" | "x + 2 \<noteq> 4 * 2 ^ n" "odd x" | "x + 2 \<noteq> 4 * 2 ^ n" "even x" by blast
  then have "at_height (Suc k) ?p \<and> (first_leaf (Suc k) ?p = first_leaf k x \<or>
      even x \<and> first_leaf (Suc k) ?p = first_leaf k (x + 1) \<or>
      first_leaf (Suc k) ?p = 4095 \<and> first_leaf k (x + 1) = 8191)"
  proof cases
    case 1
    have "0 < (2 :: nat) ^ n" by simp
    then have p: "?p + 1 = 2 ^ n" using 1 by (simp add: r parentof_def)
    have "first_leaf (Suc k) ?p = 2 ^ 12 - 1" unfolding first_leaf_def p e by simp
    moreover have "first_leaf k (x + 1) = 2 ^ 13 - 1"
      using 1 unfolding first_leaf_def e by simp
    ultimately show ?thesis using p up [of ?p] by simp
  next
    case 2
    then obtain z where "x = 2 * z + 1" using oddE by blast
    moreover from this have "?p = z" using 2(1) unfolding r by (simp add: parentof_def)
    ultimately show ?thesis using 2 lev up [of z] by (simp add: first_leaf_Suc leftchild_def)
  next
    case 3
    then obtain z where "x = 2 * z" by (auto elim: evenE)
    moreover from this have "?p = z" using 3(1) unfolding r by (simp add: parentof_def)
    ultimately show ?thesis using 3 lev up [of z] by (simp add: first_leaf_Suc leftchild_def)
  qed
  then show "at_height (Suc k) ?p"
    and "first_leaf (Suc k) ?p = first_leaf k x \<or> even x \<and> first_leaf (Suc k) ?p = first_leaf k (x + 1) \<or>
         first_leaf (Suc k) ?p = 4095 \<and> first_leaf k (x + 1) = 8191" by blast+
qed

text \<open>
  The invariant of the climb from target \<open>t\<close>: no leaf from \<open>t\<close> up to the current triangle
  is good enough, where the triangle may already have wrapped around to the first leaf.
\<close>

definition climbed :: "uint8 list \<Rightarrow> uint8 \<Rightarrow> nat \<Rightarrow> nat \<Rightarrow> bool" where
  "climbed nodes m t a \<longleftrightarrow>
    t \<le> a \<and> (\<forall>i. t \<le> i \<longrightarrow> i < a \<longrightarrow> i < NodesPerPage \<longrightarrow> nodes ! i < m) \<or>
    a = 4095 \<and> (\<forall>i. t \<le> i \<longrightarrow> i < NodesPerPage \<longrightarrow> nodes ! i < m)"

lemma search_up_spec:
  assumes ok: "tree_ok nodes" "0 < m" "m \<le> nodes ! 0"
  shows "at_height k x \<Longrightarrow> k \<le> 12 \<Longrightarrow> x < NodesPerPage \<Longrightarrow> climbed nodes m t (first_leaf k x) \<Longrightarrow>
    \<exists>k' r. search_up nodes m x = r \<and> at_height k' r \<and> r < NodesPerPage \<and> m \<le> nodes ! r \<and>
      climbed nodes m t (first_leaf k' r)"
proof (induction x arbitrary: k rule: less_induct)
  case (less x)
  show ?case
  proof (cases "x = 0 \<or> m \<le> nodes ! x")
    case True
    then have "search_up nodes m x = x" by (auto simp: search_up.simps [of nodes m x])
    then show ?thesis using True less.prems ok(3) by auto
  next
    case False
    let ?p = "parentof (rightneighbor x)" and ?a = "first_leaf k x" and ?b = "first_leaf k (x + 1)"
    have k: "k < 12" using False less.prems(1,2) at_height_iff [of 12 0 x] by (cases "k = 12") auto
    have c: "at_height (Suc k) ?p" and "?p < x"
      using climb_step(1) [OF less.prems(1) k] parentof_rightneighbor_less False by auto
    have bad: "nodes ! i < m" if "?a \<le> i" "i < ?b" "i < NodesPerPage" for i
      using that False tree_node_iff [OF ok(1,2) less.prems(1,3)] by (meson not_le)
    have "?a \<le> ?b" by (rule first_leaf_mono) simp
    have "climbed nodes m t (first_leaf (Suc k) ?p)"
    proof -
      have edge: "odd x" if "?a = 4095"
      proof -
        have "2 ^ k * (x + 1) = 2 ^ k * 2 ^ (12 - k)"
          using that k by (simp add: first_leaf_def power_add [symmetric])
        then have "x + 1 = 2 ^ (12 - k)" by (simp only: mult_cancel1) simp
        then show ?thesis using k by (metis even_add even_power even_numeral odd_one zero_less_diff)
      qed
      have upto: "t \<le> ?b \<and> (\<forall>i. t \<le> i \<longrightarrow> i < ?b \<longrightarrow> i < NodesPerPage \<longrightarrow> nodes ! i < m) \<or>
          ?a = 4095 \<and> (\<forall>i. t \<le> i \<longrightarrow> i < NodesPerPage \<longrightarrow> nodes ! i < m)"
        using less.prems(4) bad \<open>?a \<le> ?b\<close> unfolding climbed_def by (meson le_trans not_le)
      from climb_step(2) [OF less.prems(1) k] False
      consider "first_leaf (Suc k) ?p = ?a" | "even x" "first_leaf (Suc k) ?p = ?b"
        | "first_leaf (Suc k) ?p = 4095" "?b = 8191" by blast
      then show ?thesis
      proof cases
        case 1
        then show ?thesis using less.prems(4) by simp
      next
        case 2
        then show ?thesis using upto edge unfolding climbed_def by auto
      next
        case 3
        then have "i < NodesPerPage \<Longrightarrow> i < ?b" for i by (simp add: fsm_sizes)
        then show ?thesis using upto 3 unfolding climbed_def by blast
      qed
    qed
    moreover have "?p < NodesPerPage" using \<open>?p < x\<close> less.prems(3) by simp
    moreover have "search_up nodes m x = search_up nodes m ?p" using False by (simp add: search_up.simps [of nodes m x])
    ultimately show ?thesis using less.IH [OF \<open>?p < x\<close> c] k by simp
  qed
qed

subsection \<open>Specifications of the operations\<close>

text \<open>The distance from slot \<open>t\<close> to slot \<open>j\<close>, going right and wrapping around.\<close>

definition slot_dist :: "nat \<Rightarrow> nat \<Rightarrow> nat" where
  "slot_dist t j = (j + LeafNodesPerPage - t) mod LeafNodesPerPage"

lemma slot_dist_eq:
  "t < LeafNodesPerPage \<Longrightarrow> j < LeafNodesPerPage \<Longrightarrow>
   slot_dist t j = (if t \<le> j then j - t else j + LeafNodesPerPage - t)"
  by (auto simp: slot_dist_def mod_if)

definition hint_slot :: "FSMPageData \<Rightarrow> nat" where
  "hint_slot page = search_target page - NonLeafNodesPerPage"

lemma hint_slot_less: "hint_slot page < LeafNodesPerPage" "search_target page = NonLeafNodesPerPage + hint_slot page"
  by (auto simp: hint_slot_def search_target_def Let_def fsm_sizes)

lemma search_in_order:
  assumes ok: "fsm_ok page" and m: "0 < m" "m \<le> fp_nodes page ! 0"
  shows "\<exists>s. search_down (fp_nodes page) m (search_up (fp_nodes page) m (search_target page)) = Some (NonLeafNodesPerPage + s) \<and>
    s < LeafNodesPerPage \<and> m \<le> fsm_get_avail page s \<and>
    (\<forall>j < LeafNodesPerPage. m \<le> fsm_get_avail page j \<longrightarrow> slot_dist (hint_slot page) s \<le> slot_dist (hint_slot page) j)"
proof -
  let ?n = "fp_nodes page" and ?t = "search_target page"
  have t: "tree_ok ?n" using ok by (simp add: fsm_ok_def)
  have "at_height 0 ?t" "?t < NodesPerPage" using hint_slot_less [of page] by (simp_all add: at_height_0 fsm_sizes)
  moreover have "climbed ?n m ?t (first_leaf 0 ?t)" by (simp add: climbed_def)
  ultimately obtain k r where r: "search_up ?n m ?t = r" "at_height k r" "r < NodesPerPage" "m \<le> ?n ! r"
    and c: "climbed ?n m ?t (first_leaf k r)"
    using search_up_spec [OF t m, of 0 ?t ?t] by auto
  obtain i where i: "search_down ?n m r = Some i" "first_leaf k r \<le> i" "i < NodesPerPage" "m \<le> ?n ! i"
    and first: "\<And>j. first_leaf k r \<le> j \<Longrightarrow> j < i \<Longrightarrow> ?n ! j < m"
    using search_down_first [OF t m(1) r(2-4)] by blast
  have "NonLeafNodesPerPage \<le> i" using i(2) r(2) unfolding at_height_def first_leaf_def fsm_sizes by simp linarith
  then obtain s where s: "i = NonLeafNodesPerPage + s" using le_Suc_ex by blast
  have sl: "s < LeafNodesPerPage" using i(3) s by (simp add: fsm_sizes)
  have "slot_dist (hint_slot page) s \<le> slot_dist (hint_slot page) j"
    if j: "j < LeafNodesPerPage" "m \<le> fsm_get_avail page j" for j
  proof (rule ccontr)
    let ?j = "NonLeafNodesPerPage + j"
    assume "\<not> ?thesis"
    then have d: "slot_dist (hint_slot page) j < slot_dist (hint_slot page) s" by simp
    have jn: "?j < NodesPerPage" "\<not> ?n ! ?j < m" using j by (simp_all add: fsm_sizes fsm_get_avail_def)
    from c consider "?t \<le> first_leaf k r" "\<forall>i. ?t \<le> i \<longrightarrow> i < first_leaf k r \<longrightarrow> i < NodesPerPage \<longrightarrow> ?n ! i < m"
      | "first_leaf k r = 4095" "\<forall>i. ?t \<le> i \<longrightarrow> i < NodesPerPage \<longrightarrow> ?n ! i < m"
      unfolding climbed_def by blast
    then show False
    proof cases
      case 1
      then have "?t \<le> i" using i(2) by simp
      then have "hint_slot page \<le> s" using s hint_slot_less(2) [of page] by simp
      then have "hint_slot page \<le> j" "j < s"
        using d j(1) sl hint_slot_less(1) [of page] by (auto simp: slot_dist_eq split: if_splits)
      then show False using 1(2) first [of ?j] jn s hint_slot_less(2) [of page] by (cases "?j < first_leaf k r") auto
    next
      case 2
      then have "\<not> ?t \<le> ?j" "\<not> ?t \<le> i" using jn i(3,4) leD by blast+
      then have "j < s" using d j(1) sl hint_slot_less [of page] s by (auto simp: slot_dist_eq split: if_splits)
      then show False using first [of ?j] jn s 2(1) by (simp add: fsm_sizes)
    qed
  qed
  then show ?thesis using i s sl r(1) by (auto simp: fsm_get_avail_def)
qed

lemma search_zero:
  "search_down nodes 0 (search_up nodes 0 (search_target page)) = Some (search_target page)"
  using hint_slot_less [of page]
  by (simp add: search_up.simps [of nodes 0] search_down.simps [of nodes 0] fsm_sizes word_zero_le)

lemma fsm_max_iff:
  assumes "fsm_ok page" "0 < m"
  shows "m \<le> fp_nodes page ! 0 \<longleftrightarrow> (\<exists>j < LeafNodesPerPage. m \<le> fsm_get_avail page j)"
proof
  assume "m \<le> fp_nodes page ! 0"
  then obtain i where "NonLeafNodesPerPage \<le> i" "i < NodesPerPage" "m \<le> fp_nodes page ! i"
    using root_iff [of "fp_nodes page" m] assms by (auto simp: fsm_ok_def)
  then show "\<exists>j < LeafNodesPerPage. m \<le> fsm_get_avail page j"
    by (intro exI [of _ "i - NonLeafNodesPerPage"]) (simp add: fsm_get_avail_def fsm_sizes)
next
  assume "\<exists>j < LeafNodesPerPage. m \<le> fsm_get_avail page j"
  then show "m \<le> fp_nodes page ! 0"
    using root_iff [of "fp_nodes page" m] assms by (auto simp: fsm_ok_def fsm_get_avail_def fsm_sizes)
qed

lemma search_ok_page:
  assumes ok: "fsm_ok page"
  shows "if \<exists>j < LeafNodesPerPage. m \<le> fsm_get_avail page j
    then \<exists>s < LeafNodesPerPage. m \<le> fsm_get_avail page s \<and>
      (\<forall>j < LeafNodesPerPage. m \<le> fsm_get_avail page j \<longrightarrow> slot_dist (hint_slot page) s \<le> slot_dist (hint_slot page) j) \<and>
      fsm_search_avail env page m adv ex = Some (int s, page\<lparr>fp_next_slot := int s + (if adv then 1 else 0)\<rparr>)
    else fsm_search_avail env page m adv ex = Some (-1, page)"
proof (cases "m = 0")
  case True
  have "fsm_search_avail env page m adv ex =
      Some (int (hint_slot page), page\<lparr>fp_next_slot := int (hint_slot page) + (if adv then 1 else 0)\<rparr>)"
    using True by (simp add: fsm_search_avail.simps [of env page] search_zero hint_slot_def Let_def)
  moreover have "\<exists>j < LeafNodesPerPage. m \<le> fsm_get_avail page j" "slot_dist (hint_slot page) (hint_slot page) = 0"
    using True hint_slot_less(1) [of page] by (auto simp: slot_dist_def word_zero_le)
  ultimately show ?thesis using True hint_slot_less(1) [of page] by (auto simp: word_zero_le)
next
  case False
  then have m: "0 < m" by (simp add: word_neq_0_conv)
  show ?thesis
  proof (cases "m \<le> fp_nodes page ! 0")
    case True
    obtain s where "search_down (fp_nodes page) m (search_up (fp_nodes page) m (search_target page)) = Some (NonLeafNodesPerPage + s)"
      "s < LeafNodesPerPage" "m \<le> fsm_get_avail page s"
      "\<forall>j < LeafNodesPerPage. m \<le> fsm_get_avail page j \<longrightarrow> slot_dist (hint_slot page) s \<le> slot_dist (hint_slot page) j"
      using search_in_order [OF ok m True] by blast
    then show ?thesis using leD [OF True] by (auto simp: fsm_search_avail.simps [of env page] Let_def)
  next
    case no: False
    then have "fsm_search_avail env page m adv ex = Some (-1, page)"
      by (simp add: fsm_search_avail.simps [of env page] not_le)
    moreover have "\<not> (\<exists>j < LeafNodesPerPage. m \<le> fsm_get_avail page j)" using no fsm_max_iff [OF ok m] by blast
    ultimately show ?thesis by simp
  qed
qed

text \<open>The loops on a page whose inner nodes may be wrong.\<close>

lemma search_up_any:
  "x < NodesPerPage \<Longrightarrow>
   search_up nodes m x = 0 \<or> m \<le> nodes ! search_up nodes m x \<and> search_up nodes m x < NodesPerPage"
proof (induction x rule: less_induct)
  case (less x)
  then show ?case
    using parentof_rightneighbor_less [of x] by (auto simp: search_up.simps [of nodes m x])
qed

lemma search_down_any:
  "search_down nodes m x = Some i \<Longrightarrow> x < NonLeafNodesPerPage \<or> m \<le> nodes ! x \<and> x < NodesPerPage \<Longrightarrow>
   NonLeafNodesPerPage \<le> i \<and> i < NodesPerPage \<and> m \<le> nodes ! i"
proof (induction nodes m x rule: search_down.induct)
  case (1 nodes m x)
  then show ?case
    by (subst (asm) (3) search_down.simps) (auto simp: Let_def split: if_splits)
qed

lemma search_any_page:
  assumes wf: "fsm_wf page" and env: "\<And>p. fsm_wf p \<Longrightarrow> fsm_wf (env p)"
  shows "\<exists>r page'. fsm_search_avail env page m adv ex = Some (r, page') \<and> fsm_wf page' \<and>
    (r = -1 \<or> (\<exists>s < LeafNodesPerPage. r = int s \<and> m \<le> fsm_get_avail page' s)) \<and>
    (ex \<or> env page = page \<longrightarrow> (\<forall>j < LeafNodesPerPage. fsm_get_avail page' j = fsm_get_avail page j))"
proof (cases "fp_nodes page ! 0 < m")
  case True
  then show ?thesis using wf by (simp add: fsm_search_avail.simps [of env page])
next
  case False
  let ?d = "search_down (fp_nodes page) m (search_up (fp_nodes page) m (search_target page))"
  show ?thesis
  proof (cases ?d)
    case (Some i)
    have "search_target page < NodesPerPage" using hint_slot_less [of page] by (simp add: fsm_sizes)
    then have "NonLeafNodesPerPage \<le> i \<and> i < NodesPerPage \<and> m \<le> fp_nodes page ! i"
      using search_down_any [OF Some] search_up_any [of "search_target page" "fp_nodes page" m]
      by (auto simp: fsm_sizes)
    then have "i - NonLeafNodesPerPage < LeafNodesPerPage \<and> m \<le> fsm_get_avail page (i - NonLeafNodesPerPage)"
      by (auto simp: fsm_get_avail_def fsm_sizes)
    then show ?thesis using False Some wf
      by (auto simp: fsm_search_avail.simps [of env page] Let_def fsm_wf_def fsm_get_avail_def)
  next
    case None
    define g where "g = snd (fsm_rebuild_page (if \<not> ex then env page else page))"
    have wf': "fsm_wf (if \<not> ex then env page else page)" using wf env by simp
    have ok: "fsm_ok g" unfolding g_def by (rule fsm_rebuild_page_spec(1) [OF wf'])
    have leaves: "ex \<or> env page = page \<longrightarrow> (\<forall>j < LeafNodesPerPage. fsm_get_avail g j = fsm_get_avail page j)"
      using fsm_rebuild_page_spec(2) [OF wf'] by (cases ex) (auto simp: g_def fsm_get_avail_def)
    have eq: "fsm_search_avail env page m adv ex = fsm_search_avail env g m adv True"
      using False None by (subst fsm_search_avail.simps) (simp add: g_def)
    show ?thesis
    proof (cases "\<exists>j < LeafNodesPerPage. m \<le> fsm_get_avail g j")
      case True
      then show ?thesis using search_ok_page [OF ok, of m env adv True] ok leaves unfolding eq
        by (auto simp: fsm_ok_def fsm_wf_def fsm_get_avail_def)
    next
      case False
      then have "fsm_search_avail env g m adv True = Some (-1, g)"
        using search_ok_page [OF ok, of m env adv True] by simp
      then show ?thesis using ok leaves unfolding eq by (simp add: fsm_ok_def)
    qed
  qed
qed

lemma set_avail_spec:
  assumes wf: "fsm_wf page" and slot: "slot < LeafNodesPerPage"
    and set: "fsm_set_avail page slot value = (changed, page')"
  shows "fsm_wf page'" "fp_next_slot page' = fp_next_slot page"
    and "\<And>j. j < LeafNodesPerPage \<Longrightarrow> fsm_get_avail page' j = (if j = slot then value else fsm_get_avail page j)"
    and "value \<le> fsm_get_max_avail page'"
    and "fsm_ok page \<Longrightarrow> fsm_ok page'"
    and "\<not> changed \<Longrightarrow> page' = page"
proof -
  let ?n = "NonLeafNodesPerPage + slot"
  show "\<not> changed \<Longrightarrow> page' = page" using set by (auto simp: fsm_set_avail_def Let_def split: if_splits)
  have all: "fsm_wf page' \<and> fp_next_slot page' = fp_next_slot page \<and>
    (\<forall>j < LeafNodesPerPage. fsm_get_avail page' j = (if j = slot then value else fsm_get_avail page j)) \<and>
    value \<le> fsm_get_max_avail page' \<and> (fsm_ok page \<longrightarrow> fsm_ok page')"
  proof (cases "fp_nodes page ! ?n = value \<and> value \<le> fp_nodes page ! 0")
    case True
    then have "page' = page" using set by (simp add: fsm_set_avail_def)
    then show ?thesis using True wf by (simp add: fsm_get_avail_def fsm_get_max_avail_def)
  next
    case False
    define ns where "ns = (fp_nodes page)[?n := value]"
    define g where "g = page\<lparr>fp_nodes := propagate_loop ?n ns\<rparr>"
    have n: "0 < ?n" "?n < NodesPerPage" "length ns = NodesPerPage"
      using wf slot by (simp_all add: fsm_sizes ns_def fsm_wf_def)
    note p = propagate_loop_spec [OF n]
    have gwf: "fsm_wf g" using p by (simp add: g_def fsm_wf_def)
    have leaf: "fp_nodes g ! (NonLeafNodesPerPage + j) = (if j = slot then value else fsm_get_avail page j)" for j
      using p n by (auto simp: g_def ns_def fsm_get_avail_def)
    have gok: "fsm_ok g" if "fsm_ok page"
    proof -
      have "\<forall>x < NonLeafNodesPerPage. x \<noteq> parentof ?n \<longrightarrow> ns ! x = rebuilt_value ns x"
      proof (intro allI impI)
        fix x assume x: "x < NonLeafNodesPerPage" "x \<noteq> parentof ?n"
        have "rebuilt_value ns x = rebuilt_value (fp_nodes page) x"
          unfolding ns_def using x by (intro rebuilt_value_update) (auto simp: leftchild_def parentof_def)
        then show "ns ! x = rebuilt_value ns x" using x that by (simp add: ns_def fsm_ok_def tree_ok_def)
      qed
      then show ?thesis using p gwf by (simp add: fsm_ok_def g_def)
    qed
    have page': "page' = (if value > fp_nodes g ! 0 then snd (fsm_rebuild_page g) else g)"
      using set False by (auto simp: fsm_set_avail_def Let_def g_def ns_def)
    show ?thesis
    proof (cases "value > fp_nodes g ! 0")
      case True
      note rb = fsm_rebuild_page_spec [OF gwf]
      have get: "fsm_get_avail page' j = (if j = slot then value else fsm_get_avail page j)" for j
        using True page' leaf rb(2) by (simp add: fsm_get_avail_def)
      have "value \<le> fp_nodes page' ! 0"
      proof (cases "value = 0")
        case False
        then have "0 < value" by (simp add: word_neq_0_conv)
        then show ?thesis using fsm_max_iff [OF rb(1), of "value"] True page' get [of slot] slot by auto
      qed (simp add: word_zero_le)
      then show ?thesis using True page' get rb by (simp add: fsm_ok_def fsm_get_max_avail_def g_def)
    next
      case False
      then have "page' = g" "value \<le> fp_nodes g ! 0" using page' by (simp_all add: not_less)
      then show ?thesis using leaf gwf gok by (auto simp: fsm_get_avail_def fsm_get_max_avail_def) (simp_all add: g_def)
    qed
  qed
  then show "fsm_wf page'" "fp_next_slot page' = fp_next_slot page"
    "\<And>j. j < LeafNodesPerPage \<Longrightarrow> fsm_get_avail page' j = (if j = slot then value else fsm_get_avail page j)"
    "value \<le> fsm_get_max_avail page'" "fsm_ok page \<Longrightarrow> fsm_ok page'"
    by blast+
qed

lemma clear_loop_eq: "clear_loop c xs = (c \<or> (\<exists>x \<in> set xs. x \<noteq> 0), replicate (length xs) 0)"
  by (induction xs arbitrary: c) auto

lemma truncate_spec:
  assumes wf: "fsm_wf page" and n: "nslots < LeafNodesPerPage"
    and tr: "fsm_truncate_avail page nslots = (changed, page')"
  shows "fsm_ok page \<Longrightarrow> fsm_ok page'"
    and "\<And>j. j < LeafNodesPerPage \<Longrightarrow> fsm_get_avail page' j = (if j < nslots then fsm_get_avail page j else 0)"
    and "changed \<longleftrightarrow> (\<exists>j. nslots \<le> j \<and> j < LeafNodesPerPage \<and> fsm_get_avail page j \<noteq> 0)"
proof -
  let ?f = "NonLeafNodesPerPage + nslots"
  let ?g = "page\<lparr>fp_nodes := take ?f (fp_nodes page) @ replicate (NodesPerPage - ?f) 0\<rparr>"
  have len: "length (fp_nodes page) = NodesPerPage" using wf by (simp add: fsm_wf_def)
  have f: "?f \<le> NodesPerPage" using n by (simp add: fsm_sizes)
  have wf: "fsm_wf ?g" using len f by (simp add: fsm_wf_def)
  have ch: "(\<exists>x \<in> set (drop ?f (fp_nodes page)). x \<noteq> 0) \<longleftrightarrow>
      (\<exists>j. nslots \<le> j \<and> j < LeafNodesPerPage \<and> fsm_get_avail page j \<noteq> 0)" (is "?l \<longleftrightarrow> ?r")
  proof
    assume ?l
    then obtain i where "i < NodesPerPage - ?f" "fp_nodes page ! (?f + i) \<noteq> 0"
      using len by (auto simp: in_set_conv_nth)
    then show ?r using f by (intro exI [of _ "nslots + i"]) (simp add: fsm_get_avail_def fsm_sizes add.assoc)
  next
    assume ?r
    then obtain j where "nslots \<le> j" "j < LeafNodesPerPage" "fp_nodes page ! (NonLeafNodesPerPage + j) \<noteq> 0"
      by (auto simp: fsm_get_avail_def)
    then show ?l using len f
      by (intro bexI [of _ "fp_nodes page ! (NonLeafNodesPerPage + j)"])
        (auto simp: in_set_conv_nth fsm_sizes intro!: exI [of _ "j - nslots"])
  qed
  have r: "changed = (\<exists>x \<in> set (drop ?f (fp_nodes page)). x \<noteq> 0)"
    "page' = (if changed then snd (fsm_rebuild_page ?g) else ?g)"
    using tr len by (auto simp: fsm_truncate_avail_def Let_def clear_loop_eq split: if_splits)
  show "changed \<longleftrightarrow> (\<exists>j. nslots \<le> j \<and> j < LeafNodesPerPage \<and> fsm_get_avail page j \<noteq> 0)" using r(1) ch by simp
  have same: "?g = page" if "\<not> changed"
  proof -
    have "drop ?f (fp_nodes page) = replicate (NodesPerPage - ?f) 0"
      using that r(1) len replicate_length_same [of "drop ?f (fp_nodes page)" 0] by simp
    then show ?thesis by (metis append_take_drop_id FSMPageData.surjective FSMPageData.update_convs(2) old.unit.exhaust)
  qed
  then show "fsm_ok page'" if "fsm_ok page" using r(2) that fsm_rebuild_page_spec(1) [OF wf] by auto
  fix j assume j: "j < LeafNodesPerPage"
  have "fp_nodes page' ! (NonLeafNodesPerPage + j) = fp_nodes ?g ! (NonLeafNodesPerPage + j)"
    unfolding r(2) using fsm_rebuild_page_spec(2) [OF wf] by simp
  then show "fsm_get_avail page' j = (if j < nslots then fsm_get_avail page j else 0)"
    using j len f by (simp add: fsm_get_avail_def nth_append fsm_sizes)
qed

subsection \<open>Properties\<close>

text \<open>
  C27. \<open>fsm_set_avail\<close> keeps the tree invariant, sets the given slot, leaves every other slot
  alone, and reports an unmodified page only when the page is unmodified. Even on a page whose
  inner nodes were wrong, the root promises at least the new value afterwards.
\<close>

theorem fsm_set_avail_correct:
  assumes "fsm_wf page" and "slot < LeafNodesPerPage" and "fsm_set_avail page slot val = (changed, page')"
  shows "(fsm_ok page \<longrightarrow> fsm_ok page') \<and>
    (\<forall>j < LeafNodesPerPage. fsm_get_avail page' j = (if j = slot then val else fsm_get_avail page j)) \<and>
    val \<le> fsm_get_max_avail page' \<and> (\<not> changed \<longrightarrow> page' = page)"
  using set_avail_spec [OF assms] by blast

theorem fsm_set_avail_correct_witness:
  "fsm_get_avail (snd (fsm_set_avail \<lparr>fp_next_slot = 0, fp_nodes = replicate NodesPerPage 0\<rparr> 7 9)) 7 = 9"
proof -
  let ?p = "\<lparr>fp_next_slot = 0, fp_nodes = replicate NodesPerPage 0\<rparr>"
  have "fsm_wf ?p" by (simp add: fsm_wf_def)
  moreover have "(7 :: nat) < LeafNodesPerPage" by (simp add: fsm_sizes)
  ultimately show ?thesis using fsm_set_avail_correct [of ?p 7 9] by (metis prod.collapse)
qed

text \<open>
  On a page in order the value at the root is the largest value of any slot.
\<close>

lemma fsm_root_is_max:
  assumes "fsm_ok page"
  shows "fsm_get_max_avail page = Max (fsm_get_avail page ` {..< LeafNodesPerPage})"
proof (rule sym, rule Max_eqI)
  show "finite (fsm_get_avail page ` {..< LeafNodesPerPage})" by simp
  have ge: "m \<le> fsm_get_max_avail page \<longleftrightarrow> (\<exists>j < LeafNodesPerPage. m \<le> fsm_get_avail page j)" if "m \<noteq> 0" for m
    using fsm_max_iff [OF assms, of m] that by (simp add: fsm_get_max_avail_def word_neq_0_conv)
  show le: "y \<le> fsm_get_max_avail page" if y: "y \<in> fsm_get_avail page ` {..< LeafNodesPerPage}" for y
    using y ge [of y] by (cases "y = 0") (auto simp: word_zero_le)
  have ex: "\<exists>j < LeafNodesPerPage. fsm_get_max_avail page \<le> fsm_get_avail page j"
    using ge [of "fsm_get_max_avail page"]
    by (cases "fsm_get_max_avail page = 0") (auto simp: word_zero_le fsm_sizes intro!: exI [of _ "0 :: nat"])
  then show "fsm_get_max_avail page \<in> fsm_get_avail page ` {..< LeafNodesPerPage}"
    using le by (metis imageI lessThan_iff order_antisym)
qed

lemma fsm_ok_zero: "fsm_ok \<lparr>fp_next_slot = n, fp_nodes = replicate NodesPerPage 0\<rparr>"
  by (auto simp: fsm_ok_def fsm_wf_def tree_ok_def rebuilt_value_def Let_def fsm_sizes)

text \<open>
  C15. \<open>fsm_search_avail\<close> on a page in order: it returns \<open>-1\<close> and leaves the page alone
  exactly when no slot has the requested space; otherwise it returns a slot with enough space, which
  is the first one to the right of the hint \<open>fp_next_slot\<close>, wrapping around at the end, and moves
  the hint to it or just past it.
\<close>

theorem fsm_search_avail_correct:
  assumes "fsm_ok page"
  shows "if \<exists>j < LeafNodesPerPage. m \<le> fsm_get_avail page j
    then \<exists>s < LeafNodesPerPage. m \<le> fsm_get_avail page s \<and>
      (\<forall>j < LeafNodesPerPage. m \<le> fsm_get_avail page j \<longrightarrow> slot_dist (hint_slot page) s \<le> slot_dist (hint_slot page) j) \<and>
      fsm_search_avail env page m adv ex = Some (int s, page\<lparr>fp_next_slot := int s + (if adv then 1 else 0)\<rparr>)
    else fsm_search_avail env page m adv ex = Some (-1, page)"
  by (rule search_ok_page [OF assms])

theorem fsm_search_avail_correct_witness:
  "\<exists>page'. fsm_search_avail id (snd (fsm_set_avail \<lparr>fp_next_slot = 40, fp_nodes = replicate NodesPerPage 0\<rparr> 7 9)) 5 True False =
     Some (7, page') \<and> fp_next_slot page' = 8"
proof -
  let ?z = "\<lparr>fp_next_slot = 40, fp_nodes = replicate NodesPerPage 0\<rparr>"
  let ?p = "snd (fsm_set_avail ?z 7 9)"
  have seven: "(7 :: nat) < LeafNodesPerPage" by (simp add: fsm_sizes)
  have z: "fsm_wf ?z" using fsm_ok_zero [of 40] by (simp add: fsm_ok_def)
  note set = set_avail_spec [OF z seven, of 9 _ ?p]
  have ok: "fsm_ok ?p" using set(5) [OF prod.collapse [symmetric] fsm_ok_zero] .
  have get: "fsm_get_avail ?p j = (if j = 7 then 9 else 0)" if "j < LeafNodesPerPage" for j
    using set(3) [OF prod.collapse [symmetric] that] that by (simp add: fsm_get_avail_def fsm_sizes)
  have "\<exists>j < LeafNodesPerPage. 5 \<le> fsm_get_avail ?p j" using seven get [of 7] by auto
  then obtain s where "s < LeafNodesPerPage" "5 \<le> fsm_get_avail ?p s"
    "fsm_search_avail id ?p 5 True False = Some (int s, ?p\<lparr>fp_next_slot := int s + 1\<rparr>)"
    using fsm_search_avail_correct [OF ok, of 5 id True False] by auto
  moreover from this have "s = 7" using get [of s] by (auto split: if_splits)
  ultimately show ?thesis by simp
qed

text \<open>
  C28. \<open>fsm_search_avail\<close> on any page, torn ones included, and whatever other backends do to the
  page while the lock is upgraded: the search ends, after at most one repair, with \<open>-1\<close> or with
  a slot that does have the requested space; with the exclusive lock held, or when no other
  backend interferes, no slot changes.
\<close>

theorem fsm_search_avail_torn_page:
  assumes "fsm_wf page" and "\<And>p. fsm_wf p \<Longrightarrow> fsm_wf (env p)"
  shows "\<exists>r page'. fsm_search_avail env page m adv ex = Some (r, page') \<and> fsm_wf page' \<and>
    (r = -1 \<or> (\<exists>s < LeafNodesPerPage. r = int s \<and> m \<le> fsm_get_avail page' s)) \<and>
    (ex \<or> env page = page \<longrightarrow> (\<forall>j < LeafNodesPerPage. fsm_get_avail page' j = fsm_get_avail page j))"
  by (rule search_any_page [OF assms])

theorem fsm_search_avail_torn_page_witness:
  "\<exists>r page'. fsm_search_avail id \<lparr>fp_next_slot = 3, fp_nodes = (replicate NodesPerPage 0)[0 := 200]\<rparr> 100 False True =
     Some (r, page') \<and> r = -1"
proof -
  let ?p = "\<lparr>fp_next_slot = 3, fp_nodes = (replicate NodesPerPage 0)[0 := 200]\<rparr>"
  have wf: "fsm_wf ?p" by (simp add: fsm_wf_def)
  have zero: "fsm_get_avail ?p j = 0" if "j < LeafNodesPerPage" for j
    using that by (simp add: fsm_get_avail_def fsm_sizes)
  show ?thesis using fsm_search_avail_torn_page [OF wf, of id 100 False True] zero by auto
qed

text \<open>
  \<open>fsm_truncate_avail\<close> clears exactly the slots from \<open>nslots\<close> on, keeps the tree
  invariant, and reports a change exactly when one of them was not already zero.
\<close>

lemma fsm_truncate_avail_correct:
  assumes "fsm_ok page" and "nslots < LeafNodesPerPage" and "fsm_truncate_avail page nslots = (changed, page')"
  shows "fsm_ok page' \<and>
    (\<forall>j < LeafNodesPerPage. fsm_get_avail page' j = (if j < nslots then fsm_get_avail page j else 0)) \<and>
    (changed \<longleftrightarrow> (\<exists>j. nslots \<le> j \<and> j < LeafNodesPerPage \<and> fsm_get_avail page j \<noteq> 0))"
  using truncate_spec [OF _ assms(2,3)] assms(1) by (simp add: fsm_ok_def)

text \<open>
  \<open>fsm_rebuild_page\<close> puts any page in order without touching a slot, and reports a change
  exactly when it made one.
\<close>

lemma fsm_rebuild_page_correct:
  assumes "fsm_wf page" and "fsm_rebuild_page page = (changed, page')"
  shows "fsm_ok page' \<and> (\<forall>j < LeafNodesPerPage. fsm_get_avail page' j = fsm_get_avail page j) \<and>
    (changed \<longleftrightarrow> page' \<noteq> page)"
  using fsm_rebuild_page_spec [OF assms(1)] assms(2) by (simp add: fsm_get_avail_def)

end
