(* ===== verification/FreeSpace.thy ===== *)
theory FreeSpace
  imports FsmPage
begin

text \<open>
  The free space map of a relation: \<^verbatim>\<open>src/src/gausskernel/storage/freespace/freespace.cpp\<close>,
  with the constants of \<^verbatim>\<open>src/src/include/storage/freespace.h\<close>. The map is a tree of
  FSM pages, three levels deep, stored in the blocks of the FSM fork; a slot of an upper page
  holds the root value of the page below it. The state of a relation is its FSM fork and the cached
  size of the fork. Block numbers are 32-bit, so the arithmetic that can leave this range is
  taken modulo \<open>2^32\<close>. One backend at a time is modelled, except for the lock upgrade inside a page search
  (argument \<open>env\<close>, as in FsmPage). Tracing, buffer pins, WAL records of hint
  changes and the tablespace quota check of \<open>fsm_extend\<close> have no counterpart.
\<close>

subsection \<open>Categories of free space\<close>

definition FSM_CAT_STEP :: nat where
  "FSM_CAT_STEP = 8192 div 256"

text \<open>\<open>MaxHeapTupleSize\<close>: the block less the aligned heap page header (40 bytes) and one item identifier.\<close>

definition MaxFSMRequestSize :: nat where
  "MaxFSMRequestSize = 8192 - MAXALIGN (40 + 4)"

definition fsm_space_avail_to_cat :: "nat \<Rightarrow> uint8" where
  "fsm_space_avail_to_cat avail =
    (if avail \<ge> MaxFSMRequestSize then 255
     else
       (let cat = avail div FSM_CAT_STEP; cat = (if cat > 254 then 254 else cat)
        in of_nat cat))"

definition fsm_space_cat_to_avail :: "uint8 \<Rightarrow> nat" where
  "fsm_space_cat_to_avail cat = (if cat = 255 then MaxFSMRequestSize else unat cat * FSM_CAT_STEP)"

definition fsm_space_needed_to_cat :: "nat \<Rightarrow> uint8 result" where
  "fsm_space_needed_to_cat needed =
    (if needed > MaxFSMRequestSize then Inl (Ereport ERROR ERRCODE_DATATYPE_MISMATCH)
     else if needed = 0 then Inr 1
     else
       (let cat = (needed + FSM_CAT_STEP - 1) div FSM_CAT_STEP; cat = (if cat > 255 then 255 else cat)
        in Inr (of_nat cat)))"

subsection \<open>Addresses\<close>

type_synonym BlockNumber = nat

definition InvalidBlockNumber :: BlockNumber where
  "InvalidBlockNumber = 0xFFFFFFFF"

definition FSM_TREE_DEPTH :: nat where
  "FSM_TREE_DEPTH = (if SlotsPerFSMPage \<ge> 1626 then 3 else 4)"

definition FSM_ROOT_LEVEL :: nat where
  "FSM_ROOT_LEVEL = FSM_TREE_DEPTH - 1"

definition FSM_BOTTOM_LEVEL :: nat where
  [simp]: "FSM_BOTTOM_LEVEL = 0"

record FSMAddress =
  level :: nat
  logpageno :: nat

definition g_fsm_root_address :: FSMAddress where
  "g_fsm_root_address = \<lparr>level = FSM_ROOT_LEVEL, logpageno = 0\<rparr>"

text \<open>The second loop of \<open>fsm_logical_to_physical\<close>: upper pages needed to address a leaf page.\<close>

fun count_pages :: "nat \<Rightarrow> nat \<Rightarrow> nat \<Rightarrow> nat" where
  "count_pages 0 leafno pages = pages"
| "count_pages (Suc l) leafno pages = count_pages l (leafno div SlotsPerFSMPage) (pages + leafno + 1)"

definition fsm_logical_to_physical :: "FSMAddress \<Rightarrow> BlockNumber" where
  "fsm_logical_to_physical addr =
    (let leafno = logpageno addr * SlotsPerFSMPage ^ level addr;
         pages = count_pages FSM_TREE_DEPTH leafno 0;
         pages = pages - level addr
     in pages - 1)"

definition fsm_get_location :: "BlockNumber \<Rightarrow> FSMAddress \<times> nat" where
  "fsm_get_location heapblk =
    (\<lparr>level = FSM_BOTTOM_LEVEL, logpageno = heapblk div SlotsPerFSMPage\<rparr>, heapblk mod SlotsPerFSMPage)"

definition fsm_get_heap_blk :: "FSMAddress \<Rightarrow> nat \<Rightarrow> BlockNumber" where
  "fsm_get_heap_blk addr slot = (logpageno addr * SlotsPerFSMPage + slot) mod 2 ^ 32"

definition fsm_get_parent :: "FSMAddress \<Rightarrow> FSMAddress \<times> nat" where
  "fsm_get_parent child =
    (\<lparr>level = level child + 1, logpageno = logpageno child div SlotsPerFSMPage\<rparr>,
     logpageno child mod SlotsPerFSMPage)"

definition fsm_get_child :: "FSMAddress \<Rightarrow> nat \<Rightarrow> FSMAddress" where
  "fsm_get_child parent slot =
    \<lparr>level = level parent - 1, logpageno = logpageno parent * SlotsPerFSMPage + slot\<rparr>"

subsection \<open>The FSM fork of a relation\<close>

text \<open>
  \<open>smgr_fsm_nblocks\<close> is the cached fork size (\<open>None\<close> is InvalidBlockNumber),
  \<open>fsm_exists\<close> whether the fork exists, \<open>fsm_blocks\<close> its pages in physical order.
\<close>

record fsm_rel =
  smgr_fsm_nblocks :: "BlockNumber option"
  fsm_exists :: bool
  fsm_blocks :: "FSMPageData list"

text \<open>An initialised page with no free space: every byte after the page header is zero.\<close>

definition empty_fsm_page :: FSMPageData where
  "empty_fsm_page = \<lparr>fp_next_slot = 0, fp_nodes = replicate NodesPerPage 0\<rparr>"

definition fsm_extend :: "fsm_rel \<Rightarrow> BlockNumber \<Rightarrow> fsm_rel" where
  "fsm_extend rel fsm_nblocks =
    (let rel = (if (smgr_fsm_nblocks rel = Some 0 \<or> smgr_fsm_nblocks rel = None) \<and> \<not> fsm_exists rel
                then rel\<lparr>fsm_exists := True\<rparr> else rel);
         fsm_nblocks_now = length (fsm_blocks rel);
         blocks = fsm_blocks rel @ replicate (fsm_nblocks - fsm_nblocks_now) empty_fsm_page
     in rel\<lparr>fsm_blocks := blocks, smgr_fsm_nblocks := Some (length blocks)\<rparr>)"

text \<open>\<open>None\<close> is InvalidBuffer; a valid buffer is named by its block.\<close>

definition fsm_readbuf :: "fsm_rel \<Rightarrow> FSMAddress \<Rightarrow> bool \<Rightarrow> BlockNumber option \<times> fsm_rel" where
  "fsm_readbuf rel addr extend_p =
    (let blkno = fsm_logical_to_physical addr;
         rel = (if smgr_fsm_nblocks rel = None \<or> blkno \<ge> the (smgr_fsm_nblocks rel)
                then rel\<lparr>smgr_fsm_nblocks := Some (if fsm_exists rel then length (fsm_blocks rel) else 0)\<rparr>
                else rel)
     in if blkno \<ge> the (smgr_fsm_nblocks rel)
        then (if extend_p then (Some blkno, fsm_extend rel (blkno + 1)) else (None, rel))
        else (Some blkno, rel))"

abbreviation page_at :: "fsm_rel \<Rightarrow> BlockNumber \<Rightarrow> FSMPageData" where
  "page_at rel blk \<equiv> fsm_blocks rel ! blk"

definition set_page :: "fsm_rel \<Rightarrow> BlockNumber \<Rightarrow> FSMPageData \<Rightarrow> fsm_rel" where
  "set_page rel blk page = rel\<lparr>fsm_blocks := (fsm_blocks rel)[blk := page]\<rparr>"

text \<open>
  \<open>fsm_set_and_search\<close> holds the exclusive lock during its search, so no other backend can
  act then; \<open>None\<close> is a page search that does not return.
\<close>

definition fsm_set_and_search ::
  "fsm_rel \<Rightarrow> FSMAddress \<Rightarrow> nat \<Rightarrow> uint8 \<Rightarrow> uint8 \<Rightarrow> bool \<Rightarrow> (int \<times> fsm_rel) option" where
  "fsm_set_and_search rel addr slot newValue minValue search =
    (case fsm_readbuf rel addr True of
       (None, rel) \<Rightarrow> Some (-1, rel)
     | (Some buf, rel) \<Rightarrow>
         (let rel = set_page rel buf (snd (fsm_set_avail (page_at rel buf) slot newValue))
          in if minValue \<noteq> 0 \<and> search
             then map_option (\<lambda>(newslot, page). (newslot, set_page rel buf page))
                    (fsm_search_avail id (page_at rel buf) minValue (level addr = FSM_BOTTOM_LEVEL) True)
             else Some (-1, rel)))"

text \<open>
  One round of the search loop reads a page and searches in it: the slot found, the root value of a page
  without one, and the relation.
\<close>

definition search_in_page ::
  "(FSMPageData \<Rightarrow> FSMPageData) \<Rightarrow> fsm_rel \<Rightarrow> FSMAddress \<Rightarrow> uint8 \<Rightarrow> (int \<times> uint8 \<times> fsm_rel) option" where
  "search_in_page env rel addr min_cat =
    (case fsm_readbuf rel addr False of
       (Some buf, rel) \<Rightarrow>
         map_option (\<lambda>(slot, page). (slot, if slot = -1 then fsm_get_max_avail page else 0, set_page rel buf page))
           (fsm_search_avail env (page_at rel buf) min_cat (level addr = FSM_BOTTOM_LEVEL) False)
     | (None, rel) \<Rightarrow> Some (-1, 0, rel))"

text \<open>
  The search loop. Each round descends one level, gives up, or counts a restart, of which there
  are at most 10001: hence it ends.
\<close>

function fsm_search_loop ::
  "(FSMPageData \<Rightarrow> FSMPageData) \<Rightarrow> fsm_rel \<Rightarrow> uint8 \<Rightarrow> FSMAddress \<Rightarrow> nat \<Rightarrow> (BlockNumber \<times> fsm_rel) option" where
  "fsm_search_loop env rel min_cat addr restarts =
    (case search_in_page env rel addr min_cat of
       None \<Rightarrow> None
     | Some (slot, max_avail, rel) \<Rightarrow>
         (if slot \<noteq> -1 then
            (if level addr = FSM_BOTTOM_LEVEL then Some (fsm_get_heap_blk addr (nat slot), rel)
             else fsm_search_loop env rel min_cat (fsm_get_child addr (nat slot)) restarts)
          else if level addr = FSM_ROOT_LEVEL then Some (InvalidBlockNumber, rel)
          else
            (let (parent, parentslot) = fsm_get_parent addr
             in case fsm_set_and_search rel parent parentslot max_avail 0 True of
                  None \<Rightarrow> None
                | Some (_, rel) \<Rightarrow>
                    if restarts > 10000 then Some (InvalidBlockNumber, rel)
                    else fsm_search_loop env rel min_cat g_fsm_root_address (restarts + 1))))"
  by pat_completeness auto
termination
  by (relation "measures [\<lambda>(env, rel, c, addr, restarts). 10002 - restarts, \<lambda>(env, rel, c, addr, restarts). level addr]")
    (auto simp: fsm_get_child_def)

declare fsm_search_loop.simps [simp del]

definition fsm_search ::
  "(FSMPageData \<Rightarrow> FSMPageData) \<Rightarrow> fsm_rel \<Rightarrow> uint8 \<Rightarrow> (BlockNumber \<times> fsm_rel) option" where
  "fsm_search env rel min_cat = fsm_search_loop env rel min_cat g_fsm_root_address 0"

subsection \<open>The public operations\<close>

definition GetPageWithFreeSpace ::
  "(FSMPageData \<Rightarrow> FSMPageData) \<Rightarrow> fsm_rel \<Rightarrow> nat \<Rightarrow> (BlockNumber \<times> fsm_rel) option result" where
  "GetPageWithFreeSpace env rel spaceNeeded =
    bindE (fsm_space_needed_to_cat spaceNeeded) (\<lambda>min_cat. Inr (fsm_search env rel min_cat))"

definition RecordAndGetPageWithFreeSpace ::
  "(FSMPageData \<Rightarrow> FSMPageData) \<Rightarrow> fsm_rel \<Rightarrow> BlockNumber \<Rightarrow> nat \<Rightarrow> nat \<Rightarrow> (BlockNumber \<times> fsm_rel) option result" where
  "RecordAndGetPageWithFreeSpace env rel oldPage oldSpaceAvail spaceNeeded =
    (let old_cat = fsm_space_avail_to_cat oldSpaceAvail
     in bindE (fsm_space_needed_to_cat spaceNeeded) (\<lambda>search_cat.
          (let (addr, slot) = fsm_get_location oldPage
           in Inr (case fsm_set_and_search rel addr slot old_cat search_cat True of
                     None \<Rightarrow> None
                   | Some (search_slot, rel) \<Rightarrow>
                       if search_slot \<noteq> -1 then Some (fsm_get_heap_blk addr (nat search_slot), rel)
                       else fsm_search env rel search_cat))))"

definition RecordPageWithFreeSpace :: "fsm_rel \<Rightarrow> BlockNumber \<Rightarrow> nat \<Rightarrow> fsm_rel option" where
  "RecordPageWithFreeSpace rel heapBlk spaceAvail =
    (let new_cat = fsm_space_avail_to_cat spaceAvail; (addr, slot) = fsm_get_location heapBlk
     in map_option snd (fsm_set_and_search rel addr slot new_cat 0 True))"

definition GetRecordedFreeSpace :: "fsm_rel \<Rightarrow> BlockNumber \<Rightarrow> nat \<times> fsm_rel" where
  "GetRecordedFreeSpace rel heapBlk =
    (let (addr, slot) = fsm_get_location heapBlk
     in case fsm_readbuf rel addr False of
          (None, rel) \<Rightarrow> (0, rel)
        | (Some buf, rel) \<Rightarrow> (fsm_space_cat_to_avail (fsm_get_avail (page_at rel buf) slot), rel))"

definition fsm_get_lastblckno :: "FSMAddress \<Rightarrow> BlockNumber" where
  "fsm_get_lastblckno addr = fsm_get_heap_blk addr (SlotsPerFSMPage - 1)"

text \<open>The code tests \<open>level = FSM_ROOT_LEVEL\<close>; no address lies above the root.\<close>

function fsm_update_recursive :: "fsm_rel \<Rightarrow> FSMAddress \<Rightarrow> uint8 \<Rightarrow> bool \<Rightarrow> fsm_rel option" where
  "fsm_update_recursive rel addr new_cat search =
    (if level addr \<ge> FSM_ROOT_LEVEL then Some rel
     else
       (let (parent, parentslot) = fsm_get_parent addr
        in case fsm_set_and_search rel parent parentslot new_cat 0 search of
             None \<Rightarrow> None
           | Some (_, rel) \<Rightarrow> fsm_update_recursive rel parent new_cat search))"
  by pat_completeness auto
termination
  by (relation "measure (\<lambda>(rel, addr, c, s). FSM_ROOT_LEVEL - level addr)") (auto simp: fsm_get_parent_def)

declare fsm_update_recursive.simps [simp del]

partial_function (option) UpdateFreeSpaceMap_loop ::
  "fsm_rel \<Rightarrow> BlockNumber \<Rightarrow> BlockNumber \<Rightarrow> uint8 \<Rightarrow> bool \<Rightarrow> fsm_rel option" where
  "UpdateFreeSpaceMap_loop rel blockNum endBlkNum new_cat search =
    (if blockNum \<le> endBlkNum then
       (let (addr, slot) = fsm_get_location blockNum
        in case fsm_update_recursive rel addr new_cat search of
             None \<Rightarrow> None
           | Some rel \<Rightarrow>
               (let lastBlkOnPage = fsm_get_lastblckno addr
                in if lastBlkOnPage \<ge> endBlkNum then Some rel
                   else UpdateFreeSpaceMap_loop rel ((lastBlkOnPage + 1) mod 2 ^ 32) endBlkNum new_cat search))
     else Some rel)"

definition UpdateFreeSpaceMap ::
  "fsm_rel \<Rightarrow> BlockNumber \<Rightarrow> BlockNumber \<Rightarrow> nat \<Rightarrow> bool \<Rightarrow> fsm_rel option" where
  "UpdateFreeSpaceMap rel startBlkNum endBlkNum freespace search =
    (let new_cat = fsm_space_avail_to_cat freespace
     in UpdateFreeSpaceMap_loop rel startBlkNum endBlkNum new_cat search)"

definition FreeSpaceMapCalTruncBlkNo :: "BlockNumber \<Rightarrow> BlockNumber" where
  "FreeSpaceMapCalTruncBlkNo relBlkNo = fsm_logical_to_physical (fst (fsm_get_location relBlkNo))"

definition FreeSpaceMapTruncateRel :: "fsm_rel \<Rightarrow> BlockNumber \<Rightarrow> fsm_rel" where
  "FreeSpaceMapTruncateRel rel nblocks =
    (if \<not> fsm_exists rel then rel
     else
       (let (first_removed_address, first_removed_slot) = fsm_get_location nblocks;
            trunc = (\<lambda>rel n. rel\<lparr>fsm_blocks := take n (fsm_blocks rel), smgr_fsm_nblocks := Some n\<rparr>)
        in if first_removed_slot > 0 then
             (case fsm_readbuf rel first_removed_address False of
                (None, rel) \<Rightarrow> rel
              | (Some buf, rel) \<Rightarrow>
                  (let rel = set_page rel buf (snd (fsm_truncate_avail (page_at rel buf) first_removed_slot))
                   in trunc rel (fsm_logical_to_physical first_removed_address + 1)))
           else
             (let new_nfsmblocks = fsm_logical_to_physical first_removed_address
              in if length (fsm_blocks rel) \<le> new_nfsmblocks then rel else trunc rel new_nfsmblocks)))"

text \<open>
  The recursion of \<open>fsm_vacuum_page\<close> over the levels, and its loop over the slots of one page.
\<close>

fun vacuum_slots ::
  "(nat \<Rightarrow> fsm_rel \<Rightarrow> uint8 \<times> bool \<times> fsm_rel) \<Rightarrow> BlockNumber \<Rightarrow> nat list \<Rightarrow> bool \<Rightarrow> fsm_rel \<Rightarrow> fsm_rel" where
  "vacuum_slots child buf [] eof rel = rel"
| "vacuum_slots child buf (slot # slots) eof rel =
    (let (child_avail, eof, rel) = (if \<not> eof then child slot rel else (0, eof, rel));
         rel = (if fsm_get_avail (page_at rel buf) slot \<noteq> child_avail
                then set_page rel buf (snd (fsm_set_avail (page_at rel buf) slot child_avail)) else rel)
     in vacuum_slots child buf slots eof rel)"

fun fsm_vacuum_page :: "nat \<Rightarrow> nat \<Rightarrow> fsm_rel \<Rightarrow> uint8 \<times> bool \<times> fsm_rel" where
  "fsm_vacuum_page lev logpage rel =
    (case fsm_readbuf rel \<lparr>level = lev, logpageno = logpage\<rparr> False of
       (None, rel) \<Rightarrow> (0, True, rel)
     | (Some buf, rel) \<Rightarrow>
         (let rel = (case lev of 0 \<Rightarrow> rel
                     | Suc l \<Rightarrow>
                         vacuum_slots (\<lambda>slot rel. fsm_vacuum_page l (logpage * SlotsPerFSMPage + slot) rel) buf
                           [0 ..< SlotsPerFSMPage] False rel);
              max_avail = fsm_get_max_avail (page_at rel buf)
          in (max_avail, False, set_page rel buf ((page_at rel buf)\<lparr>fp_next_slot := 0\<rparr>))))"

declare fsm_vacuum_page.simps [simp del]

definition FreeSpaceMapVacuum :: "fsm_rel \<Rightarrow> fsm_rel" where
  "FreeSpaceMapVacuum rel =
    (let (_, _, rel) = fsm_vacuum_page (level g_fsm_root_address) (logpageno g_fsm_root_address) rel in rel)"

subsection \<open>Categories\<close>

lemma cat_sizes: "FSM_CAT_STEP = 32" "MaxFSMRequestSize = 8144"
  by (simp_all add: FSM_CAT_STEP_def MaxFSMRequestSize_def MAXALIGN_def)

lemma unat_of_nat_byte: "n \<le> 255 \<Longrightarrow> unat (of_nat n :: uint8) = n"
  by (simp add: unat_of_nat take_bit_nat_eq_self)

lemma uint8_eq_255: "(c :: uint8) = 255 \<longleftrightarrow> unat c = 255"
  by (simp add: word_unat_eq_iff)

lemma unat_avail_to_cat:
  "unat (fsm_space_avail_to_cat avail) = (if avail \<ge> 8144 then 255 else min (avail div 32) 254)"
  by (auto simp: fsm_space_avail_to_cat_def cat_sizes unat_of_nat_byte Let_def min_def)

lemma needed_to_cat_spec:
  "fsm_space_needed_to_cat needed =
    (if needed > 8144 then Inl (Ereport ERROR ERRCODE_DATATYPE_MISMATCH)
     else Inr (of_nat (if needed = 0 then 1 else min ((needed + 31) div 32) 255)))"
  by (auto simp: fsm_space_needed_to_cat_def cat_sizes Let_def min_def add.commute)

lemma needed_cat_iff:
  assumes "fsm_space_needed_to_cat needed = Inr c" "0 < needed"
  shows "c \<le> cat \<longleftrightarrow> needed \<le> fsm_space_cat_to_avail cat"
proof -
  have n: "needed \<le> 8144" and c: "unat c = min ((needed + 31) div 32) 255"
    using assms by (auto simp: needed_to_cat_spec unat_of_nat_byte split: if_splits)
  have "unat cat \<le> 255" using unsigned_less [of cat, where 'a = nat] by simp
  then have "unat c \<le> unat cat \<longleftrightarrow> needed \<le> (if unat cat = 255 then 8144 else unat cat * 32)"
    unfolding c using n by auto
  then show ?thesis by (simp add: word_le_nat_alt fsm_space_cat_to_avail_def cat_sizes uint8_eq_255)
qed

lemma cat_roundtrip_le: "fsm_space_cat_to_avail (fsm_space_avail_to_cat avail) \<le> avail"
  by (auto simp: fsm_space_cat_to_avail_def uint8_eq_255 unat_avail_to_cat cat_sizes min_def)

lemma needed_cat_pos:
  assumes "fsm_space_needed_to_cat needed = Inr c"
  shows "c \<noteq> 0"
proof -
  have "unat c \<noteq> 0" using assms by (auto simp: needed_to_cat_spec unat_of_nat_byte split: if_splits)
  then show ?thesis by auto
qed

subsection \<open>Physical addresses\<close>

abbreviation S :: nat where
  "S \<equiv> SlotsPerFSMPage"

definition valid_addr :: "FSMAddress \<Rightarrow> bool" where
  "valid_addr a \<longleftrightarrow> level a \<le> FSM_ROOT_LEVEL \<and> logpageno a < S ^ (FSM_ROOT_LEVEL - level a)"

lemma fsm_levels: "FSM_TREE_DEPTH = 3" "FSM_ROOT_LEVEL = 2"
  by (simp_all add: FSM_TREE_DEPTH_def FSM_ROOT_LEVEL_def fsm_sizes)

lemma slots_eq: "SlotsPerFSMPage = LeafNodesPerPage"
  by (simp add: SlotsPerFSMPage_def)

lemma phys_level0: "fsm_logical_to_physical \<lparr>level = 0, logpageno = p\<rparr> = p + p div S + p div S div S + 2"
  by (simp add: fsm_logical_to_physical_def fsm_levels numeral_3_eq_3)

lemma phys_level1: "fsm_logical_to_physical \<lparr>level = Suc 0, logpageno = q\<rparr> = q * S + q + q div S + 1"
  by (simp add: fsm_logical_to_physical_def fsm_levels numeral_3_eq_3 fsm_sizes)

lemma phys_level2: "fsm_logical_to_physical \<lparr>level = 2, logpageno = r\<rparr> = r * S * S + r * S + r"
  by (simp add: fsm_logical_to_physical_def fsm_levels numeral_3_eq_3 fsm_sizes power2_eq_square)

lemma valid_addr_cases:
  assumes "valid_addr a"
  obtains p where "a = \<lparr>level = 0, logpageno = p\<rparr>" "p < S * S"
  | q where "a = \<lparr>level = Suc 0, logpageno = q\<rparr>" "q < S"
  | "a = \<lparr>level = 2, logpageno = 0\<rparr>"
proof -
  obtain l n where a: "a = \<lparr>level = l, logpageno = n\<rparr>" by (cases a) auto
  have "l = 0 \<or> l = 1 \<or> l = 2" "n < S ^ (2 - l)" using assms by (auto simp: valid_addr_def fsm_levels a)
  then show ?thesis using that a by (auto simp: power2_eq_square)
qed

lemma phys_level0_mono: "p < p' \<Longrightarrow>
  fsm_logical_to_physical \<lparr>level = 0, logpageno = p\<rparr> < fsm_logical_to_physical \<lparr>level = 0, logpageno = p'\<rparr>"
proof -
  assume "p < p'"
  moreover from this have "p div S \<le> p' div S" "p div S div S \<le> p' div S div S"
    by (auto intro!: div_le_mono)
  ultimately show ?thesis by (simp add: phys_level0)
qed

lemma phys_level1_valid: "q < S \<Longrightarrow> fsm_logical_to_physical \<lparr>level = Suc 0, logpageno = q\<rparr> = q * S + q + 1"
  by (simp add: phys_level1)

lemma phys_level0_valid:
  "p < S * S \<Longrightarrow> fsm_logical_to_physical \<lparr>level = 0, logpageno = p\<rparr> = p + p div S + 2"
  by (simp add: phys_level0 fsm_sizes)

lemma phys_levels_differ:
  assumes "p < S * S" "q < S"
  shows "fsm_logical_to_physical \<lparr>level = 0, logpageno = p\<rparr> \<noteq> fsm_logical_to_physical \<lparr>level = Suc 0, logpageno = q\<rparr>"
proof -
  define a where "a = p div 4069"
  have "p = 4069 * a + p mod 4069" "p mod 4069 < 4069" by (simp_all add: a_def)
  then have "p + a + 2 \<noteq> q * 4069 + q + 1" by (cases "a < q") linarith+
  then show ?thesis using assms phys_level0_valid [of p] phys_level1_valid [of q] by (simp add: fsm_sizes a_def)
qed

lemma phys_inj:
  assumes "valid_addr a" "valid_addr b"
  shows "fsm_logical_to_physical a = fsm_logical_to_physical b \<longleftrightarrow> a = b"
proof
  assume eq: "fsm_logical_to_physical a = fsm_logical_to_physical b"
  from assms(1) show "a = b"
  proof (cases rule: valid_addr_cases)
    case (1 p)
    from assms(2) show ?thesis
    proof (cases rule: valid_addr_cases)
      case (1 p')
      then show ?thesis using eq \<open>a = _\<close> phys_level0_mono by (metis less_irrefl linorder_neqE_nat)
    next
      case (2 q)
      then show ?thesis using eq phys_levels_differ \<open>a = _\<close> \<open>p < S * S\<close> by metis
    next
      case 3
      then show ?thesis using eq \<open>a = _\<close> by (simp add: phys_level0 phys_level2)
    qed
  next
    case (2 q)
    from assms(2) show ?thesis
    proof (cases rule: valid_addr_cases)
      case (1 p')
      then show ?thesis using eq phys_levels_differ \<open>a = _\<close> \<open>q < S\<close> by metis
    next
      case (2 q')
      then show ?thesis using eq \<open>a = _\<close> \<open>q < S\<close> by (simp add: phys_level1_valid fsm_sizes)
    next
      case 3
      then show ?thesis using eq \<open>a = _\<close> \<open>q < S\<close> by (simp add: phys_level1 phys_level2)
    qed
  next
    case 3
    from assms(2) show ?thesis
      by (cases rule: valid_addr_cases) (use eq \<open>a = _\<close> in \<open>simp_all add: phys_level0 phys_level1 phys_level2\<close>)
  qed
qed simp

lemma valid_child: "valid_addr a \<Longrightarrow> 0 < level a \<Longrightarrow> s < S \<Longrightarrow> valid_addr (fsm_get_child a s)"
  by (erule valid_addr_cases) (simp_all add: valid_addr_def fsm_levels fsm_get_child_def fsm_sizes power2_eq_square)

lemma valid_parent: "valid_addr a \<Longrightarrow> level a < FSM_ROOT_LEVEL \<Longrightarrow> valid_addr (fst (fsm_get_parent a)) \<and> snd (fsm_get_parent a) < S"
  by (erule valid_addr_cases)
    (simp_all add: valid_addr_def fsm_levels fsm_get_parent_def fsm_sizes less_mult_imp_div_less)

lemma valid_root: "valid_addr g_fsm_root_address"
  by (simp add: valid_addr_def g_fsm_root_address_def)

lemma valid_location: "b < 2 ^ 32 \<Longrightarrow> valid_addr (fst (fsm_get_location b)) \<and> snd (fsm_get_location b) < S"
  by (simp add: fsm_get_location_def valid_addr_def fsm_levels fsm_sizes less_mult_imp_div_less)

lemma phys_child:
  assumes "valid_addr a" "0 < level a" "s < S"
  shows "fsm_logical_to_physical a < fsm_logical_to_physical (fsm_get_child a s)"
    and "s < t \<Longrightarrow> t < S \<Longrightarrow> fsm_logical_to_physical (fsm_get_child a s) < fsm_logical_to_physical (fsm_get_child a t)"
  using assms(1)
  by (cases rule: valid_addr_cases; use assms(2,3) in \<open>simp add: fsm_get_child_def phys_level0 phys_level1 phys_level2 fsm_sizes\<close>)+

subsection \<open>The fork as a table of recorded values\<close>

definition fork_ok :: "fsm_rel \<Rightarrow> bool" where
  "fork_ok rel \<longleftrightarrow> (\<forall>p \<in> set (fsm_blocks rel). fsm_wf p) \<and> (\<not> fsm_exists rel \<longrightarrow> fsm_blocks rel = []) \<and>
    (\<forall>n. smgr_fsm_nblocks rel = Some n \<longrightarrow> n \<le> length (fsm_blocks rel))"

definition has_page :: "fsm_rel \<Rightarrow> FSMAddress \<Rightarrow> bool" where
  "has_page rel addr \<longleftrightarrow> fsm_logical_to_physical addr < length (fsm_blocks rel)"

abbreviation page_of :: "fsm_rel \<Rightarrow> FSMAddress \<Rightarrow> FSMPageData" where
  "page_of rel addr \<equiv> fsm_blocks rel ! fsm_logical_to_physical addr"

text \<open>The value recorded at a slot; a page past the end of the fork has no free space.\<close>

definition recorded :: "fsm_rel \<Rightarrow> FSMAddress \<Rightarrow> nat \<Rightarrow> uint8" where
  "recorded rel addr slot = (if has_page rel addr then fsm_get_avail (page_of rel addr) slot else 0)"

lemma page_wf: "fork_ok rel \<Longrightarrow> has_page rel addr \<Longrightarrow> fsm_wf (page_of rel addr)"
  by (simp add: fork_ok_def has_page_def)

lemma readbuf_noextend:
  assumes "fork_ok rel" "fsm_readbuf rel addr False = (r, rel')"
  shows "fork_ok rel'" "fsm_blocks rel' = fsm_blocks rel" "fsm_exists rel' = fsm_exists rel"
    "r = (if has_page rel addr then Some (fsm_logical_to_physical addr) else None)"
  using assms by (auto simp: fsm_readbuf_def Let_def fork_ok_def has_page_def split: if_splits)

lemma fsm_wf_empty [simp]: "fsm_wf empty_fsm_page"
  by (simp add: empty_fsm_page_def fsm_wf_def)

lemma avail_empty [simp]: "s < S \<Longrightarrow> fsm_get_avail empty_fsm_page s = 0"
  by (simp add: empty_fsm_page_def fsm_get_avail_def fsm_sizes)

lemma fsm_ok_empty [simp]: "fsm_ok empty_fsm_page"
  by (simp add: empty_fsm_page_def fsm_ok_zero)

lemma readbuf_extend:
  assumes "fork_ok rel" "fsm_readbuf rel addr True = (r, rel')"
  shows "fork_ok rel'" "r = Some (fsm_logical_to_physical addr)" "has_page rel' addr" "fsm_exists rel'"
    "fsm_blocks rel' = fsm_blocks rel @
      replicate (fsm_logical_to_physical addr + 1 - length (fsm_blocks rel)) empty_fsm_page"
proof -
  let ?b = "fsm_logical_to_physical addr"
  have "fork_ok rel' \<and> r = Some ?b \<and> has_page rel' addr \<and> fsm_exists rel' \<and>
    fsm_blocks rel' = fsm_blocks rel @ replicate (?b + 1 - length (fsm_blocks rel)) empty_fsm_page"
  proof (cases "?b < length (fsm_blocks rel)")
    case True
    then show ?thesis using assms
      by (auto simp: fsm_readbuf_def Let_def fork_ok_def has_page_def split: if_splits)
  next
    case False
    then show ?thesis using assms
      by (auto simp: fsm_readbuf_def Let_def fsm_extend_def fork_ok_def has_page_def split: if_splits)
  qed
  then show "fork_ok rel'" "r = Some ?b" "has_page rel' addr" "fsm_exists rel'"
    "fsm_blocks rel' = fsm_blocks rel @ replicate (?b + 1 - length (fsm_blocks rel)) empty_fsm_page"
    by blast+
qed

lemma recorded_append_empty:
  "fsm_blocks rel' = fsm_blocks rel @ replicate n empty_fsm_page \<Longrightarrow> s < S \<Longrightarrow> recorded rel' a s = recorded rel a s"
  by (auto simp: recorded_def has_page_def nth_append)

lemma fork_ok_set_page: "fork_ok rel \<Longrightarrow> fsm_wf page \<Longrightarrow> fork_ok (set_page rel blk page)"
  by (auto simp: fork_ok_def set_page_def dest!: set_update_subset_insert [THEN subsetD])

lemma set_page_simps [simp]:
  "has_page (set_page rel blk page) a = has_page rel a" "fsm_exists (set_page rel blk page) = fsm_exists rel"
  "length (fsm_blocks (set_page rel blk page)) = length (fsm_blocks rel)"
  by (simp_all add: has_page_def set_page_def)

lemma page_of_set_page:
  assumes "valid_addr a" "valid_addr b" "has_page rel b"
  shows "page_of (set_page rel (fsm_logical_to_physical b) page) a = (if a = b then page else page_of rel a)"
  using assms phys_inj [OF assms(1,2)] by (auto simp: set_page_def has_page_def nth_list_update)

lemma recorded_set_page:
  assumes "valid_addr a" "valid_addr b" "has_page rel b"
  shows "recorded (set_page rel (fsm_logical_to_physical b) page) a s =
    (if a = b then fsm_get_avail page s else recorded rel a s)"
  using assms page_of_set_page [OF assms] by (auto simp: recorded_def)

text \<open>What \<open>fsm_set_and_search\<close> does to the table, whether it searches or not.\<close>

lemma set_and_search_spec:
  assumes "fork_ok rel" "valid_addr addr" "slot < S"
  shows "\<exists>r rel'. fsm_set_and_search rel addr slot v m search = Some (r, rel') \<and> fork_ok rel' \<and> has_page rel' addr \<and>
    (\<forall>a s. valid_addr a \<longrightarrow> s < S \<longrightarrow> recorded rel' a s = (if a = addr \<and> s = slot then v else recorded rel a s)) \<and>
    (r = -1 \<or> (\<exists>s < S. r = int s \<and> m \<le> recorded rel' addr s)) \<and> (m = 0 \<or> \<not> search \<longrightarrow> r = -1)"
proof -
  let ?b = "fsm_logical_to_physical addr"
  obtain rb rel1 where rb: "fsm_readbuf rel addr True = (rb, rel1)" by fastforce
  note r1 = readbuf_extend [OF assms(1) rb]
  obtain ch page1 where set: "fsm_set_avail (page_at rel1 ?b) slot v = (ch, page1)" by fastforce
  note sp = set_avail_spec [OF page_wf [OF r1(1,3)] assms(3) [unfolded slots_eq] set]
  define rel2 where "rel2 = set_page rel1 ?b page1"
  have rel2: "fork_ok rel2" "has_page rel2 addr" "page_of rel2 addr = page1"
    using fork_ok_set_page [OF r1(1) sp(1)] r1(3) page_of_set_page [OF assms(2,2) r1(3)] by (simp_all add: rel2_def)
  have rec2: "recorded rel2 a s = (if a = addr \<and> s = slot then v else recorded rel a s)"
    if "valid_addr a" "s < S" for a s
    using that recorded_set_page [OF that(1) assms(2) r1(3), of page1 s] sp(3) [of s]
      recorded_append_empty [OF r1(5) that(2), of a] r1(3) recorded_def [of rel1 addr s]
    by (auto simp: rel2_def slots_eq)
  show ?thesis
  proof (cases "m \<noteq> 0 \<and> search")
    case False
    then have "fsm_set_and_search rel addr slot v m search = Some (-1, rel2)"
      by (auto simp: fsm_set_and_search_def rb r1(2) set rel2_def Let_def)
    then show ?thesis using rel2 rec2 by auto
  next
    case True
    obtain r page' where search: "fsm_search_avail id page1 m (level addr = FSM_BOTTOM_LEVEL) True = Some (r, page')"
      and wf: "fsm_wf page'" and r: "r = -1 \<or> (\<exists>s < LeafNodesPerPage. r = int s \<and> m \<le> fsm_get_avail page' s)"
      and same: "\<forall>j < LeafNodesPerPage. fsm_get_avail page' j = fsm_get_avail page1 j"
      using search_any_page [OF sp(1), of id m "level addr = FSM_BOTTOM_LEVEL" True] by auto
    define rel3 where "rel3 = set_page rel2 ?b page'"
    have eq: "fsm_set_and_search rel addr slot v m search = Some (r, rel3)"
      using True search rel2(3) by (simp add: fsm_set_and_search_def rb r1(2) set rel2_def [symmetric] Let_def rel3_def)
    have rec3: "recorded rel3 a s = recorded rel2 a s" if "valid_addr a" "s < S" for a s
      using recorded_set_page [OF that(1) assms(2) rel2(2), of page' s] same that(2) rel2(2,3)
      by (auto simp: rel3_def recorded_def slots_eq)
    have "r = -1 \<or> (\<exists>s < S. r = int s \<and> m \<le> recorded rel3 addr s)"
      using r recorded_set_page [OF assms(2,2) rel2(2), of page'] by (auto simp: rel3_def slots_eq)
    moreover have "fork_ok rel3" "has_page rel3 addr" using fork_ok_set_page [OF rel2(1) wf] rel2(2) by (simp_all add: rel3_def)
    ultimately show ?thesis using eq rec3 rec2 True by auto
  qed
qed

subsection \<open>The search\<close>

abbreviation env_ok :: "(FSMPageData \<Rightarrow> FSMPageData) \<Rightarrow> bool" where
  "env_ok env \<equiv> \<forall>p. fsm_wf p \<longrightarrow> fsm_wf (env p)"

lemma search_in_page_spec:
  assumes "fork_ok rel" "valid_addr addr" "env_ok env"
  shows "\<exists>slot mx rel'. search_in_page env rel addr m = Some (slot, mx, rel') \<and> fork_ok rel' \<and>
    (slot = -1 \<or> (\<exists>s < S. slot = int s \<and> m \<le> recorded rel' addr s)) \<and>
    (env = id \<longrightarrow> (\<forall>a s. valid_addr a \<longrightarrow> s < S \<longrightarrow> recorded rel' a s = recorded rel a s))"
proof -
  let ?b = "fsm_logical_to_physical addr"
  obtain rb rel1 where rb: "fsm_readbuf rel addr False = (rb, rel1)" by fastforce
  note r1 = readbuf_noextend [OF assms(1) rb]
  have rec1: "recorded rel1 a s = recorded rel a s" for a s by (simp add: recorded_def has_page_def r1(2))
  show ?thesis
  proof (cases "has_page rel addr")
    case False
    then show ?thesis using r1 rec1 by (simp add: search_in_page_def rb)
  next
    case True
    then have h1: "has_page rel1 addr" by (simp add: has_page_def r1(2))
    obtain r page' where search: "fsm_search_avail env (page_of rel1 addr) m (level addr = FSM_BOTTOM_LEVEL) False = Some (r, page')"
      and wf: "fsm_wf page'" and r: "r = -1 \<or> (\<exists>s < LeafNodesPerPage. r = int s \<and> m \<le> fsm_get_avail page' s)"
      and same: "env = id \<longrightarrow> (\<forall>j < LeafNodesPerPage. fsm_get_avail page' j = fsm_get_avail (page_of rel1 addr) j)"
      using search_any_page [OF page_wf [OF r1(1) h1], of env m "level addr = FSM_BOTTOM_LEVEL" False] assms(3)
      by (metis id_apply)
    let ?rel' = "set_page rel1 ?b page'"
    have "search_in_page env rel addr m = Some (r, if r = -1 then fsm_get_max_avail page' else 0, ?rel')"
      using True search by (simp add: search_in_page_def rb r1(4))
    moreover have "r = -1 \<or> (\<exists>s < S. r = int s \<and> m \<le> recorded ?rel' addr s)"
      using r recorded_set_page [OF assms(2,2) h1, of page'] by (auto simp: slots_eq)
    moreover have "recorded ?rel' a s = recorded rel a s" if "env = id" "valid_addr a" "s < S" for a s
      using recorded_set_page [OF that(2) assms(2) h1, of page' s] same that h1 rec1 [of a s]
      by (auto simp: recorded_def slots_eq)
    ultimately show ?thesis using fork_ok_set_page [OF r1(1) wf] by blast
  qed
qed

lemma fsm_search_loop_spec:
  assumes "fork_ok rel" "valid_addr addr" "env_ok env"
  shows "\<exists>blk rel'. fsm_search_loop env rel m addr n = Some (blk, rel') \<and> fork_ok rel' \<and>
    (blk = InvalidBlockNumber \<or>
     (\<exists>a s. valid_addr a \<and> level a = FSM_BOTTOM_LEVEL \<and> s < S \<and> blk = fsm_get_heap_blk a s \<and> m \<le> recorded rel' a s)) \<and>
    (env = id \<longrightarrow> (\<forall>a s. valid_addr a \<longrightarrow> level a = FSM_BOTTOM_LEVEL \<longrightarrow> s < S \<longrightarrow> recorded rel' a s = recorded rel a s))"
  using assms
proof (induction env rel m addr n rule: fsm_search_loop.induct)
  case (1 env rel m addr n)
  obtain slot mx rel1 where sp: "search_in_page env rel addr m = Some (slot, mx, rel1)" "fork_ok rel1"
    "slot = -1 \<or> (\<exists>s < S. slot = int s \<and> m \<le> recorded rel1 addr s)"
    and same: "env = id \<longrightarrow> (\<forall>a s. valid_addr a \<longrightarrow> s < S \<longrightarrow> recorded rel1 a s = recorded rel a s)"
    using search_in_page_spec [OF 1(3,4,5)] by blast
  consider (found) s where "slot = int s" "s < S" "m \<le> recorded rel1 addr s" "level addr = 0"
    | (down) s where "slot = int s" "s < S" "0 < level addr"
    | (root) "slot = -1" "level addr = FSM_ROOT_LEVEL"
    | (up) "slot = -1" "level addr \<noteq> FSM_ROOT_LEVEL"
    using sp(3) by blast
  then show ?case
  proof cases
    case found
    then have "fsm_search_loop env rel m addr n = Some (fsm_get_heap_blk addr s, rel1)"
      by (subst fsm_search_loop.simps) (simp add: sp(1))
    then show ?thesis using found sp(2) same 1(4) by auto
  next
    case down
    then have ne: "slot \<noteq> -1" "level addr \<noteq> FSM_BOTTOM_LEVEL" by simp_all
    have v: "valid_addr (fsm_get_child addr (nat slot))" using valid_child [OF 1(4)] down by simp
    have eq: "fsm_search_loop env rel m addr n = fsm_search_loop env rel1 m (fsm_get_child addr (nat slot)) n"
      using ne by (subst fsm_search_loop.simps) (simp add: sp(1))
    show ?thesis unfolding eq
      using 1(1) [OF sp(1) refl refl ne sp(2) v 1(5)] same by (elim exE conjE) (intro exI conjI; simp add: id_def)
  next
    case root
    then have "fsm_search_loop env rel m addr n = Some (InvalidBlockNumber, rel1)"
      by (subst fsm_search_loop.simps) (simp add: sp(1))
    then show ?thesis using sp(2) same by auto
  next
    case up
    have lt: "level addr < FSM_ROOT_LEVEL" using up 1(4) by (simp add: valid_addr_def)
    obtain parent ps where p: "fsm_get_parent addr = (parent, ps)" by fastforce
    then have v: "valid_addr parent" "ps < S" "level parent \<noteq> 0" using valid_parent [OF 1(4) lt]
      by (auto simp: fsm_get_parent_def)
    obtain r rel2 where s2: "fsm_set_and_search rel1 parent ps mx 0 True = Some (r, rel2)" "fork_ok rel2"
      "\<forall>a s. valid_addr a \<longrightarrow> s < S \<longrightarrow> recorded rel2 a s = (if a = parent \<and> s = ps then mx else recorded rel1 a s)"
      using set_and_search_spec [OF sp(2) v(1,2), of mx 0 True] by blast
    have same2: "env = id \<longrightarrow> (\<forall>a s. valid_addr a \<longrightarrow> level a = FSM_BOTTOM_LEVEL \<longrightarrow> s < S \<longrightarrow> recorded rel2 a s = recorded rel a s)"
      using s2(3) same v(3) by auto
    show ?thesis
    proof (cases "n > 10000")
      case True
      then have "fsm_search_loop env rel m addr n = Some (InvalidBlockNumber, rel2)"
        using up by (subst fsm_search_loop.simps) (simp add: sp(1) p s2(1))
      then show ?thesis using s2(2) same2 by blast
    next
      case False
      then have eq: "fsm_search_loop env rel m addr n = fsm_search_loop env rel2 m g_fsm_root_address (n + 1)"
        using up by (subst fsm_search_loop.simps) (simp add: sp(1) p s2(1))
      have none: "\<not> slot \<noteq> -1" using up(1) by simp
      show ?thesis unfolding eq
        using 1(2) [OF sp(1) refl refl none up(2) p [symmetric] refl s2(1) refl False s2(2) valid_root 1(5)] same2
        by (elim exE conjE) (intro exI conjI; simp add: id_def)
    qed
  qed
qed

subsection \<open>Consistent maps: the search finds what there is\<close>

definition all_ok :: "fsm_rel \<Rightarrow> bool" where
  "all_ok rel \<longleftrightarrow> fork_ok rel \<and> (\<forall>p \<in> set (fsm_blocks rel). fsm_ok p)"

definition child_value :: "fsm_rel \<Rightarrow> FSMAddress \<Rightarrow> nat \<Rightarrow> uint8" where
  "child_value rel a s =
    (if has_page rel (fsm_get_child a s) then fsm_get_max_avail (page_of rel (fsm_get_child a s)) else 0)"

definition slots_match :: "fsm_rel \<Rightarrow> FSMAddress \<Rightarrow> bool" where
  "slots_match rel a \<longleftrightarrow> (\<forall>s < S. fsm_get_avail (page_of rel a) s = child_value rel a s)"

definition upper_ok :: "fsm_rel \<Rightarrow> bool" where
  "upper_ok rel \<longleftrightarrow> (\<forall>a. valid_addr a \<longrightarrow> 0 < level a \<longrightarrow> has_page rel a \<longrightarrow> slots_match rel a)"

lemma all_ok_page: "all_ok rel \<Longrightarrow> has_page rel a \<Longrightarrow> fsm_ok (page_of rel a)"
  by (simp add: all_ok_def has_page_def)

lemma all_ok_set_page: "all_ok rel \<Longrightarrow> fsm_ok page \<Longrightarrow> all_ok (set_page rel blk page)"
  using fork_ok_set_page [of rel page blk]
  by (auto simp: all_ok_def fsm_ok_def set_page_def dest!: set_update_subset_insert [THEN subsetD])

lemma max_avail_iff: "fsm_ok page \<Longrightarrow> m \<noteq> 0 \<Longrightarrow> m \<le> fsm_get_max_avail page \<longleftrightarrow> (\<exists>j < S. m \<le> fsm_get_avail page j)"
  using fsm_max_iff [of page m] by (simp add: fsm_get_max_avail_def slots_eq word_neq_0_conv)

text \<open>Only the tree bytes of the pages matter, not the hints.\<close>

definition same_nodes :: "fsm_rel \<Rightarrow> fsm_rel \<Rightarrow> bool" where
  "same_nodes rel rel' \<longleftrightarrow> map fp_nodes (fsm_blocks rel') = map fp_nodes (fsm_blocks rel)"

lemma same_nodes_has_page: "same_nodes rel rel' \<Longrightarrow> has_page rel' a = has_page rel a"
  by (auto simp: same_nodes_def has_page_def dest!: map_eq_imp_length_eq)

lemma same_nodes_page: "same_nodes rel rel' \<Longrightarrow> has_page rel a \<Longrightarrow> fp_nodes (page_of rel' a) = fp_nodes (page_of rel a)"
  unfolding same_nodes_def has_page_def by (metis map_eq_imp_length_eq nth_map)

lemma same_nodes_avail:
  assumes "same_nodes rel rel'" "has_page rel a"
  shows "fsm_get_avail (page_of rel' a) s = fsm_get_avail (page_of rel a) s"
    and "fsm_get_max_avail (page_of rel' a) = fsm_get_max_avail (page_of rel a)"
  using same_nodes_page [OF assms] by (simp_all add: fsm_get_avail_def fsm_get_max_avail_def)

lemma same_nodes_upper: "same_nodes rel rel' \<Longrightarrow> upper_ok rel \<Longrightarrow> upper_ok rel'"
  by (simp add: upper_ok_def slots_match_def child_value_def same_nodes_has_page same_nodes_avail)

lemma same_nodes_recorded: "same_nodes rel rel' \<Longrightarrow> recorded rel' a s = recorded rel a s"
  by (simp add: recorded_def same_nodes_has_page same_nodes_avail)

lemma search_in_ok_page:
  assumes "all_ok rel" "valid_addr addr" "has_page rel addr" "m \<noteq> 0" "m \<le> fsm_get_max_avail (page_of rel addr)"
  shows "\<exists>s rel'. search_in_page env rel addr m = Some (int s, 0, rel') \<and> s < S \<and>
    m \<le> fsm_get_avail (page_of rel addr) s \<and> all_ok rel' \<and> same_nodes rel rel'"
proof -
  let ?b = "fsm_logical_to_physical addr"
  obtain rb rel1 where rb: "fsm_readbuf rel addr False = (rb, rel1)" by fastforce
  have "fork_ok rel" using assms(1) by (simp add: all_ok_def)
  note r1 = readbuf_noextend [OF this rb]
  have ok: "fsm_ok (page_of rel1 addr)" "all_ok rel1" and max: "m \<le> fsm_get_max_avail (page_of rel1 addr)"
    using assms(1,3,5) r1 by (simp_all add: all_ok_def has_page_def)
  obtain s where s: "s < S" "m \<le> fsm_get_avail (page_of rel1 addr) s"
    "fsm_search_avail env (page_of rel1 addr) m (level addr = FSM_BOTTOM_LEVEL) False =
      Some (int s, (page_of rel1 addr)\<lparr>fp_next_slot := int s + (if level addr = FSM_BOTTOM_LEVEL then 1 else 0)\<rparr>)"
    using search_ok_page [OF ok(1), of m env "level addr = FSM_BOTTOM_LEVEL" False] max_avail_iff [OF ok(1) assms(4)] max
    by (auto simp: slots_eq)
  let ?p = "(page_of rel1 addr)\<lparr>fp_next_slot := int s + (if level addr = FSM_BOTTOM_LEVEL then 1 else 0)\<rparr>"
  have "search_in_page env rel addr m = Some (int s, 0, set_page rel1 ?b ?p)"
    using s(3) assms(3) by (simp add: search_in_page_def rb r1(4))
  moreover have "fsm_ok ?p" using ok(1) by (simp add: fsm_ok_def fsm_wf_def)
  moreover have "same_nodes rel (set_page rel1 ?b ?p)"
    using assms(3) by (simp add: same_nodes_def set_page_def r1(2) map_update has_page_def list_update_same_conv)
  ultimately show ?thesis using s r1(2) all_ok_set_page [OF ok(2)] by auto
qed

lemma fsm_search_loop_complete:
  assumes "all_ok rel" "upper_ok rel" "valid_addr addr" "has_page rel addr" "m \<noteq> 0"
    "m \<le> fsm_get_max_avail (page_of rel addr)"
  shows "\<exists>a s rel'. fsm_search_loop env rel m addr n = Some (fsm_get_heap_blk a s, rel') \<and> valid_addr a \<and>
    level a = FSM_BOTTOM_LEVEL \<and> s < S \<and> m \<le> recorded rel a s \<and> same_nodes rel rel'"
  using assms
proof (induction "level addr" arbitrary: rel addr)
  case 0
  obtain s rel1 where s: "search_in_page env rel addr m = Some (int s, 0, rel1)" "s < S"
    "m \<le> fsm_get_avail (page_of rel addr) s" "same_nodes rel rel1"
    using search_in_ok_page [OF 0(2,4,5,6,7)] by blast
  then have "fsm_search_loop env rel m addr n = Some (fsm_get_heap_blk addr s, rel1)"
    using 0(1) by (subst fsm_search_loop.simps) simp
  moreover have "m \<le> recorded rel addr s" using s(3) 0(5) by (simp add: recorded_def)
  ultimately show ?case using 0(1,4) s(2,4) by auto
next
  case (Suc l)
  obtain s rel1 where s: "search_in_page env rel addr m = Some (int s, 0, rel1)" "s < S"
    "m \<le> fsm_get_avail (page_of rel addr) s" "all_ok rel1" "same_nodes rel rel1"
    using search_in_ok_page [OF Suc(3,5,6,7,8)] by blast
  let ?c = "fsm_get_child addr s"
  have lev: "0 < level addr" "l = level ?c" using Suc(2) by (simp_all add: fsm_get_child_def)
  have eq: "fsm_search_loop env rel m addr n = fsm_search_loop env rel1 m ?c n"
    using s(1) lev(1) by (subst fsm_search_loop.simps) simp
  have "m \<le> child_value rel addr s"
    using Suc(4-6) lev(1) s(2,3) by (simp add: upper_ok_def slots_match_def)
  then have c: "has_page rel ?c" "m \<le> fsm_get_max_avail (page_of rel ?c)"
    using Suc(7) by (auto simp: child_value_def split: if_splits)
  then have c1: "has_page rel1 ?c" "m \<le> fsm_get_max_avail (page_of rel1 ?c)"
    using s(5) by (simp_all add: same_nodes_has_page same_nodes_avail)
  obtain a t rel' where "fsm_search_loop env rel1 m ?c n = Some (fsm_get_heap_blk a t, rel')" "valid_addr a"
    "level a = FSM_BOTTOM_LEVEL" "t < S" "m \<le> recorded rel1 a t" "same_nodes rel1 rel'"
    using Suc(1) [OF lev(2) s(4) same_nodes_upper [OF s(5) Suc(4)] valid_child [OF Suc(5) lev(1) s(2)] c1(1) Suc(7) c1(2)]
    by blast
  then show ?case using s(5) by (auto simp: eq same_nodes_recorded [OF s(5)] same_nodes_def)
qed

lemma parent_value:
  assumes "all_ok rel" "upper_ok rel" "valid_addr a" "level a < FSM_ROOT_LEVEL" "m \<noteq> 0"
    "has_page rel a" "m \<le> fsm_get_max_avail (page_of rel a)" "fsm_get_parent a = (p, s)"
  shows "valid_addr p" "level p = Suc (level a)" "has_page rel p" "m \<le> fsm_get_max_avail (page_of rel p)"
proof -
  have v: "valid_addr p" "s < S" "level p = Suc (level a)"
    using valid_parent [OF assms(3,4)] assms(8) by (auto simp: fsm_get_parent_def)
  have c: "fsm_get_child p s = a"
    using assms(8) by (cases a) (auto simp: fsm_get_child_def fsm_get_parent_def)
  then have hp: "has_page rel p"
    using phys_child(1) [of p s] v assms(6) by (simp add: has_page_def)
  have "fsm_get_avail (page_of rel p) s = fsm_get_max_avail (page_of rel a)"
    using assms(2,6) v hp c by (simp add: upper_ok_def slots_match_def child_value_def)
  then have "\<exists>j < S. m \<le> fsm_get_avail (page_of rel p) j" using assms(7) v(2) by auto
  then show "valid_addr p" "level p = Suc (level a)" "has_page rel p" "m \<le> fsm_get_max_avail (page_of rel p)"
    using v hp max_avail_iff [OF all_ok_page [OF assms(1) hp] assms(5)] by simp_all
qed

lemma root_value:
  assumes "all_ok rel" "upper_ok rel" "valid_addr a" "level a = FSM_BOTTOM_LEVEL" "s < S" "m \<noteq> 0" "m \<le> recorded rel a s"
  shows "has_page rel g_fsm_root_address" "m \<le> fsm_get_max_avail (page_of rel g_fsm_root_address)"
proof -
  have h: "has_page rel a" "m \<le> fsm_get_avail (page_of rel a) s"
    using assms(6,7) by (auto simp: recorded_def split: if_splits)
  then have m0: "m \<le> fsm_get_max_avail (page_of rel a)"
    using max_avail_iff [OF all_ok_page [OF assms(1) h(1)] assms(6)] assms(5) by blast
  obtain p t where p: "fsm_get_parent a = (p, t)" by fastforce
  have l0: "level a < FSM_ROOT_LEVEL" using assms(4) by (simp add: fsm_levels)
  note p1 = parent_value [OF assms(1,2,3) l0 assms(6) h(1) m0 p]
  obtain q u where q: "fsm_get_parent p = (q, u)" by fastforce
  have l1: "level p < FSM_ROOT_LEVEL" using p1(2) assms(4) by (simp add: fsm_levels)
  note p2 = parent_value [OF assms(1,2) p1(1) l1 assms(6) p1(3,4) q]
  have "level q = 2" using p2(2) p1(2) assms(4) by simp
  with p2(1) have "q = g_fsm_root_address"
    by (elim valid_addr_cases) (auto simp: g_fsm_root_address_def fsm_levels)
  then show "has_page rel g_fsm_root_address" "m \<le> fsm_get_max_avail (page_of rel g_fsm_root_address)"
    using p2(3,4) by simp_all
qed

subsection \<open>Vacuuming the map\<close>

text \<open>\<open>below l q a\<close>: page \<open>a\<close> is page \<open>q\<close> of level \<open>l\<close>, or lies in its subtree.\<close>

definition below :: "nat \<Rightarrow> nat \<Rightarrow> FSMAddress \<Rightarrow> bool" where
  "below l q a \<longleftrightarrow> level a \<le> l \<and> logpageno a div S ^ (l - level a) = q"

lemma below_self: "below l q \<lparr>level = l, logpageno = q\<rparr>"
  by (simp add: below_def)

lemma child_eq: "fsm_get_child \<lparr>level = Suc l, logpageno = q\<rparr> s = \<lparr>level = l, logpageno = q * S + s\<rparr>"
  by (simp add: fsm_get_child_def)

lemma below_child: "below l q b \<Longrightarrow> 0 < level b \<Longrightarrow> s < S \<Longrightarrow> below l q (fsm_get_child b s)"
proof -
  assume b: "below l q b" "0 < level b" "s < S"
  then obtain k where k: "l - (level b - 1) = Suc k" "l - level b = k"
    by (auto simp: below_def) (metis Suc_diff_le Suc_pred diff_Suc_Suc)
  have "(logpageno b * S + s) div S ^ Suc k = (logpageno b * S + s) div S div S ^ k"
    by (simp add: div_mult2_eq)
  also have "\<dots> = logpageno b div S ^ k" using b(3) by simp
  finally show ?thesis using b k by (auto simp: below_def fsm_get_child_def)
qed

lemma below_up: "s < S \<Longrightarrow> below l (q * S + s) a \<Longrightarrow> below (Suc l) q a"
proof -
  assume s: "s < S" and b: "below l (q * S + s) a"
  then have "Suc l - level a = Suc (l - level a)" by (auto simp: below_def)
  then have "logpageno a div S ^ (Suc l - level a) = logpageno a div S ^ (l - level a) div S"
    by (simp add: div_mult2_eq [symmetric] mult.commute)
  then show ?thesis using s b by (auto simp: below_def)
qed

lemma below_split:
  "below (Suc l) q a \<Longrightarrow> a = \<lparr>level = Suc l, logpageno = q\<rparr> \<or> (\<exists>s < S. below l (q * S + s) a)"
proof (cases "level a = Suc l")
  case True
  then show "below (Suc l) q a \<Longrightarrow> ?thesis" by (cases a) (auto simp: below_def)
next
  case False
  assume b: "below (Suc l) q a"
  with False have le: "level a \<le> l" by (auto simp: below_def)
  then have "Suc l - level a = Suc (l - level a)" by simp
  then have "logpageno a div S ^ (l - level a) div S = q" using b
    by (simp add: below_def div_mult2_eq [symmetric] mult.commute)
  then have "logpageno a div S ^ (l - level a) = q * S + logpageno a div S ^ (l - level a) mod S" by auto
  moreover have "logpageno a div S ^ (l - level a) mod S < S" by (simp add: fsm_sizes)
  ultimately show ?thesis using le unfolding below_def by blast
qed

text \<open>What a vacuum step keeps: sizes, page invariants and the recorded values of the bottom level.\<close>

definition vac_keeps :: "fsm_rel \<Rightarrow> fsm_rel \<Rightarrow> bool" where
  "vac_keeps rel rel' \<longleftrightarrow> length (fsm_blocks rel') = length (fsm_blocks rel) \<and>
    (\<forall>a s. valid_addr a \<longrightarrow> level a = FSM_BOTTOM_LEVEL \<longrightarrow> s < S \<longrightarrow> recorded rel' a s = recorded rel a s)"

lemma vac_keeps_has_page: "vac_keeps rel rel' \<Longrightarrow> has_page rel' a = has_page rel a"
  by (simp add: vac_keeps_def has_page_def)

lemma vac_keeps_trans: "vac_keeps rel rel1 \<Longrightarrow> vac_keeps rel1 rel2 \<Longrightarrow> vac_keeps rel rel2"
  by (simp add: vac_keeps_def)

lemma slots_match_cong:
  assumes "\<And>x. has_page rel' x = has_page rel x" "page_of rel' a = page_of rel a"
    "\<And>s. s < S \<Longrightarrow> fsm_get_max_avail (page_of rel' (fsm_get_child a s)) = fsm_get_max_avail (page_of rel (fsm_get_child a s))"
  shows "slots_match rel' a = slots_match rel a"
  using assms by (simp add: slots_match_def child_value_def)

definition vac_page_spec :: "nat \<Rightarrow> nat \<Rightarrow> fsm_rel \<Rightarrow> uint8 \<times> bool \<times> fsm_rel \<Rightarrow> bool" where
  "vac_page_spec l q rel r \<longleftrightarrow>
    (let (v, eof, rel') = r; addr = \<lparr>level = l, logpageno = q\<rparr>
     in all_ok rel' \<and> vac_keeps rel rel' \<and> eof = (\<not> has_page rel addr) \<and>
        v = (if has_page rel addr then fsm_get_max_avail (page_of rel' addr) else 0) \<and>
        (\<forall>a. valid_addr a \<longrightarrow> \<not> below l q a \<longrightarrow> page_of rel' a = page_of rel a) \<and>
        (\<forall>a. valid_addr a \<longrightarrow> below l q a \<longrightarrow> 0 < level a \<longrightarrow> has_page rel a \<longrightarrow> slots_match rel' a))"

lemma set_slot_keeps:
  assumes ok: "all_ok rel" and a: "valid_addr a" "has_page rel a" "0 < level a" and s: "s < S"
    and rel': "rel' = (if fsm_get_avail (page_of rel a) s \<noteq> v
      then set_page rel (fsm_logical_to_physical a) (snd (fsm_set_avail (page_of rel a) s v)) else rel)"
  shows "all_ok rel'" "vac_keeps rel rel'"
    and "\<And>b. valid_addr b \<Longrightarrow> b \<noteq> a \<Longrightarrow> page_of rel' b = page_of rel b"
    and "\<And>j. j < S \<Longrightarrow> fsm_get_avail (page_of rel' a) j = (if j = s then v else fsm_get_avail (page_of rel a) j)"
proof -
  let ?p = "snd (fsm_set_avail (page_of rel a) s v)"
  note pok = all_ok_page [OF ok a(2)]
  have wf: "fsm_wf (page_of rel a)" using pok by (simp add: fsm_ok_def)
  have set: "fsm_set_avail (page_of rel a) s v = (fst (fsm_set_avail (page_of rel a) s v), ?p)" by simp
  note sp = set_avail_spec [OF wf s [unfolded slots_eq] set]
  show "all_ok rel'" using rel' all_ok_set_page [OF ok] sp(5) [OF pok] ok by simp
  show "vac_keeps rel rel'"
    using rel' recorded_set_page [OF _ a(1,2), of _ ?p] a(3) by (auto simp: vac_keeps_def)
  show "page_of rel' b = page_of rel b" if "valid_addr b" "b \<noteq> a" for b
    using rel' page_of_set_page [OF that(1) a(1,2), of ?p] that(2) by auto
  show "fsm_get_avail (page_of rel' a) j = (if j = s then v else fsm_get_avail (page_of rel a) j)" if "j < S" for j
    using rel' page_of_set_page [OF a(1,1,2), of ?p] sp(3) [of j] that by (auto simp: slots_eq)
qed

definition vac_loop_inv :: "nat \<Rightarrow> nat \<Rightarrow> fsm_rel \<Rightarrow> nat \<Rightarrow> bool \<Rightarrow> fsm_rel \<Rightarrow> bool" where
  "vac_loop_inv l q rel0 k eof rel \<longleftrightarrow>
    (let a = \<lparr>level = Suc l, logpageno = q\<rparr>
     in all_ok rel \<and> vac_keeps rel0 rel \<and>
        (eof \<longrightarrow> (\<forall>j. k \<le> j \<longrightarrow> j < S \<longrightarrow> \<not> has_page rel (fsm_get_child a j))) \<and>
        (\<forall>j < k. fsm_get_avail (page_of rel a) j = child_value rel a j) \<and>
        (\<forall>b. valid_addr b \<longrightarrow> \<not> below (Suc l) q b \<longrightarrow> page_of rel b = page_of rel0 b) \<and>
        (\<forall>b j. j < k \<longrightarrow> valid_addr b \<longrightarrow> below l (q * S + j) b \<longrightarrow> 0 < level b \<longrightarrow> has_page rel b \<longrightarrow> slots_match rel b))"

lemma phys_below:
  "valid_addr b \<Longrightarrow> below l q b \<Longrightarrow> l \<le> FSM_ROOT_LEVEL \<Longrightarrow>
   fsm_logical_to_physical \<lparr>level = l, logpageno = q\<rparr> \<le> fsm_logical_to_physical b"
proof (induction "l - level b" arbitrary: b)
  case 0
  then have "b = \<lparr>level = l, logpageno = q\<rparr>" by (cases b) (auto simp: below_def)
  then show ?case by simp
next
  case (Suc n)
  obtain p t where p: "fsm_get_parent b = (p, t)" by fastforce
  have lt: "level b < FSM_ROOT_LEVEL" using Suc(2,5) by simp
  have v: "valid_addr p" "t < S" "level p = Suc (level b)" "fsm_get_child p t = b"
    using valid_parent [OF Suc(3) lt] p by (cases b; auto simp: fsm_get_parent_def fsm_get_child_def)+
  have "l - level b = Suc (l - level p)" using Suc(2) v(3) by simp
  then have "logpageno b div S ^ (l - level b) = logpageno b div S div S ^ (l - level p)"
    by (simp add: div_mult2_eq)
  then have "below l q p" using Suc(2,4) p v(3) by (auto simp: below_def fsm_get_parent_def)
  then have "fsm_logical_to_physical \<lparr>level = l, logpageno = q\<rparr> \<le> fsm_logical_to_physical p"
    using Suc(1) [of p] Suc(2,5) v by simp
  then show ?case using phys_child(1) [of p t] v by simp
qed

lemma vac_loop_step:
  assumes inv: "vac_loop_inv l q rel0 k eof rel" and k: "k < S"
    and a: "valid_addr \<lparr>level = Suc l, logpageno = q\<rparr>" "has_page rel0 \<lparr>level = Suc l, logpageno = q\<rparr>"
    and IH: "\<And>q' rel. valid_addr \<lparr>level = l, logpageno = q'\<rparr> \<Longrightarrow> all_ok rel \<Longrightarrow>
      vac_page_spec l q' rel (fsm_vacuum_page l q' rel)"
    and child: "(cv, eof', rel1) = (if \<not> eof then fsm_vacuum_page l (q * S + k) rel else (0, eof, rel))"
    and rel2: "rel2 = (if fsm_get_avail (page_of rel1 \<lparr>level = Suc l, logpageno = q\<rparr>) k \<noteq> cv
      then set_page rel1 (fsm_logical_to_physical \<lparr>level = Suc l, logpageno = q\<rparr>)
        (snd (fsm_set_avail (page_of rel1 \<lparr>level = Suc l, logpageno = q\<rparr>) k cv)) else rel1)"
  shows "vac_loop_inv l q rel0 (Suc k) eof' rel2"
proof -
  let ?a = "\<lparr>level = Suc l, logpageno = q\<rparr>" and ?c = "\<lparr>level = l, logpageno = q * S + k\<rparr>"
  have i: "all_ok rel" "vac_keeps rel0 rel"
    "eof \<Longrightarrow> k \<le> j \<Longrightarrow> j < S \<Longrightarrow> \<not> has_page rel (fsm_get_child ?a j)"
    "j < k \<Longrightarrow> fsm_get_avail (page_of rel ?a) j = child_value rel ?a j"
    "valid_addr b \<Longrightarrow> \<not> below (Suc l) q b \<Longrightarrow> page_of rel b = page_of rel0 b"
    "j < k \<Longrightarrow> valid_addr b \<Longrightarrow> below l (q * S + j) b \<Longrightarrow> 0 < level b \<Longrightarrow> has_page rel b \<Longrightarrow> slots_match rel b"
    for j b using inv by (auto simp: vac_loop_inv_def Let_def)
  have cs: "fsm_get_child ?a j = \<lparr>level = l, logpageno = q * S + j\<rparr>" for j by (rule child_eq)
  have vc: "valid_addr \<lparr>level = l, logpageno = q * S + j\<rparr>" if "j < S" for j
    using valid_child [OF a(1) _ that] by (simp add: cs)
  have c1: "all_ok rel1" "vac_keeps rel rel1" "cv = child_value rel1 ?a k"
    "eof' \<Longrightarrow> Suc k \<le> j \<Longrightarrow> j < S \<Longrightarrow> \<not> has_page rel (fsm_get_child ?a j)"
    "valid_addr b \<Longrightarrow> \<not> below l (q * S + k) b \<Longrightarrow> page_of rel1 b = page_of rel b"
    "valid_addr b \<Longrightarrow> below l (q * S + k) b \<Longrightarrow> 0 < level b \<Longrightarrow> has_page rel b \<Longrightarrow> slots_match rel1 b" for j b
  proof -
    have "all_ok rel1 \<and> vac_keeps rel rel1 \<and> cv = child_value rel1 ?a k \<and>
      (eof' \<longrightarrow> (\<forall>j. Suc k \<le> j \<longrightarrow> j < S \<longrightarrow> \<not> has_page rel (fsm_get_child ?a j))) \<and>
      (\<forall>b. valid_addr b \<longrightarrow> \<not> below l (q * S + k) b \<longrightarrow> page_of rel1 b = page_of rel b) \<and>
      (\<forall>b. valid_addr b \<longrightarrow> below l (q * S + k) b \<longrightarrow> 0 < level b \<longrightarrow> has_page rel b \<longrightarrow> slots_match rel1 b)"
    proof (cases eof)
      case True
      have none: "\<not> has_page rel ?c" using i(3) [OF True _ k] by (simp add: cs)
      moreover have "\<not> has_page rel b" if "valid_addr b" "below l (q * S + k) b" for b
        using none phys_below [OF that] vc [OF k] by (simp add: has_page_def valid_addr_def)
      ultimately show ?thesis
        using True child i(1) i(3) [OF True] by (auto simp: child_value_def cs vac_keeps_def)
    next
      case False
      then have s: "vac_page_spec l (q * S + k) rel (cv, eof', rel1)" using IH [OF vc [OF k] i(1)] child by simp
      then have e: "eof' = (\<not> has_page rel ?c)" "vac_keeps rel rel1"
        "cv = (if has_page rel ?c then fsm_get_max_avail (page_of rel1 ?c) else 0)"
        by (auto simp: vac_page_spec_def Let_def)
      have "\<not> has_page rel (fsm_get_child ?a j)" if "eof'" "Suc k \<le> j" "j < S" for j
        using e(1) that phys_child(2) [OF a(1) _ k, of j] by (simp add: has_page_def cs)
      moreover have "cv = child_value rel1 ?a k" using e vac_keeps_has_page by (simp add: child_value_def cs)
      ultimately show ?thesis using s by (auto simp: vac_page_spec_def Let_def)
    qed
    then show "all_ok rel1" "vac_keeps rel rel1" "cv = child_value rel1 ?a k"
      "eof' \<Longrightarrow> Suc k \<le> j \<Longrightarrow> j < S \<Longrightarrow> \<not> has_page rel (fsm_get_child ?a j)"
      "valid_addr b \<Longrightarrow> \<not> below l (q * S + k) b \<Longrightarrow> page_of rel1 b = page_of rel b"
      "valid_addr b \<Longrightarrow> below l (q * S + k) b \<Longrightarrow> 0 < level b \<Longrightarrow> has_page rel b \<Longrightarrow> slots_match rel1 b" by blast+
  qed
  have hp: "has_page rel1 x = has_page rel0 x" "has_page rel x = has_page rel0 x" for x
    using vac_keeps_has_page [OF c1(2)] vac_keeps_has_page [OF i(2)] by simp_all
  have ha: "has_page rel1 ?a" using a(2) hp by simp
  note st = set_slot_keeps [OF c1(1) a(1) ha _ k rel2]
  have hp2: "has_page rel2 x = has_page rel0 x" for x using vac_keeps_has_page [OF st(2)] hp by simp
  have low: "\<not> below l p ?a" for p by (simp add: below_def)
  have lev: "b \<noteq> ?a" if "below l p b" for b p using that by (auto simp: below_def)
  have cv2: "child_value rel2 ?a j = child_value rel1 ?a j" if "j < S" for j
    using st(3) [OF _ vc [OF that]] hp2 hp by (simp add: child_value_def cs)
  have cv1: "child_value rel1 ?a j = child_value rel ?a j" if "j < k" for j
    using c1(5) [of "\<lparr>level = l, logpageno = q * S + j\<rparr>"] vc [of j] that k hp
    by (simp add: child_value_def cs below_def)
  have "fsm_get_avail (page_of rel2 ?a) j = child_value rel2 ?a j" if j: "j < Suc k" for j
  proof (cases "j = k")
    case True
    then show ?thesis using st(4) [of k] k cv2 c1(3) by simp
  next
    case False
    then have jk: "j < k" "j < S" using j k by simp_all
    then show ?thesis using st(4) [of j] False cv2 cv1 i(4) [OF jk(1)] c1(5) [OF a(1) low] by simp
  qed
  moreover have "page_of rel2 b = page_of rel0 b" if "valid_addr b" "\<not> below (Suc l) q b" for b
  proof -
    have "b \<noteq> ?a" using that(2) below_self by blast
    moreover have "\<not> below l (q * S + k) b" using below_up [OF k] that(2) by blast
    ultimately show ?thesis using st(3) that c1(5) i(5) by simp
  qed
  moreover have "slots_match rel2 b"
    if b: "j < Suc k" "valid_addr b" "below l (q * S + j) b" "0 < level b" "has_page rel2 b" for b j
  proof -
    have b0: "has_page rel b" using b(5) hp2 hp by simp
    have vcb: "valid_addr (fsm_get_child b s)" "below l (q * S + j) (fsm_get_child b s)" if "s < S" for s
      using valid_child [OF b(2,4) that] below_child [OF b(3,4) that] by simp_all
    have m1: "slots_match rel1 b"
    proof (cases "j = k")
      case True
      then show ?thesis using c1(6) [OF b(2) _ b(4) b0] b(3) by simp
    next
      case False
      have nb: "\<not> below l (q * S + k) x" if "below l (q * S + j) x" for x
        using that False by (auto simp: below_def)
      have "slots_match rel1 b = slots_match rel b"
        using c1(5) [OF b(2) nb [OF b(3)]] c1(5) [OF vcb(1) nb [OF vcb(2)]] hp
        by (intro slots_match_cong) simp_all
      then show ?thesis using i(6) [OF _ b(2,3,4) b0] False b(1) by simp
    qed
    have "slots_match rel2 b = slots_match rel1 b"
      using st(3) [OF _ b(2) lev [OF b(3)]] st(3) [OF _ vcb(1) lev [OF vcb(2)]] hp hp2
      by (intro slots_match_cong) simp_all
    then show ?thesis using m1 by simp
  qed
  moreover have "all_ok rel2" "vac_keeps rel0 rel2"
    using st(1,2) vac_keeps_trans [OF i(2) vac_keeps_trans [OF c1(2)]] by simp_all
  moreover have "\<not> has_page rel2 (fsm_get_child ?a j)" if "eof'" "Suc k \<le> j" "j < S" for j
    using c1(4) [OF that] hp hp2 by simp
  ultimately show ?thesis unfolding vac_loop_inv_def Let_def by blast
qed

lemma vac_loop:
  assumes inv: "vac_loop_inv l q rel0 k eof rel" and k: "k \<le> S"
    and a: "valid_addr \<lparr>level = Suc l, logpageno = q\<rparr>" "has_page rel0 \<lparr>level = Suc l, logpageno = q\<rparr>"
    and IH: "\<And>q' rel. valid_addr \<lparr>level = l, logpageno = q'\<rparr> \<Longrightarrow> all_ok rel \<Longrightarrow>
      vac_page_spec l q' rel (fsm_vacuum_page l q' rel)"
  shows "\<exists>eof'. vac_loop_inv l q rel0 S eof'
    (vacuum_slots (\<lambda>slot rel. fsm_vacuum_page l (q * S + slot) rel)
      (fsm_logical_to_physical \<lparr>level = Suc l, logpageno = q\<rparr>) [k ..< S] eof rel)"
  using inv k
proof (induction "S - k" arbitrary: k eof rel)
  case 0
  then show ?case by auto
next
  case (Suc n)
  then have k: "k < S" and upt: "[k ..< S] = k # [Suc k ..< S]" by (simp_all add: upt_conv_Cons)
  obtain cv eof' rel1 where c: "(cv, eof', rel1) = (if \<not> eof then fsm_vacuum_page l (q * S + k) rel else (0, eof, rel))"
    by (metis prod_cases3)
  show ?case
    using Suc(1) [OF _ vac_loop_step [OF Suc(3) k a IH c refl]] Suc(2) k
    unfolding upt by (simp add: c [symmetric])
qed

lemma all_ok_reset_hint:
  assumes "all_ok rel" "has_page rel a"
  defines "rel' \<equiv> set_page rel (fsm_logical_to_physical a) ((page_of rel a)\<lparr>fp_next_slot := 0\<rparr>)"
  shows "all_ok rel'" "same_nodes rel rel'"
proof -
  have "fsm_ok ((page_of rel a)\<lparr>fp_next_slot := 0\<rparr>)"
    using all_ok_page [OF assms(1,2)] by (simp add: fsm_ok_def fsm_wf_def)
  then show "all_ok rel'" using all_ok_set_page [OF assms(1)] by (simp add: rel'_def)
  show "same_nodes rel rel'"
    using assms(2) by (simp add: same_nodes_def rel'_def set_page_def map_update has_page_def list_update_same_conv)
qed

lemma slots_match_same_nodes:
  "same_nodes rel rel' \<Longrightarrow> has_page rel a \<Longrightarrow> slots_match rel' a = slots_match rel a"
  by (simp add: slots_match_def child_value_def same_nodes_has_page same_nodes_avail)

text \<open>The state after the slots of a page have been visited, before its hint is reset.\<close>

definition vac_inner :: "nat \<Rightarrow> nat \<Rightarrow> fsm_rel \<Rightarrow> fsm_rel" where
  "vac_inner l q rel = (case l of 0 \<Rightarrow> rel
     | Suc l' \<Rightarrow> vacuum_slots (\<lambda>slot rel. fsm_vacuum_page l' (q * S + slot) rel)
         (fsm_logical_to_physical \<lparr>level = l, logpageno = q\<rparr>) [0 ..< S] False rel)"

lemma vac_inner_spec:
  assumes "valid_addr \<lparr>level = l, logpageno = q\<rparr>" "all_ok rel" "has_page rel \<lparr>level = l, logpageno = q\<rparr>"
    and IH: "\<And>l' q' rel. l = Suc l' \<Longrightarrow> valid_addr \<lparr>level = l', logpageno = q'\<rparr> \<Longrightarrow> all_ok rel \<Longrightarrow>
      vac_page_spec l' q' rel (fsm_vacuum_page l' q' rel)"
  shows "all_ok (vac_inner l q rel) \<and> vac_keeps rel (vac_inner l q rel) \<and>
    (\<forall>a. valid_addr a \<longrightarrow> \<not> below l q a \<longrightarrow> page_of (vac_inner l q rel) a = page_of rel a) \<and>
    (\<forall>a. valid_addr a \<longrightarrow> below l q a \<longrightarrow> 0 < level a \<longrightarrow> has_page rel a \<longrightarrow> slots_match (vac_inner l q rel) a)"
proof (cases l)
  case 0
  then show ?thesis using assms(2) by (simp add: vac_inner_def vac_keeps_def below_def)
next
  case (Suc l')
  let ?a = "\<lparr>level = l, logpageno = q\<rparr>"
  have "vac_loop_inv l' q rel 0 False rel"
    using assms(2) by (simp add: vac_loop_inv_def vac_keeps_def Let_def)
  then obtain eof where inv: "vac_loop_inv l' q rel S eof (vac_inner l q rel)"
    using vac_loop [of l' q rel 0 False rel] assms(1,3) IH Suc by (auto simp: vac_inner_def)
  have "slots_match (vac_inner l q rel) b"
    if b: "valid_addr b" "below l q b" "0 < level b" "has_page rel b" for b
  proof (cases "b = ?a")
    case True
    then show ?thesis using inv Suc by (simp add: slots_match_def vac_loop_inv_def Let_def)
  next
    case False
    then obtain j where "j < S" "below l' (q * S + j) b" using below_split [of l' q b] b(2) Suc by auto
    moreover have "has_page (vac_inner l q rel) b"
      using inv b(4) vac_keeps_has_page by (auto simp: vac_loop_inv_def Let_def)
    ultimately show ?thesis using inv b by (auto simp: vac_loop_inv_def Let_def)
  qed
  then show ?thesis using inv Suc by (auto simp: vac_loop_inv_def Let_def)
qed

lemma fsm_vacuum_page_spec:
  "valid_addr \<lparr>level = l, logpageno = q\<rparr> \<Longrightarrow> all_ok rel \<Longrightarrow> vac_page_spec l q rel (fsm_vacuum_page l q rel)"
proof (induction l arbitrary: q rel rule: less_induct)
  case (less l)
  let ?a = "\<lparr>level = l, logpageno = q\<rparr>" and ?b = "fsm_logical_to_physical \<lparr>level = l, logpageno = q\<rparr>"
  obtain rb rel1 where rb: "fsm_readbuf rel ?a False = (rb, rel1)" by fastforce
  have "fork_ok rel" using less(3) by (simp add: all_ok_def)
  note r1 = readbuf_noextend [OF this rb]
  have ok1: "all_ok rel1" using less(3) r1(1,2) by (simp add: all_ok_def)
  have keep1: "vac_keeps rel rel1" "has_page rel1 x = has_page rel x" for x
    by (simp_all add: vac_keeps_def recorded_def has_page_def r1(2))
  show ?case
  proof (cases "has_page rel ?a")
    case False
    have "\<not> has_page rel b" if "valid_addr b" "below l q b" for b
      using False phys_below [OF that] less(2) by (simp add: has_page_def valid_addr_def)
    then show ?thesis using False ok1 keep1
      by (simp add: fsm_vacuum_page.simps [of l q] rb r1(2,4) vac_page_spec_def)
  next
    case True
    define rel2 where "rel2 = vac_inner l q rel1"
    define rel3 where "rel3 = set_page rel2 ?b ((page_of rel2 ?a)\<lparr>fp_next_slot := 0\<rparr>)"
    have eq: "fsm_vacuum_page l q rel = (fsm_get_max_avail (page_of rel2 ?a), False, rel3)"
      using True by (simp add: fsm_vacuum_page.simps [of l q] rb r1(4) rel2_def rel3_def vac_inner_def Let_def)
    have h1: "has_page rel1 ?a" using True keep1(2) by simp
    have i: "all_ok rel2" "vac_keeps rel1 rel2"
      "\<forall>a. valid_addr a \<longrightarrow> \<not> below l q a \<longrightarrow> page_of rel2 a = page_of rel1 a"
      "\<forall>a. valid_addr a \<longrightarrow> below l q a \<longrightarrow> 0 < level a \<longrightarrow> has_page rel1 a \<longrightarrow> slots_match rel2 a"
      using vac_inner_spec [OF less(2) ok1 h1] less(1) unfolding rel2_def by simp_all
    have hp2: "has_page rel2 x = has_page rel x" for x using vac_keeps_has_page [OF i(2)] keep1(2) by simp
    then have h2: "has_page rel2 ?a" using True by simp
    have r3: "all_ok rel3" "same_nodes rel2 rel3"
      using all_ok_reset_hint [OF i(1) h2] by (simp_all add: rel3_def)
    have "vac_keeps rel2 rel3"
      using same_nodes_recorded [OF r3(2)] by (simp add: vac_keeps_def rel3_def)
    then have "vac_keeps rel rel3" using vac_keeps_trans keep1(1) i(2) by blast
    moreover have "page_of rel3 b = page_of rel b" if "valid_addr b" "\<not> below l q b" for b
    proof -
      have "b \<noteq> ?a" using that(2) below_self by blast
      then show ?thesis using that i(3) page_of_set_page [OF that(1) less(2) h2] r1(2) by (simp add: rel3_def)
    qed
    moreover have "slots_match rel3 b" if "valid_addr b" "below l q b" "0 < level b" "has_page rel b" for b
      using that i(4) hp2 keep1(2) slots_match_same_nodes [OF r3(2)] by simp
    ultimately show ?thesis using True r3 same_nodes_avail(2) [OF r3(2) h2] unfolding eq
      by (simp add: vac_page_spec_def Let_def)
  qed
qed

lemma vacuum_spec:
  assumes "all_ok rel"
  shows "all_ok (FreeSpaceMapVacuum rel)" "upper_ok (FreeSpaceMapVacuum rel)" "vac_keeps rel (FreeSpaceMapVacuum rel)"
proof -
  obtain v eof rel' where r: "fsm_vacuum_page 2 0 rel = (v, eof, rel')" by (metis prod_cases3)
  have eq: "FreeSpaceMapVacuum rel = rel'"
    by (simp add: FreeSpaceMapVacuum_def g_fsm_root_address_def fsm_levels r)
  have "valid_addr \<lparr>level = 2, logpageno = 0\<rparr>" by (simp add: valid_addr_def fsm_levels)
  then have s: "vac_page_spec 2 0 rel (v, eof, rel')" using fsm_vacuum_page_spec [of 2 0 rel] assms r by simp
  have "below 2 0 a" if "valid_addr a" for a
    using that by (elim valid_addr_cases) (simp_all add: below_def fsm_sizes)
  then show "all_ok (FreeSpaceMapVacuum rel)" "upper_ok (FreeSpaceMapVacuum rel)" "vac_keeps rel (FreeSpaceMapVacuum rel)"
    using s vac_keeps_has_page unfolding eq upper_ok_def by (auto simp: vac_page_spec_def Let_def)
qed

subsection \<open>Updating a range of blocks\<close>

lemma update_recursive_returns:
  "fork_ok rel \<Longrightarrow> valid_addr addr \<Longrightarrow> \<exists>rel'. fsm_update_recursive rel addr c search = Some rel' \<and> fork_ok rel'"
proof (induction rel addr c search rule: fsm_update_recursive.induct)
  case (1 rel addr c search)
  show ?case
  proof (cases "level addr \<ge> FSM_ROOT_LEVEL")
    case True
    then show ?thesis using 1(2) by (simp add: fsm_update_recursive.simps [of rel addr])
  next
    case False
    obtain p t where p: "fsm_get_parent addr = (p, t)" by fastforce
    then have v: "valid_addr p" "t < S" using valid_parent [OF 1(3)] False by auto
    obtain r rel2 where s: "fsm_set_and_search rel p t c 0 search = Some (r, rel2)" "fork_ok rel2"
      using set_and_search_spec [OF 1(2) v, of c 0 search] by blast
    then show ?thesis using 1(1) [OF False p [symmetric] refl s(1) refl s(2) v(1)] False p
      by (simp add: fsm_update_recursive.simps [of rel addr])
  qed
qed

text \<open>
  The first block of the last FSM page. Its page has slots for block numbers beyond 32 bits.
\<close>

definition last_fsm_page_start :: nat where
  "last_fsm_page_start = 2 ^ 32 div S * S"

lemma last_fsm_page_start_eq: "last_fsm_page_start = 4294963777"
  by (simp add: last_fsm_page_start_def fsm_sizes)

lemma lastblckno_eq:
  "fsm_get_lastblckno (fst (fsm_get_location b)) = (b div 4069 * 4069 + 4068) mod 2 ^ 32"
  by (simp add: fsm_get_lastblckno_def fsm_get_heap_blk_def fsm_get_location_def fsm_sizes)

lemma update_loop_returns:
  assumes "e < last_fsm_page_start"
  shows "fork_ok rel \<Longrightarrow> \<exists>rel'. UpdateFreeSpaceMap_loop rel b e c search = Some rel' \<and> fork_ok rel'"
proof (induction "Suc e - b" arbitrary: b rel rule: less_induct)
  case less
  show ?case
  proof (cases "b \<le> e")
    case False
    then show ?thesis using less(2) by (simp add: UpdateFreeSpaceMap_loop.simps [of rel b])
  next
    case True
    have b: "b < 2 ^ 32" using True assms by (simp add: last_fsm_page_start_eq)
    have "b \<le> 4294963776" using True assms unfolding last_fsm_page_start_eq by simp
    then have "b div 4069 \<le> 4294963776 div 4069" by (rule div_le_mono)
    then have q: "b div 4069 \<le> 1055532" by simp
    obtain rel1 where u: "fsm_update_recursive rel (fst (fsm_get_location b)) c search = Some rel1" "fork_ok rel1"
      using update_recursive_returns [OF less(2)] valid_location [OF b] by blast
    let ?last = "b div 4069 * 4069 + 4068"
    have last: "fsm_get_lastblckno (fst (fsm_get_location b)) = ?last" and step: "(?last + 1) mod 2 ^ 32 = ?last + 1"
      using q by (simp_all add: lastblckno_eq)
    have "b < ?last + 1" using mod_less_divisor [of 4069 b] div_mult_mod_eq [of b 4069] by linarith
    then have "Suc e - (?last + 1) < Suc e - b" using True by simp
    then obtain rel2 where "UpdateFreeSpaceMap_loop rel1 (?last + 1) e c search = Some rel2" "fork_ok rel2"
      using less(1) [OF _ u(2)] by blast
    moreover have "UpdateFreeSpaceMap_loop rel b e c search =
        (if e \<le> ?last then Some rel1 else UpdateFreeSpaceMap_loop rel1 ((?last + 1) mod 2 ^ 32) e c search)"
      using True u(1) by (subst UpdateFreeSpaceMap_loop.simps) (simp add: split_beta Let_def last)
    ultimately show ?thesis using u(2) unfolding step by simp
  qed
qed

lemma update_loop_diverges:
  assumes "UpdateFreeSpaceMap_loop rel b e c search = Some rel'"
  shows "last_fsm_page_start \<le> e \<longrightarrow> e < 2 ^ 32 \<longrightarrow> b \<le> e \<longrightarrow> False"
proof (rule UpdateFreeSpaceMap_loop.raw_induct [OF _ assms])
  fix loop rel b e c search rel'
  assume IH: "\<And>rel b e c search rel'. loop rel b e c search = Some rel' \<Longrightarrow>
      last_fsm_page_start \<le> e \<longrightarrow> e < 2 ^ 32 \<longrightarrow> b \<le> e \<longrightarrow> False"
    and body: "(if b \<le> e
      then let (addr, slot) = fsm_get_location b
           in case fsm_update_recursive rel addr c search of None \<Rightarrow> None
              | Some rel \<Rightarrow> let lastBlkOnPage = fsm_get_lastblckno addr
                in if e \<le> lastBlkOnPage then Some rel
                   else loop rel ((lastBlkOnPage + 1) mod 2 ^ 32) e c search
      else Some rel) = Some rel'"
  show "last_fsm_page_start \<le> e \<longrightarrow> e < 2 ^ 32 \<longrightarrow> b \<le> e \<longrightarrow> False"
  proof (intro impI)
    assume e: "last_fsm_page_start \<le> e" "e < 2 ^ 32" "b \<le> e"
    let ?last = "fsm_get_lastblckno (fst (fsm_get_location b))"
    have "b < 4294967296" using e by simp
    then have "b div 4069 \<le> 4294967295 div 4069" by (intro div_le_mono) simp
    then have "b div 4069 \<le> 1055533" by simp
    then have "?last < e \<and> (?last + 1) mod 2 ^ 32 \<le> e"
      using e(1) by (cases "b div 4069 = 1055533") (simp_all add: lastblckno_eq last_fsm_page_start_eq)
    then obtain rel1 where "loop rel1 ((?last + 1) mod 2 ^ 32) e c search = Some rel'" "(?last + 1) mod 2 ^ 32 \<le> e"
      using body e(3) by (auto simp: split_beta Let_def split: option.splits)
    then show False using IH e by blast
  qed
qed

subsection \<open>Properties\<close>

text \<open>
  Categories are safe and exact: a request too large for any page raises the error; otherwise
  a recorded category satisfies the category of the request exactly when the space it stands for is
  large enough, so a page whose recorded category was computed from its free space really has
  the requested space.
\<close>

lemma fsm_categories_exact:
  "case fsm_space_needed_to_cat needed of
     Inl e \<Rightarrow> e = Ereport ERROR ERRCODE_DATATYPE_MISMATCH \<and> MaxFSMRequestSize < needed
   | Inr c \<Rightarrow> needed \<le> MaxFSMRequestSize \<and>
       (0 < needed \<longrightarrow> (c \<le> cat) = (needed \<le> fsm_space_cat_to_avail cat)) \<and>
       (c \<le> fsm_space_avail_to_cat avail \<longrightarrow> needed \<le> avail)"
proof (cases "fsm_space_needed_to_cat needed")
  case (Inl e)
  then show ?thesis by (auto simp: needed_to_cat_spec cat_sizes split: if_splits)
next
  case (Inr c)
  then have le: "needed \<le> MaxFSMRequestSize" by (auto simp: needed_to_cat_spec cat_sizes split: if_splits)
  have iff: "c \<le> k \<longleftrightarrow> needed \<le> fsm_space_cat_to_avail k" if "0 < needed" for k using needed_cat_iff [OF Inr that] .
  have "needed \<le> avail" if "c \<le> fsm_space_avail_to_cat avail"
    using that iff cat_roundtrip_le [of avail] by (cases "needed = 0") (auto intro: order_trans)
  then show ?thesis using Inr le iff by simp
qed

text \<open>
  The physical layout: different logical pages of the tree lie in different blocks of the fork, every
  page lies before the pages below it, and its children lie in the order of their slots.
\<close>

lemma fsm_physical_layout:
  assumes "valid_addr a"
  shows "(valid_addr b \<longrightarrow> (fsm_logical_to_physical a = fsm_logical_to_physical b) = (a = b)) \<and>
    (0 < level a \<longrightarrow> s < t \<longrightarrow> t < SlotsPerFSMPage \<longrightarrow>
      fsm_logical_to_physical a < fsm_logical_to_physical (fsm_get_child a s) \<and>
      fsm_logical_to_physical (fsm_get_child a s) < fsm_logical_to_physical (fsm_get_child a t) \<and>
      fsm_get_parent (fsm_get_child a s) = (a, s))"
  using phys_inj [OF assms] phys_child [OF assms] by (cases a) (auto simp: fsm_get_parent_def fsm_get_child_def)

text \<open>
  C26. What is recorded for a heap block is what is read back, rounded down to its category, and the
  record of every other heap block stays as it was; recording always returns and keeps the fork valid.
\<close>

theorem record_then_get_free_space:
  assumes "fork_ok rel" and "blk < 2 ^ 32" and "other < 2 ^ 32"
  shows "\<exists>rel'. RecordPageWithFreeSpace rel blk avail = Some rel' \<and> fork_ok rel' \<and>
    fst (GetRecordedFreeSpace rel' other) =
      (if other = blk then fsm_space_cat_to_avail (fsm_space_avail_to_cat avail)
       else fst (GetRecordedFreeSpace rel other))"
proof -
  have get: "fst (GetRecordedFreeSpace rel b) =
      fsm_space_cat_to_avail (recorded rel (fst (fsm_get_location b)) (snd (fsm_get_location b)))"
    if "fork_ok rel" for rel b
  proof -
    obtain r rel1 where r: "fsm_readbuf rel (fst (fsm_get_location b)) False = (r, rel1)" by fastforce
    have "fsm_space_cat_to_avail 0 = 0" by (simp add: fsm_space_cat_to_avail_def)
    then show ?thesis using r readbuf_noextend [OF that r]
      by (simp add: GetRecordedFreeSpace_def recorded_def split_beta)
  qed
  have loc: "fst (fsm_get_location other) = fst (fsm_get_location blk) \<and>
      snd (fsm_get_location other) = snd (fsm_get_location blk) \<longleftrightarrow> other = blk"
    by (auto simp: fsm_get_location_def) (metis div_mult_mod_eq)
  obtain r rel' where s: "fsm_set_and_search rel (fst (fsm_get_location blk)) (snd (fsm_get_location blk))
      (fsm_space_avail_to_cat avail) 0 True = Some (r, rel')" "fork_ok rel'"
    "\<forall>a s. valid_addr a \<longrightarrow> s < S \<longrightarrow> recorded rel' a s =
      (if a = fst (fsm_get_location blk) \<and> s = snd (fsm_get_location blk) then fsm_space_avail_to_cat avail else recorded rel a s)"
    using set_and_search_spec [OF assms(1)] valid_location [OF assms(2)] by blast
  then show ?thesis using get [OF s(2)] get [OF assms(1)] valid_location [OF assms(3)] loc
    by (auto simp: RecordPageWithFreeSpace_def split_beta)
qed

theorem record_then_get_free_space_witness:
  "\<exists>rel'. RecordPageWithFreeSpace \<lparr>smgr_fsm_nblocks = None, fsm_exists = False, fsm_blocks = []\<rparr> 5000 100 = Some rel' \<and>
     fst (GetRecordedFreeSpace rel' 5000) = 96"
proof -
  have "fork_ok \<lparr>smgr_fsm_nblocks = None, fsm_exists = False, fsm_blocks = []\<rparr>" by (simp add: fork_ok_def)
  from record_then_get_free_space [OF this, of 5000 5000 100] show ?thesis
    by (auto simp: fsm_space_cat_to_avail_def fsm_space_avail_to_cat_def cat_sizes)
qed

text \<open>
  C4. The search is sound and always returns: \<open>GetPageWithFreeSpace\<close> on any valid fork, whatever
  other backends do to a page during a lock upgrade, raises the error of an oversized request, or returns
  InvalidBlockNumber, or returns the heap block of a slot whose recorded space is at least the space
  requested; with no interference it changes the record of no heap block.
\<close>

theorem get_page_with_free_space_sound:
  assumes "fork_ok rel" and "\<forall>p. fsm_wf p \<longrightarrow> fsm_wf (env p)"
  shows "if MaxFSMRequestSize < needed
    then GetPageWithFreeSpace env rel needed = Inl (Ereport ERROR ERRCODE_DATATYPE_MISMATCH)
    else \<exists>blk rel'. GetPageWithFreeSpace env rel needed = Inr (Some (blk, rel')) \<and> fork_ok rel' \<and>
      (blk = InvalidBlockNumber \<or>
       (\<exists>a s. valid_addr a \<and> level a = FSM_BOTTOM_LEVEL \<and> s < SlotsPerFSMPage \<and> blk = fsm_get_heap_blk a s \<and>
          needed \<le> fsm_space_cat_to_avail (recorded rel' a s))) \<and>
      (env = id \<longrightarrow> (\<forall>a s. valid_addr a \<longrightarrow> level a = FSM_BOTTOM_LEVEL \<longrightarrow> s < SlotsPerFSMPage \<longrightarrow>
         recorded rel' a s = recorded rel a s))"
proof (cases "MaxFSMRequestSize < needed")
  case True
  then show ?thesis by (simp add: GetPageWithFreeSpace_def fsm_space_needed_to_cat_def)
next
  case False
  then obtain c where c: "fsm_space_needed_to_cat needed = Inr c" by (simp add: needed_to_cat_spec cat_sizes)
  have enough: "needed \<le> fsm_space_cat_to_avail k" if "c \<le> k" for k
    using needed_cat_iff [OF c] that by (cases "needed = 0") simp_all
  obtain blk rel' where r: "fsm_search env rel c = Some (blk, rel')" "fork_ok rel'"
    "blk = InvalidBlockNumber \<or>
       (\<exists>a s. valid_addr a \<and> level a = FSM_BOTTOM_LEVEL \<and> s < S \<and> blk = fsm_get_heap_blk a s \<and> c \<le> recorded rel' a s)"
    "env = id \<longrightarrow> (\<forall>a s. valid_addr a \<longrightarrow> level a = FSM_BOTTOM_LEVEL \<longrightarrow> s < S \<longrightarrow> recorded rel' a s = recorded rel a s)"
    using fsm_search_loop_spec [OF assms(1) valid_root assms(2), of c 0] unfolding fsm_search_def by blast
  have get: "GetPageWithFreeSpace env rel needed = Inr (Some (blk, rel'))"
    by (simp add: GetPageWithFreeSpace_def c r(1))
  have found: "blk = InvalidBlockNumber \<or>
       (\<exists>a s. valid_addr a \<and> level a = FSM_BOTTOM_LEVEL \<and> s < S \<and> blk = fsm_get_heap_blk a s \<and>
          needed \<le> fsm_space_cat_to_avail (recorded rel' a s))"
    using r(3) enough by (elim disjE exE conjE) (simp, metis)
  show ?thesis unfolding if_not_P [OF False]
    by (rule exI [of _ blk], rule exI [of _ rel'], intro conjI get r(2) found r(4))
qed

theorem get_page_with_free_space_sound_witness:
  "\<exists>blk rel'. GetPageWithFreeSpace id \<lparr>smgr_fsm_nblocks = Some 1, fsm_exists = True, fsm_blocks = [empty_fsm_page]\<rparr> 100 =
     Inr (Some (blk, rel')) \<and> fork_ok rel'"
proof -
  have "fork_ok \<lparr>smgr_fsm_nblocks = Some 1, fsm_exists = True, fsm_blocks = [empty_fsm_page]\<rparr>" by (simp add: fork_ok_def)
  from get_page_with_free_space_sound [OF this, of id 100] show ?thesis by (auto simp: cat_sizes)
qed

text \<open>
  C6. \<open>FreeSpaceMapVacuum\<close> on a map in which the tree of every page is in order (\<open>all_ok\<close>; the vacuum does not rebuild a
  torn page) changes the record of no heap block, and afterwards the search misses nothing: if some slot of the bottom
  level records at least the category that is asked for, the search returns the block of such a slot. No lock is given up
  for a repair on the way, so that what other backends would do to the page meanwhile (\<open>env\<close>) plays no part.
\<close>

theorem vacuum_makes_search_complete:
  assumes "all_ok rel"
  shows "(\<forall>a s. valid_addr a \<longrightarrow> level a = FSM_BOTTOM_LEVEL \<longrightarrow> s < SlotsPerFSMPage \<longrightarrow>
      recorded (FreeSpaceMapVacuum rel) a s = recorded rel a s) \<and>
    (\<forall>m a s. m \<noteq> 0 \<longrightarrow> valid_addr a \<longrightarrow> level a = FSM_BOTTOM_LEVEL \<longrightarrow> s < SlotsPerFSMPage \<longrightarrow> m \<le> recorded rel a s \<longrightarrow>
      (\<exists>b t rel'. fsm_search env (FreeSpaceMapVacuum rel) m = Some (fsm_get_heap_blk b t, rel') \<and>
        valid_addr b \<and> level b = FSM_BOTTOM_LEVEL \<and> t < SlotsPerFSMPage \<and> m \<le> recorded rel b t))"
proof -
  let ?v = "FreeSpaceMapVacuum rel"
  note v = vacuum_spec [OF assms(1)]
  have same: "recorded ?v b t = recorded rel b t" if "valid_addr b" "level b = FSM_BOTTOM_LEVEL" "t < S" for b t
    using v(3) that by (simp add: vac_keeps_def)
  have "\<exists>b t rel'. fsm_search env ?v m = Some (fsm_get_heap_blk b t, rel') \<and>
      valid_addr b \<and> level b = FSM_BOTTOM_LEVEL \<and> t < S \<and> m \<le> recorded rel b t"
    if slot: "m \<noteq> 0" "valid_addr a" "level a = FSM_BOTTOM_LEVEL" "s < S" "m \<le> recorded rel a s" for m a s
  proof -
    have "m \<le> recorded ?v a s" using same slot by simp
    note root = root_value [OF v(1,2) slot(2-4) slot(1) this]
    show ?thesis
      using fsm_search_loop_complete [OF v(1,2) valid_root root(1) slot(1) root(2), of env 0] same slot
      unfolding fsm_search_def by metis
  qed
  with same show ?thesis by blast
qed

theorem vacuum_makes_search_complete_witness:
  "\<exists>b t rel'. fsm_search id (FreeSpaceMapVacuum \<lparr>smgr_fsm_nblocks = Some 3, fsm_exists = True,
     fsm_blocks = [empty_fsm_page, empty_fsm_page, snd (fsm_set_avail empty_fsm_page 7 9)]\<rparr>) 5 =
       Some (fsm_get_heap_blk b t, rel')"
proof -
  let ?p = "snd (fsm_set_avail empty_fsm_page 7 9)" and ?a = "\<lparr>level = 0, logpageno = 0\<rparr>"
  let ?rel = "\<lparr>smgr_fsm_nblocks = Some 3, fsm_exists = True, fsm_blocks = [empty_fsm_page, empty_fsm_page, ?p]\<rparr>"
  have seven: "(7 :: nat) < LeafNodesPerPage" by (simp add: fsm_sizes)
  have "fsm_set_avail empty_fsm_page 7 9 = (fst (fsm_set_avail empty_fsm_page 7 9), ?p)" by simp
  note sp = set_avail_spec [OF fsm_wf_empty seven this]
  have "all_ok ?rel" using sp(1) sp(5) [OF fsm_ok_empty] by (simp add: all_ok_def fork_ok_def)
  moreover have "valid_addr ?a" by (simp add: valid_addr_def fsm_sizes fsm_levels)
  moreover have phys: "fsm_logical_to_physical ?a = 2" by (simp add: phys_level0)
  then have "recorded ?rel ?a 7 = 9" using sp(3) [OF seven] by (simp add: recorded_def has_page_def)
  ultimately show ?thesis
    using conjunct2 [OF vacuum_makes_search_complete [of ?rel id], rule_format, of 5 ?a 7] seven by (auto simp: slots_eq)
qed

text \<open>
  C37. \<open>UpdateFreeSpaceMap\<close> returns exactly when the range does not reach the last FSM page: the
  last block number of that page does not fit in 32 bits, wraps around to a small number, and
  the loop starts over, for ever.
\<close>

theorem update_free_space_map_returns_iff:
  assumes "fork_ok rel" and "startBlk \<le> endBlk" and "endBlk < 2 ^ 32"
  shows "(\<exists>rel'. UpdateFreeSpaceMap rel startBlk endBlk free search = Some rel') \<longleftrightarrow> endBlk < last_fsm_page_start"
  using update_loop_returns [OF _ assms(1)] update_loop_diverges assms(2,3)
  unfolding UpdateFreeSpaceMap_def Let_def by (metis not_less)

theorem update_free_space_map_returns_iff_witness:
  "UpdateFreeSpaceMap \<lparr>smgr_fsm_nblocks = None, fsm_exists = False, fsm_blocks = []\<rparr> 4294963700 4294963800 100 True = None"
proof -
  have "fork_ok \<lparr>smgr_fsm_nblocks = None, fsm_exists = False, fsm_blocks = []\<rparr>" by (simp add: fork_ok_def)
  from update_free_space_map_returns_iff [OF this, of 4294963700 4294963800 100 True] show ?thesis
    by (simp add: last_fsm_page_start_eq)
qed

lemma recorded_past_end: "\<not> has_page rel \<lparr>level = 0, logpageno = p\<rparr> \<Longrightarrow> p \<le> q \<Longrightarrow>
  recorded rel \<lparr>level = 0, logpageno = q\<rparr> s = 0"
  using phys_level0_mono [of p q] by (cases "p = q") (auto simp: recorded_def has_page_def)

lemma truncate_blocks:
  assumes "length (fsm_blocks rel) \<ge> n"
    and "rel' = rel\<lparr>fsm_blocks := take n (fsm_blocks rel), smgr_fsm_nblocks := Some n\<rparr>"
  shows "recorded rel' a s = (if fsm_logical_to_physical a < n then recorded rel a s else 0)"
  using assms by (auto simp: recorded_def has_page_def)

lemma block_less_iff:
  assumes "p = n div S" "s = n mod S" "q = b div S" "t = b mod S"
  shows "b < n \<longleftrightarrow> q < p \<or> q = p \<and> t < s"
proof -
  have "n = p * 4069 + s" "b = q * 4069 + t" "s < 4069" "t < 4069" using assms by (simp_all add: fsm_sizes)
  then show ?thesis by (cases "q < p"; cases "q = p") linarith+
qed

lemma phys_level0_less_iff:
  "fsm_logical_to_physical \<lparr>level = 0, logpageno = q\<rparr> < fsm_logical_to_physical \<lparr>level = 0, logpageno = p\<rparr> \<longleftrightarrow> q < p"
  using phys_level0_mono by (metis linorder_neqE_nat less_irrefl less_asym)

text \<open>The page that holds the first truncated block loses its slots from there on.\<close>

lemma recorded_truncated_page:
  assumes ok: "fork_ok rel" and va: "valid_addr a" "valid_addr b" and h: "has_page rel a" and st: "s < S" "t < S"
    and rel2: "rel2 = set_page rel (fsm_logical_to_physical a) (snd (fsm_truncate_avail (page_of rel a) s))"
  shows "recorded rel2 b t = (if b = a \<and> \<not> t < s then 0 else recorded rel b t)"
proof -
  let ?page = "snd (fsm_truncate_avail (page_of rel a) s)"
  have pok: "fsm_wf (page_of rel a)" using ok h by (simp add: fork_ok_def has_page_def)
  have "fsm_truncate_avail (page_of rel a) s = (fst (fsm_truncate_avail (page_of rel a) s), ?page)" by simp
  note tr = truncate_spec(2) [OF pok st(1) [unfolded slots_eq] this]
  show ?thesis using recorded_set_page [OF va(2,1) h, of ?page t] tr [of t] st(2) h
    by (auto simp: rel2 slots_eq) (simp_all add: recorded_def)
qed

text \<open>
  C36. \<open>FreeSpaceMapTruncateRel\<close> on any map, one with torn pages included: afterwards no heap block from
  \<open>nblocks\<close> on has any recorded space, and the records of the blocks before it are unchanged.
\<close>

theorem truncate_rel_correct:
  assumes fork: "fork_ok rel" and n: "nblocks < 2 ^ 32" and b: "blk < 2 ^ 32"
  shows "recorded (FreeSpaceMapTruncateRel rel nblocks) (fst (fsm_get_location blk)) (snd (fsm_get_location blk)) =
    (if blk < nblocks then recorded rel (fst (fsm_get_location blk)) (snd (fsm_get_location blk)) else 0)"
proof -
  define p s q t where "p = nblocks div S" and "s = nblocks mod S" and "q = blk div S" and "t = blk mod S"
  let ?a = "\<lparr>level = 0, logpageno = p\<rparr>" and ?b = "\<lparr>level = 0, logpageno = q\<rparr>"
  let ?P = "fsm_logical_to_physical ?a" and ?rel' = "FreeSpaceMapTruncateRel rel nblocks"
  have loc: "fsm_get_location nblocks = (?a, s)" "fsm_get_location blk = (?b, t)"
    by (simp_all add: fsm_get_location_def p_def q_def s_def t_def)
  have st: "s < S" "t < S" by (simp_all add: s_def t_def fsm_sizes)
  note less = block_less_iff [OF p_def s_def q_def t_def] and order = phys_level0_less_iff [of q p]
  have va: "valid_addr ?a" "valid_addr ?b" using valid_location n b loc by (metis fst_conv)+
  obtain rb rel1 where rb: "fsm_readbuf rel ?a False = (rb, rel1)" by fastforce
  note r1 = readbuf_noextend [OF fork rb]
  have rec1: "recorded rel1 x y = recorded rel x y" "has_page rel1 x = has_page rel x" for x y
    by (simp_all add: recorded_def has_page_def r1(2))
  consider (past) "\<not> (fsm_exists rel \<and> ?P < length (fsm_blocks rel))" | (inner) "fsm_exists rel" "?P < length (fsm_blocks rel)" "0 < s"
    | (start) "fsm_exists rel" "?P < length (fsm_blocks rel)" "s = 0" by blast
  then have "recorded ?rel' ?b t = (if blk < nblocks then recorded rel ?b t else 0)"
  proof cases
    case past
    have "recorded ?rel' ?b t = recorded rel ?b t"
      using past r1(4) rec1 by (auto simp: FreeSpaceMapTruncateRel_def loc rb Let_def has_page_def)
    moreover have "\<not> has_page rel ?a" using past fork by (auto simp: has_page_def fork_ok_def)
    then have "recorded rel ?b t = 0" if "\<not> blk < nblocks" using that less by (intro recorded_past_end [of rel p]) auto
    ultimately show ?thesis by simp
  next
    case inner
    define rel2 where "rel2 = set_page rel1 ?P (snd (fsm_truncate_avail (page_of rel1 ?a) s))"
    have "fork_ok rel1" "has_page rel1 ?a" using r1 inner by (simp_all add: rec1) (simp add: has_page_def)
    note rec2 = recorded_truncated_page [OF this(1) va this(2) st rel2_def]
    have "recorded ?rel' ?b t = (if fsm_logical_to_physical ?b < ?P + 1 then recorded rel2 ?b t else 0)"
      using inner r1(2,4) by (intro truncate_blocks) (simp_all add: FreeSpaceMapTruncateRel_def loc rb Let_def rel2_def has_page_def)
    moreover have "fsm_logical_to_physical ?b < ?P + 1 \<longleftrightarrow> q \<le> p"
      using order phys_inj [OF va(2,1)] by (auto simp: less_Suc_eq le_less)
    ultimately show ?thesis using rec2 rec1 less by auto
  next
    case start
    then have "recorded ?rel' ?b t = (if fsm_logical_to_physical ?b < ?P then recorded rel ?b t else 0)"
      by (intro truncate_blocks) (simp_all add: FreeSpaceMapTruncateRel_def loc Let_def)
    then show ?thesis using start less order by auto
  qed
  then show ?thesis by (simp add: loc)
qed

theorem truncate_rel_correct_witness:
  "let p = snd (fsm_set_avail (snd (fsm_set_avail empty_fsm_page 7 9)) 12 5);
       rel = \<lparr>smgr_fsm_nblocks = Some 3, fsm_exists = True, fsm_blocks = [empty_fsm_page, empty_fsm_page, p]\<rparr>;
       rel' = FreeSpaceMapTruncateRel rel 10; a = fst (fsm_get_location 12)
   in recorded rel a 7 = 9 \<and> recorded rel a 12 = 5 \<and> recorded rel' a 7 = 9 \<and> recorded rel' a 12 = 0"
proof -
  define q where "q = snd (fsm_set_avail empty_fsm_page 7 9)"
  define p where "p = snd (fsm_set_avail q 12 5)"
  define rel where "rel = \<lparr>smgr_fsm_nblocks = Some 3, fsm_exists = True, fsm_blocks = [empty_fsm_page, empty_fsm_page, p]\<rparr>"
  have slot: "(7 :: nat) < LeafNodesPerPage" "(12 :: nat) < LeafNodesPerPage" by (simp_all add: fsm_sizes)
  have "fsm_set_avail empty_fsm_page 7 9 = (fst (fsm_set_avail empty_fsm_page 7 9), q)" by (simp add: q_def)
  note q = set_avail_spec [OF fsm_wf_empty slot(1) this]
  have "fsm_set_avail q 12 5 = (fst (fsm_set_avail q 12 5), p)" by (simp add: p_def)
  note p = set_avail_spec [OF q(1) slot(2) this]
  have av: "fsm_get_avail p 7 = 9" "fsm_get_avail p 12 = 5" using p(3) slot q(3) [OF slot(1)] by simp_all
  have fork: "fork_ok rel" using p(1) by (simp add: rel_def fork_ok_def)
  have loc: "fsm_get_location 7 = (\<lparr>level = 0, logpageno = 0\<rparr>, 7)" "fsm_get_location 12 = (\<lparr>level = 0, logpageno = 0\<rparr>, 12)"
    by (simp_all add: fsm_get_location_def fsm_sizes fsm_levels)
  have rec: "recorded rel \<lparr>level = 0, logpageno = 0\<rparr> 7 = 9" "recorded rel \<lparr>level = 0, logpageno = 0\<rparr> 12 = 5"
    using av by (simp_all add: recorded_def has_page_def phys_level0 rel_def)
  show ?thesis
    using truncate_rel_correct [OF fork, of 10 7] truncate_rel_correct [OF fork, of 10 12] rec
    by (simp add: loc Let_def flip: q_def p_def rel_def)
qed

end
