(* ===== verification/Encode.thy ===== *)
theory Encode
  imports Prelude
begin

text \<open>
  The text encodings of binary data: \<^verbatim>\<open>src/src/common/backend/utils/adt/encode.cpp\<close>,
  with the string comparison of \<^verbatim>\<open>src/src/common/port/pgstrcasecmp.cpp\<close>. Data and text are
  lists of bytes. An encoder or decoder returns the bytes it writes to its output buffer; the number
  the C function returns is the length of that list. The lengths of the estimates are taken modulo
  \<open>2^32\<close> where the code computes them in 32 bits. The SQL functions \<open>encode\<close> and \<open>decode\<close>
  are \<open>binary_encode\<close> and \<open>binary_decode\<close>. The locale \<open>codec\<close> states the contract of
  an entry of the table of encodings; it is interpreted for the three of them.
\<close>

type_synonym bytes = "uint8 list"

definition invalid_parameter :: pg_error where
  "invalid_parameter = Ereport ERROR ERRCODE_INVALID_PARAMETER_VALUE"

definition is_space :: "uint8 \<Rightarrow> bool" where
  "is_space c \<longleftrightarrow> c = 32 \<or> c = 10 \<or> c = 9 \<or> c = 13"

subsection \<open>Hexadecimal\<close>

definition hextbl :: bytes where
  "hextbl = [48, 49, 50, 51, 52, 53, 54, 55, 56, 57, 97, 98, 99, 100, 101, 102]"

definition hexlookup :: "int list" where
  "hexlookup =
    replicate 48 (-1) @ [0, 1, 2, 3, 4, 5, 6, 7, 8, 9] @ replicate 7 (-1) @ [10, 11, 12, 13, 14, 15] @
    replicate 26 (-1) @ [10, 11, 12, 13, 14, 15] @ replicate 25 (-1)"

fun hex_encode :: "bytes \<Rightarrow> bytes" where
  "hex_encode [] = []"
| "hex_encode (c # cs) =
    hextbl ! unat (drop_bit 4 c AND 0xF) # hextbl ! unat (c AND 0xF) # hex_encode cs"

definition get_hex :: "uint8 \<Rightarrow> uint8 result" where
  "get_hex c =
    (let res = (if 0 < c \<and> c < 127 then hexlookup ! unat c else -1)
     in if res < 0 then Inl invalid_parameter else Inr (of_int res))"

fun hex_decode :: "bytes \<Rightarrow> bytes result" where
  "hex_decode [] = Inr []"
| "hex_decode (c # cs) =
    (if is_space c then hex_decode cs
     else bindE (get_hex c) (\<lambda>v1.
       (case cs of
          [] \<Rightarrow> Inl invalid_parameter
        | d # ds \<Rightarrow> bindE (get_hex d) (\<lambda>v2. bindE (hex_decode ds) (\<lambda>r. Inr ((push_bit 4 v1 OR v2) # r))))))"

definition hex_enc_len :: "bytes \<Rightarrow> nat" where
  "hex_enc_len src = length src * 2 mod 2 ^ 32"

definition hex_dec_len :: "bytes \<Rightarrow> nat result" where
  "hex_dec_len src = Inr (length src div 2)"

subsection \<open>Base64\<close>

definition base64_tbl :: bytes where
  "base64_tbl =
    [65, 66, 67, 68, 69, 70, 71, 72, 73, 74, 75, 76, 77, 78, 79, 80, 81, 82, 83, 84, 85, 86, 87, 88, 89, 90,
     97, 98, 99, 100, 101, 102, 103, 104, 105, 106, 107, 108, 109, 110, 111, 112, 113, 114, 115, 116, 117, 118,
     119, 120, 121, 122, 48, 49, 50, 51, 52, 53, 54, 55, 56, 57, 43, 47]"

definition b64lookup :: "int list" where
  "b64lookup =
    replicate 43 (-1) @ [62] @ replicate 3 (-1) @ [63] @ [52, 53, 54, 55, 56, 57, 58, 59, 60, 61] @ replicate 7 (-1) @
    [0, 1, 2, 3, 4, 5, 6, 7, 8, 9, 10, 11, 12, 13, 14, 15, 16, 17, 18, 19, 20, 21, 22, 23, 24, 25] @ replicate 6 (-1) @
    [26, 27, 28, 29, 30, 31, 32, 33, 34, 35, 36, 37, 38, 39, 40, 41, 42, 43, 44, 45, 46, 47, 48, 49, 50, 51] @
    replicate 5 (-1)"

text \<open>\<open>sextet buf k\<close> is \<^verbatim>\<open>_base64[(buf >> k) & 0x3f]\<close>.\<close>

definition sextet :: "uint32 \<Rightarrow> nat \<Rightarrow> uint8" where
  "sextet buf k = base64_tbl ! unat (drop_bit k buf AND 0x3f)"

text \<open>
  The loop of \<open>b64_encode\<close>: \<open>col\<close> counts the symbols of the current line, so that
  \<^verbatim>\<open>p >= lend\<close> is \<open>76 \<le> col\<close>.
\<close>

fun b64_encode_loop :: "nat \<Rightarrow> uint32 \<Rightarrow> nat \<Rightarrow> bytes \<Rightarrow> bytes" where
  "b64_encode_loop pos buf col [] =
    (if pos \<noteq> 2 then
       [sextet buf 18, sextet buf 12, if pos = 0 then sextet buf 6 else 61, 61]
     else [])"
| "b64_encode_loop pos buf col (s # ss) =
    (let buf = buf OR push_bit (8 * pos) (ucast s);
         (out, pos, buf, col) =
           (if pos = 0 then ([sextet buf 18, sextet buf 12, sextet buf 6, sextet buf 0], 2, 0, col + 4)
            else ([], pos - 1, buf, col))
     in out @ (if 76 \<le> col then 10 # b64_encode_loop pos buf 0 ss else b64_encode_loop pos buf col ss))"

definition b64_encode :: "bytes \<Rightarrow> bytes" where
  "b64_encode src = b64_encode_loop 2 0 0 src"

definition get_b64 :: "uint8 \<Rightarrow> uint32 result" where
  "get_b64 c =
    (let b = (if 0 < c \<and> c < 127 then b64lookup ! unat c else -1)
     in if b < 0 then Inl invalid_parameter else Inr (of_int b))"

fun b64_decode_loop :: "uint32 \<Rightarrow> nat \<Rightarrow> nat \<Rightarrow> bytes \<Rightarrow> bytes result" where
  "b64_decode_loop buf pos end [] = (if pos \<noteq> 0 then Inl invalid_parameter else Inr [])"
| "b64_decode_loop buf pos end (c # cs) =
    (if is_space c then b64_decode_loop buf pos end cs
     else
       bindE (if c = 61
              then (if end = 0
                    then (if pos = 2 then Inr (0, 1) else if pos = 3 then Inr (0, 2) else Inl invalid_parameter)
                    else Inr (0, end))
              else bindE (get_b64 c) (\<lambda>b. Inr (b, end)))
         (\<lambda>(b, end).
            (let buf = push_bit 6 buf + b; pos = pos + 1
             in if pos = 4
                then bindE (b64_decode_loop 0 0 end cs) (\<lambda>r. Inr
                  ([ucast (drop_bit 16 buf AND 255)] @
                   (if end = 0 \<or> end > 1 then [ucast (drop_bit 8 buf AND 255)] else []) @
                   (if end = 0 \<or> end > 2 then [ucast (buf AND 255)] else []) @ r))
                else b64_decode_loop buf pos end cs)))"

definition b64_decode :: "bytes \<Rightarrow> bytes result" where
  "b64_decode src = b64_decode_loop 0 0 0 src"

definition b64_enc_len :: "bytes \<Rightarrow> nat" where
  "b64_enc_len src =
    (let srclen = length src in (((srclen + 2) * 4 mod 2 ^ 32) div 3 + srclen div (76 * 3 div 4)) mod 2 ^ 32)"

definition b64_dec_len :: "bytes \<Rightarrow> nat result" where
  "b64_dec_len src = Inr ((length src * 3 mod 2 ^ 32) div 4)"

subsection \<open>Escape\<close>

definition HIGHBIT :: uint8 where
  "HIGHBIT = 0x80"

definition IS_HIGHBIT_SET :: "uint8 \<Rightarrow> bool" where
  "IS_HIGHBIT_SET ch \<longleftrightarrow> ch AND HIGHBIT \<noteq> 0"

definition VAL :: "uint8 \<Rightarrow> uint8" where
  "VAL ch = ch - 48"

definition DIG :: "uint8 \<Rightarrow> uint8" where
  "DIG v = v + 48"

fun esc_encode :: "bytes \<Rightarrow> bytes" where
  "esc_encode [] = []"
| "esc_encode (c # cs) =
    (if c = 0 \<or> IS_HIGHBIT_SET c
     then [92, DIG (drop_bit 6 c), DIG (drop_bit 3 c AND 7), DIG (c AND 7)] @ esc_encode cs
     else if c = 92 then [92, 92] @ esc_encode cs
     else c # esc_encode cs)"

definition octal_escape :: "bytes \<Rightarrow> bool" where
  "octal_escape cs \<longleftrightarrow> 3 \<le> length cs \<and>
    48 \<le> cs ! 0 \<and> cs ! 0 \<le> 51 \<and> 48 \<le> cs ! 1 \<and> cs ! 1 \<le> 55 \<and> 48 \<le> cs ! 2 \<and> cs ! 2 \<le> 55"

text \<open>
  The two loops over escaped text test the same conditions in the same order; \<open>cs\<close> is the
  text after the current byte, so \<^verbatim>\<open>src + 3 < end\<close> is \<open>3 \<le> length cs\<close>.
\<close>

function esc_decode :: "bytes \<Rightarrow> bytes result" where
  "esc_decode [] = Inr []"
| "esc_decode (c # cs) =
    (if c \<noteq> 92 then bindE (esc_decode cs) (\<lambda>r. Inr (c # r))
     else if octal_escape cs
     then bindE (esc_decode (drop 3 cs)) (\<lambda>r. Inr
            ((push_bit 3 (push_bit 3 (VAL (cs ! 0)) + VAL (cs ! 1)) + VAL (cs ! 2)) # r))
     else if 1 \<le> length cs \<and> cs ! 0 = 92 then bindE (esc_decode (drop 1 cs)) (\<lambda>r. Inr (92 # r))
     else Inl (Ereport ERROR ERRCODE_INVALID_TEXT_REPRESENTATION))"
  by pat_completeness auto
termination
  by (relation "measure length") auto

definition esc_enc_len :: "bytes \<Rightarrow> nat" where
  "esc_enc_len src =
    (\<Sum>c \<leftarrow> src. if c = 0 \<or> IS_HIGHBIT_SET c then 4 else if c = 92 then 2 else 1) mod 2 ^ 32"

function esc_dec_len :: "bytes \<Rightarrow> nat result" where
  "esc_dec_len [] = Inr 0"
| "esc_dec_len (c # cs) =
    (if c \<noteq> 92 then bindE (esc_dec_len cs) (\<lambda>n. Inr (n + 1))
     else if octal_escape cs then bindE (esc_dec_len (drop 3 cs)) (\<lambda>n. Inr (n + 1))
     else if 1 \<le> length cs \<and> cs ! 0 = 92 then bindE (esc_dec_len (drop 1 cs)) (\<lambda>n. Inr (n + 1))
     else Inl (Ereport ERROR ERRCODE_INVALID_TEXT_REPRESENTATION))"
  by pat_completeness auto
termination
  by (relation "measure length") auto

subsection \<open>The table of encodings and the SQL functions\<close>

record pg_encoding =
  encode_len :: "bytes \<Rightarrow> nat"
  decode_len :: "bytes \<Rightarrow> nat result"
  encode :: "bytes \<Rightarrow> bytes"
  decode :: "bytes \<Rightarrow> bytes result"

text \<open>
  A C string is the list of its bytes before the terminating zero. The argument \<open>high\<close> is what
  the locale's \<^verbatim>\<open>isupper\<close> and \<^verbatim>\<open>tolower\<close> make of a byte with the high bit set.
\<close>

definition fold_char :: "(uint8 \<Rightarrow> uint8) \<Rightarrow> uint8 \<Rightarrow> uint8" where
  "fold_char high ch =
    (if 65 \<le> ch \<and> ch \<le> 90 then ch + (97 - 65) else if IS_HIGHBIT_SET ch then high ch else ch)"

definition c_head :: "bytes \<Rightarrow> uint8" where
  "c_head s = (case s of [] \<Rightarrow> 0 | c # _ \<Rightarrow> c)"

function pg_strcasecmp :: "(uint8 \<Rightarrow> uint8) \<Rightarrow> bytes \<Rightarrow> bytes \<Rightarrow> int" where
  "pg_strcasecmp high s1 s2 =
    (let ch1 = c_head s1; ch2 = c_head s2;
         ch1' = (if ch1 \<noteq> ch2 then fold_char high ch1 else ch1);
         ch2' = (if ch1 \<noteq> ch2 then fold_char high ch2 else ch2)
     in if ch1' \<noteq> ch2' then uint ch1' - uint ch2'
        else if ch1' = 0 \<or> s1 = [] then 0
        else pg_strcasecmp high (tl s1) (tl s2))"
  by pat_completeness auto
termination
  by (relation "measure (\<lambda>(h, s1, s2). length s1)") auto

declare pg_strcasecmp.simps [simp del]

definition hex_pg_encoding :: pg_encoding where
  "hex_pg_encoding = \<lparr>encode_len = hex_enc_len, decode_len = hex_dec_len, encode = hex_encode, decode = hex_decode\<rparr>"

definition b64_pg_encoding :: pg_encoding where
  "b64_pg_encoding = \<lparr>encode_len = b64_enc_len, decode_len = b64_dec_len, encode = b64_encode, decode = b64_decode\<rparr>"

definition esc_pg_encoding :: pg_encoding where
  "esc_pg_encoding = \<lparr>encode_len = esc_enc_len, decode_len = esc_dec_len, encode = esc_encode, decode = esc_decode\<rparr>"

text \<open>The names are hex, base64 and escape.\<close>

definition enclist :: "(bytes \<times> pg_encoding) list" where
  "enclist =
    [([104, 101, 120], hex_pg_encoding), ([98, 97, 115, 101, 54, 52], b64_pg_encoding),
     ([101, 115, 99, 97, 112, 101], esc_pg_encoding)]"

fun find_in_list :: "(uint8 \<Rightarrow> uint8) \<Rightarrow> bytes \<Rightarrow> (bytes \<times> pg_encoding) list \<Rightarrow> pg_encoding option" where
  "find_in_list high name [] = None"
| "find_in_list high name ((n, enc) # rest) =
    (if pg_strcasecmp high n name = 0 then Some enc else find_in_list high name rest)"

definition pg_find_encoding :: "(uint8 \<Rightarrow> uint8) \<Rightarrow> bytes \<Rightarrow> pg_encoding option" where
  "pg_find_encoding high name = find_in_list high name enclist"

text \<open>
  An \<^verbatim>\<open>unsigned\<close> value stored in an \<^verbatim>\<open>int\<close>, and the check of \<open>palloc\<close> on the
  size of the result, header included.
\<close>

definition to_int :: "nat \<Rightarrow> int" where
  "to_int n = (if n < 2 ^ 31 then int n else int n - 2 ^ 32)"

definition palloc_ok :: "int \<Rightarrow> bool" where
  "palloc_ok resultlen \<longleftrightarrow> 0 \<le> resultlen + 4 \<and> resultlen + 4 \<le> 0x3fffffff"

definition binary_encode :: "(uint8 \<Rightarrow> uint8) \<Rightarrow> bytes \<Rightarrow> bytes \<Rightarrow> bytes result" where
  "binary_encode high data name =
    (case pg_find_encoding high name of
       None \<Rightarrow> Inl invalid_parameter
     | Some enc \<Rightarrow>
         (let resultlen = to_int (encode_len enc data)
          in if \<not> palloc_ok resultlen then Inl invalid_parameter
             else
               (let result = encode enc data
                in if int (length result) > resultlen then Inl (Ereport FATAL ERRCODE_DATA_CORRUPTED)
                   else Inr result)))"

definition binary_decode :: "(uint8 \<Rightarrow> uint8) \<Rightarrow> bytes \<Rightarrow> bytes \<Rightarrow> bytes result" where
  "binary_decode high data name =
    (case pg_find_encoding high name of
       None \<Rightarrow> Inl invalid_parameter
     | Some enc \<Rightarrow>
         bindE (decode_len enc data) (\<lambda>len.
           (let resultlen = to_int len
            in if \<not> palloc_ok resultlen then Inl invalid_parameter
               else bindE (decode enc data) (\<lambda>result.
                 if int (length result) > resultlen then Inl (Ereport ERROR ERRCODE_DATA_EXCEPTION)
                 else Inr result))))"

subsection \<open>Facts on bytes\<close>

lemma all_bytes: "(\<forall>c :: uint8. P c) \<longleftrightarrow> list_all (\<lambda>n. P (of_nat n)) [0 ..< 256]"
proof
  assume "list_all (\<lambda>n. P (of_nat n)) [0 ..< 256]"
  then have "P (of_nat n)" if "n < 256" for n using that by (simp add: list_all_iff)
  moreover have "unat c < 256" for c :: uint8 using unsigned_less [of c, where 'a = nat] by simp
  ultimately show "\<forall>c. P c" by (metis of_nat_unat ucast_id)
qed (simp add: list_all_iff)

lemma mask_numerals: "(0xF :: 'a::len word) = mask 4" "(0x3f :: 'a::len word) = mask 6" "(255 :: 'a::len word) = mask 8"
  by (simp_all add: mask_eq_exp_minus_1)

lemma unat_and_mask: "unat (drop_bit k w AND mask n) = unat w div 2 ^ k mod 2 ^ n"
proof -
  have "unat (take_bit n (drop_bit k w)) = take_bit n (drop_bit k (unat w))"
    by (simp only: unsigned_take_bit_eq unat_drop_bit_eq)
  then show ?thesis by (simp only: take_bit_eq_mask [symmetric]) (simp add: take_bit_eq_mod drop_bit_eq_div)
qed

subsection \<open>Hexadecimal round trip\<close>

lemma get_hex_hextbl: "n < 16 \<Longrightarrow> get_hex (hextbl ! n) = Inr (of_nat n) \<and> \<not> is_space (hextbl ! n)"
proof -
  have "list_all (\<lambda>n. get_hex (hextbl ! n) = Inr (of_nat n) \<and> \<not> is_space (hextbl ! n)) [0 ..< 16]" by code_simp
  then show "n < 16 \<Longrightarrow> ?thesis" by (simp add: list_all_iff)
qed

lemma nibbles: "push_bit 4 (drop_bit 4 c AND 0xF) OR (c AND 0xF) = (c :: uint8)"
  unfolding mask_numerals by (rule bit_word_eqI) (auto simp: bit_simps)

lemma nibble_less: "unat (c AND 0xF :: uint8) < 16"
  using unat_and_mask [of 0 c 4] unfolding mask_numerals by simp

lemma hex_roundtrip: "hex_decode (hex_encode cs) = Inr cs"
proof (induction cs)
  case (Cons c cs)
  then show ?case
    using get_hex_hextbl [OF nibble_less [of "drop_bit 4 c"]] get_hex_hextbl [OF nibble_less [of c]] nibbles [of c]
    by (simp add: bindE_def)
qed simp

lemma hex_encode_length: "length (hex_encode cs) = 2 * length cs"
  by (induction cs) simp_all

lemma hex_decode_length: "hex_decode cs = Inr r \<Longrightarrow> 2 * length r \<le> length cs"
proof (induction cs arbitrary: r rule: hex_decode.induct)
  case (2 c cs)
  show ?case
  proof (cases "is_space c")
    case True
    then show ?thesis using 2 by fastforce
  next
    case False
    with 2 show ?thesis by (auto simp: bindE_def split: sum.splits list.splits)
  qed
qed simp

subsection \<open>Base64 round trip\<close>

lemma get_b64_tbl: "n < 64 \<Longrightarrow> get_b64 (base64_tbl ! n) = Inr (of_nat n) \<and> \<not> is_space (base64_tbl ! n) \<and> base64_tbl ! n \<noteq> 61"
proof -
  have "list_all (\<lambda>n. get_b64 (base64_tbl ! n) = Inr (of_nat n) \<and> \<not> is_space (base64_tbl ! n) \<and> base64_tbl ! n \<noteq> 61) [0 ..< 64]"
    by code_simp
  then show "n < 64 \<Longrightarrow> ?thesis" by (simp add: list_all_iff)
qed

lemma sextet_spec:
  "get_b64 (sextet buf k) = Inr (of_nat (unat buf div 2 ^ k mod 64))" "\<not> is_space (sextet buf k)" "sextet buf k \<noteq> 61"
  using get_b64_tbl [of "unat buf div 2 ^ k mod 64"] unat_and_mask [of k buf 6]
  by (simp_all add: sextet_def mask_numerals)

text \<open>Three bytes as a 24-bit number, and the four symbols it is read back from.\<close>

definition b64_group :: "uint8 \<Rightarrow> uint8 \<Rightarrow> uint8 \<Rightarrow> uint32" where
  "b64_group a b c = 0 OR push_bit 16 (ucast a) OR push_bit 8 (ucast b) OR ucast c"

lemma bit_b64_group: "bit (b64_group a b c) i \<longleftrightarrow> i < 24 \<and> (if i < 8 then bit c i else if i < 16 then bit b (i - 8) else bit a (i - 16))"
  by (auto simp: b64_group_def bit_simps dest: bit_imp_le_length)

lemma b64_group_bytes:
  "ucast (drop_bit 16 (b64_group a b c) AND 255) = a" "ucast (drop_bit 8 (b64_group a b c) AND 255) = b"
  "ucast (b64_group a b c AND 255) = c"
  unfolding mask_numerals by (rule bit_word_eqI; auto simp: bit_simps bit_b64_group)+

lemma unat_b64_group_less: "unat (b64_group a b c) < 2 ^ 24"
proof -
  have "take_bit 24 (b64_group a b c) = b64_group a b c" by (rule bit_word_eqI) (auto simp: bit_simps bit_b64_group)
  then have "unat (b64_group a b c) = take_bit 24 (unat (b64_group a b c))" by (metis unsigned_take_bit_eq)
  then show ?thesis by (metis take_bit_nat_less_exp)
qed

lemma sextets_join:
  fixes w :: nat
  assumes "w < 2 ^ 24"
  shows "((w div 2 ^ 18 mod 64 * 64 + w div 2 ^ 12 mod 64) * 64 + w div 2 ^ 6 mod 64) * 64 + w mod 64 = w"
proof -
  have "w div 2 ^ 18 mod 64 = w div 2 ^ 18" using assms by (simp add: div_less_iff_less_mult)
  moreover have "w div 2 ^ 18 * 64 + w div 2 ^ 12 mod 64 = w div 2 ^ 12"
    using div_mult_mod_eq [of "w div 2 ^ 12" 64] by (simp add: div_mult2_eq [symmetric])
  moreover have "w div 2 ^ 12 * 64 + w div 2 ^ 6 mod 64 = w div 2 ^ 6"
    using div_mult_mod_eq [of "w div 2 ^ 6" 64] by (simp add: div_mult2_eq [symmetric])
  moreover have "w div 2 ^ 6 * 64 + w mod 64 = w" using div_mult_mod_eq [of w 64] by simp
  ultimately show ?thesis by metis
qed

lemma push6_of_nat: "push_bit 6 (of_nat m) + of_nat n = (of_nat (m * 64 + n) :: uint32)"
  by (simp add: push_bit_eq_mult)

lemma b64_group_join:
  fixes a b c :: uint8
  defines "w \<equiv> unat (b64_group a b c)"
  shows "push_bit 6 (push_bit 6 (push_bit 6 (push_bit 6 0 + of_nat (w div 2 ^ 18 mod 64)) + of_nat (w div 2 ^ 12 mod 64)) +
      of_nat (w div 2 ^ 6 mod 64)) + of_nat (w div 2 ^ 0 mod 64) = b64_group a b c"
proof -
  have z: "push_bit 6 0 + of_nat n = (of_nat n :: uint32)" for n by simp
  have "of_nat w = b64_group a b c" unfolding w_def by (metis of_nat_unat ucast_id)
  then show ?thesis
    unfolding z push6_of_nat using sextets_join [OF unat_b64_group_less [of a b c]] by (simp only: w_def power_0 div_by_1)
qed

lemma encode_loop_step:
  assumes "col < 76"
  shows "b64_encode_loop 2 0 col (a # b # c # ss) =
    [sextet (b64_group a b c) 18, sextet (b64_group a b c) 12, sextet (b64_group a b c) 6, sextet (b64_group a b c) 0] @
    (if 76 \<le> col + 4 then 10 # b64_encode_loop 2 0 0 ss else b64_encode_loop 2 0 (col + 4) ss)"
  using assms by (simp add: b64_group_def numeral_2_eq_2 or.assoc Let_def)

lemma decode_group:
  "b64_decode_loop 0 0 0 ([sextet (b64_group a b c) 18, sextet (b64_group a b c) 12, sextet (b64_group a b c) 6, sextet (b64_group a b c) 0] @ rest) =
    bindE (b64_decode_loop 0 0 0 rest) (\<lambda>r. Inr (a # b # c # r))"
  using b64_group_join [of a b c] by (simp add: sextet_spec b64_group_bytes Let_def)

lemma decode_newline: "b64_decode_loop buf pos e (10 # rest) = b64_decode_loop buf pos e rest"
  by (simp add: is_space_def)

lemma b64_group_low:
  "unat (b64_group a b 0) mod 64 = 0" "unat (b64_group a 0 0) div 64 mod 64 = 0"
proof -
  have "b64_group a b 0 AND mask 6 = 0" "drop_bit 6 (b64_group a 0 0) AND mask 6 = 0"
    by (rule bit_word_eqI; auto simp: bit_simps bit_b64_group)+
  then show "unat (b64_group a b 0) mod 64 = 0" "unat (b64_group a 0 0) div 64 mod 64 = 0"
    using unat_and_mask [of 0 "b64_group a b 0" 6] unat_and_mask [of 6 "b64_group a 0 0" 6] by simp_all
qed

lemma not_space_pad: "\<not> is_space 61"
  by (simp add: is_space_def)

lemma encode_tails:
  "col < 76 \<Longrightarrow> b64_encode_loop 2 0 col [a] = [sextet (b64_group a 0 0) 18, sextet (b64_group a 0 0) 12, 61, 61]"
  "col < 76 \<Longrightarrow> b64_encode_loop 2 0 col [a, b] =
    [sextet (b64_group a b 0) 18, sextet (b64_group a b 0) 12, sextet (b64_group a b 0) 6, 61]"
  by (simp_all add: b64_group_def numeral_2_eq_2 Let_def)

lemma decode_tail1: "col < 76 \<Longrightarrow> b64_decode_loop 0 0 0 (b64_encode_loop 2 0 col [a]) = Inr [a]"
  using b64_group_join [of a 0 0] b64_group_low(1) [of a 0] b64_group_low(2) [of a]
  by (simp add: encode_tails sextet_spec b64_group_bytes not_space_pad Let_def del: b64_encode_loop.simps)

lemma decode_tail2: "col < 76 \<Longrightarrow> b64_decode_loop 0 0 0 (b64_encode_loop 2 0 col [a, b]) = Inr [a, b]"
  using b64_group_join [of a b 0] b64_group_low(1) [of a b]
  by (simp add: encode_tails sextet_spec b64_group_bytes not_space_pad Let_def del: b64_encode_loop.simps)

lemma b64_loop_roundtrip: "col < 76 \<Longrightarrow> b64_decode_loop 0 0 0 (b64_encode_loop 2 0 col cs) = Inr cs"
proof (induction "length cs" arbitrary: cs col rule: less_induct)
  case less
  consider "cs = []" | a where "cs = [a]" | a b where "cs = [a, b]" | a b c ss where "cs = a # b # c # ss"
    by (metis neq_Nil_conv)
  then show ?case
  proof cases
    case (4 a b c ss)
    have IH: "b64_decode_loop 0 0 0 (b64_encode_loop 2 0 k ss) = Inr ss" if "k < 76" for k
      using less(1) [of ss k] that 4 by simp
    show ?thesis unfolding 4 encode_loop_step [OF less(2)] decode_group
      using IH [of 0] IH [of "col + 4"] by (simp add: decode_newline del: b64_decode_loop.simps b64_encode_loop.simps)
  qed (use less(2) decode_tail1 decode_tail2 in \<open>simp_all del: b64_encode_loop.simps(2)\<close>)
qed

lemma b64_roundtrip: "b64_decode (b64_encode cs) = Inr cs"
  by (simp add: b64_encode_def b64_decode_def b64_loop_roundtrip)

subsection \<open>Base64 lengths\<close>

lemma b64_encode_loop_length:
  "col < 76 \<Longrightarrow> col mod 4 = 0 \<Longrightarrow>
   length (b64_encode_loop 2 0 col cs) = 4 * ((length cs + 2) div 3) + (col + 4 * (length cs div 3)) div 76"
proof (induction "length cs" arbitrary: cs col rule: less_induct)
  case less
  consider "cs = []" | a where "cs = [a]" | a b where "cs = [a, b]" | a b c ss where "cs = a # b # c # ss"
    by (metis neq_Nil_conv)
  then show ?case
  proof cases
    case (4 a b c ss)
    have IH: "length (b64_encode_loop 2 0 k ss) = 4 * ((length ss + 2) div 3) + (k + 4 * (length ss div 3)) div 76"
      if "k < 76" "k mod 4 = 0" for k
      using less(1) [of ss k] that 4 by simp
    have d: "(length ss + 3 + 2) div 3 = (length ss + 2) div 3 + 1" "(3 + length ss) div 3 = length ss div 3 + 1" by simp_all
    show ?thesis
    proof (cases "76 \<le> col + 4")
      case True
      then have c: "col = 72" using less(2,3) by presburger
      have e: "(72 + 4 * (length ss div 3 + 1)) div 76 = 1 + 4 * (length ss div 3) div 76" by simp
      show ?thesis unfolding 4 encode_loop_step [OF less(2)] using IH [of 0] c d e by simp
    next
      case False
      have "(col + 4) mod 4 = 0" using less(3) by presburger
      then show ?thesis unfolding 4 encode_loop_step [OF less(2)] using IH [of "col + 4"] False d by (simp add: algebra_simps)
    qed
  qed (use less(2) in \<open>simp_all add: numeral_2_eq_2 Let_def\<close>)
qed

lemma b64_encode_length: "length (b64_encode cs) = 4 * ((length cs + 2) div 3) + 4 * (length cs div 3) div 76"
  using b64_encode_loop_length [of 0 cs] by (simp add: b64_encode_def)

lemma b64_encode_length_le: "length (b64_encode cs) \<le> (length cs + 2) * 4 div 3 + length cs div 57"
proof -
  have "4 * (length cs div 3) div 76 = length cs div 3 div 19" by simp
  also have "\<dots> = length cs div 57" by (simp add: div_mult2_eq [symmetric])
  finally have "4 * (length cs div 3) div 76 = length cs div 57" .
  moreover have "4 * ((length cs + 2) div 3) \<le> (length cs + 2) * 4 div 3" by presburger
  ultimately show ?thesis by (simp add: b64_encode_length)
qed

lemma b64_decode_loop_length:
  "b64_decode_loop buf pos e cs = Inr r \<Longrightarrow> pos < 4 \<Longrightarrow> 4 * length r \<le> 3 * (pos + length cs)"
proof (induction buf pos e cs arbitrary: r rule: b64_decode_loop.induct)
  case (2 buf pos e c cs)
  show ?case
  proof (cases "is_space c")
    case True
    then show ?thesis using 2 by fastforce
  next
    case False
    let ?sym = "if c = 61 then (if e = 0 then (if pos = 2 then Inr (0, 1) else if pos = 3 then Inr (0, 2) else Inl invalid_parameter)
        else Inr (0, e)) else bindE (get_b64 c) (\<lambda>b. Inr (b, e))"
    obtain b e' where sym: "?sym = Inr (b, e')"
      using 2(4) False by (cases ?sym) auto
    show ?thesis
    proof (cases "pos + 1 = 4")
      case True
      then obtain r' where r': "b64_decode_loop 0 0 e' cs = Inr r'" "length r \<le> 3 + length r'"
        using 2(4) False sym by (cases "b64_decode_loop 0 0 e' cs") (auto simp: Let_def)
      then show ?thesis using 2(2) [OF False refl refl True r'(1)] True by simp
    next
      case npos: False
      then have "b64_decode_loop (push_bit 6 buf + b) (pos + 1) e' cs = Inr r" using 2(4) False sym by (simp add: Let_def)
      then show ?thesis using 2(3) [OF False refl refl npos] 2(5) npos by fastforce
    qed
  qed
qed (auto split: if_splits)

subsection \<open>Escape round trip\<close>

lemma octal_digits:
  "drop_bit 6 c + 48 \<le> (51 :: uint8) \<and> 48 \<le> drop_bit 6 c + 48 \<and>
   48 \<le> (drop_bit 3 c AND 7) + 48 \<and> (drop_bit 3 c AND 7) + 48 \<le> 55 \<and> 48 \<le> (c AND 7) + 48 \<and> (c AND 7) + 48 \<le> 55 \<and>
   push_bit 3 (push_bit 3 (drop_bit 6 c) + (drop_bit 3 c AND 7)) + (c AND 7) = c"
proof -
  have "\<forall>c :: uint8. drop_bit 6 c + 48 \<le> 51 \<and> 48 \<le> drop_bit 6 c + 48 \<and>
   48 \<le> (drop_bit 3 c AND 7) + 48 \<and> (drop_bit 3 c AND 7) + 48 \<le> 55 \<and> 48 \<le> (c AND 7) + 48 \<and> (c AND 7) + 48 \<le> 55 \<and>
   push_bit 3 (push_bit 3 (drop_bit 6 c) + (drop_bit 3 c AND 7)) + (c AND 7) = c"
    unfolding all_bytes by code_simp
  then show ?thesis by blast
qed

lemma esc_roundtrip: "esc_decode (esc_encode cs) = Inr cs \<and> esc_dec_len (esc_encode cs) = Inr (length cs)"
proof (induction cs)
  case (Cons c cs)
  consider (oct) "c = 0 \<or> IS_HIGHBIT_SET c" | (bs) "\<not> (c = 0 \<or> IS_HIGHBIT_SET c)" "c = 92"
    | (plain) "\<not> (c = 0 \<or> IS_HIGHBIT_SET c)" "c \<noteq> 92" by blast
  then show ?case
  proof cases
    case oct
    have o: "octal_escape (DIG (drop_bit 6 c) # DIG (drop_bit 3 c AND 7) # DIG (c AND 7) # esc_encode cs)"
      using octal_digits [of c] by (simp add: octal_escape_def DIG_def numeral_2_eq_2)
    have v: "VAL (DIG x) = x" for x by (simp add: VAL_def DIG_def)
    have "push_bit 3 (push_bit 3 (drop_bit 6 c) + (drop_bit 3 c AND 7)) + (c AND 7) = c" using octal_digits [of c] by blast
    then show ?thesis using oct o Cons by (simp add: v numeral_2_eq_2 numeral_3_eq_3)
  next
    case bs
    have "\<not> octal_escape (92 # esc_encode cs)" by (simp add: octal_escape_def)
    then show ?thesis using bs Cons by simp
  next
    case plain
    then show ?thesis using Cons by simp
  qed
qed simp

lemma esc_encode_length:
  "length (esc_encode cs) = (\<Sum>c \<leftarrow> cs. if c = 0 \<or> IS_HIGHBIT_SET c then 4 else if c = 92 then 2 else 1)"
  by (induction cs) simp_all

lemma esc_encode_length_le: "length (esc_encode cs) \<le> 4 * length cs"
  by (induction cs) simp_all

lemma esc_decode_len_eq: "esc_decode cs = Inr r \<Longrightarrow> esc_dec_len cs = Inr (length r)"
proof (induction cs arbitrary: r rule: esc_decode.induct)
  case (2 c cs)
  then show ?case by (auto simp: bindE_def split: if_splits sum.splits)
qed simp

lemma esc_dec_len_le: "esc_dec_len cs = Inr n \<Longrightarrow> n \<le> length cs"
proof (induction cs arbitrary: n rule: esc_dec_len.induct)
  case (2 c cs)
  then obtain m where m: "n = m + 1" "esc_dec_len cs = Inr m \<and> c \<noteq> 92 \<or> (\<exists>k. esc_dec_len (drop k cs) = Inr m \<and>
      (k = 3 \<and> c = 92 \<and> octal_escape cs \<or> k = 1 \<and> c = 92 \<and> \<not> octal_escape cs \<and> 1 \<le> length cs \<and> cs ! 0 = 92))"
    by (auto simp: bindE_def split: if_splits sum.splits)
  then have "m \<le> length cs" using 2(1,2,3) by (auto intro: order_trans)
  then show ?case using m(1) by simp
qed simp

subsection \<open>The contract of an encoding\<close>

text \<open>
  The data fit in a varlena of less than 1 GB: \<open>max_data\<close> bytes after the four-byte header.
\<close>

definition max_data :: nat where
  "max_data = 0x3ffffffb"

locale codec =
  fixes enc :: pg_encoding
  assumes decode_encode: "decode enc (encode enc cs) = Inr cs"
    and encode_fits: "length cs \<le> max_data \<Longrightarrow> palloc_ok (to_int (encode_len enc cs)) \<Longrightarrow>
      int (length (encode enc cs)) \<le> to_int (encode_len enc cs)"
    and decode_fits: "length t \<le> max_data \<Longrightarrow> decode enc t = Inr cs \<Longrightarrow>
      \<exists>n. decode_len enc t = Inr n \<and> length cs \<le> n \<and> palloc_ok (to_int n) \<and> to_int n = int n"
begin

lemma encode_never_overflows:
  assumes "pg_find_encoding high name = Some enc" "length cs \<le> max_data"
  shows "binary_encode high cs name =
    (if palloc_ok (to_int (encode_len enc cs)) then Inr (encode enc cs) else Inl invalid_parameter)"
  using assms encode_fits [OF assms(2)] by (auto simp: binary_encode_def Let_def)

lemma decode_never_overflows:
  assumes "pg_find_encoding high name = Some enc" "length t \<le> max_data" "decode enc t = Inr cs"
  shows "binary_decode high t name = Inr cs"
  using assms decode_fits [OF assms(2,3)] by (auto simp: binary_decode_def Let_def)

lemma encode_then_decode:
  assumes "pg_find_encoding high name = Some enc" "length cs \<le> max_data" "binary_encode high cs name = Inr t"
  shows "binary_decode high t name = Inr cs"
proof -
  have t: "palloc_ok (to_int (encode_len enc cs))" "t = encode enc cs"
    using encode_never_overflows [OF assms(1,2)] assms(3) by (auto split: if_splits)
  have "int (length t) \<le> to_int (encode_len enc cs)" using encode_fits [OF assms(2) t(1)] t(2) by simp
  then have "length t \<le> max_data" using t(1) unfolding palloc_ok_def max_data_def by linarith
  then show ?thesis using decode_never_overflows [OF assms(1)] decode_encode t(2) by simp
qed

end

lemma to_int_small: "n < 2 ^ 31 \<Longrightarrow> to_int n = int n"
  by (simp add: to_int_def)

interpretation hex: codec hex_pg_encoding
proof unfold_locales
  fix cs t :: bytes
  show "decode hex_pg_encoding (encode hex_pg_encoding cs) = Inr cs"
    by (simp add: hex_pg_encoding_def hex_roundtrip)
  show "int (length (encode hex_pg_encoding cs)) \<le> to_int (encode_len hex_pg_encoding cs)" if "length cs \<le> max_data"
    using that by (simp add: hex_pg_encoding_def hex_encode_length hex_enc_len_def max_data_def to_int_def)
  show "\<exists>n. decode_len hex_pg_encoding t = Inr n \<and> length cs \<le> n \<and> palloc_ok (to_int n) \<and> to_int n = int n"
    if "length t \<le> max_data" "decode hex_pg_encoding t = Inr cs"
  proof -
    have "length cs \<le> length t div 2" using that(2) hex_decode_length [of t cs] by (simp add: hex_pg_encoding_def)
    moreover have "length t div 2 \<le> 0x3ffffffb" using that(1) unfolding max_data_def by linarith
    ultimately show ?thesis by (simp add: hex_pg_encoding_def hex_dec_len_def to_int_def palloc_ok_def)
  qed
qed

interpretation b64: codec b64_pg_encoding
proof unfold_locales
  fix cs t :: bytes
  show "decode b64_pg_encoding (encode b64_pg_encoding cs) = Inr cs"
    by (simp add: b64_pg_encoding_def b64_roundtrip)
  show "int (length (encode b64_pg_encoding cs)) \<le> to_int (encode_len b64_pg_encoding cs)" if l: "length cs \<le> max_data"
  proof -
    have s: "(length cs + 2) * 4 mod 2 ^ 32 = (length cs + 2) * 4" using l by (simp add: max_data_def)
    have "(length cs + 2) * 4 div 3 \<le> 0xfffffff4 div 3" "length cs div 57 \<le> 0x3ffffffb div 57"
      using l by (auto intro!: div_le_mono simp: max_data_def)
    then have "(length cs + 2) * 4 div 3 + length cs div 57 < 2 ^ 31" by simp
    then have "to_int (b64_enc_len cs) = int ((length cs + 2) * 4 div 3 + length cs div 57)"
      unfolding b64_enc_len_def Let_def s by (simp add: to_int_def)
    then show ?thesis using b64_encode_length_le [of cs] by (simp add: b64_pg_encoding_def)
  qed
  show "\<exists>n. decode_len b64_pg_encoding t = Inr n \<and> length cs \<le> n \<and> palloc_ok (to_int n) \<and> to_int n = int n"
    if "length t \<le> max_data" "decode b64_pg_encoding t = Inr cs"
  proof -
    have "4 * length cs \<le> 3 * length t"
      using that(2) b64_decode_loop_length [of 0 0 0 t cs] by (simp add: b64_pg_encoding_def b64_decode_def)
    then have "length cs \<le> length t * 3 div 4" by (simp add: less_eq_div_iff_mult_less_eq mult.commute)
    moreover have "length t * 3 div 4 \<le> 0xbffffff1 div 4"
      using that(1) by (intro div_le_mono) (simp add: max_data_def)
    ultimately show ?thesis using that(1)
      by (simp add: b64_pg_encoding_def b64_dec_len_def max_data_def to_int_def palloc_ok_def)
  qed
qed

interpretation esc: codec esc_pg_encoding
proof unfold_locales
  fix cs t :: bytes
  show "decode esc_pg_encoding (encode esc_pg_encoding cs) = Inr cs"
    by (simp add: esc_pg_encoding_def esc_roundtrip)
  show "int (length (encode esc_pg_encoding cs)) \<le> to_int (encode_len esc_pg_encoding cs)"
    if "length cs \<le> max_data" "palloc_ok (to_int (encode_len esc_pg_encoding cs))"
  proof -
    have "length (esc_encode cs) < 2 ^ 32" using esc_encode_length_le [of cs] that(1) by (simp add: max_data_def)
    then have "esc_enc_len cs = length (esc_encode cs)" by (simp add: esc_enc_len_def esc_encode_length [symmetric])
    then show ?thesis using that esc_encode_length_le [of cs]
      by (auto simp: esc_pg_encoding_def to_int_def palloc_ok_def max_data_def split: if_splits)
  qed
  show "\<exists>n. decode_len esc_pg_encoding t = Inr n \<and> length cs \<le> n \<and> palloc_ok (to_int n) \<and> to_int n = int n"
    if "length t \<le> max_data" "decode esc_pg_encoding t = Inr cs"
  proof -
    have "esc_dec_len t = Inr (length cs)" using that(2) by (simp add: esc_pg_encoding_def esc_decode_len_eq)
    then show ?thesis using esc_dec_len_le [of t "length cs"] that(1)
      by (simp add: esc_pg_encoding_def max_data_def to_int_def palloc_ok_def)
  qed
qed

subsection \<open>Properties\<close>

lemma find_encoding_codec: "pg_find_encoding high name = Some enc \<Longrightarrow> codec enc"
  using hex.codec_axioms b64.codec_axioms esc.codec_axioms
  by (auto simp: pg_find_encoding_def enclist_def split: if_splits)

lemma strcasecmp_self: "pg_strcasecmp high s s = 0"
  by (induction s) (simp_all add: pg_strcasecmp.simps [of high] c_head_def)

lemma strcasecmp_evals:
  "pg_strcasecmp id [104, 101, 120] [66, 65, 83, 69, 54, 52] \<noteq> 0"
  "pg_strcasecmp id [98, 97, 115, 101, 54, 52] [66, 65, 83, 69, 54, 52] = 0"
  "pg_strcasecmp id [104, 101, 120] [101, 115, 99, 97, 112, 101] \<noteq> 0"
  "pg_strcasecmp id [98, 97, 115, 101, 54, 52] [101, 115, 99, 97, 112, 101] \<noteq> 0"
  "pg_strcasecmp id [101, 115, 99, 97, 112, 101] [101, 115, 99, 97, 112, 101] = 0"
  by code_simp+

text \<open>
  C35. Round trip: what \<open>binary_encode\<close> produced, in any of the encodings and under any spelling of its
  name, \<open>binary_decode\<close> turns back into the same bytes.
\<close>

theorem binary_encode_decode_roundtrip:
  assumes "length data \<le> max_data" and "binary_encode high data name = Inr t"
  shows "binary_decode high t name = Inr data"
proof -
  obtain enc where f: "pg_find_encoding high name = Some enc"
    using assms(2) by (auto simp: binary_encode_def split: option.splits)
  show ?thesis using codec.encode_then_decode [OF find_encoding_codec [OF f] f assms] .
qed

theorem binary_encode_decode_roundtrip_witness:
  "binary_encode id [0, 255, 92, 65] [66, 65, 83, 69, 54, 52] = Inr [65, 80, 57, 99, 81, 81, 61, 61] \<and>
   binary_decode id [65, 80, 57, 99, 81, 81, 61, 61] [66, 65, 83, 69, 54, 52] = Inr [0, 255, 92, 65]"
proof -
  have f: "pg_find_encoding id [66, 65, 83, 69, 54, 52] = Some b64_pg_encoding"
    by (simp add: pg_find_encoding_def enclist_def strcasecmp_evals)
  have "b64_encode [0, 255, 92, 65] = [65, 80, 57, 99, 81, 81, 61, 61]" by code_simp
  then have e: "binary_encode id [0, 255, 92, 65] [66, 65, 83, 69, 54, 52] = Inr [65, 80, 57, 99, 81, 81, 61, 61]"
    by (simp add: binary_encode_def f b64_pg_encoding_def b64_enc_len_def to_int_def palloc_ok_def)
  have "length [0, 255, 92, 65 :: uint8] \<le> max_data" by (simp add: max_data_def)
  from binary_encode_decode_roundtrip [OF this e] e show ?thesis by blast
qed

text \<open>
  C39. The output buffer never overflows: for data of any size that a varlena can hold, \<open>binary_encode\<close> gives the
  encoding, or the error of an unknown name or of a result too large to allocate, and never the FATAL
  error for a wrong estimate.
\<close>

theorem binary_encode_no_overflow:
  assumes "length data \<le> max_data"
  shows "binary_encode high data name =
    (case pg_find_encoding high name of
       None \<Rightarrow> Inl invalid_parameter
     | Some enc \<Rightarrow> if palloc_ok (to_int (encode_len enc data)) then Inr (encode enc data) else Inl invalid_parameter)"
proof (cases "pg_find_encoding high name")
  case None
  then show ?thesis by (simp add: binary_encode_def)
next
  case (Some enc)
  then show ?thesis using codec.encode_never_overflows [OF find_encoding_codec Some assms] by simp
qed

theorem binary_encode_no_overflow_witness:
  "binary_encode id [1, 2] [101, 115, 99, 97, 112, 101] = Inr [1, 2]"
proof -
  have f: "pg_find_encoding id [101, 115, 99, 97, 112, 101] = Some esc_pg_encoding"
    by (simp add: pg_find_encoding_def enclist_def strcasecmp_evals)
  have "length [1, 2 :: uint8] \<le> max_data" by (simp add: max_data_def)
  from binary_encode_no_overflow [OF this, of id "[101, 115, 99, 97, 112, 101]"] show ?thesis
    unfolding f by (simp add: esc_pg_encoding_def esc_enc_len_def to_int_def palloc_ok_def IS_HIGHBIT_SET_def HIGHBIT_def)
qed

text \<open>
  Every text that a decoder accepts is decoded: the allocation estimate of \<open>binary_decode\<close> is never too small.
\<close>

lemma binary_decode_no_overflow:
  assumes "length t \<le> max_data" and "pg_find_encoding high name = Some enc" and "decode enc t = Inr data"
  shows "binary_decode high t name = Inr data"
  using codec.decode_never_overflows [OF find_encoding_codec [OF assms(2)] assms(2,1,3)] .

text \<open>
  The exact length of the base64 text: four symbols for every three bytes begun, and a
  line feed after every 76 symbols that are completed within the loop.
\<close>

lemma b64_encode_exact_length:
  "length (b64_encode data) = 4 * ((length data + 2) div 3) + length data div 57"
proof -
  have "4 * (length data div 3) div 76 = length data div 3 div 19" by simp
  also have "\<dots> = length data div 57" by (simp add: div_mult2_eq [symmetric])
  finally show ?thesis by (simp add: b64_encode_length)
qed

text \<open>
  What becomes of data whose encoding follows an end sequence: of every group of three bytes, the last one filled up with zeros, only the first
  \<open>k\<close> are kept.
\<close>

fun first_of_groups :: "nat \<Rightarrow> bytes \<Rightarrow> bytes" where
  "first_of_groups k (a # b # c # ss) = take k [a, b, c] @ first_of_groups k ss"
| "first_of_groups k [a, b] = take k [a, b, 0]"
| "first_of_groups k [a] = take k [a, 0, 0]"
| "first_of_groups k [] = []"

lemma decode_group_after:
  assumes "k = 1 \<or> k = 2"
  shows "b64_decode_loop 0 0 k ([sextet (b64_group a b c) 18, sextet (b64_group a b c) 12, sextet (b64_group a b c) 6, sextet (b64_group a b c) 0] @ rest) =
    bindE (b64_decode_loop 0 0 k rest) (\<lambda>r. Inr (take k [a, b, c] @ r))"
  using b64_group_join [of a b c] assms by (auto simp: sextet_spec b64_group_bytes Let_def)

lemma decode_tails_after:
  assumes "k = 1 \<or> k = 2" and "col < 76"
  shows "b64_decode_loop 0 0 k (b64_encode_loop 2 0 col [a]) = Inr (take k [a, 0, 0])"
    and "b64_decode_loop 0 0 k (b64_encode_loop 2 0 col [a, b]) = Inr (take k [a, b, 0])"
  using b64_group_join [of a 0 0] b64_group_low(1) [of a 0] b64_group_low(2) [of a] b64_group_join [of a b 0] b64_group_low(1) [of a b] assms
  by (auto simp: encode_tails sextet_spec b64_group_bytes not_space_pad Let_def simp del: b64_encode_loop.simps)

lemma decode_loop_after:
  "k = 1 \<or> k = 2 \<Longrightarrow> col < 76 \<Longrightarrow> b64_decode_loop 0 0 k (b64_encode_loop 2 0 col cs) = Inr (first_of_groups k cs)"
proof (induction k cs arbitrary: col rule: first_of_groups.induct)
  case (1 k a b c ss)
  have IH: "b64_decode_loop 0 0 k (b64_encode_loop 2 0 j ss) = Inr (first_of_groups k ss)" if "j < 76" for j
    by (rule 1(1) [OF 1(2) that])
  show ?case unfolding encode_loop_step [OF 1(3)] decode_group_after [OF 1(2)]
    using IH [of 0] IH [of "col + 4"] by (simp add: decode_newline del: b64_decode_loop.simps b64_encode_loop.simps)
qed (use decode_tails_after in \<open>simp_all del: b64_encode_loop.simps(2)\<close>)

text \<open>The pad count that is in force after the encoding of some data.\<close>

lemma decode_append:
  "col < 76 \<Longrightarrow> b64_decode_loop 0 0 0 (b64_encode_loop 2 0 col cs @ rest) =
    bindE (b64_decode_loop 0 0 (length cs mod 3) rest) (\<lambda>r. Inr (cs @ r))"
proof (induction "length cs" arbitrary: cs col rule: less_induct)
  case less
  consider "cs = []" | a where "cs = [a]" | a b where "cs = [a, b]" | a b c ss where "cs = a # b # c # ss"
    by (metis neq_Nil_conv)
  then show ?case
  proof cases
    case 1
    then show ?thesis by (cases "b64_decode_loop 0 0 0 rest") simp_all
  next
    case (2 a)
    then show ?thesis using less(2) b64_group_join [of a 0 0] b64_group_low(1) [of a 0] b64_group_low(2) [of a]
      by (simp add: encode_tails sextet_spec b64_group_bytes not_space_pad Let_def del: b64_encode_loop.simps)
  next
    case (3 a b)
    then have m: "length cs mod 3 = 2" by simp
    show ?thesis unfolding m unfolding 3 using less(2) b64_group_join [of a b 0] b64_group_low(1) [of a b]
      by (simp add: encode_tails sextet_spec b64_group_bytes not_space_pad Let_def del: b64_encode_loop.simps)
  next
    case (4 a b c ss)
    have IH: "b64_decode_loop 0 0 0 (b64_encode_loop 2 0 k ss @ rest) =
        bindE (b64_decode_loop 0 0 (length cs mod 3) rest) (\<lambda>r. Inr (ss @ r))" if "k < 76" for k
      using less(1) [of ss k] that 4 by (simp del: b64_decode_loop.simps b64_encode_loop.simps)
    show ?thesis unfolding 4 encode_loop_step [OF less(2)] append_assoc decode_group
      using IH [of 0] IH [of "col + 4"] unfolding 4
      by (cases "b64_decode_loop 0 0 (length (a # b # c # ss) mod 3) rest")
        (simp_all add: decode_newline del: b64_decode_loop.simps b64_encode_loop.simps)
  qed
qed

text \<open>
  C40. Data after a base64 end sequence is not rejected, and not decoded either: the pad count of the first end sequence
  stays in force. If the encoding of some bytes, whose number is not a multiple of three, is followed by the encoding of any others, the text is
  accepted, and of every group of three of the later bytes (the last group filled up with zeros) only as many are kept as the last group of the
  earlier bytes had, one or two.
\<close>

theorem b64_decode_drops_after_padding:
  assumes "length xs mod 3 \<noteq> 0"
  shows "b64_decode (b64_encode xs @ b64_encode ys) = Inr (xs @ first_of_groups (length xs mod 3) ys)"
proof -
  have "length xs mod 3 = 1 \<or> length xs mod 3 = 2" using assms by linarith
  note decode_loop_after [OF this, of 0 ys]
  then show ?thesis
    by (simp add: b64_decode_def b64_encode_def decode_append del: b64_decode_loop.simps b64_encode_loop.simps)
qed

theorem b64_decode_drops_after_padding_witness:
  "b64_decode (b64_encode [1, 2] @ b64_encode [3, 4, 5, 6, 7, 8, 9]) = Inr [1, 2, 3, 4, 6, 7, 9, 0]"
  using b64_decode_drops_after_padding [of "[1, 2]" "[3, 4, 5, 6, 7, 8, 9]"] by (simp add: numeral_2_eq_2)

end
