(* ===== verification/BufPage.thy ===== *)
theory BufPage
  imports QSort HashFunc
begin

text \<open>
  The slotted page: \<^verbatim>\<open>src/src/gausskernel/storage/access/redo/redo_bufpage.cpp\<close> and the
  free-space functions of \<^verbatim>\<open>src/src/gausskernel/storage/page/bufpage.cpp\<close>, with the
  macros of \<^verbatim>\<open>bufpage.h\<close> and \<^verbatim>\<open>itemid.h\<close>.

  A page is its header, its line pointer array \<open>pd_linp\<close> (index 0 is offset number 1) and
  the bytes \<open>pd_mem\<close> at the offsets from its start, as far as they hold tuples and special
  space. The line pointer array is kept apart from the bytes: it ends at \<open>pd_lower\<close>, below
  every byte that the operations write, as the checks of the header fields at their start
  ensure. Both are total functions, so that a corrupted pointer reads whatever lies there.
  Assertions are compiled out, as in a production build. An operation that may raise returns
  the page as it is at that moment beside the error.
\<close>

subsection \<open>Data\<close>

definition BLCKSZ :: nat where
  "BLCKSZ = 8192"

definition SizeOfPageHeaderData :: nat where
  "SizeOfPageHeaderData = 24"

definition SizeOfHeapPageHeaderData :: nat where
  "SizeOfHeapPageHeaderData = 40"

abbreviation (input) sizeof_ItemIdData :: nat where
  "sizeof_ItemIdData \<equiv> 4"

datatype lp_state = LP_UNUSED | LP_NORMAL | LP_REDIRECT | LP_DEAD

text \<open>The offset and the length are fields of 15 bits.\<close>

record ItemIdData =
  lp_off :: nat
  lp_flags :: lp_state
  lp_len :: nat

record PageHeaderData =
  pd_lsn :: uint64
  pd_checksum :: uint16
  pd_flags :: uint16
  pd_lower :: nat
  pd_upper :: nat
  pd_special :: nat
  pd_pagesize_version :: uint16
  pd_prune_xid :: uint32
  pd_xid_base :: uint64
  pd_multi_base :: uint64
  pd_linp :: "nat \<Rightarrow> ItemIdData"
  pd_mem :: "nat \<Rightarrow> uint8"

type_synonym page = PageHeaderData

definition PD_HAS_FREE_LINES :: uint16 where
  "PD_HAS_FREE_LINES = 0x0001"

definition PD_ALL_VISIBLE :: uint16 where
  "PD_ALL_VISIBLE = 0x0004"

definition PD_COMPRESSED_PAGE :: uint16 where
  "PD_COMPRESSED_PAGE = 0x0008"

definition PG_SEGMENT_PAGE_LAYOUT_VERSION :: uint16 where
  "PG_SEGMENT_PAGE_LAYOUT_VERSION = 8"

definition PG_HEAP_PAGE_LAYOUT_VERSION :: uint16 where
  "PG_HEAP_PAGE_LAYOUT_VERSION = 6"

definition PG_COMM_PAGE_LAYOUT_VERSION :: uint16 where
  "PG_COMM_PAGE_LAYOUT_VERSION = 5"

definition PG_PAGE_4B_LAYOUT_VERSION :: uint16 where
  "PG_PAGE_4B_LAYOUT_VERSION = 4"

definition PageGetPageSize :: "page \<Rightarrow> nat" where
  "PageGetPageSize p = unat (pd_pagesize_version p AND 0xFF00)"

definition PageGetPageLayoutVersion :: "page \<Rightarrow> uint16" where
  "PageGetPageLayoutVersion p = pd_pagesize_version p AND 0x00FF"

definition PageSetPageSizeAndVersion :: "page \<Rightarrow> nat \<Rightarrow> uint16 \<Rightarrow> page" where
  "PageSetPageSizeAndVersion p sz version = p\<lparr>pd_pagesize_version := of_nat sz OR version\<rparr>"

definition PageIs8BXidHeapVersion :: "page \<Rightarrow> bool" where
  "PageIs8BXidHeapVersion p \<longleftrightarrow> PageGetPageLayoutVersion p = PG_HEAP_PAGE_LAYOUT_VERSION"

definition PageIs4BXidVersion :: "page \<Rightarrow> bool" where
  "PageIs4BXidVersion p \<longleftrightarrow> PageGetPageLayoutVersion p = PG_PAGE_4B_LAYOUT_VERSION"

definition GetPageHeaderSize :: "page \<Rightarrow> nat" where
  "GetPageHeaderSize p = (if PageIs8BXidHeapVersion p then SizeOfHeapPageHeaderData else SizeOfPageHeaderData)"

definition PageIsEmpty :: "page \<Rightarrow> bool" where
  "PageIsEmpty p \<longleftrightarrow> pd_lower p \<le> GetPageHeaderSize p"

definition PageGetMaxOffsetNumber :: "page \<Rightarrow> nat" where
  "PageGetMaxOffsetNumber p =
    (if pd_lower p \<le> GetPageHeaderSize p then 0 else (pd_lower p - GetPageHeaderSize p) div sizeof_ItemIdData)"

definition PageGetItemId :: "page \<Rightarrow> nat \<Rightarrow> ItemIdData" where
  "PageGetItemId p offsetNumber = pd_linp p (offsetNumber - 1)"

definition PageGetSpecialSize :: "page \<Rightarrow> nat" where
  "PageGetSpecialSize p = nat ((int (PageGetPageSize p) - int (pd_special p)) mod 2 ^ 16)"

definition PageHasFreeLinePointers :: "page \<Rightarrow> bool" where
  "PageHasFreeLinePointers p \<longleftrightarrow> pd_flags p AND PD_HAS_FREE_LINES \<noteq> 0"

definition PageSetHasFreeLinePointers :: "page \<Rightarrow> page" where
  "PageSetHasFreeLinePointers p = p\<lparr>pd_flags := pd_flags p OR PD_HAS_FREE_LINES\<rparr>"

definition PageClearHasFreeLinePointers :: "page \<Rightarrow> page" where
  "PageClearHasFreeLinePointers p = p\<lparr>pd_flags := pd_flags p AND NOT PD_HAS_FREE_LINES\<rparr>"

definition PageIsAllVisible :: "page \<Rightarrow> bool" where
  "PageIsAllVisible p \<longleftrightarrow> pd_flags p AND PD_ALL_VISIBLE \<noteq> 0"

definition PageSetCompressed :: "page \<Rightarrow> page" where
  "PageSetCompressed p = p\<lparr>pd_flags := pd_flags p OR PD_COMPRESSED_PAGE\<rparr>"

definition PageClearCompressed :: "page \<Rightarrow> page" where
  "PageClearCompressed p = p\<lparr>pd_flags := pd_flags p AND NOT PD_COMPRESSED_PAGE\<rparr>"

definition ItemIdIsUsed :: "ItemIdData \<Rightarrow> bool" where
  "ItemIdIsUsed lp \<longleftrightarrow> lp_flags lp \<noteq> LP_UNUSED"

definition ItemIdHasStorage :: "ItemIdData \<Rightarrow> bool" where
  "ItemIdHasStorage lp \<longleftrightarrow> lp_len lp \<noteq> 0"

definition ItemIdSetUnused :: "ItemIdData \<Rightarrow> ItemIdData" where
  "ItemIdSetUnused lp = lp\<lparr>lp_flags := LP_UNUSED, lp_off := 0, lp_len := 0\<rparr>"

definition ItemIdSetNormal :: "ItemIdData \<Rightarrow> nat \<Rightarrow> nat \<Rightarrow> ItemIdData" where
  "ItemIdSetNormal lp off len = lp\<lparr>lp_flags := LP_NORMAL, lp_off := off mod 2 ^ 15, lp_len := len mod 2 ^ 15\<rparr>"

text \<open>\<open>memmove\<close> reads the whole source before it writes; \<open>memcpy\<close> writes the bytes of another object.\<close>

definition memmove :: "nat \<Rightarrow> nat \<Rightarrow> nat \<Rightarrow> (nat \<Rightarrow> uint8) \<Rightarrow> nat \<Rightarrow> uint8" where
  "memmove dest src n m = (\<lambda>i. if dest \<le> i \<and> i < dest + n then m (src + (i - dest)) else m i)"

definition memcpy :: "nat \<Rightarrow> uint8 list \<Rightarrow> (nat \<Rightarrow> uint8) \<Rightarrow> nat \<Rightarrow> uint8" where
  "memcpy dest bs m = (\<lambda>i. if dest \<le> i \<and> i < dest + length bs then bs ! (i - dest) else m i)"

definition DataCorrupted :: "elevel \<Rightarrow> pg_error" where
  "DataCorrupted lvl = Ereport lvl ERRCODE_DATA_CORRUPTED"

definition InvalidOffsetNumber :: nat where
  "InvalidOffsetNumber = 0"

definition MaxOffsetNumber :: nat where
  "MaxOffsetNumber = BLCKSZ div sizeof_ItemIdData"

definition OffsetNumberIsValid :: "nat \<Rightarrow> bool" where
  "OffsetNumberIsValid n \<longleftrightarrow> n \<noteq> InvalidOffsetNumber \<and> n \<le> MaxOffsetNumber"

text \<open>A heap tuple header takes 23 bytes before its null bitmap, an index tuple header takes 8.\<close>

definition MaxHeapTuplesPerPage :: nat where
  "MaxHeapTuplesPerPage = (BLCKSZ - SizeOfHeapPageHeaderData) div (MAXALIGN 23 + sizeof_ItemIdData)"

definition MaxIndexTuplesPerPage :: nat where
  "MaxIndexTuplesPerPage = (BLCKSZ - SizeOfPageHeaderData) div (MAXALIGN (8 + 1) + sizeof_ItemIdData)"

subsection \<open>Initialization\<close>

definition zeroed_page :: page where
  "zeroed_page = \<lparr>pd_lsn = 0, pd_checksum = 0, pd_flags = 0, pd_lower = 0, pd_upper = 0, pd_special = 0,
    pd_pagesize_version = 0, pd_prune_xid = 0, pd_xid_base = 0, pd_multi_base = 0,
    pd_linp = (\<lambda>_. \<lparr>lp_off = 0, lp_flags = LP_UNUSED, lp_len = 0\<rparr>), pd_mem = (\<lambda>_. 0)\<rparr>"

definition PageInit :: "nat \<Rightarrow> nat \<Rightarrow> bool \<Rightarrow> page" where
  "PageInit pageSize specialSize isHeap =
    (let specialSize = MAXALIGN specialSize;
         p = zeroed_page\<lparr>pd_upper := pageSize - specialSize, pd_special := pageSize - specialSize\<rparr>
     in if isHeap
        then PageSetPageSizeAndVersion (p\<lparr>pd_lower := SizeOfHeapPageHeaderData\<rparr>) pageSize PG_HEAP_PAGE_LAYOUT_VERSION
        else PageSetPageSizeAndVersion (p\<lparr>pd_lower := SizeOfPageHeaderData\<rparr>) pageSize PG_COMM_PAGE_LAYOUT_VERSION)"

definition SegPageInit :: "nat \<Rightarrow> page" where
  "SegPageInit pageSize =
    PageSetPageSizeAndVersion
      (zeroed_page\<lparr>pd_upper := pageSize, pd_special := pageSize, pd_lower := SizeOfPageHeaderData\<rparr>)
      pageSize PG_SEGMENT_PAGE_LAYOUT_VERSION"

definition PageReinitWithDict :: "page \<Rightarrow> nat \<Rightarrow> page" where
  "PageReinitWithDict page dictSize =
    (let pd = PageSetCompressed page;
         pd = pd\<lparr>pd_upper := PageGetPageSize page - MAXALIGN dictSize\<rparr>
     in pd\<lparr>pd_special := pd_upper pd\<rparr>)"

subsection \<open>Free space\<close>

definition PageGetFreeSpace :: "page \<Rightarrow> nat" where
  "PageGetFreeSpace p =
    (let space = int (pd_upper p) - int (pd_lower p)
     in if space < int sizeof_ItemIdData then 0 else nat (space - int sizeof_ItemIdData))"

definition PageGetExactFreeSpace :: "page \<Rightarrow> nat" where
  "PageGetExactFreeSpace p =
    (let space = int (pd_upper p) - int (pd_lower p) in if space < 0 then 0 else nat space)"

definition PageGetFreeSpaceForMultipleTuples :: "page \<Rightarrow> nat \<Rightarrow> nat" where
  "PageGetFreeSpaceForMultipleTuples p ntups =
    (let space = int (pd_upper p) - int (pd_lower p)
     in if space < int (ntups * sizeof_ItemIdData) then 0 else nat (space - int (ntups * sizeof_ItemIdData)))"

text \<open>The loops that look for the first offset number from \<open>offnum\<close> on with a given property, up to \<open>limit\<close>.\<close>

function find_offnum :: "(ItemIdData \<Rightarrow> bool) \<Rightarrow> page \<Rightarrow> nat \<Rightarrow> nat \<Rightarrow> nat" where
  "find_offnum P p offnum limit =
    (if offnum < limit then (if P (PageGetItemId p offnum) then offnum else find_offnum P p (Suc offnum) limit)
     else offnum)"
  by auto

termination find_offnum
  by (relation "measure (\<lambda>(_, _, offnum, limit). limit - offnum)") auto

declare find_offnum.simps [simp del]

definition PageGetHeapFreeSpace :: "page \<Rightarrow> nat" where
  "PageGetHeapFreeSpace p =
    (let space = PageGetFreeSpace p
     in if space > 0 then
          (let nline = PageGetMaxOffsetNumber p
           in if nline \<ge> MaxHeapTuplesPerPage then
                (if PageHasFreeLinePointers p then
                   (let offnum = find_offnum (\<lambda>lp. \<not> ItemIdIsUsed lp) p 1 (Suc nline)
                    in if offnum > nline then 0 else space)
                 else 0)
              else space)
        else space)"

subsection \<open>Adding an item\<close>

text \<open>Is the header too damaged to touch the page?\<close>

definition corrupted_pointers :: "page \<Rightarrow> bool" where
  "corrupted_pointers p \<longleftrightarrow>
    pd_lower p < GetPageHeaderSize p \<or> pd_lower p > pd_upper p \<or> pd_upper p > pd_special p \<or> pd_special p > BLCKSZ"

text \<open>
  The choice of the offset number: the number, whether the line pointers from it on must be
  moved up, and the page, whose hint bit may have been reset; None if a used line pointer would
  be overwritten.
\<close>

definition choose_offset :: "page \<Rightarrow> nat \<Rightarrow> bool \<Rightarrow> nat \<Rightarrow> (nat \<times> bool \<times> page) option" where
  "choose_offset p offsetNumber overwrite limit =
    (if OffsetNumberIsValid offsetNumber then
       (if overwrite then
          (if offsetNumber < limit \<and>
              (let itemId = PageGetItemId p offsetNumber in ItemIdIsUsed itemId \<or> ItemIdHasStorage itemId)
           then None
           else Some (offsetNumber, False, p))
        else Some (offsetNumber, offsetNumber < limit, p))
     else if PageHasFreeLinePointers p then
       (let offsetNumber = find_offnum (\<lambda>itemId. \<not> ItemIdIsUsed itemId \<and> \<not> ItemIdHasStorage itemId) p 1 limit
        in Some (offsetNumber, False, if offsetNumber \<ge> limit then PageClearHasFreeLinePointers p else p))
     else Some (limit, False, p))"

text \<open>Moving the line pointers from index \<open>i\<close> up to \<open>j\<close> one place up.\<close>

definition shift_up :: "(nat \<Rightarrow> 'a) \<Rightarrow> nat \<Rightarrow> nat \<Rightarrow> nat \<Rightarrow> 'a" where
  "shift_up f i j = (\<lambda>k. if i < k \<and> k \<le> j then f (k - 1) else f k)"

definition PageAddItem :: "page \<Rightarrow> uint8 list \<Rightarrow> nat \<Rightarrow> bool \<Rightarrow> bool \<Rightarrow> nat result \<times> page" where
  "PageAddItem p item offsetNumber overwrite is_heap =
    (if corrupted_pointers p then (Inl (DataCorrupted PANIC), p)
     else
       (let limit = Suc (PageGetMaxOffsetNumber p)
        in case choose_offset p offsetNumber overwrite limit of
             None \<Rightarrow> (Inr InvalidOffsetNumber, p)
           | Some (offsetNumber, needshuffle, p) \<Rightarrow>
               if offsetNumber > limit then (Inr InvalidOffsetNumber, p)
               else if is_heap \<and> offsetNumber > MaxHeapTuplesPerPage then (Inr InvalidOffsetNumber, p)
               else
                 (let lower = (if offsetNumber = limit \<or> needshuffle then pd_lower p + sizeof_ItemIdData else pd_lower p);
                      alignedSize = MAXALIGN (length item);
                      upper = int (pd_upper p) - int alignedSize
                  in if int lower > upper then (Inr InvalidOffsetNumber, p)
                     else
                       (let i = offsetNumber - 1;
                            linp = (if needshuffle then shift_up (pd_linp p) i (limit - 1) else pd_linp p);
                            linp = linp(i := ItemIdSetNormal (linp i) (nat upper) (length item))
                        in (Inr offsetNumber,
                            p\<lparr>pd_linp := linp, pd_mem := memcpy (nat upper) item (pd_mem p),
                              pd_lower := lower, pd_upper := nat upper\<rparr>)))))"

subsection \<open>Compaction\<close>

record itemIdSortData =
  offsetindex :: nat
  itemoff :: nat
  alignedlen :: nat
  olditemid :: ItemIdData

definition ItemOffCompare :: "itemIdSortData \<Rightarrow> itemIdSortData \<Rightarrow> int" where
  "ItemOffCompare itemIdp1 itemIdp2 = int (itemoff itemIdp2) - int (itemoff itemIdp1)"

text \<open>
  The entries are sorted by \<open>pg_qsort\<close>. An array of entries lies on the stack and has at most one entry
  for each line pointer of a page, so that the sort always has a result (\<open>qsort_items_sorts\<close>).
\<close>

definition sizeof_itemIdSortData :: nat where "sizeof_itemIdSortData = 24"

definition qsort_items :: "itemIdSortData list \<Rightarrow> itemIdSortData list" where
  "qsort_items its = (case pg_qsort sizeof_itemIdSortData ItemOffCompare its of Some its' \<Rightarrow> its' | None \<Rightarrow> its)"

text \<open>
  The loop that moves the items to the end of the page, from the highest offset down.
  \<open>install\<close> is what becomes of the line pointer besides its new offset.
\<close>

fun compactify :: "(itemIdSortData \<Rightarrow> ItemIdData \<Rightarrow> ItemIdData) \<Rightarrow> itemIdSortData list \<Rightarrow> nat \<Rightarrow> page \<Rightarrow> nat \<times> page" where
  "compactify install [] upper p = (upper, p)"
| "compactify install (it # its) upper p =
    (let upper = upper - alignedlen it;
         i = offsetindex it;
         lp = install it (pd_linp p i)
     in compactify install its upper
          (p\<lparr>pd_mem := memmove upper (itemoff it) (alignedlen it) (pd_mem p),
             pd_linp := (pd_linp p)(i := lp\<lparr>lp_off := upper\<rparr>)\<rparr>))"

definition sort_entry :: "page \<Rightarrow> nat \<Rightarrow> nat \<Rightarrow> itemIdSortData" where
  "sort_entry p i target =
    (let lp = pd_linp p i
     in \<lparr>offsetindex = target, itemoff = lp_off lp, alignedlen = MAXALIGN (lp_len lp), olditemid = lp\<rparr>)"

text \<open>The first pass: unused line pointers are cleared.\<close>

definition clear_unused :: "page \<Rightarrow> nat \<Rightarrow> page" where
  "clear_unused p nline =
    p\<lparr>pd_linp := (\<lambda>i. if i < nline \<and> \<not> ItemIdIsUsed (pd_linp p i) then ItemIdSetUnused (pd_linp p i) else pd_linp p i)\<rparr>"

definition set_free_lines_hint :: "bool \<Rightarrow> page \<Rightarrow> page" where
  "set_free_lines_hint b p = (if b then PageSetHasFreeLinePointers p else PageClearHasFreeLinePointers p)"

definition PageRepairFragmentation :: "page \<Rightarrow> unit result \<times> page" where
  "PageRepairFragmentation p =
    (let pdLower = pd_lower p; pdUpper = pd_upper p; pdSpecial = pd_special p
     in if pdLower < SizeOfPageHeaderData \<or> pdLower > pdUpper \<or> pdUpper > pdSpecial \<or> pdSpecial > BLCKSZ \<or>
           pdSpecial \<noteq> MAXALIGN pdSpecial
        then (Inl (DataCorrupted ERROR), p)
        else
          (let nline = PageGetMaxOffsetNumber p;
               nunused = length (filter (\<lambda>i. \<not> ItemIdIsUsed (pd_linp p i)) [0 ..< nline]);
               nstorage = length (filter (\<lambda>i. ItemIdIsUsed (pd_linp p i) \<and> ItemIdHasStorage (pd_linp p i)) [0 ..< nline]);
               p = clear_unused p nline
           in if nstorage = 0
              then (Inr (), set_free_lines_hint (nunused > 0) (p\<lparr>pd_upper := pdSpecial\<rparr>))
              else
                (let stored = filter (\<lambda>i. ItemIdHasStorage (pd_linp p i)) [0 ..< nline];
                     its = map (\<lambda>i. sort_entry p i i) stored;
                     totallen = sum_list (map alignedlen its)
                 in if \<exists>it \<in> set its. itemoff it < pdUpper \<or> itemoff it \<ge> pdSpecial then (Inl (DataCorrupted ERROR), p)
                    else if totallen > pdSpecial - pdLower then (Inl (DataCorrupted ERROR), p)
                    else
                      (case compactify (\<lambda>_ lp. lp) (qsort_items its) pdSpecial p of
                         (upper, p) \<Rightarrow> (Inr (), set_free_lines_hint (nunused > 0) (p\<lparr>pd_upper := upper\<rparr>))))))"

subsection \<open>Deletion from index pages\<close>

text \<open>Moving the line pointers above index \<open>i\<close>, up to \<open>j\<close>, one place down.\<close>

definition shift_down :: "(nat \<Rightarrow> 'a) \<Rightarrow> nat \<Rightarrow> nat \<Rightarrow> nat \<Rightarrow> 'a" where
  "shift_down f i j = (\<lambda>k. if i \<le> k \<and> k < j then f (Suc k) else f k)"

definition InvalidOffnum :: pg_error where
  "InvalidOffnum = Ereport ERROR ERRCODE_INVALID_ROW_COUNT_IN_RESULT_OFFSET_CLAUSE"

definition PageIndexTupleDelete :: "page \<Rightarrow> nat \<Rightarrow> unit result \<times> page" where
  "PageIndexTupleDelete p offnum =
    (if pd_lower p < SizeOfPageHeaderData \<or> pd_lower p > pd_upper p \<or> pd_upper p > pd_special p \<or> pd_special p > BLCKSZ
     then (Inl (DataCorrupted ERROR), p)
     else
       (let nline = PageGetMaxOffsetNumber p
        in if offnum = 0 \<or> offnum > nline then (Inl InvalidOffnum, p)
           else
             (let offidx = offnum - 1;
                  tup = PageGetItemId p offnum;
                  size' = lp_len tup;
                  offset = lp_off tup
              in if offset < pd_upper p \<or> offset + size' > pd_special p \<or> offset \<noteq> MAXALIGN offset \<or> size' \<noteq> MAXALIGN size'
                 then (Inl (DataCorrupted ERROR), p)
                 else
                   (let linp = shift_down (pd_linp p) offidx (nline - 1);
                        mem = (if offset > pd_upper p
                               then memmove (pd_upper p + size') (pd_upper p) (offset - pd_upper p) (pd_mem p)
                               else pd_mem p);
                        p = p\<lparr>pd_linp := linp, pd_mem := mem, pd_upper := pd_upper p + size',
                              pd_lower := pd_lower p - sizeof_ItemIdData\<rparr>
                    in if PageIsEmpty p then (Inr (), p)
                       else
                         (Inr (),
                          p\<lparr>pd_linp := (\<lambda>k. if k < nline - 1 \<and> lp_off (linp k) \<le> offset
                             then (linp k)\<lparr>lp_off := (lp_off (linp k) + size') mod 2 ^ 15\<rparr> else linp k)\<rparr>)))))"

text \<open>The retail deletion of a few items, one call of \<open>delete\<close> after the other.\<close>

fun delete_each :: "('p \<Rightarrow> nat \<Rightarrow> unit result \<times> 'p) \<Rightarrow> 'p \<Rightarrow> nat list \<Rightarrow> unit result \<times> 'p" where
  "delete_each delete p [] = (Inr (), p)"
| "delete_each delete p (offnum # rest) =
    (case delete p offnum of
       (Inl e, p) \<Rightarrow> (Inl e, p)
     | (Inr _, p) \<Rightarrow> delete_each delete p rest)"

text \<open>
  The scan of the line pointers: the entries to keep, numbered from \<open>nused\<close> on, and the item numbers
  that were not met.
\<close>

fun multi_scan :: "page \<Rightarrow> nat list \<Rightarrow> nat list \<Rightarrow> nat \<Rightarrow> (itemIdSortData list \<times> nat list) result" where
  "multi_scan p [] itemnos nused = Inr ([], itemnos)"
| "multi_scan p (offnum # offnums) itemnos nused =
    (let lp = PageGetItemId p offnum;
         size' = lp_len lp;
         offset = lp_off lp
     in if offset < pd_upper p \<or> offset + size' > pd_special p \<or> offset \<noteq> MAXALIGN offset
        then Inl (DataCorrupted ERROR)
        else if itemnos \<noteq> [] \<and> offnum = hd itemnos then multi_scan p offnums (tl itemnos) nused
        else bindE (multi_scan p offnums itemnos (Suc nused)) (\<lambda>(its, rest).
               Inr (sort_entry p (offnum - 1) nused # its, rest)))"

definition PAGE_INDEX_CAN_TUPLE_DELETE :: nat where
  "PAGE_INDEX_CAN_TUPLE_DELETE = 2"

definition PageIndexMultiDelete :: "page \<Rightarrow> nat list \<Rightarrow> unit result \<times> page" where
  "PageIndexMultiDelete p itemnos =
    (let pdLower = pd_lower p; pdUpper = pd_upper p; pdSpecial = pd_special p
     in if length itemnos \<le> PAGE_INDEX_CAN_TUPLE_DELETE then delete_each PageIndexTupleDelete p (rev itemnos)
        else if pdLower < GetPageHeaderSize p \<or> pdLower > pdUpper \<or> pdUpper > pdSpecial \<or> pdSpecial > BLCKSZ \<or>
           pdSpecial \<noteq> MAXALIGN pdSpecial
        then (Inl (DataCorrupted ERROR), p)
        else
          (case multi_scan p [1 ..< Suc (PageGetMaxOffsetNumber p)] itemnos 0 of
             Inl e \<Rightarrow> (Inl e, p)
           | Inr (its, rest) \<Rightarrow>
               if rest \<noteq> [] then (Inl InvalidOffnum, p)
               else if sum_list (map alignedlen its) > pdSpecial - pdLower then (Inl (DataCorrupted ERROR), p)
               else
                 (case compactify (\<lambda>it _. olditemid it) (qsort_items its) pdSpecial p of
                    (upper, p) \<Rightarrow>
                      (Inr (), p\<lparr>pd_lower := SizeOfPageHeaderData + length its * sizeof_ItemIdData, pd_upper := upper\<rparr>))))"

subsection \<open>Temporary pages\<close>

definition PageRestoreTempPage :: "page \<Rightarrow> page \<Rightarrow> page" where
  "PageRestoreTempPage tempPage oldPage =
    tempPage\<lparr>pd_mem := (\<lambda>i. if i < PageGetPageSize tempPage then pd_mem tempPage i else pd_mem oldPage i)\<rparr>"

abbreviation (input) sizeof_TransactionId :: nat where
  "sizeof_TransactionId \<equiv> 8"

definition PageGetTempPageCopySpecial :: "page \<Rightarrow> bool \<Rightarrow> page" where
  "PageGetTempPageCopySpecial p isbtree =
    (let pageSize = PageGetPageSize p;
         temp = (if isbtree \<and> PageIs4BXidVersion p
                 then PageInit pageSize (PageGetSpecialSize p + sizeof_TransactionId) False
                 else PageInit pageSize (PageGetSpecialSize p) False);
         special = map (pd_mem p) [pd_special p ..< pd_special p + PageGetSpecialSize p]
     in temp\<lparr>pd_mem := memcpy (pd_special temp) special (pd_mem temp)\<rparr>)"

subsection \<open>The compression dictionary\<close>

text \<open>
  \<^verbatim>\<open>HEAP_TUPLE_IS_COMPRESSED\<close>: bit 4 of the 16-bit \<^verbatim>\<open>t_infomask\<close>, which follows 12 bytes of
  transaction ids, 6 bytes of tuple id and \<^verbatim>\<open>t_infomask2\<close>.
\<close>

definition tuple_is_compressed :: "byte_order \<Rightarrow> page \<Rightarrow> nat \<Rightarrow> bool" where
  "tuple_is_compressed e p off =
    bit (pd_mem p (off + (case e of WORDS_LITTLEENDIAN \<Rightarrow> 20 | WORDS_BIGENDIAN \<Rightarrow> 21))) 4"

definition stored_lp :: "page \<Rightarrow> nat \<Rightarrow> bool" where
  "stored_lp p i \<longleftrightarrow> ItemIdIsUsed (pd_linp p i) \<and> ItemIdHasStorage (pd_linp p i)"

definition PageCheckAndFreeDict :: "byte_order \<Rightarrow> page \<Rightarrow> bool result \<times> page" where
  "PageCheckAndFreeDict e p =
    (if corrupted_pointers p then (Inl (DataCorrupted PANIC), p)
     else
       (let nline = PageGetMaxOffsetNumber p
        in if \<exists>i \<in> {0 ..< nline}. stored_lp p i \<and> tuple_is_compressed e p (lp_off (pd_linp p i)) then (Inr False, p)
           else
             (let pageSize = PageGetPageSize p;
                  dictsize = PageGetSpecialSize p;
                  pdUpper = pd_upper p + dictsize;
                  tupsSize = pageSize - dictsize - pd_upper p;
                  mem = (if tupsSize > 0 then memmove pdUpper (pd_upper p) tupsSize (pd_mem p) else pd_mem p);
                  linp = (\<lambda>i. if i < nline \<and> stored_lp p i
                    then ItemIdSetNormal (pd_linp p i) (lp_off (pd_linp p i) + dictsize) (lp_len (pd_linp p i)) else pd_linp p i)
              in (Inr True, PageClearCompressed (p\<lparr>pd_mem := mem, pd_linp := linp, pd_upper := pdUpper, pd_special := pageSize\<rparr>)))))"

definition PageFreeDict :: "byte_order \<Rightarrow> page \<Rightarrow> bool result \<times> page" where
  "PageFreeDict e p =
    (if PageIsEmpty p then (Inr True, PageClearCompressed (p\<lparr>pd_upper := pd_special p\<rparr>))
     else if PageIsAllVisible p then PageCheckAndFreeDict e p
     else (Inr False, p))"

subsection \<open>Well-formed pages and their items\<close>

text \<open>
  The storage of a line pointer takes up its length rounded up to the alignment. On a page in order the
  header fields are in order and aligned, and the storage of every line pointer that has any lies in the tuple
  space, is aligned, and does not meet the storage of another one.
\<close>

definition lp_end :: "ItemIdData \<Rightarrow> nat" where
  "lp_end lp = lp_off lp + MAXALIGN (lp_len lp)"

definition lp_ok :: "page \<Rightarrow> ItemIdData \<Rightarrow> bool" where
  "lp_ok p lp \<longleftrightarrow> (ItemIdHasStorage lp \<longrightarrow>
     ItemIdIsUsed lp \<and> 8 dvd lp_off lp \<and> pd_upper p \<le> lp_off lp \<and> lp_end lp \<le> pd_special p)"

definition lp_apart :: "ItemIdData \<Rightarrow> ItemIdData \<Rightarrow> bool" where
  "lp_apart a b \<longleftrightarrow> (ItemIdHasStorage a \<longrightarrow> ItemIdHasStorage b \<longrightarrow> lp_end a \<le> lp_off b \<or> lp_end b \<le> lp_off a)"

definition header_ok :: "page \<Rightarrow> bool" where
  "header_ok p \<longleftrightarrow> \<not> corrupted_pointers p \<and> 4 dvd pd_lower p \<and> 8 dvd pd_upper p \<and> 8 dvd pd_special p"

definition page_ok :: "page \<Rightarrow> bool" where
  "page_ok p \<longleftrightarrow> header_ok p \<and> (\<forall>i < PageGetMaxOffsetNumber p. lp_ok p (pd_linp p i)) \<and>
    (\<forall>i < PageGetMaxOffsetNumber p. \<forall>j < PageGetMaxOffsetNumber p. i \<noteq> j \<longrightarrow> lp_apart (pd_linp p i) (pd_linp p j))"

text \<open>What a line pointer stands for: its state, its redirection if it has no storage, and its bytes.\<close>

definition lp_bytes :: "page \<Rightarrow> ItemIdData \<Rightarrow> uint8 list" where
  "lp_bytes p lp = map (pd_mem p) [lp_off lp ..< lp_off lp + lp_len lp]"

definition lp_item :: "page \<Rightarrow> ItemIdData \<Rightarrow> lp_state \<times> nat \<times> uint8 list" where
  "lp_item p lp =
    (lp_flags lp, if ItemIdHasStorage lp \<or> \<not> ItemIdIsUsed lp then 0 else lp_off lp, lp_bytes p lp)"

definition page_items :: "page \<Rightarrow> (lp_state \<times> nat \<times> uint8 list) list" where
  "page_items p = map (\<lambda>i. lp_item p (pd_linp p i)) [0 ..< PageGetMaxOffsetNumber p]"

definition special_bytes :: "page \<Rightarrow> uint8 list" where
  "special_bytes p = map (pd_mem p) [pd_special p ..< BLCKSZ]"

lemma lp_bytes_moved:
  assumes "lp_len lp' = lp_len lp" and "\<And>k. k < lp_len lp \<Longrightarrow> pd_mem p' (lp_off lp' + k) = pd_mem p (lp_off lp + k)"
  shows "lp_bytes p' lp' = lp_bytes p lp"
  unfolding lp_bytes_def by (rule nth_equalityI) (simp_all add: assms)

lemma lp_item_moved:
  assumes "lp_flags lp' = lp_flags lp" and "lp_len lp' = lp_len lp" and "lp_len lp \<noteq> 0"
    and "\<And>k. k < lp_len lp \<Longrightarrow> pd_mem p' (lp_off lp' + k) = pd_mem p (lp_off lp + k)"
  shows "lp_item p' lp' = lp_item p lp"
  using assms lp_bytes_moved [of lp' lp p' p] by (simp add: lp_item_def ItemIdHasStorage_def)

lemma lp_item_no_storage:
  "lp_len lp = 0 \<Longrightarrow> lp_item p' lp = lp_item p lp"
  by (simp add: lp_item_def lp_bytes_def)

lemma lp_item_unused:
  "\<not> ItemIdIsUsed lp \<Longrightarrow> lp_len lp = 0 \<Longrightarrow> lp_item p' (ItemIdSetUnused lp) = lp_item p lp"
  by (simp add: lp_item_def lp_bytes_def ItemIdIsUsed_def ItemIdSetUnused_def)

subsection \<open>The compaction loop\<close>

interpretation item_off: comparator ItemOffCompare
  by unfold_locales (auto simp: ItemOffCompare_def)

text \<open>Where the loop puts each item.\<close>

fun placed :: "itemIdSortData list \<Rightarrow> nat \<Rightarrow> (itemIdSortData \<times> nat) list" where
  "placed [] upper = []"
| "placed (it # its) upper = (it, upper - alignedlen it) # placed its (upper - alignedlen it)"

text \<open>The items lie one below the other, from the highest down, under the bound \<open>upper\<close>.\<close>

definition stacked :: "itemIdSortData list \<Rightarrow> nat \<Rightarrow> bool" where
  "stacked its upper \<longleftrightarrow>
    sorted_wrt (\<lambda>a b. itemoff b + alignedlen b \<le> itemoff a) its \<and> (\<forall>it \<in> set its. itemoff it + alignedlen it \<le> upper)"

lemma stacked_Cons: "stacked (it # its) upper \<Longrightarrow> stacked its (upper - alignedlen it)"
  by (fastforce simp: stacked_def)

lemma fst_placed: "map fst (placed its upper) = its"
  by (induction its upper rule: placed.induct) simp_all

lemma placed_bounds:
  "stacked its upper \<Longrightarrow> (it, off) \<in> set (placed its upper) \<Longrightarrow>
    it \<in> set its \<and> upper - sum_list (map alignedlen its) \<le> off \<and> off + alignedlen it \<le> upper \<and> itemoff it \<le> off"
proof (induction its upper rule: placed.induct)
  case (2 a its upper)
  have "alignedlen a \<le> upper" "itemoff a \<le> upper - alignedlen a" using 2(2) by (auto simp: stacked_def)
  moreover have "it \<in> set its \<and> upper - alignedlen a - sum_list (map alignedlen its) \<le> off \<and>
      off + alignedlen it \<le> upper - alignedlen a \<and> itemoff it \<le> off"
    if "(it, off) \<in> set (placed its (upper - alignedlen a))"
    using 2(1) [OF stacked_Cons [OF 2(2)] that] .
  ultimately show ?case using 2(3) by auto
qed simp

lemma placed_apart:
  "stacked its upper \<Longrightarrow> sorted_wrt (\<lambda>(a, oa) (b, ob). ob + alignedlen b \<le> oa) (placed its upper)"
proof (induction its upper rule: placed.induct)
  case (2 a its upper)
  then show ?case using stacked_Cons [OF 2(2)] placed_bounds [OF stacked_Cons [OF 2(2)]] by fastforce
qed simp

lemma placed_aligned:
  "8 dvd upper \<Longrightarrow> (\<forall>it \<in> set its. 8 dvd alignedlen it) \<Longrightarrow> \<forall>(it, off) \<in> set (placed its upper). 8 dvd off"
  by (induction its upper rule: placed.induct) (auto intro: dvd_diff_nat)

lemma stacked_sum_le:
  "stacked its upper \<Longrightarrow> (\<forall>it \<in> set its. l \<le> itemoff it) \<Longrightarrow> l \<le> upper \<Longrightarrow> sum_list (map alignedlen its) \<le> upper - l"
proof (induction its arbitrary: upper)
  case (Cons a its)
  have "alignedlen a \<le> upper" "l \<le> upper - alignedlen a" using Cons.prems by (auto simp: stacked_def)
  then show ?case using Cons.IH [OF stacked_Cons [OF Cons.prems(1)]] Cons.prems by auto
qed simp

text \<open>
  The loop moves every item to its place with its bytes, touches no other line pointer and no byte outside the
  tuple space, and changes nothing else of the page.
\<close>

definition compacted ::
  "(itemIdSortData \<Rightarrow> ItemIdData \<Rightarrow> ItemIdData) \<Rightarrow> itemIdSortData list \<Rightarrow> nat \<Rightarrow> page \<Rightarrow> page \<Rightarrow> bool" where
  "compacted install its upper p p' \<longleftrightarrow>
    p' = p\<lparr>pd_mem := pd_mem p', pd_linp := pd_linp p'\<rparr> \<and>
    (\<forall>(it, off) \<in> set (placed its upper).
      pd_linp p' (offsetindex it) = (install it (pd_linp p (offsetindex it)))\<lparr>lp_off := off\<rparr> \<and>
      (\<forall>k < alignedlen it. pd_mem p' (off + k) = pd_mem p (itemoff it + k))) \<and>
    (\<forall>i. i \<notin> offsetindex ` set its \<longrightarrow> pd_linp p' i = pd_linp p i) \<and>
    (\<forall>k. k < upper - sum_list (map alignedlen its) \<or> upper \<le> k \<longrightarrow> pd_mem p' k = pd_mem p k)"

lemma compacted_mem:
  "compacted install its upper p p' \<Longrightarrow> k < upper - sum_list (map alignedlen its) \<or> upper \<le> k \<Longrightarrow> pd_mem p' k = pd_mem p k"
  unfolding compacted_def by blast

lemma compacted_other:
  "compacted install its upper p p' \<Longrightarrow> i \<notin> offsetindex ` set its \<Longrightarrow> pd_linp p' i = pd_linp p i"
  unfolding compacted_def by blast

lemma compacted_same:
  "compacted install its upper p p' \<Longrightarrow> p' = p\<lparr>pd_mem := pd_mem p', pd_linp := pd_linp p'\<rparr>"
  unfolding compacted_def by blast

lemma compacted_item:
  assumes "compacted install its upper p p'" and "(it, off) \<in> set (placed its upper)"
  shows "pd_linp p' (offsetindex it) = (install it (pd_linp p (offsetindex it)))\<lparr>lp_off := off\<rparr>"
    and "k < alignedlen it \<Longrightarrow> pd_mem p' (off + k) = pd_mem p (itemoff it + k)"
  using assms unfolding compacted_def by blast+

lemma compactify_spec:
  "compactify install its upper p = (upper', p') \<Longrightarrow> stacked its upper \<Longrightarrow> distinct (map offsetindex its) \<Longrightarrow>
    upper' = upper - sum_list (map alignedlen its) \<and> compacted install its upper p p'"
proof (induction install its upper p rule: compactify.induct)
  case (1 install upper p)
  then show ?case by (simp add: compacted_def)
next
  case (2 install it its upper p)
  define u where "u = upper - alignedlen it"
  define q where "q = p\<lparr>pd_mem := memmove u (itemoff it) (alignedlen it) (pd_mem p),
    pd_linp := (pd_linp p)(offsetindex it := (install it (pd_linp p (offsetindex it)))\<lparr>lp_off := u\<rparr>)\<rparr>"
  have run: "compactify install its u q = (upper', p')" using 2(2) by (simp add: u_def q_def Let_def)
  have st: "stacked its u" using stacked_Cons [OF 2(3)] by (simp add: u_def)
  have IH: "upper' = u - sum_list (map alignedlen its)" "compacted install its u q p'"
    using 2(1) [of u "offsetindex it"] run st 2(4) by (auto simp: u_def q_def)
  have u: "u + alignedlen it = upper" "itemoff it \<le> u" using 2(3) by (auto simp: u_def stacked_def)
  have idx: "offsetindex b \<noteq> offsetindex it" if "b \<in> set its" for b
    using 2(4) imageI [OF that, of offsetindex] by auto
  have mem_q: "pd_mem q k = (if u \<le> k \<and> k < upper then pd_mem p (itemoff it + (k - u)) else pd_mem p k)" for k
    using u by (simp add: q_def memmove_def)
  have mem_p': "pd_mem p' k = pd_mem q k" if "k < upper' \<or> u \<le> k" for k
    using compacted_mem [OF IH(2)] IH(1) that by blast
  have rest: "pd_linp p' (offsetindex b) = (install b (pd_linp p (offsetindex b)))\<lparr>lp_off := off\<rparr> \<and>
      (\<forall>k < alignedlen b. pd_mem p' (off + k) = pd_mem p (itemoff b + k))" if "(b, off) \<in> set (placed its u)" for b off
  proof -
    have b: "b \<in> set its" using placed_bounds [OF st that] by blast
    then have "itemoff b + alignedlen b \<le> itemoff it" using 2(3) by (simp add: stacked_def)
    then have "pd_mem q (itemoff b + k) = pd_mem p (itemoff b + k)" if "k < alignedlen b" for k
      using that u by (simp add: mem_q)
    moreover have "pd_linp q (offsetindex b) = pd_linp p (offsetindex b)" using idx [OF b] by (simp add: q_def)
    ultimately show ?thesis using compacted_item [OF IH(2) that] by simp
  qed
  have first: "pd_linp p' (offsetindex it) = (install it (pd_linp p (offsetindex it)))\<lparr>lp_off := u\<rparr>"
    using compacted_other [OF IH(2), of "offsetindex it"] 2(4) by (simp add: q_def)
  have "pd_mem p' (u + k) = pd_mem p (itemoff it + k)" if "k < alignedlen it" for k
    using that mem_p' [of "u + k"] mem_q [of "u + k"] u by simp
  moreover have "pd_linp p' i = pd_linp p i" if "i \<notin> offsetindex ` set (it # its)" for i
    using that compacted_other [OF IH(2), of i] by (simp add: q_def)
  moreover have "p' = p\<lparr>pd_mem := pd_mem p', pd_linp := pd_linp p'\<rparr>"
    using compacted_same [OF IH(2)] by (simp add: q_def)
  moreover have "pd_mem p' k = pd_mem p k" if "k < upper' \<or> upper \<le> k" for k
    using that mem_p' [of k] mem_q [of k] IH(1) u by auto
  ultimately show ?case
    using IH(1) first rest unfolding compacted_def by (auto simp: u_def)
qed

lemma qsort_items_sorts: "length its < 2 ^ 26 \<Longrightarrow> sorts ItemOffCompare its (qsort_items its)"
proof -
  assume "length its < 2 ^ 26"
  then have "fits_int sizeof_itemIdSortData (length its)" by (simp add: fits_int_def sizeof_itemIdSortData_def INT_MAX_def)
  then obtain s where "pg_qsort sizeof_itemIdSortData ItemOffCompare its = Some s" using pg_qsort_returns by blast
  then show ?thesis using item_off.qsort_sorts [of _ its s] by (simp add: qsort_items_def sizeof_itemIdSortData_def)
qed

text \<open>Entries of a page in order, sorted by \<open>pg_qsort\<close>, are stacked.\<close>

lemma sorted_entries_stacked:
  assumes "distinct its" and len: "length its < 2 ^ 26" and "\<forall>it \<in> set its. 0 < alignedlen it \<and> itemoff it + alignedlen it \<le> upper"
    and apart: "\<And>a b. a \<in> set its \<Longrightarrow> b \<in> set its \<Longrightarrow> a \<noteq> b \<Longrightarrow>
      itemoff a + alignedlen a \<le> itemoff b \<or> itemoff b + alignedlen b \<le> itemoff a"
  shows "stacked (qsort_items its) upper" and "mset (qsort_items its) = mset its"
proof -
  let ?s = "qsort_items its"
  have m: "mset ?s = mset its" and sorted: "sorted_wrt (\<lambda>a b. ItemOffCompare a b \<le> 0) ?s"
    using qsort_items_sorts [OF len] by (simp_all add: sorts_def)
  have set_s: "set ?s = set its" and "distinct ?s"
    using m assms(1) by (auto dest: mset_eq_setD mset_eq_imp_distinct_iff)
  have "itemoff (?s ! j) + alignedlen (?s ! j) \<le> itemoff (?s ! i)" if "i < j" "j < length ?s" for i j
  proof -
    have "?s ! i \<in> set its" "?s ! j \<in> set its" "?s ! i \<noteq> ?s ! j"
      using that set_s \<open>distinct ?s\<close> nth_mem [of i ?s] nth_mem [of j ?s] by (auto simp: nth_eq_iff_index_eq)
    moreover have "itemoff (?s ! j) \<le> itemoff (?s ! i)"
      using sorted that by (auto simp: sorted_wrt_iff_nth_less ItemOffCompare_def)
    moreover have "0 < alignedlen (?s ! i)" using assms(3) calculation(1) by blast
    ultimately show ?thesis using apart [of "?s ! i" "?s ! j"] by linarith
  qed
  then show "stacked ?s upper" using assms(3) set_s by (auto simp: stacked_def sorted_wrt_iff_nth_less)
  show "mset ?s = mset its" by (rule m)
qed

text \<open>
  Compaction of a page in order. \<open>pairs\<close> lists the line pointers that keep their storage, each with the
  index its line pointer gets.
\<close>

abbreviation entries :: "page \<Rightarrow> (nat \<times> nat) list \<Rightarrow> itemIdSortData list" where
  "entries p pairs \<equiv> map (\<lambda>(i, t). sort_entry p i t) pairs"

definition keeps_lp :: "page \<Rightarrow> (nat \<times> nat) list \<Rightarrow> bool" where
  "keeps_lp p pairs \<longleftrightarrow> distinct (map fst pairs) \<and> distinct (map snd pairs) \<and>
    (\<forall>(i, t) \<in> set pairs. i < PageGetMaxOffsetNumber p \<and> ItemIdHasStorage (pd_linp p i))"

lemma sort_entry_simps [simp]:
  "offsetindex (sort_entry p i t) = t" "itemoff (sort_entry p i t) = lp_off (pd_linp p i)"
  "alignedlen (sort_entry p i t) = MAXALIGN (lp_len (pd_linp p i))" "olditemid (sort_entry p i t) = pd_linp p i"
  by (simp_all add: sort_entry_def Let_def)

lemma sorted_wrt_pairwise: "sorted_wrt P xs \<Longrightarrow> x \<in> set xs \<Longrightarrow> y \<in> set xs \<Longrightarrow> x = y \<or> P x y \<or> P y x"
  by (induction xs) auto

lemma distinct_map_eq: "distinct (map f xs) \<Longrightarrow> x \<in> set xs \<Longrightarrow> y \<in> set xs \<Longrightarrow> f x = f y \<Longrightarrow> x = y"
  by (auto simp: distinct_map inj_on_def)

lemma keeps_lp_length: "page_ok p \<Longrightarrow> keeps_lp p pairs \<Longrightarrow> length pairs < 2 ^ 26"
proof -
  assume "page_ok p" "keeps_lp p pairs"
  then have "set (map fst pairs) \<subseteq> {..< PageGetMaxOffsetNumber p}" "distinct (map fst pairs)"
    by (auto simp: keeps_lp_def)
  then have "length pairs \<le> PageGetMaxOffsetNumber p"
    by (metis card_mono card_lessThan distinct_card finite_lessThan length_map)
  moreover have "PageGetMaxOffsetNumber p \<le> pd_lower p"
    using div_le_dividend [of "pd_lower p - GetPageHeaderSize p" 4] unfolding PageGetMaxOffsetNumber_def by auto
  moreover have "pd_lower p \<le> BLCKSZ" using \<open>page_ok p\<close> by (auto simp: page_ok_def header_ok_def corrupted_pointers_def)
  ultimately show ?thesis by (simp add: BLCKSZ_def)
qed

lemma entries_stacked:
  assumes "page_ok p" and "keeps_lp p pairs"
  shows "stacked (qsort_items (entries p pairs)) (pd_special p)"
    and "mset (qsort_items (entries p pairs)) = mset (entries p pairs)"
    and "distinct (map offsetindex (qsort_items (entries p pairs)))"
proof -
  have ok: "lp_ok p (pd_linp p i)" "ItemIdHasStorage (pd_linp p i)" if "(i, t) \<in> set pairs" for i t
    using that assms by (auto simp: page_ok_def keeps_lp_def)
  have idx: "map offsetindex (entries p pairs) = map snd pairs" by (simp add: comp_def split_beta)
  then have "distinct (entries p pairs)" using assms(2) by (metis distinct_map keeps_lp_def)
  moreover have "0 < alignedlen it \<and> itemoff it + alignedlen it \<le> pd_special p" if "it \<in> set (entries p pairs)" for it
    using that ok by (force simp: lp_ok_def lp_end_def ItemIdHasStorage_def intro!: MAXALIGN_pos)
  moreover have "itemoff a + alignedlen a \<le> itemoff b \<or> itemoff b + alignedlen b \<le> itemoff a"
    if ab: "a \<in> set (entries p pairs)" "b \<in> set (entries p pairs)" "a \<noteq> b" for a b
  proof -
    obtain i t j s where e: "(i, t) \<in> set pairs" "(j, s) \<in> set pairs" "a = sort_entry p i t" "b = sort_entry p j s"
      using ab by auto
    then have "(i, t) \<noteq> (j, s)" using ab(3) by auto
    then have "i \<noteq> j" using distinct_map_eq [of fst pairs "(i, t)" "(j, s)"] e assms(2) by (auto simp: keeps_lp_def)
    moreover have "i < PageGetMaxOffsetNumber p" "j < PageGetMaxOffsetNumber p"
      using e assms(2) by (auto simp: keeps_lp_def)
    ultimately have "lp_apart (pd_linp p i) (pd_linp p j)" using assms(1) by (simp add: page_ok_def)
    then show ?thesis using e ok by (auto simp: lp_apart_def lp_end_def)
  qed
  moreover have "length (entries p pairs) < 2 ^ 26" using keeps_lp_length [OF assms] by simp
  ultimately have *: "stacked (qsort_items (entries p pairs)) (pd_special p)"
    "mset (qsort_items (entries p pairs)) = mset (entries p pairs)"
    using sorted_entries_stacked [of "entries p pairs" "pd_special p"] by blast+
  then show "stacked (qsort_items (entries p pairs)) (pd_special p)"
    "mset (qsort_items (entries p pairs)) = mset (entries p pairs)" by auto
  have "mset (map offsetindex (qsort_items (entries p pairs))) = mset (map snd pairs)"
    using *(2) idx by (metis mset_map)
  then show "distinct (map offsetindex (qsort_items (entries p pairs)))"
    using assms(2) mset_eq_imp_distinct_iff keeps_lp_def by blast
qed

definition total_len :: "page \<Rightarrow> (nat \<times> nat) list \<Rightarrow> nat" where
  "total_len p pairs = sum_list (map (\<lambda>x. MAXALIGN (lp_len (pd_linp p (fst x)))) pairs)"

lemma total_len_entries: "sum_list (map alignedlen (entries p pairs)) = total_len p pairs"
  by (simp add: total_len_def comp_def split_beta)

lemma total_len_sorted:
  "page_ok p \<Longrightarrow> keeps_lp p pairs \<Longrightarrow>
    sum_list (map alignedlen (qsort_items (entries p pairs))) = total_len p pairs"
  using entries_stacked(2) [of p pairs] by (metis mset_map sum_mset_sum_list total_len_entries)

lemma total_len_fits:
  assumes "page_ok p" and "keeps_lp p pairs"
  shows "total_len p pairs \<le> pd_special p - pd_upper p" and "8 dvd total_len p pairs"
proof -
  have "set (qsort_items (entries p pairs)) = set (entries p pairs)"
    using entries_stacked(2) [OF assms] mset_eq_setD by blast
  then have "\<forall>it \<in> set (qsort_items (entries p pairs)). pd_upper p \<le> itemoff it"
    using assms by (auto simp: page_ok_def keeps_lp_def lp_ok_def)
  then show "total_len p pairs \<le> pd_special p - pd_upper p"
    using stacked_sum_le [OF entries_stacked(1) [OF assms]] total_len_sorted [OF assms] assms(1)
    by (auto simp: page_ok_def header_ok_def corrupted_pointers_def)
  show "8 dvd total_len p pairs" unfolding total_len_def by (induction pairs) (simp_all add: MAXALIGN_dvd)
qed

lemma compact_page:
  assumes ok: "page_ok p" and keep: "keeps_lp p pairs"
    and inst: "\<And>i t. (i, t) \<in> set pairs \<Longrightarrow>
      lp_flags (install (sort_entry p i t) (pd_linp p t)) = lp_flags (pd_linp p i) \<and>
      lp_len (install (sort_entry p i t) (pd_linp p t)) = lp_len (pd_linp p i)"
    and run: "compactify install (qsort_items (entries p pairs)) (pd_special p) p = (upper, p')"
  shows "upper = pd_special p - total_len p pairs" and "p' = p\<lparr>pd_mem := pd_mem p', pd_linp := pd_linp p'\<rparr>"
    and "(i, t) \<in> set pairs \<Longrightarrow> lp_item p' (pd_linp p' t) = lp_item p (pd_linp p i)"
    and "(i, t) \<in> set pairs \<Longrightarrow> lp_ok (p'\<lparr>pd_upper := upper\<rparr>) (pd_linp p' t)"
    and "(i, t) \<in> set pairs \<Longrightarrow> lp_len (pd_linp p' t) = lp_len (pd_linp p i)"
    and "(i, t) \<in> set pairs \<Longrightarrow> (j, s) \<in> set pairs \<Longrightarrow> t \<noteq> s \<Longrightarrow> lp_apart (pd_linp p' t) (pd_linp p' s)"
    and "t \<notin> snd ` set pairs \<Longrightarrow> pd_linp p' t = pd_linp p t"
    and "special_bytes p' = special_bytes p"
proof -
  let ?s = "qsort_items (entries p pairs)"
  note st = entries_stacked [OF ok keep]
  have spec: "upper = pd_special p - sum_list (map alignedlen ?s)" "compacted install ?s (pd_special p) p p'"
    using compactify_spec [OF run st(1,3)] by auto
  show u: "upper = pd_special p - total_len p pairs" using spec(1) total_len_sorted [OF ok keep] by simp
  show same: "p' = p\<lparr>pd_mem := pd_mem p', pd_linp := pd_linp p'\<rparr>" by (rule compacted_same [OF spec(2)])
  have set_s: "set ?s = set (entries p pairs)" using st(2) mset_eq_setD by blast
  have place: "\<exists>off. (sort_entry p i t, off) \<in> set (placed ?s (pd_special p))" if "(i, t) \<in> set pairs" for i t
  proof -
    have "sort_entry p i t \<in> set ?s" using that set_s by force
    then have "sort_entry p i t \<in> fst ` set (placed ?s (pd_special p))" by (metis fst_placed set_map)
    then show ?thesis by auto
  qed
  have lp: "\<exists>off. (sort_entry p i t, off) \<in> set (placed ?s (pd_special p)) \<and> lp_off (pd_linp p' t) = off \<and>
      lp_flags (pd_linp p' t) = lp_flags (pd_linp p i) \<and> lp_len (pd_linp p' t) = lp_len (pd_linp p i)"
    if "(i, t) \<in> set pairs" for i t
    using place [OF that] compacted_item(1) [OF spec(2), of "sort_entry p i t"] inst [OF that] by force
  have old: "ItemIdHasStorage (pd_linp p i)" "ItemIdIsUsed (pd_linp p i)" if "(i, t) \<in> set pairs" for i t
    using that ok keep by (auto simp: page_ok_def keeps_lp_def lp_ok_def)
  show "lp_len (pd_linp p' t) = lp_len (pd_linp p i)" if "(i, t) \<in> set pairs" for i t
    using lp [OF that] by blast
  show "lp_item p' (pd_linp p' t) = lp_item p (pd_linp p i)" if it: "(i, t) \<in> set pairs" for i t
  proof -
    obtain off where off: "(sort_entry p i t, off) \<in> set (placed ?s (pd_special p))" "lp_off (pd_linp p' t) = off"
      "lp_flags (pd_linp p' t) = lp_flags (pd_linp p i)" "lp_len (pd_linp p' t) = lp_len (pd_linp p i)"
      using lp [OF it] by blast
    have "pd_mem p' (off + k) = pd_mem p (lp_off (pd_linp p i) + k)" if "k < lp_len (pd_linp p i)" for k
      using compacted_item(2) [OF spec(2) off(1), of k] that MAXALIGN_ge [of "lp_len (pd_linp p i)"] by simp
    then show ?thesis using off old(1) [OF it] by (intro lp_item_moved) (simp_all add: ItemIdHasStorage_def)
  qed
  have al: "8 dvd off" if "(it, off) \<in> set (placed ?s (pd_special p))" for it off
  proof -
    have "\<forall>it \<in> set ?s. 8 dvd alignedlen it" unfolding set_s by (auto simp: MAXALIGN_dvd)
    moreover have "8 dvd pd_special p" using ok by (simp add: page_ok_def header_ok_def)
    ultimately show ?thesis using placed_aligned that by blast
  qed
  show "lp_ok (p'\<lparr>pd_upper := upper\<rparr>) (pd_linp p' t)" if it: "(i, t) \<in> set pairs" for i t
  proof -
    obtain off where off: "(sort_entry p i t, off) \<in> set (placed ?s (pd_special p))" "lp_off (pd_linp p' t) = off"
      "lp_flags (pd_linp p' t) = lp_flags (pd_linp p i)" "lp_len (pd_linp p' t) = lp_len (pd_linp p i)"
      using lp [OF it] by blast
    have sp: "pd_special p' = pd_special p" using arg_cong [OF same, of pd_special] by simp
    show ?thesis
      using placed_bounds [OF st(1) off(1)] al [OF off(1)] off old(2) [OF it] spec(1) sp
      by (simp add: lp_ok_def lp_end_def ItemIdIsUsed_def)
  qed
  show "lp_apart (pd_linp p' t) (pd_linp p' s)" if its: "(i, t) \<in> set pairs" "(j, s) \<in> set pairs" "t \<noteq> s" for i t j s
  proof -
    obtain oi where oi: "(sort_entry p i t, oi) \<in> set (placed ?s (pd_special p))" "lp_off (pd_linp p' t) = oi"
      "lp_len (pd_linp p' t) = lp_len (pd_linp p i)" using lp [OF its(1)] by blast
    obtain oj where oj: "(sort_entry p j s, oj) \<in> set (placed ?s (pd_special p))" "lp_off (pd_linp p' s) = oj"
      "lp_len (pd_linp p' s) = lp_len (pd_linp p j)" using lp [OF its(2)] by blast
    have "sort_entry p i t \<noteq> sort_entry p j s" using its(3) by (metis sort_entry_simps(1))
    then have "oi + alignedlen (sort_entry p i t) \<le> oj \<or> oj + alignedlen (sort_entry p j s) \<le> oi"
      using sorted_wrt_pairwise [OF placed_apart [OF st(1)] oi(1) oj(1)] by auto
    then show ?thesis using oi oj by (simp add: lp_apart_def lp_end_def)
  qed
  show "pd_linp p' t = pd_linp p t" if "t \<notin> snd ` set pairs" for t
    using compacted_other [OF spec(2), of t] that set_s by (force simp: image_iff)
  show "special_bytes p' = special_bytes p"
    using compacted_mem [OF spec(2)] arg_cong [OF same, of pd_special] by (simp add: special_bytes_def)
qed

subsection \<open>PageRepairFragmentation\<close>

lemma clear_unused_simps [simp]:
  "pd_lower (clear_unused p n) = pd_lower p" "pd_upper (clear_unused p n) = pd_upper p" "pd_mem (clear_unused p n) = pd_mem p"
  "pd_special (clear_unused p n) = pd_special p" "pd_flags (clear_unused p n) = pd_flags p"
  "pd_pagesize_version (clear_unused p n) = pd_pagesize_version p"
  by (simp_all add: clear_unused_def)

lemma set_free_lines_hint_simps [simp]:
  "pd_lower (set_free_lines_hint b p) = pd_lower p" "pd_upper (set_free_lines_hint b p) = pd_upper p"
  "pd_special (set_free_lines_hint b p) = pd_special p" "pd_linp (set_free_lines_hint b p) = pd_linp p"
  "pd_mem (set_free_lines_hint b p) = pd_mem p" "pd_pagesize_version (set_free_lines_hint b p) = pd_pagesize_version p"
  by (simp_all add: set_free_lines_hint_def PageSetHasFreeLinePointers_def PageClearHasFreeLinePointers_def)

lemma PageHasFreeLinePointers_hint [simp]: "PageHasFreeLinePointers (set_free_lines_hint b p) = b"
proof -
  have "bit ((w OR 1) AND 1) 0" "(w AND NOT 1) AND 1 = 0" for w :: uint16
    by (simp_all del: not_one_eq add: bit_simps and.assoc)
  then have "(w OR 1) AND 1 \<noteq> 0" "(w AND NOT 1) AND 1 = 0" for w :: uint16 by (metis bit_0_eq bot_apply bot_bool_def, metis)
  then show ?thesis
    by (simp del: not_one_eq add: set_free_lines_hint_def PageSetHasFreeLinePointers_def PageClearHasFreeLinePointers_def
        PageHasFreeLinePointers_def PD_HAS_FREE_LINES_def)
qed

text \<open>The layout, the line pointer count and the items depend on few of the fields.\<close>

lemma layout_cong:
  assumes "pd_pagesize_version p' = pd_pagesize_version p"
  shows "GetPageHeaderSize p' = GetPageHeaderSize p"
    and "pd_lower p' = pd_lower p \<Longrightarrow> PageGetMaxOffsetNumber p' = PageGetMaxOffsetNumber p"
  using assms by (simp_all add: GetPageHeaderSize_def PageIs8BXidHeapVersion_def PageGetPageLayoutVersion_def PageGetMaxOffsetNumber_def)

lemma lp_item_cong: "pd_mem p' = pd_mem p \<Longrightarrow> lp_item p' lp = lp_item p lp"
  by (simp add: lp_item_def lp_bytes_def)

lemma header_size_cases: "GetPageHeaderSize p = 24 \<or> GetPageHeaderSize p = 40"
  by (simp add: GetPageHeaderSize_def SizeOfHeapPageHeaderData_def SizeOfPageHeaderData_def)

lemma page_ok_clear_unused:
  assumes "page_ok p" and "n = PageGetMaxOffsetNumber p"
  shows "page_ok (clear_unused p n)" and "page_items (clear_unused p n) = page_items p"
    and "PageGetMaxOffsetNumber (clear_unused p n) = n"
    and "ItemIdHasStorage (pd_linp (clear_unused p n) i) = ItemIdHasStorage (pd_linp p i)"
proof -
  let ?q = "clear_unused p n"
  show nq: "PageGetMaxOffsetNumber ?q = n" using layout_cong(2) [of ?q p] by (simp add: assms(2) [symmetric])
  have unused: "lp_len (pd_linp p i) = 0" if "i < n" "\<not> ItemIdIsUsed (pd_linp p i)" for i
    using that assms by (auto simp: page_ok_def lp_ok_def ItemIdHasStorage_def)
  then show st: "ItemIdHasStorage (pd_linp ?q i) = ItemIdHasStorage (pd_linp p i)" for i
    by (auto simp: clear_unused_def ItemIdHasStorage_def ItemIdSetUnused_def)
  have same: "pd_linp ?q i = pd_linp p i" if "ItemIdHasStorage (pd_linp p i)" for i
    using that unused by (auto simp: clear_unused_def ItemIdHasStorage_def)
  have "header_ok ?q" using assms(1) layout_cong(1) [of ?q p] by (simp add: page_ok_def header_ok_def corrupted_pointers_def)
  moreover have "lp_ok ?q (pd_linp ?q i)" if "i < n" for i
    using assms that st [of i] same [of i] by (auto simp: page_ok_def lp_ok_def)
  moreover have "lp_apart (pd_linp ?q i) (pd_linp ?q j)" if "i < n" "j < n" "i \<noteq> j" for i j
    using assms that st [of i] st [of j] same [of i] same [of j] by (auto simp: page_ok_def lp_apart_def)
  ultimately show "page_ok ?q" by (simp add: page_ok_def nq)
  have "lp_item ?q (pd_linp ?q i) = lp_item p (pd_linp p i)" if "i < n" for i
    using that unused [of i] lp_item_unused [of "pd_linp p i" ?q p] lp_item_cong [of ?q p "pd_linp p i"]
    by (simp add: clear_unused_def)
  then show "page_items ?q = page_items p" by (simp add: page_items_def nq assms(2) [symmetric])
qed

text \<open>Compaction that leaves every line pointer in place: a page in order with the same items and no gaps.\<close>

lemma compact_in_place:
  assumes ok: "page_ok p" and n: "n = PageGetMaxOffsetNumber p"
    and pairs: "pairs = map (\<lambda>i. (i, i)) (filter (\<lambda>i. ItemIdHasStorage (pd_linp p i)) [0 ..< n])"
    and run: "compactify (\<lambda>_ lp. lp) (qsort_items (entries p pairs)) (pd_special p) p = (upper, p')"
  shows "page_ok (p'\<lparr>pd_upper := upper\<rparr>)" and "page_items (p'\<lparr>pd_upper := upper\<rparr>) = page_items p"
    and "special_bytes p' = special_bytes p" and "upper = pd_special p - total_len p pairs"
proof -
  have keep: "keeps_lp p pairs" unfolding keeps_lp_def pairs n by (auto simp: comp_def)
  have inst: "(i, t) \<in> set pairs \<Longrightarrow> lp_flags (pd_linp p t) = lp_flags (pd_linp p i) \<and> lp_len (pd_linp p t) = lp_len (pd_linp p i)"
    for i t by (auto simp: pairs)
  note c = compact_page [OF ok keep inst run]
  have in_pairs: "(i, i) \<in> set pairs \<longleftrightarrow> i < n \<and> ItemIdHasStorage (pd_linp p i)" for i by (auto simp: pairs)
  have c': "upper = pd_special p - total_len p pairs" "p' = p\<lparr>pd_mem := pd_mem p', pd_linp := pd_linp p'\<rparr>"
    "special_bytes p' = special_bytes p" using c(1,2,8) by (auto simp: pairs)
  show "upper = pd_special p - total_len p pairs" "special_bytes p' = special_bytes p" by fact+
  have stored: "lp_item p' (pd_linp p' i) = lp_item p (pd_linp p i)" "lp_ok (p'\<lparr>pd_upper := upper\<rparr>) (pd_linp p' i)"
    if "i < n" "ItemIdHasStorage (pd_linp p i)" for i
    using that c(3,4) [of i i] by (auto simp: pairs)
  have other: "pd_linp p' i = pd_linp p i" if "\<not> ItemIdHasStorage (pd_linp p i)" for i
  proof -
    have "i \<notin> snd ` set pairs" using that by (auto simp: pairs)
    then show ?thesis using c(7) by blast
  qed
  have fields: "pd_lower p' = pd_lower p" "pd_special p' = pd_special p" "pd_pagesize_version p' = pd_pagesize_version p"
    using arg_cong [OF c'(2), of pd_lower] arg_cong [OF c'(2), of pd_special] arg_cong [OF c'(2), of pd_pagesize_version]
    by simp_all
  let ?q = "p'\<lparr>pd_upper := upper\<rparr>"
  have nq: "PageGetMaxOffsetNumber ?q = n" using layout_cong(2) [of ?q p] fields n by simp
  have hdr: "header_ok ?q"
    using total_len_fits [OF ok keep] ok layout_cong(1) [of ?q p] fields c'(1)
    by (auto simp: page_ok_def header_ok_def corrupted_pointers_def intro!: dvd_diff_nat)
  have "lp_ok ?q (pd_linp p' i)" if "i < n" for i
    using that stored(2) [of i] other [of i] by (cases "ItemIdHasStorage (pd_linp p i)") (auto simp: lp_ok_def)
  moreover have "lp_apart (pd_linp p' i) (pd_linp p' j)" if "i < n" "j < n" "i \<noteq> j" for i j
    using that c(6) [of i i j j] other [of i] other [of j] in_pairs [of i] in_pairs [of j]
    by (cases "ItemIdHasStorage (pd_linp p i) \<and> ItemIdHasStorage (pd_linp p j)") (auto simp: lp_apart_def pairs)
  ultimately show "page_ok ?q" using hdr by (simp add: page_ok_def nq)
  have "lp_item ?q (pd_linp p' i) = lp_item p (pd_linp p i)" if "i < n" for i
    using that stored(1) [of i] other [of i] lp_item_cong [of ?q p'] lp_item_no_storage [of "pd_linp p i" p' p]
    by (cases "ItemIdHasStorage (pd_linp p i)") (auto simp: ItemIdHasStorage_def)
  then show "page_items ?q = page_items p" using n by (simp add: page_items_def nq)
qed

text \<open>The bytes that the storage of the items takes up.\<close>

definition used_space :: "page \<Rightarrow> nat" where
  "used_space p = sum_list (map (\<lambda>(flags, link, bs). MAXALIGN (length bs)) (page_items p))"

lemma length_lp_bytes [simp]: "length (lp_bytes p lp) = lp_len lp"
  by (simp add: lp_bytes_def)

lemma used_space_eq: "used_space p = sum_list (map (\<lambda>i. MAXALIGN (lp_len (pd_linp p i))) [0 ..< PageGetMaxOffsetNumber p])"
  by (simp add: used_space_def page_items_def lp_item_def comp_def)

lemma sum_list_filter_zero:
  "(\<And>x. x \<in> set xs \<Longrightarrow> \<not> P x \<Longrightarrow> f x = 0) \<Longrightarrow> sum_list (map f (filter P xs)) = (sum_list (map f xs) :: nat)"
  by (induction xs) auto

lemma total_len_in_place:
  assumes "pairs = map (\<lambda>i. (i, i)) (filter (\<lambda>i. ItemIdHasStorage (pd_linp p i)) [0 ..< PageGetMaxOffsetNumber p])"
  shows "total_len p pairs = used_space p"
proof -
  have "MAXALIGN (lp_len (pd_linp p i)) = 0" if "\<not> ItemIdHasStorage (pd_linp p i)" for i
    using that by (simp add: MAXALIGN_def ItemIdHasStorage_def)
  then have "sum_list (map (\<lambda>i. MAXALIGN (lp_len (pd_linp p i))) (filter (\<lambda>i. ItemIdHasStorage (pd_linp p i)) xs)) =
      sum_list (map (\<lambda>i. MAXALIGN (lp_len (pd_linp p i))) xs)" for xs
    by (intro sum_list_filter_zero)
  then show ?thesis unfolding total_len_def used_space_eq assms by (simp add: comp_def)
qed

lemma page_ok_hint [simp]: "page_ok (set_free_lines_hint b p) = page_ok p"
  using layout_cong [of "set_free_lines_hint b p" p]
  by (simp add: page_ok_def header_ok_def corrupted_pointers_def lp_ok_def)

lemma page_items_hint [simp]: "page_items (set_free_lines_hint b p) = page_items p"
  using layout_cong [of "set_free_lines_hint b p" p] lp_item_cong [of "set_free_lines_hint b p" p]
  by (simp add: page_items_def)

lemma special_bytes_hint [simp]: "special_bytes (set_free_lines_hint b p) = special_bytes p"
  by (simp add: special_bytes_def)

lemma page_ok_empty_upper:
  assumes "page_ok p" and "\<And>i. i < PageGetMaxOffsetNumber p \<Longrightarrow> \<not> ItemIdHasStorage (pd_linp p i)"
  shows "page_ok (p\<lparr>pd_upper := pd_special p\<rparr>)"
  using assms layout_cong [of "p\<lparr>pd_upper := pd_special p\<rparr>" p]
  by (auto simp: page_ok_def header_ok_def corrupted_pointers_def lp_ok_def)

lemma page_items_upper [simp]: "page_items (p\<lparr>pd_upper := u\<rparr>) = page_items p"
  using layout_cong [of "p\<lparr>pd_upper := u\<rparr>" p] lp_item_cong [of "p\<lparr>pd_upper := u\<rparr>" p]
  by (simp add: page_items_def)

lemma special_bytes_upper [simp]: "special_bytes (p\<lparr>pd_upper := u\<rparr>) = special_bytes p"
  by (simp add: special_bytes_def)

lemma page_repair:
  assumes ok: "page_ok p"
  shows "\<exists>p'. PageRepairFragmentation p = (Inr (), p') \<and> page_ok p' \<and> page_items p' = page_items p \<and>
    special_bytes p' = special_bytes p \<and> pd_lower p' = pd_lower p \<and> pd_upper p' = pd_special p - used_space p \<and>
    PageHasFreeLinePointers p' = (\<exists>i < PageGetMaxOffsetNumber p. \<not> ItemIdIsUsed (pd_linp p i))"
proof -
  define n where "n = PageGetMaxOffsetNumber p"
  define q where "q = clear_unused p n"
  define pairs where "pairs = map (\<lambda>i. (i, i)) (filter (\<lambda>i. ItemIdHasStorage (pd_linp q i)) [0 ..< n])"
  define b where "b \<longleftrightarrow> 0 < length (filter (\<lambda>i. \<not> ItemIdIsUsed (pd_linp p i)) [0 ..< n])"
  have b: "b = (\<exists>i < n. \<not> ItemIdIsUsed (pd_linp p i))" by (auto simp: b_def filter_empty_conv)
  have hdr: "\<not> (pd_lower p < SizeOfPageHeaderData \<or> pd_lower p > pd_upper p \<or> pd_upper p > pd_special p \<or>
      pd_special p > BLCKSZ \<or> pd_special p \<noteq> MAXALIGN (pd_special p))"
    using ok header_size_cases [of p] MAXALIGN_id_iff [of "pd_special p"]
    by (auto simp: page_ok_def header_ok_def corrupted_pointers_def SizeOfPageHeaderData_def)
  note q = page_ok_clear_unused [OF ok n_def, folded q_def]
  have used: "ItemIdIsUsed (pd_linp p i)" if "i < n" "ItemIdHasStorage (pd_linp p i)" for i
    using that ok by (auto simp: page_ok_def lp_ok_def n_def)
  have tl: "total_len q pairs = used_space p"
    using total_len_in_place [of pairs q] q(2,3) by (simp add: pairs_def used_space_def)
  show ?thesis
  proof (cases "\<exists>i < n. ItemIdHasStorage (pd_linp p i)")
    case False
    then have "PageRepairFragmentation p = (Inr (), set_free_lines_hint b (q\<lparr>pd_upper := pd_special p\<rparr>))"
      using hdr used by (simp add: PageRepairFragmentation_def Let_def n_def [symmetric] q_def [symmetric] b_def)
    moreover have "page_ok (q\<lparr>pd_upper := pd_special q\<rparr>)"
      using page_ok_empty_upper [OF q(1)] q(3,4) False by simp
    moreover have "used_space p = 0" using False q(4) by (simp add: tl [symmetric] pairs_def total_len_def filter_empty_conv)
    ultimately show ?thesis using q(2) b by (simp add: q_def special_bytes_def n_def [symmetric])
  next
    case True
    have keep: "keeps_lp q pairs" unfolding keeps_lp_def pairs_def q(3) by (auto simp: comp_def)
    have its: "map (\<lambda>i. sort_entry q i i) (filter (\<lambda>i. ItemIdHasStorage (pd_linp q i)) [0 ..< n]) = entries q pairs"
      by (simp add: pairs_def)
    have range: "\<not> (\<exists>it \<in> set (entries q pairs). itemoff it < pd_upper p \<or> itemoff it \<ge> pd_special p)"
    proof -
      have "pd_upper p \<le> lp_off (pd_linp q i) \<and> lp_off (pd_linp q i) < pd_special p"
        if "i < n" "ItemIdHasStorage (pd_linp q i)" for i
        using that q(1,3) MAXALIGN_pos [of "lp_len (pd_linp q i)"]
        by (auto simp: page_ok_def lp_ok_def lp_end_def ItemIdHasStorage_def q_def)
      then show ?thesis by (force simp: pairs_def)
    qed
    have fit: "\<not> total_len q pairs > pd_special p - pd_lower p"
      using total_len_fits(1) [OF q(1) keep] hdr by (auto simp: q_def)
    obtain upper r where run: "compactify (\<lambda>_ lp. lp) (qsort_items (entries q pairs)) (pd_special q) q = (upper, r)"
      by fastforce
    note c = compact_in_place [OF q(1) q(3) [symmetric] pairs_def run]
    have same: "pd_lower r = pd_lower q"
      using arg_cong [OF compact_page(2) [OF q(1) keep _ run], of pd_lower] by (auto simp: pairs_def)
    have nst: "length (filter (\<lambda>i. ItemIdIsUsed (pd_linp p i) \<and> ItemIdHasStorage (pd_linp p i)) [0 ..< n]) \<noteq> 0"
      using True used by (force simp: filter_empty_conv)
    have sp: "pd_special q = pd_special p" by (simp add: q_def)
    have "PageRepairFragmentation p = (Inr (), set_free_lines_hint b (r\<lparr>pd_upper := upper\<rparr>))"
      unfolding PageRepairFragmentation_def Let_def n_def [symmetric] q_def [symmetric] its total_len_entries b_def [symmetric]
      by (simp only: hdr range fit nst run [unfolded sp] if_False prod.case)
    then show ?thesis using c q(2) same b tl by (simp add: q_def special_bytes_def n_def [symmetric])
  qed
qed

subsection \<open>PageAddItem\<close>

lemma find_offnum_spec:
  assumes "offnum \<le> limit"
  shows "offnum \<le> find_offnum P p offnum limit \<and> find_offnum P p offnum limit \<le> limit \<and>
    (find_offnum P p offnum limit < limit \<longrightarrow> P (PageGetItemId p (find_offnum P p offnum limit))) \<and>
    (\<forall>k. offnum \<le> k \<longrightarrow> k < find_offnum P p offnum limit \<longrightarrow> \<not> P (PageGetItemId p k))"
  using assms
proof (induction P p offnum limit rule: find_offnum.induct)
  case (1 P p offnum limit)
  show ?case
  proof (cases "offnum < limit \<and> \<not> P (PageGetItemId p offnum)")
    case True
    then have "find_offnum P p offnum limit = find_offnum P p (Suc offnum) limit"
      by (simp add: find_offnum.simps [of P p offnum])
    moreover have "\<not> P (PageGetItemId p k)" if "offnum \<le> k" "k < find_offnum P p (Suc offnum) limit" for k
      using that 1(1) True by (cases "k = offnum") auto
    ultimately show ?thesis using 1(1) True by auto
  next
    case False
    then show ?thesis using 1(2) by (auto simp: find_offnum.simps [of P p offnum])
  qed
qed

lemma find_offnum_le:
  "offnum \<le> k \<Longrightarrow> k < limit \<Longrightarrow> P (PageGetItemId p k) \<Longrightarrow> find_offnum P p offnum limit \<le> k"
  using find_offnum_spec [of offnum limit P p] by (meson leI le_trans less_imp_le)

lemma max_offset_eq:
  "GetPageHeaderSize p \<le> pd_lower p \<Longrightarrow> PageGetMaxOffsetNumber p = (pd_lower p - GetPageHeaderSize p) div 4"
  by (simp add: PageGetMaxOffsetNumber_def)

lemma lower_eq:
  assumes "header_ok p" shows "pd_lower p = GetPageHeaderSize p + 4 * PageGetMaxOffsetNumber p"
proof -
  have "GetPageHeaderSize p \<le> pd_lower p" "4 dvd pd_lower p" "4 dvd GetPageHeaderSize p"
    using assms header_size_cases [of p] by (auto simp: header_ok_def corrupted_pointers_def)
  then show ?thesis using max_offset_eq [of p] by (auto simp: dvd_div_mult_self dvd_diff_nat)
qed

lemma max_offset_of_lower:
  "pd_pagesize_version p' = pd_pagesize_version p \<Longrightarrow> pd_lower p' = GetPageHeaderSize p + 4 * k \<Longrightarrow> PageGetMaxOffsetNumber p' = k"
  using layout_cong(1) [of p' p] by (simp add: PageGetMaxOffsetNumber_def)

text \<open>
  A page to which one item was added: at index \<open>i\<close> of the new line pointer array stands the new item, and every
  other index \<open>k\<close> holds the old line pointer \<open>\<sigma> k\<close>.
\<close>

lemma add_to_page:
  assumes ok: "page_ok p" and item: "item \<noteq> []" and fit: "lower + MAXALIGN (length item) \<le> pd_upper p"
    and lower: "lower = GetPageHeaderSize p + 4 * n'"
    and old: "\<And>k. k < n' \<Longrightarrow> k \<noteq> i \<Longrightarrow> linp' k = pd_linp p (\<sigma> k) \<and> \<sigma> k < PageGetMaxOffsetNumber p"
    and inj: "\<And>k l. k < n' \<Longrightarrow> l < n' \<Longrightarrow> k \<noteq> i \<Longrightarrow> l \<noteq> i \<Longrightarrow> k \<noteq> l \<Longrightarrow> \<sigma> k \<noteq> \<sigma> l"
    and u: "u = pd_upper p - MAXALIGN (length item)" and new: "linp' i = ItemIdSetNormal lp u (length item)"
    and q: "q = p\<lparr>pd_linp := linp', pd_mem := memcpy u item (pd_mem p), pd_lower := lower, pd_upper := u\<rparr>"
  shows "page_ok q" and "PageGetMaxOffsetNumber q = n'" and "special_bytes q = special_bytes p"
    and "lp_item q (linp' i) = (LP_NORMAL, 0, item)"
    and "k < n' \<Longrightarrow> k \<noteq> i \<Longrightarrow> lp_item q (linp' k) = lp_item p (pd_linp p (\<sigma> k))"
proof -
  have hdr: "\<not> corrupted_pointers p" "8 dvd pd_upper p" "8 dvd pd_special p" and pok: "\<And>k. k < PageGetMaxOffsetNumber p \<Longrightarrow> lp_ok p (pd_linp p k)"
    and apart: "\<And>k l. k < PageGetMaxOffsetNumber p \<Longrightarrow> l < PageGetMaxOffsetNumber p \<Longrightarrow> k \<noteq> l \<Longrightarrow> lp_apart (pd_linp p k) (pd_linp p l)"
    using ok by (auto simp: page_ok_def header_ok_def)
  have le: "pd_upper p \<le> pd_special p" "pd_special p \<le> 8192" using hdr(1) by (auto simp: corrupted_pointers_def BLCKSZ_def)
  have ua: "u + MAXALIGN (length item) = pd_upper p" "8 dvd u" using fit hdr(2) by (auto simp: u MAXALIGN_dvd intro!: dvd_diff_nat)
  have small: "u < 2 ^ 15" "length item < 2 ^ 15" using ua le MAXALIGN_ge [of "length item"] by auto
  have lp_i: "linp' i = lp\<lparr>lp_flags := LP_NORMAL, lp_off := u, lp_len := length item\<rparr>"
    using new small by (simp add: ItemIdSetNormal_def)
  show nq: "PageGetMaxOffsetNumber q = n'" by (rule max_offset_of_lower [of _ p]) (simp_all add: q lower)
  have mem: "pd_mem q a = pd_mem p a" if "pd_upper p \<le> a" for a
    using that ua(1) MAXALIGN_ge [of "length item"] by (simp add: q memcpy_def)
  then show "special_bytes q = special_bytes p" using le by (simp add: special_bytes_def q)
  have hq: "header_ok q"
    using hdr fit ua le header_size_cases [of p] layout_cong(1) [of q p] by (auto simp: header_ok_def corrupted_pointers_def q lower BLCKSZ_def)
  have okq: "lp_ok q (linp' k)" if "k < n'" for k
  proof (cases "k = i")
    case True
    then show ?thesis using ua le by (simp add: lp_i lp_ok_def lp_end_def ItemIdIsUsed_def q)
  next
    case False
    then have "lp_ok p (linp' k)" using pok old that by simp
    then show ?thesis using ua(1) by (auto simp: lp_ok_def q)
  qed
  have below: "lp_apart (linp' i) (linp' k) \<and> lp_apart (linp' k) (linp' i)" if "k < n'" "k \<noteq> i" for k
    using pok [of "\<sigma> k"] old [OF that] ua(1) by (auto simp: lp_i lp_apart_def lp_end_def lp_ok_def)
  have "lp_apart (linp' k) (linp' l)" if "k < n'" "l < n'" "k \<noteq> l" for k l
    using that below [of k] below [of l] apart [of "\<sigma> k" "\<sigma> l"] old [of k] old [of l] inj [of k l]
    by (cases "k = i"; cases "l = i") auto
  then show "page_ok q" using hq okq by (simp add: page_ok_def nq) (simp add: q)
  show "lp_item q (linp' i) = (LP_NORMAL, 0, item)"
    using item by (simp add: lp_item_def lp_i ItemIdHasStorage_def lp_bytes_def q memcpy_def) (auto intro!: nth_equalityI)
  show "lp_item q (linp' k) = lp_item p (pd_linp p (\<sigma> k))" if "k < n'" "k \<noteq> i" for k
  proof (cases "ItemIdHasStorage (linp' k)")
    case True
    then have "pd_upper p \<le> lp_off (linp' k)" using pok [of "\<sigma> k"] old [OF that] by (simp add: lp_ok_def)
    then show ?thesis using True old [OF that] mem by (intro lp_item_moved) (simp_all add: ItemIdHasStorage_def)
  next
    case False
    then show ?thesis using old [OF that] lp_item_no_storage [of "linp' k" q p] by (simp add: ItemIdHasStorage_def)
  qed
qed

text \<open>
  What adding means for the list of items: insertion before, or at the end, or the reuse of an entry.
\<close>

definition add_entry :: "'a list \<Rightarrow> nat \<Rightarrow> bool \<Rightarrow> 'a \<Rightarrow> 'a list" where
  "add_entry xs r insert_before e =
    (if insert_before \<or> r = Suc (length xs) then take (r - 1) xs @ e # drop (r - 1) xs else xs[r - 1 := e])"

lemma length_page_items [simp]: "length (page_items p) = PageGetMaxOffsetNumber p"
  by (simp add: page_items_def)

lemma nth_page_items: "k < PageGetMaxOffsetNumber p \<Longrightarrow> page_items p ! k = lp_item p (pd_linp p k)"
  by (simp add: page_items_def)

lemma clear_hint_eq: "PageClearHasFreeLinePointers p = set_free_lines_hint False p"
  by (simp add: set_free_lines_hint_def)

lemma choose_offset_spec:
  assumes "choose_offset p off ow (Suc n) = Some (r, shuffle, p1)"
  shows "0 < r" and "shuffle \<longleftrightarrow> OffsetNumberIsValid off \<and> \<not> ow \<and> r \<le> n" and "OffsetNumberIsValid off \<longrightarrow> r = off"
    and "p1 = p \<or> p1 = set_free_lines_hint False p"
    and "\<not> shuffle \<longrightarrow> r \<le> n \<longrightarrow> \<not> ItemIdIsUsed (PageGetItemId p r) \<and> \<not> ItemIdHasStorage (PageGetItemId p r)"
  using assms find_offnum_spec [of 1 "Suc n" "\<lambda>itemId. \<not> ItemIdIsUsed itemId \<and> \<not> ItemIdHasStorage itemId" p]
  by (auto simp: choose_offset_def Let_def clear_hint_eq OffsetNumberIsValid_def InvalidOffsetNumber_def split: if_splits)

text \<open>The successful end of \<open>PageAddItem\<close>, for the page after the choice of the offset number.\<close>

lemma place_item:
  assumes ok: "page_ok p" and item: "item \<noteq> []" and n: "n = PageGetMaxOffsetNumber p" and r: "0 < r" "r \<le> Suc n"
    and shuffle: "shuffle \<longrightarrow> r \<le> n"
    and lower: "lower = (if r = Suc n \<or> shuffle then pd_lower p + 4 else pd_lower p)"
    and fit: "lower + MAXALIGN (length item) \<le> pd_upper p" and u: "u = pd_upper p - MAXALIGN (length item)"
    and l: "l = (if shuffle then shift_up (pd_linp p) (r - 1) n else pd_linp p)"
    and q: "q = p\<lparr>pd_linp := l(r - 1 := ItemIdSetNormal (l (r - 1)) u (length item)), pd_mem := memcpy u item (pd_mem p),
      pd_lower := lower, pd_upper := u\<rparr>"
  shows "page_ok q" and "special_bytes q = special_bytes p"
    and "page_items q = add_entry (page_items p) r shuffle (LP_NORMAL, 0, item)"
proof -
  define n' where "n' = (if r = Suc n \<or> shuffle then Suc n else n)"
  define \<sigma> where "\<sigma> k = (if shuffle \<and> r - 1 < k then k - 1 else k)" for k
  let ?l = "l(r - 1 := ItemIdSetNormal (l (r - 1)) u (length item))"
  have lower': "lower = GetPageHeaderSize p + 4 * n'"
    using lower_eq [of p] ok n by (simp add: lower n'_def page_ok_def)
  have old: "?l k = pd_linp p (\<sigma> k) \<and> \<sigma> k < PageGetMaxOffsetNumber p" if "k < n'" "k \<noteq> r - 1" for k
    using that r n shuffle by (auto simp: l shift_up_def \<sigma>_def n'_def split: if_splits)
  have inj: "\<sigma> k \<noteq> \<sigma> m" if "k < n'" "m < n'" "k \<noteq> r - 1" "m \<noteq> r - 1" "k \<noteq> m" for k m
    using that by (auto simp: \<sigma>_def)
  have new_lp: "?l (r - 1) = ItemIdSetNormal (l (r - 1)) u (length item)" by simp
  note a = add_to_page [OF ok item fit lower' old inj u new_lp q]
  show "page_ok q" "special_bytes q = special_bytes p" using a by simp_all
  have nq: "PageGetMaxOffsetNumber q = n'" and new: "lp_item q (?l (r - 1)) = (LP_NORMAL, 0, item)"
    and rest: "\<And>k. k < n' \<Longrightarrow> k \<noteq> r - 1 \<Longrightarrow> lp_item q (?l k) = lp_item p (pd_linp p (\<sigma> k))"
    using a by simp_all
  have nth: "page_items q ! k = (if k = r - 1 then (LP_NORMAL, 0, item) else page_items p ! \<sigma> k)" if "k < n'" for k
  proof -
    have "page_items q ! k = lp_item q (?l k)" using that nq by (simp add: nth_page_items) (simp add: q)
    then show ?thesis using new rest [OF that] old [OF that] by (cases "k = r - 1") (simp_all add: nth_page_items)
  qed
  show "page_items q = add_entry (page_items p) r shuffle (LP_NORMAL, 0, item)"
  proof (rule nth_equalityI)
    show "length (page_items q) = length (add_entry (page_items p) r shuffle (LP_NORMAL, 0, item))"
      using r nq n shuffle by (auto simp: add_entry_def n'_def min_def)
    show "page_items q ! k = add_entry (page_items p) r shuffle (LP_NORMAL, 0, item) ! k" if "k < length (page_items q)" for k
      using that nth [of k] nq r n shuffle
      by (auto simp: add_entry_def n'_def \<sigma>_def nth_append nth_Cons' nth_list_update min_def)
  qed
qed

text \<open>\<open>PageAddItem\<close> after the choice of the offset number, on a page whose header is in order.\<close>

definition finish_add :: "page \<Rightarrow> uint8 list \<Rightarrow> nat \<Rightarrow> bool \<Rightarrow> bool \<Rightarrow> nat \<times> page" where
  "finish_add p item r shuffle is_heap =
    (let n = PageGetMaxOffsetNumber p;
         lower = (if r = Suc n \<or> shuffle then pd_lower p + 4 else pd_lower p);
         u = pd_upper p - MAXALIGN (length item);
         l = (if shuffle then shift_up (pd_linp p) (r - 1) n else pd_linp p)
     in if r > Suc n \<or> is_heap \<and> r > MaxHeapTuplesPerPage \<or> pd_upper p < lower + MAXALIGN (length item) then (0, p)
        else (r, p\<lparr>pd_linp := l(r - 1 := ItemIdSetNormal (l (r - 1)) u (length item)), pd_mem := memcpy u item (pd_mem p),
               pd_lower := lower, pd_upper := u\<rparr>))"

lemma hint_max_offset [simp]: "PageGetMaxOffsetNumber (set_free_lines_hint b p) = PageGetMaxOffsetNumber p"
  by (rule layout_cong(2)) simp_all

lemma PageAddItem_eq:
  assumes "\<not> corrupted_pointers p"
  shows "PageAddItem p item off ow is_heap =
    (case choose_offset p off ow (Suc (PageGetMaxOffsetNumber p)) of
       None \<Rightarrow> (Inr 0, p)
     | Some (r, shuffle, p1) \<Rightarrow> (case finish_add p1 item r shuffle is_heap of (r', p') \<Rightarrow> (Inr r', p')))"
proof (cases "choose_offset p off ow (Suc (PageGetMaxOffsetNumber p))")
  case None
  then show ?thesis using assms by (simp add: PageAddItem_def Let_def InvalidOffsetNumber_def)
next
  case (Some c)
  obtain r shuffle p1 where c: "c = (r, shuffle, p1)" using prod_cases3 by blast
  have n: "PageGetMaxOffsetNumber p1 = PageGetMaxOffsetNumber p"
    using choose_offset_spec(4) [OF Some [unfolded c]] by auto
  have up: "nat (int (pd_upper p1) - int a) = pd_upper p1 - a" for a by (simp add: nat_diff_distrib')
  have cond: "(int lower > int (pd_upper p1) - int a) = (pd_upper p1 < lower + a)" for lower a by linarith
  show ?thesis
    using assms Some c
    by (auto simp: PageAddItem_def finish_add_def Let_def InvalidOffsetNumber_def n up cond)
qed

lemma finish_add_spec:
  assumes "page_ok p" and "item \<noteq> []" and "0 < r" and "shuffle \<longrightarrow> r \<le> PageGetMaxOffsetNumber p"
    and "finish_add p item r shuffle is_heap = (r', p')"
  shows "page_ok p' \<and> special_bytes p' = special_bytes p \<and>
    (r' = 0 \<and> p' = p \<or>
     r' = r \<and> r \<le> Suc (PageGetMaxOffsetNumber p) \<and> (is_heap \<longrightarrow> r \<le> MaxHeapTuplesPerPage) \<and>
     page_items p' = add_entry (page_items p) r shuffle (LP_NORMAL, 0, item))"
  using assms place_item [OF assms(1,2) refl assms(3) _ assms(4) refl _ refl refl refl]
  by (auto simp: finish_add_def Let_def not_less split: if_splits)

lemma page_add_item:
  assumes ok: "page_ok p" and item: "item \<noteq> []" and before: "before = (OffsetNumberIsValid off \<and> \<not> ow)"
  shows "\<exists>r p'. PageAddItem p item off ow is_heap = (Inr r, p') \<and> page_ok p' \<and> special_bytes p' = special_bytes p \<and>
    (if r = 0 then page_items p' = page_items p
     else page_items p' = add_entry (page_items p) r before (LP_NORMAL, 0, item) \<and>
       r \<le> Suc (length (page_items p)) \<and> (OffsetNumberIsValid off \<longrightarrow> r = off) \<and> (is_heap \<longrightarrow> r \<le> MaxHeapTuplesPerPage) \<and>
       (\<not> before \<longrightarrow> r \<le> length (page_items p) \<longrightarrow> fst (page_items p ! (r - 1)) = LP_UNUSED))"
proof -
  define n where "n = PageGetMaxOffsetNumber p"
  have nc: "\<not> corrupted_pointers p" using ok by (simp add: page_ok_def header_ok_def)
  note run = PageAddItem_eq [OF nc, of item off ow is_heap, folded n_def]
  show ?thesis
  proof (cases "choose_offset p off ow (Suc n)")
    case None
    then show ?thesis using ok run by simp
  next
    case (Some c)
    obtain r shuffle p1 where c: "c = (r, shuffle, p1)" using prod_cases3 by blast
    note ch = choose_offset_spec [OF Some [unfolded c]]
    have p1: "page_ok p1" "page_items p1 = page_items p" "special_bytes p1 = special_bytes p" "PageGetMaxOffsetNumber p1 = n"
      using ch(4) ok by (auto simp: n_def)
    obtain r' p' where f: "finish_add p1 item r shuffle is_heap = (r', p')" by fastforce
    have sh: "shuffle \<longrightarrow> r \<le> PageGetMaxOffsetNumber p1" using ch(2) p1(4) by simp
    note fs = finish_add_spec [OF p1(1) item ch(1) sh f]
    have "add_entry (page_items p) r shuffle e = add_entry (page_items p) r before e" if "r \<le> Suc n" for e
      using that ch(2) before by (auto simp: add_entry_def n_def)
    moreover have "fst (page_items p ! (r - 1)) = LP_UNUSED" if "\<not> before" "r \<le> n"
    proof -
      have "\<not> ItemIdIsUsed (pd_linp p (r - 1))" using ch(2,5) that before by (simp add: PageGetItemId_def)
      then show ?thesis using that ch(1) by (simp add: nth_page_items n_def lp_item_def ItemIdIsUsed_def)
    qed
    ultimately show ?thesis using fs f run Some c p1 ch(1,3) by (auto simp: n_def)
  qed
qed

text \<open>The free space that a page reports can be used.\<close>

lemma choose_new: "\<exists>r p1. choose_offset p 0 False (Suc n) = Some (r, False, p1) \<and> r \<le> Suc n"
  using find_offnum_spec [of 1 "Suc n" "\<lambda>itemId. \<not> ItemIdIsUsed itemId \<and> \<not> ItemIdHasStorage itemId" p]
  by (cases "PageHasFreeLinePointers p")
    (simp_all add: choose_offset_def OffsetNumberIsValid_def InvalidOffsetNumber_def Let_def)

lemma heap_free_space_slot:
  assumes ok: "page_ok p" and n: "n = PageGetMaxOffsetNumber p" and "n \<le> MaxHeapTuplesPerPage" and "0 < PageGetHeapFreeSpace p"
    and "choose_offset p 0 False (Suc n) = Some (r, shuffle, p1)"
  shows "r \<le> MaxHeapTuplesPerPage"
proof (cases "n < MaxHeapTuplesPerPage")
  case True
  have "r \<le> Suc n" using assms(5) choose_new [of p n] by auto
  then show ?thesis using True by simp
next
  case False
  let ?P = "\<lambda>itemId. \<not> ItemIdIsUsed itemId \<and> \<not> ItemIdHasStorage itemId"
  let ?k = "find_offnum (\<lambda>lp. \<not> ItemIdIsUsed lp) p 1 (Suc n)"
  have hint: "PageHasFreeLinePointers p" and k: "?k \<le> n"
    using False assms(4) n by (auto simp: PageGetHeapFreeSpace_def Let_def split: if_splits)
  have "\<not> ItemIdIsUsed (pd_linp p (?k - 1))" "0 < ?k"
    using find_offnum_spec [of 1 "Suc n" "\<lambda>lp. \<not> ItemIdIsUsed lp" p] k by (auto simp: PageGetItemId_def)
  moreover from this have "?k - 1 < PageGetMaxOffsetNumber p" using k n by linarith
  then have "lp_ok p (pd_linp p (?k - 1))" using ok by (simp add: page_ok_def)
  ultimately have "?P (PageGetItemId p ?k)" by (auto simp: lp_ok_def PageGetItemId_def)
  then have "find_offnum ?P p 1 (Suc n) \<le> ?k"
    using find_offnum_le [of 1 ?k "Suc n" ?P p] \<open>0 < ?k\<close> k by simp
  then have "r \<le> n" using assms(5) hint k by (auto simp: choose_offset_def OffsetNumberIsValid_def InvalidOffsetNumber_def Let_def)
  then show ?thesis using assms(3) by simp
qed

lemma page_free_space_usable:
  assumes ok: "page_ok p" and item: "item \<noteq> []"
    and space: "MAXALIGN (length item) \<le> (if is_heap then PageGetHeapFreeSpace p else PageGetFreeSpace p)"
    and few: "is_heap \<longrightarrow> PageGetMaxOffsetNumber p \<le> MaxHeapTuplesPerPage"
  shows "\<exists>r p'. PageAddItem p item 0 False is_heap = (Inr r, p') \<and> r \<noteq> 0"
proof -
  define n where "n = PageGetMaxOffsetNumber p"
  have nc: "\<not> corrupted_pointers p" using ok by (simp add: page_ok_def header_ok_def)
  have pos: "0 < MAXALIGN (length item)" using item by (simp add: MAXALIGN_pos)
  have "PageGetHeapFreeSpace p \<le> PageGetFreeSpace p" by (simp add: PageGetHeapFreeSpace_def Let_def)
  then have "MAXALIGN (length item) \<le> PageGetFreeSpace p" using space by (auto split: if_splits)
  then have fit: "pd_lower p + 4 + MAXALIGN (length item) \<le> pd_upper p"
    using pos by (auto simp: PageGetFreeSpace_def Let_def split: if_splits)
  obtain r shuffle p1 where c: "choose_offset p 0 False (Suc n) = Some (r, shuffle, p1)" "r \<le> Suc n"
    using choose_new [of p n] by blast
  note ch = choose_offset_spec [OF c(1)]
  have p1: "pd_lower p1 = pd_lower p" "pd_upper p1 = pd_upper p" "PageGetMaxOffsetNumber p1 = n"
    using ch(4) by (auto simp: n_def)
  have "is_heap \<longrightarrow> r \<le> MaxHeapTuplesPerPage"
    using heap_free_space_slot [OF ok n_def _ _ c(1)] few space pos by (auto simp: n_def)
  then have "fst (finish_add p1 item r shuffle is_heap) = r"
    using c(2) fit by (auto simp: finish_add_def Let_def p1)
  then show ?thesis using PageAddItem_eq [OF nc, of item 0 False is_heap] c(1) ch(1)
    by (auto simp: n_def split: prod.splits)
qed

subsection \<open>Example pages\<close>

text \<open>A heap page with three line pointers, of which one is unused, and a gap between its two tuples.\<close>

definition sample_lp :: "nat \<Rightarrow> ItemIdData" where
  "sample_lp i = (if i = 0 then \<lparr>lp_off = 8184, lp_flags = LP_NORMAL, lp_len = 5\<rparr>
    else if i = 1 then \<lparr>lp_off = 0, lp_flags = LP_UNUSED, lp_len = 0\<rparr>
    else \<lparr>lp_off = 8152, lp_flags = LP_NORMAL, lp_len = 10\<rparr>)"

definition sample_page :: page where
  "sample_page = (PageInit BLCKSZ 0 True)\<lparr>pd_lower := 52, pd_upper := 8144, pd_linp := sample_lp\<rparr>"

lemma version_simps:
  "of_nat BLCKSZ OR PG_HEAP_PAGE_LAYOUT_VERSION = 0x2006" "of_nat BLCKSZ OR PG_COMM_PAGE_LAYOUT_VERSION = 0x2005"
  by (simp_all add: BLCKSZ_def PG_HEAP_PAGE_LAYOUT_VERSION_def PG_COMM_PAGE_LAYOUT_VERSION_def)

lemma sample_page_simps:
  "GetPageHeaderSize sample_page = 40" "PageGetMaxOffsetNumber sample_page = 3" "pd_lower sample_page = 52"
  "pd_upper sample_page = 8144" "pd_special sample_page = 8192" "pd_linp sample_page = sample_lp"
  by (simp_all add: sample_page_def PageInit_def Let_def PageSetPageSizeAndVersion_def version_simps GetPageHeaderSize_def
      PageIs8BXidHeapVersion_def PageGetPageLayoutVersion_def PG_HEAP_PAGE_LAYOUT_VERSION_def PageGetMaxOffsetNumber_def
      SizeOfHeapPageHeaderData_def zeroed_page_def MAXALIGN_def BLCKSZ_def)

lemma less_3_cases: "(i :: nat) < 3 \<Longrightarrow> i = 0 \<or> i = 1 \<or> i = 2"
  by linarith

lemma sample_page_ok: "page_ok sample_page"
proof -
  have "lp_ok sample_page (sample_lp i)" if "i < 3" for i
    using less_3_cases [OF that] by (auto simp: lp_ok_def sample_lp_def lp_end_def ItemIdIsUsed_def ItemIdHasStorage_def MAXALIGN_def sample_page_simps)
  moreover have "lp_apart (sample_lp i) (sample_lp j)" if "i < 3" "j < 3" "i \<noteq> j" for i j
    using less_3_cases [OF that(1)] less_3_cases [OF that(2)] that(3)
    by (auto simp: lp_apart_def sample_lp_def lp_end_def MAXALIGN_def ItemIdHasStorage_def)
  ultimately show ?thesis
    by (simp add: page_ok_def header_ok_def corrupted_pointers_def sample_page_simps BLCKSZ_def)
qed

lemma upt_3: "[0 ..< 3] = [0, 1, 2]"
  by (simp add: upt_rec)

lemma sample_used_space: "used_space sample_page = 24"
  by (simp add: used_space_eq sample_page_simps upt_3 sample_lp_def MAXALIGN_def)

subsection \<open>Properties\<close>

text \<open>
  C3. \<open>PageRepairFragmentation\<close> on a page in order (with at most \<open>MaxHeapTuplesPerPage\<close> tuples, the size of its work
  array) succeeds: every line pointer keeps its state, its redirection and the bytes of its tuple, the special space
  is untouched, the page stays in order, all gaps between tuples are gone, and the hint bit says exactly
  whether an unused line pointer exists.
\<close>

theorem page_repair_fragmentation_correct:
  assumes "page_ok p" and "length (filter (stored_lp p) [0 ..< PageGetMaxOffsetNumber p]) \<le> MaxHeapTuplesPerPage"
  shows "\<exists>p'. PageRepairFragmentation p = (Inr (), p') \<and> page_ok p' \<and> page_items p' = page_items p \<and>
    special_bytes p' = special_bytes p \<and> pd_lower p' = pd_lower p \<and> pd_upper p' = pd_special p - used_space p \<and>
    PageHasFreeLinePointers p' = (\<exists>i < PageGetMaxOffsetNumber p. \<not> ItemIdIsUsed (pd_linp p i))"
  by (rule page_repair [OF assms(1)])

theorem page_repair_fragmentation_correct_witness:
  "\<exists>p'. PageRepairFragmentation sample_page = (Inr (), p') \<and> page_items p' = page_items sample_page \<and>
    pd_upper sample_page = 8144 \<and> pd_upper p' = 8168 \<and> PageHasFreeLinePointers p'"
proof -
  have "length (filter (stored_lp sample_page) [0 ..< 3]) \<le> MaxHeapTuplesPerPage"
    by (rule order.trans [OF length_filter_le]) (simp add: MaxHeapTuplesPerPage_def BLCKSZ_def SizeOfHeapPageHeaderData_def MAXALIGN_def)
  then obtain p' where "PageRepairFragmentation sample_page = (Inr (), p')" "page_items p' = page_items sample_page"
    "pd_upper p' = pd_special sample_page - used_space sample_page"
    "PageHasFreeLinePointers p' = (\<exists>i < 3. \<not> ItemIdIsUsed (pd_linp sample_page i))"
    using page_repair_fragmentation_correct [OF sample_page_ok] by (auto simp: sample_page_simps)
  moreover have "\<exists>i < 3. \<not> ItemIdIsUsed (pd_linp sample_page i)"
    by (rule exI [of _ 1]) (simp add: sample_page_simps sample_lp_def ItemIdIsUsed_def)
  ultimately show ?thesis by (simp add: sample_used_space sample_page_simps)
qed

text \<open>
  C5. \<open>PageAddItem\<close> on a page in order: it returns 0 and leaves every item as it was, or it returns the offset number
  at which the new item can be read back byte for byte, appended, inserted before the items from there on, or in
  place of an unused line pointer; all other items keep their bytes, and the page stays in order.
\<close>

theorem page_add_item_correct:
  assumes "page_ok p" and "item \<noteq> []"
  shows "\<exists>r p'. PageAddItem p item off ow is_heap = (Inr r, p') \<and> page_ok p' \<and> special_bytes p' = special_bytes p \<and>
    (if r = 0 then page_items p' = page_items p
     else page_items p' = add_entry (page_items p) r (OffsetNumberIsValid off \<and> \<not> ow) (LP_NORMAL, 0, item) \<and>
       r \<le> Suc (length (page_items p)) \<and> (OffsetNumberIsValid off \<longrightarrow> r = off) \<and> (is_heap \<longrightarrow> r \<le> MaxHeapTuplesPerPage) \<and>
       (\<not> (OffsetNumberIsValid off \<and> \<not> ow) \<longrightarrow> r \<le> length (page_items p) \<longrightarrow> fst (page_items p ! (r - 1)) = LP_UNUSED))"
  by (rule page_add_item [OF assms refl])

theorem page_add_item_correct_witness:
  "\<exists>r p'. PageAddItem sample_page [1, 2, 3] 2 True True = (Inr r, p') \<and> page_ok p' \<and>
     (r = 0 \<or> r = 2 \<and> page_items p' = (page_items sample_page)[1 := (LP_NORMAL, 0, [1, 2, 3])])"
proof -
  have valid: "OffsetNumberIsValid 2" by (simp add: OffsetNumberIsValid_def InvalidOffsetNumber_def MaxOffsetNumber_def BLCKSZ_def)
  obtain r p' where "PageAddItem sample_page [1, 2, 3] 2 True True = (Inr r, p')" "page_ok p'"
    "if r = 0 then page_items p' = page_items sample_page
     else page_items p' = add_entry (page_items sample_page) r False (LP_NORMAL, 0, [1, 2, 3]) \<and> r = 2"
    using page_add_item_correct [OF sample_page_ok, of "[1, 2, 3]" 2 True True] valid by auto
  then show ?thesis by (auto simp: add_entry_def sample_page_simps split: if_splits)
qed

text \<open>
  C29. The free space that a page reports can be used: an item that fits into \<open>PageGetFreeSpace\<close>, or on a heap page
  within its limit of line pointers into \<open>PageGetHeapFreeSpace\<close>, is always accepted by \<open>PageAddItem\<close>.
\<close>

theorem page_free_space_promise:
  assumes "page_ok p" and "item \<noteq> []"
    and "MAXALIGN (length item) \<le> (if is_heap then PageGetHeapFreeSpace p else PageGetFreeSpace p)"
    and "is_heap \<longrightarrow> PageGetMaxOffsetNumber p \<le> MaxHeapTuplesPerPage"
  shows "\<exists>r p'. PageAddItem p item 0 False is_heap = (Inr r, p') \<and> r \<noteq> 0"
  by (rule page_free_space_usable [OF assms])

theorem page_free_space_promise_witness:
  "\<exists>r p'. PageAddItem sample_page [7, 7, 7] 0 False True = (Inr r, p') \<and> r \<noteq> 0"
proof -
  have "3 < MaxHeapTuplesPerPage"
    by (simp add: MaxHeapTuplesPerPage_def BLCKSZ_def SizeOfHeapPageHeaderData_def MAXALIGN_def)
  moreover from this have "PageGetHeapFreeSpace sample_page = 8088"
    by (simp add: PageGetHeapFreeSpace_def PageGetFreeSpace_def sample_page_simps Let_def)
  ultimately show ?thesis
    by (intro page_free_space_promise [OF sample_page_ok]) (simp_all add: sample_page_simps MAXALIGN_def)
qed

end
