(* ===== verification/IndexPage.thy ===== *)
theory IndexPage
  imports BufPage "HOL-Library.Sublist"
begin

text \<open>
  Deletion from index pages: the correctness of \<open>PageIndexTupleDelete\<close> and \<open>PageIndexMultiDelete\<close>, whose
  definitions are in \<open>BufPage\<close>, against the list of the items of a page. The locale \<open>item_array\<close> is what the
  retail loop over single deletions relies on.
\<close>

subsection \<open>PageIndexTupleDelete\<close>

text \<open>An index page in order: every line pointer has storage, of aligned length.\<close>

definition index_ok :: "page \<Rightarrow> bool" where
  "index_ok p \<longleftrightarrow> page_ok p \<and> \<not> PageIs8BXidHeapVersion p \<and>
    (\<forall>i < PageGetMaxOffsetNumber p. ItemIdHasStorage (pd_linp p i) \<and> 8 dvd lp_len (pd_linp p i))"

definition delete_entry :: "'a list \<Rightarrow> nat \<Rightarrow> 'a list" where
  "delete_entry xs offnum = take (offnum - 1) xs @ drop offnum xs"

text \<open>The line pointer at index \<open>k\<close> after the deletion of index \<open>i\<close>, whose item had \<open>z\<close> bytes.\<close>

definition lp_after_delete :: "page \<Rightarrow> nat \<Rightarrow> nat \<Rightarrow> ItemIdData" where
  "lp_after_delete p i k =
    (let lp = pd_linp p (if k < i then k else Suc k); del = pd_linp p i
     in if lp_off lp \<le> lp_off del then lp\<lparr>lp_off := lp_off lp + lp_len del\<rparr> else lp)"

definition mem_after_delete :: "page \<Rightarrow> nat \<Rightarrow> nat \<Rightarrow> uint8" where
  "mem_after_delete p i =
    memmove (pd_upper p + lp_len (pd_linp p i)) (pd_upper p) (lp_off (pd_linp p i) - pd_upper p) (pd_mem p)"

lemma index_lp:
  assumes "index_ok p" and "k < PageGetMaxOffsetNumber p"
  shows "0 < lp_len (pd_linp p k)" and "MAXALIGN (lp_len (pd_linp p k)) = lp_len (pd_linp p k)"
    and "8 dvd lp_off (pd_linp p k)" and "pd_upper p \<le> lp_off (pd_linp p k)"
    and "lp_off (pd_linp p k) + lp_len (pd_linp p k) \<le> pd_special p" and "pd_special p \<le> 8192"
    and "ItemIdIsUsed (pd_linp p k)" and "8 dvd lp_len (pd_linp p k)"
proof -
  have "lp_ok p (pd_linp p k)" "0 < lp_len (pd_linp p k)" "8 dvd lp_len (pd_linp p k)" "pd_special p \<le> 8192"
    using assms by (auto simp: index_ok_def page_ok_def header_ok_def corrupted_pointers_def BLCKSZ_def ItemIdHasStorage_def)
  then show "0 < lp_len (pd_linp p k)" "MAXALIGN (lp_len (pd_linp p k)) = lp_len (pd_linp p k)" "8 dvd lp_off (pd_linp p k)"
    "pd_upper p \<le> lp_off (pd_linp p k)" "lp_off (pd_linp p k) + lp_len (pd_linp p k) \<le> pd_special p" "pd_special p \<le> 8192"
    "ItemIdIsUsed (pd_linp p k)" "8 dvd lp_len (pd_linp p k)"
    by (auto simp: lp_ok_def lp_end_def ItemIdHasStorage_def MAXALIGN_id_iff [THEN iffD2])
qed

lemma index_apart:
  assumes "index_ok p" and "k < PageGetMaxOffsetNumber p" and "m < PageGetMaxOffsetNumber p" and "k \<noteq> m"
  shows "lp_off (pd_linp p k) + lp_len (pd_linp p k) \<le> lp_off (pd_linp p m) \<or>
    lp_off (pd_linp p m) + lp_len (pd_linp p m) \<le> lp_off (pd_linp p k)"
proof -
  have "lp_apart (pd_linp p k) (pd_linp p m)" using assms by (auto simp: index_ok_def page_ok_def)
  then show ?thesis
    using index_lp(2) [OF assms(1,2)] index_lp(2) [OF assms(1,3)] assms by (auto simp: lp_apart_def lp_end_def index_ok_def)
qed

text \<open>A survivor either lies below the deleted item and moves up by its size, or lies above it and stays.\<close>

lemma survivor_cases:
  assumes ok: "index_ok p" and i: "i < PageGetMaxOffsetNumber p" and k: "k < PageGetMaxOffsetNumber p - 1"
    and j: "j = (if k < i then k else Suc k)"
  obtains (below) "lp_after_delete p i k = (pd_linp p j)\<lparr>lp_off := lp_off (pd_linp p j) + lp_len (pd_linp p i)\<rparr>"
      and "lp_off (pd_linp p j) + lp_len (pd_linp p j) \<le> lp_off (pd_linp p i)"
  | (above) "lp_after_delete p i k = pd_linp p j" and "lp_off (pd_linp p i) + lp_len (pd_linp p i) \<le> lp_off (pd_linp p j)"
proof -
  have "j \<noteq> i" "j < PageGetMaxOffsetNumber p" using j k by auto
  from index_apart [OF ok this(2) i this(1)] consider
    "lp_off (pd_linp p j) + lp_len (pd_linp p j) \<le> lp_off (pd_linp p i)" |
    "lp_off (pd_linp p i) + lp_len (pd_linp p i) \<le> lp_off (pd_linp p j)" by blast
  then show thesis
    using below above index_lp(1) [OF ok i] j by cases (simp_all add: lp_after_delete_def Let_def)
qed

lemma delete_from_page:
  assumes ok: "index_ok p" and n: "n = PageGetMaxOffsetNumber p" and i: "i < n"
    and linp: "\<And>k. k < n - 1 \<Longrightarrow> pd_linp q k = lp_after_delete p i k" and mem: "pd_mem q = mem_after_delete p i"
    and q: "pd_upper q = pd_upper p + lp_len (pd_linp p i)" "pd_lower q = pd_lower p - 4" "pd_special q = pd_special p"
      "pd_pagesize_version q = pd_pagesize_version p"
  shows "index_ok q" and "page_items q = delete_entry (page_items p) (Suc i)" and "special_bytes q = special_bytes p"
proof -
  let ?d = "pd_linp p i"
  note d = index_lp [OF ok i [unfolded n]]
  have hdr: "header_ok p" using ok by (simp add: index_ok_def page_ok_def)
  have nq: "PageGetMaxOffsetNumber q = n - 1"
    using lower_eq [OF hdr] i n q by (intro max_offset_of_lower [of q p]) (auto simp: algebra_simps)
  have memq: "pd_mem q a = (if pd_upper p + lp_len ?d \<le> a \<and> a < lp_off ?d + lp_len ?d then pd_mem p (a - lp_len ?d) else pd_mem p a)" for a
    using d(4) by (auto simp: mem mem_after_delete_def memmove_def algebra_simps)
  show "special_bytes q = special_bytes p" using d(5) by (simp add: special_bytes_def q memq)
  have hq: "header_ok q"
    using hdr d(4,5,8) q lower_eq [OF hdr] i n layout_cong(1) [of q p]
    by (auto simp: header_ok_def corrupted_pointers_def)
  define \<sigma> where "\<sigma> k = (if k < i then k else Suc k)" for k
  have \<sigma>: "\<sigma> k < n" "\<sigma> k \<noteq> i" if "k < n - 1" for k using that by (auto simp: \<sigma>_def)
  have lpq: "lp_len (pd_linp q k) = lp_len (pd_linp p (\<sigma> k)) \<and> lp_flags (pd_linp q k) = lp_flags (pd_linp p (\<sigma> k)) \<and>
      8 dvd lp_off (pd_linp q k) \<and> pd_upper q \<le> lp_off (pd_linp q k) \<and>
      lp_off (pd_linp q k) + lp_len (pd_linp q k) \<le> pd_special q \<and> lp_item q (pd_linp q k) = lp_item p (pd_linp p (\<sigma> k))"
    if k: "k < n - 1" for k
  proof -
    note e = index_lp [OF ok \<sigma>(1) [OF k, unfolded n]]
    from ok i [unfolded n] k [unfolded n] \<sigma>_def show ?thesis
    proof (cases rule: survivor_cases)
      case below
      then show ?thesis
        using e d q linp [OF k] lp_item_moved [of "pd_linp q k" "pd_linp p (\<sigma> k)" q p] by (simp add: memq)
    next
      case above
      then show ?thesis
        using e d q linp [OF k] lp_item_moved [of "pd_linp q k" "pd_linp p (\<sigma> k)" q p] by (simp add: memq)
    qed
  qed
  have len: "0 < lp_len (pd_linp q k)" "8 dvd lp_len (pd_linp q k)" "ItemIdIsUsed (pd_linp q k)" if "k < n - 1" for k
    using lpq [OF that] index_lp [OF ok \<sigma>(1) [OF that, unfolded n]] by (auto simp: ItemIdIsUsed_def)
  have "lp_apart (pd_linp q k) (pd_linp q m)" if km: "k < n - 1" "m < n - 1" "k \<noteq> m" for k m
  proof -
    have a: "lp_off (pd_linp p (\<sigma> k)) + lp_len (pd_linp p (\<sigma> k)) \<le> lp_off (pd_linp p (\<sigma> m)) \<or>
        lp_off (pd_linp p (\<sigma> m)) + lp_len (pd_linp p (\<sigma> m)) \<le> lp_off (pd_linp p (\<sigma> k))"
      using index_apart [OF ok, of "\<sigma> k" "\<sigma> m"] km \<sigma> n by (auto simp: \<sigma>_def)
    have "lp_off (pd_linp q k) + lp_len (pd_linp q k) \<le> lp_off (pd_linp q m) \<or>
        lp_off (pd_linp q m) + lp_len (pd_linp q m) \<le> lp_off (pd_linp q k)"
      using ok i [unfolded n] km(1) [unfolded n] \<sigma>_def
    proof (cases rule: survivor_cases)
      case k: below
      show ?thesis using ok i [unfolded n] km(2) [unfolded n] \<sigma>_def
        by (cases rule: survivor_cases) (use a k linp km in auto)
    next
      case k: above
      show ?thesis using ok i [unfolded n] km(2) [unfolded n] \<sigma>_def
        by (cases rule: survivor_cases) (use a k linp km in auto)
    qed
    then show ?thesis using len km by (simp add: lp_apart_def lp_end_def MAXALIGN_id_iff [THEN iffD2])
  qed
  moreover have "lp_ok q (pd_linp q k)" if "k < n - 1" for k
    using lpq [OF that] len [OF that] MAXALIGN_id_iff [of "lp_len (pd_linp q k)"] by (simp add: lp_ok_def lp_end_def)
  ultimately have "page_ok q" using hq by (simp add: page_ok_def nq)
  then show "index_ok q"
    using len nq ok q(4) by (simp add: index_ok_def ItemIdHasStorage_def PageIs8BXidHeapVersion_def PageGetPageLayoutVersion_def)
  show "page_items q = delete_entry (page_items p) (Suc i)"
  proof (rule nth_equalityI)
    show "length (page_items q) = length (delete_entry (page_items p) (Suc i))"
      using i n nq by (simp add: delete_entry_def)
    show "page_items q ! k = delete_entry (page_items p) (Suc i) ! k" if "k < length (page_items q)" for k
      using that nq lpq [of k] i n
      by (auto simp: delete_entry_def nth_append nth_page_items \<sigma>_def min_def)
  qed
qed

lemma page_index_tuple_delete:
  assumes ok: "index_ok p" and off: "0 < offnum" "offnum \<le> PageGetMaxOffsetNumber p"
  shows "\<exists>p'. PageIndexTupleDelete p offnum = (Inr (), p') \<and> index_ok p' \<and>
    page_items p' = delete_entry (page_items p) offnum \<and> special_bytes p' = special_bytes p"
proof -
  define n where "n = PageGetMaxOffsetNumber p"
  define i where "i = offnum - 1"
  let ?d = "pd_linp p i"
  have i: "i < n" "offnum = Suc i" using off by (auto simp: i_def n_def)
  note d = index_lp [OF ok i(1) [unfolded n_def]]
  have hdr: "\<not> (pd_lower p < SizeOfPageHeaderData \<or> pd_lower p > pd_upper p \<or> pd_upper p > pd_special p \<or> pd_special p > BLCKSZ)"
    using ok header_size_cases [of p]
    by (auto simp: index_ok_def page_ok_def header_ok_def corrupted_pointers_def SizeOfPageHeaderData_def)
  have range: "\<not> (offnum = 0 \<or> offnum > n)" using off by (simp add: n_def)
  have item: "\<not> (lp_off ?d < pd_upper p \<or> lp_off ?d + lp_len ?d > pd_special p \<or> lp_off ?d \<noteq> MAXALIGN (lp_off ?d) \<or>
      lp_len ?d \<noteq> MAXALIGN (lp_len ?d))"
    using d MAXALIGN_id_iff [of "lp_off ?d"] by auto
  define l where "l = shift_down (pd_linp p) i (n - 1)"
  have mem: "(if lp_off ?d > pd_upper p then memmove (pd_upper p + lp_len ?d) (pd_upper p) (lp_off ?d - pd_upper p) (pd_mem p)
      else pd_mem p) = mem_after_delete p i"
    by (auto simp: mem_after_delete_def memmove_def fun_eq_iff)
  define q where "q = p\<lparr>pd_linp := l, pd_mem := mem_after_delete p i, pd_upper := pd_upper p + lp_len ?d, pd_lower := pd_lower p - 4\<rparr>"
  define q' where "q' = (if PageIsEmpty q then q else q\<lparr>pd_linp := (\<lambda>k. if k < n - 1 \<and> lp_off (l k) \<le> lp_off ?d
      then (l k)\<lparr>lp_off := (lp_off (l k) + lp_len ?d) mod 2 ^ 15\<rparr> else l k)\<rparr>)"
  have run: "PageIndexTupleDelete p offnum = (Inr (), q')"
    unfolding PageIndexTupleDelete_def Let_def n_def [symmetric] PageGetItemId_def i_def [symmetric]
    by (simp only: hdr range item mem if_False l_def [symmetric] q_def [symmetric]) (simp add: q'_def)
  have hp: "header_ok p" using ok by (simp add: index_ok_def page_ok_def)
  have empty: "n - 1 = 0" if "PageIsEmpty q"
    using that lower_eq [OF hp] layout_cong(1) [of q p] by (simp add: PageIsEmpty_def q_def n_def)
  have small: "lp_off (l k) + lp_len ?d < 2 ^ 15" if "k < n - 1" "lp_off (l k) \<le> lp_off ?d" for k
    using that d(5,6) by simp
  have linp: "pd_linp q' k = lp_after_delete p i k" if "k < n - 1" for k
    using that empty small [of k] i by (auto simp: q'_def q_def lp_after_delete_def Let_def l_def shift_down_def)
  have "pd_mem q' = mem_after_delete p i" "pd_upper q' = pd_upper p + lp_len ?d" "pd_lower q' = pd_lower p - 4"
    "pd_special q' = pd_special p" "pd_pagesize_version q' = pd_pagesize_version p"
    by (simp_all add: q'_def q_def)
  from delete_from_page [OF ok n_def i(1) linp this] show ?thesis using run i(2) by auto
qed

subsection \<open>Deleting several items one by one\<close>

text \<open>
  An array of items with a fallible deletion by offset number. Deleting from the highest number down leaves exactly
  the items that were not named, because a deletion only renumbers the items above it.
\<close>

definition without :: "'a list \<Rightarrow> nat set \<Rightarrow> 'a list" where
  "without xs offnums = map (\<lambda>m. xs ! (m - 1)) (filter (\<lambda>m. m \<notin> offnums) [1 ..< Suc (length xs)])"

lemma without_none [simp]: "without xs {} = xs"
proof -
  have "map (\<lambda>m. xs ! (m - 1)) [Suc 0 ..< Suc (length xs)] = map (\<lambda>i. xs ! i) [0 ..< length xs]"
    unfolding map_Suc_upt [symmetric] map_map by simp
  then show ?thesis by (simp add: without_def map_nth)
qed

lemma upt_split_at: "0 < d \<Longrightarrow> d \<le> n \<Longrightarrow> [1 ..< Suc n] = [1 ..< d] @ d # map Suc [d ..< n]"
  using upt_add_eq_append [of 1 d "Suc n - d"] by (simp add: upt_conv_Cons map_Suc_upt)

lemma delete_entry_nth:
  "0 < d \<Longrightarrow> d \<le> length xs \<Longrightarrow> k < length xs - 1 \<Longrightarrow> delete_entry xs d ! k = xs ! (if k < d - 1 then k else Suc k)"
  by (auto simp: delete_entry_def nth_append min_def)

lemma without_delete_entry:
  assumes d: "0 < d" "d \<le> length xs" and below: "\<forall>m \<in> D. m < d"
  shows "without (delete_entry xs d) D = without xs (insert d D)"
proof -
  let ?n = "length xs" and ?ys = "delete_entry xs d"
  have len: "length ?ys = ?n - 1" using d by (simp add: delete_entry_def)
  have lo: "map (\<lambda>m. ?ys ! (m - 1)) (filter (\<lambda>m. m \<notin> D) [1 ..< d]) = map (\<lambda>m. xs ! (m - 1)) (filter (\<lambda>m. m \<notin> insert d D) [1 ..< d])"
    using d by (intro map_cong filter_cong) (auto simp: delete_entry_nth)
  have hi: "map (\<lambda>m. ?ys ! (m - 1)) (filter (\<lambda>m. m \<notin> D) [d ..< ?n]) =
      map (\<lambda>m. xs ! (m - 1)) (filter (\<lambda>m. m \<notin> insert d D) (map Suc [d ..< ?n]))"
  proof -
    have "filter (\<lambda>m. m \<notin> D) [d ..< ?n] = [d ..< ?n]" "filter (\<lambda>m. Suc m \<notin> insert d D) [d ..< ?n] = [d ..< ?n]"
      using below by (auto simp: filter_id_conv)
    moreover have "map (\<lambda>m. ?ys ! (m - 1)) [d ..< ?n] = map (\<lambda>m. xs ! m) [d ..< ?n]"
      using d by (intro map_cong) (auto simp: delete_entry_nth)
    ultimately show ?thesis by (simp add: filter_map comp_def)
  qed
  have "Suc (?n - 1) = ?n" using d by simp
  then have "[1 ..< Suc (?n - 1)] = [1 ..< d] @ [d ..< ?n]"
    using d upt_add_eq_append [of 1 d "?n - d"] by (simp only:) simp
  then show ?thesis
    unfolding without_def len upt_split_at [OF d] using lo hi by simp
qed

locale item_array =
  fixes ok :: "'p \<Rightarrow> bool" and items :: "'p \<Rightarrow> 'a list" and delete :: "'p \<Rightarrow> nat \<Rightarrow> unit result \<times> 'p"
  assumes delete_law: "ok p \<Longrightarrow> 0 < m \<Longrightarrow> m \<le> length (items p) \<Longrightarrow>
    \<exists>p'. delete p m = (Inr (), p') \<and> ok p' \<and> items p' = delete_entry (items p) m"
begin

lemma delete_each_descending:
  assumes "ok p" and "sorted_wrt (\<lambda>a b. b < a) os" and "\<forall>m \<in> set os. 0 < m \<and> m \<le> length (items p)"
  shows "\<exists>p'. delete_each delete p os = (Inr (), p') \<and> ok p' \<and> items p' = without (items p) (set os)"
  using assms
proof (induction os arbitrary: p)
  case (Cons d os)
  obtain q where q: "delete p d = (Inr (), q)" "ok q" "items q = delete_entry (items p) d"
    using delete_law [of p d] Cons.prems by auto
  have "0 < m \<and> m \<le> length (items q)" if "m \<in> set os" for m
    using that Cons.prems by (auto simp: q(3) delete_entry_def)
  then obtain p' where "delete_each delete q os = (Inr (), p')" "ok p'" "items p' = without (items q) (set os)"
    using Cons.IH [OF q(2)] Cons.prems by auto
  then show ?case using q Cons.prems without_delete_entry [of d "items p" "set os"] by auto
qed simp

end

interpretation index_page: item_array "\<lambda>p. index_ok p \<and> special_bytes p = sb" page_items PageIndexTupleDelete for sb
proof unfold_locales
  fix p m
  assume "index_ok p \<and> special_bytes p = sb" and "0 < m" and "m \<le> length (page_items p)"
  then show "\<exists>p'. PageIndexTupleDelete p m = (Inr (), p') \<and> (index_ok p' \<and> special_bytes p' = sb) \<and>
      page_items p' = delete_entry (page_items p) m"
    using page_index_tuple_delete [of p m] by auto
qed

subsection \<open>PageIndexMultiDelete\<close>

text \<open>The offset numbers that the scan keeps, and the named ones that it did not meet.\<close>

fun kept :: "nat list \<Rightarrow> nat list \<Rightarrow> nat list \<times> nat list" where
  "kept [] itemnos = ([], itemnos)"
| "kept (m # os) itemnos =
    (if itemnos \<noteq> [] \<and> m = hd itemnos then kept os (tl itemnos) else (m # fst (kept os itemnos), snd (kept os itemnos)))"

lemma kept_subset: "set (fst (kept os itemnos)) \<subseteq> set os"
  by (induction os itemnos rule: kept.induct) auto

lemma kept_sorted: "sorted_wrt (<) os \<Longrightarrow> sorted_wrt (<) (fst (kept os itemnos))"
  using kept_subset by (induction os itemnos rule: kept.induct) auto

lemma kept_all:
  "sorted_wrt (<) os \<Longrightarrow> sorted_wrt (<) itemnos \<Longrightarrow> set itemnos \<subseteq> set os \<Longrightarrow>
    kept os itemnos = (filter (\<lambda>m. m \<notin> set itemnos) os, [])"
proof (induction os arbitrary: itemnos)
  case (Cons m os)
  have m: "m \<notin> set os" "sorted_wrt (<) os" using Cons.prems(1) by auto
  show ?case
  proof (cases "itemnos \<noteq> [] \<and> m = hd itemnos")
    case True
    then obtain ds where ds: "itemnos = m # ds" by (cases itemnos) auto
    then have "set ds \<subseteq> set os" "sorted_wrt (<) ds" using Cons.prems by auto
    then have "kept os ds = (filter (\<lambda>m. m \<notin> set ds) os, [])" using Cons.IH m(2) by blast
    moreover have "filter (\<lambda>k. k \<notin> set ds) os = filter (\<lambda>k. k \<notin> set (m # ds)) os"
      using m(1) by (intro filter_cong) auto
    ultimately show ?thesis using ds by simp
  next
    case False
    have "m \<notin> set itemnos"
    proof
      assume "m \<in> set itemnos"
      then obtain d ds where ds: "itemnos = d # ds" "m \<in> set ds" using False by (cases itemnos) auto
      then have "d < m" "d \<in> set (m # os)" using Cons.prems(2,3) by auto
      then show False using Cons.prems(1) by auto
    qed
    then have "kept os itemnos = (filter (\<lambda>m. m \<notin> set itemnos) os, [])"
      using Cons.IH [OF m(2) Cons.prems(2)] Cons.prems(3) by auto
    then show ?thesis using False \<open>m \<notin> set itemnos\<close> by auto
  qed
qed simp

lemma kept_none_left: "snd (kept os itemnos) = [] \<Longrightarrow> subseq itemnos os"
proof (induction os itemnos rule: kept.induct)
  case (2 m os itemnos)
  then show ?case by (cases itemnos) (auto split: if_splits)
qed auto

lemma subseq_set: "subseq xs ys \<Longrightarrow> set xs \<subseteq> set ys"
  by (induction rule: list_emb.induct) auto

lemma sorted_wrt_subseq: "subseq xs ys \<Longrightarrow> sorted_wrt P ys \<Longrightarrow> sorted_wrt P xs"
proof (induction rule: list_emb.induct)
  case (list_emb_Cons2 x y xs ys)
  then show ?case using subseq_set by fastforce
qed auto

lemma kept_left_iff:
  assumes "sorted_wrt (<) os"
  shows "snd (kept os itemnos) = [] \<longleftrightarrow> sorted_wrt (<) itemnos \<and> set itemnos \<subseteq> set os"
proof
  assume "snd (kept os itemnos) = []"
  then have "subseq itemnos os" by (rule kept_none_left)
  then show "sorted_wrt (<) itemnos \<and> set itemnos \<subseteq> set os"
    using assms by (simp add: sorted_wrt_subseq subseq_set)
qed (simp add: kept_all assms)

definition kept_pairs :: "nat list \<Rightarrow> nat \<Rightarrow> (nat \<times> nat) list" where
  "kept_pairs ks nused = zip (map (\<lambda>m. m - 1) ks) [nused ..< nused + length ks]"

lemma kept_pairs_Cons: "kept_pairs (m # ks) nused = (m - 1, nused) # kept_pairs ks (Suc nused)"
  by (simp add: kept_pairs_def upt_conv_Cons del: upt_Suc)

lemma multi_scan_eq:
  assumes ok: "index_ok p" and "\<forall>m \<in> set os. 0 < m \<and> m \<le> PageGetMaxOffsetNumber p"
  shows "multi_scan p os itemnos nused = Inr (entries p (kept_pairs (fst (kept os itemnos)) nused), snd (kept os itemnos))"
  using assms(2)
proof (induction os arbitrary: itemnos nused)
  case Nil
  then show ?case by (simp add: kept_pairs_def)
next
  case (Cons m os)
  have m: "m - 1 < PageGetMaxOffsetNumber p" using Cons.prems by auto
  note lp = index_lp [OF ok m]
  have "\<not> (lp_off (PageGetItemId p m) < pd_upper p \<or> lp_off (PageGetItemId p m) + lp_len (PageGetItemId p m) > pd_special p \<or>
      lp_off (PageGetItemId p m) \<noteq> MAXALIGN (lp_off (PageGetItemId p m)))"
    using lp MAXALIGN_id_iff [of "lp_off (pd_linp p (m - 1))"] by (auto simp: PageGetItemId_def)
  then show ?case using Cons by (auto simp: Let_def kept_pairs_Cons)
qed

text \<open>The page after a compaction that keeps the items \<open>ks\<close> and numbers them anew.\<close>

lemma kept_pairs_keeps:
  assumes ok: "index_ok p" and ks: "distinct ks" "\<forall>m \<in> set ks. 0 < m \<and> m \<le> PageGetMaxOffsetNumber p"
  shows "keeps_lp p (kept_pairs ks 0)"
proof -
  let ?pairs = "kept_pairs ks 0"
  have fst_p: "map fst ?pairs = map (\<lambda>m. m - 1) ks" and snd_p: "map snd ?pairs = [0 ..< length ks]"
    by (simp_all add: kept_pairs_def)
  have "inj_on (\<lambda>m. m - 1) (set ks)"
  proof (rule inj_onI)
    fix a b assume ab: "a \<in> set ks" "b \<in> set ks" "a - 1 = b - 1"
    then have "0 < a" "0 < b" using ks(2) by blast+
    then show "a = b" using ab(3) by linarith
  qed
  then have "distinct (map fst ?pairs)" using ks(1) by (simp add: fst_p distinct_map)
  moreover have "ItemIdHasStorage (pd_linp p i) \<and> i < PageGetMaxOffsetNumber p" if "(i, t) \<in> set ?pairs" for i t
  proof -
    have "i \<in> set (map fst ?pairs)" using that by force
    then have "i < PageGetMaxOffsetNumber p" unfolding fst_p using ks(2) by fastforce
    then show ?thesis using ok by (simp add: index_ok_def)
  qed
  moreover have "distinct (map snd ?pairs)" by (simp add: snd_p)
  ultimately show ?thesis by (auto simp: keeps_lp_def)
qed

lemma total_kept_fits:
  assumes ok: "index_ok p" and ks: "distinct ks" "\<forall>m \<in> set ks. 0 < m \<and> m \<le> PageGetMaxOffsetNumber p"
  shows "sum_list (map alignedlen (entries p (kept_pairs ks 0))) \<le> pd_special p - pd_upper p"
proof -
  have "page_ok p" using ok by (simp add: index_ok_def)
  then show ?thesis using total_len_fits(1) [OF _ kept_pairs_keeps [OF assms]] by (simp only: total_len_entries)
qed

lemma compact_renumber:
  assumes ok: "index_ok p" and ks: "distinct ks" "\<forall>m \<in> set ks. 0 < m \<and> m \<le> PageGetMaxOffsetNumber p"
    and run: "compactify (\<lambda>it _. olditemid it) (qsort_items (entries p (kept_pairs ks 0))) (pd_special p) p = (upper, p')"
    and q: "q = p'\<lparr>pd_lower := SizeOfPageHeaderData + length ks * 4, pd_upper := upper\<rparr>"
    and le: "length ks \<le> PageGetMaxOffsetNumber p"
  shows "index_ok q" and "page_items q = map (\<lambda>m. page_items p ! (m - 1)) ks" and "special_bytes q = special_bytes p"
proof -
  let ?pairs = "kept_pairs ks 0"
  have pok: "page_ok p" and nh: "\<not> PageIs8BXidHeapVersion p" using ok by (auto simp: index_ok_def)
  have mem: "(ks ! t - 1, t) \<in> set ?pairs" if "t < length ks" for t
    using that by (auto simp: kept_pairs_def set_zip intro!: exI [of _ t])
  have range: "ks ! t - 1 < PageGetMaxOffsetNumber p" if "t < length ks" for t
    using that ks(2) nth_mem [OF that] by fastforce
  note keep = kept_pairs_keeps [OF ok ks]
  note c = compact_page [OF pok keep _ run, simplified]
  have fields: "pd_special p' = pd_special p" "pd_pagesize_version p' = pd_pagesize_version p"
    using arg_cong [OF c(2), of pd_special] arg_cong [OF c(2), of pd_pagesize_version] by simp_all
  have h24: "GetPageHeaderSize p = 24" using nh by (simp add: GetPageHeaderSize_def SizeOfPageHeaderData_def)
  have nq: "PageGetMaxOffsetNumber q = length ks"
    by (rule max_offset_of_lower [of _ p]) (simp_all add: q fields h24 SizeOfPageHeaderData_def)
  have hp: "header_ok p" using pok by (simp add: page_ok_def)
  have hq: "header_ok q"
    using total_len_fits [OF pok keep] hp le lower_eq [OF hp] h24 layout_cong(1) [of q p] fields c(1)
    by (auto simp: q header_ok_def corrupted_pointers_def SizeOfPageHeaderData_def intro!: dvd_diff_nat)
  have lpq: "pd_linp q t = pd_linp p' t" for t by (simp add: q)
  have "lp_ok q (pd_linp q t)" if "t < length ks" for t
    using c(4) [OF mem [OF that]] by (simp add: lpq lp_ok_def q)
  moreover have "lp_apart (pd_linp q t) (pd_linp q r)" if "t < length ks" "r < length ks" "t \<noteq> r" for t r
    using c(6) [OF mem [OF that(1)] mem [OF that(2)] that(3)] by (simp add: lpq)
  ultimately have "page_ok q" using hq by (simp add: page_ok_def nq)
  moreover have "ItemIdHasStorage (pd_linp q t) \<and> 8 dvd lp_len (pd_linp q t)" if "t < length ks" for t
    using c(5) [OF mem [OF that]] index_lp [OF ok range [OF that]] by (simp add: lpq ItemIdHasStorage_def)
  moreover have "\<not> PageIs8BXidHeapVersion q"
    using nh by (simp add: PageIs8BXidHeapVersion_def PageGetPageLayoutVersion_def q fields)
  ultimately show "index_ok q" by (simp add: index_ok_def nq)
  show "page_items q = map (\<lambda>m. page_items p ! (m - 1)) ks"
  proof (rule nth_equalityI)
    show "page_items q ! t = map (\<lambda>m. page_items p ! (m - 1)) ks ! t" if "t < length (page_items q)" for t
    proof -
      have t: "t < length ks" using that nq by simp
      have "lp_item q (pd_linp q t) = lp_item p' (pd_linp p' t)" using lp_item_cong [of q p'] by (simp add: q)
      then show ?thesis using c(3) [OF mem [OF t]] t range [OF t] nq by (simp add: nth_page_items)
    qed
  qed (simp add: nq)
  show "special_bytes q = special_bytes p" using c(8) by (simp add: special_bytes_def q)
qed

lemma multi_delete_large:
  assumes ok: "index_ok p" and n: "n = PageGetMaxOffsetNumber p" and large: "2 < length itemnos"
  shows "sorted_wrt (<) itemnos \<Longrightarrow> set itemnos \<subseteq> {1 .. n} \<Longrightarrow>
      \<exists>p'. PageIndexMultiDelete p itemnos = (Inr (), p') \<and> index_ok p' \<and> special_bytes p' = special_bytes p \<and>
        page_items p' = without (page_items p) (set itemnos)"
    and "\<not> (sorted_wrt (<) itemnos \<and> set itemnos \<subseteq> {1 .. n}) \<Longrightarrow> PageIndexMultiDelete p itemnos = (Inl InvalidOffnum, p)"
proof -
  define os where "os = [1 ..< Suc n]"
  have os: "sorted_wrt (<) os" "set os = {1 .. n}" "\<forall>m \<in> set os. 0 < m \<and> m \<le> n"
    by (auto simp: os_def simp del: upt_Suc)
  have pok: "page_ok p" using ok by (simp add: index_ok_def)
  have hdr: "\<not> (pd_lower p < GetPageHeaderSize p \<or> pd_lower p > pd_upper p \<or> pd_upper p > pd_special p \<or> pd_special p > BLCKSZ \<or>
      pd_special p \<noteq> MAXALIGN (pd_special p))"
    using pok MAXALIGN_id_iff [of "pd_special p"] by (auto simp: page_ok_def header_ok_def corrupted_pointers_def)
  have big: "\<not> length itemnos \<le> PAGE_INDEX_CAN_TUPLE_DELETE" using large by (simp add: PAGE_INDEX_CAN_TUPLE_DELETE_def)
  note scan = multi_scan_eq [OF ok os(3) [unfolded n], of itemnos 0]
  note unfold = PageIndexMultiDelete_def Let_def n [symmetric] os_def [symmetric]
  show "PageIndexMultiDelete p itemnos = (Inl InvalidOffnum, p)" if "\<not> (sorted_wrt (<) itemnos \<and> set itemnos \<subseteq> {1 .. n})"
  proof -
    have "snd (kept os itemnos) \<noteq> []" using that kept_left_iff [OF os(1)] os(2) by simp
    then show ?thesis unfolding unfold by (simp only: big hdr if_False scan sum.case prod.case if_True simp_thms)
  qed
  show "\<exists>p'. PageIndexMultiDelete p itemnos = (Inr (), p') \<and> index_ok p' \<and> special_bytes p' = special_bytes p \<and>
      page_items p' = without (page_items p) (set itemnos)"
    if valid: "sorted_wrt (<) itemnos" "set itemnos \<subseteq> {1 .. n}"
  proof -
    define ks where "ks = filter (\<lambda>m. m \<notin> set itemnos) os"
    have kept: "kept os itemnos = (ks, [])" using kept_all [OF os(1) valid(1)] valid(2) os(2) by (simp add: ks_def)
    have ks: "distinct ks" "\<forall>m \<in> set ks. 0 < m \<and> m \<le> PageGetMaxOffsetNumber p" "length ks \<le> n"
      using os n length_filter_le [of "\<lambda>m. m \<notin> set itemnos" os] by (auto simp: ks_def os_def simp del: upt_Suc)
    obtain upper p' where run: "compactify (\<lambda>it _. olditemid it) (qsort_items (entries p (kept_pairs ks 0))) (pd_special p) p = (upper, p')"
      by fastforce
    define q where "q = p'\<lparr>pd_lower := SizeOfPageHeaderData + length ks * 4, pd_upper := upper\<rparr>"
    note c = compact_renumber [OF ok ks(1,2) run q_def ks(3) [unfolded n]]
    have len: "length (entries p (kept_pairs ks 0)) = length ks" by (simp add: kept_pairs_def)
    have fit: "\<not> sum_list (map alignedlen (entries p (kept_pairs ks 0))) > pd_special p - pd_lower p"
      using total_kept_fits [OF ok ks(1,2)] hdr by linarith
    have "PageIndexMultiDelete p itemnos = (Inr (), q)"
      unfolding unfold by (simp only: big hdr fit if_False scan kept fst_conv snd_conv sum.case prod.case simp_thms run len q_def)
    then show ?thesis using c by (simp add: without_def ks_def os_def n)
  qed
qed

lemma page_multi_delete:
  assumes ok: "index_ok p" and valid: "sorted_wrt (<) itemnos" "set itemnos \<subseteq> {1 .. PageGetMaxOffsetNumber p}"
  shows "\<exists>p'. PageIndexMultiDelete p itemnos = (Inr (), p') \<and> index_ok p' \<and> special_bytes p' = special_bytes p \<and>
    page_items p' = without (page_items p) (set itemnos)"
proof (cases "2 < length itemnos")
  case True
  then show ?thesis using multi_delete_large(1) [OF ok refl True valid] by blast
next
  case False
  have "sorted_wrt (\<lambda>a b. b < a) (rev itemnos)" using valid(1) by (simp add: sorted_wrt_rev)
  then obtain p' where "delete_each PageIndexTupleDelete p (rev itemnos) = (Inr (), p')" "index_ok p'"
    "special_bytes p' = special_bytes p" "page_items p' = without (page_items p) (set itemnos)"
    using index_page.delete_each_descending [of p "special_bytes p" "rev itemnos"] ok valid(2) by fastforce
  then show ?thesis using False by (simp add: PageIndexMultiDelete_def PAGE_INDEX_CAN_TUPLE_DELETE_def)
qed

subsection \<open>An example page\<close>

text \<open>An index page with three tuples and a special space.\<close>

definition sample_index :: page where
  "sample_index = (PageInit BLCKSZ 16 False)\<lparr>pd_lower := 36, pd_upper := 8128,
    pd_linp := (\<lambda>i. \<lparr>lp_off = 8128 + 16 * i, lp_flags = LP_NORMAL, lp_len = 16\<rparr>)\<rparr>"

lemma sample_index_simps:
  "GetPageHeaderSize sample_index = 24" "PageGetMaxOffsetNumber sample_index = 3" "pd_lower sample_index = 36"
  "pd_upper sample_index = 8128" "pd_special sample_index = 8176" "\<not> PageIs8BXidHeapVersion sample_index"
  "pd_linp sample_index = (\<lambda>i. \<lparr>lp_off = 8128 + 16 * i, lp_flags = LP_NORMAL, lp_len = 16\<rparr>)"
  by (simp_all add: sample_index_def PageInit_def Let_def PageSetPageSizeAndVersion_def version_simps GetPageHeaderSize_def
      PageIs8BXidHeapVersion_def PageGetPageLayoutVersion_def PG_HEAP_PAGE_LAYOUT_VERSION_def PG_COMM_PAGE_LAYOUT_VERSION_def PageGetMaxOffsetNumber_def
      SizeOfPageHeaderData_def zeroed_page_def MAXALIGN_def BLCKSZ_def)

lemma sample_index_ok: "index_ok sample_index"
proof -
  have "lp_ok sample_index (pd_linp sample_index i)" if "i < 3" for i
    using less_3_cases [OF that] by (auto simp: lp_ok_def lp_end_def ItemIdIsUsed_def MAXALIGN_def sample_index_simps)
  moreover have "lp_apart (pd_linp sample_index i) (pd_linp sample_index j)" if "i \<noteq> j" for i j
    using that by (auto simp: lp_apart_def lp_end_def MAXALIGN_def sample_index_simps)
  ultimately show ?thesis
    by (simp add: index_ok_def page_ok_def header_ok_def corrupted_pointers_def sample_index_simps BLCKSZ_def ItemIdHasStorage_def)
qed

subsection \<open>Properties\<close>

text \<open>
  C16. \<open>PageIndexTupleDelete\<close> on an index page in order removes exactly the given item: the items after it move down by one
  offset number, every other item keeps its bytes although its storage may have moved, the special space is untouched,
  and the page stays in order.
\<close>

theorem page_index_tuple_delete_correct:
  assumes "index_ok p" and "0 < offnum" and "offnum \<le> PageGetMaxOffsetNumber p"
  shows "\<exists>p'. PageIndexTupleDelete p offnum = (Inr (), p') \<and> index_ok p' \<and>
    page_items p' = delete_entry (page_items p) offnum \<and> special_bytes p' = special_bytes p"
  by (rule page_index_tuple_delete [OF assms])

theorem page_index_tuple_delete_correct_witness:
  "\<exists>p'. PageIndexTupleDelete sample_index 2 = (Inr (), p') \<and>
    page_items p' = [page_items sample_index ! 0, page_items sample_index ! 2]"
proof -
  obtain p' where "PageIndexTupleDelete sample_index 2 = (Inr (), p')" "page_items p' = delete_entry (page_items sample_index) 2"
    using page_index_tuple_delete_correct [OF sample_index_ok, of 2] by (auto simp: sample_index_simps)
  then show ?thesis by (simp add: delete_entry_def page_items_def sample_index_simps upt_3)
qed

text \<open>
  C17. \<open>PageIndexMultiDelete\<close> with item numbers in ascending order removes exactly these items, on both of its paths (the
  retail deletion of up to two items, from the last to the first, and the compaction of the page): the remaining
  items keep their bytes and their order, and the page stays in order.
\<close>

theorem page_index_multi_delete_correct:
  assumes "index_ok p" and "sorted_wrt (<) itemnos" and "set itemnos \<subseteq> {1 .. PageGetMaxOffsetNumber p}"
    and "PageGetMaxOffsetNumber p \<le> MaxIndexTuplesPerPage"
  shows "\<exists>p'. PageIndexMultiDelete p itemnos = (Inr (), p') \<and> index_ok p' \<and> special_bytes p' = special_bytes p \<and>
    page_items p' = without (page_items p) (set itemnos)"
  by (rule page_multi_delete [OF assms(1-3)])

theorem page_index_multi_delete_correct_witness:
  "\<exists>p'. PageIndexMultiDelete sample_index [1, 3] = (Inr (), p') \<and> page_items p' = [page_items sample_index ! 1]"
proof -
  have "PageGetMaxOffsetNumber sample_index \<le> MaxIndexTuplesPerPage"
    by (simp add: sample_index_simps MaxIndexTuplesPerPage_def BLCKSZ_def SizeOfPageHeaderData_def MAXALIGN_def)
  then obtain p' where p': "PageIndexMultiDelete sample_index [1, 3] = (Inr (), p')"
    "page_items p' = without (page_items sample_index) {1, 3}"
    using page_index_multi_delete_correct [OF sample_index_ok, of "[1, 3]"] by (auto simp: sample_index_simps)
  have "[1 ..< Suc 3] = [1, 2, 3]" by (simp add: upt_rec)
  then have "page_items p' = [page_items sample_index ! 1]"
    using p'(2) by (simp only: without_def length_page_items sample_index_simps) simp
  then show ?thesis using p'(1) by blast
qed

text \<open>
  \<open>PageIndexMultiDelete\<close> of more than two items catches item numbers that do not exist, are repeated or are out of
  order: it raises the error, and the page is as it was.
\<close>

lemma page_index_multi_delete_error:
  assumes "index_ok p" and "2 < length itemnos"
    and "\<not> (sorted_wrt (<) itemnos \<and> set itemnos \<subseteq> {1 .. PageGetMaxOffsetNumber p})"
  shows "PageIndexMultiDelete p itemnos = (Inl (Ereport ERROR ERRCODE_INVALID_ROW_COUNT_IN_RESULT_OFFSET_CLAUSE), p)"
  using multi_delete_large(2) [OF assms(1) refl assms(2,3)] by (simp add: InvalidOffnum_def)

end
