(* ===== verification/DictPage.thy ===== *)
theory DictPage
  imports BufPage
begin

text \<open>
  Freeing the compression dictionary of a heap page: \<open>PageReinitWithDict\<close>, \<open>PageCheckAndFreeDict\<close> and
  \<open>PageFreeDict\<close>, whose definitions are in \<open>BufPage\<close>. The dictionary is the special space of the page.
\<close>

lemma special_size_eq: "PageGetPageSize p = BLCKSZ \<Longrightarrow> pd_special p \<le> BLCKSZ \<Longrightarrow> PageGetSpecialSize p = BLCKSZ - pd_special p"
  by (simp add: PageGetSpecialSize_def BLCKSZ_def nat_mod_distrib flip: of_nat_diff)

lemma clear_compressed_simps [simp]:
  "pd_lower (PageClearCompressed p) = pd_lower p" "pd_upper (PageClearCompressed p) = pd_upper p"
  "pd_special (PageClearCompressed p) = pd_special p" "pd_linp (PageClearCompressed p) = pd_linp p"
  "pd_mem (PageClearCompressed p) = pd_mem p" "pd_pagesize_version (PageClearCompressed p) = pd_pagesize_version p"
  by (simp_all add: PageClearCompressed_def)

text \<open>The page whose tuple space is moved up to the end of the page.\<close>

lemma shift_page:
  assumes ok: "page_ok p" and d: "d = BLCKSZ - pd_special p" and n: "n = PageGetMaxOffsetNumber p"
    and normal: "\<And>i. i < n \<Longrightarrow> ItemIdHasStorage (pd_linp p i) \<Longrightarrow> lp_flags (pd_linp p i) = LP_NORMAL"
    and linp: "pd_linp q = (\<lambda>i. if i < n \<and> stored_lp p i
      then ItemIdSetNormal (pd_linp p i) (lp_off (pd_linp p i) + d) (lp_len (pd_linp p i)) else pd_linp p i)"
    and mem: "pd_mem q = memmove (pd_upper p + d) (pd_upper p) (pd_special p - pd_upper p) (pd_mem p)"
    and q: "pd_lower q = pd_lower p" "pd_upper q = pd_upper p + d" "pd_special q = BLCKSZ"
      "pd_pagesize_version q = pd_pagesize_version p"
  shows "page_ok q" and "page_items q = page_items p"
proof -
  have hdr: "header_ok p" and pok: "\<And>i. i < n \<Longrightarrow> lp_ok p (pd_linp p i)"
    and apart: "\<And>i j. i < n \<Longrightarrow> j < n \<Longrightarrow> i \<noteq> j \<Longrightarrow> lp_apart (pd_linp p i) (pd_linp p j)"
    using ok by (auto simp: page_ok_def n)
  have le: "pd_special p \<le> BLCKSZ" "pd_upper p \<le> pd_special p" using hdr by (auto simp: header_ok_def corrupted_pointers_def)
  have sp: "pd_special p + d = BLCKSZ" using le d by simp
  have d8: "8 dvd d" using hdr by (auto simp: d header_ok_def BLCKSZ_def intro!: dvd_diff_nat)
  have nq: "PageGetMaxOffsetNumber q = n" using layout_cong(2) [of q p] q n by simp
  have stored: "stored_lp p i = ItemIdHasStorage (pd_linp p i)" if "i < n" for i
    using pok [OF that] by (auto simp: stored_lp_def lp_ok_def)
  have lpq: "pd_linp q i = (if ItemIdHasStorage (pd_linp p i) then (pd_linp p i)\<lparr>lp_off := lp_off (pd_linp p i) + d\<rparr> else pd_linp p i)"
    if "i < n" for i
  proof (cases "ItemIdHasStorage (pd_linp p i)")
    case True
    then have "lp_off (pd_linp p i) + MAXALIGN (lp_len (pd_linp p i)) \<le> pd_special p"
      using pok [OF that] by (simp add: lp_ok_def lp_end_def)
    then have "lp_off (pd_linp p i) + d < 2 ^ 15" "lp_len (pd_linp p i) < 2 ^ 15"
      using sp MAXALIGN_ge [of "lp_len (pd_linp p i)"] by (auto simp: BLCKSZ_def)
    then show ?thesis using that True normal [OF that True] stored [OF that] by (simp add: linp ItemIdSetNormal_def)
  next
    case False
    then show ?thesis using that stored [OF that] by (simp add: linp)
  qed
  have "header_ok q"
    using hdr q sp d8 layout_cong(1) [of q p] by (auto simp: header_ok_def corrupted_pointers_def BLCKSZ_def)
  moreover have "lp_ok q (pd_linp q i)" if "i < n" for i
    using pok [OF that] lpq [OF that] d8 q sp by (auto simp: lp_ok_def lp_end_def ItemIdHasStorage_def ItemIdIsUsed_def)
  moreover have "lp_apart (pd_linp q i) (pd_linp q j)" if "i < n" "j < n" "i \<noteq> j" for i j
    using apart [OF that] lpq [OF that(1)] lpq [OF that(2)] by (auto simp: lp_apart_def lp_end_def ItemIdHasStorage_def)
  ultimately show "page_ok q" by (simp add: page_ok_def nq)
  have "lp_item q (pd_linp q i) = lp_item p (pd_linp p i)" if "i < n" for i
  proof (cases "ItemIdHasStorage (pd_linp p i)")
    case True
    then have r: "pd_upper p \<le> lp_off (pd_linp p i)" "lp_off (pd_linp p i) + lp_len (pd_linp p i) \<le> pd_special p"
      using pok [OF that] MAXALIGN_ge [of "lp_len (pd_linp p i)"] by (auto simp: lp_ok_def lp_end_def)
    show ?thesis
      using True lpq [OF that] r le by (intro lp_item_moved) (auto simp: ItemIdHasStorage_def mem memmove_def)
  next
    case False
    then show ?thesis using lpq [OF that] lp_item_no_storage [of "pd_linp p i" q p] by (simp add: ItemIdHasStorage_def)
  qed
  then show "page_items q = page_items p" by (simp add: page_items_def nq n [symmetric])
qed

lemma free_dict_page:
  assumes ok: "page_ok p" and pagesize: "PageGetPageSize p = BLCKSZ" and "\<not> PageIsEmpty p" and "PageIsAllVisible p"
    and normal: "\<And>i. i < PageGetMaxOffsetNumber p \<Longrightarrow> ItemIdHasStorage (pd_linp p i) \<Longrightarrow>
      lp_flags (pd_linp p i) = LP_NORMAL \<and> \<not> tuple_is_compressed e p (lp_off (pd_linp p i))"
  shows "\<exists>p'. PageFreeDict e p = (Inr True, p') \<and> page_ok p' \<and> page_items p' = page_items p \<and> pd_special p' = BLCKSZ \<and>
    PageGetExactFreeSpace p' = PageGetExactFreeSpace p + PageGetSpecialSize p"
proof -
  define n d where "n = PageGetMaxOffsetNumber p" and "d = BLCKSZ - pd_special p"
  have nc: "\<not> corrupted_pointers p" and le: "pd_special p \<le> BLCKSZ" "pd_upper p \<le> pd_special p" "pd_lower p \<le> pd_upper p"
    using ok by (auto simp: page_ok_def header_ok_def corrupted_pointers_def)
  have ds: "PageGetSpecialSize p = d" using special_size_eq [OF pagesize le(1)] by (simp add: d_def)
  have tups: "BLCKSZ - d - pd_upper p = pd_special p - pd_upper p" using le by (simp add: d_def)
  have none: "\<not> (\<exists>i \<in> {0 ..< n}. stored_lp p i \<and> tuple_is_compressed e p (lp_off (pd_linp p i)))"
    using normal by (auto simp: n_def stored_lp_def)
  have mem: "(if pd_special p - pd_upper p > 0 then memmove (pd_upper p + d) (pd_upper p) (pd_special p - pd_upper p) (pd_mem p) else pd_mem p) =
      memmove (pd_upper p + d) (pd_upper p) (pd_special p - pd_upper p) (pd_mem p)"
    by (auto simp: memmove_def fun_eq_iff)
  define q where "q = PageClearCompressed (p\<lparr>pd_mem := memmove (pd_upper p + d) (pd_upper p) (pd_special p - pd_upper p) (pd_mem p),
    pd_linp := (\<lambda>i. if i < n \<and> stored_lp p i
      then ItemIdSetNormal (pd_linp p i) (lp_off (pd_linp p i) + d) (lp_len (pd_linp p i)) else pd_linp p i),
    pd_upper := pd_upper p + d, pd_special := BLCKSZ\<rparr>)"
  have "PageFreeDict e p = (Inr True, q)"
    unfolding PageFreeDict_def PageCheckAndFreeDict_def Let_def n_def [symmetric] ds pagesize tups mem
    by (simp only: assms(3,4) nc none if_False if_True q_def)
  moreover have "page_ok q \<and> page_items q = page_items p"
    using shift_page [OF ok d_def n_def, of q] normal by (simp add: q_def n_def)
  moreover have "PageGetExactFreeSpace q = PageGetExactFreeSpace p + d"
    using le by (simp add: PageGetExactFreeSpace_def q_def)
  ultimately show ?thesis by (simp add: ds) (simp add: q_def)
qed

subsection \<open>Properties\<close>

definition sample_dict_page :: page where
  "sample_dict_page = (PageReinitWithDict (PageInit BLCKSZ 0 True) 100)\<lparr>pd_flags := PD_COMPRESSED_PAGE OR PD_ALL_VISIBLE,
    pd_lower := 44, pd_upper := 8064, pd_linp := (\<lambda>i. \<lparr>lp_off = 8064, lp_flags = LP_NORMAL, lp_len = 24\<rparr>)\<rparr>"

lemma sample_dict_simps:
  "GetPageHeaderSize sample_dict_page = 40" "PageGetMaxOffsetNumber sample_dict_page = 1" "pd_lower sample_dict_page = 44"
  "pd_upper sample_dict_page = 8064" "pd_special sample_dict_page = 8088" "PageGetPageSize sample_dict_page = BLCKSZ"
  "pd_linp sample_dict_page = (\<lambda>i. \<lparr>lp_off = 8064, lp_flags = LP_NORMAL, lp_len = 24\<rparr>)" "pd_mem sample_dict_page i = 0"
  "pd_flags sample_dict_page = PD_COMPRESSED_PAGE OR PD_ALL_VISIBLE"
  by (simp_all add: sample_dict_page_def PageReinitWithDict_def PageInit_def Let_def PageSetPageSizeAndVersion_def version_simps
      GetPageHeaderSize_def PageIs8BXidHeapVersion_def PageGetPageLayoutVersion_def PG_HEAP_PAGE_LAYOUT_VERSION_def
      PageGetMaxOffsetNumber_def SizeOfHeapPageHeaderData_def zeroed_page_def MAXALIGN_def BLCKSZ_def PageGetPageSize_def
      PageSetCompressed_def)

text \<open>
  C18. \<open>PageFreeDict\<close> on an all-visible page that holds tuples, none of them compressed: the dictionary is freed, every tuple
  keeps its bytes although all of them move, the page stays in order, and the free space grows by the size of the
  dictionary.
\<close>

theorem page_free_dict_correct:
  assumes "page_ok p" and "PageGetPageSize p = BLCKSZ" and "\<not> PageIsEmpty p" and "PageIsAllVisible p"
    and "\<forall>i < PageGetMaxOffsetNumber p. ItemIdHasStorage (pd_linp p i) \<longrightarrow>
      lp_flags (pd_linp p i) = LP_NORMAL \<and> \<not> tuple_is_compressed e p (lp_off (pd_linp p i))"
  shows "\<exists>p'. PageFreeDict e p = (Inr True, p') \<and> page_ok p' \<and> page_items p' = page_items p \<and> pd_special p' = BLCKSZ \<and>
    PageGetExactFreeSpace p' = PageGetExactFreeSpace p + PageGetSpecialSize p"
  using assms(5) by (intro free_dict_page [OF assms(1-4)]) blast

theorem page_free_dict_correct_witness:
  "\<exists>p'. PageFreeDict WORDS_LITTLEENDIAN sample_dict_page = (Inr True, p') \<and> page_items p' = page_items sample_dict_page \<and>
    PageGetExactFreeSpace p' = PageGetExactFreeSpace sample_dict_page + 104"
proof -
  have ok: "page_ok sample_dict_page"
    by (simp add: page_ok_def header_ok_def corrupted_pointers_def lp_ok_def lp_end_def ItemIdIsUsed_def MAXALIGN_def
        sample_dict_simps BLCKSZ_def)
  have "\<not> PageIsEmpty sample_dict_page" by (simp add: PageIsEmpty_def sample_dict_simps)
  moreover have "PageIsAllVisible sample_dict_page"
    by (simp add: PageIsAllVisible_def sample_dict_simps PD_COMPRESSED_PAGE_def PD_ALL_VISIBLE_def)
  moreover have "PageGetSpecialSize sample_dict_page = 104"
    using special_size_eq [of sample_dict_page] by (simp add: sample_dict_simps BLCKSZ_def)
  ultimately show ?thesis
    using page_free_dict_correct [OF ok sample_dict_simps(6), of WORDS_LITTLEENDIAN]
    by (auto simp: sample_dict_simps tuple_is_compressed_def)
qed

text \<open>
  \<open>PageFreeDict\<close> on an empty page does not give the space of the dictionary back: a page without tuples that got a
  dictionary is still smaller by the dictionary after it was freed.
\<close>

lemma page_free_dict_empty_keeps_space:
  assumes "MAXALIGN dictSize \<le> BLCKSZ - SizeOfHeapPageHeaderData"
  shows "PageGetExactFreeSpace (snd (PageFreeDict e (PageReinitWithDict (PageInit BLCKSZ 0 True) dictSize))) + MAXALIGN dictSize =
    PageGetExactFreeSpace (PageInit BLCKSZ 0 True)"
  using assms
  by (simp add: PageFreeDict_def PageIsEmpty_def PageReinitWithDict_def PageInit_def Let_def PageSetPageSizeAndVersion_def version_simps
      GetPageHeaderSize_def PageIs8BXidHeapVersion_def PageGetPageLayoutVersion_def PG_HEAP_PAGE_LAYOUT_VERSION_def
      SizeOfHeapPageHeaderData_def zeroed_page_def BLCKSZ_def PageGetPageSize_def PageSetCompressed_def PageGetExactFreeSpace_def
      MAXALIGN_def [of 0])

end
