(* ===== verification/PageUpgrade.thy ===== *)
theory PageUpgrade
  imports BufPage
begin

text \<open>
  The upgrade of a heap page from the layout with 32-bit transaction ids to the one with 64-bit ids:
  \<^verbatim>\<open>PageLocalUpgrade\<close> of \<^verbatim>\<open>src/src/gausskernel/storage/page/bufpage.cpp\<close> and \<^verbatim>\<open>heap_page_upgrade\<close> of
  \<^verbatim>\<open>src/src/gausskernel/storage/access/heap/heapam.cpp\<close>. Its argument \<open>recptr\<close> is the position of the log
  record, if the relation is logged.
\<close>

subsection \<open>Definitions\<close>

definition SizeOfHeapPageUpgradeData :: nat where
  "SizeOfHeapPageUpgradeData = MAXALIGN (SizeOfHeapPageHeaderData - SizeOfPageHeaderData)"

definition MaxShortTransactionId :: uint64 where
  "MaxShortTransactionId = 0xFFFFFFFF"

subsection \<open>Upgrade of a page with 32-bit transaction ids\<close>

text \<open>
  The bounds-checked \<open>memmove_s\<close> succeeds when the count fits the destination, whose size
  must be representable. The move is by addresses within the page: \<open>line_words\<close> gives the line pointer that lies at a
  byte offset of the page, \<open>memmove_words\<close> copies \<open>n\<close> bytes between offsets, and \<open>line_pointers\<close> reads the array again behind a header
  of the given size. The code adds to the 16-bit field \<open>pd_lower\<close>.
\<close>

definition line_words :: "page \<Rightarrow> nat \<Rightarrow> ItemIdData" where
  "line_words p off = pd_linp p ((off - GetPageHeaderSize p) div sizeof_ItemIdData)"

definition memmove_words :: "nat \<Rightarrow> nat \<Rightarrow> nat \<Rightarrow> (nat \<Rightarrow> 'a) \<Rightarrow> nat \<Rightarrow> 'a" where
  "memmove_words dest src n w = (\<lambda>off. if dest \<le> off \<and> off < dest + n then w (src + (off - dest)) else w off)"

definition line_pointers :: "nat \<Rightarrow> (nat \<Rightarrow> ItemIdData) \<Rightarrow> nat \<Rightarrow> ItemIdData" where
  "line_pointers hdr w i = w (hdr + i * sizeof_ItemIdData)"

definition memmove_s_ok :: "nat \<Rightarrow> nat \<Rightarrow> bool" where
  "memmove_s_ok destMax n \<longleftrightarrow> destMax \<le> 0x7FFFFFFF \<and> n \<le> destMax"

definition upgrade_page_ver_4_to_5 :: "page \<Rightarrow> page" where
  "upgrade_page_ver_4_to_5 p =
    (PageSetPageSizeAndVersion p BLCKSZ PG_HEAP_PAGE_LAYOUT_VERSION)\<lparr>pd_xid_base := 0, pd_multi_base := 0\<rparr>"

definition PageLocalUpgrade :: "page \<Rightarrow> page result" where
  "PageLocalUpgrade p =
    (let movesize = nat ((int (pd_lower p) - int SizeOfPageHeaderData) mod 2 ^ 64)
     in if movesize > 0 \<and>
           \<not> memmove_s_ok (nat ((int (pd_upper p) - int SizeOfHeapPageHeaderData) mod 2 ^ 64)) movesize
        then Inl (Ereport ERROR ERRCODE_INTERNAL_ERROR)
        else
          (let words = line_words p;
               words = (if movesize > 0 then memmove_words SizeOfHeapPageHeaderData SizeOfPageHeaderData movesize words else words);
               q = upgrade_page_ver_4_to_5 (p\<lparr>pd_lower := (pd_lower p + SizeOfHeapPageUpgradeData) mod 2 ^ 16\<rparr>)
           in Inr (q\<lparr>pd_linp := line_pointers (GetPageHeaderSize q) words\<rparr>)))"

text \<open>
  An error within the critical section is a PANIC. The sizes are of the unsigned type \<open>Size\<close>. The
  result tells whether the page now has the new layout.
\<close>

definition heap_page_upgrade :: "uint64 \<Rightarrow> uint64 option \<Rightarrow> nat \<Rightarrow> page \<Rightarrow> (bool \<times> page) result" where
  "heap_page_upgrade xid recptr save_free_space page =
    (let page_free_space = int (pd_upper page) - int (pd_lower page)
     in if int SizeOfHeapPageUpgradeData \<le> (page_free_space - int save_free_space) mod 2 ^ 64 then
          (if \<not> PageIs4BXidVersion page then Inr (True, page)
           else case PageLocalUpgrade page of
                  Inl (Ereport _ code) \<Rightarrow> Inl (Ereport PANIC code)
                | Inr page \<Rightarrow> Inr (True, case recptr of None \<Rightarrow> page | Some lsn \<Rightarrow> page\<lparr>pd_lsn := lsn\<rparr>))
        else if xid > MaxShortTransactionId then Inl (Ereport ERROR ERRCODE_FEATURE_NOT_SUPPORTED)
        else Inr (False, page))"

subsection \<open>The upgrade keeps every item\<close>

lemma page_sizes: "SizeOfHeapPageUpgradeData = 16" "BLCKSZ = 8192" "SizeOfPageHeaderData = 24" "SizeOfHeapPageHeaderData = 40"
  "MaxHeapTuplesPerPage = 291"
  by (simp_all add: SizeOfHeapPageUpgradeData_def BLCKSZ_def SizeOfPageHeaderData_def SizeOfHeapPageHeaderData_def MAXALIGN_def MaxHeapTuplesPerPage_def)

lemma mod_wraps: "x < 0 \<Longrightarrow> - m \<le> x \<Longrightarrow> x mod m = x + m" for x m :: int
  using mod_add_self2 [of x m] mod_pos_pos_trivial [of "x + m" m] by linarith

lemma upgraded_fields [simp]:
  "pd_lower (upgrade_page_ver_4_to_5 p) = pd_lower p" "pd_upper (upgrade_page_ver_4_to_5 p) = pd_upper p"
  "pd_special (upgrade_page_ver_4_to_5 p) = pd_special p" "pd_linp (upgrade_page_ver_4_to_5 p) = pd_linp p"
  "pd_mem (upgrade_page_ver_4_to_5 p) = pd_mem p" "pd_flags (upgrade_page_ver_4_to_5 p) = pd_flags p"
  by (simp_all add: upgrade_page_ver_4_to_5_def PageSetPageSizeAndVersion_def)

lemma upgraded_layout:
  "PageIs8BXidHeapVersion (upgrade_page_ver_4_to_5 p)" "GetPageHeaderSize (upgrade_page_ver_4_to_5 p) = 40"
  by (simp_all add: upgrade_page_ver_4_to_5_def PageSetPageSizeAndVersion_def GetPageHeaderSize_def PageIs8BXidHeapVersion_def
      PageGetPageLayoutVersion_def page_sizes PG_HEAP_PAGE_LAYOUT_VERSION_def)

lemma old_layout: "PageIs4BXidVersion p \<Longrightarrow> GetPageHeaderSize p = 24"
  by (auto simp: PageIs4BXidVersion_def PageIs8BXidHeapVersion_def GetPageHeaderSize_def page_sizes
      PG_PAGE_4B_LAYOUT_VERSION_def PG_HEAP_PAGE_LAYOUT_VERSION_def)

lemma header_ok_bounds:
  assumes "page_ok p" shows "GetPageHeaderSize p \<le> pd_lower p" "pd_lower p \<le> pd_upper p" "pd_upper p \<le> 8192"
  using assms by (auto simp: page_ok_def header_ok_def corrupted_pointers_def page_sizes)

text \<open>The move takes exactly the line pointers in use to where the larger header ends.\<close>

lemma moved_line_pointers:
  assumes "GetPageHeaderSize p = 24" and "i < (lower - 24) div 4"
  shows "line_pointers 40 (memmove_words 40 24 (lower - 24) (line_words p)) i = pd_linp p i"
proof -
  have "i * 4 < lower - 24" using assms(2) by linarith
  then show ?thesis by (simp add: line_pointers_def memmove_words_def line_words_def assms(1))
qed

lemma page_local_upgrade:
  assumes ok: "page_ok p" and old: "PageIs4BXidVersion p" and room: "pd_lower p + 16 \<le> pd_upper p"
  shows "\<exists>q. PageLocalUpgrade p = Inr q \<and> page_ok q \<and> PageIs8BXidHeapVersion q \<and> page_items q = page_items p \<and>
    special_bytes q = special_bytes p \<and> pd_lower q = pd_lower p + 16 \<and> pd_upper q = pd_upper p \<and>
    PageHasFreeLinePointers q = PageHasFreeLinePointers p \<and> (\<forall>i < PageGetMaxOffsetNumber p. pd_linp q i = pd_linp p i)"
proof -
  define words where "words = (if pd_lower p - 24 > 0 then memmove_words 40 24 (pd_lower p - 24) (line_words p) else line_words p)"
  define q where "q = upgrade_page_ver_4_to_5 (p\<lparr>pd_lower := pd_lower p + 16\<rparr>)\<lparr>pd_linp := line_pointers 40 words\<rparr>"
  note b = header_ok_bounds [OF ok] and hdr = old_layout [OF old]
  have lower: "24 \<le> pd_lower p" using b(1) hdr by simp
  have up: "40 \<le> pd_upper p" using room lower by simp
  have mv: "nat ((int (pd_lower p) - int SizeOfPageHeaderData) mod 2 ^ 64) = pd_lower p - 24"
    "nat ((int (pd_upper p) - int SizeOfHeapPageHeaderData) mod 2 ^ 64) = pd_upper p - 40"
    using lower up b by (simp_all add: page_sizes)
  have "memmove_s_ok (pd_upper p - 40) (pd_lower p - 24)"
    unfolding memmove_s_ok_def using room b(3) lower by (intro conjI) linarith+
  moreover have "(pd_lower p + SizeOfHeapPageUpgradeData) mod 2 ^ 16 = pd_lower p + 16"
    using room b(3) by (simp add: page_sizes)
  ultimately have run: "PageLocalUpgrade p = Inr q"
    unfolding PageLocalUpgrade_def Let_def mv by (simp add: q_def words_def upgraded_layout page_sizes)
  have f: "pd_lower q = pd_lower p + 16" "pd_upper q = pd_upper p" "pd_special q = pd_special p"
    "pd_mem q = pd_mem p" "pd_flags q = pd_flags p" "PageIs8BXidHeapVersion q" "GetPageHeaderSize q = 40"
    using upgraded_layout [of "p\<lparr>pd_lower := pd_lower p + 16\<rparr>"]
    by (simp_all add: q_def PageIs8BXidHeapVersion_def PageGetPageLayoutVersion_def GetPageHeaderSize_def)
  have n: "PageGetMaxOffsetNumber q = PageGetMaxOffsetNumber p" "PageGetMaxOffsetNumber p = (pd_lower p - 24) div 4"
    using lower by (simp_all add: PageGetMaxOffsetNumber_def f hdr)
  have lp: "pd_linp q i = pd_linp p i" if "i < PageGetMaxOffsetNumber p" for i
    using that moved_line_pointers [OF hdr, of i "pd_lower p"] unfolding n(2) by (auto simp: q_def words_def)
  have "page_ok q"
    using ok room lower unfolding page_ok_def n(1) by (simp add: header_ok_def corrupted_pointers_def f lp_ok_def lp)
  moreover have "page_items q = page_items p" by (simp add: page_items_def n(1) f lp lp_item_def lp_bytes_def)
  ultimately show ?thesis using run f lp by (simp add: special_bytes_def PageHasFreeLinePointers_def)
qed

text \<open>The space a heap page reports depends on the two bounds, the hint and the line pointers in use.\<close>

lemma heap_free_space_le: "PageGetHeapFreeSpace p \<le> pd_upper p - pd_lower p - 4"
  by (auto simp: PageGetHeapFreeSpace_def PageGetFreeSpace_def Let_def)

lemma find_offnum_cong:
  "(\<And>k. k < m \<Longrightarrow> pd_linp q k = pd_linp p k) \<Longrightarrow> 0 < i \<Longrightarrow> n \<le> Suc m \<Longrightarrow> find_offnum P q i n = find_offnum P p i n"
proof (induction P p i n rule: find_offnum.induct)
  case (1 P p i n)
  then show ?case by (subst (1 2) find_offnum.simps) (simp add: PageGetItemId_def)
qed

lemma heap_free_space_upgraded:
  assumes "pd_lower q = pd_lower p + 16" "pd_upper q = pd_upper p" "PageGetMaxOffsetNumber q = PageGetMaxOffsetNumber p"
    "PageHasFreeLinePointers q = PageHasFreeLinePointers p" "\<forall>i < PageGetMaxOffsetNumber p. pd_linp q i = pd_linp p i"
    "16 < PageGetHeapFreeSpace p"
  shows "PageGetHeapFreeSpace q = PageGetHeapFreeSpace p - 16"
proof -
  have free: "16 < PageGetFreeSpace p" using assms(6) by (auto simp: PageGetHeapFreeSpace_def Let_def split: if_splits)
  then have "PageGetFreeSpace q = PageGetFreeSpace p - 16"
    using assms(1,2) by (auto simp: PageGetFreeSpace_def Let_def split: if_splits)
  moreover have "find_offnum P q 1 (Suc (PageGetMaxOffsetNumber p)) = find_offnum P p 1 (Suc (PageGetMaxOffsetNumber p))" for P
    using assms(5) by (intro find_offnum_cong [of "PageGetMaxOffsetNumber p"]) simp_all
  ultimately show ?thesis using free assms by (auto simp: PageGetHeapFreeSpace_def Let_def split: if_splits)
qed

subsection \<open>A sample page\<close>

text \<open>A page of the old layout with two unused line pointers.\<close>

definition old_page :: page where
  "old_page = zeroed_page\<lparr>pd_lower := 32, pd_upper := 8192, pd_special := 8192, pd_pagesize_version := 8196\<rparr>"

lemma old_page_fields: "PageIs4BXidVersion old_page" "GetPageHeaderSize old_page = 24" "PageGetMaxOffsetNumber old_page = 2"
  "page_ok old_page" "PageGetHeapFreeSpace old_page = 8156"
proof -
  show v: "PageIs4BXidVersion old_page"
    by (simp add: old_page_def PageIs4BXidVersion_def PageGetPageLayoutVersion_def PG_PAGE_4B_LAYOUT_VERSION_def)
  show h: "GetPageHeaderSize old_page = 24" by (rule old_layout [OF v])
  show n: "PageGetMaxOffsetNumber old_page = 2" by (simp add: PageGetMaxOffsetNumber_def h) (simp add: old_page_def)
  show "page_ok old_page"
    by (simp add: page_ok_def n header_ok_def corrupted_pointers_def h)
      (simp add: old_page_def zeroed_page_def lp_ok_def lp_apart_def ItemIdHasStorage_def page_sizes)
  show "PageGetHeapFreeSpace old_page = 8156"
  proof -
    have "PageGetFreeSpace old_page = 8156" by (simp add: PageGetFreeSpace_def old_page_def)
    then show ?thesis by (simp add: PageGetHeapFreeSpace_def n page_sizes)
  qed
qed

subsection \<open>Properties\<close>

text \<open>
  C30. Upgrading a page from the layout with 32-bit transaction ids: on a page in order with 16 bytes to spare, \<open>PageLocalUpgrade\<close> succeeds, the
  page gets the layout with 64-bit ids and stays in order. The line pointers in use are moved to where the larger header ends, so that
  the item at each offset number keeps its state and its bytes; the special space keeps its bytes, and exactly 16 bytes of free space are used up.
\<close>

theorem page_local_upgrade_correct:
  assumes "page_ok p" and "PageIs4BXidVersion p" and "pd_lower p + SizeOfHeapPageUpgradeData \<le> pd_upper p"
  shows "\<exists>q. PageLocalUpgrade p = Inr q \<and> page_ok q \<and> PageIs8BXidHeapVersion q \<and> page_items q = page_items p \<and>
    special_bytes q = special_bytes p \<and> PageGetExactFreeSpace q = PageGetExactFreeSpace p - SizeOfHeapPageUpgradeData"
proof -
  obtain q where "PageLocalUpgrade p = Inr q" "page_ok q" "PageIs8BXidHeapVersion q" "page_items q = page_items p"
    "special_bytes q = special_bytes p" "pd_lower q = pd_lower p + 16" "pd_upper q = pd_upper p"
    using page_local_upgrade [OF assms(1,2)] assms(3) by (auto simp: page_sizes)
  then show ?thesis by (auto simp: PageGetExactFreeSpace_def Let_def page_sizes)
qed

theorem page_local_upgrade_correct_witness:
  "let p = old_page\<lparr>pd_linp := (\<lambda>i. \<lparr>lp_off = i, lp_flags = LP_REDIRECT, lp_len = 0\<rparr>)\<rparr>
   in \<exists>q. PageLocalUpgrade p = Inr q \<and> page_ok q \<and> PageIs8BXidHeapVersion q \<and>
     page_items q = [(LP_REDIRECT, 0, []), (LP_REDIRECT, 1, [])]"
proof -
  let ?p = "old_page\<lparr>pd_linp := (\<lambda>i. \<lparr>lp_off = i, lp_flags = LP_REDIRECT, lp_len = 0\<rparr>)\<rparr>"
  have old: "PageIs4BXidVersion ?p" using old_page_fields(1) by (simp add: PageIs4BXidVersion_def PageGetPageLayoutVersion_def)
  note hdr = old_layout [OF old]
  have n: "PageGetMaxOffsetNumber ?p = 2" by (simp add: PageGetMaxOffsetNumber_def hdr) (simp add: old_page_def)
  note lay = hdr n
  have ok: "page_ok ?p" using old_page_fields(2,4)
    by (simp add: page_ok_def lay header_ok_def corrupted_pointers_def lp_ok_def lp_apart_def ItemIdHasStorage_def)
  have items: "page_items ?p = [(LP_REDIRECT, 0, []), (LP_REDIRECT, 1, [])]"
    by (simp add: page_items_def lay upt_rec lp_item_def lp_bytes_def ItemIdHasStorage_def ItemIdIsUsed_def)
  have "pd_lower ?p + SizeOfHeapPageUpgradeData \<le> pd_upper ?p" by (simp add: old_page_def page_sizes)
  then show ?thesis using page_local_upgrade_correct [OF ok old] items by (auto simp: Let_def)
qed

text \<open>
  C32. The size test of \<open>heap_page_upgrade\<close> subtracts unsigned numbers. On a page of the old layout with less free space than the
  fillfactor reserves, the difference wraps around and the test passes: if there are not even 16 free bytes, the server stops with a PANIC
  instead of leaving the page as it is.
\<close>

theorem heap_page_upgrade_panics:
  assumes "PageIs4BXidVersion p" and "24 < pd_lower p" and "pd_lower p \<le> pd_upper p" and "pd_upper p \<le> BLCKSZ"
    and "pd_upper p < pd_lower p + SizeOfHeapPageUpgradeData" and "pd_upper p - pd_lower p < save" and "save \<le> BLCKSZ"
  shows "heap_page_upgrade xid recptr save p = Inl (Ereport PANIC ERRCODE_INTERNAL_ERROR)"
proof -
  let ?d = "int (pd_upper p) - int (pd_lower p) - int save"
  have d: "?d < 0" "- 8192 \<le> ?d" using assms(3,6,7) by (simp_all add: page_sizes)
  have "?d mod 2 ^ 64 = ?d + 2 ^ 64" using d by (intro mod_wraps) simp_all
  then have pass: "int SizeOfHeapPageUpgradeData \<le> ?d mod 2 ^ 64" using d by (simp add: page_sizes)
  have mv: "nat ((int (pd_lower p) - int SizeOfPageHeaderData) mod 2 ^ 64) = pd_lower p - 24"
    using assms(2,3,4) by (simp add: page_sizes)
  have "\<not> memmove_s_ok (nat ((int (pd_upper p) - int SizeOfHeapPageHeaderData) mod 2 ^ 64)) (pd_lower p - 24)"
  proof (cases "40 \<le> pd_upper p")
    case True
    then have "nat ((int (pd_upper p) - int SizeOfHeapPageHeaderData) mod 2 ^ 64) = pd_upper p - 40" using assms(4) by (simp add: page_sizes)
    then show ?thesis using assms(2,5) True by (simp add: memmove_s_ok_def page_sizes) linarith
  next
    case False
    then have "(int (pd_upper p) - 40) mod 2 ^ 64 = int (pd_upper p) - 40 + 2 ^ 64"
      by (intro mod_wraps) simp_all
    then show ?thesis using False by (simp add: memmove_s_ok_def page_sizes)
  qed
  then have "PageLocalUpgrade p = Inl (Ereport ERROR ERRCODE_INTERNAL_ERROR)"
    unfolding PageLocalUpgrade_def Let_def mv using assms(2) by simp
  then show ?thesis using pass assms(1) by (simp add: heap_page_upgrade_def Let_def)
qed

theorem heap_page_upgrade_panics_witness:
  "heap_page_upgrade 100 None 819 (old_page\<lparr>pd_lower := 28, pd_upper := 32\<rparr>) = Inl (Ereport PANIC ERRCODE_INTERNAL_ERROR)"
proof (rule heap_page_upgrade_panics)
  show "PageIs4BXidVersion (old_page\<lparr>pd_lower := 28, pd_upper := 32\<rparr>)"
    using old_page_fields(1) by (simp add: PageIs4BXidVersion_def PageGetPageLayoutVersion_def)
qed (simp_all add: page_sizes)


end
