(* ===== verification/SpaceMap.thy ===== *)
theory SpaceMap
  imports FreeSpace
begin

text \<open>
  The contract between the free space map and the code that looks for a page: the locale \<open>space_map\<close>. A map
  records for every block an amount of space; it may be wrong about a block, but what is
  recorded next is what it answers from. The client's argument that asking again and again ends is
  made once, in the locale; the free space map of \<^verbatim>\<open>freespace.cpp\<close> is its instance.
\<close>

subsection \<open>The interface\<close>

locale space_map =
  fixes map_ok :: "'m \<Rightarrow> bool"
    and rec :: "'m \<Rightarrow> nat \<Rightarrow> nat"
    and rounded :: "nat \<Rightarrow> nat"
    and record_and_get :: "'m \<Rightarrow> nat \<Rightarrow> nat \<Rightarrow> nat \<Rightarrow> (nat \<times> 'm) option result"
    and no_block :: nat and limit :: nat and max_request :: nat
  assumes rounded_le: "rounded avail \<le> avail"
    and ask: "map_ok m \<Longrightarrow> b < limit \<Longrightarrow> 0 < needed \<Longrightarrow> needed \<le> max_request \<Longrightarrow>
      \<exists>blk m'. record_and_get m b avail needed = Inr (Some (blk, m')) \<and> map_ok m' \<and>
        (\<forall>c < limit. rec m' c = (if c = b then rounded avail else rec m c)) \<and>
        (blk = no_block \<or> blk < limit \<and> needed \<le> rec m' blk)"
begin

text \<open>The blocks of a relation of \<open>n\<close> blocks about which the map is wrong, when block \<open>b\<close> has \<open>actual b\<close> bytes.\<close>

definition stale :: "'m \<Rightarrow> (nat \<Rightarrow> nat) \<Rightarrow> nat \<Rightarrow> nat set" where
  "stale m actual n = {b. b < n \<and> b < limit \<and> rec m b \<noteq> rounded (actual b)}"

lemma finite_stale [simp]: "finite (stale m actual n)"
  by (simp add: stale_def)

text \<open>Reporting the truth about a block removes exactly that block from the wrong ones.\<close>

lemma ask_progress:
  assumes "map_ok m" "b < limit" "0 < needed" "needed \<le> max_request"
  shows "\<exists>blk m'. record_and_get m b (actual b) needed = Inr (Some (blk, m')) \<and> map_ok m' \<and>
    stale m' actual n = stale m actual n - {b} \<and>
    (blk = no_block \<or> blk < limit \<and> (blk < n \<longrightarrow> blk \<in> stale m' actual n \<or> needed \<le> actual blk))"
proof -
  obtain blk m' where r: "record_and_get m b (actual b) needed = Inr (Some (blk, m'))" "map_ok m'"
    "\<forall>c < limit. rec m' c = (if c = b then rounded (actual b) else rec m c)"
    "blk = no_block \<or> blk < limit \<and> needed \<le> rec m' blk"
    using ask [OF assms] by blast
  have "stale m' actual n = stale m actual n - {b}" using r(3) by (auto simp: stale_def split: if_splits)
  moreover have "blk \<in> stale m' actual n \<or> needed \<le> actual blk" if "blk < limit" "needed \<le> rec m' blk" "blk < n"
    using that rounded_le [of "actual blk"] by (auto simp: stale_def)
  ultimately show ?thesis using r by blast
qed

lemma card_stale_less: "b \<in> stale m actual n \<Longrightarrow> card (stale m actual n - {b}) < card (stale m actual n)"
  by (rule card_Diff1_less [OF finite_stale])

end

subsection \<open>The free space map provides it\<close>

abbreviation recorded_blk :: "fsm_rel \<Rightarrow> BlockNumber \<Rightarrow> uint8" where
  "recorded_blk rel b \<equiv> recorded rel (fst (fsm_get_location b)) (snd (fsm_get_location b))"

text \<open>The tree has more slots than there are block numbers; the slots beyond are never written.\<close>

definition no_phantom :: "fsm_rel \<Rightarrow> bool" where
  "no_phantom rel \<longleftrightarrow> (\<forall>a s. valid_addr a \<longrightarrow> level a = FSM_BOTTOM_LEVEL \<longrightarrow> s < SlotsPerFSMPage \<longrightarrow>
    2 ^ 32 \<le> logpageno a * SlotsPerFSMPage + s \<longrightarrow> recorded rel a s = 0)"

lemma slot_of_block:
  assumes "valid_addr a" "level a = FSM_BOTTOM_LEVEL" "s < SlotsPerFSMPage" "recorded rel a s \<noteq> 0" "no_phantom rel"
  shows "fsm_get_heap_blk a s < 2 ^ 32" and "recorded_blk rel (fsm_get_heap_blk a s) = recorded rel a s"
proof -
  have lt: "logpageno a * SlotsPerFSMPage + s < 2 ^ 32" using assms unfolding no_phantom_def by (meson not_le)
  show "fsm_get_heap_blk a s < 2 ^ 32" by (simp add: fsm_get_heap_blk_def)
  have "fsm_get_heap_blk a s = logpageno a * SlotsPerFSMPage + s" using lt by (simp add: fsm_get_heap_blk_def)
  then show "recorded_blk rel (fsm_get_heap_blk a s) = recorded rel a s"
    using assms(2,3) by (cases a) (simp add: fsm_get_location_def)
qed

lemma location_bottom [simp]: "level (fst (fsm_get_location b)) = 0"
  by (simp add: fsm_get_location_def)

lemma location_inj: "fsm_get_location b = fsm_get_location c \<longleftrightarrow> b = c"
  by (auto simp: fsm_get_location_def) (metis div_mult_mod_eq)

lemma location_block: "logpageno (fst (fsm_get_location b)) * SlotsPerFSMPage + snd (fsm_get_location b) = b"
  by (simp add: fsm_get_location_def)

text \<open>Without interference, what the search returns is recorded with the category asked for.\<close>

lemma search_blk:
  assumes "fork_ok rel" "no_phantom rel" "c \<noteq> 0"
  shows "\<exists>blk rel'. fsm_search id rel c = Some (blk, rel') \<and> fork_ok rel' \<and> no_phantom rel' \<and>
    (\<forall>b < 2 ^ 32. recorded_blk rel' b = recorded_blk rel b) \<and>
    (blk = InvalidBlockNumber \<or> blk < 2 ^ 32 \<and> c \<le> recorded_blk rel' blk)"
proof -
  obtain blk rel' where r: "fsm_search id rel c = Some (blk, rel')" "fork_ok rel'"
    "blk = InvalidBlockNumber \<or>
       (\<exists>a s. valid_addr a \<and> level a = FSM_BOTTOM_LEVEL \<and> s < SlotsPerFSMPage \<and> blk = fsm_get_heap_blk a s \<and> c \<le> recorded rel' a s)"
    and same: "\<And>a s. valid_addr a \<Longrightarrow> level a = FSM_BOTTOM_LEVEL \<Longrightarrow> s < SlotsPerFSMPage \<Longrightarrow> recorded rel' a s = recorded rel a s"
    using fsm_search_loop_spec [OF assms(1) valid_root, of id c 0] unfolding fsm_search_def by auto
  have np: "no_phantom rel'" using assms(2) same by (simp add: no_phantom_def)
  have "blk < 2 ^ 32 \<and> c \<le> recorded_blk rel' blk"
    if "valid_addr a" "level a = FSM_BOTTOM_LEVEL" "s < SlotsPerFSMPage" "blk = fsm_get_heap_blk a s" "c \<le> recorded rel' a s" for a s
  proof -
    have "recorded rel' a s \<noteq> 0" using that(5) assms(3) by (metis word_le_0_iff)
    then show ?thesis using slot_of_block [OF that(1-3) _ np] that(4,5) by simp
  qed
  then have "blk = InvalidBlockNumber \<or> blk < 2 ^ 32 \<and> c \<le> recorded_blk rel' blk" using r(3) by blast
  moreover have "\<forall>b < 2 ^ 32. recorded_blk rel' b = recorded_blk rel b" using same valid_location by simp
  ultimately show ?thesis using r(1,2) np by blast
qed

lemma record_blk:
  assumes "fork_ok rel" "no_phantom rel" "b < 2 ^ 32"
  shows "\<exists>r rel'. fsm_set_and_search rel (fst (fsm_get_location b)) (snd (fsm_get_location b)) v m True = Some (r, rel') \<and>
    fork_ok rel' \<and> no_phantom rel' \<and> (\<forall>c < 2 ^ 32. recorded_blk rel' c = (if c = b then v else recorded_blk rel c)) \<and>
    (r \<noteq> -1 \<longrightarrow> m \<noteq> 0 \<longrightarrow> fsm_get_heap_blk (fst (fsm_get_location b)) (nat r) < 2 ^ 32 \<and>
       m \<le> recorded_blk rel' (fsm_get_heap_blk (fst (fsm_get_location b)) (nat r)))"
proof -
  let ?a = "fst (fsm_get_location b)" and ?s = "snd (fsm_get_location b)"
  obtain r rel' where r: "fsm_set_and_search rel ?a ?s v m True = Some (r, rel')" "fork_ok rel'"
    and eq: "\<And>a s. valid_addr a \<Longrightarrow> s < SlotsPerFSMPage \<Longrightarrow> recorded rel' a s = (if a = ?a \<and> s = ?s then v else recorded rel a s)"
    and found: "r = -1 \<or> (\<exists>s < SlotsPerFSMPage. r = int s \<and> m \<le> recorded rel' ?a s)"
    using set_and_search_spec [OF assms(1)] valid_location [OF assms(3)] by blast
  have np: "no_phantom rel'" unfolding no_phantom_def
  proof (intro allI impI)
    fix a s assume a: "valid_addr a" "level a = FSM_BOTTOM_LEVEL" "s < SlotsPerFSMPage" "2 ^ 32 \<le> logpageno a * SlotsPerFSMPage + s"
    then have "\<not> (a = ?a \<and> s = ?s)" using location_block [of b] assms(3) by auto
    moreover have "recorded rel a s = 0" using assms(2) a by (simp add: no_phantom_def)
    ultimately show "recorded rel' a s = 0" using eq [OF a(1,3)] by presburger
  qed
  have upd: "recorded_blk rel' c = (if c = b then v else recorded_blk rel c)" if "c < 2 ^ 32" for c
    using eq [of "fst (fsm_get_location c)" "snd (fsm_get_location c)"] valid_location [OF that] location_inj [of c b]
    by (auto simp: prod_eq_iff)
  have "fsm_get_heap_blk ?a (nat r) < 2 ^ 32 \<and> m \<le> recorded_blk rel' (fsm_get_heap_blk ?a (nat r))" if "r \<noteq> -1" "m \<noteq> 0"
  proof -
    obtain s where s: "s < SlotsPerFSMPage" "r = int s" "m \<le> recorded rel' ?a s" using found \<open>r \<noteq> -1\<close> by blast
    have "recorded rel' ?a s \<noteq> 0" using s(3) that(2) by (metis word_le_0_iff)
    then show ?thesis using slot_of_block [of ?a s, OF _ _ s(1) _ np] valid_location [OF assms(3)] s by simp
  qed
  then show ?thesis using r np upd by blast
qed

lemma needed_cat_nonzero: "fsm_space_needed_to_cat needed = Inr c \<Longrightarrow> c \<noteq> 0"
proof
  assume c: "fsm_space_needed_to_cat needed = Inr c" "c = 0"
  then have "unat (of_nat (if needed = 0 then 1 else min ((needed + 31) div 32) 255) :: uint8) = 0"
    by (simp add: needed_to_cat_spec split: if_splits)
  then have "(if needed = 0 then 1 else min ((needed + 31) div 32) 255) = 0"
    by (subst (asm) unat_of_nat_byte) (simp_all split: if_splits)
  then show False by (simp split: if_splits)
qed

abbreviation map_wf :: "fsm_rel \<Rightarrow> bool" where
  "map_wf rel \<equiv> fork_ok rel \<and> no_phantom rel"

text \<open>The answer is an amount of space the map records for that block, with the client's report entered first.\<close>

lemma record_and_get_blk:
  assumes "map_wf rel" "b < 2 ^ 32" "0 < needed" "needed \<le> MaxFSMRequestSize"
  shows "\<exists>blk rel'. RecordAndGetPageWithFreeSpace id rel b avail needed = Inr (Some (blk, rel')) \<and> map_wf rel' \<and>
    (\<forall>c < 2 ^ 32. fsm_space_cat_to_avail (recorded_blk rel' c) =
       (if c = b then fsm_space_cat_to_avail (fsm_space_avail_to_cat avail) else fsm_space_cat_to_avail (recorded_blk rel c))) \<and>
    (blk = InvalidBlockNumber \<or> blk < 2 ^ 32 \<and> needed \<le> fsm_space_cat_to_avail (recorded_blk rel' blk))"
proof -
  obtain c where c: "fsm_space_needed_to_cat needed = Inr c" using assms(4) by (simp add: needed_to_cat_spec cat_sizes)
  note nz = needed_cat_nonzero [OF c]
  obtain addr slot where loc: "fsm_get_location b = (addr, slot)" by fastforce
  obtain r rel1 where s: "fsm_set_and_search rel addr slot (fsm_space_avail_to_cat avail) c True = Some (r, rel1)"
    "fork_ok rel1" "no_phantom rel1"
    "\<forall>k < 2 ^ 32. recorded_blk rel1 k = (if k = b then fsm_space_avail_to_cat avail else recorded_blk rel k)"
    "r \<noteq> -1 \<longrightarrow> fsm_get_heap_blk addr (nat r) < 2 ^ 32 \<and> c \<le> recorded_blk rel1 (fsm_get_heap_blk addr (nat r))"
    using record_blk [of rel b "fsm_space_avail_to_cat avail" c] assms(1,2) nz loc by auto
  have run: "RecordAndGetPageWithFreeSpace id rel b avail needed =
      Inr (if r \<noteq> -1 then Some (fsm_get_heap_blk addr (nat r), rel1) else fsm_search id rel1 c)"
    by (simp add: RecordAndGetPageWithFreeSpace_def c loc s(1))
  note enough = needed_cat_iff [OF c assms(3)]
  show ?thesis
  proof (cases "r = -1")
    case True
    obtain blk rel' where "fsm_search id rel1 c = Some (blk, rel')" "fork_ok rel'" "no_phantom rel'"
      "\<forall>k < 2 ^ 32. recorded_blk rel' k = recorded_blk rel1 k"
      "blk = InvalidBlockNumber \<or> blk < 2 ^ 32 \<and> c \<le> recorded_blk rel' blk"
      using search_blk [OF s(2,3) nz] by blast
    then show ?thesis using run True s(4) enough by (intro exI [of _ blk] exI [of _ rel']) auto
  next
    case False
    then show ?thesis using run s enough by (intro exI [of _ "fsm_get_heap_blk addr (nat r)"] exI [of _ rel1]) auto
  qed
qed

text \<open>
  Whatever other backends do to a page, asking returns and keeps the fork in order; without interference the slots beyond
  the last block stay empty.
\<close>

definition fsm_kept :: "(FSMPageData \<Rightarrow> FSMPageData) \<Rightarrow> fsm_rel \<Rightarrow> fsm_rel \<Rightarrow> bool" where
  "fsm_kept env m m' \<longleftrightarrow> fork_ok m' \<and> (env = id \<longrightarrow> no_phantom m \<longrightarrow> no_phantom m')"

lemma fsm_kept_refl: "fork_ok m \<Longrightarrow> fsm_kept env m m"
  by (simp add: fsm_kept_def)

lemma fsm_kept_trans: "fsm_kept env a b \<Longrightarrow> fsm_kept env b c \<Longrightarrow> fsm_kept env a c"
  by (simp add: fsm_kept_def)

lemma search_returns:
  assumes "fork_ok rel" "env_ok env" "c \<noteq> 0"
  shows "\<exists>blk rel'. fsm_search env rel c = Some (blk, rel') \<and> fsm_kept env rel rel'"
proof -
  obtain blk rel' where r: "fsm_search env rel c = Some (blk, rel')" "fork_ok rel'"
    using fsm_search_loop_spec [OF assms(1) valid_root assms(2), of c 0] unfolding fsm_search_def by blast
  moreover have "no_phantom rel'" if "env = id" "no_phantom rel" using search_blk [OF assms(1) that(2) assms(3)] r that by auto
  ultimately show ?thesis by (auto simp: fsm_kept_def)
qed

lemma get_page_returns:
  assumes "fork_ok rel" "env_ok env"
  shows "if MaxFSMRequestSize < needed then GetPageWithFreeSpace env rel needed = Inl (Ereport ERROR ERRCODE_DATATYPE_MISMATCH)
    else \<exists>blk rel'. GetPageWithFreeSpace env rel needed = Inr (Some (blk, rel')) \<and> fsm_kept env rel rel'"
proof (cases "fsm_space_needed_to_cat needed")
  case (Inl e)
  then show ?thesis by (auto simp: GetPageWithFreeSpace_def needed_to_cat_spec cat_sizes split: if_splits)
next
  case (Inr c)
  have "needed \<le> MaxFSMRequestSize" using Inr by (auto simp: needed_to_cat_spec cat_sizes split: if_splits)
  then show ?thesis using search_returns [OF assms needed_cat_nonzero [OF Inr]] by (simp add: GetPageWithFreeSpace_def Inr)
qed

lemma record_and_get_returns:
  assumes "fork_ok rel" "env_ok env" "b < 2 ^ 32"
  shows "if MaxFSMRequestSize < needed
    then RecordAndGetPageWithFreeSpace env rel b avail needed = Inl (Ereport ERROR ERRCODE_DATATYPE_MISMATCH)
    else \<exists>blk rel'. RecordAndGetPageWithFreeSpace env rel b avail needed = Inr (Some (blk, rel')) \<and> fsm_kept env rel rel'"
proof (cases "fsm_space_needed_to_cat needed")
  case (Inl e)
  then show ?thesis by (auto simp: RecordAndGetPageWithFreeSpace_def needed_to_cat_spec cat_sizes split: if_splits)
next
  case (Inr c)
  obtain addr slot where loc: "fsm_get_location b = (addr, slot)" by fastforce
  obtain r rel1 where s: "fsm_set_and_search rel addr slot (fsm_space_avail_to_cat avail) c True = Some (r, rel1)" "fork_ok rel1"
    using set_and_search_spec [OF assms(1), of addr slot] valid_location [OF assms(3)] unfolding loc fst_conv snd_conv by blast
  have kept: "fsm_kept env rel rel1"
    using s record_blk [OF assms(1) _ assms(3), of "fsm_space_avail_to_cat avail" c] unfolding loc fst_conv snd_conv by (auto simp: fsm_kept_def)
  have "RecordAndGetPageWithFreeSpace env rel b avail needed =
      Inr (if r \<noteq> -1 then Some (fsm_get_heap_blk addr (nat r), rel1) else fsm_search env rel1 c)"
    by (simp add: RecordAndGetPageWithFreeSpace_def Inr loc s(1))
  moreover have "needed \<le> MaxFSMRequestSize" using Inr by (auto simp: needed_to_cat_spec cat_sizes split: if_splits)
  moreover obtain blk rel' where "fsm_search env rel1 c = Some (blk, rel')" "fsm_kept env rel rel'"
    using search_returns [OF s(2) assms(2) needed_cat_nonzero [OF Inr]] fsm_kept_trans [OF kept] by blast
  ultimately show ?thesis using kept by (cases "r = -1") simp_all
qed

interpretation fsm: space_map map_wf "\<lambda>rel b. fsm_space_cat_to_avail (recorded_blk rel b)"
  "\<lambda>avail. fsm_space_cat_to_avail (fsm_space_avail_to_cat avail)" "RecordAndGetPageWithFreeSpace id"
  InvalidBlockNumber "2 ^ 32" MaxFSMRequestSize
proof unfold_locales
  show "fsm_space_cat_to_avail (fsm_space_avail_to_cat avail) \<le> avail" for avail by (rule cat_roundtrip_le)
qed (rule record_and_get_blk)

end
