(* ===== verification/Hio.thy ===== *)
theory Hio
  imports PageUpgrade SpaceMap
begin

text \<open>
  Heap insertion I/O: \<^verbatim>\<open>src/src/gausskernel/storage/access/heap/hio.cpp\<close>, which finds a page for
  a new tuple and puts the tuple there. It is the client of both the slotted page and the free space map.

  A relation has the pages of its main fork, its free space map and its cached insertion
  target; a buffer is named by its block. Buffer pins, buffer locks and visibility map pins
  do not change these and have no counterpart. Other backends act at two places: \<open>ic_env\<close> on a page of the map
  while its lock is upgraded, and the list \<open>waits\<close>, which has one entry for every time the
  extension lock is not free at once: the length of the wait queue then and what the
  others do to the relation meanwhile. A result \<open>None\<close> is a call that does not return.
\<close>

subsection \<open>Data\<close>

record BulkInsertStateData =
  current_buf :: "(nat \<times> BlockNumber) option"

text \<open>
  \<open>rd_fillfactor\<close> is the storage option, if set (10 to 100); \<open>rd_encrypt\<close> says whether
  the relation is encrypted or names an encryption algorithm.
\<close>

record RelationData =
  rd_node :: nat
  rd_fillfactor :: "nat option"
  rd_isindex :: bool
  rd_isbucket :: bool
  rd_islocal :: bool
  rd_encrypt :: bool
  rd_blocks :: "page list"
  rd_fsm :: fsm_rel
  rd_targblock :: BlockNumber

text \<open>What is fixed during one call: the current transaction, its \<open>RecentXmin\<close>, the other buffer to be locked and
  the position of the next log record, if the relation is logged.\<close>

record insert_context =
  ic_env :: "FSMPageData \<Rightarrow> FSMPageData"
  ic_xid :: uint64
  ic_recent_xmin :: uint64
  ic_other_block :: "BlockNumber option"
  ic_recptr :: "uint64 option"

definition MaxHeapTupleSize :: nat where
  "MaxHeapTupleSize = BLCKSZ - MAXALIGN (SizeOfHeapPageHeaderData + sizeof_ItemIdData)"

definition sizeof_TdePageInfo :: nat where
  "sizeof_TdePageInfo = 156 + 16 + 16 + 16 + 1 + 3"

definition PD_TDE_PAGE :: uint16 where
  "PD_TDE_PAGE = 0x0100"

definition FirstNormalTransactionId :: uint64 where
  "FirstNormalTransactionId = 3"

definition RelationGetTargetPageFreeSpace :: "RelationData \<Rightarrow> nat" where
  "RelationGetTargetPageFreeSpace rel =
    BLCKSZ * (100 - (case rd_fillfactor rel of None \<Rightarrow> 100 | Some ff \<Rightarrow> ff)) div 100"

definition PageIsNew :: "page \<Rightarrow> bool" where
  "PageIsNew p \<longleftrightarrow> pd_upper p = 0"

subsection \<open>Reading and extending\<close>

text \<open>\<open>ReadBuffer\<close>: reading past the end raises; \<open>P_NEW\<close> appends a page of zeroes.\<close>

definition P_NEW :: BlockNumber where
  "P_NEW = InvalidBlockNumber"

definition ReadBuffer :: "RelationData \<Rightarrow> BlockNumber \<Rightarrow> (BlockNumber \<times> RelationData) result" where
  "ReadBuffer rel blk =
    (if blk = P_NEW then
       (if length (rd_blocks rel) = InvalidBlockNumber then Inl (Ereport ERROR ERRCODE_PROGRAM_LIMIT_EXCEEDED)
        else Inr (length (rd_blocks rel), rel\<lparr>rd_blocks := rd_blocks rel @ [zeroed_page]\<rparr>))
     else if blk < length (rd_blocks rel) then Inr (blk, rel)
     else Inl (DataCorrupted ERROR))"

definition ReadBufferBI ::
  "RelationData \<Rightarrow> BlockNumber \<Rightarrow> BulkInsertStateData option \<Rightarrow>
   (BlockNumber \<times> RelationData \<times> BulkInsertStateData option) result" where
  "ReadBufferBI rel target_block bistate =
    (case bistate of
       None \<Rightarrow> bindE (ReadBuffer rel target_block) (\<lambda>(buffer, rel). Inr (buffer, rel, None))
     | Some bi \<Rightarrow>
         if current_buf bi = Some (rd_node rel, target_block) then Inr (target_block, rel, bistate)
         else bindE (ReadBuffer rel target_block)
                (\<lambda>(buffer, rel). Inr (buffer, rel, Some (bi\<lparr>current_buf := Some (rd_node rel, buffer)\<rparr>))))"

definition set_block :: "RelationData \<Rightarrow> BlockNumber \<Rightarrow> page \<Rightarrow> RelationData" where
  "set_block rel blk page = rel\<lparr>rd_blocks := (rd_blocks rel)[blk := page]\<rparr>"

definition init_heap_page :: "uint64 \<Rightarrow> bool \<Rightarrow> page" where
  "init_heap_page recent_xmin tde =
    (let phdr = (PageInit BLCKSZ 0 True)\<lparr>pd_xid_base := recent_xmin - FirstNormalTransactionId, pd_multi_base := 0\<rparr>
     in if tde then phdr\<lparr>pd_upper := pd_upper phdr - sizeof_TdePageInfo,
                         pd_special := pd_special phdr - sizeof_TdePageInfo,
                         pd_flags := pd_flags phdr OR PD_TDE_PAGE\<rparr>
        else phdr)"

definition CheckRelation :: "RelationData \<Rightarrow> nat \<Rightarrow> nat" where
  "CheckRelation rel lockWaiters =
    (if rd_isindex rel then (if rd_isbucket rel then min 4 lockWaiters else min 8 lockWaiters)
     else (if rd_isbucket rel then min 256 lockWaiters else min 512 (lockWaiters * 20)))"

text \<open>One pass of the loop of \<open>RelationAddExtraBlocks\<close>, then the loop.\<close>

definition add_extra_block ::
  "uint64 \<Rightarrow> RelationData \<Rightarrow> BulkInsertStateData option \<Rightarrow>
   (BlockNumber \<times> nat \<times> RelationData \<times> BulkInsertStateData option) option result" where
  "add_extra_block recent_xmin rel bistate =
    bindE (ReadBufferBI rel P_NEW bistate) (\<lambda>(block_num, rel, bistate).
      (let rel = (if rd_isindex rel then rel
                  else set_block rel block_num (init_heap_page recent_xmin (rd_encrypt rel)));
           freespace = (if rd_isindex rel then BLCKSZ - 1 else PageGetHeapFreeSpace (rd_blocks rel ! block_num))
       in Inr (case RecordPageWithFreeSpace (rd_fsm rel) block_num freespace of
                 None \<Rightarrow> None
               | Some fsm \<Rightarrow> Some (block_num, freespace, rel\<lparr>rd_fsm := fsm\<rparr>, bistate))))"

fun add_extra_blocks ::
  "nat \<Rightarrow> uint64 \<Rightarrow> BlockNumber \<Rightarrow> BlockNumber \<Rightarrow> nat \<Rightarrow> RelationData \<Rightarrow> BulkInsertStateData option \<Rightarrow>
   (BlockNumber \<times> BlockNumber \<times> nat \<times> RelationData \<times> BulkInsertStateData option) option result" where
  "add_extra_blocks 0 recent_xmin first_block block_num freespace rel bistate =
    Inr (Some (first_block, block_num, freespace, rel, bistate))"
| "add_extra_blocks (Suc n) recent_xmin first_block block_num freespace rel bistate =
    bindE (add_extra_block recent_xmin rel bistate) (\<lambda>r.
      case r of
        None \<Rightarrow> Inr None
      | Some (block_num, freespace, rel, bistate) \<Rightarrow>
          add_extra_blocks n recent_xmin (if first_block = InvalidBlockNumber then block_num else first_block)
            block_num freespace rel bistate)"

text \<open>The loop \<open>while (extra_blocks-- >= 0)\<close> runs \<open>extra_blocks + 1\<close> times.\<close>

definition RelationAddExtraBlocks ::
  "uint64 \<Rightarrow> RelationData \<Rightarrow> BulkInsertStateData option \<Rightarrow> nat \<Rightarrow>
   (RelationData \<times> BulkInsertStateData option) option result" where
  "RelationAddExtraBlocks recent_xmin rel bistate lock_waiters =
    (if lock_waiters \<le> 0 then Inr (Some (rel, bistate))
     else
       bindE (add_extra_blocks (Suc (CheckRelation rel lock_waiters)) recent_xmin
               InvalidBlockNumber InvalidBlockNumber 0 rel bistate) (\<lambda>r.
         Inr (case r of
                None \<Rightarrow> None
              | Some (first_block, block_num, freespace, rel, bistate) \<Rightarrow>
                  map_option (\<lambda>fsm. (rel\<lparr>rd_fsm := fsm\<rparr>, bistate))
                    (UpdateFreeSpaceMap (rd_fsm rel) first_block block_num freespace True))))"

subsection \<open>Finding a page for a tuple\<close>

definition heap_tuple_len_verifier :: "nat \<Rightarrow> unit result" where
  "heap_tuple_len_verifier len =
    (if len > MaxHeapTupleSize then Inl (Ereport ERROR ERRCODE_PROGRAM_LIMIT_EXCEEDED) else Inr ())"

text \<open>A pinned buffer of another relation, as of another partition, is given up.\<close>

definition release_foreign_buffer :: "RelationData \<Rightarrow> BulkInsertStateData option \<Rightarrow> BulkInsertStateData option" where
  "release_foreign_buffer rel bistate =
    (case bistate of
       Some bi \<Rightarrow>
         (case current_buf bi of
            Some (node, blk) \<Rightarrow> if node \<noteq> rd_node rel then Some (bi\<lparr>current_buf := None\<rparr>) else bistate
          | None \<Rightarrow> bistate)
     | None \<Rightarrow> None)"

text \<open>The first target: the cached one, or what the free space map says, or else the last page.\<close>

definition choose_target ::
  "(FSMPageData \<Rightarrow> FSMPageData) \<Rightarrow> RelationData \<Rightarrow> BulkInsertStateData option \<Rightarrow> nat \<Rightarrow> bool \<Rightarrow> BlockNumber \<Rightarrow>
   (BlockNumber \<times> bool \<times> RelationData) option result" where
  "choose_target env rel bistate wanted use_fsm end_rel_block =
    (let (target_block, use_fsm) =
           (if wanted > MaxHeapTupleSize then (InvalidBlockNumber, False)
            else case bistate of
                   Some bi \<Rightarrow> (case current_buf bi of
                                 Some (node, blk) \<Rightarrow> (blk, use_fsm)
                               | None \<Rightarrow> (rd_targblock rel, use_fsm))
                 | None \<Rightarrow> (rd_targblock rel, use_fsm));
         append = (\<lambda>target_block. if end_rel_block \<noteq> InvalidBlockNumber \<and> target_block < end_rel_block + 1
                                  then InvalidBlockNumber else target_block)
     in if target_block = InvalidBlockNumber \<and> use_fsm then
          bindE (GetPageWithFreeSpace env (rd_fsm rel) wanted) (\<lambda>r.
            Inr (case r of
                   None \<Rightarrow> None
                 | Some (target_block, fsm) \<Rightarrow>
                     (let nblocks = length (rd_blocks rel);
                          target_block = (if target_block = InvalidBlockNumber \<and> nblocks > 0 then nblocks - 1 else target_block)
                      in Some (append target_block, use_fsm, rel\<lparr>rd_fsm := fsm\<rparr>))))
        else Inr (Some (append target_block, use_fsm, rel)))"

definition read_target ::
  "insert_context \<Rightarrow> RelationData \<Rightarrow> BlockNumber \<Rightarrow> BulkInsertStateData option \<Rightarrow>
   (BlockNumber \<times> RelationData \<times> BulkInsertStateData option) result" where
  "read_target ctx rel target_block bistate =
    (case ic_other_block ctx of
       None \<Rightarrow> ReadBufferBI rel target_block bistate
     | Some other_block \<Rightarrow>
         if other_block = target_block then Inr (target_block, rel, bistate)
         else bindE (ReadBuffer rel target_block) (\<lambda>(buffer, rel). Inr (buffer, rel, bistate)))"

text \<open>
  The check of one page: the page to use, if it is suitable, whether to go on asking the
  free space map, and the extra space to ask for.
\<close>

definition check_page ::
  "insert_context \<Rightarrow> nat \<Rightarrow> nat \<Rightarrow> bool \<Rightarrow> page \<Rightarrow> (page option \<times> bool \<times> nat) result" where
  "check_page ctx len save_free_space use_fsm page =
    (let page_free_space = PageGetHeapFreeSpace page
     in if len + save_free_space \<le> page_free_space then
          (if PageIs4BXidVersion page then
             (if page_free_space - save_free_space - len \<ge> SizeOfHeapPageUpgradeData then
                bindE (heap_page_upgrade (ic_xid ctx) (ic_recptr ctx) save_free_space page) (\<lambda>(upgraded, page).
                  Inr (if upgraded then (Some page, use_fsm, 0) else (None, False, 0)))
              else Inr (None, use_fsm, SizeOfHeapPageUpgradeData))
           else Inr (Some page, use_fsm, 0))
        else Inr (None, use_fsm, 0))"

text \<open>
  One pass of the loop over target pages. It ends with the buffer to use, or with no buffer, the final \<open>use_fsm\<close>
  and \<open>extralen\<close>; or it goes on with another target.
\<close>

record target_state =
  ts_rel :: RelationData
  ts_bistate :: "BulkInsertStateData option"
  ts_use_fsm :: bool
  ts_extralen :: nat
  ts_target :: BlockNumber

datatype step_result = Done "(BlockNumber option \<times> target_state) result" | Again target_state

definition target_step :: "insert_context \<Rightarrow> nat \<Rightarrow> nat \<Rightarrow> target_state \<Rightarrow> step_result option" where
  "target_step ctx len save_free_space ts =
    (let target_block = ts_target ts
     in if target_block = InvalidBlockNumber then Some (Done (Inr (None, ts)))
        else case read_target ctx (ts_rel ts) target_block (ts_bistate ts) of
               Inl e \<Rightarrow> Some (Done (Inl e))
             | Inr (buffer, rel, bistate) \<Rightarrow>
                 (let page = rd_blocks rel ! buffer
                  in case check_page ctx len save_free_space (ts_use_fsm ts) page of
                       Inl e \<Rightarrow> Some (Done (Inl e))
                     | Inr (Some page, use_fsm, extralen) \<Rightarrow>
                         Some (Done (Inr (Some buffer,
                           ts\<lparr>ts_rel := (set_block rel buffer page)\<lparr>rd_targblock := target_block\<rparr>, ts_bistate := bistate\<rparr>)))
                     | Inr (None, use_fsm, extralen) \<Rightarrow>
                         if \<not> use_fsm then
                           Some (Done (Inr (None, ts\<lparr>ts_rel := rel, ts_bistate := bistate, ts_use_fsm := False, ts_extralen := extralen\<rparr>)))
                         else
                           case RecordAndGetPageWithFreeSpace (ic_env ctx) (rd_fsm rel) target_block
                                  (PageGetHeapFreeSpace page) (len + save_free_space + extralen) of
                             Inl e \<Rightarrow> Some (Done (Inl e))
                           | Inr None \<Rightarrow> None
                           | Inr (Some (next_block, fsm)) \<Rightarrow>
                               Some (Again (ts\<lparr>ts_rel := rel\<lparr>rd_fsm := fsm\<rparr>, ts_bistate := bistate,
                                               ts_extralen := extralen, ts_target := next_block\<rparr>))))"

partial_function (option) target_loop ::
  "insert_context \<Rightarrow> nat \<Rightarrow> nat \<Rightarrow> target_state \<Rightarrow> (BlockNumber option \<times> target_state) result option" where
  "target_loop ctx len save_free_space ts =
    (case target_step ctx len save_free_space ts of
       None \<Rightarrow> None
     | Some (Done r) \<Rightarrow> Some r
     | Some (Again ts) \<Rightarrow> target_loop ctx len save_free_space ts)"

text \<open>The relation is extended by one page for the tuple itself.\<close>

definition extend_for_tuple ::
  "insert_context \<Rightarrow> nat \<Rightarrow> RelationData \<Rightarrow> BulkInsertStateData option \<Rightarrow>
   (BlockNumber \<times> RelationData \<times> BulkInsertStateData option) result" where
  "extend_for_tuple ctx len rel bistate =
    bindE (ReadBufferBI rel P_NEW bistate) (\<lambda>(buffer, rel, bistate).
      if \<not> PageIsNew (rd_blocks rel ! buffer) then Inl (DataCorrupted ERROR)
      else
        (let page = init_heap_page (ic_recent_xmin ctx) (rd_encrypt rel)
         in if len > PageGetHeapFreeSpace page then Inl (Ereport PANIC ERRCODE_INTERNAL_ERROR)
            else Inr (buffer, (set_block rel buffer page)\<lparr>rd_targblock := buffer\<rparr>, bistate)))"

text \<open>
  The wait for the extension lock, and what follows. The code tries to get the lock without waiting only
  if it uses the free space map, and then looks for space that others may have added meanwhile; without the map it simply waits.
  A local relation needs no lock.
\<close>

datatype wait_result =
    Finish "(BlockNumber \<times> RelationData \<times> BulkInsertStateData option) result option"
  | Retry target_state

definition wait_for_extension ::
  "insert_context \<Rightarrow> nat \<Rightarrow> nat \<Rightarrow> nat \<Rightarrow> (RelationData \<Rightarrow> RelationData) \<Rightarrow> target_state \<Rightarrow> wait_result" where
  "wait_for_extension ctx len save_free_space lock_waiters others ts =
    (if rd_islocal (ts_rel ts) then Finish (Some (extend_for_tuple ctx len (ts_rel ts) (ts_bistate ts)))
     else
       (let rel = others (ts_rel ts)
        in if \<not> ts_use_fsm ts then Finish (Some (extend_for_tuple ctx len rel (ts_bistate ts)))
           else
             case GetPageWithFreeSpace (ic_env ctx) (rd_fsm rel) (len + save_free_space + ts_extralen ts) of
               Inl e \<Rightarrow> Finish (Some (Inl e))
             | Inr None \<Rightarrow> Finish None
             | Inr (Some (target_block, fsm)) \<Rightarrow>
                 (let rel = rel\<lparr>rd_fsm := fsm\<rparr>
                  in if target_block \<noteq> InvalidBlockNumber then Retry (ts\<lparr>ts_rel := rel, ts_target := target_block\<rparr>)
                     else
                       Finish (case RelationAddExtraBlocks (ic_recent_xmin ctx) rel (ts_bistate ts) lock_waiters of
                                 Inl e \<Rightarrow> Some (Inl e)
                               | Inr None \<Rightarrow> None
                               | Inr (Some (rel, bistate)) \<Rightarrow> Some (extend_for_tuple ctx len rel bistate)))))"

text \<open>From the label \<open>loop\<close> to the end.\<close>

fun get_buffer ::
  "insert_context \<Rightarrow> nat \<Rightarrow> nat \<Rightarrow> (nat \<times> (RelationData \<Rightarrow> RelationData)) list \<Rightarrow> target_state \<Rightarrow>
   (BlockNumber \<times> RelationData \<times> BulkInsertStateData option) result option" where
  "get_buffer ctx len save_free_space waits ts =
    (case target_loop ctx len save_free_space ts of
       None \<Rightarrow> None
     | Some (Inl e) \<Rightarrow> Some (Inl e)
     | Some (Inr (Some buffer, ts)) \<Rightarrow> Some (Inr (buffer, ts_rel ts, ts_bistate ts))
     | Some (Inr (None, ts)) \<Rightarrow>
         (case waits of
            [] \<Rightarrow> Some (extend_for_tuple ctx len (ts_rel ts) (ts_bistate ts))
          | (lock_waiters, others) # waits \<Rightarrow>
              (case wait_for_extension ctx len save_free_space lock_waiters others ts of
                 Finish r \<Rightarrow> r
               | Retry ts \<Rightarrow> get_buffer ctx len save_free_space waits ts)))"

declare get_buffer.simps [simp del]

definition RelationGetBufferForTuple ::
  "insert_context \<Rightarrow> (nat \<times> (RelationData \<Rightarrow> RelationData)) list \<Rightarrow> RelationData \<Rightarrow> nat \<Rightarrow> bool \<Rightarrow>
   BulkInsertStateData option \<Rightarrow> BlockNumber \<Rightarrow> (BlockNumber \<times> RelationData \<times> BulkInsertStateData option) result option" where
  "RelationGetBufferForTuple ctx waits rel len skip_fsm bistate end_rel_block =
    (let len = MAXALIGN len
     in case heap_tuple_len_verifier len of
          Inl e \<Rightarrow> Some (Inl e)
        | Inr _ \<Rightarrow>
            (let save_free_space = RelationGetTargetPageFreeSpace rel;
                 bistate = release_foreign_buffer rel bistate
             in case choose_target (ic_env ctx) rel bistate (len + save_free_space) (\<not> skip_fsm) end_rel_block of
                  Inl e \<Rightarrow> Some (Inl e)
                | Inr None \<Rightarrow> None
                | Inr (Some (target_block, use_fsm, rel)) \<Rightarrow>
                    get_buffer ctx len save_free_space waits
                      \<lparr>ts_rel = rel, ts_bistate = bistate, ts_use_fsm = use_fsm, ts_extralen = 0, ts_target = target_block\<rparr>))"

definition RelationGetNewBufferForBulkInsert ::
  "insert_context \<Rightarrow> RelationData \<Rightarrow> nat \<Rightarrow> BulkInsertStateData option \<Rightarrow>
   (BlockNumber \<times> RelationData \<times> BulkInsertStateData option) result" where
  "RelationGetNewBufferForBulkInsert ctx rel len bistate =
    bindE (heap_tuple_len_verifier (MAXALIGN len)) (\<lambda>_.
      bindE (ReadBufferBI rel P_NEW bistate) (\<lambda>(buffer, rel, bistate).
        if \<not> PageIsNew (rd_blocks rel ! buffer) then Inl (DataCorrupted ERROR)
        else Inr (buffer, (set_block rel buffer (init_heap_page (ic_recent_xmin ctx) False))\<lparr>rd_targblock := buffer\<rparr>, bistate)))"

subsection \<open>Putting the tuple on the page\<close>

text \<open>
  A tuple is its own address, block and offset number, and the bytes of its header and data: the
  first four bytes are \<open>t_xmin\<close>, the six bytes at offset 12 are \<open>t_ctid\<close>. The caller's copy gets
  \<open>t_xmin\<close> before it is stored, and the stored tuple gets its own address.
\<close>

record HeapTupleData =
  t_self :: "BlockNumber \<times> nat"
  t_data :: "uint8 list"

definition NormalTransactionIdToShort :: "uint64 \<Rightarrow> uint64 \<Rightarrow> uint32" where
  "NormalTransactionIdToShort base xid = (if xid \<ge> FirstNormalTransactionId then ucast (xid - base) else ucast xid)"

text \<open>How \<open>t_xmin\<close> is read again: the short id of the tuple's header counts from the base of the page.\<close>

definition ShortTransactionIdToNormal :: "uint64 \<Rightarrow> uint32 \<Rightarrow> uint64" where
  "ShortTransactionIdToNormal base xid = (if ucast xid \<ge> FirstNormalTransactionId then ucast xid + base else ucast xid)"

definition HeapTupleCopyBaseFromPage :: "page \<Rightarrow> uint64" where
  "HeapTupleCopyBaseFromPage p = (if PageIs8BXidHeapVersion p then pd_xid_base p else 0)"

definition HeapTupleGetRawXmin :: "byte_order \<Rightarrow> page \<Rightarrow> uint8 list \<Rightarrow> uint64" where
  "HeapTupleGetRawXmin order p data = ShortTransactionIdToNormal (HeapTupleCopyBaseFromPage p) (fetch_word order data 0)"

definition half_bytes :: "byte_order \<Rightarrow> uint16 \<Rightarrow> uint8 list" where
  "half_bytes e h = (case e of
     WORDS_LITTLEENDIAN \<Rightarrow> [ucast h, ucast (drop_bit 8 h)]
   | WORDS_BIGENDIAN \<Rightarrow> [ucast (drop_bit 8 h), ucast h])"

definition ItemPointer_bytes :: "byte_order \<Rightarrow> BlockNumber \<times> nat \<Rightarrow> uint8 list" where
  "ItemPointer_bytes e tid =
    (case tid of (blk, off) \<Rightarrow>
       half_bytes e (of_nat (blk div 2 ^ 16)) @ half_bytes e (of_nat (blk mod 2 ^ 16)) @ half_bytes e (of_nat off))"

definition overwrite_at :: "nat \<Rightarrow> 'a list \<Rightarrow> 'a list \<Rightarrow> 'a list" where
  "overwrite_at i new xs = take i xs @ new @ drop (i + length new) xs"

definition RelationPutHeapTuple ::
  "byte_order \<Rightarrow> RelationData \<Rightarrow> BlockNumber \<Rightarrow> HeapTupleData \<Rightarrow> uint64 \<Rightarrow> (HeapTupleData \<times> RelationData) result" where
  "RelationPutHeapTuple order rel buffer tuple xid =
    (let page_header = rd_blocks rel ! buffer;
         xmin = NormalTransactionIdToShort (if PageIs8BXidHeapVersion page_header then pd_xid_base page_header else 0) xid;
         tuple = tuple\<lparr>t_data := overwrite_at 0 (word_bytes order xmin) (t_data tuple)\<rparr>
     in case PageAddItem page_header (t_data tuple) InvalidOffsetNumber False True of
          (Inl e, page) \<Rightarrow> Inl e
        | (Inr offnum, page) \<Rightarrow>
            if offnum = InvalidOffsetNumber then Inl (Ereport PANIC ERRCODE_INTERNAL_ERROR)
            else
              (let tuple = tuple\<lparr>t_self := (buffer, offnum)\<rparr>;
                   item_id = PageGetItemId page offnum;
                   page = page\<lparr>pd_mem := memcpy (lp_off item_id + 12) (ItemPointer_bytes order (t_self tuple)) (pd_mem page)\<rparr>
               in Inr (tuple, set_block rel buffer page)))"

end
