(* ===== verification/HeapInsert.thy ===== *)
theory HeapInsert
  imports Hio
begin

text \<open>
  Correctness of heap insertion (the definitions of \<open>Hio\<close>): the cases of one pass over a target page, the loop over target pages, which ends because
  each pass reports the truth to the free space map (through the interpretation \<open>fsm\<close> of \<open>space_map\<close>), the extension of the relation, the wait
  for the extension lock, and the stored tuple.
\<close>

subsection \<open>Sizes\<close>

lemma hio_sizes: "MaxHeapTupleSize = 8144" "sizeof_TdePageInfo = 208"
  by (simp_all add: MaxHeapTupleSize_def sizeof_TdePageInfo_def BLCKSZ_def SizeOfHeapPageHeaderData_def MAXALIGN_def)

lemmas hio_sizes_all = hio_sizes page_sizes

subsection \<open>A page that passes the check\<close>

definition heap_page_ok :: "page \<Rightarrow> bool" where
  "heap_page_ok p \<longleftrightarrow> p = zeroed_page \<or> page_ok p \<and> PageGetMaxOffsetNumber p \<le> MaxHeapTuplesPerPage"

definition usable :: "nat \<Rightarrow> page \<Rightarrow> bool" where
  "usable len p \<longleftrightarrow> page_ok p \<and> PageGetMaxOffsetNumber p \<le> MaxHeapTuplesPerPage \<and> len \<le> PageGetHeapFreeSpace p"

lemma zeroed_no_space [simp]: "PageGetHeapFreeSpace zeroed_page = 0"
  by (simp add: PageGetHeapFreeSpace_def PageGetFreeSpace_def zeroed_page_def)

lemma usable_heap_page_ok: "usable len p \<Longrightarrow> heap_page_ok p"
  by (simp add: usable_def heap_page_ok_def)

text \<open>In the situation in which the code upgrades a page, the upgrade never fails.\<close>

lemma upgrade_with_room:
  assumes ok: "page_ok p" "PageGetMaxOffsetNumber p \<le> MaxHeapTuplesPerPage" and old: "PageIs4BXidVersion p"
    and room: "len + save + 16 \<le> PageGetHeapFreeSpace p" and len: "0 < len"
  shows "\<exists>q. heap_page_upgrade xid recptr save p = Inr (True, q) \<and> usable (len + save) q \<and> page_items q = page_items p"
proof -
  have le: "PageGetHeapFreeSpace p + 4 \<le> pd_upper p - pd_lower p" using heap_free_space_le [of p] room len by linarith
  then have fit: "pd_lower p + 16 \<le> pd_upper p" using room by linarith
  obtain q where q: "PageLocalUpgrade p = Inr q" "page_ok q" "page_items q = page_items p" "pd_lower q = pd_lower p + 16"
    "pd_upper q = pd_upper p" "PageHasFreeLinePointers q = PageHasFreeLinePointers p"
    "\<forall>i < PageGetMaxOffsetNumber p. pd_linp q i = pd_linp p i"
    using page_local_upgrade [OF ok(1) old fit] by blast
  have n: "PageGetMaxOffsetNumber q = PageGetMaxOffsetNumber p" using q(3) length_page_items by metis
  define q' where "q' = (case recptr of None \<Rightarrow> q | Some lsn \<Rightarrow> q\<lparr>pd_lsn := lsn\<rparr>)"
  have f: "pd_pagesize_version q' = pd_pagesize_version q" "pd_lower q' = pd_lower q" "pd_upper q' = pd_upper q"
    "pd_special q' = pd_special q" "pd_linp q' = pd_linp q" "pd_mem q' = pd_mem q" "pd_flags q' = pd_flags q"
    by (simp_all add: q'_def split: option.split)
  note lay = layout_cong(1) [OF f(1)] layout_cong(2) [OF f(1,2)]
  have hint: "PageHasFreeLinePointers q' = PageHasFreeLinePointers p" using q(6) by (simp add: PageHasFreeLinePointers_def f)
  have "page_ok q'" using q(2) by (simp add: page_ok_def header_ok_def corrupted_pointers_def lay f lp_ok_def)
  moreover have items: "page_items q' = page_items p" using q(3) by (simp add: page_items_def lay f lp_item_def lp_bytes_def)
  moreover have "PageGetHeapFreeSpace q' = PageGetHeapFreeSpace p - 16"
    using heap_free_space_upgraded [of q' p] q(4,5,7) n hint room len by (simp add: f lay)
  ultimately have "usable (len + save) q'" using ok(2) room n by (simp add: usable_def lay)
  moreover have "int SizeOfHeapPageUpgradeData \<le> (int (pd_upper p) - int (pd_lower p) - int save) mod 2 ^ 64"
    using le room header_ok_bounds(3) [OF ok(1)] by (simp add: hio_sizes_all)
  then have "heap_page_upgrade xid recptr save p = Inr (True, q')"
    by (simp add: heap_page_upgrade_def old q(1) q'_def del: One_nat_def)
  ultimately show ?thesis using items by blast
qed

lemma check_page_cases:
  assumes ok: "heap_page_ok p" and len: "0 < len"
  obtains (use) q where "check_page ctx len save use_fsm p = Inr (Some q, use_fsm, 0)" "usable (len + save) q" "page_items q = page_items p"
  | (skip) extra where "check_page ctx len save use_fsm p = Inr (None, use_fsm, extra)" "extra = 0 \<or> extra = 16"
      "PageGetHeapFreeSpace p < len + save + extra" "len + save \<le> PageGetHeapFreeSpace p \<longleftrightarrow> extra = 16"
proof (cases "len + save \<le> PageGetHeapFreeSpace p")
  case False
  then show ?thesis by (intro skip [of 0]) (simp_all add: check_page_def)
next
  case True
  then have p: "page_ok p" "PageGetMaxOffsetNumber p \<le> MaxHeapTuplesPerPage" using ok len by (auto simp: heap_page_ok_def)
  show ?thesis
  proof (cases "PageIs4BXidVersion p")
    case False
    then show ?thesis using True p by (intro use [of p]) (simp_all add: check_page_def usable_def)
  next
    case old: True
    show ?thesis
    proof (cases "len + save + 16 \<le> PageGetHeapFreeSpace p")
      case room: True
      have ge: "16 \<le> PageGetHeapFreeSpace p - save - len" using room by simp
      obtain q where "heap_page_upgrade (ic_xid ctx) (ic_recptr ctx) save p = Inr (True, q)" "usable (len + save) q"
        "page_items q = page_items p" using upgrade_with_room [OF p old room len] by blast
      then show ?thesis using True old ge by (intro use [of q]) (simp_all add: check_page_def hio_sizes_all)
    next
      case False
      then have "\<not> 16 \<le> PageGetHeapFreeSpace p - save - len" by linarith
      then show ?thesis using True False old by (intro skip [of 16]) (simp_all add: check_page_def hio_sizes_all)
    qed
  qed
qed

subsection \<open>One pass over a target page\<close>

definition rel_ok :: "RelationData \<Rightarrow> bool" where
  "rel_ok rel \<longleftrightarrow> fork_ok (rd_fsm rel) \<and> (\<forall>p \<in> set (rd_blocks rel). heap_page_ok p) \<and> length (rd_blocks rel) \<le> InvalidBlockNumber"

definition bi_ok :: "RelationData \<Rightarrow> BulkInsertStateData option \<Rightarrow> bool" where
  "bi_ok rel bistate \<longleftrightarrow> (\<forall>bi b. bistate = Some bi \<longrightarrow> current_buf bi = Some (rd_node rel, b) \<longrightarrow> b < length (rd_blocks rel))"

definition target_inv :: "insert_context \<Rightarrow> target_state \<Rightarrow> bool" where
  "target_inv ctx ts \<longleftrightarrow> rel_ok (ts_rel ts) \<and> bi_ok (ts_rel ts) (ts_bistate ts) \<and>
    (\<forall>b. ic_other_block ctx = Some b \<longrightarrow> b < length (rd_blocks (ts_rel ts)))"

lemma read_target_cases:
  assumes "target_inv ctx ts" "ts_target ts \<noteq> InvalidBlockNumber"
  obtains (missing) "length (rd_blocks (ts_rel ts)) \<le> ts_target ts"
      "read_target ctx (ts_rel ts) (ts_target ts) (ts_bistate ts) = Inl (DataCorrupted ERROR)"
  | (read) bi where "ts_target ts < length (rd_blocks (ts_rel ts))" "bi_ok (ts_rel ts) bi"
      "read_target ctx (ts_rel ts) (ts_target ts) (ts_bistate ts) = Inr (ts_target ts, ts_rel ts, bi)"
proof (cases "ts_target ts < length (rd_blocks (ts_rel ts))")
  case True
  then have "\<exists>bi. bi_ok (ts_rel ts) bi \<and>
      read_target ctx (ts_rel ts) (ts_target ts) (ts_bistate ts) = Inr (ts_target ts, ts_rel ts, bi)"
    using assms by (cases "ic_other_block ctx"; cases "ts_bistate ts")
      (auto simp: read_target_def ReadBufferBI_def ReadBuffer_def P_NEW_def target_inv_def bi_ok_def)
  then show ?thesis using read True by blast
next
  case False
  then show ?thesis using assms
    by (intro missing) (auto simp: read_target_def ReadBufferBI_def ReadBuffer_def P_NEW_def target_inv_def bi_ok_def split: option.split)
qed

text \<open>Every way in which a pass can end.\<close>

lemma target_step_cases:
  assumes inv: "target_inv ctx ts" and env: "env_ok (ic_env ctx)" and len: "0 < len"
  obtains
    (none) "ts_target ts = InvalidBlockNumber" "target_step ctx len save ts = Some (Done (Inr (None, ts)))"
  | (missing) "length (rd_blocks (ts_rel ts)) \<le> ts_target ts" "target_step ctx len save ts = Some (Done (Inl (DataCorrupted ERROR)))"
  | (found) q bi where "ts_target ts < length (rd_blocks (ts_rel ts))" "usable (len + save) q" "bi_ok (ts_rel ts) bi"
      "page_items q = page_items (rd_blocks (ts_rel ts) ! ts_target ts)"
      "target_step ctx len save ts = Some (Done (Inr (Some (ts_target ts),
         ts\<lparr>ts_rel := (set_block (ts_rel ts) (ts_target ts) q)\<lparr>rd_targblock := ts_target ts\<rparr>, ts_bistate := bi\<rparr>)))"
  | (give_up) bi extra where "\<not> ts_use_fsm ts" "bi_ok (ts_rel ts) bi"
      "target_step ctx len save ts = Some (Done (Inr (None, ts\<lparr>ts_bistate := bi, ts_use_fsm := False, ts_extralen := extra\<rparr>)))"
  | (too_big) "MaxFSMRequestSize < len + save + 16"
      "target_step ctx len save ts = Some (Done (Inl (Ereport ERROR ERRCODE_DATATYPE_MISMATCH)))"
  | (again) bi extra blk fsm where "ts_target ts < length (rd_blocks (ts_rel ts))" "bi_ok (ts_rel ts) bi" "fsm_kept (ic_env ctx) (rd_fsm (ts_rel ts)) fsm"
      "extra = 0 \<or> extra = 16" "len + save + extra \<le> MaxFSMRequestSize"
      "PageGetHeapFreeSpace (rd_blocks (ts_rel ts) ! ts_target ts) < len + save + extra"
      "len + save \<le> PageGetHeapFreeSpace (rd_blocks (ts_rel ts) ! ts_target ts) \<longleftrightarrow> extra = 16"
      "RecordAndGetPageWithFreeSpace (ic_env ctx) (rd_fsm (ts_rel ts)) (ts_target ts)
         (PageGetHeapFreeSpace (rd_blocks (ts_rel ts) ! ts_target ts)) (len + save + extra) = Inr (Some (blk, fsm))"
      "target_step ctx len save ts = Some (Again (ts\<lparr>ts_rel := (ts_rel ts)\<lparr>rd_fsm := fsm\<rparr>, ts_bistate := bi,
         ts_extralen := extra, ts_target := blk\<rparr>))"
proof (cases "ts_target ts = InvalidBlockNumber")
  case True
  then show ?thesis by (intro none) (simp_all add: target_step_def Let_def)
next
  case False
  let ?rel = "ts_rel ts" and ?t = "ts_target ts"
  show ?thesis using inv False
  proof (cases rule: read_target_cases)
    case missing
    then show ?thesis using False by (intro that(2)) (simp_all add: target_step_def Let_def)
  next
    case (read bi)
    let ?p = "rd_blocks ?rel ! ?t" and ?ask = "RecordAndGetPageWithFreeSpace (ic_env ctx) (rd_fsm ?rel) ?t"
    have rel: "rel_ok ?rel" using inv by (simp add: target_inv_def)
    then have ok: "heap_page_ok ?p" using read(1) by (simp add: rel_ok_def)
    have t32: "?t < 2 ^ 32" using read(1) rel by (simp add: rel_ok_def InvalidBlockNumber_def)
    show ?thesis using ok len
    proof (cases rule: check_page_cases [where ctx = ctx and save = save and use_fsm = "ts_use_fsm ts"])
      case (use q)
      then show ?thesis using read False by (intro found [of q bi]) (simp_all add: target_step_def Let_def)
    next
      case (skip extra)
      show ?thesis
      proof (cases "ts_use_fsm ts")
        case False
        then show ?thesis using read skip \<open>?t \<noteq> InvalidBlockNumber\<close>
          by (intro give_up [of bi extra]) (simp_all add: target_step_def Let_def)
      next
        case use: True
        note ask = record_and_get_returns [OF _ env t32, of "rd_fsm ?rel" "len + save + extra" "PageGetHeapFreeSpace ?p"]
        have fork: "fork_ok (rd_fsm ?rel)" using rel by (simp add: rel_ok_def)
        show ?thesis
        proof (cases "MaxFSMRequestSize < len + save + extra")
          case True
          then show ?thesis using ask [OF fork] read skip(1,2) use \<open>?t \<noteq> InvalidBlockNumber\<close>
            by (intro too_big) (auto simp: target_step_def Let_def)
        next
          case fits: False
          then obtain blk fsm where r: "?ask (PageGetHeapFreeSpace ?p) (len + save + extra) = Inr (Some (blk, fsm))"
            "fsm_kept (ic_env ctx) (rd_fsm ?rel) fsm"
            using ask [OF fork] by auto
          have "target_step ctx len save ts = Some (Again (ts\<lparr>ts_rel := ?rel\<lparr>rd_fsm := fsm\<rparr>, ts_bistate := bi,
              ts_extralen := extra, ts_target := blk\<rparr>))"
            using read(3) skip(1) use r(1) \<open>?t \<noteq> InvalidBlockNumber\<close> by (simp add: target_step_def Let_def)
          then show ?thesis using fits by (intro again [OF read(1,2) r(2) skip(2) _ skip(3,4) r(1)]) simp_all
        qed
      qed
    qed
  qed
qed

subsection \<open>The loop over target pages\<close>

text \<open>
  What the loop leaves behind: an error of level ERROR, or no buffer and only the map changed, or a buffer whose page is
  usable and keeps its items.
\<close>

definition loop_post :: "(FSMPageData \<Rightarrow> FSMPageData) \<Rightarrow> nat \<Rightarrow> target_state \<Rightarrow> (BlockNumber option \<times> target_state) result \<Rightarrow> bool" where
  "loop_post env wanted ts r \<longleftrightarrow>
    (case r of
       Inl e \<Rightarrow> \<exists>code. e = Ereport ERROR code
     | Inr (None, ts') \<Rightarrow> \<exists>fsm. fsm_kept env (rd_fsm (ts_rel ts)) fsm \<and> ts_rel ts' = (ts_rel ts)\<lparr>rd_fsm := fsm\<rparr> \<and> bi_ok (ts_rel ts) (ts_bistate ts')
     | Inr (Some b, ts') \<Rightarrow>
         \<exists>fsm q. fsm_kept env (rd_fsm (ts_rel ts)) fsm \<and> b < length (rd_blocks (ts_rel ts)) \<and> usable wanted q \<and>
           page_items q = page_items (rd_blocks (ts_rel ts) ! b) \<and> bi_ok (ts_rel ts) (ts_bistate ts') \<and>
           ts_rel ts' = (ts_rel ts)\<lparr>rd_blocks := (rd_blocks (ts_rel ts))[b := q], rd_fsm := fsm, rd_targblock := b\<rparr>)"

lemma target_inv_again:
  "target_inv ctx ts \<Longrightarrow> fsm_kept env m fsm \<Longrightarrow> bi_ok (ts_rel ts) bi \<Longrightarrow>
    target_inv ctx (ts\<lparr>ts_rel := (ts_rel ts)\<lparr>rd_fsm := fsm\<rparr>, ts_bistate := bi, ts_extralen := x, ts_target := blk\<rparr>)"
  by (simp add: target_inv_def rel_ok_def bi_ok_def fsm_kept_def)

lemma loop_post_again:
  assumes "fsm_kept env (rd_fsm (ts_rel ts)) fsm"
    "loop_post env wanted (ts\<lparr>ts_rel := (ts_rel ts)\<lparr>rd_fsm := fsm\<rparr>, ts_bistate := bi, ts_extralen := x, ts_target := blk\<rparr>) r"
  shows "loop_post env wanted ts r"
  using assms(2) fsm_kept_trans [OF assms(1)]
  by (auto simp: loop_post_def bi_ok_def split: sum.splits option.splits) blast+

lemma target_loop_safe:
  assumes "target_loop ctx len save ts = Some r" "target_inv ctx ts" "env_ok (ic_env ctx)" "0 < len"
  shows "loop_post (ic_env ctx) (len + save) ts r"
proof -
  have "target_inv ctx ts \<longrightarrow> env_ok (ic_env ctx) \<longrightarrow> 0 < len \<longrightarrow> loop_post (ic_env ctx) (len + save) ts r"
  proof (rule target_loop.raw_induct [OF _ assms(1)])
    fix loop ctx len save ts r
    assume IH: "\<And>ctx len save ts r. loop ctx len save ts = Some r \<Longrightarrow>
        target_inv ctx ts \<longrightarrow> env_ok (ic_env ctx) \<longrightarrow> 0 < len \<longrightarrow> loop_post (ic_env ctx) (len + save) ts r"
      and run: "(case target_step ctx len save ts of None \<Rightarrow> None | Some (Done r) \<Rightarrow> Some r
        | Some (Again ts) \<Rightarrow> loop ctx len save ts) = Some r"
    show "target_inv ctx ts \<longrightarrow> env_ok (ic_env ctx) \<longrightarrow> 0 < len \<longrightarrow> loop_post (ic_env ctx) (len + save) ts r"
    proof (intro impI)
      assume inv: "target_inv ctx ts" and env: "env_ok (ic_env ctx)" and len: "0 < len"
      then have fork: "fork_ok (rd_fsm (ts_rel ts))" "bi_ok (ts_rel ts) (ts_bistate ts)" by (simp_all add: target_inv_def rel_ok_def)
      have same: "\<exists>fsm. fsm_kept (ic_env ctx) (rd_fsm (ts_rel ts)) fsm \<and> ts_rel ts = (ts_rel ts)\<lparr>rd_fsm := fsm\<rparr>"
        using fork by (intro exI [of _ "rd_fsm (ts_rel ts)"]) (simp add: fsm_kept_refl)
      show "loop_post (ic_env ctx) (len + save) ts r" using inv env len
      proof (cases rule: target_step_cases [where save = save])
        case (found q bi)
        then show ?thesis using run fork
          by (auto simp: loop_post_def set_block_def fsm_kept_refl intro!: exI [of _ "rd_fsm (ts_rel ts)"] exI [of _ q])
      next
        case (again bi extra blk fsm)
        then have "loop_post (ic_env ctx) (len + save) (ts\<lparr>ts_rel := (ts_rel ts)\<lparr>rd_fsm := fsm\<rparr>, ts_bistate := bi, ts_extralen := extra,
            ts_target := blk\<rparr>) r"
          using run IH target_inv_again [OF inv again(3,2)] env len by simp
        then show ?thesis by (rule loop_post_again [OF again(3)])
      qed (use run fork same in \<open>auto simp: loop_post_def DataCorrupted_def\<close>)
    qed
  qed
  then show ?thesis using assms by simp
qed

text \<open>
  Why the loop ends when nobody interferes: each page that proves unsuitable is reported to the map, and the map
  answers either from a wrong entry, of which there is one fewer after every visit, or from a right one. A right one can
  still be refused once, by an old page without room for its upgrade.
\<close>

abbreviation page_space :: "RelationData \<Rightarrow> BlockNumber \<Rightarrow> nat" where
  "page_space rel b \<equiv> PageGetHeapFreeSpace (rd_blocks rel ! b)"

abbreviation wrong_blocks :: "RelationData \<Rightarrow> nat set" where
  "wrong_blocks rel \<equiv> fsm.stale (rd_fsm rel) (page_space rel) (length (rd_blocks rel))"

definition target_rank :: "nat \<Rightarrow> RelationData \<Rightarrow> BlockNumber \<Rightarrow> nat" where
  "target_rank wanted rel t =
    (if t = InvalidBlockNumber \<or> length (rd_blocks rel) \<le> t then 0
     else if t \<in> wrong_blocks rel then 1
     else if page_space rel t < wanted then 3
     else if page_space rel t < wanted + 16 then 2 else 0)"

lemma target_rank_less:
  assumes t: "t \<noteq> InvalidBlockNumber" "t < length (rd_blocks rel)" and space: "page_space rel t < wanted + extra"
    "wanted \<le> page_space rel t \<longleftrightarrow> extra = 16" "extra = 0 \<or> extra = 16"
    and rel': "rd_blocks rel' = rd_blocks rel" "wrong_blocks rel' = wrong_blocks rel - {t}"
    and blk: "blk = InvalidBlockNumber \<or> (blk < length (rd_blocks rel) \<longrightarrow> blk \<in> wrong_blocks rel' \<or> wanted + extra \<le> page_space rel blk)"
  shows "4 * card (wrong_blocks rel') + target_rank wanted rel' blk < 4 * card (wrong_blocks rel) + target_rank wanted rel t"
proof (cases "t \<in> wrong_blocks rel")
  case True
  have "card (wrong_blocks rel') < card (wrong_blocks rel)" unfolding rel'(2) by (rule fsm.card_stale_less [OF True])
  moreover have "target_rank wanted rel' blk \<le> 3" by (simp add: target_rank_def)
  moreover have "target_rank wanted rel t = 1" using t True by (simp add: target_rank_def)
  ultimately show ?thesis by linarith
next
  case False
  then have same: "wrong_blocks rel' = wrong_blocks rel" using rel'(2) by simp
  have "target_rank wanted rel t = (if extra = 16 then 2 else 3)" using t False space by (auto simp: target_rank_def)
  moreover have "target_rank wanted rel' blk < (if extra = 16 then 2 else 3)"
    using blk space(3) rel'(1) by (auto simp: target_rank_def)
  ultimately show ?thesis unfolding same by simp
qed

lemma target_loop_returns:
  assumes "target_inv ctx ts" "no_phantom (rd_fsm (ts_rel ts))" "ic_env ctx = id" "0 < len"
  shows "\<exists>r. target_loop ctx len save ts = Some r"
  using assms(1,2)
proof (induction "4 * card (wrong_blocks (ts_rel ts)) + target_rank (len + save) (ts_rel ts) (ts_target ts)"
    arbitrary: ts rule: less_induct)
  case (less ts)
  let ?rel = "ts_rel ts" and ?t = "ts_target ts"
  have env: "env_ok (ic_env ctx)" using assms(3) by simp
  show ?case using less.prems(1) env assms(4)
  proof (cases rule: target_step_cases [where save = save])
    case (again bi extra blk fsm)
    let ?ts' = "ts\<lparr>ts_rel := ?rel\<lparr>rd_fsm := fsm\<rparr>, ts_bistate := bi, ts_extralen := extra, ts_target := blk\<rparr>"
    have ok: "rel_ok ?rel" using less.prems(1) by (simp add: target_inv_def)
    then have t: "?t < 2 ^ 32" "?t \<noteq> InvalidBlockNumber" and wf: "map_wf (rd_fsm ?rel)"
      using again(1) less.prems(2) by (auto simp: rel_ok_def InvalidBlockNumber_def)
    have "0 < len + save + extra" using assms(4) by simp
    from fsm.ask_progress [OF wf t(1) this again(5), where actual = "page_space ?rel" and n = "length (rd_blocks ?rel)"]
    have p: "map_wf fsm" "fsm.stale fsm (page_space ?rel) (length (rd_blocks ?rel)) = wrong_blocks ?rel - {?t}"
      "blk = InvalidBlockNumber \<or> (blk < length (rd_blocks ?rel) \<longrightarrow>
         blk \<in> fsm.stale fsm (page_space ?rel) (length (rd_blocks ?rel)) \<or> len + save + extra \<le> page_space ?rel blk)"
      using again(8) by (auto simp: assms(3))
    have "\<exists>r. target_loop ctx len save ?ts' = Some r"
    proof (rule less.hyps)
      show "4 * card (wrong_blocks (ts_rel ?ts')) + target_rank (len + save) (ts_rel ?ts') (ts_target ?ts') <
          4 * card (wrong_blocks ?rel) + target_rank (len + save) ?rel ?t"
        using target_rank_less [OF t(2) again(1,6,7,4), of "?rel\<lparr>rd_fsm := fsm\<rparr>" blk] p by simp
      show "target_inv ctx ?ts'" by (rule target_inv_again [OF less.prems(1) again(3,2)])
    qed (simp add: p(1))
    then show ?thesis using again(9) by (subst target_loop.simps) simp
  qed (simp_all add: target_loop.simps)
qed

subsection \<open>Extending the relation\<close>

text \<open>An initialized page has all its space free; on an encrypted relation the encryption data takes 208 bytes of it.\<close>

lemma init_heap_page_fields:
  "pd_lower (init_heap_page x tde) = 40" "pd_upper (init_heap_page x tde) = (if tde then 7984 else 8192)"
  "pd_special (init_heap_page x tde) = (if tde then 7984 else 8192)" "GetPageHeaderSize (init_heap_page x tde) = 40"
  by (simp_all add: init_heap_page_def PageInit_def Let_def PageSetPageSizeAndVersion_def zeroed_page_def hio_sizes_all MAXALIGN_def
      GetPageHeaderSize_def PageIs8BXidHeapVersion_def PageGetPageLayoutVersion_def PG_HEAP_PAGE_LAYOUT_VERSION_def)

lemma init_heap_page_ok:
  "page_ok (init_heap_page x tde)" "PageGetMaxOffsetNumber (init_heap_page x tde) = 0" "heap_page_ok (init_heap_page x tde)"
  "PageGetHeapFreeSpace (init_heap_page x tde) = (if tde then 7940 else 8148)"
proof -
  show n: "PageGetMaxOffsetNumber (init_heap_page x tde) = 0" by (simp add: PageGetMaxOffsetNumber_def init_heap_page_fields)
  show ok: "page_ok (init_heap_page x tde)"
    by (simp add: page_ok_def n header_ok_def corrupted_pointers_def init_heap_page_fields hio_sizes_all)
  show "heap_page_ok (init_heap_page x tde)" by (simp add: heap_page_ok_def ok n)
  show "PageGetHeapFreeSpace (init_heap_page x tde) = (if tde then 7940 else 8148)"
    using n by (cases tde) (simp_all add: PageGetHeapFreeSpace_def PageGetFreeSpace_def hio_sizes_all init_heap_page_fields Let_def)
qed

definition grown :: "RelationData \<Rightarrow> RelationData \<Rightarrow> bool" where
  "grown rel rel' \<longleftrightarrow> rd_node rel' = rd_node rel \<and> rd_encrypt rel' = rd_encrypt rel \<and>
    take (length (rd_blocks rel)) (rd_blocks rel') = rd_blocks rel"

lemma grown_refl [simp]: "grown rel rel"
  by (simp add: grown_def)

lemma grown_length: "grown rel rel' \<Longrightarrow> length (rd_blocks rel) \<le> length (rd_blocks rel')"
  unfolding grown_def by (metis length_take min.cobounded1)

lemma grown_trans [trans]: "grown a b \<Longrightarrow> grown b c \<Longrightarrow> grown a c"
  using grown_length [of a b] unfolding grown_def by (metis min.absorb1 take_take)

lemma read_new:
  assumes "rel_ok rel" "bi_ok rel bi" "rel1 = rel\<lparr>rd_blocks := rd_blocks rel @ [zeroed_page]\<rparr>"
  obtains (full) "ReadBufferBI rel P_NEW bi = Inl (Ereport ERROR ERRCODE_PROGRAM_LIMIT_EXCEEDED)" "length (rd_blocks rel) = InvalidBlockNumber"
  | (new) bi' where "ReadBufferBI rel P_NEW bi = Inr (length (rd_blocks rel), rel1, bi')"
      "length (rd_blocks rel) < InvalidBlockNumber" "bi_ok rel1 bi'"
proof (cases "length (rd_blocks rel) = InvalidBlockNumber")
  case True
  then show ?thesis using assms
    by (intro full) (auto simp: ReadBufferBI_def ReadBuffer_def P_NEW_def bi_ok_def split: option.split)
next
  case False
  then have lt: "length (rd_blocks rel) < InvalidBlockNumber" using assms(1) by (simp add: rel_ok_def)
  then have "\<exists>bi'. bi_ok rel1 bi' \<and> ReadBufferBI rel P_NEW bi = Inr (length (rd_blocks rel), rel1, bi')"
    using assms by (cases bi) (auto simp: ReadBufferBI_def ReadBuffer_def P_NEW_def bi_ok_def)
  then show ?thesis using new lt by blast
qed

lemma new_page_ok:
  assumes "rel_ok rel" "length (rd_blocks rel) < InvalidBlockNumber" "heap_page_ok q" "fork_ok fsm"
  shows "rel_ok (rel\<lparr>rd_blocks := rd_blocks rel @ [q], rd_fsm := fsm\<rparr>)"
  using assms by (auto simp: rel_ok_def)

lemma set_new_block: "set_block (rel\<lparr>rd_blocks := rd_blocks rel @ [p]\<rparr>) (length (rd_blocks rel)) q = rel\<lparr>rd_blocks := rd_blocks rel @ [q]\<rparr>"
  by (simp add: set_block_def)

lemma extend_cases:
  assumes "rel_ok rel" "bi_ok rel bi"
  obtains (full) "extend_for_tuple ctx len rel bi = Inl (Ereport ERROR ERRCODE_PROGRAM_LIMIT_EXCEEDED)"
      "length (rd_blocks rel) = InvalidBlockNumber"
  | (too_long) "extend_for_tuple ctx len rel bi = Inl (Ereport PANIC ERRCODE_INTERNAL_ERROR)" "(if rd_encrypt rel then 7940 else 8148) < len"
  | (new) rel' bi' where "extend_for_tuple ctx len rel bi = Inr (length (rd_blocks rel), rel', bi')" "rel_ok rel'" "bi_ok rel' bi'"
      "grown rel rel'" "length (rd_blocks rel) < length (rd_blocks rel')" "usable len (rd_blocks rel' ! length (rd_blocks rel))"
proof -
  let ?n = "length (rd_blocks rel)" and ?q = "init_heap_page (ic_recent_xmin ctx) (rd_encrypt rel)"
  show ?thesis using assms refl
  proof (cases rule: read_new)
    case full
    then show ?thesis by (intro that(1)) (simp_all add: extend_for_tuple_def)
  next
    case (new bi')
    have run: "extend_for_tuple ctx len rel bi =
        (if PageGetHeapFreeSpace ?q < len then Inl (Ereport PANIC ERRCODE_INTERNAL_ERROR)
         else Inr (?n, rel\<lparr>rd_blocks := rd_blocks rel @ [?q], rd_targblock := ?n\<rparr>, bi'))"
      by (simp add: extend_for_tuple_def new(1) PageIsNew_def zeroed_page_def set_block_def)
    show ?thesis
    proof (cases "PageGetHeapFreeSpace ?q < len")
      case True
      then show ?thesis using run by (intro too_long) (simp_all add: init_heap_page_ok)
    next
      case False
      let ?rel' = "rel\<lparr>rd_blocks := rd_blocks rel @ [?q], rd_targblock := ?n\<rparr>"
      have ok: "rel_ok ?rel'" "bi_ok ?rel' bi'"
        using assms(1) new(2,3) init_heap_page_ok(3) by (auto simp: rel_ok_def bi_ok_def)
      have "usable len ?q" unfolding usable_def init_heap_page_ok(2) using False init_heap_page_ok(1) by simp
      then show ?thesis using run False ok by (intro that(3) [of ?rel' bi']) (simp_all add: grown_def)
    qed
  qed
qed

lemma record_returns:
  assumes "fork_ok fsm" "b < 2 ^ 32" shows "\<exists>fsm'. RecordPageWithFreeSpace fsm b avail = Some fsm' \<and> fork_ok fsm'"
  using set_and_search_spec [OF assms(1), of "fst (fsm_get_location b)" "snd (fsm_get_location b)" "fsm_space_avail_to_cat avail" 0 True]
    valid_location [OF assms(2)]
  by (auto simp: RecordPageWithFreeSpace_def split_beta)

lemma add_extra_block_cases:
  assumes "rel_ok rel" "bi_ok rel bi"
  obtains (full) "add_extra_block x rel bi = Inl (Ereport ERROR ERRCODE_PROGRAM_LIMIT_EXCEEDED)" "length (rd_blocks rel) = InvalidBlockNumber"
  | (new) free rel' bi' where "add_extra_block x rel bi = Inr (Some (length (rd_blocks rel), free, rel', bi'))" "rel_ok rel'"
      "bi_ok rel' bi'" "grown rel rel'" "length (rd_blocks rel') = Suc (length (rd_blocks rel))"
proof -
  let ?n = "length (rd_blocks rel)"
  let ?q = "if rd_isindex rel then zeroed_page else init_heap_page x (rd_encrypt rel)"
  let ?free = "if rd_isindex rel then BLCKSZ - 1 else PageGetHeapFreeSpace ?q"
  show ?thesis using assms refl
  proof (cases rule: read_new)
    case full
    then show ?thesis by (intro that(1)) (simp_all add: add_extra_block_def)
  next
    case (new bi')
    obtain fsm where fsm: "RecordPageWithFreeSpace (rd_fsm rel) ?n ?free = Some fsm" "fork_ok fsm"
      using record_returns [of "rd_fsm rel" ?n ?free] assms(1) new(2) by (auto simp: rel_ok_def InvalidBlockNumber_def)
    let ?rel' = "rel\<lparr>rd_blocks := rd_blocks rel @ [?q], rd_fsm := fsm\<rparr>"
    have run: "add_extra_block x rel bi = Inr (Some (?n, ?free, ?rel', bi'))"
      using new(1) fsm(1) by (cases "rd_isindex rel") (simp_all add: add_extra_block_def Let_def set_block_def)
    have "heap_page_ok ?q" using init_heap_page_ok(3) by (simp add: heap_page_ok_def)
    then have "rel_ok ?rel'" "bi_ok ?rel' bi'"
      using new_page_ok [OF assms(1) new(2) _ fsm(2), of ?q] new(3) by (simp_all add: bi_ok_def)
    then show ?thesis using run by (intro that(2) [of ?free ?rel' bi']) (simp_all add: grown_def)
  qed
qed

lemma add_extra_blocks_spec:
  assumes "rel_ok rel" "bi_ok rel bi"
  shows "(\<exists>e. add_extra_blocks n x first blk free rel bi = Inl (Ereport ERROR e) \<and> InvalidBlockNumber < length (rd_blocks rel) + n) \<or>
    (\<exists>free' rel' bi'. add_extra_blocks n x first blk free rel bi =
       Inr (Some (if n > 0 \<and> first = InvalidBlockNumber then length (rd_blocks rel) else first,
                  if n > 0 then length (rd_blocks rel) + n - 1 else blk, free', rel', bi')) \<and>
       rel_ok rel' \<and> bi_ok rel' bi' \<and> grown rel rel' \<and> length (rd_blocks rel') = length (rd_blocks rel) + n)"
  using assms
proof (induction n arbitrary: first blk free rel bi)
  case 0
  then show ?case by simp
next
  case (Suc n)
  show ?case using Suc.prems
  proof (cases rule: add_extra_block_cases [where x = x])
    case full
    then show ?thesis by simp
  next
    case (new free1 rel1 bi1)
    have ne: "length (rd_blocks rel) \<noteq> InvalidBlockNumber" using new(2,5) by (simp add: rel_ok_def)
    have "grown rel rel'" if "grown rel1 rel'" for rel' using grown_trans [OF new(4) that] .
    moreover note Suc.IH [OF new(2,3), of "if first = InvalidBlockNumber then length (rd_blocks rel) else first" "length (rd_blocks rel)" free1]
    ultimately show ?thesis using new(1,5) ne
      by (elim disjE exE conjE) (auto simp: split: if_splits)
  qed
qed

text \<open>\<open>RelationAddExtraBlocks\<close> raises at most an error of level ERROR; when it returns, the relation has only grown.\<close>

lemma add_extra_cases:
  assumes "rel_ok rel" "bi_ok rel bi"
  obtains (error) e where "RelationAddExtraBlocks x rel bi w = Inl (Ereport ERROR e)"
  | (hang) "RelationAddExtraBlocks x rel bi w = Inr None" "last_fsm_page_start \<le> length (rd_blocks rel) + 513"
  | (added) rel' bi' where "RelationAddExtraBlocks x rel bi w = Inr (Some (rel', bi'))" "rel_ok rel'" "bi_ok rel' bi'" "grown rel rel'"
proof (cases "w = 0")
  case True
  then show ?thesis using assms by (intro added [of rel bi]) (simp_all add: RelationAddExtraBlocks_def)
next
  case False
  define n where "n = Suc (CheckRelation rel w)"
  have n: "0 < n" "n \<le> 513" by (auto simp: n_def CheckRelation_def min_def)
  let ?e = "length (rd_blocks rel) + n - 1"
  from add_extra_blocks_spec [OF assms, of n x InvalidBlockNumber InvalidBlockNumber 0]
  consider e where "add_extra_blocks n x InvalidBlockNumber InvalidBlockNumber 0 rel bi = Inl (Ereport ERROR e)"
    | free rel' bi' where "add_extra_blocks n x InvalidBlockNumber InvalidBlockNumber 0 rel bi =
         Inr (Some (length (rd_blocks rel), ?e, free, rel', bi'))" "rel_ok rel'" "bi_ok rel' bi'" "grown rel rel'"
    using n(1) by auto
  then show ?thesis
  proof cases
    case 1
    then show ?thesis using False by (intro error [of e]) (simp add: RelationAddExtraBlocks_def n_def)
  next
    case 2
    have fork: "fork_ok (rd_fsm rel')" using 2(2) by (simp add: rel_ok_def)
    have run: "RelationAddExtraBlocks x rel bi w =
        Inr (map_option (\<lambda>fsm. (rel'\<lparr>rd_fsm := fsm\<rparr>, bi')) (UpdateFreeSpaceMap (rd_fsm rel') (length (rd_blocks rel)) ?e free True))"
      using 2(1) False by (simp add: RelationAddExtraBlocks_def n_def [symmetric])
    show ?thesis
    proof (cases "?e < last_fsm_page_start")
      case True
      then obtain fsm where "UpdateFreeSpaceMap (rd_fsm rel') (length (rd_blocks rel)) ?e free True = Some fsm" "fork_ok fsm"
        using update_loop_returns [OF True fork] unfolding UpdateFreeSpaceMap_def Let_def by blast
      then show ?thesis using run 2 by (intro added [of "rel'\<lparr>rd_fsm := fsm\<rparr>" bi']) (auto simp: rel_ok_def bi_ok_def grown_def)
    next
      case F: False
      have "?e < 2 ^ 32" using 2(2) grown_length [OF 2(4)] assms(1) n(1) add_extra_blocks_spec [OF assms, of n x InvalidBlockNumber InvalidBlockNumber 0] 2(1)
        by (auto simp: rel_ok_def InvalidBlockNumber_def)
      then have "UpdateFreeSpaceMap (rd_fsm rel') (length (rd_blocks rel)) ?e free True = None"
        using update_loop_diverges F n(1) by (cases "UpdateFreeSpaceMap (rd_fsm rel') (length (rd_blocks rel)) ?e free True")
          (force simp: UpdateFreeSpaceMap_def)+
      then show ?thesis using run F n by (intro hang) simp_all
    qed
  qed
qed

subsection \<open>The whole search for a buffer\<close>

text \<open>
  What other backends may do while this one waits: they keep the pages in order and do not
  remove blocks. For termination they also leave the unused slots of the map alone, and
  the relation below the size at which \<open>UpdateFreeSpaceMap\<close> does not return.
\<close>

definition others_ok :: "(RelationData \<Rightarrow> RelationData) \<Rightarrow> bool" where
  "others_ok f \<longleftrightarrow> (\<forall>rel. rel_ok rel \<longrightarrow> rel_ok (f rel) \<and> rd_node (f rel) = rd_node rel \<and> rd_encrypt (f rel) = rd_encrypt rel \<and>
    length (rd_blocks rel) \<le> length (rd_blocks (f rel)))"

definition quiet :: "RelationData \<Rightarrow> bool" where
  "quiet rel \<longleftrightarrow> no_phantom (rd_fsm rel) \<and> length (rd_blocks rel) + 513 < last_fsm_page_start"

definition buffer_post ::
  "nat \<Rightarrow> bool \<Rightarrow> (BlockNumber \<times> RelationData \<times> BulkInsertStateData option) result \<Rightarrow> bool" where
  "buffer_post len encrypted r \<longleftrightarrow>
    (case r of
       Inl (Ereport lvl code) \<Rightarrow> lvl = ERROR \<or> lvl = PANIC \<and> encrypted \<and> 7940 < len
     | Inr (b, rel, bi) \<Rightarrow> rel_ok rel \<and> bi_ok rel bi \<and> b < length (rd_blocks rel) \<and> usable len (rd_blocks rel ! b))"

lemma extend_post:
  assumes "rel_ok rel" "bi_ok rel bi" "len \<le> MaxHeapTupleSize"
  shows "buffer_post len (rd_encrypt rel) (extend_for_tuple ctx len rel bi)"
  using assms(1,2)
proof (cases rule: extend_cases [where ctx = ctx and len = len])
  case too_long
  then show ?thesis using assms(3) by (auto simp: buffer_post_def hio_sizes_all split: if_splits)
qed (auto simp: buffer_post_def)

lemma usable_mono: "usable (len + save) q \<Longrightarrow> usable len q"
  by (simp add: usable_def)

lemma loop_post_found:
  assumes "target_inv ctx ts" "loop_post env (len + save) ts (Inr (Some b, ts'))"
  shows "buffer_post len e (Inr (b, ts_rel ts', ts_bistate ts'))"
proof -
  obtain fsm q where p: "fsm_kept env (rd_fsm (ts_rel ts)) fsm" "b < length (rd_blocks (ts_rel ts))" "usable (len + save) q"
    "bi_ok (ts_rel ts) (ts_bistate ts')"
    "ts_rel ts' = (ts_rel ts)\<lparr>rd_blocks := (rd_blocks (ts_rel ts))[b := q], rd_fsm := fsm, rd_targblock := b\<rparr>"
    using assms(2) by (auto simp: loop_post_def)
  have "heap_page_ok p" if "p \<in> set ((rd_blocks (ts_rel ts))[b := q])" for p
    using that assms(1) usable_heap_page_ok [OF p(3)] set_update_subset_insert [of "rd_blocks (ts_rel ts)" b q]
    by (auto simp: target_inv_def rel_ok_def)
  then have "rel_ok (ts_rel ts')" using p(1,5) assms(1) by (simp add: rel_ok_def target_inv_def fsm_kept_def)
  then show ?thesis using p usable_mono [OF p(3)] by (simp add: buffer_post_def bi_ok_def)
qed

text \<open>After a wait the loop starts again on the changed relation.\<close>

lemma loop_post_none:
  assumes inv: "target_inv ctx ts" and post: "loop_post env wanted ts (Inr (None, ts'))"
  shows "rel_ok (ts_rel ts')" "bi_ok (ts_rel ts') (ts_bistate ts')" "rd_encrypt (ts_rel ts') = rd_encrypt (ts_rel ts)"
    "rd_blocks (ts_rel ts') = rd_blocks (ts_rel ts)" "fsm_kept env (rd_fsm (ts_rel ts)) (rd_fsm (ts_rel ts'))"
  using assms by (auto simp: loop_post_def target_inv_def rel_ok_def bi_ok_def fsm_kept_def)

lemma others_keep:
  assumes "others_ok f" "rel_ok rel" "bi_ok rel bi"
  shows "rel_ok (f rel)" "bi_ok (f rel) bi" "rd_encrypt (f rel) = rd_encrypt rel" "length (rd_blocks rel) \<le> length (rd_blocks (f rel))"
proof -
  have f: "rel_ok (f rel)" "rd_node (f rel) = rd_node rel" "rd_encrypt (f rel) = rd_encrypt rel"
    "length (rd_blocks rel) \<le> length (rd_blocks (f rel))" using assms by (simp_all add: others_ok_def)
  show "rel_ok (f rel)" "rd_encrypt (f rel) = rd_encrypt rel" "length (rd_blocks rel) \<le> length (rd_blocks (f rel))" using f by auto
  show "bi_ok (f rel) bi" using assms(3) f(2,4) by (fastforce simp: bi_ok_def)
qed

lemma wait_cases:
  assumes inv: "target_inv ctx ts" and ts': "rd_blocks (ts_rel ts') = rd_blocks (ts_rel ts)" "rel_ok (ts_rel ts')" "bi_ok (ts_rel ts') (ts_bistate ts')"
    and f: "others_ok f" and env: "env_ok (ic_env ctx)" and len: "len \<le> MaxHeapTupleSize"
  obtains (finish) r where "wait_for_extension ctx len save w f ts' = Finish (Some r)" "buffer_post len (rd_encrypt (ts_rel ts')) r"
  | (hang) "wait_for_extension ctx len save w f ts' = Finish None" "last_fsm_page_start \<le> length (rd_blocks (f (ts_rel ts'))) + 513"
  | (retry) t fsm where "wait_for_extension ctx len save w f ts' = Retry (ts'\<lparr>ts_rel := (f (ts_rel ts'))\<lparr>rd_fsm := fsm\<rparr>, ts_target := t\<rparr>)"
      "fsm_kept (ic_env ctx) (rd_fsm (f (ts_rel ts'))) fsm"
      "target_inv ctx (ts'\<lparr>ts_rel := (f (ts_rel ts'))\<lparr>rd_fsm := fsm\<rparr>, ts_target := t\<rparr>)"
proof -
  let ?rel = "f (ts_rel ts')" and ?wanted = "len + save + ts_extralen ts'"
  note g = others_keep [OF f ts'(2,3)]
  consider (direct) "rd_islocal (ts_rel ts') \<or> \<not> ts_use_fsm ts'"
    | (big) "\<not> rd_islocal (ts_rel ts')" "ts_use_fsm ts'" "MaxFSMRequestSize < ?wanted"
    | (ask) t fsm where "\<not> rd_islocal (ts_rel ts')" "ts_use_fsm ts'" "fsm_kept (ic_env ctx) (rd_fsm ?rel) fsm"
        "GetPageWithFreeSpace (ic_env ctx) (rd_fsm ?rel) ?wanted = Inr (Some (t, fsm))"
    using get_page_returns [OF _ env, of "rd_fsm ?rel" ?wanted] g(1) by (auto simp: rel_ok_def split: if_splits)
  then show ?thesis
  proof cases
    case direct
    then show ?thesis using extend_post [OF ts'(2,3) len, of ctx] extend_post [OF g(1,2) len, of ctx] g(3)
      by (cases "rd_islocal (ts_rel ts')") (auto simp: wait_for_extension_def intro: finish)
  next
    case big
    then have "GetPageWithFreeSpace (ic_env ctx) (rd_fsm ?rel) ?wanted = Inl (Ereport ERROR ERRCODE_DATATYPE_MISMATCH)"
      using get_page_returns [OF _ env, of "rd_fsm ?rel" ?wanted] g(1) by (simp add: rel_ok_def)
    then show ?thesis using big by (intro finish) (auto simp: wait_for_extension_def buffer_post_def)
  next
    case ask
    let ?rel' = "?rel\<lparr>rd_fsm := fsm\<rparr>"
    have ok: "rel_ok ?rel'" "bi_ok ?rel' (ts_bistate ts')" using g(1,2) ask(3) by (simp_all add: rel_ok_def bi_ok_def fsm_kept_def)
    show ?thesis
    proof (cases "t = InvalidBlockNumber")
      case False
      have "target_inv ctx (ts'\<lparr>ts_rel := ?rel', ts_target := t\<rparr>)"
        using inv ts'(1) ok g(4) by (auto simp: target_inv_def intro: less_le_trans)
      then show ?thesis using ask False by (intro retry [of t fsm]) (simp_all add: wait_for_extension_def)
    next
      case True
      let ?add = "RelationAddExtraBlocks (ic_recent_xmin ctx) ?rel' (ts_bistate ts') w"
      have run: "wait_for_extension ctx len save w f ts' =
          Finish (case ?add of Inl e \<Rightarrow> Some (Inl e) | Inr None \<Rightarrow> None
            | Inr (Some (rel, bistate)) \<Rightarrow> Some (extend_for_tuple ctx len rel bistate))"
        using ask True by (simp add: wait_for_extension_def)
      show ?thesis using ok
      proof (cases rule: add_extra_cases [where x = "ic_recent_xmin ctx" and w = w])
        case (error e)
        then show ?thesis using run by (intro finish [of "Inl (Ereport ERROR e)"]) (simp_all add: buffer_post_def)
      next
        case hang
        then show ?thesis using run by (intro that(2)) simp_all
      next
        case (added rel2 bi2)
        have "rd_encrypt rel2 = rd_encrypt (ts_rel ts')" using added(4) g(3) by (simp add: grown_def)
        then show ?thesis using run added(1) extend_post [OF added(2,3) len, of ctx] by (intro finish) simp_all
      qed
    qed
  qed
qed

text \<open>The cases of \<open>get_buffer\<close>, from those of the loop.\<close>

lemma get_buffer_none: "target_loop ctx len save ts = Some (Inr (None, ts')) \<Longrightarrow> get_buffer ctx len save waits ts =
    (case waits of [] \<Rightarrow> Some (extend_for_tuple ctx len (ts_rel ts') (ts_bistate ts'))
     | (w, f) # waits \<Rightarrow> (case wait_for_extension ctx len save w f ts' of Finish r \<Rightarrow> r | Retry ts \<Rightarrow> get_buffer ctx len save waits ts))"
  by (subst get_buffer.simps) simp

lemma get_buffer_end:
  "target_loop ctx len save ts = None \<Longrightarrow> get_buffer ctx len save waits ts = None"
  "target_loop ctx len save ts = Some (Inl e) \<Longrightarrow> get_buffer ctx len save waits ts = Some (Inl e)"
  "target_loop ctx len save ts = Some (Inr (Some b, ts')) \<Longrightarrow> get_buffer ctx len save waits ts = Some (Inr (b, ts_rel ts', ts_bistate ts'))"
  by (subst get_buffer.simps, simp)+

lemma get_buffer_cases:
  assumes l: "target_loop ctx len save ts = Some l" and inv: "target_inv ctx ts" and env: "env_ok (ic_env ctx)" and len: "0 < len"
  obtains (result) r where "\<And>waits. get_buffer ctx len save waits ts = Some r" "\<And>e. buffer_post len e r"
  | (none) ts' where "target_loop ctx len save ts = Some (Inr (None, ts'))" "rel_ok (ts_rel ts')" "bi_ok (ts_rel ts') (ts_bistate ts')"
      "rd_encrypt (ts_rel ts') = rd_encrypt (ts_rel ts)" "rd_blocks (ts_rel ts') = rd_blocks (ts_rel ts)"
      "fsm_kept (ic_env ctx) (rd_fsm (ts_rel ts)) (rd_fsm (ts_rel ts'))"
proof -
  note post = target_loop_safe [OF l inv env len]
  consider e where "l = Inl e" | ts' where "l = Inr (None, ts')" | b ts' where "l = Inr (Some b, ts')"
    by (metis not_None_eq obj_sumE surj_pair)
  then show ?thesis
  proof cases
    case (1 e)
    then show ?thesis using l post get_buffer_end(2) by (intro result [of "Inl e"]) (auto simp: loop_post_def buffer_post_def)
  next
    case (2 ts')
    show ?thesis using none [of ts'] l loop_post_none [OF inv post [unfolded 2]] 2 by simp
  next
    case (3 b ts')
    show ?thesis using loop_post_found [OF inv post [unfolded 3]] l get_buffer_end(3) 3 by (intro result) auto
  qed
qed

lemma get_buffer_safe:
  assumes "get_buffer ctx len save waits ts = Some r" "target_inv ctx ts" "\<forall>w \<in> set waits. others_ok (snd w)"
    and "env_ok (ic_env ctx)" "0 < len" "len \<le> MaxHeapTupleSize"
  shows "buffer_post len (rd_encrypt (ts_rel ts)) r"
  using assms(1-3)
proof (induction waits arbitrary: ts)
  case Nil
  then obtain l where l: "target_loop ctx len save ts = Some l" using get_buffer_end(1) by fastforce
  show ?case using l Nil(2) assms(4,5)
  proof (cases rule: get_buffer_cases)
    case (result r')
    then show ?thesis using Nil(1) by simp
  next
    case (none ts')
    then show ?thesis using Nil(1) extend_post [OF none(2,3) assms(6), of ctx] by (simp add: get_buffer_none)
  qed
next
  case (Cons wf waits)
  then obtain l where l: "target_loop ctx len save ts = Some l" using get_buffer_end(1) by fastforce
  obtain w f where wf: "wf = (w, f)" by fastforce
  show ?case using l Cons(3) assms(4,5)
  proof (cases rule: get_buffer_cases)
    case (result r')
    then show ?thesis using Cons(2) by simp
  next
    case (none ts')
    have f: "others_ok f" using Cons(4) wf by simp
    show ?thesis using Cons(3) none(5,2,3) f assms(4,6)
    proof (cases rule: wait_cases [where save = save and w = w])
      case (finish r')
      then show ?thesis using Cons(2) none by (simp add: get_buffer_none wf)
    next
      case hang
      then show ?thesis using Cons(2) none by (simp add: get_buffer_none wf)
    next
      case (retry t fsm)
      have "rd_encrypt (f (ts_rel ts')) = rd_encrypt (ts_rel ts)" using others_keep(3) [OF f none(2,3)] none(4) by simp
      then show ?thesis using Cons.IH [OF _ retry(3)] Cons(2,4) none(1) retry(1) by (simp add: get_buffer_none wf)
    qed
  qed
qed

definition others_quiet :: "(RelationData \<Rightarrow> RelationData) \<Rightarrow> bool" where
  "others_quiet f \<longleftrightarrow> others_ok f \<and> (\<forall>rel. quiet rel \<longrightarrow> quiet (f rel))"

lemma get_buffer_returns:
  assumes "target_inv ctx ts" "quiet (ts_rel ts)" "\<forall>w \<in> set waits. others_quiet (snd w)"
    and "ic_env ctx = id" "0 < len" "len \<le> MaxHeapTupleSize"
  shows "\<exists>r. get_buffer ctx len save waits ts = Some r"
  using assms(1-3)
proof (induction waits arbitrary: ts)
  case Nil
  obtain l where l: "target_loop ctx len save ts = Some l"
    using target_loop_returns [OF Nil(1) _ assms(4,5)] Nil(2) by (auto simp: quiet_def)
  have env: "env_ok (ic_env ctx)" using assms(4) by simp
  show ?case using l Nil(1) env assms(5)
  proof (cases rule: get_buffer_cases)
    case (none ts')
    then show ?thesis by (simp add: get_buffer_none)
  qed auto
next
  case (Cons wf waits)
  obtain l where l: "target_loop ctx len save ts = Some l"
    using target_loop_returns [OF Cons(2) _ assms(4,5)] Cons(3) by (auto simp: quiet_def)
  obtain w f where wf: "wf = (w, f)" by fastforce
  have env: "env_ok (ic_env ctx)" using assms(4) by simp
  show ?case using l Cons(2) env assms(5)
  proof (cases rule: get_buffer_cases)
    case (none ts')
    have f: "others_ok f" "others_quiet f" using Cons(4) wf by (simp_all add: others_quiet_def)
    have q: "quiet (ts_rel ts')" using Cons(3) none(5,6) assms(4) by (simp add: quiet_def fsm_kept_def)
    then have qf: "quiet (f (ts_rel ts'))" using f(2) by (simp add: others_quiet_def)
    show ?thesis using Cons(2) none(5,2,3) f(1) env assms(6)
    proof (cases rule: wait_cases [where save = save and w = w])
      case (finish r')
      then show ?thesis using none by (simp add: get_buffer_none wf)
    next
      case hang
      then show ?thesis using qf by (simp add: quiet_def)
    next
      case (retry t fsm)
      have "quiet ((f (ts_rel ts'))\<lparr>rd_fsm := fsm\<rparr>)" using qf retry(2) assms(4) by (simp add: quiet_def fsm_kept_def)
      then have "\<exists>r. get_buffer ctx len save waits (ts'\<lparr>ts_rel := (f (ts_rel ts'))\<lparr>rd_fsm := fsm\<rparr>, ts_target := t\<rparr>) = Some r"
        using Cons.IH [OF retry(3)] Cons(4) by simp
      then show ?thesis using none(1) retry(1) by (simp add: get_buffer_none wf)
    qed
  qed auto
qed

lemma choose_target_spec:
  assumes "rel_ok rel" "env_ok env"
  shows "\<exists>t u fsm. choose_target env rel bi wanted use_fsm endb = Inr (Some (t, u, rel\<lparr>rd_fsm := fsm\<rparr>)) \<and> fsm_kept env (rd_fsm rel) fsm"
proof -
  have fork: "fork_ok (rd_fsm rel)" using assms(1) by (simp add: rel_ok_def)
  obtain t0 u where first: "(if wanted > MaxHeapTupleSize then (InvalidBlockNumber, False)
      else case bi of Some bi \<Rightarrow> (case current_buf bi of Some (node, blk) \<Rightarrow> (blk, use_fsm) | None \<Rightarrow> (rd_targblock rel, use_fsm))
           | None \<Rightarrow> (rd_targblock rel, use_fsm)) = (t0, u)" by fastforce
  have fits: "wanted \<le> MaxHeapTupleSize" if u using first that by (auto split: if_splits)
  show ?thesis
  proof (cases "t0 = InvalidBlockNumber \<and> u")
    case True
    then have "\<not> MaxFSMRequestSize < wanted" using fits by (simp add: hio_sizes_all cat_sizes)
    then obtain blk fsm where "GetPageWithFreeSpace env (rd_fsm rel) wanted = Inr (Some (blk, fsm))" "fsm_kept env (rd_fsm rel) fsm"
      using get_page_returns [OF fork assms(2), of wanted] by auto
    then show ?thesis using True unfolding choose_target_def first by (auto simp: Let_def)
  next
    case False
    then show ?thesis unfolding choose_target_def first
      by (auto simp: Let_def fsm_kept_refl [OF fork] intro!: exI [of _ "rd_fsm rel"])
  qed
qed

lemma release_ok: "bi_ok rel bi \<Longrightarrow> bi_ok (rel\<lparr>rd_fsm := fsm\<rparr>) (release_foreign_buffer rel bi)"
  by (auto simp: release_foreign_buffer_def bi_ok_def split: option.splits)

lemma for_tuple_start:
  assumes "rel_ok rel" "bi_ok rel bi" "\<forall>b. ic_other_block ctx = Some b \<longrightarrow> b < length (rd_blocks rel)" "env_ok (ic_env ctx)"
    and len: "MAXALIGN len \<le> MaxHeapTupleSize"
  obtains ts where "\<And>waits. RelationGetBufferForTuple ctx waits rel len skip bi endb =
      get_buffer ctx (MAXALIGN len) (RelationGetTargetPageFreeSpace rel) waits ts"
    "target_inv ctx ts" "rd_encrypt (ts_rel ts) = rd_encrypt rel" "rd_blocks (ts_rel ts) = rd_blocks rel"
    "fsm_kept (ic_env ctx) (rd_fsm rel) (rd_fsm (ts_rel ts))"
proof -
  let ?bi = "release_foreign_buffer rel bi" and ?save = "RelationGetTargetPageFreeSpace rel"
  obtain t u fsm where c: "choose_target (ic_env ctx) rel ?bi (MAXALIGN len + ?save) (\<not> skip) endb = Inr (Some (t, u, rel\<lparr>rd_fsm := fsm\<rparr>))"
    "fsm_kept (ic_env ctx) (rd_fsm rel) fsm"
    using choose_target_spec [OF assms(1,4)] by blast
  let ?ts = "\<lparr>ts_rel = rel\<lparr>rd_fsm := fsm\<rparr>, ts_bistate = ?bi, ts_use_fsm = u, ts_extralen = 0, ts_target = t\<rparr>"
  have "RelationGetBufferForTuple ctx waits rel len skip bi endb = get_buffer ctx (MAXALIGN len) ?save waits ?ts" for waits
    using len c(1) by (simp add: RelationGetBufferForTuple_def heap_tuple_len_verifier_def Let_def)
  moreover have "target_inv ctx ?ts"
    using assms(1,3) c(2) release_ok [OF assms(2)] by (simp add: target_inv_def rel_ok_def fsm_kept_def)
  ultimately show ?thesis using that [of ?ts] c(2) by simp
qed

lemma tuple_too_long:
  "MaxHeapTupleSize < MAXALIGN len \<Longrightarrow> RelationGetBufferForTuple ctx waits rel len skip bi endb =
    Some (Inl (Ereport ERROR ERRCODE_PROGRAM_LIMIT_EXCEEDED))"
  by (simp add: RelationGetBufferForTuple_def heap_tuple_len_verifier_def)

text \<open>A search that never waits leaves the items of every page as they are.\<close>

lemma get_buffer_alone:
  assumes run: "get_buffer ctx len save [] ts = Some (Inr (b, rel', bi'))" and inv: "target_inv ctx ts" "env_ok (ic_env ctx)" "0 < len"
    and i: "i < length (rd_blocks (ts_rel ts))"
  shows "page_items (rd_blocks rel' ! i) = page_items (rd_blocks (ts_rel ts) ! i)"
proof -
  obtain l where l: "target_loop ctx len save ts = Some l" using run get_buffer_end(1) by fastforce
  note post = target_loop_safe [OF l inv]
  consider e where "l = Inl e" | ts' where "l = Inr (None, ts')" | c ts' where "l = Inr (Some c, ts')"
    by (metis not_None_eq obj_sumE surj_pair)
  then show ?thesis
  proof cases
    case (1 e)
    then show ?thesis using l run get_buffer_end(2) by fastforce
  next
    case (2 ts')
    note p = loop_post_none [OF inv(1) post [unfolded 2]]
    have "extend_for_tuple ctx len (ts_rel ts') (ts_bistate ts') = Inr (b, rel', bi')" using run l 2 by (simp add: get_buffer_none)
    then have "grown (ts_rel ts') rel'" by (cases rule: extend_cases [OF p(1,2), where ctx = ctx and len = len]) auto
    then show ?thesis using i p(4) unfolding grown_def by (metis nth_take)
  next
    case (3 c ts')
    then show ?thesis using run l post get_buffer_end(3) [of ctx len save ts c ts' "[]"] i
      by (auto simp: loop_post_def nth_list_update)
  qed
qed

subsection \<open>The stored tuple\<close>

lemma length_ItemPointer_bytes [simp]: "length (ItemPointer_bytes e tid) = 6"
  by (simp add: ItemPointer_bytes_def half_bytes_def split: prod.split byte_order.split)

lemma length_overwrite_at [simp]: "i + length new \<le> length xs \<Longrightarrow> length (overwrite_at i new xs) = length xs"
  by (simp add: overwrite_at_def)

lemma nth_overwrite_at:
  "i + length new \<le> length xs \<Longrightarrow> k < length xs \<Longrightarrow>
    overwrite_at i new xs ! k = (if i \<le> k \<and> k < i + length new then new ! (k - i) else xs ! k)"
  by (auto simp: overwrite_at_def nth_append)

text \<open>The transaction ids that can be stored on a page with the given base.\<close>

definition xid_in_range :: "uint64 \<Rightarrow> uint64 \<Rightarrow> bool" where
  "xid_in_range base xid \<longleftrightarrow> xid < FirstNormalTransactionId \<or>
    (unat base + unat FirstNormalTransactionId \<le> unat xid \<and> unat xid \<le> unat base + unat MaxShortTransactionId)"

lemma short_xid_roundtrip:
  assumes "xid_in_range base xid"
  shows "ShortTransactionIdToNormal base (NormalTransactionIdToShort base xid) = xid"
proof (cases "xid < FirstNormalTransactionId")
  case True
  then have "unat xid < 3" by (simp add: FirstNormalTransactionId_def word_less_nat_alt)
  then have "ucast (ucast xid :: uint32) = xid" by (intro word_unat_eq_iff [THEN iffD2]) (simp add: unsigned_ucast_eq unsigned_take_bit_eq take_bit_nat_eq_self)
  moreover have "\<not> FirstNormalTransactionId \<le> xid" using True by (simp add: not_le)
  ultimately show ?thesis by (simp add: ShortTransactionIdToNormal_def NormalTransactionIdToShort_def)
next
  case False
  then have r: "unat base + 3 \<le> unat xid" "unat xid \<le> unat base + 4294967295"
    using assms by (simp_all add: xid_in_range_def FirstNormalTransactionId_def MaxShortTransactionId_def)
  then have d: "unat (xid - base) = unat xid - unat base" by (intro unat_sub) (simp add: word_le_nat_alt)
  have u: "ucast (ucast (xid - base) :: uint32) = xid - base"
    using d r by (intro word_unat_eq_iff [THEN iffD2]) (simp add: unsigned_ucast_eq unsigned_take_bit_eq take_bit_nat_eq_self)
  have "FirstNormalTransactionId \<le> xid - base" using d r by (simp add: FirstNormalTransactionId_def word_le_nat_alt)
  then show ?thesis using False u by (simp add: ShortTransactionIdToNormal_def NormalTransactionIdToShort_def not_less)
qed

lemma fetch_word_cong: "(\<And>k. k < 4 \<Longrightarrow> xs ! k = ys ! k) \<Longrightarrow> fetch_word e xs 0 = fetch_word e ys 0"
  by (simp add: fetch_word_def byte_at_def split: byte_order.split)

lemma fetch_word_overwritten:
  assumes "4 \<le> i" and "i + length bs \<le> length xs"
  shows "fetch_word order (overwrite_at i bs (overwrite_at 0 (word_bytes order w) xs)) 0 = w"
proof -
  have "overwrite_at i bs (overwrite_at 0 (word_bytes order w) xs) ! k = word_bytes order w ! k" if "k < 4" for k
    using that assms by (simp add: overwrite_at_def nth_append)
  from fetch_word_cong [OF this] show ?thesis by (simp add: fetch_word_word_bytes)
qed

lemma choose_offset_header:
  "choose_offset p off ow limit = Some (r, shuffle, p1) \<Longrightarrow>
    pd_pagesize_version p1 = pd_pagesize_version p \<and> pd_xid_base p1 = pd_xid_base p"
  by (auto simp: choose_offset_def Let_def PageClearHasFreeLinePointers_def split: if_splits)

lemma PageAddItem_header:
  assumes "PageAddItem p item off ow heap = (r, p')"
  shows "pd_pagesize_version p' = pd_pagesize_version p \<and> pd_xid_base p' = pd_xid_base p"
proof (cases "choose_offset p off ow (Suc (PageGetMaxOffsetNumber p))")
  case None
  then show ?thesis using assms by (auto simp: PageAddItem_def Let_def split: if_splits)
next
  case (Some c)
  then show ?thesis using assms
    by (cases c) (auto simp: PageAddItem_def Let_def dest!: choose_offset_header split: if_splits)
qed

text \<open>Writing within the storage of one item changes the bytes of that item only.\<close>

lemma write_within_item:
  assumes ok: "page_ok p" and r: "k < PageGetMaxOffsetNumber p" and within: "i + length bs \<le> lp_len (pd_linp p k)" "bs \<noteq> []"
    and q: "q = p\<lparr>pd_mem := memcpy (lp_off (pd_linp p k) + i) bs (pd_mem p)\<rparr>"
  shows "page_ok q" and "page_items q = (page_items p)[k := (lp_flags (pd_linp p k), 0, overwrite_at i bs (lp_bytes p (pd_linp p k)))]"
proof -
  have lay: "GetPageHeaderSize q = GetPageHeaderSize p" "PageGetMaxOffsetNumber q = PageGetMaxOffsetNumber p"
    using layout_cong [of q p] by (simp_all add: q)
  have "pd_linp q = pd_linp p" by (simp add: q)
  show "page_ok q" using ok unfolding page_ok_def lay(2) by (simp add: q header_ok_def corrupted_pointers_def lay(1) [unfolded q] lp_ok_def)
  let ?lp = "pd_linp p k"
  have st: "ItemIdHasStorage ?lp" using within by (cases bs) (auto simp: ItemIdHasStorage_def)
  have own: "lp_item q ?lp = (lp_flags ?lp, 0, overwrite_at i bs (lp_bytes p ?lp))"
  proof -
    have "lp_bytes q ?lp = overwrite_at i bs (lp_bytes p ?lp)"
      using within by (intro nth_equalityI) (auto simp: nth_overwrite_at lp_bytes_def q memcpy_def)
    then show ?thesis using st by (simp add: lp_item_def)
  qed
  have other: "lp_item q (pd_linp p j) = lp_item p (pd_linp p j)" if j: "j < PageGetMaxOffsetNumber p" "j \<noteq> k" for j
  proof (cases "ItemIdHasStorage (pd_linp p j)")
    case True
    have "lp_apart (pd_linp p j) ?lp" using ok j r by (simp add: page_ok_def)
    then have "lp_end (pd_linp p j) \<le> lp_off ?lp \<or> lp_end ?lp \<le> lp_off (pd_linp p j)" using True st by (simp add: lp_apart_def)
    then have "lp_off (pd_linp p j) + lp_len (pd_linp p j) \<le> lp_off ?lp + i \<or>
        lp_off ?lp + i + length bs \<le> lp_off (pd_linp p j)"
      using within(1) MAXALIGN_ge [of "lp_len (pd_linp p j)"] MAXALIGN_ge [of "lp_len ?lp"] unfolding lp_end_def by linarith
    then have "lp_bytes q (pd_linp p j) = lp_bytes p (pd_linp p j)" by (auto simp: lp_bytes_def q memcpy_def)
    then show ?thesis by (simp add: lp_item_def)
  next
    case False
    then show ?thesis by (simp add: lp_item_def lp_bytes_def ItemIdHasStorage_def)
  qed
  show "page_items q = (page_items p)[k := (lp_flags ?lp, 0, overwrite_at i bs (lp_bytes p ?lp))]"
    using own other r \<open>pd_linp q = pd_linp p\<close> by (intro nth_equalityI) (auto simp: nth_page_items lay nth_list_update)
qed

lemma add_entry_simps:
  assumes "0 < r" "r \<le> Suc (length xs)"
  shows "r - 1 < length (add_entry xs r False e)" "add_entry xs r False e ! (r - 1) = e"
    "(add_entry xs r False e)[r - 1 := e'] = add_entry xs r False e'"
    "length (add_entry xs r False e) = (if r = Suc (length xs) then r else length xs)"
  using assms by (auto simp: add_entry_def nth_append list_update_append)

lemma put_heap_tuple:
  assumes rel: "rel_ok rel" "blk < length (rd_blocks rel)" and use: "usable (MAXALIGN (length (t_data tuple))) (rd_blocks rel ! blk)"
    and len: "18 \<le> length (t_data tuple)"
    and xmin: "data = overwrite_at 0 (word_bytes order (NormalTransactionIdToShort
      (HeapTupleCopyBaseFromPage (rd_blocks rel ! blk)) xid)) (t_data tuple)"
  shows "\<exists>off rel'. RelationPutHeapTuple order rel blk tuple xid = Inr (\<lparr>t_self = (blk, off), t_data = data\<rparr>, rel') \<and>
    rel_ok rel' \<and> length (rd_blocks rel') = length (rd_blocks rel) \<and>
    page_items (rd_blocks rel' ! blk) = add_entry (page_items (rd_blocks rel ! blk)) off False
      (LP_NORMAL, 0, overwrite_at 12 (ItemPointer_bytes order (blk, off)) data) \<and>
    (\<forall>b. b \<noteq> blk \<longrightarrow> rd_blocks rel' ! b = rd_blocks rel ! b) \<and>
    HeapTupleCopyBaseFromPage (rd_blocks rel' ! blk) = HeapTupleCopyBaseFromPage (rd_blocks rel ! blk)"
proof -
  let ?p = "rd_blocks rel ! blk"
  have ok: "page_ok ?p" "PageGetMaxOffsetNumber ?p \<le> MaxHeapTuplesPerPage" using use by (simp_all add: usable_def)
  have ldata: "length data = length (t_data tuple)" using len by (simp add: xmin)
  have ne: "data \<noteq> []" using ldata len by auto
  obtain r p' where add: "PageAddItem ?p data 0 False True = (Inr r, p')" "r \<noteq> 0"
    using page_free_space_usable [OF ok(1) ne, of True] use ldata by (auto simp: usable_def)
  have inv: "\<not> OffsetNumberIsValid 0" by (simp add: OffsetNumberIsValid_def InvalidOffsetNumber_def)
  have p': "page_ok p'" "page_items p' = add_entry (page_items ?p) r False (LP_NORMAL, 0, data)"
    "r \<le> Suc (length (page_items ?p))" "r \<le> MaxHeapTuplesPerPage"
    using page_add_item [OF ok(1) ne, of False 0 False True] add inv by auto
  note e = add_entry_simps [of r "page_items ?p" "(LP_NORMAL, 0, data)", OF _ p'(3), folded p'(2)]
  have k: "r - 1 < PageGetMaxOffsetNumber p'" using e(1) add(2) by simp
  have it: "lp_item p' (pd_linp p' (r - 1)) = (LP_NORMAL, 0, data)" using e(2) add(2) k by (simp add: nth_page_items)
  then have lp: "lp_flags (pd_linp p' (r - 1)) = LP_NORMAL" "lp_bytes p' (pd_linp p' (r - 1)) = data"
    by (simp_all add: lp_item_def)
  then have llen: "lp_len (pd_linp p' (r - 1)) = length data" using length_lp_bytes by metis
  define ctid where "ctid = ItemPointer_bytes order (blk, r)"
  define q where "q = p'\<lparr>pd_mem := memcpy (lp_off (pd_linp p' (r - 1)) + 12) ctid (pd_mem p')\<rparr>"
  have "12 + length ctid \<le> lp_len (pd_linp p' (r - 1))" "ctid \<noteq> []" using len ldata llen by (auto simp: ctid_def simp flip: length_0_conv)
  note w = write_within_item [OF p'(1) k this q_def]
  have items: "page_items q = add_entry (page_items ?p) r False (LP_NORMAL, 0, overwrite_at 12 ctid data)"
    using w(2) e(3) add(2) unfolding lp by simp
  have "PageGetMaxOffsetNumber q \<le> MaxHeapTuplesPerPage"
    using arg_cong [OF items, of length] add_entry_simps(4) [of r "page_items ?p"] add(2) p'(3,4) ok(2) by (auto split: if_splits)
  then have hq: "heap_page_ok q" using w(1) by (simp add: heap_page_ok_def)
  have run: "RelationPutHeapTuple order rel blk tuple xid =
      Inr (tuple\<lparr>t_data := data, t_self := (blk, r)\<rparr>, rel\<lparr>rd_blocks := (rd_blocks rel)[blk := q]\<rparr>)"
    using add by (simp add: RelationPutHeapTuple_def Let_def xmin [unfolded HeapTupleCopyBaseFromPage_def, symmetric] InvalidOffsetNumber_def PageGetItemId_def set_block_def q_def ctid_def)
  have "rel_ok (rel\<lparr>rd_blocks := (rd_blocks rel)[blk := q]\<rparr>)"
    using rel(1) hq set_update_subset_insert [of "rd_blocks rel" blk q] by (auto simp: rel_ok_def)
  moreover have "HeapTupleCopyBaseFromPage q = HeapTupleCopyBaseFromPage ?p"
    using PageAddItem_header [OF add(1)]
    by (simp add: q_def HeapTupleCopyBaseFromPage_def PageIs8BXidHeapVersion_def PageGetPageLayoutVersion_def)
  ultimately show ?thesis using run items rel(2) by (intro exI [of _ r] exI) (auto simp: ctid_def)
qed

text \<open>The stored bytes: the transaction id can be read back if it is in the range of the page.\<close>

lemma put_heap_tuple_stored:
  assumes rel: "rel_ok rel" "blk < length (rd_blocks rel)" and use: "usable (MAXALIGN (length (t_data tuple))) (rd_blocks rel ! blk)"
    and len: "18 \<le> length (t_data tuple)"
  shows "\<exists>off data rel' item. RelationPutHeapTuple order rel blk tuple xid = Inr (\<lparr>t_self = (blk, off), t_data = data\<rparr>, rel') \<and>
    rel_ok rel' \<and> item = overwrite_at 12 (ItemPointer_bytes order (blk, off)) data \<and> drop 4 data = drop 4 (t_data tuple) \<and>
    page_items (rd_blocks rel' ! blk) = add_entry (page_items (rd_blocks rel ! blk)) off False (LP_NORMAL, 0, item) \<and>
    (xid_in_range (HeapTupleCopyBaseFromPage (rd_blocks rel ! blk)) xid \<longrightarrow>
      HeapTupleGetRawXmin order (rd_blocks rel' ! blk) item = xid) \<and>
    (\<forall>b. b \<noteq> blk \<longrightarrow> rd_blocks rel' ! b = rd_blocks rel ! b)"
proof -
  let ?base = "HeapTupleCopyBaseFromPage (rd_blocks rel ! blk)"
  let ?w = "NormalTransactionIdToShort ?base xid"
  define data where "data = overwrite_at 0 (word_bytes order ?w) (t_data tuple)"
  obtain off rel' where put: "RelationPutHeapTuple order rel blk tuple xid = Inr (\<lparr>t_self = (blk, off), t_data = data\<rparr>, rel')"
    "rel_ok rel'" "page_items (rd_blocks rel' ! blk) = add_entry (page_items (rd_blocks rel ! blk)) off False
      (LP_NORMAL, 0, overwrite_at 12 (ItemPointer_bytes order (blk, off)) data)"
    "\<forall>b. b \<noteq> blk \<longrightarrow> rd_blocks rel' ! b = rd_blocks rel ! b" "HeapTupleCopyBaseFromPage (rd_blocks rel' ! blk) = ?base"
    using put_heap_tuple [OF rel use len data_def] by blast
  have "fetch_word order (overwrite_at 12 (ItemPointer_bytes order (blk, off)) data) 0 = ?w"
    unfolding data_def using len by (intro fetch_word_overwritten) simp_all
  then have "HeapTupleGetRawXmin order (rd_blocks rel' ! blk) (overwrite_at 12 (ItemPointer_bytes order (blk, off)) data) = xid"
    if "xid_in_range ?base xid"
    using short_xid_roundtrip [OF that] put(5) by (simp add: HeapTupleGetRawXmin_def)
  moreover have "drop 4 data = drop 4 (t_data tuple)" by (simp add: data_def overwrite_at_def)
  ultimately show ?thesis using put by blast
qed

subsection \<open>Sample states\<close>

text \<open>A relation with no pages.\<close>

definition sample_rel :: "bool \<Rightarrow> RelationData" where
  "sample_rel encrypted = \<lparr>rd_node = 1, rd_fillfactor = None, rd_isindex = False, rd_isbucket = False, rd_islocal = False,
    rd_encrypt = encrypted, rd_blocks = [], rd_fsm = \<lparr>smgr_fsm_nblocks = None, fsm_exists = False, fsm_blocks = []\<rparr>,
    rd_targblock = InvalidBlockNumber\<rparr>"

definition sample_ctx :: insert_context where
  "sample_ctx = \<lparr>ic_env = id, ic_xid = 100, ic_recent_xmin = 90, ic_other_block = None, ic_recptr = None\<rparr>"

lemma sample_rel_ok: "rel_ok (sample_rel e)" "bi_ok rel None" "no_phantom (rd_fsm (sample_rel e))"
  by (simp_all add: sample_rel_def rel_ok_def fork_ok_def bi_ok_def no_phantom_def recorded_def has_page_def)

lemma extend_too_long:
  assumes "rel_ok rel" "bi_ok rel bi" "length (rd_blocks rel) < InvalidBlockNumber" "(if rd_encrypt rel then 7940 else 8148) < len"
  shows "extend_for_tuple ctx len rel bi = Inl (Ereport PANIC ERRCODE_INTERNAL_ERROR)"
  using assms(1,2) refl
proof (cases rule: read_new)
  case full
  then show ?thesis using assms(3) by simp
next
  case (new bi')
  then show ?thesis using assms(4)
    by (auto simp: extend_for_tuple_def PageIsNew_def zeroed_page_def set_block_def init_heap_page_ok split: if_splits)
qed

text \<open>Without a cached target and without the map, the relation is extended at once.\<close>

lemma skip_fsm_extends:
  assumes "rd_targblock rel = InvalidBlockNumber" "MAXALIGN len \<le> MaxHeapTupleSize"
  shows "RelationGetBufferForTuple ctx [] rel len True None endb = Some (extend_for_tuple ctx (MAXALIGN len) rel None)"
proof -
  have "choose_target (ic_env ctx) rel None w False endb = Inr (Some (InvalidBlockNumber, False, rel))" for w
    using assms(1) by (simp add: choose_target_def Let_def)
  then show ?thesis using assms(2)
    by (simp add: RelationGetBufferForTuple_def heap_tuple_len_verifier_def release_foreign_buffer_def Let_def
        get_buffer.simps target_loop.simps target_step_def)
qed

text \<open>The search ends when nobody interferes and the map has no entry that can never be corrected.\<close>

lemma get_buffer_for_tuple_returns:
  assumes "rel_ok rel" and "bi_ok rel bi" and "\<forall>b. ic_other_block ctx = Some b \<longrightarrow> b < length (rd_blocks rel)"
    and "ic_env ctx = id" and "quiet rel" and "\<forall>w \<in> set waits. others_quiet (snd w)" and "0 < len"
  shows "\<exists>r. RelationGetBufferForTuple ctx waits rel len skip bi endb = Some r"
proof (cases "MAXALIGN len \<le> MaxHeapTupleSize")
  case False
  then show ?thesis using tuple_too_long by simp
next
  case fits: True
  have pos: "0 < MAXALIGN len" using assms(7) MAXALIGN_ge [of len] by linarith
  have env: "env_ok (ic_env ctx)" using assms(4) by simp
  obtain ts where ts: "RelationGetBufferForTuple ctx waits rel len skip bi endb =
      get_buffer ctx (MAXALIGN len) (RelationGetTargetPageFreeSpace rel) waits ts" "target_inv ctx ts"
    "rd_blocks (ts_rel ts) = rd_blocks rel" "fsm_kept (ic_env ctx) (rd_fsm rel) (rd_fsm (ts_rel ts))"
    using for_tuple_start [OF assms(1-3) env fits] by metis
  have "quiet (ts_rel ts)" using assms(4,5) ts(3,4) by (simp add: quiet_def fsm_kept_def)
  then show ?thesis using get_buffer_returns [OF ts(2) _ assms(6,4) pos fits] ts(1) by simp
qed

lemma get_buffer_then_put:
  assumes "rel_ok rel" and "bi_ok rel bi" and "\<forall>b. ic_other_block ctx = Some b \<longrightarrow> b < length (rd_blocks rel)"
    and "\<forall>p. fsm_wf p \<longrightarrow> fsm_wf (ic_env ctx p)" and "\<forall>w \<in> set waits. others_ok (snd w)" and "0 < len"
    and "RelationGetBufferForTuple ctx waits rel len skip bi endb = Some r"
  shows "case r of
      Inl (Ereport lvl code) \<Rightarrow> lvl = ERROR \<or> lvl = PANIC \<and> rd_encrypt rel \<and> 7940 < MAXALIGN len
    | Inr (blk, rel', bi') \<Rightarrow> rel_ok rel' \<and> blk < length (rd_blocks rel') \<and> usable (MAXALIGN len) (rd_blocks rel' ! blk) \<and>
        (waits = [] \<longrightarrow> (\<forall>b < length (rd_blocks rel). page_items (rd_blocks rel' ! b) = page_items (rd_blocks rel ! b)))"
proof (cases "MAXALIGN len \<le> MaxHeapTupleSize")
  case False
  then show ?thesis using assms(7) tuple_too_long [of len ctx waits rel skip bi endb] by auto
next
  case len: True
  have pos: "0 < MAXALIGN len" using assms(6) MAXALIGN_ge [of len] by linarith
  obtain ts where ts: "get_buffer ctx (MAXALIGN len) (RelationGetTargetPageFreeSpace rel) waits ts = Some r" "target_inv ctx ts"
    "rd_encrypt (ts_rel ts) = rd_encrypt rel" "rd_blocks (ts_rel ts) = rd_blocks rel"
    using for_tuple_start [OF assms(1-4) len] assms(7) by metis
  have post: "buffer_post (MAXALIGN len) (rd_encrypt rel) r" using get_buffer_safe [OF ts(1,2) assms(5,4) pos len] ts(3) by simp
  show ?thesis
  proof (cases r)
    case (Inl e)
    then show ?thesis using post by (cases e) (simp add: buffer_post_def)
  next
    case (Inr x)
    obtain blk rel' bi' where x: "x = (blk, rel', bi')" using prod_cases3 by blast
    have "waits = [] \<longrightarrow> (\<forall>b < length (rd_blocks rel). page_items (rd_blocks rel' ! b) = page_items (rd_blocks rel ! b))"
      using get_buffer_alone [OF _ ts(2) assms(4) pos] ts(1,4) by (auto simp: Inr x)
    then show ?thesis using post by (simp add: buffer_post_def Inr x)
  qed
qed

subsection \<open>Properties\<close>

text \<open>
  C9. A page for the tuple: on any relation whose pages are in order, whatever other backends do to a page of the map while its lock is
  given up and to the relation during a wait (as long as they keep it in order), \<open>RelationGetBufferForTuple\<close>, when it returns,
  raises an error of level ERROR, or returns a block on which \<open>RelationPutHeapTuple\<close> cannot fail: the tuple is stored
  there with its own address in its header, and its transaction id is read back from the stored bytes if it is in the range of
  the page; its bytes behind the id are otherwise those that were given, every other item of the page keeps its bytes, every other page is
  untouched, and the relation stays in order. If it need not wait, the search itself leaves every item of every page
  as it was. A PANIC is possible only for a tuple of more than 7940 bytes on an encrypted relation. The call does return if no other
  backend touches the map meanwhile, the map has no entry for a block number of \<^verbatim>\<open>2^32\<close> or more, and the relation is and stays away from
  its maximal size.
\<close>

theorem relation_get_buffer_safe:
  assumes "rel_ok rel" and "bi_ok rel bi" and "\<forall>b. ic_other_block ctx = Some b \<longrightarrow> b < length (rd_blocks rel)"
    and "\<forall>p. fsm_wf p \<longrightarrow> fsm_wf (ic_env ctx p)" and "\<forall>w \<in> set waits. others_ok (snd w)" and len: "18 \<le> length (t_data tuple)"
  shows "(ic_env ctx = id \<and> quiet rel \<and> (\<forall>w \<in> set waits. others_quiet (snd w)) \<longrightarrow>
      RelationGetBufferForTuple ctx waits rel (length (t_data tuple)) skip bi endb \<noteq> None) \<and>
    (\<forall>r. RelationGetBufferForTuple ctx waits rel (length (t_data tuple)) skip bi endb = Some r \<longrightarrow> (case r of
      Inl (Ereport lvl code) \<Rightarrow> lvl = ERROR \<or> lvl = PANIC \<and> rd_encrypt rel \<and> 7940 < MAXALIGN (length (t_data tuple))
    | Inr (blk, rel', bi') \<Rightarrow>
        (\<exists>off data rel'' item. RelationPutHeapTuple order rel' blk tuple xid = Inr (\<lparr>t_self = (blk, off), t_data = data\<rparr>, rel'') \<and>
          rel_ok rel'' \<and> item = overwrite_at 12 (ItemPointer_bytes order (blk, off)) data \<and> drop 4 data = drop 4 (t_data tuple) \<and>
          page_items (rd_blocks rel'' ! blk) = add_entry (page_items (rd_blocks rel' ! blk)) off False (LP_NORMAL, 0, item) \<and>
          (xid_in_range (HeapTupleCopyBaseFromPage (rd_blocks rel' ! blk)) xid \<longrightarrow>
            HeapTupleGetRawXmin order (rd_blocks rel'' ! blk) item = xid) \<and>
          (\<forall>b. b \<noteq> blk \<longrightarrow> rd_blocks rel'' ! b = rd_blocks rel' ! b)) \<and>
        (waits = [] \<longrightarrow> (\<forall>b < length (rd_blocks rel). page_items (rd_blocks rel' ! b) = page_items (rd_blocks rel ! b)))))"
proof (intro conjI impI allI)
  have pos: "0 < length (t_data tuple)" using len by linarith
  assume "ic_env ctx = id \<and> quiet rel \<and> (\<forall>w \<in> set waits. others_quiet (snd w))"
  then show "RelationGetBufferForTuple ctx waits rel (length (t_data tuple)) skip bi endb \<noteq> None"
    using get_buffer_for_tuple_returns [OF assms(1-3) _ _ _ pos] by simp
next
  fix r assume run: "RelationGetBufferForTuple ctx waits rel (length (t_data tuple)) skip bi endb = Some r"
  have pos: "0 < length (t_data tuple)" using len by linarith
  note post = get_buffer_then_put [OF assms(1-5) pos run]
  show "case r of
      Inl (Ereport lvl code) \<Rightarrow> lvl = ERROR \<or> lvl = PANIC \<and> rd_encrypt rel \<and> 7940 < MAXALIGN (length (t_data tuple))
    | Inr (blk, rel', bi') \<Rightarrow>
        (\<exists>off data rel'' item. RelationPutHeapTuple order rel' blk tuple xid = Inr (\<lparr>t_self = (blk, off), t_data = data\<rparr>, rel'') \<and>
          rel_ok rel'' \<and> item = overwrite_at 12 (ItemPointer_bytes order (blk, off)) data \<and> drop 4 data = drop 4 (t_data tuple) \<and>
          page_items (rd_blocks rel'' ! blk) = add_entry (page_items (rd_blocks rel' ! blk)) off False (LP_NORMAL, 0, item) \<and>
          (xid_in_range (HeapTupleCopyBaseFromPage (rd_blocks rel' ! blk)) xid \<longrightarrow>
            HeapTupleGetRawXmin order (rd_blocks rel'' ! blk) item = xid) \<and>
          (\<forall>b. b \<noteq> blk \<longrightarrow> rd_blocks rel'' ! b = rd_blocks rel' ! b)) \<and>
        (waits = [] \<longrightarrow> (\<forall>b < length (rd_blocks rel). page_items (rd_blocks rel' ! b) = page_items (rd_blocks rel ! b)))"
    using post put_heap_tuple_stored [OF _ _ _ len] by (simp split: sum.splits prod.splits)
qed

theorem relation_get_buffer_safe_witness:
  "\<exists>blk rel' bi' off data rel''. RelationGetBufferForTuple sample_ctx [] (sample_rel False) 20 True None InvalidBlockNumber = Some (Inr (blk, rel', bi')) \<and>
     RelationPutHeapTuple WORDS_LITTLEENDIAN rel' blk \<lparr>t_self = (0, 0), t_data = replicate 20 7\<rparr> 100 =
       Inr (\<lparr>t_self = (blk, off), t_data = data\<rparr>, rel'')"
proof -
  have len: "MAXALIGN 20 = 24" by (simp add: MAXALIGN_def)
  obtain blk rel' bi' where "extend_for_tuple sample_ctx 24 (sample_rel False) None = Inr (blk, rel', bi')"
    using sample_rel_ok(1,2) by (cases rule: extend_cases [where ctx = sample_ctx and len = 24])
      (auto simp: sample_rel_def InvalidBlockNumber_def)
  then have run: "RelationGetBufferForTuple sample_ctx [] (sample_rel False) 20 True None InvalidBlockNumber = Some (Inr (blk, rel', bi'))"
    using skip_fsm_extends [of "sample_rel False" 20] by (simp add: sample_rel_def len hio_sizes_all)
  have other: "\<forall>b. ic_other_block sample_ctx = Some b \<longrightarrow> b < length (rd_blocks (sample_rel False))"
    and env: "\<forall>p. fsm_wf p \<longrightarrow> fsm_wf (ic_env sample_ctx p)" by (simp_all add: sample_ctx_def)
  show ?thesis
    using relation_get_buffer_safe [OF sample_rel_ok(1) sample_rel_ok(2) other env, of "[]" "\<lparr>t_self = (0, 0), t_data = replicate 20 7\<rparr>"
        True InvalidBlockNumber WORDS_LITTLEENDIAN 100] run by auto
qed

text \<open>
  C31. A tuple of more than 7940 bytes (after alignment) on an encrypted relation passes the length check of \<open>RelationGetBufferForTuple\<close>, but the
  relation cannot be extended for it: every extension for the tuple (\<open>extend_for_tuple\<close>, from any state of the search) stops the server
  with a PANIC, since the check does not count the 208 bytes that the new page reserves for its encryption data. In particular an insertion that
  skips the map, with no cached target and no bulk state, does so.
\<close>

theorem encrypted_long_tuple_panics:
  assumes "rel_ok rel" and "bi_ok rel bi" and "rd_encrypt rel" and "length (rd_blocks rel) < InvalidBlockNumber"
    and "7940 < MAXALIGN len" and "MAXALIGN len \<le> MaxHeapTupleSize"
  shows "heap_tuple_len_verifier (MAXALIGN len) = Inr () \<and>
    extend_for_tuple ctx (MAXALIGN len) rel bi = Inl (Ereport PANIC ERRCODE_INTERNAL_ERROR) \<and>
    (rd_targblock rel = InvalidBlockNumber \<longrightarrow>
      RelationGetBufferForTuple ctx [] rel len True None endb = Some (Inl (Ereport PANIC ERRCODE_INTERNAL_ERROR)))"
proof -
  have "extend_for_tuple ctx (MAXALIGN len) rel b = Inl (Ereport PANIC ERRCODE_INTERNAL_ERROR)" if "bi_ok rel b" for b
    using extend_too_long [OF assms(1) that assms(4)] assms(3,5) by simp
  then show ?thesis using skip_fsm_extends [OF _ assms(6)] assms(2,6) sample_rel_ok(2) [of rel]
    by (auto simp: heap_tuple_len_verifier_def)
qed

theorem encrypted_long_tuple_panics_witness:
  "RelationGetBufferForTuple sample_ctx [] (sample_rel True) 8000 True None InvalidBlockNumber = Some (Inl (Ereport PANIC ERRCODE_INTERNAL_ERROR))"
  using encrypted_long_tuple_panics [OF sample_rel_ok(1) [of True] sample_rel_ok(2), of 8000 sample_ctx InvalidBlockNumber]
  by (simp add: sample_rel_def MAXALIGN_def hio_sizes_all InvalidBlockNumber_def)

text \<open>
  A cached target page of the old layout, with room for the tuple but not for its upgrade, makes the search (with the map, without
  bulk state and without a second page) ask the map for 16 bytes more. If that exceeds the largest request of the map, the map rejects it and
  the insertion of an acceptable tuple fails with an error; on a relation that is neither encrypted nor full a new page would take the tuple.
\<close>

lemma old_page_rejects_large_tuple:
  assumes "rel_ok rel" and "ic_other_block ctx = None" and "rd_targblock rel < length (rd_blocks rel)"
    and "PageIs4BXidVersion (rd_blocks rel ! rd_targblock rel)"
    and wanted: "wanted = MAXALIGN len + RelationGetTargetPageFreeSpace rel" "wanted \<le> MaxHeapTupleSize" "MaxFSMRequestSize < wanted + 16"
    and space: "wanted \<le> PageGetHeapFreeSpace (rd_blocks rel ! rd_targblock rel)"
      "PageGetHeapFreeSpace (rd_blocks rel ! rd_targblock rel) < wanted + 16"
  shows "RelationGetBufferForTuple ctx waits rel len False None InvalidBlockNumber = Some (Inl (Ereport ERROR ERRCODE_DATATYPE_MISMATCH)) \<and>
    (\<not> rd_encrypt rel \<and> length (rd_blocks rel) < InvalidBlockNumber \<longrightarrow>
      (\<exists>blk rel' bi'. extend_for_tuple ctx (MAXALIGN len) rel None = Inr (blk, rel', bi') \<and> usable (MAXALIGN len) (rd_blocks rel' ! blk)))"
proof -
  let ?save = "RelationGetTargetPageFreeSpace rel" and ?t = "rd_targblock rel"
  let ?ts = "\<lparr>ts_rel = rel, ts_bistate = None, ts_use_fsm = True, ts_extralen = 0, ts_target = ?t\<rparr>"
  have ne: "?t \<noteq> InvalidBlockNumber" using assms(1,3) by (auto simp: rel_ok_def)
  have "\<not> 16 \<le> PageGetHeapFreeSpace (rd_blocks rel ! ?t) - ?save - MAXALIGN len" using space wanted by linarith
  then have check: "check_page ctx (MAXALIGN len) ?save True (rd_blocks rel ! ?t) = Inr (None, True, 16)"
    using space assms(4) wanted(1) by (simp add: check_page_def hio_sizes_all)
  have ask: "RecordAndGetPageWithFreeSpace (ic_env ctx) (rd_fsm rel) ?t avail (wanted + 16) = Inl (Ereport ERROR ERRCODE_DATATYPE_MISMATCH)" for avail
    using wanted(3) by (simp add: RecordAndGetPageWithFreeSpace_def fsm_space_needed_to_cat_def)
  have "target_step ctx (MAXALIGN len) ?save ?ts = Some (Done (Inl (Ereport ERROR ERRCODE_DATATYPE_MISMATCH)))"
    using ne assms(2,3) check ask wanted(1)
    by (simp add: target_step_def Let_def read_target_def ReadBufferBI_def ReadBuffer_def P_NEW_def)
  then have "get_buffer ctx (MAXALIGN len) ?save waits ?ts = Some (Inl (Ereport ERROR ERRCODE_DATATYPE_MISMATCH))"
    by (subst get_buffer.simps) (simp add: target_loop.simps)
  moreover have "choose_target (ic_env ctx) rel None wanted True InvalidBlockNumber = Inr (Some (?t, True, rel))"
    using wanted(2) ne by (simp add: choose_target_def Let_def)
  ultimately have "RelationGetBufferForTuple ctx waits rel len False None InvalidBlockNumber = Some (Inl (Ereport ERROR ERRCODE_DATATYPE_MISMATCH))"
    using wanted by (simp add: RelationGetBufferForTuple_def heap_tuple_len_verifier_def release_foreign_buffer_def Let_def)
  moreover have "\<exists>blk rel' bi'. extend_for_tuple ctx (MAXALIGN len) rel None = Inr (blk, rel', bi') \<and> usable (MAXALIGN len) (rd_blocks rel' ! blk)"
    if "\<not> rd_encrypt rel \<and> length (rd_blocks rel) < InvalidBlockNumber"
    using assms(1) sample_rel_ok(2) [of rel] wanted(1,2) that
    by (cases rule: extend_cases [where ctx = ctx and len = "MAXALIGN len"]) (auto simp: hio_sizes_all)
  ultimately show ?thesis by blast
qed

end
