(* ===== verification/ReorderBuffer.thy ===== *)
theory ReorderBuffer
  imports BinaryHeap
begin

text \<open>
  The change iterator of logical decoding: the part of
  \<^verbatim>\<open>src/src/gausskernel/storage/replication/logical/reorderbuffer.cpp\<close> that queues the changes of a
  transaction, spills them to disk, reads them back, and merges the changes of a transaction and its
  subtransactions in the order of their log positions with the binary heap.

  A list \<open>changes\<close> stands for the doubly linked list, the position in it for a pointer to one of its nodes. The spill
  files of a transaction are indexed by the number of a log segment (the name of the file has both); a file is the
  list of the changes written to it, an open file is known by its read position (\<open>None\<close> is descriptor \<open>-1\<close>). The byte format of a change on disk and failures of the file
  system are not modelled. Changes carry arbitrary data \<open>'a\<close>.
\<close>

subsection \<open>Data\<close>

type_synonym XLogRecPtr = nat

datatype ReorderBufferChangeType =
  REORDER_BUFFER_CHANGE_INSERT | REORDER_BUFFER_CHANGE_UPDATE | REORDER_BUFFER_CHANGE_DELETE
| REORDER_BUFFER_CHANGE_INTERNAL_SNAPSHOT | REORDER_BUFFER_CHANGE_INTERNAL_COMMAND_ID | REORDER_BUFFER_CHANGE_INTERNAL_TUPLECID
| REORDER_BUFFER_CHANGE_UINSERT | REORDER_BUFFER_CHANGE_UUPDATE | REORDER_BUFFER_CHANGE_UDELETE

text \<open>The field \<open>command_id\<close> is the member \<^verbatim>\<open>data.command_id\<close> of the union, \<open>data\<close> stands for the others.\<close>

record 'a ReorderBufferChange =
  lsn :: XLogRecPtr
  action :: ReorderBufferChangeType
  command_id :: nat
  data :: 'a

record 'a ReorderBufferTXN =
  xid :: nat
  first_lsn :: XLogRecPtr
  final_lsn :: XLogRecPtr
  nentries :: nat
  nentries_mem :: nat
  serialized :: bool
  changes :: "'a ReorderBufferChange list"

text \<open>A transaction with its list of subtransactions.\<close>

datatype 'a txn_tree = Txn (txn: "'a ReorderBufferTXN") (subtxns: "'a txn_tree list")

type_synonym 'a spill = "nat \<Rightarrow> nat \<Rightarrow> 'a ReorderBufferChange list option"

definition XLogSegSize :: nat where
  "XLogSegSize = 16 * 1024 * 1024"

definition spill_file :: "'a spill \<Rightarrow> nat \<Rightarrow> nat \<Rightarrow> 'a ReorderBufferChange list" where
  "spill_file disk x segno = (case disk x segno of None \<Rightarrow> [] | Some cs \<Rightarrow> cs)"

text \<open>Opening a file for appending creates it; a write goes to its end.\<close>

definition open_append :: "'a spill \<Rightarrow> nat \<Rightarrow> nat \<Rightarrow> 'a spill" where
  "open_append disk x segno = disk(x := (disk x)(segno \<mapsto> spill_file disk x segno))"

definition append_change :: "'a spill \<Rightarrow> nat \<Rightarrow> nat \<Rightarrow> 'a ReorderBufferChange \<Rightarrow> 'a spill" where
  "append_change disk x segno c = disk(x := (disk x)(segno \<mapsto> spill_file disk x segno @ [c]))"

subsection \<open>Spilling to disk\<close>

text \<open>The loop over the changes of one transaction; \<open>fd\<close> is the segment whose file is open.\<close>

fun serialize_changes :: "'a spill \<Rightarrow> nat \<Rightarrow> nat option \<Rightarrow> 'a ReorderBufferChange list \<Rightarrow> 'a spill" where
  "serialize_changes disk x fd [] = disk"
| "serialize_changes disk x fd (c # cs) =
    (let segno = lsn c div XLogSegSize;
         disk = (if fd = Some segno then disk else open_append disk x segno)
     in serialize_changes (append_change disk x segno c) x (Some segno) cs)"

fun ReorderBufferSerializeTXN :: "'a spill \<Rightarrow> 'a txn_tree \<Rightarrow> 'a spill \<times> 'a txn_tree"
  and serialize_subtxns :: "'a spill \<Rightarrow> 'a txn_tree list \<Rightarrow> 'a spill \<times> 'a txn_tree list" where
  "ReorderBufferSerializeTXN disk (Txn t subs) =
    (let (disk, subs) = serialize_subtxns disk subs;
         disk = serialize_changes disk (xid t) None (changes t)
     in (disk, Txn (t\<lparr>changes := [], nentries_mem := 0, serialized := True\<rparr>) subs))"
| "serialize_subtxns disk [] = (disk, [])"
| "serialize_subtxns disk (s # subs) =
    (let (disk, s) = ReorderBufferSerializeTXN disk s; (disk, subs) = serialize_subtxns disk subs
     in (disk, s # subs))"

definition ReorderBufferCheckSerializeTXN :: "nat \<Rightarrow> 'a spill \<Rightarrow> 'a txn_tree \<Rightarrow> 'a spill \<times> 'a txn_tree" where
  "ReorderBufferCheckSerializeTXN max_changes_in_memory disk t =
    (if nentries_mem (txn t) \<ge> max_changes_in_memory then ReorderBufferSerializeTXN disk t else (disk, t))"

text \<open>Queueing a change to a transaction that exists.\<close>

definition queue_change ::
  "nat \<Rightarrow> 'a spill \<Rightarrow> 'a txn_tree \<Rightarrow> XLogRecPtr \<Rightarrow> 'a ReorderBufferChange \<Rightarrow> 'a spill \<times> 'a txn_tree" where
  "queue_change max_changes_in_memory disk tree pos change =
    (let change = change\<lparr>lsn := pos\<rparr>;
         t = txn tree;
         t = t\<lparr>changes := changes t @ [change], nentries := nentries t + 1, nentries_mem := nentries_mem t + 1\<rparr>
     in ReorderBufferCheckSerializeTXN max_changes_in_memory disk (Txn t (subtxns tree)))"

subsection \<open>The life of a transaction\<close>

text \<open>A transaction as it is created, cleared, when its first record is seen at position \<open>pos\<close>; the position of the commit record is not known yet.\<close>

definition new_txn :: "nat \<Rightarrow> XLogRecPtr \<Rightarrow> 'a ReorderBufferTXN" where
  "new_txn x pos = \<lparr>xid = x, first_lsn = pos, final_lsn = 0, nentries = 0, nentries_mem = 0, serialized = False, changes = []\<rparr>"

subsection \<open>Reading back\<close>

text \<open>
  The loop of \<open>ReorderBufferRestoreChanges\<close>, with the changes read so far, whose number is \<open>restored\<close>. The segment number 0 means that
  no file has been opened yet.
\<close>

function restore_loop ::
  "nat \<Rightarrow> (nat \<Rightarrow> 'a ReorderBufferChange list option) \<Rightarrow> nat \<Rightarrow> nat \<Rightarrow> nat option \<Rightarrow> nat \<Rightarrow> 'a ReorderBufferChange list \<Rightarrow>
   'a ReorderBufferChange list \<times> nat option \<times> nat" where
  "restore_loop max_changes files first_segno last_segno fd segno restored =
    (if length restored < max_changes \<and> segno \<le> last_segno then
       (let segno = (if fd = None \<and> segno = 0 then first_segno else segno)
        in if fd = None \<and> files segno = None
           then restore_loop max_changes files first_segno last_segno None (segno + 1) restored
           else
             (let content = (case files segno of None \<Rightarrow> [] | Some cs \<Rightarrow> cs);
                  pos = (case fd of None \<Rightarrow> 0 | Some pos \<Rightarrow> pos)
              in if pos < length content
                 then restore_loop max_changes files first_segno last_segno (Some (pos + 1)) segno (restored @ [content ! pos])
                 else restore_loop max_changes files first_segno last_segno None (segno + 1) restored))
     else (restored, fd, segno))"
  by auto

termination restore_loop
  by (relation "measures [\<lambda>(_, _, _, last_segno, _, segno, _). Suc last_segno - segno, \<lambda>(m, _, _, _, _, _, restored). m - length restored]")
    (auto split: if_splits)

declare restore_loop.simps [simp del]

definition ReorderBufferRestoreChanges ::
  "nat \<Rightarrow> 'a spill \<Rightarrow> 'a ReorderBufferTXN \<Rightarrow> nat option \<Rightarrow> nat \<Rightarrow> nat \<times> 'a ReorderBufferTXN \<times> nat option \<times> nat" where
  "ReorderBufferRestoreChanges max_changes_in_memory disk t fd segno =
    (let (restored, fd, segno) =
           restore_loop max_changes_in_memory (disk (xid t)) (first_lsn t div XLogSegSize) (final_lsn t div XLogSegSize) fd segno []
     in (length restored, t\<lparr>changes := restored, nentries_mem := length restored\<rparr>, fd, segno))"

subsection \<open>The iterator\<close>

record 'a ReorderBufferIterTXNEntry =
  ie_lsn :: XLogRecPtr
  ie_change :: nat
  ie_txn :: "'a ReorderBufferTXN"
  ie_fd :: "nat option"
  ie_segno :: nat

record 'a ReorderBufferIterTXNState =
  heap :: "(nat, 'a ReorderBufferIterTXNEntry list) binaryheap"
  entries :: "'a ReorderBufferIterTXNEntry list"
  old_change :: "'a ReorderBufferChange list"

text \<open>The heap has the entry with the least position on top.\<close>

definition ReorderBufferIterCompare :: "nat \<Rightarrow> nat \<Rightarrow> 'a ReorderBufferIterTXNEntry list \<Rightarrow> int" where
  "ReorderBufferIterCompare a b es =
    (let pos_a = ie_lsn (es ! a); pos_b = ie_lsn (es ! b)
     in if pos_a < pos_b then 1 else if pos_a = pos_b then 0 else -1)"

text \<open>The entry of one transaction with changes.\<close>

definition init_entry ::
  "nat \<Rightarrow> 'a spill \<Rightarrow> 'a txn_tree \<Rightarrow> 'a ReorderBufferIterTXNEntry \<times> 'a spill \<times> 'a txn_tree" where
  "init_entry max_changes_in_memory disk tree =
    (let (disk, tree, fd, segno) =
           (if serialized (txn tree) then
              (let (disk, tree) = ReorderBufferSerializeTXN disk tree;
                   (_, t, fd, segno) = ReorderBufferRestoreChanges max_changes_in_memory disk (txn tree) None 0
               in (disk, Txn t (subtxns tree), fd, segno))
            else (disk, tree, None, 0))
     in (\<lparr>ie_lsn = lsn (changes (txn tree) ! 0), ie_change = 0, ie_txn = txn tree, ie_fd = fd, ie_segno = segno\<rparr>, disk, tree))"

fun init_subtxns ::
  "nat \<Rightarrow> 'a spill \<Rightarrow> 'a txn_tree list \<Rightarrow> 'a ReorderBufferIterTXNEntry list \<times> 'a spill \<times> 'a txn_tree list" where
  "init_subtxns m disk [] = ([], disk, [])"
| "init_subtxns m disk (s # subs) =
    (if nentries (txn s) > 0 then
       (let (e, disk, s) = init_entry m disk s; (es, disk, subs) = init_subtxns m disk subs in (e # es, disk, s # subs))
     else (let (es, disk, subs) = init_subtxns m disk subs in (es, disk, s # subs)))"

text \<open>
  The comparison callback gets the iterator state: the heap is built when all entries are filled in. The
  entries of all transactions but the first are taken after the first one may have spilled its subtransactions.
\<close>

definition ReorderBufferIterTXNInit ::
  "nat \<Rightarrow> (nat \<Rightarrow> nat) \<Rightarrow> 'a spill \<Rightarrow> 'a txn_tree \<Rightarrow> ('a ReorderBufferIterTXNState \<times> 'a spill \<times> 'a txn_tree) result" where
  "ReorderBufferIterTXNInit m mem disk tree =
    (let nr_txns = length (filter (\<lambda>t. nentries (txn t) > 0) (tree # subtxns tree));
         h = binaryheap_allocate mem nr_txns ReorderBufferIterCompare [];
         (es0, disk, tree) =
           (if nentries (txn tree) > 0 then (case init_entry m disk tree of (e, disk, tree) \<Rightarrow> ([e], disk, tree))
            else ([], disk, tree));
         (es1, disk, subs) = init_subtxns m disk (subtxns tree);
         es = es0 @ es1
     in bindE (add_all binaryheap_add_unordered h [0 ..< length es]) (\<lambda>h.
          Inr (\<lparr>heap = binaryheap_build (h\<lparr>bh_arg := es\<rparr>), entries = es, old_change = []\<rparr>, disk, Txn (txn tree) subs)))"

text \<open>A \<open>None\<close> of a heap operation is a failed assertion; the result \<open>None\<close> with a state is the end of the iteration.\<close>

definition put_entry :: "'a ReorderBufferIterTXNState \<Rightarrow> nat \<Rightarrow> 'a ReorderBufferIterTXNEntry \<Rightarrow> 'a ReorderBufferIterTXNState" where
  "put_entry st off e =
    (let es = (entries st)[off := e] in st\<lparr>entries := es, heap := (heap st)\<lparr>bh_arg := es\<rparr>\<rparr>)"

definition ReorderBufferIterTXNNext ::
  "nat \<Rightarrow> 'a spill \<Rightarrow> 'a ReorderBufferIterTXNState \<Rightarrow> ('a ReorderBufferChange option \<times> 'a ReorderBufferIterTXNState) option" where
  "ReorderBufferIterTXNNext m disk st =
    (if bh_size (heap st) = 0 then Some (None, st)
     else
       (case binaryheap_first (heap st) of
          None \<Rightarrow> None
        | Some off \<Rightarrow>
            (let entry = entries st ! off;
                 st = st\<lparr>old_change := drop 1 (old_change st)\<rparr>;
                 t = ie_txn entry;
                 change = changes t ! ie_change entry;
                 replace = (\<lambda>st. map_option (\<lambda>h. (Some change, st\<lparr>heap := h\<rparr>)) (binaryheap_replace_first (heap st) off));
                 remove = (\<lambda>st. map_option (\<lambda>(_, h). (Some change, st\<lparr>heap := h\<rparr>)) (binaryheap_remove_first (heap st)))
             in if Suc (ie_change entry) < length (changes t) then
                  replace (put_entry st off (entry\<lparr>ie_lsn := lsn (changes t ! Suc (ie_change entry)), ie_change := Suc (ie_change entry)\<rparr>))
                else if nentries t \<noteq> nentries_mem t then
                  (let st = st\<lparr>old_change := old_change st @ [change]\<rparr>;
                       t = t\<lparr>changes := butlast (changes t)\<rparr>;
                       (restored, t, fd, segno) = ReorderBufferRestoreChanges m disk t (ie_fd entry) (ie_segno entry);
                       entry = entry\<lparr>ie_txn := t, ie_fd := fd, ie_segno := segno\<rparr>
                   in if restored > 0
                      then replace (put_entry st off (entry\<lparr>ie_lsn := lsn (changes t ! 0), ie_change := 0\<rparr>))
                      else remove (put_entry st off entry))
                else remove st)))"

text \<open>The client's loop: all changes until the iteration ends, for at most \<open>n\<close> calls.\<close>

fun iterate_changes ::
  "nat \<Rightarrow> nat \<Rightarrow> 'a spill \<Rightarrow> 'a ReorderBufferIterTXNState \<Rightarrow> 'a ReorderBufferChange list option" where
  "iterate_changes 0 m disk st = None"
| "iterate_changes (Suc n) m disk st =
    (case ReorderBufferIterTXNNext m disk st of
       None \<Rightarrow> None
     | Some (None, st) \<Rightarrow> Some []
     | Some (Some c, st) \<Rightarrow> map_option ((#) c) (iterate_changes n m disk st))"

end
