(* ===== verification/ReorderSpill.thy ===== *)
theory ReorderSpill
  imports ReorderBuffer
begin

text \<open>
  Spilling the changes of a transaction to disk and reading them back, of \<open>ReorderBuffer\<close>: what a
  transaction contains, its changes on disk followed by those in memory, neither loses nor reorders anything.
\<close>

subsection \<open>The spilled changes of a transaction\<close>

definition disk_changes :: "'a spill \<Rightarrow> nat \<Rightarrow> nat \<Rightarrow> nat \<Rightarrow> 'a ReorderBufferChange list" where
  "disk_changes disk x lo hi = concat (map (spill_file disk x) [lo ..< Suc hi])"

abbreviation seg :: "'a ReorderBufferChange \<Rightarrow> nat" where
  "seg c \<equiv> lsn c div XLogSegSize"

definition spill_wf :: "'a spill \<Rightarrow> nat \<Rightarrow> nat \<Rightarrow> nat \<Rightarrow> bool" where
  "spill_wf disk x lo hi \<longleftrightarrow> (\<forall>s cs. disk x s = Some cs \<longrightarrow> lo \<le> s \<and> s \<le> hi \<and> (\<forall>c \<in> set cs. seg c = s))"

lemma spill_wf_file: "spill_wf disk x lo hi \<Longrightarrow> c \<in> set (spill_file disk x s) \<Longrightarrow> seg c = s \<and> lo \<le> s \<and> s \<le> hi"
  by (cases "disk x s") (simp_all add: spill_wf_def spill_file_def)

lemma spill_file_append [simp]:
  "spill_file (append_change disk x s c) y k =
    (if y = x \<and> k = s then spill_file disk x s @ [c] else spill_file disk y k)"
  by (simp add: append_change_def spill_file_def)

lemma spill_file_open [simp]: "spill_file (open_append disk x s) y k = spill_file disk y k"
  by (simp add: open_append_def spill_file_def split: option.split)

lemma open_append_other [simp]: "y \<noteq> x \<Longrightarrow> open_append disk x s y = disk y" "y \<noteq> x \<Longrightarrow> append_change disk x s c y = disk y"
  by (simp_all add: open_append_def append_change_def)

lemma disk_changes_cong: "(\<And>k. spill_file disk' x k = spill_file disk x k) \<Longrightarrow> disk_changes disk' x lo hi = disk_changes disk x lo hi"
  unfolding disk_changes_def by (metis (mono_tags) map_cong)

lemma upt_split3: "lo \<le> s \<Longrightarrow> s \<le> hi \<Longrightarrow> [lo ..< Suc hi] = [lo ..< s] @ s # [Suc s ..< Suc hi]"
  using upt_add_eq_append [of lo s "Suc hi - s"] by (simp add: upt_conv_Cons del: upt_Suc)

lemma disk_changes_append:
  assumes "lo \<le> s" "s \<le> hi" "\<forall>k > s. spill_file disk x k = []"
  shows "disk_changes (append_change disk x s c) x lo hi = disk_changes disk x lo hi @ [c]"
proof -
  note split = upt_split3 [OF assms(1,2)]
  have upper: "concat (map (spill_file disk x) [Suc s ..< Suc hi]) = []" using assms(3) by auto
  have same: "map (spill_file (append_change disk x s c) x) [lo ..< s] = map (spill_file disk x) [lo ..< s]"
    "map (spill_file (append_change disk x s c) x) [Suc s ..< Suc hi] = map (spill_file disk x) [Suc s ..< Suc hi]" by simp_all
  show ?thesis unfolding disk_changes_def split map_append list.map concat_append concat.simps same upper by simp
qed

lemma set_disk_changes: "set (disk_changes disk x lo hi) = (\<Union>k \<in> {lo .. hi}. set (spill_file disk x k))"
  by (simp add: disk_changes_def atLeastLessThanSuc_atLeastAtMost del: upt_Suc)

lemma serialize_changes_spec:
  assumes "spill_wf disk x lo hi" "sorted (map lsn (disk_changes disk x lo hi @ cs))" "\<forall>c \<in> set cs. lo \<le> seg c \<and> seg c \<le> hi"
  shows "disk_changes (serialize_changes disk x fd cs) x lo hi = disk_changes disk x lo hi @ cs \<and>
    spill_wf (serialize_changes disk x fd cs) x lo hi \<and> (\<forall>y. y \<noteq> x \<longrightarrow> serialize_changes disk x fd cs y = disk y)"
  using assms
proof (induction cs arbitrary: disk fd)
  case Nil
  then show ?case by simp
next
  case (Cons c cs)
  let ?s = "seg c"
  define d where "d = append_change (if fd = Some ?s then disk else open_append disk x ?s) x ?s c"
  have files: "spill_file d y k = (if y = x \<and> k = ?s then spill_file disk x ?s @ [c] else spill_file disk y k)" for y k
    by (simp add: d_def)
  have later: "spill_file disk x k = []" if "?s < k" for k
  proof (rule ccontr)
    assume "spill_file disk x k \<noteq> []"
    then obtain b where b: "b \<in> set (spill_file disk x k)" by (meson hd_in_set)
    then have k: "seg b = k" "lo \<le> k" "k \<le> hi" using spill_wf_file [OF Cons.prems(1)] by auto
    then have "b \<in> set (disk_changes disk x lo hi)" using b by (auto simp: set_disk_changes)
    then have "lsn b \<le> lsn c" using Cons.prems(2) by (auto simp: sorted_append)
    then have "seg b \<le> ?s" by (rule div_le_mono)
    then show False using k that by simp
  qed
  have dc: "disk_changes d x lo hi = disk_changes disk x lo hi @ [c]"
    using disk_changes_append [of lo ?s hi disk x c] Cons.prems(3) later disk_changes_cong [of d x "append_change disk x ?s c"] files by simp
  have here: "d x ?s = Some (spill_file disk x ?s @ [c])" and there: "\<And>k. k \<noteq> ?s \<Longrightarrow> d x k = disk x k"
    by (simp_all add: d_def append_change_def open_append_def spill_file_def split: option.split)
  have "spill_wf d x lo hi" unfolding spill_wf_def
  proof (intro allI impI)
    fix s cs assume "d x s = Some cs"
    then show "lo \<le> s \<and> s \<le> hi \<and> (\<forall>c \<in> set cs. seg c = s)"
      using here there [of s] Cons.prems(1,3) spill_wf_file [OF Cons.prems(1)] by (cases "s = ?s") (auto simp: spill_wf_def)
  qed
  moreover have "d y = disk y" if "y \<noteq> x" for y using that by (simp add: d_def)
  moreover have "serialize_changes disk x fd (c # cs) = serialize_changes d x (Some ?s) cs" by (simp add: d_def Let_def)
  ultimately show ?case using Cons.IH [of d "Some ?s"] Cons.prems(2,3) by (simp add: dc)
qed

subsection \<open>Transactions\<close>

abbreviation first_seg :: "'a ReorderBufferTXN \<Rightarrow> nat" where
  "first_seg t \<equiv> first_lsn t div XLogSegSize"

abbreviation last_seg :: "'a ReorderBufferTXN \<Rightarrow> nat" where
  "last_seg t \<equiv> final_lsn t div XLogSegSize"

text \<open>All changes of a transaction in the order in which they were queued: those on disk, then those in memory.\<close>

definition txn_contents :: "'a spill \<Rightarrow> 'a ReorderBufferTXN \<Rightarrow> 'a ReorderBufferChange list" where
  "txn_contents disk t = disk_changes disk (xid t) (first_seg t) (last_seg t) @ changes t"

definition txn_wf :: "'a spill \<Rightarrow> 'a ReorderBufferTXN \<Rightarrow> bool" where
  "txn_wf disk t \<longleftrightarrow> spill_wf disk (xid t) (first_seg t) (last_seg t) \<and> sorted (map lsn (txn_contents disk t)) \<and>
    (\<forall>c \<in> set (changes t). first_seg t \<le> seg c \<and> seg c \<le> last_seg t) \<and> first_seg t \<le> last_seg t \<and>
    nentries t = length (txn_contents disk t) \<and> nentries_mem t = length (changes t) \<and>
    (\<not> serialized t \<longrightarrow> disk (xid t) = Map.empty)"

text \<open>A transaction that was never spilled has no files; the files of the others lie within its segments.\<close>

definition files_wf :: "'a spill \<Rightarrow> 'a ReorderBufferTXN \<Rightarrow> bool" where
  "files_wf disk t \<longleftrightarrow> (\<not> serialized t \<longrightarrow> disk (xid t) = Map.empty) \<and> (\<forall>s. disk (xid t) s \<noteq> None \<longrightarrow> first_seg t \<le> s \<and> s \<le> last_seg t)"

lemma txn_wf_files: "txn_wf disk t \<Longrightarrow> files_wf disk t"
  by (auto simp: txn_wf_def files_wf_def spill_wf_def)

lemma txn_wf_empty: "txn_wf disk t \<Longrightarrow> \<not> serialized t \<Longrightarrow> disk_changes disk (xid t) (first_seg t) (last_seg t) = []"
  by (simp add: txn_wf_def disk_changes_def spill_file_def)

definition spilled :: "'a ReorderBufferTXN \<Rightarrow> 'a ReorderBufferTXN" where
  "spilled t = t\<lparr>changes := [], nentries_mem := 0, serialized := True\<rparr>"

lemma spilled_simps [simp]:
  "xid (spilled t) = xid t" "first_lsn (spilled t) = first_lsn t" "final_lsn (spilled t) = final_lsn t" "nentries (spilled t) = nentries t"
  "changes (spilled t) = []" "nentries_mem (spilled t) = 0" "serialized (spilled t)"
  by (simp_all add: spilled_def)

fun txns_of :: "'a txn_tree \<Rightarrow> 'a ReorderBufferTXN list" where
  "txns_of (Txn t subs) = t # concat (map txns_of subs)"

lemma txn_cong: "disk' (xid t) = disk (xid t) \<Longrightarrow> txn_contents disk' t = txn_contents disk t \<and> txn_wf disk' t = txn_wf disk t"
proof -
  assume "disk' (xid t) = disk (xid t)"
  moreover from this have "spill_file disk' (xid t) = spill_file disk (xid t)" by (simp add: spill_file_def fun_eq_iff)
  ultimately show ?thesis unfolding txn_contents_def txn_wf_def spill_wf_def disk_changes_def by simp
qed

lemma serialize_own:
  assumes wf: "txn_wf disk t" and d: "d = serialize_changes disk (xid t) None (changes t)"
  shows "txn_wf d (spilled t)" "txn_contents d (spilled t) = txn_contents disk t" "\<And>y. y \<noteq> xid t \<Longrightarrow> d y = disk y"
proof -
  have s: "disk_changes d (xid t) (first_seg t) (last_seg t) = txn_contents disk t" "spill_wf d (xid t) (first_seg t) (last_seg t)"
    "\<And>y. y \<noteq> xid t \<Longrightarrow> d y = disk y"
    using serialize_changes_spec [of disk "xid t" "first_seg t" "last_seg t" "changes t" None] wf
    by (auto simp: d txn_wf_def txn_contents_def)
  show "txn_contents d (spilled t) = txn_contents disk t" using s(1) by (simp add: txn_contents_def)
  then show "txn_wf d (spilled t)" using wf s(2) by (simp add: txn_wf_def)
  show "\<And>y. y \<noteq> xid t \<Longrightarrow> d y = disk y" by (rule s(3))
qed

text \<open>Spilling a transaction with its subtransactions keeps the contents of each and touches no other.\<close>

lemma serialize_txn_spec:
  fixes disk :: "'a spill"
  shows "distinct (map xid (txns_of tree)) \<Longrightarrow> \<forall>t \<in> set (txns_of tree). txn_wf disk t \<Longrightarrow>
    ReorderBufferSerializeTXN disk tree = (d1, tree') \<Longrightarrow>
    txns_of tree' = map spilled (txns_of tree) \<and> map txns_of (subtxns tree') = map (map spilled \<circ> txns_of) (subtxns tree) \<and>
    (\<forall>t \<in> set (txns_of tree). txn_wf d1 (spilled t) \<and> txn_contents d1 (spilled t) = txn_contents disk t) \<and>
    (\<forall>x. x \<notin> xid ` set (txns_of tree) \<longrightarrow> d1 x = disk x)"
  and "distinct (map xid (concat (map txns_of subs))) \<Longrightarrow> \<forall>t \<in> set (concat (map txns_of subs)). txn_wf disk t \<Longrightarrow>
    serialize_subtxns disk subs = (d2, subs') \<Longrightarrow>
    map txns_of subs' = map (map spilled \<circ> txns_of) subs \<and>
    (\<forall>t \<in> set (concat (map txns_of subs)). txn_wf d2 (spilled t) \<and> txn_contents d2 (spilled t) = txn_contents disk t) \<and>
    (\<forall>x. x \<notin> xid ` set (concat (map txns_of subs)) \<longrightarrow> d2 x = disk x)"
proof (induction disk tree and disk subs arbitrary: d1 tree' and d2 subs' rule: ReorderBufferSerializeTXN_serialize_subtxns.induct)
  case (1 disk t subs)
  obtain da subs1 where s: "serialize_subtxns disk subs = (da, subs1)" by fastforce
  have ih: "map txns_of subs1 = map (map spilled \<circ> txns_of) subs"
    "\<And>u. u \<in> set (concat (map txns_of subs)) \<Longrightarrow> txn_wf da (spilled u) \<and> txn_contents da (spilled u) = txn_contents disk u"
    "\<And>x. x \<notin> xid ` set (concat (map txns_of subs)) \<Longrightarrow> da x = disk x"
    using 1(1) [OF _ _ s] 1(2,3) by auto
  have fresh: "xid t \<notin> xid ` set (concat (map txns_of subs))" using 1(2) by auto
  have t1: "txn_wf da t" "txn_contents da t = txn_contents disk t" using txn_cong [of da t disk] ih(3) [OF fresh] 1(3) by auto
  note own = serialize_own [OF t1(1) refl]
  have d: "d1 = serialize_changes da (xid t) None (changes t)" "tree' = Txn (spilled t) subs1" using 1(4) s by (simp_all add: spilled_def)
  have subs: "txn_wf d1 (spilled u) \<and> txn_contents d1 (spilled u) = txn_contents disk u" if "u \<in> set (concat (map txns_of subs))" for u
  proof -
    have "xid u \<noteq> xid t" using fresh that by (metis imageI)
    then show ?thesis using ih(2) [OF that] txn_cong [of d1 "spilled u" da] own(3) d(1) by simp
  qed
  have "txns_of tree' = map spilled (txns_of (Txn t subs))" using ih(1) by (simp add: d map_concat o_def)
  moreover have "d1 x = disk x" if "x \<notin> xid ` set (txns_of (Txn t subs))" for x using that own(3) [of x] ih(3) [of x] by (auto simp: d(1))
  ultimately show ?case using subs own(1,2) t1(2) ih(1) by (auto simp: d(2) simp flip: d(1))
next
  case (2 disk)
  then show ?case by simp
next
  case (3 disk s subs)
  obtain da s1 where r1: "ReorderBufferSerializeTXN disk s = (da, s1)" by fastforce
  obtain db subs1 where r2: "serialize_subtxns da subs = (db, subs1)" by fastforce
  have out: "d2 = db" "subs' = s1 # subs1" using 3(5) r1 r2 by simp_all
  have a: "txns_of s1 = map spilled (txns_of s)"
    "\<And>u. u \<in> set (txns_of s) \<Longrightarrow> txn_wf da (spilled u) \<and> txn_contents da (spilled u) = txn_contents disk u"
    "\<And>x. x \<notin> xid ` set (txns_of s) \<Longrightarrow> da x = disk x"
    using 3(1) [OF _ _ r1] 3(3,4) by auto
  have disj: "xid u \<notin> xid ` set (txns_of s)" if "u \<in> set (concat (map txns_of subs))" for u using 3(3) that by auto
  have sub1: "txn_wf da u \<and> txn_contents da u = txn_contents disk u" if "u \<in> set (concat (map txns_of subs))" for u
    using txn_cong [of da u disk] a(3) [OF disj [OF that]] 3(4) that by auto
  have b: "map txns_of subs1 = map (map spilled \<circ> txns_of) subs"
    "\<And>u. u \<in> set (concat (map txns_of subs)) \<Longrightarrow> txn_wf db (spilled u) \<and> txn_contents db (spilled u) = txn_contents da u"
    "\<And>x. x \<notin> xid ` set (concat (map txns_of subs)) \<Longrightarrow> db x = da x"
    using 3(2) [OF r1 [symmetric] refl _ _ r2] 3(3) sub1 by auto
  have "txn_wf db (spilled u) \<and> txn_contents db (spilled u) = txn_contents disk u" if "u \<in> set (txns_of s)" for u
  proof -
    have "xid u \<noteq> xid v" if "v \<in> set (concat (map txns_of subs))" for v 
      using disj [OF that] imageI [OF \<open>u \<in> set (txns_of s)\<close>, of xid] by (intro notI) simp
    then have "xid u \<notin> xid ` set (concat (map txns_of subs))" by blast
    then show ?thesis using a(2) [OF that] txn_cong [of db "spilled u" da] b(3) by simp
  qed
  then have all: "txn_wf db (spilled u) \<and> txn_contents db (spilled u) = txn_contents disk u"
    if "u \<in> set (concat (map txns_of (s # subs)))" for u
    using that b(2) [of u] sub1 [of u] by (cases "u \<in> set (txns_of s)") auto
  have frame: "db x = disk x" if x: "x \<notin> xid ` set (concat (map txns_of (s # subs)))" for x
  proof -
    have "x \<notin> xid ` set (txns_of s)" "x \<notin> xid ` set (concat (map txns_of subs))" using x by auto
    then show ?thesis using a(3) b(3) by simp
  qed
  show ?case unfolding out using a(1) b(1) all frame by simp
qed

subsection \<open>Reading back\<close>

text \<open>What is still to be read from the files of segments \<open>lo\<close> to \<open>hi\<close>.\<close>

definition unread :: "(nat \<Rightarrow> 'a ReorderBufferChange list option) \<Rightarrow> nat \<Rightarrow> nat \<Rightarrow> nat option \<Rightarrow> nat \<Rightarrow> 'a ReorderBufferChange list" where
  "unread files lo hi fd segno =
    (let content = (\<lambda>s. case files s of None \<Rightarrow> [] | Some cs \<Rightarrow> cs)
     in case fd of
          None \<Rightarrow> concat (map content [(if segno = 0 then lo else segno) ..< Suc hi])
        | Some pos \<Rightarrow> drop pos (content segno) @ concat (map content [Suc segno ..< Suc hi]))"

lemma unread_all: "unread (disk x) lo hi None 0 = disk_changes disk x lo hi"
  by (simp add: unread_def disk_changes_def spill_file_def cong: map_cong)

lemma concat_upt_first: "s \<le> hi \<Longrightarrow> concat (map f [s ..< Suc hi]) = f s @ concat (map f [Suc s ..< Suc hi])"
  by (simp add: upt_conv_Cons del: upt_Suc)

lemma restore_loop_spec:
  assumes "restore_loop m files lo hi fd segno acc = (acc', fd', segno')" "lo \<le> hi" "fd \<noteq> None \<longrightarrow> segno \<le> hi"
  shows "acc' @ unread files lo hi fd' segno' = acc @ unread files lo hi fd segno \<and> (fd' \<noteq> None \<longrightarrow> segno' \<le> hi) \<and>
    (length acc' < m \<longrightarrow> unread files lo hi fd' segno' = []) \<and> (length acc \<le> m \<longrightarrow> length acc' \<le> m)"
  using assms
proof (induction m files lo hi fd segno acc rule: restore_loop.induct)
  case (1 m files lo hi fd segno acc)
  let ?c = "\<lambda>s. case files s of None \<Rightarrow> [] | Some cs \<Rightarrow> cs"
  note step = trans [OF restore_loop.simps [of m files lo hi fd segno acc, symmetric] "1.prems"(1)]
  define s where "s = (if fd = None \<and> segno = 0 then lo else segno)"
  define pos where "pos = (case fd of None \<Rightarrow> 0 | Some pos \<Rightarrow> pos)"
  show ?case
  proof (cases "length acc < m \<and> segno \<le> hi")
    case False
    then show ?thesis using step "1.prems"(3) by (auto simp: unread_def Let_def)
  next
    case True
    have s: "s \<le> hi" using True "1.prems"(2) by (simp add: s_def)
    have this_file: "unread files lo hi fd segno = drop pos (?c s) @ concat (map ?c [Suc s ..< Suc hi])"
      using concat_upt_first [OF s, of ?c] by (cases fd) (auto simp: unread_def s_def pos_def Let_def simp del: upt_Suc)
    have next_file: "unread files lo hi None (s + 1) = concat (map ?c [Suc s ..< Suc hi])" by (simp add: unread_def Let_def del: upt_Suc)
    consider (skip) "fd = None" "files s = None" | (read) "\<not> (fd = None \<and> files s = None)" "pos < length (?c s)"
      | (eof) "\<not> (fd = None \<and> files s = None)" "\<not> pos < length (?c s)" by satx
    then show ?thesis
    proof cases
      case skip
      have "restore_loop m files lo hi None (s + 1) acc = (acc', fd', segno')"
        using step True skip by (simp add: s_def)
      then show ?thesis using "1.IH"(1) [OF True s_def] skip "1.prems"(2) this_file next_file by (simp add: pos_def)
    next
      case read
      have run: "restore_loop m files lo hi (Some (pos + 1)) s (acc @ [?c s ! pos]) = (acc', fd', segno')"
        using step True read by (simp only: s_def [symmetric] pos_def [symmetric] Let_def if_True if_False simp_thms)
      have "unread files lo hi (Some (pos + 1)) s = drop (Suc pos) (?c s) @ concat (map ?c [Suc s ..< Suc hi])"
        by (simp add: unread_def Let_def del: upt_Suc)
      moreover have "drop pos (?c s) = ?c s ! pos # drop (Suc pos) (?c s)" using read(2) by (rule Cons_nth_drop_Suc [symmetric])
      ultimately have "acc @ unread files lo hi fd segno = (acc @ [?c s ! pos]) @ unread files lo hi (Some (pos + 1)) s"
        using this_file by simp
      then show ?thesis using "1.IH"(2) [OF True s_def read(1) refl pos_def read(2) run "1.prems"(2)] s True by simp
    next
      case eof
      have run: "restore_loop m files lo hi None (s + 1) acc = (acc', fd', segno')"
        using step True eof by (simp only: s_def [symmetric] pos_def [symmetric] Let_def if_True if_False simp_thms)
      then show ?thesis using "1.IH"(3) [OF True s_def eof(1) refl pos_def eof(2) run "1.prems"(2)] this_file next_file eof(2) by simp
    qed
  qed
qed

end
