(* ===== verification/ReorderMerge.thy ===== *)
theory ReorderMerge
  imports ReorderSpill "HOL-Library.Sublist"
begin

text \<open>
  Correctness of the change iterator of \<open>ReorderBuffer\<close>: it returns the changes of a transaction and its subtransactions,
  all of them and in the order of their log positions. The abstract specification is the relation
  \<open>interleaves\<close>, the merges of any number of sequences; the invariant \<open>iter_inv\<close> relates a state of the iterator to
  the sequences it has still to return.
\<close>

subsection \<open>Interleavings\<close>

inductive interleaves :: "'a list list \<Rightarrow> 'a list \<Rightarrow> bool" where
  interleaves_done: "\<forall>xs \<in> set xss. xs = [] \<Longrightarrow> interleaves xss []"
| interleaves_take: "i < length xss \<Longrightarrow> xss ! i = x # xs \<Longrightarrow> interleaves (xss[i := xs]) ys \<Longrightarrow> interleaves xss (x # ys)"

lemma mset_concat_update: "i < length xss \<Longrightarrow> xss ! i = x # xs \<Longrightarrow> mset (concat xss) = add_mset x (mset (concat (xss[i := xs])))"
  by (simp add: upd_conv_take_nth_drop) (metis (no_types, lifting) concat.simps(2) concat_append id_take_nth_drop mset_append
    append_Cons mset.simps(2) union_mset_add_mset_right)

lemma interleaves_mset: "interleaves xss ys \<Longrightarrow> mset ys = mset (concat xss)"
proof (induction rule: interleaves.induct)
  case (interleaves_take i xss x xs ys)
  then show ?case using mset_concat_update [of i xss x xs] by simp
qed auto

lemma interleaves_subseq: "interleaves xss ys \<Longrightarrow> i < length xss \<Longrightarrow> subseq (xss ! i) ys"
proof (induction arbitrary: i rule: interleaves.induct)
  case (interleaves_take j xss x xs ys)
  then have "subseq (xss[j := xs] ! i) ys" by simp
  then show ?case using interleaves_take by (cases "i = j") (auto simp: nth_list_update)
qed auto

text \<open>Empty sequences do not matter.\<close>

lemma interleaves_insert_Nil: "interleaves (xss @ yss) zs \<Longrightarrow> interleaves (xss @ [] # yss) zs"
proof (induction "xss @ yss" zs arbitrary: xss yss rule: interleaves.induct)
  case interleaves_done
  then show ?case by (intro interleaves.interleaves_done) auto
next
  case (interleaves_take i x xs ys)
  show ?case
  proof (cases "i < length xss")
    case True
    then have "interleaves ((xss @ [] # yss)[i := xs]) ys" using interleaves_take.hyps(4) [of "xss[i := xs]" yss] by (simp add: list_update_append)
    then show ?thesis using True interleaves_take.hyps(2) interleaves.interleaves_take [of i "xss @ [] # yss" x xs ys] by (simp add: nth_append)
  next
    case False
    let ?k = "i - length xss"
    have "interleaves (xss @ [] # yss[?k := xs]) ys" using False interleaves_take.hyps(4) [of xss "yss[?k := xs]"] by (simp add: list_update_append)
    moreover have "xss @ [] # yss[?k := xs] = (xss @ [] # yss)[Suc i := xs]" using False by (simp add: list_update_append Suc_diff_le)
    moreover have "(xss @ [] # yss) ! Suc i = x # xs" using False interleaves_take.hyps(2) by (simp add: nth_append Suc_diff_le)
    ultimately show ?thesis using interleaves_take.hyps(1) interleaves.interleaves_take [of "Suc i" "xss @ [] # yss" x xs ys] by simp
  qed
qed

lemma interleaves_filter: "interleaves (yss @ filter (\<lambda>s. s \<noteq> []) xss) zs \<Longrightarrow> interleaves (yss @ xss) zs"
proof (induction xss arbitrary: yss)
  case (Cons s xss)
  show ?case
  proof (cases "s = []")
    case True
    then show ?thesis using Cons.IH [of yss] Cons.prems interleaves_insert_Nil by simp
  next
    case False
    then show ?thesis using Cons.IH [of "yss @ [s]"] Cons.prems by simp
  qed
qed simp

lemma interleaves_length: "interleaves xss ys \<Longrightarrow> length ys = sum_list (map length xss)"
  using interleaves_mset [of xss ys] by (metis length_concat size_mset)

subsection \<open>The comparison of entries\<close>

interpretation iter_order: comparator "\<lambda>a b. ReorderBufferIterCompare a b es"
  by unfold_locales (auto simp: ReorderBufferIterCompare_def Let_def split: if_splits)

lemma iter_compare_le: "ReorderBufferIterCompare a b es \<le> 0 \<longleftrightarrow> ie_lsn (es ! b) \<le> ie_lsn (es ! a)"
  by (auto simp: ReorderBufferIterCompare_def Let_def)

lemma iter_compare_cong: "ie_lsn (es ! a) = ie_lsn (fs ! a) \<Longrightarrow> ie_lsn (es ! b) = ie_lsn (fs ! b) \<Longrightarrow>
  ReorderBufferIterCompare a b es = ReorderBufferIterCompare a b fs"
  by (simp add: ReorderBufferIterCompare_def)

subsection \<open>Entries\<close>

abbreviation unread_txn :: "'a spill \<Rightarrow> 'a ReorderBufferTXN \<Rightarrow> nat option \<Rightarrow> nat \<Rightarrow> 'a ReorderBufferChange list" where
  "unread_txn disk t fd segno \<equiv> unread (disk (xid t)) (first_seg t) (last_seg t) fd segno"

text \<open>The entry of a transaction whose changes still to be returned are \<open>seq\<close>, which is not empty.\<close>

definition entry_ok :: "'a spill \<Rightarrow> 'a ReorderBufferIterTXNEntry \<Rightarrow> 'a ReorderBufferChange list \<Rightarrow> bool" where
  "entry_ok disk e seq \<longleftrightarrow>
    (let t = ie_txn e; rest = unread_txn disk t (ie_fd e) (ie_segno e)
     in ie_change e < length (changes t) \<and> ie_lsn e = lsn (changes t ! ie_change e) \<and>
        nentries_mem t = length (changes t) \<and> length (changes t) + length rest \<le> nentries t \<and>
        seq = drop (ie_change e) (changes t) @ rest \<and> first_seg t \<le> last_seg t \<and>
        (ie_fd e \<noteq> None \<longrightarrow> ie_segno e \<le> last_seg t))"

lemma entry_ok_hd: "entry_ok disk e seq \<Longrightarrow> seq \<noteq> [] \<and> hd seq = changes (ie_txn e) ! ie_change e \<and> ie_lsn e = lsn (hd seq)"
  by (auto simp: entry_ok_def Let_def hd_drop_conv_nth)

lemma restore_changes_spec:
  assumes r: "ReorderBufferRestoreChanges m disk t fd segno = (n, t', fd', segno')"
    and "first_seg t \<le> last_seg t" "fd \<noteq> None \<longrightarrow> segno \<le> last_seg t" "0 < m"
  shows "t' = t\<lparr>changes := changes t', nentries_mem := n\<rparr>" "n = length (changes t')"
    "changes t' @ unread_txn disk t fd' segno' = unread_txn disk t fd segno" "fd' \<noteq> None \<longrightarrow> segno' \<le> last_seg t"
    "n = 0 \<Longrightarrow> unread_txn disk t fd segno = []" "n \<le> m"
proof -
  obtain acc f s where run: "restore_loop m (disk (xid t)) (first_seg t) (last_seg t) fd segno [] = (acc, f, s)"
    by (metis prod_cases3)
  have t': "t' = t\<lparr>changes := acc, nentries_mem := length acc\<rparr>" "n = length acc" and f: "f = fd'" "s = segno'"
    using r by (auto simp: ReorderBufferRestoreChanges_def run)
  note spec = restore_loop_spec [OF run assms(2,3), unfolded f]
  show "t' = t\<lparr>changes := changes t', nentries_mem := n\<rparr>" "n = length (changes t')" by (simp_all add: t')
  show "changes t' @ unread_txn disk t fd' segno' = unread_txn disk t fd segno" "fd' \<noteq> None \<longrightarrow> segno' \<le> last_seg t"
    using spec by (simp_all add: t')
  show "unread_txn disk t fd segno = []" if "n = 0" using spec that assms(4) by (auto simp: t')
  show "n \<le> m" using spec by (simp add: t')
qed

subsection \<open>The invariant of the iterator\<close>

definition pending :: "'b list list \<Rightarrow> nat set" where
  "pending seqs = {i. i < length seqs \<and> seqs ! i \<noteq> []}"

definition iter_inv :: "'a spill \<Rightarrow> 'a ReorderBufferIterTXNState \<Rightarrow> 'a ReorderBufferChange list list \<Rightarrow> bool" where
  "iter_inv disk st seqs \<longleftrightarrow>
    length (entries st) = length seqs \<and> heap_ok (heap st) \<and> bh_compare (heap st) = ReorderBufferIterCompare \<and>
    bh_arg (heap st) = entries st \<and> heap_elems (heap st) = mset_set (pending seqs) \<and>
    (\<forall>i \<in> pending seqs. entry_ok disk (entries st ! i) (seqs ! i))"

lemma finite_pending [simp]: "finite (pending seqs)"
  by (simp add: pending_def)

lemma pending_update: "off < length seqs \<Longrightarrow>
  pending (seqs[off := s]) = (if s = [] then pending seqs - {off} else insert off (pending seqs))"
  by (auto simp: pending_def nth_list_update split: if_splits)

lemma distinct_of_mset_set: "mset xs = mset_set A \<Longrightarrow> finite A \<Longrightarrow> distinct xs"
proof -
  assume *: "mset xs = mset_set A" "finite A"
  then have "set xs = A" by (metis finite_set_mset_mset_set set_mset_mset)
  then show ?thesis using * by (simp add: distinct_count_atmost_1 count_mset_set')
qed

lemma heap_cmp_iter: "bh_compare h = ReorderBufferIterCompare \<Longrightarrow> heap_cmp h = (\<lambda>a b. ReorderBufferIterCompare a b (bh_arg h))"
  by (simp add: heap_cmp_def fun_eq_iff)

text \<open>An entry in use advances to its next change: the heap is repaired from the root.\<close>

lemma replace_entry:
  assumes inv: "iter_inv disk st seqs" and ne: "0 < bh_size (heap st)" and off: "off = bh_nodes (heap st) ! 0"
    and e: "entry_ok disk e s"
  shows "\<exists>h'. binaryheap_replace_first (heap (put_entry st off e)) off = Some h' \<and>
    iter_inv disk ((put_entry st off e)\<lparr>heap := h'\<rparr>) (seqs[off := s])"
proof -
  let ?h = "heap st" and ?g = "heap (put_entry st off e)" and ?es = "(entries st)[off := e]"
  have h: "heap_ok ?h" "bh_compare ?h = ReorderBufferIterCompare" "bh_arg ?h = entries st" "heap_elems ?h = mset_set (pending seqs)"
    "length (entries st) = length seqs" using inv by (simp_all add: iter_inv_def)
  have g: "?g = ?h\<lparr>bh_arg := ?es\<rparr>" by (simp add: put_entry_def Let_def)
  have wf: "heap_wf ?h" "bh_size ?h \<le> length (bh_nodes ?h)" using h(1) by (simp_all add: heap_ok_def heap_wf_def)
  have mem: "off \<in> pending seqs" using heap_top_spec [OF h(1) ne] by (simp add: h(4) off)
  then have s: "off < length seqs" by (simp add: pending_def)
  have dist: "distinct (take (bh_size ?h) (bh_nodes ?h))" using distinct_of_mset_set [OF h(4) [unfolded heap_elems_def]] by simp
  have other: "bh_nodes ?h ! i \<noteq> off" if "0 < i" "i < bh_size ?h" for i
    using nth_eq_iff_index_eq [OF dist, of i 0] that wf(2) by (simp add: off)
  have cmps: "heap_cmp ?g a b = heap_cmp ?h a b" if "a \<noteq> off" "b \<noteq> off" for a b
    using that h(2,3) by (simp add: g heap_cmp_def) (intro iter_compare_cong; simp)
  have "heap_from (heap_cmp ?h) (bh_nodes ?h) (bh_size ?h) 0" using h(1) by (simp add: heap_ok_def)
  then have hole: "heap_hole (heap_cmp ?g) (bh_nodes ?g) (bh_size ?g) 0 0"
    unfolding heap_hole_def heap_from_def using cmps other by (simp add: g)
  have "comparator (heap_cmp ?g)" by (subst heap_cmp_iter) (simp_all add: g h(2) iter_order.comparator_axioms)
  moreover have "heap_wf ?g" "bh_has_heap_property ?g" "0 < bh_size ?g" using h(1) wf(1) ne by (simp_all add: g heap_ok_def heap_wf_def)
  ultimately obtain h' where h': "binaryheap_replace_first ?g off = Some h'" "heap_ok h'" "same_params ?g h'"
    "heap_elems h' = add_mset off (heap_elems ?g - {#bh_nodes ?g ! 0#})"
    using heap_replace_spec [OF _ _ _ _ hole, of off] by blast
  have "heap_elems h' = heap_elems ?h" using h'(4) mem by (simp add: g off heap_elems_def h(4)[unfolded heap_elems_def] flip: off)
  moreover have "s \<noteq> []" using entry_ok_hd [OF e] by simp
  ultimately show ?thesis using h' h mem s inv e
    by (auto simp: iter_inv_def pending_update insert_absorb same_params_def put_entry_def Let_def nth_list_update)
qed

text \<open>The entry with the last change of its transaction leaves the heap; its rank has not changed.\<close>

lemma remove_entry:
  assumes inv: "iter_inv disk st seqs" and ne: "0 < bh_size (heap st)" and off: "off = bh_nodes (heap st) ! 0"
    and e: "ie_lsn e = ie_lsn (entries st ! off)"
  shows "\<exists>h'. binaryheap_remove_first (heap (put_entry st off e)) = Some (off, h') \<and>
    iter_inv disk ((put_entry st off e)\<lparr>heap := h'\<rparr>) (seqs[off := []])"
proof -
  let ?h = "heap st" and ?g = "heap (put_entry st off e)" and ?es = "(entries st)[off := e]"
  have h: "heap_ok ?h" "bh_compare ?h = ReorderBufferIterCompare" "bh_arg ?h = entries st" "heap_elems ?h = mset_set (pending seqs)"
    "length (entries st) = length seqs" using inv by (simp_all add: iter_inv_def)
  have g: "?g = ?h\<lparr>bh_arg := ?es\<rparr>" by (simp add: put_entry_def Let_def)
  have fields: "bh_size ?g = bh_size ?h" "bh_space ?g = bh_space ?h" "bh_nodes ?g = bh_nodes ?h"
    "bh_has_heap_property ?g = bh_has_heap_property ?h" by (simp_all add: g)
  have mem: "off \<in> pending seqs" using heap_top_spec [OF h(1) ne] by (simp add: h(4) off)
  then have s: "off < length seqs" by (simp add: pending_def)
  have ranks: "ie_lsn (?es ! i) = ie_lsn (entries st ! i)" for i using e s h(5) by (cases "i = off") simp_all
  have "heap_cmp ?g = heap_cmp ?h" by (auto simp: heap_cmp_iter g h(2,3) ranks intro!: ext iter_compare_cong)
  then have ok: "heap_ok ?g" "0 < bh_size ?g" "bh_nodes ?g ! 0 = off" "heap_elems ?g = mset_set (pending seqs)"
    using h(1,4) ne by (simp_all add: fields heap_ok_def heap_wf_def heap_elems_def off [symmetric])
  obtain h' where h': "binaryheap_remove_first ?g = Some (off, h')" "heap_ok h'" "same_params ?g h'"
    "heap_elems h' = mset_set (pending seqs) - {#off#}"
    using heap_remove_spec [OF ok(1,2)] unfolding ok(3,4) by blast
  have "heap_elems h' = mset_set (pending seqs - {off})" using h'(4) mem by (simp add: mset_set_Diff)
  then show ?thesis using h' h s inv
    by (auto simp: iter_inv_def pending_update same_params_def put_entry_def Let_def nth_list_update)
qed

lemma iter_inv_old_change [simp]: "iter_inv disk (st\<lparr>old_change := oc\<rparr>) seqs = iter_inv disk st seqs"
  by (simp add: iter_inv_def)

subsection \<open>One step\<close>

text \<open>The top of the heap is an entry whose next change has the least position of all.\<close>

lemma iter_top:
  assumes inv: "iter_inv disk st seqs" and ne: "0 < bh_size (heap st)" and off: "off = bh_nodes (heap st) ! 0"
  shows "binaryheap_first (heap st) = Some off" "off \<in> pending seqs"
    "\<And>i. i \<in> pending seqs \<Longrightarrow> lsn (hd (seqs ! off)) \<le> lsn (hd (seqs ! i))"
proof -
  have h: "heap_ok (heap st)" "bh_compare (heap st) = ReorderBufferIterCompare" "bh_arg (heap st) = entries st"
    "heap_elems (heap st) = mset_set (pending seqs)" using inv by (simp_all add: iter_inv_def)
  note top = heap_top_spec [OF h(1) ne]
  show "binaryheap_first (heap st) = Some off" and mem: "off \<in> pending seqs" using top by (simp_all add: off h(4))
  have head: "ie_lsn (entries st ! i) = lsn (hd (seqs ! i))" if "i \<in> pending seqs" for i
    using inv that entry_ok_hd by (auto simp: iter_inv_def)
  show "lsn (hd (seqs ! off)) \<le> lsn (hd (seqs ! i))" if "i \<in> pending seqs" for i
    using top that head [OF that] head [OF mem] by (auto simp: h off heap_cmp_iter iter_compare_le)
qed

lemma iter_inv_empty: "iter_inv disk st seqs \<Longrightarrow> bh_size (heap st) = 0 \<longleftrightarrow> (\<forall>s \<in> set seqs. s = [])"
proof -
  assume inv: "iter_inv disk st seqs"
  then have "bh_size (heap st) = size (heap_elems (heap st))" by (simp add: iter_inv_def heap_ok_def size_heap_elems [symmetric])
  also have "\<dots> = card (pending seqs)" using inv by (simp add: iter_inv_def)
  finally show ?thesis by (auto simp: pending_def all_set_conv_all_nth)
qed

text \<open>The three ways in which an entry proceeds: to the next change in memory, to the first one read from disk, to its end.\<close>

lemma entry_in_memory:
  assumes "entry_ok disk e seq" "Suc (ie_change e) < length (changes (ie_txn e))"
  shows "entry_ok disk (e\<lparr>ie_lsn := lsn (changes (ie_txn e) ! Suc (ie_change e)), ie_change := Suc (ie_change e)\<rparr>) (tl seq)"
  using assms by (auto simp: entry_ok_def Let_def tl_drop drop_Suc)

lemma entry_last:
  assumes "entry_ok disk e seq" "\<not> Suc (ie_change e) < length (changes (ie_txn e))"
  shows "tl seq = unread_txn disk (ie_txn e) (ie_fd e) (ie_segno e)"
proof -
  have "length (drop (ie_change e) (changes (ie_txn e))) = 1" using assms by (auto simp: entry_ok_def Let_def)
  then obtain c where "drop (ie_change e) (changes (ie_txn e)) = [c]"
    by (cases "drop (ie_change e) (changes (ie_txn e))") (simp_all del: length_drop)
  then show ?thesis using assms(1) by (simp add: entry_ok_def Let_def)
qed

lemma entry_end:
  assumes "entry_ok disk e seq" "\<not> Suc (ie_change e) < length (changes (ie_txn e))" "nentries (ie_txn e) = nentries_mem (ie_txn e)"
  shows "tl seq = []"
  using entry_last [OF assms(1,2)] assms by (auto simp: entry_ok_def Let_def)

lemma entry_from_disk:
  assumes e: "entry_ok disk e seq" "\<not> Suc (ie_change e) < length (changes (ie_txn e))" and m: "0 < m"
    and r: "ReorderBufferRestoreChanges m disk (ie_txn e\<lparr>changes := cs\<rparr>) (ie_fd e) (ie_segno e) = (n, t, fd, segno)"
  shows "0 < n \<Longrightarrow> entry_ok disk (e\<lparr>ie_txn := t, ie_fd := fd, ie_segno := segno, ie_lsn := lsn (changes t ! 0), ie_change := 0\<rparr>) (tl seq)"
    and "n = 0 \<Longrightarrow> tl seq = []"
proof -
  let ?t = "ie_txn e\<lparr>changes := cs\<rparr>"
  have ok: "first_seg ?t \<le> last_seg ?t" "ie_fd e \<noteq> None \<longrightarrow> ie_segno e \<le> last_seg ?t" 
    "length (unread_txn disk ?t (ie_fd e) (ie_segno e)) \<le> nentries ?t" using e(1) by (simp_all add: entry_ok_def Let_def)
  note spec = restore_changes_spec [OF r ok(1,2) m]
  have tl: "tl seq = unread_txn disk ?t (ie_fd e) (ie_segno e)" using entry_last [OF e] by simp
  show "tl seq = []" if "n = 0" using spec(5) that tl by simp
  have fields: "xid t = xid ?t" "first_lsn t = first_lsn ?t" "final_lsn t = final_lsn ?t" "nentries t = nentries ?t" "nentries_mem t = n"
    by (subst spec(1); simp)+
  have "length (changes t) + length (unread_txn disk ?t fd segno) \<le> nentries ?t" using ok(3) [folded spec(3)] by simp
  then show "entry_ok disk (e\<lparr>ie_txn := t, ie_fd := fd, ie_segno := segno, ie_lsn := lsn (changes t ! 0), ie_change := 0\<rparr>) (tl seq)" if "0 < n"
    using that spec(2,3,4) ok(1) by (simp add: entry_ok_def Let_def fields tl)
qed

lemma put_entry_same: "iter_inv disk st seqs \<Longrightarrow> put_entry st off (entries st ! off) = st"
  by (simp add: put_entry_def iter_inv_def Let_def)

text \<open>The next step returns the least of the heads of the pending sequences and takes it off its sequence.\<close>

lemma iter_next_step:
  assumes inv: "iter_inv disk st seqs" and ne: "0 < bh_size (heap st)" and m: "0 < m"
  shows "\<exists>off st'. off \<in> pending seqs \<and> (\<forall>i \<in> pending seqs. lsn (hd (seqs ! off)) \<le> lsn (hd (seqs ! i))) \<and>
    ReorderBufferIterTXNNext m disk st = Some (Some (hd (seqs ! off)), st') \<and> iter_inv disk st' (seqs[off := tl (seqs ! off)])"
proof -
  define off e oc where "off = bh_nodes (heap st) ! 0" and "e = entries st ! off" and "oc = drop 1 (old_change st)"
  let ?t = "ie_txn e" and ?seq = "seqs ! off"
  note top = iter_top [OF inv ne off_def]
  have e: "entry_ok disk e ?seq" using inv top(2) by (simp add: iter_inv_def e_def)
  note head = entry_ok_hd [OF e]
  have inv': "iter_inv disk (st\<lparr>old_change := x\<rparr>) seqs" "0 < bh_size (heap (st\<lparr>old_change := x\<rparr>))"
    "off = bh_nodes (heap (st\<lparr>old_change := x\<rparr>)) ! 0" for x using inv ne by (simp_all add: off_def)
  have "\<exists>st'. ReorderBufferIterTXNNext m disk st = Some (Some (hd ?seq), st') \<and> iter_inv disk st' (seqs[off := tl ?seq])"
  proof (cases "Suc (ie_change e) < length (changes ?t)")
    case True
    show ?thesis using replace_entry [OF inv' [of oc] entry_in_memory [OF e True]] ne top(1) True head
      by (auto simp: ReorderBufferIterTXNNext_def Let_def e_def [symmetric] oc_def)
  next
    case last: False
    show ?thesis
    proof (cases "nentries ?t = nentries_mem ?t")
      case True
      then have "tl ?seq = []" using entry_end [OF e last] by simp
      then show ?thesis using remove_entry [OF inv' [of oc], of e] ne top(1) True last head put_entry_same [OF inv'(1) [of oc], of off]
        by (auto simp: ReorderBufferIterTXNNext_def Let_def e_def [symmetric] oc_def)
    next
      case False
      obtain n t fd segno where r: "ReorderBufferRestoreChanges m disk (?t\<lparr>changes := butlast (changes ?t)\<rparr>) (ie_fd e) (ie_segno e) = (n, t, fd, segno)"
        by (metis prod_cases4)
      note disk = entry_from_disk [OF e last m r]
      let ?oc = "oc @ [hd ?seq]"
      show ?thesis
      proof (cases "n = 0")
        case True
        then show ?thesis using remove_entry [OF inv' [of ?oc], of "e\<lparr>ie_txn := t, ie_fd := fd, ie_segno := segno\<rparr>"] disk(2) ne top(1) False last head r
          by (auto simp: ReorderBufferIterTXNNext_def Let_def e_def [symmetric] oc_def)
      next
        case restored: False
        then show ?thesis using replace_entry [OF inv' [of ?oc] disk(1)] ne top(1) False last head r
          by (auto simp: ReorderBufferIterTXNNext_def Let_def e_def [symmetric] oc_def)
      qed
    qed
  qed
  then show ?thesis using top(2,3) by blast
qed

lemma iterate_spec:
  assumes "iter_inv disk st seqs" "0 < m" "\<forall>s \<in> set seqs. sorted (map lsn s)" "sum_list (map length seqs) < n"
  shows "\<exists>out. iterate_changes n m disk st = Some out \<and> interleaves seqs out \<and> sorted (map lsn out)"
  using assms
proof (induction n arbitrary: st seqs)
  case (Suc n)
  show ?case
  proof (cases "bh_size (heap st) = 0")
    case True
    then have "ReorderBufferIterTXNNext m disk st = Some (None, st)" by (simp add: ReorderBufferIterTXNNext_def)
    moreover have "\<forall>s \<in> set seqs. s = []" using iter_inv_empty [OF Suc.prems(1)] True by simp
    ultimately show ?thesis by (simp add: interleaves_done)
  next
    case False
    obtain off st' where off: "off \<in> pending seqs" "\<forall>i \<in> pending seqs. lsn (hd (seqs ! off)) \<le> lsn (hd (seqs ! i))"
      and run: "ReorderBufferIterTXNNext m disk st = Some (Some (hd (seqs ! off)), st')"
      and inv: "iter_inv disk st' (seqs[off := tl (seqs ! off)])"
      using iter_next_step [OF Suc.prems(1) _ Suc.prems(2)] False by blast
    obtain c cs where c: "seqs ! off = c # cs" "off < length seqs" using off(1) by (cases "seqs ! off") (auto simp: pending_def)
    let ?seqs = "seqs[off := cs]"
    have sorted: "sorted (map lsn (seqs ! i))" if "i < length seqs" for i using Suc.prems(3) that by simp
    have "\<forall>s \<in> set ?seqs. sorted (map lsn s)" using Suc.prems(3) sorted [OF c(2)] c(1) set_update_subset_insert [of seqs off cs] by auto
    moreover have "mset (concat seqs) = add_mset c (mset (concat ?seqs))" using c by (intro mset_concat_update)
    then have "sum_list (map length seqs) = Suc (sum_list (map length ?seqs))" by (metis length_concat size_add_mset size_mset)
    ultimately obtain out where out: "iterate_changes n m disk st' = Some out" "interleaves ?seqs out" "sorted (map lsn out)"
      using Suc.IH [of st' ?seqs] Suc.prems(2,4) inv c by auto
    have "lsn c \<le> lsn d" if "d \<in> set out" for d
    proof -
      have "d \<in> set (concat ?seqs)" using that interleaves_mset [OF out(2)] by (metis set_mset_mset)
      then obtain i where i: "i < length seqs" "d \<in> set (seqs ! i)" using c
        by (auto simp: in_set_conv_nth nth_list_update split: if_splits) (metis in_set_conv_nth list.set_intros(2))+
      then have "i \<in> pending seqs" by (auto simp: pending_def)
      then have "lsn c \<le> lsn (hd (seqs ! i))" using off(2) c(1) by auto
      also have "\<dots> \<le> lsn d" using sorted [OF i(1)] i(2) by (cases "seqs ! i") auto
      finally show ?thesis .
    qed
    then show ?thesis using run out c interleaves_take [OF c(2,1) out(2)] by simp
  qed
qed simp

subsection \<open>Building the iterator\<close>

definition forest_ok :: "'a spill \<Rightarrow> 'a txn_tree list \<Rightarrow> bool" where
  "forest_ok disk subs \<longleftrightarrow> distinct (map xid (concat (map txns_of subs))) \<and> (\<forall>t \<in> set (concat (map txns_of subs)). txn_wf disk t)"

definition forest_contents :: "'a spill \<Rightarrow> 'a txn_tree list \<Rightarrow> 'a ReorderBufferChange list list" where
  "forest_contents disk subs = map (\<lambda>s. txn_contents disk (txn s)) subs"

lemma txns_of_eq: "txns_of s = txn s # concat (map txns_of (subtxns s))"
  by (cases s) simp

lemma hd_txns_of [simp]: "hd (txns_of s) = txn s"
  by (simp add: txns_of_eq)

lemma forest_ok_Cons: "forest_ok disk (s # subs) \<Longrightarrow> forest_ok disk [s] \<and> forest_ok disk subs \<and> forest_ok disk (subtxns s) \<and> txn_wf disk (txn s)
  \<and> xid (txn s) \<notin> xid ` set (concat (map txns_of (subtxns s))) \<and> xid ` set (txns_of s) \<inter> xid ` set (concat (map txns_of subs)) = {}"
  by (simp add: forest_ok_def txns_of_eq [of s])

lemma txn_in_forest: "s \<in> set subs \<Longrightarrow> txn s \<in> set (concat (map txns_of subs))"
  by (auto simp: txns_of_eq [of s] intro!: bexI [of _ s])

text \<open>A change of the files of other transactions only.\<close>

lemma forest_frame:
  assumes "forest_ok disk subs" "\<And>x. x \<in> xid ` set (concat (map txns_of subs)) \<Longrightarrow> disk' x = disk x"
  shows "forest_ok disk' subs" "forest_contents disk' subs = forest_contents disk subs"
proof -
  have eq: "txn_wf disk' t = txn_wf disk t \<and> txn_contents disk' t = txn_contents disk t" if "t \<in> set (concat (map txns_of subs))" for t
    using txn_cong [of disk' t disk] assms(2) [OF imageI [OF that]] by simp
  then show "forest_ok disk' subs" using assms(1) by (auto simp: forest_ok_def)
  show "forest_contents disk' subs = forest_contents disk subs" unfolding forest_contents_def
    using eq [OF txn_in_forest] by (simp cong: map_cong)
qed

lemma forest_txn_wf: "forest_ok disk subs \<Longrightarrow> s \<in> set subs \<Longrightarrow> txn_wf disk (txn s)"
  using txn_in_forest [of s subs] unfolding forest_ok_def by blast

lemma entry_ok_frame: "disk' (xid (ie_txn e)) = disk (xid (ie_txn e)) \<Longrightarrow> entry_ok disk' e s = entry_ok disk e s"
  by (simp add: entry_ok_def)

lemma nentries_contents: "txn_wf disk t \<Longrightarrow> 0 < nentries t \<longleftrightarrow> txn_contents disk t \<noteq> []"
  by (simp add: txn_wf_def)

text \<open>The subtransactions of a spilled transaction have the contents they had.\<close>

lemma spilled_forest:
  assumes ok: "forest_ok disk [s]" and run: "ReorderBufferSerializeTXN disk s = (d, s')"
  shows "txn s' = spilled (txn s)" "txn_wf d (txn s')" "txn_contents d (txn s') = txn_contents disk (txn s)"
    "forest_ok d (subtxns s')" "forest_contents d (subtxns s') = forest_contents disk (subtxns s)"
    "xid ` set (concat (map txns_of (subtxns s'))) = xid ` set (concat (map txns_of (subtxns s)))"
    "\<And>x. x \<notin> xid ` set (txns_of s) \<Longrightarrow> d x = disk x"
proof -
  have wf: "distinct (map xid (txns_of s))" "\<forall>t \<in> set (txns_of s). txn_wf disk t" using ok by (simp_all add: forest_ok_def)
  note spec = serialize_txn_spec(1) [OF wf run]
  have tree: "txns_of s' = map spilled (txns_of s)" and subs: "map txns_of (subtxns s') = map (map spilled \<circ> txns_of) (subtxns s)"
    and each: "\<And>t. t \<in> set (txns_of s) \<Longrightarrow> txn_wf d (spilled t) \<and> txn_contents d (spilled t) = txn_contents disk t"
    and frame: "\<And>x. x \<notin> xid ` set (txns_of s) \<Longrightarrow> d x = disk x" using spec by auto
  show "\<And>x. x \<notin> xid ` set (txns_of s) \<Longrightarrow> d x = disk x" by (rule frame)
  show t: "txn s' = spilled (txn s)" using tree by (simp add: txns_of_eq [of s] txns_of_eq [of s'])
  have "txn s \<in> set (txns_of s)" by (simp add: txns_of_eq [of s])
  then show "txn_wf d (txn s')" "txn_contents d (txn s') = txn_contents disk (txn s)" using each by (simp_all add: t)
  have all: "concat (map txns_of (subtxns s')) = map spilled (concat (map txns_of (subtxns s)))" by (simp add: subs map_concat o_def)
  then show "xid ` set (concat (map txns_of (subtxns s'))) = xid ` set (concat (map txns_of (subtxns s)))" by (simp add: image_image image_UN)
  have "distinct (map xid (concat (map txns_of (subtxns s))))" using wf(1) by (simp add: txns_of_eq [of s])
  then show "forest_ok d (subtxns s')" using each unfolding forest_ok_def all by (auto simp: txns_of_eq [of s] o_def)
  have "map (\<lambda>u. txn_contents d (hd u)) (map txns_of (subtxns s')) = map (\<lambda>u. txn_contents disk (hd u)) (map txns_of (subtxns s))"
  proof -
    have "txn_contents d (spilled (txn u)) = txn_contents disk (txn u)" if "u \<in> set (subtxns s)" for u
      using that each [of "txn u"] by (force simp: txns_of_eq [of s] txns_of_eq [of u])
    then show ?thesis by (simp add: subs txns_of_eq)
  qed
  then show "forest_contents d (subtxns s') = forest_contents disk (subtxns s)" by (simp add: forest_contents_def o_def)
qed

lemma init_entry_spec:
  assumes ok: "forest_ok disk [s]" and ne: "0 < nentries (txn s)" and m: "0 < m" and run: "init_entry m disk s = (e, d, s')"
  shows "entry_ok d e (txn_contents disk (txn s))" "xid (ie_txn e) = xid (txn s)"
    "forest_ok d (subtxns s')" "forest_contents d (subtxns s') = forest_contents disk (subtxns s)"
    "xid ` set (concat (map txns_of (subtxns s'))) = xid ` set (concat (map txns_of (subtxns s)))"
    "\<And>x. x \<notin> xid ` set (txns_of s) \<Longrightarrow> d x = disk x"
proof -
  have wf: "txn_wf disk (txn s)" "forest_ok disk (subtxns s)" using forest_ok_Cons [OF ok] by simp_all
  have "entry_ok d e (txn_contents disk (txn s)) \<and> xid (ie_txn e) = xid (txn s) \<and> forest_ok d (subtxns s') \<and>
    forest_contents d (subtxns s') = forest_contents disk (subtxns s) \<and>
    xid ` set (concat (map txns_of (subtxns s'))) = xid ` set (concat (map txns_of (subtxns s))) \<and>
    (\<forall>x. x \<notin> xid ` set (txns_of s) \<longrightarrow> d x = disk x)"
  proof (cases "serialized (txn s)")
    case False
    then have "disk_changes disk (xid (txn s)) (first_seg (txn s)) (last_seg (txn s)) = []" using txn_wf_empty [OF wf(1)] by simp
    then have "changes (txn s) = txn_contents disk (txn s)" "unread_txn disk (txn s) None 0 = []" by (simp_all add: txn_contents_def unread_all)
    then show ?thesis using run False wf ne by (auto simp: init_entry_def entry_ok_def txn_wf_def)
  next
    case True
    obtain d1 s1 where ser: "ReorderBufferSerializeTXN disk s = (d1, s1)" by fastforce
    obtain n t fd segno where r: "ReorderBufferRestoreChanges m d1 (txn s1) None 0 = (n, t, fd, segno)" by (metis prod_cases4)
    note sp = spilled_forest [OF ok ser]
    have out: "e = \<lparr>ie_lsn = lsn (changes t ! 0), ie_change = 0, ie_txn = t, ie_fd = fd, ie_segno = segno\<rparr>" "d = d1" "s' = Txn t (subtxns s1)"
      using run True by (simp_all add: init_entry_def ser r)
    have first: "first_seg (txn s1) \<le> last_seg (txn s1)" using sp(2) by (simp add: txn_wf_def)
    have all: "unread_txn d1 (txn s1) None 0 = txn_contents disk (txn s)" using sp(1,3) by (simp add: unread_all txn_contents_def)
    note spec = restore_changes_spec [OF r first _ m, simplified, unfolded all]
    have "txn_contents disk (txn s) \<noteq> []" using nentries_contents [OF wf(1)] ne by simp
    then have "n \<noteq> 0" using spec(5) by blast
    moreover have "nentries (txn s1) = length (txn_contents disk (txn s))" using sp(2,3) by (simp add: txn_wf_def)
    moreover have "xid t = xid (txn s1)" "first_lsn t = first_lsn (txn s1)" "final_lsn t = final_lsn (txn s1)" "nentries t = nentries (txn s1)"
      "nentries_mem t = n" by (subst spec(1); simp)+
    moreover have "length (txn_contents disk (txn s)) = n + length (unread_txn d1 (txn s1) fd segno)" using spec(2) by (metis spec(3) length_append)
    ultimately have "entry_ok d1 e (txn_contents disk (txn s))" using spec(2,3,4) first by (simp add: out(1) entry_ok_def)
    then show ?thesis using sp \<open>xid t = xid (txn s1)\<close> by (simp add: out)
  qed
  then show "entry_ok d e (txn_contents disk (txn s))" "xid (ie_txn e) = xid (txn s)"
    "forest_ok d (subtxns s')" "forest_contents d (subtxns s') = forest_contents disk (subtxns s)"
    "xid ` set (concat (map txns_of (subtxns s'))) = xid ` set (concat (map txns_of (subtxns s)))"
    "\<And>x. x \<notin> xid ` set (txns_of s) \<Longrightarrow> d x = disk x" by blast+
qed

lemma init_subtxns_spec:
  assumes "forest_ok disk subs" "0 < m" "init_subtxns m disk subs = (es, d, subs')"
  shows "list_all2 (entry_ok d) es (filter (\<lambda>s. s \<noteq> []) (forest_contents disk subs)) \<and>
    (\<forall>e \<in> set es. xid (ie_txn e) \<in> xid ` set (concat (map txns_of subs))) \<and>
    (\<forall>x. x \<notin> xid ` set (concat (map txns_of subs)) \<longrightarrow> d x = disk x)"
  using assms
proof (induction subs arbitrary: disk es d subs')
  case Nil
  then show ?case by (simp add: forest_contents_def)
next
  case (Cons s subs)
  note parts = forest_ok_Cons [OF Cons.prems(1)]
  show ?case
  proof (cases "0 < nentries (txn s)")
    case False
    then obtain subs1 where "init_subtxns m disk subs = (es, d, subs1)" using Cons.prems(3) by (auto split: prod.splits)
    then show ?thesis using Cons.IH [of disk es d subs1] Cons.prems(2) False parts nentries_contents [of disk "txn s"]
      by (auto simp: forest_contents_def image_Un)
  next
    case True
    obtain e d1 s1 where r1: "init_entry m disk s = (e, d1, s1)" by (metis prod_cases3)
    obtain es1 d2 subs1 where r2: "init_subtxns m d1 subs = (es1, d2, subs1)" by (metis prod_cases3)
    have out: "es = e # es1" "d = d2" using Cons.prems(3) True r1 r2 by simp_all
    have ne: "txn_contents disk (txn s) \<noteq> []" using True nentries_contents [of disk "txn s"] parts by simp
    note en = init_entry_spec [OF conjunct1 [OF parts] True Cons.prems(2) r1]
    have same: "d1 x = disk x" if "x \<in> xid ` set (concat (map txns_of subs))" for x using en(6) [of x] parts that by blast
    note ih = Cons.IH [OF forest_frame(1) [OF conjunct1 [OF conjunct2 [OF parts]] same] Cons.prems(2) r2]
    have xe: "xid (ie_txn e) \<in> xid ` set (txns_of s)" by (simp add: en(2) txns_of_eq [of s])
    then have "d2 (xid (ie_txn e)) = d1 (xid (ie_txn e))" using ih parts by blast
    then have "entry_ok d2 e (txn_contents disk (txn s))" using en(1) entry_ok_frame by blast
    moreover have "forest_contents d1 subs = forest_contents disk subs" by (rule forest_frame(2) [OF conjunct1 [OF conjunct2 [OF parts]] same])
    moreover have "forest_contents disk (s # subs) = txn_contents disk (txn s) # forest_contents disk subs" by (simp add: forest_contents_def)
    ultimately have "list_all2 (entry_ok d) es (filter (\<lambda>s. s \<noteq> []) (forest_contents disk (s # subs)))" using ih ne by (simp add: out)
    moreover have "\<forall>e \<in> set es. xid (ie_txn e) \<in> xid ` set (concat (map txns_of (s # subs)))"
      using ih xe by (simp add: out image_Un)
    moreover have "d x = disk x" if "x \<notin> xid ` set (concat (map txns_of (s # subs)))" for x
      using that ih en(6) [of x] by (simp add: out image_Un)
    ultimately show ?thesis by blast
  qed
qed

lemma pending_all: "\<forall>s \<in> set seqs. s \<noteq> [] \<Longrightarrow> pending seqs = {..< length seqs}"
  by (auto simp: pending_def)

text \<open>The heap is filled in any order and built at the end.\<close>

lemma build_iter:
  fixes es :: "'a ReorderBufferIterTXNEntry list"
  assumes es: "list_all2 (entry_ok disk) es seqs" and n: "length es = n"
  shows "\<exists>h. add_all binaryheap_add_unordered (binaryheap_allocate mem n ReorderBufferIterCompare []) [0 ..< length es] = Inr h \<and>
    iter_inv disk \<lparr>heap = binaryheap_build (h\<lparr>bh_arg := es\<rparr>), entries = es, old_change = []\<rparr> seqs"
proof -
  let ?h0 = "binaryheap_allocate mem n ReorderBufferIterCompare ([] :: 'a ReorderBufferIterTXNEntry list)"
  have h0: "heap_wf ?h0" "bh_size ?h0 = 0" "bh_space ?h0 = n" "heap_elems ?h0 = {#}" "bh_compare ?h0 = ReorderBufferIterCompare"
    by (simp_all add: binaryheap_allocate_def heap_wf_def heap_elems_def)
  have room: "bh_size ?h0 + length [0 ..< length es] \<le> bh_space ?h0" using h0 n by simp
  obtain h where h: "add_all binaryheap_add_unordered ?h0 [0 ..< length es] = Inr h" "heap_wf h" "heap_elems h = mset [0 ..< length es]"
    "same_params ?h0 h" using heap_add_all_unordered_spec [OF h0(1) room] unfolding h0(4) add_0 by blast
  let ?g = "h\<lparr>bh_arg := es\<rparr>"
  have g: "heap_wf ?g" "heap_elems ?g = mset [0 ..< length es]" "bh_compare ?g = ReorderBufferIterCompare" "bh_arg ?g = es"
    using h(2,3,4) h0(5) by (simp_all add: heap_wf_def heap_elems_def same_params_def)
  have "comparator (heap_cmp ?g)" unfolding heap_cmp_iter [OF g(3)] by (rule iter_order.comparator_axioms)
  note b = heap_build_spec [OF this g(1)]
  have len: "length es = length seqs" using es by (rule list_all2_lengthD)
  have ok: "entry_ok disk (es ! i) (seqs ! i)" if "i < length seqs" for i using es that len by (simp add: list_all2_conv_all_nth)
  then have "\<forall>s \<in> set seqs. s \<noteq> []" using entry_ok_hd by (metis in_set_conv_nth)
  then have "pending seqs = {..< length seqs}" by (rule pending_all)
  moreover have "mset [0 ..< length es] = mset_set {..< length seqs}" using len by (simp add: lessThan_atLeast0)
  ultimately show ?thesis using h(1) b g len ok by (auto simp: iter_inv_def same_params_def)
qed

text \<open>The iterator of a transaction starts with all changes of it and of its subtransactions.\<close>

lemma iter_init_spec:
  assumes ok: "forest_ok disk [tree]" and m: "0 < m"
  shows "\<exists>st d tree'. ReorderBufferIterTXNInit m mem disk tree = Inr (st, d, tree') \<and>
    iter_inv d st (filter (\<lambda>s. s \<noteq> []) (forest_contents disk (tree # subtxns tree)))"
proof -
  note parts = forest_ok_Cons [OF ok]
  define first where "first = (if nentries (txn tree) > 0 then (case init_entry m disk tree of (e, disk, tree) \<Rightarrow> ([e], disk, tree)) else ([], disk, tree))"
  obtain es0 d0 tree1 where f: "first = (es0, d0, tree1)" by (metis prod_cases3)
  obtain es1 d1 subs1 where r: "init_subtxns m d0 (subtxns tree1) = (es1, d1, subs1)" by (metis prod_cases3)
  have one: "list_all2 (entry_ok d0) es0 (filter (\<lambda>s. s \<noteq> []) [txn_contents disk (txn tree)]) \<and> (\<forall>e \<in> set es0. xid (ie_txn e) = xid (txn tree)) \<and>
    forest_ok d0 (subtxns tree1) \<and> forest_contents d0 (subtxns tree1) = forest_contents disk (subtxns tree) \<and>
    xid ` set (concat (map txns_of (subtxns tree1))) = xid ` set (concat (map txns_of (subtxns tree)))"
  proof (cases "0 < nentries (txn tree)")
    case True
    obtain e where e: "init_entry m disk tree = (e, d0, tree1)" "es0 = [e]" using f True by (auto simp: first_def split: prod.splits)
    have "txn_contents disk (txn tree) \<noteq> []" using nentries_contents [of disk "txn tree"] parts True by simp
    then show ?thesis using init_entry_spec [OF ok True m e(1)] e(2) by simp
  next
    case False
    then show ?thesis using f parts nentries_contents [of disk "txn tree"] by (simp add: first_def)
  qed
  have two: "list_all2 (entry_ok d1) es1 (filter (\<lambda>s. s \<noteq> []) (forest_contents disk (subtxns tree)))"
    "\<And>x. x \<notin> xid ` set (concat (map txns_of (subtxns tree))) \<Longrightarrow> d1 x = d0 x"
    using init_subtxns_spec [OF _ m r] one by auto
  have "d1 (xid (txn tree)) = d0 (xid (txn tree))" using two(2) parts by blast
  then have "entry_ok d1 e s" if "e \<in> set es0" "entry_ok d0 e s" for e s using that one entry_ok_frame [of d1 e d0 s] by simp
  moreover have split: "filter (\<lambda>s. s \<noteq> []) (forest_contents disk (tree # subtxns tree)) =
    filter (\<lambda>s. s \<noteq> []) [txn_contents disk (txn tree)] @ filter (\<lambda>s. s \<noteq> []) (forest_contents disk (subtxns tree))"
    by (simp add: forest_contents_def)
  ultimately have "list_all2 (entry_ok d1) es0 (filter (\<lambda>s. s \<noteq> []) [txn_contents disk (txn tree)])"
    using one by (auto intro: list.rel_mono_strong)
  then have all: "list_all2 (entry_ok d1) (es0 @ es1) (filter (\<lambda>s. s \<noteq> []) (forest_contents disk (tree # subtxns tree)))"
    using list_all2_appendI [OF _ two(1)] by (simp only: split)
  have pos: "nentries (txn s) > 0 \<longleftrightarrow> txn_contents disk (txn s) \<noteq> []" if "s \<in> set (tree # subtxns tree)" for s
    using that parts forest_txn_wf [of disk "subtxns tree" s] nentries_contents [of disk "txn s"] by auto
  have "length (es0 @ es1) = length (filter (\<lambda>s. s \<noteq> []) (forest_contents disk (tree # subtxns tree)))" using all by (rule list_all2_lengthD)
  also have "\<dots> = length (filter (\<lambda>t. nentries (txn t) > 0) (tree # subtxns tree))"
    unfolding forest_contents_def filter_map length_map o_def using pos by (metis (mono_tags, lifting) filter_cong)
  finally obtain h where h: "add_all binaryheap_add_unordered (binaryheap_allocate mem
       (length (filter (\<lambda>t. nentries (txn t) > 0) (tree # subtxns tree))) ReorderBufferIterCompare []) [0 ..< length (es0 @ es1)] = Inr h"
    "iter_inv d1 \<lparr>heap = binaryheap_build (h\<lparr>bh_arg := es0 @ es1\<rparr>), entries = es0 @ es1, old_change = []\<rparr>
       (filter (\<lambda>s. s \<noteq> []) (forest_contents disk (tree # subtxns tree)))"
    using build_iter [OF all] by blast
  have "ReorderBufferIterTXNInit m mem disk tree = Inr (\<lparr>heap = binaryheap_build (h\<lparr>bh_arg := es0 @ es1\<rparr>), entries = es0 @ es1, old_change = []\<rparr>, d1, Txn (txn tree1) subs1)"
    unfolding ReorderBufferIterTXNInit_def Let_def first_def [symmetric] f prod.case r h(1) by simp
  then show ?thesis using h(2) by blast
qed

lemma iterator_spec:
  assumes ok: "forest_ok disk [tree]" and m: "0 < m" and n: "sum_list (map length (forest_contents disk (tree # subtxns tree))) < n"
  shows "\<exists>st d tree' out. ReorderBufferIterTXNInit m mem disk tree = Inr (st, d, tree') \<and> iterate_changes n m d st = Some out \<and>
    interleaves (forest_contents disk (tree # subtxns tree)) out \<and> sorted (map lsn out)"
proof -
  let ?seqs = "forest_contents disk (tree # subtxns tree)"
  obtain st d tree' where init: "ReorderBufferIterTXNInit m mem disk tree = Inr (st, d, tree')" "iter_inv d st (filter (\<lambda>s. s \<noteq> []) ?seqs)"
    using iter_init_spec [OF ok m] by blast
  have wf: "txn_wf disk (txn s)" if "s \<in> set (tree # subtxns tree)" for s
    using that forest_ok_Cons [OF ok] forest_txn_wf [of disk "subtxns tree" s] by auto
  then have sorted: "\<forall>s \<in> set (filter (\<lambda>s. s \<noteq> []) ?seqs). sorted (map lsn s)" by (auto simp: forest_contents_def txn_wf_def)
  have "sum_list (map length (filter (\<lambda>s. s \<noteq> []) ?seqs)) = sum_list (map length ?seqs)" by (rule sum_list_map_filter) simp
  then obtain out where "iterate_changes n m d st = Some out" "interleaves (filter (\<lambda>s. s \<noteq> []) ?seqs) out" "sorted (map lsn out)"
    using iterate_spec [OF init(2) m sorted, of n] n by auto
  then show ?thesis using init(1) interleaves_filter [of "[]" ?seqs out] by auto
qed

end
