(* ===== verification/ReorderDecode.thy ===== *)
theory ReorderDecode
  imports ReorderMerge
begin

text \<open>
  Decoding from end to end: the changes of a transaction and its subtransactions are queued in the order of the log, spilled
  whenever too many are in memory, and on commit the iterator returns exactly the queued
  changes, merged by their positions.
\<close>

subsection \<open>Merges of a split sequence\<close>

definition with_key :: "'k \<Rightarrow> ('k \<times> 'b) list \<Rightarrow> 'b list" where
  "with_key k evs = map snd (filter (\<lambda>e. fst e = k) evs)"

lemma with_key_simps [simp]:
  "with_key k [] = []" "with_key k (e # evs) = (if fst e = k then snd e # with_key k evs else with_key k evs)"
  "with_key k (evs @ fs) = with_key k evs @ with_key k fs"
  by (simp_all add: with_key_def)

text \<open>
  A sequence of elements with keys is merged if the elements of each key are taken in their order and the positions do not decrease. Elements
  of different keys may have the same position; then there is more than one merge.
\<close>

definition merge_of :: "('b \<Rightarrow> nat) \<Rightarrow> ('k \<times> 'b) list \<Rightarrow> 'b list \<Rightarrow> bool" where
  "merge_of p evs out \<longleftrightarrow> (\<exists>es. out = map snd es \<and> (\<forall>k. with_key k es = with_key k evs) \<and> sorted (map p out))"

lemma count_with_key: "count (mset es) e = count (mset (with_key (fst e) es)) (snd e)"
  by (induction es) (auto simp: prod_eq_iff)

lemma merge_mset:
  assumes "merge_of p evs out"
  shows "mset out = mset (map snd evs)"
proof -
  obtain es where "out = map snd es" "\<forall>k. with_key k es = with_key k evs" using assms by (auto simp: merge_of_def)
  moreover from this have "mset es = mset evs" by (intro multiset_eqI) (metis count_with_key)
  ultimately show ?thesis by simp
qed

text \<open>If elements at one position have the same key there is only one merge.\<close>

definition in_order :: "('b \<Rightarrow> nat) \<Rightarrow> ('k \<times> 'b) list \<Rightarrow> bool" where
  "in_order p = sorted_wrt (\<lambda>a b. p (snd a) < p (snd b) \<or> p (snd a) = p (snd b) \<and> fst a = fst b)"

lemma merge_unique:
  assumes "merge_of p evs out" "in_order p evs"
  shows "out = map snd evs"
proof -
  obtain es where "out = map snd es" "\<forall>k. with_key k es = with_key k evs" "sorted (map p (map snd es))" using assms(1) by (auto simp: merge_of_def)
  moreover have "es = evs" if "\<forall>k. with_key k es = with_key k evs" "sorted (map p (map snd es))" "in_order p evs" for es
    using that
  proof (induction evs arbitrary: es)
    case Nil
    then show ?case by (cases es) (auto split: if_splits)
  next
    case (Cons e evs)
    have e: "with_key (fst e) es = snd e # with_key (fst e) evs" using Cons.prems(1) by simp
    then obtain f fs where f: "es = f # fs" by (cases es) auto
    have mem: "snd e \<in> set (map snd es)" using arg_cong [OF e, of set] by (auto simp: with_key_def)
    have "fst f = fst e"
    proof (rule ccontr)
      assume ne: "fst f \<noteq> fst e"
      then have "snd f \<in> set (with_key (fst f) evs)" using Cons.prems(1) [rule_format, of "fst f"] f by (metis list.set_intros(1) with_key_simps(2))
      then obtain g where "g \<in> set evs" "fst g = fst f" "snd g = snd f" by (auto simp: with_key_def)
      then have "p (snd e) < p (snd f)" using Cons.prems(3) ne by (auto simp: in_order_def)
      moreover have "p (snd f) \<le> p (snd e)" using mem Cons.prems(2) f by auto
      ultimately show False by simp
    qed
    moreover from this have "snd f = snd e" using e f by simp
    ultimately have fe: "f = e" by (simp add: prod_eq_iff)
    have "with_key k fs = with_key k evs" for k using Cons.prems(1) [rule_format, of k] f fe by (auto split: if_splits)
    then show ?case using Cons.IH [of fs] Cons.prems f fe by (simp add: in_order_def)
  qed
  ultimately show ?thesis using assms(2) by blast
qed

lemma length_with_keys:
  "distinct ks \<Longrightarrow> fst ` set evs \<subseteq> set ks \<Longrightarrow> sum_list (map (\<lambda>k. length (with_key k evs)) ks) = length evs"
proof (induction evs)
  case (Cons e evs)
  have "length (with_key k (e # evs)) = length (with_key k evs) + (if k = fst e then 1 else 0)" for k by simp
  then show ?case using Cons by (simp only: sum_list_addf) (simp add: sum_list_distinct_conv_sum_set)
qed (simp add: sum_list_triv)

lemma interleaves_keys:
  assumes "interleaves xss out" "xss = map f ks" "distinct ks"
  shows "\<exists>es. out = map snd es \<and> (\<forall>k. with_key k es = (if k \<in> set ks then f k else []))"
  using assms
proof (induction arbitrary: f rule: interleaves.induct)
  case (interleaves_done xss)
  then show ?case by (intro exI [of _ "[]"]) auto
next
  case (interleaves_take i xss x xs ys)
  define g where "g = f(ks ! i := xs)"
  have i: "i < length ks" "f (ks ! i) = x # xs" using interleaves_take.hyps(1,2) interleaves_take.prems(1) by simp_all
  have "xss[i := xs] = map g ks"
  proof (rule nth_equalityI)
    show "xss[i := xs] ! k = map g ks ! k" if "k < length (xss[i := xs])" for k
      using that i(1) interleaves_take.prems by (cases "k = i") (auto simp: g_def nth_eq_iff_index_eq)
  qed (simp add: interleaves_take.prems(1))
  then obtain es where es: "ys = map snd es" "\<forall>k. with_key k es = (if k \<in> set ks then g k else [])"
    using interleaves_take.IH interleaves_take.prems(2) by blast
  then have "\<forall>k. with_key k ((ks ! i, x) # es) = (if k \<in> set ks then f k else [])" using i by (auto simp: g_def)
  then show ?case using es(1) by (intro exI [of _ "(ks ! i, x) # es"]) simp
qed

lemma interleaves_merge:
  assumes "interleaves (map (\<lambda>k. with_key k evs) ks) out" "distinct ks" "fst ` set evs \<subseteq> set ks" "sorted (map p out)"
  shows "merge_of p evs out"
proof -
  obtain es where "out = map snd es" "\<forall>k. with_key k es = (if k \<in> set ks then with_key k evs else [])"
    using interleaves_keys [OF assms(1) refl assms(2)] by blast
  moreover have "with_key k evs = []" if "k \<notin> set ks" for k using that assms(3) by (auto simp: with_key_def filter_empty_conv)
  ultimately show ?thesis using assms(4) unfolding merge_of_def by metis
qed

subsection \<open>Spilling and queueing keep the contents of every transaction\<close>

text \<open>All transactions of a forest are well formed, and the contents of each are given by \<open>f\<close>.\<close>

definition forest_holds :: "'a spill \<Rightarrow> 'a txn_tree list \<Rightarrow> (nat \<Rightarrow> 'a ReorderBufferChange list) \<Rightarrow> bool" where
  "forest_holds disk subs f \<longleftrightarrow> forest_ok disk subs \<and> (\<forall>t \<in> set (concat (map txns_of subs)). txn_contents disk t = f (xid t))"

abbreviation forest_ids :: "'a txn_tree list \<Rightarrow> (nat \<times> XLogRecPtr \<times> XLogRecPtr) list" where
  "forest_ids subs \<equiv> map (\<lambda>t. (xid t, first_lsn t, final_lsn t)) (concat (map txns_of subs))"

abbreviation forest_xids :: "'a txn_tree list \<Rightarrow> nat set" where
  "forest_xids subs \<equiv> xid ` set (concat (map txns_of subs))"

lemma forest_xids_ids: "forest_xids subs = fst ` set (forest_ids subs)"
  by (simp only: set_map image_image fst_conv)

lemma forest_holds_frame:
  assumes "forest_holds disk subs f" "\<And>x. x \<in> forest_xids subs \<Longrightarrow> disk' x = disk x \<and> f' x = f x"
  shows "forest_holds disk' subs f'"
proof -
  have "txn_contents disk' t = txn_contents disk t \<and> f' (xid t) = f (xid t)" if "t \<in> set (concat (map txns_of subs))" for t
    using assms(2) [OF imageI [OF that]] txn_cong [of disk' t disk] by simp
  then show ?thesis using assms forest_frame(1) [of disk subs disk'] by (auto simp: forest_holds_def)
qed

lemma forest_holds_Cons: "forest_holds disk (s # subs) f \<longleftrightarrow>
    forest_holds disk [s] f \<and> forest_holds disk subs f \<and> forest_xids [s] \<inter> forest_xids subs = {}"
  by (auto simp: forest_holds_def forest_ok_def)

lemma forest_holds_Txn: "forest_holds disk [Txn t subs] f \<longleftrightarrow>
    txn_wf disk t \<and> txn_contents disk t = f (xid t) \<and> forest_holds disk subs f \<and> xid t \<notin> forest_xids subs"
  by (auto simp: forest_holds_def forest_ok_def)

lemma serialize_holds:
  assumes "forest_holds disk [s] f" "ReorderBufferSerializeTXN disk s = (d, s')"
  shows "forest_holds d [s'] f" "forest_ids [s'] = forest_ids [s]" "\<And>x. x \<notin> forest_xids [s] \<Longrightarrow> d x = disk x"
proof -
  have wf: "distinct (map xid (txns_of s))" "\<forall>t \<in> set (txns_of s). txn_wf disk t" "\<forall>t \<in> set (txns_of s). txn_contents disk t = f (xid t)"
    using assms(1) by (simp_all add: forest_holds_def forest_ok_def)
  note spec = serialize_txn_spec(1) [OF wf(1,2) assms(2)]
  have "txns_of s' = map spilled (txns_of s)" using spec by simp
  then show "forest_holds d [s'] f" "forest_ids [s'] = forest_ids [s]" using spec wf by (simp_all add: forest_holds_def forest_ok_def o_def)
  show "\<And>x. x \<notin> forest_xids [s] \<Longrightarrow> d x = disk x" using spec by simp
qed

text \<open>A change queued to the root of a tree, at a position after all its changes and not after its final position.\<close>

lemma txn_append_wf:
  assumes wf: "txn_wf disk t" and pos: "\<forall>c \<in> set (txn_contents disk t). lsn c \<le> lsn change" "first_lsn t \<le> lsn change" "lsn change \<le> final_lsn t"
  defines "t' \<equiv> t\<lparr>changes := changes t @ [change], nentries := nentries t + 1, nentries_mem := nentries_mem t + 1\<rparr>"
  shows "txn_wf disk t'" "txn_contents disk t' = txn_contents disk t @ [change]"
proof -
  have "first_seg t \<le> seg change" "seg change \<le> last_seg t" using pos(2,3) by (simp_all add: div_le_mono)
  then show "txn_wf disk t'" "txn_contents disk t' = txn_contents disk t @ [change]"
    using wf pos(1) by (auto simp: txn_wf_def txn_contents_def t'_def sorted_append)
qed

lemma queue_change_holds:
  assumes h: "forest_holds disk [s] f" and run: "queue_change m disk s pos change = (d, s')"
    and pos: "\<forall>c \<in> set (f (xid (txn s))). lsn c \<le> pos" "first_lsn (txn s) \<le> pos" "pos \<le> final_lsn (txn s)"
  shows "forest_holds d [s'] (f(xid (txn s) := f (xid (txn s)) @ [change\<lparr>lsn := pos\<rparr>]))" "forest_ids [s'] = forest_ids [s]"
    "\<And>x. x \<notin> forest_xids [s] \<Longrightarrow> d x = disk x"
proof -
  obtain t subs where s: "s = Txn t subs" by (cases s)
  define c where "c = change\<lparr>lsn := pos\<rparr>"
  define t1 where "t1 = t\<lparr>changes := changes t @ [c], nentries := nentries t + 1, nentries_mem := nentries_mem t + 1\<rparr>"
  let ?f = "f(xid t := f (xid t) @ [c])" and ?s1 = "Txn t1 subs"
  have t: "txn_wf disk t" "txn_contents disk t = f (xid t)" "forest_holds disk subs f" "xid t \<notin> forest_xids subs"
    using h unfolding s forest_holds_Txn by simp_all
  have t1: "txn_wf disk t1" "txn_contents disk t1 = f (xid t) @ [c]" "xid t1 = xid t" "first_lsn t1 = first_lsn t" "final_lsn t1 = final_lsn t"
    using txn_append_wf [OF t(1), of c] pos t(2) by (simp_all add: t1_def c_def s)
  have "?f x = f x" if "x \<in> forest_xids subs" for x using that t(4) by (cases "x = xid t") simp_all
  then have "forest_holds disk subs ?f" using forest_holds_frame [OF t(3), of disk ?f] by blast
  then have s1: "forest_holds disk [?s1] ?f" using t1 t(4) by (simp add: forest_holds_Txn)
  have ids: "forest_ids [?s1] = forest_ids [s]" by (simp add: s t1)
  then have xids: "forest_xids [?s1] = forest_xids [s]" by (simp only: forest_xids_ids)
  have step: "(if nentries_mem t1 \<ge> m then ReorderBufferSerializeTXN disk ?s1 else (disk, ?s1)) = (d, s')"
    using run unfolding queue_change_def ReorderBufferCheckSerializeTXN_def s t1_def c_def Let_def txn_tree.sel .
  have "forest_holds d [s'] ?f \<and> forest_ids [s'] = forest_ids [s] \<and> (\<forall>x. x \<notin> forest_xids [s] \<longrightarrow> d x = disk x)"
  proof (cases "nentries_mem t1 \<ge> m")
    case True
    then have ser: "ReorderBufferSerializeTXN disk ?s1 = (d, s')" using step by (simp only: if_True)
    show ?thesis using serialize_holds [OF s1 ser] unfolding ids xids by blast
  next
    case False
    then show ?thesis using step s1 ids by (simp only: if_False Pair_inject) simp
  qed
  then show "forest_holds d [s'] (f(xid (txn s) := f (xid (txn s)) @ [change\<lparr>lsn := pos\<rparr>]))" "forest_ids [s'] = forest_ids [s]"
    "\<And>x. x \<notin> forest_xids [s] \<Longrightarrow> d x = disk x" by (simp_all add: s c_def)
qed

subsection \<open>The position of the commit record is not needed before the commit\<close>

text \<open>A tree with the final position that the commit record gives to every transaction in it.\<close>

definition commit_child :: "XLogRecPtr \<Rightarrow> 'a txn_tree \<Rightarrow> 'a txn_tree" where
  "commit_child commit_lsn s = Txn ((txn s)\<lparr>final_lsn := commit_lsn\<rparr>) (subtxns s)"

definition commit_tree :: "XLogRecPtr \<Rightarrow> 'a txn_tree \<Rightarrow> 'a txn_tree" where
  "commit_tree commit_lsn tree =
    (let subs = map (commit_child commit_lsn) (subtxns tree)
     in Txn ((txn tree)\<lparr>final_lsn := commit_lsn\<rparr>) subs)"

definition flat :: "'a txn_tree \<Rightarrow> bool" where
  "flat tree \<longleftrightarrow> (\<forall>s \<in> set (subtxns tree). subtxns s = [])"

lemma serialize_leaf_commit:
  "ReorderBufferSerializeTXN disk s = (d, s') \<Longrightarrow> subtxns s = [] \<Longrightarrow>
    ReorderBufferSerializeTXN disk (commit_child F s) = (d, commit_child F s') \<and> subtxns s' = []"
  by (cases s) (auto simp: commit_child_def)

lemma serialize_subtxns_commit:
  "serialize_subtxns disk subs = (d, subs') \<Longrightarrow> \<forall>s \<in> set subs. subtxns s = [] \<Longrightarrow>
    serialize_subtxns disk (map (commit_child F) subs) = (d, map (commit_child F) subs') \<and> (\<forall>s \<in> set subs'. subtxns s = [])"
proof (induction subs arbitrary: disk d subs')
  case (Cons s subs)
  obtain d1 s1 where r1: "ReorderBufferSerializeTXN disk s = (d1, s1)" by fastforce
  obtain d2 subs1 where r2: "serialize_subtxns d1 subs = (d2, subs1)" by fastforce
  show ?case using Cons.IH [OF r2] serialize_leaf_commit [OF r1, of F] Cons.prems r1 r2 by auto
qed simp

lemma serialize_commit:
  assumes "ReorderBufferSerializeTXN disk tree = (d, tree')" "flat tree"
  shows "ReorderBufferSerializeTXN disk (commit_tree F tree) = (d, commit_tree F tree') \<and> flat tree'"
proof -
  obtain t subs where tree: "tree = Txn t subs" by (cases tree)
  obtain d1 subs1 where r: "serialize_subtxns disk subs = (d1, subs1)" by fastforce
  show ?thesis using assms serialize_subtxns_commit [OF r, of F] r by (auto simp: tree commit_tree_def flat_def)
qed

lemma commit_leaf: "subtxns s = [] \<Longrightarrow> commit_tree F s = commit_child F s"
  by (simp add: commit_tree_def commit_child_def)

lemma queue_change_commit:
  assumes "queue_change m disk tree pos change = (d, tree')" "flat tree"
  shows "queue_change m disk (commit_tree F tree) pos change = (d, commit_tree F tree') \<and> flat tree' \<and>
    (subtxns tree = [] \<longrightarrow> subtxns tree' = [])"
proof -
  obtain t subs where tree: "tree = Txn t subs" by (cases tree)
  define t1 where "t1 = t\<lparr>changes := changes t @ [change\<lparr>lsn := pos\<rparr>], nentries := nentries t + 1, nentries_mem := nentries_mem t + 1\<rparr>"
  have flat1: "flat (Txn t1 subs)" using assms(2) by (simp add: tree flat_def)
  have run: "queue_change m disk tree pos change = ReorderBufferCheckSerializeTXN m disk (Txn t1 subs)"
    by (simp add: queue_change_def tree t1_def Let_def)
  have run': "queue_change m disk (commit_tree F tree) pos change = ReorderBufferCheckSerializeTXN m disk (commit_tree F (Txn t1 subs))"
    by (cases t) (simp add: queue_change_def tree t1_def commit_tree_def Let_def)
  show ?thesis
  proof (cases "nentries_mem t1 \<ge> m")
    case True
    then have r: "ReorderBufferSerializeTXN disk (Txn t1 subs) = (d, tree')"
      using run assms(1) by (simp add: ReorderBufferCheckSerializeTXN_def del: ReorderBufferSerializeTXN.simps)
    have "subs = [] \<longrightarrow> subtxns tree' = []" using r by auto
    moreover have "ReorderBufferCheckSerializeTXN m disk (commit_tree F (Txn t1 subs)) = ReorderBufferSerializeTXN disk (commit_tree F (Txn t1 subs))"
      using True by (simp add: ReorderBufferCheckSerializeTXN_def commit_tree_def)
    ultimately show ?thesis unfolding run' using serialize_commit [OF r flat1, of F] by (simp add: tree)
  next
    case False
    then have "tree' = Txn t1 subs" "d = disk" using run assms(1) by (simp_all add: ReorderBufferCheckSerializeTXN_def)
    then show ?thesis unfolding run' using False flat1 by (simp add: ReorderBufferCheckSerializeTXN_def commit_tree_def tree)
  qed
qed

lemma flat_txns: "flat tree \<Longrightarrow> concat (map txns_of [tree]) = map txn (tree # subtxns tree)"
proof -
  assume "flat tree"
  then have "map txns_of (subtxns tree) = map (\<lambda>s. [txn s]) (subtxns tree)" by (simp add: flat_def txns_of_eq)
  then have "concat (map txns_of (subtxns tree)) = map txn (subtxns tree)" by (simp only: concat_map_singleton)
  then show ?thesis by (simp add: txns_of_eq [of tree])
qed

subsection \<open>Decoding\<close>

lemma commit_flat: "flat tree \<Longrightarrow> flat (commit_tree F tree)"
  by (simp add: flat_def commit_tree_def commit_child_def)

text \<open>A flat tree whose contents are a split sequence is decoded to a merge of that sequence.\<close>

lemma decode_tree:
  fixes evs :: "(nat \<times> 'a ReorderBufferChange) list"
  assumes holds: "forest_holds disk [tree] (\<lambda>y. with_key y evs)" and flat: "flat tree" and m: "0 < m"
    and keys: "fst ` set evs \<subseteq> forest_xids [tree]" and n: "length evs < n"
  shows "\<exists>st d tree' out. ReorderBufferIterTXNInit m mem disk tree = Inr (st, d, tree') \<and> iterate_changes n m d st = Some out \<and> merge_of lsn evs out"
proof -
  let ?ks = "map xid (map txn (tree # subtxns tree))"
  have txns: "concat (map txns_of [tree]) = map txn (tree # subtxns tree)" by (rule flat_txns [OF flat])
  have ok: "forest_ok disk [tree]" using holds by (simp add: forest_holds_def)
  have dist: "distinct ?ks" using ok unfolding forest_ok_def txns by simp
  have keys': "fst ` set evs \<subseteq> set ?ks" using keys unfolding txns set_map .
  have contents: "forest_contents disk (tree # subtxns tree) = map (\<lambda>y. with_key y evs) ?ks"
    using holds unfolding forest_holds_def txns by (auto simp: forest_contents_def)
  have len: "sum_list (map length (forest_contents disk (tree # subtxns tree))) < n"
    unfolding contents using length_with_keys [OF dist keys'] n by (simp only: map_map o_def)
  obtain st d tree' out where out: "ReorderBufferIterTXNInit m mem disk tree = Inr (st, d, tree')" "iterate_changes n m d st = Some out"
    "interleaves (map (\<lambda>y. with_key y evs) ?ks) out" "sorted (map lsn out)"
    using iterator_spec [OF ok m len, of mem] unfolding contents by blast
  have "merge_of lsn evs out" by (rule interleaves_merge [OF out(3) dist keys' out(4)])
  then show ?thesis using out(1,2) by blast
qed

end
