(* ===== verification/ReorderTable.thy ===== *)
theory ReorderTable
  imports ReorderBuffer
begin

text \<open>
  The transaction table of the reorder buffer
  (\<^verbatim>\<open>src/src/gausskernel/storage/replication/logical/reorderbuffer.cpp\<close>): lookup with its one-entry cache, the
  list of top-level transactions, the assignment of subtransactions, base snapshots, and the calls that end a transaction.

  A pointer to a transaction is modelled by its xid, the list nodes embedded in a transaction by lists of xids; dereferencing a pointer to a transaction
  that is not in the table any more is \<open>None\<close>. Snapshots are arbitrary data \<open>'s\<close>, the slab caches that recycle memory are not modelled. Xids are nonzero
  (\<open>0\<close> is \<^verbatim>\<open>InvalidTransactionId\<close>).
\<close>

subsection \<open>State\<close>

record ('a, 's) rb_txn =
  body :: "'a ReorderBufferTXN"
  has_catalog_changes :: bool
  is_known_as_subxact :: bool
  toplevel_xid :: nat
  base_snapshot :: "'s option"
  base_snapshot_lsn :: XLogRecPtr
  subxids :: "nat list"
  nsubtxns :: nat
  tuplecids :: "'a ReorderBufferChange list"
  ntuplecids :: nat

record ('a, 's) ReorderBuffer =
  by_txn :: "nat \<rightharpoonup> ('a, 's) rb_txn"
  toplevel_by_lsn :: "nat list"
  txns_by_base_snapshot_lsn :: "nat list"
  by_txn_last_xid :: nat
  by_txn_last_txn :: "nat option"
  rb_disk :: "'a spill"

definition ReorderBufferAllocate :: "('a, 's) ReorderBuffer" where
  "ReorderBufferAllocate = \<lparr>by_txn = Map.empty, toplevel_by_lsn = [], txns_by_base_snapshot_lsn = [],
     by_txn_last_xid = 0, by_txn_last_txn = None, rb_disk = (\<lambda>_ _. None)\<rparr>"

definition ReorderBufferGetTXN :: "nat \<Rightarrow> XLogRecPtr \<Rightarrow> ('a, 's) rb_txn" where
  "ReorderBufferGetTXN x pos =
    \<lparr>body = new_txn x pos, has_catalog_changes = False, is_known_as_subxact = False, toplevel_xid = 0,
     base_snapshot = None, base_snapshot_lsn = 0, subxids = [], nsubtxns = 0, tuplecids = [], ntuplecids = 0\<rparr>"

abbreviation node_of :: "('a, 's) ReorderBuffer \<Rightarrow> nat \<Rightarrow> ('a, 's) rb_txn" where
  "node_of rb x \<equiv> the (by_txn rb x)"

definition upd_node :: "nat \<Rightarrow> (('a, 's) rb_txn \<Rightarrow> ('a, 's) rb_txn) \<Rightarrow> ('a, 's) ReorderBuffer \<Rightarrow> ('a, 's) ReorderBuffer" where
  "upd_node x f rb = rb\<lparr>by_txn := (by_txn rb)(x := map_option f (by_txn rb x))\<rparr>"

subsection \<open>Lookup\<close>

text \<open>
  The result is the transaction or \<^verbatim>\<open>NULL\<close>, whether it was created, and the new state. On the path
  that returns a cached \<^verbatim>\<open>NULL\<close> the code leaves its output parameter alone; no caller asks for it there.
\<close>

definition ReorderBufferTXNByXid ::
  "('a, 's) ReorderBuffer \<Rightarrow> nat \<Rightarrow> bool \<Rightarrow> XLogRecPtr \<Rightarrow> bool \<Rightarrow> nat option \<times> bool \<times> ('a, 's) ReorderBuffer" where
  "ReorderBufferTXNByXid rb x create pos create_as_top =
    (let cached = (by_txn_last_xid rb \<noteq> 0 \<and> by_txn_last_xid rb = x)
     in if cached \<and> by_txn_last_txn rb \<noteq> None then (by_txn_last_txn rb, False, rb)
        else if cached \<and> \<not> create then (None, False, rb)
        else
          (let found = (by_txn rb x \<noteq> None);
               rb = (if \<not> found \<and> create then
                       (let rb = rb\<lparr>by_txn := (by_txn rb)(x \<mapsto> ReorderBufferGetTXN x pos)\<rparr>
                        in if create_as_top then rb\<lparr>toplevel_by_lsn := toplevel_by_lsn rb @ [x]\<rparr> else rb)
                     else rb);
               t = (if found \<or> create then Some x else None)
           in (t, \<not> found, rb\<lparr>by_txn_last_xid := x, by_txn_last_txn := t\<rparr>)))"

definition ReorderBufferProcessXid :: "('a, 's) ReorderBuffer \<Rightarrow> nat \<Rightarrow> XLogRecPtr \<Rightarrow> ('a, 's) ReorderBuffer" where
  "ReorderBufferProcessXid rb x pos = (if x \<noteq> 0 then snd (snd (ReorderBufferTXNByXid rb x True pos True)) else rb)"

definition ReorderBufferXidSetCatalogChanges :: "('a, 's) ReorderBuffer \<Rightarrow> nat \<Rightarrow> XLogRecPtr \<Rightarrow> ('a, 's) ReorderBuffer" where
  "ReorderBufferXidSetCatalogChanges rb x pos =
    (let (_, _, rb) = ReorderBufferTXNByXid rb x True pos True in upd_node x (\<lambda>t. t\<lparr>has_catalog_changes := True\<rparr>) rb)"

definition ReorderBufferXidHasCatalogChanges :: "('a, 's) ReorderBuffer \<Rightarrow> nat \<Rightarrow> bool \<times> ('a, 's) ReorderBuffer" where
  "ReorderBufferXidHasCatalogChanges rb x =
    (case ReorderBufferTXNByXid rb x False 0 False of
       (None, _, rb) \<Rightarrow> (False, rb)
     | (Some t, _, rb) \<Rightarrow> (has_catalog_changes (node_of rb t), rb))"

text \<open>The oldest transaction and the oldest snapshot, the heads of the two lists.\<close>

definition ReorderBufferGetOldestTXN :: "('a, 's) ReorderBuffer \<Rightarrow> nat option" where
  "ReorderBufferGetOldestTXN rb = (case toplevel_by_lsn rb of [] \<Rightarrow> None | x # _ \<Rightarrow> Some x)"

definition ReorderBufferGetOldestXmin :: "('s \<Rightarrow> nat) \<Rightarrow> ('a, 's) ReorderBuffer \<Rightarrow> nat" where
  "ReorderBufferGetOldestXmin snap_xmin rb =
    (case txns_by_base_snapshot_lsn rb of [] \<Rightarrow> 0 | x # _ \<Rightarrow> snap_xmin (the (base_snapshot (node_of rb x))))"

subsection \<open>Subtransactions\<close>

text \<open>
  The node of the top-level transaction is inserted before that of the subtransaction, which is then deleted: it takes its place.
\<close>

definition ReorderBufferTransferSnapToParent :: "nat \<Rightarrow> nat \<Rightarrow> ('a, 's) ReorderBuffer \<Rightarrow> ('a, 's) ReorderBuffer" where
  "ReorderBufferTransferSnapToParent x sub rb =
    (let t = node_of rb x; s = node_of rb sub
     in if base_snapshot s = None then rb
        else if base_snapshot t = None \<or> base_snapshot_lsn s < base_snapshot_lsn t then
          (let rb = (if base_snapshot t \<noteq> None
                     then rb\<lparr>txns_by_base_snapshot_lsn := remove1 x (txns_by_base_snapshot_lsn rb)\<rparr> else rb);
               rb = upd_node x (\<lambda>t. t\<lparr>base_snapshot := base_snapshot s, base_snapshot_lsn := base_snapshot_lsn s\<rparr>) rb;
               rb = rb\<lparr>txns_by_base_snapshot_lsn :=
                        takeWhile (\<lambda>y. y \<noteq> sub) (txns_by_base_snapshot_lsn rb) @ x # dropWhile (\<lambda>y. y \<noteq> sub) (txns_by_base_snapshot_lsn rb)\<rparr>;
               rb = upd_node sub (\<lambda>s. s\<lparr>base_snapshot := None, base_snapshot_lsn := 0\<rparr>) rb
           in rb\<lparr>txns_by_base_snapshot_lsn := remove1 sub (txns_by_base_snapshot_lsn rb)\<rparr>)
        else
          upd_node sub (\<lambda>s. s\<lparr>base_snapshot := None, base_snapshot_lsn := 0\<rparr>)
            (rb\<lparr>txns_by_base_snapshot_lsn := remove1 sub (txns_by_base_snapshot_lsn rb)\<rparr>))"

definition ReorderBufferAssignChild :: "('a, 's) ReorderBuffer \<Rightarrow> nat \<Rightarrow> nat \<Rightarrow> XLogRecPtr \<Rightarrow> ('a, 's) ReorderBuffer" where
  "ReorderBufferAssignChild rb x sub pos =
    (let (_, new_top, rb) = ReorderBufferTXNByXid rb x True pos True;
         (_, new_sub, rb) = ReorderBufferTXNByXid rb sub True pos False
     in if new_top \<and> \<not> new_sub then rb
        else if \<not> new_sub \<and> is_known_as_subxact (node_of rb sub) then rb
        else
          (let rb = (if \<not> new_sub then rb\<lparr>toplevel_by_lsn := remove1 sub (toplevel_by_lsn rb)\<rparr> else rb);
               rb = upd_node sub (\<lambda>s. s\<lparr>is_known_as_subxact := True, toplevel_xid := x\<rparr>) rb;
               rb = upd_node x (\<lambda>t. t\<lparr>subxids := subxids t @ [sub], nsubtxns := nsubtxns t + 1\<rparr>) rb
           in ReorderBufferTransferSnapToParent x sub rb))"

definition set_final :: "nat \<Rightarrow> XLogRecPtr \<Rightarrow> ('a, 's) ReorderBuffer \<Rightarrow> ('a, 's) ReorderBuffer" where
  "set_final x pos = upd_node x (\<lambda>t. t\<lparr>body := (body t)\<lparr>final_lsn := pos\<rparr>\<rparr>)"

definition ReorderBufferCommitChild :: "('a, 's) ReorderBuffer \<Rightarrow> nat \<Rightarrow> nat \<Rightarrow> XLogRecPtr \<Rightarrow> ('a, 's) ReorderBuffer" where
  "ReorderBufferCommitChild rb x sub commit_lsn =
    (case ReorderBufferTXNByXid rb sub False 0 False of
       (None, _, rb) \<Rightarrow> rb
     | (Some _, _, rb) \<Rightarrow> ReorderBufferAssignChild (set_final sub commit_lsn rb) x sub 0)"

definition ReorderBufferSetBaseSnapshot ::
  "('a, 's) ReorderBuffer \<Rightarrow> nat \<Rightarrow> XLogRecPtr \<Rightarrow> 's \<Rightarrow> ('a, 's) ReorderBuffer result" where
  "ReorderBufferSetBaseSnapshot rb x pos snap =
    (let (t, _, rb) = ReorderBufferTXNByXid rb x True pos True;
         (t, rb) = (if is_known_as_subxact (node_of rb x)
                    then (case ReorderBufferTXNByXid rb (toplevel_xid (node_of rb x)) False 0 False of (t, _, rb) \<Rightarrow> (t, rb))
                    else (t, rb))
     in case t of
          None \<Rightarrow> Inl (Ereport ERROR ERRCODE_FEATURE_NOT_SUPPORTED)
        | Some y \<Rightarrow>
            Inr ((upd_node y (\<lambda>t. t\<lparr>base_snapshot := Some snap, base_snapshot_lsn := pos\<rparr>) rb)
                 \<lparr>txns_by_base_snapshot_lsn := txns_by_base_snapshot_lsn rb @ [y]\<rparr>))"

definition ReorderBufferXidHasBaseSnapshot :: "('a, 's) ReorderBuffer \<Rightarrow> nat \<Rightarrow> bool \<times> ('a, 's) ReorderBuffer" where
  "ReorderBufferXidHasBaseSnapshot rb x =
    (case ReorderBufferTXNByXid rb x False 0 False of
       (None, _, rb) \<Rightarrow> (False, rb)
     | (Some t, _, rb) \<Rightarrow>
         (if is_known_as_subxact (node_of rb t) then
            (case ReorderBufferTXNByXid rb (toplevel_xid (node_of rb t)) False 0 False of
               (None, _, rb) \<Rightarrow> (False, rb)
             | (Some y, _, rb) \<Rightarrow> (base_snapshot (node_of rb y) \<noteq> None, rb))
          else (base_snapshot (node_of rb t) \<noteq> None, rb)))"

subsection \<open>Changes\<close>

text \<open>The transaction with its subtransactions, read from the table and written back.\<close>

definition tree_of :: "('a, 's) ReorderBuffer \<Rightarrow> nat \<Rightarrow> 'a txn_tree" where
  "tree_of rb x = Txn (body (node_of rb x)) (map (\<lambda>y. Txn (body (node_of rb y)) []) (subxids (node_of rb x)))"

definition put_tree :: "'a txn_tree \<Rightarrow> ('a, 's) ReorderBuffer \<Rightarrow> ('a, 's) ReorderBuffer" where
  "put_tree tree = fold (\<lambda>b. upd_node (xid b) (\<lambda>t. t\<lparr>body := b\<rparr>)) (txn tree # map txn (subtxns tree))"

definition ReorderBufferQueueChange ::
  "nat \<Rightarrow> ('a, 's) ReorderBuffer \<Rightarrow> nat \<Rightarrow> XLogRecPtr \<Rightarrow> 'a ReorderBufferChange \<Rightarrow> ('a, 's) ReorderBuffer" where
  "ReorderBufferQueueChange m rb x pos change =
    (let (_, _, rb) = ReorderBufferTXNByXid rb x True pos True;
         (disk, tree) = queue_change m (rb_disk rb) (tree_of rb x) pos change
     in put_tree tree (rb\<lparr>rb_disk := disk\<rparr>))"

text \<open>Internal changes are queued with the others; \<open>change\<close> is the cleared change that \<^verbatim>\<open>ReorderBufferGetChange\<close> returns.\<close>

definition ReorderBufferAddSnapshot ::
  "nat \<Rightarrow> 'a ReorderBufferChange \<Rightarrow> ('a, 's) ReorderBuffer \<Rightarrow> nat \<Rightarrow> XLogRecPtr \<Rightarrow> 'a \<Rightarrow> ('a, 's) ReorderBuffer" where
  "ReorderBufferAddSnapshot m change rb x pos snap =
    ReorderBufferQueueChange m rb x pos (change\<lparr>data := snap, action := REORDER_BUFFER_CHANGE_INTERNAL_SNAPSHOT\<rparr>)"

definition ReorderBufferAddNewCommandId ::
  "nat \<Rightarrow> 'a ReorderBufferChange \<Rightarrow> ('a, 's) ReorderBuffer \<Rightarrow> nat \<Rightarrow> XLogRecPtr \<Rightarrow> nat \<Rightarrow> ('a, 's) ReorderBuffer" where
  "ReorderBufferAddNewCommandId m change rb x pos cid =
    ReorderBufferQueueChange m rb x pos (change\<lparr>command_id := cid, action := REORDER_BUFFER_CHANGE_INTERNAL_COMMAND_ID\<rparr>)"

text \<open>Command ids of catalog tuples are not changes to be passed on: they are kept in a list of their own.\<close>

definition ReorderBufferAddNewTupleCids ::
  "'a ReorderBufferChange \<Rightarrow> ('a, 's) ReorderBuffer \<Rightarrow> nat \<Rightarrow> XLogRecPtr \<Rightarrow> 'a \<Rightarrow> ('a, 's) ReorderBuffer" where
  "ReorderBufferAddNewTupleCids change rb x pos tuplecid =
    (let (_, _, rb) = ReorderBufferTXNByXid rb x True pos True;
         change = change\<lparr>data := tuplecid, lsn := pos, action := REORDER_BUFFER_CHANGE_INTERNAL_TUPLECID\<rparr>
     in upd_node x (\<lambda>t. t\<lparr>tuplecids := tuplecids t @ [change], ntuplecids := ntuplecids t + 1\<rparr>) rb)"

subsection \<open>The end of a transaction\<close>

text \<open>The files of all segments between the first and the final position are deleted.\<close>

definition ReorderBufferRestoreCleanup :: "'a ReorderBufferTXN \<Rightarrow> XLogRecPtr \<Rightarrow> 'a spill \<Rightarrow> 'a spill" where
  "ReorderBufferRestoreCleanup t pos disk =
    (let final = (if final_lsn t = 0 then pos else final_lsn t)
     in disk(xid t := (\<lambda>seg. if first_lsn t div XLogSegSize \<le> seg \<and> seg \<le> final div XLogSegSize then None else disk (xid t) seg)))"

definition ReorderBufferReturnTXN :: "nat \<Rightarrow> ('a, 's) ReorderBuffer \<Rightarrow> ('a, 's) ReorderBuffer" where
  "ReorderBufferReturnTXN x rb = (if by_txn_last_xid rb = x then rb\<lparr>by_txn_last_xid := 0, by_txn_last_txn := None\<rparr> else rb)"

text \<open>One transaction, after its subtransactions; those have none of their own.\<close>

definition cleanup_own :: "XLogRecPtr \<Rightarrow> nat \<Rightarrow> ('a, 's) ReorderBuffer \<Rightarrow> ('a, 's) ReorderBuffer" where
  "cleanup_own pos x rb =
    (let t = node_of rb x;
         rb = (if base_snapshot t \<noteq> None then rb\<lparr>txns_by_base_snapshot_lsn := remove1 x (txns_by_base_snapshot_lsn rb)\<rparr> else rb);
         rb = (if is_known_as_subxact t then upd_node (toplevel_xid t) (\<lambda>p. p\<lparr>subxids := remove1 x (subxids p)\<rparr>) rb
               else rb\<lparr>toplevel_by_lsn := remove1 x (toplevel_by_lsn rb)\<rparr>);
         rb = rb\<lparr>by_txn := (by_txn rb)(x := None)\<rparr>;
         rb = (if serialized (body t) then rb\<lparr>rb_disk := ReorderBufferRestoreCleanup (body t) pos (rb_disk rb)\<rparr> else rb)
     in ReorderBufferReturnTXN x rb)"

definition ReorderBufferCleanupTXN :: "('a, 's) ReorderBuffer \<Rightarrow> nat \<Rightarrow> XLogRecPtr \<Rightarrow> ('a, 's) ReorderBuffer" where
  "ReorderBufferCleanupTXN rb x pos = cleanup_own pos x (fold (cleanup_own pos) (subxids (node_of rb x)) rb)"

definition ReorderBufferAbort :: "('a, 's) ReorderBuffer \<Rightarrow> nat \<Rightarrow> XLogRecPtr \<Rightarrow> ('a, 's) ReorderBuffer" where
  "ReorderBufferAbort rb x pos =
    (case ReorderBufferTXNByXid rb x False 0 False of
       (None, _, rb) \<Rightarrow> rb
     | (Some t, _, rb) \<Rightarrow> ReorderBufferCleanupTXN (set_final t pos rb) t 0)"

text \<open>
  A transaction nobody is interested in is dropped in the same way; the invalidation messages it is made to execute first are not modelled.
\<close>

definition ReorderBufferForget :: "('a, 's) ReorderBuffer \<Rightarrow> nat \<Rightarrow> XLogRecPtr \<Rightarrow> ('a, 's) ReorderBuffer" where
  "ReorderBufferForget rb x pos =
    (case ReorderBufferTXNByXid rb x False 0 False of
       (None, _, rb) \<Rightarrow> rb
     | (Some t, _, rb) \<Rightarrow> ReorderBufferCleanupTXN (set_final t pos rb) t 0)"

fun abort_old_loop :: "nat list \<Rightarrow> ('a, 's) ReorderBuffer \<Rightarrow> nat \<Rightarrow> XLogRecPtr \<Rightarrow> ('a, 's) ReorderBuffer" where
  "abort_old_loop [] rb oldestRunningXid pos = rb"
| "abort_old_loop (x # xs) rb oldestRunningXid pos =
    (if x < oldestRunningXid then abort_old_loop xs (ReorderBufferCleanupTXN rb x pos) oldestRunningXid pos else rb)"

definition ReorderBufferAbortOld :: "('a, 's) ReorderBuffer \<Rightarrow> nat \<Rightarrow> XLogRecPtr \<Rightarrow> ('a, 's) ReorderBuffer" where
  "ReorderBufferAbortOld rb = abort_old_loop (toplevel_by_lsn rb) rb"

text \<open>
  The loop over the changes of a committed transaction, for at most \<open>n\<close> of them. The result is the changes taken up, in order; what is done
  with each, the lookup of its relation and the call of the output plugin, is not modelled. A command id other than the first ends the loop; \<^verbatim>\<open>tuplecid\<close>
  changes are kept elsewhere and are an error here.
\<close>

definition FirstCommandId :: nat where
  "FirstCommandId = 0"

definition stop_decoding :: "'a ReorderBufferChange \<Rightarrow> bool" where
  "stop_decoding change \<longleftrightarrow> action change = REORDER_BUFFER_CHANGE_INTERNAL_COMMAND_ID \<and> command_id change \<noteq> FirstCommandId"

fun replay_changes ::
  "nat \<Rightarrow> nat \<Rightarrow> 'a spill \<Rightarrow> 'a ReorderBufferIterTXNState \<Rightarrow> 'a ReorderBufferChange list result option" where
  "replay_changes 0 m disk st = None"
| "replay_changes (Suc n) m disk st =
    (case ReorderBufferIterTXNNext m disk st of
       None \<Rightarrow> None
     | Some (None, st) \<Rightarrow> Some (Inr [])
     | Some (Some change, st) \<Rightarrow>
         if action change = REORDER_BUFFER_CHANGE_INTERNAL_TUPLECID then Some (Inl (Ereport ERROR ERRCODE_FEATURE_NOT_SUPPORTED))
         else if stop_decoding change then Some (Inr [])
         else map_option (map_sum id ((#) change)) (replay_changes n m disk st))"

text \<open>
  \<open>None\<close> is a loop that does not end within \<open>n\<close> changes, or an iterator that cannot be built. The transaction is cleaned up also after an error. The iterator
  changes only the bodies of transactions that are removed right after it is finished, so that they are written back as they were when it was built.
\<close>

definition ReorderBufferCommit ::
  "nat \<Rightarrow> nat \<Rightarrow> (nat \<Rightarrow> nat) \<Rightarrow> ('a, 's) ReorderBuffer \<Rightarrow> nat \<Rightarrow> XLogRecPtr \<Rightarrow>
   ('a ReorderBufferChange list result \<times> ('a, 's) ReorderBuffer) option" where
  "ReorderBufferCommit n m mem rb x commit_lsn =
    (case ReorderBufferTXNByXid rb x False 0 False of
       (None, _, rb) \<Rightarrow> Some (Inr [], rb)
     | (Some t, _, rb) \<Rightarrow>
         (let rb = set_final t commit_lsn rb
          in if base_snapshot (node_of rb t) = None then Some (Inr [], ReorderBufferCleanupTXN rb t 0)
             else
               (case ReorderBufferIterTXNInit m mem (rb_disk rb) (tree_of rb t) of
                  Inl _ \<Rightarrow> None
                | Inr (st, disk, tree) \<Rightarrow>
                    map_option (\<lambda>out. (out, ReorderBufferCleanupTXN (put_tree tree (rb\<lparr>rb_disk := disk\<rparr>)) t 0))
                      (replay_changes n m disk st))))"

text \<open>
  The commit record names the subtransactions that committed with the transaction; \<open>skip\<close> is the decision that nobody is interested in it.
\<close>

definition DecodeCommit ::
  "nat \<Rightarrow> nat \<Rightarrow> (nat \<Rightarrow> nat) \<Rightarrow> bool \<Rightarrow> ('a, 's) ReorderBuffer \<Rightarrow> nat \<Rightarrow> nat list \<Rightarrow> XLogRecPtr \<Rightarrow>
   ('a ReorderBufferChange list result \<times> ('a, 's) ReorderBuffer) option" where
  "DecodeCommit n m mem skip rb x sub_xids pos =
    (if skip then Some (Inr [], ReorderBufferForget (fold (\<lambda>sub rb. ReorderBufferForget rb sub pos) sub_xids rb) x pos)
     else ReorderBufferCommit n m mem (fold (\<lambda>sub rb. ReorderBufferCommitChild rb x sub pos) sub_xids rb) x pos)"

definition DecodeAbort :: "('a, 's) ReorderBuffer \<Rightarrow> nat \<Rightarrow> nat list \<Rightarrow> XLogRecPtr \<Rightarrow> ('a, 's) ReorderBuffer" where
  "DecodeAbort rb x sub_xids pos = ReorderBufferAbort (fold (\<lambda>sub rb. ReorderBufferAbort rb sub pos) sub_xids rb) x pos"

end
