(* ===== verification/ReorderTableInv.thy ===== *)
theory ReorderTableInv
  imports ReorderTable
begin

text \<open>
  The invariant of the transaction table of \<open>ReorderTable\<close>: what the cache, the two lists and the links between
  transactions say about the table, kept by every call. The cache never shows: a lookup returns what the table says.
\<close>

subsection \<open>The invariant\<close>

text \<open>The cache agrees with the table.\<close>

definition cache_ok :: "('a, 's) ReorderBuffer \<Rightarrow> bool" where
  "cache_ok rb \<longleftrightarrow> (by_txn_last_xid rb \<noteq> 0 \<longrightarrow>
    by_txn_last_txn rb = (if by_txn rb (by_txn_last_xid rb) = None then None else Some (by_txn_last_xid rb)))"

text \<open>A top-level transaction is in the list, a subtransaction is among the children of a top-level transaction, and of no other.\<close>

definition is_child :: "('a, 's) ReorderBuffer \<Rightarrow> nat \<Rightarrow> nat \<Rightarrow> bool" where
  "is_child rb y x \<longleftrightarrow> (\<exists>s. by_txn rb y = Some s \<and> is_known_as_subxact s \<and> toplevel_xid s = x)"

definition has_child :: "('a, 's) ReorderBuffer \<Rightarrow> nat \<Rightarrow> nat \<Rightarrow> bool" where
  "has_child rb x y \<longleftrightarrow> (\<exists>p. by_txn rb x = Some p \<and> y \<in> set (subxids p))"

definition node_ok :: "('a, 's) ReorderBuffer \<Rightarrow> nat \<Rightarrow> ('a, 's) rb_txn \<Rightarrow> bool" where
  "node_ok rb x t \<longleftrightarrow> x \<noteq> 0 \<and> xid (body t) = x \<and> distinct (subxids t) \<and>
    (\<forall>y \<in> set (subxids t). is_child rb y x) \<and>
    (is_known_as_subxact t \<longrightarrow> subxids t = [] \<and> base_snapshot t = None \<and> has_child rb (toplevel_xid t) x)"

definition table_ok :: "('a, 's) ReorderBuffer \<Rightarrow> bool" where
  "table_ok rb \<longleftrightarrow> (\<forall>x t. by_txn rb x = Some t \<longrightarrow> node_ok rb x t) \<and>
    distinct (toplevel_by_lsn rb) \<and> (\<forall>x. x \<in> set (toplevel_by_lsn rb) \<longleftrightarrow> (\<exists>t. by_txn rb x = Some t \<and> \<not> is_known_as_subxact t)) \<and>
    distinct (txns_by_base_snapshot_lsn rb) \<and>
    (\<forall>x. x \<in> set (txns_by_base_snapshot_lsn rb) \<longleftrightarrow> (\<exists>t. by_txn rb x = Some t \<and> base_snapshot t \<noteq> None))"

text \<open>
  What \<^verbatim>\<open>AssertTXNLsnOrder\<close> checks: top-level transactions are in the order of their first positions, base snapshots
  strictly in that of theirs; none is after the position \<open>cur\<close> of the log.
\<close>

abbreviation first_of :: "('a, 's) ReorderBuffer \<Rightarrow> nat \<Rightarrow> XLogRecPtr" where
  "first_of rb x \<equiv> first_lsn (body (node_of rb x))"

abbreviation snap_of :: "('a, 's) ReorderBuffer \<Rightarrow> nat \<Rightarrow> XLogRecPtr" where
  "snap_of rb x \<equiv> base_snapshot_lsn (node_of rb x)"

definition order_ok :: "('a, 's) ReorderBuffer \<Rightarrow> bool" where
  "order_ok rb \<longleftrightarrow> sorted (map (first_of rb) (toplevel_by_lsn rb)) \<and>
    sorted_wrt (<) (map (snap_of rb) (txns_by_base_snapshot_lsn rb))"

definition not_after :: "XLogRecPtr \<Rightarrow> ('a, 's) ReorderBuffer \<Rightarrow> bool" where
  "not_after cur rb \<longleftrightarrow> (\<forall>x t. by_txn rb x = Some t \<longrightarrow> first_lsn (body t) \<le> cur \<and> base_snapshot_lsn t \<le> cur)"

definition rb_inv :: "XLogRecPtr \<Rightarrow> ('a, 's) ReorderBuffer \<Rightarrow> bool" where
  "rb_inv cur rb \<longleftrightarrow> cache_ok rb \<and> table_ok rb \<and> order_ok rb \<and> not_after cur rb"

subsection \<open>Lookup\<close>

text \<open>The same lookup without the cache.\<close>

definition plain_lookup :: "('a, 's) ReorderBuffer \<Rightarrow> nat \<Rightarrow> bool \<Rightarrow> XLogRecPtr \<Rightarrow> bool \<Rightarrow> ('a, 's) ReorderBuffer" where
  "plain_lookup rb x create pos create_as_top =
    (if by_txn rb x = None \<and> create then
       rb\<lparr>by_txn := (by_txn rb)(x \<mapsto> ReorderBufferGetTXN x pos),
          toplevel_by_lsn := (if create_as_top then toplevel_by_lsn rb @ [x] else toplevel_by_lsn rb)\<rparr>
     else rb)"

definition same_table :: "('a, 's) ReorderBuffer \<Rightarrow> ('a, 's) ReorderBuffer \<Rightarrow> bool" where
  "same_table rb rb' \<longleftrightarrow> by_txn rb' = by_txn rb \<and> toplevel_by_lsn rb' = toplevel_by_lsn rb \<and>
    txns_by_base_snapshot_lsn rb' = txns_by_base_snapshot_lsn rb \<and> rb_disk rb' = rb_disk rb"

lemma same_table_ok: "same_table rb rb' \<Longrightarrow> table_ok rb' = table_ok rb \<and> order_ok rb' = order_ok rb \<and> not_after cur rb' = not_after cur rb"
  by (simp add: same_table_def table_ok_def node_ok_def is_child_def has_child_def order_ok_def not_after_def)

lemma lookup_spec:
  assumes "cache_ok rb" "x \<noteq> 0" "ReorderBufferTXNByXid rb x create pos create_as_top = (t, is_new, rb')"
  shows "t = (if by_txn rb x = None \<and> \<not> create then None else Some x)"
    and "create \<Longrightarrow> is_new = (by_txn rb x = None)"
    and "same_table (plain_lookup rb x create pos create_as_top) rb'" "cache_ok rb'"
proof -
  have "t = (if by_txn rb x = None \<and> \<not> create then None else Some x) \<and> (create \<longrightarrow> is_new = (by_txn rb x = None)) \<and>
    same_table (plain_lookup rb x create pos create_as_top) rb' \<and> cache_ok rb'"
  proof (cases "by_txn_last_xid rb = x")
    case True
    then have "by_txn_last_txn rb = (if by_txn rb x = None then None else Some x)" using assms(1,2) by (simp add: cache_ok_def)
    then show ?thesis using True assms by (cases "by_txn rb x") (auto simp: ReorderBufferTXNByXid_def plain_lookup_def same_table_def cache_ok_def Let_def split: if_splits)
  next
    case False
    then show ?thesis using assms by (cases "by_txn rb x") (auto simp: ReorderBufferTXNByXid_def plain_lookup_def same_table_def cache_ok_def Let_def split: if_splits)
  qed
  then show "t = (if by_txn rb x = None \<and> \<not> create then None else Some x)" "create \<Longrightarrow> is_new = (by_txn rb x = None)"
    "same_table (plain_lookup rb x create pos create_as_top) rb'" "cache_ok rb'" by auto
qed

text \<open>The parts of the invariant other than the cache.\<close>

definition table_inv :: "XLogRecPtr \<Rightarrow> ('a, 's) ReorderBuffer \<Rightarrow> bool" where
  "table_inv cur rb \<longleftrightarrow> table_ok rb \<and> order_ok rb \<and> not_after cur rb"

lemma rb_inv_iff: "rb_inv cur rb \<longleftrightarrow> cache_ok rb \<and> table_inv cur rb"
  by (simp add: rb_inv_def table_inv_def)

lemma table_inv_later: "table_inv cur rb \<Longrightarrow> cur \<le> pos \<Longrightarrow> table_inv pos rb"
  by (force simp: table_inv_def not_after_def)

lemma table_inv_cong: "same_table rb rb' \<Longrightarrow> table_inv cur rb' = table_inv cur rb"
  using same_table_ok by (auto simp: table_inv_def)

lemma known_node: "table_inv cur rb \<Longrightarrow> by_txn rb x = Some t \<Longrightarrow> node_ok rb x t"
  by (simp add: table_inv_def table_ok_def)

lemma toplevel_iff: "table_inv cur rb \<Longrightarrow> x \<in> set (toplevel_by_lsn rb) \<longleftrightarrow> (\<exists>t. by_txn rb x = Some t \<and> \<not> is_known_as_subxact t)"
  by (simp add: table_inv_def table_ok_def)

lemma snapshot_iff: "table_inv cur rb \<Longrightarrow> x \<in> set (txns_by_base_snapshot_lsn rb) \<longleftrightarrow> (\<exists>t. by_txn rb x = Some t \<and> base_snapshot t \<noteq> None)"
  by (simp add: table_inv_def table_ok_def)

lemma plain_lookup_inv:
  assumes inv: "table_inv cur rb" and "x \<noteq> 0" "cur \<le> pos"
  shows "table_inv pos (plain_lookup rb x create pos True)"
proof (cases "by_txn rb x = None \<and> create")
  case True
  define rb' where "rb' = plain_lookup rb x create pos True"
  have rb: "by_txn rb' = (by_txn rb)(x \<mapsto> ReorderBufferGetTXN x pos)" "toplevel_by_lsn rb' = toplevel_by_lsn rb @ [x]"
    "txns_by_base_snapshot_lsn rb' = txns_by_base_snapshot_lsn rb" using True by (simp_all add: rb'_def plain_lookup_def)
  have fresh: "x \<notin> set (toplevel_by_lsn rb)" "x \<notin> set (txns_by_base_snapshot_lsn rb)"
    using True toplevel_iff [OF inv] snapshot_iff [OF inv] by auto
  have "is_child rb y z \<Longrightarrow> is_child rb' y z" "has_child rb y z \<Longrightarrow> has_child rb' y z" for y z
    using True by (auto simp: is_child_def has_child_def rb)
  then have old: "node_ok rb' y t" if "by_txn rb y = Some t" for y t
    using known_node [OF inv that] by (auto simp: node_ok_def)
  have "node_ok rb' x (ReorderBufferGetTXN x pos)" using assms(2) by (simp add: node_ok_def ReorderBufferGetTXN_def new_txn_def)
  then have ok: "table_ok rb'" using inv old fresh True
    by (auto simp: table_inv_def table_ok_def rb ReorderBufferGetTXN_def)
  have le: "\<forall>y \<in> set (toplevel_by_lsn rb). first_of rb y \<le> pos"
    using toplevel_iff [OF inv] inv assms(3) by (force simp: table_inv_def not_after_def)
  have node: "node_of rb' y = (if y = x then ReorderBufferGetTXN x pos else node_of rb y)" for y by (simp add: rb)
  have maps: "map (first_of rb') (toplevel_by_lsn rb) = map (first_of rb) (toplevel_by_lsn rb)"
    "map (snap_of rb') (txns_by_base_snapshot_lsn rb) = map (snap_of rb) (txns_by_base_snapshot_lsn rb)"
    using fresh by (auto simp: node)
  have fx: "first_of rb' x = pos" by (simp add: rb ReorderBufferGetTXN_def new_txn_def)
  have "order_ok rb'" unfolding order_ok_def rb(2,3) map_append maps list.map fx
    using inv le by (simp add: sorted_append table_inv_def order_ok_def)
  moreover have "not_after pos rb'" using inv assms(3) by (force simp: table_inv_def not_after_def rb ReorderBufferGetTXN_def new_txn_def)
  ultimately show ?thesis using ok by (simp add: table_inv_def rb'_def)
next
  case False
  then show ?thesis using table_inv_later [OF inv assms(3)] by (auto simp: plain_lookup_def)
qed

lemma lookup_inv:
  assumes "rb_inv cur rb" "x \<noteq> 0" "cur \<le> pos" "ReorderBufferTXNByXid rb x create pos True = (t, is_new, rb')"
  shows "rb_inv pos rb'"
  using assms lookup_spec(3,4) [OF _ assms(2,4)] plain_lookup_inv [OF _ assms(2,3), of rb create] table_inv_cong
  by (auto simp: rb_inv_iff)

text \<open>A lookup that does not create anything changes the cache only.\<close>

lemma lookup_only:
  assumes "rb_inv cur rb" "x \<noteq> 0" "ReorderBufferTXNByXid rb x False pos as_top = (t, is_new, rb')"
  shows "rb_inv cur rb'" "same_table rb rb'" "t = (if by_txn rb x = None then None else Some x)"
proof -
  have same: "same_table rb rb'" using lookup_spec(3) [OF _ assms(2,3)] assms(1) by (simp add: rb_inv_iff plain_lookup_def)
  then show "rb_inv cur rb'" using lookup_spec(4) [OF _ assms(2,3)] assms(1) table_inv_cong by (auto simp: rb_inv_iff)
  show "same_table rb rb'" by (rule same)
  show "t = (if by_txn rb x = None then None else Some x)" using lookup_spec(1) [OF _ assms(2,3)] assms(1) by (simp add: rb_inv_iff)
qed

subsection \<open>Changes within a transaction\<close>

lemma upd_node_fields [simp]:
  "toplevel_by_lsn (upd_node x f rb) = toplevel_by_lsn rb" "txns_by_base_snapshot_lsn (upd_node x f rb) = txns_by_base_snapshot_lsn rb"
  "by_txn_last_xid (upd_node x f rb) = by_txn_last_xid rb" "by_txn_last_txn (upd_node x f rb) = by_txn_last_txn rb" "rb_disk (upd_node x f rb) = rb_disk rb"
  "by_txn (upd_node x f rb) = (by_txn rb)(x := map_option f (by_txn rb x))"
  by (simp_all add: upd_node_def)

lemma cache_upd_node [simp]: "cache_ok (upd_node x f rb) = cache_ok rb"
  by (auto simp: cache_ok_def)

text \<open>An update of a field that the invariant does not speak of.\<close>

lemma upd_node_inv:
  assumes inv: "table_inv cur rb"
    and f: "\<And>t. by_txn rb x = Some t \<Longrightarrow> xid (body (f t)) = xid (body t) \<and> first_lsn (body (f t)) = first_lsn (body t) \<and>
      subxids (f t) = subxids t \<and> is_known_as_subxact (f t) = is_known_as_subxact t \<and> toplevel_xid (f t) = toplevel_xid t \<and>
      base_snapshot (f t) = base_snapshot t \<and> base_snapshot_lsn (f t) = base_snapshot_lsn t"
  shows "table_inv cur (upd_node x f rb)"
proof (cases "by_txn rb x")
  case None
  then have "same_table rb (upd_node x f rb)" by (auto simp: same_table_def)
  then show ?thesis using inv table_inv_cong by blast
next
  case (Some t)
  let ?rb = "upd_node x f rb"
  note ft = f [OF Some]
  have P: "by_txn ?rb y = (if y = x then Some (f t) else by_txn rb y)" for y by (simp add: Some)
  have rel: "is_child ?rb y z = is_child rb y z" "has_child ?rb y z = has_child rb y z" for y z
    unfolding is_child_def has_child_def P using ft Some by auto
  have "node_ok ?rb y u" if u: "by_txn ?rb y = Some u" for y u
  proof -
    obtain u0 where u0: "by_txn rb y = Some u0" "node_ok rb y u0" "u = (if y = x then f t else u0)" "y = x \<Longrightarrow> u0 = t"
      using u known_node [OF inv] Some by (cases "y = x") auto
    show ?thesis using u0 ft rel unfolding node_ok_def by (cases "y = x") simp_all
  qed
  moreover have "(\<exists>u. by_txn ?rb y = Some u \<and> \<not> is_known_as_subxact u) = (\<exists>u. by_txn rb y = Some u \<and> \<not> is_known_as_subxact u)"
    "(\<exists>u. by_txn ?rb y = Some u \<and> base_snapshot u \<noteq> None) = (\<exists>u. by_txn rb y = Some u \<and> base_snapshot u \<noteq> None)" for y
    unfolding P using ft Some by auto
  ultimately have "table_ok ?rb" using inv unfolding table_inv_def table_ok_def by simp
  moreover have "first_of ?rb y = first_of rb y" "snap_of ?rb y = snap_of rb y" for y unfolding P using ft Some by simp_all
  then have "order_ok ?rb" using inv by (simp add: table_inv_def order_ok_def cong: map_cong)
  moreover have "not_after cur ?rb" using inv ft Some by (auto simp: table_inv_def not_after_def split: if_splits)
  ultimately show ?thesis by (simp add: table_inv_def)
qed

subsection \<open>Removing a transaction\<close>

lemma sorted_wrt_remove1: "sorted_wrt R (map f xs) \<Longrightarrow> distinct xs \<Longrightarrow> sorted_wrt R (map f (remove1 x xs))"
  by (simp add: distinct_remove1_removeAll removeAll_filter_not_eq sorted_wrt_map sorted_wrt_filter)

lemma cleanup_own_eq:
  assumes inv: "table_inv cur rb" and x: "by_txn rb x = Some t" and leaf: "subxids t = []"
  shows "by_txn (cleanup_own pos x rb) y = (if y = x then None else
      if is_known_as_subxact t \<and> y = toplevel_xid t then map_option (\<lambda>p. p\<lparr>subxids := remove1 x (subxids p)\<rparr>) (by_txn rb y)
      else by_txn rb y)"
    "toplevel_by_lsn (cleanup_own pos x rb) = remove1 x (toplevel_by_lsn rb)"
    "txns_by_base_snapshot_lsn (cleanup_own pos x rb) = remove1 x (txns_by_base_snapshot_lsn rb)"
    "rb_disk (cleanup_own pos x rb) = (if serialized (body t) then ReorderBufferRestoreCleanup (body t) pos (rb_disk rb) else rb_disk rb)"
    "cache_ok rb \<Longrightarrow> cache_ok (cleanup_own pos x rb)"
proof -
  have "x \<notin> set (toplevel_by_lsn rb)" if "is_known_as_subxact t" using toplevel_iff [OF inv] x that by simp
  moreover have "x \<notin> set (txns_by_base_snapshot_lsn rb)" if "base_snapshot t = None" using snapshot_iff [OF inv] x that by simp
  moreover have "x \<noteq> 0" using known_node [OF inv x] by (simp add: node_ok_def)
  ultimately show "by_txn (cleanup_own pos x rb) y = (if y = x then None else
      if is_known_as_subxact t \<and> y = toplevel_xid t then map_option (\<lambda>p. p\<lparr>subxids := remove1 x (subxids p)\<rparr>) (by_txn rb y)
      else by_txn rb y)" "toplevel_by_lsn (cleanup_own pos x rb) = remove1 x (toplevel_by_lsn rb)"
    "txns_by_base_snapshot_lsn (cleanup_own pos x rb) = remove1 x (txns_by_base_snapshot_lsn rb)"
    "rb_disk (cleanup_own pos x rb) = (if serialized (body t) then ReorderBufferRestoreCleanup (body t) pos (rb_disk rb) else rb_disk rb)"
    "cache_ok rb \<Longrightarrow> cache_ok (cleanup_own pos x rb)"
    using x by (auto simp: cleanup_own_def ReorderBufferReturnTXN_def Let_def remove1_idem cache_ok_def)
qed

lemma cleanup_own_inv:
  assumes inv: "table_inv cur rb" and x: "by_txn rb x = Some t" and leaf: "subxids t = []"
  shows "table_inv cur (cleanup_own pos x rb)"
proof -
  define rb' where "rb' = cleanup_own pos x rb"
  note eq = cleanup_own_eq [OF assms, of pos, folded rb'_def]
  have ok: "table_ok rb" "order_ok rb" "not_after cur rb" using inv by (simp_all add: table_inv_def)
  have dist: "distinct (toplevel_by_lsn rb)" "distinct (txns_by_base_snapshot_lsn rb)" using ok(1) by (simp_all add: table_ok_def)
  have old: "\<exists>u0. by_txn rb y = Some u0 \<and> y \<noteq> x \<and> u = u0\<lparr>subxids := (if is_known_as_subxact t \<and> y = toplevel_xid t then remove1 x (subxids u0) else subxids u0)\<rparr>"
    if "by_txn rb' y = Some u" for y u using that by (auto simp: eq(1) split: if_splits)
  have node: "node_of rb' y = (node_of rb y)\<lparr>subxids := subxids (node_of rb' y)\<rparr>" if "y \<noteq> x" "by_txn rb y \<noteq> None" for y
    using that by (auto simp: eq(1))
  have child: "is_child rb' z y" if "is_child rb z y" "z \<noteq> x" for z y using that by (auto simp: is_child_def eq(1))
  have parent: "has_child rb' y z" if "has_child rb y z" "z \<noteq> x" for y z using that x leaf by (auto simp: has_child_def eq(1))
  have "node_ok rb' y u" if u: "by_txn rb' y = Some u" for y u
  proof -
    obtain u0 where u0: "by_txn rb y = Some u0" "y \<noteq> x"
      "u = u0\<lparr>subxids := (if is_known_as_subxact t \<and> y = toplevel_xid t then remove1 x (subxids u0) else subxids u0)\<rparr>" using old [OF u] by blast
    note n = known_node [OF inv u0(1), unfolded node_ok_def]
    have sub: "set (subxids u) \<subseteq> set (subxids u0)" using u0(3) set_remove1_subset [of x "subxids u0"] by auto
    have "z \<noteq> x" if "z \<in> set (subxids u)" for z
    proof
      assume "z = x"
      then have "x \<in> set (subxids u0)" using that sub by blast
      then have "is_known_as_subxact t \<and> toplevel_xid t = y" using n x by (auto simp: is_child_def)
      then show False using that \<open>z = x\<close> u0(3) n by simp
    qed
    then have kids: "is_child rb' z y" if "z \<in> set (subxids u)" for z using that n child sub by blast
    have "has_child rb' (toplevel_xid u0) y" if "is_known_as_subxact u0" using n that parent [OF _ u0(2)] by blast
    then show ?thesis unfolding node_ok_def using n kids u0(3) by (auto simp: distinct_remove1)
  qed
  moreover have "(\<exists>u. by_txn rb' y = Some u \<and> \<not> is_known_as_subxact u) \<longleftrightarrow> y \<noteq> x \<and> (\<exists>u. by_txn rb y = Some u \<and> \<not> is_known_as_subxact u)"
    "(\<exists>u. by_txn rb' y = Some u \<and> base_snapshot u \<noteq> None) \<longleftrightarrow> y \<noteq> x \<and> (\<exists>u. by_txn rb y = Some u \<and> base_snapshot u \<noteq> None)" for y
    by (auto simp: eq(1))
  ultimately have "table_ok rb'" using ok(1) dist by (simp add: table_ok_def eq(2,3) set_remove1_eq conj_commute)
  moreover have "map (first_of rb') (remove1 x (toplevel_by_lsn rb)) = map (first_of rb) (remove1 x (toplevel_by_lsn rb))"
    "map (snap_of rb') (remove1 x (txns_by_base_snapshot_lsn rb)) = map (snap_of rb) (remove1 x (txns_by_base_snapshot_lsn rb))"
    using dist ok(1) by (auto simp: table_ok_def set_remove1_eq eq(1))
  then have "order_ok rb'" using ok(2) dist by (simp add: order_ok_def eq(2,3) sorted_wrt_remove1 del: sorted_map map_eq_conv)
  moreover have "not_after cur rb'" using ok(3) by (auto simp: not_after_def eq(1) split: if_splits)
  ultimately show ?thesis by (simp add: table_inv_def rb'_def)
qed

text \<open>What is left of the files of a transaction that is removed.\<close>

definition left_files :: "('a, 's) rb_txn \<Rightarrow> XLogRecPtr \<Rightarrow> (nat \<Rightarrow> 'a ReorderBufferChange list option) \<Rightarrow> nat \<Rightarrow> 'a ReorderBufferChange list option" where
  "left_files t pos files seg =
    (let final = (if final_lsn (body t) = 0 then pos else final_lsn (body t))
     in if serialized (body t) \<and> first_lsn (body t) div XLogSegSize \<le> seg \<and> seg \<le> final div XLogSegSize then None else files seg)"

lemma cleanup_own_disk:
  assumes "table_inv cur rb" "by_txn rb x = Some t" "subxids t = []"
  shows "rb_disk (cleanup_own pos x rb) z = (if z = x then left_files t pos (rb_disk rb x) else rb_disk rb z)"
  using known_node [OF assms(1,2)]
  by (auto simp: cleanup_own_eq(4) [OF assms] ReorderBufferRestoreCleanup_def left_files_def node_ok_def Let_def fun_eq_iff)

lemma cleanup_children:
  assumes "table_inv cur rb" "cache_ok rb" "by_txn rb x = Some t" "subxids t = ys"
  shows "table_inv cur (fold (cleanup_own pos) ys rb) \<and> cache_ok (fold (cleanup_own pos) ys rb) \<and>
    (\<forall>z. by_txn (fold (cleanup_own pos) ys rb) z = (if z \<in> set ys then None else if z = x then Some (t\<lparr>subxids := []\<rparr>) else by_txn rb z)) \<and>
    (\<forall>z. rb_disk (fold (cleanup_own pos) ys rb) z = (if z \<in> set ys then left_files (node_of rb z) pos (rb_disk rb z) else rb_disk rb z)) \<and>
    toplevel_by_lsn (fold (cleanup_own pos) ys rb) = toplevel_by_lsn rb"
  using assms
proof (induction ys arbitrary: rb t)
  case Nil
  have "t\<lparr>subxids := []\<rparr> = t" using Nil.prems(4) by (cases t) simp
  then show ?case using Nil.prems by simp
next
  case (Cons y ys)
  note nx = known_node [OF Cons.prems(1,3), unfolded node_ok_def]
  have y: "y \<noteq> x" "y \<notin> set ys" using nx Cons.prems(3,4) by (auto simp: is_child_def)
  obtain s where s: "by_txn rb y = Some s" "is_known_as_subxact s" "toplevel_xid s = x" using nx Cons.prems(4) by (auto simp: is_child_def)
  have leaf: "subxids s = []" using known_node [OF Cons.prems(1) s(1)] s(2) by (simp add: node_ok_def)
  define rb1 where "rb1 = cleanup_own pos y rb"
  note eq = cleanup_own_eq [OF Cons.prems(1) s(1) leaf, of pos, folded rb1_def]
  note disk = cleanup_own_disk [OF Cons.prems(1) s(1) leaf, of pos, folded rb1_def]
  have inv1: "table_inv cur rb1" "cache_ok rb1" using cleanup_own_inv [OF Cons.prems(1) s(1) leaf] eq(5) Cons.prems(2) by (simp_all add: rb1_def)
  have t1: "by_txn rb1 x = Some (t\<lparr>subxids := ys\<rparr>)" using Cons.prems(3,4) s y(1) by (simp add: eq(1))
  have "(t\<lparr>subxids := ys\<rparr>)\<lparr>subxids := []\<rparr> = t\<lparr>subxids := []\<rparr>" by simp
  note ih = Cons.IH [OF inv1 t1, unfolded this, simplified]
  have other: "by_txn rb1 z = by_txn rb z" if "z \<noteq> x" "z \<noteq> y" for z using that s by (simp add: eq(1))
  have "x \<notin> set ys" using nx Cons.prems(3,4) y by (auto simp: is_child_def)
  then have nodes: "node_of rb1 z = node_of rb z" if "z \<in> set ys" for z using that other [of z] y(2) by metis
  have step: "fold (cleanup_own pos) (y # ys) rb = fold (cleanup_own pos) ys rb1" by (simp add: rb1_def)
  have "by_txn (fold (cleanup_own pos) ys rb1) z = (if z \<in> set (y # ys) then None else if z = x then Some (t\<lparr>subxids := []\<rparr>) else by_txn rb z)" for z
    using ih other [of z] y by (auto simp: eq(1))
  moreover have "rb_disk (fold (cleanup_own pos) ys rb1) z = (if z \<in> set (y # ys) then left_files (node_of rb z) pos (rb_disk rb z) else rb_disk rb z)" for z
    using ih nodes [of z] y s(1) by (auto simp: disk)
  moreover have "y \<notin> set (toplevel_by_lsn rb)" using toplevel_iff [OF Cons.prems(1)] s by simp
  then have "toplevel_by_lsn rb1 = toplevel_by_lsn rb" by (simp add: eq(2) remove1_idem)
  ultimately show ?case unfolding step using ih by simp
qed

text \<open>The whole transaction is gone, and with it its subtransactions; nothing else changes.\<close>

lemma cleanup_txn_spec:
  assumes inv: "table_inv cur rb" "cache_ok rb" and x: "by_txn rb x = Some t" and top: "\<not> is_known_as_subxact t"
    and def: "rb' = ReorderBufferCleanupTXN rb x pos"
  shows "table_inv cur rb'" "cache_ok rb'"
    "\<And>z. by_txn rb' z = (if z \<in> set (x # subxids t) then None else by_txn rb z)"
    "\<And>z. rb_disk rb' z = (if z \<in> set (x # subxids t) then left_files (node_of rb z) pos (rb_disk rb z) else rb_disk rb z)"
    "toplevel_by_lsn rb' = remove1 x (toplevel_by_lsn rb)"
proof -
  define rb1 where "rb1 = fold (cleanup_own pos) (subxids t) rb"
  note c = cleanup_children [OF inv x refl, of pos, folded rb1_def]
  have nx: "x \<notin> set (subxids t)" using known_node [OF inv(1) x] x top by (auto simp: node_ok_def is_child_def)
  then have x1: "by_txn rb1 x = Some (t\<lparr>subxids := []\<rparr>)" using c by simp
  have rb': "rb' = cleanup_own pos x rb1" using x by (simp add: def ReorderBufferCleanupTXN_def rb1_def)
  have inv1: "table_inv cur rb1" "cache_ok rb1" using c by simp_all
  note eq = cleanup_own_eq [OF inv1(1) x1, of pos, folded rb'] 
  show "table_inv cur rb'" using cleanup_own_inv [OF inv1(1) x1] by (simp add: rb')
  show "cache_ok rb'" using eq(5) inv1 by simp
  show "toplevel_by_lsn rb' = remove1 x (toplevel_by_lsn rb)" using eq(2) c by simp
  show "by_txn rb' z = (if z \<in> set (x # subxids t) then None else by_txn rb z)" for z using eq(1) [of z] c top by simp
  have "left_files (t\<lparr>subxids := []\<rparr>) pos = left_files t pos" by (simp add: left_files_def fun_eq_iff)
  then show "rb_disk rb' z = (if z \<in> set (x # subxids t) then left_files (node_of rb z) pos (rb_disk rb z) else rb_disk rb z)" for z
    using cleanup_own_disk [OF inv1(1) x1, of pos z] c nx x by (simp add: rb')
qed

subsection \<open>Assigning a subtransaction\<close>

text \<open>The part of \<open>ReorderBufferAssignChild\<close> that links two transactions of the table.\<close>

definition attach :: "nat \<Rightarrow> nat \<Rightarrow> ('a, 's) ReorderBuffer \<Rightarrow> ('a, 's) ReorderBuffer" where
  "attach x sub rb = ReorderBufferTransferSnapToParent x sub
    (upd_node x (\<lambda>t. t\<lparr>subxids := subxids t @ [sub], nsubtxns := nsubtxns t + 1\<rparr>)
      (upd_node sub (\<lambda>s. s\<lparr>is_known_as_subxact := True, toplevel_xid := x\<rparr>)
        (rb\<lparr>toplevel_by_lsn := remove1 sub (toplevel_by_lsn rb)\<rparr>)))"

text \<open>Does the parent get the snapshot of its new child, and what does the list of snapshots become?\<close>

definition takes_snapshot :: "('a, 's) rb_txn \<Rightarrow> ('a, 's) rb_txn \<Rightarrow> bool" where
  "takes_snapshot t s \<longleftrightarrow> base_snapshot s \<noteq> None \<and> (base_snapshot t = None \<or> base_snapshot_lsn s < base_snapshot_lsn t)"

definition attached_snapshots :: "('a, 's) rb_txn \<Rightarrow> ('a, 's) rb_txn \<Rightarrow> nat \<Rightarrow> nat \<Rightarrow> nat list \<Rightarrow> nat list" where
  "attached_snapshots t s x sub xs =
    (if takes_snapshot t s
     then (let xs = (if base_snapshot t \<noteq> None then remove1 x xs else xs)
           in remove1 sub (takeWhile (\<lambda>y. y \<noteq> sub) xs @ x # dropWhile (\<lambda>y. y \<noteq> sub) xs))
     else if base_snapshot s \<noteq> None then remove1 sub xs else xs)"

lemma attach_eq:
  assumes "by_txn rb x = Some t" "by_txn rb sub = Some s" "x \<noteq> sub"
  shows "by_txn (attach x sub rb) =
    (by_txn rb)(x \<mapsto> t\<lparr>subxids := subxids t @ [sub], nsubtxns := nsubtxns t + 1,
        base_snapshot := (if takes_snapshot t s then base_snapshot s else base_snapshot t),
        base_snapshot_lsn := (if takes_snapshot t s then base_snapshot_lsn s else base_snapshot_lsn t)\<rparr>,
      sub \<mapsto> s\<lparr>is_known_as_subxact := True, toplevel_xid := x, base_snapshot := None,
        base_snapshot_lsn := (if base_snapshot s \<noteq> None then 0 else base_snapshot_lsn s)\<rparr>)"
    "toplevel_by_lsn (attach x sub rb) = remove1 sub (toplevel_by_lsn rb)"
    "txns_by_base_snapshot_lsn (attach x sub rb) = attached_snapshots t s x sub (txns_by_base_snapshot_lsn rb)"
    "rb_disk (attach x sub rb) = rb_disk rb" "cache_ok rb \<Longrightarrow> cache_ok (attach x sub rb)"
  using assms
  by (auto simp: attach_def ReorderBufferTransferSnapToParent_def takes_snapshot_def attached_snapshots_def Let_def fun_eq_iff cache_ok_def)

lemma attached_snapshots_swap:
  assumes "distinct xs" "sub \<in> set xs" "x \<notin> set xs" "x \<noteq> sub"
  shows "\<exists>us vs. xs = us @ sub # vs \<and> remove1 sub (takeWhile (\<lambda>y. y \<noteq> sub) xs @ x # dropWhile (\<lambda>y. y \<noteq> sub) xs) = us @ x # vs"
proof -
  obtain us vs where "xs = us @ sub # vs" using assms(2) by (meson split_list)
  then show ?thesis using assms by (intro exI [of _ us] exI [of _ vs]) (auto simp: takeWhile_append dropWhile_append remove1_append)
qed

lemma attached_snapshots_spec:
  assumes d: "distinct xs" and x: "x \<in> set xs \<longleftrightarrow> base_snapshot t \<noteq> None" and sub: "sub \<in> set xs \<longleftrightarrow> base_snapshot s \<noteq> None" and "x \<noteq> sub"
    and sorted: "sorted_wrt R (map f xs)"
    and g: "\<And>y. y \<noteq> x \<Longrightarrow> y \<noteq> sub \<Longrightarrow> g y = f y" "g x = (if takes_snapshot t s then f sub else f x)"
  shows "distinct (attached_snapshots t s x sub xs)"
    "set (attached_snapshots t s x sub xs) = set xs - {sub} \<union> (if takes_snapshot t s then {x} else {})"
    "sorted_wrt R (map g (attached_snapshots t s x sub xs))"
proof -
  have "distinct (attached_snapshots t s x sub xs) \<and> set (attached_snapshots t s x sub xs) = set xs - {sub} \<union> (if takes_snapshot t s then {x} else {}) \<and>
    sorted_wrt R (map g (attached_snapshots t s x sub xs))"
  proof (cases "takes_snapshot t s")
    case True
    define ys where "ys = (if base_snapshot t \<noteq> None then remove1 x xs else xs)"
    have ys: "distinct ys" "x \<notin> set ys" "set ys = set xs - {x}" using d x by (auto simp: ys_def)
    have mem: "sub \<in> set ys" using sub True \<open>x \<noteq> sub\<close> ys(3) by (simp add: takes_snapshot_def)
    have "attached_snapshots t s x sub xs = remove1 sub (takeWhile (\<lambda>y. y \<noteq> sub) ys @ x # dropWhile (\<lambda>y. y \<noteq> sub) ys)"
      using True by (simp add: attached_snapshots_def ys_def Let_def)
    then obtain us vs where uv: "ys = us @ sub # vs" "attached_snapshots t s x sub xs = us @ x # vs"
      using attached_snapshots_swap [OF ys(1) mem ys(2) \<open>x \<noteq> sub\<close>] by auto
    have "sorted_wrt R (map f ys)" using sorted_wrt_remove1 [OF sorted d] sorted by (simp add: ys_def)
    have "g y = f y" if "y \<in> set us \<union> set vs" for y using that ys(1,2) unfolding uv(1) by (intro g(1)) auto
    then have "map g (us @ x # vs) = map f ys" using g(2) True unfolding uv(1) by simp
    then have "sorted_wrt R (map g (us @ x # vs))" using \<open>sorted_wrt R (map f ys)\<close> by (simp only:)
    then show ?thesis using ys uv d True \<open>x \<noteq> sub\<close> by auto
  next
    case False
    have "g y = f y" if "y \<noteq> sub" for y using g that False by (cases "y = x") simp_all
    then have same: "map g (remove1 sub xs) = map f (remove1 sub xs)" using d by auto
    have "attached_snapshots t s x sub xs = remove1 sub xs" using False sub by (simp add: attached_snapshots_def remove1_idem)
    then show ?thesis using d False sorted_wrt_remove1 [OF sorted d, of sub] same by (simp del: map_eq_conv)
  qed
  then show "distinct (attached_snapshots t s x sub xs)"
    "set (attached_snapshots t s x sub xs) = set xs - {sub} \<union> (if takes_snapshot t s then {x} else {})"
    "sorted_wrt R (map g (attached_snapshots t s x sub xs))" by simp_all
qed

lemma attach_inv:
  assumes inv: "table_inv cur rb" and x: "by_txn rb x = Some t" "\<not> is_known_as_subxact t"
    and sub: "by_txn rb sub = Some s" "\<not> is_known_as_subxact s" "subxids s = []" and ne: "x \<noteq> sub"
  shows "table_inv cur (attach x sub rb)"
proof -
  define rb' where "rb' = attach x sub rb"
  note eq = attach_eq [OF x(1) sub(1) ne, folded rb'_def]
  have ok: "table_ok rb" "order_ok rb" "not_after cur rb" using inv by (simp_all add: table_inv_def)
  have dist: "distinct (toplevel_by_lsn rb)" "distinct (txns_by_base_snapshot_lsn rb)" using ok(1) by (simp_all add: table_ok_def)
  have P: "by_txn rb' y = by_txn rb y" if "y \<noteq> x" "y \<noteq> sub" for y using that by (simp add: eq(1))
  have child: "is_child rb' z y \<longleftrightarrow> is_child rb z y \<or> z = sub \<and> y = x" for z y using x sub ne by (auto simp: is_child_def eq(1))
  have parent: "has_child rb' y z \<longleftrightarrow> has_child rb y z \<or> y = x \<and> z = sub" for z y using x sub ne by (auto simp: has_child_def eq(1))
  have nx: "node_ok rb x t" and ns: "node_ok rb sub s" using known_node [OF inv] x(1) sub(1) by simp_all
  have fresh: "sub \<notin> set (subxids t)" using nx sub by (auto simp: node_ok_def is_child_def)
  have "node_ok rb' y u" if u: "by_txn rb' y = Some u" for y u
  proof -
    consider "y = x" | "y = sub" | "y \<noteq> x" "y \<noteq> sub" by blast
    then show ?thesis
    proof cases
      case 1
      then show ?thesis using u nx x ne fresh by (auto simp: eq(1) node_ok_def child)
    next
      case 2
      then show ?thesis using u ns sub(3) by (auto simp: eq(1) node_ok_def child parent)
    next
      case 3
      then have "by_txn rb y = Some u" using u P by simp
      then show ?thesis using known_node [OF inv] by (auto simp: node_ok_def child parent)
    qed
  qed
  have mem: "x \<in> set (txns_by_base_snapshot_lsn rb) \<longleftrightarrow> base_snapshot t \<noteq> None" "sub \<in> set (txns_by_base_snapshot_lsn rb) \<longleftrightarrow> base_snapshot s \<noteq> None"
    using snapshot_iff [OF inv] x(1) sub(1) by simp_all
  have lsns: "snap_of rb' y = snap_of rb y" if "y \<noteq> x" "y \<noteq> sub" for y using that by (simp add: P)
  have lsnx: "snap_of rb' x = (if takes_snapshot t s then snap_of rb sub else snap_of rb x)" using x(1) sub(1) ne by (simp add: eq(1))
  have sorted: "sorted_wrt (<) (map (snap_of rb) (txns_by_base_snapshot_lsn rb))" using ok(2) by (simp add: order_ok_def)
  note spec = attached_snapshots_spec [where R = "(<)" and f = "snap_of rb" and g = "snap_of rb'", OF dist(2) mem ne sorted _ lsnx]
  have snaps: "distinct (txns_by_base_snapshot_lsn rb')" "sorted_wrt (<) (map (snap_of rb') (txns_by_base_snapshot_lsn rb'))"
    "set (txns_by_base_snapshot_lsn rb') = set (txns_by_base_snapshot_lsn rb) - {sub} \<union> (if takes_snapshot t s then {x} else {})"
    unfolding eq(3) by (rule spec; simp add: lsns)+
  have "y \<in> set (remove1 sub (toplevel_by_lsn rb)) \<longleftrightarrow> (\<exists>u. by_txn rb' y = Some u \<and> \<not> is_known_as_subxact u)" for y
    using dist(1) toplevel_iff [OF inv, of y] x sub ne by (cases "y = x"; cases "y = sub") (auto simp: eq(1))
  moreover have "y \<in> set (txns_by_base_snapshot_lsn rb') \<longleftrightarrow> (\<exists>u. by_txn rb' y = Some u \<and> base_snapshot u \<noteq> None)" for y
    unfolding snaps(3) using snapshot_iff [OF inv, of y] x sub ne by (cases "y = x"; cases "y = sub") (auto simp: eq(1) takes_snapshot_def)
  ultimately have "table_ok rb'" using \<open>\<And>y u. by_txn rb' y = Some u \<Longrightarrow> node_ok rb' y u\<close> dist snaps(1) by (simp add: table_ok_def eq(2))
  moreover have "map (first_of rb') (remove1 sub (toplevel_by_lsn rb)) = map (first_of rb) (remove1 sub (toplevel_by_lsn rb))"
    using x sub ne dist(1) by (auto simp: eq(1))
  then have "order_ok rb'" using ok(2) dist snaps(2) sorted_wrt_remove1 [of "(\<le>)" "first_of rb" "toplevel_by_lsn rb" sub]
    unfolding order_ok_def eq(2) by (simp del: map_eq_conv)
  moreover have "not_after cur rb'" using ok(3) x(1) sub(1) by (auto simp: not_after_def eq(1) split: if_splits)
  ultimately show ?thesis by (simp add: table_inv_def rb'_def)
qed

text \<open>The assignment as a whole: both transactions are created if need be, and linked unless they are already.\<close>

definition plain_assign :: "('a, 's) ReorderBuffer \<Rightarrow> nat \<Rightarrow> nat \<Rightarrow> XLogRecPtr \<Rightarrow> ('a, 's) ReorderBuffer" where
  "plain_assign rb x sub pos =
    (let rb1 = plain_lookup rb x True pos True
     in if by_txn rb x = None \<and> by_txn rb sub \<noteq> None then rb1
        else if by_txn rb sub \<noteq> None \<and> is_known_as_subxact (node_of rb sub) then rb1
        else attach x sub (plain_lookup rb1 sub True pos True))"

lemma attach_cong: "same_table rb rb' \<Longrightarrow> same_table (attach x sub rb) (attach x sub rb')"
  by (simp add: attach_def ReorderBufferTransferSnapToParent_def same_table_def Let_def)

lemma transfer_fields [simp]:
  "by_txn_last_xid (ReorderBufferTransferSnapToParent x sub rb) = by_txn_last_xid rb"
  "by_txn_last_txn (ReorderBufferTransferSnapToParent x sub rb) = by_txn_last_txn rb"
  "by_txn (ReorderBufferTransferSnapToParent x sub rb) y = None \<longleftrightarrow> by_txn rb y = None"
  by (simp_all add: ReorderBufferTransferSnapToParent_def Let_def)

lemma transfer_cache [simp]: "cache_ok (ReorderBufferTransferSnapToParent x sub rb) = cache_ok rb"
  by (simp add: cache_ok_def)

lemma assign_child_plain:
  assumes inv: "rb_inv cur rb" and "x \<noteq> 0" "sub \<noteq> 0" "x \<noteq> sub"
  shows "same_table (plain_assign rb x sub pos) (ReorderBufferAssignChild rb x sub pos)" "cache_ok (ReorderBufferAssignChild rb x sub pos)"
proof -
  obtain t1 new_top rb1 where r1: "ReorderBufferTXNByXid rb x True pos True = (t1, new_top, rb1)" by (metis prod_cases3)
  obtain t2 new_sub rb2 where r2: "ReorderBufferTXNByXid rb1 sub True pos False = (t2, new_sub, rb2)" by (metis prod_cases3)
  note c = inv [unfolded rb_inv_iff, THEN conjunct1]
  note l1 = lookup_spec [OF c assms(2) r1]
  note l2 = lookup_spec [OF l1(4) assms(3) r2]
  have sub1: "by_txn rb1 sub = by_txn rb sub" using l1(3) assms(4) by (auto simp: same_table_def plain_lookup_def)
  have new: "new_top = (by_txn rb x = None)" "new_sub = (by_txn rb sub = None)" using l1(2) l2(2) sub1 by simp_all
  define P1 where "P1 = plain_lookup rb x True pos True"
  have s1: "same_table P1 rb1" using l1(3) by (simp add: P1_def)
  have s2: "same_table (plain_lookup P1 sub True pos False) rb2" using l2(3) s1 by (auto simp: same_table_def plain_lookup_def)
  define rb3 where "rb3 = (if \<not> new_sub then rb2\<lparr>toplevel_by_lsn := remove1 sub (toplevel_by_lsn rb2)\<rparr> else rb2)"
  have run: "ReorderBufferAssignChild rb x sub pos =
     (if new_top \<and> \<not> new_sub then rb2 else if \<not> new_sub \<and> is_known_as_subxact (node_of rb2 sub) then rb2
      else ReorderBufferTransferSnapToParent x sub
        (upd_node x (\<lambda>t. t\<lparr>subxids := subxids t @ [sub], nsubtxns := nsubtxns t + 1\<rparr>)
          (upd_node sub (\<lambda>s. s\<lparr>is_known_as_subxact := True, toplevel_xid := x\<rparr>) rb3)))"
    by (simp add: ReorderBufferAssignChild_def r1 r2 rb3_def Let_def)
  have fresh: "sub \<notin> set (toplevel_by_lsn P1)" if "new_sub"
    using toplevel_iff [of cur rb sub] inv that new assms(4) by (auto simp: P1_def plain_lookup_def rb_inv_iff)
  have "same_table (plain_assign rb x sub pos) (ReorderBufferAssignChild rb x sub pos) \<and> cache_ok (ReorderBufferAssignChild rb x sub pos)"
  proof (cases "new_top \<and> \<not> new_sub \<or> \<not> new_sub \<and> is_known_as_subxact (node_of rb2 sub)")
    case True
    then have "same_table P1 rb2" using s2 new sub1 s1 by (auto simp: plain_lookup_def same_table_def)
    moreover have "node_of rb2 sub = node_of rb sub" if "\<not> new_sub" using that s2 sub1 s1 new by (auto simp: same_table_def plain_lookup_def)
    ultimately show ?thesis using True new l2(4) by (auto simp: run plain_assign_def P1_def [symmetric] Let_def)
  next
    case False
    let ?Q = "plain_lookup P1 sub True pos True"
    have "node_of rb2 sub = node_of rb sub" if "\<not> new_sub" using that s2 sub1 s1 new by (auto simp: same_table_def plain_lookup_def)
    then have pa: "plain_assign rb x sub pos = attach x sub ?Q" using False new by (auto simp: plain_assign_def P1_def [symmetric] Let_def)
    have "same_table (?Q\<lparr>toplevel_by_lsn := remove1 sub (toplevel_by_lsn ?Q)\<rparr>) rb3"
      using s2 fresh new sub1 s1 by (auto simp: rb3_def same_table_def plain_lookup_def remove1_append remove1_idem)
    then have "same_table (attach x sub ?Q) (ReorderBufferTransferSnapToParent x sub
        (upd_node x (\<lambda>t. t\<lparr>subxids := subxids t @ [sub], nsubtxns := nsubtxns t + 1\<rparr>)
          (upd_node sub (\<lambda>s. s\<lparr>is_known_as_subxact := True, toplevel_xid := x\<rparr>) rb3)))"
      by (simp add: attach_def ReorderBufferTransferSnapToParent_def same_table_def Let_def)
    moreover have "cache_ok rb3" using l2(4) by (auto simp: rb3_def cache_ok_def)
    then have "cache_ok (ReorderBufferTransferSnapToParent x sub
        (upd_node x (\<lambda>t. t\<lparr>subxids := subxids t @ [sub], nsubtxns := nsubtxns t + 1\<rparr>)
          (upd_node sub (\<lambda>s. s\<lparr>is_known_as_subxact := True, toplevel_xid := x\<rparr>) rb3)))"
      by simp
    ultimately show ?thesis using False pa by (auto simp: run)
  qed
  then show "same_table (plain_assign rb x sub pos) (ReorderBufferAssignChild rb x sub pos)" "cache_ok (ReorderBufferAssignChild rb x sub pos)"
    by simp_all
qed

lemma plain_lookup_present: "by_txn rb x \<noteq> None \<Longrightarrow> plain_lookup rb x create pos as_top = rb"
  by (auto simp: plain_lookup_def)

lemma plain_lookup_by_txn:
  "by_txn (plain_lookup rb x True pos as_top) y = (if y = x \<and> by_txn rb x = None then Some (ReorderBufferGetTXN x pos) else by_txn rb y)"
  by (simp add: plain_lookup_def)

lemma new_node_simps [simp]:
  "\<not> is_known_as_subxact (ReorderBufferGetTXN x pos)" "subxids (ReorderBufferGetTXN x pos) = []" "base_snapshot (ReorderBufferGetTXN x pos) = None"
  "body (ReorderBufferGetTXN x pos) = new_txn x pos"
  by (simp_all add: ReorderBufferGetTXN_def)

lemma plain_assign_inv:
  assumes inv: "table_inv cur rb" and "x \<noteq> 0" "sub \<noteq> 0" "x \<noteq> sub"
    and top: "\<And>t. by_txn rb x = Some t \<Longrightarrow> \<not> is_known_as_subxact t"
    and leaf: "\<And>s. by_txn rb sub = Some s \<Longrightarrow> subxids s = []"
    and cur: "cur \<le> pos \<and> cur' = pos \<or> by_txn rb x \<noteq> None \<and> by_txn rb sub \<noteq> None \<and> cur' = cur"
  shows "table_inv cur' (plain_assign rb x sub pos)"
proof -
  have inv1: "table_inv cur' (plain_lookup rb x True pos True)"
    using plain_lookup_inv [OF inv assms(2)] plain_lookup_present [of rb x] inv cur by auto
  have inv2: "table_inv cur' (plain_lookup (plain_lookup rb x True pos True) sub True pos True)"
    using plain_lookup_inv [OF inv1 assms(3), of pos True] plain_lookup_present [of rb x] plain_lookup_present [of rb sub] inv1 cur by auto
  show ?thesis
  proof (cases "by_txn rb x = None \<and> by_txn rb sub \<noteq> None \<or> by_txn rb sub \<noteq> None \<and> is_known_as_subxact (node_of rb sub)")
    case True
    then show ?thesis using inv1 by (auto simp: plain_assign_def Let_def)
  next
    case False
    define rb2 where "rb2 = plain_lookup (plain_lookup rb x True pos True) sub True pos True"
    have x2: "by_txn rb2 x = Some (case by_txn rb x of None \<Rightarrow> ReorderBufferGetTXN x pos | Some t \<Rightarrow> t)"
      and s2: "by_txn rb2 sub = Some (case by_txn rb sub of None \<Rightarrow> ReorderBufferGetTXN sub pos | Some s \<Rightarrow> s)"
      using assms(4) by (auto simp: rb2_def plain_lookup_by_txn split: option.split)
    have "table_inv cur' (attach x sub rb2)"
      by (rule attach_inv [OF _ x2 _ s2]) (use inv2 False top leaf assms(4) in \<open>auto simp: rb2_def split: option.split\<close>)
    then show ?thesis using False by (auto simp: plain_assign_def rb2_def Let_def)
  qed
qed

subsection \<open>Base snapshots\<close>

lemma set_snapshot_inv:
  assumes inv: "table_inv cur rb" and y: "by_txn rb y = Some t" "\<not> is_known_as_subxact t" "base_snapshot t = None"
    and pos: "cur \<le> pos" "\<forall>x \<in> set (txns_by_base_snapshot_lsn rb). snap_of rb x < pos"
  shows "table_inv pos ((upd_node y (\<lambda>t. t\<lparr>base_snapshot := Some snap, base_snapshot_lsn := pos\<rparr>) rb)
     \<lparr>txns_by_base_snapshot_lsn := txns_by_base_snapshot_lsn rb @ [y]\<rparr>)"
proof -
  define rb' where "rb' = (upd_node y (\<lambda>t. t\<lparr>base_snapshot := Some snap, base_snapshot_lsn := pos\<rparr>) rb)
     \<lparr>txns_by_base_snapshot_lsn := txns_by_base_snapshot_lsn rb @ [y]\<rparr>"
  have eq: "by_txn rb' = (by_txn rb)(y \<mapsto> t\<lparr>base_snapshot := Some snap, base_snapshot_lsn := pos\<rparr>)"
    "toplevel_by_lsn rb' = toplevel_by_lsn rb" "txns_by_base_snapshot_lsn rb' = txns_by_base_snapshot_lsn rb @ [y]"
    using y(1) by (simp_all add: rb'_def)
  have ok: "table_ok rb" "order_ok rb" "not_after cur rb" using inv by (simp_all add: table_inv_def)
  have fresh: "y \<notin> set (txns_by_base_snapshot_lsn rb)" using snapshot_iff [OF inv] y by auto
  have rel: "is_child rb' z w = is_child rb z w" "has_child rb' z w = has_child rb z w" for z w using y(1) by (auto simp: is_child_def has_child_def eq(1))
  have "node_ok rb' z u" if "by_txn rb' z = Some u" for z u
    using that known_node [OF inv] y by (cases "z = y") (auto simp: eq(1) node_ok_def rel)
  moreover have "z \<in> set (toplevel_by_lsn rb) \<longleftrightarrow> (\<exists>u. by_txn rb' z = Some u \<and> \<not> is_known_as_subxact u)"
    "z \<in> set (txns_by_base_snapshot_lsn rb @ [y]) \<longleftrightarrow> (\<exists>u. by_txn rb' z = Some u \<and> base_snapshot u \<noteq> None)" for z
    using toplevel_iff [OF inv, of z] snapshot_iff [OF inv, of z] y by (auto simp: eq(1))
  ultimately have "table_ok rb'" using ok(1) fresh by (simp add: table_ok_def eq(2,3))
  moreover have maps: "map (first_of rb') (toplevel_by_lsn rb) = map (first_of rb) (toplevel_by_lsn rb)"
    "map (snap_of rb') (txns_by_base_snapshot_lsn rb) = map (snap_of rb) (txns_by_base_snapshot_lsn rb)"
    using fresh y(1) by (auto simp: eq(1))
  then have "order_ok rb'" unfolding order_ok_def eq(2,3) map_append maps using ok(2) pos(2) y(1)
    by (simp add: order_ok_def sorted_wrt_append eq(1))
  moreover have "not_after pos rb'" using ok(3) y(1) pos(1) by (auto simp: not_after_def eq(1) split: if_splits intro: order_trans)
  ultimately show ?thesis by (simp add: table_inv_def rb'_def)
qed

end
