(* ===== verification/ReorderRefine.thy ===== *)
theory ReorderRefine
  imports ReorderDecode ReorderTableInv
begin

text \<open>
  The reorder buffer as a whole: a specification of what its calls mean on the level of the log, and the proof that the table of \<open>ReorderTable\<close>
  with its spill files implements it. The specification knows no cache, no files and no iterator: it keeps the changes of the transactions in progress in the order of the log.
\<close>

subsection \<open>Files after the iterator was built\<close>

lemma files_wf_cong:
  "files_wf disk t \<Longrightarrow> disk' (xid t) = disk (xid t) \<Longrightarrow> xid u = xid t \<Longrightarrow> first_lsn u = first_lsn t \<Longrightarrow> final_lsn u = final_lsn t \<Longrightarrow>
    serialized u = serialized t \<Longrightarrow> files_wf disk' u"
  by (simp add: files_wf_def)

definition forest_files :: "'a spill \<Rightarrow> 'a txn_tree list \<Rightarrow> bool" where
  "forest_files disk subs \<longleftrightarrow> (\<forall>t \<in> set (concat (map txns_of subs)). files_wf disk t)"

lemma forest_files_frame:
  "forest_files disk subs \<Longrightarrow> (\<And>x. x \<in> forest_xids subs \<Longrightarrow> disk' x = disk x) \<Longrightarrow> forest_files disk' subs"
  unfolding forest_files_def by (blast intro: files_wf_cong)

lemma forest_files_Cons: "forest_files disk (s # subs) \<longleftrightarrow> forest_files disk [s] \<and> forest_files disk subs"
  by (auto simp: forest_files_def)

lemma forest_ok_files: "forest_ok disk subs \<Longrightarrow> forest_files disk subs"
  by (simp add: forest_ok_def forest_files_def txn_wf_files)

lemma init_entry_files:
  assumes ok: "forest_ok disk [s]" and run: "init_entry m disk s = (e, d, s')"
  shows "forest_files d [s']" "forest_ids [s'] = forest_ids [s]"
proof -
  have "forest_files d [s'] \<and> forest_ids [s'] = forest_ids [s]"
  proof (cases "serialized (txn s)")
    case False
    then show ?thesis using run forest_ok_files [OF ok] by (auto simp: init_entry_def)
  next
    case True
    obtain d1 s1 where ser: "ReorderBufferSerializeTXN disk s = (d1, s1)" by fastforce
    obtain n t fd segno where r: "ReorderBufferRestoreChanges m d1 (txn s1) None 0 = (n, t, fd, segno)" by (metis prod_cases4)
    have out: "d = d1" "s' = Txn t (subtxns s1)" using run True by (simp_all add: init_entry_def ser r)
    have t: "xid t = xid (txn s1)" "first_lsn t = first_lsn (txn s1)" "final_lsn t = final_lsn (txn s1)" "serialized t = serialized (txn s1)"
      using r by (auto simp: ReorderBufferRestoreChanges_def split: prod.splits)
    have "distinct (map xid (txns_of s))" "\<forall>t \<in> set (txns_of s). txn_wf disk t" using ok by (simp_all add: forest_ok_def)
    note spec = serialize_txn_spec(1) [OF this ser]
    then have "forest_files d1 [s1]" "forest_ids [s1] = forest_ids [s]" by (simp_all add: forest_files_def txn_wf_files)
    then show ?thesis using t files_wf_cong [of d1 "txn s1" d1 t] by (simp add: out forest_files_def txns_of_eq [of s1])
  qed
  then show "forest_files d [s']" "forest_ids [s'] = forest_ids [s]" by simp_all
qed

lemma init_subtxns_files:
  assumes "forest_ok disk subs" "0 < m" "init_subtxns m disk subs = (es, d, subs')"
  shows "forest_files d subs' \<and> forest_ids subs' = forest_ids subs"
  using assms
proof (induction subs arbitrary: disk es subs')
  case Nil
  then show ?case by (simp add: forest_files_def)
next
  case (Cons s subs)
  note parts = forest_ok_Cons [OF Cons.prems(1)]
  have disj: "forest_xids [s] \<inter> forest_xids subs = {}" using parts by simp
  show ?case
  proof (cases "0 < nentries (txn s)")
    case False
    then obtain subs1 where r: "init_subtxns m disk subs = (es, d, subs1)" "subs' = s # subs1" using Cons.prems(3) by (auto split: prod.splits)
    have "forest_files d [s]"
      using forest_files_frame [OF forest_ok_files, of disk "[s]" d] init_subtxns_spec [OF _ Cons.prems(2) r(1)] parts disj by blast
    then show ?thesis using Cons.IH [OF _ Cons.prems(2) r(1)] parts r(2) forest_files_Cons [of d s subs1] by simp
  next
    case True
    obtain e d1 s1 where r1: "init_entry m disk s = (e, d1, s1)" by (metis prod_cases3)
    obtain es1 subs1 where r2: "init_subtxns m d1 subs = (es1, d, subs1)" "subs' = s1 # subs1"
      using Cons.prems(3) True r1 by (auto split: prod.splits)
    have ok: "forest_ok disk [s]" "forest_ok disk subs" using parts by simp_all
    have same: "d1 x = disk x" if "x \<in> forest_xids subs" for x using init_entry_spec(6) [OF ok(1) True Cons.prems(2) r1, of x] disj that by auto
    have ok1: "forest_ok d1 subs" by (rule forest_frame(1) [OF ok(2) same])
    note en = init_entry_files [OF ok(1) r1]
    have "forest_xids [s1] = forest_xids [s]" using en(2) by (simp only: forest_xids_ids)
    then have "forest_files d [s1]" using forest_files_frame [OF en(1), of d] init_subtxns_spec [OF ok1 Cons.prems(2) r2(1)] disj by blast
    then show ?thesis using Cons.IH [OF ok1 Cons.prems(2) r2(1)] en(2) r2(2) forest_files_Cons [of d s1 subs1] by simp
  qed
qed

lemma init_entry_flat:
  assumes "flat s" "init_entry m disk s = (e, d, s')"
  shows "flat s' \<and> (subtxns s = [] \<longrightarrow> subtxns s' = [])"
proof (cases "serialized (txn s)")
  case True
  obtain d1 s1 where ser: "ReorderBufferSerializeTXN disk s = (d1, s1)" by fastforce
  obtain n t fd segno where r: "ReorderBufferRestoreChanges m d1 (txn s1) None 0 = (n, t, fd, segno)" by (metis prod_cases4)
  have out: "s' = Txn t (subtxns s1)" using assms(2) True by (simp add: init_entry_def ser r)
  have "flat s1" "subtxns s = [] \<longrightarrow> subtxns s1 = []" using serialize_commit [OF ser assms(1)] serialize_leaf_commit [OF ser] by blast+
  then show ?thesis unfolding out flat_def txn_tree.sel by blast
next
  case False
  then show ?thesis using assms by (simp add: init_entry_def)
qed

lemma init_subtxns_flat:
  "init_subtxns m disk subs = (es, d, subs') \<Longrightarrow> \<forall>s \<in> set subs. subtxns s = [] \<Longrightarrow> \<forall>s \<in> set subs'. subtxns s = []"
proof (induction subs arbitrary: disk es subs')
  case (Cons s subs)
  have "flat s" using Cons.prems(2) by (simp add: flat_def)
  show ?case
  proof (cases "0 < nentries (txn s)")
    case True
    obtain e d1 s1 where r1: "init_entry m disk s = (e, d1, s1)" by (metis prod_cases3)
    obtain es1 subs1 where r2: "init_subtxns m d1 subs = (es1, d, subs1)" "subs' = s1 # subs1"
      using Cons.prems(1) True r1 by (auto split: prod.splits)
    then show ?thesis using Cons.IH [OF r2(1)] init_entry_flat [OF \<open>flat s\<close> r1] Cons.prems(2) by simp
  next
    case False
    then obtain subs1 where r: "init_subtxns m disk subs = (es, d, subs1)" "subs' = s # subs1" using Cons.prems(1) by (auto split: prod.splits)
    then show ?thesis using Cons.IH [OF r(1)] Cons.prems(2) by simp
  qed
qed simp

lemma iter_init_files:
  assumes ok: "forest_ok disk [tree]" and m: "0 < m" and run: "ReorderBufferIterTXNInit m mem disk tree = Inr (st, d, tree')"
  shows "forest_files d [tree']" "forest_ids [tree'] = forest_ids [tree]" "\<And>x. x \<notin> forest_xids [tree] \<Longrightarrow> d x = disk x"
    "flat tree \<Longrightarrow> flat tree'"
proof -
  define start where "start = (if nentries (txn tree) > 0 then (case init_entry m disk tree of (e, disk, tree) \<Rightarrow> ([e], disk, tree)) else ([], disk, tree))"
  obtain es0 d0 tree1 where f: "start = (es0, d0, tree1)" by (metis prod_cases3)
  obtain es1 d1 subs1 where r: "init_subtxns m d0 (subtxns tree1) = (es1, d1, subs1)" by (metis prod_cases3)
  have out: "d = d1" "tree' = Txn (txn tree1) subs1"
    using run unfolding ReorderBufferIterTXNInit_def Let_def start_def [symmetric] f prod.case r by (auto simp: bindE_def split: sum.splits)
  have one: "forest_files d0 [tree1] \<and> forest_ids [tree1] = forest_ids [tree] \<and> forest_ok d0 (subtxns tree1) \<and> (\<forall>x. x \<notin> forest_xids [tree] \<longrightarrow> d0 x = disk x)"
  proof (cases "0 < nentries (txn tree)")
    case True
    then obtain e where e: "init_entry m disk tree = (e, d0, tree1)" using f by (auto simp: start_def split: prod.splits)
    show ?thesis using init_entry_files [OF ok e] init_entry_spec(3,6) [OF ok True m e] by simp
  next
    case False
    then show ?thesis using f forest_ok_Cons [OF ok] forest_ok_files [OF ok] by (simp add: start_def)
  qed
  then have ok0: "forest_ok d0 (subtxns tree1)" by blast
  note two = init_subtxns_files [OF ok0 m r] and frame = init_subtxns_spec [OF ok0 m r]
  have ids1: "forest_ids [tree1] = (xid (txn tree1), first_lsn (txn tree1), final_lsn (txn tree1)) # forest_ids (subtxns tree1)"
    by (simp add: txns_of_eq [of tree1])
  have "distinct (map fst (forest_ids [tree]))" using ok by (simp add: forest_ok_def o_def)
  then have "distinct (map fst (forest_ids [tree1]))" using one by simp
  then have fresh: "xid (txn tree1) \<notin> forest_xids (subtxns tree1)" unfolding ids1 by (simp add: image_image)
  then have same: "d1 (xid (txn tree1)) = d0 (xid (txn tree1))" using frame by blast
  have "files_wf d0 (txn tree1)" using one by (simp add: forest_files_def txns_of_eq [of tree1])
  then have "files_wf d1 (txn tree1)" using files_wf_cong [of d0 "txn tree1" d1 "txn tree1"] same by simp
  then show "forest_files d [tree']" using two by (simp add: out forest_files_def)
  have "forest_ids [tree'] = (xid (txn tree1), first_lsn (txn tree1), final_lsn (txn tree1)) # forest_ids (subtxns tree1)" using two by (simp add: out)
  then show "forest_ids [tree'] = forest_ids [tree]" using one unfolding ids1 by simp
  show "d x = disk x" if "x \<notin> forest_xids [tree]" for x
  proof -
    have "x \<notin> forest_xids [tree1]" using that one unfolding forest_xids_ids by simp
    then have "x \<notin> forest_xids (subtxns tree1)" by (simp add: txns_of_eq [of tree1])
    then show ?thesis using frame one that by (simp add: out)
  qed
  show "flat tree'" if "flat tree"
  proof -
    have "flat tree1"
    proof (cases "0 < nentries (txn tree)")
      case True
      then obtain e where "init_entry m disk tree = (e, d0, tree1)" using f by (auto simp: start_def split: prod.splits)
      then show ?thesis using init_entry_flat [OF that] by blast
    next
      case False
      then show ?thesis using f that by (simp add: start_def)
    qed
    then show ?thesis using init_subtxns_flat [OF r] unfolding out flat_def txn_tree.sel by blast
  qed
qed

subsection \<open>The calls\<close>

datatype ('a, 's) rb_call =
  Process nat XLogRecPtr
| SetCatalogChanges nat XLogRecPtr
| SetBaseSnapshot nat XLogRecPtr 's
| Queue nat XLogRecPtr "'a ReorderBufferChange"
| AddTupleCids nat XLogRecPtr "'a ReorderBufferChange" 'a
| Assign nat nat XLogRecPtr
| Commit nat "nat list" XLogRecPtr
| Forget nat "nat list" XLogRecPtr
| Abort nat "nat list" XLogRecPtr
| AbortOld nat XLogRecPtr

text \<open>One call on the table; \<open>None\<close> is an error. The output is the changes passed on, of a commit.\<close>

fun rb_exec ::
  "nat \<Rightarrow> nat \<Rightarrow> (nat \<Rightarrow> nat) \<Rightarrow> ('a, 's) ReorderBuffer \<Rightarrow> ('a, 's) rb_call \<Rightarrow> ('a ReorderBufferChange list \<times> ('a, 's) ReorderBuffer) option" where
  "rb_exec n m mem rb (Process x pos) = Some ([], ReorderBufferProcessXid rb x pos)"
| "rb_exec n m mem rb (SetCatalogChanges x pos) = Some ([], ReorderBufferXidSetCatalogChanges rb x pos)"
| "rb_exec n m mem rb (SetBaseSnapshot x pos snap) =
    (case ReorderBufferSetBaseSnapshot rb x pos snap of Inl _ \<Rightarrow> None | Inr rb \<Rightarrow> Some ([], rb))"
| "rb_exec n m mem rb (Queue x pos change) = Some ([], ReorderBufferQueueChange m rb x pos change)"
| "rb_exec n m mem rb (AddTupleCids x pos change tuplecid) = Some ([], ReorderBufferAddNewTupleCids change rb x pos tuplecid)"
| "rb_exec n m mem rb (Assign x sub pos) = Some ([], ReorderBufferAssignChild rb x sub pos)"
| "rb_exec n m mem rb (Commit x subs pos) =
    (case DecodeCommit n m mem False rb x subs pos of Some (Inr out, rb) \<Rightarrow> Some (out, rb) | _ \<Rightarrow> None)"
| "rb_exec n m mem rb (Forget x subs pos) =
    (case DecodeCommit n m mem True rb x subs pos of Some (Inr out, rb) \<Rightarrow> Some (out, rb) | _ \<Rightarrow> None)"
| "rb_exec n m mem rb (Abort x subs pos) = Some ([], DecodeAbort rb x subs pos)"
| "rb_exec n m mem rb (AbortOld oldest pos) = Some ([], ReorderBufferAbortOld rb oldest pos)"

fun rb_run ::
  "nat \<Rightarrow> nat \<Rightarrow> (nat \<Rightarrow> nat) \<Rightarrow> ('a, 's) ReorderBuffer \<Rightarrow> ('a, 's) rb_call list \<Rightarrow> ('a ReorderBufferChange list list \<times> ('a, 's) ReorderBuffer) option" where
  "rb_run n m mem rb [] = Some ([], rb)"
| "rb_run n m mem rb (c # cs) =
    (case rb_exec n m mem rb c of
       None \<Rightarrow> None
     | Some (out, rb) \<Rightarrow> map_option (\<lambda>(outs, rb). (out # outs, rb)) (rb_run n m mem rb cs))"

subsection \<open>The specification\<close>

text \<open>
  The state: the position reached in the log, that of the last base snapshot, the transactions not known as subtransactions, in the order in which they were seen,
  the parents of the others, the transactions with a base snapshot, and the changes of all transactions in progress, in the order of the log.
\<close>

record 'a log_state =
  log_pos :: XLogRecPtr
  snap_pos :: XLogRecPtr
  tops :: "nat list"
  parent :: "nat \<rightharpoonup> nat"
  snaps :: "nat set"
  events :: "(nat \<times> 'a ReorderBufferChange) list"

definition log_init :: "'a log_state" where
  "log_init = \<lparr>log_pos = 0, snap_pos = 0, tops = [], parent = Map.empty, snaps = {}, events = []\<rparr>"

definition known :: "'a log_state \<Rightarrow> nat set" where
  "known st = set (tops st) \<union> dom (parent st)"

definition kids :: "'a log_state \<Rightarrow> nat \<Rightarrow> nat set" where
  "kids st x = {y. parent st y = Some x}"

definition spec_touch :: "nat \<Rightarrow> 'a log_state \<Rightarrow> 'a log_state" where
  "spec_touch x st = (if x \<in> known st then st else st\<lparr>tops := tops st @ [x]\<rparr>)"

definition spec_link :: "nat \<Rightarrow> nat \<Rightarrow> 'a log_state \<Rightarrow> 'a log_state" where
  "spec_link x sub st = st\<lparr>tops := filter (\<lambda>y. y \<noteq> sub) (tops st), parent := (parent st)(sub \<mapsto> x),
     snaps := (if sub \<in> snaps st then insert x (snaps st - {sub}) else snaps st)\<rparr>"

text \<open>A subtransaction that was seen before its top-level transaction stays on its own.\<close>

definition spec_assign :: "nat \<Rightarrow> nat \<Rightarrow> 'a log_state \<Rightarrow> 'a log_state" where
  "spec_assign x sub st =
    (if x \<notin> known st \<and> sub \<in> known st \<or> parent st sub \<noteq> None then spec_touch x st
     else spec_link x sub (spec_touch x st))"

definition spec_remove :: "nat set \<Rightarrow> 'a log_state \<Rightarrow> 'a log_state" where
  "spec_remove xs st = st\<lparr>tops := filter (\<lambda>x. x \<notin> xs) (tops st), parent := parent st |` (- xs), snaps := snaps st - xs,
     events := filter (\<lambda>e. fst e \<notin> xs) (events st)\<rparr>"

definition family :: "'a log_state \<Rightarrow> nat \<Rightarrow> nat set" where
  "family st x = insert x (kids st x)"

text \<open>The subtransactions that a commit record names are linked to the transaction, then the family is gone.\<close>

definition spec_children :: "nat \<Rightarrow> nat list \<Rightarrow> 'a log_state \<Rightarrow> 'a log_state" where
  "spec_children x = fold (\<lambda>sub st. if sub \<in> known st then spec_assign x sub st else st)"

definition spec_commit :: "nat \<Rightarrow> nat list \<Rightarrow> 'a log_state \<Rightarrow> 'a log_state" where
  "spec_commit x subs st = (let st = spec_children x subs st in if x \<in> known st then spec_remove (family st x) st else st)"

text \<open>
  What a commit passes on: nothing without a base snapshot, else the changes of the family, merged by their positions, up to the first command id
  that is not \<^verbatim>\<open>FirstCommandId\<close>.
\<close>

definition spec_passed :: "nat \<Rightarrow> nat list \<Rightarrow> 'a log_state \<Rightarrow> 'a ReorderBufferChange list \<Rightarrow> bool" where
  "spec_passed x subs st out \<longleftrightarrow>
    (let st = spec_children x subs st
     in if x \<in> known st \<and> x \<in> snaps st
        then \<exists>all. merge_of lsn (filter (\<lambda>e. fst e \<in> family st x) (events st)) all \<and> out = takeWhile (\<lambda>c. \<not> stop_decoding c) all
        else out = [])"

fun spec_out :: "'a log_state \<Rightarrow> ('a, 's) rb_call \<Rightarrow> 'a ReorderBufferChange list \<Rightarrow> bool" where
  "spec_out st (Commit x subs pos) out \<longleftrightarrow> spec_passed x subs st out"
| "spec_out st _ out \<longleftrightarrow> out = []"

fun spec_next :: "'a log_state \<Rightarrow> ('a, 's) rb_call \<Rightarrow> 'a log_state" where
  "spec_next st (Process x pos) = (if x = 0 then st else (spec_touch x st)\<lparr>log_pos := pos\<rparr>)"
| "spec_next st (SetCatalogChanges x pos) = (spec_touch x st)\<lparr>log_pos := pos\<rparr>"
| "spec_next st (SetBaseSnapshot x pos snap) =
    (let st = spec_touch x st
     in st\<lparr>log_pos := pos, snap_pos := pos, snaps := insert (case parent st x of None \<Rightarrow> x | Some p \<Rightarrow> p) (snaps st)\<rparr>)"
| "spec_next st (Queue x pos change) = (spec_touch x st)\<lparr>log_pos := pos, events := events st @ [(x, change\<lparr>lsn := pos\<rparr>)]\<rparr>"
| "spec_next st (AddTupleCids x pos change tuplecid) = (spec_touch x st)\<lparr>log_pos := pos\<rparr>"
| "spec_next st (Assign x sub pos) = (spec_assign x sub st)\<lparr>log_pos := pos\<rparr>"
| "spec_next st (Commit x subs pos) = (spec_commit x subs st)\<lparr>log_pos := pos\<rparr>"
| "spec_next st (Abort x subs pos) = (spec_remove (set (x # subs)) st)\<lparr>log_pos := pos\<rparr>"
| "spec_next st (Forget x subs pos) = (spec_remove (set (x # subs)) st)\<lparr>log_pos := pos\<rparr>"
| "spec_next st (AbortOld oldest pos) =
    (spec_remove (\<Union> (family st ` set (takeWhile (\<lambda>x. x < oldest) (tops st)))) st)\<lparr>log_pos := pos\<rparr>"

text \<open>
  The sequences of calls considered: positions do not decrease, transactions are linked in two levels, the end of a transaction names all its subtransactions still in progress, base snapshots are set once and at a new position.
  A top-level transaction is known before any of its subtransactions ends: \<^verbatim>\<open>AssignTransactionId\<close> logs the assignment when the log does not have the
  top-level xid yet.
\<close>

fun allowed :: "'a log_state \<Rightarrow> ('a, 's) rb_call \<Rightarrow> bool" where
  "allowed st (Process x pos) \<longleftrightarrow> log_pos st \<le> pos"
| "allowed st (SetCatalogChanges x pos) \<longleftrightarrow> x \<noteq> 0 \<and> log_pos st \<le> pos"
| "allowed st (SetBaseSnapshot x pos snap) \<longleftrightarrow> x \<noteq> 0 \<and> log_pos st \<le> pos \<and> snap_pos st < pos \<and>
    (case parent st x of None \<Rightarrow> x | Some p \<Rightarrow> p) \<notin> snaps st"
| "allowed st (Queue x pos change) \<longleftrightarrow> x \<noteq> 0 \<and> log_pos st \<le> pos \<and> action change \<noteq> REORDER_BUFFER_CHANGE_INTERNAL_TUPLECID"
| "allowed st (AddTupleCids x pos change tuplecid) \<longleftrightarrow> x \<noteq> 0 \<and> log_pos st \<le> pos"
| "allowed st (Assign x sub pos) \<longleftrightarrow> x \<noteq> 0 \<and> sub \<noteq> 0 \<and> x \<noteq> sub \<and> log_pos st \<le> pos \<and> parent st x = None \<and> kids st sub = {}"
| "allowed st (Commit x subs pos) \<longleftrightarrow> x \<noteq> 0 \<and> log_pos st \<le> pos \<and> x \<notin> set subs \<and> parent st x = None \<and> kids st x \<subseteq> set subs \<and>
    (\<forall>sub \<in> set subs. sub \<noteq> 0 \<and> (sub \<in> known st \<longrightarrow> x \<in> known st \<and> kids st sub = {} \<and> (parent st sub = None \<or> parent st sub = Some x)))"
| "allowed st (Abort x subs pos) \<longleftrightarrow> x \<noteq> 0 \<and> log_pos st \<le> pos \<and> x \<notin> set subs \<and> kids st x \<subseteq> set subs \<and>
    (\<forall>sub \<in> set subs. sub \<noteq> 0 \<and> kids st sub = {})"
| "allowed st (Forget x subs pos) \<longleftrightarrow> x \<noteq> 0 \<and> log_pos st \<le> pos \<and> x \<notin> set subs \<and> kids st x \<subseteq> set subs \<and>
    (\<forall>sub \<in> set subs. sub \<noteq> 0 \<and> kids st sub = {})"
| "allowed st (AbortOld oldest pos) \<longleftrightarrow> log_pos st \<le> pos"

fun spec_run :: "'a log_state \<Rightarrow> ('a, 's) rb_call list \<Rightarrow> 'a log_state" where
  "spec_run st [] = st"
| "spec_run st (c # cs) = spec_run (spec_next st c) cs"

fun spec_outs :: "'a log_state \<Rightarrow> ('a, 's) rb_call list \<Rightarrow> 'a ReorderBufferChange list list \<Rightarrow> bool" where
  "spec_outs st [] outs \<longleftrightarrow> outs = []"
| "spec_outs st (c # cs) outs \<longleftrightarrow> (\<exists>out outs'. outs = out # outs' \<and> spec_out st c out \<and> spec_outs (spec_next st c) cs outs')"

fun allowed_run :: "'a log_state \<Rightarrow> ('a, 's) rb_call list \<Rightarrow> bool" where
  "allowed_run st [] \<longleftrightarrow> True"
| "allowed_run st (c # cs) \<longleftrightarrow> allowed st c \<and> allowed_run (spec_next st c) cs"

end
