(* ===== verification/ReorderSim.thy ===== *)
theory ReorderSim
  imports ReorderRefine
begin

text \<open>
  The simulation between the transaction table of \<open>ReorderTable\<close> and the specification of \<open>ReorderRefine\<close>: what
  a state of the table means, and that every call keeps it.
\<close>

subsection \<open>The relation\<close>

text \<open>
  A transaction holds changes \<open>cs\<close>, in memory and on disk, whatever the position \<open>F\<close> of its end is going to be.
\<close>

definition holds_at :: "XLogRecPtr \<Rightarrow> 'a spill \<Rightarrow> 'a ReorderBufferTXN \<Rightarrow> 'a ReorderBufferChange list \<Rightarrow> bool" where
  "holds_at F disk t cs \<longleftrightarrow> txn_wf disk (t\<lparr>final_lsn := F\<rparr>) \<and> txn_contents disk (t\<lparr>final_lsn := F\<rparr>) = cs"

definition data_sim :: "(nat \<Rightarrow> XLogRecPtr) \<Rightarrow> XLogRecPtr \<Rightarrow> (nat \<times> 'a ReorderBufferChange) list \<Rightarrow> ('a, 's) ReorderBuffer \<Rightarrow> bool" where
  "data_sim fin cur evs rb \<longleftrightarrow>
    (\<forall>x t. by_txn rb x = Some t \<longrightarrow> final_lsn (body t) = fin x \<and> (\<forall>F \<ge> cur. holds_at F (rb_disk rb) (body t) (with_key x evs))) \<and>
    (\<forall>x. by_txn rb x = None \<longrightarrow> rb_disk rb x = Map.empty)"

definition parent_of :: "('a, 's) ReorderBuffer \<Rightarrow> nat \<Rightarrow> nat option" where
  "parent_of rb y = (case by_txn rb y of None \<Rightarrow> None | Some s \<Rightarrow> if is_known_as_subxact s then Some (toplevel_xid s) else None)"

definition link_sim :: "'a log_state \<Rightarrow> ('a, 's) ReorderBuffer \<Rightarrow> bool" where
  "link_sim st rb \<longleftrightarrow> tops st = toplevel_by_lsn rb \<and> parent st = parent_of rb \<and> snaps st = set (txns_by_base_snapshot_lsn rb) \<and>
    (\<forall>x \<in> snaps st. snap_of rb x \<le> snap_pos st)"

lemma snap_bound: "link_sim st rb \<Longrightarrow> y \<in> snaps st \<Longrightarrow> by_txn rb y = Some u \<Longrightarrow> base_snapshot_lsn u \<le> snap_pos st"
  unfolding link_sim_def by (metis option.sel)

definition log_ok :: "'a log_state \<Rightarrow> bool" where
  "log_ok st \<longleftrightarrow> (\<forall>e \<in> set (events st). fst e \<in> known st \<and> lsn (snd e) \<le> log_pos st \<and>
    action (snd e) \<noteq> REORDER_BUFFER_CHANGE_INTERNAL_TUPLECID)"

definition sim_table :: "(nat \<Rightarrow> XLogRecPtr) \<Rightarrow> 'a log_state \<Rightarrow> ('a, 's) ReorderBuffer \<Rightarrow> bool" where
  "sim_table fin st rb \<longleftrightarrow> table_inv (log_pos st) rb \<and> link_sim st rb \<and> log_ok st \<and> data_sim fin (log_pos st) (events st) rb"

text \<open>Between two calls no transaction has a final position.\<close>

definition sim :: "'a log_state \<Rightarrow> ('a, 's) ReorderBuffer \<Rightarrow> bool" where
  "sim st rb \<longleftrightarrow> cache_ok rb \<and> sim_table (\<lambda>_. 0) st rb"

lemma sim_table_cong: "same_table rb rb' \<Longrightarrow> sim_table fin st rb' = sim_table fin st rb"
  using table_inv_cong [of rb rb' "log_pos st"]
  unfolding sim_table_def link_sim_def data_sim_def parent_of_def [abs_def] same_table_def by simp

lemma sim_known: "sim_table fin st rb \<Longrightarrow> x \<in> known st \<longleftrightarrow> by_txn rb x \<noteq> None"
  using toplevel_iff [of "log_pos st" rb x] unfolding sim_table_def link_sim_def known_def
  by (auto simp: parent_of_def dom_def split: option.splits if_splits)

lemma sim_top: "sim_table fin st rb \<Longrightarrow> x \<in> set (tops st) \<longleftrightarrow> (\<exists>t. by_txn rb x = Some t \<and> \<not> is_known_as_subxact t)"
  using toplevel_iff [of "log_pos st" rb x] unfolding sim_table_def link_sim_def by simp

lemma sim_parent: "sim_table fin st rb \<Longrightarrow> parent st y = Some x \<longleftrightarrow> is_child rb y x"
  unfolding sim_table_def link_sim_def by (auto simp: parent_of_def is_child_def split: option.splits if_splits)

lemma sim_kids:
  assumes "sim_table fin st rb"
  shows "by_txn rb x = Some t \<Longrightarrow> kids st x = set (subxids t)" "by_txn rb x = None \<Longrightarrow> kids st x = {}"
proof -
  have inv: "table_inv (log_pos st) rb" using assms by (simp add: sim_table_def)
  have "has_child rb x y" if "is_child rb y x" for y using that known_node [OF inv] by (auto simp: is_child_def node_ok_def)
  moreover have "is_child rb y x" if "has_child rb x y" for y using that known_node [OF inv] by (auto simp: has_child_def node_ok_def)
  ultimately have "kids st x = {y. has_child rb x y}" using sim_parent [OF assms] by (auto simp: kids_def)
  then show "by_txn rb x = Some t \<Longrightarrow> kids st x = set (subxids t)" "by_txn rb x = None \<Longrightarrow> kids st x = {}" by (auto simp: has_child_def)
qed

lemma sim_table_fin: "sim_table fin st rb \<Longrightarrow> (\<And>x. x \<in> known st \<Longrightarrow> fin' x = fin x) \<Longrightarrow> sim_table fin' st rb"
  using sim_known unfolding sim_table_def data_sim_def by fastforce

lemma sim_table_later: "sim_table fin st rb \<Longrightarrow> log_pos st \<le> pos \<Longrightarrow> sim_table fin (st\<lparr>log_pos := pos\<rparr>) rb"
  using table_inv_later [of "log_pos st" rb pos] unfolding sim_table_def link_sim_def log_ok_def data_sim_def known_def
  by (fastforce intro: order_trans)

lemma sim_later: "sim st rb \<Longrightarrow> log_pos st \<le> pos \<Longrightarrow> sim (st\<lparr>log_pos := pos\<rparr>) rb"
  by (simp add: sim_def sim_table_later)

lemma sim_init: "sim log_init ReorderBufferAllocate"
  by (auto simp: sim_def sim_table_def link_sim_def log_ok_def data_sim_def log_init_def ReorderBufferAllocate_def table_inv_def cache_ok_def
      table_ok_def order_ok_def not_after_def parent_of_def)

subsection \<open>A new transaction\<close>

lemma holds_at_new:
  assumes "pos \<le> F" "disk x = Map.empty"
  shows "holds_at F disk (new_txn x pos) []"
proof -
  have "disk_changes disk x lo hi = []" for lo hi using assms(2) by (simp add: disk_changes_def spill_file_def)
  then show ?thesis using assms by (simp add: holds_at_def txn_wf_def txn_contents_def new_txn_def spill_wf_def div_le_mono)
qed

lemma events_known: "log_ok st \<Longrightarrow> x \<notin> known st \<Longrightarrow> with_key x (events st) = []"
  by (auto simp: log_ok_def with_key_def filter_empty_conv)

lemma sim_touch:
  assumes sim: "sim_table fin st rb" and "x \<noteq> 0" "log_pos st \<le> pos" "x \<notin> known st \<Longrightarrow> fin x = 0"
  shows "sim_table fin ((spec_touch x st)\<lparr>log_pos := pos\<rparr>) (plain_lookup rb x True pos True)"
proof (cases "by_txn rb x")
  case (Some t)
  then show ?thesis using sim_known [OF sim] sim_table_later [OF sim assms(3)] by (simp add: spec_touch_def plain_lookup_present)
next
  case None
  define rb' where "rb' = plain_lookup rb x True pos True"
  have new: "x \<notin> known st" using None sim_known [OF sim] by simp
  have eq: "by_txn rb' = (by_txn rb)(x \<mapsto> ReorderBufferGetTXN x pos)" "toplevel_by_lsn rb' = toplevel_by_lsn rb @ [x]"
    "txns_by_base_snapshot_lsn rb' = txns_by_base_snapshot_lsn rb" "rb_disk rb' = rb_disk rb"
    using None by (simp_all add: rb'_def plain_lookup_def)
  have parts: "table_inv (log_pos st) rb" "link_sim st rb" "log_ok st" "data_sim fin (log_pos st) (events st) rb" using sim by (simp_all add: sim_table_def)
  have "table_inv pos rb'" using plain_lookup_inv [OF parts(1) assms(2,3)] by (simp add: rb'_def)
  moreover have "parent_of rb' = parent_of rb" using None by (auto simp: parent_of_def eq fun_eq_iff)
  moreover have "x \<notin> set (txns_by_base_snapshot_lsn rb)" using snapshot_iff [OF parts(1)] None by simp
  then have "link_sim (st\<lparr>tops := tops st @ [x], log_pos := pos\<rparr>) rb'"
    using parts(2) \<open>parent_of rb' = parent_of rb\<close> by (auto simp: link_sim_def eq)
  moreover have "log_ok (st\<lparr>tops := tops st @ [x], log_pos := pos\<rparr>)"
    using parts(3) assms(3) by (auto simp: log_ok_def known_def)
  moreover have "data_sim fin pos (events st) rb'"
    using parts(4) None holds_at_new [of pos _ "rb_disk rb" x] events_known [OF parts(3) new] assms(3,4) new
    by (auto simp: data_sim_def eq new_txn_def)
  ultimately show ?thesis using new by (simp add: sim_table_def spec_touch_def rb'_def)
qed

lemma spec_touch_simps [simp]:
  "parent (spec_touch x st) = parent st" "snaps (spec_touch x st) = snaps st" "events (spec_touch x st) = events st"
  "log_pos (spec_touch x st) = log_pos st" "snap_pos (spec_touch x st) = snap_pos st" "known (spec_touch x st) = insert x (known st)"
  "kids (spec_touch x st) = kids st"
  by (auto simp: spec_touch_def known_def kids_def fun_eq_iff)

lemma tops_touch: "set (tops (spec_touch x st)) = (if x \<in> known st then set (tops st) else insert x (set (tops st)))"
  by (simp add: spec_touch_def)

lemma log_pos_simps [simp]: "known (st\<lparr>log_pos := pos\<rparr>) = known st" "kids (st\<lparr>log_pos := pos\<rparr>) = kids st"
  by (simp_all add: known_def kids_def fun_eq_iff)

lemma touch_later [simp]: "spec_touch x (st\<lparr>log_pos := pos\<rparr>) = (spec_touch x st)\<lparr>log_pos := pos\<rparr>"
  by (simp add: spec_touch_def)

lemma touch_top: "parent st x = None \<Longrightarrow> x \<in> set (tops (spec_touch x st))"
  by (auto simp: spec_touch_def known_def)

subsection \<open>Linking transactions\<close>

lemma sim_attach:
  assumes sim: "sim_table fin st rb" and tops: "x \<in> set (tops st)" "sub \<in> set (tops st)" and ne: "x \<noteq> sub" and leaf: "kids st sub = {}"
  shows "sim_table fin (spec_link x sub st) (attach x sub rb)"
proof -
  define rb' where "rb' = attach x sub rb"
  have parts: "table_inv (log_pos st) rb" "link_sim st rb" "log_ok st" "data_sim fin (log_pos st) (events st) rb" using sim by (simp_all add: sim_table_def)
  obtain t s where t: "by_txn rb x = Some t" "\<not> is_known_as_subxact t" and s: "by_txn rb sub = Some s" "\<not> is_known_as_subxact s"
    using tops sim_top [OF sim] by blast
  have leaf': "subxids s = []" using sim_kids(1) [OF sim s(1)] leaf by simp
  note eq = attach_eq [OF t(1) s(1) ne, folded rb'_def]
  have inv: "table_inv (log_pos st) rb'" using attach_inv [OF parts(1) t s leaf' ne] by (simp add: rb'_def)
  have dist: "distinct (toplevel_by_lsn rb)" using parts(1) by (simp add: table_inv_def table_ok_def)
  have "tops (spec_link x sub st) = toplevel_by_lsn rb'"
    using parts(2) dist by (auto simp: spec_link_def link_sim_def eq distinct_remove1_removeAll removeAll_filter_not_eq intro: filter_cong)
  moreover have "parent (spec_link x sub st) = parent_of rb'"
    using parts(2) t s ne by (auto simp: spec_link_def link_sim_def parent_of_def eq fun_eq_iff)
  moreover have snaps: "y \<in> snaps st \<longleftrightarrow> (\<exists>u. by_txn rb y = Some u \<and> base_snapshot u \<noteq> None)" for y
    using parts(2) snapshot_iff [OF parts(1)] by (simp add: link_sim_def)
  have "y \<in> snaps (spec_link x sub st) \<longleftrightarrow> y \<in> set (txns_by_base_snapshot_lsn rb')" for y
    unfolding snapshot_iff [OF inv] using snaps t s ne by (cases "y = x"; cases "y = sub") (auto simp: spec_link_def eq takes_snapshot_def)
  then have "snaps (spec_link x sub st) = set (txns_by_base_snapshot_lsn rb')" by blast
  moreover have lsn: "base_snapshot_lsn u \<le> snap_pos st" if "by_txn rb y = Some u" "base_snapshot u \<noteq> None" for y u
    using snap_bound [OF parts(2)] snaps [of y] that by blast
  have "snap_of rb' y \<le> snap_pos st" if "y \<in> snaps (spec_link x sub st)" for y
    using that parts(2) snaps t s ne lsn [OF t(1)] lsn [OF s(1)]
    by (cases "y = x"; cases "y = sub") (auto simp: spec_link_def link_sim_def eq takes_snapshot_def split: if_splits)
  moreover have "snap_pos (spec_link x sub st) = snap_pos st" by (simp add: spec_link_def)
  ultimately have link: "link_sim (spec_link x sub st) rb'" unfolding link_sim_def by (simp only:) blast
  have "known (spec_link x sub st) = known st" using tops ne by (auto simp: known_def spec_link_def)
  then have "log_ok (spec_link x sub st)" using parts(3) by (simp add: log_ok_def spec_link_def)
  moreover have "data_sim fin (log_pos st) (events st) rb'" using parts(4) t s ne by (auto simp: data_sim_def eq)
  ultimately show ?thesis using inv link by (simp add: sim_table_def spec_link_def rb'_def)
qed

lemma sim_is_sub: "sim_table fin st rb \<Longrightarrow> by_txn rb y \<noteq> None \<and> is_known_as_subxact (node_of rb y) \<longleftrightarrow> parent st y \<noteq> None"
  by (auto simp: sim_table_def link_sim_def parent_of_def split: option.splits)

lemma sim_assign_known:
  assumes sim: "sim_table fin st rb" and known: "x \<in> known st" "sub \<in> known st" and ne: "x \<noteq> sub"
    and x: "parent st x = None" and leaf: "kids st sub = {}"
  shows "sim_table fin (spec_assign x sub st) (plain_assign rb x sub pos)"
proof -
  have k: "by_txn rb x \<noteq> None" "by_txn rb sub \<noteq> None" using known sim_known [OF sim] by simp_all
  have touch: "spec_touch x st = st" using known by (simp add: spec_touch_def)
  show ?thesis
  proof (cases "parent st sub = None")
    case True
    then have "x \<in> set (tops st)" "sub \<in> set (tops st)" using known x by (auto simp: known_def)
    then show ?thesis using sim_attach [OF sim _ _ ne leaf] True known k sim_is_sub [OF sim, of sub] touch
      by (auto simp: plain_assign_def spec_assign_def plain_lookup_present)
  next
    case False
    then show ?thesis using sim k touch sim_is_sub [OF sim, of sub] by (auto simp: plain_assign_def spec_assign_def plain_lookup_present)
  qed
qed

lemma sim_assign:
  assumes sim: "sim_table fin st rb" and pos: "log_pos st \<le> pos" and xs: "x \<noteq> 0" "sub \<noteq> 0" "x \<noteq> sub" and x: "parent st x = None"
    and leaf: "kids st sub = {}" and fin: "x \<notin> known st \<Longrightarrow> fin x = 0" "sub \<notin> known st \<Longrightarrow> fin sub = 0"
  shows "sim_table fin ((spec_assign x sub st)\<lparr>log_pos := pos\<rparr>) (plain_assign rb x sub pos)"
proof -
  define st1 where "st1 = (spec_touch x st)\<lparr>log_pos := pos\<rparr>"
  have sim1: "sim_table fin st1 (plain_lookup rb x True pos True)" unfolding st1_def by (rule sim_touch [OF sim xs(1) pos fin(1)])
  show ?thesis
  proof (cases "x \<notin> known st \<and> sub \<in> known st \<or> parent st sub \<noteq> None")
    case True
    then have "plain_assign rb x sub pos = plain_lookup rb x True pos True"
      using sim_known [OF sim] sim_is_sub [OF sim, of sub] by (auto simp: plain_assign_def Let_def)
    then show ?thesis using sim1 True by (auto simp: spec_assign_def st1_def)
  next
    case False
    define st2 where "st2 = (spec_touch sub st1)\<lparr>log_pos := pos\<rparr>"
    have sim2: "sim_table fin st2 (plain_lookup (plain_lookup rb x True pos True) sub True pos True)"
      unfolding st2_def by (rule sim_touch [OF sim1 xs(2)]) (use fin(2) in \<open>auto simp: st1_def\<close>)
    have "x \<in> set (tops st2)" "sub \<in> set (tops st2)" using touch_top [of st1 sub] touch_top [OF x] False
      by (auto simp: st2_def st1_def tops_touch)
    then have "sim_table fin (spec_link x sub st2) (attach x sub (plain_lookup (plain_lookup rb x True pos True) sub True pos True))"
      by (rule sim_attach [OF sim2 _ _ xs(3)]) (use leaf in \<open>simp add: st2_def st1_def\<close>)
    moreover have "spec_link x sub st2 = (spec_link x sub (spec_touch x st))\<lparr>log_pos := pos\<rparr>"
      by (simp add: spec_link_def st2_def st1_def spec_touch_def)
    moreover have "plain_assign rb x sub pos = attach x sub (plain_lookup (plain_lookup rb x True pos True) sub True pos True)"
      using False sim_known [OF sim] sim_is_sub [OF sim, of sub] by (auto simp: plain_assign_def Let_def)
    ultimately show ?thesis using False by (auto simp: spec_assign_def)
  qed
qed

subsection \<open>Removing transactions\<close>

lemma known_remove [simp]: "known (spec_remove xs st) = known st - xs"
  by (auto simp: known_def spec_remove_def restrict_map_def dom_def split: if_splits)

lemma kids_remove: "kids (spec_remove xs st) x = kids st x - xs"
  by (auto simp: kids_def spec_remove_def restrict_map_def)

lemma spec_remove_simps [simp]: "log_pos (spec_remove xs st) = log_pos st" "snap_pos (spec_remove xs st) = snap_pos st"
  by (simp_all add: spec_remove_def)

lemma spec_remove_Un: "spec_remove ys (spec_remove xs st) = spec_remove (xs \<union> ys) st"
  by (cases st) (auto simp: spec_remove_def restrict_map_def fun_eq_iff)

lemma spec_remove_empty [simp]: "spec_remove {} st = st"
  by (cases st) (simp add: spec_remove_def restrict_map_def)

lemma spec_remove_unknown:
  assumes "log_ok st" "snaps st \<subseteq> known st" "xs \<inter> known st = {}"
  shows "spec_remove xs st = st"
proof -
  have "filter (\<lambda>x. x \<notin> xs) (tops st) = tops st" using assms(3) by (intro filter_True) (auto simp: known_def)
  moreover have "filter (\<lambda>e. fst e \<notin> xs) (events st) = events st" using assms(1,3) by (intro filter_True) (auto simp: log_ok_def)
  moreover have "parent st |` (- xs) = parent st" using assms(3) by (intro ext) (auto simp: restrict_map_def known_def domIff disjoint_iff)
  moreover have "snaps st - xs = snaps st" using assms(2,3) by blast
  ultimately show ?thesis unfolding spec_remove_def by simp
qed

lemma with_key_filter: "x \<notin> xs \<Longrightarrow> with_key x (filter (\<lambda>e. fst e \<notin> xs) evs) = with_key x evs"
  by (induction evs) auto

lemma sim_remove:
  assumes sim: "sim_table fin st rb" and inv: "table_inv (log_pos st) rb'"
    and nodes: "\<And>z. by_txn rb' z = (if z \<in> xs then None else map_option (\<lambda>t. t\<lparr>subxids := ks z\<rparr>) (by_txn rb z))"
    and tops: "toplevel_by_lsn rb' = filter (\<lambda>z. z \<notin> xs) (toplevel_by_lsn rb)"
    and disk: "\<And>z. rb_disk rb' z = (if z \<in> xs then Map.empty else rb_disk rb z)"
  shows "sim_table fin (spec_remove xs st) rb'"
proof -
  have parts: "table_inv (log_pos st) rb" "link_sim st rb" "log_ok st" "data_sim fin (log_pos st) (events st) rb" using sim by (simp_all add: sim_table_def)
  have "parent (spec_remove xs st) = parent_of rb'"
    using parts(2) by (auto simp: spec_remove_def link_sim_def parent_of_def nodes restrict_map_def fun_eq_iff split: option.split)
  moreover have snaps: "y \<in> snaps (spec_remove xs st) \<longleftrightarrow> y \<in> snaps st \<and> y \<notin> xs" for y by (auto simp: spec_remove_def)
  have "y \<in> snaps (spec_remove xs st) \<longleftrightarrow> y \<in> set (txns_by_base_snapshot_lsn rb')" for y
    unfolding snaps snapshot_iff [OF inv] using parts(2) snapshot_iff [OF parts(1)] by (auto simp: link_sim_def nodes)
  moreover have "snap_of rb' y \<le> snap_pos st" if "y \<in> snaps (spec_remove xs st)" for y
    using that snaps [of y] snap_bound [OF parts(2), of y] parts(2) snapshot_iff [OF parts(1), of y] by (auto simp: link_sim_def nodes)
  ultimately have "link_sim (spec_remove xs st) rb'" using parts(2) tops unfolding link_sim_def by (auto simp: spec_remove_def)
  moreover have "log_ok (spec_remove xs st)" using parts(3) by (auto simp: log_ok_def) (auto simp: spec_remove_def)
  moreover have holds: "holds_at F (rb_disk rb') (body t) cs = holds_at F (rb_disk rb) (body t) cs" if "by_txn rb z = Some t" "z \<notin> xs" for F z t cs
    using txn_cong [of "rb_disk rb'" "(body t)\<lparr>final_lsn := F\<rparr>" "rb_disk rb"] disk known_node [OF parts(1) that(1)] that(2)
    by (simp add: holds_at_def node_ok_def)
  have "data_sim fin (log_pos st) (events (spec_remove xs st)) rb'"
    unfolding data_sim_def
  proof (intro conjI allI impI)
    fix z u assume u: "by_txn rb' z = Some u"
    then obtain t where t: "by_txn rb z = Some t" "z \<notin> xs" "body u = body t" by (auto simp: nodes split: if_splits)
    show "final_lsn (body u) = fin z" using parts(4) t by (simp add: data_sim_def)
    show "holds_at F (rb_disk rb') (body u) (with_key z (events (spec_remove xs st)))" if "log_pos st \<le> F" for F
      using parts(4) t that holds [OF t(1,2)] by (simp add: data_sim_def spec_remove_def with_key_filter)
  next
    fix z assume "by_txn rb' z = None"
    then show "rb_disk rb' z = Map.empty" using parts(4) by (auto simp: nodes disk data_sim_def split: if_splits)
  qed
  ultimately show ?thesis using inv by (simp add: sim_table_def)
qed

text \<open>No file is left when the segments up to the end of the transaction are deleted.\<close>

lemma left_empty:
  assumes "files_wf disk ((body t)\<lparr>final_lsn := F\<rparr>)" "xid (body t) = x" "F = (if final_lsn (body t) = 0 then pos else final_lsn (body t))"
  shows "left_files t pos (disk x) = Map.empty"
  using assms by (auto simp: files_wf_def left_files_def fun_eq_iff)

lemma holds_at_files: "holds_at F disk t cs \<Longrightarrow> files_wf disk (t\<lparr>final_lsn := F\<rparr>)"
  by (simp add: holds_at_def txn_wf_files)

lemma remove_top_filter:
  assumes "distinct ts" "\<And>y. y \<in> xs \<Longrightarrow> y \<noteq> x \<Longrightarrow> y \<notin> set ts" "x \<in> xs"
  shows "remove1 x ts = filter (\<lambda>z. z \<notin> xs) ts"
  using assms by (auto simp: distinct_remove1_removeAll removeAll_filter_not_eq intro: filter_cong)

text \<open>
  The end of a top-level transaction, in a state that differs from one that is simulated only in the bodies and the
  files of the transaction and its subtransactions.
\<close>

lemma sim_cleanup:
  assumes sim: "sim_table fin st rb" and x: "by_txn rb x = Some t" "\<not> is_known_as_subxact t"
    and inv: "table_inv (log_pos st) rb1" "cache_ok rb1" and x1: "by_txn rb1 x = Some t1" "\<not> is_known_as_subxact t1" "subxids t1 = subxids t"
    and others: "\<And>z. z \<notin> family st x \<Longrightarrow> by_txn rb1 z = by_txn rb z \<and> rb_disk rb1 z = rb_disk rb z"
    and tops: "toplevel_by_lsn rb1 = toplevel_by_lsn rb"
    and files: "\<And>z. z \<in> family st x \<Longrightarrow> left_files (node_of rb1 z) pos (rb_disk rb1 z) = Map.empty"
  shows "sim_table fin (spec_remove (family st x) st) (ReorderBufferCleanupTXN rb1 x pos) \<and> cache_ok (ReorderBufferCleanupTXN rb1 x pos)"
proof -
  define rb' where "rb' = ReorderBufferCleanupTXN rb1 x pos"
  note c = cleanup_txn_spec [OF inv x1(1,2) rb'_def]
  have grp: "family st x = set (x # subxids t)" using sim_kids(1) [OF sim x(1)] by (simp add: family_def)
  have inv0: "table_inv (log_pos st) rb" using sim by (simp add: sim_table_def)
  have "y \<notin> set (toplevel_by_lsn rb)" if "y \<in> family st x" "y \<noteq> x" for y
    using that toplevel_iff [OF inv0, of y] known_node [OF inv0 x(1)] by (auto simp: grp node_ok_def is_child_def)
  moreover have "distinct (toplevel_by_lsn rb)" using inv0 by (simp add: table_inv_def table_ok_def)
  ultimately have tops': "toplevel_by_lsn rb' = filter (\<lambda>z. z \<notin> family st x) (toplevel_by_lsn rb)"
    using c(5) tops remove_top_filter [of "toplevel_by_lsn rb" "family st x" x] by (simp add: family_def)
  have "sim_table fin (spec_remove (family st x) st) rb'"
  proof (rule sim_remove [OF sim c(1) _ tops'])
    show "by_txn rb' z = (if z \<in> family st x then None else map_option (\<lambda>t. t\<lparr>subxids := subxids (node_of rb z)\<rparr>) (by_txn rb z))" for z
      using c(3) [of z] others [of z] x1(3) unfolding grp by (cases "by_txn rb z") auto
    show "rb_disk rb' z = (if z \<in> family st x then Map.empty else rb_disk rb z)" for z
      using c(4) [of z] others [of z] files [of z] x1(3) unfolding grp by auto
  qed
  then show ?thesis using c(2) by (simp add: rb'_def)
qed

lemma sim_snaps_known: "sim_table fin st rb \<Longrightarrow> snaps st \<subseteq> known st"
  using snapshot_iff [of "log_pos st" rb] sim_known [of fin st rb] by (auto simp: sim_table_def link_sim_def)

subsection \<open>Aborted transactions\<close>

lemma set_final_inv: "table_inv cur rb \<Longrightarrow> table_inv cur (set_final x pos rb)"
  unfolding set_final_def by (rule upd_node_inv) simp_all

lemma set_final_cache [simp]: "cache_ok (set_final x pos rb) = cache_ok rb"
  by (simp add: set_final_def)

lemma sim_node_holds:
  "sim_table fin st rb \<Longrightarrow> by_txn rb x = Some t \<Longrightarrow> log_pos st \<le> F \<Longrightarrow> holds_at F (rb_disk rb) (body t) (with_key x (events st))"
  by (simp add: sim_table_def data_sim_def)

lemma sim_abort_one:
  assumes sim: "sim st rb" and x: "x \<noteq> 0" and pos: "log_pos st \<le> pos" and leaf: "kids st x = {}"
  shows "sim (spec_remove {x} st) (ReorderBufferAbort rb x pos)"
proof -
  have cache: "cache_ok rb" and tab: "sim_table (\<lambda>_. 0) st rb" using sim by (simp_all add: sim_def)
  obtain y is_new rb1 where l: "ReorderBufferTXNByXid rb x False 0 False = (y, is_new, rb1)" by (metis prod_cases3)
  have inv: "rb_inv (log_pos st) rb" using cache tab by (simp add: rb_inv_iff sim_table_def)
  note lk = lookup_only [OF inv x l]
  have tab1: "sim_table (\<lambda>_. 0) st rb1" using sim_table_cong [OF lk(2)] tab by simp
  have inv1: "table_inv (log_pos st) rb1" "cache_ok rb1" using lk(1) by (simp_all add: rb_inv_iff)
  show ?thesis
  proof (cases "by_txn rb x")
    case None
    then have "x \<notin> known st" using sim_known [OF tab] by simp
    then have "spec_remove {x} st = st"
      using spec_remove_unknown [of st "{x}"] sim_snaps_known [OF tab] tab by (simp add: sim_table_def)
    then show ?thesis using tab1 inv1 l lk(3) None by (simp add: ReorderBufferAbort_def sim_def)
  next
    case (Some t)
    have t: "by_txn rb1 x = Some t" using Some lk(2) by (simp add: same_table_def)
    define rb2 where "rb2 = set_final x pos rb1"
    define t2 where "t2 = t\<lparr>body := (body t)\<lparr>final_lsn := pos\<rparr>\<rparr>"
    have t2: "by_txn rb2 x = Some t2" using t by (simp add: rb2_def set_final_def t2_def)
    have leaf2: "subxids t2 = []" using sim_kids(1) [OF tab1 t] leaf by (simp add: t2_def)
    have inv2: "table_inv (log_pos st) rb2" "cache_ok rb2" using inv1 by (simp_all add: rb2_def set_final_inv)
    have run: "ReorderBufferAbort rb x pos = cleanup_own 0 x rb2"
      using l lk(3) Some t2 leaf2 by (simp add: ReorderBufferAbort_def rb2_def ReorderBufferCleanupTXN_def)
    note eq = cleanup_own_eq [OF inv2(1) t2 leaf2, of 0]
    have "distinct (toplevel_by_lsn rb1)" using inv1(1) by (simp add: table_inv_def table_ok_def)
    moreover have "toplevel_by_lsn rb2 = toplevel_by_lsn rb1" by (simp add: rb2_def set_final_def)
    ultimately have tops: "toplevel_by_lsn (cleanup_own 0 x rb2) = filter (\<lambda>z. z \<notin> {x}) (toplevel_by_lsn rb1)"
      using remove_top_filter [of _ "{x}" x] by (simp add: eq(2))
    have "files_wf (rb_disk rb1) ((body t2)\<lparr>final_lsn := pos\<rparr>)"
      using holds_at_files [OF sim_node_holds [OF tab1 t pos]] by (simp add: t2_def)
    moreover have "xid (body t2) = x" using known_node [OF inv2(1) t2] by (simp add: node_ok_def)
    ultimately have files: "left_files t2 0 (rb_disk rb1 x) = Map.empty" by (rule left_empty) (simp add: t2_def)
    have "sim_table (\<lambda>_. 0) (spec_remove {x} st) (cleanup_own 0 x rb2)"
    proof (rule sim_remove [OF tab1 cleanup_own_inv [OF inv2(1) t2 leaf2] _ tops])
      show "by_txn (cleanup_own 0 x rb2) z = (if z \<in> {x} then None else
          map_option (\<lambda>t. t\<lparr>subxids := subxids (node_of (cleanup_own 0 x rb2) z)\<rparr>) (by_txn rb1 z))" for z
        unfolding eq(1) by (cases "by_txn rb1 z") (auto simp: rb2_def set_final_def)
      show "rb_disk (cleanup_own 0 x rb2) z = (if z \<in> {x} then Map.empty else rb_disk rb1 z)" for z
        using cleanup_own_disk [OF inv2(1) t2 leaf2, of 0 z] files by (simp add: rb2_def set_final_def)
    qed
    then show ?thesis using eq(5) inv2(2) by (simp add: run sim_def)
  qed
qed

lemma sim_abort:
  assumes "sim st rb" "x \<notin> set subs" "x \<noteq> 0" "log_pos st \<le> pos" "kids st x \<subseteq> set subs" "\<forall>sub \<in> set subs. sub \<noteq> 0 \<and> kids st sub = {}"
  shows "sim ((spec_remove (set (x # subs)) st)\<lparr>log_pos := pos\<rparr>) (DecodeAbort rb x subs pos)"
  using assms
proof (induction subs arbitrary: st rb)
  case Nil
  have "sim (spec_remove {x} st) (ReorderBufferAbort rb x pos)" using sim_abort_one [OF Nil.prems(1,3,4)] Nil.prems(5) by simp
  then show ?case using sim_later [of "spec_remove {x} st"] Nil.prems(4) by (simp add: DecodeAbort_def)
next
  case (Cons sub subs)
  have step: "DecodeAbort rb x (sub # subs) pos = DecodeAbort (ReorderBufferAbort rb sub pos) x subs pos" by (simp add: DecodeAbort_def)
  have "spec_remove (set (x # subs)) (spec_remove {sub} st) = spec_remove (set (x # sub # subs)) st"
    unfolding spec_remove_Un by (rule arg_cong [of _ _ "\<lambda>xs. spec_remove xs st"]) auto
  moreover have "sim (spec_remove {sub} st) (ReorderBufferAbort rb sub pos)"
    using sim_abort_one [OF Cons.prems(1) _ Cons.prems(4)] Cons.prems(6) by simp
  ultimately show ?case unfolding step using Cons.IH [of "spec_remove {sub} st" "ReorderBufferAbort rb sub pos"] Cons.prems
    by (auto simp: kids_remove)
qed

lemma top_parent: "sim_table fin st rb \<Longrightarrow> x \<in> set (tops st) \<Longrightarrow> parent st x = None"
  using sim_top [of fin st rb x] by (auto simp: sim_table_def link_sim_def parent_of_def)

lemma sim_cleanup_top:
  assumes sim: "sim st rb" and x: "x \<in> set (tops st)" and pos: "log_pos st \<le> pos"
  shows "sim (spec_remove (family st x) st) (ReorderBufferCleanupTXN rb x pos)"
proof -
  have cache: "cache_ok rb" and tab: "sim_table (\<lambda>_. 0) st rb" using sim by (simp_all add: sim_def)
  have inv: "table_inv (log_pos st) rb" using tab by (simp add: sim_table_def)
  obtain t where t: "by_txn rb x = Some t" "\<not> is_known_as_subxact t" using sim_top [OF tab] x by blast
  have "left_files (node_of rb z) pos (rb_disk rb z) = Map.empty" if "z \<in> family st x" for z
  proof -
    have "z \<in> known st" using that x by (auto simp: family_def kids_def known_def)
    then obtain u where u: "by_txn rb z = Some u" using sim_known [OF tab] by blast
    have "final_lsn (body u) = 0" "xid (body u) = z" using tab u known_node [OF inv u] by (simp_all add: sim_table_def data_sim_def node_ok_def)
    then show ?thesis using left_empty [OF holds_at_files [OF sim_node_holds [OF tab u pos]]] u by simp
  qed
  then show ?thesis using sim_cleanup [OF tab t inv cache t refl _ refl] by (simp add: sim_def)
qed

lemma family_disjoint: "parent st x = None \<Longrightarrow> parent st y = None \<Longrightarrow> x \<noteq> y \<Longrightarrow> family st y \<inter> family st x = {}"
  by (auto simp: family_def kids_def)

lemma family_remove:
  assumes "parent st x = None" "parent st y = None" "x \<noteq> y"
  shows "family (spec_remove (family st x) st) y = family st y"
  using family_disjoint [OF assms] by (auto simp: family_def kids_remove)

lemma sim_abort_old_loop:
  assumes "sim st rb" "log_pos st \<le> pos" "tops st = xs" "distinct xs"
  shows "sim (spec_remove (\<Union> (family st ` set (takeWhile (\<lambda>x. x < oldest) xs))) st) (abort_old_loop xs rb oldest pos)"
  using assms
proof (induction xs arbitrary: st rb)
  case Nil
  then show ?case by simp
next
  case (Cons x xs)
  have tab: "sim_table (\<lambda>_. 0) st rb" using Cons.prems(1) by (simp add: sim_def)
  have roots: "parent st y = None" if "y \<in> set (x # xs)" for y using top_parent [OF tab] that Cons.prems(3) by simp
  show ?case
  proof (cases "x < oldest")
    case True
    define st1 where "st1 = spec_remove (family st x) st"
    have sim1: "sim st1 (ReorderBufferCleanupTXN rb x pos)" unfolding st1_def
      by (rule sim_cleanup_top [OF Cons.prems(1) _ Cons.prems(2)]) (simp add: Cons.prems(3))
    have grp: "family st1 y = family st y" if "y \<in> set xs" for y unfolding st1_def
      by (rule family_remove) (use roots that Cons.prems(4) in auto)
    have "y \<notin> family st x" if "y \<in> set xs" for y using that roots [of y] Cons.prems(4) by (auto simp: family_def kids_def)
    then have "tops st1 = xs" using Cons.prems(3,4) by (simp add: st1_def spec_remove_def family_def filter_True)
    note ih = Cons.IH [OF sim1 _ this]
    have "family st1 ` set (takeWhile (\<lambda>x. x < oldest) xs) = family st ` set (takeWhile (\<lambda>x. x < oldest) xs)"
      using grp set_takeWhileD by (metis (no_types, lifting) image_cong)
    then show ?thesis using ih Cons.prems(2,4) True by (simp add: st1_def spec_remove_Un)
  next
    case False
    then show ?thesis using Cons.prems(1) by simp
  qed
qed

end
