(* ===== verification/ReorderRun.thy ===== *)
theory ReorderRun
  imports ReorderSim
begin

text \<open>
  The calls that move changes, on the simulation of \<open>ReorderSim\<close>: queueing a change, which may spill the transaction and its
  subtransactions, and the commit, which merges them. With these every call of the reorder buffer refines its specification.
\<close>

subsection \<open>Bodies written back to the table\<close>

abbreviation put_bodies :: "'a ReorderBufferTXN list \<Rightarrow> ('a, 's) ReorderBuffer \<Rightarrow> ('a, 's) ReorderBuffer" where
  "put_bodies \<equiv> fold (\<lambda>b. upd_node (xid b) (\<lambda>t. t\<lparr>body := b\<rparr>))"

lemma put_bodies_fields [simp]:
  "toplevel_by_lsn (put_bodies bs rb) = toplevel_by_lsn rb" "txns_by_base_snapshot_lsn (put_bodies bs rb) = txns_by_base_snapshot_lsn rb"
  "rb_disk (put_bodies bs rb) = rb_disk rb" "cache_ok (put_bodies bs rb) = cache_ok rb"
  by (induction bs arbitrary: rb) simp_all

lemma put_bodies_other: "z \<notin> xid ` set bs \<Longrightarrow> by_txn (put_bodies bs rb) z = by_txn rb z"
  by (induction bs arbitrary: rb) simp_all

lemma put_bodies_same:
  "distinct (map xid bs) \<Longrightarrow> by_txn (put_bodies bs rb) z =
    map_option (\<lambda>t. t\<lparr>body := (case map_of (map (\<lambda>b. (xid b, b)) bs) z of None \<Rightarrow> body t | Some b \<Rightarrow> b)\<rparr>) (by_txn rb z)"
proof (induction bs arbitrary: rb)
  case (Cons b bs)
  have "map_of (map (\<lambda>b. (xid b, b)) bs) (xid b) = None" using Cons.prems by (simp add: map_of_eq_None_iff image_image)
  then show ?case using Cons by (simp add: option.map_comp o_def)
qed (simp add: option.map_ident)

lemma map_of_bodies: "distinct (map xid bs) \<Longrightarrow> b \<in> set bs \<Longrightarrow> map_of (map (\<lambda>b. (xid b, b)) bs) (xid b) = Some b"
  by (rule map_of_is_SomeI) (auto simp: o_def)

text \<open>Two states that differ only in the bodies of their transactions and the files.\<close>

definition same_shape :: "('a, 's) ReorderBuffer \<Rightarrow> ('a, 's) ReorderBuffer \<Rightarrow> bool" where
  "same_shape rb rb' \<longleftrightarrow> toplevel_by_lsn rb' = toplevel_by_lsn rb \<and> txns_by_base_snapshot_lsn rb' = txns_by_base_snapshot_lsn rb \<and>
    (\<exists>g. by_txn rb' = (\<lambda>z. map_option (\<lambda>u. u\<lparr>body := g z (body u)\<rparr>) (by_txn rb z)))"

lemma shape_parent: "same_shape rb rb' \<Longrightarrow> parent_of rb' = parent_of rb"
  by (auto simp: same_shape_def parent_of_def fun_eq_iff split: option.split)

lemma shape_link:
  assumes shape: "same_shape rb rb'" and "link_sim st rb" "snaps st \<subseteq> {x. by_txn rb x \<noteq> None}"
  shows "link_sim st rb'"
proof -
  have "snap_of rb' x \<le> snap_pos st" if x: "x \<in> snaps st" for x
  proof -
    obtain t where t: "by_txn rb x = Some t" using x assms(3) by blast
    then have "snap_of rb' x = base_snapshot_lsn t" using shape by (auto simp: same_shape_def)
    then show ?thesis using snap_bound [OF assms(2) x t] by simp
  qed
  then show ?thesis using assms(1,2) shape_parent [OF shape] by (simp add: link_sim_def same_shape_def)
qed

lemma put_bodies_shape: "distinct (map xid bs) \<Longrightarrow> same_shape rb (put_bodies bs (rb\<lparr>rb_disk := d\<rparr>))"
  unfolding same_shape_def put_bodies_fields
  by (intro conjI exI [of _ "\<lambda>z b. case map_of (map (\<lambda>b. (xid b, b)) bs) z of None \<Rightarrow> b | Some b \<Rightarrow> b"] ext) (simp_all add: put_bodies_same)

lemma put_bodies_inv:
  assumes "table_inv cur rb" "distinct (map xid bs)" "\<forall>b \<in> set bs. \<forall>t. by_txn rb (xid b) = Some t \<longrightarrow> first_lsn b = first_lsn (body t)"
  shows "table_inv cur (put_bodies bs rb)"
  using assms
proof (induction bs arbitrary: rb)
  case (Cons b bs)
  have "table_inv cur (upd_node (xid b) (\<lambda>t. t\<lparr>body := b\<rparr>) rb)"
    by (rule upd_node_inv [OF Cons.prems(1)]) (use known_node [OF Cons.prems(1)] Cons.prems(3) in \<open>auto simp: node_ok_def\<close>)
  moreover have "xid c \<noteq> xid b" if "c \<in> set bs" for c using imageI [OF that, of xid] Cons.prems(2) by (intro notI) simp
  ultimately show ?case using Cons.IH [of "upd_node (xid b) (\<lambda>t. t\<lparr>body := b\<rparr>) rb"] Cons.prems(2,3) by simp
qed simp

definition bodies :: "'a txn_tree \<Rightarrow> 'a ReorderBufferTXN list" where
  "bodies tree = map txn (tree # subtxns tree)"

lemma put_tree_bodies: "put_tree tree = put_bodies (bodies tree)"
  by (simp add: put_tree_def bodies_def fun_eq_iff)

lemma flat_bodies: "flat tree \<Longrightarrow> concat (map txns_of [tree]) = bodies tree"
  unfolding bodies_def by (rule flat_txns)

lemma commit_bodies: "bodies (commit_tree F tree) = map (\<lambda>b. b\<lparr>final_lsn := F\<rparr>) (bodies tree)"
  by (simp add: bodies_def commit_tree_def commit_child_def)

lemma tree_bodies: "bodies (tree_of rb x) = map (\<lambda>y. body (node_of rb y)) (x # subxids (node_of rb x))" "flat (tree_of rb x)"
  by (auto simp: bodies_def tree_of_def flat_def)

lemma forest_holds_flat:
  assumes "flat tree"
  shows "forest_holds disk [tree] f \<longleftrightarrow> distinct (map xid (bodies tree)) \<and> (\<forall>b \<in> set (bodies tree). txn_wf disk b \<and> txn_contents disk b = f (xid b))"
  unfolding forest_holds_def forest_ok_def flat_bodies [OF assms] by blast

lemma forest_holds_commit:
  assumes "flat tree"
  shows "forest_holds disk [commit_tree F tree] f \<longleftrightarrow> distinct (map xid (bodies tree)) \<and> (\<forall>b \<in> set (bodies tree). holds_at F disk b (f (xid b)))"
  unfolding forest_holds_flat [OF commit_flat [OF assms]] commit_bodies holds_at_def by (simp add: o_def)

lemma same_final: "final_lsn b = F \<Longrightarrow> b\<lparr>final_lsn := F\<rparr> = b" for b :: "'a ReorderBufferTXN"
  by (cases b) simp

lemma commit_tree_same:
  assumes x: "by_txn rb x = Some t" and fin: "\<And>y. y \<in> set (x # subxids t) \<Longrightarrow> final_lsn (body (node_of rb y)) = F"
  shows "commit_tree F (tree_of rb x) = tree_of rb x"
proof -
  have "(body (node_of rb y))\<lparr>final_lsn := F\<rparr> = body (node_of rb y)" if "y \<in> set (x # subxids t)" for y by (rule same_final [OF fin [OF that]])
  then show ?thesis using x by (fastforce simp: commit_tree_def commit_child_def tree_of_def)
qed

text \<open>The tree of a transaction in the table holds its changes.\<close>

lemma sim_tree:
  assumes sim: "sim_table fin st rb" and x: "by_txn rb x = Some t"
  shows "family st x = set (x # subxids t)" "map xid (bodies (tree_of rb x)) = x # subxids t" "distinct (x # subxids t)"
    "\<And>z. z \<in> family st x \<Longrightarrow> \<exists>u. by_txn rb z = Some u \<and> xid (body u) = z"
    "log_pos st \<le> F \<Longrightarrow> forest_holds (rb_disk rb) [commit_tree F (tree_of rb x)] (\<lambda>y. with_key y (events st))"
proof -
  have inv: "table_inv (log_pos st) rb" using sim by (simp add: sim_table_def)
  show grp: "family st x = set (x # subxids t)" using sim_kids(1) [OF sim x] by (simp add: family_def)
  note nx = known_node [OF inv x]
  show live: "\<exists>u. by_txn rb z = Some u \<and> xid (body u) = z" if z: "z \<in> family st x" for z
  proof -
    obtain u where u: "by_txn rb z = Some u" using z nx x unfolding grp node_ok_def is_child_def by auto
    then show ?thesis using known_node [OF inv u] by (simp add: node_ok_def)
  qed
  have "xid (body (node_of rb z)) = z" if "z \<in> family st x" for z using live [OF that] by auto
  then have "map (\<lambda>y. xid (body (node_of rb y))) (x # subxids t) = map (\<lambda>y. y) (x # subxids t)"
    unfolding grp by (intro map_cong) auto
  then show xids: "map xid (bodies (tree_of rb x)) = x # subxids t" unfolding tree_bodies using x by (simp add: o_def)
  show dist: "distinct (x # subxids t)" using nx x by (auto simp: node_ok_def is_child_def)
  show "forest_holds (rb_disk rb) [commit_tree F (tree_of rb x)] (\<lambda>y. with_key y (events st))" if F: "log_pos st \<le> F"
    unfolding forest_holds_commit [OF tree_bodies(2)] xids
  proof (intro conjI ballI dist)
    fix b assume "b \<in> set (bodies (tree_of rb x))"
    then obtain z where z: "z \<in> family st x" "b = body (node_of rb z)" using x unfolding tree_bodies grp set_map by (auto simp del: list.set(2))
    then show "holds_at F (rb_disk rb) b (with_key (xid b) (events st))" using live [OF z(1)] sim_node_holds [OF sim _ F] by auto
  qed
qed

subsection \<open>Queueing a change\<close>

text \<open>What queueing does to the bodies of the tree, whatever their final position is going to be.\<close>

lemma queue_tree:
  fixes rb :: "('a, 's) ReorderBuffer"
  assumes sim: "sim_table (\<lambda>_. 0) st rb" and x: "by_txn rb x = Some t"
    and run: "queue_change m (rb_disk rb) (tree_of rb x) (log_pos st) change = (d, tree')"
  shows "map (\<lambda>b. (xid b, first_lsn b)) (bodies tree') = map (\<lambda>y. (y, first_of rb y)) (x # subxids t)"
    "\<And>b. b \<in> set (bodies tree') \<Longrightarrow> final_lsn b = 0"
    "\<And>b F. b \<in> set (bodies tree') \<Longrightarrow> log_pos st \<le> F \<Longrightarrow> holds_at F d b (with_key (xid b) (events st @ [(x, change\<lparr>lsn := log_pos st\<rparr>)]))"
    "\<And>z. z \<notin> family st x \<Longrightarrow> d z = rb_disk rb z"
proof -
  let ?tree = "tree_of rb x" and ?f = "\<lambda>y. with_key y (events st)" and ?pos = "log_pos st"
  note tree = sim_tree [OF sim x]
  have inv: "table_inv ?pos rb" and log: "log_ok st" using sim by (simp_all add: sim_table_def)
  have root: "txn (commit_tree F ?tree) = (body t)\<lparr>final_lsn := F\<rparr>" for F using x by (simp add: commit_tree_def tree_of_def)
  have xid: "xid (body t) = x" "first_lsn (body t) \<le> ?pos" using known_node [OF inv x] inv x by (auto simp: node_ok_def table_inv_def not_after_def)
  have flat: "flat tree'" using queue_change_commit [OF run tree_bodies(2)] by blast
  have le: "\<forall>c \<in> set (?f x). lsn c \<le> ?pos" using log by (auto simp: log_ok_def with_key_def)
  have c: "queue_change m (rb_disk rb) (commit_tree F ?tree) ?pos change = (d, commit_tree F tree')" for F
    using queue_change_commit [OF run tree_bodies(2)] by blast
  have h: "forest_holds d [commit_tree F tree'] (?f(x := ?f x @ [change\<lparr>lsn := ?pos\<rparr>]))"
    "forest_ids [commit_tree F tree'] = forest_ids [commit_tree F ?tree]" "\<And>z. z \<notin> forest_xids [commit_tree F ?tree] \<Longrightarrow> d z = rb_disk rb z"
    if "?pos \<le> F" for F using queue_change_holds [OF tree(5) [OF that] c] root le xid that by simp_all
  have f: "?f(x := ?f x @ [change\<lparr>lsn := ?pos\<rparr>]) = (\<lambda>y. with_key y (events st @ [(x, change\<lparr>lsn := ?pos\<rparr>)]))" by (auto simp: fun_eq_iff)
  have ids: "forest_ids [commit_tree F tree'] = map (\<lambda>b. (xid b, first_lsn b, F)) (bodies tree')" if "flat tree'" for F and tree' :: "'a txn_tree"
    unfolding flat_bodies [OF commit_flat [OF that]] commit_bodies by (simp add: o_def)
  have "map (\<lambda>b. (xid b, first_lsn b, ?pos)) (bodies tree') = map (\<lambda>b. (xid b, first_lsn b, ?pos)) (bodies ?tree)"
    using h(2) [OF order_refl] unfolding ids [OF flat] ids [OF tree_bodies(2)] .
  then have "map (\<lambda>(a, b, c). (a, b)) (map (\<lambda>b. (xid b, first_lsn b, ?pos)) (bodies tree')) =
      map (\<lambda>(a, b, c). (a, b)) (map (\<lambda>b. (xid b, first_lsn b, ?pos)) (bodies ?tree))" by (rule arg_cong)
  then have "map (\<lambda>b. (xid b, first_lsn b)) (bodies tree') = map (\<lambda>b. (xid b, first_lsn b)) (bodies ?tree)" by (simp add: o_def)
  also have "\<dots> = map (\<lambda>y. (y, first_of rb y)) (x # subxids t)"
  proof -
    have "xid (body (node_of rb y)) = y" if "y \<in> set (x # subxids t)" for y using tree(4) [of y] that unfolding tree(1) by auto
    then show ?thesis using x xid(1) unfolding tree_bodies by (auto simp: o_def)
  qed
  finally show "map (\<lambda>b. (xid b, first_lsn b)) (bodies tree') = map (\<lambda>y. (y, first_of rb y)) (x # subxids t)" .
  have zero: "final_lsn (body (node_of rb y)) = 0" if "y \<in> set (x # subxids t)" for y
    using tree(4) [of y] that sim unfolding tree(1) by (auto simp: sim_table_def data_sim_def)
  then have "commit_tree 0 ?tree = ?tree" by (rule commit_tree_same [OF x])
  then have "commit_tree 0 tree' = tree'" using c [of 0] run by simp
  then have "bodies tree' = map (\<lambda>b. b\<lparr>final_lsn := 0\<rparr>) (bodies tree')" using commit_bodies [of 0 tree'] by simp
  then show "final_lsn b = 0" if "b \<in> set (bodies tree')" for b using that by (metis (no_types, lifting) ex_map_conv ReorderBufferTXN.simps(3) ReorderBufferTXN.select_convs(3) ReorderBufferTXN.surjective ReorderBufferTXN.update_convs(3))
  show "holds_at F d b (with_key (xid b) (events st @ [(x, change\<lparr>lsn := ?pos\<rparr>)]))" if "b \<in> set (bodies tree')" "?pos \<le> F" for b F
    using h(1) [OF that(2)] that(1) unfolding f forest_holds_commit [OF flat] by blast
  have "forest_xids [commit_tree ?pos ?tree] = set (map xid (bodies ?tree))"
    unfolding forest_xids_ids ids [OF tree_bodies(2)] by (simp add: image_image)
  then show "d z = rb_disk rb z" if "z \<notin> family st x" for z using h(3) [OF order_refl] that unfolding tree(1,2) by blast
qed

lemma sim_queue_known:
  fixes rb :: "('a, 's) ReorderBuffer"
  assumes sim: "sim_table (\<lambda>_. 0) st rb" and x: "by_txn rb x = Some t"
    and run: "queue_change m (rb_disk rb) (tree_of rb x) (log_pos st) change = (d, tree')"
    and act: "action change \<noteq> REORDER_BUFFER_CHANGE_INTERNAL_TUPLECID"
  shows "sim_table (\<lambda>_. 0) (st\<lparr>events := events st @ [(x, change\<lparr>lsn := log_pos st\<rparr>)]\<rparr>) (put_tree tree' (rb\<lparr>rb_disk := d\<rparr>))"
proof -
  let ?evs = "events st @ [(x, change\<lparr>lsn := log_pos st\<rparr>)]" and ?rb = "rb\<lparr>rb_disk := d\<rparr>"
  define rb' where "rb' = put_tree tree' ?rb"
  note q = queue_tree [OF sim x run]
  note tree = sim_tree [OF sim x]
  have parts: "table_inv (log_pos st) rb" "link_sim st rb" "log_ok st" "data_sim (\<lambda>_. 0) (log_pos st) (events st) rb"
    using sim by (simp_all add: sim_table_def)
  have "map fst (map (\<lambda>b. (xid b, first_lsn b)) (bodies tree')) = x # subxids t" unfolding q(1) by (simp add: o_def)
  then have xids: "map xid (bodies tree') = x # subxids t" by (simp add: o_def)
  then have grp: "xid ` set (bodies tree') = family st x" unfolding tree(1) by (metis list.set_map)
  have dist: "distinct (map xid (bodies tree'))" unfolding xids by (rule tree(3))
  have lsns: "first_lsn b = first_of rb (xid b)" if "b \<in> set (bodies tree')" for b
  proof -
    have "(xid b, first_lsn b) \<in> set (map (\<lambda>b. (xid b, first_lsn b)) (bodies tree'))" using that by auto
    then show ?thesis unfolding q(1) by auto
  qed
  note nodes = put_bodies_same [OF dist, of ?rb, folded put_tree_bodies rb'_def]
  have "table_inv (log_pos st) ?rb" using parts(1) by (simp add: table_inv_def table_ok_def node_ok_def is_child_def has_child_def order_ok_def not_after_def)
  then have inv: "table_inv (log_pos st) rb'" unfolding rb'_def put_tree_bodies
    by (rule put_bodies_inv [OF _ dist]) (use lsns in auto)
  have "link_sim st rb'" unfolding rb'_def put_tree_bodies
    by (rule shape_link [OF put_bodies_shape [OF dist] parts(2)]) (use sim_snaps_known [OF sim] sim_known [OF sim] in auto)
  moreover have "log_ok (st\<lparr>events := ?evs\<rparr>)"
    using parts(3) act x sim_known [OF sim] by (auto simp: log_ok_def known_def)
  moreover have "data_sim (\<lambda>_. 0) (log_pos st) ?evs rb'" unfolding data_sim_def
  proof (intro conjI allI impI)
    fix z u assume u: "by_txn rb' z = Some u"
    have "final_lsn (body u) = 0 \<and> (\<forall>F \<ge> log_pos st. holds_at F (rb_disk rb') (body u) (with_key z ?evs))"
    proof (cases "z \<in> family st x")
      case True
      then obtain b where b: "b \<in> set (bodies tree')" "xid b = z" unfolding grp [symmetric] by blast
      then have "body u = b" using u map_of_bodies [OF dist b(1)] by (auto simp: nodes)
      then show ?thesis using q(2,3) [OF b(1)] b(2) by (simp add: rb'_def put_tree_bodies)
    next
      case False
      then have "map_of (map (\<lambda>b. (xid b, b)) (bodies tree')) z = None" unfolding grp [symmetric] by (simp add: map_of_eq_None_iff image_image)
      then have u': "by_txn rb z = Some u" using u by (auto simp: nodes)
      have "z \<noteq> x" using False by (auto simp: family_def)
      moreover have "rb_disk rb' z = rb_disk rb z" using q(4) [OF False] by (simp add: rb'_def put_tree_bodies)
      ultimately show ?thesis using parts(4) u' txn_cong [of "rb_disk rb'" _ "rb_disk rb"] known_node [OF parts(1) u']
        by (simp add: data_sim_def holds_at_def node_ok_def)
    qed
    then show "final_lsn (body u) = 0" "\<And>F. log_pos st \<le> F \<Longrightarrow> holds_at F (rb_disk rb') (body u) (with_key z ?evs)" by simp_all
  next
    fix z assume "by_txn rb' z = None"
    then have z: "by_txn rb z = None" by (simp add: nodes)
    then have "z \<notin> family st x" using tree(4) [of z] by auto
    then show "rb_disk rb' z = Map.empty" using q(4) [of z] parts(4) z by (simp add: rb'_def put_tree_bodies data_sim_def)
  qed
  ultimately show ?thesis using inv by (simp add: sim_table_def link_sim_def rb'_def)
qed

lemma sim_queue:
  assumes sim: "sim st rb" and x: "x \<noteq> 0" and pos: "log_pos st \<le> pos"
    and act: "action change \<noteq> REORDER_BUFFER_CHANGE_INTERNAL_TUPLECID"
  shows "sim ((spec_touch x st)\<lparr>log_pos := pos, events := events st @ [(x, change\<lparr>lsn := pos\<rparr>)]\<rparr>) (ReorderBufferQueueChange m rb x pos change)"
proof -
  have cache: "cache_ok rb" and tab: "sim_table (\<lambda>_. 0) st rb" using sim by (simp_all add: sim_def)
  obtain y is_new rb1 where l: "ReorderBufferTXNByXid rb x True pos True = (y, is_new, rb1)" by (metis prod_cases3)
  note lk = lookup_spec [OF cache x l]
  define st1 where "st1 = (spec_touch x st)\<lparr>log_pos := pos\<rparr>"
  have tab1: "sim_table (\<lambda>_. 0) st1 rb1" unfolding st1_def using sim_touch [OF tab x pos] sim_table_cong [OF lk(3)] by simp
  have "x \<in> known st1" by (simp add: st1_def)
  then obtain t where t: "by_txn rb1 x = Some t" using sim_known [OF tab1] by blast
  obtain d tree where q: "queue_change m (rb_disk rb1) (tree_of rb1 x) pos change = (d, tree)" by fastforce
  have "sim_table (\<lambda>_. 0) (st1\<lparr>events := events st1 @ [(x, change\<lparr>lsn := log_pos st1\<rparr>)]\<rparr>) (put_tree tree (rb1\<lparr>rb_disk := d\<rparr>))"
    by (rule sim_queue_known [OF tab1 t]) (use q act in \<open>simp_all add: st1_def\<close>)
  moreover have "ReorderBufferQueueChange m rb x pos change = put_tree tree (rb1\<lparr>rb_disk := d\<rparr>)"
    using l q by (simp add: ReorderBufferQueueChange_def)
  moreover have "cache_ok (rb1\<lparr>rb_disk := d\<rparr>)" using lk(4) by (simp add: cache_ok_def)
  ultimately show ?thesis by (simp add: sim_def st1_def put_tree_bodies)
qed

subsection \<open>Committed subtransactions\<close>

lemma sim_set_final:
  assumes "sim_table fin st rb"
  shows "sim_table (fin(x := pos)) st (set_final x pos rb)"
proof -
  have "same_shape rb (set_final x pos rb)"
    by (auto simp: same_shape_def set_final_def fun_eq_iff option.map_ident intro!: exI [of _ "\<lambda>z b. if z = x then b\<lparr>final_lsn := pos\<rparr> else b"])
  then have "link_sim st (set_final x pos rb)"
    using shape_link [of rb "set_final x pos rb" st] sim_snaps_known [OF assms] sim_known [OF assms] assms by (auto simp: sim_table_def)
  moreover have "data_sim (fin(x := pos)) (log_pos st) (events st) (set_final x pos rb)"
    using assms by (auto simp: sim_table_def data_sim_def set_final_def holds_at_def)
  ultimately show ?thesis using assms set_final_inv [of "log_pos st" rb] by (simp add: sim_table_def)
qed

text \<open>When a subtransaction named by the commit record can be linked to the transaction.\<close>

definition can_link :: "'a log_state \<Rightarrow> nat \<Rightarrow> nat \<Rightarrow> bool" where
  "can_link st x sub \<longleftrightarrow> sub \<noteq> 0 \<and> (sub \<in> known st \<longrightarrow> x \<in> known st \<and> kids st sub = {} \<and> (parent st sub = None \<or> parent st sub = Some x))"

lemma spec_assign_known:
  assumes "can_link st x sub" "sub \<in> known st" "x \<noteq> sub"
  shows "parent (spec_assign x sub st) = (parent st)(sub \<mapsto> x)" "known (spec_assign x sub st) = known st"
    "events (spec_assign x sub st) = events st" "log_pos (spec_assign x sub st) = log_pos st"
proof -
  have x: "x \<in> known st" using assms by (simp add: can_link_def)
  then have "spec_assign x sub st = (if parent st sub = None then spec_link x sub st else st)"
    using assms by (auto simp: spec_assign_def spec_touch_def)
  then show "parent (spec_assign x sub st) = (parent st)(sub \<mapsto> x)" "known (spec_assign x sub st) = known st"
    "events (spec_assign x sub st) = events st" "log_pos (spec_assign x sub st) = log_pos st"
    using assms x by (auto simp: spec_link_def can_link_def known_def fun_upd_idem)
qed

lemma can_link_assign:
  assumes "can_link st x sub" "sub \<in> known st" "x \<noteq> sub" "can_link st x y" "y \<noteq> x"
  shows "can_link (spec_assign x sub st) x y"
proof -
  have "kids (spec_assign x sub st) y \<subseteq> kids st y" using assms(5) by (auto simp: kids_def spec_assign_known(1) [OF assms(1-3)] split: if_splits)
  then show ?thesis using assms(4) by (auto simp: can_link_def spec_assign_known [OF assms(1-3)])
qed

lemma sim_commit_child:
  assumes sim: "sim_table fin st rb" "cache_ok rb" and x: "x \<noteq> 0" "x \<noteq> sub" "parent st x = None" and sub: "can_link st x sub"
  shows "sim_table (if sub \<in> known st then fin(sub := pos) else fin) (if sub \<in> known st then spec_assign x sub st else st)
      (ReorderBufferCommitChild rb x sub pos) \<and> cache_ok (ReorderBufferCommitChild rb x sub pos)"
proof -
  obtain y is_new rb1 where l: "ReorderBufferTXNByXid rb sub False 0 False = (y, is_new, rb1)" by (metis prod_cases3)
  have inv: "rb_inv (log_pos st) rb" using sim by (simp add: rb_inv_iff sim_table_def)
  have nz: "sub \<noteq> 0" using sub by (simp add: can_link_def)
  note lk = lookup_only [OF inv nz l]
  have tab1: "sim_table fin st rb1" "cache_ok rb1" using sim_table_cong [OF lk(2)] sim(1) lk(1) by (simp_all add: rb_inv_iff)
  show ?thesis
  proof (cases "by_txn rb sub")
    case None
    then show ?thesis using tab1 l lk(3) sim_known [OF sim(1), of sub] by (simp add: ReorderBufferCommitChild_def)
  next
    case (Some t)
    then have known: "sub \<in> known st" "x \<in> known st" "kids st sub = {}" using sim_known [OF sim(1), of sub] sub by (simp_all add: can_link_def)
    define rb2 where "rb2 = set_final sub pos rb1"
    have tab2: "sim_table (fin(sub := pos)) st rb2" "cache_ok rb2" using sim_set_final [OF tab1(1)] tab1(2) by (simp_all add: rb2_def)
    then have "rb_inv (log_pos st) rb2" by (simp add: rb_inv_iff sim_table_def)
    note plain = assign_child_plain [OF this x(1) nz x(2), of 0]
    have "sim_table (fin(sub := pos)) (spec_assign x sub st) (ReorderBufferAssignChild rb2 x sub 0)"
      using sim_table_cong [OF plain(1)] sim_assign_known [OF tab2(1) known(2,1) x(2,3) known(3)] by simp
    then show ?thesis using l lk(3) Some known(1) plain(2) by (simp add: ReorderBufferCommitChild_def rb2_def)
  qed
qed

lemma sim_commit_children:
  assumes "sim_table fin st rb" "cache_ok rb" "x \<noteq> 0" "x \<notin> set subs" "parent st x = None" "\<forall>sub \<in> set subs. can_link st x sub"
    and "rb' = fold (\<lambda>sub rb. ReorderBufferCommitChild rb x sub pos) subs rb" "st' = spec_children x subs st"
  shows "sim_table (\<lambda>z. if z \<in> set subs \<and> z \<in> known st then pos else fin z) st' rb' \<and> cache_ok rb' \<and> known st' = known st \<and>
    parent st' = (\<lambda>z. if z \<in> set subs \<and> z \<in> known st then Some x else parent st z) \<and> events st' = events st \<and> log_pos st' = log_pos st"
  using assms
proof (induction subs arbitrary: fin st rb)
  case Nil
  then show ?case by (simp add: spec_children_def)
next
  case (Cons sub subs)
  define st1 where "st1 = (if sub \<in> known st then spec_assign x sub st else st)"
  define fin1 where "fin1 = (if sub \<in> known st then fin(sub := pos) else fin)"
  define rb1 where "rb1 = ReorderBufferCommitChild rb x sub pos"
  have ne: "x \<noteq> sub" and sub: "can_link st x sub" using Cons.prems by simp_all
  have step: "sim_table fin1 st1 rb1" "cache_ok rb1"
    unfolding st1_def fin1_def rb1_def using sim_commit_child [OF Cons.prems(1,2,3) ne Cons.prems(5) sub] by blast+
  have st1: "parent st1 = (\<lambda>z. if z = sub \<and> z \<in> known st then Some x else parent st z)" "known st1 = known st" "events st1 = events st" "log_pos st1 = log_pos st"
    using spec_assign_known [OF sub _ ne] by (auto simp: st1_def fun_eq_iff)
  have "\<forall>y \<in> set subs. can_link st1 x y" using can_link_assign [OF sub _ ne] Cons.prems(4,6) by (auto simp: st1_def)
  note ih = Cons.IH [OF step Cons.prems(3) _ _ this]
  have "(\<lambda>z. if z \<in> set subs \<and> z \<in> known st then pos else fin1 z) = (\<lambda>z. if z \<in> set (sub # subs) \<and> z \<in> known st then pos else fin z)"
    by (auto simp: fin1_def fun_eq_iff)
  moreover have "rb' = fold (\<lambda>sub rb. ReorderBufferCommitChild rb x sub pos) subs rb1" "st' = spec_children x subs st1"
    using Cons.prems(7,8) by (simp_all add: rb1_def st1_def spec_children_def)
  moreover have "(\<lambda>z. if z \<in> set subs \<and> z \<in> known st then Some x else parent st1 z) =
      (\<lambda>z. if z \<in> set (sub # subs) \<and> z \<in> known st then Some x else parent st z)" by (auto simp: st1(1) fun_eq_iff)
  moreover have "parent st1 x = None" using Cons.prems(5) ne by (simp add: st1(1))
  moreover have "x \<notin> set subs" using Cons.prems(4) by simp
  ultimately show ?case using ih unfolding st1(2-4) by simp
qed

subsection \<open>The commit\<close>

text \<open>The end of a committed transaction: the bodies of its family may be any, as long as their files lie within their segments.\<close>

lemma sim_commit_cleanup:
  assumes sim: "sim_table (\<lambda>z. if z \<in> family st x then pos else 0) st rb" and x: "by_txn rb x = Some t" "\<not> is_known_as_subxact t"
    and pos: "log_pos st \<le> pos" and inv: "table_inv (log_pos st) rb1" "cache_ok rb1" "same_shape rb rb1"
    and others: "\<And>z. z \<notin> family st x \<Longrightarrow> by_txn rb1 z = by_txn rb z \<and> rb_disk rb1 z = rb_disk rb z"
    and files: "\<And>z u. z \<in> family st x \<Longrightarrow> by_txn rb1 z = Some u \<Longrightarrow> final_lsn (body u) = pos \<and> files_wf (rb_disk rb1) (body u)"
  shows "sim ((spec_remove (family st x) st)\<lparr>log_pos := pos\<rparr>) (ReorderBufferCleanupTXN rb1 x 0)"
proof -
  obtain g where eq: "by_txn rb1 = (\<lambda>z. map_option (\<lambda>u. u\<lparr>body := g z (body u)\<rparr>) (by_txn rb z))"
    using inv(3) unfolding same_shape_def by blast
  note g = fun_cong [OF eq]
  define t1 where "t1 = t\<lparr>body := g x (body t)\<rparr>"
  have t1: "by_txn rb1 x = Some t1" "\<not> is_known_as_subxact t1" "subxids t1 = subxids t" using g [of x] x by (simp_all add: t1_def)
  have gone: "left_files (node_of rb1 z) 0 (rb_disk rb1 z) = Map.empty" if z: "z \<in> family st x" for z
  proof -
    obtain u where u: "by_txn rb1 z = Some u" using sim_tree(4) [OF sim x(1) z] g [of z] by fastforce
    have fin: "final_lsn (body u) = pos" and wf: "files_wf (rb_disk rb1) (body u)" using files [OF z u] by blast+
    have "xid (body u) = z" using known_node [OF inv(1) u] by (simp add: node_ok_def)
    then have "left_files u 0 (rb_disk rb1 z) = Map.empty" by (rule left_empty [rotated, where F = pos]) (simp add: fin, use wf fin in \<open>simp only: same_final\<close>)
    then show ?thesis by (simp add: u)
  qed
  have "toplevel_by_lsn rb1 = toplevel_by_lsn rb" using inv(3) by (simp add: same_shape_def)
  note c = sim_cleanup [OF sim x inv(1,2) t1 others this gone]
  have cache: "cache_ok (ReorderBufferCleanupTXN rb1 x 0)" using c by (rule conjunct2)
  from conjunct1 [OF c] have "sim_table (\<lambda>_. 0) (spec_remove (family st x) st) (ReorderBufferCleanupTXN rb1 x 0)" by (rule sim_table_fin) auto
  then have "sim (spec_remove (family st x) st) (ReorderBufferCleanupTXN rb1 x 0)" using cache by (simp add: sim_def)
  then show ?thesis by (rule sim_later) (simp add: pos)
qed

lemma replay_iterate:
  "iterate_changes n m disk it = Some cs \<Longrightarrow> \<forall>c \<in> set cs. action c \<noteq> REORDER_BUFFER_CHANGE_INTERNAL_TUPLECID \<Longrightarrow>
    replay_changes n m disk it = Some (Inr (takeWhile (\<lambda>c. \<not> stop_decoding c) cs))"
  by (induction n arbitrary: it cs) (auto split: option.splits)

text \<open>The family of a committed transaction is decoded to its changes, merged by their positions, and nothing of it is left.\<close>

lemma decode_family:
  fixes rb :: "('a, 's) ReorderBuffer"
  assumes sim: "sim_table (\<lambda>z. if z \<in> family st x then pos else 0) st rb" and cache: "cache_ok rb"
    and x: "by_txn rb x = Some t" "\<not> is_known_as_subxact t" and pos: "log_pos st \<le> pos" and m: "0 < m" and n: "length (events st) < n"
  shows "\<exists>it d tree all. ReorderBufferIterTXNInit m mem (rb_disk rb) (tree_of rb x) = Inr (it, d, tree) \<and>
    merge_of lsn (filter (\<lambda>e. fst e \<in> family st x) (events st)) all \<and>
    replay_changes n m d it = Some (Inr (takeWhile (\<lambda>c. \<not> stop_decoding c) all)) \<and>
    sim ((spec_remove (family st x) st)\<lparr>log_pos := pos\<rparr>) (ReorderBufferCleanupTXN (put_tree tree (rb\<lparr>rb_disk := d\<rparr>)) x 0)"
proof -
  let ?evs = "filter (\<lambda>e. fst e \<in> family st x) (events st)" and ?tree = "tree_of rb x"
  note tree = sim_tree [OF sim x(1)]
  have "final_lsn (body (node_of rb y)) = pos" if "y \<in> set (x # subxids t)" for y
    using tree(4) [of y] that sim unfolding tree(1) by (auto simp: sim_table_def data_sim_def tree(1))
  then have same: "commit_tree pos ?tree = ?tree" by (rule commit_tree_same [OF x(1)])
  have holds0: "forest_holds (rb_disk rb) [?tree] (\<lambda>y. with_key y (events st))" using tree(5) [OF pos] unfolding same .
  have xids: "forest_xids [?tree] = family st x" unfolding flat_bodies [OF tree_bodies(2)] using tree(2) tree(1) by (metis list.set_map)
  have "with_key y ?evs = with_key y (events st)" if "y \<in> family st x" for y
    using with_key_filter [of y "- family st x" "events st"] that by simp
  then have holds: "forest_holds (rb_disk rb) [?tree] (\<lambda>y. with_key y ?evs)"
    by (intro forest_holds_frame [OF holds0]) (simp only: xids simp_thms)
  have keys: "fst ` set ?evs \<subseteq> forest_xids [?tree]" unfolding xids by auto
  have len: "length ?evs < n" using n length_filter_le [of "\<lambda>e. fst e \<in> family st x" "events st"] by linarith
  obtain it d tree1 all where it: "ReorderBufferIterTXNInit m mem (rb_disk rb) ?tree = Inr (it, d, tree1)" "iterate_changes n m d it = Some all"
    "merge_of lsn ?evs all" using decode_tree [OF holds tree_bodies(2) m keys len, of mem] by blast
  have act: "\<forall>c \<in> set all. action c \<noteq> REORDER_BUFFER_CHANGE_INTERNAL_TUPLECID"
  proof -
    have "set all = set (map snd ?evs)" using mset_eq_setD [OF merge_mset [OF it(3)]] .
    then show ?thesis using sim by (auto simp: sim_table_def log_ok_def)
  qed
  have ok: "forest_ok (rb_disk rb) [?tree]" using holds by (simp add: forest_holds_def)
  note files = iter_init_files [OF ok m it(1)]
  have flat1: "flat tree1" using files(4) tree_bodies(2) by blast
  have ids: "map (\<lambda>b. (xid b, first_lsn b, final_lsn b)) (bodies tree1) = map (\<lambda>b. (xid b, first_lsn b, final_lsn b)) (bodies ?tree)"
    using files(2) unfolding flat_bodies [OF flat1] flat_bodies [OF tree_bodies(2)] .
  have "map fst (map (\<lambda>b. (xid b, first_lsn b, final_lsn b)) (bodies tree1)) = map fst (map (\<lambda>b. (xid b, first_lsn b, final_lsn b)) (bodies ?tree))"
    unfolding ids ..
  then have xids1: "map xid (bodies tree1) = x # subxids t" using tree(2) by (simp add: o_def)
  then have dist: "distinct (map xid (bodies tree1))" and grp: "xid ` set (bodies tree1) = family st x"
    using tree(3) tree(1) by (metis, metis list.set_map)
  have body: "\<exists>u. by_txn rb (xid b) = Some u \<and> first_lsn b = first_lsn (body u) \<and> final_lsn b = pos" if b: "b \<in> set (bodies tree1)" for b
  proof -
    have "(xid b, first_lsn b, final_lsn b) \<in> set (map (\<lambda>b. (xid b, first_lsn b, final_lsn b)) (bodies tree1))" using b by auto
    then obtain c where c: "c \<in> set (bodies ?tree)" "xid c = xid b" "first_lsn c = first_lsn b" "final_lsn c = final_lsn b" unfolding ids by auto
    then obtain z where z: "z \<in> set (x # subxids t)" "c = body (node_of rb z)" using x(1) unfolding tree_bodies set_map by (auto simp del: list.set(2))
    have "\<exists>u. by_txn rb z = Some u \<and> xid (body u) = z" using tree(4) [of z] z(1) unfolding tree(1) by blast
    then obtain u where u: "by_txn rb z = Some u" "xid (body u) = z" by blast
    have "final_lsn (body u) = pos" using sim u(1) z(1) by (auto simp: sim_table_def data_sim_def tree(1))
    then show ?thesis using u c z(2) by auto
  qed
  define rb1 where "rb1 = put_tree tree1 (rb\<lparr>rb_disk := d\<rparr>)"
  note nodes = put_bodies_same [OF dist, of "rb\<lparr>rb_disk := d\<rparr>", folded put_tree_bodies rb1_def]
  have disk1: "rb_disk rb1 = d" by (simp add: rb1_def put_tree_bodies)
  have "table_inv (log_pos st) rb" using sim by (simp add: sim_table_def)
  then have "table_inv (log_pos st) (rb\<lparr>rb_disk := d\<rparr>)"
    by (simp add: table_inv_def table_ok_def node_ok_def is_child_def has_child_def order_ok_def not_after_def)
  then have inv1: "table_inv (log_pos st) rb1" unfolding rb1_def put_tree_bodies by (rule put_bodies_inv [OF _ dist]) (use body in force)
  have "cache_ok (rb\<lparr>rb_disk := d\<rparr>)" using cache by (simp add: cache_ok_def)
  then have cache1: "cache_ok rb1" by (simp add: rb1_def put_tree_bodies)
  have shape: "same_shape rb rb1" unfolding rb1_def put_tree_bodies by (rule put_bodies_shape [OF dist])
  have "sim ((spec_remove (family st x) st)\<lparr>log_pos := pos\<rparr>) (ReorderBufferCleanupTXN rb1 x 0)"
  proof (rule sim_commit_cleanup [OF sim x pos inv1 cache1 shape])
    fix z assume z: "z \<notin> family st x"
    then have "map_of (map (\<lambda>b. (xid b, b)) (bodies tree1)) z = None" unfolding grp [symmetric] by (simp add: map_of_eq_None_iff image_image)
    moreover have "d z = rb_disk rb z" by (rule files(3)) (use z xids in blast)
    ultimately show "by_txn rb1 z = by_txn rb z \<and> rb_disk rb1 z = rb_disk rb z" using nodes [of z] by (simp add: disk1 option.map_ident)
  next
    fix z u assume z: "z \<in> family st x" and u: "by_txn rb1 z = Some u"
    obtain b where b: "b \<in> set (bodies tree1)" "xid b = z" using z unfolding grp [symmetric] by blast
    then have "body u = b" using u map_of_bodies [OF dist b(1)] by (auto simp: nodes)
    moreover have "files_wf d b" using files(1) b(1) unfolding forest_files_def flat_bodies [OF flat1] by blast
    ultimately show "final_lsn (body u) = pos \<and> files_wf (rb_disk rb1) (body u)" using body [OF b(1)] disk1 by auto
  qed
  moreover have "replay_changes n m d it = Some (Inr (takeWhile (\<lambda>c. \<not> stop_decoding c) all))" by (rule replay_iterate [OF it(2) act])
  ultimately show ?thesis using it(1,3) by (auto simp: rb1_def)
qed

lemma sim_commit:
  fixes rb :: "('a, 's) ReorderBuffer"
  assumes sim: "sim st rb" and x: "x \<noteq> 0" "x \<notin> set subs" "parent st x = None" and kids: "kids st x \<subseteq> set subs"
    and subs: "\<forall>sub \<in> set subs. can_link st x sub" and pos: "log_pos st \<le> pos" and m: "0 < m" and n: "length (events st) < n"
  shows "\<exists>out rb'. DecodeCommit n m mem False rb x subs pos = Some (Inr out, rb') \<and> spec_passed x subs st out \<and>
    sim ((spec_commit x subs st)\<lparr>log_pos := pos\<rparr>) rb'"
proof -
  define rb1 where "rb1 = fold (\<lambda>sub rb. ReorderBufferCommitChild rb x sub pos) subs rb"
  define st1 where "st1 = spec_children x subs st"
  let ?fin = "\<lambda>z. if z \<in> set subs \<and> z \<in> known st then pos else 0"
  have "sim_table (\<lambda>_. 0) st rb" "cache_ok rb" using sim by (simp_all add: sim_def)
  note c = sim_commit_children [OF this x subs rb1_def st1_def]
  have tab1: "sim_table ?fin st1 rb1" "cache_ok rb1" and st1: "known st1 = known st" "events st1 = events st" "log_pos st1 = log_pos st"
    "parent st1 = (\<lambda>z. if z \<in> set subs \<and> z \<in> known st then Some x else parent st z)" using c by simp_all
  have run: "DecodeCommit n m mem False rb x subs pos = ReorderBufferCommit n m mem rb1 x pos" by (simp add: DecodeCommit_def rb1_def)
  obtain y is_new rb2 where l: "ReorderBufferTXNByXid rb1 x False 0 False = (y, is_new, rb2)" by (metis prod_cases3)
  have inv1: "rb_inv (log_pos st1) rb1" using tab1 by (simp add: rb_inv_iff sim_table_def)
  note lk = lookup_only [OF inv1 x(1) l]
  have tab2: "sim_table ?fin st1 rb2" "cache_ok rb2" using sim_table_cong [OF lk(2)] tab1(1) lk(1) by (simp_all add: rb_inv_iff)
  show ?thesis
  proof (cases "x \<in> known st")
    case False
    then have "sim_table (\<lambda>_. 0) st1 rb2" using subs by (intro sim_table_fin [OF tab2(1)]) (auto simp: can_link_def)
    moreover have "DecodeCommit n m mem False rb x subs pos = Some (Inr [], rb2)"
      using False l lk(3) sim_known [OF tab1(1), of x] st1(1) by (simp add: run ReorderBufferCommit_def)
    ultimately show ?thesis using tab2(2) False sim_later [of st1 rb2 pos] pos by (simp add: spec_commit_def spec_passed_def st1_def [symmetric] st1 sim_def)
  next
    case True
    define rb3 where "rb3 = set_final x pos rb2"
    have fam: "z \<in> family st1 x \<longleftrightarrow> z = x \<or> z \<in> set subs \<and> z \<in> known st" for z
      using kids x(3) by (auto simp: family_def kids_def st1(4) known_def)
    have "?fin(x := pos) = (\<lambda>z. if z \<in> family st1 x then pos else 0)" by (auto simp: fam fun_eq_iff)
    then have tab3: "sim_table (\<lambda>z. if z \<in> family st1 x then pos else 0) st1 rb3" "cache_ok rb3"
      using sim_set_final [OF tab2(1), of x pos] tab2(2) by (simp_all add: rb3_def)
    have "parent st1 x = None" using x by (simp add: st1(4))
    then obtain t where t: "by_txn rb3 x = Some t" "\<not> is_known_as_subxact t"
      using sim_known [OF tab3(1), of x] True sim_is_sub [OF tab3(1), of x] by (auto simp: st1(1))
    have inv3: "table_inv (log_pos st1) rb3" using tab3(1) by (simp add: sim_table_def)
    have snap: "x \<in> snaps st1 \<longleftrightarrow> base_snapshot t \<noteq> None" using tab3(1) snapshot_iff [OF inv3, of x] t(1) by (simp add: sim_table_def link_sim_def)
    have found: "y = Some x" using lk(3) True sim_known [OF tab1(1), of x] st1(1) by auto
    have run3: "DecodeCommit n m mem False rb x subs pos =
       (if base_snapshot t = None then Some (Inr [], ReorderBufferCleanupTXN rb3 x 0)
        else (case ReorderBufferIterTXNInit m mem (rb_disk rb3) (tree_of rb3 x) of
                Inl _ \<Rightarrow> None
              | Inr (it, disk, tree) \<Rightarrow> map_option (\<lambda>out. (out, ReorderBufferCleanupTXN (put_tree tree (rb3\<lparr>rb_disk := disk\<rparr>)) x 0))
                  (replay_changes n m disk it)))"
      unfolding run ReorderBufferCommit_def l found prod.case option.case Let_def rb3_def [symmetric] t(1) option.sel ..
    have next_st: "spec_commit x subs st = spec_remove (family st1 x) st1" using True by (simp add: spec_commit_def st1_def [symmetric] st1(1))
    have passed: "spec_passed x subs st out \<longleftrightarrow> (if x \<in> snaps st1
        then \<exists>all. merge_of lsn (filter (\<lambda>e. fst e \<in> family st1 x) (events st1)) all \<and> out = takeWhile (\<lambda>c. \<not> stop_decoding c) all else out = [])" for out
      using True by (simp add: spec_passed_def st1_def [symmetric] st1(1))
    have pos1: "log_pos st1 \<le> pos" and n1: "length (events st1) < n" using pos n by (simp_all add: st1)
    show ?thesis
    proof (cases "base_snapshot t")
      case None
      have "same_shape rb3 rb3" by (auto simp: same_shape_def option.map_ident intro!: exI [of _ "\<lambda>_ b. b"])
      moreover have "final_lsn (body u) = pos \<and> files_wf (rb_disk rb3) (body u)" if z: "z \<in> family st1 x" and u: "by_txn rb3 z = Some u" for z u
      proof -
        have fin: "final_lsn (body u) = pos" using tab3(1) z u by (simp add: sim_table_def data_sim_def)
        then show ?thesis using holds_at_files [OF sim_node_holds [OF tab3(1) u pos1]] unfolding same_final [OF fin] by blast
      qed
      ultimately have "sim ((spec_remove (family st1 x) st1)\<lparr>log_pos := pos\<rparr>) (ReorderBufferCleanupTXN rb3 x 0)"
        by (intro sim_commit_cleanup [OF tab3(1) t pos1 inv3 tab3(2)]) simp_all
      then show ?thesis using None snap by (simp add: run3 next_st passed)
    next
      case (Some snapshot)
      then show ?thesis using decode_family [OF tab3 t pos1 m n1, of mem] snap unfolding run3 next_st passed by fastforce
    qed
  qed
qed

subsection \<open>Every call\<close>

lemma sim_process:
  assumes "sim st rb" "log_pos st \<le> pos" "x \<noteq> 0" "ReorderBufferTXNByXid rb x True pos True = (t, is_new, rb')"
  shows "sim ((spec_touch x st)\<lparr>log_pos := pos\<rparr>) rb'"
proof -
  have sim: "cache_ok rb" "sim_table (\<lambda>_. 0) st rb" using assms(1) by (simp_all add: sim_def)
  note lk = lookup_spec(3,4) [OF sim(1) assms(3,4)]
  show ?thesis using sim_touch [OF sim(2) assms(3,2)] sim_table_cong [OF lk(1)] lk(2) by (simp add: sim_def)
qed

text \<open>Updates of a transaction that leave alone what the table and the specification are about.\<close>

lemma sim_mark:
  assumes "sim st rb" "log_pos st \<le> pos" "x \<noteq> 0" "ReorderBufferTXNByXid rb x True pos True = (y, is_new, rb1)"
    and f: "\<And>t. body (f t) = body t" "\<And>t. is_known_as_subxact (f t) = is_known_as_subxact t" "\<And>t. toplevel_xid (f t) = toplevel_xid t"
      "\<And>t. base_snapshot (f t) = base_snapshot t" "\<And>t. base_snapshot_lsn (f t) = base_snapshot_lsn t" "\<And>t. subxids (f t) = subxids t" "\<And>t. nsubtxns (f t) = nsubtxns t"
  shows "sim ((spec_touch x st)\<lparr>log_pos := pos\<rparr>) (upd_node x f rb1)"
proof -
  let ?st = "(spec_touch x st)\<lparr>log_pos := pos\<rparr>" and ?rb = "upd_node x f rb1"
  have sim1: "cache_ok rb1" "sim_table (\<lambda>_. 0) ?st rb1" using sim_process [OF assms(1-4)] by (simp_all add: sim_def)
  have inv: "table_inv (log_pos ?st) ?rb" by (rule upd_node_inv) (use sim1(2) f in \<open>simp_all add: sim_table_def\<close>)
  have "parent_of ?rb = parent_of rb1" using f by (auto simp: parent_of_def fun_eq_iff split: option.split)
  moreover have "snap_of ?rb y = snap_of rb1 y" if "y \<in> snaps st" for y
    using that sim_snaps_known [OF sim1(2)] sim_known [OF sim1(2), of y] f by auto
  ultimately have "link_sim ?st ?rb" using sim1(2) by (simp add: sim_table_def link_sim_def)
  moreover have "data_sim (\<lambda>_. 0) pos (events st) ?rb" using sim1(2) f by (auto simp: sim_table_def data_sim_def)
  ultimately show ?thesis using sim1 inv by (simp add: sim_def sim_table_def)
qed

lemma sim_set_catalog_changes:
  assumes "sim st rb" "log_pos st \<le> pos" "x \<noteq> 0"
  shows "sim ((spec_touch x st)\<lparr>log_pos := pos\<rparr>) (ReorderBufferXidSetCatalogChanges rb x pos)"
proof -
  obtain y is_new rb1 where l: "ReorderBufferTXNByXid rb x True pos True = (y, is_new, rb1)" by (metis prod_cases3)
  show ?thesis using sim_mark [OF assms l, of "\<lambda>t. t\<lparr>has_catalog_changes := True\<rparr>"] l by (simp add: ReorderBufferXidSetCatalogChanges_def)
qed

lemma sim_add_tuplecids:
  assumes "sim st rb" "log_pos st \<le> pos" "x \<noteq> 0"
  shows "sim ((spec_touch x st)\<lparr>log_pos := pos\<rparr>) (ReorderBufferAddNewTupleCids change rb x pos tuplecid)"
proof -
  obtain y is_new rb1 where l: "ReorderBufferTXNByXid rb x True pos True = (y, is_new, rb1)" by (metis prod_cases3)
  show ?thesis unfolding ReorderBufferAddNewTupleCids_def l prod.case Let_def by (rule sim_mark [OF assms l]) simp_all
qed

lemma sim_set_snapshot:
  fixes rb :: "('a, 's) ReorderBuffer"
  assumes sim: "sim st rb" and pos: "log_pos st \<le> pos" "snap_pos st < pos" and x: "x \<noteq> 0"
    and y: "y = (case parent st x of None \<Rightarrow> x | Some p \<Rightarrow> p)" "y \<notin> snaps st"
  shows "\<exists>rb'. ReorderBufferSetBaseSnapshot rb x pos snap = Inr rb' \<and>
    sim ((spec_touch x st)\<lparr>log_pos := pos, snap_pos := pos, snaps := insert y (snaps st)\<rparr>) rb'"
proof -
  obtain t0 is_new rb1 where l: "ReorderBufferTXNByXid rb x True pos True = (t0, is_new, rb1)" by (metis prod_cases3)
  define st1 where "st1 = (spec_touch x st)\<lparr>log_pos := pos\<rparr>"
  have sim1: "cache_ok rb1" "sim_table (\<lambda>_. 0) st1 rb1" using sim_process [OF sim pos(1) x l] by (simp_all add: sim_def st1_def)
  have cache: "cache_ok rb" using sim by (simp add: sim_def)
  have t0: "t0 = Some x" using lookup_spec(1) [OF cache x l] by simp
  have "x \<in> known st1" by (simp add: st1_def)
  then obtain t where t: "by_txn rb1 x = Some t" using sim_known [OF sim1(2)] by blast
  have inv1: "table_inv pos rb1" using sim1(2) by (simp add: sim_table_def st1_def)
  have par: "parent st x = (if is_known_as_subxact t then Some (toplevel_xid t) else None)"
    using sim1(2) t by (simp add: sim_table_def link_sim_def st1_def parent_of_def fun_eq_iff)
  obtain rb2 where rb2: "same_table rb1 rb2" "cache_ok rb2"
    and run: "ReorderBufferSetBaseSnapshot rb x pos snap = Inr ((upd_node y (\<lambda>t. t\<lparr>base_snapshot := Some snap, base_snapshot_lsn := pos\<rparr>) rb2)
      \<lparr>txns_by_base_snapshot_lsn := txns_by_base_snapshot_lsn rb2 @ [y]\<rparr>)"
    and live: "\<exists>u. by_txn rb1 y = Some u \<and> \<not> is_known_as_subxact u"
  proof (cases "is_known_as_subxact t")
    case False
    then show thesis using that [of rb1] l t t0 par y(1) sim1(1) by (simp add: ReorderBufferSetBaseSnapshot_def same_table_def)
  next
    case True
    obtain p q rb2 where l2: "ReorderBufferTXNByXid rb1 (toplevel_xid t) False 0 False = (p, q, rb2)" by (metis prod_cases3)
    have yt: "y = toplevel_xid t" using par y(1) True by simp
    have "has_child rb1 y x" using known_node [OF inv1 t] True yt by (simp add: node_ok_def)
    then obtain u where u: "by_txn rb1 y = Some u" "x \<in> set (subxids u)" by (auto simp: has_child_def)
    then have "\<not> is_known_as_subxact u" "y \<noteq> 0" using known_node [OF inv1 u(1)] by (auto simp: node_ok_def)
    moreover have "rb_inv pos rb1" using inv1 sim1(1) by (simp add: rb_inv_iff)
    note lk = lookup_only [OF this _ l2]
    ultimately have "same_table rb1 rb2" "p = Some y" "cache_ok rb2" using lk yt u(1) by (simp_all add: rb_inv_iff)
    then show thesis using that [of rb2] l l2 t t0 True u(1) \<open>\<not> is_known_as_subxact u\<close>
      by (simp add: ReorderBufferSetBaseSnapshot_def)
  qed
  have tab2: "sim_table (\<lambda>_. 0) st1 rb2" using sim_table_cong [OF rb2(1)] sim1(2) by simp
  obtain u where u: "by_txn rb2 y = Some u" "\<not> is_known_as_subxact u" using live rb2(1) by (auto simp: same_table_def)
  have parts: "table_inv pos rb2" "link_sim st1 rb2" "log_ok st1" "data_sim (\<lambda>_. 0) pos (events st1) rb2"
    using tab2 by (simp_all add: sim_table_def st1_def)
  have snaps: "snaps st = set (txns_by_base_snapshot_lsn rb2)" using parts(2) by (simp add: link_sim_def st1_def)
  have none: "base_snapshot u = None" using snapshot_iff [OF parts(1), of y] u y(2) snaps by auto
  have older: "\<forall>z \<in> set (txns_by_base_snapshot_lsn rb2). snap_of rb2 z < pos" using parts(2) pos(2) by (fastforce simp: link_sim_def st1_def)
  define rb3 where "rb3 = (upd_node y (\<lambda>t. t\<lparr>base_snapshot := Some snap, base_snapshot_lsn := pos\<rparr>) rb2)
      \<lparr>txns_by_base_snapshot_lsn := txns_by_base_snapshot_lsn rb2 @ [y]\<rparr>"
  have inv3: "table_inv pos rb3" unfolding rb3_def by (rule set_snapshot_inv [OF parts(1) u none order_refl older])
  have "parent_of rb3 = parent_of rb2" by (auto simp: rb3_def parent_of_def fun_eq_iff split: option.split)
  moreover have "snap_of rb3 z \<le> pos" if "z \<in> insert y (snaps st)" for z
    using that older u(1) snaps by (auto simp: rb3_def less_imp_le)
  ultimately have "link_sim (st1\<lparr>snap_pos := pos, snaps := insert y (snaps st)\<rparr>) rb3"
    using parts(2) by (simp add: link_sim_def rb3_def st1_def)
  moreover have "data_sim (\<lambda>_. 0) pos (events st1) rb3" using parts(4) by (auto simp: data_sim_def rb3_def)
  moreover have "log_ok (st1\<lparr>snap_pos := pos, snaps := insert y (snaps st)\<rparr>)" using parts(3) by (simp add: log_ok_def known_def)
  moreover have "cache_ok rb3" using rb2(2) by (auto simp: rb3_def cache_ok_def)
  ultimately have "sim (st1\<lparr>snap_pos := pos, snaps := insert y (snaps st)\<rparr>) rb3" using inv3 by (simp add: sim_def sim_table_def st1_def)
  then show ?thesis using run by (auto simp: rb3_def st1_def)
qed

lemma sim_exec:
  fixes rb :: "('a, 's) ReorderBuffer"
  assumes sim: "sim st rb" and ok: "allowed st c" and m: "0 < m" and n: "length (events st) < n"
  shows "\<exists>out rb'. rb_exec n m mem rb c = Some (out, rb') \<and> spec_out st c out \<and> sim (spec_next st c) rb'"
proof (cases c)
  case (Process x pos)
  obtain t is_new rb1 where l: "ReorderBufferTXNByXid rb x True pos True = (t, is_new, rb1)" by (metis prod_cases3)
  then show ?thesis using sim_process [OF sim _ _ l] sim ok by (simp add: Process ReorderBufferProcessXid_def)
next
  case (SetCatalogChanges x pos)
  then show ?thesis using sim_set_catalog_changes [OF sim] ok by simp
next
  case (SetBaseSnapshot x pos snap)
  then show ?thesis using sim_set_snapshot [OF sim _ _ _ refl, of pos x snap] ok by (auto simp: Let_def)
next
  case (Queue x pos change)
  then show ?thesis using sim_queue [OF sim, of x pos change m] ok by simp
next
  case (AddTupleCids x pos change tuplecid)
  then show ?thesis using sim_add_tuplecids [OF sim] ok by simp
next
  case (Assign x sub pos)
  have tab: "sim_table (\<lambda>_. 0) st rb" and inv: "rb_inv (log_pos st) rb" using sim by (simp_all add: sim_def sim_table_def rb_inv_iff)
  show ?thesis using sim_assign [OF tab, of pos x sub] assign_child_plain [OF inv, of x sub pos] ok sim_table_cong
    by (auto simp: Assign sim_def)
next
  case (Commit x subs pos)
  then show ?thesis using sim_commit [OF sim, of x subs pos m n mem] ok m n by (auto simp: can_link_def)
next
  case (Abort x subs pos)
  then show ?thesis using sim_abort [OF sim, of x subs pos] ok by simp
next
  case (Forget x subs pos)
  have "ReorderBufferForget = (ReorderBufferAbort :: ('a, 's) ReorderBuffer \<Rightarrow> _)"
    by (intro ext) (simp add: ReorderBufferForget_def ReorderBufferAbort_def)
  then have "DecodeCommit n m mem True rb x subs pos = Some (Inr [], DecodeAbort rb x subs pos)"
    by (simp add: DecodeCommit_def DecodeAbort_def)
  then show ?thesis using sim_abort [OF sim, of x subs pos] ok by (simp add: Forget)
next
  case (AbortOld oldest pos)
  have tab: "sim_table (\<lambda>_. 0) st rb" using sim by (simp add: sim_def)
  then have tops: "tops st = toplevel_by_lsn rb" "distinct (toplevel_by_lsn rb)"
    by (simp_all add: sim_table_def link_sim_def table_inv_def table_ok_def)
  have "log_pos st \<le> pos" using ok by (simp add: AbortOld)
  note loop = sim_abort_old_loop [OF sim this tops, of oldest]
  show ?thesis using sim_later [OF loop, of pos] ok tops by (simp add: AbortOld ReorderBufferAbortOld_def)
qed

text \<open>The changes queued by a sequence of calls, with their positions.\<close>

fun queued :: "('a, 's) rb_call list \<Rightarrow> 'a ReorderBufferChange list" where
  "queued [] = []"
| "queued (Queue x pos change # cs) = change\<lparr>lsn := pos\<rparr> # queued cs"
| "queued (_ # cs) = queued cs"

lemma spec_assign_events [simp]: "events (spec_assign x sub st) = events st"
  by (simp add: spec_assign_def spec_link_def)

lemma spec_children_events [simp]: "events (spec_children x subs st) = events st"
  unfolding spec_children_def by (induction subs arbitrary: st) simp_all

lemma events_remove:
  "mset (map snd (filter (\<lambda>e. fst e \<in> xs) (events st))) + mset (map snd (events (spec_remove xs st))) = mset (map snd (events st))"
  by (simp add: spec_remove_def mset_map mset_filter flip: image_mset_union multiset_partition)

lemma events_left: "mset (map snd (events (spec_remove xs st))) \<subseteq># mset (map snd (events st))"
  unfolding events_remove [of xs st, symmetric] by (rule mset_subset_eq_add_right)

lemma log_pos_events [simp]: "events (st\<lparr>log_pos := pos\<rparr>) = events st"
  by simp

text \<open>What is passed on and what is still held is among what was held and what is queued.\<close>

lemma spec_events:
  assumes "spec_out st c out"
  shows "mset out + mset (map snd (events (spec_next st c))) \<subseteq># mset (map snd (events st)) + mset (queued [c])"
proof (cases c)
  case (Commit x subs pos)
  let ?st = "spec_children x subs st"
  let ?fam = "family ?st x"
  show ?thesis
  proof (cases "x \<in> known ?st \<and> x \<in> snaps ?st")
    case True
    then obtain all where all: "merge_of lsn (filter (\<lambda>e. fst e \<in> ?fam) (events st)) all" "out = takeWhile (\<lambda>c. \<not> stop_decoding c) all"
      using assms by (auto simp: Commit spec_passed_def Let_def)
    have "mset out \<subseteq># mset all"
      using mset_subset_eq_add_left [of "mset out" "mset (dropWhile (\<lambda>c. \<not> stop_decoding c) all)"] unfolding all(2) by (simp flip: mset_append)
    also have "\<dots> = mset (map snd (filter (\<lambda>e. fst e \<in> ?fam) (events st)))" by (rule merge_mset [OF all(1)])
    finally have "mset out + mset (map snd (events (spec_remove ?fam ?st))) \<subseteq># mset (map snd (events ?st))"
      unfolding events_remove [of ?fam ?st, symmetric] by (intro subset_mset.add_mono) simp_all
    then show ?thesis using True by (simp add: Commit spec_commit_def Let_def del: mset_map)
  next
    case False
    then have "out = []" using assms by (auto simp: Commit spec_passed_def Let_def)
    then show ?thesis using events_left [of ?fam ?st] by (simp add: Commit spec_commit_def Let_def del: mset_map)
  qed
next
  case (Abort x subs pos)
  then show ?thesis using assms events_left [of "set (x # subs)" st] by (simp del: mset_map)
next
  case (Forget x subs pos)
  then show ?thesis using assms events_left [of "set (x # subs)" st] by (simp del: mset_map)
next
  case (AbortOld oldest pos)
  then show ?thesis using assms events_left [of "\<Union> (family st ` set (takeWhile (\<lambda>x. x < oldest) (tops st)))" st] by (simp del: mset_map)
qed (use assms in \<open>simp_all add: Let_def\<close>)

lemma queued_Cons: "queued (c # cs) = queued [c] @ queued cs"
  by (cases c) simp_all

lemma sim_run:
  fixes rb :: "('a, 's) ReorderBuffer"
  assumes "sim st rb" "allowed_run st cs" "0 < m" "length (events st) + length (queued cs) < n"
  shows "\<exists>outs rb'. rb_run n m mem rb cs = Some (outs, rb') \<and> spec_outs st cs outs \<and> sim (spec_run st cs) rb'"
  using assms
proof (induction cs arbitrary: st rb)
  case (Cons c cs)
  have "length (events st) < n" using Cons.prems(4) by simp
  then obtain out rb1 where rb1: "rb_exec n m mem rb c = Some (out, rb1)" "spec_out st c out" "sim (spec_next st c) rb1"
    using sim_exec [OF Cons.prems(1) _ Cons.prems(3), of c n mem] Cons.prems(2) by auto
  have "length (events (spec_next st c)) + length (queued cs) < n"
    using size_mset_mono [OF spec_events [OF rb1(2)]] Cons.prems(4) by (simp add: queued_Cons [of c cs])
  then show ?case using Cons.IH [OF rb1(3) _ Cons.prems(3)] Cons.prems(2) rb1(1,2) by fastforce
qed simp

lemma spec_run_events:
  "spec_outs st cs outs \<Longrightarrow> mset (concat outs) + mset (map snd (events (spec_run st cs))) \<subseteq># mset (map snd (events st)) + mset (queued cs)"
proof (induction cs arbitrary: st outs)
  case (Cons c cs)
  then obtain out outs' where o: "outs = out # outs'" "spec_out st c out" "spec_outs (spec_next st c) cs outs'" by auto
  let ?st1 = "spec_next st c"
  have "mset out + mset (map snd (events ?st1)) \<subseteq># mset (map snd (events st)) + mset (queued [c])" by (rule spec_events [OF o(2)])
  moreover have "mset (concat outs') + mset (map snd (events (spec_run ?st1 cs))) \<subseteq># mset (map snd (events ?st1)) + mset (queued cs)"
    by (rule Cons.IH [OF o(3)])
  ultimately have "mset out + mset (map snd (events ?st1)) + (mset (concat outs') + mset (map snd (events (spec_run ?st1 cs)))) \<subseteq>#
      mset (map snd (events st)) + mset (queued [c]) + (mset (map snd (events ?st1)) + mset (queued cs))" by (rule subset_mset.add_mono)
  then show ?case using o(1) queued_Cons [of c cs] by (simp add: ac_simps)
qed simp

subsection \<open>The reorder buffer\<close>

text \<open>How the specification is evaluated on concrete calls.\<close>

lemma in_known: "x \<in> known st \<longleftrightarrow> x \<in> set (tops st) \<or> parent st x \<noteq> None"
  by (auto simp: known_def)

lemma no_kids: "kids st x = {} \<longleftrightarrow> (\<forall>y. parent st y \<noteq> Some x)"
  by (auto simp: kids_def)

lemma kids_within: "kids st x \<subseteq> ys \<longleftrightarrow> (\<forall>y. parent st y = Some x \<longrightarrow> y \<in> ys)"
  by (auto simp: kids_def)

lemma in_family: "y \<in> family st x \<longleftrightarrow> y = x \<or> parent st y = Some x"
  by (auto simp: family_def kids_def)

lemmas spec_eval = in_known no_kids kids_within in_family spec_touch_def spec_assign_def spec_link_def spec_remove_def spec_commit_def spec_children_def
  restrict_map_def log_init_def stop_decoding_def FirstCommandId_def

text \<open>The order of the changes is determined if changes at one position are of one transaction.\<close>

lemma spec_passed_order:
  assumes "spec_passed x subs st out" "in_order lsn (filter (\<lambda>e. fst e \<in> family (spec_children x subs st) x) (events st))"
  shows "out = (let st = spec_children x subs st
    in if x \<in> known st \<and> x \<in> snaps st then takeWhile (\<lambda>c. \<not> stop_decoding c) (map snd (filter (\<lambda>e. fst e \<in> family st x) (events st))) else [])"
  using assms merge_unique [OF _ assms(2)] by (auto simp: spec_passed_def Let_def split: if_splits)

text \<open>
  Three transactions: 8 is seen on its own before it is assigned to 7 as a subtransaction, 9 is still in progress at the end;
  the changes are in two log segments. At position 125 all three get a snapshot, as it happens when a transaction that changed the catalog commits.
\<close>

definition row :: "XLogRecPtr \<Rightarrow> 'a \<Rightarrow> 'a ReorderBufferChange" where
  "row pos d = \<lparr>lsn = pos, action = REORDER_BUFFER_CHANGE_INSERT, command_id = 0, data = d\<rparr>"

definition snapshot :: "XLogRecPtr \<Rightarrow> 'a \<Rightarrow> 'a ReorderBufferChange" where
  "snapshot pos d = \<lparr>lsn = pos, action = REORDER_BUFFER_CHANGE_INTERNAL_SNAPSHOT, command_id = 0, data = d\<rparr>"

definition sample_calls :: "(nat, unit) rb_call list" where
  "sample_calls = [Queue 7 100 (row 0 1), SetBaseSnapshot 7 110 (), Queue 8 120 (row 0 2), Queue 9 121 (row 0 3),
     Queue 7 125 (snapshot 0 0), Queue 8 125 (snapshot 0 0), Queue 9 125 (snapshot 0 0), Assign 7 8 130,
     AddTupleCids 7 140 (row 0 0) 5, Queue 8 16777300 (row 0 4), Commit 7 [8] 16777400]"

lemma sample_allowed: "allowed_run log_init sample_calls"
  unfolding sample_calls_def row_def snapshot_def by (simp add: spec_eval)

lemma sample_queued: "length (queued sample_calls) = 7"
  by (simp add: sample_calls_def)

text \<open>
  C1. The reorder buffer implements its specification on the level of the log. For every sequence of the modelled
  calls (a new xid, a catalog change, a base snapshot, a queued change, a tuple command id, the assignment of a subtransaction, a commit that is decoded or
  skipped, an abort, the removal of old transactions) that meets the conditions of \<open>allowed\<close>, of any number of interleaved transactions and
  subtransactions, whatever the number of changes kept in memory, the calls on the transaction table with its cache, its spill files and its iterator
  succeed, and each commit passes on what the specification says: nothing if no base snapshot is known; else the changes queued for the transaction and its
  subtransactions, each once, in the order of their positions and within a transaction in the order in which they were queued, up to the first command
  id other than \<^verbatim>\<open>FirstCommandId\<close>, and nothing from there on. Transactions may have changes at the same position.
\<close>

theorem reorder_buffer_refines:
  fixes calls :: "('a, 's) rb_call list"
  assumes "allowed_run log_init calls" "0 < m" "length (queued calls) < n"
  shows "\<exists>outs rb. rb_run n m mem ReorderBufferAllocate calls = Some (outs, rb) \<and> spec_outs log_init calls outs"
  using sim_run [OF sim_init assms(1,2), of n mem] assms(3) by (auto simp: log_init_def)

theorem reorder_buffer_refines_witness:
  "\<exists>outs rb. rb_run 8 1 (\<lambda>_. 0) ReorderBufferAllocate sample_calls = Some (outs, rb) \<and> spec_outs log_init sample_calls outs"
  by (rule reorder_buffer_refines [OF sample_allowed]) (simp_all add: sample_queued)

text \<open>
  C2. After any sequence of calls that meets the conditions of \<open>allowed\<close> the transaction table is consistent: the one-entry cache agrees with the
  table, each transaction is either in the list of top-level transactions or among the subtransactions of one of them, the two lists are in the order that
  \<^verbatim>\<open>AssertTXNLsnOrder\<close> checks, and no spill file is left of a transaction that has ended.
\<close>

theorem reorder_buffer_consistent:
  fixes calls :: "('a, 's) rb_call list"
  assumes "allowed_run log_init calls" "0 < m" "length (queued calls) < n"
  shows "\<exists>outs rb. rb_run n m mem ReorderBufferAllocate calls = Some (outs, rb) \<and>
    cache_ok rb \<and> table_ok rb \<and> order_ok rb \<and> (\<forall>x. by_txn rb x = None \<longrightarrow> rb_disk rb x = Map.empty)"
proof -
  obtain outs rb where "rb_run n m mem ReorderBufferAllocate calls = Some (outs, rb)" "sim (spec_run log_init calls) rb"
    using sim_run [OF sim_init assms(1,2), of n mem] assms(3) by (auto simp: log_init_def)
  then show ?thesis by (auto simp: sim_def sim_table_def table_inv_def data_sim_def)
qed

theorem reorder_buffer_consistent_witness:
  "\<exists>outs rb. rb_run 8 1 (\<lambda>_. 0) ReorderBufferAllocate sample_calls = Some (outs, rb) \<and> cache_ok rb \<and> table_ok rb \<and> order_ok rb \<and>
    (\<forall>x. by_txn rb x = None \<longrightarrow> rb_disk rb x = Map.empty)"
  by (rule reorder_buffer_consistent [OF sample_allowed]) (simp_all add: sample_queued)

text \<open>
  C10. No change is passed on twice, and none that was not queued: all the changes passed on by the commits of a sequence of calls that meets the
  conditions of \<open>allowed\<close> are, as a multiset, among the changes queued, with the positions they were queued at.
\<close>

theorem changes_passed_once:
  fixes calls :: "('a, 's) rb_call list"
  assumes "allowed_run log_init calls" "0 < m" "length (queued calls) < n"
  shows "\<exists>outs rb. rb_run n m mem ReorderBufferAllocate calls = Some (outs, rb) \<and> mset (concat outs) \<subseteq># mset (queued calls)"
proof -
  obtain outs rb where o: "rb_run n m mem ReorderBufferAllocate calls = Some (outs, rb)" "spec_outs log_init calls outs"
    using sim_run [OF sim_init assms(1,2), of n mem] assms(3) by (auto simp: log_init_def)
  then have "mset (concat outs) \<subseteq># mset (queued calls)"
    using subset_mset.order_trans [OF mset_subset_eq_add_left spec_run_events [OF o(2)]] by (simp add: log_init_def)
  then show ?thesis using o(1) by blast
qed

theorem changes_passed_once_witness:
  "\<exists>outs rb. rb_run 8 1 (\<lambda>_. 0) ReorderBufferAllocate sample_calls = Some (outs, rb) \<and> mset (concat outs) \<subseteq># mset (queued sample_calls)"
  by (rule changes_passed_once [OF sample_allowed]) (simp_all add: sample_queued)

text \<open>
  C33. A transaction is decoded only up to its first command id. Two rows of a transaction with a new command id in between, which every statement that
  changes the catalog queues: whatever the rows are, the commit passes on the first one only. The rest of the transaction is dropped without an error,
  although it has committed.
\<close>

theorem command_id_ends_decoding:
  fixes a b c :: "'a ReorderBufferChange" and snap :: 's
  assumes "x \<noteq> 0" "0 < m" "p1 < p2" "p2 < p3" "p3 < p4" "p4 < p5" "cid \<noteq> FirstCommandId"
    and "action a = REORDER_BUFFER_CHANGE_INSERT" "action b = REORDER_BUFFER_CHANGE_INSERT"
  shows "\<exists>rb. rb_run 4 m mem ReorderBufferAllocate
      [Queue x p1 a, SetBaseSnapshot x p2 snap, Queue x p3 (c\<lparr>command_id := cid, action := REORDER_BUFFER_CHANGE_INTERNAL_COMMAND_ID\<rparr>), Queue x p4 b,
       Commit x [] p5] = Some ([[], [], [], [], [a\<lparr>lsn := p1\<rparr>]], rb)"
proof -
  let ?calls = "[Queue x p1 a, SetBaseSnapshot x p2 snap, Queue x p3 (c\<lparr>command_id := cid, action := REORDER_BUFFER_CHANGE_INTERNAL_COMMAND_ID\<rparr>),
      Queue x p4 b, Commit x [] p5]"
  have "allowed_run log_init ?calls" using assms by (simp add: spec_eval)
  then obtain outs rb where run: "rb_run 4 m mem ReorderBufferAllocate ?calls = Some (outs, rb)" "spec_outs log_init ?calls outs"
    using sim_run [OF sim_init _ assms(2), of ?calls 4 mem] by (auto simp: log_init_def)
  define st where "st = spec_run log_init (butlast ?calls)"
  obtain out where out: "outs = [[], [], [], [], out]" "spec_passed x [] st out" using run(2) by (auto simp: st_def)
  have st: "events st = [(x, a\<lparr>lsn := p1\<rparr>), (x, c\<lparr>command_id := cid, action := REORDER_BUFFER_CHANGE_INTERNAL_COMMAND_ID, lsn := p3\<rparr>), (x, b\<lparr>lsn := p4\<rparr>)]"
    "x \<in> known st" "x \<in> snaps st" using assms by (simp_all add: st_def spec_eval)
  have fam: "x \<in> family st x" by (simp add: family_def)
  have "in_order lsn (filter (\<lambda>e. fst e \<in> family (spec_children x [] st) x) (events st))"
    using assms fam by (simp add: st(1) in_order_def spec_children_def)
  from spec_passed_order [OF out(2) this] have "out = [a\<lparr>lsn := p1\<rparr>]" using assms st fam by (simp add: spec_children_def stop_decoding_def)
  then show ?thesis using run(1) out(1) by blast
qed

theorem command_id_ends_decoding_witness:
  "\<exists>rb :: (nat, unit) ReorderBuffer. rb_run 4 100 (\<lambda>_. 0) ReorderBufferAllocate
      [Queue 7 10 (row 0 1), SetBaseSnapshot 7 20 (), Queue 7 30 ((row 0 0)\<lparr>command_id := 1, action := REORDER_BUFFER_CHANGE_INTERNAL_COMMAND_ID\<rparr>),
       Queue 7 40 (row 0 2), Commit 7 [] 50] = Some ([[], [], [], [], [row 10 1]], rb)"
  using command_id_ends_decoding [of 7 100 10 20 30 40 50 1 "row 0 1" "row 0 2" "\<lambda>_. 0" "()" "row 0 (0 :: nat)"]
  by (simp add: row_def FirstCommandId_def)

end
