(* ===== verification/DynaHash.thy ===== *)
theory DynaHash
  imports HashFunc
begin

text \<open>
  Dynamic hash tables, \<^verbatim>\<open>src/src/common/backend/utils/hash/dynahash.cpp\<close>: linear hashing, where a
  table grows by one bucket at a time.

  An element is known by a number, its address; \<open>elems\<close> is the memory of the elements, with arbitrary
  contents where nothing was written yet. A chain of elements linked by \<^verbatim>\<open>link\<close>, of a bucket or of
  a free list, is the list of their addresses. A segment is the list of its chains; an entry of the directory
  that is \<^verbatim>\<open>NULL\<close> is \<open>None\<close>. Keys are of any type \<open>'k\<close>, with the functions of the table on them;
  the data behind a key, which the caller fills in, is of any type \<open>'v\<close>. The allocation with number \<open>i\<close> of
  a table succeeds if \<open>alloc_ok i\<close>. Bucket numbers are unbounded here, which is exact below \<open>2 ^ 32\<close> buckets.
  The fields \<^verbatim>\<open>ssize\<close> and \<^verbatim>\<open>sshift\<close>, of which an HTAB has copies, are read in the header.
  Spinlocks, statistics and the exception of the libcomm threads, which may not raise errors, are left out.
\<close>

subsection \<open>Data\<close>

definition DEF_SEGSIZE :: nat where "DEF_SEGSIZE = 256"
definition DEF_SEGSIZE_SHIFT :: nat where "DEF_SEGSIZE_SHIFT = 8"
definition DEF_DIRSIZE :: nat where "DEF_DIRSIZE = 256"
definition DEF_FFACTOR :: nat where "DEF_FFACTOR = 1"
definition NUM_FREELISTS :: nat where "NUM_FREELISTS = 32"
definition NO_MAX_DSIZE :: int where "NO_MAX_DSIZE = -1"
definition MAX_SEQ_SCANS :: nat where "MAX_SEQ_SCANS = 100"

record ('k, 'v) HASHELEMENT =
  hashvalue :: uint32
  ekey :: 'k
  edata :: 'v

record FreeListData =
  nentries :: int
  free_elems :: "nat list"

record HASHHDR =
  freeList :: "FreeListData list"
  dsize :: nat
  nsegs :: nat
  max_bucket :: nat
  high_mask :: nat
  low_mask :: nat
  keysize :: nat
  entrysize :: nat
  num_partitions :: nat
  ffactor :: nat
  max_dsize :: int
  ssize :: nat
  sshift :: nat
  nelem_alloc :: nat

datatype HashAllocFunc = DynaHashAlloc | DynaHashAllocNoExcept | UserAlloc

record ('k, 'v) HTAB =
  htab_id :: nat
  hctl :: HASHHDR
  dir :: "nat list list option list"
  hash :: "'k \<Rightarrow> uint32"
  match :: "'k \<Rightarrow> 'k \<Rightarrow> bool"
  keycopy :: "'k \<Rightarrow> 'k"
  alloc :: HashAllocFunc
  isshared :: bool
  isfixed :: bool
  frozen :: bool
  elems :: "nat \<Rightarrow> ('k, 'v) HASHELEMENT"
  next_elem :: nat
  alloc_ok :: "nat \<Rightarrow> bool"
  nallocs :: nat

datatype HASHACTION = HASH_FIND | HASH_ENTER | HASH_REMOVE | HASH_ENTER_NULL

text \<open>A call returns a value or raises an error, in both cases with the table as it is then.\<close>

type_synonym ('a, 'k, 'v) htab_result = "'a result \<times> ('k, 'v) HTAB"

definition hash_bind :: "('a, 'k, 'v) htab_result \<Rightarrow> ('a \<Rightarrow> ('k, 'v) HTAB \<Rightarrow> ('b, 'k, 'v) htab_result) \<Rightarrow> ('b, 'k, 'v) htab_result" where
  "hash_bind m f = (case m of (Inl e, h) \<Rightarrow> (Inl e, h) | (Inr a, h) \<Rightarrow> f a h)"

definition OUT_OF_MEMORY :: pg_error where
  "OUT_OF_MEMORY = Ereport ERROR ERRCODE_OUT_OF_MEMORY"

definition IS_PARTITIONED :: "HASHHDR \<Rightarrow> bool" where
  "IS_PARTITIONED c \<longleftrightarrow> num_partitions c \<noteq> 0"

definition FREELIST_IDX :: "HASHHDR \<Rightarrow> uint32 \<Rightarrow> nat" where
  "FREELIST_IDX c hashcode = (if IS_PARTITIONED c then unat hashcode mod NUM_FREELISTS else 0)"

definition MOD :: "nat \<Rightarrow> nat \<Rightarrow> nat" where
  "MOD x y = x AND (y - 1)"

definition upd_hctl :: "(HASHHDR \<Rightarrow> HASHHDR) \<Rightarrow> ('k, 'v) HTAB \<Rightarrow> ('k, 'v) HTAB" where
  "upd_hctl f h = h\<lparr>hctl := f (hctl h)\<rparr>"

definition upd_freeList :: "nat \<Rightarrow> (FreeListData \<Rightarrow> FreeListData) \<Rightarrow> ('k, 'v) HTAB \<Rightarrow> ('k, 'v) HTAB" where
  "upd_freeList i f = upd_hctl (\<lambda>c. c\<lparr>freeList := (freeList c)[i := f (freeList c ! i)]\<rparr>)"

text \<open>The chain of a bucket, which the code finds through the directory.\<close>

definition bucket_chain :: "('k, 'v) HTAB \<Rightarrow> nat \<Rightarrow> nat list" where
  "bucket_chain h b = the (dir h ! drop_bit (sshift (hctl h)) b) ! MOD b (ssize (hctl h))"

definition put_chain :: "nat \<Rightarrow> nat list \<Rightarrow> ('k, 'v) HTAB \<Rightarrow> ('k, 'v) HTAB" where
  "put_chain b chain h =
    (let segno = drop_bit (sshift (hctl h)) b
     in h\<lparr>dir := (dir h)[segno := map_option (\<lambda>s. s[MOD b (ssize (hctl h)) := chain]) (dir h ! segno)]\<rparr>)"

subsection \<open>Allocation\<close>

text \<open>The default allocator raises an error when it fails, the others return \<^verbatim>\<open>NULL\<close>.\<close>

definition hash_alloc :: "('k, 'v) HTAB \<Rightarrow> (bool, 'k, 'v) htab_result" where
  "hash_alloc h =
    (let ok = alloc_ok h (nallocs h); h = h\<lparr>nallocs := nallocs h + 1\<rparr>
     in if ok then (Inr True, h)
        else if alloc h = DynaHashAlloc then (Inl OUT_OF_MEMORY, h)
        else (Inr False, h))"

definition seg_alloc :: "('k, 'v) HTAB \<Rightarrow> (nat list list option, 'k, 'v) htab_result" where
  "seg_alloc h = hash_bind (hash_alloc h) (\<lambda>ok h. (Inr (if ok then Some (replicate (ssize (hctl h)) []) else None), h))"

definition dir_realloc :: "('k, 'v) HTAB \<Rightarrow> (bool, 'k, 'v) htab_result" where
  "dir_realloc h =
    (if max_dsize (hctl h) \<noteq> NO_MAX_DSIZE then (Inr False, h)
     else hash_bind (hash_alloc h) (\<lambda>ok h.
       if ok then (let old_dsize = dsize (hctl h)
                   in (Inr True, upd_hctl (\<lambda>c. c\<lparr>dsize := 2 * old_dsize\<rparr>) (h\<lparr>dir := dir h @ replicate old_dsize None\<rparr>)))
       else (Inr False, h)))"

text \<open>The elements of a new block are linked in front of the free list, the last one first. The number of elements is positive at every call.\<close>

definition element_alloc :: "nat \<Rightarrow> nat \<Rightarrow> ('k, 'v) HTAB \<Rightarrow> (bool, 'k, 'v) htab_result" where
  "element_alloc nelem freelist_idx h =
    (if isfixed h then (Inr False, h)
     else hash_bind (hash_alloc h) (\<lambda>ok h.
       if ok then
         (Inr True, upd_freeList freelist_idx (\<lambda>f. f\<lparr>free_elems := rev [next_elem h ..< next_elem h + nelem] @ free_elems f\<rparr>)
            (h\<lparr>next_elem := next_elem h + nelem\<rparr>))
       else (Inr False, h)))"

subsection \<open>Active scans\<close>

text \<open>
  The tables that the thread scans, with the nesting level of the transaction in which each scan began. The arrays have
  \<^verbatim>\<open>MAX_SEQ_SCANS\<close> entries, the first \<open>num_seq_scans\<close> of them are in use.
\<close>

record dynahash_context =
  seq_scan_tables :: "nat list"
  seq_scan_level :: "nat list"
  num_seq_scans :: nat

definition has_seq_scans :: "dynahash_context \<Rightarrow> ('k, 'v) HTAB \<Rightarrow> bool" where
  "has_seq_scans cxt hashp \<longleftrightarrow> (\<exists>i \<in> set [0..<num_seq_scans cxt]. seq_scan_tables cxt ! i = htab_id hashp)"

definition register_seq_scan :: "dynahash_context \<Rightarrow> nat \<Rightarrow> ('k, 'v) HTAB \<Rightarrow> dynahash_context result" where
  "register_seq_scan cxt nest_level hashp =
    (let n = num_seq_scans cxt
     in if n \<ge> MAX_SEQ_SCANS then Inl (Ereport ERROR ERRCODE_CHECK_VIOLATION)
        else Inr \<lparr>seq_scan_tables = (seq_scan_tables cxt)[n := htab_id hashp],
                  seq_scan_level = (seq_scan_level cxt)[n := nest_level], num_seq_scans = n + 1\<rparr>)"

text \<open>An entry is removed by moving the last one into its place.\<close>

definition drop_scan :: "nat \<Rightarrow> dynahash_context \<Rightarrow> dynahash_context" where
  "drop_scan i cxt =
    (let l = num_seq_scans cxt - 1
     in \<lparr>seq_scan_tables = (seq_scan_tables cxt)[i := seq_scan_tables cxt ! l],
         seq_scan_level = (seq_scan_level cxt)[i := seq_scan_level cxt ! l], num_seq_scans = l\<rparr>)"

text \<open>The loops run down from the entry before \<open>i\<close>.\<close>

fun deregister_loop :: "nat \<Rightarrow> nat \<Rightarrow> dynahash_context \<Rightarrow> dynahash_context result" where
  "deregister_loop tab 0 cxt = Inl (Ereport ERROR ERRCODE_CHECK_VIOLATION)"
| "deregister_loop tab (Suc i) cxt =
    (if seq_scan_tables cxt ! i = tab then Inr (drop_scan i cxt) else deregister_loop tab i cxt)"

definition deregister_seq_scan :: "dynahash_context \<Rightarrow> ('k, 'v) HTAB \<Rightarrow> dynahash_context result" where
  "deregister_seq_scan cxt hashp = deregister_loop (htab_id hashp) (num_seq_scans cxt) cxt"

definition release_all_seq_scan :: "dynahash_context \<Rightarrow> dynahash_context" where
  "release_all_seq_scan cxt = cxt\<lparr>num_seq_scans := 0\<rparr>"

definition AtEOXact_HashTables :: "dynahash_context \<Rightarrow> dynahash_context" where
  "AtEOXact_HashTables cxt = cxt\<lparr>num_seq_scans := 0\<rparr>"

fun end_subxact_loop :: "nat \<Rightarrow> nat \<Rightarrow> dynahash_context \<Rightarrow> dynahash_context" where
  "end_subxact_loop nest_depth 0 cxt = cxt"
| "end_subxact_loop nest_depth (Suc i) cxt =
    end_subxact_loop nest_depth i (if nest_depth \<le> seq_scan_level cxt ! i then drop_scan i cxt else cxt)"

definition AtEOSubXact_HashTables :: "dynahash_context \<Rightarrow> nat \<Rightarrow> dynahash_context" where
  "AtEOSubXact_HashTables cxt nest_depth = end_subxact_loop nest_depth (num_seq_scans cxt) cxt"

definition hash_freeze :: "dynahash_context \<Rightarrow> ('k, 'v) HTAB \<Rightarrow> (unit, 'k, 'v) htab_result" where
  "hash_freeze cxt h =
    (if isshared h then (Inl (Ereport ERROR ERRCODE_INVALID_OPERATION), h)
     else if \<not> frozen h \<and> has_seq_scans cxt h then (Inl (Ereport ERROR ERRCODE_INVALID_OPERATION), h)
     else (Inr (), h\<lparr>frozen := True\<rparr>))"

subsection \<open>Searching\<close>

definition get_hash_value :: "('k, 'v) HTAB \<Rightarrow> 'k \<Rightarrow> uint32" where
  "get_hash_value h key = hash h key"

definition calc_bucket :: "HASHHDR \<Rightarrow> uint32 \<Rightarrow> nat" where
  "calc_bucket c hash_val =
    (let bucket = unat hash_val AND high_mask c
     in if bucket > max_bucket c then bucket AND low_mask c else bucket)"

definition hash_corrupted :: "('k, 'v) HTAB \<Rightarrow> pg_error" where
  "hash_corrupted h = Ereport (if isshared h then PANIC else FATAL) ERRCODE_DATA_CORRUPTED"

text \<open>The walk along a chain: the elements before the one that matches, and the chain from there.\<close>

fun follow_chain :: "('k, 'v) HTAB \<Rightarrow> 'k \<Rightarrow> uint32 \<Rightarrow> nat list \<Rightarrow> nat list \<times> nat list" where
  "follow_chain h key hv [] = ([], [])"
| "follow_chain h key hv (a # chain) =
    (if hashvalue (elems h a) = hv \<and> match h (ekey (elems h a)) key then ([], a # chain)
     else (let (prev, rest) = follow_chain h key hv chain in (a # prev, rest)))"

text \<open>
  Splitting a bucket: the records whose bucket is still the old one stay, the others move to the new chain,
  both in the order they had.
\<close>

fun split_chain :: "('k, 'v) HTAB \<Rightarrow> nat \<Rightarrow> nat list \<Rightarrow> nat list \<times> nat list" where
  "split_chain h old_bucket [] = ([], [])"
| "split_chain h old_bucket (a # chain) =
    (let (old, new) = split_chain h old_bucket chain
     in if calc_bucket (hctl h) (hashvalue (elems h a)) = old_bucket then (a # old, new) else (old, a # new))"

text \<open>The part of \<open>expand_table\<close> after the new bucket has its place.\<close>

definition split_bucket :: "('k, 'v) HTAB \<Rightarrow> ('k, 'v) HTAB" where
  "split_bucket h =
    (let new_bucket = max_bucket (hctl h) + 1;
         old_bucket = new_bucket AND low_mask (hctl h);
         h = upd_hctl (\<lambda>c. c\<lparr>max_bucket := new_bucket\<rparr>) h;
         h = (if new_bucket > high_mask (hctl h) then
                upd_hctl (\<lambda>c. c\<lparr>low_mask := high_mask c, high_mask := new_bucket OR high_mask c\<rparr>) h else h);
         (old, new) = split_chain h old_bucket (bucket_chain h old_bucket)
     in put_chain new_bucket new (put_chain old_bucket old h))"

definition expand_table :: "('k, 'v) HTAB \<Rightarrow> (bool, 'k, 'v) htab_result" where
  "expand_table h =
    (let new_segnum = drop_bit (sshift (hctl h)) (max_bucket (hctl h) + 1)
     in if new_segnum \<ge> nsegs (hctl h) then
          hash_bind (if new_segnum \<ge> dsize (hctl h) then dir_realloc h else (Inr True, h)) (\<lambda>ok h.
            if \<not> ok then (Inr False, h)
            else hash_bind (seg_alloc h) (\<lambda>seg h.
              let h = h\<lparr>dir := (dir h)[new_segnum := seg]\<rparr>
              in if seg = None then (Inr False, h)
                 else (Inr True, split_bucket (upd_hctl (\<lambda>c. c\<lparr>nsegs := nsegs c + 1\<rparr>) h))))
        else (Inr True, split_bucket h))"

text \<open>Taking the first element of a free list; the element counts for the list of its hash value, also when it was borrowed from another list.\<close>

definition bump_nentries :: "nat \<Rightarrow> ('k, 'v) HTAB \<Rightarrow> ('k, 'v) HTAB" where
  "bump_nentries i = upd_freeList i (\<lambda>f. f\<lparr>nentries := nentries f + 1\<rparr>)"

definition pop_free :: "nat \<Rightarrow> ('k, 'v) HTAB \<Rightarrow> ('k, 'v) HTAB" where
  "pop_free i = upd_freeList i (\<lambda>f. f\<lparr>free_elems := tl (free_elems f)\<rparr>)"

text \<open>The loop over the other free lists; its first argument bounds the number of lists still to be visited.\<close>

fun borrow_loop :: "nat \<Rightarrow> nat \<Rightarrow> nat \<Rightarrow> ('k, 'v) HTAB \<Rightarrow> nat option \<times> ('k, 'v) HTAB" where
  "borrow_loop 0 freelist_idx from h = (None, h)"
| "borrow_loop (Suc n) freelist_idx from h =
    (let from = (from + 1) mod NUM_FREELISTS
     in if from = freelist_idx then (None, h)
        else (case free_elems (freeList (hctl h) ! from) of
            a # _ \<Rightarrow> (Some a, bump_nentries freelist_idx (pop_free from h))
          | [] \<Rightarrow> borrow_loop n freelist_idx from h))"

text \<open>After a successful allocation the free list is not empty, so that the outer loop runs at most twice.\<close>

definition get_hash_entry :: "nat \<Rightarrow> ('k, 'v) HTAB \<Rightarrow> (nat option, 'k, 'v) htab_result" where
  "get_hash_entry freelist_idx h =
    (case free_elems (freeList (hctl h) ! freelist_idx) of
       a # _ \<Rightarrow> (Inr (Some a), bump_nentries freelist_idx (pop_free freelist_idx h))
     | [] \<Rightarrow> hash_bind (element_alloc (nelem_alloc (hctl h)) freelist_idx h) (\<lambda>ok h.
         if ok then (Inr (Some (hd (free_elems (freeList (hctl h) ! freelist_idx)))),
                     bump_nentries freelist_idx (pop_free freelist_idx h))
         else if \<not> IS_PARTITIONED (hctl h) then (Inr None, h)
         else (let (r, h) = borrow_loop NUM_FREELISTS freelist_idx freelist_idx h in (Inr r, h))))"

text \<open>Unlinking an element and putting it at the head of its free list.\<close>

definition free_entry :: "nat \<Rightarrow> nat \<Rightarrow> ('k, 'v) HTAB \<Rightarrow> ('k, 'v) HTAB" where
  "free_entry freelist_idx a = upd_freeList freelist_idx (\<lambda>f. f\<lparr>nentries := nentries f - 1, free_elems := a # free_elems f\<rparr>)"

text \<open>
  The lookup and the action, after the table was expanded if need be. The result is the element, if any, with the value of
  \<^verbatim>\<open>*foundPtr\<close>.
\<close>

definition search_action ::
  "nat \<Rightarrow> 'k \<Rightarrow> uint32 \<Rightarrow> HASHACTION \<Rightarrow> ('k, 'v) HTAB \<Rightarrow> (nat option \<times> bool, 'k, 'v) htab_result" where
  "search_action freelist_idx key hv action h =
    (let bucket = calc_bucket (hctl h) hv
     in if dir h ! drop_bit (sshift (hctl h)) bucket = None then (Inl (hash_corrupted h), h)
        else let (prev, rest) = follow_chain h key hv (bucket_chain h bucket); found = (rest \<noteq> [])
        in case action of
             HASH_FIND \<Rightarrow> (Inr (if found then Some (hd rest) else None, found), h)
           | HASH_REMOVE \<Rightarrow>
               (if found then
                  (Inr (Some (hd rest), True), free_entry freelist_idx (hd rest) (put_chain bucket (prev @ tl rest) h))
                else (Inr (None, False), h))
           | _ \<Rightarrow>
               (if found then (Inr (Some (hd rest), True), h)
                else if frozen h then
                  (if alloc h = DynaHashAllocNoExcept then (Inr (None, False), h)
                   else (Inl (Ereport ERROR ERRCODE_INVALID_OPERATION), h))
                else hash_bind (get_hash_entry freelist_idx h) (\<lambda>r h.
                  case r of
                    None \<Rightarrow>
                      (if action = HASH_ENTER_NULL \<or> alloc h = DynaHashAllocNoExcept then (Inr (None, False), h)
                       else (Inl OUT_OF_MEMORY, h))
                  | Some a \<Rightarrow>
                      (Inr (Some a, False),
                       (put_chain bucket (prev @ [a]) h)
                         \<lparr>elems := (elems h)(a := (elems h a)\<lparr>hashvalue := hv, ekey := keycopy h key\<rparr>)\<rparr>))))"

definition hash_search_with_hash_value ::
  "dynahash_context \<Rightarrow> ('k, 'v) HTAB \<Rightarrow> 'k \<Rightarrow> uint32 \<Rightarrow> HASHACTION \<Rightarrow> (nat option \<times> bool, 'k, 'v) htab_result" where
  "hash_search_with_hash_value cxt hashp key hv action =
    (let freelist_idx = FREELIST_IDX (hctl hashp) hv
     in hash_bind
      (if (action = HASH_ENTER \<or> action = HASH_ENTER_NULL) \<and> \<not> IS_PARTITIONED (hctl hashp) \<and> \<not> frozen hashp \<and>
          nentries (freeList (hctl hashp) ! 0) div int (max_bucket (hctl hashp) + 1) \<ge> int (ffactor (hctl hashp)) \<and>
          \<not> has_seq_scans cxt hashp
       then expand_table hashp else (Inr True, hashp))
      (\<lambda>_. search_action freelist_idx key hv action))"

definition hash_search ::
  "dynahash_context \<Rightarrow> ('k, 'v) HTAB \<Rightarrow> 'k \<Rightarrow> HASHACTION \<Rightarrow> (nat option \<times> bool, 'k, 'v) htab_result" where
  "hash_search cxt hashp key action = hash_search_with_hash_value cxt hashp key (hash hashp key) action"

definition hash_get_num_entries :: "('k, 'v) HTAB \<Rightarrow> int" where
  "hash_get_num_entries h =
    (let sum = nentries (freeList (hctl h) ! 0)
     in if \<not> IS_PARTITIONED (hctl h) then sum
        else sum + sum_list (map (\<lambda>i. nentries (freeList (hctl h) ! i)) [1..<NUM_FREELISTS]))"

text \<open>What the caller does with the element it gets: it writes the data part.\<close>

definition write_data :: "nat \<Rightarrow> 'v \<Rightarrow> ('k, 'v) HTAB \<Rightarrow> ('k, 'v) HTAB" where
  "write_data a v h = h\<lparr>elems := (elems h)(a := (elems h a)\<lparr>edata := v\<rparr>)\<rparr>"

end
