(* ===== verification/DynaHashInv.thy ===== *)
theory DynaHashInv
  imports DynaHash
begin

text \<open>
  The invariant of a dynamic hash table and what its building blocks keep of it: updates of a chain through the directory, the free lists,
  allocation, and the split of a bucket.
\<close>

subsection \<open>The invariant\<close>

text \<open>
  What a table asks of its functions on keys: matching is an equivalence that hashing and copying respect.
\<close>

locale hash_keys =
  fixes hf :: "'k \<Rightarrow> uint32" and mf :: "'k \<Rightarrow> 'k \<Rightarrow> bool" and kf :: "'k \<Rightarrow> 'k"
  assumes match_refl: "mf k k"
    and match_sym: "mf a b \<Longrightarrow> mf b a"
    and match_trans: "mf a b \<Longrightarrow> mf b c \<Longrightarrow> mf a c"
    and match_hash: "mf a b \<Longrightarrow> hf a = hf b"
    and keycopy_match: "mf (kf k) k"
begin

lemma match_cong: "mf a b \<Longrightarrow> mf c a \<longleftrightarrow> mf c b"
  using match_sym match_trans by blast

lemma match_left_cong: "mf a b \<Longrightarrow> mf a c \<longleftrightarrow> mf b c"
  using match_sym match_trans by blast

lemma hash_keycopy: "hf (kf k) = hf k"
  by (rule match_hash [OF keycopy_match])

lemma keycopy_match_iff: "mf (kf k) c \<longleftrightarrow> mf k c" "mf c (kf k) \<longleftrightarrow> mf c k"
  using match_left_cong [OF keycopy_match] match_cong [OF keycopy_match] by auto

end

abbreviation keys_ok :: "('k, 'v) HTAB \<Rightarrow> bool" where
  "keys_ok h \<equiv> hash_keys (hash h) (match h) (keycopy h)"

definition dir_ok :: "('k, 'v) HTAB \<Rightarrow> bool" where
  "dir_ok h \<longleftrightarrow> ssize (hctl h) = 2 ^ sshift (hctl h) \<and> dsize (hctl h) = length (dir h) \<and> nsegs (hctl h) \<le> length (dir h) \<and>
    (\<forall>i < nsegs (hctl h). \<exists>s. dir h ! i = Some s \<and> length s = ssize (hctl h)) \<and>
    max_bucket (hctl h) div ssize (hctl h) < nsegs (hctl h)"

definition mask_ok :: "HASHHDR \<Rightarrow> bool" where
  "mask_ok c \<longleftrightarrow> (\<exists>k. low_mask c = mask k \<and> high_mask c = mask (Suc k)) \<and> low_mask c \<le> max_bucket c \<and> max_bucket c \<le> high_mask c"

text \<open>All elements of the table in the order of their buckets, and all free elements.\<close>

definition table_elems :: "('k, 'v) HTAB \<Rightarrow> nat list" where
  "table_elems h = concat (map (bucket_chain h) [0..<Suc (max_bucket (hctl h))])"

definition free_all :: "('k, 'v) HTAB \<Rightarrow> nat list" where
  "free_all h = concat (map free_elems (freeList (hctl h)))"

definition entries_ok :: "('k, 'v) HTAB \<Rightarrow> bool" where
  "entries_ok h \<longleftrightarrow> (\<forall>b \<le> max_bucket (hctl h). \<forall>a \<in> set (bucket_chain h b).
     calc_bucket (hctl h) (hashvalue (elems h a)) = b \<and> hashvalue (elems h a) = hash h (ekey (elems h a)))"

definition keys_distinct :: "('k, 'v) HTAB \<Rightarrow> bool" where
  "keys_distinct h \<longleftrightarrow> (\<forall>a \<in> set (table_elems h). \<forall>a' \<in> set (table_elems h). match h (ekey (elems h a)) (ekey (elems h a')) \<longrightarrow> a = a')"

definition entries_of :: "('k, 'v) HTAB \<Rightarrow> nat \<Rightarrow> nat list" where
  "entries_of h i = filter (\<lambda>a. FREELIST_IDX (hctl h) (hashvalue (elems h a)) = i) (table_elems h)"

definition counts_ok :: "(nat \<Rightarrow> int) \<Rightarrow> ('k, 'v) HTAB \<Rightarrow> bool" where
  "counts_ok D h \<longleftrightarrow> length (freeList (hctl h)) = NUM_FREELISTS \<and>
    (\<forall>i < NUM_FREELISTS. nentries (freeList (hctl h) ! i) = int (length (entries_of h i)) + D i)"

text \<open>
  While an operation holds the elements \<open>A\<close>, which are neither in the table nor free, and has counted \<open>D i\<close> entries of list \<open>i\<close>
  that are not in the table. Between operations nothing is held. Every element ever allocated is in the table or free, once.
\<close>

definition htab_inv :: "nat multiset \<Rightarrow> (nat \<Rightarrow> int) \<Rightarrow> ('k, 'v) HTAB \<Rightarrow> bool" where
  "htab_inv A D h \<longleftrightarrow> keys_ok h \<and> dir_ok h \<and> mask_ok (hctl h) \<and> 0 < nelem_alloc (hctl h) \<and> entries_ok h \<and> keys_distinct h \<and> counts_ok D h \<and>
    mset (table_elems h) + mset (free_all h) + A = mset [0..<next_elem h] \<and>
    (\<not> IS_PARTITIONED (hctl h) \<longrightarrow> (\<forall>i. 0 < i \<and> i < NUM_FREELISTS \<longrightarrow> free_elems (freeList (hctl h) ! i) = []))"

abbreviation htab_ok :: "('k, 'v) HTAB \<Rightarrow> bool" where
  "htab_ok \<equiv> htab_inv {#} (\<lambda>_. 0)"

subsection \<open>Masks and buckets\<close>

lemma and_mask_mod: "(x::nat) AND mask k = x mod 2 ^ k"
  by (simp add: take_bit_eq_mask [symmetric] take_bit_eq_mod)

lemma mask_less: "(mask k :: nat) < 2 ^ k"
  by (simp add: mask_eq_exp_minus_1)

lemma mask_plus_1: "Suc (mask k) = 2 ^ k"
  by (simp add: mask_eq_exp_minus_1)

lemma MOD_pow2: "MOD b (2 ^ s) = b mod 2 ^ s"
  unfolding MOD_def mask_eq_exp_minus_1 [symmetric] by (rule and_mask_mod)

lemma mask_okE:
  assumes "mask_ok c"
  obtains k where "low_mask c = mask k" "high_mask c = mask (Suc k)" "mask k \<le> max_bucket c" "max_bucket c \<le> mask (Suc k)"
  using assms by (auto simp: mask_ok_def)

lemma calc_bucket_mod:
  assumes "low_mask c = mask k" "high_mask c = mask (Suc k)"
  shows "calc_bucket c hv = (if unat hv mod 2 ^ Suc k > max_bucket c then unat hv mod 2 ^ k else unat hv mod 2 ^ Suc k)"
proof -
  have "unat hv mod 2 ^ Suc k mod 2 ^ k = unat hv mod 2 ^ k" by (rule mod_mod_cancel) simp
  then show ?thesis unfolding calc_bucket_def Let_def assms and_mask_mod by simp
qed

lemma calc_bucket_le:
  assumes "mask_ok c"
  shows "calc_bucket c hv \<le> max_bucket c"
  using assms
proof (rule mask_okE)
  fix k assume k: "low_mask c = mask k" "high_mask c = mask (Suc k)" "mask k \<le> max_bucket c"
  have "unat hv mod 2 ^ k < Suc (mask k)" unfolding mask_plus_1 by simp
  then show ?thesis using k by (auto simp: calc_bucket_mod)
qed

text \<open>The header after a split.\<close>

definition next_masks :: "HASHHDR \<Rightarrow> HASHHDR" where
  "next_masks c =
    (let c' = c\<lparr>max_bucket := max_bucket c + 1\<rparr>
     in if max_bucket c + 1 > high_mask c then c'\<lparr>low_mask := high_mask c, high_mask := (max_bucket c + 1) OR high_mask c\<rparr> else c')"

lemma or_mask_pow2: "(2 ^ k :: nat) OR mask k = mask (Suc k)"
  by (simp add: mask_Suc_exp)

lemma max_bucket_next_masks [simp]: "max_bucket (next_masks c) = Suc (max_bucket c)"
  by (simp add: next_masks_def Let_def)

lemma masks_grow:
  assumes "high_mask c = mask (Suc k)" "max_bucket c \<le> mask (Suc k)" "Suc (max_bucket c) > high_mask c"
  shows "Suc (max_bucket c) = 2 ^ Suc k" "low_mask (next_masks c) = mask (Suc k)" "high_mask (next_masks c) = mask (Suc (Suc k))"
proof -
  show m: "Suc (max_bucket c) = 2 ^ Suc k" using assms mask_plus_1 [of "Suc k"] by linarith
  show "low_mask (next_masks c) = mask (Suc k)" "high_mask (next_masks c) = mask (Suc (Suc k))"
    using assms(1,3) by (simp_all add: next_masks_def Let_def m or_mask_pow2 [of "Suc k", simplified])
qed

lemma masks_stay:
  assumes "\<not> Suc (max_bucket c) > high_mask c"
  shows "low_mask (next_masks c) = low_mask c" "high_mask (next_masks c) = high_mask c"
  using assms by (simp_all add: next_masks_def Let_def)

lemma mask_ok_next:
  assumes "mask_ok c"
  shows "mask_ok (next_masks c)"
  using assms
proof (rule mask_okE)
  fix k assume k: "low_mask c = mask k" "high_mask c = mask (Suc k)" "mask k \<le> max_bucket c" "max_bucket c \<le> mask (Suc k)"
  show ?thesis
  proof (cases "Suc (max_bucket c) > high_mask c")
    case True
    note g = masks_grow [OF k(2,4) True]
    have "(2::nat) ^ Suc k \<le> mask (Suc (Suc k))" by (simp add: mask_eq_exp_minus_1)
    then show ?thesis using g mask_less [of "Suc k"]
      by (simp add: mask_ok_def) blast
  next
    case False
    then show ?thesis using k masks_stay [OF False] by (auto simp: mask_ok_def)
  qed
qed

text \<open>After a split a hash value has its old bucket, unless that is the one that was split.\<close>

lemma calc_bucket_next:
  assumes "mask_ok c"
  shows "calc_bucket (next_masks c) hv = calc_bucket c hv \<or>
    calc_bucket (next_masks c) hv = Suc (max_bucket c) \<and> calc_bucket c hv = Suc (max_bucket c) AND low_mask c"
  using assms
proof (rule mask_okE)
  fix k assume k: "low_mask c = mask k" "high_mask c = mask (Suc k)" "mask k \<le> max_bucket c" "max_bucket c \<le> mask (Suc k)"
  let ?x = "unat hv"
  show ?thesis
  proof (cases "Suc (max_bucket c) > high_mask c")
    case True
    note g = masks_grow [OF k(2,4) True]
    have "?x mod 2 ^ Suc k < 2 ^ Suc k" by simp
    then have "\<not> max_bucket c < ?x mod 2 ^ Suc k" using g(1) by linarith
    then have old: "calc_bucket c hv = ?x mod 2 ^ Suc k"
      by (simp only: calc_bucket_mod [OF k(1,2)] if_False)
    have new: "calc_bucket (next_masks c) hv = (if ?x mod 2 ^ Suc (Suc k) > 2 ^ Suc k then ?x mod 2 ^ Suc k else ?x mod 2 ^ Suc (Suc k))"
      unfolding calc_bucket_mod [OF g(2,3)] by (simp only: max_bucket_next_masks g(1))
    have mm: "?x mod 2 ^ Suc (Suc k) mod 2 ^ Suc k = ?x mod 2 ^ Suc k" by (rule mod_mod_cancel) simp
    have z: "Suc (max_bucket c) AND low_mask c = 0" unfolding g(1) k(1) and_mask_mod by simp
    show ?thesis
    proof (cases "?x mod 2 ^ Suc (Suc k)" "(2::nat) ^ Suc k" rule: linorder_cases)
      case less
      then have "?x mod 2 ^ Suc (Suc k) = ?x mod 2 ^ Suc k" using mm by (metis mod_less)
      then show ?thesis using new old by presburger
    next
      case equal
      then have "?x mod 2 ^ Suc k = 0" using mm by (metis mod_self)
      then show ?thesis using equal new old z g(1) by simp
    next
      case greater
      then show ?thesis using new old by presburger
    qed
  next
    case False
    note s = masks_stay [OF False]
    show ?thesis unfolding calc_bucket_mod [OF k(1,2)] calc_bucket_mod [OF s [unfolded k]] max_bucket_next_masks k(1) and_mask_mod
    proof (cases "?x mod 2 ^ Suc k = Suc (max_bucket c)")
      case True
      have "?x mod 2 ^ Suc k mod 2 ^ k = ?x mod 2 ^ k" by (rule mod_mod_cancel) simp
      then show "(if ?x mod 2 ^ Suc k > Suc (max_bucket c) then ?x mod 2 ^ k else ?x mod 2 ^ Suc k) =
          (if ?x mod 2 ^ Suc k > max_bucket c then ?x mod 2 ^ k else ?x mod 2 ^ Suc k) \<or>
        (if ?x mod 2 ^ Suc k > Suc (max_bucket c) then ?x mod 2 ^ k else ?x mod 2 ^ Suc k) = Suc (max_bucket c) \<and>
          (if ?x mod 2 ^ Suc k > max_bucket c then ?x mod 2 ^ k else ?x mod 2 ^ Suc k) = Suc (max_bucket c) mod 2 ^ k"
        unfolding True by simp
    qed auto
  qed
qed

subsection \<open>Updates through the directory\<close>

lemma dir_okD:
  assumes "dir_ok h"
  shows "ssize (hctl h) = 2 ^ sshift (hctl h)" "dsize (hctl h) = length (dir h)" "nsegs (hctl h) \<le> length (dir h)"
    "max_bucket (hctl h) div 2 ^ sshift (hctl h) < nsegs (hctl h)"
    "i < nsegs (hctl h) \<Longrightarrow> \<exists>s. dir h ! i = Some s \<and> length s = 2 ^ sshift (hctl h)"
  using assms by (auto simp: dir_ok_def)

lemma dir_ok_seg:
  assumes "dir_ok h" "b \<le> max_bucket (hctl h)"
  obtains s where "dir h ! (b div 2 ^ sshift (hctl h)) = Some s" "length s = 2 ^ sshift (hctl h)" "b div 2 ^ sshift (hctl h) < length (dir h)"
proof -
  have "b div 2 ^ sshift (hctl h) \<le> max_bucket (hctl h) div 2 ^ sshift (hctl h)" using assms(2) by (rule div_le_mono)
  then have "b div 2 ^ sshift (hctl h) < nsegs (hctl h)" "nsegs (hctl h) \<le> length (dir h)"
    using assms(1) by (auto simp: dir_ok_def)
  then show ?thesis using that assms(1) by (fastforce simp: dir_ok_def)
qed

lemma put_chain_fields [simp]:
  "hctl (put_chain b c h) = hctl h" "elems (put_chain b c h) = elems h" "hash (put_chain b c h) = hash h" "match (put_chain b c h) = match h"
  "keycopy (put_chain b c h) = keycopy h" "next_elem (put_chain b c h) = next_elem h" "frozen (put_chain b c h) = frozen h"
  "isshared (put_chain b c h) = isshared h" "isfixed (put_chain b c h) = isfixed h" "alloc (put_chain b c h) = alloc h"
  "htab_id (put_chain b c h) = htab_id h" "alloc_ok (put_chain b c h) = alloc_ok h" "nallocs (put_chain b c h) = nallocs h"
  "length (dir (put_chain b c h)) = length (dir h)"
  by (simp_all add: put_chain_def Let_def)

lemma bucket_chain_put:
  assumes ok: "dir_ok h" and b: "b \<le> max_bucket (hctl h)" "b' \<le> max_bucket (hctl h)"
  shows "bucket_chain (put_chain b c h) b' = (if b' = b then c else bucket_chain h b')"
proof -
  let ?s = "sshift (hctl h)"
  have ss: "ssize (hctl h) = 2 ^ ?s" using ok by (simp add: dir_ok_def)
  obtain s where s: "dir h ! (b div 2 ^ ?s) = Some s" "length s = 2 ^ ?s" "b div 2 ^ ?s < length (dir h)"
    using dir_ok_seg [OF ok b(1)] by blast
  have "b' = b" if "b' div 2 ^ ?s = b div 2 ^ ?s" "b' mod 2 ^ ?s = b mod 2 ^ ?s"
    using that by (metis div_mult_mod_eq)
  then show ?thesis using s
    by (auto simp: bucket_chain_def put_chain_def Let_def ss MOD_pow2 drop_bit_eq_div nth_list_update)
qed

lemma dir_ok_put:
  assumes "dir_ok h"
  shows "dir_ok (put_chain b c h)"
proof -
  have "\<exists>s. dir (put_chain b c h) ! i = Some s \<and> length s = ssize (hctl h)" if "i < nsegs (hctl h)" for i
    using assms that by (cases "i = drop_bit (sshift (hctl h)) b") (fastforce simp: dir_ok_def put_chain_def Let_def nth_list_update)+
  then show ?thesis using assms unfolding dir_ok_def by auto
qed

lemma dir_nonempty:
  assumes "dir_ok h" "b \<le> max_bucket (hctl h)"
  shows "dir h ! drop_bit (sshift (hctl h)) b \<noteq> None"
  using dir_ok_seg [OF assms] by (metis drop_bit_eq_div option.distinct(1))

lemma mset_concat_fun_upd:
  assumes "b < n"
  shows "mset (concat (map (f(b := c)) [0..<n])) + mset (f b) = mset (concat (map f [0..<n])) + mset c"
  using assms
proof (induction n)
  case (Suc n)
  show ?case
  proof (cases "b = n")
    case True
    have "map (f(b := c)) [0..<n] = map f [0..<n]" by (rule map_cong) (use True in auto)
    then show ?thesis using True by (simp del: fun_upd_apply) simp
  next
    case False
    then show ?thesis using Suc by simp
  qed
qed simp

lemma table_elems_put:
  assumes "dir_ok h" "b \<le> max_bucket (hctl h)"
  shows "mset (table_elems (put_chain b c h)) + mset (bucket_chain h b) = mset (table_elems h) + mset c"
proof -
  have "map (bucket_chain (put_chain b c h)) [0..<Suc (max_bucket (hctl h))] = map ((bucket_chain h)(b := c)) [0..<Suc (max_bucket (hctl h))]"
    by (rule map_cong) (use bucket_chain_put [OF assms] in auto)
  then show ?thesis using mset_concat_fun_upd [of b "Suc (max_bucket (hctl h))" "bucket_chain h" c] assms(2)
    by (simp only: table_elems_def put_chain_fields)
qed

lemma set_table_elems: "a \<in> set (table_elems h) \<longleftrightarrow> (\<exists>b \<le> max_bucket (hctl h). a \<in> set (bucket_chain h b))"
  unfolding table_elems_def set_concat set_map set_upt by (auto simp: less_Suc_eq_le)

text \<open>Nothing that a chain depends on is changed by the operations on free lists.\<close>

lemma upd_freeList_fields [simp]:
  "dir (upd_freeList i f h) = dir h" "elems (upd_freeList i f h) = elems h" "hash (upd_freeList i f h) = hash h"
  "match (upd_freeList i f h) = match h" "keycopy (upd_freeList i f h) = keycopy h" "next_elem (upd_freeList i f h) = next_elem h"
  "frozen (upd_freeList i f h) = frozen h" "isshared (upd_freeList i f h) = isshared h" "isfixed (upd_freeList i f h) = isfixed h"
  "alloc (upd_freeList i f h) = alloc h" "htab_id (upd_freeList i f h) = htab_id h" "alloc_ok (upd_freeList i f h) = alloc_ok h"
  "nallocs (upd_freeList i f h) = nallocs h"
  "hctl (upd_freeList i f h) = (hctl h)\<lparr>freeList := (freeList (hctl h))[i := f (freeList (hctl h) ! i)]\<rparr>"
  by (simp_all add: upd_freeList_def upd_hctl_def)

lemma bucket_chain_cong:
  assumes "dir h = dir h'" "sshift (hctl h) = sshift (hctl h')" "ssize (hctl h) = ssize (hctl h')"
  shows "bucket_chain h = bucket_chain h'"
  using assms by (simp add: bucket_chain_def fun_eq_iff)

lemma calc_bucket_freeList [simp]: "calc_bucket (c\<lparr>freeList := fl\<rparr>) = calc_bucket c"
  by (simp add: calc_bucket_def Let_def fun_eq_iff)

lemma FREELIST_IDX_freeList [simp]: "FREELIST_IDX (c\<lparr>freeList := fl\<rparr>) = FREELIST_IDX c"
  by (simp add: FREELIST_IDX_def IS_PARTITIONED_def fun_eq_iff)

lemma FREELIST_IDX_less: "FREELIST_IDX c hv < NUM_FREELISTS"
  by (simp add: FREELIST_IDX_def NUM_FREELISTS_def)

text \<open>Two tables that differ only in the free lists and in the allocator.\<close>

definition same_table :: "('k, 'v) HTAB \<Rightarrow> ('k, 'v) HTAB \<Rightarrow> bool" where
  "same_table h h' \<longleftrightarrow>
    h' = h\<lparr>hctl := (hctl h)\<lparr>freeList := freeList (hctl h')\<rparr>, nallocs := nallocs h', next_elem := next_elem h'\<rparr>"

lemma same_table_refl [simp]: "same_table h h"
  by (simp add: same_table_def)

lemma same_table_eq:
  assumes "same_table h h'"
  shows "dir h' = dir h" "elems h' = elems h" "hash h' = hash h" "match h' = match h" "keycopy h' = keycopy h"
    "hctl h' = (hctl h)\<lparr>freeList := freeList (hctl h')\<rparr>" "alloc h' = alloc h" "frozen h' = frozen h" "isshared h' = isshared h"
    "isfixed h' = isfixed h" "htab_id h' = htab_id h" "alloc_ok h' = alloc_ok h"
proof -
  let ?g = "h\<lparr>hctl := (hctl h)\<lparr>freeList := freeList (hctl h')\<rparr>, nallocs := nallocs h', next_elem := next_elem h'\<rparr>"
  have eq: "h' = ?g" using assms by (simp add: same_table_def)
  show "dir h' = dir h" "elems h' = elems h" "hash h' = hash h" "match h' = match h" "keycopy h' = keycopy h"
    "hctl h' = (hctl h)\<lparr>freeList := freeList (hctl h')\<rparr>" "alloc h' = alloc h" "frozen h' = frozen h" "isshared h' = isshared h"
    "isfixed h' = isfixed h" "htab_id h' = htab_id h" "alloc_ok h' = alloc_ok h"
    by (subst eq, simp)+
qed

lemma same_table_hctl:
  assumes "same_table h h'"
  shows "max_bucket (hctl h') = max_bucket (hctl h)" "sshift (hctl h') = sshift (hctl h)" "ssize (hctl h') = ssize (hctl h)"
    "nsegs (hctl h') = nsegs (hctl h)" "dsize (hctl h') = dsize (hctl h)" "low_mask (hctl h') = low_mask (hctl h)"
    "high_mask (hctl h') = high_mask (hctl h)" "nelem_alloc (hctl h') = nelem_alloc (hctl h)" "num_partitions (hctl h') = num_partitions (hctl h)"
    "ffactor (hctl h') = ffactor (hctl h)" "max_dsize (hctl h') = max_dsize (hctl h)"
  by (subst same_table_eq(6) [OF assms], simp)+

lemma same_table_trans:
  assumes "same_table h h'" "same_table h' h''"
  shows "same_table h h''"
proof -
  let ?e = "\<lambda>h' h. h\<lparr>hctl := (hctl h)\<lparr>freeList := freeList (hctl h')\<rparr>, nallocs := nallocs h', next_elem := next_elem h'\<rparr>"
  have "h'' = ?e h'' h'" using assms(2) by (simp add: same_table_def)
  also have "h' = ?e h' h" using assms(1) by (simp add: same_table_def)
  finally show ?thesis by (simp add: same_table_def)
qed

lemma same_table_upd_freeList [simp]: "same_table h (upd_freeList i f h)"
  by (simp add: same_table_def upd_freeList_def upd_hctl_def)

lemma same_table_nallocs [simp]: "same_table h (h\<lparr>nallocs := n\<rparr>)"
  by (simp add: same_table_def)

lemma same_table_next_elem [simp]: "same_table h (h\<lparr>next_elem := n\<rparr>)"
  by (simp add: same_table_def)

lemma same_table_elems:
  assumes "same_table h h'"
  shows "bucket_chain h' = bucket_chain h" "table_elems h' = table_elems h" "entries_of h' = entries_of h"
    "calc_bucket (hctl h') = calc_bucket (hctl h)" "FREELIST_IDX (hctl h') = FREELIST_IDX (hctl h)" "IS_PARTITIONED (hctl h') = IS_PARTITIONED (hctl h)"
proof -
  note eq = same_table_eq [OF assms] and hc = same_table_hctl [OF assms]
  show bc: "bucket_chain h' = bucket_chain h" by (rule bucket_chain_cong) (simp_all add: eq(1) hc)
  show te: "table_elems h' = table_elems h" by (simp only: table_elems_def bc hc)
  show cb: "calc_bucket (hctl h') = calc_bucket (hctl h)" by (simp add: calc_bucket_def Let_def fun_eq_iff hc)
  show fx: "FREELIST_IDX (hctl h') = FREELIST_IDX (hctl h)" by (simp add: FREELIST_IDX_def IS_PARTITIONED_def fun_eq_iff hc)
  show "entries_of h' = entries_of h" by (simp add: entries_of_def fun_eq_iff te fx eq(2))
  show "IS_PARTITIONED (hctl h') = IS_PARTITIONED (hctl h)" by (simp add: IS_PARTITIONED_def hc)
qed

subsection \<open>Free lists\<close>

lemma htab_inv_same_table:
  assumes inv: "htab_inv A D h" and same: "same_table h h'" and len: "length (freeList (hctl h')) = NUM_FREELISTS"
    and cnt: "\<And>i. i < NUM_FREELISTS \<Longrightarrow> nentries (freeList (hctl h') ! i) + D i = nentries (freeList (hctl h) ! i) + D' i"
    and free: "mset (free_all h') + A' + mset [0..<next_elem h] = mset (free_all h) + A + mset [0..<next_elem h']"
    and unp: "\<And>i. \<not> IS_PARTITIONED (hctl h) \<Longrightarrow> 0 < i \<Longrightarrow> i < NUM_FREELISTS \<Longrightarrow> free_elems (freeList (hctl h') ! i) = []"
  shows "htab_inv A' D' h'"
proof -
  note eq = same_table_eq [OF same] and hc = same_table_hctl [OF same] and el = same_table_elems [OF same]
  have "dir_ok h' = dir_ok h" "mask_ok (hctl h') = mask_ok (hctl h)" "entries_ok h' = entries_ok h" "keys_distinct h' = keys_distinct h"
    by (simp_all only: dir_ok_def mask_ok_def entries_ok_def keys_distinct_def eq(1-5) hc el)
  then have "dir_ok h'" "mask_ok (hctl h')" "entries_ok h'" "keys_distinct h'" "keys_ok h'" "0 < nelem_alloc (hctl h')"
    using inv by (simp_all add: htab_inv_def eq(1-5) hc)
  moreover have "counts_ok D' h'"
    using inv len cnt by (fastforce simp: htab_inv_def counts_ok_def el)
  moreover have "mset (table_elems h') + mset (free_all h') + A' = mset [0..<next_elem h']"
  proof -
    have "mset (table_elems h) + mset (free_all h) + A = mset [0..<next_elem h]" using inv by (simp add: htab_inv_def)
    then have "mset (table_elems h) + (mset (free_all h') + A' + mset [0..<next_elem h]) = mset [0..<next_elem h] + mset [0..<next_elem h']"
      by (simp only: free union_assoc [symmetric])
    then have "mset [0..<next_elem h] + (mset (table_elems h) + mset (free_all h') + A') = mset [0..<next_elem h] + mset [0..<next_elem h']"
      by (simp only: ac_simps)
    then show ?thesis by (simp only: add_left_cancel el)
  qed
  ultimately show ?thesis using unp by (simp add: htab_inv_def el)
qed

lemma mset_concat_list_update:
  assumes "i < length xs"
  shows "mset (concat (map f (xs[i := x]))) + mset (f (xs ! i)) = mset (concat (map f xs)) + mset (f x)"
  using assms
proof (induction xs arbitrary: i)
  case (Cons y ys)
  then show ?case by (cases i) (auto simp: ac_simps)
qed simp

lemma free_all_upd:
  assumes "i < length (freeList (hctl h))"
  shows "mset (free_all (upd_freeList i f h)) + mset (free_elems (freeList (hctl h) ! i)) =
    mset (free_all h) + mset (free_elems (f (freeList (hctl h) ! i)))"
  using mset_concat_list_update [OF assms, of free_elems "f (freeList (hctl h) ! i)"] by (simp add: free_all_def)

lemma htab_inv_len: "htab_inv A D h \<Longrightarrow> length (freeList (hctl h)) = NUM_FREELISTS"
  by (simp add: htab_inv_def counts_ok_def)

lemma htab_inv_unp:
  "htab_inv A D h \<Longrightarrow> \<not> IS_PARTITIONED (hctl h) \<Longrightarrow> 0 < i \<Longrightarrow> i < NUM_FREELISTS \<Longrightarrow> free_elems (freeList (hctl h) ! i) = []"
  by (simp add: htab_inv_def)

lemma htab_inv_pop:
  assumes inv: "htab_inv A D h" and i: "i < NUM_FREELISTS" and a: "free_elems (freeList (hctl h) ! i) = a # r"
  shows "htab_inv (add_mset a A) D (pop_free i h)"
proof (rule htab_inv_same_table [OF inv])
  note len = htab_inv_len [OF inv]
  show "mset (free_all (pop_free i h)) + add_mset a A + mset [0..<next_elem h] = mset (free_all h) + A + mset [0..<next_elem (pop_free i h)]"
    using free_all_upd [of i h "\<lambda>f. f\<lparr>free_elems := tl (free_elems f)\<rparr>"] i len a by (simp add: pop_free_def)
  show "nentries (freeList (hctl (pop_free i h)) ! j) + D j = nentries (freeList (hctl h) ! j) + D j" if "j < NUM_FREELISTS" for j
    using i len that by (simp add: pop_free_def nth_list_update)
  show "free_elems (freeList (hctl (pop_free i h)) ! j) = []" if "\<not> IS_PARTITIONED (hctl h)" "0 < j" "j < NUM_FREELISTS" for j
    using htab_inv_unp [OF inv that] i len that by (simp add: pop_free_def nth_list_update)
qed (use inv in \<open>simp_all add: pop_free_def htab_inv_len\<close>)

lemma htab_inv_bump:
  assumes inv: "htab_inv A D h" and i: "i < NUM_FREELISTS"
  shows "htab_inv A (D(i := D i + 1)) (bump_nentries i h)"
proof (rule htab_inv_same_table [OF inv])
  note len = htab_inv_len [OF inv]
  show "mset (free_all (bump_nentries i h)) + A + mset [0..<next_elem h] = mset (free_all h) + A + mset [0..<next_elem (bump_nentries i h)]"
    using free_all_upd [of i h "\<lambda>f. f\<lparr>nentries := nentries f + 1\<rparr>"] i len by (simp add: bump_nentries_def)
  show "nentries (freeList (hctl (bump_nentries i h)) ! j) + D j = nentries (freeList (hctl h) ! j) + (D(i := D i + 1)) j" if "j < NUM_FREELISTS" for j
    using i len that by (simp add: bump_nentries_def nth_list_update)
  show "free_elems (freeList (hctl (bump_nentries i h)) ! j) = []" if "\<not> IS_PARTITIONED (hctl h)" "0 < j" "j < NUM_FREELISTS" for j
    using htab_inv_unp [OF inv that] i len that by (simp add: bump_nentries_def nth_list_update)
qed (use inv in \<open>simp_all add: bump_nentries_def htab_inv_len\<close>)

lemma htab_inv_free_entry:
  assumes inv: "htab_inv (add_mset a A) D h" and i: "i < NUM_FREELISTS" "\<not> IS_PARTITIONED (hctl h) \<longrightarrow> i = 0"
  shows "htab_inv A (D(i := D i - 1)) (free_entry i a h)"
proof (rule htab_inv_same_table [OF inv])
  note len = htab_inv_len [OF inv]
  show "mset (free_all (free_entry i a h)) + A + mset [0..<next_elem h] = mset (free_all h) + add_mset a A + mset [0..<next_elem (free_entry i a h)]"
    using free_all_upd [of i h "\<lambda>f. f\<lparr>nentries := nentries f - 1, free_elems := a # free_elems f\<rparr>"] i len by (simp add: free_entry_def)
  show "nentries (freeList (hctl (free_entry i a h)) ! j) + D j = nentries (freeList (hctl h) ! j) + (D(i := D i - 1)) j" if "j < NUM_FREELISTS" for j
    using i len that by (simp add: free_entry_def nth_list_update)
  show "free_elems (freeList (hctl (free_entry i a h)) ! j) = []" if "\<not> IS_PARTITIONED (hctl h)" "0 < j" "j < NUM_FREELISTS" for j
    using htab_inv_unp [OF inv that] i len that by (simp add: free_entry_def nth_list_update)
qed (use inv in \<open>simp_all add: free_entry_def htab_inv_len\<close>)

subsection \<open>Allocation\<close>

lemma hash_alloc_simps:
  "alloc_ok h (nallocs h) \<Longrightarrow> hash_alloc h = (Inr True, h\<lparr>nallocs := Suc (nallocs h)\<rparr>)"
  "\<not> alloc_ok h (nallocs h) \<Longrightarrow>
    hash_alloc h = (if alloc h = DynaHashAlloc then Inl OUT_OF_MEMORY else Inr False, h\<lparr>nallocs := Suc (nallocs h)\<rparr>)"
  by (simp_all add: hash_alloc_def Let_def)

lemma hash_bind_simps [simp]:
  "hash_bind (Inl e, h) f = (Inl e, h)" "hash_bind (Inr a, h) f = f a h"
  by (simp_all add: hash_bind_def)

lemma htab_inv_nallocs: "htab_inv A D h \<Longrightarrow> htab_inv A D (h\<lparr>nallocs := n\<rparr>)"
  by (rule htab_inv_same_table) (auto simp: htab_inv_len free_all_def intro: htab_inv_unp)

lemma htab_inv_element_alloc:
  assumes inv: "htab_inv A D h" and i: "i < NUM_FREELISTS" "\<not> IS_PARTITIONED (hctl h) \<longrightarrow> i = 0"
    and h': "h' = upd_freeList i (\<lambda>f. f\<lparr>free_elems := rev [next_elem h ..< next_elem h + n] @ free_elems f\<rparr>) (h\<lparr>next_elem := next_elem h + n\<rparr>)"
  shows "htab_inv A D h'" "same_table h h'" "free_elems (freeList (hctl h') ! i) = rev [next_elem h ..< next_elem h + n] @ free_elems (freeList (hctl h) ! i)"
proof -
  note len = htab_inv_len [OF inv]
  let ?g = "h\<lparr>next_elem := next_elem h + n\<rparr>"
  show same: "same_table h h'"
    unfolding h' by (rule same_table_trans [of _ ?g]) simp_all
  show "free_elems (freeList (hctl h') ! i) = rev [next_elem h ..< next_elem h + n] @ free_elems (freeList (hctl h) ! i)"
    using i len by (simp add: h')
  have "mset (free_all h') = mset [next_elem h ..< next_elem h + n] + mset (free_all h)"
    using free_all_upd [of i ?g "\<lambda>f. f\<lparr>free_elems := rev [next_elem h ..< next_elem h + n] @ free_elems f\<rparr>"] i len
    unfolding h' by (simp add: free_all_def del: mset_upt)
  moreover have "mset [0..<next_elem h + n] = mset [0..<next_elem h] + mset [next_elem h ..< next_elem h + n]"
    using upt_add_eq_append [of 0 "next_elem h" n] by (simp del: mset_upt)
  ultimately have free: "mset (free_all h') + A + mset [0..<next_elem h] = mset (free_all h) + A + mset [0..<next_elem h']"
    by (simp add: h' del: mset_upt)
  show "htab_inv A D h'"
  proof (rule htab_inv_same_table [OF inv same _ _ free])
    show "nentries (freeList (hctl h') ! j) + D j = nentries (freeList (hctl h) ! j) + D j" if "j < NUM_FREELISTS" for j
      using i len that by (simp add: h' nth_list_update)
    show "free_elems (freeList (hctl h') ! j) = []" if "\<not> IS_PARTITIONED (hctl h)" "0 < j" "j < NUM_FREELISTS" for j
      using htab_inv_unp [OF inv that] i len that by (simp add: h' nth_list_update)
  qed (simp add: h' len)
qed

text \<open>
  An element taken from a free list is held by the operation and counted for the list of its hash value. If there is none, then the
  allocation failed or was not allowed.
\<close>

lemma take_free_inv:
  assumes inv: "htab_inv A D h" and i: "i < NUM_FREELISTS" and j: "j < NUM_FREELISTS" and a: "free_elems (freeList (hctl h) ! j) = a # r"
  shows "htab_inv (add_mset a A) (D(i := D i + 1)) (bump_nentries i (pop_free j h))" "same_table h (bump_nentries i (pop_free j h))"
proof -
  show "htab_inv (add_mset a A) (D(i := D i + 1)) (bump_nentries i (pop_free j h))"
    by (rule htab_inv_bump [OF htab_inv_pop [OF inv j a] i])
  show "same_table h (bump_nentries i (pop_free j h))"
    by (rule same_table_trans [of _ "pop_free j h"]) (simp_all add: bump_nentries_def pop_free_def)
qed

lemma borrow_loop_Some:
  assumes "htab_inv A D h" "i < NUM_FREELISTS" "borrow_loop n i from h = (Some a, h')"
  shows "htab_inv (add_mset a A) (D(i := D i + 1)) h' \<and> same_table h h'"
  using assms(3)
proof (induction n arbitrary: "from")
  case (Suc n)
  have j: "Suc from mod NUM_FREELISTS < NUM_FREELISTS" by (simp add: NUM_FREELISTS_def)
  show ?case
  proof (cases "free_elems (freeList (hctl h) ! (Suc from mod NUM_FREELISTS))")
    case Nil
    then show ?thesis using Suc by (auto simp: Let_def split: if_splits)
  next
    case (Cons b r)
    then show ?thesis using Suc.prems take_free_inv [OF assms(1,2) j Cons]
      by (auto simp: Let_def simp del: fun_upd_apply split: if_splits)
  qed
qed simp

lemma borrow_loop_None:
  assumes "borrow_loop n i ((i + m) mod NUM_FREELISTS) h = (None, h')" "NUM_FREELISTS \<le> n + m + 1" "m < NUM_FREELISTS" "i < NUM_FREELISTS"
  shows "h' = h \<and> (\<forall>j. m < j \<and> j < NUM_FREELISTS \<longrightarrow> free_elems (freeList (hctl h) ! ((i + j) mod NUM_FREELISTS)) = [])"
  using assms
proof (induction n arbitrary: m)
  case 0
  then show ?case by auto
next
  case (Suc n)
  have s: "Suc ((i + m) mod NUM_FREELISTS) mod NUM_FREELISTS = (i + Suc m) mod NUM_FREELISTS" by (simp add: mod_Suc_eq)
  show ?case
  proof (cases "(i + Suc m) mod NUM_FREELISTS = i")
    case True
    have "Suc m = NUM_FREELISTS"
    proof (rule ccontr)
      assume "Suc m \<noteq> NUM_FREELISTS"
      then have "Suc m < NUM_FREELISTS" using Suc.prems(3) by simp
      then show False using True Suc.prems(4) by (simp add: mod_if split: if_splits)
    qed
    then show ?thesis using Suc.prems(1) True s by (simp add: Let_def) linarith
  next
    case False
    have lt: "Suc m < NUM_FREELISTS"
    proof (rule ccontr)
      assume "\<not> Suc m < NUM_FREELISTS"
      then have "Suc m = NUM_FREELISTS" using Suc.prems(3) by simp
      then show False using False Suc.prems(4) by simp
    qed
    have e: "free_elems (freeList (hctl h) ! ((i + Suc m) mod NUM_FREELISTS)) = []" and
      l: "borrow_loop n i ((i + Suc m) mod NUM_FREELISTS) h = (None, h')"
      using Suc.prems(1) False s by (auto simp: Let_def split: list.splits)
    have "h' = h \<and> (\<forall>j. Suc m < j \<and> j < NUM_FREELISTS \<longrightarrow> free_elems (freeList (hctl h) ! ((i + j) mod NUM_FREELISTS)) = [])"
      by (rule Suc.IH [OF l _ lt Suc.prems(4)]) (use Suc.prems(2) in simp)
    then show ?thesis using e by (metis Suc_lessI)
  qed
qed

lemma free_all_empty_iff: "free_all h = [] \<longleftrightarrow> (\<forall>i < length (freeList (hctl h)). free_elems (freeList (hctl h) ! i) = [])"
  by (auto simp: free_all_def in_set_conv_nth) (metis nth_mem)

lemma borrow_none_free_all:
  assumes inv: "htab_inv A D h" and i: "i < NUM_FREELISTS" and e: "free_elems (freeList (hctl h) ! i) = []"
    and l: "borrow_loop NUM_FREELISTS i i h = (None, h')"
  shows "h' = h" "free_all h = []"
proof -
  have "borrow_loop NUM_FREELISTS i ((i + 0) mod NUM_FREELISTS) h = (None, h')" using l i by simp
  from borrow_loop_None [OF this _ _ i] have none: "h' = h"
    "\<And>j. 0 < j \<Longrightarrow> j < NUM_FREELISTS \<Longrightarrow> free_elems (freeList (hctl h) ! ((i + j) mod NUM_FREELISTS)) = []"
    by (simp_all add: NUM_FREELISTS_def)
  show "h' = h" by (rule none(1))
  have "free_elems (freeList (hctl h) ! k) = []" if "k < NUM_FREELISTS" for k
  proof (cases k i rule: linorder_cases)
    case less
    then have "(i + (NUM_FREELISTS + k - i)) mod NUM_FREELISTS = k" using i that by simp
    moreover have "0 < NUM_FREELISTS + k - i" "NUM_FREELISTS + k - i < NUM_FREELISTS" using less i by auto
    ultimately show ?thesis using none(2) by metis
  next
    case greater
    then have "(i + (k - i)) mod NUM_FREELISTS = k" using that by simp
    then show ?thesis using none(2) [of "k - i"] greater that by simp
  qed (use e in simp)
  then show "free_all h = []" by (simp add: free_all_empty_iff htab_inv_len [OF inv])
qed

lemma get_hash_entry_inv:
  assumes inv: "htab_inv A D h" and i: "i < NUM_FREELISTS" "\<not> IS_PARTITIONED (hctl h) \<longrightarrow> i = 0" and r: "get_hash_entry i h = (r, h')"
  shows "same_table h h' \<and>
    (case r of Inr (Some a) \<Rightarrow> htab_inv (add_mset a A) (D(i := D i + 1)) h'
     | Inr None \<Rightarrow> htab_inv A D h' \<and> free_all h = [] \<and> (isfixed h \<or> \<not> alloc_ok h (nallocs h) \<and> alloc h \<noteq> DynaHashAlloc)
     | Inl e \<Rightarrow> htab_inv A D h' \<and> e = OUT_OF_MEMORY \<and> \<not> isfixed h \<and> \<not> alloc_ok h (nallocs h) \<and> alloc h = DynaHashAlloc)"
proof (cases "free_elems (freeList (hctl h) ! i)")
  case (Cons a rest)
  then have "r = Inr (Some a)" "h' = bump_nentries i (pop_free i h)" using r by (auto simp: get_hash_entry_def)
  then show ?thesis using take_free_inv [OF inv i(1) i(1) Cons] by simp
next
  case Nil
  let ?n = "h\<lparr>nallocs := Suc (nallocs h)\<rparr>"
  have fail: ?thesis if g: "htab_inv A D g" "same_table h g" "freeList (hctl g) = freeList (hctl h)"
      and why: "isfixed h \<or> \<not> alloc_ok h (nallocs h) \<and> alloc h \<noteq> DynaHashAlloc"
      and b: "(if \<not> IS_PARTITIONED (hctl g) then (Inr None, g) else (let (r, h) = borrow_loop NUM_FREELISTS i i g in (Inr r, h))) = (r, h')" for g
  proof (cases "IS_PARTITIONED (hctl g)")
    case False
    have "i = 0" using False i(2) same_table_elems(6) [OF g(2)] by simp
    then have "free_elems (freeList (hctl g) ! k) = []" if "k < NUM_FREELISTS" for k
      using that Nil g(3) htab_inv_unp [OF g(1) False] by (cases k) auto
    then have "free_all g = []" by (simp add: free_all_empty_iff htab_inv_len [OF g(1)])
    then show ?thesis using False b g why by (auto simp: free_all_def)
  next
    case True
    obtain q g' where l: "borrow_loop NUM_FREELISTS i i g = (q, g')" by fastforce
    show ?thesis
    proof (cases q)
      case None
      then have "g' = g" "free_all g = []" using borrow_none_free_all [OF g(1) i(1)] l Nil g(3) by auto
      then show ?thesis using None True b l g why by (auto simp: free_all_def)
    next
      case (Some a)
      then show ?thesis using borrow_loop_Some [OF g(1) i(1)] l True b same_table_trans [OF g(2)] by auto
    qed
  qed
  show ?thesis
  proof (cases "isfixed h")
    case True
    then show ?thesis using fail [OF inv] r Nil by (simp add: get_hash_entry_def element_alloc_def)
  next
    case False
    have n: "htab_inv A D ?n" "same_table h ?n" using inv by (simp_all add: htab_inv_nallocs)
    show ?thesis
    proof (cases "alloc_ok h (nallocs h)")
      case True
      let ?g = "upd_freeList i (\<lambda>f. f\<lparr>free_elems := rev [next_elem ?n ..< next_elem ?n + nelem_alloc (hctl h)] @ free_elems f\<rparr>)
        (?n\<lparr>next_elem := next_elem ?n + nelem_alloc (hctl h)\<rparr>)"
      have i': "\<not> IS_PARTITIONED (hctl ?n) \<longrightarrow> i = 0" using i(2) by simp
      note g = htab_inv_element_alloc [OF n(1) i(1) i' refl, of "nelem_alloc (hctl h)"]
      have "0 < nelem_alloc (hctl h)" using inv by (simp add: htab_inv_def)
      then obtain a rest where a: "free_elems (freeList (hctl ?g) ! i) = a # rest"
        using g(3) by (cases "free_elems (freeList (hctl ?g) ! i)") auto
      have "r = Inr (Some a)" "h' = bump_nentries i (pop_free i ?g)"
        using r a Nil False True by (auto simp: get_hash_entry_def element_alloc_def hash_alloc_simps)
      then show ?thesis using take_free_inv [OF g(1) i(1) i(1) a] same_table_trans [OF n(2) same_table_trans [OF g(2)]] by simp
    next
      case nok: False
      show ?thesis
      proof (cases "alloc h = DynaHashAlloc")
        case True
        then show ?thesis using r Nil False nok n by (auto simp: get_hash_entry_def element_alloc_def hash_alloc_simps)
      next
        case other: False
        then show ?thesis using fail [OF n] r Nil False nok by (simp add: get_hash_entry_def element_alloc_def hash_alloc_simps)
      qed
    qed
  qed
qed

subsection \<open>Chains\<close>

lemma follow_chain_append: "follow_chain h key hv chain = (prev, rest) \<Longrightarrow> chain = prev @ rest"
  by (induction chain arbitrary: prev rest) (auto split: if_splits prod.splits)

lemma follow_chain_hd:
  "follow_chain h key hv chain = (prev, a # rest) \<Longrightarrow> hashvalue (elems h a) = hv \<and> match h (ekey (elems h a)) key"
  by (induction chain arbitrary: prev) (auto split: if_splits prod.splits)

lemma follow_chain_Nil:
  "follow_chain h key hv chain = (prev, []) \<Longrightarrow> a \<in> set chain \<Longrightarrow> \<not> (hashvalue (elems h a) = hv \<and> match h (ekey (elems h a)) key)"
  by (induction chain arbitrary: prev) (auto split: if_splits prod.splits)

lemma htab_invD:
  assumes "htab_inv A D h"
  shows "keys_ok h" "dir_ok h" "mask_ok (hctl h)" "entries_ok h" "keys_distinct h" "counts_ok D h"
    "mset (table_elems h) + mset (free_all h) + A = mset [0..<next_elem h]"
  using assms by (simp_all add: htab_inv_def)

lemma htab_inv_partition:
  assumes "htab_inv A D h"
  obtains held where "mset held = A" "distinct (table_elems h @ free_all h @ held)" "set (table_elems h @ free_all h @ held) = {..<next_elem h}"
proof -
  obtain held where held: "mset held = A" using ex_mset by blast
  then have "mset (table_elems h @ free_all h @ held) = mset [0..<next_elem h]"
    using htab_invD(7) [OF assms] by (simp add: ac_simps)
  then have "distinct (table_elems h @ free_all h @ held)" "set (table_elems h @ free_all h @ held) = {..<next_elem h}"
    using mset_eq_imp_distinct_iff mset_eq_setD by (metis distinct_upt, metis atLeast0LessThan set_upt)
  then show ?thesis using that held by blast
qed

lemma held_not_in_table: "htab_inv (add_mset a A) D h \<Longrightarrow> a \<notin> set (table_elems h) \<and> a < next_elem h"
  by (erule htab_inv_partition) (metis Un_iff disjoint_iff distinct_append lessThan_iff set_append set_mset_mset union_single_eq_member)

lemma distinct_table_elems: "htab_inv A D h \<Longrightarrow> distinct (table_elems h)"
  by (erule htab_inv_partition) simp

text \<open>Linking an element that is held, and taking one out.\<close>

lemma chain_subset: "b \<le> max_bucket (hctl h) \<Longrightarrow> set (bucket_chain h b) \<subseteq> set (table_elems h)"
  by (auto simp: set_table_elems)

lemma entries_okD:
  assumes "entries_ok h" "b \<le> max_bucket (hctl h)" "a \<in> set (bucket_chain h b)"
  shows "calc_bucket (hctl h) (hashvalue (elems h a)) = b" "hashvalue (elems h a) = hash h (ekey (elems h a))"
  using assms unfolding entries_ok_def by blast+

lemma chain_unique:
  assumes "htab_inv A D h" "b \<le> max_bucket (hctl h)" "b' \<le> max_bucket (hctl h)" "a \<in> set (bucket_chain h b)" "a \<in> set (bucket_chain h b')"
  shows "b = b'"
  using entries_okD(1) [OF htab_invD(4) [OF assms(1)] assms(2,4)] entries_okD(1) [OF htab_invD(4) [OF assms(1)] assms(3,5)] by simp

definition link_entry :: "nat \<Rightarrow> nat \<Rightarrow> uint32 \<Rightarrow> 'k \<Rightarrow> ('k, 'v) HTAB \<Rightarrow> ('k, 'v) HTAB" where
  "link_entry b a hv key h =
    (put_chain b (bucket_chain h b @ [a]) h)\<lparr>elems := (elems h)(a := (elems h a)\<lparr>hashvalue := hv, ekey := key\<rparr>)\<rparr>"

lemma link_entry_fields [simp]:
  "hctl (link_entry b a hv key h) = hctl h" "hash (link_entry b a hv key h) = hash h" "match (link_entry b a hv key h) = match h"
  "keycopy (link_entry b a hv key h) = keycopy h" "next_elem (link_entry b a hv key h) = next_elem h" "frozen (link_entry b a hv key h) = frozen h"
  "isshared (link_entry b a hv key h) = isshared h" "isfixed (link_entry b a hv key h) = isfixed h" "alloc (link_entry b a hv key h) = alloc h"
  "htab_id (link_entry b a hv key h) = htab_id h" "alloc_ok (link_entry b a hv key h) = alloc_ok h" "nallocs (link_entry b a hv key h) = nallocs h"
  "elems (link_entry b a hv key h) = (elems h)(a := (elems h a)\<lparr>hashvalue := hv, ekey := key\<rparr>)"
  by (simp_all add: link_entry_def)

lemma link_entry_chains:
  assumes "dir_ok h" "b \<le> max_bucket (hctl h)"
  shows "b' \<le> max_bucket (hctl h) \<Longrightarrow> bucket_chain (link_entry b a hv key h) b' = (if b' = b then bucket_chain h b @ [a] else bucket_chain h b')"
    "mset (table_elems (link_entry b a hv key h)) = add_mset a (mset (table_elems h))"
    "dir_ok (link_entry b a hv key h)"
proof -
  let ?p = "put_chain b (bucket_chain h b @ [a]) h"
  have bc: "bucket_chain (link_entry b a hv key h) = bucket_chain ?p"
    by (rule bucket_chain_cong) (simp_all add: link_entry_def)
  then show "b' \<le> max_bucket (hctl h) \<Longrightarrow> bucket_chain (link_entry b a hv key h) b' = (if b' = b then bucket_chain h b @ [a] else bucket_chain h b')"
    using bucket_chain_put [OF assms] by simp
  have "table_elems (link_entry b a hv key h) = table_elems ?p" by (simp only: table_elems_def bc link_entry_fields put_chain_fields)
  then show "mset (table_elems (link_entry b a hv key h)) = add_mset a (mset (table_elems h))"
    using table_elems_put [OF assms, of "bucket_chain h b @ [a]"] by simp
  have "dir (link_entry b a hv key h) = dir ?p" by (simp add: link_entry_def)
  then have "dir_ok (link_entry b a hv key h) = dir_ok ?p" by (simp only: dir_ok_def link_entry_fields put_chain_fields)
  then show "dir_ok (link_entry b a hv key h)" using dir_ok_put [OF assms(1)] by simp
qed

lemma length_mset_add: "mset xs = X + mset ys \<Longrightarrow> length xs = size X + length ys"
  by (metis size_mset size_union)

lemma entries_of_mset: "mset (entries_of h i) = filter_mset (\<lambda>a. FREELIST_IDX (hctl h) (hashvalue (elems h a)) = i) (mset (table_elems h))"
  by (simp add: entries_of_def)

lemma htab_inv_link:
  assumes inv: "htab_inv (add_mset a A) D h" and b: "b = calc_bucket (hctl h) hv" and hv: "hv = hash h key"
    and new: "\<forall>x \<in> set (table_elems h). \<not> match h (ekey (elems h x)) key" and D': "D' = D(FREELIST_IDX (hctl h) hv := D (FREELIST_IDX (hctl h) hv) - 1)"
  shows "htab_inv A D' (link_entry b a hv key h)"
proof -
  let ?h = "link_entry b a hv key h"
  note i = htab_invD [OF inv] and a = held_not_in_table [OF inv]
  have bm: "b \<le> max_bucket (hctl h)" using calc_bucket_le [OF i(3)] by (simp add: b)
  note l = link_entry_chains [OF i(2) bm, where a = a and hv = hv and key = key]
  have te: "set (table_elems ?h) = insert a (set (table_elems h))" using mset_eq_setD [of "table_elems ?h" "a # table_elems h"] l(2) by simp
  have "entries_ok ?h" unfolding entries_ok_def
  proof (intro allI impI ballI)
    fix b' x assume b': "b' \<le> max_bucket (hctl ?h)" and x: "x \<in> set (bucket_chain ?h b')"
    show "calc_bucket (hctl ?h) (hashvalue (elems ?h x)) = b' \<and> hashvalue (elems ?h x) = hash ?h (ekey (elems ?h x))"
    proof (cases "x = a")
      case True
      then have "b' = b" using x b' l(1) [of b'] a chain_subset [of b' h] by (auto split: if_splits)
      then show ?thesis using True b hv by simp
    next
      case False
      then have "x \<in> set (bucket_chain h b')" using x b' l(1) [of b'] by (auto split: if_splits)
      then have "calc_bucket (hctl h) (hashvalue (elems h x)) = b'" "hashvalue (elems h x) = hash h (ekey (elems h x))"
        using entries_okD [OF i(4)] b' by simp_all
      then show ?thesis using False by (simp only: link_entry_fields fun_upd_apply if_False simp_thms)
    qed
  qed
  moreover have "keys_distinct ?h"
    using i(5) new a hash_keys.match_sym [OF i(1)] by (auto simp: keys_distinct_def te)
  moreover have "counts_ok D' ?h"
  proof -
    have same: "filter_mset (\<lambda>x. FREELIST_IDX (hctl h) (hashvalue (((elems h)(a := (elems h a)\<lparr>hashvalue := hv, ekey := key\<rparr>)) x)) = j) (mset (table_elems h))
      = mset (entries_of h j)" for j
      unfolding entries_of_mset by (rule filter_mset_cong) (use a in auto)
    have "mset (entries_of ?h j) = (if FREELIST_IDX (hctl h) hv = j then {#a#} else {#}) + mset (entries_of h j)" (is "?P j") for j
      unfolding entries_of_mset [of ?h] l(2) using same [of j] by simp
    then have "length (entries_of ?h j) = (if FREELIST_IDX (hctl h) hv = j then 1 else 0) + length (entries_of h j)" for j
      using length_mset_add [OF \<open>?P j\<close>] by simp
    then show ?thesis using i(6) by (simp add: counts_ok_def D')
  qed
  moreover have "mset (table_elems ?h) + mset (free_all ?h) + A = mset [0..<next_elem ?h]"
    using i(7) l(2) by (simp add: free_all_def del: mset_upt)
  ultimately show ?thesis using inv l(3) by (simp add: htab_inv_def del: mset_upt)
qed

lemma htab_inv_unlink:
  assumes inv: "htab_inv A D h" and b: "b \<le> max_bucket (hctl h)" and c: "bucket_chain h b = prev @ a # rest"
    and D': "D' = D(FREELIST_IDX (hctl h) (hashvalue (elems h a)) := D (FREELIST_IDX (hctl h) (hashvalue (elems h a))) + 1)"
  shows "htab_inv (add_mset a A) D' (put_chain b (prev @ rest) h)"
proof -
  let ?h = "put_chain b (prev @ rest) h"
  note i = htab_invD [OF inv]
  have ms: "mset (table_elems h) = add_mset a (mset (table_elems ?h))"
    using table_elems_put [OF i(2) b, of "prev @ rest"] c by simp
  have te: "set (table_elems ?h) \<subseteq> set (table_elems h)"
    using mset_eq_setD [of "table_elems h" "a # table_elems ?h"] ms by auto
  have "set (bucket_chain ?h b') \<subseteq> set (bucket_chain h b')" if "b' \<le> max_bucket (hctl h)" for b'
    using bucket_chain_put [OF i(2) b that, of "prev @ rest"] c by auto
  then have "entries_ok ?h" using i(4) unfolding entries_ok_def put_chain_fields by blast
  moreover have "keys_distinct ?h" using i(5) te unfolding keys_distinct_def put_chain_fields by blast
  moreover have "counts_ok D' ?h"
  proof -
    have "mset (entries_of h j) = (if FREELIST_IDX (hctl h) (hashvalue (elems h a)) = j then {#a#} else {#}) + mset (entries_of ?h j)" (is "?P j") for j
      unfolding entries_of_mset ms by simp
    then have "length (entries_of h j) = (if FREELIST_IDX (hctl h) (hashvalue (elems h a)) = j then 1 else 0) + length (entries_of ?h j)" for j
      using length_mset_add [OF \<open>?P j\<close>] by simp
    then show ?thesis using i(6) by (simp add: counts_ok_def D')
  qed
  moreover have "mset (table_elems ?h) + mset (free_all ?h) + add_mset a A = mset [0..<next_elem ?h]"
    using i(7) ms by (simp add: free_all_def del: mset_upt)
  ultimately show ?thesis using inv dir_ok_put [OF i(2)] by (simp add: htab_inv_def del: mset_upt)
qed

subsection \<open>Splitting a bucket\<close>

text \<open>Tables with the same functions and the same elements, in other buckets maybe.\<close>

definition same_contents :: "('k, 'v) HTAB \<Rightarrow> ('k, 'v) HTAB \<Rightarrow> bool" where
  "same_contents h h' \<longleftrightarrow> hash h' = hash h \<and> match h' = match h \<and> keycopy h' = keycopy h \<and> elems h' = elems h \<and> alloc h' = alloc h \<and>
    frozen h' = frozen h \<and> isshared h' = isshared h \<and> isfixed h' = isfixed h \<and> htab_id h' = htab_id h \<and> alloc_ok h' = alloc_ok h \<and>
    num_partitions (hctl h') = num_partitions (hctl h) \<and> next_elem h' = next_elem h \<and> freeList (hctl h') = freeList (hctl h) \<and>
    mset (table_elems h') = mset (table_elems h)"

lemma same_contents_refl [simp]: "same_contents h h"
  by (simp add: same_contents_def)

lemma same_contents_trans: "same_contents h h' \<Longrightarrow> same_contents h' h'' \<Longrightarrow> same_contents h h''"
  by (simp add: same_contents_def)

lemma htab_inv_same_contents:
  assumes inv: "htab_inv A D h" and same: "same_contents h h'" and ok: "dir_ok h'" "mask_ok (hctl h')" "entries_ok h'" "0 < nelem_alloc (hctl h')"
  shows "htab_inv A D h'"
proof -
  note i = htab_invD [OF inv]
  have te: "set (table_elems h') = set (table_elems h)" using same by (metis mset_eq_setD same_contents_def)
  have p: "IS_PARTITIONED (hctl h') = IS_PARTITIONED (hctl h)" using same by (simp add: IS_PARTITIONED_def same_contents_def)
  have f: "FREELIST_IDX (hctl h') = FREELIST_IDX (hctl h)" by (simp add: FREELIST_IDX_def p fun_eq_iff)
  have "mset (entries_of h' j) = mset (entries_of h j)" for j
    using same by (simp only: entries_of_mset f same_contents_def)
  then have "length (entries_of h' j) = length (entries_of h j)" for j by (rule mset_eq_length)
  then have "counts_ok D h'" using i(6) same by (simp add: counts_ok_def same_contents_def)
  moreover have "keys_distinct h'" using i(5) same unfolding keys_distinct_def te by (simp add: same_contents_def)
  moreover have "free_all h' = free_all h" using same by (simp add: free_all_def same_contents_def)
  ultimately show ?thesis using inv ok same p by (simp add: htab_inv_def same_contents_def del: mset_upt)
qed

lemma split_chain_filter:
  "split_chain h b chain = (filter (\<lambda>a. calc_bucket (hctl h) (hashvalue (elems h a)) = b) chain,
     filter (\<lambda>a. calc_bucket (hctl h) (hashvalue (elems h a)) \<noteq> b) chain)"
  by (induction chain) auto

lemma split_bucket_eq:
  assumes h1: "h1 = upd_hctl next_masks h" and b: "b = Suc (max_bucket (hctl h)) AND low_mask (hctl h)"
  shows "split_bucket h = put_chain (Suc (max_bucket (hctl h)))
      (filter (\<lambda>a. calc_bucket (hctl h1) (hashvalue (elems h a)) \<noteq> b) (bucket_chain h b))
      (put_chain b (filter (\<lambda>a. calc_bucket (hctl h1) (hashvalue (elems h a)) = b) (bucket_chain h b)) h1)"
proof -
  let ?c = "hctl h" and ?n = "Suc (max_bucket (hctl h))"
  have "(if ?n > high_mask (hctl (upd_hctl (\<lambda>c. c\<lparr>max_bucket := ?n\<rparr>) h)) then
      upd_hctl (\<lambda>c. c\<lparr>low_mask := high_mask c, high_mask := ?n OR high_mask c\<rparr>) (upd_hctl (\<lambda>c. c\<lparr>max_bucket := ?n\<rparr>) h)
      else upd_hctl (\<lambda>c. c\<lparr>max_bucket := ?n\<rparr>) h) = h1"
    by (simp add: h1 upd_hctl_def next_masks_def Let_def)
  moreover have "bucket_chain h1 = bucket_chain h"
    by (rule bucket_chain_cong) (simp_all add: h1 upd_hctl_def next_masks_def Let_def)
  moreover have "elems h1 = elems h" by (simp add: h1 upd_hctl_def)
  ultimately show ?thesis by (simp add: split_bucket_def Let_def split_chain_filter b)
qed

lemma next_masks_fields [simp]:
  "freeList (next_masks c) = freeList c" "dsize (next_masks c) = dsize c" "nsegs (next_masks c) = nsegs c" "num_partitions (next_masks c) = num_partitions c"
  "ssize (next_masks c) = ssize c" "sshift (next_masks c) = sshift c" "nelem_alloc (next_masks c) = nelem_alloc c"
  by (simp_all add: next_masks_def Let_def)

lemma mset_filter_partition: "mset (filter P xs) + mset (filter (\<lambda>x. \<not> P x) xs) = mset xs"
  by (induction xs) auto

lemma mset_balance:
  assumes "T1 = T + n" "G + cb = T1 + f" "T' + n = G + nf" "f + nf = cb"
  shows "T' = (T :: 'a multiset)"
proof (rule multiset_eqI)
  fix x
  have "count (G + cb) x = count (T1 + f) x" "count (T' + n) x = count (G + nf) x" "count (f + nf) x = count cb x" "count T1 x = count (T + n) x"
    by (simp_all only: assms)
  then show "count T' x = count T x" by simp
qed

lemma split_bucket_inv:
  assumes inv: "htab_inv A D h" and room: "Suc (max_bucket (hctl h)) div ssize (hctl h) < nsegs (hctl h)"
  shows "htab_inv A D (split_bucket h)" "same_contents h (split_bucket h)"
proof -
  note i = htab_invD [OF inv]
  let ?n = "Suc (max_bucket (hctl h))" and ?h1 = "upd_hctl next_masks h" and ?h' = "split_bucket h"
  obtain b where b: "b = ?n AND low_mask (hctl h)" by simp
  let ?P = "\<lambda>a. calc_bucket (next_masks (hctl h)) (hashvalue (elems h a)) = b"
  obtain g where g: "g = put_chain b (filter ?P (bucket_chain h b)) ?h1" by simp
  have eq: "?h' = put_chain ?n (filter (\<lambda>a. \<not> ?P a) (bucket_chain h b)) g"
    unfolding g by (simp add: split_bucket_eq [OF refl b]) (simp add: upd_hctl_def)
  have bm: "b \<le> max_bucket (hctl h)"
  proof (rule mask_okE [OF i(3)])
    fix k assume k: "low_mask (hctl h) = mask k" "mask k \<le> max_bucket (hctl h)"
    have "b < Suc (mask k)" unfolding b k(1) and_mask_mod mask_plus_1 by simp
    then show ?thesis using k(2) by simp
  qed
  have d1: "dir_ok ?h1" using i(2) room by (auto simp: dir_ok_def upd_hctl_def)
  then have dg: "dir_ok g" by (simp add: g dir_ok_put)
  have hc: "hctl g = next_masks (hctl h)" "hctl ?h' = next_masks (hctl h)" "elems ?h' = elems h" by (simp_all add: eq g upd_hctl_def)
  have bc1: "bucket_chain ?h1 = bucket_chain h" by (rule bucket_chain_cong) (simp_all add: upd_hctl_def)
  have ch: "bucket_chain ?h' b' = (if b' = ?n then filter (\<lambda>a. \<not> ?P a) (bucket_chain h b) else if b' = b then filter ?P (bucket_chain h b) else bucket_chain h b')"
    if "b' \<le> ?n" for b'
  proof -
    have "bucket_chain ?h' b' = (if b' = ?n then filter (\<lambda>a. \<not> ?P a) (bucket_chain h b) else bucket_chain g b')"
      unfolding eq by (rule bucket_chain_put [OF dg]) (use that in \<open>simp_all add: hc\<close>)
    moreover have "bucket_chain g b' = (if b' = b then filter ?P (bucket_chain h b) else bucket_chain ?h1 b')"
      unfolding g by (rule bucket_chain_put [OF d1]) (use that bm in \<open>simp_all add: upd_hctl_def\<close>)
    ultimately show ?thesis by (simp add: bc1)
  qed
  have te: "mset (table_elems ?h') = mset (table_elems h)"
  proof -
    have "mset (table_elems ?h1) = mset (table_elems h) + mset (bucket_chain h ?n)"
      unfolding table_elems_def bc1 by (simp add: upd_hctl_def)
    moreover have "mset (table_elems g) + mset (bucket_chain h b) = mset (table_elems ?h1) + mset (filter ?P (bucket_chain h b))"
      using table_elems_put [OF d1, of b] bm unfolding g bc1 by (simp add: upd_hctl_def)
    moreover have "mset (table_elems ?h') + mset (bucket_chain g ?n) = mset (table_elems g) + mset (filter (\<lambda>a. \<not> ?P a) (bucket_chain h b))"
      unfolding eq by (rule table_elems_put [OF dg]) (simp add: hc)
    moreover have "bucket_chain g ?n = bucket_chain h ?n"
      unfolding g using bucket_chain_put [OF d1, of b ?n] bm bc1 by (simp add: upd_hctl_def)
    ultimately show ?thesis using mset_filter_partition [of ?P "bucket_chain h b"] mset_balance by metis
  qed
  show same: "same_contents h ?h'" using te by (simp add: same_contents_def eq g upd_hctl_def)
  have "entries_ok ?h'" unfolding entries_ok_def hc max_bucket_next_masks
  proof (intro allI impI ballI)
    fix b' a assume b': "b' \<le> ?n" and a: "a \<in> set (bucket_chain ?h' b')"
    have old: "a \<in> set (bucket_chain h (if b' = ?n then b else b'))" using a ch [OF b'] by (auto split: if_splits)
    have le: "(if b' = ?n then b else b') \<le> max_bucket (hctl h)" using b' bm by auto
    note e = entries_okD [OF i(4) le old]
    have "calc_bucket (next_masks (hctl h)) (hashvalue (elems h a)) = b'"
      using calc_bucket_next [OF i(3), of "hashvalue (elems h a)"] e(1) a ch [OF b'] b by (auto split: if_splits)
    then show "calc_bucket (next_masks (hctl h)) (hashvalue (elems h a)) = b' \<and> hashvalue (elems h a) = hash ?h' (ekey (elems h a))"
      using e(2) same by (simp add: same_contents_def)
  qed
  moreover have "dir_ok ?h'" unfolding eq by (rule dir_ok_put [OF dg])
  ultimately show "htab_inv A D ?h'"
    using inv htab_inv_same_contents [OF inv same] mask_ok_next [OF i(3)] by (simp add: hc htab_inv_def)
qed

text \<open>A larger directory and a new segment.\<close>

lemma htab_inv_grow:
  assumes inv: "htab_inv A D h" and dir: "dir_ok h'" and h': "h' = h\<lparr>nallocs := m, dir := ds, hctl := (hctl h)\<lparr>dsize := d, nsegs := n\<rparr>\<rparr>"
    and old: "\<And>i. i < nsegs (hctl h) \<Longrightarrow> ds ! i = dir h ! i"
  shows "htab_inv A D h'" "same_contents h h'"
proof -
  note i = htab_invD [OF inv]
  have ch: "bucket_chain h' b = bucket_chain h b" if "b \<le> max_bucket (hctl h)" for b
  proof -
    have "b div 2 ^ sshift (hctl h) < nsegs (hctl h)" using div_le_mono [OF that] dir_okD(4) [OF i(2)] by (rule le_less_trans)
    then show ?thesis using old by (simp add: bucket_chain_def h' drop_bit_eq_div)
  qed
  have mb: "max_bucket (hctl h') = max_bucket (hctl h)" "elems h' = elems h" "hash h' = hash h" "low_mask (hctl h') = low_mask (hctl h)"
    "high_mask (hctl h') = high_mask (hctl h)" by (simp_all add: h')
  have cb: "calc_bucket (hctl h') = calc_bucket (hctl h)" by (simp add: calc_bucket_def Let_def fun_eq_iff mb)
  have "table_elems h' = table_elems h"
    unfolding table_elems_def mb by (rule arg_cong [where f = concat], rule map_cong) (simp_all only: ch set_upt atLeastLessThan_iff less_Suc_eq_le)
  then show same: "same_contents h h'" by (simp add: same_contents_def h')
  have "entries_ok h'" using i(4) ch unfolding entries_ok_def mb cb by metis
  moreover have "mask_ok (hctl h')" using i(3) by (simp add: mask_ok_def mb)
  ultimately show "htab_inv A D h'" using htab_inv_same_contents [OF inv same dir] inv by (simp add: htab_inv_def h')
qed

lemma dir_realloc_inv:
  assumes inv: "htab_inv A D h" and r: "dir_realloc h = (r, h')"
  shows "htab_inv A D h' \<and> same_contents h h' \<and>
    (case r of Inr ok \<Rightarrow> (ok \<longrightarrow> max_bucket (hctl h') = max_bucket (hctl h) \<and> sshift (hctl h') = sshift (hctl h) \<and> nsegs (hctl h') = nsegs (hctl h) \<and>
        length (dir h') = 2 * length (dir h))
     | Inl e \<Rightarrow> e = OUT_OF_MEMORY \<and> (\<exists>n. \<not> alloc_ok h n))"
proof (cases "max_dsize (hctl h) \<noteq> NO_MAX_DSIZE")
  case True
  then show ?thesis using inv r by (auto simp: dir_realloc_def)
next
  case False
  have d: "dir_ok h" by (rule htab_invD [OF inv])
  let ?n = "h\<lparr>nallocs := Suc (nallocs h)\<rparr>"
  let ?ds = "dir h @ replicate (dsize (hctl h)) None"
  let ?h = "h\<lparr>nallocs := Suc (nallocs h), dir := ?ds, hctl := (hctl h)\<lparr>dsize := 2 * dsize (hctl h), nsegs := nsegs (hctl h)\<rparr>\<rparr>"
  have dh: "dir_ok ?h" using d by (auto simp: dir_ok_def nth_append)
  have ds: "?ds ! i = dir h ! i" if "i < nsegs (hctl h)" for i using that dir_okD(3) [OF d] by (simp add: nth_append)
  note g = htab_inv_grow [OF inv dh refl ds]
  have n: "htab_inv A D ?n" "same_contents h ?n"
    using inv by (simp_all add: htab_inv_nallocs same_contents_def same_table_elems(2) [OF same_table_nallocs])
  show ?thesis
  proof (cases "alloc_ok h (nallocs h)")
    case True
    then have "r = Inr True" "h' = ?h" using False r by (auto simp: dir_realloc_def hash_alloc_simps upd_hctl_def Let_def)
    then show ?thesis using g d by (simp add: dir_ok_def)
  next
    case nok: False
    then have "h' = ?n" "r = (if alloc h = DynaHashAlloc then Inl OUT_OF_MEMORY else Inr False)"
      using False r by (auto simp: dir_realloc_def hash_alloc_simps split: if_splits)
    then show ?thesis using n nok by auto
  qed
qed

lemma add_segment_inv:
  assumes inv: "htab_inv A D h" and full: "nsegs (hctl h) < length (dir h)"
    and h': "h' = h\<lparr>nallocs := m, dir := (dir h)[nsegs (hctl h) := Some (replicate (ssize (hctl h)) [])], hctl := (hctl h)\<lparr>nsegs := Suc (nsegs (hctl h))\<rparr>\<rparr>"
  shows "htab_inv A D h'" "same_contents h h'"
proof -
  have "dir_ok h'" using htab_invD(2) [OF inv] full by (auto simp: dir_ok_def h' nth_list_update less_Suc_eq)
  then show "htab_inv A D h'" "same_contents h h'"
    using htab_inv_grow [OF inv, where h' = h' and d = "dsize (hctl h)" and n = "Suc (nsegs (hctl h))" and m = m and
        ds = "(dir h)[nsegs (hctl h) := Some (replicate (ssize (hctl h)) [])]"]
    by (simp_all add: h')
qed

lemma expand_segnum:
  assumes "dir_ok h" "drop_bit (sshift (hctl h)) (Suc (max_bucket (hctl h))) \<ge> nsegs (hctl h)"
  shows "drop_bit (sshift (hctl h)) (Suc (max_bucket (hctl h))) = nsegs (hctl h)"
proof -
  let ?s = "2 ^ sshift (hctl h)" and ?m = "max_bucket (hctl h)"
  have "?m div ?s < nsegs (hctl h)" by (rule dir_okD [OF assms(1)])
  moreover have "Suc ?m div ?s \<le> Suc (?m div ?s)" by (simp add: div_Suc)
  ultimately show ?thesis using assms(2) by (simp add: drop_bit_eq_div)
qed

lemma expand_table_inv:
  assumes inv: "htab_inv A D h" and r: "expand_table h = (r, h')"
  shows "htab_inv A D h' \<and> same_contents h h' \<and> (case r of Inr _ \<Rightarrow> True | Inl e \<Rightarrow> e = OUT_OF_MEMORY \<and> (\<exists>n. \<not> alloc_ok h n))"
proof -
  let ?k = "drop_bit (sshift (hctl h)) (Suc (max_bucket (hctl h)))"
  note d = htab_invD(2) [OF inv]
  show ?thesis
  proof (cases "?k \<ge> nsegs (hctl h)")
    case False
    then have "htab_inv A D (split_bucket h)" "same_contents h (split_bucket h)"
      using split_bucket_inv [OF inv] d by (simp_all add: dir_ok_def drop_bit_eq_div)
    then show ?thesis using False r by (auto simp: expand_table_def)
  next
    case True
    have k: "?k = nsegs (hctl h)" by (rule expand_segnum [OF d True])
    obtain ok g where g: "(if ?k \<ge> dsize (hctl h) then dir_realloc h else (Inr True, h)) = (ok, g)" by fastforce
    have gi: "htab_inv A D g \<and> same_contents h g \<and>
      (case ok of Inr ok \<Rightarrow> (ok \<longrightarrow> max_bucket (hctl g) = max_bucket (hctl h) \<and> sshift (hctl g) = sshift (hctl h) \<and> nsegs (hctl g) = nsegs (hctl h) \<and>
          nsegs (hctl g) < length (dir g))
       | Inl e \<Rightarrow> e = OUT_OF_MEMORY \<and> (\<exists>n. \<not> alloc_ok h n))"
    proof (cases "?k \<ge> dsize (hctl h)")
      case True
      have "0 < nsegs (hctl h)" "nsegs (hctl h) \<le> length (dir h)" using d by (auto simp: dir_ok_def)
      then show ?thesis using dir_realloc_inv [OF inv, of ok g] True g k by (cases ok) auto
    next
      case False
      then show ?thesis using g inv k d by (auto simp: dir_ok_def)
    qed
    consider e where "ok = Inl e" | "ok = Inr False" | "ok = Inr True" by (cases ok) auto
    then show ?thesis
    proof cases
      case 1
      then show ?thesis using r True g gi by (auto simp: expand_table_def Let_def)
    next
      case 2
      then show ?thesis using r True g gi by (auto simp: expand_table_def Let_def)
    next
      case 3
      have gi': "htab_inv A D g" "same_contents h g" "nsegs (hctl g) < length (dir g)" "?k = nsegs (hctl g)"
        "max_bucket (hctl g) = max_bucket (hctl h)" "sshift (hctl g) = sshift (hctl h)"
        using gi 3 k by auto
      have ao: "alloc_ok g = alloc_ok h" using gi'(2) by (simp add: same_contents_def)
      note dg = htab_invD(2) [OF gi'(1)]
      show ?thesis
      proof (cases "alloc_ok g (nallocs g)")
        case ok1: True
        let ?h = "g\<lparr>nallocs := Suc (nallocs g), dir := (dir g)[nsegs (hctl g) := Some (replicate (ssize (hctl g)) [])],
          hctl := (hctl g)\<lparr>nsegs := Suc (nsegs (hctl g))\<rparr>\<rparr>"
        have "h' = split_bucket ?h" "r = Inr True"
          using r True g 3 ok1 gi'(4) by (auto simp: expand_table_def Let_def seg_alloc_def hash_alloc_simps upd_hctl_def)
        moreover have i: "htab_inv A D ?h" "same_contents g ?h" by (rule add_segment_inv [OF gi'(1,3) refl])+
        moreover have "Suc (max_bucket (hctl ?h)) div ssize (hctl ?h) < nsegs (hctl ?h)"
          using gi'(4-6) dg by (simp add: dir_ok_def drop_bit_eq_div)
        ultimately show ?thesis using split_bucket_inv [OF i(1)] same_contents_trans [OF gi'(2) same_contents_trans [OF i(2)]] by simp
      next
        case False
        let ?h = "g\<lparr>nallocs := Suc (nallocs g)\<rparr>"
        let ?d = "?h\<lparr>dir := (dir g)[?k := None]\<rparr>"
        have n: "htab_inv A D ?h" "same_contents g ?h"
          using gi'(1) by (simp_all add: htab_inv_nallocs same_contents_def same_table_elems(2) [OF same_table_nallocs])
        have "dir_ok ?d" using dg gi'(4) by (auto simp: dir_ok_def)
        then have dd: "htab_inv A D ?d" "same_contents ?h ?d"
          using htab_inv_grow [OF n(1), where h' = ?d and d = "dsize (hctl g)" and n = "nsegs (hctl g)" and ds = "(dir g)[?k := None]" and m = "Suc (nallocs g)"] gi'(4) by simp_all
        have "h' = ?h \<and> r = Inl OUT_OF_MEMORY \<or> h' = ?d \<and> r = Inr False"
          using r True g 3 False by (auto simp: expand_table_def Let_def seg_alloc_def hash_alloc_simps split: if_splits)
        then show ?thesis using n dd gi'(2) same_contents_trans ao False by auto
      qed
    qed
  qed
qed

end
