(* ===== verification/DynaHashMap.thy ===== *)
theory DynaHashMap
  imports DynaHashInv
begin

text \<open>
  What the operations on a hash table mean: a table is a finite map on the classes of matching keys, and every call of a client
  behaves as the same call on that map.
\<close>

subsection \<open>The map of a table\<close>

definition hash_find :: "('k, 'v) HTAB \<Rightarrow> 'k \<Rightarrow> nat option" where
  "hash_find h k = find (\<lambda>a. match h (ekey (elems h a)) k) (table_elems h)"

definition hash_map :: "('k, 'v) HTAB \<Rightarrow> 'k \<Rightarrow> 'v option" where
  "hash_map h k = map_option (\<lambda>a. edata (elems h a)) (hash_find h k)"

definition map_put :: "('k \<Rightarrow> 'k \<Rightarrow> bool) \<Rightarrow> 'k \<Rightarrow> 'v option \<Rightarrow> ('k \<Rightarrow> 'v option) \<Rightarrow> 'k \<Rightarrow> 'v option" where
  "map_put mf k w m = (\<lambda>k'. if mf k k' then w else m k')"

lemma hash_find_Some_iff:
  assumes inv: "htab_inv A D h"
  shows "hash_find h k = Some a \<longleftrightarrow> a \<in> set (table_elems h) \<and> match h (ekey (elems h a)) k"
proof
  assume "hash_find h k = Some a"
  then show "a \<in> set (table_elems h) \<and> match h (ekey (elems h a)) k"
    by (auto simp: hash_find_def find_Some_iff)
next
  note kk = htab_invD(1) [OF inv] and kd = htab_invD(5) [OF inv]
  assume a: "a \<in> set (table_elems h) \<and> match h (ekey (elems h a)) k"
  then have "hash_find h k \<noteq> None" by (auto simp: hash_find_def find_None_iff)
  then obtain x where x: "hash_find h k = Some x" by blast
  then have xt: "x \<in> set (table_elems h)" "match h (ekey (elems h x)) k" by (auto simp: hash_find_def find_Some_iff)
  have "match h (ekey (elems h x)) (ekey (elems h a))"
    using xt(2) a hash_keys.match_trans [OF kk] hash_keys.match_sym [OF kk] by blast
  then have "x = a" using kd a xt(1) by (auto simp: keys_distinct_def)
  then show "hash_find h k = Some a" using x by simp
qed

lemma hash_find_None_iff: "hash_find h k = None \<longleftrightarrow> (\<forall>a \<in> set (table_elems h). \<not> match h (ekey (elems h a)) k)"
  by (auto simp: hash_find_def find_None_iff)

lemma hash_find_match_cong:
  assumes inv: "htab_inv A D h" and "match h k k'"
  shows "hash_find h k = hash_find h k'"
  using hash_keys.match_cong [OF htab_invD(1) [OF inv] assms(2)] by (simp add: hash_find_def)

lemma hash_find_same:
  assumes "htab_inv A D h" "htab_inv A' D' h'" "match h' = match h" "set (table_elems h') = set (table_elems h)"
    and "\<And>a. a \<in> set (table_elems h) \<Longrightarrow> ekey (elems h' a) = ekey (elems h a)"
  shows "hash_find h' k = hash_find h k"
proof (cases "hash_find h k")
  case None
  then have "hash_find h' k = None" using assms(3-5) by (simp add: hash_find_None_iff)
  then show ?thesis using None by simp
next
  case (Some a)
  then have "hash_find h' k = Some a" using assms(3-5) by (simp add: hash_find_Some_iff [OF assms(1)] hash_find_Some_iff [OF assms(2)])
  then show ?thesis using Some by simp
qed

lemma set_table_same: "same_contents h h' \<Longrightarrow> set (table_elems h') = set (table_elems h)"
  by (rule mset_eq_setD) (simp add: same_contents_def)

lemma hash_map_same_contents:
  assumes "htab_inv A D h" "htab_inv A' D' h'" "same_contents h h'"
  shows "hash_find h' = hash_find h" "hash_map h' = hash_map h"
proof -
  show f: "hash_find h' = hash_find h"
    by (rule ext, rule hash_find_same [OF assms(1,2) _ set_table_same [OF assms(3)]]) (use assms(3) in \<open>simp_all add: same_contents_def\<close>)
  show "hash_map h' = hash_map h" using assms(3) by (simp add: hash_map_def f same_contents_def fun_eq_iff)
qed

lemma follow_chain_find:
  assumes inv: "htab_inv A D h" and hv: "hv = hash h key"
    and f: "follow_chain h key hv (bucket_chain h (calc_bucket (hctl h) hv)) = (prev, rest)"
  shows "hash_find h key = (if rest = [] then None else Some (hd rest))"
proof -
  note i = htab_invD [OF inv]
  let ?b = "calc_bucket (hctl h) hv"
  have le: "?b \<le> max_bucket (hctl h)" by (rule calc_bucket_le [OF i(3)])
  show ?thesis
  proof (cases rest)
    case Nil
    have "\<not> match h (ekey (elems h a)) key" if a: "a \<in> set (table_elems h)" for a
    proof
      assume m: "match h (ekey (elems h a)) key"
      obtain b where b: "b \<le> max_bucket (hctl h)" "a \<in> set (bucket_chain h b)" using a by (auto simp: set_table_elems)
      note e = entries_okD [OF i(4) b]
      have "hashvalue (elems h a) = hv" using e(2) hash_keys.match_hash [OF i(1) m] hv by simp
      then have "a \<in> set (bucket_chain h ?b)" using e(1) b by simp
      then show False using follow_chain_Nil [of h key hv _ prev a] f Nil m \<open>hashvalue (elems h a) = hv\<close> by simp
    qed
    then show ?thesis using Nil by (simp add: hash_find_None_iff)
  next
    case (Cons a r)
    have "a \<in> set (bucket_chain h ?b)" using follow_chain_append [OF f] Cons by simp
    then have "a \<in> set (table_elems h)" using chain_subset [OF le] by blast
    then show ?thesis using follow_chain_hd [of h key hv _ prev a r] f Cons by (simp add: hash_find_Some_iff [OF inv])
  qed
qed

subsection \<open>Searching, entering, removing\<close>

lemma hash_map_write:
  assumes "htab_ok h" "hash_find h k = Some a"
  shows "htab_ok (write_data a v h)" "hash_map (write_data a v h) = map_put (match h) k (Some v) (hash_map h)"
    "hash_find (write_data a v h) = hash_find h" "table_elems (write_data a v h) = table_elems h"
proof -
  let ?h = "write_data a v h"
  have f: "hctl ?h = hctl h" "dir ?h = dir h" "match ?h = match h" "hash ?h = hash h" "keycopy ?h = keycopy h" "next_elem ?h = next_elem h"
    and e: "hashvalue (elems ?h x) = hashvalue (elems h x)" "ekey (elems ?h x) = ekey (elems h x)" for x
    by (simp_all add: write_data_def)
  have bc: "bucket_chain ?h = bucket_chain h" by (rule bucket_chain_cong) (simp_all add: f)
  then show te: "table_elems ?h = table_elems h" by (simp only: table_elems_def f)
  have "htab_ok ?h = htab_ok h"
    by (simp only: htab_inv_def dir_ok_def entries_ok_def keys_distinct_def counts_ok_def entries_of_def free_all_def bc te f e)
  then show "htab_ok ?h" using assms(1) by simp
  show hf: "hash_find ?h = hash_find h" by (simp add: hash_find_def fun_eq_iff te f e)
  have iff: "hash_find h k' = Some a \<longleftrightarrow> match h k k'" for k'
    using assms hash_keys.match_left_cong [OF htab_invD(1) [OF assms(1)]] by (auto simp: hash_find_Some_iff [OF assms(1)])
  have el: "edata (elems ?h x) = (if x = a then v else edata (elems h x))" for x by (simp add: write_data_def)
  show "hash_map ?h = map_put (match h) k (Some v) (hash_map h)"
  proof (rule ext)
    fix k'
    show "hash_map ?h k' = map_put (match h) k (Some v) (hash_map h) k'"
      using iff [of k'] by (cases "hash_find h k'") (auto simp: hash_map_def hf map_put_def el)
  qed
qed

lemma remove_map:
  assumes inv: "htab_ok h" and hv: "hv = hash h key" and b: "b = calc_bucket (hctl h) hv" and i: "i = FREELIST_IDX (hctl h) hv"
    and f: "follow_chain h key hv (bucket_chain h b) = (prev, a # rest)"
    and h': "h' = free_entry i a (put_chain b (prev @ rest) h)"
  shows "htab_ok h'" "hash_map h' = map_put (match h) key None (hash_map h)" "elems h' = elems h"
    "mset (table_elems h) = add_mset a (mset (table_elems h'))"
proof -
  note di = htab_invD [OF inv]
  have le: "b \<le> max_bucket (hctl h)" unfolding b by (rule calc_bucket_le [OF di(3)])
  have c: "bucket_chain h b = prev @ a # rest" by (rule follow_chain_append [OF f])
  note fa = follow_chain_hd [OF f]
  let ?p = "put_chain b (prev @ rest) h"
  have p: "htab_inv {#a#} ((\<lambda>_. 0)(i := 0 + 1)) ?p"
    using htab_inv_unlink [OF inv le c refl] fa i by simp
  have "htab_inv {#} (((\<lambda>_. 0)(i := 0 + 1))(i := ((\<lambda>_. 0)(i := 0 + 1)) i - 1)) (free_entry i a ?p)"
    by (rule htab_inv_free_entry [OF p]) (use FREELIST_IDX_less in \<open>simp_all add: i, simp add: FREELIST_IDX_def\<close>)
  moreover have "(((\<lambda>_. 0::int)(i := 0 + 1))(i := ((\<lambda>_. 0)(i := 0 + 1)) i - 1)) = (\<lambda>_. 0)" by (simp add: fun_eq_iff)
  ultimately show ok: "htab_ok h'" unfolding h' by simp
  have same: "same_table ?p h'" by (simp add: h' free_entry_def)
  note st = same_table_eq [OF same] and se = same_table_elems [OF same]
  show el: "elems h' = elems h" using st by simp
  show ms: "mset (table_elems h) = add_mset a (mset (table_elems h'))"
    using table_elems_put [OF di(2) le, of "prev @ rest"] c se(2) by simp
  then have te: "set (table_elems h) = insert a (set (table_elems h'))"
    using mset_eq_setD [of "table_elems h" "a # table_elems h'"] by simp
  have d: "a \<notin> set (table_elems h')"
    using distinct_table_elems [OF inv] mset_eq_imp_distinct_iff [of "table_elems h" "a # table_elems h'"] ms by simp
  have ah: "hash_find h key = Some a" using follow_chain_find [OF inv hv f [unfolded b]] by simp
  have "hash_find h' k = (if match h key k then None else hash_find h k)" for k
  proof (cases "match h key k")
    case True
    have "hash_find h' k = None"
    proof (rule ccontr)
      assume "hash_find h' k \<noteq> None"
      then obtain x where x: "hash_find h' k = Some x" by blast
      then have "x \<in> set (table_elems h')" "match h (ekey (elems h x)) k" using st(4) el by (simp_all add: hash_find_Some_iff [OF ok])
      then have "hash_find h k = Some x" using te by (simp add: hash_find_Some_iff [OF inv])
      then have "x = a" using hash_find_match_cong [OF inv True] ah by simp
      then show False using d \<open>x \<in> set (table_elems h')\<close> by simp
    qed
    then show ?thesis using True by simp
  next
    case False
    have na: "\<not> match h (ekey (elems h a)) k"
      using False fa hash_keys.match_left_cong [OF di(1)] by blast
    show ?thesis
    proof (cases "hash_find h k")
      case None
      then have "hash_find h' k = None" using te st(4) el by (simp add: hash_find_None_iff)
      then show ?thesis using None False by simp
    next
      case (Some x)
      then have "x \<noteq> a" "x \<in> set (table_elems h')" using na te by (auto simp: hash_find_Some_iff [OF inv])
      then have "hash_find h' k = Some x" using Some st(4) el by (simp add: hash_find_Some_iff [OF inv] hash_find_Some_iff [OF ok])
      then show ?thesis using Some False by simp
    qed
  qed
  then show "hash_map h' = map_put (match h) key None (hash_map h)"
    by (simp add: hash_map_def map_put_def fun_eq_iff el)
qed

lemma link_map:
  assumes inv: "htab_inv {#a#} ((\<lambda>_. 0)(FREELIST_IDX (hctl h) hv := 1)) h" and hv: "hv = hash h key" and b: "b = calc_bucket (hctl h) hv"
    and new: "hash_find h key = None" and h': "h' = link_entry b a hv (keycopy h key) h"
  shows "htab_ok h'" "hash_map h' = map_put (match h) key (Some (edata (elems h a))) (hash_map h)" "hash_find h' key = Some a"
    "mset (table_elems h') = add_mset a (mset (table_elems h))"
proof -
  note di = htab_invD [OF inv]
  have hk: "hv = hash h (keycopy h key)" using hash_keys.hash_keycopy [OF di(1)] hv by simp
  have nm: "\<forall>x \<in> set (table_elems h). \<not> match h (ekey (elems h x)) (keycopy h key)"
    using new hash_keys.keycopy_match_iff(2) [OF di(1)] by (simp add: hash_find_None_iff)
  have "htab_inv {#} (((\<lambda>_. 0)(FREELIST_IDX (hctl h) hv := 1))(FREELIST_IDX (hctl h) hv := ((\<lambda>_. 0)(FREELIST_IDX (hctl h) hv := 1)) (FREELIST_IDX (hctl h) hv) - 1)) h'"
    unfolding h' by (rule htab_inv_link [OF _ b hk nm refl]) (use inv in simp)
  moreover have "(((\<lambda>_. 0::int)(FREELIST_IDX (hctl h) hv := 1))(FREELIST_IDX (hctl h) hv := ((\<lambda>_. 0)(FREELIST_IDX (hctl h) hv := 1)) (FREELIST_IDX (hctl h) hv) - 1)) = (\<lambda>_. 0)"
    by (simp add: fun_eq_iff)
  ultimately show ok: "htab_ok h'" by simp
  have le: "b \<le> max_bucket (hctl h)" unfolding b by (rule calc_bucket_le [OF di(3)])
  show ms: "mset (table_elems h') = add_mset a (mset (table_elems h))" unfolding h' by (rule link_entry_chains(2) [OF di(2) le])
  then have te: "set (table_elems h') = insert a (set (table_elems h))" using mset_eq_setD [of "table_elems h'" "a # table_elems h"] by simp
  have na: "a \<notin> set (table_elems h)" using held_not_in_table inv by blast
  have mk: "match h' = match h" "ekey (elems h' a) = keycopy h key" "edata (elems h' x) = edata (elems h x)" "x \<noteq> a \<Longrightarrow> elems h' x = elems h x" for x
    by (simp_all add: h')
  have "hash_find h' k = (if match h key k then Some a else hash_find h k)" for k
  proof (cases "match h key k")
    case True
    then have "hash_find h' k = Some a"
      using te mk hash_keys.keycopy_match_iff(1) [OF di(1)] by (simp add: hash_find_Some_iff [OF ok])
    then show ?thesis using True by simp
  next
    case False
    then have nk: "\<not> match h (keycopy h key) k" using hash_keys.keycopy_match_iff(1) [OF di(1)] by simp
    show ?thesis
    proof (cases "hash_find h k")
      case None
      have "\<not> match h (ekey (elems h' x)) k" if "x \<in> set (table_elems h)" for x
        using None that na mk(4) [of x] by (cases "x = a") (auto simp: hash_find_None_iff)
      then have "hash_find h' k = None" using te mk(1,2) nk by (simp add: hash_find_None_iff)
      then show ?thesis using None False by simp
    next
      case (Some x)
      then have "x \<in> set (table_elems h)" "match h (ekey (elems h x)) k" by (simp_all add: hash_find_Some_iff [OF inv])
      then have "hash_find h' k = Some x" using te na mk(1) mk(4) [of x] by (cases "x = a") (simp_all add: hash_find_Some_iff [OF ok])
      then show ?thesis using Some False by simp
    qed
  qed
  then show "hash_find h' key = Some a" "hash_map h' = map_put (match h) key (Some (edata (elems h a))) (hash_map h)"
    using hash_keys.match_refl [OF di(1)] mk(3) by (simp_all add: hash_map_def map_put_def fun_eq_iff)
qed

definition same_params :: "('k, 'v) HTAB \<Rightarrow> ('k, 'v) HTAB \<Rightarrow> bool" where
  "same_params h h' \<longleftrightarrow> hash h' = hash h \<and> match h' = match h \<and> keycopy h' = keycopy h \<and> alloc h' = alloc h \<and> frozen h' = frozen h \<and>
    isshared h' = isshared h \<and> isfixed h' = isfixed h \<and> htab_id h' = htab_id h \<and> alloc_ok h' = alloc_ok h \<and>
    num_partitions (hctl h') = num_partitions (hctl h)"

lemma same_params_refl [simp]: "same_params h h"
  by (simp add: same_params_def)

lemma same_params_trans: "same_params h h' \<Longrightarrow> same_params h' h'' \<Longrightarrow> same_params h h''"
  by (simp add: same_params_def)

lemma same_params_table: "same_table h h' \<Longrightarrow> same_params h h'"
  by (simp add: same_params_def same_table_eq(3-5,7-) same_table_hctl)

lemma same_params_contents: "same_contents h h' \<Longrightarrow> same_params h h'"
  by (simp add: same_params_def same_contents_def)

text \<open>An allocation can fail, or no allocation is allowed.\<close>

definition may_fail :: "('k, 'v) HTAB \<Rightarrow> bool" where
  "may_fail h \<longleftrightarrow> isfixed h \<or> (\<exists>n. \<not> alloc_ok h n)"

lemma may_fail_same: "same_params h h' \<Longrightarrow> may_fail h' = may_fail h"
  by (simp add: may_fail_def same_params_def)

text \<open>What entering a key may answer, with the table after it.\<close>

definition enter_ok :: "('k, 'v) HTAB \<Rightarrow> 'k \<Rightarrow> (nat option \<times> bool) result \<Rightarrow> ('k, 'v) HTAB \<Rightarrow> bool" where
  "enter_ok h key r h' \<longleftrightarrow> htab_ok h' \<and> same_params h h' \<and>
    (case r of
       Inl e \<Rightarrow> hash_map h' = hash_map h \<and> mset (table_elems h') = mset (table_elems h) \<and>
         (e = OUT_OF_MEMORY \<and> may_fail h \<or>
          e = Ereport ERROR ERRCODE_INVALID_OPERATION \<and> frozen h \<and> hash_find h key = None \<and> alloc h \<noteq> DynaHashAllocNoExcept)
     | Inr (None, found) \<Rightarrow> \<not> found \<and> hash_map h' = hash_map h \<and> mset (table_elems h') = mset (table_elems h) \<and> hash_find h key = None \<and>
         (frozen h \<and> alloc h = DynaHashAllocNoExcept \<or> \<not> frozen h \<and> may_fail h)
     | Inr (Some a, True) \<Rightarrow> hash_find h key = Some a \<and> hash_find h' key = Some a \<and> elems h' = elems h \<and> hash_map h' = hash_map h \<and>
         mset (table_elems h') = mset (table_elems h)
     | Inr (Some a, False) \<Rightarrow> \<not> frozen h \<and> hash_find h key = None \<and> hash_find h' key = Some a \<and>
         hash_map h' = map_put (match h) key (Some (edata (elems h' a))) (hash_map h) \<and> mset (table_elems h') = add_mset a (mset (table_elems h)))"

lemma IDX_unpartitioned: "\<not> IS_PARTITIONED c \<longrightarrow> FREELIST_IDX c hv = 0"
  by (simp add: FREELIST_IDX_def)

lemma search_find:
  assumes inv: "htab_ok h"
  shows "hash_search cxt h key HASH_FIND = (Inr (hash_find h key, hash_find h key \<noteq> None), h)"
proof -
  let ?b = "calc_bucket (hctl h) (hash h key)"
  obtain prev rest where f: "follow_chain h key (hash h key) (bucket_chain h ?b) = (prev, rest)" by fastforce
  have "dir h ! drop_bit (sshift (hctl h)) ?b \<noteq> None"
    by (rule dir_nonempty [OF htab_invD(2) [OF inv] calc_bucket_le [OF htab_invD(3) [OF inv]]])
  then show ?thesis using f follow_chain_find [OF inv refl f]
    by (simp add: hash_search_def hash_search_with_hash_value_def search_action_def Let_def)
qed

lemma search_remove:
  assumes inv: "htab_ok h" and r: "hash_search cxt h key HASH_REMOVE = (r, h')"
  shows "htab_ok h' \<and> same_params h h' \<and> elems h' = elems h \<and> r = Inr (hash_find h key, hash_find h key \<noteq> None) \<and>
    hash_map h' = map_put (match h) key None (hash_map h) \<and>
    mset (table_elems h) = mset (table_elems h') + (case hash_find h key of None \<Rightarrow> {#} | Some a \<Rightarrow> {#a#})"
proof -
  let ?b = "calc_bucket (hctl h) (hash h key)" and ?i = "FREELIST_IDX (hctl h) (hash h key)"
  obtain prev rest where f: "follow_chain h key (hash h key) (bucket_chain h ?b) = (prev, rest)" by fastforce
  have d: "dir h ! drop_bit (sshift (hctl h)) ?b \<noteq> None"
    by (rule dir_nonempty [OF htab_invD(2) [OF inv] calc_bucket_le [OF htab_invD(3) [OF inv]]])
  note hf = follow_chain_find [OF inv refl f]
  show ?thesis
  proof (cases rest)
    case Nil
    then have "r = Inr (None, False)" "h' = h" "hash_find h key = None"
      using r d f hf by (simp_all add: hash_search_def hash_search_with_hash_value_def search_action_def Let_def)
    moreover have "hash_map h k = None" if "match h key k" for k
      using hash_find_match_cong [OF inv that] calculation(3) by (simp add: hash_map_def)
    then have "hash_map h = map_put (match h) key None (hash_map h)" by (simp add: map_put_def fun_eq_iff)
    ultimately show ?thesis using inv by simp
  next
    case (Cons a rs)
    let ?h = "free_entry ?i a (put_chain ?b (prev @ rs) h)"
    have "r = Inr (Some a, True)" "h' = ?h" "hash_find h key = Some a"
      using r d f hf Cons by (simp_all add: hash_search_def hash_search_with_hash_value_def search_action_def Let_def)
    moreover have "same_params h ?h"
      by (simp add: same_params_def free_entry_def)
    ultimately show ?thesis using remove_map [OF inv refl refl refl f [unfolded Cons] refl] by simp
  qed
qed

lemma get_entry_link:
  assumes inv: "htab_ok h" and new: "hash_find h key = None" and hv: "hv = hash h key" and nf: "\<not> frozen h"
    and g: "get_hash_entry (FREELIST_IDX (hctl h) hv) h = (Inr (Some a), g)"
    and h': "h' = link_entry (calc_bucket (hctl g) hv) a hv (keycopy g key) g"
  shows "enter_ok h key (Inr (Some a, False)) h'"
proof -
  let ?i = "FREELIST_IDX (hctl h) hv"
  have same: "same_table h g" and gi: "htab_inv {#a#} ((\<lambda>_. 0)(?i := 0 + 1)) g"
    using get_hash_entry_inv [OF inv FREELIST_IDX_less IDX_unpartitioned g] by simp_all
  note e = same_table_eq [OF same] and el = same_table_elems [OF same]
  have i: "?i = FREELIST_IDX (hctl g) hv" by (simp add: el)
  have hf: "hash_find g = hash_find h" by (simp add: hash_find_def fun_eq_iff e(2,4) el(2))
  then have hm: "hash_map g = hash_map h" by (simp add: hash_map_def fun_eq_iff e(2))
  have gi': "htab_inv {#a#} ((\<lambda>_. 0)(FREELIST_IDX (hctl g) hv := 1)) g" using gi i by simp
  have hv': "hv = hash g key" and n': "hash_find g key = None" using hv new hf e(3) by simp_all
  note l = link_map [OF gi' hv' refl n' h']
  have "same_params g h'" by (simp add: same_params_def h')
  then have "same_params h h'" using same_params_trans [OF same_params_table [OF same]] by blast
  moreover have "edata (elems h' a) = edata (elems g a)" by (simp add: h')
  ultimately show ?thesis using l nf new hm e(4) el(2) by (simp add: enter_ok_def)
qed

lemma search_action_enter:
  assumes inv: "htab_ok h" and act: "action = HASH_ENTER \<or> action = HASH_ENTER_NULL" and hv: "hv = hash h key"
    and r: "search_action (FREELIST_IDX (hctl h) hv) key hv action h = (r, h')"
  shows "enter_ok h key r h'"
proof -
  let ?b = "calc_bucket (hctl h) hv" and ?i = "FREELIST_IDX (hctl h) hv"
  obtain prev rest where f: "follow_chain h key hv (bucket_chain h ?b) = (prev, rest)" by fastforce
  have d: "dir h ! drop_bit (sshift (hctl h)) ?b \<noteq> None"
    by (rule dir_nonempty [OF htab_invD(2) [OF inv] calc_bucket_le [OF htab_invD(3) [OF inv]]])
  note hf = follow_chain_find [OF inv hv f]
  show ?thesis
  proof (cases "rest = []")
    case False
    then have "r = Inr (Some (hd rest), True)" "h' = h"
      using r d f act by (auto simp: search_action_def Let_def)
    then show ?thesis using inv hf False by (simp add: enter_ok_def)
  next
    case True
    then have new: "hash_find h key = None" using hf by simp
    have chain: "bucket_chain h ?b = prev" using follow_chain_append [OF f] True by simp
    show ?thesis
    proof (cases "frozen h")
      case True
      then have "h' = h" "r = (if alloc h = DynaHashAllocNoExcept then Inr (None, False) else Inl (Ereport ERROR ERRCODE_INVALID_OPERATION))"
        using r d f act \<open>rest = []\<close> by (auto simp: search_action_def Let_def split: if_splits)
      then show ?thesis using inv new True by (simp add: enter_ok_def)
    next
      case nf: False
      obtain q g where g: "get_hash_entry ?i h = (q, g)" by fastforce
      note gi = get_hash_entry_inv [OF inv FREELIST_IDX_less IDX_unpartitioned g]
      have same: "same_table h g" using gi by simp
      note e = same_table_eq [OF same] and el = same_table_elems [OF same]
      have hm: "hash_map g = hash_map h" by (simp add: hash_map_def hash_find_def fun_eq_iff e(2,4) el(2))
      have keep: "enter_ok h key (Inl OUT_OF_MEMORY) g" "enter_ok h key (Inr (None, False)) g" if "htab_ok g" "may_fail h"
        using that same_params_table [OF same] new hm el(2) nf by (simp_all add: enter_ok_def)
      consider a where "q = Inr (Some a)" | "q = Inr None" | err where "q = Inl err" by (metis option.exhaust sum.exhaust)
      then show ?thesis
      proof cases
        case 1
        have b: "?b = calc_bucket (hctl g) hv" "bucket_chain g = bucket_chain h" by (simp_all add: el)
        have "r = Inr (Some a, False)" "h' = link_entry (calc_bucket (hctl g) hv) a hv (keycopy g key) g"
          using r d f act nf \<open>rest = []\<close> g 1 chain by (auto simp: search_action_def Let_def link_entry_def b(2) simp flip: b(1))
        then show ?thesis using get_entry_link [OF inv new hv nf] g 1 by simp
      next
        case 2
        have "h' = g" "r = Inl OUT_OF_MEMORY \<or> r = Inr (None, False)"
          using r d f act nf \<open>rest = []\<close> g 2 by (auto simp: search_action_def Let_def split: if_splits)
        then show ?thesis using gi 2 keep by (auto simp: may_fail_def)
      next
        case 3
        have "h' = g" "r = Inl err" using r d f act nf \<open>rest = []\<close> g 3 by (auto simp: search_action_def Let_def)
        then show ?thesis using gi 3 keep by (auto simp: may_fail_def)
      qed
    qed
  qed
qed

lemma search_enter:
  assumes inv: "htab_ok h" and act: "action = HASH_ENTER \<or> action = HASH_ENTER_NULL" and r: "hash_search cxt h key action = (r, h')"
  shows "enter_ok h key r h'"
proof -
  let ?hv = "hash h key"
  let ?c = "\<not> IS_PARTITIONED (hctl h) \<and> \<not> frozen h \<and>
          nentries (freeList (hctl h) ! 0) div int (max_bucket (hctl h) + 1) \<ge> int (ffactor (hctl h)) \<and> \<not> has_seq_scans cxt h"
  obtain q g where g: "(if ?c then expand_table h else (Inr True, h)) = (q, g)" by fastforce
  have gi: "htab_ok g" "same_contents h g" "\<And>e. q = Inl e \<Longrightarrow> e = OUT_OF_MEMORY \<and> may_fail h"
    using g expand_table_inv [OF inv, of q g] inv by (auto split: if_splits simp: may_fail_def)
  note hm = hash_map_same_contents [OF inv gi(1,2)]
  have s: "same_params h g" by (rule same_params_contents [OF gi(2)])
  have gc: "hash g = hash h" "elems g = elems h" "mset (table_elems g) = mset (table_elems h)" "match g = match h" "frozen g = frozen h" "alloc g = alloc h"
    "num_partitions (hctl g) = num_partitions (hctl h)"
    using gi(2) by (simp_all add: same_contents_def)
  have idx: "FREELIST_IDX (hctl h) ?hv = FREELIST_IDX (hctl g) ?hv" by (simp add: FREELIST_IDX_def IS_PARTITIONED_def gc)
  have eq: "hash_search cxt h key action = hash_bind (q, g) (\<lambda>_. search_action (FREELIST_IDX (hctl h) ?hv) key ?hv action)"
    using act g by (simp only: hash_search_def hash_search_with_hash_value_def Let_def) simp
  show ?thesis
  proof (cases q)
    case (Inl e)
    then show ?thesis using r eq gi s hm gc by (auto simp: enter_ok_def)
  next
    case (Inr ok)
    then have "search_action (FREELIST_IDX (hctl g) (hash g key)) key (hash g key) action g = (r, h')"
      using r eq by (simp add: idx gc)
    note e = search_action_enter [OF gi(1) act refl this]
    show ?thesis using e same_params_trans [OF s] hm gc may_fail_same [OF s]
      by (auto simp: enter_ok_def split: sum.splits option.splits bool.splits)
  qed
qed

subsection \<open>The number of entries\<close>

lemma sum_list_indicator: "(k::nat) < n \<Longrightarrow> sum_list (map (\<lambda>i. if k = i then 1 else 0) [0..<n]) = (1::nat)"
  by (simp add: interv_sum_list_conv_sum_set_nat)

lemma sum_filter_classes:
  assumes "\<And>x. f x < n"
  shows "sum_list (map (\<lambda>i. length (filter (\<lambda>x. f x = i) xs)) [0..<n]) = length xs"
proof (induction xs)
  case (Cons x xs)
  have "map (\<lambda>i. length (filter (\<lambda>x. f x = i) (x # xs))) [0..<n] = map (\<lambda>i. (if f x = i then 1 else 0) + length (filter (\<lambda>x. f x = i) xs)) [0..<n]"
    by simp
  then show ?case using Cons sum_list_indicator [OF assms, of x]
    by (simp only: sum_list_addf) simp
qed simp

lemma int_sum_list: "int (sum_list (map f xs)) = sum_list (map (\<lambda>x. int (f x)) xs)"
  by (induction xs) auto

lemma num_entries:
  assumes "htab_ok h"
  shows "hash_get_num_entries h = int (length (table_elems h))"
proof -
  have c: "nentries (freeList (hctl h) ! i) = int (length (entries_of h i))" if "i < NUM_FREELISTS" for i
    using htab_invD(6) [OF assms] that by (simp add: counts_ok_def)
  show ?thesis
  proof (cases "IS_PARTITIONED (hctl h)")
    case False
    then have "entries_of h 0 = table_elems h" by (simp add: entries_of_def FREELIST_IDX_def)
    then show ?thesis using False c [of 0] by (simp add: hash_get_num_entries_def Let_def NUM_FREELISTS_def)
  next
    case True
    have "hash_get_num_entries h = sum_list (map (\<lambda>i. nentries (freeList (hctl h) ! i)) [0..<NUM_FREELISTS])"
      using True by (simp add: hash_get_num_entries_def Let_def NUM_FREELISTS_def upt_rec [of 0])
    also have "\<dots> = sum_list (map (\<lambda>i. int (length (entries_of h i))) [0..<NUM_FREELISTS])"
      by (rule arg_cong [where f = sum_list]) (use c in simp)
    also have "\<dots> = int (length (table_elems h))"
      unfolding int_sum_list [symmetric] entries_of_def by (subst sum_filter_classes) (rule FREELIST_IDX_less, rule refl)
    finally show ?thesis .
  qed
qed

subsection \<open>Clients\<close>

text \<open>
  A client looks keys up, enters them with data, removes them, asks for the number of entries, freezes the table, and begins and ends
  scans of it.
\<close>

datatype ('k, 'v) hash_call =
    Lookup 'k
  | Enter 'k 'v
  | Enter_null 'k 'v
  | Remove 'k
  | Num_entries
  | Freeze
  | Scan_begin nat
  | Scan_term

datatype 'v hash_reply = Found 'v | Missing | Added | Null | Number int | Done | Raised pg_error

type_synonym ('k, 'v) hash_client = "dynahash_context \<times> ('k, 'v) HTAB"

definition enter_reply :: "dynahash_context \<Rightarrow> 'v \<Rightarrow> (nat option \<times> bool, 'k, 'v) htab_result \<Rightarrow> 'v hash_reply \<times> ('k, 'v) hash_client" where
  "enter_reply cxt v m =
    (case m of
       (Inl e, h) \<Rightarrow> (Raised e, cxt, h)
     | (Inr (None, _), h) \<Rightarrow> (Null, cxt, h)
     | (Inr (Some a, True), h) \<Rightarrow> (Found (edata (elems h a)), cxt, write_data a v h)
     | (Inr (Some a, False), h) \<Rightarrow> (Added, cxt, write_data a v h))"

definition scan_reply :: "dynahash_context \<Rightarrow> ('k, 'v) HTAB \<Rightarrow> dynahash_context result \<Rightarrow> 'v hash_reply \<times> ('k, 'v) hash_client" where
  "scan_reply cxt h m = (case m of Inl e \<Rightarrow> (Raised e, cxt, h) | Inr cxt' \<Rightarrow> (Done, cxt', h))"

fun call_table :: "('k, 'v) hash_client \<Rightarrow> ('k, 'v) hash_call \<Rightarrow> 'v hash_reply \<times> ('k, 'v) hash_client" where
  "call_table (cxt, h) (Lookup k) =
    (case hash_search cxt h k HASH_FIND of
       (Inr (Some a, _), h') \<Rightarrow> (Found (edata (elems h' a)), cxt, h')
     | (Inr (None, _), h') \<Rightarrow> (Missing, cxt, h')
     | (Inl e, h') \<Rightarrow> (Raised e, cxt, h'))"
| "call_table (cxt, h) (Enter k v) = enter_reply cxt v (hash_search cxt h k HASH_ENTER)"
| "call_table (cxt, h) (Enter_null k v) = enter_reply cxt v (hash_search cxt h k HASH_ENTER_NULL)"
| "call_table (cxt, h) (Remove k) =
    (case hash_search cxt h k HASH_REMOVE of
       (Inr (Some a, _), h') \<Rightarrow> (Found (edata (elems h' a)), cxt, h')
     | (Inr (None, _), h') \<Rightarrow> (Missing, cxt, h')
     | (Inl e, h') \<Rightarrow> (Raised e, cxt, h'))"
| "call_table (cxt, h) Num_entries = (Number (hash_get_num_entries h), cxt, h)"
| "call_table (cxt, h) Freeze =
    (case hash_freeze cxt h of (Inl e, h') \<Rightarrow> (Raised e, cxt, h') | (Inr _, h') \<Rightarrow> (Done, cxt, h'))"
| "call_table (cxt, h) (Scan_begin nest_level) = scan_reply cxt h (if frozen h then Inr cxt else register_seq_scan cxt nest_level h)"
| "call_table (cxt, h) Scan_term = scan_reply cxt h (if frozen h then Inr cxt else deregister_seq_scan cxt h)"

fun run_calls :: "('k, 'v) hash_client \<Rightarrow> ('k, 'v) hash_call list \<Rightarrow> 'v hash_reply list \<times> ('k, 'v) hash_client" where
  "run_calls s [] = ([], s)"
| "run_calls s (c # cs) = (let (r, s) = call_table s c; (rs, s) = run_calls s cs in (r # rs, s))"

text \<open>
  The specification: a map on classes of keys, the number of its entries and whether it is frozen. \<open>None\<close> stands for a reply that
  is not allowed. Only entering a key may run out of memory, and only if \<open>fails\<close>; the map then stays as it is.
\<close>

type_synonym ('k, 'v) map_state = "('k \<Rightarrow> 'v option) \<times> int \<times> bool"

definition spec_enter :: "('k \<Rightarrow> 'k \<Rightarrow> bool) \<Rightarrow> bool \<Rightarrow> ('k, 'v) map_state \<Rightarrow> 'k \<Rightarrow> 'v \<Rightarrow> 'v hash_reply \<Rightarrow> ('k, 'v) map_state option" where
  "spec_enter mf fails s k v reply =
    (case s of (m, n, frz) \<Rightarrow>
      (case reply of
         Found w \<Rightarrow> if m k = Some w then Some (map_put mf k (Some v) m, n, frz) else None
       | Added \<Rightarrow> if m k = None \<and> \<not> frz then Some (map_put mf k (Some v) m, n + 1, frz) else None
       | Null \<Rightarrow> if m k = None \<and> (frz \<or> fails) then Some s else None
       | Raised e \<Rightarrow> if e = OUT_OF_MEMORY \<and> fails \<or> e = Ereport ERROR ERRCODE_INVALID_OPERATION \<and> m k = None \<and> frz then Some s else None
       | _ \<Rightarrow> None))"

fun spec_call :: "('k \<Rightarrow> 'k \<Rightarrow> bool) \<Rightarrow> bool \<Rightarrow> ('k, 'v) map_state \<Rightarrow> ('k, 'v) hash_call \<Rightarrow> 'v hash_reply \<Rightarrow> ('k, 'v) map_state option" where
  "spec_call mf fails (m, n, frz) (Lookup k) reply =
    (if reply = (case m k of None \<Rightarrow> Missing | Some v \<Rightarrow> Found v) then Some (m, n, frz) else None)"
| "spec_call mf fails s (Enter k v) reply = spec_enter mf fails s k v reply"
| "spec_call mf fails s (Enter_null k v) reply = spec_enter mf fails s k v reply"
| "spec_call mf fails (m, n, frz) (Remove k) reply =
    (if reply = (case m k of None \<Rightarrow> Missing | Some v \<Rightarrow> Found v)
     then Some (map_put mf k None m, (if m k = None then n else n - 1), frz) else None)"
| "spec_call mf fails (m, n, frz) Num_entries reply = (if reply = Number n then Some (m, n, frz) else None)"
| "spec_call mf fails (m, n, frz) Freeze reply =
    (if reply = Done then Some (m, n, True)
     else if reply = Raised (Ereport ERROR ERRCODE_INVALID_OPERATION) then Some (m, n, frz) else None)"
| "spec_call mf fails s (Scan_begin nest_level) reply =
    (if reply = Done \<or> reply = Raised (Ereport ERROR ERRCODE_CHECK_VIOLATION) then Some s else None)"
| "spec_call mf fails s Scan_term reply =
    (if reply = Done \<or> reply = Raised (Ereport ERROR ERRCODE_CHECK_VIOLATION) then Some s else None)"

fun spec_calls :: "('k \<Rightarrow> 'k \<Rightarrow> bool) \<Rightarrow> bool \<Rightarrow> ('k, 'v) map_state \<Rightarrow> ('k, 'v) hash_call list \<Rightarrow> 'v hash_reply list \<Rightarrow> ('k, 'v) map_state option" where
  "spec_calls mf fails s [] [] = Some s"
| "spec_calls mf fails s (c # cs) (r # rs) = (case spec_call mf fails s c r of None \<Rightarrow> None | Some s \<Rightarrow> spec_calls mf fails s cs rs)"
| "spec_calls mf fails s _ _ = None"

definition map_state_of :: "('k, 'v) HTAB \<Rightarrow> ('k, 'v) map_state" where
  "map_state_of h = (hash_map h, hash_get_num_entries h, frozen h)"

subsection \<open>Refinement\<close>

lemma length_add_mset: "mset xs = add_mset a (mset ys) \<Longrightarrow> length xs = Suc (length ys)"
  by (metis size_mset size_add_mset)

lemma map_put_put: "map_put mf k w (map_put mf k w' m) = map_put mf k w m"
  by (simp add: map_put_def fun_eq_iff)

lemma enter_result_cases:
  fixes r :: "(nat option \<times> bool) result"
  obtains err where "r = Inl err" | f where "r = Inr (None, f)" | a where "r = Inr (Some a, True)" | a where "r = Inr (Some a, False)"
proof (cases r)
  case (Inl err)
  then show ?thesis using that(1) by blast
next
  case (Inr p)
  obtain q f where p: "p = (q, f)" by fastforce
  show ?thesis using that(2-4) Inr p by (cases q; cases f) auto
qed

lemma enter_refines:
  assumes inv: "htab_ok h" and e: "enter_ok h k r h'" and c: "enter_reply cxt v (r, h') = (reply, cxt', h'')"
  shows "htab_ok h'' \<and> match h'' = match h \<and> may_fail h'' = may_fail h \<and> spec_enter (match h) (may_fail h) (map_state_of h) k v reply = Some (map_state_of h'')"
proof -
  have ok: "htab_ok h'" and sp: "same_params h h'" using e by (simp_all add: enter_ok_def)
  have mf: "may_fail h' = may_fail h" "match h' = match h" "frozen h' = frozen h" using may_fail_same [OF sp] sp by (simp_all add: same_params_def)
  have cnt: "hash_get_num_entries h' = hash_get_num_entries h" if "mset (table_elems h') = mset (table_elems h)"
    using mset_eq_length [OF that] by (simp add: num_entries [OF inv] num_entries [OF ok])
  show ?thesis
  proof (cases rule: enter_result_cases [of r])
    case (1 err)
    then have "hash_map h' = hash_map h" "mset (table_elems h') = mset (table_elems h)" and
      why: "err = OUT_OF_MEMORY \<and> may_fail h \<or> err = Ereport ERROR ERRCODE_INVALID_OPERATION \<and> frozen h \<and> hash_find h k = None"
      using e by (auto simp: enter_ok_def)
    then have "map_state_of h' = map_state_of h" using cnt mf by (simp add: map_state_of_def)
    moreover have "h'' = h'" "reply = Raised err" using c 1 by (simp_all add: enter_reply_def)
    ultimately show ?thesis using ok mf why by (auto simp: spec_enter_def map_state_of_def hash_map_def)
  next
    case (2 f)
    then have "hash_map h' = hash_map h" "mset (table_elems h') = mset (table_elems h)" and why: "hash_find h k = None \<and> (frozen h \<or> may_fail h)"
      using e by (auto simp: enter_ok_def)
    then have "map_state_of h' = map_state_of h" using cnt mf by (simp add: map_state_of_def)
    moreover have "h'' = h'" "reply = Null" using c 2 by (simp_all add: enter_reply_def)
    ultimately show ?thesis using ok mf why by (auto simp: spec_enter_def map_state_of_def hash_map_def)
  next
    case (3 a)
    then have f: "hash_find h k = Some a" "hash_find h' k = Some a" "elems h' = elems h" "hash_map h' = hash_map h" "mset (table_elems h') = mset (table_elems h)"
      using e by (simp_all add: enter_ok_def)
    have h'': "h'' = write_data a v h'" "reply = Found (edata (elems h a))" using c 3 f by (simp_all add: enter_reply_def)
    note w = hash_map_write [OF ok f(2), of v]
    have n: "hash_get_num_entries h'' = hash_get_num_entries h" using cnt f(5) w(1,4) h'' by (simp add: num_entries [OF ok] num_entries)
    have "may_fail h'' = may_fail h" "frozen h'' = frozen h" "match h'' = match h" using mf by (simp_all add: h'' write_data_def may_fail_def)
    then show ?thesis using w h'' n f mf by (simp add: spec_enter_def map_state_of_def hash_map_def [of h])
  next
    case (4 a)
    then have f: "\<not> frozen h" "hash_find h k = None" "hash_find h' k = Some a"
      "hash_map h' = map_put (match h) k (Some (edata (elems h' a))) (hash_map h)" "mset (table_elems h') = add_mset a (mset (table_elems h))"
      using e by (simp_all add: enter_ok_def)
    have h'': "h'' = write_data a v h'" "reply = Added" using c 4 by (simp_all add: enter_reply_def)
    note w = hash_map_write [OF ok f(3), of v]
    have n: "hash_get_num_entries h'' = hash_get_num_entries h + 1"
      using length_add_mset [OF f(5)] w(1,4) h'' by (simp add: num_entries [OF inv] num_entries)
    have "may_fail h'' = may_fail h" "frozen h'' = frozen h" "match h'' = match h" using mf by (simp_all add: h'' write_data_def may_fail_def)
    then show ?thesis using w h'' n f mf by (simp add: spec_enter_def map_state_of_def hash_map_def [of h] map_put_put)
  qed
qed

lemma call_refines:
  assumes inv: "htab_ok h" and c: "call_table (cxt, h) call = (reply, cxt', h')"
  shows "htab_ok h' \<and> match h' = match h \<and> may_fail h' = may_fail h \<and> spec_call (match h) (may_fail h) (map_state_of h) call reply = Some (map_state_of h')"
proof (cases call)
  case (Lookup k)
  then show ?thesis using c inv by (cases "hash_find h k") (auto simp: search_find map_state_of_def hash_map_def)
next
  case (Enter k v)
  obtain r g where r: "hash_search cxt h k HASH_ENTER = (r, g)" by fastforce
  show ?thesis using enter_refines [OF inv search_enter [OF inv _ r]] c r Enter by simp
next
  case (Enter_null k v)
  obtain r g where r: "hash_search cxt h k HASH_ENTER_NULL = (r, g)" by fastforce
  show ?thesis using enter_refines [OF inv search_enter [OF inv _ r]] c r Enter_null by simp
next
  case (Remove k)
  obtain r g where r: "hash_search cxt h k HASH_REMOVE = (r, g)" by fastforce
  note s = search_remove [OF inv r]
  have hg: "h' = g" "reply = (case hash_map h k of None \<Rightarrow> Missing | Some v \<Rightarrow> Found v)"
    using c r s Remove by (auto simp: hash_map_def split: option.splits)
  have "int (length (table_elems g)) = (if hash_map h k = None then int (length (table_elems h)) else int (length (table_elems h)) - 1)"
    using s length_add_mset [of "table_elems h" _ "table_elems g"] mset_eq_length [of "table_elems h" "table_elems g"]
    by (auto simp: hash_map_def split: option.splits)
  then have "hash_get_num_entries g = (if hash_map h k = None then hash_get_num_entries h else hash_get_num_entries h - 1)"
    using s by (simp add: num_entries [OF inv] num_entries)
  then show ?thesis using hg s Remove may_fail_same [of h g] by (auto simp: map_state_of_def same_params_def)
next
  case Num_entries
  then show ?thesis using c inv by (auto simp: map_state_of_def)
next
  case Freeze
  have ok: "htab_ok (h\<lparr>frozen := True\<rparr>) = htab_ok h" and hm: "hash_map (h\<lparr>frozen := True\<rparr>) = hash_map h"
  proof -
    let ?h = "h\<lparr>frozen := True\<rparr>"
    have bc: "bucket_chain ?h = bucket_chain h" by (rule bucket_chain_cong) simp_all
    then have te: "table_elems ?h = table_elems h" by (simp only: table_elems_def) simp
    show "htab_ok ?h = htab_ok h"
      by (simp add: htab_inv_def dir_ok_def entries_ok_def keys_distinct_def counts_ok_def entries_of_def free_all_def bc te)
    show "hash_map ?h = hash_map h" by (simp add: hash_map_def hash_find_def te fun_eq_iff)
  qed
  show ?thesis using c inv Freeze ok hm
    by (auto simp: hash_freeze_def map_state_of_def may_fail_def hash_get_num_entries_def Let_def split: if_splits)
next
  case (Scan_begin l)
  then show ?thesis using c inv by (auto simp: scan_reply_def map_state_of_def register_seq_scan_def Let_def split: if_splits)
next
  case Scan_term
  have "deregister_loop t i x = Inl err \<Longrightarrow> err = Ereport ERROR ERRCODE_CHECK_VIOLATION" for t i x err
    by (induction t i x rule: deregister_loop.induct) (auto split: if_splits)
  then show ?thesis using Scan_term c inv by (auto simp: scan_reply_def map_state_of_def deregister_seq_scan_def split: if_splits sum.splits)
qed

lemma calls_refine:
  assumes "htab_ok h" "run_calls (cxt, h) calls = (replies, cxt', h')"
  shows "htab_ok h' \<and> match h' = match h \<and> may_fail h' = may_fail h \<and>
    spec_calls (match h) (may_fail h) (map_state_of h) calls replies = Some (map_state_of h')"
  using assms
proof (induction calls arbitrary: cxt h replies)
  case (Cons call calls)
  obtain r cxt1 h1 where r: "call_table (cxt, h) call = (r, cxt1, h1)" by (metis prod_cases3)
  obtain rs where rs: "run_calls (cxt1, h1) calls = (rs, cxt', h')" "replies = r # rs"
    using Cons.prems(2) r by (auto split: prod.splits)
  show ?case using call_refines [OF Cons.prems(1) r] Cons.IH [OF _ rs(1)] rs(2) by simp
qed simp

end
