(* ===== verification/DynaHashCreate.thy ===== *)
theory DynaHashCreate
  imports DynaHashMap Bitmapset "HOL-Library.Signed_Division"
begin

text \<open>
  Creating a hash table: the sizes of its parts, the functions on its keys and \<open>hash_create\<close>. A parameter of \<^verbatim>\<open>HASHCTL\<close> that counts only
  if a flag is set is an option here. The number of elements that the caller expects is not negative. Memory contexts, which decide where the memory
  comes from, and attaching to an existing shared table are left out.
\<close>

subsection \<open>Powers of two\<close>

text \<open>
  The numbers have 64 bits: a shift of \<open>limit\<close> drops its top bit, and a negative number is a large one when it is read as unsigned. \<open>None\<close> is a
  loop that does not end.
\<close>

partial_function (option) log2_loop :: "nat \<Rightarrow> nat \<Rightarrow> nat \<Rightarrow> nat option" where
  "log2_loop num i limit = (if limit < num then log2_loop num (i + 1) ((2 * limit) mod 2 ^ 64) else Some i)"

definition my_log2 :: "int \<Rightarrow> nat option" where
  "my_log2 num =
    (let num = (if num > LONG_MAX div 2 then LONG_MAX div 2 else num)
     in log2_loop (nat (num mod 2 ^ 64)) 0 1)"

definition next_pow2_long :: "int \<Rightarrow> nat option" where
  "next_pow2_long num = map_option (\<lambda>i. 2 ^ i) (my_log2 num)"

definition next_pow2_int :: "int \<Rightarrow> nat option" where
  "next_pow2_int num = map_option (\<lambda>i. 2 ^ i) (my_log2 (if num > INT_MAX div 2 then INT_MAX div 2 else num))"

text \<open>A loop that doubles a positive number until it reaches a bound.\<close>

function double_until :: "nat \<Rightarrow> nat \<Rightarrow> nat" where
  "double_until n bound = (if n < bound \<and> 0 < n then double_until (2 * n) bound else n)"
  by auto
termination by (relation "measure (\<lambda>(n, bound). bound - n)") auto

declare double_until.simps [simp del]

subsection \<open>Sizes\<close>

text \<open>An element has a header of 16 bytes and the entry of the caller.\<close>

definition element_size :: "nat \<Rightarrow> nat" where
  "element_size esize = MAXALIGN 16 + MAXALIGN esize"

function nelem_loop :: "nat \<Rightarrow> nat \<Rightarrow> nat" where
  "nelem_loop elementSize allocSize =
    (let allocSize' = 2 * allocSize; nelem_alloc = allocSize' div elementSize
     in if nelem_alloc < 32 \<and> 0 < allocSize \<and> 0 < elementSize then nelem_loop elementSize allocSize' else nelem_alloc)"
  by auto
termination
proof (relation "measure (\<lambda>(e, s). 32 * e - s)", goal_cases)
  case (2 e s s' n)
  then have "2 * s < 32 * e" by (metis div_less_iff_less_mult)
  then show ?case using 2 by auto
qed simp

declare nelem_loop.simps [simp del]

definition choose_nelem_alloc :: "nat \<Rightarrow> nat" where
  "choose_nelem_alloc esize = nelem_loop (element_size esize) (32 * 4)"

definition hash_select_dirsize :: "int \<Rightarrow> nat option" where
  "hash_select_dirsize num_entries =
    (case next_pow2_long ((num_entries - 1) sdiv int DEF_FFACTOR + 1) of
       None \<Rightarrow> None
     | Some nBuckets \<Rightarrow>
         (case next_pow2_long ((int nBuckets - 1) sdiv int DEF_SEGSIZE + 1) of
            None \<Rightarrow> None
          | Some nSegments \<Rightarrow> Some (double_until DEF_DIRSIZE nSegments)))"

subsection \<open>Keys\<close>

text \<open>Keys in memory are bytes; a string ends at the first zero byte, at the latest where the memory given ends.\<close>

definition char_at :: "uint8 list \<Rightarrow> uint8" where
  "char_at s = (case s of [] \<Rightarrow> 0 | ch # _ \<Rightarrow> ch)"

fun strncmp_eq :: "nat \<Rightarrow> uint8 list \<Rightarrow> uint8 list \<Rightarrow> bool" where
  "strncmp_eq 0 s t \<longleftrightarrow> True"
| "strncmp_eq (Suc n) s t \<longleftrightarrow> char_at s = char_at t \<and> (char_at s = 0 \<or> strncmp_eq n (tl s) (tl t))"

definition string_compare :: "uint8 list \<Rightarrow> uint8 list \<Rightarrow> nat \<Rightarrow> bool" where
  "string_compare key1 key2 ks = strncmp_eq (unat (of_nat ks - 1 :: uint64)) key1 key2"

fun strlcpy_loop :: "nat \<Rightarrow> uint8 list \<Rightarrow> uint8 list" where
  "strlcpy_loop 0 s = [0]"
| "strlcpy_loop (Suc n) s = (if char_at s = 0 then [0] else char_at s # strlcpy_loop n (tl s))"

definition strlcpy :: "uint8 list \<Rightarrow> nat \<Rightarrow> uint8 list" where
  "strlcpy src siz = (if siz = 0 then [] else strlcpy_loop (siz - 1) src)"

datatype HashValueFunc = String_hash | Tag_hash | Uint32_hash | User_hash "uint8 list \<Rightarrow> nat \<Rightarrow> uint32"
datatype HashCompareFunc = String_compare | Memcmp | User_compare "uint8 list \<Rightarrow> uint8 list \<Rightarrow> nat \<Rightarrow> bool"
datatype HashCopyFunc = Strlcpy | Memcpy | User_copy "uint8 list \<Rightarrow> nat \<Rightarrow> uint8 list"

record HASHCTL =
  info_num_partitions :: "nat option"
  info_ssize :: "nat option"
  info_dirsize :: "(nat \<times> int) option"
  info_ffactor :: "nat option"
  info_elem :: "(nat \<times> nat) option"
  info_alloc :: "HashAllocFunc option"
  info_noexcept :: bool
  info_shared :: bool
  info_fixed_size :: bool
  info_blobs :: bool
  info_hash :: "HashValueFunc option"
  info_match :: "HashCompareFunc option"
  info_keycopy :: "HashCopyFunc option"

record 'k HashFunctions =
  fn_hash :: "'k \<Rightarrow> uint32"
  fn_match :: "'k \<Rightarrow> 'k \<Rightarrow> bool"
  fn_keycopy :: "'k \<Rightarrow> 'k"

definition info_keysize :: "HASHCTL \<Rightarrow> nat" where
  "info_keysize info = (case info_elem info of None \<Rightarrow> 8 | Some (ks, _) \<Rightarrow> ks)"

definition select_hash :: "HASHCTL \<Rightarrow> HashValueFunc" where
  "select_hash info = (case info_hash info of Some f \<Rightarrow> f | None \<Rightarrow>
     if info_blobs info then (if info_keysize info = 4 then Uint32_hash else Tag_hash) else String_hash)"

definition select_match :: "HASHCTL \<Rightarrow> HashCompareFunc" where
  "select_match info = (case info_match info of Some f \<Rightarrow> f | None \<Rightarrow> if select_hash info = String_hash then String_compare else Memcmp)"

definition select_keycopy :: "HASHCTL \<Rightarrow> HashCopyFunc" where
  "select_keycopy info = (case info_keycopy info of Some f \<Rightarrow> f | None \<Rightarrow> if select_hash info = String_hash then Strlcpy else Memcpy)"

definition key_functions :: "byte_order \<Rightarrow> bool \<Rightarrow> HASHCTL \<Rightarrow> uint8 list HashFunctions" where
  "key_functions e aligned info =
    (let n = info_keysize info in
     \<lparr>fn_hash = (\<lambda>k. case select_hash info of String_hash \<Rightarrow> string_hash e aligned k n | Tag_hash \<Rightarrow> tag_hash e aligned k n
          | Uint32_hash \<Rightarrow> uint32_hash (fetch_word e k 0) | User_hash f \<Rightarrow> f k n),
      fn_match = (\<lambda>k k'. case select_match info of String_compare \<Rightarrow> string_compare k k' n | Memcmp \<Rightarrow> take n k = take n k' | User_compare f \<Rightarrow> f k k' n),
      fn_keycopy = (\<lambda>k. case select_keycopy info of Strlcpy \<Rightarrow> strlcpy k n | Memcpy \<Rightarrow> take n k | User_copy f \<Rightarrow> f k n)\<rparr>)"

subsection \<open>Creation\<close>

definition hdefault :: HASHHDR where
  "hdefault = \<lparr>freeList = replicate NUM_FREELISTS \<lparr>nentries = 0, free_elems = []\<rparr>, dsize = DEF_DIRSIZE, nsegs = 0, max_bucket = 0, high_mask = 0,
     low_mask = 0, keysize = 8, entrysize = 2 * 8, num_partitions = 0, ffactor = DEF_FFACTOR, max_dsize = NO_MAX_DSIZE, ssize = DEF_SEGSIZE,
     sshift = DEF_SEGSIZE_SHIFT, nelem_alloc = 0\<rparr>"

text \<open>The header with the parameters of the caller; \<open>None\<close> if the logarithm of the segment size is not reached.\<close>

definition set_params :: "HASHCTL \<Rightarrow> HASHHDR option" where
  "set_params info =
    (let c = hdefault;
         c = (case info_num_partitions info of None \<Rightarrow> c | Some n \<Rightarrow> c\<lparr>num_partitions := n\<rparr>);
         c' = (case info_ssize info of None \<Rightarrow> Some c | Some n \<Rightarrow> map_option (\<lambda>s. c\<lparr>ssize := n, sshift := s\<rparr>) (my_log2 (int n)))
     in map_option (\<lambda>c.
       let c = (case info_ffactor info of None \<Rightarrow> c | Some n \<Rightarrow> c\<lparr>ffactor := n\<rparr>);
           c = (case info_dirsize info of None \<Rightarrow> c | Some (d, m) \<Rightarrow> c\<lparr>max_dsize := m, dsize := d\<rparr>)
       in (case info_elem info of None \<Rightarrow> c | Some (ks, es) \<Rightarrow> c\<lparr>keysize := ks, entrysize := es\<rparr>)) c')"

fun init_segments :: "nat \<Rightarrow> ('k, 'v) HTAB \<Rightarrow> (bool, 'k, 'v) htab_result" where
  "init_segments 0 h = (Inr True, h)"
| "init_segments (Suc n) h =
    hash_bind (seg_alloc h) (\<lambda>seg h.
      let h = h\<lparr>dir := (dir h)[nsegs (hctl h) := seg]\<rparr>
      in if seg = None then (Inr False, h) else init_segments n (upd_hctl (\<lambda>c. c\<lparr>nsegs := nsegs c + 1\<rparr>) h))"

text \<open>
  A shared table has its directory in the memory of the header; then \<open>dir\<close> is there already. Otherwise the directory is allocated.
\<close>

definition init_directory :: "nat \<Rightarrow> ('k, 'v) HTAB \<Rightarrow> (bool, 'k, 'v) htab_result" where
  "init_directory segs h =
    (if segs > dsize (hctl h) \<and> isshared h then (Inr False, h)
     else (let h = (if segs > dsize (hctl h) then upd_hctl (\<lambda>c. c\<lparr>dsize := segs\<rparr>) h else h)
      in hash_bind (if isshared h then (Inr True, h)
          else hash_bind (hash_alloc h) (\<lambda>ok h. (Inr ok, if ok then h\<lparr>dir := replicate (dsize (hctl h)) None\<rparr> else h)))
        (\<lambda>ok h. if \<not> ok then (Inr False, h) else init_segments segs h)))"

definition init_htab :: "int \<Rightarrow> ('k, 'v) HTAB \<Rightarrow> (bool, 'k, 'v) htab_result option" where
  "init_htab nelem h =
    (case next_pow2_int ((nelem - 1) sdiv int (ffactor (hctl h)) + 1) of
       None \<Rightarrow> None
     | Some nbuckets \<Rightarrow>
         (let nbuckets = double_until nbuckets (num_partitions (hctl h));
              h = upd_hctl (\<lambda>c. c\<lparr>max_bucket := nbuckets - 1, low_mask := nbuckets - 1, high_mask := 2 * nbuckets - 1\<rparr>) h
          in case next_pow2_int (int ((nbuckets - 1) div ssize (hctl h) + 1)) of
               None \<Rightarrow> None
             | Some segs \<Rightarrow> Some (hash_bind (init_directory segs h) (\<lambda>ok h.
                 if \<not> ok then (Inr False, h)
                 else (Inr True, upd_hctl (\<lambda>c. c\<lparr>nelem_alloc := choose_nelem_alloc (entrysize c)\<rparr>) h)))))"

fun prealloc_loop :: "nat \<Rightarrow> nat \<Rightarrow> nat list \<Rightarrow> ('k, 'v) HTAB \<Rightarrow> (unit, 'k, 'v) htab_result" where
  "prealloc_loop alloc_first alloc_each [] h = (Inr (), h)"
| "prealloc_loop alloc_first alloc_each (i # is) h =
    hash_bind (element_alloc (if i = 0 then alloc_first else alloc_each) i h) (\<lambda>ok h.
      if ok then prealloc_loop alloc_first alloc_each is h else (Inl OUT_OF_MEMORY, h))"

text \<open>
  The number of elements is a \<^verbatim>\<open>long\<close>, the numbers of elements for each free list are of type \<^verbatim>\<open>int\<close>: \<open>int_of_long\<close> is the narrowing. If such a number is not
  positive, \<open>element_alloc\<close> asks for a block of a meaningless size and writes to its first element; this has no result in the model.
\<close>

definition int_of_long :: "int \<Rightarrow> int" where
  "int_of_long x = (x + 2 ^ 31) mod 2 ^ 32 - 2 ^ 31"

definition prealloc :: "int \<Rightarrow> ('k, 'v) HTAB \<Rightarrow> (unit, 'k, 'v) htab_result option" where
  "prealloc nelem h =
    (let freelist_partitions = (if IS_PARTITIONED (hctl h) then NUM_FREELISTS else 1);
         alloc_each = int_of_long (nelem sdiv int freelist_partitions);
         alloc_each = (if alloc_each = 0 then 1 else alloc_each);
         alloc_first = (if int_of_long (alloc_each * int freelist_partitions) < nelem
           then int_of_long (nelem - int_of_long (alloc_each * (int freelist_partitions - 1))) else alloc_each)
     in if alloc_first \<le> 0 \<or> 1 < freelist_partitions \<and> alloc_each \<le> 0 then None
        else Some (prealloc_loop (nat alloc_first) (nat alloc_each) [0..<freelist_partitions] h))"

text \<open>
  The first allocation, of the HTAB itself, is with the default allocator; the second, of the header, is needed for a table that is not shared.
  \<open>mem\<close> is the contents of the memory before it is written, \<open>ok\<close> tells which allocations succeed. No value means that the call does not return, or that the
  number of elements that it allocates in advance has been narrowed to one that is not positive.
\<close>

definition create_table ::
  "nat \<Rightarrow> 'k HashFunctions \<Rightarrow> int \<Rightarrow> HASHCTL \<Rightarrow> (nat \<Rightarrow> ('k, 'v) HASHELEMENT) \<Rightarrow> (nat \<Rightarrow> bool) \<Rightarrow> (unit, 'k, 'v) htab_result option" where
  "create_table tab fns nelem info mem ok =
    (case set_params info of
       None \<Rightarrow> None
     | Some c \<Rightarrow>
        (let h = \<lparr>htab_id = tab, hctl = c, dir = (if info_shared info then replicate (dsize c) None else []), hash = fn_hash fns, match = fn_match fns,
              keycopy = fn_keycopy fns,
              alloc = (case info_alloc info of Some f \<Rightarrow> f | None \<Rightarrow> if info_noexcept info then DynaHashAllocNoExcept else DynaHashAlloc),
              isshared = info_shared info, isfixed = False, frozen = False, elems = mem, next_elem = 0, alloc_ok = ok, nallocs = 1\<rparr>
         in if \<not> ok 0 then Some (Inl OUT_OF_MEMORY, h)
            else (case (if isshared h then (Inr True, h) else hash_alloc h) of
                (Inl e, h) \<Rightarrow> Some (Inl e, h)
              | (Inr got, h) \<Rightarrow>
                  if \<not> got then Some (Inl OUT_OF_MEMORY, h)
                  else (case init_htab nelem h of
                      None \<Rightarrow> None
                    | Some (Inl e, h) \<Rightarrow> Some (Inl e, h)
                    | Some (Inr ready, h) \<Rightarrow>
                        if \<not> ready then Some (Inl OUT_OF_MEMORY, h)
                        else map_option (\<lambda>m. hash_bind m (\<lambda>_ h. (Inr (), h\<lparr>isfixed := info_fixed_size info\<rparr>)))
                          (if isshared h \<or> nelem < int (nelem_alloc (hctl h)) then prealloc nelem h else Some (Inr (), h))))))"

definition hash_create ::
  "byte_order \<Rightarrow> bool \<Rightarrow> nat \<Rightarrow> int \<Rightarrow> HASHCTL \<Rightarrow> (nat \<Rightarrow> (uint8 list, 'v) HASHELEMENT) \<Rightarrow> (nat \<Rightarrow> bool) \<Rightarrow> (unit, uint8 list, 'v) htab_result option" where
  "hash_create e aligned tab nelem info mem ok = create_table tab (key_functions e aligned info) nelem info mem ok"

subsection \<open>Logarithms\<close>

lemma log2_loop_spec:
  assumes "num \<le> 2 ^ (i + d)" "i + d \<le> 63"
  shows "\<exists>j. log2_loop num i (2 ^ i) = Some j \<and> i \<le> j \<and> j \<le> i + d \<and> num \<le> 2 ^ j \<and> (i < j \<longrightarrow> 2 ^ (j - 1) < num)"
  using assms
proof (induction d arbitrary: i)
  case 0
  then show ?case by (subst log2_loop.simps) simp
next
  case (Suc d)
  show ?case
  proof (cases "2 ^ i < num")
    case False
    then show ?thesis by (subst log2_loop.simps) simp
  next
    case True
    have lt: "(2::nat) ^ Suc i < 2 ^ 64" by (rule power_strict_increasing) (use Suc.prems in auto)
    obtain j where j: "log2_loop num (Suc i) (2 ^ Suc i) = Some j" "Suc i \<le> j" "j \<le> Suc i + d" "num \<le> 2 ^ j" "Suc i < j \<longrightarrow> 2 ^ (j - 1) < num"
      using Suc.IH [of "Suc i"] Suc.prems by auto
    have "log2_loop num i (2 ^ i) = log2_loop num (Suc i) (2 ^ Suc i)"
      using True lt by (subst log2_loop.simps) simp
    moreover have "2 ^ (j - 1) < num" using j(2,5) True by (cases "j = Suc i") auto
    ultimately show ?thesis using j by auto
  qed
qed

lemma log2_loop_zero:
  assumes "0 < num"
  shows "log2_loop num i 0 = None"
proof (rule ccontr)
  assume "log2_loop num i 0 \<noteq> None"
  then obtain j where "log2_loop num i 0 = Some j" by blast
  then have "0 < num \<longrightarrow> (0::nat) \<noteq> 0"
  proof (rule log2_loop.raw_induct [where P = "\<lambda>num i limit j. 0 < num \<longrightarrow> limit \<noteq> 0", rotated])
    fix f :: "nat \<Rightarrow> nat \<Rightarrow> nat \<Rightarrow> nat option" and num i limit j :: nat
    assume IH: "\<And>n i l j. f n i l = Some j \<Longrightarrow> 0 < n \<longrightarrow> l \<noteq> 0"
      and b: "(if limit < num then f num (i + 1) (2 * limit mod 2 ^ 64) else Some i) = Some j"
    show "0 < num \<longrightarrow> limit \<noteq> 0"
      using IH [of num "i + 1" 0 j] b by (cases "limit = 0") (auto split: if_splits)
  qed
  then show False using assms by simp
qed

lemma log2_loop_diverges:
  assumes "2 ^ 63 < num" "i \<le> 63"
  shows "log2_loop num i (2 ^ i) = None"
  using assms
proof (induction "63 - i" arbitrary: i)
  case 0
  then have i: "i = 63" by simp
  have "log2_loop num (Suc 63) 0 = None" by (rule log2_loop_zero) (use 0(2) in simp)
  then show ?case using 0(2) unfolding i by (subst log2_loop.simps) simp
next
  case (Suc d)
  have lt: "(2::nat) ^ Suc i < 2 ^ 64" by (rule power_strict_increasing) (use Suc.hyps(2) in auto)
  have "(2::nat) ^ i \<le> 2 ^ 63" by (rule power_increasing) (use Suc.prems in auto)
  then have "log2_loop num i (2 ^ i) = log2_loop num (Suc i) (2 ^ Suc i)"
    using Suc.prems lt by (subst log2_loop.simps) simp
  moreover have "log2_loop num (Suc i) (2 ^ Suc i) = None" by (rule Suc.hyps(1)) (use Suc in auto)
  ultimately show ?case by simp
qed

lemma my_log2_spec:
  assumes "0 \<le> n"
  shows "\<exists>i \<le> 62. my_log2 n = Some i \<and> nat (min n (2 ^ 62 - 1)) \<le> 2 ^ i \<and> (0 < i \<longrightarrow> 2 ^ (i - 1) < nat (min n (2 ^ 62 - 1)))"
proof -
  let ?n = "min n (2 ^ 62 - 1)"
  have m: "(if n > LONG_MAX div 2 then LONG_MAX div 2 else n) = ?n" by (simp add: LONG_MAX_def min_def)
  have "?n mod 2 ^ 64 = ?n" using assms by (simp add: min_def)
  moreover have "nat ?n \<le> 2 ^ (0 + 62)" using assms by (simp add: min_def nat_le_iff)
  then obtain i where "log2_loop (nat ?n) 0 (2 ^ 0) = Some i" "i \<le> 62" "nat ?n \<le> 2 ^ i" "0 < i \<longrightarrow> 2 ^ (i - 1) < nat ?n"
    using log2_loop_spec [of "nat ?n" 0 62] by auto
  ultimately show ?thesis unfolding my_log2_def Let_def m by auto
qed

lemma next_pow2_long_spec:
  assumes "0 \<le> n" "n < 2 ^ 62"
  shows "\<exists>i. next_pow2_long n = Some (2 ^ i) \<and> n \<le> 2 ^ i \<and> (0 < i \<longrightarrow> 2 ^ (i - 1) < n)"
proof -
  obtain i where i: "my_log2 n = Some i" "nat (min n (2 ^ 62 - 1)) \<le> 2 ^ i" "0 < i \<longrightarrow> 2 ^ (i - 1) < nat (min n (2 ^ 62 - 1))"
    using my_log2_spec [OF assms(1)] by blast
  have "min n (2 ^ 62 - 1) = n" using assms(2) by simp
  then show ?thesis using i assms(1) by (auto simp: next_pow2_long_def nat_le_iff zless_nat_eq_int_zless)
qed

lemma next_pow2_int_spec:
  assumes "0 \<le> n"
  shows "\<exists>i \<le> 30. next_pow2_int n = Some (2 ^ i) \<and> (n \<le> 2 ^ 30 \<longrightarrow> n \<le> 2 ^ i) \<and> (0 < i \<longrightarrow> 2 ^ (i - 1) < n)"
proof -
  let ?n = "if n > INT_MAX div 2 then INT_MAX div 2 else n"
  have b: "0 \<le> ?n" "?n < 2 ^ 30" "min ?n (2 ^ 62 - 1) = ?n" using assms by (auto simp: INT_MAX_def)
  obtain i where i: "my_log2 ?n = Some i" "nat ?n \<le> 2 ^ i" "0 < i \<longrightarrow> 2 ^ (i - 1) < nat ?n"
    using my_log2_spec [OF b(1)] unfolding b(3) by blast
  have le: "?n \<le> 2 ^ i" "0 < i \<longrightarrow> 2 ^ (i - 1) < ?n" using i(2,3) b(1) by (auto simp: nat_le_iff zless_nat_eq_int_zless)
  have i30: "i \<le> 30"
  proof (rule ccontr)
    assume "\<not> i \<le> 30"
    then have "(2::int) ^ 30 \<le> 2 ^ (i - 1)" by (intro power_increasing) auto
    then show False using le(2) b(2) \<open>\<not> i \<le> 30\<close> by auto
  qed
  have "n \<le> 2 ^ i" if "n \<le> 2 ^ 30"
  proof (cases "n > INT_MAX div 2")
    case True
    then have "(2::int) ^ 30 - 1 \<le> 2 ^ i" using le(1) by (simp add: INT_MAX_def)
    moreover have "i = 30"
    proof (rule ccontr)
      assume "i \<noteq> 30"
      then have "(2::int) ^ i \<le> 2 ^ 29" using i30 by (intro power_increasing) auto
      then show False using calculation by simp
    qed
    ultimately show ?thesis using that by simp
  qed (use le in simp)
  moreover have "?n \<le> n" by auto
  ultimately show ?thesis using i(1) i30 le(2) by (auto simp: next_pow2_int_def)
qed

lemma double_until_pow2: "\<exists>j. double_until (2 ^ i) b = 2 ^ j \<and> i \<le> j \<and> b \<le> 2 ^ j \<and> (i < j \<longrightarrow> 2 ^ (j - 1) < b)"
proof (induction "b - 2 ^ i" arbitrary: i rule: less_induct)
  case less
  show ?case
  proof (cases "2 ^ i < b")
    case False
    then show ?thesis by (subst double_until.simps) (auto intro!: exI [of _ i])
  next
    case True
    have "b - 2 ^ Suc i < b - 2 ^ i" using True by (simp add: diff_less_mono2)
    then obtain j where j: "double_until (2 ^ Suc i) b = 2 ^ j" "Suc i \<le> j" "b \<le> 2 ^ j" "Suc i < j \<longrightarrow> 2 ^ (j - 1) < b"
      using less [of "Suc i"] by blast
    have "double_until (2 ^ i) b = double_until (2 ^ Suc i) b" using True by (subst double_until.simps) simp
    moreover have "2 ^ (j - 1) < b" using j(2,4) True by (cases "j = Suc i") auto
    ultimately show ?thesis using j by auto
  qed
qed

lemma nelem_loop_ge: "0 < e \<Longrightarrow> 0 < s \<Longrightarrow> 32 \<le> nelem_loop e s"
  by (induction e s rule: nelem_loop.induct) (subst nelem_loop.simps, auto simp: Let_def)

lemma nelem_loop_less: "0 < e \<Longrightarrow> s div e < 32 \<Longrightarrow> nelem_loop e s < 64"
proof (induction e s rule: nelem_loop.induct)
  case (1 e s)
  have "2 * s div e \<le> 2 * (s div e) + 1"
  proof -
    have "s < e * (s div e) + e" using 1(2) by (metis add.commute mult.commute dividend_less_div_times)
    then have "2 * s < (2 * (s div e) + 2) * e" by (simp add: algebra_simps)
    then have "2 * s div e < 2 * (s div e) + 2" using 1(2) by (simp add: div_less_iff_less_mult)
    then show ?thesis by linarith
  qed
  then have "2 * s div e < 64" using 1(3) by linarith
  then show ?case using 1 by (subst nelem_loop.simps) (auto simp: Let_def)
qed

lemma choose_nelem_alloc_less: "choose_nelem_alloc esize < 64"
proof -
  have "16 \<le> element_size esize" by (simp add: element_size_def MAXALIGN_def)
  then have "0 < element_size esize" "128 div element_size esize < 32" using div_le_mono2 [of 16 "element_size esize" 128] by simp_all
  then show ?thesis unfolding choose_nelem_alloc_def using nelem_loop_less [of "element_size esize" "32 * 4"] by simp
qed

lemma choose_nelem_alloc_ge: "32 \<le> choose_nelem_alloc esize"
  unfolding choose_nelem_alloc_def by (rule nelem_loop_ge) (simp_all add: element_size_def MAXALIGN_def)

subsection \<open>Functions on keys\<close>

definition c_string :: "uint8 list \<Rightarrow> uint8 list" where
  "c_string s = takeWhile (\<lambda>ch. ch \<noteq> 0) s"

lemma c_string_simps: "c_string [] = []" "c_string (x # xs) = (if x = 0 then [] else x # c_string xs)"
  by (simp_all add: c_string_def)

lemma strncmp_eq_iff: "strncmp_eq n s t \<longleftrightarrow> take n (c_string s) = take n (c_string t)"
proof (induction n arbitrary: s t)
  case (Suc n)
  then show ?case by (cases s; cases t) (auto simp: c_string_simps char_at_def)
qed simp

lemma strlcpy_loop_eq: "strlcpy_loop n s = take n (c_string s) @ [0]"
proof (induction n arbitrary: s)
  case (Suc n)
  then show ?case by (cases s) (auto simp: c_string_simps char_at_def)
qed simp

lemma c_string_zero: "c_string (take n (c_string s) @ [0]) = take n (c_string s)"
proof (induction s arbitrary: n)
  case (Cons x s)
  then show ?case by (cases n) (simp_all add: c_string_simps)
qed (simp add: c_string_simps)

lemma string_hash_eq: "string_hash e al k n = hash_any e al (take (unat (of_nat n - 1 :: uint64)) (c_string k))"
proof -
  let ?P = "\<lambda>ch :: uint8. ch \<noteq> 0"
  have "take (min (length (takeWhile ?P k)) m) k = take m (takeWhile ?P k)" for m
    using arg_cong [where f = "take m", OF takeWhile_eq_take, of ?P k] by (simp only: take_take min.commute)
  then show ?thesis by (simp add: string_hash_def c_string_def Let_def)
qed

lemma unat_pred: "0 < n \<Longrightarrow> n < 2 ^ 64 \<Longrightarrow> unat (of_nat n - 1 :: uint64) = n - 1"
proof -
  assume n: "0 < n" "n < 2 ^ 64"
  have "(of_nat n - 1 :: uint64) = of_nat (n - 1)" using n(1) by simp
  then show ?thesis unfolding unat_of_nat using n by (simp only: unat_of_nat) simp
qed

lemma string_keys:
  assumes "0 < n" "n < 2 ^ 64"
  shows "hash_keys (\<lambda>k. string_hash e al k n) (\<lambda>k k'. string_compare k k' n) (\<lambda>k. strlcpy k n)"
  by unfold_locales (use assms in \<open>auto simp: string_compare_def strncmp_eq_iff string_hash_eq strlcpy_def strlcpy_loop_eq unat_pred c_string_zero\<close>)

lemma fetch_word_take: "take 4 k = take 4 k' \<Longrightarrow> fetch_word e k 0 = fetch_word e k' 0"
proof -
  assume eq: "take 4 k = take 4 k'"
  have "k ! i = k' ! i" if "i < 4" for i
  proof (cases "4 \<le> length k \<and> 4 \<le> length k'")
    case True
    then show ?thesis using eq that by (metis nth_take)
  next
    case False
    moreover have "length (take 4 k) = length (take 4 k')" using eq by simp
    ultimately have "length k < 4" "length k' < 4" by (auto simp: min_def split: if_splits)
    then show ?thesis using eq by simp
  qed
  then show ?thesis by (simp add: fetch_word_def byte_at_def split: byte_order.splits)
qed

interpretation tag_keys: hash_keys "\<lambda>k. tag_hash e al k n" "\<lambda>k k'. take n k = take n k'" "\<lambda>k. take n k" for e al n
  by unfold_locales (auto simp: tag_hash_def)

interpretation uint32_keys: hash_keys "\<lambda>k. uint32_hash (fetch_word e k 0)" "\<lambda>k k'. take 4 k = take 4 k'" "\<lambda>k. take 4 k" for e
  by unfold_locales (auto intro!: arg_cong [where f = uint32_hash] fetch_word_take)

interpretation name_keys: hash_keys "\<lambda>k. string_hash e al k 64" "\<lambda>k k'. string_compare k k' 64" "\<lambda>k. strlcpy k 64" for e al
  by (rule string_keys) simp_all

abbreviation functions_ok :: "'k HashFunctions \<Rightarrow> bool" where
  "functions_ok fns \<equiv> hash_keys (fn_hash fns) (fn_match fns) (fn_keycopy fns)"

text \<open>The functions that \<open>hash_create\<close> chooses when the caller gives none agree with each other.\<close>

lemma key_functions_ok:
  assumes "info_hash info = None" "info_match info = None" "info_keycopy info = None" "0 < info_keysize info" "info_keysize info < 2 ^ 64"
  shows "functions_ok (key_functions e al info)"
proof -
  consider "\<not> info_blobs info" | "info_blobs info" "info_keysize info = 4" | "info_blobs info" "info_keysize info \<noteq> 4" by blast
  then show ?thesis
    by cases (use assms tag_keys.hash_keys_axioms uint32_keys.hash_keys_axioms string_keys in
      \<open>simp_all add: key_functions_def select_hash_def select_match_def select_keycopy_def Let_def\<close>)
qed

subsection \<open>A new table\<close>

text \<open>What the code asserts of the parameters.\<close>

definition params_ok :: "HASHCTL \<Rightarrow> bool" where
  "params_ok info \<longleftrightarrow> (\<forall>n. info_num_partitions info = Some n \<longrightarrow> (\<exists>k \<le> 30. n = 2 ^ k)) \<and> (\<forall>n. info_ssize info = Some n \<longrightarrow> (\<exists>k \<le> 30. n = 2 ^ k)) \<and>
    (\<forall>n. info_ffactor info = Some n \<longrightarrow> 0 < n)"

lemma my_log2_pow2: "k \<le> 30 \<Longrightarrow> my_log2 (2 ^ k) = Some k"
proof -
  assume k: "k \<le> 30"
  have lt: "(2::int) ^ k \<le> 2 ^ 30" using k by (intro power_increasing) auto
  then have m: "min (2 ^ k) (2 ^ 62 - 1) = (2 ^ k :: int)" by simp
  obtain i where i: "my_log2 (2 ^ k) = Some i" "nat (2 ^ k) \<le> 2 ^ i" "0 < i \<longrightarrow> 2 ^ (i - 1) < nat (2 ^ k)"
    using my_log2_spec [of "2 ^ k"] unfolding m by auto
  have "k \<le> i" using i(2) by (simp add: nat_power_eq)
  moreover have "i \<le> k" using i(3) by (cases i) (simp_all add: nat_power_eq)
  ultimately show ?thesis using i(1) by simp
qed

lemma set_params_ok:
  assumes "params_ok info"
  shows "\<exists>c. set_params info = Some c \<and> ssize c = 2 ^ sshift c \<and> nsegs c = 0 \<and> 0 < ffactor c \<and>
    freeList c = replicate NUM_FREELISTS \<lparr>nentries = 0, free_elems = []\<rparr> \<and> (num_partitions c = 0 \<or> (\<exists>k \<le> 30. num_partitions c = 2 ^ k)) \<and>
    num_partitions c = (case info_num_partitions info of None \<Rightarrow> 0 | Some n \<Rightarrow> n) \<and>
    dsize c = (case info_dirsize info of None \<Rightarrow> DEF_DIRSIZE | Some (d, _) \<Rightarrow> d)"
proof -
  let ?c = "case info_num_partitions info of None \<Rightarrow> hdefault | Some n \<Rightarrow> hdefault\<lparr>num_partitions := n\<rparr>"
  have c: "ssize ?c = 2 ^ sshift ?c" "nsegs ?c = 0" "0 < ffactor ?c" "freeList ?c = replicate NUM_FREELISTS \<lparr>nentries = 0, free_elems = []\<rparr>"
    "num_partitions ?c = (case info_num_partitions info of None \<Rightarrow> 0 | Some n \<Rightarrow> n)" "dsize ?c = DEF_DIRSIZE"
    by (simp_all add: hdefault_def DEF_SEGSIZE_def DEF_SEGSIZE_SHIFT_def DEF_FFACTOR_def split: option.split)
  obtain n s where ns: "(case info_ssize info of None \<Rightarrow> Some ?c | Some n \<Rightarrow> map_option (\<lambda>s. ?c\<lparr>ssize := n, sshift := s\<rparr>) (my_log2 (int n))) =
      Some (?c\<lparr>ssize := n, sshift := s\<rparr>)" "n = 2 ^ s"
  proof (cases "info_ssize info")
    case None
    show ?thesis by (rule that [OF _ c(1)]) (simp add: None)
  next
    case (Some n)
    then obtain k where k: "n = 2 ^ k" "k \<le> 30" using assms by (auto simp: params_ok_def)
    show ?thesis by (rule that [OF _ k(1)]) (simp add: Some k my_log2_pow2)
  qed
  show ?thesis unfolding set_params_def Let_def ns(1) using assms c ns(2)
    by (auto simp: params_ok_def split: option.splits)
qed

lemma init_segments_spec:
  assumes "init_segments n h = (r, h')" "nsegs (hctl h) + n \<le> length (dir h)" "\<forall>i < nsegs (hctl h). dir h ! i = Some (replicate (ssize (hctl h)) [])"
  shows "\<exists>m ds s. h' = h\<lparr>nallocs := m, dir := ds, hctl := (hctl h)\<lparr>nsegs := s\<rparr>\<rparr> \<and>
    (r = Inr True \<longrightarrow> s = nsegs (hctl h) + n \<and> length ds = length (dir h) \<and> (\<forall>i < s. ds ! i = Some (replicate (ssize (hctl h)) []))) \<and>
    (r \<noteq> Inr True \<longrightarrow> (\<exists>n. \<not> alloc_ok h n)) \<and> (\<forall>e. r = Inl e \<longrightarrow> e = OUT_OF_MEMORY)"
  using assms
proof (induction n arbitrary: h)
  case 0
  have "h = h\<lparr>nallocs := nallocs h, dir := dir h, hctl := (hctl h)\<lparr>nsegs := nsegs (hctl h)\<rparr>\<rparr>" by simp
  then show ?case using 0 by (intro exI [of _ "nallocs h"] exI [of _ "dir h"] exI [of _ "nsegs (hctl h)"]) auto
next
  case (Suc n)
  show ?case
  proof (cases "alloc_ok h (nallocs h)")
    case True
    let ?h = "h\<lparr>nallocs := Suc (nallocs h), dir := (dir h)[nsegs (hctl h) := Some (replicate (ssize (hctl h)) [])],
      hctl := (hctl h)\<lparr>nsegs := Suc (nsegs (hctl h))\<rparr>\<rparr>"
    have "init_segments n ?h = (r, h')"
      using Suc.prems(1) True by (simp add: seg_alloc_def hash_alloc_simps upd_hctl_def Let_def)
    moreover have "\<forall>i < nsegs (hctl ?h). dir ?h ! i = Some (replicate (ssize (hctl ?h)) [])"
      using Suc.prems(2,3) by (auto simp: nth_list_update less_Suc_eq)
    ultimately obtain m ds s where "h' = ?h\<lparr>nallocs := m, dir := ds, hctl := (hctl ?h)\<lparr>nsegs := s\<rparr>\<rparr>"
      "r = Inr True \<longrightarrow> s = nsegs (hctl ?h) + n \<and> length ds = length (dir ?h) \<and> (\<forall>i < s. ds ! i = Some (replicate (ssize (hctl ?h)) []))"
      "r \<noteq> Inr True \<longrightarrow> (\<exists>n. \<not> alloc_ok ?h n)" "\<forall>e. r = Inl e \<longrightarrow> e = OUT_OF_MEMORY"
      using Suc.IH [of ?h] Suc.prems(2) by auto
    then show ?thesis by (intro exI [of _ m] exI [of _ ds] exI [of _ s]) simp
  next
    case False
    let ?h = "\<lambda>ds. h\<lparr>nallocs := Suc (nallocs h), dir := ds, hctl := (hctl h)\<lparr>nsegs := nsegs (hctl h)\<rparr>\<rparr>"
    have "r = Inl OUT_OF_MEMORY \<and> h' = ?h (dir h) \<or> r = Inr False \<and> h' = ?h ((dir h)[nsegs (hctl h) := None])"
      using Suc.prems(1) False by (auto simp: seg_alloc_def hash_alloc_simps Let_def split: if_splits)
    then show ?thesis using False by blast
  qed
qed

text \<open>A table without elements.\<close>

definition blank :: "('k, 'v) HTAB \<Rightarrow> bool" where
  "blank h \<longleftrightarrow> keys_ok h \<and> dir_ok h \<and> mask_ok (hctl h) \<and> 0 < nelem_alloc (hctl h) \<and> nelem_alloc (hctl h) < 64 \<and> next_elem h = 0 \<and>
    freeList (hctl h) = replicate NUM_FREELISTS \<lparr>nentries = 0, free_elems = []\<rparr> \<and>
    (\<forall>i < nsegs (hctl h). dir h ! i = Some (replicate (ssize (hctl h)) []))"

lemma blank_inv:
  assumes b: "blank h"
  shows "htab_ok h" "table_elems h = []"
proof -
  have d: "dir_ok h" using b by (simp add: blank_def)
  have ch: "bucket_chain h x = []" if "x \<le> max_bucket (hctl h)" for x
  proof -
    have "x div 2 ^ sshift (hctl h) < nsegs (hctl h)" using div_le_mono [OF that] dir_okD(4) [OF d] by (rule le_less_trans)
    then have "dir h ! (x div 2 ^ sshift (hctl h)) = Some (replicate (ssize (hctl h)) [])" using b by (simp add: blank_def)
    then show ?thesis by (simp add: bucket_chain_def drop_bit_eq_div dir_okD(1) [OF d] MOD_pow2)
  qed
  then have "a \<notin> set (table_elems h)" for a by (simp add: set_table_elems)
  then show te: "table_elems h = []" by (cases "table_elems h") auto
  have "entries_ok h" using ch by (simp add: entries_ok_def)
  moreover have "keys_distinct h" by (simp add: keys_distinct_def te)
  moreover have "counts_ok (\<lambda>_. 0) h" using b by (simp add: counts_ok_def entries_of_def te blank_def)
  moreover have "free_all h = []" using b by (simp add: free_all_def blank_def)
  moreover have "\<forall>i. 0 < i \<and> i < NUM_FREELISTS \<longrightarrow> free_elems (freeList (hctl h) ! i) = []" using b by (simp add: blank_def)
  ultimately show "htab_ok h" using b te by (simp add: htab_inv_def blank_def)
qed

lemma nelem_bound_nonneg: "0 < f \<Longrightarrow> 0 \<le> (int nelem - 1) sdiv int f + 1"
proof (cases "nelem = 0")
  case True
  assume "0 < f"
  then have "(1::int) div int f \<le> 1" by (cases "f = 1") (simp_all add: div_pos_pos_trivial)
  then show ?thesis using True by (simp add: signed_divide_int_def sgn_if)
next
  case False
  assume "0 < f"
  then have "0 \<le> (int nelem - 1) div int f" using False by (simp add: pos_imp_zdiv_nonneg_iff)
  then show ?thesis using False \<open>0 < f\<close> by (simp add: signed_divide_int_def sgn_if)
qed

lemma init_masks:
  assumes "nb = 2 ^ k" "c = c0\<lparr>max_bucket := nb - 1, low_mask := nb - 1, high_mask := 2 * nb - 1\<rparr>"
  shows "mask_ok c"
  using assms by (auto simp: mask_ok_def mask_eq_exp_minus_1 intro!: exI [of _ k])

definition new_table :: "('k, 'v) HTAB \<Rightarrow> bool" where
  "new_table h \<longleftrightarrow> keys_ok h \<and> ssize (hctl h) = 2 ^ sshift (hctl h) \<and> nsegs (hctl h) = 0 \<and> 0 < ffactor (hctl h) \<and> next_elem h = 0 \<and>
    freeList (hctl h) = replicate NUM_FREELISTS \<lparr>nentries = 0, free_elems = []\<rparr> \<and> (num_partitions (hctl h) = 0 \<or> (\<exists>k \<le> 30. num_partitions (hctl h) = 2 ^ k)) \<and>
    (isshared h \<longrightarrow> length (dir h) = dsize (hctl h))"

text \<open>The number of segments of a new table, and what its initialisation answers; a shared table is refused if its directory is too small.\<close>

definition segments_needed :: "nat \<Rightarrow> HASHHDR \<Rightarrow> nat option" where
  "segments_needed nelem c =
    (case next_pow2_int ((int nelem - 1) sdiv int (ffactor c) + 1) of
       None \<Rightarrow> None
     | Some nbuckets \<Rightarrow> next_pow2_int (int ((double_until nbuckets (num_partitions c) - 1) div ssize c + 1)))"

definition init_result :: "nat option \<Rightarrow> ('k, 'v) HTAB \<Rightarrow> bool result \<Rightarrow> ('k, 'v) HTAB \<Rightarrow> bool" where
  "init_result segs h r h' \<longleftrightarrow> same_params h h' \<and> elems h' = elems h \<and>
    (r = Inr True \<longrightarrow> blank h') \<and> (r \<noteq> Inr True \<longrightarrow> (\<exists>n. \<not> alloc_ok h n) \<or> isshared h \<and> dsize (hctl h) < the segs) \<and> (\<forall>e. r = Inl e \<longrightarrow> e = OUT_OF_MEMORY)"

lemma init_directory_spec:
  assumes new: "new_table h0" and h: "h = upd_hctl (\<lambda>c. c\<lparr>max_bucket := nb - 1, low_mask := nb - 1, high_mask := 2 * nb - 1\<rparr>) h0" and nb: "nb = 2 ^ k"
    and segs: "(nb - 1) div ssize (hctl h) < segs" and r: "init_directory segs h = (r, h')" and al: "0 < al" "al < 64"
  shows "init_result (Some segs) h0 r (upd_hctl (\<lambda>c. c\<lparr>nelem_alloc := al\<rparr>) h')"
proof -
  let ?fin = "upd_hctl (\<lambda>c. c\<lparr>nelem_alloc := al\<rparr>)"
  have mh: "mask_ok (hctl h)" by (rule init_masks [OF nb, of _ "hctl h0"]) (simp add: h upd_hctl_def)
  have sp: "same_params h0 h" "elems h = elems h0" "isshared h = isshared h0" "alloc_ok h = alloc_ok h0"
    by (simp_all add: h upd_hctl_def same_params_def)
  show ?thesis
  proof (cases "segs > dsize (hctl h) \<and> isshared h")
    case True
    then show ?thesis using r sp by (auto simp: init_directory_def init_result_def h upd_hctl_def same_params_def)
  next
    case False
    let ?g = "if segs > dsize (hctl h) then upd_hctl (\<lambda>c. c\<lparr>dsize := segs\<rparr>) h else h"
    have spg: "same_params h0 ?g" "elems ?g = elems h0" "isshared ?g = isshared h0" "alloc_ok ?g = alloc_ok h0" using sp by (simp_all add: upd_hctl_def same_params_def)
    have start: ?thesis if l: "init_segments segs d = (r, h')" and d: "d = ?g\<lparr>nallocs := m, dir := ds\<rparr>" and len: "length ds = dsize (hctl ?g)" for d m ds
    proof -
      have ns: "nsegs (hctl d) = 0" "segs \<le> length (dir d)" using new len by (auto simp: d h upd_hctl_def new_table_def)
      obtain m' ds' s where h': "h' = d\<lparr>nallocs := m', dir := ds', hctl := (hctl d)\<lparr>nsegs := s\<rparr>\<rparr>" and
        ok: "r = Inr True \<longrightarrow> s = segs \<and> length ds' = length (dir d) \<and> (\<forall>i < s. ds' ! i = Some (replicate (ssize (hctl d)) []))" and
        bad: "r \<noteq> Inr True \<longrightarrow> (\<exists>n. \<not> alloc_ok d n)" "\<forall>e. r = Inl e \<longrightarrow> e = OUT_OF_MEMORY"
        using init_segments_spec [OF l] ns by auto
      have "same_params h0 (?fin h')" "elems (?fin h') = elems h0" "alloc_ok d = alloc_ok h0"
        using spg by (simp_all add: h' d upd_hctl_def same_params_def)
      moreover have "blank (?fin h')" if t: "r = Inr True"
      proof -
        have "dir_ok (?fin h')"
          using ok t new segs ns len by (simp add: dir_ok_def h' d h upd_hctl_def new_table_def)
        moreover have "mask_ok (hctl (?fin h'))" using mh by (simp add: mask_ok_def h' d upd_hctl_def)
        ultimately show ?thesis using ok t new al by (simp add: blank_def h' d h upd_hctl_def new_table_def)
      qed
      ultimately show ?thesis using bad by (auto simp: init_result_def)
    qed
    show ?thesis
    proof (cases "isshared h")
      case True
      then have "init_segments segs ?g = (r, h')" "?g = ?g\<lparr>nallocs := nallocs ?g, dir := dir ?g\<rparr>"
        using r False by (simp_all add: init_directory_def Let_def upd_hctl_def)
      moreover have "length (dir ?g) = dsize (hctl ?g)" using True False new sp by (simp add: h upd_hctl_def new_table_def)
      ultimately show ?thesis by (rule start)
    next
      case ns: False
      then have gs: "\<not> isshared ?g" by (simp add: upd_hctl_def)
      show ?thesis
      proof (cases "alloc_ok ?g (nallocs ?g)")
        case True
        let ?d = "?g\<lparr>nallocs := Suc (nallocs ?g), dir := replicate (dsize (hctl ?g)) None\<rparr>"
        have "init_segments segs ?d = (r, h')"
          using r ns gs True by (simp only: init_directory_def Let_def hash_alloc_simps simp_thms if_False hash_bind_simps if_True) simp
        then show ?thesis by (rule start [OF _ refl]) simp
      next
        case nok: False
        have "h' = ?g\<lparr>nallocs := Suc (nallocs ?g)\<rparr>" "r = Inl OUT_OF_MEMORY \<or> r = Inr False"
          using r ns gs nok by (auto simp only: init_directory_def Let_def hash_alloc_simps simp_thms if_False hash_bind_simps if_True split: if_splits)
        then show ?thesis using spg nok by (auto simp: init_result_def upd_hctl_def same_params_def)
      qed
    qed
  qed
qed

text \<open>The numbers of buckets and of segments are powers of two, at least as many as are needed.\<close>

lemma bucket_numbers:
  assumes f: "0 < f" and p: "p = 0 \<or> (\<exists>k \<le> 30. p = 2 ^ k)"
  obtains i k where "next_pow2_int ((int nelem - 1) sdiv int f + 1) = Some (2 ^ i)" "double_until (2 ^ i) p = 2 ^ k" "i \<le> k" "k \<le> 30" "p \<le> 2 ^ k"
proof -
  obtain i where i: "i \<le> 30" "next_pow2_int ((int nelem - 1) sdiv int f + 1) = Some (2 ^ i)"
    using next_pow2_int_spec [OF nelem_bound_nonneg [OF f]] by blast
  obtain k where k: "double_until (2 ^ i) p = 2 ^ k" "i \<le> k" "p \<le> 2 ^ k" "i < k \<longrightarrow> 2 ^ (k - 1) < p"
    using double_until_pow2 by blast
  have "k \<le> 30"
  proof (cases "i = k")
    case False
    then have "2 ^ (k - 1) < p" using k(2,4) by simp
    then obtain m where m: "m \<le> 30" "p = 2 ^ m" using p by auto
    then have "k - 1 < m" using \<open>2 ^ (k - 1) < p\<close> by simp
    then show ?thesis using m(1) by simp
  qed (use i in simp)
  then show ?thesis using that i k by blast
qed

lemma segment_number:
  assumes "k \<le> 30"
  obtains j where "next_pow2_int (int ((2 ^ k - 1) div s + 1)) = Some (2 ^ j)" "(2 ^ k - 1) div s < 2 ^ j" "0 < j \<Longrightarrow> 2 ^ (j - 1) \<le> (2 ^ k - 1) div s"
proof -
  let ?n = "int ((2 ^ k - 1) div s + 1)"
  have "(2 ^ k - 1) div s \<le> 2 ^ k - (1::nat)" by (rule div_le_dividend)
  also have "\<dots> < 2 ^ 30"
  proof -
    have "(2::nat) ^ k \<le> 2 ^ 30" using assms by (intro power_increasing) auto
    then show ?thesis using zero_less_power [of "2::nat" k] by linarith
  qed
  finally have "?n \<le> 2 ^ 30" by simp
  then obtain j where j: "next_pow2_int ?n = Some (2 ^ j)" "?n \<le> 2 ^ j" "0 < j \<longrightarrow> 2 ^ (j - 1) < ?n"
    using next_pow2_int_spec [of ?n] by auto
  obtain m where m: "m = (2 ^ k - 1) div s" by simp
  have "int (m + 1) \<le> int (2 ^ j)" using j(2) by (simp add: m)
  then have "m + 1 \<le> 2 ^ j" by (simp only: of_nat_le_iff)
  then have lt: "m < 2 ^ j" by simp
  have "2 ^ (j - 1) \<le> m" if "0 < j"
  proof -
    have "int (2 ^ (j - 1)) < int (m + 1)" using j(3) that by (simp add: m)
    then have "2 ^ (j - 1) < m + 1" by (simp only: of_nat_less_iff)
    then show ?thesis by simp
  qed
  then show ?thesis using that j(1) lt unfolding m by blast
qed

lemma init_htab_spec:
  assumes new: "new_table h"
  shows "\<exists>r h'. init_htab (int nelem) h = Some (r, h') \<and> init_result (segments_needed nelem (hctl h)) h r h'"
proof -
  obtain i k where k: "next_pow2_int ((int nelem - 1) sdiv int (ffactor (hctl h)) + 1) = Some (2 ^ i)"
    "double_until (2 ^ i) (num_partitions (hctl h)) = 2 ^ k" "k \<le> 30"
  proof (rule bucket_numbers [of "ffactor (hctl h)" "num_partitions (hctl h)" nelem])
    show "0 < ffactor (hctl h)" "num_partitions (hctl h) = 0 \<or> (\<exists>k \<le> 30. num_partitions (hctl h) = 2 ^ k)"
      using new by (simp_all add: new_table_def)
  qed
  let ?h = "upd_hctl (\<lambda>c. c\<lparr>max_bucket := 2 ^ k - 1, low_mask := 2 ^ k - 1, high_mask := 2 * 2 ^ k - 1\<rparr>) h"
  obtain j where j: "next_pow2_int (int ((2 ^ k - 1) div ssize (hctl ?h) + 1)) = Some (2 ^ j)" "(2 ^ k - 1) div ssize (hctl ?h) < 2 ^ j"
    using segment_number [OF k(3), of "ssize (hctl ?h)"] by blast
  obtain r g where d: "init_directory (2 ^ j) ?h = (r, g)" by fastforce
  let ?al = "choose_nelem_alloc (entrysize (hctl g))"
  have al: "0 < ?al" "?al < 64" using choose_nelem_alloc_ge [of "entrysize (hctl g)"] choose_nelem_alloc_less by simp_all
  have seg: "segments_needed nelem (hctl h) = Some (2 ^ j)" using j(1) by (simp add: segments_needed_def k upd_hctl_def)
  note res = init_directory_spec [OF new refl refl j(2) d, folded seg]
  have eq: "init_htab (int nelem) h = Some (hash_bind (r, g) (\<lambda>ok h. if \<not> ok then (Inr False, h)
      else (Inr True, upd_hctl (\<lambda>c. c\<lparr>nelem_alloc := choose_nelem_alloc (entrysize c)\<rparr>) h)))"
    unfolding init_htab_def k(1) option.case Let_def k(2) j(1) d ..
  have fin: "upd_hctl (\<lambda>c. c\<lparr>nelem_alloc := choose_nelem_alloc (entrysize c)\<rparr>) g = upd_hctl (\<lambda>c. c\<lparr>nelem_alloc := ?al\<rparr>) g" by (simp add: upd_hctl_def)
  have same: "init_result (segments_needed nelem (hctl h)) h r g" if "r \<noteq> Inr True"
    using res [OF al] that by (simp add: init_result_def upd_hctl_def same_params_def)
  show ?thesis
  proof (cases r)
    case (Inl e)
    then show ?thesis using eq same by simp
  next
    case (Inr ok)
    then show ?thesis using eq same res [OF al] fin by (cases ok) simp_all
  qed
qed

lemma htab_inv_flags:
  "htab_inv A D (h\<lparr>frozen := x\<rparr>) = htab_inv A D h" "hash_map (h\<lparr>frozen := x\<rparr>) = hash_map h"
  "htab_inv A D (h\<lparr>isfixed := x\<rparr>) = htab_inv A D h" "table_elems (h\<lparr>isfixed := x\<rparr>) = table_elems h"
proof -
  have bc: "bucket_chain (h\<lparr>frozen := x\<rparr>) = bucket_chain h" "bucket_chain (h\<lparr>isfixed := x\<rparr>) = bucket_chain h"
    by (rule bucket_chain_cong; simp)+
  then show te: "table_elems (h\<lparr>isfixed := x\<rparr>) = table_elems h" by (simp only: table_elems_def) simp
  have te': "table_elems (h\<lparr>frozen := x\<rparr>) = table_elems h" using bc by (simp only: table_elems_def) simp
  show "htab_inv A D (h\<lparr>frozen := x\<rparr>) = htab_inv A D h" "hash_map (h\<lparr>frozen := x\<rparr>) = hash_map h" "htab_inv A D (h\<lparr>isfixed := x\<rparr>) = htab_inv A D h"
    by (simp_all add: htab_inv_def dir_ok_def entries_ok_def keys_distinct_def counts_ok_def entries_of_def free_all_def hash_map_def hash_find_def
        bc te te' fun_eq_iff)
qed

lemma prealloc_loop_spec:
  assumes "prealloc_loop n1 n is h = (r, h')" "htab_ok h" "\<not> isfixed h" "\<forall>i \<in> set is. i < NUM_FREELISTS \<and> (\<not> IS_PARTITIONED (hctl h) \<longrightarrow> i = 0)"
  shows "htab_ok h' \<and> same_table h h' \<and>
    (case r of Inl e \<Rightarrow> e = OUT_OF_MEMORY \<and> (\<exists>n. \<not> alloc_ok h n) | Inr _ \<Rightarrow> next_elem h' = next_elem h + sum_list (map (\<lambda>i. if i = 0 then n1 else n) is))"
  using assms
proof (induction "is" arbitrary: h)
  case Nil
  then show ?case by auto
next
  case (Cons i "is")
  let ?n = "h\<lparr>nallocs := Suc (nallocs h)\<rparr>" and ?k = "if i = 0 then n1 else n"
  have n: "htab_ok ?n" "same_table h ?n" using Cons.prems(2) by (simp_all add: htab_inv_nallocs)
  show ?case
  proof (cases "alloc_ok h (nallocs h)")
    case False
    then have "r = Inl OUT_OF_MEMORY" "h' = ?n"
      using Cons.prems(1,3) by (auto simp: element_alloc_def hash_alloc_simps split: if_splits)
    then show ?thesis using n False by auto
  next
    case True
    obtain g where g: "g = upd_freeList i (\<lambda>f. f\<lparr>free_elems := rev [next_elem ?n ..< next_elem ?n + ?k] @ free_elems f\<rparr>) (?n\<lparr>next_elem := next_elem ?n + ?k\<rparr>)" by simp
    have gi: "htab_ok g" "same_table ?n g" using htab_inv_element_alloc [OF n(1) _ _ g] Cons.prems(4) by auto
    have same: "same_table h g" by (rule same_table_trans [OF n(2) gi(2)])
    have l: "prealloc_loop n1 n is g = (r, h')"
      using Cons.prems(1,3) True g by (simp add: element_alloc_def hash_alloc_simps)
    have ne: "next_elem g = next_elem h + ?k" by (simp add: g)
    show ?thesis using Cons.IH [OF l gi(1)] Cons.prems(3,4) same_table_trans [OF same] same_table_eq(10,12) [OF same] same_table_elems(6) [OF same] ne
      by (auto split: sum.splits)
  qed
qed

lemma int_of_long_id: "0 \<le> x \<Longrightarrow> x \<le> INT_MAX \<Longrightarrow> int_of_long x = x"
  by (simp add: int_of_long_def INT_MAX_def)

lemma sdiv_nat: "int a sdiv int b = int (a div b)"
  by (cases "a = 0"; cases "b = 0") (simp_all add: signed_divide_int_def zdiv_int)

text \<open>Up to \<^verbatim>\<open>INT_MAX\<close> elements no narrowing changes a number.\<close>

lemma prealloc_exact:
  assumes n: "int nelem \<le> INT_MAX" and p: "p = (if IS_PARTITIONED (hctl h) then NUM_FREELISTS else 1)"
    and e: "e = (if nelem div p = 0 then 1 else nelem div p)" and f: "f = (if e * p < nelem then nelem - e * (p - 1) else e)"
  shows "prealloc (int nelem) h = Some (prealloc_loop f e [0..<p] h)"
proof -
  have p0: "0 < p" "p \<le> 32" by (simp_all add: p NUM_FREELISTS_def)
  have "e * p \<le> max nelem 32"
  proof (cases "nelem div p = 0")
    case False
    then show ?thesis using div_times_less_eq_dividend [of nelem p] by (simp add: e le_max_iff_disj)
  qed (use p0 in \<open>simp add: e\<close>)
  moreover have "e * (p - 1) \<le> e * p" "e \<le> e * p" using p0 by simp_all
  ultimately have ep: "e * p \<le> max nelem 32" "e * (p - 1) \<le> max nelem 32" "0 < e" by (simp_all only: e) simp_all
  have nar: "int_of_long (int x) = int x" if "x \<le> max nelem 32" for x
    using that n by (intro int_of_long_id) (auto simp: INT_MAX_def max_def split: if_splits)
  have d: "int_of_long (int nelem sdiv int p) = int (nelem div p)" unfolding sdiv_nat by (rule nar) (simp add: le_max_iff_disj)
  have e': "(if int (nelem div p) = 0 then 1 else int (nelem div p)) = int e" by (simp add: e)
  have m: "int_of_long (int e * int p) = int (e * p)" using nar [OF ep(1)] by simp
  have m1: "int_of_long (int e * (int p - 1)) = int (e * (p - 1))" using nar [OF ep(2)] p0 by (simp add: of_nat_diff)
  have sub: "e * (p - 1) \<le> nelem" if "e * p < nelem" using that mult_le_mono2 [of "p - 1" p e] by linarith
  have f': "(if int_of_long (int e * int p) < int nelem then int_of_long (int nelem - int_of_long (int e * (int p - 1))) else int e) = int f"
  proof (cases "e * p < nelem")
    case True
    have "int nelem - int (e * (p - 1)) = int (nelem - e * (p - 1))" by (rule of_nat_diff [OF sub [OF True], symmetric])
    moreover have "nelem - e * (p - 1) = f" using True by (simp only: f if_True)
    ultimately have "int_of_long (int nelem - int (e * (p - 1))) = int f" using nar [of f] f by (metis diff_le_self max.coboundedI1)
    then show ?thesis using True unfolding m m1 by (simp only: of_nat_less_iff if_True)
  next
    case False
    then show ?thesis unfolding m by (simp add: f del: of_nat_mult)
  qed
  have "e * (p - 1) < nelem" if "e * p < nelem" using that mult_le_mono2 [of "p - 1" p e] by linarith
  then have "0 < f" using ep(3) by (simp add: f)
  then show ?thesis using ep(3) unfolding prealloc_def Let_def p [symmetric] d e' f' by simp
qed

lemma prealloc_spec:
  assumes r: "prealloc (int nelem) h = Some (r, h')" and inv: "htab_ok h" "\<not> isfixed h"
  shows "htab_ok h' \<and> same_table h h' \<and>
    (case r of Inl e \<Rightarrow> e = OUT_OF_MEMORY \<and> (\<exists>n. \<not> alloc_ok h n) | Inr _ \<Rightarrow> int nelem \<le> INT_MAX \<longrightarrow> next_elem h + nelem \<le> next_elem h')"
proof -
  obtain p where p: "p = (if IS_PARTITIONED (hctl h) then NUM_FREELISTS else 1)" by simp
  have p0: "0 < p" by (simp add: p NUM_FREELISTS_def)
  have all: "\<forall>i \<in> set [0..<p]. i < NUM_FREELISTS \<and> (\<not> IS_PARTITIONED (hctl h) \<longrightarrow> i = 0)"
    by (simp add: p NUM_FREELISTS_def)
  show ?thesis
  proof (cases "int nelem \<le> INT_MAX")
    case False
    obtain f e where "prealloc_loop f e [0..<p] h = (r, h')"
      using r unfolding prealloc_def Let_def p [symmetric] by (auto split: if_splits)
    then show ?thesis using prealloc_loop_spec [OF _ inv all] False by (fastforce split: sum.splits)
  next
    case True
    obtain e where e: "e = (if nelem div p = 0 then 1 else nelem div p)" by simp
    obtain f where f: "f = (if e * p < nelem then nelem - e * (p - 1) else e)" by simp
    have l: "prealloc_loop f e [0..<p] h = (r, h')" using r prealloc_exact [OF True p e f] by simp
    have "[0..<p] = 0 # [1..<p]" using p0 by (simp add: upt_conv_Cons)
    moreover have "map (\<lambda>i. if i = 0 then f else e) [1..<p] = replicate (p - 1) e" by (rule nth_equalityI) auto
    ultimately have sum: "sum_list (map (\<lambda>i. if i = 0 then f else e) [0..<p]) = f + (p - 1) * e" by (simp add: sum_list_replicate)
    have le: "nelem \<le> f + (p - 1) * e"
    proof (cases "e * p < nelem")
      case True
      then show ?thesis by (simp add: f mult.commute)
    next
      case False
      then have "nelem \<le> e * p" by simp
      also have "\<dots> = e + (p - 1) * e" using p0 by (cases p) (simp_all add: mult.commute)
      finally show ?thesis using False by (simp add: f)
    qed
    show ?thesis using prealloc_loop_spec [OF l inv all] le unfolding sum by (cases r) simp_all
  qed
qed

text \<open>
  The new table: it has no entries, room for the elements that were asked for in advance, and the functions of the caller.
\<close>

definition created :: "'k HashFunctions \<Rightarrow> nat \<Rightarrow> HASHCTL \<Rightarrow> (nat \<Rightarrow> bool) \<Rightarrow> ('k, 'v) HTAB \<Rightarrow> bool" where
  "created fns nelem info ok h \<longleftrightarrow> htab_ok h \<and> table_elems h = [] \<and> \<not> frozen h \<and> hash h = fn_hash fns \<and> match h = fn_match fns \<and>
    keycopy h = fn_keycopy fns \<and> alloc_ok h = ok \<and> isfixed h = info_fixed_size info \<and> isshared h = info_shared info \<and> (info_shared info \<longrightarrow> int nelem \<le> INT_MAX \<longrightarrow> nelem \<le> next_elem h) \<and>
    num_partitions (hctl h) = (case info_num_partitions info of None \<Rightarrow> 0 | Some n \<Rightarrow> n) \<and>
    alloc h = (case info_alloc info of Some f \<Rightarrow> f | None \<Rightarrow> if info_noexcept info then DynaHashAllocNoExcept else DynaHashAlloc)"

lemma after_init:
  assumes b: "init_result segs h (Inr True) h1" and h: "\<not> frozen h" "\<not> isfixed h" "hash h = fn_hash fns" "match h = fn_match fns" "keycopy h = fn_keycopy fns"
      "alloc_ok h = ok" "isshared h = info_shared info" "num_partitions (hctl h) = (case info_num_partitions info of None \<Rightarrow> 0 | Some n \<Rightarrow> n)"
      "alloc h = (case info_alloc info of Some f \<Rightarrow> f | None \<Rightarrow> if info_noexcept info then DynaHashAllocNoExcept else DynaHashAlloc)"
    and r: "map_option (\<lambda>m. hash_bind m (\<lambda>_ h. (Inr (), h\<lparr>isfixed := info_fixed_size info\<rparr>)))
      (if isshared h1 \<or> int nelem < int (nelem_alloc (hctl h1)) then prealloc (int nelem) h1 else Some (Inr (), h1)) = Some (r, h')"
  shows "(r = Inr () \<and> created fns nelem info ok h') \<or> (r = Inl OUT_OF_MEMORY \<and> (\<exists>n. \<not> ok n))"
proof -
  have sp: "same_params h h1" "blank h1" using b by (simp_all add: init_result_def)
  note bi = blank_inv [OF sp(2)]
  obtain q g where q: "(if isshared h1 \<or> int nelem < int (nelem_alloc (hctl h1)) then prealloc (int nelem) h1 else Some (Inr (), h1)) = Some (q, g)"
    using r by fastforce
  have nf: "\<not> isfixed h1" "alloc_ok h1 = ok" using sp(1) h by (simp_all add: same_params_def)
  have g: "htab_ok g \<and> same_table h1 g \<and> (case q of Inl e \<Rightarrow> e = OUT_OF_MEMORY \<and> (\<exists>n. \<not> alloc_ok h1 n) | Inr _ \<Rightarrow> isshared h1 \<longrightarrow> int nelem \<le> INT_MAX \<longrightarrow> nelem \<le> next_elem g)"
  proof (cases "isshared h1 \<or> int nelem < int (nelem_alloc (hctl h1))")
    case True
    then show ?thesis using q prealloc_spec [OF _ bi(1) nf(1), of nelem q g] by (auto split: sum.splits)
  next
    case False
    then show ?thesis using q bi by auto
  qed
  then have "table_elems g = []" using same_table_elems(2) bi(2) by metis
  then have "created fns nelem info ok (g\<lparr>isfixed := info_fixed_size info\<rparr>)" if "q = Inr ()"
    using g that same_table_eq [of h1 g] same_table_hctl [of h1 g] sp(1) h nf(2) by (simp add: created_def htab_inv_flags same_params_def)
  then show ?thesis using r g q nf(2) by (cases q) auto
qed

definition create_outcome ::
  "'k HashFunctions \<Rightarrow> nat \<Rightarrow> HASHCTL \<Rightarrow> (nat \<Rightarrow> bool) \<Rightarrow> HASHHDR \<Rightarrow> (unit, 'k, 'v) htab_result option \<Rightarrow> bool" where
  "create_outcome fns nelem info ok c x \<longleftrightarrow>
    (\<not> info_shared info \<or> int nelem \<le> INT_MAX \<longrightarrow> x \<noteq> None) \<and>
    (\<forall>r h. x = Some (r, h) \<longrightarrow> r = Inr () \<and> created fns nelem info ok h \<or>
      r = Inl OUT_OF_MEMORY \<and> ((\<exists>n. \<not> ok n) \<or> info_shared info \<and> dsize c < the (segments_needed nelem c)))"

lemma prealloc_returns:
  assumes "isshared h \<longrightarrow> int nelem \<le> INT_MAX" "blank h"
  shows "(if isshared h \<or> int nelem < int (nelem_alloc (hctl h)) then prealloc (int nelem) h else Some (Inr (), h)) \<noteq> None"
proof -
  have "int nelem \<le> INT_MAX" if "isshared h \<or> int nelem < int (nelem_alloc (hctl h))"
    using that assms by (auto simp: blank_def INT_MAX_def)
  then show ?thesis using prealloc_exact [OF _ refl refl refl, of nelem h] by (auto simp del: not_None_eq)
qed

lemma create_table_outcome:
  assumes p: "params_ok info" and f: "functions_ok fns" and c: "set_params info = Some c"
  shows "create_outcome fns nelem info ok c (create_table tab fns (int nelem) info mem ok)"
proof -
  have c': "ssize c = 2 ^ sshift c" "nsegs c = 0" "0 < ffactor c"
    "freeList c = replicate NUM_FREELISTS \<lparr>nentries = 0, free_elems = []\<rparr>" "num_partitions c = 0 \<or> (\<exists>k \<le> 30. num_partitions c = 2 ^ k)"
    "num_partitions c = (case info_num_partitions info of None \<Rightarrow> 0 | Some n \<Rightarrow> n)"
    using set_params_ok [OF p] c by auto
  obtain h where h: "h = \<lparr>htab_id = tab, hctl = c, dir = (if info_shared info then replicate (dsize c) None else []), hash = fn_hash fns, match = fn_match fns,
              keycopy = fn_keycopy fns,
              alloc = (case info_alloc info of Some f \<Rightarrow> f | None \<Rightarrow> if info_noexcept info then DynaHashAllocNoExcept else DynaHashAlloc),
              isshared = info_shared info, isfixed = False, frozen = False, elems = mem, next_elem = 0, alloc_ok = ok, nallocs = 1\<rparr>" by simp
  let ?fin = "\<lambda>h. map_option (\<lambda>m. hash_bind m (\<lambda>_ h. (Inr (), h\<lparr>isfixed := info_fixed_size info\<rparr>)))
      (if isshared h \<or> int nelem < int (nelem_alloc (hctl h)) then prealloc (int nelem) h else Some (Inr (), h))"
  let ?go = "\<lambda>h. (case init_htab (int nelem) h of None \<Rightarrow> None | Some (Inl e, h) \<Rightarrow> Some (Inl e, h)
      | Some (Inr ready, h) \<Rightarrow> if \<not> ready then Some (Inl OUT_OF_MEMORY, h) else ?fin h)"
  have eq: "create_table tab fns (int nelem) info mem ok = (if \<not> ok 0 then Some (Inl OUT_OF_MEMORY, h)
      else (case (if isshared h then (Inr True, h) else hash_alloc h) of (Inl e, h) \<Rightarrow> Some (Inl e, h)
        | (Inr got, h) \<Rightarrow> if \<not> got then Some (Inl OUT_OF_MEMORY, h) else ?go h))"
    unfolding create_table_def c option.case Let_def h [symmetric] ..
  have go: "create_outcome fns nelem info ok c (?go g)" if g: "g = h\<lparr>nallocs := m\<rparr>" for g m
  proof -
    have fld: "\<not> frozen g" "\<not> isfixed g" "hash g = fn_hash fns" "match g = fn_match fns" "keycopy g = fn_keycopy fns" "alloc_ok g = ok" "isshared g = info_shared info"
      "num_partitions (hctl g) = (case info_num_partitions info of None \<Rightarrow> 0 | Some n \<Rightarrow> n)"
      "alloc g = (case info_alloc info of Some f \<Rightarrow> f | None \<Rightarrow> if info_noexcept info then DynaHashAllocNoExcept else DynaHashAlloc)"
      using c'(6) by (simp_all add: g h)
    have "new_table g" using c' f by (simp add: new_table_def g h)
    then obtain q g1 where q: "init_htab (int nelem) g = Some (q, g1)" "init_result (segments_needed nelem c) g q g1"
      using init_htab_spec [of g nelem] by (auto simp: g h)
    consider "q = Inr True" | "q \<noteq> Inr True" by blast
    then show ?thesis
    proof cases
      case 1
      have b: "blank g1" "isshared g1 = info_shared info" using q(2) 1 fld by (simp_all add: init_result_def same_params_def)
      have good: "(r = Inr () \<and> created fns nelem info ok h') \<or> (r = Inl OUT_OF_MEMORY \<and> (\<exists>n. \<not> ok n))" if "?fin g1 = Some (r, h')" for r h'
        by (rule after_init [OF _ fld that]) (use q(2) 1 in simp)
      have ret: "?fin g1 \<noteq> None" if "\<not> info_shared info \<or> int nelem \<le> INT_MAX"
        using prealloc_returns [of g1 nelem] b that by (simp only: option.map_disc_iff) simp
      have go1: "?go g = ?fin g1" using q(1) 1 by simp
      show ?thesis unfolding create_outcome_def go1 using good ret by blast
    next
      case 2
      then have "?go g = Some (Inl OUT_OF_MEMORY, g1)" using q by (cases q) (auto simp: init_result_def)
      moreover have "(\<exists>n. \<not> ok n) \<or> info_shared info \<and> dsize c < the (segments_needed nelem c)" using 2 q(2) fld by (auto simp: init_result_def g h)
      ultimately show ?thesis by (simp add: create_outcome_def)
    qed
  qed
  have oom: "create_outcome fns nelem info ok c (Some (Inl OUT_OF_MEMORY, x))" if "\<not> ok n" for x n
    using that by (auto simp: create_outcome_def)
  have hm: "h = h\<lparr>nallocs := nallocs h\<rparr>" and fh: "alloc_ok h = ok" "isshared h = info_shared info" by (simp_all add: h)
  consider "\<not> ok 0" | "ok 0" "isshared h" | "ok 0" "\<not> isshared h" "ok (nallocs h)" | "ok 0" "\<not> isshared h" "\<not> ok (nallocs h)" by blast
  then show ?thesis
  proof cases
    case 1
    then show ?thesis using oom by (simp only: eq if_True simp_thms)
  next
    case 2
    then show ?thesis using go [OF hm] by (simp add: eq)
  next
    case 3
    then show ?thesis using go [OF refl, of "Suc (nallocs h)"] by (simp add: eq hash_alloc_simps fh)
  next
    case 4
    then show ?thesis using oom [OF 4(3)] by (simp add: eq hash_alloc_simps fh)
  qed
qed

end
