(* ===== verification/DynaHashScan.thy ===== *)
theory DynaHashScan
  imports DynaHashMap
begin

text \<open>
  Sequential scans of a hash table, \<open>hash_seq_init\<close>, \<open>hash_seq_search\<close> and \<open>hash_seq_term\<close>, and the list of the active scans. The state of a scan is the bucket
  and the element to be returned next, which is read from the link of the element before the caller gets that one and perhaps deletes it.
\<close>

subsection \<open>Scans\<close>

record HASH_SEQ_STATUS =
  curBucket :: nat
  curEntry :: "nat option"

text \<open>The link of an element: its successor in the chain or in the free list that holds it.\<close>

fun link_in :: "nat list \<Rightarrow> nat \<Rightarrow> nat option" where
  "link_in [] a = None"
| "link_in (x # xs) a = (if x = a then (case xs of [] \<Rightarrow> None | y # _ \<Rightarrow> Some y) else link_in xs a)"

definition elem_link :: "('k, 'v) HTAB \<Rightarrow> nat \<Rightarrow> nat option" where
  "elem_link h a =
    (case find (\<lambda>l. a \<in> set l) (map (bucket_chain h) [0..<Suc (max_bucket (hctl h))] @ map free_elems (freeList (hctl h))) of
       None \<Rightarrow> None
     | Some l \<Rightarrow> link_in l a)"

definition hash_seq_init :: "dynahash_context \<Rightarrow> nat \<Rightarrow> ('k, 'v) HTAB \<Rightarrow> (HASH_SEQ_STATUS \<times> dynahash_context) result" where
  "hash_seq_init cxt nest_level h =
    (let st = \<lparr>curBucket = 0, curEntry = None\<rparr>
     in if \<not> frozen h then bindE (register_seq_scan cxt nest_level h) (\<lambda>cxt. Inr (st, cxt)) else Inr (st, cxt))"

definition hash_seq_term :: "dynahash_context \<Rightarrow> ('k, 'v) HTAB \<Rightarrow> dynahash_context result" where
  "hash_seq_term cxt h = (if \<not> frozen h then deregister_seq_scan cxt h else Inr cxt)"

text \<open>
  The search for the next bucket that is not empty, with the segment and the index in it kept beside the bucket number. The result is the bucket with its chain; a
  bucket beyond the last one has no chain.
\<close>

function seq_loop :: "('k, 'v) HTAB \<Rightarrow> nat \<Rightarrow> nat \<Rightarrow> nat \<Rightarrow> nat \<times> nat list" where
  "seq_loop h cur segment_num segment_ndx =
    (let chain = the (dir h ! segment_num) ! segment_ndx
     in if chain \<noteq> [] then (cur, chain)
        else if cur + 1 > max_bucket (hctl h) then (cur + 1, [])
        else if segment_ndx + 1 \<ge> ssize (hctl h) then seq_loop h (cur + 1) (segment_num + 1) 0
        else seq_loop h (cur + 1) segment_num (segment_ndx + 1))"
  by auto
termination by (relation "measure (\<lambda>(h, cur, _). max_bucket (hctl h) - cur)") auto

declare seq_loop.simps [simp del]

definition hash_seq_search ::
  "dynahash_context \<Rightarrow> ('k, 'v) HTAB \<Rightarrow> HASH_SEQ_STATUS \<Rightarrow> (nat option \<times> HASH_SEQ_STATUS \<times> dynahash_context) result" where
  "hash_seq_search cxt h st =
    (case curEntry st of
       Some a \<Rightarrow>
         (let nxt = elem_link h a
          in Inr (Some a, \<lparr>curBucket = (if nxt = None then curBucket st + 1 else curBucket st), curEntry = nxt\<rparr>, cxt))
     | None \<Rightarrow>
         (if curBucket st > max_bucket (hctl h) then bindE (hash_seq_term cxt h) (\<lambda>cxt. Inr (None, st, cxt))
          else (case seq_loop h (curBucket st) (drop_bit (sshift (hctl h)) (curBucket st)) (MOD (curBucket st) (ssize (hctl h))) of
              (cur, []) \<Rightarrow> bindE (hash_seq_term cxt h) (\<lambda>cxt. Inr (None, st\<lparr>curBucket := cur\<rparr>, cxt))
            | (cur, a # _) \<Rightarrow>
                (let nxt = elem_link h a
                 in Inr (Some a, \<lparr>curBucket = (if nxt = None then cur + 1 else cur), curEntry = nxt\<rparr>, cxt)))))"

text \<open>
  The loop of a client that scans the table and removes the entries it selects; the elements it saw are collected in \<open>seen\<close>. \<open>None\<close> is a scan without end.
\<close>

partial_function (option) scan_remove ::
  "(('k, 'v) HASHELEMENT \<Rightarrow> bool) \<Rightarrow> dynahash_context \<Rightarrow> ('k, 'v) HTAB \<Rightarrow> HASH_SEQ_STATUS \<Rightarrow> nat list \<Rightarrow>
    ((nat list \<times> dynahash_context) result \<times> ('k, 'v) HTAB) option" where
  "scan_remove P cxt h st seen =
    (case hash_seq_search cxt h st of
       Inl e \<Rightarrow> Some (Inl e, h)
     | Inr (None, _, cxt) \<Rightarrow> Some (Inr (seen, cxt), h)
     | Inr (Some a, st, cxt) \<Rightarrow>
         (case (if P (elems h a) then hash_search cxt h (ekey (elems h a)) HASH_REMOVE else (Inr (None, False), h)) of
            (Inl e, h) \<Rightarrow> Some (Inl e, h)
          | (Inr _, h) \<Rightarrow> scan_remove P cxt h st (seen @ [a])))"

subsection \<open>The list of active scans\<close>

definition scans_ok :: "dynahash_context \<Rightarrow> bool" where
  "scans_ok cxt \<longleftrightarrow> length (seq_scan_tables cxt) = MAX_SEQ_SCANS \<and> length (seq_scan_level cxt) = MAX_SEQ_SCANS \<and> num_seq_scans cxt \<le> MAX_SEQ_SCANS"

definition active_scans :: "dynahash_context \<Rightarrow> (nat \<times> nat) list" where
  "active_scans cxt = take (num_seq_scans cxt) (zip (seq_scan_tables cxt) (seq_scan_level cxt))"

lemma length_active: "scans_ok cxt \<Longrightarrow> length (active_scans cxt) = num_seq_scans cxt"
  by (simp add: scans_ok_def active_scans_def)

lemma nth_active: "scans_ok cxt \<Longrightarrow> i < num_seq_scans cxt \<Longrightarrow> active_scans cxt ! i = (seq_scan_tables cxt ! i, seq_scan_level cxt ! i)"
  by (simp add: scans_ok_def active_scans_def)

lemma mset_move_last:
  assumes "i < length xs"
  shows "mset (take (length xs - 1) (xs[i := last xs])) = mset xs - {#xs ! i#}"
proof (cases xs rule: rev_cases)
  case (snoc ys y)
  show ?thesis
  proof (cases "i < length ys")
    case True
    then show ?thesis using snoc by (simp add: list_update_append mset_update nth_append add_mset_commute)
  next
    case False
    then show ?thesis using snoc assms by (simp add: nth_append)
  qed
qed (use assms in simp)

lemma drop_scan_active:
  assumes ok: "scans_ok cxt" and i: "i < num_seq_scans cxt"
  shows "scans_ok (drop_scan i cxt)" "mset (active_scans (drop_scan i cxt)) = mset (active_scans cxt) - {#active_scans cxt ! i#}"
    "num_seq_scans (drop_scan i cxt) = num_seq_scans cxt - 1"
    "\<And>j. j < num_seq_scans cxt - 1 \<Longrightarrow> seq_scan_level (drop_scan i cxt) ! j = (if j = i then seq_scan_level cxt ! (num_seq_scans cxt - 1) else seq_scan_level cxt ! j)"
proof -
  let ?n = "num_seq_scans cxt" and ?a = "active_scans cxt"
  show "scans_ok (drop_scan i cxt)" "num_seq_scans (drop_scan i cxt) = ?n - 1" using ok by (auto simp: scans_ok_def drop_scan_def Let_def)
  show "\<And>j. j < ?n - 1 \<Longrightarrow> seq_scan_level (drop_scan i cxt) ! j = (if j = i then seq_scan_level cxt ! (?n - 1) else seq_scan_level cxt ! j)"
    using ok i by (auto simp: scans_ok_def drop_scan_def Let_def nth_list_update)
  have len: "length ?a = ?n" by (rule length_active [OF ok])
  have "last ?a = (seq_scan_tables cxt ! (?n - 1), seq_scan_level cxt ! (?n - 1))"
    using i len nth_active [OF ok, of "?n - 1"] by (subst last_conv_nth) auto
  then have "active_scans (drop_scan i cxt) = take (?n - 1) (?a[i := last ?a])"
    using ok i len by (intro nth_equalityI) (auto simp: active_scans_def drop_scan_def Let_def scans_ok_def nth_list_update)
  then show "mset (active_scans (drop_scan i cxt)) = mset ?a - {#?a ! i#}"
    using mset_move_last [of i ?a] i len by simp
qed

lemma end_subxact_loop_active:
  assumes "scans_ok cxt" "i \<le> num_seq_scans cxt" "\<forall>j. i \<le> j \<and> j < num_seq_scans cxt \<longrightarrow> seq_scan_level cxt ! j < d"
  shows "scans_ok (end_subxact_loop d i cxt) \<and>
    mset (active_scans (end_subxact_loop d i cxt)) = filter_mset (\<lambda>(t, l). l < d) (mset (active_scans cxt))"
  using assms
proof (induction d i cxt rule: end_subxact_loop.induct)
  case (1 d cxt)
  have "l < d" if "(t, l) \<in> set (active_scans cxt)" for t l
    using that 1 nth_active [OF 1(1)] length_active [OF 1(1)] by (auto simp: in_set_conv_nth)
  then have "filter_mset (\<lambda>(t, l). l < d) (mset (active_scans cxt)) = mset (active_scans cxt)" by (auto intro!: filter_mset_eq_conv [THEN iffD2])
  then show ?case using 1 by simp
next
  case (2 d i cxt)
  show ?case
  proof (cases "d \<le> seq_scan_level cxt ! i")
    case False
    then have "\<forall>j. i \<le> j \<and> j < num_seq_scans cxt \<longrightarrow> seq_scan_level cxt ! j < d" using "2.prems"(3) by (metis Suc_leI le_neq_implies_less not_le)
    then show ?thesis using "2.IH" "2.prems" False by simp
  next
    case True
    have i: "i < num_seq_scans cxt" using "2.prems"(2) by simp
    note ds = drop_scan_active [OF "2.prems"(1) i]
    have lv: "\<forall>j. i \<le> j \<and> j < num_seq_scans (drop_scan i cxt) \<longrightarrow> seq_scan_level (drop_scan i cxt) ! j < d"
      using ds(3,4) "2.prems"(3) by auto
    have "filter_mset (\<lambda>(t, l). l < d) (mset (active_scans (drop_scan i cxt))) = filter_mset (\<lambda>(t, l). l < d) (mset (active_scans cxt))"
      unfolding ds(2) using True nth_active [OF "2.prems"(1) i] by simp
    then show ?thesis using "2.IH" True ds(1,3) lv i by simp
  qed
qed

lemma register_then_drop:
  assumes "scans_ok cxt" "register_seq_scan cxt lv h = Inr cxt'"
  shows "scans_ok cxt'" "active_scans cxt' = active_scans cxt @ [(htab_id h, lv)]" "has_seq_scans cxt' h"
    "\<exists>c. deregister_seq_scan cxt' h = Inr c \<and> active_scans c = active_scans cxt \<and> scans_ok c"
proof -
  let ?n = "num_seq_scans cxt"
  have n: "?n < MAX_SEQ_SCANS" and c: "cxt' = \<lparr>seq_scan_tables = (seq_scan_tables cxt)[?n := htab_id h], seq_scan_level = (seq_scan_level cxt)[?n := lv], num_seq_scans = ?n + 1\<rparr>"
    using assms(2) by (auto simp: register_seq_scan_def Let_def split: if_splits)
  show ok: "scans_ok cxt'" using assms(1) n by (simp add: scans_ok_def c)
  show act: "active_scans cxt' = active_scans cxt @ [(htab_id h, lv)]"
    using assms(1) n by (simp add: active_scans_def c scans_ok_def take_Suc_conv_app_nth take_zip)
  show "has_seq_scans cxt' h" using assms(1) n by (simp add: has_seq_scans_def c scans_ok_def)
  have "deregister_seq_scan cxt' h = Inr (drop_scan ?n cxt')" using assms(1) n by (simp add: deregister_seq_scan_def c scans_ok_def)
  moreover have "active_scans (drop_scan ?n cxt') = active_scans cxt"
    using assms(1) n by (simp add: active_scans_def drop_scan_def c scans_ok_def Let_def take_zip)
  moreover have "scans_ok (drop_scan ?n cxt')" using drop_scan_active(1) [OF ok] by (simp add: c)
  ultimately show "\<exists>c. deregister_seq_scan cxt' h = Inr c \<and> active_scans c = active_scans cxt \<and> scans_ok c" by blast
qed

subsection \<open>What a scan returns\<close>

text \<open>The elements that a scan has still to return.\<close>

definition remaining :: "('k, 'v) HTAB \<Rightarrow> HASH_SEQ_STATUS \<Rightarrow> nat list" where
  "remaining h st =
    (case curEntry st of
       None \<Rightarrow> concat (map (bucket_chain h) [curBucket st..<Suc (max_bucket (hctl h))])
     | Some a \<Rightarrow> dropWhile (\<lambda>x. x \<noteq> a) (bucket_chain h (curBucket st)) @
         concat (map (bucket_chain h) [Suc (curBucket st)..<Suc (max_bucket (hctl h))]))"

definition scan_ok :: "('k, 'v) HTAB \<Rightarrow> HASH_SEQ_STATUS \<Rightarrow> bool" where
  "scan_ok h st \<longleftrightarrow> (\<forall>a. curEntry st = Some a \<longrightarrow> curBucket st \<le> max_bucket (hctl h) \<and> a \<in> set (bucket_chain h (curBucket st)))"

lemma link_in_dropWhile:
  "a \<in> set l \<Longrightarrow> distinct l \<Longrightarrow>
    (case link_in l a of None \<Rightarrow> dropWhile (\<lambda>x. x \<noteq> a) l = [a] | Some b \<Rightarrow> b \<in> set l \<and> dropWhile (\<lambda>x. x \<noteq> a) l = a # dropWhile (\<lambda>x. x \<noteq> b) l)"
proof (induction l)
  case (Cons x xs)
  show ?case
  proof (cases "x = a")
    case True
    then show ?thesis using Cons.prems by (cases xs) auto
  next
    case False
    then show ?thesis using Cons by (auto split: option.splits)
  qed
qed simp

lemma chain_distinct:
  assumes "htab_ok h" "b \<le> max_bucket (hctl h)"
  shows "distinct (bucket_chain h b)"
proof -
  have "bucket_chain h b \<in> set (map (bucket_chain h) [0..<Suc (max_bucket (hctl h))])" using assms(2) by (auto simp: less_Suc_eq_le simp del: upt_Suc)
  then show ?thesis using distinct_table_elems [OF assms(1)] unfolding table_elems_def distinct_concat_iff by blast
qed

lemma find_Some_in: "find P xs = Some x \<Longrightarrow> P x \<and> x \<in> set xs"
  by (induction xs) (auto split: if_splits)

lemma elem_link_chain:
  assumes inv: "htab_ok h" and b: "b \<le> max_bucket (hctl h)" and a: "a \<in> set (bucket_chain h b)"
  shows "elem_link h a = link_in (bucket_chain h b) a"
proof -
  let ?L = "map (bucket_chain h) [0..<Suc (max_bucket (hctl h))]"
  have "bucket_chain h b \<in> set ?L" using b by (auto simp: less_Suc_eq_le simp del: upt_Suc)
  then have "find (\<lambda>l. a \<in> set l) (?L @ map free_elems (freeList (hctl h))) \<noteq> None" using a by (auto simp: find_None_iff simp del: upt_Suc)
  then obtain l where l: "find (\<lambda>l. a \<in> set l) (?L @ map free_elems (freeList (hctl h))) = Some l" by blast
  have "l = bucket_chain h b"
  proof -
    have "a \<in> set l" "l \<in> set (?L @ map free_elems (freeList (hctl h)))" using find_Some_in [OF l] by blast+
    then consider b' where "b' \<le> max_bucket (hctl h)" "l = bucket_chain h b'" | "l \<in> set (map free_elems (freeList (hctl h)))"
      by (auto simp del: upt_Suc simp: less_Suc_eq_le)
    then show ?thesis
    proof cases
      case 1
      then show ?thesis using chain_unique [OF inv b 1(1) a] \<open>a \<in> set l\<close> by simp
    next
      case 2
      then have "a \<in> set (free_all h)" using \<open>a \<in> set l\<close> by (auto simp: free_all_def)
      moreover have "a \<in> set (table_elems h)" using chain_subset [OF b] a by blast
      ultimately show ?thesis using htab_inv_partition [OF inv] by (metis Int_iff distinct_append empty_iff set_append Un_iff)
    qed
  qed
  then show ?thesis using l by (simp add: elem_link_def)
qed

lemma concat_upt_Cons: "m < n \<Longrightarrow> concat (map f [m..<n]) = f m @ concat (map f [Suc m..<n])"
  by (simp add: upt_conv_Cons)

lemma seq_loop_spec:
  assumes inv: "htab_ok h"
  shows "cur \<le> max_bucket (hctl h) \<Longrightarrow> seq_loop h cur (cur div 2 ^ sshift (hctl h)) (cur mod 2 ^ sshift (hctl h)) = (c, l) \<Longrightarrow>
    (case l of [] \<Rightarrow> concat (map (bucket_chain h) [cur..<Suc (max_bucket (hctl h))]) = []
     | _ \<Rightarrow> c \<le> max_bucket (hctl h) \<and> bucket_chain h c = l \<and>
         concat (map (bucket_chain h) [cur..<Suc (max_bucket (hctl h))]) = concat (map (bucket_chain h) [c..<Suc (max_bucket (hctl h))]))"
proof (induction "max_bucket (hctl h) - cur" arbitrary: cur rule: less_induct)
  case less
  let ?s = "2 ^ sshift (hctl h) :: nat" and ?m = "max_bucket (hctl h)"
  note ss = dir_okD(1) [OF htab_invD(2) [OF inv]]
  have ch: "the (dir h ! (cur div ?s)) ! (cur mod ?s) = bucket_chain h cur"
    by (simp add: bucket_chain_def drop_bit_eq_div ss MOD_pow2)
  have cc: "concat (map (bucket_chain h) [cur..<Suc ?m]) = bucket_chain h cur @ concat (map (bucket_chain h) [Suc cur..<Suc ?m])"
    by (rule concat_upt_Cons) (use less.prems in simp)
  show ?case
  proof (cases "bucket_chain h cur = []")
    case False
    then have "c = cur" "l = bucket_chain h cur" using less.prems(2) ch by (subst (asm) seq_loop.simps, simp add: Let_def)+
    then show ?thesis using False less.prems(1) by (cases "bucket_chain h cur") (simp_all del: upt_Suc)
  next
    case True
    show ?thesis
    proof (cases "Suc cur > ?m")
      case True
      then have "l = []" using less.prems(2) ch \<open>bucket_chain h cur = []\<close> by (subst (asm) seq_loop.simps) (simp add: Let_def)
      then show ?thesis using cc True \<open>bucket_chain h cur = []\<close> by simp
    next
      case False
      have step: "seq_loop h (Suc cur) (Suc cur div ?s) (Suc cur mod ?s) = (c, l)"
      proof (cases "Suc (cur mod ?s) \<ge> ?s")
        case True
        moreover have "cur mod ?s < ?s" by simp
        ultimately have "Suc (cur mod ?s) = ?s" by linarith
        then have "Suc cur div ?s = Suc (cur div ?s)" "Suc cur mod ?s = 0" by (simp_all add: div_Suc mod_Suc)
        then show ?thesis using less.prems(2) ch \<open>bucket_chain h cur = []\<close> False True by (subst (asm) seq_loop.simps) (simp add: Let_def ss)
      next
        case nw: False
        then have "Suc cur div ?s = cur div ?s" "Suc cur mod ?s = Suc (cur mod ?s)" by (simp_all add: div_Suc mod_Suc)
        then show ?thesis using less.prems(2) ch \<open>bucket_chain h cur = []\<close> False nw by (subst (asm) seq_loop.simps) (simp add: Let_def ss)
      qed
      have "?m - Suc cur < ?m - cur" "Suc cur \<le> ?m" using False by auto
      from less.hyps [OF this step] show ?thesis unfolding cc \<open>bucket_chain h cur = []\<close> by (simp only: append_Nil)
    qed
  qed
qed

lemma after_elem:
  assumes inv: "htab_ok h" and b: "b \<le> max_bucket (hctl h)" and a: "a \<in> set (bucket_chain h b)"
    and st: "st = \<lparr>curBucket = (if elem_link h a = None then b + 1 else b), curEntry = elem_link h a\<rparr>"
  shows "scan_ok h st" "dropWhile (\<lambda>x. x \<noteq> a) (bucket_chain h b) @ concat (map (bucket_chain h) [Suc b..<Suc (max_bucket (hctl h))]) = a # remaining h st"
proof -
  note l = elem_link_chain [OF inv b a] and d = link_in_dropWhile [OF a chain_distinct [OF inv b]]
  show "scan_ok h st" using d b by (auto simp: scan_ok_def st l split: option.splits)
  show "dropWhile (\<lambda>x. x \<noteq> a) (bucket_chain h b) @ concat (map (bucket_chain h) [Suc b..<Suc (max_bucket (hctl h))]) = a # remaining h st"
    using d by (cases "link_in (bucket_chain h b) a") (simp_all add: remaining_def st l del: upt_Suc)
qed

lemma seq_search_step:
  assumes inv: "htab_ok h" and ok: "scan_ok h st"
  shows "remaining h st = x # rest \<Longrightarrow> \<exists>st'. hash_seq_search cxt h st = Inr (Some x, st', cxt) \<and> scan_ok h st' \<and> remaining h st' = rest"
    "remaining h st = [] \<Longrightarrow> \<exists>st'. hash_seq_search cxt h st = bindE (hash_seq_term cxt h) (\<lambda>cxt. Inr (None, st', cxt))"
proof -
  let ?m = "max_bucket (hctl h)" and ?b = "curBucket st"
  note ss = dir_okD(1) [OF htab_invD(2) [OF inv]]
  obtain c l where loop: "seq_loop h ?b (drop_bit (sshift (hctl h)) ?b) (MOD ?b (ssize (hctl h))) = (c, l)" by fastforce
  then have loop': "seq_loop h ?b (?b div 2 ^ sshift (hctl h)) (?b mod 2 ^ sshift (hctl h)) = (c, l)" by (simp add: drop_bit_eq_div ss MOD_pow2)
  {
    assume r: "remaining h st = x # rest"
    show "\<exists>st'. hash_seq_search cxt h st = Inr (Some x, st', cxt) \<and> scan_ok h st' \<and> remaining h st' = rest"
    proof (cases "curEntry st")
      case (Some a)
      then have b: "?b \<le> ?m" "a \<in> set (bucket_chain h ?b)" using ok by (simp_all add: scan_ok_def)
      note ae = after_elem [OF inv b refl]
      have "remaining h st = dropWhile (\<lambda>x. x \<noteq> a) (bucket_chain h ?b) @ concat (map (bucket_chain h) [Suc ?b..<Suc ?m])"
        using Some by (simp add: remaining_def del: upt_Suc)
      then have "x = a" "rest = remaining h \<lparr>curBucket = (if elem_link h a = None then ?b + 1 else ?b), curEntry = elem_link h a\<rparr>"
        using ae(2) r by auto
      then show ?thesis using Some ae(1) by (simp add: hash_seq_search_def Let_def)
    next
      case None
      then have rm: "concat (map (bucket_chain h) [?b..<Suc ?m]) = x # rest" using r by (simp add: remaining_def del: upt_Suc)
      then have b: "?b \<le> ?m" by (cases "?b \<le> ?m") auto
      note sp = seq_loop_spec [OF inv b loop']
      then obtain a l' where l: "l = a # l'" using rm by (cases l) (simp_all del: upt_Suc)
      then have c: "c \<le> ?m" "bucket_chain h c = a # l'" "concat (map (bucket_chain h) [c..<Suc ?m]) = x # rest" using sp rm by (simp_all del: upt_Suc)
      have ac: "a \<in> set (bucket_chain h c)" using c(2) by simp
      note ae = after_elem [OF inv c(1) ac refl]
      have "concat (map (bucket_chain h) [c..<Suc ?m]) = dropWhile (\<lambda>x. x \<noteq> a) (bucket_chain h c) @ concat (map (bucket_chain h) [Suc c..<Suc ?m])"
        using concat_upt_Cons [of c "Suc ?m" "bucket_chain h"] c(1,2) by (simp del: upt_Suc)
      then have "x = a" "rest = remaining h \<lparr>curBucket = (if elem_link h a = None then c + 1 else c), curEntry = elem_link h a\<rparr>"
        using ae(2) c(3) by auto
      then show ?thesis using None b loop l ae(1) by (simp add: hash_seq_search_def Let_def)
    qed
  next
    assume r: "remaining h st = []"
    show "\<exists>st'. hash_seq_search cxt h st = bindE (hash_seq_term cxt h) (\<lambda>cxt. Inr (None, st', cxt))"
    proof (cases "curEntry st")
      case (Some a)
      then have "a \<in> set (bucket_chain h ?b)" using ok by (simp add: scan_ok_def)
      then show ?thesis using Some r by (auto simp: remaining_def dropWhile_eq_Nil_conv simp del: upt_Suc)
    next
      case None
      show ?thesis
      proof (cases "?b > ?m")
        case True
        then show ?thesis using None by (auto simp: hash_seq_search_def)
      next
        case False
        have rm: "concat (map (bucket_chain h) [?b..<Suc ?m]) = []" using r None by (simp add: remaining_def del: upt_Suc)
        have sp: "(case l of [] \<Rightarrow> concat (map (bucket_chain h) [?b..<Suc ?m]) = []
          | _ \<Rightarrow> c \<le> ?m \<and> bucket_chain h c = l \<and> concat (map (bucket_chain h) [?b..<Suc ?m]) = concat (map (bucket_chain h) [c..<Suc ?m]))"
          by (rule seq_loop_spec [OF inv _ loop']) (use False in simp)
        have "l = []"
        proof (cases l)
          case (Cons a l')
          then have "c \<le> ?m" "bucket_chain h c = a # l'" "concat (map (bucket_chain h) [c..<Suc ?m]) = []" using sp rm by (simp_all del: upt_Suc)
          then show ?thesis using concat_upt_Cons [of c "Suc ?m" "bucket_chain h"] by (simp del: upt_Suc)
        qed
        then show ?thesis using None False loop by (auto simp: hash_seq_search_def)
      qed
    qed
  }
qed

subsection \<open>Removing entries while scanning\<close>

lemma filter_split_distinct: "distinct (prev @ a # rest) \<Longrightarrow> filter (\<lambda>x. x \<noteq> a) (prev @ a # rest) = prev @ rest"
proof -
  assume "distinct (prev @ a # rest)"
  then have "filter (\<lambda>x. x \<noteq> a) prev = prev" "filter (\<lambda>x. x \<noteq> a) rest = rest" by (auto intro!: filter_True)
  then show ?thesis by simp
qed

lemma remove_chains:
  assumes inv: "htab_ok h" and r: "hash_search cxt h key HASH_REMOVE = (r, h')" and f: "hash_find h key = Some a"
  shows "max_bucket (hctl h') = max_bucket (hctl h)" "\<And>b. b \<le> max_bucket (hctl h) \<Longrightarrow> bucket_chain h' b = filter (\<lambda>x. x \<noteq> a) (bucket_chain h b)"
proof -
  let ?b = "calc_bucket (hctl h) (hash h key)" and ?i = "FREELIST_IDX (hctl h) (hash h key)"
  obtain prev rest where fc: "follow_chain h key (hash h key) (bucket_chain h ?b) = (prev, rest)" by fastforce
  have le: "?b \<le> max_bucket (hctl h)" by (rule calc_bucket_le [OF htab_invD(3) [OF inv]])
  have d: "dir h ! drop_bit (sshift (hctl h)) ?b \<noteq> None" by (rule dir_nonempty [OF htab_invD(2) [OF inv] le])
  obtain rs where rest: "rest = a # rs" using follow_chain_find [OF inv refl fc] f by (cases rest) (auto split: if_splits)
  have ch: "bucket_chain h ?b = prev @ a # rs" using follow_chain_append [OF fc] rest by simp
  let ?p = "put_chain ?b (prev @ rs) h"
  have h': "h' = free_entry ?i a ?p"
    using r d fc rest by (simp add: hash_search_def hash_search_with_hash_value_def search_action_def Let_def)
  have same: "same_table ?p h'" by (simp add: h' free_entry_def)
  show "max_bucket (hctl h') = max_bucket (hctl h)" using same_table_hctl(1) [OF same] by simp
  fix b assume b: "b \<le> max_bucket (hctl h)"
  have "bucket_chain h' b = (if b = ?b then prev @ rs else bucket_chain h b)"
    using bucket_chain_put [OF htab_invD(2) [OF inv] le b] same_table_elems(1) [OF same] by simp
  moreover have "filter (\<lambda>x. x \<noteq> a) (bucket_chain h b) = bucket_chain h b" if "b \<noteq> ?b"
    using that chain_unique [OF inv b le] ch by (intro filter_True) auto
  moreover have "filter (\<lambda>x. x \<noteq> a) (bucket_chain h ?b) = prev @ rs"
    using filter_split_distinct [of prev a rs] chain_distinct [OF inv le] ch by simp
  ultimately show "bucket_chain h' b = filter (\<lambda>x. x \<noteq> a) (bucket_chain h b)" by simp
qed

lemma dropWhile_filter_neq: "c \<noteq> a \<Longrightarrow> dropWhile (\<lambda>x. x \<noteq> c) (filter (\<lambda>x. x \<noteq> a) l) = filter (\<lambda>x. x \<noteq> a) (dropWhile (\<lambda>x. x \<noteq> c) l)"
  by (induction l) auto

lemma remaining_filter:
  assumes m: "max_bucket (hctl h') = max_bucket (hctl h)" and ch: "\<And>b. b \<le> max_bucket (hctl h) \<Longrightarrow> bucket_chain h' b = filter (\<lambda>x. x \<noteq> a) (bucket_chain h b)"
    and ok: "scan_ok h st" and a: "a \<notin> set (remaining h st)"
  shows "scan_ok h' st" "remaining h' st = remaining h st"
proof -
  let ?F = "filter (\<lambda>x. x \<noteq> a)" and ?m = "max_bucket (hctl h)"
  have cc: "concat (map (bucket_chain h') [i..<Suc ?m]) = ?F (concat (map (bucket_chain h) [i..<Suc ?m]))" for i
  proof -
    have "map (bucket_chain h') [i..<Suc ?m] = map (\<lambda>b. ?F (bucket_chain h b)) [i..<Suc ?m]" by (rule map_cong) (auto intro!: ch simp del: upt_Suc)
    then show ?thesis by (simp only: filter_concat map_map comp_def)
  qed
  have ne: "c \<noteq> a" if "curEntry st = Some c" for c
  proof
    assume "c = a"
    then have "a \<in> set (bucket_chain h (curBucket st))" using ok that by (simp add: scan_ok_def)
    then have "a \<in> set (dropWhile (\<lambda>x. x \<noteq> a) (bucket_chain h (curBucket st)))"
      by (metis (mono_tags, lifting) dropWhile_eq_Nil_conv hd_dropWhile hd_in_set)
    then show False using a that \<open>c = a\<close> by (simp add: remaining_def del: upt_Suc)
  qed
  show "scan_ok h' st" using ok ch ne m by (simp add: scan_ok_def)
  have "remaining h' st = ?F (remaining h st)"
  proof (cases "curEntry st")
    case None
    then show ?thesis using cc m by (simp add: remaining_def del: upt_Suc)
  next
    case (Some c)
    then have "bucket_chain h' (curBucket st) = ?F (bucket_chain h (curBucket st))" using ok ch by (simp add: scan_ok_def)
    then show ?thesis using Some cc m ne [OF Some] by (simp add: remaining_def dropWhile_filter_neq del: upt_Suc)
  qed
  moreover have "?F (remaining h st) = remaining h st" using a by (intro filter_True) auto
  ultimately show "remaining h' st = remaining h st" by simp
qed

lemma scan_remove_spec:
  assumes "htab_ok h" "scan_ok h st" "hash_seq_term cxt h = Inr c" "distinct (remaining h st)" "set (remaining h st) \<subseteq> set (table_elems h)"
  shows "\<exists>h'. scan_remove P cxt h st seen = Some (Inr (seen @ remaining h st, c), h') \<and> htab_ok h' \<and> same_params h h' \<and> elems h' = elems h \<and>
    set (table_elems h') = set (table_elems h) - {a \<in> set (remaining h st). P (elems h a)}"
  using assms
proof (induction "remaining h st" arbitrary: h st seen)
  case Nil
  obtain st' where "hash_seq_search cxt h st = Inr (None, st', c)"
    using seq_search_step(2) [OF Nil(2,3) Nil(1) [symmetric], of cxt] Nil(4) by auto
  then show ?case using Nil by (subst scan_remove.simps) simp
next
  case (Cons a rest)
  obtain st' where st': "hash_seq_search cxt h st = Inr (Some a, st', cxt)" "scan_ok h st'" "remaining h st' = rest"
    using seq_search_step(1) [OF Cons.prems(1,2) Cons.hyps(2) [symmetric], of cxt] by blast
  have at: "a \<in> set (table_elems h)" and an: "a \<notin> set rest" "distinct rest" "set rest \<subseteq> set (table_elems h)"
    using Cons.prems(4,5) Cons.hyps(2) [symmetric] by auto
  show ?case
  proof (cases "P (elems h a)")
    case False
    have "\<exists>h'. scan_remove P cxt h st' (seen @ [a]) = Some (Inr ((seen @ [a]) @ remaining h st', c), h') \<and> htab_ok h' \<and> same_params h h' \<and>
        elems h' = elems h \<and> set (table_elems h') = set (table_elems h) - {a \<in> set (remaining h st'). P (elems h a)}"
      by (rule Cons.hyps(1)) (use st' Cons.prems an in auto)
    then show ?thesis using st' False Cons.hyps(2) [symmetric] by (subst scan_remove.simps) auto
  next
    case True
    obtain r g where g: "hash_search cxt h (ekey (elems h a)) HASH_REMOVE = (r, g)" by fastforce
    have f: "hash_find h (ekey (elems h a)) = Some a"
      using at hash_keys.match_refl [OF htab_invD(1) [OF Cons.prems(1)]] by (simp add: hash_find_Some_iff [OF Cons.prems(1)])
    note sr = search_remove [OF Cons.prems(1) g] and rc = remove_chains [OF Cons.prems(1) g f]
    have rg: "r = Inr (Some a, True)" "htab_ok g" "same_params h g" "elems g = elems h" "mset (table_elems h) = add_mset a (mset (table_elems g))"
      using sr f by simp_all
    have te: "set (table_elems h) = insert a (set (table_elems g))" "a \<notin> set (table_elems g)"
      using mset_eq_setD [of "table_elems h" "a # table_elems g"] mset_eq_imp_distinct_iff [of "table_elems h" "a # table_elems g"] rg(5)
        distinct_table_elems [OF Cons.prems(1)] by simp_all
    have sg: "scan_ok g st'" "remaining g st' = rest"
      using remaining_filter [OF rc st'(2)] an(1) st'(3) by simp_all
    have tm: "hash_seq_term cxt g = Inr c"
      using Cons.prems(3) rg(3) by (auto simp: hash_seq_term_def deregister_seq_scan_def same_params_def split: if_splits)
    have "\<exists>h'. scan_remove P cxt g st' (seen @ [a]) = Some (Inr ((seen @ [a]) @ remaining g st', c), h') \<and> htab_ok h' \<and> same_params g h' \<and>
        elems h' = elems g \<and> set (table_elems h') = set (table_elems g) - {a \<in> set (remaining g st'). P (elems g a)}"
      by (rule Cons.hyps(1)) (use sg rg tm te an in auto)
    then obtain h' where h': "scan_remove P cxt g st' (seen @ [a]) = Some (Inr (seen @ a # rest, c), h')" "htab_ok h'" "same_params g h'" "elems h' = elems h"
        "set (table_elems h') = set (table_elems g) - {a \<in> set rest. P (elems h a)}" using sg(2) rg(4) by auto
    have "scan_remove P cxt h st seen = Some (Inr (seen @ remaining h st, c), h')"
      using st'(1) True g rg(1) h'(1) Cons.hyps(2) [symmetric] by (subst scan_remove.simps) simp
    moreover have "set (table_elems h') = set (table_elems h) - {a \<in> set (remaining h st). P (elems h a)}"
      using h'(5) te True Cons.hyps(2) [symmetric] by auto
    ultimately show ?thesis using h'(2,4) same_params_trans [OF rg(3) h'(3)] by blast
  qed
qed

end
