(* ===== verification/DynaHashBuf.thy ===== *)
theory DynaHashBuf
  imports DynaHashMap
begin

text \<open>
  \<open>buf_hash_operate\<close>, the search routine of the table of shared buffers: a copy of \<open>hash_search_with_hash_value\<close> with the action as a template argument and with the
  functions on buffer tags inlined.
\<close>

record RelFileNode =
  spcNode :: Oid
  dbNode :: Oid
  relNode :: Oid
  bucketNode :: int

record BufferTag =
  rnode :: RelFileNode
  forkNum :: int
  blockNum :: uint32

definition RelFileNodeEquals :: "RelFileNode \<Rightarrow> RelFileNode \<Rightarrow> bool" where
  "RelFileNodeEquals node1 node2 \<longleftrightarrow>
    relNode node1 = relNode node2 \<and> dbNode node1 = dbNode node2 \<and> spcNode node1 = spcNode node2 \<and> bucketNode node1 = bucketNode node2"

definition BUFFERTAGS_PTR_EQUAL :: "BufferTag \<Rightarrow> BufferTag \<Rightarrow> bool" where
  "BUFFERTAGS_PTR_EQUAL a b \<longleftrightarrow> RelFileNodeEquals (rnode a) (rnode b) \<and> blockNum a = blockNum b \<and> forkNum a = forkNum b"

text \<open>The assignment of every field of the tag \<open>b\<close> to the tag \<open>a\<close>.\<close>

definition BUFFERTAGS_PTR_SET :: "BufferTag \<Rightarrow> BufferTag \<Rightarrow> BufferTag" where
  "BUFFERTAGS_PTR_SET a b =
    a\<lparr>rnode := (rnode a)\<lparr>spcNode := spcNode (rnode b), dbNode := dbNode (rnode b), relNode := relNode (rnode b), bucketNode := bucketNode (rnode b)\<rparr>,
      forkNum := forkNum b, blockNum := blockNum b\<rparr>"

fun buf_follow_chain :: "(BufferTag, 'v) HTAB \<Rightarrow> BufferTag \<Rightarrow> uint32 \<Rightarrow> nat list \<Rightarrow> nat list \<times> nat list" where
  "buf_follow_chain h key hv [] = ([], [])"
| "buf_follow_chain h key hv (a # chain) =
    (if hashvalue (elems h a) = hv \<and> BUFFERTAGS_PTR_EQUAL (ekey (elems h a)) key then ([], a # chain)
     else (let (prev, rest) = buf_follow_chain h key hv chain in (a # prev, rest)))"

text \<open>
  The flag is set for \<open>HASH_ENTER\<close> only. A directory entry that is \<^verbatim>\<open>NULL\<close> is not checked for. The routine is instantiated for three actions; the last line is
  its error for any other.
\<close>

definition buf_hash_operate ::
  "HASHACTION \<Rightarrow> (BufferTag, 'v) HTAB \<Rightarrow> BufferTag \<Rightarrow> uint32 \<Rightarrow> (nat option \<times> bool option, BufferTag, 'v) htab_result" where
  "buf_hash_operate action h key hv =
    (let bucket = calc_bucket (hctl h) hv;
         (prev, rest) = buf_follow_chain h key hv (bucket_chain h bucket);
         found = (rest \<noteq> []); freelist_idx = FREELIST_IDX (hctl h) hv
     in case action of
          HASH_FIND \<Rightarrow> (Inr (if found then Some (hd rest) else None, None), h)
        | HASH_REMOVE \<Rightarrow>
            (if found then
               (Inr (Some (hd rest), None), free_entry freelist_idx (hd rest) (put_chain bucket (prev @ tl rest) h))
             else (Inr (None, None), h))
        | HASH_ENTER \<Rightarrow>
            (if found then (Inr (Some (hd rest), Some True), h)
             else hash_bind (get_hash_entry freelist_idx h) (\<lambda>r h.
               case r of
                 None \<Rightarrow> (Inl OUT_OF_MEMORY, h)
               | Some a \<Rightarrow>
                   (Inr (Some a, Some False),
                    (put_chain bucket (prev @ [a]) h)
                      \<lparr>elems := (elems h)(a := (elems h a)\<lparr>hashvalue := hv, ekey := BUFFERTAGS_PTR_SET (ekey (elems h a)) key\<rparr>)\<rparr>)))
        | HASH_ENTER_NULL \<Rightarrow> (Inl (Ereport ERROR ERRCODE_INTERNAL_ERROR), h))"

lemma BUFFERTAGS_PTR_EQUAL_iff: "BUFFERTAGS_PTR_EQUAL a b \<longleftrightarrow> a = b"
  by (auto simp: BUFFERTAGS_PTR_EQUAL_def RelFileNodeEquals_def intro!: BufferTag.equality RelFileNode.equality)

lemma BUFFERTAGS_PTR_SET_eq: "BUFFERTAGS_PTR_SET a b = b"
  by (auto simp: BUFFERTAGS_PTR_SET_def intro!: BufferTag.equality RelFileNode.equality)

text \<open>Any hash function will do for buffer tags that are compared and copied field by field.\<close>

interpretation buffer_tag_keys: hash_keys hf BUFFERTAGS_PTR_EQUAL "\<lambda>k. k" for hf
  by unfold_locales (auto simp: BUFFERTAGS_PTR_EQUAL_iff)

lemma buf_follow_chain_eq: "match h = BUFFERTAGS_PTR_EQUAL \<Longrightarrow> buf_follow_chain h key hv chain = follow_chain h key hv chain"
  by (induction chain) simp_all

lemma buf_operate_search_action:
  assumes inv: "htab_ok h" and m: "match h = BUFFERTAGS_PTR_EQUAL" "keycopy h = (\<lambda>k. k)" and a: "action \<noteq> HASH_ENTER_NULL"
    and nf: "\<not> frozen h" "alloc h \<noteq> DynaHashAllocNoExcept"
  shows "buf_hash_operate action h key hv =
    (case search_action (FREELIST_IDX (hctl h) hv) key hv action h of
       (r, h') \<Rightarrow> (map_sum id (\<lambda>(e, found). (e, if action = HASH_ENTER then Some found else None)) r, h'))"
proof -
  let ?b = "calc_bucket (hctl h) hv" and ?i = "FREELIST_IDX (hctl h) hv"
  have d: "dir h ! drop_bit (sshift (hctl h)) ?b \<noteq> None"
    by (rule dir_nonempty [OF htab_invD(2) [OF inv] calc_bucket_le [OF htab_invD(3) [OF inv]]])
  obtain prev rest where f: "follow_chain h key hv (bucket_chain h ?b) = (prev, rest)" by fastforce
  obtain q g where g: "get_hash_entry ?i h = (q, g)" by fastforce
  have "same_table h g" using get_hash_entry_inv [OF inv FREELIST_IDX_less IDX_unpartitioned g] by simp
  then have gk: "keycopy g = (\<lambda>k. k)" "alloc g \<noteq> DynaHashAllocNoExcept" using m nf by (simp_all add: same_table_eq)
  show ?thesis
  proof (cases action)
    case HASH_ENTER
    then show ?thesis using d f m g gk nf
      by (cases q) (auto simp: buf_hash_operate_def search_action_def buf_follow_chain_eq Let_def BUFFERTAGS_PTR_SET_eq split: option.splits)
  qed (use a d f m in \<open>simp_all add: buf_hash_operate_def search_action_def buf_follow_chain_eq Let_def\<close>)
qed

end
