(* ===== verification/DynaHashRun.thy ===== *)
theory DynaHashRun
  imports DynaHashCreate DynaHashScan DynaHashBuf
begin

text \<open>
  The properties of hash tables: creation, what the calls of a client mean, capacity, scans, and the search routine of the buffer table.
\<close>

subsection \<open>Creation\<close>

lemma created_state:
  assumes "created fns nelem info ok h"
  shows "map_state_of h = (\<lambda>_. None, 0, False)" "match h = fn_match fns" "may_fail h \<longleftrightarrow> info_fixed_size info \<or> (\<exists>n. \<not> ok n)" "htab_ok h"
  using assms by (auto simp: created_def map_state_of_def hash_map_def hash_find_def fun_eq_iff num_entries may_fail_def)

lemma create_table_spec:
  assumes "params_ok info" "functions_ok fns"
  obtains c where "set_params info = Some c" "create_outcome fns nelem info ok c (create_table tab fns (int nelem) info mem ok)"
  using create_table_outcome [OF assms] set_params_ok [OF assms(1)] that by blast

lemma create_table_created:
  assumes "params_ok info" "functions_ok fns" "create_table tab fns (int nelem) info mem ok = Some (Inr (), h)"
  shows "created fns nelem info ok h"
  using create_table_spec [OF assms(1,2), of nelem ok tab mem] assms(3) by (auto simp: create_outcome_def)

lemma created_free:
  assumes c: "created fns nelem info ok h"
  shows "length (free_all h) = next_elem h"
proof -
  have ok: "htab_ok h" "table_elems h = []" using c by (simp_all add: created_def)
  then have "mset (free_all h) = mset [0..<next_elem h]" using htab_invD(7) [OF ok(1)] by simp
  then show ?thesis using mset_eq_length by fastforce
qed

text \<open>
  C20. A hash table with no entries is made, or memory ran out: for a number of elements that is not negative, and for a shared table is at most \<^verbatim>\<open>INT_MAX\<close> (the code narrows
  the numbers of elements that it allocates in advance to \<^verbatim>\<open>int\<close>), \<open>hash_create\<close> returns, and unless the table is shared it raises an error only if an allocation failed. The new
  table satisfies the invariant, and a shared one has at least the number of free elements that was asked for.
\<close>

theorem hash_create_returns:
  assumes "params_ok info" "functions_ok fns" and n: "0 \<le> nelem" "info_shared info \<longrightarrow> nelem \<le> INT_MAX"
  shows "\<exists>r h. create_table tab fns nelem info mem ok = Some (r, h) \<and>
    (case r of
       Inl e \<Rightarrow> e = OUT_OF_MEMORY \<and> (info_shared info \<or> (\<exists>n. \<not> ok n))
     | Inr _ \<Rightarrow> htab_ok h \<and> hash_map h = (\<lambda>_. None) \<and> hash_get_num_entries h = 0 \<and> (info_shared info \<longrightarrow> nelem \<le> int (length (free_all h))))"
proof -
  obtain k where k: "nelem = int k" using n(1) nonneg_int_cases by blast
  obtain c where c: "create_outcome fns k info ok c (create_table tab fns nelem info mem ok)"
    using create_table_spec [OF assms(1,2), of k ok tab mem] unfolding k by blast
  then obtain r h where r: "create_table tab fns nelem info mem ok = Some (r, h)" using n(2) k by (auto simp: create_outcome_def)
  have out: "r = Inr () \<and> created fns k info ok h \<or> r = Inl OUT_OF_MEMORY \<and> (info_shared info \<or> (\<exists>n. \<not> ok n))"
    using c r by (auto simp: create_outcome_def)
  moreover have "htab_ok h \<and> hash_map h = (\<lambda>_. None) \<and> hash_get_num_entries h = 0 \<and> (info_shared info \<longrightarrow> nelem \<le> int (length (free_all h)))"
    if cr: "created fns k info ok h"
    using created_state [OF cr] created_free [OF cr] cr n(2) k by (simp add: created_def map_state_of_def)
  ultimately show ?thesis using r by (cases r) auto
qed

definition sample_info :: HASHCTL where
  "sample_info = \<lparr>info_num_partitions = None, info_ssize = None, info_dirsize = None, info_ffactor = None, info_elem = Some (64, 72), info_alloc = None,
     info_noexcept = False, info_shared = False, info_fixed_size = False, info_blobs = False, info_hash = None, info_match = None, info_keycopy = None\<rparr>"

definition sample_element :: "(uint8 list, nat) HASHELEMENT" where
  "sample_element = \<lparr>hashvalue = 0, ekey = [], edata = 0\<rparr>"

lemma sample_flags: "\<not> info_shared sample_info" "\<not> info_fixed_size sample_info"
  by (simp_all add: sample_info_def)

lemma sample_ok: "params_ok sample_info" "functions_ok (key_functions WORDS_LITTLEENDIAN True sample_info)"
proof -
  show "params_ok sample_info" by (simp add: params_ok_def sample_info_def)
  show "functions_ok (key_functions WORDS_LITTLEENDIAN True sample_info)"
    by (rule key_functions_ok) (simp_all add: sample_info_def info_keysize_def)
qed

theorem hash_create_returns_witness:
  "\<exists>r h. create_table 0 (key_functions WORDS_LITTLEENDIAN True sample_info) 10 sample_info (\<lambda>_. sample_element) (\<lambda>_. True) = Some (r, h) \<and> r = Inr () \<and> htab_ok h"
proof -
  obtain r h where r: "create_table 0 (key_functions WORDS_LITTLEENDIAN True sample_info) 10 sample_info (\<lambda>_. sample_element) (\<lambda>_. True) = Some (r, h)"
    "case r of Inl e \<Rightarrow> False | Inr _ \<Rightarrow> htab_ok h"
    using hash_create_returns [OF sample_ok, of 10 0 "\<lambda>_. sample_element" "\<lambda>_. True"] sample_flags by (fastforce split: sum.splits)
  then show ?thesis by (cases r) auto
qed

lemma sample_created:
  obtains h where "create_table 0 (key_functions WORDS_LITTLEENDIAN True sample_info) (int 10) sample_info (\<lambda>_. sample_element) (\<lambda>_. True) = Some (Inr (), h)"
proof -
  obtain c where "create_outcome (key_functions WORDS_LITTLEENDIAN True sample_info) 10 sample_info (\<lambda>_. True) c
      (create_table 0 (key_functions WORDS_LITTLEENDIAN True sample_info) (int 10) sample_info (\<lambda>_. sample_element) (\<lambda>_. True))"
    by (rule create_table_spec [OF sample_ok])
  then show thesis using that sample_flags unfolding create_outcome_def by (simp only: simp_thms) (metis option.exhaust surj_pair)
qed

lemma spec_calls_Cons:
  "spec_calls mf fails s (c # cs) rs = Some s' \<Longrightarrow>
    \<exists>r rs' s1. rs = r # rs' \<and> spec_call mf fails s c r = Some s1 \<and> spec_calls mf fails s1 cs rs' = Some s'"
  by (cases rs) (auto split: option.splits)

lemma spec_calls_Nil: "spec_calls mf fails s [] rs = Some s' \<longleftrightarrow> rs = [] \<and> s' = s"
  by (cases rs) auto

lemma spec_enter_no_failure:
  "spec_enter mf False (m, n, False) k v r = Some s \<Longrightarrow>
    (case m k of None \<Rightarrow> r = Added \<and> s = (map_put mf k (Some v) m, n + 1, False) | Some w \<Rightarrow> r = Found w \<and> s = (map_put mf k (Some v) m, n, False))"
  by (auto simp: spec_enter_def split: hash_reply.splits if_splits option.splits)

subsection \<open>Calls\<close>

text \<open>
  C7. A hash table is a map: for every table made by \<open>hash_create\<close> with functions on keys that agree with each other, whatever sequence of lookups, insertions,
  removals, freezes and scans follows, and however often the table is expanded meanwhile, every reply is the one that a map on the classes of matching keys gives. A failed
  allocation is reported for insertions only, and leaves the map as it was; without failures and limits no insertion is refused, unless the table was frozen.
\<close>

theorem hash_table_refines_map:
  assumes "params_ok info" "functions_ok fns" "create_table tab fns (int nelem) info mem ok = Some (Inr (), h)"
    and "run_calls (cxt, h) calls = (replies, cxt', h')"
  shows "spec_calls (fn_match fns) (info_fixed_size info \<or> (\<exists>n. \<not> ok n)) (\<lambda>_. None, 0, False) calls replies = Some (map_state_of h')"
proof -
  note c = created_state [OF create_table_created [OF assms(1-3)]]
  show ?thesis using calls_refine [OF c(4) assms(4)] c by simp
qed

theorem hash_table_refines_map_witness:
  "\<exists>h replies c h'. create_table 0 (key_functions WORDS_LITTLEENDIAN True sample_info) (int 10) sample_info (\<lambda>_. sample_element) (\<lambda>_. True) = Some (Inr (), h) \<and>
    run_calls (\<lparr>seq_scan_tables = [], seq_scan_level = [], num_seq_scans = 0\<rparr>, h) [Enter [97, 0] 5, Enter [97, 0, 1] 6, Lookup [97], Remove [98], Num_entries] = (replies, c, h') \<and>
    replies = [Added, Found 5, Found 6, Missing, Number 1]"
proof -
  obtain h where h: "create_table 0 (key_functions WORDS_LITTLEENDIAN True sample_info) (int 10) sample_info (\<lambda>_. sample_element) (\<lambda>_. True) = Some (Inr (), h)"
    by (rule sample_created)
  let ?calls = "[Enter [97, 0] 5, Enter [97, 0, 1] 6, Lookup [97], Remove [98], Num_entries] :: (uint8 list, nat) hash_call list"
  let ?cxt = "\<lparr>seq_scan_tables = [], seq_scan_level = [], num_seq_scans = 0\<rparr> :: dynahash_context"
  obtain replies c h' where r: "run_calls (?cxt, h) ?calls = (replies, c, h')" by (metis prod_cases3)
  let ?mf = "fn_match (key_functions WORDS_LITTLEENDIAN True sample_info)"
  have m: "?mf [97, 0] [97, 0, 1]" "?mf [97, 0] [97]" "?mf [97, 0, 1] [97]" "?mf [97, 0] [97, 0]" "?mf [97, 0, 1] [97, 0, 1]" "\<not> ?mf [97, 0] [98]" "\<not> ?mf [97, 0, 1] [98]"
    by (simp_all add: key_functions_def select_match_def select_hash_def sample_info_def info_keysize_def string_compare_def strncmp_eq_iff c_string_def unat_pred)
  have "spec_calls ?mf False (\<lambda>_. None, 0, False) ?calls replies = Some (map_state_of h')"
    using hash_table_refines_map [OF sample_ok h r] sample_flags by simp
  then have "replies = [Added, Found 5, Found 6, Missing, Number 1]"
    using m by (auto simp: map_put_def spec_calls_Nil dest!: spec_calls_Cons spec_enter_no_failure split: if_splits)
  then show ?thesis using h r by blast
qed

text \<open>
  C8. The structure behind the map stays sound through every sequence of calls: each element is in the bucket that its hash value selects under the present masks, no two
  elements have matching keys, every element ever allocated is in exactly one bucket chain or free list, and the counters of the free lists, also after an element was borrowed
  from another list, add up to the number of elements in the table.
\<close>

theorem hash_table_invariant:
  assumes "params_ok info" "functions_ok fns" "create_table tab fns (int nelem) info mem ok = Some (Inr (), h)"
    and "run_calls (cxt, h) calls = (replies, cxt', h')"
  shows "(\<forall>b \<le> max_bucket (hctl h'). \<forall>a \<in> set (bucket_chain h' b). calc_bucket (hctl h') (hashvalue (elems h' a)) = b) \<and>
    (\<forall>a \<in> set (table_elems h'). \<forall>a' \<in> set (table_elems h'). match h' (ekey (elems h' a)) (ekey (elems h' a')) \<longrightarrow> a = a') \<and>
    distinct (table_elems h' @ free_all h') \<and> set (table_elems h' @ free_all h') = {..<next_elem h'} \<and>
    hash_get_num_entries h' = int (length (table_elems h'))"
proof -
  note c = created_state [OF create_table_created [OF assms(1-3)]]
  have inv: "htab_ok h'" using calls_refine [OF c(4) assms(4)] by simp
  obtain held where "mset held = {#}" "distinct (table_elems h' @ free_all h' @ held)" "set (table_elems h' @ free_all h' @ held) = {..<next_elem h'}"
    by (rule htab_inv_partition [OF inv])
  then have p: "distinct (table_elems h' @ free_all h')" "set (table_elems h' @ free_all h') = {..<next_elem h'}" by simp_all
  have e: "\<forall>b \<le> max_bucket (hctl h'). \<forall>a \<in> set (bucket_chain h' b). calc_bucket (hctl h') (hashvalue (elems h' a)) = b"
    using entries_okD(1) [OF htab_invD(4) [OF inv]] by blast
  have k: "\<forall>a \<in> set (table_elems h'). \<forall>a' \<in> set (table_elems h'). match h' (ekey (elems h' a)) (ekey (elems h' a')) \<longrightarrow> a = a'"
    using htab_invD(5) [OF inv] by (simp add: keys_distinct_def)
  show ?thesis by (intro conjI e k p num_entries [OF inv])
qed

theorem hash_table_invariant_witness:
  "\<exists>h replies c h'. create_table 0 (key_functions WORDS_LITTLEENDIAN True sample_info) (int 10) sample_info (\<lambda>_. sample_element) (\<lambda>_. True) = Some (Inr (), h) \<and>
    run_calls (\<lparr>seq_scan_tables = [], seq_scan_level = [], num_seq_scans = 0\<rparr>, h) [Enter [97, 0] 5, Remove [97, 0]] = (replies, c, h') \<and>
    distinct (table_elems h' @ free_all h')"
proof -
  obtain h where h: "create_table 0 (key_functions WORDS_LITTLEENDIAN True sample_info) (int 10) sample_info (\<lambda>_. sample_element) (\<lambda>_. True) = Some (Inr (), h)"
    by (rule sample_created)
  obtain replies c h' where r: "run_calls (\<lparr>seq_scan_tables = [], seq_scan_level = [], num_seq_scans = 0\<rparr>, h) [Enter [97, 0] 5, Remove [97, 0]] = (replies, c, h')"
    by (metis prod_cases3)
  then show ?thesis using h hash_table_invariant [OF sample_ok h r] by blast
qed

subsection \<open>Capacity\<close>

lemma borrow_loop_next_elem: "borrow_loop n i j h = (r, h') \<Longrightarrow> next_elem h' = next_elem h"
  by (induction n i j h rule: borrow_loop.induct) (auto simp: Let_def bump_nentries_def pop_free_def split: if_splits list.splits)

lemma get_hash_entry_next_elem:
  assumes "get_hash_entry i h = (r, h')"
  shows "next_elem h \<le> next_elem h'"
proof (cases "free_elems (freeList (hctl h) ! i)")
  case (Cons a l)
  then show ?thesis using assms by (auto simp: get_hash_entry_def bump_nentries_def pop_free_def)
next
  case Nil
  show ?thesis
  proof (cases "isfixed h")
    case True
    then show ?thesis using assms Nil by (auto simp: get_hash_entry_def element_alloc_def dest: borrow_loop_next_elem split: if_splits prod.splits)
  next
    case False
    show ?thesis
    proof (cases "alloc_ok h (nallocs h)")
      case True
      then show ?thesis using assms Nil False by (auto simp: get_hash_entry_def element_alloc_def hash_alloc_simps bump_nentries_def pop_free_def)
    next
      case nok: False
      then show ?thesis using assms Nil False borrow_loop_next_elem
        by (fastforce simp: get_hash_entry_def element_alloc_def hash_alloc_simps split: if_splits prod.splits)
    qed
  qed
qed

lemma search_action_next_elem:
  assumes "search_action i key hv action h = (r, h')"
  shows "next_elem h \<le> next_elem h'"
proof -
  obtain prev rest where f: "follow_chain h key hv (bucket_chain h (calc_bucket (hctl h) hv)) = (prev, rest)" by fastforce
  obtain q g where g: "get_hash_entry i h = (q, g)" by fastforce
  have le: "next_elem h \<le> next_elem g" by (rule get_hash_entry_next_elem [OF g])
  show ?thesis using assms f g le
    by (cases action; cases q) (auto simp: search_action_def Let_def free_entry_def split: if_splits option.splits)
qed

text \<open>A table of a fixed size whose free lists are shared by all partitions, as in shared memory.\<close>

definition fixed_table :: "nat \<Rightarrow> ('k, 'v) HTAB \<Rightarrow> bool" where
  "fixed_table nelem h \<longleftrightarrow> htab_ok h \<and> isshared h \<and> \<not> frozen h \<and> IS_PARTITIONED (hctl h) \<and> isfixed h \<and> nelem \<le> next_elem h"

lemma fixed_search:
  assumes "fixed_table nelem h" "hash_search cxt h key action = (r, h')"
  shows "nelem \<le> next_elem h'" "search_action (FREELIST_IDX (hctl h) (hash h key)) key (hash h key) action h = (r, h')"
proof -
  show s: "search_action (FREELIST_IDX (hctl h) (hash h key)) key (hash h key) action h = (r, h')"
    using assms by (simp add: fixed_table_def hash_search_def hash_search_with_hash_value_def Let_def)
  show "nelem \<le> next_elem h'" using search_action_next_elem [OF s] assms(1) by (simp add: fixed_table_def)
qed

lemma fixed_same_params:
  "fixed_table nelem h \<Longrightarrow> same_params h h' \<Longrightarrow> htab_ok h' \<Longrightarrow> nelem \<le> next_elem h' \<Longrightarrow> fixed_table nelem h'"
  by (simp add: fixed_table_def same_params_def IS_PARTITIONED_def)

lemma fixed_enter:
  assumes f: "fixed_table nelem h" and act: "action = HASH_ENTER \<or> action = HASH_ENTER_NULL" and c: "enter_reply cxt v (hash_search cxt h k action) = (reply, cxt', h')"
  shows "fixed_table nelem h'"
proof -
  obtain r g where r: "hash_search cxt h k action = (r, g)" by fastforce
  have "htab_ok h" using f by (simp add: fixed_table_def)
  note e = search_enter [OF this act r]
  have g: "fixed_table nelem g" using fixed_same_params [OF f] e fixed_search(1) [OF f r] by (simp add: enter_ok_def)
  have w: "fixed_table nelem (write_data a v g)" if "hash_find g k = Some a" for a
    using g hash_map_write(1) [OF _ that] by (simp add: fixed_table_def write_data_def)
  show ?thesis
  proof (cases rule: enter_result_cases [of r])
    case (3 a)
    then show ?thesis using c r e w by (simp add: enter_reply_def enter_ok_def)
  next
    case (4 a)
    then show ?thesis using c r e w by (simp add: enter_reply_def enter_ok_def)
  qed (use c r g in \<open>simp_all add: enter_reply_def\<close>)
qed

lemma fixed_call:
  assumes f: "fixed_table nelem h" and c: "call_table (cxt, h) call = (reply, cxt', h')"
  shows "fixed_table nelem h'"
proof -
  have inv: "htab_ok h" using f by (simp add: fixed_table_def)
  show ?thesis
  proof (cases call)
    case (Lookup k)
    then show ?thesis using c f inv by (cases "hash_find h k") (auto simp: search_find)
  next
    case (Remove k)
    obtain r g where r: "hash_search cxt h k HASH_REMOVE = (r, g)" by fastforce
    have "h' = g" using c r Remove by (auto split: sum.splits option.splits prod.splits)
    then show ?thesis using fixed_same_params [OF f] search_remove [OF inv r] fixed_search(1) [OF f r] by simp
  next
    case Freeze
    then show ?thesis using c f by (auto simp: hash_freeze_def fixed_table_def)
  next
    case (Scan_begin l)
    then show ?thesis using c f by (auto simp: scan_reply_def split: sum.splits)
  next
    case Scan_term
    then show ?thesis using c f by (auto simp: scan_reply_def split: sum.splits)
  qed (use c f fixed_enter [OF f, of _ cxt _ _ reply cxt' h'] in auto)
qed

lemma fixed_calls: "fixed_table nelem h \<Longrightarrow> run_calls (cxt, h) calls = (replies, cxt', h') \<Longrightarrow> fixed_table nelem h'"
proof (induction calls arbitrary: cxt h replies)
  case (Cons call calls)
  obtain r cxt1 h1 where r: "call_table (cxt, h) call = (r, cxt1, h1)" by (metis prod_cases3)
  obtain rs where rs: "run_calls (cxt1, h1) calls = (rs, cxt', h')" using Cons.prems(2) r by (auto split: prod.splits)
  show ?case by (rule Cons.IH [OF fixed_call [OF Cons.prems(1) r] rs])
qed simp

lemma fixed_refusal:
  assumes f: "fixed_table nelem h" and c: "call_table (cxt, h) (Enter k v) = (reply, s)" and ref: "reply = Null \<or> (\<exists>e. reply = Raised e)"
  shows "int nelem \<le> hash_get_num_entries h"
proof -
  have inv: "htab_ok h" using f by (simp add: fixed_table_def)
  obtain r g where r: "hash_search cxt h k HASH_ENTER = (r, g)" by fastforce
  note s = fixed_search(2) [OF f r]
  let ?i = "FREELIST_IDX (hctl h) (hash h k)" and ?b = "calc_bucket (hctl h) (hash h k)"
  obtain prev rest where fc: "follow_chain h k (hash h k) (bucket_chain h ?b) = (prev, rest)" by fastforce
  have d: "dir h ! drop_bit (sshift (hctl h)) ?b \<noteq> None"
    by (rule dir_nonempty [OF htab_invD(2) [OF inv] calc_bucket_le [OF htab_invD(3) [OF inv]]])
  obtain q e where q: "get_hash_entry ?i h = (q, e)" by fastforce
  note gi = get_hash_entry_inv [OF inv FREELIST_IDX_less IDX_unpartitioned q]
  have rr: "(\<exists>err. r = Inl err) \<or> (\<exists>x. r = Inr (None, x))" using c r ref by (cases rule: enter_result_cases [of r]) (auto simp: enter_reply_def)
  have "\<not> (\<exists>a. q = Inr (Some a))"
    using rr s fc d q f by (cases "rest = []") (auto simp: search_action_def Let_def fixed_table_def)
  moreover have "\<not> (\<exists>err. q = Inl err)" using gi f by (auto simp: fixed_table_def)
  ultimately have "q = Inr None" by (metis option.exhaust sum.exhaust)
  then have "free_all h = []" using gi by simp
  then have "mset (table_elems h) = mset [0..<next_elem h]" using htab_invD(7) [OF inv] by simp
  then have "length (table_elems h) = next_elem h" using mset_eq_length by fastforce
  then show ?thesis using f num_entries [OF inv] by (simp add: fixed_table_def)
qed

subsection \<open>The size of the directory\<close>

lemma pow2_unique:
  assumes "(n::int) \<le> 2 ^ i" "0 < i \<longrightarrow> 2 ^ (i - 1) < n" "n \<le> 2 ^ j" "0 < j \<longrightarrow> 2 ^ (j - 1) < n"
  shows "i = j"
proof -
  have le: "a \<le> b" if "n \<le> 2 ^ b" "0 < a \<longrightarrow> 2 ^ (a - 1) < n" for a b :: nat
  proof (rule ccontr)
    assume "\<not> a \<le> b"
    then have "(2::int) ^ b \<le> 2 ^ (a - 1)" "0 < a" by (auto intro!: power_increasing)
    then show False using that by linarith
  qed
  show ?thesis using le [OF assms(3,2)] le [OF assms(1,4)] by simp
qed

lemma next_pow2_agree:
  assumes "0 \<le> n" "n \<le> 2 ^ 30"
  shows "next_pow2_long n = next_pow2_int n"
proof -
  have "n < 2 ^ 62" using assms(2) by simp
  then obtain i where i: "next_pow2_long n = Some (2 ^ i)" "n \<le> 2 ^ i" "0 < i \<longrightarrow> 2 ^ (i - 1) < n"
    using next_pow2_long_spec [OF assms(1)] by blast
  obtain j where j: "next_pow2_int n = Some (2 ^ j)" "n \<le> 2 ^ j" "0 < j \<longrightarrow> 2 ^ (j - 1) < n"
    using next_pow2_int_spec [OF assms(1)] assms(2) by blast
  show ?thesis using pow2_unique [OF i(2,3) j(2,3)] i(1) j(1) by simp
qed

lemma select_dirsize_enough:
  assumes n: "nelem \<le> 2 ^ 30" and d: "hash_select_dirsize (int nelem) = Some d" and c: "ffactor c = DEF_FFACTOR" "ssize c = DEF_SEGSIZE"
    and p: "num_partitions c = 0 \<or> (\<exists>k \<le> 16. num_partitions c = 2 ^ k)"
  shows "the (segments_needed nelem c) \<le> d"
proof -
  have s1: "(int nelem - 1) sdiv int DEF_FFACTOR + 1 = int nelem" by (simp add: DEF_FFACTOR_def signed_divide_int_def sgn_mult_abs)
  have p30: "num_partitions c = 0 \<or> (\<exists>k \<le> 30. num_partitions c = 2 ^ k)" using p by auto
  obtain i k where ik: "next_pow2_int (int nelem) = Some (2 ^ i)" "double_until (2 ^ i) (num_partitions c) = 2 ^ k" "i \<le> k" "k \<le> 30"
    using bucket_numbers [of DEF_FFACTOR "num_partitions c" nelem] p30 s1 by (metis DEF_FFACTOR_def zero_less_one)
  have i30: "i \<le> 30" using ik by simp
  obtain j where j: "next_pow2_int (int ((2 ^ k - 1) div DEF_SEGSIZE + 1)) = Some (2 ^ j)" "0 < j \<Longrightarrow> 2 ^ (j - 1) \<le> (2 ^ k - 1) div DEF_SEGSIZE"
    using segment_number [OF ik(4), of DEF_SEGSIZE] by metis
  obtain j' where j': "next_pow2_int (int ((2 ^ i - 1) div DEF_SEGSIZE + 1)) = Some (2 ^ j')" "(2 ^ i - 1) div DEF_SEGSIZE < 2 ^ j'"
    using segment_number [OF i30, of DEF_SEGSIZE] by metis
  have seg: "segments_needed nelem c = Some (2 ^ j)" using j(1) by (simp add: segments_needed_def c s1 ik)
  have arg: "(int (2 ^ i) - 1) sdiv int DEF_SEGSIZE + 1 = int ((2 ^ i - 1) div DEF_SEGSIZE + 1)"
    by (simp add: DEF_SEGSIZE_def signed_divide_int_def sgn_if of_nat_diff zdiv_int)
  have "(2 ^ i - 1) div DEF_SEGSIZE + 1 \<le> 2 ^ i"
    using div_le_dividend [of "2 ^ i - 1" DEF_SEGSIZE] zero_less_power [of "2::nat" i] by linarith
  also have "\<dots> \<le> (2::nat) ^ 30" using i30 by (intro power_increasing) auto
  finally have "int ((2 ^ i - 1) div DEF_SEGSIZE + 1) \<le> 2 ^ 30" by (metis of_nat_le_iff of_nat_numeral of_nat_power)
  then have l2: "next_pow2_long (int ((2 ^ i - 1) div DEF_SEGSIZE + 1)) = Some (2 ^ j')" using next_pow2_agree j'(1) by simp
  have l1: "next_pow2_long (int nelem) = Some (2 ^ i)" using next_pow2_agree [of "int nelem"] ik(1) n by simp
  have d': "d = double_until DEF_DIRSIZE (2 ^ j')"
    using d by (simp only: hash_select_dirsize_def s1 l1 l2 arg option.case option.inject)
  obtain m where m: "d = 2 ^ m" "8 \<le> m" "2 ^ j' \<le> (2::nat) ^ m"
    using double_until_pow2 [of 8 "2 ^ j'"] unfolding d' DEF_DIRSIZE_def by auto
  show ?thesis
  proof (cases "i = k")
    case True
    then have "j = j'" using j(1) j'(1) by simp
    then show ?thesis using seg m by simp
  next
    case False
    then have "2 ^ (k - 1) < num_partitions c" using double_until_pow2 [of i "num_partitions c"] ik(2,3) by auto
    then obtain q where "q \<le> 16" "k - 1 < q" using p by auto
    then have "(2::nat) ^ k \<le> 2 ^ 16" by (intro power_increasing) auto
    then have "(2 ^ k - 1) div DEF_SEGSIZE < 256" by (simp add: DEF_SEGSIZE_def div_less_iff_less_mult)
    then have "j \<le> 8" if "0 < j" using j(2) [OF that] power_less_imp_less_exp [of "2::nat" "j - 1" 8] by simp
    then have "j \<le> m" using m(2) by (cases "0 < j") auto
    then have "(2::nat) ^ j \<le> 2 ^ m" by (intro power_increasing) auto
    then show ?thesis using seg m(1) by simp
  qed
qed

lemma set_params_default:
  assumes "info_ssize info = None" "info_ffactor info = None" "set_params info = Some c"
  shows "ffactor c = DEF_FFACTOR" "ssize c = DEF_SEGSIZE"
  using assms by (auto simp: set_params_def hdefault_def Let_def split: option.splits)

lemma shared_create_succeeds:
  assumes p: "params_ok info" "functions_ok fns" and ok: "\<forall>n. ok n" and sh: "info_ssize info = None" "info_ffactor info = None"
    and part: "\<forall>p. info_num_partitions info = Some p \<longrightarrow> p \<le> 2 ^ 16" and n: "nelem \<le> 2 ^ 30"
    and d: "hash_select_dirsize (int nelem) = Some d" "info_dirsize info = Some (d, m)"
  shows "\<exists>h. create_table tab fns (int nelem) info mem ok = Some (Inr (), h)"
proof -
  obtain c where c: "set_params info = Some c" "num_partitions c = 0 \<or> (\<exists>k \<le> 30. num_partitions c = 2 ^ k)"
    "num_partitions c = (case info_num_partitions info of None \<Rightarrow> 0 | Some n \<Rightarrow> n)" "dsize c = d"
  proof -
    obtain c where c: "set_params info = Some c" "num_partitions c = 0 \<or> (\<exists>k \<le> 30. num_partitions c = 2 ^ k)"
      "num_partitions c = (case info_num_partitions info of None \<Rightarrow> 0 | Some n \<Rightarrow> n)"
      "dsize c = (case info_dirsize info of None \<Rightarrow> DEF_DIRSIZE | Some (d, _) \<Rightarrow> d)"
      using set_params_ok [OF p(1)] by blast
    show ?thesis by (rule that [OF c(1-3)]) (use c(4) d(2) in simp)
  qed
  have "num_partitions c = 0 \<or> (\<exists>k \<le> 16. num_partitions c = 2 ^ k)"
    using c(2,3) part power_increasing_iff [of "2::nat" _ 16] by (auto split: option.splits)
  then have "the (segments_needed nelem c) \<le> d"
    using select_dirsize_enough [OF n d(1) set_params_default [OF sh c(1)]] by blast
  moreover have "create_outcome fns nelem info ok c (create_table tab fns (int nelem) info mem ok)"
    by (rule create_table_outcome [OF p c(1)])
  moreover have "int nelem \<le> INT_MAX" using n by (simp add: INT_MAX_def)
  ultimately show ?thesis using ok c by (auto simp: create_outcome_def)
qed

text \<open>
  C23. \<open>hash_select_dirsize\<close> agrees with \<open>init_htab\<close>: a shared table for up to \<open>2 ^ 30\<close> elements, with the default segment size and fill factor and with at most \<open>2 ^ 16\<close>
  partitions, whose directory has the size that \<open>hash_select_dirsize\<close> selects, is always created when its allocations succeed.
\<close>

theorem select_dirsize_agrees:
  assumes "params_ok info" "functions_ok fns" "\<forall>n. ok n" "info_ssize info = None" "info_ffactor info = None"
    and "\<forall>p. info_num_partitions info = Some p \<longrightarrow> p \<le> 2 ^ 16" "nelem \<le> 2 ^ 30"
    and "hash_select_dirsize (int nelem) = Some d" "info_dirsize info = Some (d, m)"
  shows "\<exists>h. create_table tab fns (int nelem) info mem ok = Some (Inr (), h)"
  by (rule shared_create_succeeds [OF assms])

definition shared_info :: HASHCTL where
  "shared_info = \<lparr>info_num_partitions = Some 16, info_ssize = None, info_dirsize = Some (256, 256), info_ffactor = None, info_elem = Some (20, 24), info_alloc = Some UserAlloc,
     info_noexcept = False, info_shared = True, info_fixed_size = True, info_blobs = True, info_hash = None, info_match = None, info_keycopy = None\<rparr>"

lemma shared_info_ok: "params_ok shared_info" "functions_ok (key_functions WORDS_LITTLEENDIAN True shared_info)"
proof -
  show "params_ok shared_info" by (auto simp: params_ok_def shared_info_def intro!: exI [of _ 4])
  show "functions_ok (key_functions WORDS_LITTLEENDIAN True shared_info)"
    by (rule key_functions_ok) (simp_all add: shared_info_def info_keysize_def)
qed

lemma select_dirsize_small: "hash_select_dirsize 4 = Some 256"
proof -
  have "my_log2 (2 ^ 2) = Some 2" "my_log2 (2 ^ 0) = Some 0" by (rule my_log2_pow2; simp)+
  then show ?thesis
    by (simp add: hash_select_dirsize_def next_pow2_long_def DEF_FFACTOR_def DEF_SEGSIZE_def DEF_DIRSIZE_def signed_divide_int_def double_until.simps)
qed

lemma shared_flags:
  "\<forall>n::nat. (\<lambda>_. True) n" "info_ssize shared_info = None" "info_ffactor shared_info = None"
  "\<forall>p. info_num_partitions shared_info = Some p \<longrightarrow> p \<le> 2 ^ 16" "(4::nat) \<le> 2 ^ 30"
  "hash_select_dirsize (int 4) = Some 256" "info_dirsize shared_info = Some (256, 256)"
  using select_dirsize_small by (simp_all add: shared_info_def)

theorem select_dirsize_agrees_witness:
  "\<exists>h. create_table 0 (key_functions WORDS_LITTLEENDIAN True shared_info) (int 4) shared_info (\<lambda>_. sample_element) (\<lambda>_. True) = Some (Inr (), h)"
  by (rule select_dirsize_agrees [OF shared_info_ok shared_flags])

text \<open>
  C21. A shared table of a fixed size with partitions, made for at most \<^verbatim>\<open>INT_MAX\<close> elements, holds what it was made for: after any calls, a key can be inserted as long as
  there are fewer entries than were asked for when the table was created. A free element is found even if it is in the list of another partition.
\<close>

theorem fixed_table_capacity:
  assumes "params_ok info" "functions_ok fns" "create_table tab fns (int nelem) info mem ok = Some (Inr (), h)"
    and "info_shared info" "info_fixed_size info" "info_num_partitions info = Some p" "int nelem \<le> INT_MAX"
    and "run_calls (cxt, h) calls = (replies, cxt', h')"
    and "hash_get_num_entries h' < int nelem" "call_table (cxt', h') (Enter k v) = (reply, s)"
  shows "reply = Added \<or> (\<exists>w. reply = Found w)"
proof -
  have c: "created fns nelem info ok h" by (rule create_table_created [OF assms(1-3)])
  have "0 < p" using assms(1,6) by (auto simp: params_ok_def)
  then have "IS_PARTITIONED (hctl h)" using c assms(6) by (simp add: IS_PARTITIONED_def created_def)
  then have f: "fixed_table nelem h" using c assms(4,5,7) by (simp add: fixed_table_def created_def)
  have "\<not> (reply = Null \<or> (\<exists>e. reply = Raised e))"
  proof
    assume "reply = Null \<or> (\<exists>e. reply = Raised e)"
    from fixed_refusal [OF fixed_calls [OF f assms(8)] assms(10) this] show False using assms(9) by simp
  qed
  moreover obtain r g where "hash_search cxt' h' k HASH_ENTER = (r, g)" by fastforce
  ultimately show ?thesis using assms(10) by (cases rule: enter_result_cases [of r]) (auto simp: enter_reply_def)
qed

theorem fixed_table_capacity_witness:
  "\<exists>h reply s. create_table 0 (key_functions WORDS_LITTLEENDIAN True shared_info) (int 4) shared_info (\<lambda>_. sample_element) (\<lambda>_. True) = Some (Inr (), h) \<and>
    hash_get_num_entries h < int 4 \<and>
    call_table (\<lparr>seq_scan_tables = [], seq_scan_level = [], num_seq_scans = 0\<rparr>, h) (Enter [1] 5) = (reply, s) \<and> (reply = Added \<or> (\<exists>w. reply = Found w))"
proof -
  obtain h where h: "create_table 0 (key_functions WORDS_LITTLEENDIAN True shared_info) (int 4) shared_info (\<lambda>_. sample_element) (\<lambda>_. True) = Some (Inr (), h)"
    using shared_create_succeeds [OF shared_info_ok shared_flags] by blast
  have f: "info_shared shared_info" "info_fixed_size shared_info" "info_num_partitions shared_info = Some 16" "int 4 \<le> INT_MAX"
    by (simp_all add: shared_info_def INT_MAX_def)
  let ?cxt = "\<lparr>seq_scan_tables = [], seq_scan_level = [], num_seq_scans = 0\<rparr> :: dynahash_context"
  obtain reply s where r: "call_table (?cxt, h) (Enter [1] 5) = (reply, s)" by (metis surj_pair)
  have n: "hash_get_num_entries h < int 4"
    using created_state(1) [OF create_table_created [OF shared_info_ok h]] by (simp add: map_state_of_def)
  show ?thesis using fixed_table_capacity [OF shared_info_ok h f run_calls.simps(1) n r] h n r by blast
qed

text \<open>
  C25. \<open>my_log2\<close> returns the binary logarithm, rounded up and bounded by 62, of a number that is not negative. For a negative number it does not return, except for the least one,
  although it guards against numbers that are too large.
\<close>

theorem my_log2_returns:
  assumes "- (2 ^ 63) \<le> n" "n < 2 ^ 63"
  shows "(case my_log2 n of
       None \<Rightarrow> - (2 ^ 63) < n \<and> n < 0
     | Some i \<Rightarrow> n = - (2 ^ 63) \<or> 0 \<le> n \<and> min n (2 ^ 62 - 1) \<le> 2 ^ i \<and> (0 < i \<longrightarrow> 2 ^ (i - 1) < min n (2 ^ 62 - 1)))"
proof (cases "0 \<le> n")
  case True
  obtain i where i: "my_log2 n = Some i" "nat (min n (2 ^ 62 - 1)) \<le> 2 ^ i" "0 < i \<longrightarrow> 2 ^ (i - 1) < nat (min n (2 ^ 62 - 1))"
    using my_log2_spec [OF True] by blast
  have "0 \<le> min n (2 ^ 62 - 1)" using True by simp
  then show ?thesis using i True by (simp add: nat_le_iff zless_nat_eq_int_zless)
next
  case False
  show ?thesis
  proof (cases "n = - (2 ^ 63)")
    case True
    obtain i where "log2_loop (2 ^ 63) 0 (2 ^ 0) = Some i" using log2_loop_spec [of "2 ^ 63" 0 63] by auto
    then have "my_log2 n = Some i" using True by (simp add: my_log2_def LONG_MAX_def)
    then show ?thesis using True by simp
  next
    case ne: False
    have "(n + 2 ^ 64) mod 2 ^ 64 = n + 2 ^ 64" by (rule mod_pos_pos_trivial) (use False assms in auto)
    then have m: "n mod 2 ^ 64 = n + 2 ^ 64" by simp
    have "2 ^ 63 < nat (n + 2 ^ 64)" using ne assms by (simp add: zless_nat_eq_int_zless)
    then have "log2_loop (nat (n mod 2 ^ 64)) 0 (2 ^ 0) = None" unfolding m by (intro log2_loop_diverges) auto
    then have "my_log2 n = None" using False by (simp add: my_log2_def LONG_MAX_def)
    then show ?thesis using False ne assms by simp
  qed
qed

theorem my_log2_returns_witness: "my_log2 (- 5) = None"
proof -
  have "case my_log2 (- 5) of None \<Rightarrow> - (2 ^ 63) < (- 5 :: int) \<and> (- 5 :: int) < 0
     | Some i \<Rightarrow> - 5 = (- (2 ^ 63) :: int) \<or> (0::int) \<le> - 5 \<and> min (- 5) (2 ^ 62 - 1) \<le> (2 ^ i :: int) \<and> (0 < i \<longrightarrow> (2 ^ (i - 1) :: int) < min (- 5) (2 ^ 62 - 1))"
    by (rule my_log2_returns) simp_all
  then show ?thesis by (auto split: option.splits)
qed

subsection \<open>Scans\<close>

text \<open>
  C19. A scan returns every entry of the table exactly once, in the order of the buckets, and ends, also if the client removes any of the entries that it gets
  on the way. Afterwards exactly the selected entries are gone, and the scan is no longer registered.
\<close>

theorem scan_visits_each_once:
  assumes "htab_ok h" "scans_ok cxt" "hash_seq_init cxt nest_level h = Inr (st, cxt')"
  shows "\<exists>c h'. scan_remove P cxt' h st [] = Some (Inr (table_elems h, c), h') \<and> distinct (table_elems h) \<and> htab_ok h' \<and>
    active_scans c = active_scans cxt \<and>
    hash_map h' = (\<lambda>k. case hash_find h k of None \<Rightarrow> None | Some a \<Rightarrow> if P (elems h a) then None else Some (edata (elems h a)))"
proof -
  have st: "st = \<lparr>curBucket = 0, curEntry = None\<rparr>"
    using assms(3) by (auto simp: hash_seq_init_def Let_def result_simps split: if_splits)
  have rem: "remaining h st = table_elems h" by (simp only: remaining_def st HASH_SEQ_STATUS.simps option.case table_elems_def)
  have ok: "scan_ok h st" by (simp add: scan_ok_def st)
  obtain c where c: "hash_seq_term cxt' h = Inr c" "active_scans c = active_scans cxt"
  proof (cases "frozen h")
    case True
    then have "cxt' = cxt" using assms(3) by (simp add: hash_seq_init_def Let_def)
    then show ?thesis using that [of cxt] True by (simp add: hash_seq_term_def)
  next
    case False
    then have "register_seq_scan cxt nest_level h = Inr cxt'" using assms(3) by (auto simp: hash_seq_init_def Let_def result_simps)
    then show ?thesis using register_then_drop(4) [OF assms(2)] that False by (auto simp: hash_seq_term_def)
  qed
  have d: "distinct (table_elems h)" by (rule distinct_table_elems [OF assms(1)])
  obtain h' where h': "scan_remove P cxt' h st [] = Some (Inr (table_elems h, c), h')" "htab_ok h'" "same_params h h'" "elems h' = elems h"
    "set (table_elems h') = set (table_elems h) - {a \<in> set (table_elems h). P (elems h a)}"
    using scan_remove_spec [OF assms(1) ok c(1), of P "[]"] d unfolding rem by auto
  have mt: "match h' = match h" using h'(3) by (simp add: same_params_def)
  have "hash_find h' k = (case hash_find h k of None \<Rightarrow> None | Some a \<Rightarrow> if P (elems h a) then None else Some a)" for k
  proof (cases "hash_find h k")
    case None
    then have "hash_find h' k = None" using h'(4,5) mt by (simp add: hash_find_None_iff)
    then show ?thesis using None by simp
  next
    case (Some a)
    then have a: "a \<in> set (table_elems h)" "match h (ekey (elems h a)) k" by (simp_all add: hash_find_Some_iff [OF assms(1)])
    show ?thesis
    proof (cases "P (elems h a)")
      case True
      have "hash_find h' k = None"
      proof (rule ccontr)
        assume "hash_find h' k \<noteq> None"
        then obtain x where "hash_find h' k = Some x" by blast
        then have x: "x \<in> set (table_elems h')" "match h (ekey (elems h x)) k" using mt h'(4) by (simp_all add: hash_find_Some_iff [OF h'(2)])
        then have "hash_find h k = Some x" using h'(5) by (simp add: hash_find_Some_iff [OF assms(1)])
        then show False using Some x(1) h'(5) True by simp
      qed
      then show ?thesis using Some True by simp
    next
      case False
      then have "hash_find h' k = Some a" using a h'(4,5) mt by (simp add: hash_find_Some_iff [OF h'(2)])
      then show ?thesis using Some False by simp
    qed
  qed
  then have "hash_map h' = (\<lambda>k. case hash_find h k of None \<Rightarrow> None | Some a \<Rightarrow> if P (elems h a) then None else Some (edata (elems h a)))"
    by (auto simp: hash_map_def fun_eq_iff h'(4) split: option.splits)
  then show ?thesis using h' c d by blast
qed

definition no_scans :: dynahash_context where
  "no_scans = \<lparr>seq_scan_tables = replicate MAX_SEQ_SCANS 0, seq_scan_level = replicate MAX_SEQ_SCANS 0, num_seq_scans = 0\<rparr>"

lemma no_scans_ok: "scans_ok no_scans"
  by (simp add: scans_ok_def no_scans_def)

theorem scan_visits_each_once_witness:
  "\<exists>h st cxt c h'. create_table 0 (key_functions WORDS_LITTLEENDIAN True sample_info) (int 10) sample_info (\<lambda>_. sample_element) (\<lambda>_. True) = Some (Inr (), h) \<and>
    hash_seq_init no_scans 1 h = Inr (st, cxt) \<and> scan_remove (\<lambda>e. edata e = 0) cxt h st [] = Some (Inr (table_elems h, c), h') \<and> active_scans c = []"
proof -
  obtain h where h: "create_table 0 (key_functions WORDS_LITTLEENDIAN True sample_info) (int 10) sample_info (\<lambda>_. sample_element) (\<lambda>_. True) = Some (Inr (), h)"
    by (rule sample_created)
  note cr = create_table_created [OF sample_ok h]
  have ok: "htab_ok h" "\<not> frozen h" using cr by (simp_all add: created_def)
  obtain cxt where r: "register_seq_scan no_scans 1 h = Inr cxt" by (simp add: register_seq_scan_def no_scans_def MAX_SEQ_SCANS_def Let_def)
  then have i: "hash_seq_init no_scans 1 h = Inr (\<lparr>curBucket = 0, curEntry = None\<rparr>, cxt)" using ok(2) by (simp add: hash_seq_init_def Let_def)
  have "active_scans no_scans = []" by (simp add: active_scans_def no_scans_def)
  then show ?thesis using scan_visits_each_once [OF ok(1) no_scans_ok i, of "\<lambda>e. edata e = 0"] h i by fastforce
qed

text \<open>
  C24. The end of a subtransaction forgets exactly the scans that were begun in it or in a subtransaction of it, although the entries of the list are moved around while it
  is searched.
\<close>

theorem end_of_subtransaction_scans:
  assumes "scans_ok cxt"
  shows "mset (active_scans (AtEOSubXact_HashTables cxt nest_depth)) = filter_mset (\<lambda>(tab, lv). lv < nest_depth) (mset (active_scans cxt)) \<and>
    scans_ok (AtEOSubXact_HashTables cxt nest_depth)"
  using end_subxact_loop_active [OF assms, of "num_seq_scans cxt" nest_depth] by (simp add: AtEOSubXact_HashTables_def)

theorem end_of_subtransaction_scans_witness:
  "mset (active_scans (AtEOSubXact_HashTables \<lparr>seq_scan_tables = [7, 8, 9] @ replicate 97 0, seq_scan_level = [2, 1, 3] @ replicate 97 0, num_seq_scans = 3\<rparr> 2)) = {#(8, 1)#}"
proof -
  let ?c = "\<lparr>seq_scan_tables = [7, 8, 9] @ replicate 97 0, seq_scan_level = [2, 1, 3] @ replicate 97 0, num_seq_scans = 3\<rparr>"
  have "scans_ok ?c" by (simp add: scans_ok_def MAX_SEQ_SCANS_def)
  moreover have "active_scans ?c = [(7, 2), (8, 1), (9, 3)]" by (simp add: active_scans_def numeral_3_eq_3)
  ultimately show ?thesis using end_of_subtransaction_scans [of ?c 2] by simp
qed

subsection \<open>The table of buffers\<close>

text \<open>
  C22. \<open>buf_hash_operate\<close> does what \<open>hash_search_with_hash_value\<close> does, with the same result and the same effect on the table, for a table of buffer tags that has
  partitions, is not frozen and whose allocator is not the one that never raises errors.
\<close>

theorem buf_hash_operate_agrees:
  assumes "htab_ok h" "match h = BUFFERTAGS_PTR_EQUAL" "keycopy h = (\<lambda>k. k)" "IS_PARTITIONED (hctl h)" "\<not> frozen h" "alloc h \<noteq> DynaHashAllocNoExcept"
    and "action = HASH_FIND \<or> action = HASH_ENTER \<or> action = HASH_REMOVE"
  shows "buf_hash_operate action h key hv =
    (case hash_search_with_hash_value cxt h key hv action of
       (r, h') \<Rightarrow> (map_sum id (\<lambda>(e, found). (e, if action = HASH_ENTER then Some found else None)) r, h'))"
proof -
  have "action \<noteq> HASH_ENTER_NULL" using assms(7) by auto
  from buf_operate_search_action [OF assms(1-3) this assms(5,6), of key hv] show ?thesis
    using assms(4) by (simp add: hash_search_with_hash_value_def Let_def)
qed

definition buffer_functions :: "BufferTag HashFunctions" where
  "buffer_functions = \<lparr>fn_hash = (\<lambda>k. blockNum k), fn_match = BUFFERTAGS_PTR_EQUAL, fn_keycopy = (\<lambda>k. k)\<rparr>"

theorem buf_hash_operate_agrees_witness:
  "\<exists>h. create_table 0 buffer_functions (int 4) shared_info (\<lambda>_. \<lparr>hashvalue = 0, ekey = \<lparr>rnode = \<lparr>spcNode = 0, dbNode = 0, relNode = 0, bucketNode = 0\<rparr>, forkNum = 0, blockNum = 0\<rparr>, edata = 0 :: nat\<rparr>)
      (\<lambda>_. True) = Some (Inr (), h) \<and>
    buf_hash_operate HASH_ENTER h \<lparr>rnode = \<lparr>spcNode = 1, dbNode = 2, relNode = 3, bucketNode = -1\<rparr>, forkNum = 0, blockNum = 4\<rparr> 4 =
    (case hash_search_with_hash_value no_scans h \<lparr>rnode = \<lparr>spcNode = 1, dbNode = 2, relNode = 3, bucketNode = -1\<rparr>, forkNum = 0, blockNum = 4\<rparr> 4 HASH_ENTER of
       (r, h') \<Rightarrow> (map_sum id (\<lambda>(e, found). (e, Some found)) r, h'))"
proof -
  let ?e = "\<lparr>hashvalue = 0, ekey = \<lparr>rnode = \<lparr>spcNode = 0, dbNode = 0, relNode = 0, bucketNode = 0\<rparr>, forkNum = 0, blockNum = 0\<rparr>, edata = 0 :: nat\<rparr> :: (BufferTag, nat) HASHELEMENT"
  have f: "functions_ok buffer_functions" using buffer_tag_keys.hash_keys_axioms by (simp add: buffer_functions_def)
  obtain h where h: "create_table 0 buffer_functions (int 4) shared_info (\<lambda>_. ?e) (\<lambda>_. True) = Some (Inr (), h)"
    using shared_create_succeeds [OF shared_info_ok(1) f shared_flags] by blast
  have c: "created buffer_functions 4 shared_info (\<lambda>_. True) h" by (rule create_table_created [OF shared_info_ok(1) f h])
  have al: "alloc h = UserAlloc" using c by (simp add: created_def shared_info_def)
  have "IS_PARTITIONED (hctl h)" using c by (simp add: created_def IS_PARTITIONED_def shared_info_def)
  then show ?thesis using h buf_hash_operate_agrees [of h HASH_ENTER _ 4 no_scans] c al by (simp add: created_def buffer_functions_def)
qed

end
