(* ===== verification/Numeric.thy ===== *)
theory Numeric
  imports Prelude "HOL-Library.Signed_Division"
begin

text \<open>
  Arithmetic of the SQL type numeric, \<^verbatim>\<open>src/src/common/backend/utils/adt/numeric.cpp\<close>, on the level of variables: numbers
  in base \<open>10000\<close> with a weight, the exponent of the first digit, a sign and a display scale, the number of decimal digits after the point.

  A variable is a record; \<^verbatim>\<open>ndigits\<close> is the length of the list of digits. In front of the digits the code keeps a spare digit, which is zero,
  for the carry of a rounding; here a carry out of the first digit adds a digit. Weights and scales are unbounded, which is exact as long as they fit in
  an \<^verbatim>\<open>int\<close>. The entries of the accumulator of \<open>mul_var\<close>, which are allowed to grow far beyond a digit before their carries are
  propagated, are 32-bit integers that wrap around.
\<close>

definition NBASE :: int where "NBASE = 10000"
definition HALF_NBASE :: int where "HALF_NBASE = 5000"
definition DEC_DIGITS :: int where "DEC_DIGITS = 4"
definition MUL_GUARD_DIGITS :: int where "MUL_GUARD_DIGITS = 2"
definition round_powers :: "int list" where "round_powers = [0, 1000, 100, 10]"

datatype NumericSign = NUMERIC_POS | NUMERIC_NEG | NUMERIC_NAN

record NumericVar =
  weight :: int
  sign :: NumericSign
  dscale :: int
  digits :: "int list"

abbreviation ndigits :: "NumericVar \<Rightarrow> int" where
  "ndigits v \<equiv> int (length (digits v))"

definition const_zero :: NumericVar where "const_zero = \<lparr>weight = 0, sign = NUMERIC_POS, dscale = 0, digits = []\<rparr>"
definition const_one :: NumericVar where "const_one = \<lparr>weight = 0, sign = NUMERIC_POS, dscale = 0, digits = [1]\<rparr>"
definition const_nan :: NumericVar where "const_nan = \<lparr>weight = 0, sign = NUMERIC_NAN, dscale = 0, digits = []\<rparr>"

definition zero_var :: "NumericVar \<Rightarrow> NumericVar" where
  "zero_var v = v\<lparr>digits := [], weight := 0, sign := NUMERIC_POS\<rparr>"

subsection \<open>Stripping, rounding, truncating\<close>

fun strip_leading :: "int list \<Rightarrow> int \<Rightarrow> int list \<times> int" where
  "strip_leading [] w = ([], w)"
| "strip_leading (d # ds) w = (if d = 0 then strip_leading ds (w - 1) else (d # ds, w))"

definition strip_trailing :: "int list \<Rightarrow> int list" where
  "strip_trailing ds = rev (dropWhile (\<lambda>d. d = 0) (rev ds))"

definition strip_var :: "NumericVar \<Rightarrow> NumericVar" where
  "strip_var v =
    (let (ds, w) = strip_leading (digits v) (weight v); ds = strip_trailing ds
     in if ds = [] then v\<lparr>digits := [], weight := 0, sign := NUMERIC_POS\<rparr> else v\<lparr>digits := ds, weight := w\<rparr>)"

text \<open>The carry goes through the digits from the last to the first; they are given in this order. What is left of it goes to the spare digit.\<close>

fun propagate_carry :: "int list \<Rightarrow> int \<Rightarrow> int list \<times> int" where
  "propagate_carry [] carry = ([], carry)"
| "propagate_carry (d # ds) carry =
    (if carry = 0 then (d # ds, 0)
     else let carry = carry + d
       in if carry \<ge> NBASE then (let (ds, c) = propagate_carry ds 1 in ((carry - NBASE) # ds, c)) else (carry # ds, 0))"

text \<open>
  The digits kept, the last one first, after the digit at which the rounding happens was adjusted, and the carry. \<open>di\<close> is the number of decimal digits
  kept in the last of the \<open>n\<close> digits, or 0 for all four.
\<close>

definition round_digits :: "int list \<Rightarrow> nat \<Rightarrow> int \<Rightarrow> int list \<times> int" where
  "round_digits ds n di =
    (if di = 0 then propagate_carry (rev (take n ds)) (if ds ! n \<ge> HALF_NBASE then 1 else 0)
     else let pow10 = round_powers ! nat di;
              extra = ds ! (n - 1) mod pow10;
              d = ds ! (n - 1) - extra;
              (d, carry) = (if extra \<ge> pow10 div 2 then
                 (let p = pow10 + d in if p \<ge> NBASE then (p - NBASE, 1) else (p, 0)) else (d, 0));
              (rest, carry) = propagate_carry (rev (take (n - 1) ds)) carry
          in (d # rest, carry))"

definition round_var :: "NumericVar \<Rightarrow> int \<Rightarrow> NumericVar" where
  "round_var v rscale =
    (let v = v\<lparr>dscale := rscale\<rparr>; di = (weight v + 1) * DEC_DIGITS + rscale
     in if di < 0 then v\<lparr>digits := [], weight := 0, sign := NUMERIC_POS\<rparr>
        else let n = (di + DEC_DIGITS - 1) div DEC_DIGITS; di = di mod DEC_DIGITS
          in if n < ndigits v \<or> n = ndigits v \<and> di > 0 then
               (let (ds, carry) = round_digits (digits v) (nat n) di
                in if carry \<noteq> 0 then v\<lparr>digits := carry # rev ds, weight := weight v + 1\<rparr> else v\<lparr>digits := rev ds\<rparr>)
             else v)"

definition trunc_var :: "NumericVar \<Rightarrow> int \<Rightarrow> NumericVar" where
  "trunc_var v rscale =
    (let v = v\<lparr>dscale := rscale\<rparr>; di = (weight v + 1) * DEC_DIGITS + rscale
     in if di \<le> 0 then v\<lparr>digits := [], weight := 0, sign := NUMERIC_POS\<rparr>
        else let n = (di + DEC_DIGITS - 1) div DEC_DIGITS
          in if n \<le> ndigits v then
               (let di = di mod DEC_DIGITS; ds = take (nat n) (digits v)
                in if di > 0 then
                     (let pow10 = round_powers ! nat di; extra = ds ! (nat n - 1) mod pow10
                      in v\<lparr>digits := ds[nat n - 1 := ds ! (nat n - 1) - extra]\<rparr>)
                   else v\<lparr>digits := ds\<rparr>)
             else v)"

subsection \<open>Comparison\<close>

text \<open>The digits before the first common digit: \<open>None\<close> if one of them is not zero.\<close>

fun skip_high :: "int list \<Rightarrow> int \<Rightarrow> int \<Rightarrow> (int list \<times> int) option" where
  "skip_high [] w1 w2 = Some ([], w1)"
| "skip_high (d # ds) w1 w2 = (if w1 > w2 then (if d \<noteq> 0 then None else skip_high ds (w1 - 1) w2) else Some (d # ds, w1))"

fun cmp_digits :: "int list \<Rightarrow> int list \<Rightarrow> int + int list \<times> int list" where
  "cmp_digits (d1 # ds1) (d2 # ds2) =
    (let stat = d1 - d2 in if stat \<noteq> 0 then Inl (if stat > 0 then 1 else -1) else cmp_digits ds1 ds2)"
| "cmp_digits ds1 ds2 = Inr (ds1, ds2)"

definition cmp_rest :: "int list \<Rightarrow> int list \<Rightarrow> int" where
  "cmp_rest ds1 ds2 = (if list_ex (\<lambda>d. d \<noteq> 0) ds1 then 1 else if list_ex (\<lambda>d. d \<noteq> 0) ds2 then -1 else 0)"

definition cmp_abs_common :: "int list \<Rightarrow> int \<Rightarrow> int list \<Rightarrow> int \<Rightarrow> int" where
  "cmp_abs_common var1digits var1weight var2digits var2weight =
    (case skip_high var1digits var1weight var2weight of
       None \<Rightarrow> 1
     | Some (ds1, w1) \<Rightarrow>
         (case skip_high var2digits var2weight w1 of
            None \<Rightarrow> -1
          | Some (ds2, w2) \<Rightarrow>
              (case (if w1 = w2 then cmp_digits ds1 ds2 else Inr (ds1, ds2)) of
                 Inl r \<Rightarrow> r
               | Inr (r1, r2) \<Rightarrow> cmp_rest r1 r2)))"

definition cmp_abs :: "NumericVar \<Rightarrow> NumericVar \<Rightarrow> int" where
  "cmp_abs v1 v2 = cmp_abs_common (digits v1) (weight v1) (digits v2) (weight v2)"

definition cmp_var_common :: "int list \<Rightarrow> int \<Rightarrow> NumericSign \<Rightarrow> int list \<Rightarrow> int \<Rightarrow> NumericSign \<Rightarrow> int" where
  "cmp_var_common var1digits var1weight var1sign var2digits var2weight var2sign =
    (if var1digits = [] then (if var2digits = [] then 0 else if var2sign = NUMERIC_NEG then 1 else -1)
     else if var2digits = [] then (if var1sign = NUMERIC_POS then 1 else -1)
     else if var1sign = NUMERIC_POS then
       (if var2sign = NUMERIC_NEG then 1 else cmp_abs_common var1digits var1weight var2digits var2weight)
     else if var2sign = NUMERIC_POS then -1
     else cmp_abs_common var2digits var2weight var1digits var1weight)"

definition cmp_var :: "NumericVar \<Rightarrow> NumericVar \<Rightarrow> int" where
  "cmp_var v1 v2 = cmp_var_common (digits v1) (weight v1) (sign v1) (digits v2) (weight v2) (sign v2)"

subsection \<open>Addition and subtraction\<close>

definition digit_at :: "int list \<Rightarrow> int \<Rightarrow> int" where
  "digit_at ds i = (if 0 \<le> i \<and> i < int (length ds) then ds ! nat i else 0)"

text \<open>The loops produce the digits of the result from the last to the first, \<open>n\<close> of them; \<open>acc\<close> has those already found.\<close>

fun add_loop :: "nat \<Rightarrow> int list \<Rightarrow> int \<Rightarrow> int list \<Rightarrow> int \<Rightarrow> int \<Rightarrow> int list \<Rightarrow> int list" where
  "add_loop 0 ds1 i1 ds2 i2 carry acc = acc"
| "add_loop (Suc n) ds1 i1 ds2 i2 carry acc =
    (let i1 = i1 - 1; i2 = i2 - 1; carry = carry + digit_at ds1 i1 + digit_at ds2 i2
     in if carry \<ge> NBASE then add_loop n ds1 i1 ds2 i2 1 ((carry - NBASE) # acc)
        else add_loop n ds1 i1 ds2 i2 0 (carry # acc))"

fun sub_loop :: "nat \<Rightarrow> int list \<Rightarrow> int \<Rightarrow> int list \<Rightarrow> int \<Rightarrow> int \<Rightarrow> int list \<Rightarrow> int list" where
  "sub_loop 0 ds1 i1 ds2 i2 borrow acc = acc"
| "sub_loop (Suc n) ds1 i1 ds2 i2 borrow acc =
    (let i1 = i1 - 1; i2 = i2 - 1; borrow = borrow + digit_at ds1 i1 - digit_at ds2 i2
     in if borrow < 0 then sub_loop n ds1 i1 ds2 i2 (-1) ((borrow + NBASE) # acc)
        else sub_loop n ds1 i1 ds2 i2 0 (borrow # acc))"

text \<open>The sign of the result of \<open>add_abs\<close> and \<open>sub_abs\<close> is set by the caller.\<close>

definition add_abs :: "NumericVar \<Rightarrow> NumericVar \<Rightarrow> NumericVar" where
  "add_abs v1 v2 =
    (let res_weight = max (weight v1) (weight v2) + 1;
         res_rscale = max (ndigits v1 - weight v1 - 1) (ndigits v2 - weight v2 - 1);
         res_ndigits = (if res_rscale + res_weight + 1 \<le> 0 then 1 else res_rscale + res_weight + 1)
     in strip_var \<lparr>weight = res_weight, sign = NUMERIC_POS, dscale = max (dscale v1) (dscale v2),
          digits = add_loop (nat res_ndigits) (digits v1) (res_rscale + weight v1 + 1) (digits v2) (res_rscale + weight v2 + 1) 0 []\<rparr>)"

definition sub_abs :: "NumericVar \<Rightarrow> NumericVar \<Rightarrow> NumericVar" where
  "sub_abs v1 v2 =
    (let res_weight = weight v1;
         res_rscale = max (ndigits v1 - weight v1 - 1) (ndigits v2 - weight v2 - 1);
         res_ndigits = (if res_rscale + res_weight + 1 \<le> 0 then 1 else res_rscale + res_weight + 1)
     in strip_var \<lparr>weight = res_weight, sign = NUMERIC_POS, dscale = max (dscale v1) (dscale v2),
          digits = sub_loop (nat res_ndigits) (digits v1) (res_rscale + weight v1 + 1) (digits v2) (res_rscale + weight v2 + 1) 0 []\<rparr>)"

text \<open>The difference of the absolute values, as the two routines below need it: its sign is \<open>s\<close> if the first is greater and \<open>t\<close> if it is less.\<close>

definition sub_signed :: "NumericVar \<Rightarrow> NumericVar \<Rightarrow> NumericSign \<Rightarrow> NumericSign \<Rightarrow> NumericVar" where
  "sub_signed v1 v2 s t =
    (let c = cmp_abs v1 v2
     in if c = 0 then const_zero\<lparr>dscale := max (dscale v1) (dscale v2)\<rparr>
        else if c = 1 then (sub_abs v1 v2)\<lparr>sign := s\<rparr> else (sub_abs v2 v1)\<lparr>sign := t\<rparr>)"

definition add_var :: "NumericVar \<Rightarrow> NumericVar \<Rightarrow> NumericVar" where
  "add_var v1 v2 =
    (if sign v1 = NUMERIC_POS then
       (if sign v2 = NUMERIC_POS then (add_abs v1 v2)\<lparr>sign := NUMERIC_POS\<rparr> else sub_signed v1 v2 NUMERIC_POS NUMERIC_NEG)
     else
       (if sign v2 = NUMERIC_POS then sub_signed v1 v2 NUMERIC_NEG NUMERIC_POS else (add_abs v1 v2)\<lparr>sign := NUMERIC_NEG\<rparr>))"

definition sub_var :: "NumericVar \<Rightarrow> NumericVar \<Rightarrow> NumericVar" where
  "sub_var v1 v2 =
    (if sign v1 = NUMERIC_POS then
       (if sign v2 = NUMERIC_NEG then (add_abs v1 v2)\<lparr>sign := NUMERIC_POS\<rparr> else sub_signed v1 v2 NUMERIC_POS NUMERIC_NEG)
     else
       (if sign v2 = NUMERIC_NEG then sub_signed v1 v2 NUMERIC_NEG NUMERIC_POS else (add_abs v1 v2)\<lparr>sign := NUMERIC_NEG\<rparr>))"

subsection \<open>Multiplication\<close>

definition wrap32 :: "int \<Rightarrow> int" where
  "wrap32 x = (x + 2 ^ 31) mod 2 ^ 32 - 2 ^ 31"

text \<open>The pass that propagates carries, on the entries from the last to the first.\<close>

fun carry_pass :: "int list \<Rightarrow> int \<Rightarrow> int list \<times> int" where
  "carry_pass [] carry = ([], carry)"
| "carry_pass (d # ds) carry =
    (let newdig = wrap32 (d + carry);
         (newdig, carry) = (if newdig \<ge> NBASE then (newdig - newdig div NBASE * NBASE, newdig div NBASE) else (newdig, 0));
         (ds, carry) = carry_pass ds carry
     in (newdig # ds, carry))"

definition normalize_digits :: "int list \<Rightarrow> int list" where
  "normalize_digits dig = rev (fst (carry_pass (rev dig) 0))"

text \<open>A multiple of the second number is added to the accumulator, its \<open>n\<close> first digits from the last to the first.\<close>

fun mul_row :: "nat \<Rightarrow> nat \<Rightarrow> int \<Rightarrow> int list \<Rightarrow> int list \<Rightarrow> int list" where
  "mul_row 0 i1 var1digit var2digits dig = dig"
| "mul_row (Suc i2) i1 var1digit var2digits dig =
    mul_row i2 i1 var1digit var2digits (dig[i1 + i2 + 2 := wrap32 (dig ! (i1 + i2 + 2) + var1digit * var2digits ! i2)])"

fun mul_loop :: "nat \<Rightarrow> int list \<Rightarrow> int list \<Rightarrow> int \<Rightarrow> int list \<Rightarrow> int \<Rightarrow> int list" where
  "mul_loop 0 var1digits var2digits res_ndigits dig maxdig = dig"
| "mul_loop (Suc i1) var1digits var2digits res_ndigits dig maxdig =
    (let var1digit = var1digits ! i1
     in if var1digit = 0 then mul_loop i1 var1digits var2digits res_ndigits dig maxdig
        else let maxdig = maxdig + var1digit;
                 (dig, maxdig) = (if maxdig > (INT_MAX - INT_MAX div NBASE) div (NBASE - 1) then (normalize_digits dig, 1 + var1digit) else (dig, maxdig))
          in mul_loop i1 var1digits var2digits res_ndigits
               (mul_row (nat (min (int (length var2digits) - 1) (res_ndigits - int i1 - 3) + 1)) i1 var1digit var2digits dig) maxdig)"

definition mul_var :: "NumericVar \<Rightarrow> NumericVar \<Rightarrow> int \<Rightarrow> NumericVar" where
  "mul_var var1 var2 rscale =
    (let (v1, v2) = (if ndigits var1 > ndigits var2 then (var2, var1) else (var1, var2));
         zero = const_zero\<lparr>dscale := rscale\<rparr>
     in if digits v1 = [] \<or> digits v2 = [] then zero
        else let res_sign = (if sign v1 = sign v2 then NUMERIC_POS else NUMERIC_NEG);
                 res_weight = weight v1 + weight v2 + 2;
                 maxdigits = res_weight + 1 + (rscale + DEC_DIGITS - 1) sdiv DEC_DIGITS + MUL_GUARD_DIGITS;
                 res_ndigits = min (ndigits v1 + ndigits v2 + 1) maxdigits
          in if res_ndigits < 3 then zero
             else let dig = mul_loop (nat (min (ndigits v1 - 1) (res_ndigits - 3) + 1)) (digits v1) (digits v2) res_ndigits (replicate (nat res_ndigits) 0) 0
               in strip_var (round_var \<lparr>weight = res_weight, sign = res_sign, dscale = 0, digits = normalize_digits dig\<rparr> rscale))"

subsection \<open>Division\<close>

text \<open>Division by a single digit.\<close>

fun short_div :: "int list \<Rightarrow> int \<Rightarrow> int \<Rightarrow> int list" where
  "short_div [] divisor1 carry = []"
| "short_div (d # dividend) divisor1 carry =
    (let carry = carry * NBASE + d in carry div divisor1 # short_div dividend divisor1 (carry mod divisor1))"

text \<open>Digits, from the last to the first, times a small factor.\<close>

fun scale_up :: "int \<Rightarrow> int list \<Rightarrow> int \<Rightarrow> int list" where
  "scale_up d [] carry = []"
| "scale_up d (x # xs) carry = (let carry = carry + x * d in carry mod NBASE # scale_up d xs (carry div NBASE))"

text \<open>
  The loop that corrects an estimate that is too large. It ends at 0 at the latest, where the left side of its condition is 0 and the right side is
  not negative.
\<close>

function adjust_qhat :: "int \<Rightarrow> int \<Rightarrow> int \<Rightarrow> int \<Rightarrow> int \<Rightarrow> int" where
  "adjust_qhat divisor1 divisor2 next2digits digit qhat =
    (if 0 < qhat \<and> divisor2 * qhat > (next2digits - qhat * divisor1) * NBASE + digit then adjust_qhat divisor1 divisor2 next2digits digit (qhat - 1) else qhat)"
  by auto
termination by (relation "measure (\<lambda>(_, _, _, _, qhat). nat qhat)") auto

declare adjust_qhat.simps [simp del]

text \<open>
  A multiple of the divisor is subtracted from the digits of the dividend, both from the last to the first; the result has the final borrow. If there
  is one the divisor is added back.
\<close>

fun mul_sub :: "int \<Rightarrow> int list \<Rightarrow> int list \<Rightarrow> int \<Rightarrow> int \<Rightarrow> int list \<times> int" where
  "mul_sub qhat (v # vs) (u # us) carry borrow =
    (let carry = carry + v * qhat;
         borrow = borrow - carry mod NBASE;
         carry = carry div NBASE;
         borrow = borrow + u;
         (d, borrow) = (if borrow < 0 then (borrow + NBASE, -1) else (borrow, 0));
         (us, borrow) = mul_sub qhat vs us carry borrow
     in (d # us, borrow))"
| "mul_sub qhat vs us carry borrow = (us, borrow)"

fun add_back :: "int list \<Rightarrow> int list \<Rightarrow> int \<Rightarrow> int list" where
  "add_back (v # vs) (u # us) carry =
    (let carry = carry + u + v
     in if carry \<ge> NBASE then (carry - NBASE) # add_back vs us 1 else carry # add_back vs us 0)"
| "add_back vs us carry = us"

text \<open>
  One digit of the quotient. \<open>dividend\<close> is the working dividend from the position of this digit on; the digits before that are not used any more.
  The divisor has a zero in front.
\<close>

definition div_step :: "int list \<Rightarrow> int list \<Rightarrow> int \<times> int list" where
  "div_step divisor dividend =
    (let next2digits = dividend ! 0 * NBASE + dividend ! 1
     in if next2digits = 0 then (0, dividend)
        else let qhat = (if dividend ! 0 = divisor ! 1 then NBASE - 1 else next2digits div divisor ! 1);
                 qhat = adjust_qhat (divisor ! 1) (divisor ! 2) next2digits (dividend ! 2) qhat
          in if qhat > 0 then
               (let n = length divisor;
                    (us, borrow) = mul_sub qhat (rev divisor) (rev (take n dividend)) 0 0;
                    (qhat, us) = (if borrow \<noteq> 0 then (qhat - 1, add_back (rev divisor) us 0) else (qhat, us))
                in (qhat, rev us @ drop n dividend))
             else (qhat, dividend))"

fun div_loop :: "nat \<Rightarrow> int list \<Rightarrow> int list \<Rightarrow> int list" where
  "div_loop 0 divisor dividend = []"
| "div_loop (Suc n) divisor dividend = (let (q, dividend) = div_step divisor dividend in q # div_loop n divisor (tl dividend))"

text \<open>The scaling of divisor and dividend that makes the first digit of the divisor at least half the base.\<close>

definition scale_operands :: "int list \<Rightarrow> int list \<Rightarrow> nat \<Rightarrow> int list \<times> int list" where
  "scale_operands divisor dividend var1ndigits =
    (if divisor ! 1 < HALF_NBASE then
       (let d = NBASE div (divisor ! 1 + 1)
        in (hd divisor # rev (scale_up d (rev (tl divisor)) 0),
            rev (scale_up d (rev (take (var1ndigits + 1) dividend)) 0) @ drop (var1ndigits + 1) dividend))
     else (divisor, dividend))"

definition div_var :: "NumericVar \<Rightarrow> NumericVar \<Rightarrow> int \<Rightarrow> bool \<Rightarrow> NumericVar result" where
  "div_var v1 v2 rscale round =
    (if digits v2 = [] \<or> digits v2 ! 0 = 0 then Inl (Ereport ERROR ERRCODE_DIVISION_BY_ZERO)
     else if digits v1 = [] then Inr (const_zero\<lparr>dscale := rscale\<rparr>)
     else let res_sign = (if sign v1 = sign v2 then NUMERIC_POS else NUMERIC_NEG);
              res_weight = weight v1 - weight v2;
              res_ndigits = max (res_weight + 1 + (rscale + DEC_DIGITS - 1) sdiv DEC_DIGITS) 1;
              res_ndigits = (if round then res_ndigits + 1 else res_ndigits);
              div_ndigits = max (res_ndigits + ndigits v2) (ndigits v1);
              dividend = 0 # digits v1 @ replicate (nat (div_ndigits - ndigits v1)) 0;
              divisor = 0 # digits v2;
              res_digits = (if ndigits v2 = 1 then short_div (take (nat res_ndigits) (tl dividend)) (divisor ! 1) 0
                else let (divisor, dividend) = scale_operands divisor dividend (length (digits v1))
                  in div_loop (nat res_ndigits) divisor dividend);
              u = \<lparr>weight = res_weight, sign = res_sign, dscale = 0, digits = res_digits\<rparr>
          in Inr (strip_var (if round then round_var u rscale else trunc_var u rscale)))"

end
