(* ===== verification/NumericVal.thy ===== *)
theory NumericVal
  imports Numeric Complex_Main
begin

text \<open>
  The rational number that a variable stands for, and the correctness of stripping, comparison, addition and subtraction with respect to it.
\<close>

subsection \<open>Values\<close>

lemma NBASE_facts [simp]: "0 < NBASE" "1 < NBASE" "NBASE \<noteq> 0" "0 \<le> NBASE" "1 \<le> NBASE"
  by (simp_all add: NBASE_def)

abbreviation NB :: rat where "NB \<equiv> of_int NBASE"

lemma NB_facts [simp]: "0 < NB" "1 < NB" "NB \<noteq> 0"
  by (simp_all add: NBASE_def)

text \<open>Digits as an integer, and digits whose first one has the exponent \<open>w\<close> as a rational number.\<close>

primrec dval :: "int list \<Rightarrow> int" where
  "dval [] = 0"
| "dval (d # ds) = d * NBASE ^ length ds + dval ds"

primrec rval :: "int list \<Rightarrow> int \<Rightarrow> rat" where
  "rval [] w = 0"
| "rval (d # ds) w = of_int d * NB powi w + rval ds (w - 1)"

definition nabs :: "NumericVar \<Rightarrow> rat" where
  "nabs v = rval (digits v) (weight v)"

definition nval :: "NumericVar \<Rightarrow> rat" where
  "nval v = (if sign v = NUMERIC_NEG then - nabs v else nabs v)"

definition digits_ok :: "int list \<Rightarrow> bool" where
  "digits_ok ds \<longleftrightarrow> list_all (\<lambda>d. 0 \<le> d \<and> d < NBASE) ds"

definition var_ok :: "NumericVar \<Rightarrow> bool" where
  "var_ok v \<longleftrightarrow> digits_ok (digits v) \<and> sign v \<noteq> NUMERIC_NAN"

definition canonical :: "NumericVar \<Rightarrow> bool" where
  "canonical v \<longleftrightarrow> var_ok v \<and>
    (if digits v = [] then sign v = NUMERIC_POS \<and> weight v = 0 else hd (digits v) \<noteq> 0 \<and> last (digits v) \<noteq> 0)"

lemma digits_ok_simps [simp]:
  "digits_ok []" "digits_ok (d # ds) \<longleftrightarrow> 0 \<le> d \<and> d < NBASE \<and> digits_ok ds"
  "digits_ok (xs @ ys) \<longleftrightarrow> digits_ok xs \<and> digits_ok ys" "digits_ok (rev xs) \<longleftrightarrow> digits_ok xs"
  by (auto simp: digits_ok_def list_all_iff)

lemma digits_ok_sub: "digits_ok ds \<Longrightarrow> set ds' \<subseteq> set ds \<Longrightarrow> digits_ok ds'"
  by (auto simp: digits_ok_def list_all_iff)

lemma digits_ok_part: "digits_ok ds \<Longrightarrow> digits_ok (take n ds)" "digits_ok ds \<Longrightarrow> digits_ok (drop n ds)"
  by (auto elim: digits_ok_sub dest: in_set_takeD in_set_dropD)

lemma digits_ok_nth: "digits_ok ds \<Longrightarrow> i < length ds \<Longrightarrow> 0 \<le> ds ! i \<and> ds ! i < NBASE"
  by (auto simp: digits_ok_def list_all_iff)

lemma dval_append: "dval (xs @ ys) = dval xs * NBASE ^ length ys + dval ys"
  by (induction xs) (simp_all add: algebra_simps power_add)

lemma dval_replicate [simp]: "dval (replicate n 0) = 0"
  by (induction n) simp_all

lemma dval_nonneg: "digits_ok ds \<Longrightarrow> 0 \<le> dval ds"
  by (induction ds) simp_all

lemma dval_less: "digits_ok ds \<Longrightarrow> dval ds < NBASE ^ length ds"
proof (induction ds)
  case (Cons d ds)
  then have "(d + 1) * NBASE ^ length ds \<le> NBASE * NBASE ^ length ds" by (intro mult_right_mono) auto
  then show ?case using Cons by (simp add: algebra_simps)
qed simp

lemma NB_powi_add: "NB powi (a + b) = NB powi a * NB powi b"
  by (simp add: power_int_add)

lemma NB_powi_Suc: "NB powi (w + 1) = NB * NB powi w"
  by (simp add: power_int_add)

lemma NB_powi_pred: "NB powi w = NB * NB powi (w - 1)"
  using NB_powi_Suc [of "w - 1"] by simp

lemma NB_powi_pos [simp]: "0 < NB powi w"
  by (simp add: zero_less_power_int)

lemma NB_powi_mono: "w \<le> w' \<Longrightarrow> NB powi w \<le> NB powi w'"
  by (simp add: power_int_increasing)

lemma NB_powi_nat: "NB powi (int n) = of_int (NBASE ^ n)"
  by simp

lemma rval_dval: "rval ds w = of_int (dval ds) * NB powi (w + 1 - int (length ds))"
proof (induction ds arbitrary: w)
  case (Cons d ds)
  have "NB powi w = NB powi (int (length ds)) * NB powi (w - int (length ds))"
    by (subst power_int_add [symmetric]) simp_all
  then show ?case using Cons [of "w - 1"] by (simp add: algebra_simps)
qed simp

lemma rval_append: "rval (xs @ ys) w = rval xs w + rval ys (w - int (length xs))"
  by (induction xs arbitrary: w) (simp_all add: algebra_simps)

lemma rval_replicate [simp]: "rval (replicate n 0) w = 0"
  by (induction n arbitrary: w) simp_all

lemma rval_nonneg: "digits_ok ds \<Longrightarrow> 0 \<le> rval ds w"
  using dval_nonneg [of ds] by (simp add: rval_dval)

lemma rval_less:
  assumes "digits_ok ds"
  shows "rval ds w < NB powi (w + 1)"
proof -
  have "rval ds w < of_int (NBASE ^ length ds) * NB powi (w + 1 - int (length ds))"
    using dval_less [OF assms] unfolding rval_dval by (intro mult_strict_right_mono) (simp_all only: of_int_less_iff NB_powi_pos)
  also have "\<dots> = NB powi (w + 1)" by (subst NB_powi_nat [symmetric], subst power_int_add [symmetric]) simp_all
  finally show ?thesis .
qed

lemma rval_zero_iff: "digits_ok ds \<Longrightarrow> rval ds w = 0 \<longleftrightarrow> list_all (\<lambda>d. d = 0) ds"
proof (induction ds arbitrary: w)
  case (Cons d ds)
  have n: "0 \<le> rval ds (w - 1)" "0 \<le> of_int d * NB powi w" using Cons.prems rval_nonneg by (auto simp: less_imp_le)
  then have "rval (d # ds) w = 0 \<longleftrightarrow> of_int d * NB powi w = 0 \<and> rval ds (w - 1) = 0"
    by (auto simp: add_nonneg_eq_0_iff)
  also have "\<dots> \<longleftrightarrow> d = 0 \<and> rval ds (w - 1) = 0" using NB_powi_pos [of w] by auto
  finally show ?case using Cons by simp
qed simp

lemma rval_ge_nonzero: "digits_ok (d # ds) \<Longrightarrow> d \<noteq> 0 \<Longrightarrow> NB powi w \<le> rval (d # ds) w"
proof -
  assume a: "digits_ok (d # ds)" "d \<noteq> 0"
  then have "1 \<le> d" by simp
  then have "1 * NB powi w \<le> of_int d * NB powi w" by (intro mult_right_mono) (simp_all add: less_imp_le)
  moreover have "0 \<le> rval ds (w - 1)" using a rval_nonneg by simp
  ultimately show ?thesis unfolding rval.simps by linarith
qed

lemma nabs_nonneg: "var_ok v \<Longrightarrow> 0 \<le> nabs v"
  by (simp add: nabs_def var_ok_def rval_nonneg)

lemma nval_fields: "sign u = sign v \<Longrightarrow> nabs u = nabs v \<Longrightarrow> nval u = nval v"
  by (simp add: nval_def)

lemma nval_abs: "var_ok v \<Longrightarrow> \<bar>nval v\<bar> = nabs v"
  using nabs_nonneg [of v] by (simp add: nval_def)

lemma canonical_nonzero: "canonical v \<Longrightarrow> digits v \<noteq> [] \<Longrightarrow> 0 < nabs v"
proof -
  assume a: "canonical v" "digits v \<noteq> []"
  then obtain d ds where d: "digits v = d # ds" by (cases "digits v") auto
  have "NB powi weight v \<le> nabs v" using a d rval_ge_nonzero [of d ds "weight v"] by (simp add: canonical_def nabs_def var_ok_def)
  then show ?thesis using NB_powi_pos less_le_trans by blast
qed

lemma nabs_zero_iff: "canonical v \<Longrightarrow> nabs v = 0 \<longleftrightarrow> digits v = []"
  using canonical_nonzero by (fastforce simp: nabs_def)

lemma canonical_var_ok: "canonical v \<Longrightarrow> var_ok v"
  by (simp add: canonical_def)

text \<open>What the routines need of their arguments: zero has no digits and no minus sign. Leading and trailing zeros are allowed.\<close>

definition proper :: "NumericVar \<Rightarrow> bool" where
  "proper v \<longleftrightarrow> var_ok v \<and> (if digits v = [] then sign v = NUMERIC_POS else 0 < nabs v)"

lemma canonical_proper [simp]: "canonical v \<Longrightarrow> proper v"
  using canonical_nonzero [of v] by (auto simp: proper_def canonical_def)

lemma proper_var_ok: "proper v \<Longrightarrow> var_ok v"
  by (simp add: proper_def)

subsection \<open>Stripping\<close>

lemma strip_leading_spec:
  "strip_leading ds w = (ds', w') \<Longrightarrow> rval ds' w' = rval ds w \<and> set ds' \<subseteq> set ds \<and> (ds' \<noteq> [] \<longrightarrow> hd ds' \<noteq> 0)"
  by (induction ds w rule: strip_leading.induct) (auto split: if_splits)

lemma strip_trailing_split: "\<exists>n. ds = strip_trailing ds @ replicate n 0"
proof -
  have "takeWhile (\<lambda>d. d = 0) (rev ds) = replicate (length (takeWhile (\<lambda>d. d = 0) (rev ds))) 0"
    by (auto intro!: replicate_eqI dest: set_takeWhileD)
  then have "rev ds = replicate (length (takeWhile (\<lambda>d. d = 0) (rev ds))) 0 @ dropWhile (\<lambda>d. d = 0) (rev ds)"
    using takeWhile_dropWhile_id [of "\<lambda>d. d = 0" "rev ds"] by metis
  then show ?thesis unfolding strip_trailing_def by (metis rev_append rev_replicate rev_rev_ident)
qed

lemma strip_trailing_last: "strip_trailing ds \<noteq> [] \<Longrightarrow> last (strip_trailing ds) \<noteq> 0"
  using hd_dropWhile [of "\<lambda>d. d = 0" "rev ds"] by (simp add: strip_trailing_def last_rev)

lemma strip_trailing_spec:
  "rval (strip_trailing ds) w = rval ds w \<and> set (strip_trailing ds) \<subseteq> set ds \<and> (strip_trailing ds \<noteq> [] \<longrightarrow> hd (strip_trailing ds) = hd ds)"
proof -
  obtain n where "ds = strip_trailing ds @ replicate n 0" using strip_trailing_split by blast
  then show ?thesis by (metis add.right_neutral hd_append2 rval_append rval_replicate set_append Un_upper1)
qed

lemma strip_var_spec:
  assumes "digits_ok (digits v)" "sign v \<noteq> NUMERIC_NAN"
  shows "nabs (strip_var v) = nabs v" "canonical (strip_var v)" "dscale (strip_var v) = dscale v"
    "digits (strip_var v) \<noteq> [] \<longrightarrow> sign (strip_var v) = sign v"
proof -
  obtain ds w where s: "strip_leading (digits v) (weight v) = (ds, w)" by fastforce
  note l = strip_leading_spec [OF s] and t = strip_trailing_spec [of ds w] and n = strip_trailing_last [of ds]
  have h: "strip_trailing ds \<noteq> [] \<Longrightarrow> ds \<noteq> []" by (auto simp: strip_trailing_def)
  have ok: "digits_ok (strip_trailing ds)" using assms(1) digits_ok_sub l t by meson
  show "nabs (strip_var v) = nabs v" using s l t by (auto simp: strip_var_def nabs_def Let_def)
  show "canonical (strip_var v)" using s l t n h ok assms by (auto simp: strip_var_def canonical_def var_ok_def Let_def)
  show "dscale (strip_var v) = dscale v" using s by (auto simp: strip_var_def Let_def)
  show "digits (strip_var v) \<noteq> [] \<longrightarrow> sign (strip_var v) = sign v" using s by (auto simp: strip_var_def Let_def)
qed

lemma nval_strip_var:
  assumes "var_ok v"
  shows "nval (strip_var v) = nval v"
proof -
  note s = strip_var_spec [of v]
  have a: "digits_ok (digits v)" "sign v \<noteq> NUMERIC_NAN" using assms by (simp_all add: var_ok_def)
  show ?thesis
  proof (cases "digits (strip_var v) = []")
    case True
    then have "nabs (strip_var v) = 0" using s(2) [OF a] by (simp add: nabs_zero_iff)
    then show ?thesis using s(1) [OF a] by (simp add: nval_def)
  next
    case False
    then show ?thesis using s(1,4) [OF a] by (simp add: nval_def)
  qed
qed

end
