(* ===== verification/NumericAdd.thy ===== *)
theory NumericAdd
  imports NumericVal
begin

text \<open>
  Comparison, addition and subtraction of variables are exact. The loops of addition and subtraction are specified by windows: the value of the
  \<open>n\<close> digits in front of a position, where positions outside of the digits count as zero.
\<close>

subsection \<open>Comparison\<close>

lemma skip_high_None: "digits_ok ds1 \<Longrightarrow> skip_high ds1 w1 w2 = None \<Longrightarrow> NB powi (w2 + 1) \<le> rval ds1 w1"
proof (induction ds1 w1 w2 rule: skip_high.induct)
  case (2 d ds w1 w2)
  show ?case
  proof (cases "d = 0")
    case True
    then show ?thesis using 2 by (simp split: if_splits)
  next
    case False
    then have "NB powi (w2 + 1) \<le> NB powi w1" using 2 by (intro NB_powi_mono) (simp split: if_splits)
    also have "\<dots> \<le> rval (d # ds) w1" using "2.prems"(1) False by (rule rval_ge_nonzero)
    finally show ?thesis .
  qed
qed simp

lemma skip_high_Some:
  "skip_high ds1 w1 w2 = Some (ds, w) \<Longrightarrow> rval ds w = rval ds1 w1 \<and> set ds \<subseteq> set ds1 \<and> (ds = [] \<or> w \<le> w2 \<and> (w2 \<le> w1 \<longrightarrow> w = w2))"
  by (induction ds1 w1 w2 rule: skip_high.induct) (auto split: if_splits)

lemma cmp_digits_Inl:
  "digits_ok ds1 \<Longrightarrow> digits_ok ds2 \<Longrightarrow> cmp_digits ds1 ds2 = Inl r \<Longrightarrow> r = (if rval ds2 w < rval ds1 w then 1 else -1) \<and> rval ds1 w \<noteq> rval ds2 w"
proof (induction ds1 ds2 arbitrary: w rule: cmp_digits.induct)
  case (1 d1 ds1 d2 ds2)
  show ?case
  proof (cases "d1 = d2")
    case True
    then show ?thesis using 1 by simp
  next
    case False
    have l: "rval (x # xs) w < rval (y # ys) w" if "x < y" "digits_ok xs" "digits_ok ys" for x y xs ys
    proof -
      have "(of_int x + 1) * NB powi w \<le> of_int y * NB powi w"
        using that by (intro mult_right_mono) (simp_all add: less_imp_le)
      then show ?thesis using rval_less [OF that(2), of "w - 1"] rval_nonneg [OF that(3), of "w - 1"] by (simp add: algebra_simps)
    qed
    show ?thesis using False 1 l [of d1 d2 ds1 ds2] l [of d2 d1 ds2 ds1] by (cases "d1 < d2") auto
  qed
qed auto

lemma cmp_digits_Inr:
  "digits_ok ds1 \<Longrightarrow> digits_ok ds2 \<Longrightarrow> cmp_digits ds1 ds2 = Inr (r1, r2) \<Longrightarrow>
    digits_ok r1 \<and> digits_ok r2 \<and> (r1 = [] \<or> r2 = []) \<and> (\<exists>u. rval ds1 w - rval ds2 w = rval r1 u - rval r2 u)"
proof (induction ds1 ds2 arbitrary: w rule: cmp_digits.induct)
  case (1 d1 ds1 d2 ds2)
  then show ?case by (simp split: if_splits)
qed auto

lemma cmp_rest_sgn:
  assumes "digits_ok r1" "digits_ok r2" "r1 = [] \<or> r2 = []"
  shows "of_int (cmp_rest r1 r2) = sgn (rval r1 w1 - rval r2 w2)"
proof -
  have e: "list_ex (\<lambda>d. d \<noteq> 0) r \<longleftrightarrow> rval r w \<noteq> 0" if "digits_ok r" for r w
    using rval_zero_iff [OF that, of w] by (auto simp: list_ex_iff list_all_iff)
  show ?thesis using assms e [OF assms(1), of w1] e [OF assms(2), of w2] rval_nonneg [OF assms(1), of w1] rval_nonneg [OF assms(2), of w2]
    by (auto simp: cmp_rest_def sgn_if)
qed

lemma cmp_abs_common_sgn:
  assumes ok: "digits_ok ds1" "digits_ok ds2"
  shows "of_int (cmp_abs_common ds1 w1 ds2 w2) = sgn (rval ds1 w1 - rval ds2 w2)"
proof (cases "skip_high ds1 w1 w2")
  case None
  then have "rval ds2 w2 < rval ds1 w1" using skip_high_None [OF ok(1) None] rval_less [OF ok(2), of w2] by simp
  then show ?thesis using None by (simp add: cmp_abs_common_def)
next
  case (Some p)
  obtain e1 u1 where p: "p = (e1, u1)" by fastforce
  note s1 = skip_high_Some [OF Some [unfolded p]]
  have ok1: "digits_ok e1" using ok(1) s1 digits_ok_sub by blast
  show ?thesis
  proof (cases "skip_high ds2 w2 u1")
    case None
    then have "rval ds1 w1 < rval ds2 w2" using skip_high_None [OF ok(2) None] rval_less [OF ok1, of u1] s1 by simp
    then show ?thesis using None Some p by (simp add: cmp_abs_common_def)
  next
    case (Some q)
    obtain e2 u2 where q: "q = (e2, u2)" by fastforce
    note s2 = skip_high_Some [OF Some [unfolded q]]
    have ok2: "digits_ok e2" using ok(2) s2 digits_ok_sub by blast
    have eq: "cmp_abs_common ds1 w1 ds2 w2 = (case (if u1 = u2 then cmp_digits e1 e2 else Inr (e1, e2)) of Inl r \<Rightarrow> r | Inr (r1, r2) \<Rightarrow> cmp_rest r1 r2)"
      using \<open>skip_high ds1 w1 w2 = Some p\<close> Some p q by (simp add: cmp_abs_common_def)
    show ?thesis
    proof (cases "u1 = u2")
      case False
      then have "e1 = [] \<or> e2 = []" using s1 s2 by auto
      then show ?thesis using eq False s1 s2 cmp_rest_sgn [OF ok1 ok2, of u1 u2] by simp
    next
      case True
      show ?thesis
      proof (cases "cmp_digits e1 e2")
        case (Inl r)
        then show ?thesis using eq True s1 s2 cmp_digits_Inl [OF ok1 ok2 Inl, of u1] by (auto simp: sgn_if)
      next
        case (Inr r)
        obtain r1 r2 where r: "r = (r1, r2)" by fastforce
        obtain u where u: "digits_ok r1" "digits_ok r2" "r1 = [] \<or> r2 = []" "rval e1 u1 - rval e2 u1 = rval r1 u - rval r2 u"
          using cmp_digits_Inr [OF ok1 ok2 Inr [unfolded r], of u1] by blast
        then show ?thesis using eq True s1 s2 Inr r cmp_rest_sgn [OF u(1-3), of u u] by simp
      qed
    qed
  qed
qed

lemma cmp_abs_sgn: "var_ok v1 \<Longrightarrow> var_ok v2 \<Longrightarrow> of_int (cmp_abs v1 v2) = sgn (nabs v1 - nabs v2)"
  by (simp add: cmp_abs_def nabs_def var_ok_def cmp_abs_common_sgn)

lemma sgn_of_int_cases: "of_int c = sgn (x :: rat) \<Longrightarrow> c = (if x > 0 then 1 else if x = 0 then 0 else -1)"
  by (auto simp: sgn_if split: if_splits)

lemma cmp_abs_cases:
  assumes "var_ok v1" "var_ok v2"
  shows "cmp_abs v1 v2 = (if nabs v2 < nabs v1 then 1 else if nabs v1 = nabs v2 then 0 else -1)"
  using sgn_of_int_cases [OF cmp_abs_sgn [OF assms]] by simp

lemma cmp_var_cases:
  assumes "proper v1" "proper v2"
  shows "cmp_var v1 v2 = (if nval v2 < nval v1 then 1 else if nval v1 = nval v2 then 0 else -1)"
proof -
  have ok: "var_ok v1" "var_ok v2" using assms proper_var_ok by auto
  have s: "sign v \<noteq> NUMERIC_NEG \<Longrightarrow> sign v = NUMERIC_POS" if "var_ok v" for v
    using that by (cases "sign v") (auto simp: var_ok_def)
  have p: "digits v \<noteq> [] \<Longrightarrow> 0 < nabs v" "digits v = [] \<Longrightarrow> nabs v = 0" "digits v = [] \<Longrightarrow> sign v = NUMERIC_POS" if "proper v" for v
    using that by (auto simp: proper_def nabs_def)
  note c = cmp_abs_cases [OF ok, unfolded cmp_abs_def] cmp_abs_cases [OF ok(2,1), unfolded cmp_abs_def]
  note p1 = p [OF assms(1)] and p2 = p [OF assms(2)]
  show ?thesis
    using p1 p2 s [OF ok(1)] s [OF ok(2)] c
    by (cases "digits v1 = []"; cases "digits v2 = []"; cases "sign v1"; cases "sign v2")
      (simp_all add: cmp_var_def cmp_var_common_def nval_def)
qed

subsection \<open>Windows\<close>

primrec wval :: "int list \<Rightarrow> int \<Rightarrow> nat \<Rightarrow> int" where
  "wval ds i 0 = 0"
| "wval ds i (Suc n) = digit_at ds (i - 1) + NBASE * wval ds (i - 1) n"

lemma digit_at_bounds: "digits_ok ds \<Longrightarrow> 0 \<le> digit_at ds i \<and> digit_at ds i < NBASE"
  using digits_ok_nth [of ds "nat i"] by (auto simp: digit_at_def nat_less_iff)

lemma wval_zero: "i \<le> 0 \<Longrightarrow> wval ds i n = 0"
  by (induction n arbitrary: i) (auto simp: digit_at_def)

lemma wval_append: "i \<le> int (length ds) \<Longrightarrow> wval (ds @ es) i n = wval ds i n"
  by (induction n arbitrary: i) (auto simp: digit_at_def nth_append nat_less_iff)

lemma wval_all: "length ds \<le> n \<Longrightarrow> wval ds (int (length ds)) n = dval ds"
proof (induction ds arbitrary: n rule: rev_induct)
  case (snoc d ds)
  then obtain m where m: "n = Suc m" "length ds \<le> m" by (cases n) auto
  then show ?case using snoc.IH [of m] by (simp add: digit_at_def nth_append wval_append dval_append)
qed (simp add: wval_zero)

lemma wval_shift: "wval ds (int (length ds + k)) (k + n) = NBASE ^ k * wval ds (int (length ds)) n"
  by (induction k) (simp_all add: digit_at_def)

lemma wval_eq:
  assumes "int (length ds) \<le> i" "i \<le> int n"
  shows "wval ds i n = NBASE ^ nat (i - int (length ds)) * dval ds"
proof -
  define k where "k = nat (i - int (length ds))"
  have "k \<le> n" using assms by (simp add: k_def)
  then obtain m where m: "n = k + m" using le_Suc_ex by blast
  have k: "i = int (length ds + k)" "length ds \<le> m" using assms m by (auto simp: k_def)
  show ?thesis using wval_shift [of ds k m] wval_all [OF k(2)] k(1) m by simp
qed

lemma wval_rval:
  assumes "int (length ds) \<le> i" "i \<le> int n" "i = rs + w + 1"
  shows "of_int (wval ds i n) * NB powi (- rs) = rval ds w"
proof -
  define k where "k = nat (i - int (length ds))"
  have "w + 1 - int (length ds) = int k + - rs" using assms by (simp add: k_def)
  then have "NB powi (w + 1 - int (length ds)) = NB ^ k * NB powi (- rs)" by (simp only: NB_powi_add power_int_of_nat)
  then show ?thesis using wval_eq [OF assms(1,2)] by (simp add: rval_dval k_def)
qed

lemma wval_bounds:
  assumes "digits_ok ds" "int (length ds) \<le> i" "i \<le> int n"
  shows "0 \<le> wval ds i n \<and> wval ds i n < NBASE ^ nat i"
proof -
  let ?k = "nat (i - int (length ds))"
  have "nat i = ?k + length ds" using assms by simp
  then have "NBASE ^ nat i = NBASE ^ ?k * NBASE ^ length ds" by (simp only: power_add)
  then show ?thesis using wval_eq [OF assms(2,3)] dval_nonneg [OF assms(1)] dval_less [OF assms(1)] by simp
qed

subsection \<open>Addition and subtraction\<close>

lemma add_loop_spec:
  assumes "digits_ok ds1" "digits_ok ds2" "0 \<le> c" "c \<le> 1"
  shows "\<exists>r cout. add_loop n ds1 i1 ds2 i2 c acc = r @ acc \<and> length r = n \<and> digits_ok r \<and> 0 \<le> cout \<and>
    dval r + cout * NBASE ^ n = wval ds1 i1 n + wval ds2 i2 n + c"
  using assms(3,4)
proof (induction n arbitrary: i1 i2 c acc)
  case 0
  then show ?case by (intro exI [of _ "[]"] exI [of _ c]) simp
next
  case (Suc n)
  define s where "s = c + digit_at ds1 (i1 - 1) + digit_at ds2 (i2 - 1)"
  define c' where "c' = (if s \<ge> NBASE then 1 else 0 :: int)"
  have s: "0 \<le> s - c' * NBASE" "s - c' * NBASE < NBASE"
    using Suc.prems digit_at_bounds [OF assms(1), of "i1 - 1"] digit_at_bounds [OF assms(2), of "i2 - 1"] by (auto simp: s_def c'_def)
  have eq: "add_loop (Suc n) ds1 i1 ds2 i2 c acc = add_loop n ds1 (i1 - 1) ds2 (i2 - 1) c' ((s - c' * NBASE) # acc)"
    by (simp add: s_def c'_def Let_def)
  obtain r cout where r: "add_loop n ds1 (i1 - 1) ds2 (i2 - 1) c' ((s - c' * NBASE) # acc) = r @ (s - c' * NBASE) # acc" "length r = n" "digits_ok r" "0 \<le> cout"
    "dval r + cout * NBASE ^ n = wval ds1 (i1 - 1) n + wval ds2 (i2 - 1) n + c'"
    using Suc.IH [of c' "i1 - 1" "i2 - 1" "(s - c' * NBASE) # acc"] by (fastforce simp: c'_def split: if_splits)
  have "NBASE * (dval r + cout * NBASE ^ n) = NBASE * (wval ds1 (i1 - 1) n + wval ds2 (i2 - 1) n + c')" using r(5) by simp
  then have "dval (r @ [s - c' * NBASE]) + cout * NBASE ^ Suc n = wval ds1 i1 (Suc n) + wval ds2 i2 (Suc n) + c"
    by (simp add: dval_append s_def algebra_simps)
  then show ?case using eq r s by (intro exI [of _ "r @ [s - c' * NBASE]"] exI [of _ cout]) simp
qed

lemma sub_loop_spec:
  assumes "digits_ok ds1" "digits_ok ds2" "- 1 \<le> b" "b \<le> 0"
  shows "\<exists>r bout. sub_loop n ds1 i1 ds2 i2 b acc = r @ acc \<and> length r = n \<and> digits_ok r \<and> bout \<le> 0 \<and>
    dval r + bout * NBASE ^ n = wval ds1 i1 n - wval ds2 i2 n + b"
  using assms(3,4)
proof (induction n arbitrary: i1 i2 b acc)
  case 0
  then show ?case by (intro exI [of _ "[]"] exI [of _ b]) simp
next
  case (Suc n)
  define s where "s = b + digit_at ds1 (i1 - 1) - digit_at ds2 (i2 - 1)"
  define b' where "b' = (if s < 0 then - 1 else 0 :: int)"
  have s: "0 \<le> s - b' * NBASE" "s - b' * NBASE < NBASE"
    using Suc.prems digit_at_bounds [OF assms(1), of "i1 - 1"] digit_at_bounds [OF assms(2), of "i2 - 1"] by (auto simp: s_def b'_def)
  have eq: "sub_loop (Suc n) ds1 i1 ds2 i2 b acc = sub_loop n ds1 (i1 - 1) ds2 (i2 - 1) b' ((s - b' * NBASE) # acc)"
    by (simp add: s_def b'_def Let_def)
  obtain r bout where r: "sub_loop n ds1 (i1 - 1) ds2 (i2 - 1) b' ((s - b' * NBASE) # acc) = r @ (s - b' * NBASE) # acc" "length r = n" "digits_ok r" "bout \<le> 0"
    "dval r + bout * NBASE ^ n = wval ds1 (i1 - 1) n - wval ds2 (i2 - 1) n + b'"
    using Suc.IH [of b' "i1 - 1" "i2 - 1" "(s - b' * NBASE) # acc"] by (fastforce simp: b'_def split: if_splits)
  have "NBASE * (dval r + bout * NBASE ^ n) = NBASE * (wval ds1 (i1 - 1) n - wval ds2 (i2 - 1) n + b')" using r(5) by simp
  then have "dval (r @ [s - b' * NBASE]) + bout * NBASE ^ Suc n = wval ds1 i1 (Suc n) - wval ds2 i2 (Suc n) + b"
    by (simp add: dval_append s_def algebra_simps)
  then show ?case using eq r s by (intro exI [of _ "r @ [s - b' * NBASE]"] exI [of _ bout]) simp
qed

text \<open>A result in \<open>n\<close> digits that fits in them has no carry or borrow left over.\<close>

lemma no_overflow_digits:
  fixes cout :: int
  assumes "digits_ok r" "length r = n" "dval r + cout * NBASE ^ n = x" "0 \<le> x" "x < NBASE ^ n"
  shows "dval r = x"
proof -
  have "0 \<le> dval r" "dval r < NBASE ^ n" using dval_nonneg dval_less assms by blast+
  then have "x mod NBASE ^ n = dval r" using assms(3) by (auto simp: mod_mult_self1)
  then show ?thesis using assms(4,5) by simp
qed

lemma add_abs_spec:
  assumes "var_ok v1" "var_ok v2"
  shows "nabs (add_abs v1 v2) = nabs v1 + nabs v2" "canonical (add_abs v1 v2)" "dscale (add_abs v1 v2) = max (dscale v1) (dscale v2)"
proof -
  define rs where "rs = max (ndigits v1 - weight v1 - 1) (ndigits v2 - weight v2 - 1)"
  define w where "w = max (weight v1) (weight v2) + 1"
  let ?i1 = "rs + weight v1 + 1" and ?i2 = "rs + weight v2 + 1"
  define n where "n = nat (rs + w + 1)"
  have i: "ndigits v1 \<le> ?i1" "ndigits v2 \<le> ?i2" by (auto simp: rs_def)
  have n: "rs + w + 1 = int n" "?i1 < int n" "?i2 < int n" using i by (auto simp: n_def w_def)
  have ok: "digits_ok (digits v1)" "digits_ok (digits v2)" using assms by (auto simp: var_ok_def)
  obtain r cout where r: "add_loop n (digits v1) ?i1 (digits v2) ?i2 0 [] = r" "length r = n" "digits_ok r"
    "dval r + cout * NBASE ^ n = wval (digits v1) ?i1 n + wval (digits v2) ?i2 n"
    using add_loop_spec [OF ok, of 0 n ?i1 ?i2 "[]"] by auto
  have p: "NBASE ^ nat j \<le> NBASE ^ (n - 1)" if "j < int n" for j :: int using that by (intro power_increasing) auto
  have b: "0 \<le> wval (digits v1) ?i1 n \<and> wval (digits v1) ?i1 n < NBASE ^ nat ?i1" "0 \<le> wval (digits v2) ?i2 n \<and> wval (digits v2) ?i2 n < NBASE ^ nat ?i2"
    using wval_bounds [OF ok(1), of ?i1 n] wval_bounds [OF ok(2), of ?i2 n] i n by auto
  have n0: "n \<noteq> 0" using n(2) i(1) by auto
  then have "2 * NBASE ^ (n - 1) \<le> NBASE ^ n" by (cases n) (auto simp: NBASE_def)
  then have "wval (digits v1) ?i1 n + wval (digits v2) ?i2 n < NBASE ^ n" using b p [OF n(2)] p [OF n(3)] by linarith
  then have d: "dval r = wval (digits v1) ?i1 n + wval (digits v2) ?i2 n" using no_overflow_digits [OF r(3,2,4)] b by simp
  let ?u = "\<lparr>weight = w, sign = NUMERIC_POS, dscale = max (dscale v1) (dscale v2), digits = r\<rparr>"
  have eq: "add_abs v1 v2 = strip_var ?u" using r(1) n(1) n0 unfolding add_abs_def Let_def rs_def [symmetric] w_def [symmetric] by simp
  have "w + 1 - int n = - rs" using n(1) by simp
  then have "rval r w = of_int (dval r) * NB powi (- rs)" using r(2) by (simp add: rval_dval)
  also have "\<dots> = nabs v1 + nabs v2"
    using wval_rval [OF i(1), of n rs "weight v1"] wval_rval [OF i(2), of n rs "weight v2"] n by (simp add: d nabs_def algebra_simps)
  finally have "nabs ?u = nabs v1 + nabs v2" by (simp add: nabs_def)
  then show "nabs (add_abs v1 v2) = nabs v1 + nabs v2" "canonical (add_abs v1 v2)" "dscale (add_abs v1 v2) = max (dscale v1) (dscale v2)"
    using strip_var_spec [of ?u] r(3) by (simp_all add: eq)
qed

text \<open>A window that is too short for the digits drops the higher ones.\<close>

lemma wval_mod: "digits_ok ds \<Longrightarrow> wval ds i n = wval ds i (n + m) mod NBASE ^ n"
proof (induction n arbitrary: i)
  case (Suc n)
  have "(digit_at ds (i - 1) + NBASE * x) mod (NBASE * NBASE ^ n) = digit_at ds (i - 1) + NBASE * (x mod NBASE ^ n)" for x
    using digit_at_bounds [OF Suc.prems, of "i - 1"]
    by (subst zmod_zmult2_eq) (simp_all add: algebra_simps)
  then show ?case using Suc by simp
qed simp

lemma sub_abs_spec:
  assumes "var_ok v1" "var_ok v2" "nabs v2 \<le> nabs v1"
  shows "nabs (sub_abs v1 v2) = nabs v1 - nabs v2" "canonical (sub_abs v1 v2)" "dscale (sub_abs v1 v2) = max (dscale v1) (dscale v2)"
proof -
  define rs where "rs = max (ndigits v1 - weight v1 - 1) (ndigits v2 - weight v2 - 1)"
  let ?i1 = "rs + weight v1 + 1" and ?i2 = "rs + weight v2 + 1"
  define n where "n = nat (if ?i1 \<le> 0 then 1 else ?i1)"
  define m where "m = n + nat ?i2"
  have i: "ndigits v1 \<le> ?i1" "ndigits v2 \<le> ?i2" by (auto simp: rs_def)
  have n: "?i1 \<le> int n" "?i2 \<le> int m" "?i1 = int n \<or> ?i1 = 0" using i by (auto simp: n_def m_def)
  have ok: "digits_ok (digits v1)" "digits_ok (digits v2)" using assms by (auto simp: var_ok_def)
  let ?x1 = "wval (digits v1) ?i1 n" and ?x2 = "wval (digits v2) ?i2 m"
  have x: "of_int ?x1 * NB powi (- rs) = nabs v1" "of_int ?x2 * NB powi (- rs) = nabs v2"
    using wval_rval [OF i(1) n(1)] wval_rval [OF i(2) n(2)] by (simp_all add: nabs_def)
  then have le: "?x2 \<le> ?x1" using assms(3) NB_powi_pos [of "- rs"] by (metis mult_le_cancel_right_pos of_int_le_iff)
  have b: "0 \<le> ?x1" "?x1 < NBASE ^ nat ?i1" "0 \<le> ?x2" using wval_bounds [OF ok(1) i(1) n(1)] wval_bounds [OF ok(2) i(2) n(2)] by auto
  have "NBASE ^ nat ?i1 \<le> NBASE ^ n" using n(1) by (intro power_increasing) auto
  then have lt: "?x1 < NBASE ^ n" using b by linarith
  have x2: "wval (digits v2) ?i2 n = ?x2"
    using wval_mod [OF ok(2), of ?i2 n "nat ?i2"] le lt b by (simp add: m_def [symmetric])
  obtain r bout where r: "sub_loop n (digits v1) ?i1 (digits v2) ?i2 0 [] = r" "length r = n" "digits_ok r"
    "dval r + bout * NBASE ^ n = ?x1 - ?x2"
    using sub_loop_spec [OF ok, of 0 n ?i1 ?i2 "[]"] x2 by auto
  have d: "dval r = ?x1 - ?x2" using no_overflow_digits [OF r(3,2,4)] le lt b by simp
  let ?u = "\<lparr>weight = weight v1, sign = NUMERIC_POS, dscale = max (dscale v1) (dscale v2), digits = r\<rparr>"
  have eq: "sub_abs v1 v2 = strip_var ?u" using r(1) unfolding sub_abs_def Let_def rs_def [symmetric] n_def by simp
  have "nabs ?u = of_int (dval r) * NB powi (- rs)"
  proof (cases "?i1 = int n")
    case True
    then have "weight v1 + 1 - int n = - rs" by simp
    then show ?thesis using r(2) by (simp add: nabs_def rval_dval)
  next
    case False
    then have "dval r = 0" using n(3) b le d by auto
    then show ?thesis by (simp add: nabs_def rval_dval)
  qed
  also have "\<dots> = nabs v1 - nabs v2" using x by (simp add: d algebra_simps)
  finally have "nabs ?u = nabs v1 - nabs v2" .
  then show "nabs (sub_abs v1 v2) = nabs v1 - nabs v2" "canonical (sub_abs v1 v2)" "dscale (sub_abs v1 v2) = max (dscale v1) (dscale v2)"
    using strip_var_spec [of ?u] r(3) by (simp_all add: eq)
qed

text \<open>Setting the sign of a number that is not zero, or of zero to a plus sign.\<close>

lemma set_sign:
  assumes "canonical v" "s \<noteq> NUMERIC_NAN" "s = NUMERIC_POS \<or> nabs v \<noteq> 0"
  shows "canonical (v\<lparr>sign := s\<rparr>)" "nval (v\<lparr>sign := s\<rparr>) = (if s = NUMERIC_NEG then - nabs v else nabs v)" "dscale (v\<lparr>sign := s\<rparr>) = dscale v"
  using assms nabs_zero_iff [OF assms(1)] by (auto simp: canonical_def var_ok_def nval_def nabs_def)

lemma sub_signed_spec:
  assumes "var_ok v1" "var_ok v2" "s \<noteq> NUMERIC_NAN" "t \<noteq> NUMERIC_NAN" "s \<noteq> t"
  shows "nval (sub_signed v1 v2 s t) = (if s = NUMERIC_NEG then nabs v2 - nabs v1 else nabs v1 - nabs v2) \<and>
    canonical (sub_signed v1 v2 s t) \<and> dscale (sub_signed v1 v2 s t) = max (dscale v1) (dscale v2)"
proof -
  note c = cmp_abs_cases [OF assms(1,2)]
  consider "nabs v1 = nabs v2" | "nabs v2 < nabs v1" | "nabs v1 < nabs v2" by linarith
  then show ?thesis
  proof cases
    case 1
    then show ?thesis using c by (simp add: sub_signed_def const_zero_def nval_def nabs_def canonical_def var_ok_def)
  next
    case 2
    then show ?thesis using c sub_abs_spec [OF assms(1,2)] set_sign [of "sub_abs v1 v2" s] assms by (auto simp: sub_signed_def)
  next
    case 3
    have "t = NUMERIC_NEG \<longleftrightarrow> s \<noteq> NUMERIC_NEG" using assms by (cases s; cases t) auto
    then show ?thesis using 3 c sub_abs_spec [OF assms(2,1)] set_sign [of "sub_abs v2 v1" t] assms by (auto simp: sub_signed_def)
  qed
qed

lemma add_signed_spec:
  assumes "var_ok v1" "var_ok v2" "s \<noteq> NUMERIC_NAN" "s = NUMERIC_POS \<or> nabs v1 \<noteq> 0"
  shows "nval ((add_abs v1 v2)\<lparr>sign := s\<rparr>) = (if s = NUMERIC_NEG then - nabs v1 - nabs v2 else nabs v1 + nabs v2) \<and>
    canonical ((add_abs v1 v2)\<lparr>sign := s\<rparr>) \<and> dscale ((add_abs v1 v2)\<lparr>sign := s\<rparr>) = max (dscale v1) (dscale v2)"
proof -
  have "s = NUMERIC_POS \<or> nabs (add_abs v1 v2) \<noteq> 0"
    using assms nabs_nonneg [of v1] nabs_nonneg [of v2] add_abs_spec(1) [OF assms(1,2)] by auto
  then show ?thesis using add_abs_spec [OF assms(1,2)] set_sign [of "add_abs v1 v2" s] assms by auto
qed

text \<open>The sum and the difference of two numbers. A negative number is not zero.\<close>

lemma proper_neg: "proper v \<Longrightarrow> sign v \<noteq> NUMERIC_POS \<Longrightarrow> sign v = NUMERIC_NEG \<and> nabs v \<noteq> 0"
  by (cases "sign v") (auto simp: proper_def var_ok_def split: if_splits)

lemma add_var_spec:
  assumes "proper v1" "proper v2"
  shows "nval (add_var v1 v2) = nval v1 + nval v2 \<and> canonical (add_var v1 v2) \<and> dscale (add_var v1 v2) = max (dscale v1) (dscale v2)"
proof -
  have ok: "var_ok v1" "var_ok v2" using assms proper_var_ok by auto
  note n = proper_neg [OF assms(1)] proper_neg [OF assms(2)]
  show ?thesis
    using n add_signed_spec [OF ok, of "sign v1"] sub_signed_spec [OF ok, of "sign v1" "sign v2"]
    by (cases "sign v1"; cases "sign v2") (auto simp: add_var_def nval_def)
qed

lemma sub_var_spec:
  assumes "proper v1" "proper v2"
  shows "nval (sub_var v1 v2) = nval v1 - nval v2 \<and> canonical (sub_var v1 v2) \<and> dscale (sub_var v1 v2) = max (dscale v1) (dscale v2)"
proof -
  have ok: "var_ok v1" "var_ok v2" using assms proper_var_ok by auto
  note n = proper_neg [OF assms(1)] proper_neg [OF assms(2)]
  show ?thesis
    using n add_signed_spec [OF ok, of "sign v1"] sub_signed_spec [OF ok, of "sign v1" "if sign v1 = NUMERIC_POS then NUMERIC_NEG else NUMERIC_POS"]
    by (cases "sign v1"; cases "sign v2") (auto simp: sub_var_def nval_def)
qed

end
