(* ===== verification/NumericRound.thy ===== *)
theory NumericRound
  imports NumericVal
begin

text \<open>
  \<open>round_var\<close> rounds to the nearest multiple of a power of ten, halves away from zero, and \<open>trunc_var\<close> truncates towards zero.
\<close>

subsection \<open>Powers of ten\<close>

abbreviation TEN :: "int \<Rightarrow> rat" where "TEN e \<equiv> 10 powi e"

lemma TEN_add: "TEN (a + b) = TEN a * TEN b"
  by (simp add: power_int_add)

lemma TEN_pos [simp]: "0 < TEN e"
  by (simp add: zero_less_power_int)

lemma TEN_nat: "TEN (int n) = of_int (10 ^ n)"
  by simp

lemma NB_TEN: "NB powi w = TEN (4 * w)"
proof -
  have "NB = TEN 4" by (simp add: NBASE_def)
  then show ?thesis by (simp only: power_int_mult)
qed

lemma NBASE_power_ten: "NBASE ^ k = 10 ^ (4 * k)"
  by (simp add: NBASE_def power_mult)

definition dec_floor :: "rat \<Rightarrow> int \<Rightarrow> rat" where
  "dec_floor x s = of_int \<lfloor>x * TEN s\<rfloor> * TEN (- s)"

definition dec_round :: "rat \<Rightarrow> int \<Rightarrow> rat" where
  "dec_round x s = of_int \<lfloor>x * TEN s + 1 / 2\<rfloor> * TEN (- s)"

lemma floor_half:
  fixes a b :: int
  assumes "0 < b"
  shows "\<lfloor>of_int a / of_int b + 1 / 2 :: rat\<rfloor> = (2 * a + b) div (2 * b)"
proof -
  have "of_int a / of_int b + 1 / 2 = (of_int (2 * a + b) / of_int (2 * b) :: rat)" using assms by (simp add: field_simps)
  then show ?thesis by (simp only: floor_divide_of_int_eq)
qed

lemma half_div:
  fixes a b :: int
  assumes "0 \<le> a" "a < b"
  shows "(2 * a + b) div (2 * b) = (if b \<le> 2 * a then 1 else 0)"
proof (cases "b \<le> 2 * a")
  case True
  have "(2 * a + b) div (2 * b) = 1" by (rule int_div_pos_eq [of _ _ _ "2 * a - b"]) (use True assms in auto)
  then show ?thesis using True by simp
qed (use assms in simp)

lemma half_div_shift:
  fixes t U x :: int
  assumes "0 < U"
  shows "(2 * (t * U + x) + U) div (2 * U) = t + (2 * x + U) div (2 * U)"
proof -
  have "2 * (t * U + x) + U = (2 * x + U) + t * (2 * U)" by (simp add: algebra_simps)
  then have "(2 * (t * U + x) + U) div (2 * U) = ((2 * x + U) + t * (2 * U)) div (2 * U)" by (simp only:)
  also have "\<dots> = t + (2 * x + U) div (2 * U)" by (rule div_mult_self1) (use assms in simp)
  finally show ?thesis .
qed

subsection \<open>Digits\<close>

lemma propagate_carry_spec:
  "digits_ok ds \<Longrightarrow> 0 \<le> c \<Longrightarrow> c \<le> 1 \<Longrightarrow> propagate_carry ds c = (ds', c') \<Longrightarrow>
    digits_ok ds' \<and> length ds' = length ds \<and> 0 \<le> c' \<and> c' \<le> 1 \<and> c' * NBASE ^ length ds + dval (rev ds') = dval (rev ds) + c"
proof (induction ds c arbitrary: ds' c' rule: propagate_carry.induct)
  case (2 d ds c)
  show ?case
  proof (cases "c \<noteq> 0 \<and> NBASE \<le> c + d")
    case True
    obtain e b where p: "propagate_carry ds 1 = (e, b)" by fastforce
    have c: "c \<noteq> 0" "NBASE \<le> c + d" "digits_ok ds" using True "2.prems"(1) by simp_all
    have ih: "digits_ok e" "length e = length ds" "0 \<le> b" "b \<le> 1" "b * NBASE ^ length ds + dval (rev e) = dval (rev ds) + 1"
      using "2.IH" [OF c(1) refl c(2) c(3) _ _ p] by simp_all
    have q: "ds' = (c + d - NBASE) # e" "c' = b" using c p "2.prems"(4) by (simp_all add: Let_def)
    have "NBASE * (b * NBASE ^ length ds + dval (rev e)) = NBASE * (dval (rev ds) + 1)" using ih(5) by simp
    then show ?thesis using q ih True "2.prems"(1-3) by (auto simp: dval_append algebra_simps)
  next
    case False
    then show ?thesis using 2 by (auto simp: dval_append split: if_splits)
  qed
qed auto

definition last_unit :: "int \<Rightarrow> int" where
  "last_unit di = (if di = 0 then 1 else round_powers ! nat di)"

lemma last_unit_power: "0 \<le> di \<Longrightarrow> di < 4 \<Longrightarrow> last_unit di = 10 ^ nat ((4 - di) mod 4)"
proof -
  assume "0 \<le> di" "di < 4"
  then have "di = 0 \<or> di = 1 \<or> di = 2 \<or> di = 3" by auto
  then show ?thesis by (auto simp: last_unit_def round_powers_def)
qed

lemma last_unit_cases:
  assumes "0 < di" "di < 4"
  obtains h q where "last_unit di = 2 * h" "0 < h" "NBASE = last_unit di * q" "0 < q"
proof -
  have "di = 1 \<or> di = 2 \<or> di = 3" using assms by auto
  then show thesis
  proof (elim disjE)
    assume "di = 1" then show thesis by (intro that [of 500 10]) (simp_all add: last_unit_def round_powers_def NBASE_def)
  next
    assume "di = 2" then show thesis by (intro that [of 50 100]) (simp_all add: last_unit_def round_powers_def NBASE_def)
  next
    assume "di = 3" then show thesis by (intro that [of 5 1000]) (simp_all add: last_unit_def round_powers_def NBASE_def)
  qed
qed

lemma half_iff:
  fixes h x N r :: int
  assumes "0 \<le> r" "r < N"
  shows "2 * (h * N) \<le> 2 * (x * N + r) \<longleftrightarrow> h \<le> x"
proof
  assume "h \<le> x"
  then have "h * N \<le> x * N" using assms by (intro mult_right_mono) auto
  then have "h * N \<le> x * N + r" using assms(1) by (rule order_trans [OF _ add_increasing2]) simp_all
  then show "2 * (h * N) \<le> 2 * (x * N + r)" by (intro mult_left_mono) simp_all
next
  assume a: "2 * (h * N) \<le> 2 * (x * N + r)"
  show "h \<le> x"
  proof (rule ccontr)
    assume "\<not> h \<le> x"
    then have "(x + 1) * N \<le> h * N" using assms by (intro mult_right_mono) auto
    then show False using a assms by (simp add: distrib_right)
  qed
qed

lemma unit_div_le: "0 < u \<Longrightarrow> u * (d div u) \<le> (d :: int)"
  by (metis mult.commute div_mult_mod_eq le_add_same_cancel1 pos_mod_sign)

lemma unit_le_div: "0 < v \<Longrightarrow> a * v \<le> w \<Longrightarrow> a \<le> w div (v :: int)"
  using zdiv_mono1 [of "a * v" w v] by simp

lemma unit_div_less:
  fixes d u q :: int
  assumes "0 < u" "d < u * q"
  shows "d div u < q"
proof (rule ccontr)
  assume "\<not> d div u < q"
  then have "u * q \<le> u * (d div u)" using assms(1) by (intro mult_left_mono) auto
  then show False using unit_div_le [OF assms(1), of d] assms(2) by simp
qed

text \<open>Rounding within the digit \<open>d\<close>, with a remainder behind it that is less than one unit of this digit.\<close>

lemma round_unit:
  fixes d r N U h :: int
  assumes "0 \<le> r" "r < N" "U = 2 * h" "0 < h" "0 \<le> d"
  shows "(2 * (d * N + r) + U * N) div (2 * (U * N)) = d div U + (if d mod U \<ge> h then 1 else 0)"
proof -
  let ?x = "d mod U"
  have x: "0 \<le> ?x" "?x < U" using assms by simp_all
  have N: "0 < N" using assms by simp
  have UN: "U * N = 2 * (h * N)" using assms(3) by simp
  have e: "d * N + r = (d div U) * (U * N) + (?x * N + r)"
  proof -
    have "d * N = (d div U * U + ?x) * N" by (simp only: div_mult_mod_eq)
    then show ?thesis by (simp only: distrib_right mult.assoc add.assoc)
  qed
  have lt: "?x * N + r < U * N"
  proof -
    have "(?x + 1) * N \<le> U * N" using x N by (intro mult_right_mono) auto
    then show ?thesis using assms(2) by (simp add: algebra_simps)
  qed
  have iff: "U * N \<le> 2 * (?x * N + r) \<longleftrightarrow> h \<le> ?x" unfolding UN by (rule half_iff [OF assms(1,2)])
  have "(2 * (d * N + r) + U * N) div (2 * (U * N)) = d div U + (2 * (?x * N + r) + U * N) div (2 * (U * N))"
    unfolding e by (rule half_div_shift) (use N assms in simp)
  also have "(2 * (?x * N + r) + U * N) div (2 * (U * N)) = (if U * N \<le> 2 * (?x * N + r) then 1 else 0)"
    by (rule half_div) (use x N assms lt in auto)
  finally show ?thesis using iff by simp
qed

lemma round_digits_spec:
  assumes ok: "digits_ok ds" and n: "n < length ds \<or> n = length ds \<and> 0 < di" and di: "0 \<le> di" "di < 4" "0 < di \<longrightarrow> 0 < n"
    and eq: "round_digits ds n di = (ds', c)"
  defines "U \<equiv> last_unit di * NBASE ^ (length ds - n)"
  shows "digits_ok ds' \<and> length ds' = n \<and> 0 \<le> c \<and> c \<le> 1 \<and>
    c * NBASE ^ n + dval (rev ds') = last_unit di * ((2 * dval ds + U) div (2 * U))"
proof (cases "di = 0")
  case True
  then have "n < length ds" using n by auto
  then have split: "ds = take n ds @ ds ! n # drop (Suc n) ds" by (simp add: id_take_nth_drop)
  let ?d = "ds ! n" and ?r = "dval (drop (Suc n) ds)" and ?N = "NBASE ^ (length ds - Suc n)" and ?t = "dval (take n ds)"
  have o: "digits_ok (drop (Suc n) ds)" "digits_ok (take n ds)" "0 \<le> ?d" "?d < NBASE"
    using ok digits_ok_nth [OF ok \<open>n < length ds\<close>] by (auto elim: digits_ok_sub dest: in_set_dropD in_set_takeD)
  have r: "0 \<le> ?r" "?r < ?N" using dval_nonneg [OF o(1)] dval_less [OF o(1)] by auto
  have U: "U = NBASE * ?N" using True \<open>n < length ds\<close> by (simp add: U_def last_unit_def Suc_diff_Suc power_Suc [symmetric] del: power_Suc)
  have v: "dval ds = ?t * U + (?d * ?N + ?r)"
    by (subst split, subst dval_append) (use \<open>n < length ds\<close> U in \<open>simp add: algebra_simps\<close>)
  have h: "NBASE = 2 * HALF_NBASE" "0 < HALF_NBASE" by (simp_all add: NBASE_def HALF_NBASE_def)
  have "(2 * dval ds + U) div (2 * U) = ?t + (2 * (?d * ?N + ?r) + U) div (2 * U)" unfolding v by (rule half_div_shift) (use U r in simp)
  also have "(2 * (?d * ?N + ?r) + U) div (2 * U) = (if HALF_NBASE \<le> ?d then 1 else 0)"
    using round_unit [OF r h o(3)] o(3,4) by (simp add: U)
  finally show ?thesis
    using propagate_carry_spec [of "rev (take n ds)" "if HALF_NBASE \<le> ?d then 1 else 0" ds' c] eq True o \<open>n < length ds\<close>
    by (auto simp: round_digits_def last_unit_def)
next
  case False
  then have n: "0 < n" "n \<le> length ds" using n di by auto
  obtain m where m: "n = Suc m" "m < length ds" using n by (cases n) auto
  then have split: "ds = take m ds @ ds ! m # drop (Suc m) ds" by (simp add: id_take_nth_drop)
  let ?d = "ds ! m" and ?r = "dval (drop (Suc m) ds)" and ?N = "NBASE ^ (length ds - Suc m)" and ?t = "dval (take m ds)"
  let ?u = "last_unit di"
  have o: "digits_ok (drop (Suc m) ds)" "digits_ok (take m ds)" "0 \<le> ?d" "?d < NBASE"
    using ok digits_ok_nth [OF ok m(2)] by (auto elim: digits_ok_sub dest: in_set_dropD in_set_takeD)
  have r: "0 \<le> ?r" "?r < ?N" using dval_nonneg [OF o(1)] dval_less [OF o(1)] by auto
  obtain h q where u: "?u = 2 * h" "0 < h" "NBASE = ?u * q" "0 < q" using last_unit_cases False di by (metis order_le_imp_less_or_eq)
  have U: "U = ?u * ?N" using m by (simp add: U_def)
  have v: "dval ds = ?t * q * U + (?d * ?N + ?r)"
    by (subst split, subst dval_append) (use m u(3) U in \<open>simp add: algebra_simps\<close>)
  define b where "b = (if h \<le> ?d mod ?u then 1 else 0 :: int)"
  have "(2 * dval ds + U) div (2 * U) = ?t * q + (2 * (?d * ?N + ?r) + U) div (2 * U)" unfolding v by (rule half_div_shift) (use U r u in simp)
  also have "(2 * (?d * ?N + ?r) + U) div (2 * U) = ?d div ?u + b"
    using round_unit [OF r u(1,2) o(3)] by (simp add: U b_def)
  finally have "?u * ((2 * dval ds + U) div (2 * U)) = ?t * NBASE + (?u * (?d div ?u) + b * ?u)"
    using u(3) by (simp add: algebra_simps)
  moreover define e where "e = ?u * (?d div ?u) + b * ?u"
  ultimately have main: "?u * ((2 * dval ds + U) div (2 * U)) = ?t * NBASE + e" by (simp only:)
  have ud: "?d - ?d mod ?u = ?u * (?d div ?u)" by (simp add: minus_mod_eq_mult_div)
  have e: "0 \<le> e" "e \<le> NBASE"
  proof -
    have "?d div ?u < q" by (rule unit_div_less) (use o(4) u in simp_all)
    then have "?u * (?d div ?u + b) \<le> ?u * q" using u by (intro mult_left_mono) (auto simp: b_def)
    then show "e \<le> NBASE" using u(3) by (simp add: e_def algebra_simps)
    show "0 \<le> e" using o(3) u by (auto simp: e_def b_def intro!: add_nonneg_nonneg mult_nonneg_nonneg pos_imp_zdiv_nonneg_iff [THEN iffD2])
  qed
  define cc where "cc = (if NBASE \<le> e then 1 else 0 :: int)"
  obtain rest c1 where p: "propagate_carry (rev (take m ds)) cc = (rest, c1)" by fastforce
  have rd: "round_digits ds n di = ((e - cc * NBASE) # rest, c1)"
  proof -
    have pw: "round_powers ! nat di = ?u" "?u div 2 = h" "n - 1 = m" using False u(1) m(1) by (simp_all add: last_unit_def)
    let ?E = "?u * (?d div ?u)"
    have "?E \<le> ?d" by (rule unit_div_le) (use u in simp)
    then have "(if h \<le> ?d mod ?u then (if NBASE \<le> ?u + ?E then (?u + ?E - NBASE, 1) else (?u + ?E, 0)) else (?E, 0)) = (e - cc * NBASE, cc)"
      using o(4) by (cases "h \<le> ?d mod ?u") (auto simp: e_def b_def cc_def)
    then show ?thesis using False p unfolding round_digits_def Let_def pw ud by simp
  qed
  have s: "digits_ok rest \<and> length rest = m \<and> 0 \<le> c1 \<and> c1 \<le> 1 \<and> c1 * NBASE ^ m + dval (rev rest) = ?t + cc"
    using propagate_carry_spec [OF _ _ _ p] o(2) m by (auto simp: cc_def)
  then have "NBASE * (c1 * NBASE ^ m + dval (rev rest)) = NBASE * (?t + cc)" by simp
  then show ?thesis using rd eq s e m unfolding main by (auto simp: dval_append cc_def algebra_simps)
qed

subsection \<open>Rounding and truncating\<close>

lemma scaled_nabs: "nabs v * TEN rs = of_int (dval (digits v)) * TEN ((weight v + 1) * 4 + rs - 4 * ndigits v)"
proof -
  have "(weight v + 1) * 4 + rs - 4 * ndigits v = 4 * (weight v + 1 - ndigits v) + rs" by simp
  then have "TEN ((weight v + 1) * 4 + rs - 4 * ndigits v) = NB powi (weight v + 1 - ndigits v) * TEN rs" by (simp only: TEN_add NB_TEN)
  then show ?thesis by (simp add: nabs_def rval_dval)
qed

text \<open>With enough digits for the scale the value is a multiple of the unit already.\<close>

lemma scaled_integer:
  assumes "4 * ndigits v \<le> (weight v + 1) * 4 + rs"
  shows "\<exists>z. nabs v * TEN rs = of_int z"
proof -
  define k where "k = nat ((weight v + 1) * 4 + rs - 4 * ndigits v)"
  have "(weight v + 1) * 4 + rs - 4 * ndigits v = int k" using assms by (simp add: k_def)
  then have "nabs v * TEN rs = of_int (dval (digits v) * 10 ^ k)" unfolding scaled_nabs by simp
  then show ?thesis by blast
qed

lemma TEN_cancel: "TEN s * TEN (- s) = 1" "x * TEN s * TEN (- s) = x" "x * TEN (- s) * TEN s = x"
  using TEN_add [of s "- s"] by (simp_all add: mult.assoc) (simp add: mult.commute [of "TEN (- s)"])

lemma dec_exact:
  assumes "x * TEN s = of_int z"
  shows "dec_round x s = x" "dec_floor x s = x"
proof -
  have "\<lfloor>of_int z + 1 / 2 :: rat\<rfloor> = z" by linarith
  then show "dec_round x s = x" "dec_floor x s = x" using TEN_cancel(2) [of x s] by (simp_all add: dec_round_def dec_floor_def assms)
qed

text \<open>The place at which the digits are cut: \<open>n\<close> of them are kept, \<open>di\<close> decimal digits of the last one.\<close>

lemma cut_place:
  fixes d :: int
  assumes "0 \<le> d"
  obtains n r where "(d + DEC_DIGITS - 1) div DEC_DIGITS = int n" "d mod DEC_DIGITS = r" "0 \<le> r" "r < 4" "0 < r \<longrightarrow> 0 < n"
    "last_unit r = 10 ^ nat (4 * int n - d)" "d \<le> 4 * int n" "4 * int n < d + 4"
proof -
  define n where "n = nat ((d + 3) div 4)"
  define r where "r = d mod 4"
  have n: "int n = (d + 3) div 4" using assms by (simp add: n_def)
  have r: "0 \<le> r" "r < 4" by (simp_all add: r_def)
  have e: "4 * int n - d = (4 - r) mod 4" unfolding n r_def by presburger
  have "0 < r \<longrightarrow> 0 < n" using n assms unfolding r_def by presburger
  moreover have "d \<le> 4 * int n" "4 * int n < d + 4" unfolding n by presburger+
  moreover have "last_unit r = 10 ^ nat (4 * int n - d)" using last_unit_power [OF r] e by simp
  ultimately show thesis using n r by (intro that [of n r]) (simp_all add: DEC_DIGITS_def r_def add.commute)
qed

text \<open>The value of kept digits in units of the scale.\<close>

lemma kept_value:
  assumes "dval ds = 10 ^ nat (4 * int (length ds) - d) * z" "d \<le> 4 * int (length ds)" "d = (w + 1) * 4 + rs"
  shows "rval ds w = of_int z * TEN (- rs)"
proof -
  define k where "k = nat (4 * int (length ds) - d)"
  have k: "int k + 4 * (w + 1 - int (length ds)) = - rs" using assms by (simp add: k_def)
  have "rval ds w = of_int z * (TEN (int k) * TEN (4 * (w + 1 - int (length ds))))"
    using assms(1) by (simp add: rval_dval NB_TEN k_def [symmetric])
  then show ?thesis by (simp only: TEN_add [symmetric] k)
qed

lemma unit_value:
  assumes "di \<le> 4 * ndigits v" "di = (weight v + 1) * 4 + rs"
  shows "nabs v * TEN rs = of_int (dval (digits v)) / of_int (10 ^ nat (4 * ndigits v - di))"
proof -
  define k where "k = nat (4 * ndigits v - di)"
  have k: "di - 4 * ndigits v = - int k" using assms by (simp add: k_def)
  show ?thesis unfolding k_def [symmetric] scaled_nabs assms(2) [symmetric] k by (simp add: power_int_minus divide_inverse)
qed

text \<open>The whole unit of the last digit kept, in units of the last digit there is.\<close>

lemma whole_unit:
  assumes "d \<le> 4 * int n" "n \<le> m"
  shows "10 ^ nat (4 * int n - d) * NBASE ^ (m - n) = (10 :: int) ^ nat (4 * int m - d)"
proof -
  have "nat (4 * int m - d) = nat (4 * int n - d) + 4 * (m - n)" using assms by simp
  then show ?thesis by (simp only: power_add NBASE_power_ten)
qed

lemma round_var_spec:
  assumes "var_ok v"
  shows "nabs (round_var v rs) = dec_round (nabs v) rs \<and> digits_ok (digits (round_var v rs)) \<and> dscale (round_var v rs) = rs \<and>
    (sign (round_var v rs) = sign v \<or> sign (round_var v rs) = NUMERIC_POS \<and> digits (round_var v rs) = [])"
proof -
  define d where "d = (weight v + 1) * 4 + rs"
  have ok: "digits_ok (digits v)" using assms by (simp add: var_ok_def)
  consider "d < 0" | "0 \<le> d" "4 * ndigits v \<le> d" | "0 \<le> d" "d < 4 * ndigits v" by linarith
  then show ?thesis
  proof cases
    case 1
    have "nabs v < TEN (4 * (weight v + 1))" using rval_less [OF ok, of "weight v"] by (simp add: nabs_def NB_TEN)
    then have "nabs v * TEN rs < TEN (4 * (weight v + 1)) * TEN rs" by simp
    also have "\<dots> = TEN d" by (simp add: TEN_add [symmetric] d_def algebra_simps)
    also have "\<dots> \<le> TEN (-1)" using 1 by (intro power_int_increasing) simp_all
    finally have "nabs v * TEN rs < 1 / 10" by simp
    moreover have "0 \<le> nabs v * TEN rs" using nabs_nonneg [OF assms] by (simp add: less_imp_le)
    ultimately have "\<lfloor>nabs v * TEN rs + 1 / 2\<rfloor> = 0" by linarith
    then show ?thesis using 1 by (simp add: round_var_def Let_def d_def DEC_DIGITS_def dec_round_def nabs_def)
  next
    case 2
    obtain n r where n: "(d + DEC_DIGITS - 1) div DEC_DIGITS = int n" "d mod DEC_DIGITS = r" "0 \<le> r" "r < 4" "d \<le> 4 * int n" "4 * int n < d + 4"
      using cut_place [OF 2(1)] by metis
    have "\<not> (int n < ndigits v \<or> int n = ndigits v \<and> 0 < r)" using 2(2) n by (auto simp: DEC_DIGITS_def)
    then have "round_var v rs = v\<lparr>dscale := rs\<rparr>" using 2(1) n(1,2) by (auto simp: round_var_def Let_def d_def DEC_DIGITS_def [symmetric])
    then show ?thesis using scaled_integer [of v rs] 2(2) dec_exact(1) ok by (auto simp: d_def nabs_def)
  next
    case 3
    obtain n r where n: "(d + DEC_DIGITS - 1) div DEC_DIGITS = int n" "d mod DEC_DIGITS = r" "0 \<le> r" "r < 4" "0 < r \<longrightarrow> 0 < n"
      "last_unit r = 10 ^ nat (4 * int n - d)" "d \<le> 4 * int n" "4 * int n < d + 4"
      using cut_place [OF 3(1)] by metis
    have "int n < L \<or> int n = L \<and> 0 < d mod 4" if "d < 4 * L" for L using that n(8) by presburger
    from this [OF 3(2)] have c: "n < length (digits v) \<or> n = length (digits v) \<and> 0 < r" using n(2) by (simp add: DEC_DIGITS_def)
    obtain ds c' where rd: "round_digits (digits v) n r = (ds, c')" by fastforce
    define U where "U = last_unit r * NBASE ^ (length (digits v) - n)"
    have U: "U = 10 ^ nat (4 * ndigits v - d)" unfolding U_def n(6) by (rule whole_unit) (use n(7) c in auto)
    have s: "digits_ok ds" "length ds = n" "0 \<le> c'" "c' \<le> 1" "c' * NBASE ^ n + dval (rev ds) = last_unit r * ((2 * dval (digits v) + U) div (2 * U))"
      using round_digits_spec [OF ok c n(3,4,5) rd] by (auto simp: U_def)
    define e where "e = (if c' \<noteq> 0 then c' # rev ds else rev ds)"
    define w where "w = (if c' \<noteq> 0 then weight v + 1 else weight v)"
    have eq: "round_var v rs = v\<lparr>dscale := rs, digits := e, weight := w\<rparr>"
      using 3(1) n(1,2) rd c by (auto simp: round_var_def Let_def d_def DEC_DIGITS_def [symmetric] e_def w_def)
    have "rval e w = rval (c' # rev ds) (weight v + 1)" using s(2) by (auto simp: e_def w_def)
    also have "\<dots> = of_int ((2 * dval (digits v) + U) div (2 * U)) * TEN (- rs)"
      by (rule kept_value [of _ "d + 4"]) (use s n(6,7) d_def in \<open>simp_all add: algebra_simps\<close>)
    also have "(2 * dval (digits v) + U) div (2 * U) = \<lfloor>nabs v * TEN rs + 1 / 2\<rfloor>"
      using floor_half [of U "dval (digits v)"] unit_value [of d v rs] 3(2) by (simp add: U d_def)
    finally have "nabs (round_var v rs) = dec_round (nabs v) rs" by (simp add: eq nabs_def dec_round_def)
    then show ?thesis using s ok by (auto simp: eq e_def NBASE_def)
  qed
qed

lemma div_shift:
  fixes t U x :: int
  assumes "0 \<le> x" "x < U"
  shows "(t * U + x) div U = t"
  using assms by simp

lemma trunc_var_spec:
  assumes "var_ok v"
  shows "nabs (trunc_var v rs) = dec_floor (nabs v) rs \<and> digits_ok (digits (trunc_var v rs)) \<and> dscale (trunc_var v rs) = rs \<and>
    (sign (trunc_var v rs) = sign v \<or> sign (trunc_var v rs) = NUMERIC_POS \<and> digits (trunc_var v rs) = [])"
proof -
  define d where "d = (weight v + 1) * 4 + rs"
  have ok: "digits_ok (digits v)" using assms by (simp add: var_ok_def)
  consider "d \<le> 0" | "0 < d" "4 * ndigits v < d" | "0 < d" "d \<le> 4 * ndigits v" by linarith
  then show ?thesis
  proof cases
    case 1
    have "nabs v < TEN (4 * (weight v + 1))" using rval_less [OF ok, of "weight v"] by (simp add: nabs_def NB_TEN)
    then have "nabs v * TEN rs < TEN (4 * (weight v + 1)) * TEN rs" by simp
    also have "\<dots> = TEN d" by (simp add: TEN_add [symmetric] d_def algebra_simps)
    also have "\<dots> \<le> TEN 0" using 1 by (intro power_int_increasing) simp_all
    finally have "nabs v * TEN rs < 1" by simp
    moreover have "0 \<le> nabs v * TEN rs" using nabs_nonneg [OF assms] by (simp add: less_imp_le)
    ultimately have "\<lfloor>nabs v * TEN rs\<rfloor> = 0" by linarith
    then show ?thesis using 1 by (simp add: trunc_var_def Let_def d_def DEC_DIGITS_def dec_floor_def nabs_def)
  next
    case 2
    obtain n r where n: "(d + DEC_DIGITS - 1) div DEC_DIGITS = int n" "d \<le> 4 * int n"
      using cut_place [of d] 2(1) by (metis less_imp_le)
    have "\<not> int n \<le> ndigits v" using 2(2) n by auto
    then have "trunc_var v rs = v\<lparr>dscale := rs\<rparr>" using 2(1) n(1) by (auto simp: trunc_var_def Let_def d_def DEC_DIGITS_def [symmetric])
    then show ?thesis using scaled_integer [of v rs] 2(2) dec_exact(2) ok by (auto simp: d_def nabs_def)
  next
    case 3
    obtain n r where n: "(d + DEC_DIGITS - 1) div DEC_DIGITS = int n" "d mod DEC_DIGITS = r" "0 \<le> r" "r < 4" "0 < r \<longrightarrow> 0 < n"
      "last_unit r = 10 ^ nat (4 * int n - d)" "d \<le> 4 * int n" "4 * int n < d + 4"
      using cut_place [of d] 3(1) by (metis less_imp_le)
    have n0: "0 < n" "n \<le> length (digits v)" using 3 n(7,8) by auto
    then obtain m where m: "n = Suc m" "m < length (digits v)" by (cases n) auto
    let ?ds = "take n (digits v)" and ?u = "last_unit r"
    define a where "a = digits v ! m"
    define e where "e = (if 0 < r then ?ds[m := a - a mod ?u] else ?ds)"
    have eq: "trunc_var v rs = v\<lparr>dscale := rs, digits := e\<rparr>"
    proof -
      have "nat (1 + int m) = Suc m" by simp
      then show ?thesis using 3(1) n(1-3) n0 m
        by (auto simp: trunc_var_def Let_def d_def DEC_DIGITS_def [symmetric] e_def a_def last_unit_def)
    qed
    define U where "U = ?u * NBASE ^ (length (digits v) - n)"
    have U: "U = 10 ^ nat (4 * ndigits v - d)" unfolding U_def n(6) by (rule whole_unit) (use n(7) n0 in auto)
    have split: "digits v = take m (digits v) @ a # drop (Suc m) (digits v)" using m by (simp add: id_take_nth_drop a_def)
    have a: "0 \<le> a" "a < NBASE" using digits_ok_nth [OF ok m(2)] by (simp_all add: a_def)
    have u: "0 < ?u" unfolding n(6) by simp
    obtain q where q: "NBASE = ?u * q"
    proof (cases "r = 0")
      case False
      then show thesis using last_unit_cases [of r] n(3,4) that by (metis order_le_imp_less_or_eq)
    qed (simp add: last_unit_def)
    have e: "e = take m (digits v) @ [a - a mod ?u]"
      using m n(3) by (auto simp: e_def a_def take_Suc_conv_app_nth last_unit_def list_update_append)
    have oe: "digits_ok e"
      using ok a u unfolding e by (auto elim: digits_ok_sub dest: in_set_takeD simp: minus_mod_eq_mult_div intro!: mult_nonneg_nonneg pos_imp_zdiv_nonneg_iff [THEN iffD2] le_less_trans [OF unit_div_le])
    let ?r = "dval (drop (Suc m) (digits v))" and ?N = "NBASE ^ (length (digits v) - n)"
    have od: "digits_ok (drop (Suc m) (digits v))" using ok by (auto elim: digits_ok_sub dest: in_set_dropD)
    have r: "0 \<le> ?r" "?r < ?N" using dval_nonneg [OF od] dval_less [OF od] m(1) by auto
    have "dval (digits v) = (dval (take m (digits v)) * q + a div ?u) * U + ((a mod ?u) * ?N + ?r)"
    proof -
      have "dval (digits v) = dval (take m (digits v)) * (?u * q * ?N) + a * ?N + ?r"
        unfolding q [symmetric] power_Suc [symmetric] using m
        by (subst split, subst dval_append) (simp add: Suc_diff_Suc del: power_Suc)
      moreover define g h where "g = a div ?u" and "h = a mod ?u"
      moreover have "a = g * ?u + h" by (simp add: g_def h_def)
      ultimately show ?thesis unfolding g_def [symmetric] h_def [symmetric] by (simp add: U_def algebra_simps)
    qed
    moreover have "0 \<le> a mod ?u * ?N + ?r" "a mod ?u * ?N + ?r < U"
    proof -
      have "a mod ?u + 1 \<le> ?u" using pos_mod_bound [OF u, of a] by (simp only: zless_imp_add1_zle)
      then have "(a mod ?u + 1) * ?N \<le> ?u * ?N" using r by (intro mult_right_mono) simp_all
      then show "a mod ?u * ?N + ?r < U" using r(2) by (simp add: U_def distrib_right)
      show "0 \<le> a mod ?u * ?N + ?r" using u r by simp
    qed
    ultimately have dv: "dval (digits v) div U = dval (take m (digits v)) * q + a div ?u" by (simp only: div_shift)
    have "dval e = ?u * (dval (digits v) div U)"
      unfolding dv e by (simp add: dval_append minus_mod_eq_mult_div q algebra_simps)
    then have "rval e (weight v) = of_int (dval (digits v) div U) * TEN (- rs)"
      by (intro kept_value [of _ d]) (use m n(6,7) e d_def in simp_all)
    also have "dval (digits v) div U = \<lfloor>nabs v * TEN rs\<rfloor>"
      using unit_value [of d v rs] 3(2) by (simp add: U d_def floor_divide_of_int_eq [symmetric] del: of_int_power)
    finally have "nabs (trunc_var v rs) = dec_floor (nabs v) rs" by (simp add: eq nabs_def dec_floor_def)
    then show ?thesis using oe by (simp add: eq)
  qed
qed

subsection \<open>Signed numbers\<close>

definition sround :: "rat \<Rightarrow> int \<Rightarrow> rat" where
  "sround x s = (if x < 0 then - dec_round (- x) s else dec_round x s)"

definition strunc :: "rat \<Rightarrow> int \<Rightarrow> rat" where
  "strunc x s = (if x < 0 then - dec_floor (- x) s else dec_floor x s)"

lemma dec_zero [simp]: "dec_round 0 s = 0" "dec_floor 0 s = 0"
proof -
  have "\<lfloor>1 / 2 :: rat\<rfloor> = 0" by linarith
  then show "dec_round 0 s = 0" "dec_floor 0 s = 0" by (simp_all add: dec_round_def dec_floor_def)
qed

text \<open>The two routines are called on a result that is stripped afterwards.\<close>

lemma signed_result:
  assumes "var_ok v" "nabs u = f (nabs v)" "f 0 = 0" "digits_ok (digits u)" "sign u = sign v \<or> sign u = NUMERIC_POS \<and> digits u = []"
  shows "nval (strip_var u) = (if nval v < 0 then - f (- nval v) else f (nval v))" "canonical (strip_var u)" "var_ok u" "nval u = nval (strip_var u)"
proof -
  show ok: "var_ok u" using assms by (auto simp: var_ok_def)
  then show s: "canonical (strip_var u)" "nval u = nval (strip_var u)" using strip_var_spec(2) [of u] nval_strip_var [OF ok] by (auto simp: var_ok_def)
  have "nval v < 0 \<longleftrightarrow> sign v = NUMERIC_NEG \<and> nabs v \<noteq> 0" using nabs_nonneg [OF assms(1)] by (auto simp: nval_def)
  then show "nval (strip_var u) = (if nval v < 0 then - f (- nval v) else f (nval v))"
    using assms s(2) by (auto simp: nval_def nabs_def)
qed

lemma round_signed:
  assumes "var_ok v"
  shows "nval (round_var v rs) = sround (nval v) rs" "nval (strip_var (round_var v rs)) = sround (nval v) rs" "canonical (strip_var (round_var v rs))"
    "dscale (strip_var (round_var v rs)) = rs" "var_ok (round_var v rs)"
  using signed_result [OF assms, of "round_var v rs" "\<lambda>x. dec_round x rs"] round_var_spec [OF assms, of rs] strip_var_spec(3) [of "round_var v rs"]
  by (simp_all add: sround_def var_ok_def)

lemma trunc_signed:
  assumes "var_ok v"
  shows "nval (trunc_var v rs) = strunc (nval v) rs" "nval (strip_var (trunc_var v rs)) = strunc (nval v) rs" "canonical (strip_var (trunc_var v rs))"
    "dscale (strip_var (trunc_var v rs)) = rs" "var_ok (trunc_var v rs)"
  using signed_result [OF assms, of "trunc_var v rs" "\<lambda>x. dec_floor x rs"] trunc_var_spec [OF assms, of rs] strip_var_spec(3) [of "trunc_var v rs"]
  by (simp_all add: strunc_def var_ok_def)

text \<open>A number has no more decimal digits than its display scale says.\<close>

definition scale_ok :: "NumericVar \<Rightarrow> bool" where
  "scale_ok v \<longleftrightarrow> nval v * TEN (dscale v) \<in> \<int> \<and> 0 \<le> dscale v"

lemma sround_scaled: "sround x s * TEN s \<in> \<int>"
proof -
  have "dec_round y s * TEN s \<in> \<int>" for y by (simp only: dec_round_def TEN_cancel Ints_of_int)
  then show ?thesis by (simp add: sround_def)
qed

lemma strunc_scaled: "strunc x s * TEN s \<in> \<int>"
proof -
  have "dec_floor y s * TEN s \<in> \<int>" for y by (simp only: dec_floor_def TEN_cancel Ints_of_int)
  then show ?thesis by (simp add: strunc_def)
qed

lemma sround_exact:
  assumes "x * TEN s \<in> \<int>"
  shows "sround x s = x" "strunc x s = x"
proof -
  obtain z where z: "x * TEN s = of_int z" using assms by (auto elim: Ints_cases)
  then have "(- x) * TEN s = of_int (- z)" by simp
  then show "sround x s = x" "strunc x s = x" using dec_exact [OF z] dec_exact [of "- x" s "- z"] by (auto simp: sround_def strunc_def)
qed

lemma scaled_mono:
  assumes "x * TEN s \<in> \<int>" "s \<le> t"
  shows "x * TEN t \<in> \<int>"
proof -
  have "t = s + int (nat (t - s))" using assms by simp
  then have "x * TEN t = (x * TEN s) * of_int (10 ^ nat (t - s))" by (metis TEN_add TEN_nat mult.assoc)
  then show ?thesis using assms(1) by (simp only: Ints_mult Ints_of_int)
qed

text \<open>How many digits there are behind the point.\<close>

lemma last_digit_mod: "ds \<noteq> [] \<Longrightarrow> digits_ok ds \<Longrightarrow> dval ds mod NBASE = last ds"
  by (induction ds rule: rev_induct) (auto simp: dval_append)

lemma scale_digits:
  assumes "canonical v" "scale_ok v" "digits v \<noteq> []"
  shows "4 * (ndigits v - weight v - 1) < dscale v + 4"
proof (rule ccontr)
  assume a: "\<not> 4 * (ndigits v - weight v - 1) < dscale v + 4"
  define k where "k = nat (4 * (ndigits v - weight v - 1) - dscale v - 4)"
  have k: "(weight v + 1) * 4 + dscale v - 4 * ndigits v = - int (k + 4)" using a by (simp add: k_def)
  have "nabs v * TEN (dscale v) \<in> \<int>" using assms(2) by (auto simp: scale_ok_def nval_def split: if_splits)
  then obtain z where "of_int (dval (digits v)) * TEN (- int (k + 4)) = (of_int z :: rat)" unfolding scaled_nabs k by (elim Ints_cases)
  then have "of_int (dval (digits v)) = (of_int z * of_int (10 ^ (k + 4)) :: rat)" by (metis TEN_cancel(3) TEN_nat)
  then have "dval (digits v) = z * 10 ^ (k + 4)" by (metis of_int_eq_iff of_int_mult)
  then have "dval (digits v) mod NBASE = 0" by (simp add: NBASE_def power_add)
  then show False using last_digit_mod [OF assms(3)] assms(1,3) by (simp add: canonical_def var_ok_def)
qed

end
