(* ===== verification/NumericMul.thy ===== *)
theory NumericMul
  imports NumericAdd NumericRound
begin

text \<open>
  Multiplication: the accumulator never overflows a 32-bit integer, carries are propagated in time, and when no input digits have to be ignored the
  product is the exact one, rounded.
\<close>

subsection \<open>Carries\<close>

lemma wrap32_id: "- (2 ^ 31) \<le> x \<Longrightarrow> x \<le> INT_MAX \<Longrightarrow> wrap32 x = x"
  by (simp add: wrap32_def INT_MAX_def)

lemma carry_pass_spec:
  assumes "list_all (\<lambda>d. 0 \<le> d \<and> d \<le> INT_MAX - INT_MAX div NBASE) ds" "0 \<le> c" "c \<le> INT_MAX div NBASE"
    "carry_pass ds c = (ds', c')"
  shows "digits_ok ds' \<and> length ds' = length ds \<and> dval (rev ds') + c' * NBASE ^ length ds = dval (rev ds) + c"
  using assms
proof (induction ds arbitrary: c ds' c')
  case (Cons d ds)
  define k where "k = (d + c) div NBASE"
  have b: "0 \<le> d + c" "d + c \<le> INT_MAX" using Cons.prems by auto
  then have w: "wrap32 (d + c) = d + c" by (intro wrap32_id) auto
  have k: "0 \<le> k" "k \<le> INT_MAX div NBASE" using b by (auto simp: k_def pos_imp_zdiv_nonneg_iff intro: zdiv_mono1)
  have small: "d + c < NBASE \<Longrightarrow> k = 0" using b by (simp add: k_def)
  obtain e f where p: "carry_pass ds k = (e, f)" by fastforce
  have r: "ds' = (d + c - k * NBASE) # e" "c' = f"
    using Cons.prems(4) p small by (cases "NBASE \<le> d + c"; simp add: w Let_def k_def [symmetric])+
  have "d + c - k * NBASE = (d + c) mod NBASE" by (simp add: k_def minus_div_mult_eq_mod)
  then have m: "0 \<le> d + c - k * NBASE" "d + c - k * NBASE < NBASE" by simp_all
  have ih: "digits_ok e" "length e = length ds" "dval (rev e) + f * NBASE ^ length ds = dval (rev ds) + k"
    using Cons.IH [OF _ k p] Cons.prems(1) by auto
  have "NBASE * (dval (rev e) + f * NBASE ^ length ds) = NBASE * (dval (rev ds) + k)" using ih(3) by simp
  then show ?case using r ih(1,2) m by (simp add: dval_append algebra_simps)
qed auto

lemma normalize_spec:
  assumes "list_all (\<lambda>d. 0 \<le> d \<and> d \<le> INT_MAX - INT_MAX div NBASE) dig" "dval dig < NBASE ^ length dig"
  shows "digits_ok (normalize_digits dig)" "length (normalize_digits dig) = length dig" "dval (normalize_digits dig) = dval dig"
proof -
  obtain e f where p: "carry_pass (rev dig) 0 = (e, f)" by fastforce
  have s: "digits_ok e" "length e = length dig" "dval (rev e) + f * NBASE ^ length dig = dval dig"
    using carry_pass_spec [OF _ _ _ p] assms(1) by (auto simp: INT_MAX_def NBASE_def)
  have "0 \<le> dval dig" using assms(1) by (induction dig) auto
  then have "dval (rev e) = dval dig" using no_overflow_digits [of "rev e" "length dig" f "dval dig"] s assms(2) by simp
  then show "digits_ok (normalize_digits dig)" "length (normalize_digits dig) = length dig" "dval (normalize_digits dig) = dval dig"
    using s p by (simp_all add: normalize_digits_def)
qed

subsection \<open>The accumulator\<close>

lemma dval_update: "j < length ds \<Longrightarrow> dval (ds[j := x]) = dval ds + (x - ds ! j) * NBASE ^ (length ds - 1 - j)"
  by (induction ds arbitrary: j) (auto simp: algebra_simps split: nat.splits)

lemma mul_row_spec:
  assumes "list_all (\<lambda>d. 0 \<le> d \<and> d \<le> B) dig" "B \<le> INT_MAX" "\<forall>j < i1 + n + 2. dig ! j \<le> M" "M + d1 * (NBASE - 1) \<le> B"
    "0 \<le> d1" "digits_ok ds2" "n \<le> length ds2" "i1 + n + 1 < length dig"
  shows "dval (mul_row n i1 d1 ds2 dig) = dval dig + d1 * dval (take n ds2) * NBASE ^ (length dig - 1 - (i1 + n + 1)) \<and>
    length (mul_row n i1 d1 ds2 dig) = length dig \<and> list_all (\<lambda>d. 0 \<le> d \<and> d \<le> B) (mul_row n i1 d1 ds2 dig)"
  using assms
proof (induction n arbitrary: dig)
  case (Suc n)
  let ?j = "i1 + n + 2"
  have d2: "0 \<le> ds2 ! n" "ds2 ! n \<le> NBASE - 1" using digits_ok_nth [OF Suc.prems(6), of n] Suc.prems(7) by auto
  have "d1 * ds2 ! n \<le> d1 * (NBASE - 1)" using d2 Suc.prems(5) by (intro mult_left_mono) auto
  moreover have o: "0 \<le> dig ! ?j" "dig ! ?j \<le> M" "0 \<le> d1 * ds2 ! n" using Suc.prems d2 by (auto simp: list_all_length)
  ultimately have b: "0 \<le> dig ! ?j + d1 * ds2 ! n" "dig ! ?j + d1 * ds2 ! n \<le> B" using Suc.prems(4) by auto
  then have w: "wrap32 (dig ! ?j + d1 * ds2 ! n) = dig ! ?j + d1 * ds2 ! n" using Suc.prems(2) by (intro wrap32_id) auto
  define dig' where "dig' = dig[?j := dig ! ?j + d1 * ds2 ! n]"
  have eq: "mul_row (Suc n) i1 d1 ds2 dig = mul_row n i1 d1 ds2 dig'" by (simp only: mul_row.simps w dig'_def)
  have ih: "dval (mul_row n i1 d1 ds2 dig') = dval dig' + d1 * dval (take n ds2) * NBASE ^ (length dig' - 1 - (i1 + n + 1)) \<and>
    length (mul_row n i1 d1 ds2 dig') = length dig' \<and> list_all (\<lambda>d. 0 \<le> d \<and> d \<le> B) (mul_row n i1 d1 ds2 dig')"
    by (rule Suc.IH) (use Suc.prems b in \<open>auto simp: dig'_def list_all_length nth_list_update\<close>)
  define e where "e = length dig - 1 - (i1 + n + 2)"
  have e: "length dig - 1 - (i1 + n + 1) = Suc e" "length dig - 1 - (i1 + Suc n + 1) = e" "length dig' = length dig"
    using Suc.prems(8) by (simp_all add: e_def dig'_def)
  have "dval dig' = dval dig + d1 * ds2 ! n * NBASE ^ e" using Suc.prems(8) unfolding dig'_def by (subst dval_update) (simp_all add: e_def)
  moreover have "dval (take (Suc n) ds2) = dval (take n ds2) * NBASE + ds2 ! n" using Suc.prems(7) by (simp add: take_Suc_conv_app_nth dval_append)
  ultimately show ?case using ih unfolding eq e by (simp add: algebra_simps)
qed simp

lemma mul_loop_spec:
  fixes ds1 ds2 :: "int list"
  defines "N \<equiv> length ds1 + length ds2 + 1"
  assumes ok: "digits_ok ds1" "digits_ok ds2" and k: "k \<le> length ds1"
    and dig: "length dig = N" "list_all (\<lambda>d. 0 \<le> d \<and> d \<le> maxdig * (NBASE - 1)) dig"
    and m: "0 \<le> maxdig" "maxdig \<le> (INT_MAX - INT_MAX div NBASE) div (NBASE - 1)"
    and le: "dval dig + dval (take k ds1) * dval ds2 * NBASE ^ (length ds1 - k) < NBASE ^ N"
  shows "dval (mul_loop k ds1 ds2 (int N) dig maxdig) = dval dig + dval (take k ds1) * dval ds2 * NBASE ^ (length ds1 - k) \<and>
    length (mul_loop k ds1 ds2 (int N) dig maxdig) = N \<and>
    list_all (\<lambda>d. 0 \<le> d \<and> d \<le> INT_MAX - INT_MAX div NBASE) (mul_loop k ds1 ds2 (int N) dig maxdig)"
  using k dig m le
proof (induction k arbitrary: dig maxdig)
  case 0
  have "maxdig * (NBASE - 1) \<le> INT_MAX - INT_MAX div NBASE" using "0.prems"(5) by (simp add: INT_MAX_def NBASE_def)
  then show ?case using "0.prems" by (auto simp: list_all_iff intro: order_trans)
next
  case (Suc k)
  let ?d = "ds1 ! k" and ?L = "(INT_MAX - INT_MAX div NBASE) div (NBASE - 1)"
  have d: "0 \<le> ?d" "?d < NBASE" using digits_ok_nth [OF ok(1), of k] Suc.prems(1) by auto
  have step: "dval (take (Suc k) ds1) * dval ds2 * NBASE ^ (length ds1 - Suc k) =
      dval (take k ds1) * dval ds2 * NBASE ^ (length ds1 - k) + ?d * dval ds2 * NBASE ^ (length ds1 - Suc k)"
    using Suc.prems(1) by (simp add: take_Suc_conv_app_nth dval_append Suc_diff_Suc [symmetric] algebra_simps)
  show ?case
  proof (cases "?d = 0")
    case True
    then have eq: "mul_loop (Suc k) ds1 ds2 (int N) dig maxdig = mul_loop k ds1 ds2 (int N) dig maxdig" by simp
    have z: "?d * dval ds2 * NBASE ^ (length ds1 - Suc k) = 0" using True by simp
    show ?thesis unfolding eq step z using Suc.IH [of dig maxdig] Suc.prems(1-5) Suc.prems(6) [unfolded step z] by simp
  next
    case False
    define norm where "norm = (maxdig + ?d > ?L)"
    define dig1 where "dig1 = (if norm then normalize_digits dig else dig)"
    define max0 where "max0 = (if norm then 1 else maxdig)"
    have pos: "0 \<le> dval (take k ds1) * dval ds2 * NBASE ^ (length ds1 - k)" "0 \<le> ?d * dval ds2 * NBASE ^ (length ds1 - Suc k)"
      using dval_nonneg [OF ok(2)] dval_nonneg [OF digits_ok_part(1) [OF ok(1)], of k] d by (auto intro!: mult_nonneg_nonneg)
    have "maxdig * (NBASE - 1) \<le> INT_MAX - INT_MAX div NBASE" using Suc.prems(5) by (simp add: INT_MAX_def NBASE_def)
    then have all: "list_all (\<lambda>d. 0 \<le> d \<and> d \<le> INT_MAX - INT_MAX div NBASE) dig" using Suc.prems(3) by (auto simp: list_all_iff)
    have n: "digits_ok (normalize_digits dig)" "length (normalize_digits dig) = N" "dval (normalize_digits dig) = dval dig"
      using normalize_spec [OF all] Suc.prems(2,6) pos step by auto
    have d1: "length dig1 = N" "dval dig1 = dval dig" "list_all (\<lambda>d. 0 \<le> d \<and> d \<le> max0 * (NBASE - 1)) dig1" "0 \<le> max0"
      using n Suc.prems(2-4) by (auto simp: dig1_def max0_def digits_ok_def list_all_iff)
    have m1: "max0 + ?d \<le> ?L" using d by (auto simp: max0_def norm_def INT_MAX_def NBASE_def)
    then have mb: "(max0 + ?d) * (NBASE - 1) \<le> INT_MAX" by (simp add: INT_MAX_def NBASE_def)
    define dig2 where "dig2 = mul_row (length ds2) k ?d ds2 dig1"
    have "nat (min (int (length ds2) - 1) (int N - int k - 3) + 1) = length ds2" using Suc.prems(1) by (simp add: N_def)
    then have eq: "mul_loop (Suc k) ds1 ds2 (int N) dig maxdig = mul_loop k ds1 ds2 (int N) dig2 (max0 + ?d)"
      using False by (simp add: Let_def dig2_def dig1_def max0_def norm_def)
    have "dval dig2 = dval dig1 + ?d * dval (take (length ds2) ds2) * NBASE ^ (length dig1 - 1 - (k + length ds2 + 1)) \<and>
      length dig2 = length dig1 \<and> list_all (\<lambda>d. 0 \<le> d \<and> d \<le> (max0 + ?d) * (NBASE - 1)) dig2"
      unfolding dig2_def
    proof (rule mul_row_spec [where M = "max0 * (NBASE - 1)"])
      have "0 \<le> ?d * (NBASE - 1)" using d by simp
      then have "max0 * (NBASE - 1) \<le> (max0 + ?d) * (NBASE - 1)" by (simp add: distrib_right)
      then show "list_all (\<lambda>d. 0 \<le> d \<and> d \<le> (max0 + ?d) * (NBASE - 1)) dig1" using d1(3) by (simp only: list_all_iff) (blast intro: order_trans)
      show "\<forall>j < k + length ds2 + 2. dig1 ! j \<le> max0 * (NBASE - 1)"
        using d1(1,3) Suc.prems(1) by (auto simp: list_all_length N_def)
    qed (use d d1 mb ok Suc.prems(1) in \<open>simp_all add: N_def distrib_right\<close>)
    moreover have "length dig1 - 1 - (k + length ds2 + 1) = length ds1 - Suc k" using d1(1) by (simp add: N_def)
    ultimately have r: "dval dig2 = dval dig + ?d * dval ds2 * NBASE ^ (length ds1 - Suc k)" "length dig2 = N"
      "list_all (\<lambda>d. 0 \<le> d \<and> d \<le> (max0 + ?d) * (NBASE - 1)) dig2"
      using d1 by auto
    show ?thesis unfolding eq step using Suc.IH [of dig2 "max0 + ?d"] r m1 d d1(4) Suc.prems(1,6) step by (simp add: algebra_simps)
  qed
qed

subsection \<open>The product\<close>

definition mul_fits :: "NumericVar \<Rightarrow> NumericVar \<Rightarrow> int \<Rightarrow> bool" where
  "mul_fits v1 v2 rscale \<longleftrightarrow> ndigits v1 + ndigits v2 + 1 \<le> weight v1 + weight v2 + 3 + (rscale + 3) sdiv 4 + 2"

lemma mul_digits:
  assumes "digits_ok ds1" "digits_ok ds2"
  defines "N \<equiv> length ds1 + length ds2 + 1"
  defines "r \<equiv> normalize_digits (mul_loop (length ds1) ds1 ds2 (int N) (replicate N 0) 0)"
  shows "digits_ok r" "length r = N" "dval r = dval ds1 * dval ds2"
proof -
  have "dval ds1 * dval ds2 \<le> NBASE ^ length ds1 * NBASE ^ length ds2"
    using dval_less [OF assms(1)] dval_less [OF assms(2)] dval_nonneg [OF assms(1)] dval_nonneg [OF assms(2)] by (intro mult_mono) simp_all
  moreover have "NBASE ^ (length ds1 + length ds2) < NBASE ^ N" by (rule power_strict_increasing) (simp_all add: N_def)
  ultimately have lt: "dval ds1 * dval ds2 < NBASE ^ N" by (simp add: power_add)
  let ?m = "mul_loop (length ds1) ds1 ds2 (int N) (replicate N 0) 0"
  have "dval ?m = dval ds1 * dval ds2 \<and> length ?m = N \<and> list_all (\<lambda>d. 0 \<le> d \<and> d \<le> INT_MAX - INT_MAX div NBASE) ?m"
  proof -
    have l: "list_all (\<lambda>d. 0 \<le> d \<and> d \<le> 0 * (NBASE - 1)) (replicate N 0)" "0 \<le> (INT_MAX - INT_MAX div NBASE) div (NBASE - 1)"
      by (simp_all add: list_all_iff INT_MAX_def NBASE_def)
    show ?thesis using mul_loop_spec [OF assms(1,2), of "length ds1" "replicate N 0" 0, folded N_def] l lt by simp
  qed
  then show "digits_ok r" "length r = N" "dval r = dval ds1 * dval ds2" using normalize_spec [of ?m] lt by (simp_all add: r_def)
qed

lemma mul_var_ordered:
  assumes "var_ok v1" "var_ok v2" "mul_fits v1 v2 rs" "ndigits v1 \<le> ndigits v2" "digits v1 \<noteq> []"
  shows "nval (mul_var v1 v2 rs) = sround (nval v1 * nval v2) rs \<and> canonical (mul_var v1 v2 rs) \<and> dscale (mul_var v1 v2 rs) = rs"
proof -
  let ?N = "length (digits v1) + length (digits v2) + 1"
  have ok: "digits_ok (digits v1)" "digits_ok (digits v2)" using assms by (auto simp: var_ok_def)
  define r where "r = normalize_digits (mul_loop (length (digits v1)) (digits v1) (digits v2) (int ?N) (replicate ?N 0) 0)"
  note r = mul_digits [OF ok, folded r_def]
  let ?u = "\<lparr>weight = weight v1 + weight v2 + 2, sign = (if sign v1 = sign v2 then NUMERIC_POS else NUMERIC_NEG), dscale = 0, digits = r\<rparr>"
  have ne: "digits v2 \<noteq> []" "1 \<le> length (digits v1)" "1 \<le> length (digits v2)" using assms(4,5) by (auto simp: Suc_le_eq)
  have N: "int ?N = ndigits v1 + ndigits v2 + 1" "nat (int ?N) = ?N" "3 \<le> int ?N" "nat (min (ndigits v1 - 1) (int ?N - 3) + 1) = length (digits v1)" using ne by auto
  have "min (ndigits v1 + ndigits v2 + 1) (weight v1 + weight v2 + 2 + 1 + (rs + DEC_DIGITS - 1) sdiv DEC_DIGITS + MUL_GUARD_DIGITS) = int ?N"
  proof -
    have e: "rs + 4 - 1 = rs + 3" "DEC_DIGITS = 4" "MUL_GUARD_DIGITS = 2" by (simp_all add: DEC_DIGITS_def MUL_GUARD_DIGITS_def)
    define q where "q = (rs + 3) sdiv 4"
    show ?thesis using assms(3) unfolding mul_fits_def e q_def [symmetric] by simp
  qed
  then have eq: "mul_var v1 v2 rs = strip_var (round_var ?u rs)"
    using assms(4,5) ne(1) N unfolding mul_var_def Let_def r_def by simp
  have u: "var_ok ?u" using r(1) by (simp add: var_ok_def)
  have "weight v1 + weight v2 + 2 + 1 - int (length r) = (weight v1 + 1 - ndigits v1) + (weight v2 + 1 - ndigits v2)" using r(2) by simp
  then have p: "NB powi (weight v1 + weight v2 + 2 + 1 - int (length r)) = NB powi (weight v1 + 1 - ndigits v1) * NB powi (weight v2 + 1 - ndigits v2)"
    by (simp only: NB_powi_add)
  have "nabs ?u = nabs v1 * nabs v2" unfolding nabs_def rval_dval NumericVar.simps p r(3) by simp
  then have "nval ?u = nval v1 * nval v2" using assms(1,2) by (cases "sign v1"; cases "sign v2") (auto simp: nval_def nabs_def var_ok_def)
  then show ?thesis using round_signed [OF u, of rs] by (simp add: eq)
qed

lemma mul_var_zero:
  assumes "digits v1 = [] \<or> digits v2 = []"
  shows "nval (mul_var v1 v2 rs) = 0" "nval v1 * nval v2 = 0" "canonical (mul_var v1 v2 rs)" "dscale (mul_var v1 v2 rs) = rs"
  using assms by (auto simp: mul_var_def const_zero_def nval_def nabs_def canonical_def var_ok_def Let_def)

lemma mul_var_spec:
  assumes "var_ok v1" "var_ok v2" "mul_fits v1 v2 rs"
  shows "nval (mul_var v1 v2 rs) = sround (nval v1 * nval v2) rs \<and> canonical (mul_var v1 v2 rs) \<and> dscale (mul_var v1 v2 rs) = rs"
proof (cases "digits v1 = [] \<or> digits v2 = []")
  case True
  show ?thesis unfolding mul_var_zero(2) [OF True] using mul_var_zero(1,3,4) [OF True] by (simp add: sround_def)
next
  case False
  show ?thesis
  proof (cases "ndigits v1 \<le> ndigits v2")
    case True
    then show ?thesis using mul_var_ordered [OF assms] False by simp
  next
    case swap: False
    then have "mul_var v1 v2 rs = mul_var v2 v1 rs" by (simp add: mul_var_def)
    moreover have "mul_fits v2 v1 rs" using assms(3) by (simp add: mul_fits_def add.commute)
    ultimately show ?thesis using mul_var_ordered [OF assms(2,1)] swap False by (simp add: mult.commute)
  qed
qed

text \<open>With the sum of the display scales nothing is lost.\<close>

lemma fraction_digits:
  fixes a b s t r :: int
  assumes "4 * a < s + 4" "4 * b < t + 4" "s + t \<le> r"
  shows "a + b \<le> (r + 3) div 4 + 1"
  using assms by linarith

lemma mul_fits_scales:
  assumes "canonical v1" "scale_ok v1" "canonical v2" "scale_ok v2" "digits v1 \<noteq> []" "digits v2 \<noteq> []" "dscale v1 + dscale v2 \<le> rs"
  shows "mul_fits v1 v2 rs"
proof -
  have "(rs + 3) sdiv 4 = (rs + 3) div 4" using assms by (simp add: scale_ok_def signed_divide_int_def)
  moreover have "4 * (ndigits v1 - weight v1 - 1) < dscale v1 + 4" "4 * (ndigits v2 - weight v2 - 1) < dscale v2 + 4"
    using scale_digits assms by auto
  ultimately show ?thesis
    using fraction_digits [of "ndigits v1 - weight v1 - 1" "dscale v1" "ndigits v2 - weight v2 - 1" "dscale v2" rs] assms(7) by (simp add: mul_fits_def)
qed

lemma mul_var_exact:
  assumes "canonical v1" "scale_ok v1" "canonical v2" "scale_ok v2" "dscale v1 + dscale v2 \<le> rs"
  shows "nval (mul_var v1 v2 rs) = nval v1 * nval v2 \<and> canonical (mul_var v1 v2 rs) \<and> dscale (mul_var v1 v2 rs) = rs \<and> scale_ok (mul_var v1 v2 rs)"
proof (cases "digits v1 = [] \<or> digits v2 = []")
  case True
  show ?thesis unfolding mul_var_zero(2) [OF True] using mul_var_zero(1,3,4) [OF True] assms by (simp add: scale_ok_def)
next
  case False
  have "nval v1 * nval v2 * TEN (dscale v1 + dscale v2) = (nval v1 * TEN (dscale v1)) * (nval v2 * TEN (dscale v2))" by (simp add: TEN_add)
  also have "\<dots> \<in> \<int>" using assms(2,4) by (simp only: scale_ok_def Ints_mult)
  finally have "nval v1 * nval v2 * TEN rs \<in> \<int>" by (rule scaled_mono [OF _ assms(5)])
  then show ?thesis using mul_var_spec [OF _ _ mul_fits_scales [OF assms(1-4) _ _ assms(5)]] False assms sround_exact
    by (simp add: canonical_var_ok scale_ok_def)
qed

end
