(* ===== verification/NumericDiv.thy ===== *)
theory NumericDiv
  imports NumericMul
begin

text \<open>
  Long division with estimated quotient digits (Knuth's Algorithm D): every digit is the right one, so that the quotient is rounded or truncated
  exactly.
\<close>

subsection \<open>The estimate of a quotient digit\<close>

lemma shift_le: "a \<le> b \<Longrightarrow> 0 \<le> c \<Longrightarrow> a * NBASE \<le> b * NBASE + c"
  by (simp add: NBASE_def)

lemma adjust_qhat_spec:
  fixes W V P :: int
  assumes W: "W < (next2 * NBASE + u2 + 1) * P" and V: "(v1 * NBASE + v2) * P \<le> V" and q: "W div V \<le> qhat" "0 \<le> W" "0 < V" and P: "0 < P"
    and n: "0 \<le> next2" "0 \<le> u2"
  shows "W div V \<le> adjust_qhat v1 v2 next2 u2 qhat \<and> adjust_qhat v1 v2 next2 u2 qhat \<le> qhat \<and>
    adjust_qhat v1 v2 next2 u2 qhat * (v1 * NBASE + v2) \<le> next2 * NBASE + u2"
  using q(1)
proof (induction "nat qhat" arbitrary: qhat rule: less_induct)
  case less
  have q0: "0 \<le> W div V" using q by (simp add: pos_imp_zdiv_nonneg_iff)
  show ?case
  proof (cases "0 < qhat \<and> v2 * qhat > (next2 - qhat * v1) * NBASE + u2")
    case True
    then have t: "next2 * NBASE + u2 + 1 \<le> qhat * (v1 * NBASE + v2)" by (simp add: algebra_simps)
    have "W < (next2 * NBASE + u2 + 1) * P" by (rule W)
    also have "\<dots> \<le> qhat * (v1 * NBASE + v2) * P" using t P by (intro mult_right_mono) simp_all
    also have "\<dots> \<le> qhat * V" using V True by (simp add: mult.assoc)
    finally have "W div V < qhat" using q(3) by (simp add: unit_div_less mult.commute)
    then have "W div V \<le> qhat - 1" by simp
    from less.hyps [OF _ this] show ?thesis using True by (subst (1 2 3) adjust_qhat.simps) auto
  next
    case False
    have "qhat * (v1 * NBASE + v2) \<le> next2 * NBASE + u2"
    proof (cases "0 < qhat")
      case True
      then show ?thesis using False by (simp add: algebra_simps)
    next
      case False
      then have "qhat = 0" using less.prems q0 by simp
      then show ?thesis using n by simp
    qed
    then show ?thesis using False less.prems by (subst (1 2 3) adjust_qhat.simps) auto
  qed
qed

text \<open>After the correction the estimate is the quotient digit or one more.\<close>

lemma qhat_close:
  fixes W V P :: int
  assumes "qhat * (v1 * NBASE + v2) \<le> x" "x * P \<le> W" "V < (v1 * NBASE + v2 + 1) * P" "NBASE * P \<le> V" "qhat \<le> NBASE" "0 \<le> qhat" "0 < P"
  shows "qhat \<le> W div V + 1"
proof -
  have "qhat * V \<le> qhat * ((v1 * NBASE + v2 + 1) * P)" using assms by (intro mult_left_mono) simp_all
  also have "\<dots> = qhat * (v1 * NBASE + v2) * P + qhat * P" by (simp add: algebra_simps)
  also have "\<dots> \<le> x * P + NBASE * P" using assms by (intro add_mono mult_right_mono) simp_all
  also have "\<dots> \<le> W + V" using assms by simp
  finally have "(qhat - 1) * V \<le> W" by (simp add: left_diff_distrib)
  moreover have "0 < V" using assms(4,7) by (meson NBASE_facts(1) less_le_trans mult_pos_pos)
  ultimately have "qhat - 1 \<le> W div V" using unit_le_div by blast
  then show ?thesis by simp
qed

subsection \<open>Subtracting and adding back\<close>

lemma digit_combine:
  fixes a b x y N :: int
  assumes "0 \<le> a" "a < NBASE" "0 \<le> N"
  shows "(a + NBASE * x) mod (NBASE * NBASE ^ k) = a + NBASE * (x mod NBASE ^ k)"
  using assms by (subst zmod_zmult2_eq) (simp_all add: algebra_simps)

lemma borrow_digit:
  fixes b r u N :: int
  assumes "- 1 \<le> b" "b \<le> 0" "0 \<le> r" "r < N" "0 \<le> u" "u < N"
  shows "0 \<le> (b - r + u) - (if b - r + u < 0 then - 1 else 0) * N" "(b - r + u) - (if b - r + u < 0 then - 1 else 0) * N < N"
  using assms by auto

lemma mul_sub_spec:
  assumes "digits_ok us" "length vs = length us" "- 1 \<le> b" "b \<le> 0" "mul_sub q vs us c b = (w, b')"
  shows "digits_ok w \<and> length w = length us \<and> - 1 \<le> b' \<and> b' \<le> 0 \<and>
    dval (rev w) + b' * NBASE ^ length us = dval (rev us) + b - (q * dval (rev vs) + c) mod NBASE ^ length us"
  using assms
proof (induction vs us arbitrary: b c w b' rule: list_induct2')
  case (4 v vs u us)
  define c0 where "c0 = c + v * q"
  define s where "s = b - c0 mod NBASE + u"
  define b1 where "b1 = (if s < 0 then - 1 else 0 :: int)"
  have m: "0 \<le> c0 mod NBASE" "c0 mod NBASE < NBASE" by simp_all
  have u: "0 \<le> u" "u < NBASE" using "4.prems"(1) by simp_all
  have s: "0 \<le> s - b1 * NBASE" "s - b1 * NBASE < NBASE"
    using borrow_digit [OF "4.prems"(3,4) m u] by (simp_all only: s_def [symmetric] b1_def [symmetric])
  obtain e f where p: "mul_sub q vs us (c0 div NBASE) b1 = (e, f)" by fastforce
  have w: "w = (s - b1 * NBASE) # e" "b' = f"
    using "4.prems"(5) p by (auto simp: Let_def c0_def [symmetric] s_def b1_def split: if_splits)
  have ih: "digits_ok e" "length e = length us" "- 1 \<le> f" "f \<le> 0"
    "dval (rev e) + f * NBASE ^ length us = dval (rev us) + b1 - (q * dval (rev vs) + c0 div NBASE) mod NBASE ^ length us"
    using "4.IH" [OF _ _ _ _ p] "4.prems" by (auto simp: b1_def)
  have l: "length vs = length us" using "4.prems"(2) by simp
  have "c0 = c0 mod NBASE + NBASE * (c0 div NBASE)" by simp
  then have "q * dval (rev (v # vs)) + c = c0 mod NBASE + NBASE * (q * dval (rev vs) + c0 div NBASE)"
    by (simp add: dval_append algebra_simps c0_def)
  then have mm: "(q * dval (rev (v # vs)) + c) mod NBASE ^ length (u # us) = c0 mod NBASE + NBASE * ((q * dval (rev vs) + c0 div NBASE) mod NBASE ^ length us)"
    using digit_combine [OF m, of 0] by simp
  have "NBASE * (dval (rev e) + f * NBASE ^ length us) = NBASE * (dval (rev us) + b1 - (q * dval (rev vs) + c0 div NBASE) mod NBASE ^ length us)" using ih(5) by simp
  then show ?case unfolding mm using w ih(1-4) s by (simp add: dval_append s_def algebra_simps)
qed auto

lemma add_back_spec:
  assumes "digits_ok us" "digits_ok vs" "length vs = length us" "0 \<le> c" "c \<le> 1"
  shows "digits_ok (add_back vs us c) \<and> length (add_back vs us c) = length us \<and>
    dval (rev (add_back vs us c)) = (dval (rev us) + dval (rev vs) + c) mod NBASE ^ length us"
  using assms
proof (induction vs us arbitrary: c rule: list_induct2')
  case (4 v vs u us)
  define s where "s = c + u + v"
  define c1 where "c1 = (if s \<ge> NBASE then 1 else 0 :: int)"
  have s: "0 \<le> s - c1 * NBASE" "s - c1 * NBASE < NBASE" using "4.prems" by (auto simp: s_def c1_def)
  have eq: "add_back (v # vs) (u # us) c = (s - c1 * NBASE) # add_back vs us c1" by (simp add: Let_def s_def c1_def)
  have ih: "digits_ok (add_back vs us c1)" "length (add_back vs us c1) = length us"
    "dval (rev (add_back vs us c1)) = (dval (rev us) + dval (rev vs) + c1) mod NBASE ^ length us"
    using "4.IH" [of c1] "4.prems" by (auto simp: c1_def)
  have "dval (rev (u # us)) + dval (rev (v # vs)) + c = (s - c1 * NBASE) + NBASE * (dval (rev us) + dval (rev vs) + c1)"
    using "4.prems"(3) by (simp add: dval_append s_def algebra_simps)
  then have "(dval (rev (u # us)) + dval (rev (v # vs)) + c) mod NBASE ^ length (u # us) = (s - c1 * NBASE) + NBASE * dval (rev (add_back vs us c1))"
    using digit_combine [OF s, of 0] ih(3) by simp
  then show ?case using ih(1,2) s unfolding eq by (simp add: dval_append algebra_simps)
qed auto

subsection \<open>One quotient digit\<close>

lemma qhat_spec:
  fixes u0 u1 u2 v1 v2 P W V r s :: int
  assumes u: "0 \<le> u0" "0 \<le> u1" "u1 < NBASE" "0 \<le> u2" and v: "1 \<le> v1" "0 \<le> v2" "v2 < NBASE"
    and P: "0 < P" and r: "0 \<le> r" "r < P" and s: "0 \<le> s" "s < P"
  defines "next2 \<equiv> u0 * NBASE + u1"
  assumes W: "W = (next2 * NBASE + u2) * P + r" and V: "V = (v1 * NBASE + v2) * P + s" and lt: "W < V * NBASE" and u2: "u2 < NBASE"
  defines "q \<equiv> adjust_qhat v1 v2 next2 u2 (if u0 = v1 then NBASE - 1 else next2 div v1)"
  shows "W div V \<le> q \<and> q \<le> W div V + 1 \<and> q < NBASE"
proof -
  have n: "0 \<le> next2" using u by (simp add: next2_def)
  have Vb: "(v1 * NBASE + v2) * P \<le> V" "V < (v1 * NBASE + v2 + 1) * P" using V s by (simp_all add: distrib_right)
  have Wb: "(next2 * NBASE + u2) * P \<le> W" "W < (next2 * NBASE + u2 + 1) * P" using W r by (simp_all add: distrib_right)
  have "v1 * NBASE * P \<le> (v1 * NBASE + v2) * P" using v P by (intro mult_right_mono) simp_all
  then have V1: "v1 * (NBASE * P) \<le> V" using Vb(1) by (simp add: mult.assoc)
  have "NBASE * P \<le> v1 * (NBASE * P)" using v P by simp
  then have VN: "NBASE * P \<le> V" using V1 by (rule order_trans)
  have "next2 * NBASE * P \<le> (next2 * NBASE + u2) * P" using u P by (intro mult_right_mono) simp_all
  then have Wn: "next2 * (NBASE * P) \<le> W" using Wb(1) by (simp only: mult.assoc [symmetric])
  have V0: "0 < V" using VN P by (meson NBASE_facts(1) less_le_trans mult_pos_pos)
  have W0: "0 \<le> W" using Wb(1) n u P by (meson NBASE_facts(4) add_nonneg_nonneg mult_nonneg_nonneg order_trans less_imp_le)
  have qlt: "W div V < NBASE" using unit_div_less [OF V0 lt] .
  have W1: "W < (next2 + 1) * (NBASE * P)"
  proof -
    have "(next2 * NBASE + u2 + 1) * P \<le> ((next2 + 1) * NBASE) * P" using u2 P by (intro mult_right_mono) (simp_all add: distrib_right)
    then show ?thesis using Wb(2) by (simp add: mult.assoc)
  qed
  have q0: "0 \<le> W div V" using W0 V0 by (simp add: pos_imp_zdiv_nonneg_iff)
  define Q where "Q = (if u0 = v1 then NBASE - 1 else next2 div v1)"
  have Q: "W div V \<le> Q" "Q < NBASE"
  proof -
    have "u0 \<le> v1"
    proof (rule ccontr)
      assume "\<not> u0 \<le> v1"
      then have "(v1 + 1) * NBASE \<le> next2" using u shift_le [of "v1 + 1" u0 u1] by (simp add: next2_def)
      then have "(v1 + 1) * NBASE * (NBASE * P) \<le> next2 * (NBASE * P)" using P by (intro mult_right_mono) simp_all
      also have "\<dots> \<le> W" by (rule Wn)
      also have "\<dots> < V * NBASE" by (rule lt)
      also have "\<dots> < ((v1 * NBASE + v2 + 1) * P) * NBASE" using Vb(2) by simp
      also have "\<dots> \<le> ((v1 + 1) * NBASE * P) * NBASE" using v P by (intro mult_right_mono) (simp_all add: distrib_right)
      finally show False by (simp add: algebra_simps)
    qed
    moreover have "W div V \<le> next2 div v1"
    proof (rule unit_le_div)
      have "W div V * (v1 * (NBASE * P)) \<le> W div V * V" using V1 q0 by (rule mult_left_mono)
      also have "\<dots> \<le> W" using unit_div_le [OF V0, of W] by (simp add: mult.commute)
      also have "\<dots> < (next2 + 1) * (NBASE * P)" by (rule W1)
      finally have "W div V * v1 * (NBASE * P) < (next2 + 1) * (NBASE * P)" by (simp add: mult.assoc)
      then have "W div V * v1 < next2 + 1" using P by (simp add: mult_less_cancel_right)
      then show "W div V * v1 \<le> next2" by simp
    qed (use v in simp)
    moreover have "next2 div v1 < NBASE" if "u0 < v1"
    proof (rule unit_div_less)
      have "(u0 + 1) * NBASE \<le> v1 * NBASE" using that by (intro mult_right_mono) simp_all
      then show "next2 < v1 * NBASE" using u(3) by (simp add: next2_def distrib_right)
    qed (use v in simp)
    ultimately show "W div V \<le> Q" "Q < NBASE" using qlt by (auto simp: Q_def)
  qed
  have a: "W div V \<le> q \<and> q \<le> Q \<and> q * (v1 * NBASE + v2) \<le> next2 * NBASE + u2"
    unfolding q_def Q_def [symmetric] by (rule adjust_qhat_spec [OF Wb(2) Vb(1) Q(1) W0 V0 P n u(4)])
  moreover have "q \<le> W div V + 1"
    by (rule qhat_close [OF _ Wb(1) Vb(2) VN _ _ P]) (use a Q q0 in auto)
  ultimately show ?thesis using Q(2) by simp
qed

lemma div_mod_unique:
  fixes W V q r :: int
  assumes "W = q * V + r" "0 \<le> r" "r < V"
  shows "W div V = q" "W mod V = r"
  using assms by simp_all

lemma div_step_spec:
  assumes vs: "digits_ok vs" "vs = v1 # v2 # vl" "v1 \<noteq> 0" and D: "digits_ok D" "length vs < length D"
  defines "V \<equiv> dval vs" and "n \<equiv> length vs + 1"
  defines "W \<equiv> dval (take n D)"
  assumes lt: "W < V * NBASE"
  shows "\<exists>us. div_step (0 # vs) D = (W div V, us @ drop n D) \<and> digits_ok us \<and> length us = n \<and> dval us = W mod V \<and>
    0 \<le> W div V \<and> W div V < NBASE"
proof -
  obtain u0 u1 u2 ul where t: "take n D = u0 # u1 # u2 # ul" "length ul = length vl"
  proof -
    have "length (take n D) = length vl + 3" using D vs(2) by (simp add: n_def)
    then show thesis using that by (cases "take n D" rule: remdups_adj.cases; auto simp: length_Suc_conv numeral_3_eq_3)
  qed
  have ok: "digits_ok (u0 # u1 # u2 # ul)" using digits_ok_part(1) [OF D(1), of n] t by simp
  have nth: "D ! 0 = u0" "D ! 1 = u1" "D ! 2 = u2"
    using t(1) D(2) nth_take [of 0 n D] nth_take [of 1 n D] nth_take [of 2 n D] vs(2) by (simp_all add: n_def)
  let ?P = "NBASE ^ length vl" and ?next2 = "u0 * NBASE + u1"
  have W: "W = (?next2 * NBASE + u2) * ?P + dval ul" unfolding W_def t(1) using t(2) by (simp add: algebra_simps)
  have V: "V = (v1 * NBASE + v2) * ?P + dval vl" unfolding V_def vs(2) by (simp add: algebra_simps)
  have okv: "digits_ok vl" "digits_ok ul" using vs ok by simp_all
  have b: "0 \<le> dval ul" "dval ul < ?P" "0 \<le> dval vl" "dval vl < ?P"
    using dval_nonneg [OF okv(1)] dval_less [OF okv(1)] dval_nonneg [OF okv(2)] dval_less [OF okv(2)] t(2) by simp_all
  have P: "0 < ?P" by simp
  have v: "1 \<le> v1" "0 \<le> v2" "v2 < NBASE" using vs by simp_all
  have u: "0 \<le> u0" "0 \<le> u1" "u1 < NBASE" "0 \<le> u2" "u2 < NBASE" using ok by simp_all
  have W0: "0 \<le> W" using dval_nonneg [OF digits_ok_part(1) [OF D(1)]] by (simp add: W_def)
  have VN: "NBASE * ?P \<le> V"
  proof -
    have "1 * NBASE \<le> v1 * NBASE + v2" using v by (intro shift_le)
    then have "NBASE * ?P \<le> (v1 * NBASE + v2) * ?P" by (intro mult_right_mono) simp_all
    then show ?thesis unfolding V by (rule add_increasing2 [OF b(3)])
  qed
  then have V0: "0 < V" using P by (meson NBASE_facts(1) less_le_trans mult_pos_pos)
  have bnd: "0 \<le> W div V" "W div V < NBASE" "0 \<le> W mod V" "W mod V < V"
    using W0 V0 unit_div_less [OF V0 lt] by (simp_all add: pos_imp_zdiv_nonneg_iff)
  have len: "length (take n D) = n" using D by (simp add: n_def)
  define q where "q = adjust_qhat v1 v2 ?next2 u2 (if u0 = v1 then NBASE - 1 else ?next2 div v1)"
  have vnth: "(0 # vs) ! 1 = v1" "(0 # vs) ! 2 = v2" "length (0 # vs) = n" using vs(2) by (simp_all add: n_def)
  note step = div_step_def [of "0 # vs" D, unfolded Let_def nth vnth, folded q_def]
  have keep: "W div V = 0 \<Longrightarrow> ?thesis" if "div_step (0 # vs) D = (0, D)"
    using that bnd digits_ok_part(1) [OF D(1), of n] len W_def div_mult_mod_eq [of W V] by (intro exI [of _ "take n D"]) simp
  show ?thesis
  proof (cases "?next2 = 0")
    case True
    have "(u2 + 1) * ?P \<le> NBASE * ?P" using u by (intro mult_right_mono) simp_all
    then have "W < V" using W True b VN by (simp add: distrib_right)
    then show ?thesis using keep True W0 by (simp add: step)
  next
    case False
    have q: "W div V \<le> q" "q \<le> W div V + 1" "q < NBASE"
      using qhat_spec [OF u(1-4) v P b W V lt u(5)] by (simp_all add: q_def)
    show ?thesis
    proof (cases "0 < q")
      case False
      then have "W div V = 0" "q = 0" using q bnd by simp_all
      then show ?thesis using keep \<open>?next2 \<noteq> 0\<close> by (simp add: step)
    next
      case True
      obtain w b' where ms: "mul_sub q (rev (0 # vs)) (rev (take n D)) 0 0 = (w, b')" by fastforce
      have l: "length (rev (0 # vs)) = length (rev (take n D))" using len by (simp add: n_def)
      have okD: "digits_ok (rev (take n D))" using digits_ok_part(1) [OF D(1)] by simp
      have "q * V < NBASE ^ n"
      proof -
        have "q * V \<le> NBASE * V" using q(3) V0 by (intro mult_right_mono) simp_all
        also have "\<dots> < NBASE * NBASE ^ length vs" using dval_less [OF vs(1)] by (simp add: V_def)
        finally show ?thesis by (simp add: n_def)
      qed
      moreover have "0 \<le> q * V" using True V0 by simp
      ultimately have w: "digits_ok w" "length w = n" "- 1 \<le> b'" "b' \<le> 0" "dval (rev w) + b' * NBASE ^ n = W - q * V"
        using mul_sub_spec [OF okD l _ _ ms] len by (simp_all add: W_def V_def)
      have w2: "0 \<le> dval (rev w)" "dval (rev w) < NBASE ^ n" using dval_nonneg [of "rev w"] dval_less [of "rev w"] w by simp_all
      have VB: "V < NBASE ^ n"
      proof -
        have "NBASE ^ length vs < NBASE ^ n" by (rule power_strict_increasing) (simp_all add: n_def)
        then show ?thesis using dval_less [OF vs(1)] by (simp only: V_def)
      qed
      define qf where "qf = (if b' \<noteq> 0 then q - 1 else q)"
      define uf where "uf = (if b' \<noteq> 0 then add_back (rev (0 # vs)) w 0 else w)"
      have eq: "div_step (0 # vs) D = (qf, rev uf @ drop n D)"
        unfolding step ms using \<open>?next2 \<noteq> 0\<close> True by (simp add: qf_def uf_def)
      have Wq: "W - W div V * V = W mod V" by (simp add: minus_div_mult_eq_mod)
      consider "q = W div V" | "q = W div V + 1" using q by linarith
      then have "qf = W div V \<and> digits_ok uf \<and> length uf = n \<and> dval (rev uf) = W mod V"
      proof cases
        case 1
        then have "dval (rev w) + b' * NBASE ^ n = W mod V" using w(5) Wq by simp
        moreover have "b' \<noteq> - 1"
        proof
          assume "b' = - 1"
          then have "dval (rev w) = W mod V + NBASE ^ n" using calculation by simp
          then show False using w2(2) bnd(3) by linarith
        qed
        ultimately have "b' = 0" using w(3,4) by linarith
        then show ?thesis using 1 w \<open>dval (rev w) + b' * NBASE ^ n = W mod V\<close> by (simp add: qf_def uf_def)
      next
        case 2
        then have s: "dval (rev w) + b' * NBASE ^ n = W mod V - V" using w(5) Wq by (simp only: distrib_right mult_1)
        then have b': "b' = -1" using w(3,4) w2 bnd by (cases "b' = 0") auto
        have "digits_ok (add_back (rev (0 # vs)) w 0) \<and> length (add_back (rev (0 # vs)) w 0) = n \<and>
            dval (rev (add_back (rev (0 # vs)) w 0)) = (dval (rev w) + V + 0) mod NBASE ^ n"
          using add_back_spec [of w "rev (0 # vs)" 0] w(1,2) vs(1) by (simp add: V_def n_def)
        moreover have "dval (rev w) + V + 0 = W mod V + NBASE ^ n" using s b' by simp
        ultimately show ?thesis using 2 b' bnd VB by (simp add: qf_def uf_def)
      qed
      then show ?thesis using eq bnd by (intro exI [of _ "rev uf"]) simp
    qed
  qed
qed

subsection \<open>All quotient digits\<close>

lemma split_quotient:
  fixes V W N R :: int
  assumes "0 < V"
  shows "(W * N + R) div V = W div V * N + (W mod V * N + R) div V"
proof -
  define q r where "q = W div V" and "r = W mod V"
  have "W = q * V + r" by (simp add: q_def r_def)
  then have "W * N + R = (r * N + R) + (q * N) * V" by (simp add: algebra_simps)
  then have "(W * N + R) div V = ((r * N + R) + (q * N) * V) div V" by (simp only:)
  also have "\<dots> = q * N + (r * N + R) div V" using assms by (intro div_mult_self1) simp
  finally show ?thesis by (simp only: q_def r_def)
qed

lemma div_loop_spec:
  assumes vs: "digits_ok vs" "vs = v1 # v2 # vl" "v1 \<noteq> 0"
  shows "digits_ok D \<Longrightarrow> length vs + k \<le> length D \<Longrightarrow> dval (take (length vs) D) < dval vs \<Longrightarrow>
    digits_ok (div_loop k (0 # vs) D) \<and> length (div_loop k (0 # vs) D) = k \<and> dval (div_loop k (0 # vs) D) = dval (take (length vs + k) D) div dval vs"
proof (induction k arbitrary: D)
  case 0
  then show ?case using dval_nonneg [OF digits_ok_part(1) [OF "0.prems"(1)], of "length vs"] by simp
next
  case (Suc k)
  define n V W where "n = length vs" and "V = dval vs" and "W = dval (take (n + 1) D)"
  have T: "dval (take n D) < V" using Suc.prems(3) by (simp add: n_def V_def)
  have nD: "n < length D" using Suc.prems(2) by (simp add: n_def)
  have W: "W = dval (take n D) * NBASE + D ! n" using nD by (simp add: W_def take_Suc_conv_app_nth dval_append)
  have lt: "W < V * NBASE"
  proof -
    have "(dval (take n D) + 1) * NBASE \<le> V * NBASE" using T by (intro mult_right_mono) simp_all
    then show ?thesis using digits_ok_nth [OF Suc.prems(1) nD] by (simp add: W distrib_right)
  qed
  obtain us where us: "div_step (0 # vs) D = (W div V, us @ drop (n + 1) D)" "digits_ok us" "length us = n + 1" "dval us = W mod V"
    "0 \<le> W div V" "W div V < NBASE"
    using div_step_spec [OF vs Suc.prems(1)] nD lt unfolding n_def V_def W_def by blast
  obtain h us' where h: "us = h # us'" "length us' = n" using us(3) by (cases us) auto
  have okh: "digits_ok us'" "0 \<le> h" using us(2) h by simp_all
  have V0: "0 < V" using T dval_nonneg [OF digits_ok_part(1) [OF Suc.prems(1), of n]] by simp
  have "h = 0"
  proof (rule ccontr)
    assume "h \<noteq> 0"
    then have "1 * NBASE ^ n \<le> h * NBASE ^ n" using okh by (intro mult_right_mono) simp_all
    moreover have "W mod V < V" using V0 by simp
    moreover have "V < NBASE ^ n" using dval_less [OF vs(1)] by (simp add: V_def n_def)
    moreover have "h * NBASE ^ n + dval us' = W mod V" using us(4) h by simp
    ultimately show False using dval_nonneg [OF okh(1)] by linarith
  qed
  then have d: "dval us' = W mod V" using us(4) h by simp
  let ?D = "us' @ drop (n + 1) D" and ?R = "take k (drop (n + 1) D)"
  have loop: "div_loop (Suc k) (0 # vs) D = (W div V) # div_loop k (0 # vs) ?D" using us(1) h by simp
  have "digits_ok ?D" "length vs + k \<le> length ?D" "dval (take (length vs) ?D) < dval vs"
    using okh digits_ok_part(2) [OF Suc.prems(1)] Suc.prems(2) h(2) d V0 by (simp_all add: n_def V_def)
  note ih = Suc.IH [OF this]
  have R: "length ?R = k" using Suc.prems(2) by (simp add: n_def)
  have a: "dval (take (n + k) ?D) = W mod V * NBASE ^ k + dval ?R" using h(2) R d by (simp add: dval_append)
  have "take (n + Suc k) D = take (n + 1) D @ ?R" using take_add [of "n + 1" k D] by (simp only: add_Suc_right add_Suc Suc_eq_plus1 [symmetric] add_0_right)
  then have "dval (take (n + Suc k) D) = W * NBASE ^ k + dval ?R" using R by (simp add: dval_append W_def)
  then have "dval (take (n + Suc k) D) div V = W div V * NBASE ^ k + dval (take (n + k) ?D) div V"
    unfolding a by (simp only:) (rule split_quotient [OF V0])
  then show ?case using ih us(5,6) unfolding loop by (simp add: n_def V_def)
qed

lemma short_div_spec:
  assumes "digits_ok ds" "0 < v" "0 \<le> c" "c < v"
  shows "digits_ok (short_div ds v c) \<and> length (short_div ds v c) = length ds \<and> dval (short_div ds v c) = (c * NBASE ^ length ds + dval ds) div v"
  using assms
proof (induction ds arbitrary: c)
  case (Cons d ds)
  define x where "x = c * NBASE + d"
  have x: "0 \<le> x mod v" "x mod v < v" using Cons.prems by simp_all
  have "(c + 1) * NBASE \<le> v * NBASE" using Cons.prems by (intro mult_right_mono) simp_all
  then have "x < v * NBASE" "0 \<le> x" using Cons.prems by (simp_all add: x_def distrib_right)
  then have q: "0 \<le> x div v" "x div v < NBASE" using unit_div_less [of v x NBASE] Cons.prems by (simp_all add: pos_imp_zdiv_nonneg_iff)
  have "c * NBASE ^ length (d # ds) + dval (d # ds) = x * NBASE ^ length ds + dval ds" by (simp add: x_def algebra_simps)
  then have "(c * NBASE ^ length (d # ds) + dval (d # ds)) div v = x div v * NBASE ^ length ds + (x mod v * NBASE ^ length ds + dval ds) div v"
    by (simp only:) (rule split_quotient [OF Cons.prems(2)])
  moreover have "short_div (d # ds) v c = x div v # short_div ds v (x mod v)" by (simp add: Let_def x_def)
  ultimately show ?case using Cons.IH [of "x mod v"] Cons.prems x q by simp
qed simp

lemma scale_up_spec:
  "digits_ok (scale_up d xs c) \<and> length (scale_up d xs c) = length xs \<and> dval (rev (scale_up d xs c)) = (d * dval (rev xs) + c) mod NBASE ^ length xs"
proof (induction xs arbitrary: c)
  case (Cons x xs)
  define y where "y = c + x * d"
  have y: "0 \<le> y mod NBASE" "y mod NBASE < NBASE" by simp_all
  have "y = y mod NBASE + NBASE * (y div NBASE)" by simp
  then have "d * dval (rev (x # xs)) + c = y mod NBASE + NBASE * (d * dval (rev xs) + y div NBASE)"
    by (simp add: dval_append algebra_simps y_def)
  then have "(d * dval (rev (x # xs)) + c) mod NBASE ^ length (x # xs) = y mod NBASE + NBASE * ((d * dval (rev xs) + y div NBASE) mod NBASE ^ length xs)"
    using digit_combine [OF y, of 0] by simp
  moreover have "scale_up d (x # xs) c = y mod NBASE # scale_up d xs (y div NBASE)" by (simp add: Let_def y_def)
  ultimately show ?case using Cons.IH [of "y div NBASE"] by (simp add: dval_append)
qed simp

subsection \<open>Scaling divisor and dividend\<close>

lemma scale_divisor:
  assumes "digits_ok (v # vs)" "v \<noteq> 0"
  defines "d \<equiv> NBASE div (v + 1)"
  shows "dval (rev (scale_up d (rev (v # vs)) 0)) = d * dval (v # vs)" "1 \<le> d"
    "hd (rev (scale_up d (rev (v # vs)) 0)) \<noteq> 0"
proof -
  let ?r = "rev (scale_up d (rev (v # vs)) 0)" and ?P = "NBASE ^ length vs"
  have v: "0 < v" "v + 1 \<le> NBASE" using assms by simp_all
  show d1: "1 \<le> d" unfolding d_def by (rule unit_le_div) (use v in simp_all)
  have ok: "0 \<le> dval vs" "dval vs < ?P" using dval_nonneg [of vs] dval_less [of vs] assms(1) by simp_all
  have "d * dval (v # vs) < d * ((v + 1) * ?P)" using ok d1 by (intro mult_strict_left_mono) (simp_all add: distrib_right)
  also have "\<dots> = (d * (v + 1)) * ?P" by (simp only: mult.assoc)
  also have "\<dots> \<le> NBASE * ?P" using unit_div_le [of "v + 1" NBASE] v by (intro mult_right_mono) (simp_all only: d_def mult.commute, simp_all)
  finally have lt: "d * dval (v # vs) < NBASE ^ length (v # vs)" by simp
  have nn: "0 \<le> dval (v # vs)" using dval_nonneg [OF assms(1)] .
  then show eq: "dval ?r = d * dval (v # vs)" using scale_up_spec [of d "rev (v # vs)" 0] lt d1 by simp
  obtain h t where r: "?r = h # t" "length t = length vs" using scale_up_spec [of d "rev (v # vs)" 0] by (cases ?r) auto
  have ot: "digits_ok t" using scale_up_spec [of d "rev (v # vs)" 0] r(1) by (metis digits_ok_simps(2,4))
  show "hd ?r \<noteq> 0"
  proof
    assume "hd ?r = 0"
    then have "dval ?r < ?P" using dval_less [OF ot] r by simp
    moreover have "1 * ?P \<le> v * ?P" using v by (intro mult_right_mono) simp_all
    then have "?P \<le> dval (v # vs)" unfolding dval.simps mult_1 using ok(1) by (rule add_increasing2 [rotated])
    moreover have "1 * dval (v # vs) \<le> d * dval (v # vs)" using d1 nn by (intro mult_right_mono) simp_all
    ultimately show False unfolding eq by linarith
  qed
qed

lemma scale_dividend:
  assumes "digits_ok ds" "0 \<le> d" "d \<le> NBASE"
  shows "dval (rev (scale_up d (rev (0 # ds)) 0)) = d * dval ds"
proof -
  have "d * dval ds \<le> NBASE * dval ds" using assms dval_nonneg by (intro mult_right_mono) simp_all
  also have "\<dots> < NBASE * NBASE ^ length ds" using dval_less [OF assms(1)] by simp
  finally show ?thesis using scale_up_spec [of d "rev (0 # ds)" 0] dval_nonneg [OF assms(1)] assms(2) by simp
qed

lemma digits_ok_replicate [simp]: "digits_ok (replicate p 0)"
  by (induction p) simp_all

lemma scale_operands_spec:
  assumes ok: "digits_ok ds" "digits_ok (v # v' # vs)" "v \<noteq> 0"
    and eq: "scale_operands (0 # v # v' # vs) (0 # ds @ replicate p 0) (length ds) = (D, X)"
  obtains u u' us d where "D = 0 # u # u' # us" "digits_ok (u # u' # us)" "u \<noteq> 0" "length us = length vs" "0 < d"
    "dval (u # u' # us) = d * dval (v # v' # vs)" "digits_ok X" "length X = length ds + 1 + p" "dval X = d * dval ds * NBASE ^ p"
proof (cases "v < HALF_NBASE")
  case False
  then have e: "D = 0 # v # v' # vs" "X = 0 # ds @ replicate p 0" using eq by (simp_all add: scale_operands_def)
  have "digits_ok X" using ok e by simp
  then show thesis using that [OF e(1) ok(2,3) refl, of 1] e(2) by (simp add: dval_append)
next
  case True
  define d where "d = NBASE div (v + 1)"
  define E where "E = rev (scale_up d (rev (v # v' # vs)) 0)"
  define F where "F = rev (scale_up d (rev (0 # ds)) 0)"
  have e: "D = 0 # E" "X = F @ replicate p 0" using eq True unfolding scale_operands_def Let_def d_def E_def F_def by auto
  note sd = scale_divisor [OF ok(2,3), folded d_def, folded E_def]
  have "(v + 1) * d \<le> NBASE" unfolding d_def by (rule unit_div_le) (use ok in simp)
  moreover have "1 * d \<le> (v + 1) * d" using ok sd(2) by (intro mult_right_mono) simp_all
  ultimately have "d \<le> NBASE" by linarith
  then have F: "dval F = d * dval ds" unfolding F_def by (intro scale_dividend [OF ok(1)]) (use sd(2) in simp_all)
  have l: "length E = length vs + 2" "length F = length ds + 1" "digits_ok E" "digits_ok F"
    using scale_up_spec [of d "rev (v # v' # vs)" 0] scale_up_spec [of d "rev (0 # ds)" 0] by (simp_all add: E_def F_def)
  then obtain u u' us where u: "E = u # u' # us" by (metis Suc_length_conv add_2_eq_Suc')
  have "digits_ok X" using l e by simp
  moreover have "D = 0 # u # u' # us" "digits_ok (u # u' # us)" "u \<noteq> 0" "length us = length vs" "dval (u # u' # us) = d * dval (v # v' # vs)"
    using e(1) u l(1,3) sd by auto
  ultimately show thesis using that [of u u' us d] sd(2) l(2) e(2) F by (simp add: dval_append)
qed

lemma take_less:
  assumes "digits_ok X" "n \<le> length X" "dval X < V * NBASE ^ (length X - n)"
  shows "dval (take n X) < V"
proof -
  have "dval X = dval (take n X) * NBASE ^ (length X - n) + dval (drop n X)" using dval_append [of "take n X" "drop n X"] by simp
  moreover have "0 \<le> dval (drop n X)" using dval_nonneg [OF digits_ok_part(2) [OF assms(1)]] .
  ultimately have "dval (take n X) * NBASE ^ (length X - n) < V * NBASE ^ (length X - n)" using assms(3) by linarith
  then show ?thesis by (simp only: mult_less_cancel_right) auto
qed

lemma quotient_take:
  assumes "digits_ok X" "m \<le> length X" "0 < V"
  shows "dval (take m X) div V = dval X div (NBASE ^ (length X - m) * V)"
proof -
  let ?N = "NBASE ^ (length X - m)"
  have "dval X = dval (drop m X) + dval (take m X) * ?N" using dval_append [of "take m X" "drop m X"] by simp
  moreover have "0 \<le> dval (drop m X)" "dval (drop m X) < ?N"
    using dval_nonneg [OF digits_ok_part(2) [OF assms(1)]] dval_less [OF digits_ok_part(2) [OF assms(1)], of m] by simp_all
  ultimately have "dval X div ?N = dval (take m X)" using div_mult_self1 [of ?N "dval (drop m X)" "dval (take m X)"] by simp
  then show ?thesis using assms(3) by (simp add: zdiv_zmult2_eq)
qed

subsection \<open>Nested rounding\<close>

lemma floor_quotient:
  fixes y :: rat
  assumes "0 < b"
  shows "\<lfloor>y / of_int b\<rfloor> = \<lfloor>y\<rfloor> div b"
proof -
  have "z \<le> \<lfloor>y / of_int b\<rfloor> \<longleftrightarrow> z \<le> \<lfloor>y\<rfloor> div b" for z
  proof -
    have "z \<le> \<lfloor>y / of_int b\<rfloor> \<longleftrightarrow> of_int (z * b) \<le> y" using assms by (simp add: le_floor_iff pos_le_divide_eq)
    also have "\<dots> \<longleftrightarrow> z * b \<le> \<lfloor>y\<rfloor>" by (simp only: le_floor_iff)
    also have "\<dots> \<longleftrightarrow> z \<le> \<lfloor>y\<rfloor> div b"
    proof
      assume "z \<le> \<lfloor>y\<rfloor> div b"
      then have "z * b \<le> \<lfloor>y\<rfloor> div b * b" using assms by (intro mult_right_mono) simp_all
      then show "z * b \<le> \<lfloor>y\<rfloor>" using unit_div_le [OF assms, of "\<lfloor>y\<rfloor>"] by (simp only: mult.commute)
    qed (rule unit_le_div [OF assms])
    finally show ?thesis .
  qed
  then show ?thesis by (meson order_antisym order_refl)
qed

lemma TEN_finer:
  assumes "s \<le> a"
  shows "x * TEN s = x * TEN a / of_int (10 ^ nat (a - s))"
proof -
  have "TEN a = TEN s * TEN (int (nat (a - s)))" by (subst TEN_add [symmetric]) (use assms in simp)
  then show ?thesis unfolding TEN_nat by simp
qed

lemma scaled_floor: "dec_floor x a * TEN a = of_int \<lfloor>x * TEN a\<rfloor>"
  by (simp only: dec_floor_def TEN_cancel)

lemma dec_floor_nested:
  assumes "s \<le> a"
  shows "dec_floor (dec_floor x a) s = dec_floor x s"
proof -
  have "\<lfloor>dec_floor x a * TEN s\<rfloor> = \<lfloor>x * TEN s\<rfloor>"
    by (simp only: TEN_finer [OF assms] scaled_floor floor_quotient zero_less_power zero_less_numeral floor_of_int)
  then show ?thesis by (simp only: dec_floor_def [of _ s])
qed

lemma dec_round_nested:
  assumes "s < a"
  shows "dec_round (dec_floor x a) s = dec_round x s"
proof -
  define h :: int where "h = 5 * 10 ^ nat (a - s - 1)"
  have "nat (a - s) = Suc (nat (a - s - 1))" using assms by simp
  then have h: "10 ^ nat (a - s) = 2 * h" by (simp add: h_def)
  have "0 < h" by (simp add: h_def)
  have e: "\<lfloor>y * TEN s + 1 / 2\<rfloor> = (\<lfloor>y * TEN a\<rfloor> + h) div (2 * h)" for y :: rat
  proof -
    have "y * TEN s + 1 / 2 = (y * TEN a + of_int h) / of_int (2 * h)"
      unfolding TEN_finer [OF less_imp_le [OF assms]] h using \<open>0 < h\<close> by (simp add: field_simps)
    then show ?thesis using \<open>0 < h\<close> by (simp only: floor_quotient mult_pos_pos zero_less_numeral floor_add_int [symmetric])
  qed
  show ?thesis unfolding dec_round_def e scaled_floor by simp
qed

lemma dec_floor_nonneg: "0 \<le> x \<Longrightarrow> 0 \<le> dec_floor x a"
  by (simp add: dec_floor_def less_imp_le)

lemma signed_nested: "strunc x a < 0 \<Longrightarrow> x < 0" "\<not> strunc x a < 0 \<Longrightarrow> x < 0 \<Longrightarrow> dec_floor (- x) a = 0"
  using dec_floor_nonneg [of x a] dec_floor_nonneg [of "- x" a] by (auto simp: strunc_def split: if_splits)

lemma sround_strunc: "s < a \<Longrightarrow> sround (strunc x a) s = sround x s"
  using signed_nested [of x a] dec_round_nested [of s a x] dec_round_nested [of s a "- x"]
  by (cases "strunc x a < 0"; cases "x < 0") (auto simp: sround_def strunc_def)

lemma strunc_strunc: "s \<le> a \<Longrightarrow> strunc (strunc x a) s = strunc x s"
  using signed_nested [of x a] dec_floor_nested [of s a x] dec_floor_nested [of s a "- x"]
  by (cases "strunc x a < 0"; cases "x < 0") (auto simp: strunc_def)

subsection \<open>The quotient\<close>

lemma power_below_dval: "digits_ok (v # vs) \<Longrightarrow> v \<noteq> 0 \<Longrightarrow> NBASE ^ length vs \<le> dval (v # vs)"
proof -
  assume a: "digits_ok (v # vs)" "v \<noteq> 0"
  then have "1 * NBASE ^ length vs \<le> v * NBASE ^ length vs" by (intro mult_right_mono) simp_all
  moreover have "0 \<le> dval vs" using dval_nonneg [of vs] a by simp
  ultimately show ?thesis by (simp only: dval.simps mult_1)
qed

definition quotient_digits :: "int list \<Rightarrow> int list \<Rightarrow> nat \<Rightarrow> nat \<Rightarrow> int list" where
  "quotient_digits ds1 ds2 p k =
    (let dividend = 0 # ds1 @ replicate p 0; divisor = 0 # ds2
     in if length ds2 = 1 then short_div (take k (tl dividend)) (divisor ! 1) 0
        else let (divisor, dividend) = scale_operands divisor dividend (length ds1) in div_loop k divisor dividend)"

lemma quotient_digits_spec:
  assumes ok: "digits_ok ds1" "digits_ok (v # vs)" "v \<noteq> 0" and len: "length vs + k \<le> length ds1 + p"
  defines "q \<equiv> quotient_digits ds1 (v # vs) p k" and "e \<equiv> length ds1 + p - (length vs + k)"
  shows "digits_ok q \<and> length q = k \<and> dval q = (dval ds1 * NBASE ^ p) div (NBASE ^ e * dval (v # vs))"
proof (cases vs)
  case Nil
  let ?X = "ds1 @ replicate p 0"
  have X: "digits_ok ?X" "dval ?X = dval ds1 * NBASE ^ p" "k \<le> length ?X" using ok len by (simp_all add: dval_append)
  have "q = short_div (take k ?X) v 0" using Nil by (simp add: q_def quotient_digits_def Let_def)
  moreover have "0 < v" using ok by simp
  ultimately have "digits_ok q" "length q = k" "dval q = dval (take k ?X) div v"
    using short_div_spec [OF digits_ok_part(1) [OF X(1), of k], of v 0] X(3) by simp_all
  moreover have "dval (take k ?X) div v = dval ?X div (NBASE ^ (length ?X - k) * v)" using quotient_take [OF X(1,3) \<open>0 < v\<close>] .
  ultimately show ?thesis using Nil X(2) by (simp add: e_def)
next
  case (Cons v' vl)
  obtain D X where s: "scale_operands (0 # v # v' # vl) (0 # ds1 @ replicate p 0) (length ds1) = (D, X)" by fastforce
  obtain u u' us d where u: "D = 0 # u # u' # us" "digits_ok (u # u' # us)" "u \<noteq> 0" "length us = length vl" "0 < d"
    "dval (u # u' # us) = d * dval (v # v' # vl)" "digits_ok X" "length X = length ds1 + 1 + p" "dval X = d * dval ds1 * NBASE ^ p"
    using scale_operands_spec [OF ok(1) ok(2) [unfolded Cons] ok(3) s] by metis
  let ?V = "u # u' # us" and ?U = "v # v' # vl"
  have q: "q = div_loop k (0 # ?V) X" using Cons s u(1) by (simp add: q_def quotient_digits_def Let_def)
  have n: "length ?V = length vs + 1" using Cons u(4) by simp
  have U0: "NBASE ^ length vs \<le> dval ?U" using power_below_dval [OF ok(2,3)] Cons by simp
  then have U1: "0 < dval ?U" by (rule less_le_trans [rotated]) simp
  have V0: "0 < dval ?V" unfolding u(6) using u(5) U1 by (rule mult_pos_pos)
  have "dval X < dval ?V * NBASE ^ (length X - length ?V)"
  proof -
    have "dval X < d * NBASE ^ length ds1 * NBASE ^ p"
      unfolding u(9) using u(5) dval_less [OF ok(1)] by (intro mult_strict_right_mono mult_strict_left_mono) simp_all
    also have "\<dots> = d * (NBASE ^ length vs * NBASE ^ (length X - length ?V))"
      using len unfolding n u(8) by (simp add: power_add [symmetric])
    also have "\<dots> \<le> d * (dval ?U * NBASE ^ (length X - length ?V))" using U0 u(5) by (intro mult_left_mono mult_right_mono) simp_all
    also have "\<dots> = dval ?V * NBASE ^ (length X - length ?V)" unfolding u(6) by (simp only: mult.assoc)
    finally show ?thesis .
  qed
  then have lt: "dval (take (length ?V) X) < dval ?V" by (intro take_less [OF u(7)]) (use n u(8) len in simp)
  have le: "length ?V + k \<le> length X" using n u(8) len by simp
  note l = div_loop_spec [OF u(2) refl u(3) u(7) le lt, folded q]
  have "dval (take (length ?V + k) X) div dval ?V = dval X div (NBASE ^ (length X - (length ?V + k)) * dval ?V)"
    by (rule quotient_take [OF u(7) le V0])
  also have "length X - (length ?V + k) = e" using n u(8) by (simp add: e_def)
  also have "dval X div (NBASE ^ e * dval ?V) = (d * (dval ds1 * NBASE ^ p)) div (d * (NBASE ^ e * dval ?U))"
    unfolding u(6,9) by (simp only: ac_simps)
  also have "\<dots> = (dval ds1 * NBASE ^ p) div (NBASE ^ e * dval ?U)" using u(5) by (simp only: div_mult_mult1)
  finally show ?thesis using l Cons by simp
qed

lemma quotient_rval:
  assumes "digits v2 = v # vs" "0 < dval (digits v2)" "length (digits v1) + p = length vs + k + e" "length q = k"
    "dval q = (dval (digits v1) * NBASE ^ p) div (NBASE ^ e * dval (digits v2))"
  defines "w \<equiv> weight v1 - weight v2"
  shows "rval q w = dec_floor (nabs v1 / nabs v2) (4 * (int k - 1 - w))"
proof -
  let ?A = "of_int (dval (digits v1)) :: rat" and ?V = "of_int (dval (digits v2)) :: rat"
  define a1 a2 b where "a1 = weight v1 + 1 - ndigits v1" and "a2 = weight v2 + 1 - ndigits v2" and "b = int k - 1 - w"
  have "int p - int e = a1 - a2 + b" using assms(1,3) unfolding a1_def a2_def b_def w_def by simp
  then have "NB powi int p / NB powi int e = NB powi a1 / NB powi a2 * NB powi b"
    by (simp only: power_int_diff [symmetric] power_int_add [symmetric] NB_facts(3) simp_thms)
  then have "?A / ?V * (NB powi int p / NB powi int e) = ?A / ?V * (NB powi a1 / NB powi a2 * NB powi b)" by simp
  then have "of_int (dval (digits v1) * NBASE ^ p) / of_int (NBASE ^ e * dval (digits v2)) = nabs v1 / nabs v2 * NB powi b"
    unfolding nabs_def rval_dval a1_def [symmetric] a2_def [symmetric] NB_powi_nat by (simp add: ac_simps)
  moreover have "dval q = \<lfloor>of_int (dval (digits v1) * NBASE ^ p) / of_int (NBASE ^ e * dval (digits v2)) :: rat\<rfloor>"
    unfolding assms(5) by (rule floor_divide_of_int_eq [symmetric])
  ultimately have "dval q = \<lfloor>nabs v1 / nabs v2 * TEN (4 * b)\<rfloor>" by (simp only: NB_TEN)
  moreover have "w + 1 - int (length q) = - b" using assms(4) by (simp add: b_def)
  ultimately show ?thesis unfolding rval_dval dec_floor_def b_def [symmetric] by (simp add: NB_TEN)
qed

lemma scale_places:
  fixes rs w k :: int
  assumes "k = max (w + 1 + (rs + DEC_DIGITS - 1) sdiv DEC_DIGITS) 1"
  shows "rs \<le> 4 * (k - 1 - w)" "1 \<le> k"
proof -
  have "rs \<le> 4 * ((rs + 3) div 4)" by presburger
  moreover have "(rs + 3) div 4 \<le> (rs + 3) sdiv 4"
  proof (cases "0 \<le> rs + 3")
    case False
    have "(rs + 3) sdiv 4 = - ((- (rs + 3)) div 4)" using False by (simp add: signed_divide_int_def)
    moreover have "(rs + 3) div 4 \<le> - ((- (rs + 3)) div 4)" by presburger
    ultimately show ?thesis by simp
  qed (auto simp: signed_divide_int_def sgn_if)
  moreover have "w + 1 + (rs + 3) sdiv 4 \<le> k" "1 \<le> k" using assms by (simp_all add: DEC_DIGITS_def add.commute)
  moreover have "rs \<le> 4 * a \<Longrightarrow> a \<le> b \<Longrightarrow> w + 1 + b \<le> k \<Longrightarrow> rs \<le> 4 * (k - 1 - w)" for a b :: int by presburger
  ultimately show "rs \<le> 4 * (k - 1 - w)" by blast
  show "1 \<le> k" using assms by simp
qed

lemma div_var_eq:
  fixes v1 v2 :: NumericVar
  defines "rw \<equiv> weight v1 - weight v2"
  assumes nz: "digits v2 \<noteq> []" "digits v2 ! 0 \<noteq> 0" "digits v1 \<noteq> []"
    and k: "int k = max (rw + 1 + (rs + DEC_DIGITS - 1) sdiv DEC_DIGITS) 1 + (if rnd then 1 else 0)"
    and p: "int p = max (int k + ndigits v2) (ndigits v1) - ndigits v1"
  defines "u \<equiv> \<lparr>weight = rw, sign = (if sign v1 = sign v2 then NUMERIC_POS else NUMERIC_NEG), dscale = 0, digits = quotient_digits (digits v1) (digits v2) p k\<rparr>"
  shows "div_var v1 v2 rs rnd = Inr (strip_var (if rnd then round_var u rs else trunc_var u rs))"
proof -
  have k': "(if rnd then max (rw + 1 + (rs + DEC_DIGITS - 1) sdiv DEC_DIGITS) 1 + 1 else max (rw + 1 + (rs + DEC_DIGITS - 1) sdiv DEC_DIGITS) 1) = int k"
    using k by (cases rnd) simp_all
  have p': "nat (max (int k + ndigits v2) (ndigits v1) - ndigits v1) = p" using p by simp
  have l: "ndigits v2 = 1 \<longleftrightarrow> length (digits v2) = 1" by simp
  show ?thesis using nz(1-3)
    unfolding div_var_def Let_def rw_def [symmetric] k' p' u_def quotient_digits_def l nat_int by simp
qed

lemma div_var_zero:
  assumes "digits v2 \<noteq> []" "digits v2 ! 0 \<noteq> 0" "digits v1 = []"
  shows "div_var v1 v2 rs rnd = Inr (const_zero\<lparr>dscale := rs\<rparr>)"
  using assms by (simp add: div_var_def)

definition div_rounded :: "bool \<Rightarrow> rat \<Rightarrow> int \<Rightarrow> rat" where
  "div_rounded rnd x s = (if rnd then sround x s else strunc x s)"

lemma div_var_spec:
  assumes ok: "var_ok v1" "var_ok v2" and nz: "digits v2 \<noteq> []" "digits v2 ! 0 \<noteq> 0"
  shows "\<exists>r. div_var v1 v2 rs rnd = Inr r \<and> nval r = div_rounded rnd (nval v1 / nval v2) rs \<and> canonical r \<and> dscale r = rs"
proof (cases "digits v1 = []")
  case True
  then show ?thesis using div_var_zero [OF nz True, of rs rnd]
    by (auto simp: nval_def nabs_def const_zero_def canonical_def var_ok_def div_rounded_def sround_def strunc_def)
next
  case False
  define rw K where "rw = weight v1 - weight v2" and "K = max (rw + 1 + (rs + DEC_DIGITS - 1) sdiv DEC_DIGITS) 1"
  note K = scale_places [OF K_def]
  define k p where "k = nat (K + (if rnd then 1 else 0))" and "p = nat (max (int k + ndigits v2) (ndigits v1) - ndigits v1)"
  have k: "int k = K + (if rnd then 1 else 0)" using K(2) by (simp add: k_def)
  have p: "int p = max (int k + ndigits v2) (ndigits v1) - ndigits v1" by (simp add: p_def)
  obtain v vs where v: "digits v2 = v # vs" "v \<noteq> 0" using nz by (cases "digits v2") auto
  have len: "length vs + k \<le> length (digits v1) + p" using p v(1) by simp
  define q where "q = quotient_digits (digits v1) (digits v2) p k"
  define u where "u = \<lparr>weight = rw, sign = (if sign v1 = sign v2 then NUMERIC_POS else NUMERIC_NEG), dscale = 0, digits = q\<rparr>"
  have dk: "digits_ok (digits v1)" "digits_ok (v # vs)" using ok v(1) by (simp_all add: var_ok_def)
  note qd = quotient_digits_spec [OF dk v(2) len, folded v(1), folded q_def]
  have V0: "0 < dval (digits v2)" using power_below_dval [OF dk(2) v(2)] v(1) less_le_trans [of 0 "NBASE ^ length vs"] by simp
  have "nabs u = dec_floor (nabs v1 / nabs v2) (4 * (int k - 1 - rw))"
    using quotient_rval [OF v(1) V0 _ _ conjunct2 [OF conjunct2 [OF qd]]] qd len by (simp add: u_def nabs_def rw_def)
  moreover have ab: "0 \<le> nabs v1" "0 \<le> nabs v2" using nabs_nonneg ok by simp_all
  moreover have "sign v1 \<noteq> NUMERIC_NAN" "sign v2 \<noteq> NUMERIC_NAN" using ok by (simp_all add: var_ok_def)
  ultimately have nu: "nval u = strunc (nval v1 / nval v2) (4 * (int k - 1 - rw))"
    using dec_floor_nonneg [of "nabs v1 / nabs v2"]
    by (cases "sign v1"; cases "sign v2"; cases "nabs v1 = 0"; cases "nabs v2 = 0") (auto simp: nval_def u_def strunc_def nabs_def divide_less_0_iff)
  have uo: "var_ok u" using qd by (simp add: u_def var_ok_def)
  have eq: "div_var v1 v2 rs rnd = Inr (strip_var (if rnd then round_var u rs else trunc_var u rs))"
    unfolding u_def q_def rw_def by (rule div_var_eq [OF nz False _ p]) (use k in \<open>simp add: K_def rw_def\<close>)
  show ?thesis
  proof (cases rnd)
    case True
    then have "rs < 4 * (int k - 1 - rw)" using K(1) k by simp
    then show ?thesis using round_signed [OF uo, of rs] eq True nu by (simp add: div_rounded_def sround_strunc)
  next
    case False
    then have "rs \<le> 4 * (int k - 1 - rw)" using K(1) k by simp
    then show ?thesis using trunc_signed [OF uo, of rs] eq False nu by (simp add: div_rounded_def strunc_strunc)
  qed
qed

end
