(* ===== verification/NumericFunc.thy ===== *)
theory NumericFunc
  imports NumericDiv
begin

text \<open>
  The functions built on the arithmetic: remainder, ceiling and floor, the scale of a quotient, the check of a declared precision
  (\<^verbatim>\<open>apply_typmod\<close>) and the conversions from and to 64-bit and 32-bit integers.
\<close>

definition NUMERIC_MAX_PRECISION :: int where "NUMERIC_MAX_PRECISION = 1000"
definition NUMERIC_MAX_DISPLAY_SCALE :: int where "NUMERIC_MAX_DISPLAY_SCALE = NUMERIC_MAX_PRECISION"
definition NUMERIC_MIN_DISPLAY_SCALE :: int where "NUMERIC_MIN_DISPLAY_SCALE = 0"
definition NUMERIC_MIN_SIG_DIGITS :: int where "NUMERIC_MIN_SIG_DIGITS = 16"
definition VARHDRSZ :: int where "VARHDRSZ = 4"
definition PG_INT64_MIN :: int where "PG_INT64_MIN = - 9223372036854775808"
definition PG_INT64_MAX :: int where "PG_INT64_MAX = 9223372036854775807"

definition mod_var :: "NumericVar \<Rightarrow> NumericVar \<Rightarrow> NumericVar result" where
  "mod_var v1 v2 =
    (case div_var v1 v2 0 False of
       Inl e \<Rightarrow> Inl e
     | Inr tmp \<Rightarrow> Inr (sub_var v1 (mul_var v2 tmp (dscale v2))))"

definition ceil_var :: "NumericVar \<Rightarrow> NumericVar" where
  "ceil_var v = (let tmp = trunc_var v 0 in if sign v = NUMERIC_POS \<and> cmp_var v tmp \<noteq> 0 then add_var tmp const_one else tmp)"

definition floor_var :: "NumericVar \<Rightarrow> NumericVar" where
  "floor_var v = (let tmp = trunc_var v 0 in if sign v = NUMERIC_NEG \<and> cmp_var v tmp \<noteq> 0 then sub_var tmp const_one else tmp)"

text \<open>The first digit that is not zero and its weight; the last digit and weight 0 if there is none.\<close>

fun first_digit :: "int list \<Rightarrow> int \<Rightarrow> int \<Rightarrow> int \<times> int" where
  "first_digit [] w d = (0, d)"
| "first_digit (d # ds) w _ = (if d \<noteq> 0 then (w, d) else first_digit ds (w - 1) d)"

definition select_div_scale :: "NumericVar \<Rightarrow> NumericVar \<Rightarrow> int" where
  "select_div_scale v1 v2 =
    (let (weight1, firstdigit1) = first_digit (digits v1) (weight v1) 0;
         (weight2, firstdigit2) = first_digit (digits v2) (weight v2) 0;
         qweight = weight1 - weight2;
         qweight = (if firstdigit1 \<le> firstdigit2 then qweight - 1 else qweight);
         rscale = NUMERIC_MIN_SIG_DIGITS - qweight * DEC_DIGITS;
         rscale = max rscale (dscale v1);
         rscale = max rscale (dscale v2);
         rscale = max rscale NUMERIC_MIN_DISPLAY_SCALE
     in min rscale NUMERIC_MAX_DISPLAY_SCALE)"

text \<open>The loop over the digits in \<open>apply_typmod\<close>: whether the first digit that is not zero is too far to the left.\<close>

fun typmod_overflow :: "int list \<Rightarrow> int \<Rightarrow> int \<Rightarrow> bool" where
  "typmod_overflow [] ddigits maxdigits = False"
| "typmod_overflow (dig # ds) ddigits maxdigits =
    (if dig \<noteq> 0 then ddigits - (if dig < 10 then 3 else if dig < 100 then 2 else if dig < 1000 then 1 else 0) > maxdigits
     else typmod_overflow ds (ddigits - DEC_DIGITS) maxdigits)"

definition apply_typmod :: "NumericVar \<Rightarrow> int \<Rightarrow> NumericVar result" where
  "apply_typmod v typmod =
    (if typmod < VARHDRSZ then Inr v
     else let typmod = typmod - VARHDRSZ;
              precision = typmod div 2 ^ 16 mod 2 ^ 16;
              scale = typmod mod 2 ^ 16;
              maxdigits = precision - scale;
              v = round_var v scale;
              ddigits = (weight v + 1) * DEC_DIGITS
          in if ddigits > maxdigits \<and> typmod_overflow (digits v) ddigits maxdigits
             then Inl (Ereport ERROR ERRCODE_NUMERIC_VALUE_OUT_OF_RANGE) else Inr v)"

definition pg_mul_s64_overflow :: "int \<Rightarrow> int \<Rightarrow> int option" where
  "pg_mul_s64_overflow a b = (let res = a * b in if res > PG_INT64_MAX \<or> res < PG_INT64_MIN then None else Some res)"

definition pg_sub_s64_overflow :: "int \<Rightarrow> int \<Rightarrow> int option" where
  "pg_sub_s64_overflow a b = (let res = a - b in if res > PG_INT64_MAX \<or> res < PG_INT64_MIN then None else Some res)"

text \<open>The loop over the digits before the point, \<open>n\<close> of them from the digit \<open>i\<close> on; the value is accumulated as a negative number.\<close>

fun int64_loop :: "nat \<Rightarrow> int list \<Rightarrow> nat \<Rightarrow> int \<Rightarrow> int option" where
  "int64_loop 0 ds i val = Some val"
| "int64_loop (Suc n) ds i val =
    (case pg_mul_s64_overflow val NBASE of
       None \<Rightarrow> None
     | Some val \<Rightarrow>
         if i < length ds then
           (case pg_sub_s64_overflow val (ds ! i) of
              None \<Rightarrow> None
            | Some val \<Rightarrow> int64_loop n ds (i + 1) val)
         else int64_loop n ds (i + 1) val)"

definition numericvar_to_int64 :: "NumericVar \<Rightarrow> int option" where
  "numericvar_to_int64 var =
    (let rounded = strip_var (round_var var 0)
     in if digits rounded = [] then Some 0
        else let neg = (sign rounded = NUMERIC_NEG)
          in case int64_loop (nat (weight rounded)) (digits rounded) 1 (- (digits rounded ! 0)) of
               None \<Rightarrow> None
             | Some val \<Rightarrow> if \<not> neg then (if val = PG_INT64_MIN then None else Some (- val)) else Some val)"

definition numericvar_to_int32 :: "NumericVar \<Rightarrow> int result" where
  "numericvar_to_int32 var =
    (case numericvar_to_int64 var of
       None \<Rightarrow> Inl (Ereport ERROR ERRCODE_NUMERIC_VALUE_OUT_OF_RANGE)
     | Some val \<Rightarrow> (let res = wrap32 val in if res \<noteq> val then Inl (Ereport ERROR ERRCODE_NUMERIC_VALUE_OUT_OF_RANGE) else Inr res))"

text \<open>The digits of an unsigned 64-bit number, put in front of those already found; the loop runs at least once.\<close>

function uint64_digits :: "int \<Rightarrow> int list \<Rightarrow> int list" where
  "uint64_digits uval ds =
    (let newuval = uval div NBASE; ds = (uval - newuval * NBASE) # ds
     in if newuval > 0 then uint64_digits newuval ds else ds)"
  by auto
termination by (relation "measure (\<lambda>(uval, _). nat uval)") (auto simp: NBASE_def)

declare uint64_digits.simps [simp del]

definition int64_to_numericvar :: "int \<Rightarrow> NumericVar" where
  "int64_to_numericvar val =
    (let (s, uval) = (if val < 0 then (NUMERIC_NEG, (- val) mod 2 ^ 64) else (NUMERIC_POS, val))
     in if val = 0 then \<lparr>weight = 0, sign = s, dscale = 0, digits = []\<rparr>
        else let ds = uint64_digits uval [] in \<lparr>weight = int (length ds) - 1, sign = s, dscale = 0, digits = ds\<rparr>)"

subsection \<open>Remainder\<close>

lemma strunc_int: "strunc x 0 = (if x < 0 then - of_int \<lfloor>- x\<rfloor> else of_int \<lfloor>x\<rfloor>)"
  by (simp add: strunc_def dec_floor_def)

lemma remainder_bounds:
  fixes x y :: rat
  assumes "y \<noteq> 0"
  defines "r \<equiv> x - strunc (x / y) 0 * y"
  shows "\<bar>r\<bar> < \<bar>y\<bar>" "0 \<le> r * x"
proof -
  define f where "f = x / y - strunc (x / y) 0"
  have r: "r = f * y" using assms by (simp add: r_def f_def left_diff_distrib)
  have x: "x = x / y * y" using assms by simp
  have f: "\<bar>f\<bar> < 1" "0 \<le> f * (x / y)"
  proof -
    show "\<bar>f\<bar> < 1" unfolding f_def strunc_int by (cases "x / y < 0"; simp; linarith)
    have "0 \<le> f" if "\<not> x / y < 0" using that unfolding f_def strunc_int by simp
    moreover have "f \<le> 0" if "x / y < 0" using that unfolding f_def strunc_int by simp linarith
    moreover have "0 \<le> f * g" if "\<not> g < 0 \<Longrightarrow> 0 \<le> f" "g < 0 \<Longrightarrow> f \<le> 0" for g
      using that by (cases "g < 0") (simp_all add: mult_nonpos_nonpos)
    ultimately show "0 \<le> f * (x / y)" by blast
  qed
  show "\<bar>r\<bar> < \<bar>y\<bar>" unfolding r abs_mult using mult_strict_right_mono [OF f(1), of "\<bar>y\<bar>"] assms by simp
  have "r * x = (f * (x / y)) * (y * y)" using assms by (simp add: r)
  then show "0 \<le> r * x" by (simp only: mult_nonneg_nonneg f(2) zero_le_square)
qed

lemma canonical_divisor: "canonical v \<Longrightarrow> digits v \<noteq> [] \<Longrightarrow> digits v ! 0 \<noteq> 0"
  by (simp add: canonical_def hd_conv_nth)

lemma nval_zero_iff: "canonical v \<Longrightarrow> nval v = 0 \<longleftrightarrow> digits v = []"
  using nabs_zero_iff [of v] by (auto simp: nval_def)

lemma mod_var_spec:
  assumes "canonical v1" "scale_ok v1" "canonical v2" "scale_ok v2" "nval v2 \<noteq> 0"
  shows "\<exists>r. mod_var v1 v2 = Inr r \<and> nval r = nval v1 - strunc (nval v1 / nval v2) 0 * nval v2 \<and> canonical r \<and> dscale r = max (dscale v1) (dscale v2)"
proof -
  have nz: "digits v2 \<noteq> []" using assms(3,5) nval_zero_iff by simp
  obtain t where t: "div_var v1 v2 0 False = Inr t" "nval t = strunc (nval v1 / nval v2) 0" "canonical t" "dscale t = 0"
    using div_var_spec [OF canonical_var_ok [OF assms(1)] canonical_var_ok [OF assms(3)] nz canonical_divisor [OF assms(3) nz], of 0 False]
    by (auto simp: div_rounded_def)
  have "scale_ok t" using strunc_scaled [of "nval v1 / nval v2" 0] t by (simp add: scale_ok_def)
  then have m: "nval (mul_var v2 t (dscale v2)) = nval v2 * nval t" "canonical (mul_var v2 t (dscale v2))" "dscale (mul_var v2 t (dscale v2)) = dscale v2"
    using mul_var_exact [OF assms(3,4) t(3), of "dscale v2"] t(4) by auto
  show ?thesis
    using sub_var_spec [OF canonical_proper [OF assms(1)] canonical_proper [OF m(2)]] m t by (simp add: mod_var_def mult.commute)
qed

subsection \<open>Ceiling and floor\<close>

text \<open>
  What they need of the arithmetic: truncation, comparison, addition and subtraction of one. Arguments are \<open>good\<close>, results of a truncation
  only \<open>fair\<close>, which is enough for the other operations.
\<close>

locale integer_part =
  fixes good fair :: "'v \<Rightarrow> bool" and num :: "'v \<Rightarrow> rat" and tr :: "'v \<Rightarrow> 'v" and cmp :: "'v \<Rightarrow> 'v \<Rightarrow> int"
    and plus minus :: "'v \<Rightarrow> 'v \<Rightarrow> 'v" and one :: 'v
  assumes fair: "good v \<Longrightarrow> fair v" "good v \<Longrightarrow> fair (tr v)" "fair one"
    and tr: "good v \<Longrightarrow> num (tr v) = strunc (num v) 0"
    and cmp: "fair v \<Longrightarrow> fair w \<Longrightarrow> cmp v w = 0 \<longleftrightarrow> num v = num w"
    and plus: "fair v \<Longrightarrow> fair w \<Longrightarrow> num (plus v w) = num v + num w" "fair v \<Longrightarrow> fair w \<Longrightarrow> fair (plus v w)"
    and minus: "fair v \<Longrightarrow> fair w \<Longrightarrow> num (minus v w) = num v - num w" "fair v \<Longrightarrow> fair w \<Longrightarrow> fair (minus v w)"
    and one: "num one = 1"
begin

lemma exact: "good v \<Longrightarrow> cmp v (tr v) = 0 \<longleftrightarrow> num v = strunc (num v) 0"
  using cmp [of v "tr v"] fair tr by simp

lemma ceiling:
  assumes "good v"
  shows "num (if 0 \<le> num v \<and> cmp v (tr v) \<noteq> 0 then plus (tr v) one else tr v) = of_int \<lceil>num v\<rceil>"
proof -
  have "(of_int \<lceil>x\<rceil> :: rat) = of_int \<lfloor>x\<rfloor> + 1" if "x \<noteq> of_int \<lfloor>x\<rfloor>" for x :: rat
  proof -
    have "\<lceil>x\<rceil> = \<lfloor>x\<rfloor> + 1" using that by (intro ceiling_unique) linarith+
    then show ?thesis by simp
  qed
  moreover have "(of_int \<lceil>x\<rceil> :: rat) = of_int \<lfloor>x\<rfloor>" if "x = of_int \<lfloor>x\<rfloor>" for x :: rat
    using that by (metis ceiling_of_int)
  ultimately show ?thesis
    using exact [OF assms] plus(1) [OF fair(2) [OF assms] fair(3)] tr [OF assms] one
    by (auto simp: strunc_int ceiling_def)
qed

lemma floor:
  assumes "good v"
  shows "num (if num v < 0 \<and> cmp v (tr v) \<noteq> 0 then minus (tr v) one else tr v) = of_int \<lfloor>num v\<rfloor>"
proof -
  have "- of_int \<lfloor>- x\<rfloor> - 1 = (of_int \<lfloor>x\<rfloor> :: rat)" if "x \<noteq> - of_int \<lfloor>- x\<rfloor>" for x :: rat
  proof -
    have "\<lfloor>x\<rfloor> = - \<lfloor>- x\<rfloor> - 1" using that by (intro floor_unique) linarith+
    then show ?thesis by simp
  qed
  moreover have "- of_int \<lfloor>- x\<rfloor> = (of_int \<lfloor>x\<rfloor> :: rat)" if "x = - of_int \<lfloor>- x\<rfloor>" for x :: rat
    using that by (metis floor_of_int of_int_minus)
  ultimately show ?thesis
    using exact [OF assms] minus(1) [OF fair(2) [OF assms] fair(3)] tr [OF assms] one
    by (auto simp: strunc_int)
qed

lemma fair_results:
  assumes "good v"
  shows "fair (if b then plus (tr v) one else tr v)" "fair (if b then minus (tr v) one else tr v)"
  using plus(2) minus(2) fair assms by simp_all

end

lemma trunc_proper:
  assumes "canonical v"
  shows "proper (trunc_var v 0)"
proof -
  note t = trunc_var_spec [OF canonical_var_ok [OF assms], of 0]
  have ok: "var_ok (trunc_var v 0)" using trunc_signed(5) [OF canonical_var_ok [OF assms]] .
  show ?thesis
  proof (cases "(weight v + 1) * DEC_DIGITS + 0 \<le> 0 \<or> digits v = []")
    case True
    then have "digits (trunc_var v 0) = [] \<and> sign (trunc_var v 0) = NUMERIC_POS"
      using assms by (auto simp: trunc_var_def Let_def canonical_def DEC_DIGITS_def)
    then show ?thesis using ok by (simp add: proper_def)
  next
    case False
    then have w: "0 \<le> weight v" "digits v \<noteq> []" by (simp_all add: DEC_DIGITS_def)
    then obtain d ds where d: "digits v = d # ds" "d \<noteq> 0" "digits_ok (d # ds)"
      using assms by (cases "digits v") (auto simp: canonical_def var_ok_def)
    have "1 \<le> NB powi weight v" using NB_powi_mono [OF w(1)] by simp
    also have "\<dots> \<le> nabs v" using rval_ge_nonzero [OF d(3,2)] d(1) by (simp add: nabs_def)
    finally have "1 \<le> \<lfloor>nabs v\<rfloor>" by (simp add: le_floor_iff)
    then have "0 < nabs (trunc_var v 0)" using t by (simp add: dec_floor_def)
    then show ?thesis using ok by (auto simp: proper_def nabs_def)
  qed
qed

lemma proper_one: "proper const_one" "nval const_one = 1" "dscale const_one = 0"
  by (simp_all add: proper_def const_one_def var_ok_def nabs_def nval_def NBASE_def)

interpretation ip: integer_part canonical proper nval "\<lambda>v. trunc_var v 0" cmp_var add_var sub_var const_one
  using trunc_proper trunc_signed(1) [OF canonical_var_ok] cmp_var_cases add_var_spec sub_var_spec proper_one
  by unfold_locales auto

lemma sign_value: "canonical v \<Longrightarrow> sign v = NUMERIC_NEG \<longleftrightarrow> nval v < 0" "canonical v \<Longrightarrow> sign v = NUMERIC_POS \<longleftrightarrow> 0 \<le> nval v"
  using proper_neg [OF canonical_proper, of v] nabs_nonneg [OF canonical_var_ok, of v] by (auto simp: nval_def less_le split: if_splits)

lemma ceil_var_spec:
  assumes "canonical v"
  shows "nval (ceil_var v) = of_int \<lceil>nval v\<rceil> \<and> proper (ceil_var v)"
  using ip.ceiling [OF assms] ip.fair_results(1) [OF assms] sign_value(2) [OF assms] by (simp add: ceil_var_def Let_def)

lemma floor_var_spec:
  assumes "canonical v"
  shows "nval (floor_var v) = of_int \<lfloor>nval v\<rfloor> \<and> proper (floor_var v)"
  using ip.floor [OF assms] ip.fair_results(2) [OF assms] sign_value(1) [OF assms] by (simp add: floor_var_def Let_def)

subsection \<open>Declared precision\<close>

lemma TEN_mono: "a \<le> b \<Longrightarrow> TEN a \<le> TEN b"
  by (simp add: power_int_increasing)

lemma leading_digit:
  fixes w :: int
  assumes "digits_ok (dig # ds)" "dig \<noteq> 0"
  defines "dd \<equiv> (w + 1) * 4 - (if dig < 10 then 3 else if dig < 100 then 2 else if dig < 1000 then 1 else 0)"
  shows "TEN (dd - 1) \<le> rval (dig # ds) w \<and> rval (dig # ds) w < TEN dd"
proof -
  define j :: int where "j = (if dig < 10 then 0 else if dig < 100 then 1 else if dig < 1000 then 2 else 3)"
  have d: "0 < dig" "dig < NBASE" using assms by simp_all
  have j: "TEN j \<le> of_int dig" "of_int (dig + 1) \<le> TEN (j + 1)" using d by (auto simp: j_def NBASE_def)
  have dd: "dd - 1 = j + 4 * w" "dd = (j + 1) + 4 * w" by (simp_all add: dd_def j_def)
  have r: "0 \<le> rval ds (w - 1)" "rval ds (w - 1) < NB powi w" using rval_nonneg [of ds] rval_less [of ds "w - 1"] assms(1) by simp_all
  have "TEN j * TEN (4 * w) \<le> of_int dig * TEN (4 * w)" using j(1) by (intro mult_right_mono) (simp_all add: less_imp_le)
  moreover have "of_int (dig + 1) * TEN (4 * w) \<le> TEN (j + 1) * TEN (4 * w)" using j(2) by (intro mult_right_mono) (simp_all add: less_imp_le)
  moreover have "of_int (dig + 1) * TEN (4 * w) = of_int dig * TEN (4 * w) + TEN (4 * w)" by (simp add: distrib_right)
  moreover have "TEN (dd - 1) = TEN j * TEN (4 * w)" by (simp only: dd(1) TEN_add)
  moreover have "TEN dd = TEN (j + 1) * TEN (4 * w)" by (subst dd(2)) (rule TEN_add)
  ultimately show ?thesis using r unfolding rval.simps NB_TEN by linarith
qed

lemma typmod_overflow_iff: "digits_ok ds \<Longrightarrow> typmod_overflow ds ((w + 1) * 4) m \<longleftrightarrow> TEN m \<le> rval ds w"
proof (induction ds arbitrary: w)
  case (Cons dig ds)
  show ?case
  proof (cases "dig = 0")
    case True
    then show ?thesis using Cons.IH [of "w - 1"] Cons.prems by (simp add: DEC_DIGITS_def algebra_simps)
  next
    case False
    define dd where "dd = (w + 1) * 4 - (if dig < 10 then 3 else if dig < 100 then 2 else if dig < 1000 then 1 else 0)"
    have b: "TEN (dd - 1) \<le> rval (dig # ds) w" "rval (dig # ds) w < TEN dd" using leading_digit [OF Cons.prems False, of w] by (simp_all add: dd_def)
    have "typmod_overflow (dig # ds) ((w + 1) * 4) m \<longleftrightarrow> dd > m" using False by (simp add: dd_def)
    also have "\<dots> \<longleftrightarrow> TEN m \<le> rval (dig # ds) w"
    proof (cases "m < dd")
      case True
      then show ?thesis using TEN_mono [of m "dd - 1"] b(1) by simp
    next
      case False
      then show ?thesis using TEN_mono [of dd m] b(2) by simp
    qed
    finally show ?thesis .
  qed
qed (simp add: not_le)

lemma apply_typmod_spec:
  fixes precision scale :: int
  assumes "var_ok v" "0 \<le> precision" "precision < 2 ^ 16" "0 \<le> scale" "scale < 2 ^ 16"
  defines "x \<equiv> sround (nval v) scale"
  shows "apply_typmod v (VARHDRSZ + precision * 2 ^ 16 + scale) =
    (if \<bar>x\<bar> < TEN (precision - scale) then Inr (round_var v scale) else Inl (Ereport ERROR ERRCODE_NUMERIC_VALUE_OUT_OF_RANGE))"
proof -
  let ?u = "round_var v scale"
  have d: "(precision * 2 ^ 16 + scale) div 2 ^ 16 mod 2 ^ 16 = precision" "(precision * 2 ^ 16 + scale) mod 2 ^ 16 = scale"
    using assms(2-5) by simp_all
  note r = round_signed [OF assms(1), of scale]
  have ok: "digits_ok (digits ?u)" using r(5) by (simp add: var_ok_def)
  have x: "\<bar>x\<bar> = rval (digits ?u) (weight ?u)" using nval_abs [OF r(5)] r(1) by (simp add: x_def nabs_def)
  have o: "typmod_overflow (digits ?u) ((weight ?u + 1) * DEC_DIGITS) (precision - scale) \<longleftrightarrow> TEN (precision - scale) \<le> \<bar>x\<bar>"
    using typmod_overflow_iff [OF ok, of "weight ?u"] x by (simp add: DEC_DIGITS_def)
  have "\<bar>x\<bar> < TEN (precision - scale)" if "(weight ?u + 1) * DEC_DIGITS \<le> precision - scale"
  proof -
    have "\<bar>x\<bar> < TEN (4 * (weight ?u + 1))" using rval_less [OF ok, of "weight ?u"] x by (simp add: NB_TEN)
    also have "\<dots> \<le> TEN (precision - scale)" using that by (intro TEN_mono) (simp add: DEC_DIGITS_def)
    finally show ?thesis .
  qed
  then have o2: "(weight ?u + 1) * DEC_DIGITS > precision - scale \<and> typmod_overflow (digits ?u) ((weight ?u + 1) * DEC_DIGITS) (precision - scale) \<longleftrightarrow>
    \<not> \<bar>x\<bar> < TEN (precision - scale)" unfolding o by linarith
  have "VARHDRSZ + precision * 2 ^ 16 + scale - VARHDRSZ = precision * 2 ^ 16 + scale" "\<not> VARHDRSZ + precision * 2 ^ 16 + scale < VARHDRSZ"
    using assms(2,4) by simp_all
  then show ?thesis using o2 by (simp only: apply_typmod_def Let_def d if_False) simp
qed

subsection \<open>Integers\<close>

lemma dval_take_Suc: "i < length ds \<Longrightarrow> dval (take (Suc i) ds) = dval (take i ds) * NBASE + ds ! i"
  by (simp add: take_Suc_conv_app_nth dval_append)

text \<open>The absolute value grows with every digit, so that an overflow on the way means one at the end.\<close>

lemma int64_loop_spec:
  assumes "digits_ok ds" "length ds \<le> i + n" "PG_INT64_MIN \<le> - X" "0 \<le> X" "X = dval (take i ds) * NBASE ^ (i - length ds)"
  shows "int64_loop n ds i (- X) =
    (let z = - (dval ds * NBASE ^ (i + n - length ds)) in if PG_INT64_MIN \<le> z then Some z else None)"
  using assms(2-)
proof (induction n arbitrary: i X)
  case 0
  then show ?case by simp
next
  case (Suc n)
  define Y where "Y = X * NBASE + (if i < length ds then ds ! i else 0)"
  define Z where "Z = dval ds * NBASE ^ (i + Suc n - length ds)"
  have digit: "0 \<le> (if i < length ds then ds ! i else 0)" using digits_ok_nth [OF assms(1)] by simp
  have XY: "X * NBASE \<le> Y" "0 \<le> Y" using digit Suc.prems(3) by (simp_all add: Y_def)
  have Y: "Y = dval (take (Suc i) ds) * NBASE ^ (Suc i - length ds)"
  proof (cases "i < length ds")
    case True
    then show ?thesis using Suc.prems(4) by (simp add: Y_def dval_take_Suc)
  next
    case False
    then show ?thesis using Suc.prems(4) by (simp add: Y_def Suc_diff_le)
  qed
  have YZ: "Y \<le> Z"
  proof -
    have m: "dval (take k ds) * NBASE ^ (k - length ds) \<le> dval ds * NBASE ^ (k + n - length ds)" if "length ds \<le> k + n" for k
    proof (cases "k \<le> length ds")
      case True
      have "dval ds = dval (take k ds) * NBASE ^ (length ds - k) + dval (drop k ds)" using dval_append [of "take k ds" "drop k ds"] by simp
      then have "dval (take k ds) * NBASE ^ (length ds - k) \<le> dval ds" using dval_nonneg [OF digits_ok_part(2) [OF assms(1), of k]] by simp
      moreover have "dval (take k ds) * 1 \<le> dval (take k ds) * NBASE ^ (length ds - k)"
        using dval_nonneg [OF digits_ok_part(1) [OF assms(1), of k]] by (intro mult_left_mono) simp_all
      moreover have "dval ds * 1 \<le> dval ds * NBASE ^ (k + n - length ds)" using dval_nonneg [OF assms(1)] by (intro mult_left_mono) simp_all
      ultimately show ?thesis using True by simp
    next
      case False
      then show ?thesis using dval_nonneg [OF assms(1)] by (intro mult_mono power_increasing) simp_all
    qed
    show ?thesis unfolding Y Z_def using m [of "Suc i"] Suc.prems(1) by simp
  qed
  have max: "- X * NBASE \<le> PG_INT64_MAX" "- Y \<le> PG_INT64_MAX" using XY Suc.prems(3) by (auto simp: PG_INT64_MAX_def intro: order_trans [of _ 0])
  show ?case
  proof (cases "PG_INT64_MIN \<le> - Y")
    case True
    have "\<not> - X * NBASE < PG_INT64_MIN" using XY True by simp
    then have "int64_loop (Suc n) ds i (- X) = int64_loop n ds (Suc i) (- Y)"
      using True max by (auto simp: pg_mul_s64_overflow_def pg_sub_s64_overflow_def Let_def Y_def)
    also have "\<dots> = (let z = - (dval ds * NBASE ^ (Suc i + n - length ds)) in if PG_INT64_MIN \<le> z then Some z else None)"
      by (rule Suc.IH [OF _ True XY(2) Y]) (use Suc.prems(1) in simp)
    finally show ?thesis by simp
  next
    case False
    then have "int64_loop (Suc n) ds i (- X) = None"
      using max by (auto simp: pg_mul_s64_overflow_def pg_sub_s64_overflow_def Let_def Y_def split: if_splits)
    moreover have "\<not> PG_INT64_MIN \<le> - Z" using False YZ by simp
    ultimately show ?thesis by (simp add: Z_def)
  qed
qed

lemma integer_digits:
  assumes "canonical v" "nval v = of_int z" "digits v \<noteq> []"
  shows "0 \<le> weight v" "length (digits v) \<le> 1 + nat (weight v)"
    "nabs v = of_int (dval (digits v) * NBASE ^ (1 + nat (weight v) - length (digits v)))"
proof -
  define u where "u = v\<lparr>dscale := 0\<rparr>"
  have "nval u = nval v" by (rule nval_fields) (simp_all add: u_def nabs_def)
  then have "canonical u" "scale_ok u" "digits u \<noteq> []" using assms by (simp_all add: u_def canonical_def var_ok_def scale_ok_def)
  then have "4 * (ndigits v - weight v - 1) < 4" using scale_digits [of u] by (simp add: u_def)
  then have a: "ndigits v \<le> weight v + 1" by presburger
  moreover have "0 < ndigits v" using assms(3) by simp
  ultimately show w: "0 \<le> weight v" by linarith
  show "length (digits v) \<le> 1 + nat (weight v)" using a w by linarith
  with w have "weight v + 1 - ndigits v = int (1 + nat (weight v) - length (digits v))" by simp
  then show "nabs v = of_int (dval (digits v) * NBASE ^ (1 + nat (weight v) - length (digits v)))" unfolding nabs_def rval_dval by (simp only: NB_powi_nat of_int_mult)
qed

lemma numericvar_to_int64_spec:
  assumes "var_ok v" "sround (nval v) 0 = of_int z"
  shows "numericvar_to_int64 v = (if PG_INT64_MIN \<le> z \<and> z \<le> PG_INT64_MAX then Some z else None)"
proof -
  define r where "r = strip_var (round_var v 0)"
  have r: "canonical r" "nval r = of_int z" using round_signed(2,3) [OF assms(1), of 0] assms(2) by (simp_all add: r_def)
  show ?thesis
  proof (cases "digits r = []")
    case True
    then have "z = 0" using nval_zero_iff [OF r(1)] r(2) by simp
    then show ?thesis using True by (simp add: numericvar_to_int64_def r_def [symmetric] Let_def PG_INT64_MIN_def PG_INT64_MAX_def)
  next
    case False
    note g = integer_digits [OF r False]
    define n A where "n = nat (weight r)" and "A = dval (digits r) * NBASE ^ (1 + n - length (digits r))"
    have A: "nabs r = of_int A" using g(3) by (simp add: A_def n_def)
    have z: "z = (if sign r = NUMERIC_NEG then - A else A)" using r(2) A by (simp add: nval_def split: if_splits)
    have A0: "0 < A" using canonical_nonzero [OF r(1) False] A by simp
    obtain d ds where d: "digits r = d # ds" using False by (cases "digits r") auto
    have ok: "digits_ok (digits r)" using r(1) by (simp add: canonical_def var_ok_def)
    have "int64_loop n (digits r) 1 (- d) = (let z = - (dval (digits r) * NBASE ^ (1 + n - length (digits r))) in if PG_INT64_MIN \<le> z then Some z else None)"
      by (rule int64_loop_spec [OF ok]) (use g(2) d ok in \<open>auto simp: n_def PG_INT64_MIN_def NBASE_def\<close>)
    then have "int64_loop n (digits r) 1 (- (digits r ! 0)) = (if PG_INT64_MIN \<le> - A then Some (- A) else None)" using d by (simp add: A_def Let_def)
    then show ?thesis using False z A0
      by (auto simp: numericvar_to_int64_def r_def [symmetric] n_def [symmetric] Let_def PG_INT64_MIN_def PG_INT64_MAX_def)
  qed
qed

lemma sround_integer: "\<exists>z. sround x 0 = of_int z"
  using sround_scaled [of x 0] by (auto elim: Ints_cases)

lemma uint64_digits_spec:
  assumes "0 \<le> u" "u < NBASE ^ n" "0 < n"
  shows "\<exists>es. uint64_digits u ds = es @ ds \<and> digits_ok es \<and> dval es = u \<and> es \<noteq> [] \<and> length es \<le> n \<and> (0 < u \<longrightarrow> hd es \<noteq> 0)"
  using assms
proof (induction n arbitrary: u ds)
  case (Suc n)
  define q m where "q = u div NBASE" and "m = u mod NBASE"
  have um: "u = q * NBASE + m" "0 \<le> m" "m < NBASE" "0 \<le> q" using Suc.prems(1) by (simp_all add: q_def m_def pos_imp_zdiv_nonneg_iff)
  have eq: "uint64_digits u ds = (if 0 < q then uint64_digits q (m # ds) else m # ds)"
  proof -
    have "u - q * NBASE = m" using um(1) by simp
    then show ?thesis by (subst uint64_digits.simps) (simp only: Let_def q_def [symmetric])
  qed
  show ?case
  proof (cases "0 < q")
    case True
    have lt: "q < NBASE ^ n" unfolding q_def by (rule unit_div_less) (use Suc.prems in simp_all)
    then have "0 < n" using True by (cases n) auto
    then obtain es where "uint64_digits q (m # ds) = es @ m # ds" "digits_ok es" "dval es = q" "es \<noteq> []" "length es \<le> n" "hd es \<noteq> 0"
      using Suc.IH [of q "m # ds"] um(4) lt True by auto
    then show ?thesis using eq True um by (intro exI [of _ "es @ [m]"]) (simp add: dval_append)
  next
    case False
    then show ?thesis using eq um by (intro exI [of _ "[m]"]) simp
  qed
qed simp

lemma int64_to_numericvar_spec:
  assumes "PG_INT64_MIN \<le> z" "z \<le> PG_INT64_MAX"
  shows "nval (int64_to_numericvar z) = of_int z \<and> proper (int64_to_numericvar z) \<and> dscale (int64_to_numericvar z) = 0 \<and> ndigits (int64_to_numericvar z) \<le> 5"
proof (cases "z = 0")
  case True
  then show ?thesis by (simp add: int64_to_numericvar_def nval_def nabs_def proper_def var_ok_def)
next
  case False
  define u where "u = (if z < 0 then (- z) mod 2 ^ 64 else z)"
  have u: "u = \<bar>z\<bar>" using assms by (simp add: u_def PG_INT64_MIN_def PG_INT64_MAX_def)
  have "u < NBASE ^ 5" using u assms by (simp add: PG_INT64_MIN_def PG_INT64_MAX_def NBASE_def)
  then obtain es where e: "uint64_digits u [] = es" "digits_ok es" "dval es = u" "es \<noteq> []" "length es \<le> 5" "hd es \<noteq> 0"
    using uint64_digits_spec [of u 5 "[]"] u False by auto
  have eq: "int64_to_numericvar z = \<lparr>weight = int (length es) - 1, sign = (if z < 0 then NUMERIC_NEG else NUMERIC_POS), dscale = 0, digits = es\<rparr>"
    using False e(1) by (cases "z < 0") (simp_all add: int64_to_numericvar_def Let_def u_def)
  have "nabs (int64_to_numericvar z) = of_int \<bar>z\<bar>" using e(3) by (simp add: eq nabs_def rval_dval u)
  moreover have "sign (int64_to_numericvar z) = (if z < 0 then NUMERIC_NEG else NUMERIC_POS)" "dscale (int64_to_numericvar z) = 0"
    "digits (int64_to_numericvar z) = es" by (simp_all add: eq)
  ultimately show ?thesis using e False by (simp add: nval_def proper_def var_ok_def)
qed

end
