(* ===== verification/NumericPack.thy ===== *)
theory NumericPack
  imports NumericFunc
begin

text \<open>
  The packed format of numeric values, \<^verbatim>\<open>src/src/include/utils/numeric.h\<close>, \<^verbatim>\<open>src/src/include/utils/numeric_gs.h\<close> and \<^verbatim>\<open>make_result\<close> of
  \<^verbatim>\<open>numeric.cpp\<close>. A value is a header word of 16 bits and the 16-bit words behind it. The high bits of the header tell the format: short, with sign, scale
  and weight in the header; long, with sign and scale in the header and the weight in the first word behind it; not a number; or a big integer. The words
  are integers, with the reduction to 16 bits written out.
\<close>

unbundle bit_operations_syntax

definition to_u16 :: "int \<Rightarrow> int" where "to_u16 x = x mod 2 ^ 16"
definition to_s16 :: "int \<Rightarrow> int" where "to_s16 x = (x + 2 ^ 15) mod 2 ^ 16 - 2 ^ 15"

record NumericData =
  n_header :: int
  n_body :: "int list"

definition NUMERIC_SIGN_MASK :: int where "NUMERIC_SIGN_MASK = 0xC000"
definition NUMERIC_SHORT :: int where "NUMERIC_SHORT = 0x8000"
definition NUMERIC_64 :: int where "NUMERIC_64 = 0xD000"
definition NUMERIC_128 :: int where "NUMERIC_128 = 0xE000"
definition NUMERIC_BI_MASK :: int where "NUMERIC_BI_MASK = 0xF000"
definition NUMERIC_BI_SCALEMASK :: int where "NUMERIC_BI_SCALEMASK = 0x00FF"
definition NUMERIC_SHORT_SIGN_MASK :: int where "NUMERIC_SHORT_SIGN_MASK = 0x2000"
definition NUMERIC_SHORT_DSCALE_MASK :: int where "NUMERIC_SHORT_DSCALE_MASK = 0x1F80"
definition NUMERIC_SHORT_DSCALE_SHIFT :: nat where "NUMERIC_SHORT_DSCALE_SHIFT = 7"
definition NUMERIC_SHORT_DSCALE_MAX :: int where "NUMERIC_SHORT_DSCALE_MAX = drop_bit NUMERIC_SHORT_DSCALE_SHIFT NUMERIC_SHORT_DSCALE_MASK"
definition NUMERIC_SHORT_WEIGHT_SIGN_MASK :: int where "NUMERIC_SHORT_WEIGHT_SIGN_MASK = 0x0040"
definition NUMERIC_SHORT_WEIGHT_MASK :: int where "NUMERIC_SHORT_WEIGHT_MASK = 0x003F"
definition NUMERIC_SHORT_WEIGHT_MAX :: int where "NUMERIC_SHORT_WEIGHT_MAX = NUMERIC_SHORT_WEIGHT_MASK"
definition NUMERIC_SHORT_WEIGHT_MIN :: int where "NUMERIC_SHORT_WEIGHT_MIN = - (NUMERIC_SHORT_WEIGHT_MASK + 1)"
definition NUMERIC_DSCALE_MASK :: int where "NUMERIC_DSCALE_MASK = 0x3FFF"

definition sign_flags :: "NumericSign \<Rightarrow> int" where
  "sign_flags s = (case s of NUMERIC_POS \<Rightarrow> 0x0000 | NUMERIC_NEG \<Rightarrow> 0x4000 | NUMERIC_NAN \<Rightarrow> 0xC000)"

definition flags_sign :: "int \<Rightarrow> NumericSign" where
  "flags_sign f = (if f = 0x0000 then NUMERIC_POS else if f = 0x4000 then NUMERIC_NEG else NUMERIC_NAN)"

definition NUMERIC_FLAGBITS :: "NumericData \<Rightarrow> int" where
  "NUMERIC_FLAGBITS n = n_header n AND NUMERIC_SIGN_MASK"

definition NUMERIC_NB_FLAGBITS :: "NumericData \<Rightarrow> int" where
  "NUMERIC_NB_FLAGBITS n = n_header n AND NUMERIC_BI_MASK"

definition NUMERIC_IS_NAN :: "NumericData \<Rightarrow> bool" where
  "NUMERIC_IS_NAN n \<longleftrightarrow> NUMERIC_NB_FLAGBITS n = sign_flags NUMERIC_NAN"

definition NUMERIC_IS_BI :: "NumericData \<Rightarrow> bool" where
  "NUMERIC_IS_BI n \<longleftrightarrow> NUMERIC_NB_FLAGBITS n > sign_flags NUMERIC_NAN"

definition NUMERIC_IS_NANORBI :: "NumericData \<Rightarrow> bool" where
  "NUMERIC_IS_NANORBI n \<longleftrightarrow> NUMERIC_NB_FLAGBITS n \<ge> sign_flags NUMERIC_NAN"

definition NUMERIC_IS_SHORT :: "NumericData \<Rightarrow> bool" where
  "NUMERIC_IS_SHORT n \<longleftrightarrow> NUMERIC_FLAGBITS n = NUMERIC_SHORT"

definition VARSIZE :: "NumericData \<Rightarrow> int" where
  "VARSIZE n = VARHDRSZ + 2 + 2 * int (length (n_body n))"

definition NUMERIC_HEADER_SIZE :: "NumericData \<Rightarrow> int" where
  "NUMERIC_HEADER_SIZE n = VARHDRSZ + 2 + (if NUMERIC_FLAGBITS n AND 0x8000 = 0 then 2 else 0)"

definition NUMERIC_SIGN :: "NumericData \<Rightarrow> NumericSign" where
  "NUMERIC_SIGN n =
    (if NUMERIC_IS_SHORT n then (if n_header n AND NUMERIC_SHORT_SIGN_MASK \<noteq> 0 then NUMERIC_NEG else NUMERIC_POS) else flags_sign (NUMERIC_FLAGBITS n))"

definition NUMERIC_DSCALE :: "NumericData \<Rightarrow> int" where
  "NUMERIC_DSCALE n =
    (if NUMERIC_IS_SHORT n then drop_bit NUMERIC_SHORT_DSCALE_SHIFT (n_header n AND NUMERIC_SHORT_DSCALE_MASK) else n_header n AND NUMERIC_DSCALE_MASK)"

definition NUMERIC_WEIGHT :: "NumericData \<Rightarrow> int" where
  "NUMERIC_WEIGHT n =
    (if NUMERIC_IS_SHORT n then
       (if n_header n AND NUMERIC_SHORT_WEIGHT_SIGN_MASK \<noteq> 0 then NOT NUMERIC_SHORT_WEIGHT_MASK else 0) OR (n_header n AND NUMERIC_SHORT_WEIGHT_MASK)
     else (case n_body n of w # _ \<Rightarrow> w | [] \<Rightarrow> 0))"

definition NUMERIC_DIGITS :: "NumericData \<Rightarrow> int list" where
  "NUMERIC_DIGITS n = (if NUMERIC_IS_SHORT n then n_body n else drop 1 (n_body n))"

definition NUMERIC_NDIGITS :: "NumericData \<Rightarrow> int" where
  "NUMERIC_NDIGITS n = (VARSIZE n - NUMERIC_HEADER_SIZE n) div 2"

definition NUMERIC_CAN_BE_SHORT :: "int \<Rightarrow> int \<Rightarrow> bool" where
  "NUMERIC_CAN_BE_SHORT s w \<longleftrightarrow> s \<le> NUMERIC_SHORT_DSCALE_MAX \<and> w \<le> NUMERIC_SHORT_WEIGHT_MAX \<and> w \<ge> NUMERIC_SHORT_WEIGHT_MIN"

definition init_var_from_num :: "NumericData \<Rightarrow> NumericVar" where
  "init_var_from_num n =
    \<lparr>weight = NUMERIC_WEIGHT n, sign = NUMERIC_SIGN n, dscale = NUMERIC_DSCALE n, digits = take (nat (NUMERIC_NDIGITS n)) (NUMERIC_DIGITS n)\<rparr>"

text \<open>The header of the short format.\<close>

definition short_header :: "NumericSign \<Rightarrow> int \<Rightarrow> int \<Rightarrow> int" where
  "short_header s ds w = to_u16
    ((((if s = NUMERIC_NEG then NUMERIC_SHORT OR NUMERIC_SHORT_SIGN_MASK else NUMERIC_SHORT) OR push_bit NUMERIC_SHORT_DSCALE_SHIFT ds)
      OR (if w < 0 then NUMERIC_SHORT_WEIGHT_SIGN_MASK else 0)) OR (w AND NUMERIC_SHORT_WEIGHT_MASK))"

definition make_result :: "NumericVar \<Rightarrow> NumericData result" where
  "make_result v =
    (if sign v = NUMERIC_NAN then Inr \<lparr>n_header = sign_flags NUMERIC_NAN, n_body = []\<rparr>
     else let (ds, w) = strip_leading (digits v) (weight v);
              ds = strip_trailing ds;
              (w, s) = (if ds = [] then (0, NUMERIC_POS) else (w, sign v));
              res = (if NUMERIC_CAN_BE_SHORT (dscale v) w then \<lparr>n_header = short_header s (dscale v) w, n_body = ds\<rparr>
                     else \<lparr>n_header = to_u16 (sign_flags s OR (dscale v AND NUMERIC_DSCALE_MASK)), n_body = to_s16 w # ds\<rparr>)
          in if NUMERIC_WEIGHT res \<noteq> w \<or> NUMERIC_DSCALE res \<noteq> dscale v then Inl (Ereport ERROR ERRCODE_NUMERIC_VALUE_OUT_OF_RANGE) else Inr res)"

subsection \<open>Fields of a header\<close>

lemmas header_defs = NUMERIC_SIGN_MASK_def NUMERIC_SHORT_def NUMERIC_64_def NUMERIC_128_def NUMERIC_BI_MASK_def NUMERIC_BI_SCALEMASK_def
  NUMERIC_SHORT_SIGN_MASK_def NUMERIC_SHORT_DSCALE_MASK_def NUMERIC_SHORT_DSCALE_SHIFT_def NUMERIC_SHORT_DSCALE_MAX_def
  NUMERIC_SHORT_WEIGHT_SIGN_MASK_def NUMERIC_SHORT_WEIGHT_MASK_def NUMERIC_SHORT_WEIGHT_MAX_def NUMERIC_SHORT_WEIGHT_MIN_def NUMERIC_DSCALE_MASK_def

lemma or_push: "0 \<le> x \<Longrightarrow> x < 2 ^ n \<Longrightarrow> x OR push_bit n y = x + y * 2 ^ n" for x y :: int
proof -
  assume "0 \<le> x" "x < 2 ^ n"
  then have "take_bit n x = x" by (simp add: take_bit_int_eq_self)
  then show ?thesis using concat_bit_eq [of n x y] concat_bit_def [of n x y] by (simp add: push_bit_eq_mult)
qed

lemma and_field: "x AND push_bit n (mask m) = x div 2 ^ n mod 2 ^ m * 2 ^ n" for x :: int
proof -
  have "x AND push_bit n (mask m) = push_bit n (take_bit m (drop_bit n x))"
    by (rule bit_eqI) (auto simp: bit_simps)
  then show ?thesis by (simp add: push_bit_eq_mult take_bit_eq_mod drop_bit_eq_div)
qed

lemma mask_values:
  "push_bit 14 (mask 2) = (0xC000 :: int)" "push_bit 12 (mask 4) = (0xF000 :: int)" "push_bit 13 (mask 1) = (0x2000 :: int)"
  "push_bit 7 (mask 6) = (0x1F80 :: int)" "push_bit 6 (mask 1) = (0x0040 :: int)" "push_bit 0 (mask 6) = (0x003F :: int)"
  "push_bit 0 (mask 14) = (0x3FFF :: int)" "push_bit 0 (mask 8) = (0x00FF :: int)" "push_bit 15 (mask 1) = (0x8000 :: int)"
  by (simp_all add: mask_eq_exp_minus_1 push_bit_eq_mult)

lemmas field_masks = and_field [of _ 14 2, unfolded mask_values] and_field [of _ 12 4, unfolded mask_values] and_field [of _ 13 1, unfolded mask_values]
  and_field [of _ 7 6, unfolded mask_values] and_field [of _ 6 1, unfolded mask_values] and_field [of _ 0 6, unfolded mask_values]
  and_field [of _ 0 14, unfolded mask_values] and_field [of _ 0 8, unfolded mask_values] and_field [of _ 15 1, unfolded mask_values]

lemma place:
  fixes x m N :: int
  assumes "0 \<le> m" "m < N"
  shows "(x * N + m) mod N = m" "(x * N + m) div N = x"
  using assms by simp_all

lemma short_header_eq:
  assumes "0 \<le> ds" "ds \<le> 63" "- 64 \<le> w" "w \<le> 63"
  shows "short_header s ds w = (((4 + (if s = NUMERIC_NEG then 1 else 0)) * 64 + ds) * 2 + (if w < 0 then 1 else 0)) * 64 + w mod 64"
proof -
  define sg b :: int where "sg = (if s = NUMERIC_NEG then 1 else 0)" and "b = (if w < 0 then 1 else 0)"
  have sb: "0 \<le> sg" "sg \<le> 1" "0 \<le> b" "b \<le> 1" by (auto simp: sg_def b_def)
  have w: "w AND 63 = w mod 64" using field_masks(6) [of w] by simp
  have m: "0 \<le> w mod 64" "w mod 64 < 2 ^ 6" by simp_all
  have "(if s = NUMERIC_NEG then NUMERIC_SHORT OR NUMERIC_SHORT_SIGN_MASK else NUMERIC_SHORT) = push_bit 13 (4 + sg)"
    by (simp add: header_defs sg_def push_bit_eq_mult)
  moreover have "(if w < 0 then NUMERIC_SHORT_WEIGHT_SIGN_MASK else 0) = push_bit 6 b" by (simp add: header_defs b_def push_bit_eq_mult)
  moreover have "((push_bit 13 (4 + sg) OR push_bit 7 ds) OR push_bit 6 b) OR (w AND 63) = (((w mod 64 OR push_bit 6 b) OR push_bit 7 ds) OR push_bit 13 (4 + sg))"
    by (simp add: w ac_simps)
  moreover have "w mod 64 OR push_bit 6 b = w mod 64 + b * 2 ^ 6" by (rule or_push [OF m])
  moreover have "(w mod 64 + b * 2 ^ 6) OR push_bit 7 ds = (w mod 64 + b * 2 ^ 6) + ds * 2 ^ 7" by (rule or_push) (use m sb in auto)
  moreover have "((w mod 64 + b * 2 ^ 6) + ds * 2 ^ 7) OR push_bit 13 (4 + sg) = ((w mod 64 + b * 2 ^ 6) + ds * 2 ^ 7) + (4 + sg) * 2 ^ 13"
    by (rule or_push) (use m sb assms in auto)
  ultimately have "short_header s ds w = to_u16 (w mod 64 + b * 64 + ds * 128 + (4 + sg) * 8192)"
    by (simp add: short_header_def NUMERIC_SHORT_WEIGHT_MASK_def NUMERIC_SHORT_DSCALE_SHIFT_def)
  also have "\<dots> = w mod 64 + b * 64 + ds * 128 + (4 + sg) * 8192" unfolding to_u16_def by (rule mod_pos_pos_trivial) (use m sb assms in auto)
  finally show ?thesis by (simp add: sg_def [symmetric] b_def [symmetric])
qed

text \<open>What is read from a header of the short format.\<close>

lemma header_parts:
  fixes t ds b m :: int
  assumes "0 \<le> ds" "ds < 64" "0 \<le> b" "b < 2" "0 \<le> m" "m < 64"
  defines "h \<equiv> ((t * 64 + ds) * 2 + b) * 64 + m"
  shows "h mod 64 = m" "h div 2 ^ 6 mod 2 = b" "h div 2 ^ 7 mod 64 = ds" "h div 2 ^ 13 = t"
proof -
  show "h mod 64 = m" unfolding h_def using assms(5,6) by (rule place)
  have 1: "h div 64 = (t * 64 + ds) * 2 + b" unfolding h_def using assms(5,6) by (rule place)
  have "h div 64 mod 2 = b" unfolding 1 using assms(3,4) by (rule place)
  then show "h div 2 ^ 6 mod 2 = b" by simp
  have "h div 64 div 2 = t * 64 + ds" unfolding 1 using assms(3,4) by (rule place)
  then have 2: "h div 2 ^ 7 = t * 64 + ds" by (simp add: zdiv_zmult2_eq [of 2 h 64, symmetric])
  show "h div 2 ^ 7 mod 64 = ds" unfolding 2 using assms(1,2) by (rule place)
  have "h div 2 ^ 7 div 64 = t" unfolding 2 using assms(1,2) by (rule place)
  then show "h div 2 ^ 13 = t" by (simp add: zdiv_zmult2_eq [of 64 h 128, symmetric])
qed

lemma not_or_low: "0 \<le> x \<Longrightarrow> x < 64 \<Longrightarrow> (- 64) OR x = x - 64" for x :: int
  using or_push [of x 6 "- 1"] by (simp add: push_bit_eq_mult or.commute)

lemma short_fields:
  assumes "0 \<le> ds" "ds \<le> 63" "- 64 \<le> w" "w \<le> 63" and n: "n = \<lparr>n_header = short_header s ds w, n_body = dl\<rparr>"
  shows "NUMERIC_IS_SHORT n" "\<not> NUMERIC_IS_NANORBI n" "NUMERIC_SIGN n = (if s = NUMERIC_NEG then NUMERIC_NEG else NUMERIC_POS)" "NUMERIC_DSCALE n = ds"
    "NUMERIC_WEIGHT n = w" "NUMERIC_DIGITS n = dl" "NUMERIC_NDIGITS n = int (length dl)"
proof -
  define sg b :: int where "sg = (if s = NUMERIC_NEG then 1 else 0)" and "b = (if w < 0 then 1 else 0)"
  have sb: "0 \<le> sg" "sg < 2" "0 \<le> b" "b < 2" "0 \<le> w mod 64" "w mod 64 < 64" by (auto simp: sg_def b_def)
  have h: "n_header n = (((4 + sg) * 64 + ds) * 2 + b) * 64 + w mod 64" using short_header_eq [OF assms(1-4)] n by (simp add: sg_def b_def)
  have d: "ds < 64" using assms(2) by simp
  note p = header_parts [OF assms(1) d sb(3-6), of "4 + sg", folded h]
  have p14: "n_header n div 2 ^ 14 = 2"
  proof -
    have "n_header n div 2 ^ 14 = n_header n div 2 ^ 13 div 2" by (simp add: zdiv_zmult2_eq [symmetric])
    then show ?thesis using p(4) sb by simp
  qed
  have p12: "n_header n div 2 ^ 12 < 12" "0 \<le> n_header n div 2 ^ 12"
  proof -
    have "n_header n div 2 ^ 12 div 2 = 4 + sg" using p(4) by (simp add: zdiv_zmult2_eq [symmetric])
    moreover have "x < 12 \<and> 0 \<le> x" if "x div 2 = 4 + sg" for x :: int using that sb(1,2) by presburger
    ultimately show "n_header n div 2 ^ 12 < 12" "0 \<le> n_header n div 2 ^ 12" by simp_all
  qed
  show S: "NUMERIC_IS_SHORT n" unfolding NUMERIC_IS_SHORT_def NUMERIC_FLAGBITS_def NUMERIC_SIGN_MASK_def NUMERIC_SHORT_def field_masks p14 by simp
  have "n_header n div 2 ^ 12 mod 16 = n_header n div 2 ^ 12" using p12 by simp
  then show "\<not> NUMERIC_IS_NANORBI n" using p12 unfolding NUMERIC_IS_NANORBI_def NUMERIC_NB_FLAGBITS_def NUMERIC_BI_MASK_def field_masks sign_flags_def by simp
  have "n_header n div 2 ^ 13 mod 2 = sg" unfolding p(4) using sb by presburger
  then show "NUMERIC_SIGN n = (if s = NUMERIC_NEG then NUMERIC_NEG else NUMERIC_POS)"
    using S unfolding NUMERIC_SIGN_def NUMERIC_SHORT_SIGN_MASK_def field_masks by (simp add: sg_def)
  show "NUMERIC_DSCALE n = ds"
    using S p(3) unfolding NUMERIC_DSCALE_def NUMERIC_SHORT_DSCALE_MASK_def NUMERIC_SHORT_DSCALE_SHIFT_def field_masks by (simp add: drop_bit_eq_div)
  have "(if b \<noteq> 0 then - 64 else 0) OR (w mod 64) = w"
  proof (cases "w < 0")
    case True
    have "(w + 64) mod 64 = w + 64" by (rule mod_pos_pos_trivial) (use True assms(3) in auto)
    then have "w mod 64 = w + 64" by simp
    then show ?thesis using True assms(3) not_or_low [of "w mod 64"] sb by (simp add: b_def)
  next
    case False
    then show ?thesis using assms(4) by (simp add: b_def)
  qed
  then show "NUMERIC_WEIGHT n = w"
    using S p(1,2) unfolding NUMERIC_WEIGHT_def NUMERIC_SHORT_WEIGHT_SIGN_MASK_def NUMERIC_SHORT_WEIGHT_MASK_def field_masks by (auto simp: not_int_def split: if_splits)
  show "NUMERIC_DIGITS n = dl" using S n by (simp add: NUMERIC_DIGITS_def)
  have "NUMERIC_FLAGBITS n AND 0x8000 \<noteq> 0" using S by (simp add: NUMERIC_IS_SHORT_def NUMERIC_SHORT_def)
  then show "NUMERIC_NDIGITS n = int (length dl)" using n by (simp add: NUMERIC_NDIGITS_def NUMERIC_HEADER_SIZE_def VARSIZE_def)
qed

subsection \<open>The long format\<close>

lemma to_s16_iff: "to_s16 w = w \<longleftrightarrow> - (2 ^ 15) \<le> w \<and> w < 2 ^ 15"
proof
  assume "to_s16 w = w"
  then have "(w + 2 ^ 15) mod 2 ^ 16 = w + 2 ^ 15" unfolding to_s16_def by linarith
  moreover have "0 \<le> (w + 2 ^ 15) mod 2 ^ 16" "(w + 2 ^ 15) mod 2 ^ 16 < 2 ^ 16" by simp_all
  ultimately have "0 \<le> w + 2 ^ 15" "w + 2 ^ 15 < 2 ^ 16" by (simp_all only:)
  then show "- (2 ^ 15) \<le> w \<and> w < 2 ^ 15" by simp
qed (simp add: to_s16_def)

lemma long_header_eq:
  assumes "s \<noteq> NUMERIC_NAN"
  shows "to_u16 (sign_flags s OR (ds AND NUMERIC_DSCALE_MASK)) = (if s = NUMERIC_NEG then 1 else 0) * 2 ^ 14 + ds mod 2 ^ 14"
proof -
  define sg :: int where "sg = (if s = NUMERIC_NEG then 1 else 0)"
  have m: "ds AND 0x3FFF = ds mod 2 ^ 14" unfolding field_masks by simp
  have b: "0 \<le> ds mod 2 ^ 14" "ds mod 2 ^ 14 < 2 ^ 14" by simp_all
  have sg: "0 \<le> sg" "sg \<le> 1" by (simp_all add: sg_def)
  have "sign_flags s = push_bit 14 sg" using assms by (cases s) (simp_all add: sign_flags_def sg_def push_bit_eq_mult)
  then have "sign_flags s OR (ds AND NUMERIC_DSCALE_MASK) = ds mod 2 ^ 14 + sg * 2 ^ 14"
    unfolding NUMERIC_DSCALE_MASK_def m using or_push [OF b, of sg] by (simp add: or.commute)
  moreover have "to_u16 (ds mod 2 ^ 14 + sg * 2 ^ 14) = ds mod 2 ^ 14 + sg * 2 ^ 14"
    unfolding to_u16_def by (rule mod_pos_pos_trivial) (use b sg in auto)
  ultimately show ?thesis by (simp add: sg_def [symmetric])
qed

lemma long_fields:
  assumes "s \<noteq> NUMERIC_NAN" and n: "n = \<lparr>n_header = to_u16 (sign_flags s OR (ds AND NUMERIC_DSCALE_MASK)), n_body = to_s16 w # dl\<rparr>"
  shows "\<not> NUMERIC_IS_SHORT n" "\<not> NUMERIC_IS_NANORBI n" "NUMERIC_SIGN n = s" "NUMERIC_DSCALE n = ds mod 2 ^ 14"
    "NUMERIC_WEIGHT n = to_s16 w" "NUMERIC_DIGITS n = dl" "NUMERIC_NDIGITS n = int (length dl)"
proof -
  define sg m :: int where "sg = (if s = NUMERIC_NEG then 1 else 0)" and "m = ds mod 2 ^ 14"
  have sg: "0 \<le> sg" "sg \<le> 1" by (simp_all add: sg_def)
  have m: "0 \<le> m" "m < 2 ^ 14" by (simp_all add: m_def)
  have h: "n_header n = sg * 2 ^ 14 + m" using long_header_eq [OF assms(1)] n by (simp add: sg_def m_def)
  have p: "n_header n mod 2 ^ 14 = m" "n_header n div 2 ^ 14 = sg" unfolding h using place [OF m, of sg] by simp_all
  have f: "NUMERIC_FLAGBITS n = sg * 2 ^ 14" unfolding NUMERIC_FLAGBITS_def NUMERIC_SIGN_MASK_def field_masks p using sg by simp
  then show S: "\<not> NUMERIC_IS_SHORT n" using sg by (auto simp: NUMERIC_IS_SHORT_def NUMERIC_SHORT_def)
  have "n_header n div 2 ^ 12 < 8" "0 \<le> n_header n div 2 ^ 12"
  proof -
    have "n_header n < 2 ^ 12 * 8" "0 \<le> n_header n" unfolding h using sg m by auto
    then show "n_header n div 2 ^ 12 < 8" "0 \<le> n_header n div 2 ^ 12" using unit_div_less [of "2 ^ 12" "n_header n" 8] by (simp_all add: pos_imp_zdiv_nonneg_iff)
  qed
  then have "n_header n div 2 ^ 12 mod 2 ^ 4 * 2 ^ 12 < 0xC000" by simp
  then show "\<not> NUMERIC_IS_NANORBI n" unfolding NUMERIC_IS_NANORBI_def NUMERIC_NB_FLAGBITS_def NUMERIC_BI_MASK_def field_masks sign_flags_def by simp
  show "NUMERIC_SIGN n = s" using S f assms(1) by (cases s) (simp_all add: NUMERIC_SIGN_def flags_sign_def sg_def)
  show "NUMERIC_DSCALE n = ds mod 2 ^ 14" using S p(1) unfolding NUMERIC_DSCALE_def NUMERIC_DSCALE_MASK_def field_masks by (simp add: m_def)
  show "NUMERIC_WEIGHT n = to_s16 w" "NUMERIC_DIGITS n = dl" using S n by (simp_all add: NUMERIC_WEIGHT_def NUMERIC_DIGITS_def)
  have "NUMERIC_FLAGBITS n AND 0x8000 = 0" unfolding f field_masks using sg by (auto simp: sg_def)
  then show "NUMERIC_NDIGITS n = int (length dl)" using n by (simp add: NUMERIC_NDIGITS_def NUMERIC_HEADER_SIZE_def VARSIZE_def)
qed

subsection \<open>Packing and unpacking\<close>

lemma NUMERIC_DSCALE_nonneg: "0 \<le> NUMERIC_DSCALE n"
  unfolding NUMERIC_DSCALE_def NUMERIC_SHORT_DSCALE_MASK_def NUMERIC_SHORT_DSCALE_SHIFT_def NUMERIC_DSCALE_MASK_def field_masks
  by (simp add: drop_bit_eq_div)

definition pack_ok :: "NumericVar \<Rightarrow> bool" where
  "pack_ok v \<longleftrightarrow> 0 \<le> dscale v \<and> dscale v < 2 ^ 14 \<and> - (2 ^ 15) \<le> weight (strip_var v) \<and> weight (strip_var v) < 2 ^ 15"

lemma make_result_spec:
  assumes "sign v \<noteq> NUMERIC_NAN"
  shows "if pack_ok v then \<exists>n. make_result v = Inr n \<and> init_var_from_num n = strip_var v \<and> \<not> NUMERIC_IS_NANORBI n
    else make_result v = Inl (Ereport ERROR ERRCODE_NUMERIC_VALUE_OUT_OF_RANGE)"
proof -
  obtain ds0 w0 where s: "strip_leading (digits v) (weight v) = (ds0, w0)" by fastforce
  define ds w s where "ds = strip_trailing ds0" and "w = (if ds = [] then 0 else w0)" and "s = (if ds = [] then NUMERIC_POS else sign v)"
  have u: "strip_var v = \<lparr>weight = w, sign = s, dscale = dscale v, digits = ds\<rparr>"
    using s by (simp add: strip_var_def Let_def ds_def w_def s_def)
  have sn: "s \<noteq> NUMERIC_NAN" using assms by (simp add: s_def)
  define res where "res = (if NUMERIC_CAN_BE_SHORT (dscale v) w then \<lparr>n_header = short_header s (dscale v) w, n_body = ds\<rparr>
    else \<lparr>n_header = to_u16 (sign_flags s OR (dscale v AND NUMERIC_DSCALE_MASK)), n_body = to_s16 w # ds\<rparr>)"
  have eq: "make_result v = (if NUMERIC_WEIGHT res \<noteq> w \<or> NUMERIC_DSCALE res \<noteq> dscale v then Inl (Ereport ERROR ERRCODE_NUMERIC_VALUE_OUT_OF_RANGE) else Inr res)"
    using assms s by (simp add: make_result_def Let_def ds_def [symmetric] res_def w_def s_def)
  have po: "pack_ok v \<longleftrightarrow> 0 \<le> dscale v \<and> dscale v < 2 ^ 14 \<and> - (2 ^ 15) \<le> w \<and> w < 2 ^ 15" by (simp add: pack_ok_def u)
  consider "dscale v < 0" | "0 \<le> dscale v" "NUMERIC_CAN_BE_SHORT (dscale v) w" | "0 \<le> dscale v" "\<not> NUMERIC_CAN_BE_SHORT (dscale v) w" by linarith
  then show ?thesis
  proof cases
    case 1
    then have "NUMERIC_DSCALE res \<noteq> dscale v" using NUMERIC_DSCALE_nonneg [of res] by simp
    then show ?thesis using eq po 1 by simp
  next
    case 2
    then have b: "dscale v \<le> 63" "- 64 \<le> w" "w \<le> 63" by (simp_all add: NUMERIC_CAN_BE_SHORT_def header_defs drop_bit_eq_div)
    note f = short_fields [OF 2(1) b, of res s ds]
    have "res = \<lparr>n_header = short_header s (dscale v) w, n_body = ds\<rparr>" using 2(2) by (simp add: res_def)
    note f = f [OF this]
    have "make_result v = Inr res" using eq f by simp
    moreover have "init_var_from_num res = strip_var v" using f sn by (cases s) (simp_all add: init_var_from_num_def u)
    moreover have "pack_ok v" using po 2(1) b by simp
    ultimately show ?thesis using f(2) by simp
  next
    case 3
    have "res = \<lparr>n_header = to_u16 (sign_flags s OR (dscale v AND NUMERIC_DSCALE_MASK)), n_body = to_s16 w # ds\<rparr>" using 3(2) by (simp add: res_def)
    note f = long_fields [OF sn this]
    have d: "dscale v mod 2 ^ 14 = dscale v \<longleftrightarrow> dscale v < 2 ^ 14"
    proof
      assume "dscale v mod 2 ^ 14 = dscale v"
      moreover have "dscale v mod 2 ^ 14 < 2 ^ 14" by simp
      ultimately show "dscale v < 2 ^ 14" by linarith
    qed (use 3(1) in simp)
    have iff: "NUMERIC_WEIGHT res \<noteq> w \<or> NUMERIC_DSCALE res \<noteq> dscale v \<longleftrightarrow> \<not> pack_ok v"
      unfolding f(4,5) po d to_s16_iff using 3(1) by blast
    show ?thesis
    proof (cases "pack_ok v")
      case True
      then have "NUMERIC_WEIGHT res = w" "NUMERIC_DSCALE res = dscale v" using iff by blast+
      then have "init_var_from_num res = strip_var v" using f(3,6,7) by (simp add: init_var_from_num_def u)
      then show ?thesis using True f(2) eq iff by simp
    next
      case False
      then show ?thesis using eq iff by simp
    qed
  qed
qed

lemma make_result_nan: "sign v = NUMERIC_NAN \<Longrightarrow> \<exists>n. make_result v = Inr n \<and> NUMERIC_IS_NAN n"
  by (simp add: make_result_def NUMERIC_IS_NAN_def NUMERIC_NB_FLAGBITS_def sign_flags_def NUMERIC_BI_MASK_def)

lemma strip_canonical: "canonical v \<Longrightarrow> strip_var v = v"
proof -
  assume c: "canonical v"
  show ?thesis
  proof (cases "digits v")
    case Nil
    then show ?thesis using c by (simp add: strip_var_def canonical_def strip_trailing_def)
  next
    case (Cons d ds)
    then have l: "strip_leading (digits v) (weight v) = (digits v, weight v)" using c by (simp add: canonical_def)
    have "strip_trailing (digits v) = digits v"
    proof -
      have "rev (digits v) = last (digits v) # rev (butlast (digits v))" using Cons by (metis append_butlast_last_id list.distinct(1) rev_append rev.simps(2) append_Cons append_Nil rev_singleton_conv)
      then have "dropWhile (\<lambda>d. d = 0) (rev (digits v)) = rev (digits v)" using c Cons by (simp add: canonical_def)
      then show ?thesis by (simp add: strip_trailing_def)
    qed
    then show ?thesis using l Cons by (simp add: strip_var_def)
  qed
qed

end
