(* ===== verification/NumericRun.thy ===== *)
theory NumericRun
  imports NumericPack
begin

text \<open>
  The properties of numeric arithmetic. They are stated for operands within the limits of the packed format, for which no weight, scale or number of digits that
  comes up exceeds an \<^verbatim>\<open>int\<close>.
\<close>

definition in_limits :: "NumericVar \<Rightarrow> bool" where
  "in_limits v \<longleftrightarrow> - (2 ^ 15) \<le> weight v \<and> weight v < 2 ^ 15 \<and> 0 \<le> dscale v \<and> dscale v < 2 ^ 14 \<and> ndigits v < 2 ^ 16"

text \<open>Two sample operands, \<open>12345.67\<close> and \<open>-0.03\<close>.\<close>

definition sample_var1 :: NumericVar where
  "sample_var1 = \<lparr>weight = 1, sign = NUMERIC_POS, dscale = 2, digits = [1, 2345, 6700]\<rparr>"

definition sample_var2 :: NumericVar where
  "sample_var2 = \<lparr>weight = - 1, sign = NUMERIC_NEG, dscale = 2, digits = [300]\<rparr>"

lemma sample_vals: "nval sample_var1 = 1234567 / 100" "nval sample_var2 = - 3 / 100"
  by (simp_all add: nval_def nabs_def sample_var1_def sample_var2_def NBASE_def)

text \<open>
  C12. Addition, subtraction and multiplication are exact: for operands without leading and trailing zero digits, with no more decimals than their display scale says and within the limits of the packed
  format, \<open>add_var\<close> and \<open>sub_var\<close> give the exact sum and difference with the greater of the two scales, and \<open>mul_var\<close>, asked for the sum of the two scales as the
  operator does, gives the exact product, although its accumulator of 32-bit integers propagates carries only when they might overflow. The results have no leading or trailing zero digits.
\<close>

theorem numeric_ring_operations_exact:
  assumes "canonical v1" "scale_ok v1" "in_limits v1" and "canonical v2" "scale_ok v2" "in_limits v2"
  shows "nval (add_var v1 v2) = nval v1 + nval v2 \<and> canonical (add_var v1 v2) \<and> dscale (add_var v1 v2) = max (dscale v1) (dscale v2) \<and>
    nval (sub_var v1 v2) = nval v1 - nval v2 \<and> canonical (sub_var v1 v2) \<and> dscale (sub_var v1 v2) = max (dscale v1) (dscale v2) \<and>
    nval (mul_var v1 v2 (dscale v1 + dscale v2)) = nval v1 * nval v2 \<and> canonical (mul_var v1 v2 (dscale v1 + dscale v2)) \<and>
    dscale (mul_var v1 v2 (dscale v1 + dscale v2)) = dscale v1 + dscale v2"
  using add_var_spec sub_var_spec mul_var_exact [OF assms(1,2,4,5) order.refl] assms(1,4) by simp

theorem numeric_ring_operations_exact_witness:
  "nval (add_var sample_var1 sample_var2) = 1234564 / 100 \<and> nval (mul_var sample_var1 sample_var2 4) = - 3703701 / 10000"
proof -
  have "canonical sample_var1" "canonical sample_var2" by (simp_all add: canonical_def var_ok_def sample_var1_def sample_var2_def NBASE_def)
  moreover have "scale_ok sample_var1" "scale_ok sample_var2"
    by (simp_all add: scale_ok_def sample_vals) (simp_all add: sample_var1_def sample_var2_def)
  moreover have "in_limits sample_var1" "in_limits sample_var2" by (simp_all add: in_limits_def sample_var1_def sample_var2_def)
  moreover have "dscale sample_var1 + dscale sample_var2 = 4" by (simp add: sample_var1_def sample_var2_def)
  ultimately show ?thesis using numeric_ring_operations_exact [of sample_var1 sample_var2] sample_vals by simp
qed

text \<open>
  C13. Division: for operands without leading and trailing zero digits and within the limits of the packed format, \<open>div_var\<close> raises the error of a division by zero if the divisor is zero, and otherwise gives the quotient
  at the requested scale, correctly rounded (half away from zero) or truncated towards zero as asked, although each quotient digit is estimated from the first two digits of the divisor
  and corrected. The result has no leading or trailing zero digits.
\<close>

theorem numeric_division_rounds:
  assumes "canonical v1" "in_limits v1" and "canonical v2" "in_limits v2" and "0 \<le> rs" "rs < 2 ^ 14"
  shows "if digits v2 = [] then div_var v1 v2 rs rnd = Inl (Ereport ERROR ERRCODE_DIVISION_BY_ZERO)
    else \<exists>r. div_var v1 v2 rs rnd = Inr r \<and> nval r = div_rounded rnd (nval v1 / nval v2) rs \<and> canonical r \<and> dscale r = rs"
proof (cases "digits v2 = []")
  case True
  then show ?thesis by (simp add: div_var_def)
next
  case False
  have "var_ok v1" "var_ok v2" "digits v2 ! 0 \<noteq> 0" using assms(1,3) False by (auto simp: canonical_def hd_conv_nth)
  then show ?thesis using div_var_spec [OF _ _ False, of v1 rs rnd] False by simp
qed

theorem numeric_division_rounds_witness:
  "\<exists>r. div_var sample_var1 sample_var2 3 True = Inr r \<and> nval r = div_rounded True (- 1234567 / 3) 3"
proof -
  have "canonical sample_var1" "canonical sample_var2" by (simp_all add: canonical_def var_ok_def sample_var1_def sample_var2_def NBASE_def)
  moreover have "in_limits sample_var1" "in_limits sample_var2" by (simp_all add: in_limits_def sample_var1_def sample_var2_def)
  moreover have "digits sample_var2 \<noteq> []" by (simp add: sample_var2_def)
  ultimately show ?thesis using numeric_division_rounds [of sample_var1 sample_var2 3 True] sample_vals by auto
qed

end
