(* ===== verification/Spec2Isabelle.thy ===== *)
theory Spec2Isabelle
  imports HashFunc Bitmapset BinaryHeap QSort FsmPage FreeSpace Encode BufPage IndexPage DictPage PageUpgrade SpaceMap Hio HeapInsert
    ReorderBuffer ReorderSpill ReorderMerge ReorderDecode ReorderTable ReorderTableInv ReorderRefine ReorderSim ReorderRun
    DynaHash DynaHashInv DynaHashMap DynaHashCreate DynaHashScan DynaHashBuf DynaHashRun
    Numeric NumericVal NumericAdd NumericRound NumericMul NumericDiv NumericFunc NumericPack NumericRun
begin

text \<open>
  A verification library for support and storage components of openGauss with K2 storage (a PostgreSQL
  derivative). It models code of \<^verbatim>\<open>src/src\<close> in HOL and proves its functional correctness, its
  invariants, its termination, its error behaviour and its bounds.

  \<^bold>\<open>The parts of the program and where they are modelled.\<close>

  \<^item> \<open>Prelude\<close>: integer types, \<^verbatim>\<open>ereport\<close> at ERROR and above as a left value, \<^verbatim>\<open>MAXALIGN\<close>, facts on words.
  \<^item> \<open>Comparator\<close>: the contract of a C comparison callback, as the locale \<open>comparator\<close>.
  \<^item> \<open>HashFunc\<close>: \<^verbatim>\<open>storage/access/hash/hashfunc.cpp\<close> (\<^verbatim>\<open>hash_any\<close> on both byte orders and on
    aligned and unaligned keys, \<^verbatim>\<open>hash_uint32\<close>) and the key hashes of \<^verbatim>\<open>utils/hash/hashfn.cpp\<close>.
  \<^item> \<open>IntSet\<close>, \<open>Bitmapset\<close>: the interface of a set of non-negative integers (locales \<open>int_set\<close>, \<open>int_set_iter\<close>)
    and \<^verbatim>\<open>nodes/bitmapset.cpp\<close>, which implements it.
  \<^item> \<open>BinaryHeap\<close>: \<^verbatim>\<open>lib/binaryheap.cpp\<close>, with the interface of a priority queue (locale \<open>priority_queue\<close>).
  \<^item> \<open>QSort\<close>: \<^verbatim>\<open>port/qsort.cpp\<close> and \<^verbatim>\<open>port/qsort_arg.cpp\<close>.
  \<^item> \<open>FsmPage\<close>, \<open>FreeSpace\<close>: the free space map, \<^verbatim>\<open>freespace/fsmpage.cpp\<close> (the binary tree within a page)
    and \<^verbatim>\<open>freespace/freespace.cpp\<close> (the tree of pages, and the heap's entry points).
  \<^item> \<open>BufPage\<close>: the slotted page of \<^verbatim>\<open>access/redo/redo_bufpage.cpp\<close> and \<^verbatim>\<open>page/bufpage.cpp\<close>, with adding and
    compaction; \<open>IndexPage\<close>: deletion from index pages (locale \<open>item_array\<close>, the page as an array of items); \<open>DictPage\<close>: the
    compression dictionary of a page; \<open>PageUpgrade\<close>: the upgrade of a page with 32-bit transaction ids.
  \<^item> \<open>SpaceMap\<close>: what the free space map promises to the code that looks for a page, as the locale \<open>space_map\<close>.
  \<^item> \<open>Hio\<close>, \<open>HeapInsert\<close>: \<^verbatim>\<open>access/heap/hio.cpp\<close>, definitions and proofs: finding a page for a
    tuple, extending the relation, putting the tuple on the page.
  \<^item> \<open>ReorderBuffer\<close>: \<^verbatim>\<open>replication/logical/reorderbuffer.cpp\<close>, the queueing, spilling, reading back and merging of the
    changes of a transaction and its subtransactions; proofs in \<open>ReorderSpill\<close> (contents of a transaction on disk and in memory),
    \<open>ReorderMerge\<close> (the iterator) and \<open>ReorderDecode\<close> (a tree of transactions is decoded in the order of the log).
  \<^item> \<open>ReorderTable\<close>: the transaction table of the same file, its calls from the first record of a transaction to its end, and the
    commit and abort records of \<^verbatim>\<open>replication/logical/decode.cpp\<close>; the invariant of the table is in \<open>ReorderTableInv\<close>. \<open>ReorderRefine\<close> has the sequences of calls and
    their specification on the level of the log, \<open>ReorderSim\<close> the simulation relation and the calls that do not move changes, \<open>ReorderRun\<close> those that do, and the theorems.
  \<^item> \<open>DynaHash\<close>: the dynamic hash tables of \<^verbatim>\<open>utils/hash/dynahash.cpp\<close>, that is search, insertion, removal, growth, free lists and
    the list of active scans. \<open>DynaHashInv\<close> has the contract of the functions on keys (locale \<open>hash_keys\<close>) and the invariant of a table, \<open>DynaHashMap\<close> the calls of a client
    and the map that they refine, \<open>DynaHashCreate\<close> \<^verbatim>\<open>hash_create\<close> with the sizes and the default functions on keys, \<open>DynaHashScan\<close> the sequential scan, \<open>DynaHashBuf\<close>
    the search routine of the buffer table, \<open>DynaHashRun\<close> the theorems.
  \<^item> \<open>Encode\<close>: \<^verbatim>\<open>utils/adt/encode.cpp\<close> (hex, base64, escape) with \<^verbatim>\<open>port/pgstrcasecmp.cpp\<close>.

  \<^item> \<open>Numeric\<close>: the arithmetic of \<^verbatim>\<open>utils/adt/numeric.cpp\<close> on variables in base 10000. \<open>NumericVal\<close> has the rational value of a variable, \<open>NumericAdd\<close>, \<open>NumericRound\<close>,
    \<open>NumericMul\<close> and \<open>NumericDiv\<close> the proofs for addition and subtraction, rounding and truncation, multiplication and division, \<open>NumericFunc\<close> remainder, ceiling, floor (locale \<open>integer_part\<close>), declared
    precisions and integer conversions, \<open>NumericPack\<close> the packed format, \<open>NumericRun\<close> the theorems.

  \<^bold>\<open>How they interact.\<close> Bitmap sets are hash keys through \<^verbatim>\<open>hash_any\<close>. The heap and the sort call
  back into a comparator; page compaction sorts its line pointers with \<^verbatim>\<open>pg_qsort\<close> under
  \<^verbatim>\<open>ItemOffCompare\<close>. The map of free space stores in each slot a category computed from what the slotted
  page reports; heap insertion asks it for a page, checks that page, reports what it found, asks again or extends the relation, and
  adds the tuple with \<^verbatim>\<open>PageAddItem\<close>. The iterator of the reorder buffer keeps the next change of each transaction in the
  binary heap, under a comparison that reads the entries of the iterator, and replaces the root in place. A hash table takes its functions on keys from
  \<open>HashFunc\<close> and \<open>Bitmapset\<close>.

  \<^bold>\<open>How state and operations correspond.\<close> A struct is a record with the field names of the source, an
  array is a list (or a function of the index, for the line pointers and bytes of a page, where the code may
  read past the end), an integer whose wrap-around matters is a word or has its modulus written
  out. An operation returns the updated state. Loops are recursive functions with
  termination proofs; \<^verbatim>\<open>fsm_search_avail\<close>, \<^verbatim>\<open>UpdateFreeSpaceMap\<close> and \<^verbatim>\<open>scan_rightmost_one\<close>, which
  may run for ever on some states, \<^verbatim>\<open>my_log2\<close>, which may run for ever on some inputs, and the loop of \<^verbatim>\<open>RelationGetBufferForTuple\<close> are partial functions into \<open>option\<close>,
  and the theorems say when they return. What other backends may do to a page of the map while a lock is upgraded, and to a relation
  while its extension lock is awaited, are arguments of the search. Which allocations of a hash table succeed is a function from their number, so that every failure is a branch.

  \<^bold>\<open>What the theorems show.\<close>

  \<^item> Page: compaction, insertion, deletion (one by one or many at once) and the upgrade keep the page in order and every other
    tuple's bytes; the reported free space is usable; when the dictionary of a page is freed (\<open>BufPage\<close>, \<open>IndexPage\<close>, \<open>DictPage\<close>, \<open>PageUpgrade\<close>).
  \<^item> Insertion: the page that the search returns takes the tuple, whose transaction id can be read back, and the search ends unless the map has entries for block numbers
    that do not exist; where it stops the server or rejects a tuple that a page could take (\<open>HeapInsert\<close>, \<open>PageUpgrade\<close>).
  \<^item> Map: a tree invariant that the updates keep and the rebuild establishes; the search returns only
    pages with enough recorded space, and after a vacuum of a map without torn pages it misses none; what is recorded is read back;
    truncation forgets exactly the truncated blocks; when \<^verbatim>\<open>UpdateFreeSpaceMap\<close> does not return.
  \<^item> Sort and heap: any array of less than 2 GB is sorted, any elements come out of the heap in order.
  \<^item> Logical decoding: every sequence of calls that meets the conditions \<open>allowed\<close> (positions do not go back, transactions are linked in two levels, the end of
    a transaction names its subtransactions still in progress, a base snapshot is set once and at a new position) refines a specification that knows no cache, no files and no iterator: whatever was spilled,
    a committed transaction comes out once, in the order of the log, up to its first command id; the table stays consistent and no spill file is left behind (\<open>ReorderRun\<close>). The
    merge is specified by the relation \<open>merge_of\<close>: changes of different transactions at one position, such as the snapshots distributed at a commit, come out in
    either order (\<open>ReorderMerge\<close>, \<open>ReorderDecode\<close>).
  \<^item> Hash tables: a table that \<^verbatim>\<open>hash_create\<close> made answers every sequence of calls as a map would, except where memory runs out or the table is frozen, and keeps its invariant; a
    fixed table for at most \<^verbatim>\<open>INT_MAX\<close> elements takes as many entries as it was made for; a scan returns every element once while the caller deletes what it got; the directory size computed beforehand is the one needed;
    the copy of the search for buffers agrees with the general one (\<open>DynaHashRun\<close>).
  \<^item> Sets and hashes: each operation refines the operation on mathematical sets; equal keys
    have equal hashes; the hash does not depend on alignment, and its mixing step is reversible.
  \<^item> Encodings: round trip for every name and every input, no overflow of either estimate; what becomes of data after a base64 end sequence.
  \<^item> Numbers: sums, differences and products are exact, quotients are correctly rounded or truncated; rounding, remainder, ceiling and floor, conversions from and to
    integers, and packing and unpacking (\<open>NumericRun\<close>, \<open>NumericFunc\<close>, \<open>NumericPack\<close>).

  \<^bold>\<open>Bounds.\<close> The block size is 8192, the alignment 8, a bitmap word has 32 bits, block numbers are below \<open>2 ^ 32\<close>.
  Fuel appears only in the client loops \<open>iterate_members\<close>, \<open>drain\<close>, \<open>iterate_changes\<close> and \<open>replay_changes\<close>, where the number of elements is
  proved to be enough. The byte distances within \<^verbatim>\<open>pg_qsort\<close> and the numbers of elements that a hash table allocates in advance are of type \<^verbatim>\<open>int\<close>: where a
  distance does not fit the sort has no result, the numbers of elements are narrowed as in the code, and the theorems that need it have the bound \<^verbatim>\<open>INT_MAX\<close> as a hypothesis.
  Bucket numbers are unbounded, which is exact below \<open>2 ^ 32\<close> buckets; the size that \<^verbatim>\<open>binaryheap_allocate\<close> computes in an \<^verbatim>\<open>int\<close> is exact for a capacity
  below \<open>2 ^ 28\<close>, and the cast of the item size in \<^verbatim>\<open>PageAddItem\<close> for items below 2 GB. Weights and scales of numbers are unbounded, which is exact for operands within the
  limits of the packed format; the theorems are stated for those.

  \<^bold>\<open>Not modelled.\<close> Memory release; WAL replay of the free space map; page checksums, verification and encryption; the ustore format (with the branches of
  \<^verbatim>\<open>RelationAddExtraBlocks\<close> for it); what a commit does with each decoded change, the contents of snapshots, invalidation messages, and the on-disk format of the reorder buffer; text
  input and output, square root, exponential and logarithm, the fast division and the big integer formats of numbers; attaching to
  a shared hash table, destroying one, spinlocks, memory contexts and statistics of hash tables;
  buffer and lock manager (pins and locks of buffers), file I/O, the log, transaction status, the access methods, SQL
  processing, the in-memory engine, and the K2 glue, which is made of calls to an external client library.
\<close>

end
